(* ===== verification/Prelude.thy ===== *)
theory Prelude
  imports Main "HOL-Library.Word"
begin

text \<open>
  Shared vocabulary of the development: the machine integer types of the i386 kernel, the
  alignment helpers that the memory-management files repeat, and the facts about 32-bit words
  that the component theories use. Addresses and sizes are \<open>32 word\<close> values, so every sum and
  difference wraps around exactly as \<open>uint32_t\<close> does.
\<close>

unbundle bit_operations_syntax

type_synonym u8 = "8 word"
type_synonym u16 = "16 word"
type_synonym u32 = "32 word"
type_synonym u64 = "64 word"

named_theorems page_simps \<open>facts about page alignment\<close>

section \<open>Alignment helpers\<close>

text \<open>\<open>align_up_u32\<close> and \<open>align_down_u32\<close> of \<open>pmm_bitmap.c\<close> (\<open>align_up\<close> and \<open>align_down\<close> of
  \<open>pmm_buddy.c\<close>), for an alignment \<open>a\<close> that is a power of two.\<close>

definition align_up_u32 :: "u32 \<Rightarrow> u32 \<Rightarrow> u32" where
  "align_up_u32 v a = (v + (a - 1)) AND NOT (a - 1)"

definition align_down_u32 :: "u32 \<Rightarrow> u32 \<Rightarrow> u32" where
  "align_down_u32 v a = v AND NOT (a - 1)"

definition page_aligned :: "u32 \<Rightarrow> bool" where
  "page_aligned a \<longleftrightarrow> a AND 0xFFF = 0"

section \<open>Facts about words\<close>

lemma unat_lt_2p32: "unat x < 4294967296" for x :: u32
  using unsigned_less [of x] by simp

lemma unat_inc: "i < n \<Longrightarrow> unat (i + 1) = Suc (unat i)" for i n :: "'a::len word"
  by unat_arith

text \<open>A counter that runs up to a bound gets closer to it.\<close>

lemma loop_measure: "i < n \<Longrightarrow> unat n - unat (i + 1) < unat n - unat i" for i n :: "'a::len word"
  by (simp add: unat_inc word_less_nat_alt diff_less_mono2)

lemma loop_measure_8: "b < 8 \<Longrightarrow> 8 - unat (b + 1) < 8 - unat b" for b :: u32
  using loop_measure [of b 8] by simp

lemma unat_of_nat_less: "k < unat n \<Longrightarrow> unat (of_nat k :: u32) = k" for n :: u32
  using unat_lt_2p32 [of n] by (simp add: unat_of_nat)

lemma card_words_below: "card {i. i < n} = unat n" for n :: u32
proof -
  have "unat ` {i. i < n} = {..< unat n}"
  proof (intro equalityI subsetI)
    fix k assume "k \<in> {..< unat n}"
    then have "unat (of_nat k :: u32) = k" "k < unat n" by (auto simp: unat_of_nat_less)
    then show "k \<in> unat ` {i. i < n}"
      by (intro image_eqI [of _ _ "of_nat k"]) (auto simp: word_less_nat_alt)
  qed (auto simp: word_less_nat_alt)
  moreover have "inj_on unat {i. i < n}" by (rule inj_onI) (simp add: word_unat_eq_iff)
  ultimately show ?thesis using card_image [of unat "{i. i < n}"] by simp
qed

lemma unat_dec: "0 < i \<Longrightarrow> unat (i - 1) = unat i - 1" for i :: "'a::len word"
  by (simp add: unat_minus_one word_gt_0)

lemma unat_add_no_wrap:
  "unat a + unat b < 2 ^ LENGTH('a) \<Longrightarrow> unat (a + b) = unat a + unat b" for a b :: "'a::len word"
  by (simp add: unat_add_lem)

lemma unat_and_mask: "unat (w AND mask n) = unat w mod 2 ^ n" for w :: "'a::len word"
proof -
  have "unat (take_bit n w) = take_bit n (unat w)" by (rule unsigned_take_bit_eq)
  then show ?thesis by (simp only: take_bit_eq_mask) (simp add: take_bit_eq_mod flip: take_bit_eq_mask)
qed

lemma unat_and_not_mask: "unat (w AND NOT (mask n)) = unat w - unat w mod 2 ^ n"
  for w :: "'a::len word"
proof -
  have "w - (w AND mask n) = w AND NOT (w AND mask n)"
    by (rule disjunctive_diff) (simp add: bit_and_iff)
  also have "\<dots> = w AND NOT (mask n)"
    by (rule bit_word_eqI) (auto simp: bit_simps)
  finally have "unat (w AND NOT (mask n)) = unat (w - (w AND mask n))" by simp
  also have "\<dots> = unat w - unat (w AND mask n)"
    by (rule unat_sub) (rule word_and_le2)
  finally show ?thesis by (simp add: unat_and_mask)
qed

lemma low_12_mask: "(0xFFF :: u32) = mask 12"
  by (simp add: mask_eq_exp_minus_1)

lemma unat_and_4095 [page_simps]: "unat (a AND 0xFFF) = unat a mod 4096" for a :: u32
  using unat_and_mask [of a 12] by (simp add: low_12_mask)

lemma unat_and_not_4095 [page_simps]: "unat (a AND - 4096) = unat a - unat a mod 4096" for a :: u32
  using unat_and_not_mask [of a 12] by (simp flip: low_12_mask)

lemma page_aligned_iff: "page_aligned a \<longleftrightarrow> 4096 dvd unat a"
proof -
  have "page_aligned a \<longleftrightarrow> unat (a AND 0xFFF) = 0"
    by (simp add: page_aligned_def unsigned_eq_0_iff)
  then show ?thesis by (simp add: unat_and_4095 dvd_eq_mod_eq_0)
qed

lemma unat_align_down [page_simps]: "unat (align_down_u32 v 4096) = unat v - unat v mod 4096"
  by (simp add: align_down_u32_def unat_and_not_4095)

lemma align_down_le: "align_down_u32 v 4096 \<le> v"
  by (simp add: word_le_nat_alt unat_align_down)

lemma page_aligned_align_down: "page_aligned (align_down_u32 v 4096)"
  by (simp add: page_aligned_iff unat_align_down minus_mod_eq_mult_div)

lemma page_aligned_align_up: "page_aligned (align_up_u32 v 4096)"
  by (simp add: align_up_u32_def page_aligned_iff unat_and_not_4095 minus_mod_eq_mult_div)

lemma unat_align_up:
  assumes "unat v \<le> 0xFFFFF000"
  shows "unat (align_up_u32 v 4096) = (unat v + 4095) div 4096 * 4096"
proof -
  have "unat (v + 4095) = unat v + 4095"
    using assms by (subst unat_add_no_wrap) auto
  then show ?thesis
    by (simp add: align_up_u32_def unat_and_not_4095 minus_mod_eq_div_mult)
qed

lemma align_up_ge: "unat v \<le> 0xFFFFF000 \<Longrightarrow> v \<le> align_up_u32 v 4096"
  by (simp add: word_le_nat_alt unat_align_up)

text \<open>Beyond the last page boundary \<open>align_up\<close> wraps around to zero.\<close>

lemma align_up_wraps: "0xFFFFF000 < unat v \<Longrightarrow> align_up_u32 v 4096 = 0"
proof -
  assume big: "0xFFFFF000 < unat v"
  have "unat v < 2 ^ 32" using unsigned_less [of v] by simp
  with big have "unat (v + 4095) = unat v + 4095 - 2 ^ 32"
    by (simp add: unat_word_ariths mod_if)
  with big \<open>unat v < 2 ^ 32\<close> have "unat (v + 4095) < 4096" by simp
  then have "unat (align_up_u32 v 4096) = 0"
    by (simp add: align_up_u32_def unat_and_not_4095)
  then show ?thesis by (simp add: unsigned_eq_0_iff)
qed

lemma page_aligned_add: "page_aligned a \<Longrightarrow> page_aligned b \<Longrightarrow> page_aligned (a + b)"
  by (auto simp: page_aligned_iff unat_word_ariths intro!: dvd_mod)

section \<open>Lists updated in place\<close>

text \<open>An update of one field of one element leaves every other field of every element alone, also
  when the index is out of range.\<close>

lemma nth_update_field: "f (g (xs ! i)) = f (xs ! i) \<Longrightarrow> f (xs[i := g (xs ! i)] ! j) = f (xs ! j)"
  by (cases "i < length xs") (auto simp: nth_list_update list_update_beyond)

section \<open>Binary search\<close>

text \<open>The search the array code runs, over a predicate that holds on a prefix of \<open>[0, n)\<close>.\<close>

function bisect :: "(nat \<Rightarrow> bool) \<Rightarrow> nat \<Rightarrow> nat \<Rightarrow> nat" where
  "bisect P left right =
     (if left < right then
        (let mid = left + (right - left) div 2 in
         if P mid then bisect P (mid + 1) right else bisect P left mid)
      else left)"
  by pat_completeness auto
termination by (relation "measure (\<lambda>(P, left, right). right - left)") auto

declare bisect.simps [simp del]

lemma bisect_split:
  assumes "\<forall>i j. i \<le> j \<longrightarrow> j < n \<longrightarrow> P j \<longrightarrow> P i" and "left \<le> right" "right \<le> n"
    and "\<forall>i < left. P i" and "\<forall>i. right \<le> i \<longrightarrow> i < n \<longrightarrow> \<not> P i"
  shows "bisect P left right \<le> n \<and> (\<forall>i < bisect P left right. P i) \<and>
    (\<forall>i. bisect P left right \<le> i \<longrightarrow> i < n \<longrightarrow> \<not> P i)"
  using assms
proof (induction P left right rule: bisect.induct)
  case (1 P left right)
  define mid where "mid = left + (right - left) div 2"
  show ?case
  proof (cases "left < right")
    case True
    then have mid: "left \<le> mid" "mid < right" "mid < n" using 1(5) by (auto simp: mid_def)
    have step: "bisect P left right = (if P mid then bisect P (mid + 1) right else bisect P left mid)"
      using True by (subst bisect.simps) (simp add: Let_def flip: mid_def)
    show ?thesis
    proof (cases "P mid")
      case lt: True
      have "\<forall>i < mid + 1. P i"
        using 1(3) lt mid(3) by (metis Suc_eq_plus1 less_Suc_eq_le)
      with 1(1) [OF True mid_def lt] 1(3-) mid step lt show ?thesis by simp
    next
      case ge: False
      have "\<forall>i. mid \<le> i \<longrightarrow> i < n \<longrightarrow> \<not> P i" using 1(3) ge by blast
      with 1(2) [OF True mid_def ge] 1(3-) mid step ge show ?thesis by simp
    qed
  next
    case False
    with 1(3-) show ?thesis by (simp add: bisect.simps)
  qed
qed

end
