(* ===== verification/Vma.thy ===== *)
theory Vma
  imports Prelude
begin

text \<open>
  Virtual memory areas: the record of \<open>vma.h\<close>, the abstract specification that every VMA
  back-end has to meet (a list of disjoint, page-aligned intervals in address order), the
  interface locale \<open>vma_backend\<close> with the facts a client may rely on, and the dispatch layer
  \<open>vma.c\<close> that forwards the public calls through a table of function pointers.
\<close>

section \<open>The public data\<close>

record vm_area =
  va_start :: u32
  va_end :: u32
  va_flags :: u32
  va_name :: "string option"

definition VMA_READ :: u32 where "VMA_READ = 1"
definition VMA_WRITE :: u32 where "VMA_WRITE = 2"
definition VMA_EXEC :: u32 where "VMA_EXEC = 4"

definition mk_area :: "u32 \<Rightarrow> u32 \<Rightarrow> u32 \<Rightarrow> string option \<Rightarrow> vm_area" where
  "mk_area st en fl nm = \<lparr>va_start = st, va_end = en, va_flags = fl, va_name = nm\<rparr>"

section \<open>What a back-end promises\<close>

definition vma_range_ok :: "u32 \<Rightarrow> u32 \<Rightarrow> bool" where
  "vma_range_ok st en \<longleftrightarrow> st < en \<and> page_aligned st \<and> page_aligned en"

definition vma_overlaps :: "u32 \<Rightarrow> u32 \<Rightarrow> vm_area \<Rightarrow> bool" where
  "vma_overlaps st en a \<longleftrightarrow> st < va_end a \<and> va_start a < en"

definition vma_contains :: "u32 \<Rightarrow> vm_area \<Rightarrow> bool" where
  "vma_contains addr a \<longleftrightarrow> va_start a \<le> addr \<and> addr < va_end a"

definition vma_wf :: "vm_area list \<Rightarrow> bool" where
  "vma_wf xs \<longleftrightarrow> sorted_wrt (\<lambda>a b. va_end a \<le> va_start b) xs \<and>
     (\<forall>a \<in> set xs. vma_range_ok (va_start a) (va_end a))"

fun vma_insert :: "vm_area \<Rightarrow> vm_area list \<Rightarrow> vm_area list" where
  "vma_insert a [] = [a]"
| "vma_insert a (b # bs) = (if va_start b < va_start a then b # vma_insert a bs else a # b # bs)"

definition vma_spec_add ::
    "nat \<Rightarrow> vm_area list \<Rightarrow> u32 \<Rightarrow> u32 \<Rightarrow> u32 \<Rightarrow> string option \<Rightarrow> int \<times> vm_area list" where
  "vma_spec_add cap xs st en fl nm =
     (if cap \<le> length xs \<or> \<not> vma_range_ok st en \<or> list_ex (vma_overlaps st en) xs then (- 1, xs)
      else (0, vma_insert (mk_area st en fl nm) xs))"

definition vma_spec_remove :: "vm_area list \<Rightarrow> u32 \<Rightarrow> int \<times> vm_area list" where
  "vma_spec_remove xs st =
     (if list_ex (\<lambda>a. va_start a = st) xs then (0, filter (\<lambda>a. va_start a \<noteq> st) xs) else (- 1, xs))"

definition vma_spec_find :: "vm_area list \<Rightarrow> u32 \<Rightarrow> vm_area option" where
  "vma_spec_find xs addr = List.find (vma_contains addr) xs"

subsection \<open>Facts about the specification\<close>

lemma mk_area_sel [simp]:
  "va_start (mk_area st en fl nm) = st" "va_end (mk_area st en fl nm) = en"
  "va_flags (mk_area st en fl nm) = fl" "va_name (mk_area st en fl nm) = nm"
  by (simp_all add: mk_area_def)

lemma vma_wf_Nil [simp]: "vma_wf []"
  by (simp add: vma_wf_def)

lemma vma_wf_Cons: "vma_wf (a # xs) \<longleftrightarrow>
    vma_range_ok (va_start a) (va_end a) \<and> (\<forall>b \<in> set xs. va_end a \<le> va_start b) \<and> vma_wf xs"
  by (auto simp: vma_wf_def)

lemma vma_wf_append: "vma_wf (xs @ ys) \<longleftrightarrow>
    vma_wf xs \<and> vma_wf ys \<and> (\<forall>a \<in> set xs. \<forall>b \<in> set ys. va_end a \<le> va_start b)"
  by (auto simp: vma_wf_def sorted_wrt_append)

lemma vma_wf_range: "vma_wf xs \<Longrightarrow> a \<in> set xs \<Longrightarrow> va_start a < va_end a"
  by (auto simp: vma_wf_def vma_range_ok_def)

lemma vma_range_okD: "vma_range_ok st en \<Longrightarrow> st < en"
  by (simp add: vma_range_ok_def)

lemma set_vma_insert [simp]: "set (vma_insert a xs) = insert a (set xs)"
  by (induction xs) auto

lemma length_vma_insert [simp]: "length (vma_insert a xs) = Suc (length xs)"
  by (induction xs) auto

lemma vma_insert_append:
  assumes "\<forall>b \<in> set xs. va_start b < va_start a"
    and "\<forall>b \<in> set ys. \<not> va_start b < va_start a"
  shows "vma_insert a (xs @ ys) = xs @ a # ys"
  using assms by (induction xs) (cases ys; auto)+

lemma vma_wf_starts_sorted: "vma_wf xs \<Longrightarrow> sorted_wrt (\<lambda>a b. va_start a < va_start b) xs"
proof (induction xs)
  case (Cons a xs)
  then show ?case
    by (auto simp: vma_wf_Cons vma_range_ok_def intro: less_le_trans)
qed simp

lemma vma_wf_ends_mono:
  assumes "vma_wf xs" "i \<le> j" "j < length xs"
  shows "va_end (xs ! i) \<le> va_end (xs ! j)"
proof (cases "i = j")
  case False
  then have "va_end (xs ! i) \<le> va_start (xs ! j)"
    using assms by (auto simp: vma_wf_def sorted_wrt_iff_nth_less)
  also have "va_start (xs ! j) < va_end (xs ! j)"
    using assms by (intro vma_wf_range [OF assms(1)]) simp
  finally show ?thesis by simp
qed simp

lemma vma_wf_insert:
  assumes "vma_wf xs" "vma_range_ok (va_start a) (va_end a)"
    and "\<not> list_ex (vma_overlaps (va_start a) (va_end a)) xs"
  shows "vma_wf (vma_insert a xs)"
  using assms
proof (induction xs)
  case (Cons b xs)
  have sep: "va_end a \<le> va_start b \<or> va_end b \<le> va_start a"
    using Cons.prems(3) by (auto simp: vma_overlaps_def not_less)
  show ?case
  proof (cases "va_start b < va_start a")
    case True
    have "va_end b \<le> va_start a"
      using sep True vma_range_okD [OF Cons.prems(2)] by (auto dest: order.strict_trans2)
    with True Cons show ?thesis by (auto simp: vma_wf_Cons)
  next
    case False
    have "va_start b < va_end b" using Cons.prems(1) by (simp add: vma_wf_Cons vma_range_ok_def)
    with sep False have ab: "va_end a \<le> va_start b" by auto
    with \<open>va_start b < va_end b\<close> Cons.prems(1) have "\<forall>c \<in> set xs. va_end a \<le> va_start c"
      by (auto simp: vma_wf_Cons intro: order_trans less_imp_le)
    with ab False Cons.prems show ?thesis by (auto simp: vma_wf_Cons)
  qed
qed (simp add: vma_wf_Cons)

lemma vma_wf_filter: "vma_wf xs \<Longrightarrow> vma_wf (filter P xs)"
  by (auto simp: vma_wf_def intro: sorted_wrt_filter)

lemma vma_wf_spec_add: "vma_wf xs \<Longrightarrow> vma_wf (snd (vma_spec_add cap xs st en fl nm))"
  by (auto simp: vma_spec_add_def intro!: vma_wf_insert)

lemma vma_wf_spec_remove: "vma_wf xs \<Longrightarrow> vma_wf (snd (vma_spec_remove xs st))"
  by (auto simp: vma_spec_remove_def intro: vma_wf_filter)

text \<open>An address lies in at most one area.\<close>

lemma vma_wf_unique:
  assumes "vma_wf xs" "a \<in> set xs" "b \<in> set xs" "vma_contains addr a" "vma_contains addr b"
  shows "a = b"
  using assms
proof (induction xs)
  case (Cons c xs)
  have no: "\<not> vma_contains addr d" if "vma_contains addr c" "d \<in> set xs" for d
    using that Cons.prems(1) by (force simp: vma_contains_def vma_wf_Cons)
  then show ?case using Cons by (auto simp: vma_wf_Cons)
qed simp

lemma vma_wf_disjoint: "vma_wf xs \<Longrightarrow> a \<in> set xs \<Longrightarrow> b \<in> set xs \<Longrightarrow> a \<noteq> b \<Longrightarrow>
    va_end a \<le> va_start b \<or> va_end b \<le> va_start a"
  by (induction xs) (auto simp: vma_wf_Cons)

lemma vma_spec_find_Some:
  "vma_wf xs \<Longrightarrow> vma_spec_find xs addr = Some a \<longleftrightarrow> a \<in> set xs \<and> vma_contains addr a"
proof (induction xs)
  case (Cons b xs)
  then have IH: "vma_spec_find xs addr = Some a \<longleftrightarrow> a \<in> set xs \<and> vma_contains addr a"
    by (simp add: vma_wf_Cons)
  show ?case
    using IH vma_wf_unique [OF Cons.prems, of a b addr] by (auto simp: vma_spec_find_def)
qed (simp add: vma_spec_find_def)

lemma vma_spec_find_None:
  "vma_spec_find xs addr = None \<longleftrightarrow> (\<forall>a \<in> set xs. \<not> vma_contains addr a)"
  by (auto simp: vma_spec_find_def find_None_iff)

lemma vma_spec_find_eqI:
  assumes "vma_wf xs" "vma_wf ys"
    and "\<And>a. vma_contains addr a \<Longrightarrow> a \<in> set xs \<longleftrightarrow> a \<in> set ys"
  shows "vma_spec_find xs addr = vma_spec_find ys addr"
proof (cases "vma_spec_find xs addr")
  case None
  then have "vma_spec_find ys addr = None"
    using assms(3) by (auto simp: vma_spec_find_None)
  with None show ?thesis by simp
next
  case (Some a)
  then have "vma_spec_find ys addr = Some a"
    using assms by (auto simp: vma_spec_find_Some)
  with Some show ?thesis by simp
qed

text \<open>Finding after an insertion or a removal: the target area changes, nothing else does.\<close>

lemma vma_spec_find_insert:
  assumes "vma_wf xs" "vma_range_ok (va_start a) (va_end a)"
    and "\<not> list_ex (vma_overlaps (va_start a) (va_end a)) xs"
  shows "vma_spec_find (vma_insert a xs) addr =
    (if vma_contains addr a then Some a else vma_spec_find xs addr)"
proof -
  note wf = vma_wf_insert [OF assms]
  show ?thesis
  proof (cases "vma_contains addr a")
    case True
    then show ?thesis using wf by (simp add: vma_spec_find_Some)
  next
    case False
    then show ?thesis by (auto intro!: vma_spec_find_eqI wf assms(1))
  qed
qed

lemma vma_spec_find_filter:
  assumes "vma_wf xs"
  shows "vma_spec_find (filter (\<lambda>a. va_start a \<noteq> st) xs) addr =
    (case vma_spec_find xs addr of None \<Rightarrow> None | Some a \<Rightarrow> if va_start a = st then None else Some a)"
proof (cases "vma_spec_find xs addr")
  case None
  then have "vma_spec_find (filter (\<lambda>a. va_start a \<noteq> st) xs) addr = None"
    by (auto simp: vma_spec_find_None)
  with None show ?thesis by simp
next
  case (Some a)
  then have a: "a \<in> set xs" "vma_contains addr a"
    using assms by (auto simp: vma_spec_find_Some)
  show ?thesis
  proof (cases "va_start a = st")
    case True
    have "\<not> vma_contains addr b" if "b \<in> set xs" "va_start b \<noteq> st" for b
      using vma_wf_unique [OF assms that(1) a(1), of addr] a(2) that(2) True by blast
    then show ?thesis using Some True by (auto simp: vma_spec_find_None)
  next
    case False
    then show ?thesis using Some a vma_wf_filter [OF assms] by (simp add: vma_spec_find_Some)
  qed
qed

section \<open>The back-end interface\<close>

text \<open>The calls a client makes through \<open>vma_ops_t\<close>, and what it observes. \<open>dump\<close> only prints.\<close>

datatype vma_call = Call_Add u32 u32 u32 "string option" | Call_Remove u32 | Call_Find u32 | Call_Count

datatype vma_reply = Reply_Int int | Reply_Area "vm_area option" | Reply_Unsigned nat

fun vma_spec_call :: "nat \<Rightarrow> vm_area list \<Rightarrow> vma_call \<Rightarrow> vma_reply \<times> vm_area list" where
  "vma_spec_call cap xs (Call_Add st en fl nm) = map_prod Reply_Int id (vma_spec_add cap xs st en fl nm)"
| "vma_spec_call cap xs (Call_Remove st) = map_prod Reply_Int id (vma_spec_remove xs st)"
| "vma_spec_call cap xs (Call_Find addr) = (Reply_Area (vma_spec_find xs addr), xs)"
| "vma_spec_call cap xs Call_Count = (Reply_Unsigned (length xs), xs)"

fun run_calls :: "('s \<Rightarrow> vma_call \<Rightarrow> vma_reply \<times> 's) \<Rightarrow> 's \<Rightarrow> vma_call list \<Rightarrow> vma_reply list" where
  "run_calls f s [] = []"
| "run_calls f s (c # cs) = (case f s c of (r, s') \<Rightarrow> r # run_calls f s' cs)"

text \<open>A call dispatched to the four operations of a back-end.\<close>

fun vma_backend_call ::
  "('s \<Rightarrow> u32 \<Rightarrow> u32 \<Rightarrow> u32 \<Rightarrow> string option \<Rightarrow> int \<times> 's) \<Rightarrow> ('s \<Rightarrow> u32 \<Rightarrow> int \<times> 's) \<Rightarrow>
   ('s \<Rightarrow> u32 \<Rightarrow> vm_area option) \<Rightarrow> ('s \<Rightarrow> nat) \<Rightarrow> 's \<Rightarrow> vma_call \<Rightarrow> vma_reply \<times> 's" where
  "vma_backend_call ad rm fd ct s (Call_Add st en fl nm) = map_prod Reply_Int id (ad s st en fl nm)"
| "vma_backend_call ad rm fd ct s (Call_Remove st) = map_prod Reply_Int id (rm s st)"
| "vma_backend_call ad rm fd ct s (Call_Find addr) = (Reply_Area (fd s addr), s)"
| "vma_backend_call ad rm fd ct s Call_Count = (Reply_Unsigned (ct s), s)"

text \<open>
  The contract. \<open>areas\<close> abstracts the back-end's state to the list of its areas in address
  order; \<open>storage\<close> says that the static arrays have their declared sizes, which is all that
  holds before \<open>init\<close>.
\<close>

locale vma_backend =
  fixes cap :: nat
    and storage :: "'s \<Rightarrow> bool"
    and init :: "'s \<Rightarrow> 's"
    and add :: "'s \<Rightarrow> u32 \<Rightarrow> u32 \<Rightarrow> u32 \<Rightarrow> string option \<Rightarrow> int \<times> 's"
    and remove :: "'s \<Rightarrow> u32 \<Rightarrow> int \<times> 's"
    and find :: "'s \<Rightarrow> u32 \<Rightarrow> vm_area option"
    and count :: "'s \<Rightarrow> nat"
    and inv :: "'s \<Rightarrow> bool"
    and areas :: "'s \<Rightarrow> vm_area list"
  assumes init_inv: "storage s \<Longrightarrow> inv (init s)"
    and init_areas: "storage s \<Longrightarrow> areas (init s) = []"
    and inv_wf: "inv s \<Longrightarrow> vma_wf (areas s)"
    and add_inv: "inv s \<Longrightarrow> inv (snd (add s st en fl nm))"
    and add_areas: "inv s \<Longrightarrow>
      map_prod id areas (add s st en fl nm) = vma_spec_add cap (areas s) st en fl nm"
    and remove_inv: "inv s \<Longrightarrow> inv (snd (remove s st))"
    and remove_areas: "inv s \<Longrightarrow> map_prod id areas (remove s st) = vma_spec_remove (areas s) st"
    and find_areas: "inv s \<Longrightarrow> find s addr = vma_spec_find (areas s) addr"
    and count_areas: "inv s \<Longrightarrow> count s = length (areas s)"
begin

lemma call_inv: "inv s \<Longrightarrow> inv (snd (vma_backend_call add remove find count s c))"
  by (cases c) (simp_all add: add_inv remove_inv)

lemma call_refines:
  "inv s \<Longrightarrow> map_prod id areas (vma_backend_call add remove find count s c) = vma_spec_call cap (areas s) c"
proof (cases c)
  case (Call_Add st en fl nm)
  assume "inv s"
  from add_areas [OF this] Call_Add show ?thesis
    by (cases "add s st en fl nm") (auto simp flip: add_areas [OF \<open>inv s\<close>])
next
  case (Call_Remove st)
  assume "inv s"
  with Call_Remove show ?thesis
    by (cases "remove s st") (auto simp flip: remove_areas)
qed (auto simp: find_areas count_areas)

text \<open>Every sequence of calls is answered as the specification answers it.\<close>

lemma run_refines:
  "inv s \<Longrightarrow> run_calls (vma_backend_call add remove find count) s cs = run_calls (vma_spec_call cap) (areas s) cs"
proof (induction cs arbitrary: s)
  case (Cons c cs)
  obtain r s' where c: "vma_backend_call add remove find count s c = (r, s')"
    by (cases "vma_backend_call add remove find count s c")
  have "inv s'" using call_inv [OF Cons.prems, of c] c by simp
  moreover have "vma_spec_call cap (areas s) c = (r, areas s')"
    using call_refines [OF Cons.prems, of c] c by simp
  ultimately show ?case using c Cons.IH by simp
qed simp

lemma run_init_refines:
  "storage s \<Longrightarrow> run_calls (vma_backend_call add remove find count) (init s) cs = run_calls (vma_spec_call cap) [] cs"
  using run_refines [OF init_inv, of s] by (simp add: init_areas)

lemma add_find:
  assumes "inv s" and "add s st en fl nm = (0, s')"
  shows "find s' addr = (if st \<le> addr \<and> addr < en then Some (mk_area st en fl nm) else find s addr)"
proof -
  have "inv s'" using add_inv [OF assms(1), of st en fl nm] assms(2) by simp
  have "vma_spec_add cap (areas s) st en fl nm = (0, areas s')"
    using add_areas [OF assms(1), of st en fl nm] assms(2) by simp
  then have ok: "vma_range_ok st en" "\<not> list_ex (vma_overlaps st en) (areas s)"
    and s': "areas s' = vma_insert (mk_area st en fl nm) (areas s)"
    by (auto simp: vma_spec_add_def split: if_splits)
  show ?thesis
    using vma_spec_find_insert [OF inv_wf [OF assms(1)], of "mk_area st en fl nm" addr] ok
    by (simp add: find_areas \<open>inv s'\<close> assms(1) s' vma_contains_def)
qed

lemma remove_find:
  assumes "inv s" and "remove s st = (0, s')"
  shows "find s' addr = (case find s addr of None \<Rightarrow> None
    | Some a \<Rightarrow> if va_start a = st then None else Some a)"
proof -
  have "inv s'" using remove_inv [OF assms(1), of st] assms(2) by simp
  have "vma_spec_remove (areas s) st = (0, areas s')"
    using remove_areas [OF assms(1), of st] assms(2) by simp
  then have "areas s' = filter (\<lambda>a. va_start a \<noteq> st) (areas s)"
    by (auto simp: vma_spec_remove_def split: if_splits)
  with \<open>inv s'\<close> assms(1) show ?thesis
    by (simp add: find_areas vma_spec_find_filter inv_wf)
qed

lemma find_disjoint:
  assumes "inv s" "find s x = Some a" "find s y = Some b" "a \<noteq> b"
  shows "va_end a \<le> va_start b \<or> va_end b \<le> va_start a"
proof -
  note wf = inv_wf [OF assms(1)]
  have "a \<in> set (areas s)" "b \<in> set (areas s)"
    using assms by (auto simp: find_areas vma_spec_find_Some wf)
  then show ?thesis using vma_wf_disjoint [OF wf] assms(4) by blast
qed

end

section \<open>The dispatch layer (vma.c)\<close>

text \<open>\<open>vma_ops_t\<close>: the table of function pointers, over the type \<open>'s\<close> of the back-end's static
  data. \<open>dump\<close> has no effect on the state and is left out of the table.\<close>

record 's vma_ops =
  vo_name :: string
  vo_init :: "'s \<Rightarrow> 's"
  vo_add :: "'s \<Rightarrow> u32 \<Rightarrow> u32 \<Rightarrow> u32 \<Rightarrow> string option \<Rightarrow> int \<times> 's"
  vo_remove :: "'s \<Rightarrow> u32 \<Rightarrow> int \<times> 's"
  vo_find :: "'s \<Rightarrow> u32 \<Rightarrow> vm_area option"
  vo_count :: "'s \<Rightarrow> nat"

text \<open>The two statics of \<open>vma.c\<close>, beside the data of the back-ends they forward to.\<close>

record 's vma_state =
  g_vma_ops :: "'s vma_ops option"
  g_vma_ready :: bool
  vma_data :: 's

definition vma_register_backend :: "'s vma_ops option \<Rightarrow> 's vma_state \<Rightarrow> 's vma_state" where
  "vma_register_backend ops v = v\<lparr>g_vma_ops := ops\<rparr>"

definition vma_backend_name :: "'s vma_state \<Rightarrow> string option" where
  "vma_backend_name v = (case g_vma_ops v of None \<Rightarrow> None | Some ops \<Rightarrow> Some (vo_name ops))"

definition vma_init :: "'s vma_state \<Rightarrow> 's vma_state" where
  "vma_init v = (case g_vma_ops v of
     None \<Rightarrow> v
   | Some ops \<Rightarrow> v\<lparr>vma_data := vo_init ops (vma_data v), g_vma_ready := True\<rparr>)"

definition vma_add :: "'s vma_state \<Rightarrow> u32 \<Rightarrow> u32 \<Rightarrow> u32 \<Rightarrow> string option \<Rightarrow> int \<times> 's vma_state" where
  "vma_add v st en fl nm = (case g_vma_ops v of
     None \<Rightarrow> (- 1, v)
   | Some ops \<Rightarrow> if \<not> g_vma_ready v then (- 1, v)
       else (case vo_add ops (vma_data v) st en fl nm of (r, d) \<Rightarrow> (r, v\<lparr>vma_data := d\<rparr>)))"

definition vma_remove :: "'s vma_state \<Rightarrow> u32 \<Rightarrow> int \<times> 's vma_state" where
  "vma_remove v st = (case g_vma_ops v of
     None \<Rightarrow> (- 1, v)
   | Some ops \<Rightarrow> if \<not> g_vma_ready v then (- 1, v)
       else (case vo_remove ops (vma_data v) st of (r, d) \<Rightarrow> (r, v\<lparr>vma_data := d\<rparr>)))"

definition vma_find :: "'s vma_state \<Rightarrow> u32 \<Rightarrow> vm_area option" where
  "vma_find v addr = (case g_vma_ops v of
     None \<Rightarrow> None
   | Some ops \<Rightarrow> if \<not> g_vma_ready v then None else vo_find ops (vma_data v) addr)"

definition vma_count :: "'s vma_state \<Rightarrow> nat" where
  "vma_count v = (case g_vma_ops v of
     None \<Rightarrow> 0
   | Some ops \<Rightarrow> if \<not> g_vma_ready v then 0 else vo_count ops (vma_data v))"

definition vma_is_ready :: "'s vma_state \<Rightarrow> bool" where
  "vma_is_ready v = g_vma_ready v"

text \<open>Before \<open>vma_init\<close> has run with a registered back-end every call fails in its documented way.\<close>

lemma vma_not_ready:
  assumes "\<not> g_vma_ready v"
  shows "vma_add v st en fl nm = (- 1, v)" "vma_remove v st = (- 1, v)"
    "vma_find v addr = None" "vma_count v = 0"
  using assms
  by (simp_all add: vma_add_def vma_remove_def vma_find_def vma_count_def split: option.split)

text \<open>Once ready, the public calls are the calls of the registered table.\<close>

definition ops_call :: "'s vma_ops \<Rightarrow> 's \<Rightarrow> vma_call \<Rightarrow> vma_reply \<times> 's" where
  "ops_call ops = vma_backend_call (vo_add ops) (vo_remove ops) (vo_find ops) (vo_count ops)"

definition vma_dispatch_call :: "'s vma_state \<Rightarrow> vma_call \<Rightarrow> vma_reply \<times> 's vma_state" where
  "vma_dispatch_call = vma_backend_call vma_add vma_remove vma_find vma_count"

lemma vma_dispatch_ready:
  assumes "g_vma_ops v = Some ops" "g_vma_ready v"
  shows "vma_dispatch_call v c = (case ops_call ops (vma_data v) c of (r, d) \<Rightarrow> (r, v\<lparr>vma_data := d\<rparr>))"
  using assms
  by (cases c) (auto simp: vma_dispatch_call_def ops_call_def vma_add_def vma_remove_def vma_find_def
      vma_count_def map_prod_def split: prod.split)

lemma vma_run_ready:
  assumes "g_vma_ops v = Some ops" "g_vma_ready v"
  shows "run_calls vma_dispatch_call v cs = run_calls (ops_call ops) (vma_data v) cs"
  using assms
  by (induction cs arbitrary: v) (auto simp: vma_dispatch_ready split: prod.split)

lemma vma_init_ready:
  assumes "g_vma_ops v = Some ops"
  shows "g_vma_ready (vma_init v)" "g_vma_ops (vma_init v) = Some ops"
    "vma_data (vma_init v) = vo_init ops (vma_data v)"
  using assms by (simp_all add: vma_init_def)

lemma vma_registered_run:
  "run_calls vma_dispatch_call (vma_init (vma_register_backend (Some ops) v)) cs =
    run_calls (ops_call ops) (vo_init ops (vma_data v)) cs"
proof -
  have "g_vma_ops (vma_register_backend (Some ops) v) = Some ops"
    by (simp add: vma_register_backend_def)
  note ready = vma_init_ready [OF this]
  show ?thesis
    by (simp add: vma_run_ready [OF ready(2,1)] ready(3)) (simp add: vma_register_backend_def)
qed

end
