(* ===== verification/Vma_Sorted_Array.thy ===== *)
theory Vma_Sorted_Array
  imports Vma
begin

text \<open>
  The sorted-array back-end \<open>vma_sorted_array.c\<close>: a static array of 256 areas kept in
  ascending order of their start addresses, with binary search. The theory models every
  operation of the file as it runs on the array, shows that the loops compute what the
  specification of \<open>Vma\<close> asks for, and interprets the back-end interface.
\<close>

section \<open>State and operations\<close>

definition VMA_MAX_AREAS :: nat where "VMA_MAX_AREAS = 256"

record sa_state =
  g_areas :: "vm_area list"
  g_count :: nat

function sa_lower_bound_loop :: "vm_area list \<Rightarrow> u32 \<Rightarrow> nat \<Rightarrow> nat \<Rightarrow> nat" where
  "sa_lower_bound_loop as target left right =
     (if left < right then
        (let mid = left + (right - left) div 2 in
         if va_start (as ! mid) < target then sa_lower_bound_loop as target (mid + 1) right
         else sa_lower_bound_loop as target left mid)
      else left)"
  by pat_completeness auto
termination by (relation "measure (\<lambda>(as, target, left, right). right - left)") auto

definition sa_lower_bound :: "sa_state \<Rightarrow> u32 \<Rightarrow> nat" where
  "sa_lower_bound s target = sa_lower_bound_loop (g_areas s) target 0 (g_count s)"

function sa_upper_bound_loop :: "vm_area list \<Rightarrow> u32 \<Rightarrow> nat \<Rightarrow> nat \<Rightarrow> nat" where
  "sa_upper_bound_loop as target left right =
     (if left < right then
        (let mid = left + (right - left) div 2 in
         if va_start (as ! mid) \<le> target then sa_upper_bound_loop as target (mid + 1) right
         else sa_upper_bound_loop as target left mid)
      else left)"
  by pat_completeness auto
termination by (relation "measure (\<lambda>(as, target, left, right). right - left)") auto

definition sa_upper_bound :: "sa_state \<Rightarrow> u32 \<Rightarrow> nat" where
  "sa_upper_bound s target = sa_upper_bound_loop (g_areas s) target 0 (g_count s)"

function sa_clear_from :: "vm_area list \<Rightarrow> nat \<Rightarrow> vm_area list" where
  "sa_clear_from as i =
     (if i < VMA_MAX_AREAS then sa_clear_from (as[i := mk_area 0 0 0 None]) (i + 1) else as)"
  by pat_completeness auto
termination by (relation "measure (\<lambda>(as, i). VMA_MAX_AREAS - i)") auto

definition sa_init :: "sa_state \<Rightarrow> sa_state" where
  "sa_init s = s\<lparr>g_areas := sa_clear_from (g_areas s) 0, g_count := 0\<rparr>"

text \<open>The overlap test of \<open>sa_add\<close>: the loop over \<open>g_areas[0..g_count)\<close>.\<close>

function sa_overlap_from :: "sa_state \<Rightarrow> u32 \<Rightarrow> u32 \<Rightarrow> nat \<Rightarrow> bool" where
  "sa_overlap_from s st en i =
     (if i < g_count s then
        (if st < va_end (g_areas s ! i) \<and> va_start (g_areas s ! i) < en then True
         else sa_overlap_from s st en (i + 1))
      else False)"
  by pat_completeness auto
termination by (relation "measure (\<lambda>(s, st, en, i). g_count s - i)") auto

text \<open>Moving \<open>g_areas[pos..i)\<close> one slot up, from the end.\<close>

function sa_shift_up :: "vm_area list \<Rightarrow> nat \<Rightarrow> nat \<Rightarrow> vm_area list" where
  "sa_shift_up as i pos = (if pos < i then sa_shift_up (as[i := as ! (i - 1)]) (i - 1) pos else as)"
  by pat_completeness auto
termination by (relation "measure (\<lambda>(as, i, pos). i)") auto

definition sa_add :: "sa_state \<Rightarrow> u32 \<Rightarrow> u32 \<Rightarrow> u32 \<Rightarrow> string option \<Rightarrow> int \<times> sa_state" where
  "sa_add s st en fl nm =
     (if VMA_MAX_AREAS \<le> g_count s then (- 1, s)
      else if en \<le> st then (- 1, s)
      else if st AND 0xFFF \<noteq> 0 \<or> en AND 0xFFF \<noteq> 0 then (- 1, s)
      else if sa_overlap_from s st en 0 then (- 1, s)
      else
        (let pos = sa_lower_bound s st;
             as = sa_shift_up (g_areas s) (g_count s) pos;
             as' = as[pos := \<lparr>va_start = st, va_end = en, va_flags = fl, va_name = nm\<rparr>]
         in (0, s\<lparr>g_areas := as', g_count := g_count s + 1\<rparr>)))"

text \<open>Moving \<open>g_areas[i+1..n)\<close> one slot down.\<close>

function sa_shift_down :: "vm_area list \<Rightarrow> nat \<Rightarrow> nat \<Rightarrow> vm_area list" where
  "sa_shift_down as i n = (if i < n - 1 then sa_shift_down (as[i := as ! (i + 1)]) (i + 1) n else as)"
  by pat_completeness auto
termination by (relation "measure (\<lambda>(as, i, n). n - i)") auto

definition sa_remove :: "sa_state \<Rightarrow> u32 \<Rightarrow> int \<times> sa_state" where
  "sa_remove s st =
     (let pos = sa_lower_bound s st in
      if pos = g_count s \<or> va_start (g_areas s ! pos) \<noteq> st then (- 1, s)
      else (0, s\<lparr>g_areas := sa_shift_down (g_areas s) pos (g_count s), g_count := g_count s - 1\<rparr>))"

definition sa_find :: "sa_state \<Rightarrow> u32 \<Rightarrow> vm_area option" where
  "sa_find s addr =
     (if g_count s = 0 then None
      else
        (let idx = sa_upper_bound s addr in
         if idx = 0 then None
         else
           (let candidate = g_areas s ! (idx - 1) in
            if addr < va_end candidate then Some candidate else None)))"

definition sa_count :: "sa_state \<Rightarrow> nat" where
  "sa_count s = g_count s"

definition sa_ops :: "sa_state vma_ops" where
  "sa_ops = \<lparr>vo_name = ''sorted-array'', vo_init = sa_init, vo_add = sa_add,
     vo_remove = sa_remove, vo_find = sa_find, vo_count = sa_count\<rparr>"

declare sa_lower_bound_loop.simps [simp del] sa_upper_bound_loop.simps [simp del]
  sa_clear_from.simps [simp del] sa_overlap_from.simps [simp del]
  sa_shift_up.simps [simp del] sa_shift_down.simps [simp del]

section \<open>Abstraction and invariant\<close>

definition sa_areas :: "sa_state \<Rightarrow> vm_area list" where
  "sa_areas s = take (g_count s) (g_areas s)"

definition sa_storage :: "sa_state \<Rightarrow> bool" where
  "sa_storage s \<longleftrightarrow> length (g_areas s) = VMA_MAX_AREAS"

definition sa_inv :: "sa_state \<Rightarrow> bool" where
  "sa_inv s \<longleftrightarrow> sa_storage s \<and> g_count s \<le> VMA_MAX_AREAS \<and> vma_wf (sa_areas s)"

section \<open>The loops\<close>

text \<open>Both searches are the binary search of the prelude, at two predicates.\<close>

lemma sa_lower_bound_loop_bisect:
  "sa_lower_bound_loop as target left right = bisect (\<lambda>i. va_start (as ! i) < target) left right"
  by (induction as target left right rule: sa_lower_bound_loop.induct)
    (subst sa_lower_bound_loop.simps, subst bisect.simps, simp add: Let_def)

lemma sa_upper_bound_loop_bisect:
  "sa_upper_bound_loop as target left right = bisect (\<lambda>i. va_start (as ! i) \<le> target) left right"
  by (induction as target left right rule: sa_upper_bound_loop.induct)
    (subst sa_upper_bound_loop.simps, subst bisect.simps, simp add: Let_def)

lemma sa_areas_nth: "i < g_count s \<Longrightarrow> sa_areas s ! i = g_areas s ! i"
  by (simp add: sa_areas_def)

lemma length_sa_areas: "sa_inv s \<Longrightarrow> length (sa_areas s) = g_count s"
  by (simp add: sa_inv_def sa_storage_def sa_areas_def)

lemma sa_starts_mono:
  assumes "sa_inv s" "i \<le> j" "j < g_count s"
  shows "va_start (g_areas s ! i) \<le> va_start (g_areas s ! j)"
proof -
  have "sorted_wrt (\<lambda>a b. va_start a < va_start b) (sa_areas s)"
    using assms(1) by (intro vma_wf_starts_sorted) (simp add: sa_inv_def)
  then show ?thesis
    using assms length_sa_areas [OF assms(1)]
    by (cases "i = j") (auto simp: sorted_wrt_iff_nth_less sa_areas_nth less_imp_le)
qed

lemma sa_lower_bound:
  assumes "sa_inv s"
  shows "sa_lower_bound s t \<le> g_count s"
    and "\<And>i. i < sa_lower_bound s t \<Longrightarrow> va_start (g_areas s ! i) < t"
    and "\<And>i. sa_lower_bound s t \<le> i \<Longrightarrow> i < g_count s \<Longrightarrow> t \<le> va_start (g_areas s ! i)"
proof -
  have "\<forall>i j. i \<le> j \<longrightarrow> j < g_count s \<longrightarrow> va_start (g_areas s ! j) < t \<longrightarrow> va_start (g_areas s ! i) < t"
    using sa_starts_mono [OF assms] by (blast intro: le_less_trans)
  then have b: "sa_lower_bound s t \<le> g_count s \<and> (\<forall>i < sa_lower_bound s t. va_start (g_areas s ! i) < t) \<and>
      (\<forall>i. sa_lower_bound s t \<le> i \<longrightarrow> i < g_count s \<longrightarrow> \<not> va_start (g_areas s ! i) < t)"
    unfolding sa_lower_bound_def sa_lower_bound_loop_bisect by (rule bisect_split) simp_all
  show "sa_lower_bound s t \<le> g_count s"
    and "\<And>i. i < sa_lower_bound s t \<Longrightarrow> va_start (g_areas s ! i) < t"
    and "\<And>i. sa_lower_bound s t \<le> i \<Longrightarrow> i < g_count s \<Longrightarrow> t \<le> va_start (g_areas s ! i)"
    using b by (simp_all add: not_less)
qed

lemma sa_upper_bound:
  assumes "sa_inv s"
  shows "sa_upper_bound s t \<le> g_count s"
    and "\<And>i. i < sa_upper_bound s t \<Longrightarrow> va_start (g_areas s ! i) \<le> t"
    and "\<And>i. sa_upper_bound s t \<le> i \<Longrightarrow> i < g_count s \<Longrightarrow> t < va_start (g_areas s ! i)"
proof -
  have "\<forall>i j. i \<le> j \<longrightarrow> j < g_count s \<longrightarrow> va_start (g_areas s ! j) \<le> t \<longrightarrow> va_start (g_areas s ! i) \<le> t"
    using sa_starts_mono [OF assms] by (blast intro: order_trans)
  then have b: "sa_upper_bound s t \<le> g_count s \<and> (\<forall>i < sa_upper_bound s t. va_start (g_areas s ! i) \<le> t) \<and>
      (\<forall>i. sa_upper_bound s t \<le> i \<longrightarrow> i < g_count s \<longrightarrow> \<not> va_start (g_areas s ! i) \<le> t)"
    unfolding sa_upper_bound_def sa_upper_bound_loop_bisect by (rule bisect_split) simp_all
  show "sa_upper_bound s t \<le> g_count s"
    and "\<And>i. i < sa_upper_bound s t \<Longrightarrow> va_start (g_areas s ! i) \<le> t"
    and "\<And>i. sa_upper_bound s t \<le> i \<Longrightarrow> i < g_count s \<Longrightarrow> t < va_start (g_areas s ! i)"
    using b by (simp_all add: not_le)
qed

lemma length_sa_clear_from [simp]: "length (sa_clear_from as i) = length as"
proof (induction as i rule: sa_clear_from.induct)
  case (1 as i)
  then show ?case by (subst sa_clear_from.simps) simp
qed

lemma sa_overlap_from_iff:
  assumes "g_count s \<le> length (g_areas s)"
  shows "sa_overlap_from s st en i \<longleftrightarrow> list_ex (vma_overlaps st en) (drop i (sa_areas s))"
  using assms
proof (induction s st en i rule: sa_overlap_from.induct)
  case (1 s st en i)
  show ?case
  proof (cases "i < g_count s")
    case True
    then have "drop i (sa_areas s) = g_areas s ! i # drop (Suc i) (sa_areas s)"
      using 1(2) by (simp add: sa_areas_def flip: Cons_nth_drop_Suc)
    with 1 True show ?thesis
      by (subst sa_overlap_from.simps) (auto simp: vma_overlaps_def [of st en "g_areas s ! i"])
  next
    case False
    then show ?thesis by (subst sa_overlap_from.simps) (simp add: sa_areas_def)
  qed
qed

lemma sa_shift_up_eq:
  "pos \<le> i \<Longrightarrow> i < length as \<Longrightarrow>
   sa_shift_up as i pos = take pos as @ as ! pos # drop pos (take i as) @ drop (i + 1) as"
proof (induction as i pos rule: sa_shift_up.induct)
  case (1 as i pos)
  show ?case
  proof (cases "pos < i")
    case True
    define as' where "as' = as[i := as ! (i - 1)]"
    have "sa_shift_up as i pos = sa_shift_up as' (i - 1) pos"
      using True by (subst sa_shift_up.simps) (simp add: as'_def)
    also have "\<dots> = take pos as' @ as' ! pos # drop pos (take (i - 1) as') @ drop i as'"
      using 1 True by (simp add: as'_def)
    also have "drop i as' = as ! (i - 1) # drop (i + 1) as"
      using True 1(3) by (simp add: as'_def drop_update_swap flip: Cons_nth_drop_Suc)
    also have "drop pos (take (i - 1) as') = drop pos (take (i - 1) as)"
      by (simp add: as'_def)
    also have "take pos as' = take pos as" using True by (simp add: as'_def)
    also have "as' ! pos = as ! pos" using True by (simp add: as'_def)
    also have "drop pos (take (i - 1) as) @ as ! (i - 1) # drop (i + 1) as =
        drop pos (take i as) @ drop (i + 1) as"
      using True 1(3) by (cases i) (auto simp: take_Suc_conv_app_nth)
    finally show ?thesis .
  next
    case False
    with 1 show ?thesis by (subst sa_shift_up.simps) (simp add: id_take_nth_drop)
  qed
qed

lemma sa_shift_down_eq:
  "i < n \<Longrightarrow> n \<le> length as \<Longrightarrow>
   sa_shift_down as i n = take i as @ drop (i + 1) (take n as) @ drop (n - 1) as"
proof (induction as i n rule: sa_shift_down.induct)
  case (1 as i n)
  show ?case
  proof (cases "i < n - 1")
    case True
    define as' where "as' = as[i := as ! (i + 1)]"
    have "sa_shift_down as i n = sa_shift_down as' (i + 1) n"
      using True by (subst sa_shift_down.simps) (simp add: as'_def)
    also have "\<dots> = take (i + 1) as' @ drop (i + 2) (take n as') @ drop (n - 1) as'"
      using 1 True by (simp add: as'_def)
    also have "take (i + 1) as' = take i as @ [as ! (i + 1)]"
      using True 1(3) by (simp add: as'_def take_Suc_conv_app_nth)
    also have "drop (i + 2) (take n as') = drop (i + 2) (take n as)"
      by (simp add: as'_def drop_take)
    also have "drop (n - 1) as' = drop (n - 1) as" using True by (simp add: as'_def)
    also have "(take i as @ [as ! (i + 1)]) @ drop (i + 2) (take n as) @ drop (n - 1) as =
        take i as @ drop (i + 1) (take n as) @ drop (n - 1) as"
      using Cons_nth_drop_Suc [of "i + 1" "take n as"] True 1(3) by simp
    finally show ?thesis .
  next
    case False
    then have "n = Suc i" using 1(2) by simp
    then show ?thesis using 1(3) by (subst sa_shift_down.simps) simp
  qed
qed

section \<open>The operations refine the specification\<close>

lemma sa_areas_split:
  assumes "sa_inv s" "pos = sa_lower_bound s t"
  shows "sa_areas s = take pos (sa_areas s) @ drop pos (sa_areas s)"
    and "\<forall>a \<in> set (take pos (sa_areas s)). va_start a < t"
    and "\<forall>a \<in> set (drop pos (sa_areas s)). t \<le> va_start a"
  using sa_lower_bound [OF assms(1), where t = t] length_sa_areas [OF assms(1)] assms(2)
  by (auto simp: in_set_conv_nth sa_areas_nth)

lemma sa_init_inv: "sa_storage s \<Longrightarrow> sa_inv (sa_init s)"
  by (simp add: sa_init_def sa_inv_def sa_storage_def sa_areas_def)

lemma sa_init_areas: "sa_areas (sa_init s) = []"
  by (simp add: sa_init_def sa_areas_def)

lemma sa_add_cases:
  assumes "sa_inv s"
  shows "sa_add s st en fl nm = (- 1, s) \<and> vma_spec_add VMA_MAX_AREAS (sa_areas s) st en fl nm = (- 1, sa_areas s)
    \<or> (\<exists>s'. sa_add s st en fl nm = (0, s') \<and> sa_storage s' \<and> g_count s < VMA_MAX_AREAS \<and>
         g_count s' = g_count s + 1 \<and>
         vma_spec_add VMA_MAX_AREAS (sa_areas s) st en fl nm = (0, sa_areas s'))"
proof -
  have len: "length (g_areas s) = VMA_MAX_AREAS" "g_count s \<le> VMA_MAX_AREAS"
    using assms by (auto simp: sa_inv_def sa_storage_def)
  have ov: "sa_overlap_from s st en 0 \<longleftrightarrow> list_ex (vma_overlaps st en) (sa_areas s)"
    using len by (simp add: sa_overlap_from_iff)
  have guard: "VMA_MAX_AREAS \<le> g_count s \<or> en \<le> st \<or> st AND 0xFFF \<noteq> 0 \<or> en AND 0xFFF \<noteq> 0 \<or>
      sa_overlap_from s st en 0 \<longleftrightarrow>
      VMA_MAX_AREAS \<le> length (sa_areas s) \<or> \<not> vma_range_ok st en \<or> list_ex (vma_overlaps st en) (sa_areas s)"
    by (auto simp: ov vma_range_ok_def page_aligned_def length_sa_areas assms)
  show ?thesis
  proof (cases "VMA_MAX_AREAS \<le> g_count s \<or> en \<le> st \<or> st AND 0xFFF \<noteq> 0 \<or> en AND 0xFFF \<noteq> 0 \<or>
      sa_overlap_from s st en 0")
    case True
    then have "sa_add s st en fl nm = (- 1, s)" by (auto simp: sa_add_def)
    then show ?thesis using True guard by (auto simp: vma_spec_add_def)
  next
    case False
    define pos where "pos = sa_lower_bound s st"
    note split = sa_areas_split [OF assms pos_def]
    let ?a = "mk_area st en fl nm"
    let ?as = "(sa_shift_up (g_areas s) (g_count s) pos)[pos := ?a]"
    have pos: "pos \<le> g_count s" "g_count s < length (g_areas s)"
      using sa_lower_bound(1) [OF assms, where t = st] False len by (auto simp: pos_def)
    have as: "?as = take pos (sa_areas s) @ ?a # drop pos (sa_areas s) @ drop (g_count s + 1) (g_areas s)"
      using pos by (simp add: sa_shift_up_eq sa_areas_def list_update_append min_def)
    have "vma_insert ?a (sa_areas s) = take pos (sa_areas s) @ ?a # drop pos (sa_areas s)"
      using split(2,3) by (subst split(1), intro vma_insert_append) (auto simp: not_less)
    then have "take (g_count s + 1) ?as = vma_insert ?a (sa_areas s)"
      using pos len by (simp add: as sa_areas_def Suc_diff_le)
    moreover have "length ?as = length (g_areas s)"
      using pos by (simp add: as sa_areas_def)
    ultimately show ?thesis
      using False guard len pos
      by (intro disjI2 exI [of _ "s\<lparr>g_areas := ?as, g_count := g_count s + 1\<rparr>"])
        (auto simp: sa_add_def Let_def mk_area_def vma_spec_add_def sa_storage_def sa_areas_def
          simp flip: pos_def)
  qed
qed

lemma sa_remove_cases:
  assumes "sa_inv s"
  shows "sa_remove s st = (- 1, s) \<and> vma_spec_remove (sa_areas s) st = (- 1, sa_areas s)
    \<or> (\<exists>s'. sa_remove s st = (0, s') \<and> sa_storage s' \<and> g_count s' \<le> g_count s \<and>
         vma_spec_remove (sa_areas s) st = (0, sa_areas s'))"
proof -
  define pos where "pos = sa_lower_bound s st"
  note split = sa_areas_split [OF assms pos_def]
  have len: "length (g_areas s) = VMA_MAX_AREAS" "g_count s \<le> VMA_MAX_AREAS"
    using assms by (auto simp: sa_inv_def sa_storage_def)
  have pos: "pos \<le> g_count s" using sa_lower_bound(1) [OF assms] by (simp add: pos_def)
  have srt: "sorted_wrt (\<lambda>a b. va_start a < va_start b) (sa_areas s)"
    using assms by (intro vma_wf_starts_sorted) (simp add: sa_inv_def)
  have keep: "filter (\<lambda>a. va_start a \<noteq> st) (take pos (sa_areas s)) = take pos (sa_areas s)"
    using split(2) by (auto intro!: filter_True)
  show ?thesis
  proof (cases "pos = g_count s \<or> va_start (g_areas s ! pos) \<noteq> st")
    case True
    have "\<forall>a \<in> set (drop pos (sa_areas s)). va_start a \<noteq> st"
    proof (cases "pos = g_count s")
      case False
      then have d: "drop pos (sa_areas s) = g_areas s ! pos # drop (Suc pos) (sa_areas s)"
        using pos len by (simp add: sa_areas_def flip: Cons_nth_drop_Suc)
      have "st < va_start (g_areas s ! pos)"
        using True False split(3) d by (auto simp: less_le)
      moreover have "sorted_wrt (\<lambda>a b. va_start a < va_start b) (drop pos (sa_areas s))"
        using srt split(1) by (metis sorted_wrt_append)
      ultimately show ?thesis by (auto simp: d)
    qed (simp add: sa_areas_def)
    then have "\<not> list_ex (\<lambda>a. va_start a = st) (take pos (sa_areas s) @ drop pos (sa_areas s))"
      using split(2) by (auto simp del: append_take_drop_id simp: list_ex_iff)
    then have "\<not> list_ex (\<lambda>a. va_start a = st) (sa_areas s)" by simp
    with True show ?thesis
      by (auto simp: sa_remove_def Let_def vma_spec_remove_def simp flip: pos_def)
  next
    case False
    then have lt: "pos < g_count s" using pos by simp
    define as where "as = sa_shift_down (g_areas s) pos (g_count s)"
    have d: "drop pos (sa_areas s) = g_areas s ! pos # drop (Suc pos) (sa_areas s)"
      using lt len by (simp add: sa_areas_def flip: Cons_nth_drop_Suc)
    have as: "as = take pos (sa_areas s) @ drop (Suc pos) (sa_areas s) @ drop (g_count s - 1) (g_areas s)"
      using lt len by (simp add: as_def sa_shift_down_eq sa_areas_def min_def)
    have "sorted_wrt (\<lambda>a b. va_start a < va_start b) (drop pos (sa_areas s))"
      using srt split(1) by (metis sorted_wrt_append)
    then have "filter (\<lambda>a. va_start a \<noteq> st) (drop pos (sa_areas s)) = drop (Suc pos) (sa_areas s)"
      using False by (auto simp: d intro!: filter_True)
    then have "filter (\<lambda>a. va_start a \<noteq> st) (sa_areas s) = take (g_count s - 1) as"
      using keep lt len by (subst split(1)) (simp add: as sa_areas_def del: append_take_drop_id)
    moreover have "list_ex (\<lambda>a. va_start a = st) (sa_areas s)"
      using False by (subst split(1)) (simp add: d)
    moreover have "length as = length (g_areas s)"
      using lt len by (simp add: as sa_areas_def)
    ultimately show ?thesis
      using False len
      by (intro disjI2 exI [of _ "s\<lparr>g_areas := as, g_count := g_count s - 1\<rparr>"])
        (auto simp: sa_remove_def Let_def vma_spec_remove_def sa_storage_def sa_areas_def as_def
          simp flip: pos_def)
  qed
qed

lemma sa_find_eq:
  assumes "sa_inv s"
  shows "sa_find s addr = vma_spec_find (sa_areas s) addr"
proof -
  define idx where "idx = sa_upper_bound s addr"
  note ub = sa_upper_bound [OF assms, where t = addr, folded idx_def]
  have wf: "vma_wf (sa_areas s)" and len: "length (sa_areas s) = g_count s"
    using assms length_sa_areas by (auto simp: sa_inv_def)
  show ?thesis
  proof (cases "idx = 0")
    case True
    then have "vma_spec_find (sa_areas s) addr = None"
      using ub(3) len by (auto simp: vma_spec_find_None vma_contains_def in_set_conv_nth sa_areas_nth not_le)
    with True show ?thesis by (simp add: sa_find_def flip: idx_def)
  next
    case False
    define c where "c = g_areas s ! (idx - 1)"
    have c: "sa_areas s ! (idx - 1) = c" "idx - 1 < g_count s" "va_start c \<le> addr"
      using False ub(1,2) by (auto simp: c_def sa_areas_nth)
    show ?thesis
    proof (cases "addr < va_end c")
      case True
      then have "vma_spec_find (sa_areas s) addr = Some c"
        using c len wf by (auto simp: vma_spec_find_Some vma_contains_def in_set_conv_nth)
      with True False c show ?thesis by (auto simp: sa_find_def Let_def c_def simp flip: idx_def)
    next
      case ge: False
      have "\<not> vma_contains addr (sa_areas s ! i)" if i: "i < g_count s" for i
      proof (cases "i < idx")
        case True
        then have "va_end (sa_areas s ! i) \<le> va_end c"
          using vma_wf_ends_mono [OF wf, of i "idx - 1"] c len by simp
        with ge show ?thesis by (auto simp: vma_contains_def)
      next
        case False
        with ub(3) [of i] i show ?thesis by (auto simp: vma_contains_def sa_areas_nth)
      qed
      then have "vma_spec_find (sa_areas s) addr = None"
        using len by (auto simp: vma_spec_find_None in_set_conv_nth)
      with ge False c show ?thesis by (auto simp: sa_find_def Let_def c_def simp flip: idx_def)
    qed
  qed
qed

interpretation sa: vma_backend VMA_MAX_AREAS sa_storage sa_init sa_add sa_remove sa_find sa_count sa_inv sa_areas
proof
  show "sa_inv (snd (sa_add s st en fl nm))" if "sa_inv s" for s st en fl nm
    using sa_add_cases [OF that, of st en fl nm] vma_wf_spec_add [of "sa_areas s" VMA_MAX_AREAS st en fl nm] that
    by (auto simp: sa_inv_def)
  show "map_prod id sa_areas (sa_add s st en fl nm) = vma_spec_add VMA_MAX_AREAS (sa_areas s) st en fl nm"
    if "sa_inv s" for s st en fl nm
    using sa_add_cases [OF that, of st en fl nm] by auto
  show "sa_inv (snd (sa_remove s st))" if "sa_inv s" for s st
    using sa_remove_cases [OF that, of st] vma_wf_spec_remove [of "sa_areas s" st] that
    by (auto simp: sa_inv_def)
  show "map_prod id sa_areas (sa_remove s st) = vma_spec_remove (sa_areas s) st" if "sa_inv s" for s st
    using sa_remove_cases [OF that, of st] by auto
  show "sa_find s addr = vma_spec_find (sa_areas s) addr" if "sa_inv s" for s addr
    by (rule sa_find_eq) (rule that)
  show "sa_count s = length (sa_areas s)" if "sa_inv s" for s
    using that by (simp add: sa_count_def length_sa_areas)
qed (simp_all add: sa_init_inv sa_init_areas, simp add: sa_inv_def)


section \<open>Properties\<close>

lemma sa_ops_call: "ops_call sa_ops = vma_backend_call sa_add sa_remove sa_find sa_count"
  by (simp add: ops_call_def sa_ops_def)

text \<open>C1. Through the public interface, with the sorted array registered and \<open>vma_init\<close> called, every
  sequence of add, remove, find and count calls is answered exactly as the specification (a list of
  disjoint page-aligned intervals, at most 256) answers it, whatever the array held before.\<close>

theorem sorted_array_refines_spec:
  assumes "sa_storage (vma_data v)"
  shows "run_calls vma_dispatch_call (vma_init (vma_register_backend (Some sa_ops) v)) cs =
    run_calls (vma_spec_call VMA_MAX_AREAS) [] cs"
  using sa.run_init_refines [OF assms]
  by (simp add: vma_registered_run sa_ops_call) (simp add: sa_ops_def)

theorem sorted_array_refines_spec_witness:
  "run_calls vma_dispatch_call (vma_init (vma_register_backend (Some sa_ops)
      \<lparr>g_vma_ops = None, g_vma_ready = False,
        vma_data = \<lparr>g_areas = replicate 256 (mk_area 0 0 0 None), g_count = 0\<rparr>\<rparr>))
     [Call_Add 0x3000 0x5000 1 None, Call_Add 0x1000 0x2000 3 None, Call_Add 0x4000 0x6000 1 None,
      Call_Find 0x4FFF, Call_Remove 0x1000, Call_Count] =
   [Reply_Int 0, Reply_Int 0, Reply_Int (- 1), Reply_Area (Some (mk_area 0x3000 0x5000 1 None)),
    Reply_Int 0, Reply_Unsigned 1]"
  by (subst sorted_array_refines_spec)
    (simp_all add: sa_storage_def VMA_MAX_AREAS_def vma_spec_add_def vma_range_ok_def
      page_aligned_def vma_overlaps_def vma_spec_find_def vma_contains_def vma_spec_remove_def)

end
