(* ===== verification/Vma_Rbtree.thy ===== *)
theory Vma_Rbtree
  imports Vma
begin

text \<open>
  The red-black tree back-end of the memory areas (\<open>vma_rbtree.c\<close>): nodes with parent pointers in a
  static pool, a shared sentinel in place of null children, and a free list that runs through the
  \<open>right\<close> fields. A pointer is the index of its node in the pool, 256 for the sentinel and 257 for null;
  the fields are functions of the pointer. The loops follow pointers and are partial functions: \<open>None\<close>
  is a run that never returns. \<open>rb_dump\<close> only prints and is left out.
\<close>

datatype rb_color = RB_BLACK | RB_RED

type_synonym rb_ptr = nat

definition RB_MAX_NODES :: nat where "RB_MAX_NODES = 256"
definition NIL :: rb_ptr where "NIL = 256"
definition NULLP :: rb_ptr where "NULLP = 257"

record rb_state =
  n_area :: "rb_ptr \<Rightarrow> vm_area"
  n_color :: "rb_ptr \<Rightarrow> rb_color"
  n_parent :: "rb_ptr \<Rightarrow> rb_ptr"
  n_left :: "rb_ptr \<Rightarrow> rb_ptr"
  n_right :: "rb_ptr \<Rightarrow> rb_ptr"
  rb_free_head :: rb_ptr
  rb_root :: rb_ptr
  rb_used :: nat

definition set_area :: "rb_ptr \<Rightarrow> vm_area \<Rightarrow> rb_state \<Rightarrow> rb_state" where
  "set_area n a s = s\<lparr>n_area := (n_area s)(n := a)\<rparr>"

definition set_color :: "rb_ptr \<Rightarrow> rb_color \<Rightarrow> rb_state \<Rightarrow> rb_state" where
  "set_color n c s = s\<lparr>n_color := (n_color s)(n := c)\<rparr>"

definition set_parent :: "rb_ptr \<Rightarrow> rb_ptr \<Rightarrow> rb_state \<Rightarrow> rb_state" where
  "set_parent n p s = s\<lparr>n_parent := (n_parent s)(n := p)\<rparr>"

definition set_left :: "rb_ptr \<Rightarrow> rb_ptr \<Rightarrow> rb_state \<Rightarrow> rb_state" where
  "set_left n p s = s\<lparr>n_left := (n_left s)(n := p)\<rparr>"

definition set_right :: "rb_ptr \<Rightarrow> rb_ptr \<Rightarrow> rb_state \<Rightarrow> rb_state" where
  "set_right n p s = s\<lparr>n_right := (n_right s)(n := p)\<rparr>"

definition set_root :: "rb_ptr \<Rightarrow> rb_state \<Rightarrow> rb_state" where
  "set_root n s = s\<lparr>rb_root := n\<rparr>"

section \<open>The node pool\<close>

definition pool_init :: "rb_state \<Rightarrow> rb_state" where
  "pool_init s =
     set_right (RB_MAX_NODES - 1) NULLP
       (fold (\<lambda>i. set_right i (i + 1)) [0..<RB_MAX_NODES - 1] (s\<lparr>rb_free_head := 0\<rparr>))"

definition pool_alloc :: "rb_state \<Rightarrow> rb_ptr \<times> rb_state" where
  "pool_alloc s =
     (if rb_free_head s = NULLP then (NULLP, s)
      else
        (let n = rb_free_head s; s1 = s\<lparr>rb_free_head := n_right s n\<rparr>
         in (n, set_right n NIL (set_left n NIL (set_parent n NIL (set_color n RB_RED
              (set_area n (mk_area 0 0 0 None) s1)))))))"

definition pool_free :: "rb_ptr \<Rightarrow> rb_state \<Rightarrow> rb_state" where
  "pool_free n s = (set_right n (rb_free_head s) s)\<lparr>rb_free_head := n\<rparr>"

section \<open>Rotations\<close>

definition rotate_left :: "rb_ptr \<Rightarrow> rb_state \<Rightarrow> rb_state" where
  "rotate_left x s =
     (let y = n_right s x;
          s1 = set_right x (n_left s y) s;
          s2 = (if n_left s1 y \<noteq> NIL then set_parent (n_left s1 y) x s1 else s1);
          s3 = set_parent y (n_parent s2 x) s2;
          s4 = (if n_parent s3 x = NIL then set_root y s3
                else if x = n_left s3 (n_parent s3 x) then set_left (n_parent s3 x) y s3
                else set_right (n_parent s3 x) y s3);
          s5 = set_left y x s4
      in set_parent x y s5)"

definition rotate_right :: "rb_ptr \<Rightarrow> rb_state \<Rightarrow> rb_state" where
  "rotate_right x s =
     (let y = n_left s x;
          s1 = set_left x (n_right s y) s;
          s2 = (if n_right s1 y \<noteq> NIL then set_parent (n_right s1 y) x s1 else s1);
          s3 = set_parent y (n_parent s2 x) s2;
          s4 = (if n_parent s3 x = NIL then set_root y s3
                else if x = n_right s3 (n_parent s3 x) then set_right (n_parent s3 x) y s3
                else set_left (n_parent s3 x) y s3);
          s5 = set_right y x s4
      in set_parent x y s5)"

section \<open>Repairing the colours\<close>

text \<open>One turn of the loop of \<open>insert_fixup\<close>: the body for a left parent, and its mirror image. Both give
  the next \<open>z\<close>.\<close>

definition insert_step_left :: "rb_ptr \<Rightarrow> rb_state \<Rightarrow> rb_ptr \<times> rb_state" where
  "insert_step_left z s =
     (let uncle = n_right s (n_parent s (n_parent s z)) in
      if n_color s uncle = RB_RED then
        (let s1 = set_color (n_parent s z) RB_BLACK s;
             s2 = set_color uncle RB_BLACK s1;
             s3 = set_color (n_parent s2 (n_parent s2 z)) RB_RED s2
         in (n_parent s3 (n_parent s3 z), s3))
      else
        (let (z, s) = (if z = n_right s (n_parent s z)
                       then (n_parent s z, rotate_left (n_parent s z) s) else (z, s));
             s1 = set_color (n_parent s z) RB_BLACK s;
             s2 = set_color (n_parent s1 (n_parent s1 z)) RB_RED s1
         in (z, rotate_right (n_parent s2 (n_parent s2 z)) s2)))"

definition insert_step_right :: "rb_ptr \<Rightarrow> rb_state \<Rightarrow> rb_ptr \<times> rb_state" where
  "insert_step_right z s =
     (let uncle = n_left s (n_parent s (n_parent s z)) in
      if n_color s uncle = RB_RED then
        (let s1 = set_color (n_parent s z) RB_BLACK s;
             s2 = set_color uncle RB_BLACK s1;
             s3 = set_color (n_parent s2 (n_parent s2 z)) RB_RED s2
         in (n_parent s3 (n_parent s3 z), s3))
      else
        (let (z, s) = (if z = n_left s (n_parent s z)
                       then (n_parent s z, rotate_right (n_parent s z) s) else (z, s));
             s1 = set_color (n_parent s z) RB_BLACK s;
             s2 = set_color (n_parent s1 (n_parent s1 z)) RB_RED s1
         in (z, rotate_left (n_parent s2 (n_parent s2 z)) s2)))"

partial_function (option) insert_fixup :: "rb_ptr \<Rightarrow> rb_state \<Rightarrow> rb_state option" where
  "insert_fixup z s =
     (if n_color s (n_parent s z) = RB_RED then
        (case (if n_parent s z = n_left s (n_parent s (n_parent s z))
               then insert_step_left z s else insert_step_right z s) of
           (z, s) \<Rightarrow> insert_fixup z s)
      else Some (set_color (rb_root s) RB_BLACK s))"

text \<open>One turn of the loop of \<open>delete_fixup\<close>, for a left child and for a right child. Both give the next
  \<open>x\<close>.\<close>

definition delete_step_left :: "rb_ptr \<Rightarrow> rb_state \<Rightarrow> rb_ptr \<times> rb_state" where
  "delete_step_left x s =
     (let w = n_right s (n_parent s x);
          (w, s) = (if n_color s w = RB_RED then
              (let s1 = set_color w RB_BLACK s;
                   s2 = set_color (n_parent s1 x) RB_RED s1;
                   s3 = rotate_left (n_parent s2 x) s2
               in (n_right s3 (n_parent s3 x), s3))
            else (w, s))
      in if n_color s (n_left s w) = RB_BLACK \<and> n_color s (n_right s w) = RB_BLACK
         then (let s1 = set_color w RB_RED s in (n_parent s1 x, s1))
         else
           (let (w, s) = (if n_color s (n_right s w) = RB_BLACK then
                (let s1 = set_color (n_left s w) RB_BLACK s;
                     s2 = set_color w RB_RED s1;
                     s3 = rotate_right w s2
                 in (n_right s3 (n_parent s3 x), s3))
              else (w, s));
                s1 = set_color w (n_color s (n_parent s x)) s;
                s2 = set_color (n_parent s1 x) RB_BLACK s1;
                s3 = set_color (n_right s2 w) RB_BLACK s2;
                s4 = rotate_left (n_parent s3 x) s3
            in (rb_root s4, s4)))"

definition delete_step_right :: "rb_ptr \<Rightarrow> rb_state \<Rightarrow> rb_ptr \<times> rb_state" where
  "delete_step_right x s =
     (let w = n_left s (n_parent s x);
          (w, s) = (if n_color s w = RB_RED then
              (let s1 = set_color w RB_BLACK s;
                   s2 = set_color (n_parent s1 x) RB_RED s1;
                   s3 = rotate_right (n_parent s2 x) s2
               in (n_left s3 (n_parent s3 x), s3))
            else (w, s))
      in if n_color s (n_right s w) = RB_BLACK \<and> n_color s (n_left s w) = RB_BLACK
         then (let s1 = set_color w RB_RED s in (n_parent s1 x, s1))
         else
           (let (w, s) = (if n_color s (n_left s w) = RB_BLACK then
                (let s1 = set_color (n_right s w) RB_BLACK s;
                     s2 = set_color w RB_RED s1;
                     s3 = rotate_left w s2
                 in (n_left s3 (n_parent s3 x), s3))
              else (w, s));
                s1 = set_color w (n_color s (n_parent s x)) s;
                s2 = set_color (n_parent s1 x) RB_BLACK s1;
                s3 = set_color (n_left s2 w) RB_BLACK s2;
                s4 = rotate_right (n_parent s3 x) s3
            in (rb_root s4, s4)))"

partial_function (option) delete_fixup :: "rb_ptr \<Rightarrow> rb_state \<Rightarrow> rb_state option" where
  "delete_fixup x s =
     (if x \<noteq> rb_root s \<and> n_color s x = RB_BLACK then
        (case (if x = n_left s (n_parent s x) then delete_step_left x s else delete_step_right x s) of
           (x, s) \<Rightarrow> delete_fixup x s)
      else Some (set_color x RB_BLACK s))"

section \<open>Operations\<close>

definition transplant :: "rb_ptr \<Rightarrow> rb_ptr \<Rightarrow> rb_state \<Rightarrow> rb_state" where
  "transplant u v s =
     (let s1 = (if n_parent s u = NIL then set_root v s
                else if u = n_left s (n_parent s u) then set_left (n_parent s u) v s
                else set_right (n_parent s u) v s)
      in set_parent v (n_parent s1 u) s1)"

partial_function (option) tree_minimum :: "rb_ptr \<Rightarrow> rb_state \<Rightarrow> rb_ptr option" where
  "tree_minimum x s = (if n_left s x \<noteq> NIL then tree_minimum (n_left s x) s else Some x)"

definition rb_init :: "rb_state \<Rightarrow> rb_state" where
  "rb_init s =
     (let s1 = set_right NIL NIL (set_left NIL NIL (set_parent NIL NIL (set_color NIL RB_BLACK s)));
          s2 = set_area NIL (mk_area 0 0 0 None) s1
      in pool_init (s2\<lparr>rb_root := NIL, rb_used := 0\<rparr>))"

text \<open>The descent of \<open>rb_add\<close>: the parent of the place found, or null after an overlap.\<close>

partial_function (option) rb_descend :: "u32 \<Rightarrow> u32 \<Rightarrow> rb_ptr \<Rightarrow> rb_ptr \<Rightarrow> rb_state \<Rightarrow> rb_ptr option" where
  "rb_descend st en parent cur s =
     (if cur \<noteq> NIL then
        (if st < va_end (n_area s cur) \<and> va_start (n_area s cur) < en then Some NULLP
         else if st < va_start (n_area s cur) then rb_descend st en cur (n_left s cur) s
         else rb_descend st en cur (n_right s cur) s)
      else Some parent)"

definition rb_add :: "rb_state \<Rightarrow> u32 \<Rightarrow> u32 \<Rightarrow> u32 \<Rightarrow> string option \<Rightarrow> (int \<times> rb_state) option" where
  "rb_add s st en fl nm =
     (if rb_used s \<ge> RB_MAX_NODES then Some (- 1, s)
      else if st \<ge> en then Some (- 1, s)
      else if st AND 0xFFF \<noteq> 0 \<or> en AND 0xFFF \<noteq> 0 then Some (- 1, s)
      else
        (case rb_descend st en NIL (rb_root s) s of
           None \<Rightarrow> None
         | Some parent \<Rightarrow>
             if parent = NULLP then Some (- 1, s)
             else
               (let (z, s1) = pool_alloc s in
                if z = NULLP then Some (- 1, s1)
                else
                  (let s2 = set_parent z parent (set_area z (mk_area st en fl nm) s1);
                       s3 = (if parent = NIL then set_root z s2
                             else if st < va_start (n_area s2 parent) then set_left parent z s2
                             else set_right parent z s2)
                   in case insert_fixup z s3 of
                        None \<Rightarrow> None
                      | Some s4 \<Rightarrow> Some (0, s4\<lparr>rb_used := rb_used s4 + 1\<rparr>)))))"

partial_function (option) rb_search :: "u32 \<Rightarrow> rb_ptr \<Rightarrow> rb_state \<Rightarrow> rb_ptr option" where
  "rb_search st z s =
     (if z \<noteq> NIL then
        (if st = va_start (n_area s z) then Some z
         else if st < va_start (n_area s z) then rb_search st (n_left s z) s
         else rb_search st (n_right s z) s)
      else Some z)"

text \<open>Taking the node \<open>z\<close> out: the child that takes the freed place, the colour that is lost, and the
  state.\<close>

definition rb_unlink :: "rb_ptr \<Rightarrow> rb_state \<Rightarrow> (rb_ptr \<times> rb_color \<times> rb_state) option" where
  "rb_unlink z s =
     (if n_left s z = NIL
      then (let x = n_right s z in Some (x, n_color s z, transplant z (n_right s z) s))
      else if n_right s z = NIL
      then (let x = n_left s z in Some (x, n_color s z, transplant z (n_left s z) s))
      else
        (case tree_minimum (n_right s z) s of
           None \<Rightarrow> None
         | Some y \<Rightarrow>
             (let y_orig_color = n_color s y;
                  x = n_right s y;
                  s1 = (if n_parent s y = z then set_parent x y s
                        else
                          (let t1 = transplant y (n_right s y) s;
                               t2 = set_right y (n_right t1 z) t1
                           in set_parent (n_right t2 y) y t2));
                  s2 = transplant z y s1;
                  s3 = set_left y (n_left s2 z) s2;
                  s4 = set_parent (n_left s3 y) y s3
              in Some (x, y_orig_color, set_color y (n_color s4 z) s4))))"

definition rb_remove :: "rb_state \<Rightarrow> u32 \<Rightarrow> (int \<times> rb_state) option" where
  "rb_remove s st =
     (case rb_search st (rb_root s) s of
        None \<Rightarrow> None
      | Some z \<Rightarrow>
          if z = NIL then Some (- 1, s)
          else
            (case rb_unlink z s of
               None \<Rightarrow> None
             | Some (x, y_orig_color, s1) \<Rightarrow>
                 (case (if y_orig_color = RB_BLACK then delete_fixup x s1 else Some s1) of
                    None \<Rightarrow> None
                  | Some s2 \<Rightarrow>
                      (let s3 = pool_free z s2 in Some (0, s3\<lparr>rb_used := rb_used s3 - 1\<rparr>)))))"

partial_function (option) rb_find_from :: "u32 \<Rightarrow> rb_ptr \<Rightarrow> rb_state \<Rightarrow> vm_area option option" where
  "rb_find_from addr cur s =
     (if cur \<noteq> NIL then
        (if addr < va_start (n_area s cur) then rb_find_from addr (n_left s cur) s
         else if addr \<ge> va_end (n_area s cur) then rb_find_from addr (n_right s cur) s
         else Some (Some (n_area s cur)))
      else Some None)"

definition rb_find :: "rb_state \<Rightarrow> u32 \<Rightarrow> vm_area option option" where
  "rb_find s addr = rb_find_from addr (rb_root s) s"

definition rb_count :: "rb_state \<Rightarrow> nat" where
  "rb_count s = rb_used s"

text \<open>The table of the back-end. Its state is \<open>None\<close> once a call has not returned.\<close>

definition rb_step :: "(rb_state \<Rightarrow> (int \<times> rb_state) option) \<Rightarrow> rb_state option \<Rightarrow> int \<times> rb_state option" where
  "rb_step f s =
     (case s of
        None \<Rightarrow> (- 1, None)
      | Some s \<Rightarrow> (case f s of None \<Rightarrow> (- 1, None) | Some (r, s') \<Rightarrow> (r, Some s')))"

definition rb_ops :: "rb_state option vma_ops" where
  "rb_ops = \<lparr>vo_name = ''rbtree'', vo_init = map_option rb_init,
     vo_add = (\<lambda>s st en fl nm. rb_step (\<lambda>s. rb_add s st en fl nm) s),
     vo_remove = (\<lambda>s st. rb_step (\<lambda>s. rb_remove s st) s),
     vo_find = (\<lambda>s addr. case Option.bind s (\<lambda>s. rb_find s addr) of None \<Rightarrow> None | Some r \<Rightarrow> r),
     vo_count = (\<lambda>s. case s of None \<Rightarrow> 0 | Some s \<Rightarrow> rb_count s)\<rparr>"

end
