(* ===== verification/Rb_Heap.thy ===== *)
theory Rb_Heap
  imports Vma_Rbtree
begin

text \<open>
  Trees in the node pool: which tree the pointers of a state spell out, with the rest of the state
  framed off, contexts as lists of frames (the path from a node up to the root), and what the
  pointer operations of \<open>vma_rbtree.c\<close> do to the tree. The mirror image of a state, with
  left and right exchanged, gives every fact about a right rotation from the one about a left rotation.
\<close>

section \<open>Trees and contexts\<close>

datatype rbt = Lf | Nd rb_color rbt rb_ptr rbt

fun rt :: "rbt \<Rightarrow> rb_ptr" where
  "rt Lf = NIL"
| "rt (Nd c l i r) = i"

fun col :: "rbt \<Rightarrow> rb_color" where
  "col Lf = RB_BLACK"
| "col (Nd c l i r) = c"

fun ids :: "rbt \<Rightarrow> rb_ptr list" where
  "ids Lf = []"
| "ids (Nd c l i r) = ids l @ i # ids r"

datatype frame = FL rb_color rb_ptr rbt | FR rb_color rbt rb_ptr

fun above :: "frame list \<Rightarrow> rb_ptr" where
  "above [] = NIL"
| "above (FL c i r # k) = i"
| "above (FR c l i # k) = i"

fun plug :: "frame list \<Rightarrow> rbt \<Rightarrow> rbt" where
  "plug [] t = t"
| "plug (FL c i r # k) t = plug k (Nd c t i r)"
| "plug (FR c l i # k) t = plug k (Nd c l i t)"

text \<open>The identifiers of a context, left and right of its hole.\<close>

fun lids :: "frame list \<Rightarrow> rb_ptr list" where
  "lids [] = []"
| "lids (FL c i r # k) = lids k"
| "lids (FR c l i # k) = lids k @ ids l @ [i]"

fun rids :: "frame list \<Rightarrow> rb_ptr list" where
  "rids [] = []"
| "rids (FL c i r # k) = i # ids r @ rids k"
| "rids (FR c l i # k) = rids k"

lemma ids_plug: "ids (plug k t) = lids k @ ids t @ rids k"
  by (induction k t rule: plug.induct) simp_all

fun is_tree :: "rb_state \<Rightarrow> rb_ptr \<Rightarrow> rbt \<Rightarrow> bool" where
  "is_tree s p Lf \<longleftrightarrow> True"
| "is_tree s p (Nd c l i r) \<longleftrightarrow> i < RB_MAX_NODES \<and> n_color s i = c \<and> n_parent s i = p \<and>
     n_left s i = rt l \<and> n_right s i = rt r \<and> is_tree s i l \<and> is_tree s i r"

fun is_ctx :: "rb_state \<Rightarrow> rb_ptr \<Rightarrow> frame list \<Rightarrow> bool" where
  "is_ctx s p [] \<longleftrightarrow> rb_root s = p"
| "is_ctx s p (FL c i r # k) \<longleftrightarrow> i < RB_MAX_NODES \<and> n_color s i = c \<and> n_parent s i = above k \<and>
     n_left s i = p \<and> n_right s i = rt r \<and> is_tree s i r \<and> is_ctx s i k"
| "is_ctx s p (FR c l i # k) \<longleftrightarrow> i < RB_MAX_NODES \<and> n_color s i = c \<and> n_parent s i = above k \<and>
     n_left s i = rt l \<and> n_right s i = p \<and> is_tree s i l \<and> is_ctx s i k"

lemma is_tree_plug:
  "is_tree s NIL (plug k t) \<and> rb_root s = rt (plug k t) \<longleftrightarrow> is_tree s (above k) t \<and> is_ctx s (rt t) k"
  by (induction k t rule: plug.induct) auto

lemma NIL_ge [simp]: "\<not> NIL < RB_MAX_NODES"
  by (simp add: NIL_def RB_MAX_NODES_def)

lemma is_tree_ids: "is_tree s p t \<Longrightarrow> i \<in> set (ids t) \<Longrightarrow> i < RB_MAX_NODES"
  by (induction t arbitrary: p) auto

lemma is_ctx_ids: "is_ctx s p k \<Longrightarrow> i \<in> set (lids k) \<union> set (rids k) \<Longrightarrow> i < RB_MAX_NODES"
  by (induction k arbitrary: p rule: lids.induct) (auto dest: is_tree_ids)

lemma is_tree_NIL: "is_tree s p t \<Longrightarrow> NIL \<notin> set (ids t)"
  using is_tree_ids by fastforce

lemma rt_in_ids: "t \<noteq> Lf \<Longrightarrow> rt t \<in> set (ids t)"
  by (cases t) simp_all

lemma rt_eq_NIL: "is_tree s p t \<Longrightarrow> rt t = NIL \<longleftrightarrow> t = Lf"
  by (cases t) auto

lemma ids_eq_Nil [simp]: "ids t = [] \<longleftrightarrow> t = Lf"
  by (cases t) simp_all

text \<open>What a tree and a context depend on.\<close>

definition same_node :: "rb_state \<Rightarrow> rb_state \<Rightarrow> rb_ptr \<Rightarrow> bool" where
  "same_node s' s i \<longleftrightarrow> n_color s' i = n_color s i \<and> n_parent s' i = n_parent s i \<and>
     n_left s' i = n_left s i \<and> n_right s' i = n_right s i"

lemma is_tree_frame:
  "is_tree s p t \<Longrightarrow> (\<And>i. i \<in> set (ids t) \<Longrightarrow> same_node s' s i) \<Longrightarrow> is_tree s' p t"
  by (induction t arbitrary: p) (auto simp: same_node_def)

lemma is_ctx_frame:
  "is_ctx s p k \<Longrightarrow> rb_root s' = rb_root s \<Longrightarrow>
   (\<And>i. i \<in> set (lids k) \<union> set (rids k) \<Longrightarrow> same_node s' s i) \<Longrightarrow> is_ctx s' p k"
proof (induction k arbitrary: p rule: lids.induct)
  case (2 c i r k)
  then show ?case using is_tree_frame [of s i r s'] by (auto simp: same_node_def)
next
  case (3 c l i k)
  then show ?case using is_tree_frame [of s i l s'] by (auto simp: same_node_def)
qed simp

text \<open>The same tree below another parent, and another subtree in the hole of a context.\<close>

definition adopt :: "rb_ptr \<Rightarrow> rbt \<Rightarrow> rb_state \<Rightarrow> rb_state" where
  "adopt q t s = (if t = Lf then s else set_parent (rt t) q s)"

lemma is_tree_adopt:
  assumes "is_tree s p t" "distinct (ids t)"
  shows "is_tree (adopt q t s) q t"
proof (cases t)
  case (Nd c l i r)
  have "is_tree (adopt q t s) i l" "is_tree (adopt q t s) i r"
    using assms Nd by (auto simp: same_node_def adopt_def set_parent_def intro!: is_tree_frame [of s i])
  then show ?thesis using assms Nd by (simp add: adopt_def set_parent_def)
qed simp

definition put_child :: "rb_ptr \<Rightarrow> frame list \<Rightarrow> rb_state \<Rightarrow> rb_state" where
  "put_child q k s = (case k of [] \<Rightarrow> set_root q s | FL c i r # _ \<Rightarrow> set_left i q s
     | FR c l i # _ \<Rightarrow> set_right i q s)"

lemma is_ctx_put:
  assumes "is_ctx s p k" "distinct (lids k @ rids k)"
  shows "is_ctx (put_child q k s) q k"
  using assms
proof (cases k rule: lids.cases)
  case (2 c i r k')
  have "is_tree (put_child q k s) i r"
    using assms 2 by (auto simp: same_node_def put_child_def set_left_def intro!: is_tree_frame [of s i])
  moreover have "is_ctx (put_child q k s) i k'"
    using assms 2 by (auto simp: same_node_def put_child_def set_left_def intro!: is_ctx_frame [of s i])
  ultimately show ?thesis
    using assms(1) 2 by (simp add: put_child_def set_left_def)
next
  case (3 c l i k')
  have "is_tree (put_child q k s) i l"
    using assms 3 by (auto simp: same_node_def put_child_def set_right_def intro!: is_tree_frame [of s i])
  moreover have "is_ctx (put_child q k s) i k'"
    using assms 3 by (auto simp: same_node_def put_child_def set_right_def intro!: is_ctx_frame [of s i])
  ultimately show ?thesis
    using assms(1) 3 by (simp add: put_child_def set_right_def)
qed (simp add: put_child_def set_root_def)

section \<open>The tree of a state\<close>

text \<open>Everything the pointer operations leave alone: the areas, the count, the head of the free list, the
  child fields of the nodes outside the tree; and the parent field of the sentinel, which deletion
  uses.\<close>

record rb_rest =
  r_area :: "rb_ptr \<Rightarrow> vm_area"
  r_used :: nat
  r_nilp :: rb_ptr
  r_head :: rb_ptr
  r_left :: "rb_ptr \<Rightarrow> rb_ptr"
  r_right :: "rb_ptr \<Rightarrow> rb_ptr"

definition framed :: "rb_rest \<Rightarrow> rb_ptr set \<Rightarrow> rb_state \<Rightarrow> bool" where
  "framed G I s \<longleftrightarrow> n_area s = r_area G \<and> rb_used s = r_used G \<and> n_parent s NIL = r_nilp G \<and>
     n_color s NIL = RB_BLACK \<and> rb_free_head s = r_head G \<and>
     (\<forall>i. i \<notin> I \<longrightarrow> n_left s i = r_left G i \<and> n_right s i = r_right G i)"

definition holds :: "rb_rest \<Rightarrow> rb_state \<Rightarrow> rbt \<Rightarrow> bool" where
  "holds G s t \<longleftrightarrow> is_tree s NIL t \<and> rb_root s = rt t \<and> distinct (ids t) \<and> framed G (set (ids t)) s"

definition ctx_ids :: "frame list \<Rightarrow> rb_ptr set" where
  "ctx_ids k = set (lids k) \<union> set (rids k)"

definition ctx_apart :: "frame list \<Rightarrow> rbt \<Rightarrow> bool" where
  "ctx_apart k t \<longleftrightarrow> distinct (lids k @ rids k) \<and> ctx_ids k \<inter> set (ids t) = {}"

lemma holds_plug:
  "holds G s (plug k t) \<longleftrightarrow> is_tree s (above k) t \<and> is_ctx s (rt t) k \<and> ctx_apart k t \<and>
     distinct (ids t) \<and> framed G (ctx_ids k \<union> set (ids t)) s"
proof -
  have "set (ids (plug k t)) = ctx_ids k \<union> set (ids t)"
    by (auto simp: ids_plug ctx_ids_def)
  moreover have "distinct (ids (plug k t)) \<longleftrightarrow> ctx_apart k t \<and> distinct (ids t)"
    by (auto simp: ids_plug ctx_apart_def ctx_ids_def)
  ultimately show ?thesis using is_tree_plug [of s k t] unfolding holds_def by metis
qed

lemma above_in_ctx: "k \<noteq> [] \<Longrightarrow> above k \<in> ctx_ids k"
  by (cases k rule: above.cases) (simp_all add: ctx_ids_def)

lemma ctx_ids_NIL: "is_ctx s p k \<Longrightarrow> NIL \<notin> ctx_ids k"
  using is_ctx_ids [of s p k NIL] by (auto simp: ctx_ids_def)

text \<open>What the fields of a node say, wherever it stands.\<close>

lemma holds_fields:
  assumes "holds G s (plug k (Nd c l i r))"
  shows "n_color s i = c" "n_parent s i = above k" "n_left s i = rt l" "n_right s i = rt r"
    "i \<noteq> NIL" "i < RB_MAX_NODES"
  using assms by (auto simp: holds_plug)

lemma holds_NIL: "holds G s t \<Longrightarrow> n_color s NIL = RB_BLACK"
  by (simp add: holds_def framed_def)

lemma holds_col: "holds G s (plug k t) \<Longrightarrow> n_color s (rt t) = col t"
  by (cases t) (auto simp: holds_plug framed_def)

lemma holds_rt_NIL: "holds G s (plug k t) \<Longrightarrow> rt t = NIL \<longleftrightarrow> t = Lf"
  by (cases t) (auto simp: holds_plug)

lemma root_in_ctx: "is_ctx s p k \<Longrightarrow> k \<noteq> [] \<Longrightarrow> rb_root s \<in> ctx_ids k"
proof (induction k arbitrary: p rule: lids.induct)
  case (2 c i r k)
  then show ?case by (cases "k = []") (auto simp: ctx_ids_def)
next
  case (3 c l i k)
  then show ?case by (cases "k = []") (auto simp: ctx_ids_def)
qed simp

lemma rt_not_ctx:
  assumes "is_ctx s p k" "ctx_apart k t"
  shows "rt t \<notin> ctx_ids k"
  using assms ctx_ids_NIL rt_in_ids [of t] by (cases t) (auto simp: ctx_apart_def)

lemma holds_root:
  assumes "holds G s (plug k t)"
  shows "rb_root s = rt t \<longleftrightarrow> k = []"
proof (cases "k = []")
  case False
  then show ?thesis
    using assms root_in_ctx rt_not_ctx by (fastforce simp: holds_plug)
qed (use assms in \<open>simp add: holds_def\<close>)

section \<open>The pointer operations on trees\<close>

lemmas set_defs = set_color_def set_parent_def set_left_def set_right_def set_root_def set_area_def

lemma rb_set_fields:
  "n_color (set_color i c s) = (n_color s)(i := c)" "n_parent (set_color i c s) = n_parent s"
  "n_left (set_color i c s) = n_left s" "n_right (set_color i c s) = n_right s"
  "rb_root (set_color i c s) = rb_root s"
  "n_color (set_parent i p s) = n_color s" "n_parent (set_parent i p s) = (n_parent s)(i := p)"
  "n_left (set_parent i p s) = n_left s" "n_right (set_parent i p s) = n_right s"
  "rb_root (set_parent i p s) = rb_root s"
  "n_color (set_left i p s) = n_color s" "n_parent (set_left i p s) = n_parent s"
  "n_left (set_left i p s) = (n_left s)(i := p)" "n_right (set_left i p s) = n_right s"
  "rb_root (set_left i p s) = rb_root s"
  "n_color (set_right i p s) = n_color s" "n_parent (set_right i p s) = n_parent s"
  "n_left (set_right i p s) = n_left s" "n_right (set_right i p s) = (n_right s)(i := p)"
  "rb_root (set_right i p s) = rb_root s"
  "n_color (set_root p s) = n_color s" "n_parent (set_root p s) = n_parent s"
  "n_left (set_root p s) = n_left s" "n_right (set_root p s) = n_right s"
  "rb_root (set_root p s) = p"
  by (simp_all add: set_defs)

lemma put_child_fields [simp]:
  "n_color (put_child q k s) = n_color s" "n_parent (put_child q k s) = n_parent s"
  "n_area (put_child q k s) = n_area s" "rb_used (put_child q k s) = rb_used s"
  "rb_free_head (put_child q k s) = rb_free_head s"
  "i \<notin> ctx_ids k \<Longrightarrow> n_left (put_child q k s) i = n_left s i"
  "i \<notin> ctx_ids k \<Longrightarrow> n_right (put_child q k s) i = n_right s i"
  by (cases k rule: above.cases; simp add: put_child_def set_defs ctx_ids_def)+

text \<open>The three-way test with which the code replaces a child of \<open>u\<close>'s parent.\<close>

definition replace_at :: "rb_ptr \<Rightarrow> rb_ptr \<Rightarrow> rb_state \<Rightarrow> rb_state" where
  "replace_at u v s =
     (if n_parent s u = NIL then set_root v s
      else if u = n_left s (n_parent s u) then set_left (n_parent s u) v s
      else set_right (n_parent s u) v s)"

lemma replace_at_put:
  assumes "is_ctx s u k" "n_parent s u = above k" "u \<noteq> NIL" "u \<notin> ctx_ids k"
    "distinct (lids k @ rids k)"
  shows "replace_at u v s = put_child v k s"
proof (cases k rule: above.cases)
  case (2 c i r k')
  then show ?thesis using assms by (auto simp: replace_at_def put_child_def)
next
  case (3 c l i k')
  then have "rt l \<noteq> u" using assms rt_in_ids [of l] by (cases l) (auto simp: ctx_ids_def)
  then show ?thesis using assms 3 by (auto simp: replace_at_def put_child_def)
qed (use assms in \<open>simp add: replace_at_def put_child_def\<close>)

text \<open>Colouring a node.\<close>

lemma holds_set_color:
  assumes "holds G s (plug k (Nd c l i r))"
  shows "holds G (set_color i d s) (plug k (Nd d l i r))"
proof -
  note h = assms [unfolded holds_plug]
  have same: "same_node (set_color i d s) s j" if "j \<noteq> i" for j
    using that by (simp add: same_node_def set_color_def)
  have "is_tree (set_color i d s) i l" "is_tree (set_color i d s) i r"
    using h by (auto intro!: is_tree_frame [of s i] same)
  moreover have "is_ctx (set_color i d s) i k"
    using h by (auto intro!: is_ctx_frame [of s i] same simp: ctx_apart_def ctx_ids_def)
      (simp add: set_color_def)
  ultimately show ?thesis
    using h by (auto simp: holds_plug ctx_apart_def framed_def set_color_def)
qed

lemma holds_set_color_NIL: "holds G s t \<Longrightarrow> set_color NIL RB_BLACK s = s"
  by (auto dest!: holds_NIL simp: set_color_def fun_upd_idem)

text \<open>The left rotation, written with the steps above.\<close>

definition rotated :: "rb_ptr \<Rightarrow> rb_ptr \<Rightarrow> rbt \<Rightarrow> frame list \<Rightarrow> rb_state \<Rightarrow> rb_state" where
  "rotated x y b k s =
     set_parent x y (set_left y x (put_child y k (set_parent y (above k) (adopt x b (set_right x (rt b) s)))))"

lemma adopt_fields [simp]:
  "n_color (adopt q t s) = n_color s" "n_left (adopt q t s) = n_left s" "n_right (adopt q t s) = n_right s"
  "n_area (adopt q t s) = n_area s" "rb_root (adopt q t s) = rb_root s" "rb_used (adopt q t s) = rb_used s"
  "rb_free_head (adopt q t s) = rb_free_head s" "i \<notin> set (ids t) \<Longrightarrow> n_parent (adopt q t s) i = n_parent s i"
  by (cases t; simp add: adopt_def set_parent_def)+

lemma n_parent_adopt: "n_parent (adopt q t s) = (if t = Lf then n_parent s else (n_parent s)(rt t := q))"
  by (simp add: adopt_def set_parent_def)

lemma put_child_root: "rb_root (put_child q k s) = (if k = [] then q else rb_root s)"
  by (cases k rule: above.cases) (simp_all add: put_child_def set_defs)

lemma put_child_cong:
  "n_left s' = n_left s \<Longrightarrow> n_right s' = n_right s \<Longrightarrow>
   n_left (put_child q k s') = n_left (put_child q k s) \<and> n_right (put_child q k s') = n_right (put_child q k s)"
  by (cases k rule: above.cases) (simp_all add: put_child_def set_defs)

lemma rotate_left_rotated:
  assumes "holds G s (plug k (Nd c a x (Nd d b y e)))"
  shows "rotate_left x s = rotated x y b k s"
proof -
  note h = assms [unfolded holds_plug]
  have f: "n_right s x = y" "n_left s y = rt b" "n_parent s x = above k" "x \<noteq> y" "x \<notin> set (ids b)"
    "x \<noteq> NIL" "x \<notin> ctx_ids k" "distinct (lids k @ rids k)" "is_ctx s x k"
    using h by (auto simp: ctx_apart_def)
  have apart: "i \<noteq> x \<and> i \<noteq> y \<and> i \<notin> set (ids b)" if "i \<in> ctx_ids k" for i
    using h that by (auto simp: ctx_apart_def)
  have b: "rt b = NIL \<longleftrightarrow> b = Lf" using h rt_eq_NIL by auto
  let ?s1 = "set_right x (rt b) s"
  let ?s2 = "adopt x b ?s1"
  let ?s3 = "set_parent y (above k) ?s2"
  have s2: "(if n_left ?s1 y \<noteq> NIL then set_parent (n_left ?s1 y) x ?s1 else ?s1) = ?s2"
    using f b by (simp add: adopt_def set_right_def)
  have p2: "n_parent ?s2 x = above k" using f by (simp add: set_right_def)
  have same: "same_node ?s3 s i" if "i \<in> ctx_ids k" for i
    using apart [OF that] by (simp add: same_node_def set_defs)
  have ctx: "is_ctx ?s3 x k"
    by (rule is_ctx_frame [OF f(9)]) (use same in \<open>auto simp: set_defs ctx_ids_def\<close>)
  have "replace_at x y ?s3 = put_child y k ?s3"
    by (rule replace_at_put [OF ctx]) (use p2 f in \<open>auto simp: set_parent_def\<close>)
  then show ?thesis
    unfolding rotate_left_def Let_def f(1,2) s2 p2 replace_at_def rotated_def by simp
qed

lemma holds_rotate_left:
  assumes "holds G s (plug k (Nd c a x (Nd d b y e)))"
  shows "holds G (rotate_left x s) (plug k (Nd d (Nd c a x b) y e))"
proof -
  note h = assms [unfolded holds_plug]
  have ctx: "is_ctx s x k" "distinct (lids k @ rids k)" using h by (simp_all add: ctx_apart_def)
  have apart: "i \<noteq> x \<and> i \<noteq> y \<and> i \<notin> set (ids a) \<and> i \<notin> set (ids b) \<and> i \<notin> set (ids e)"
    if "i \<in> ctx_ids k" for i
    using h that by (auto simp: ctx_apart_def)
  have inner: "x \<noteq> y" "i \<in> set (ids a) \<Longrightarrow> i \<noteq> x \<and> i \<noteq> y \<and> i \<notin> set (ids b)"
    "i \<in> set (ids b) \<Longrightarrow> i \<noteq> x \<and> i \<noteq> y"
    "i \<in> set (ids e) \<Longrightarrow> i \<noteq> x \<and> i \<noteq> y \<and> i \<notin> set (ids b)" for i
    using h by auto
  let ?s' = "rotated x y b k s"
  have rotated_fields:
    "n_left ?s' i = (if i = y then x else n_left (put_child y k s) i)"
    "n_right ?s' i = (if i = x then rt b else n_right (put_child y k s) i)"
    "n_parent ?s' i = (if i = x then y else if i = y then above k else n_parent (adopt x b s) i)"
    "n_color ?s' = n_color s" "rb_root ?s' = rb_root (put_child y k s)" "n_area ?s' = n_area s"
    "rb_used ?s' = rb_used s" "rb_free_head ?s' = rb_free_head s" for i
    using apart
    by (cases k rule: above.cases; force simp: rotated_def put_child_def set_defs n_parent_adopt ctx_ids_def)+
  have off: "n_left ?s' i = (if i = y then x else n_left s i)"
    "n_right ?s' i = (if i = x then rt b else n_right s i)" if "i \<notin> ctx_ids k" for i
    using that by (simp_all add: rotated_fields)
  have notin: "i \<notin> ctx_ids k" if "i \<in> set (ids a) \<union> set (ids b) \<union> set (ids e) \<union> {x, y}" for i
    using that apart by blast
  have "is_tree ?s' x a"
    by (rule is_tree_frame [of s x a]) (use h inner notin in \<open>simp_all add: same_node_def off rotated_fields\<close>)
  moreover have "is_tree ?s' y e"
    by (rule is_tree_frame [of s y e]) (use h inner notin in \<open>simp_all add: same_node_def off rotated_fields\<close>)
  moreover have "is_tree ?s' x b"
    by (rule is_tree_frame [OF is_tree_adopt [of s y b x]])
      (use h inner notin in \<open>simp_all add: same_node_def off rotated_fields\<close>)
  moreover have "is_ctx ?s' y k"
    by (rule is_ctx_frame [OF is_ctx_put [OF ctx]])
      (use apart in \<open>auto simp: same_node_def rotated_fields ctx_ids_def\<close>)
  moreover have "n_parent ?s' NIL = n_parent s NIL" "n_left ?s' x = rt a" "n_right ?s' y = rt e"
    using h inner(1) notin is_tree_NIL [of s y b] by (auto simp: rotated_fields off)
  ultimately have "holds G ?s' (plug k (Nd d (Nd c a x b) y e))"
    using h inner(1) notin
    by (simp add: holds_plug ctx_apart_def rotated_fields off framed_def)
  then show ?thesis by (simp add: rotate_left_rotated [OF assms])
qed

section \<open>Mirror images\<close>

definition mir :: "rb_state \<Rightarrow> rb_state" where
  "mir s = s\<lparr>n_left := n_right s, n_right := n_left s\<rparr>"

definition mir_rest :: "rb_rest \<Rightarrow> rb_rest" where
  "mir_rest G = G\<lparr>r_left := r_right G, r_right := r_left G\<rparr>"

fun mir_tree :: "rbt \<Rightarrow> rbt" where
  "mir_tree Lf = Lf"
| "mir_tree (Nd c l i r) = Nd c (mir_tree r) i (mir_tree l)"

fun mir_ctx :: "frame list \<Rightarrow> frame list" where
  "mir_ctx [] = []"
| "mir_ctx (FL c i r # k) = FR c (mir_tree r) i # mir_ctx k"
| "mir_ctx (FR c l i # k) = FL c i (mir_tree l) # mir_ctx k"

lemma mir_mir [simp]: "mir (mir s) = s" "mir_rest (mir_rest G) = G" "mir_tree (mir_tree t) = t"
  by (simp_all add: mir_def mir_rest_def) (induction t; simp)

lemma mir_ctx_mir_ctx [simp]: "mir_ctx (mir_ctx k) = k"
  by (induction k rule: mir_ctx.induct) simp_all

lemma mir_fields [simp]:
  "n_color (mir s) = n_color s" "n_parent (mir s) = n_parent s" "n_left (mir s) = n_right s"
  "n_right (mir s) = n_left s" "n_area (mir s) = n_area s" "rb_root (mir s) = rb_root s"
  "rb_used (mir s) = rb_used s" "rb_free_head (mir s) = rb_free_head s"
  by (simp_all add: mir_def)

lemma mir_sets [simp]:
  "mir (set_color i c s) = set_color i c (mir s)" "mir (set_parent i p s) = set_parent i p (mir s)"
  "mir (set_left i p s) = set_right i p (mir s)" "mir (set_right i p s) = set_left i p (mir s)"
  "mir (set_root p s) = set_root p (mir s)" "mir (set_area i a s) = set_area i a (mir s)"
  by (simp_all add: mir_def set_defs)

lemma mir_tree_simps [simp]:
  "rt (mir_tree t) = rt t" "col (mir_tree t) = col t" "mir_tree t = Lf \<longleftrightarrow> t = Lf"
  by (cases t; simp)+

lemma ids_mir_tree [simp]: "ids (mir_tree t) = rev (ids t)"
  by (induction t) simp_all

lemma mir_ctx_simps [simp]: "above (mir_ctx k) = above k" "mir_ctx k = [] \<longleftrightarrow> k = []"
  by (cases k rule: above.cases; simp)+

lemma length_mir_ctx [simp]: "length (mir_ctx k) = length k"
  by (induction k rule: mir_ctx.induct) simp_all

lemma mir_tree_plug: "mir_tree (plug k t) = plug (mir_ctx k) (mir_tree t)"
  by (induction k t rule: plug.induct) simp_all

lemma is_tree_mir [simp]: "is_tree (mir s) p (mir_tree t) \<longleftrightarrow> is_tree s p t"
  by (induction t arbitrary: p) auto

lemma holds_mir [simp]: "holds (mir_rest G) (mir s) (mir_tree t) \<longleftrightarrow> holds G s t"
  by (auto simp: holds_def framed_def mir_rest_def)

lemma holds_mir_plug: "holds (mir_rest G) (mir s) (plug (mir_ctx k) (mir_tree t)) \<longleftrightarrow> holds G s (plug k t)"
  by (simp flip: mir_tree_plug)

lemma mir_if: "mir (if b then s else s') = (if b then mir s else mir s')"
  by simp

lemma mir_rotate_left: "mir (rotate_left x s) = rotate_right x (mir s)"
proof (cases "n_left s (n_right s x) = NIL")
  case True
  then show ?thesis by (simp add: rotate_left_def rotate_right_def Let_def mir_if rb_set_fields)
next
  case False
  then show ?thesis by (simp add: rotate_left_def rotate_right_def Let_def mir_if rb_set_fields)
qed

lemma mir_rotate_right: "mir (rotate_right x s) = rotate_left x (mir s)"
  using mir_rotate_left [of x "mir s"] by (metis mir_mir(1))

lemmas mir_out = mir_sets [symmetric] mir_rotate_left [symmetric] mir_rotate_right [symmetric]

lemma holds_rotate_right:
  assumes "holds G s (plug k (Nd d (Nd c a x b) y e))"
  shows "holds G (rotate_right y s) (plug k (Nd c a x (Nd d b y e)))"
proof -
  have "holds (mir_rest G) (mir s) (plug (mir_ctx k) (Nd d (mir_tree e) y (Nd c (mir_tree b) x (mir_tree a))))"
    using assms holds_mir_plug [of G s k "Nd d (Nd c a x b) y e"] by simp
  from holds_rotate_left [OF this] show ?thesis
    using holds_mir_plug [of G "rotate_right y s" k "Nd c a x (Nd d b y e)"]
    by (simp add: mir_rotate_right)
qed

end
