(* ===== verification/Rb_Fixup.thy ===== *)
theory Rb_Fixup
  imports Rb_Heap
begin

text \<open>
  The colours: the red-black condition on trees and on contexts, and the two repair loops.
  \<open>insert_fixup\<close> and \<open>delete_fixup\<close> return on every tree with the one defect they
  are called for; what they leave is red-black and has the nodes in the same order.
\<close>

section \<open>The red-black condition\<close>

definition blacks :: "rb_color \<Rightarrow> nat" where
  "blacks c = (if c = RB_BLACK then 1 else 0)"

fun bh :: "rbt \<Rightarrow> nat" where
  "bh Lf = 0"
| "bh (Nd c l i r) = bh l + blacks c"

fun rb_ok :: "rbt \<Rightarrow> bool" where
  "rb_ok Lf \<longleftrightarrow> True"
| "rb_ok (Nd c l i r) \<longleftrightarrow> rb_ok l \<and> rb_ok r \<and> bh l = bh r \<and>
     (c = RB_RED \<longrightarrow> col l = RB_BLACK \<and> col r = RB_BLACK)"

text \<open>A context that takes a subtree of black height \<open>n\<close> whose root has colour \<open>c\<close>.\<close>

fun ctx_ok :: "nat \<Rightarrow> rb_color \<Rightarrow> frame list \<Rightarrow> bool" where
  "ctx_ok n c [] \<longleftrightarrow> c = RB_BLACK"
| "ctx_ok n c (FL d i r # k) \<longleftrightarrow> rb_ok r \<and> bh r = n \<and>
     (d = RB_RED \<longrightarrow> c = RB_BLACK \<and> col r = RB_BLACK) \<and> ctx_ok (n + blacks d) d k"
| "ctx_ok n c (FR d l i # k) \<longleftrightarrow> rb_ok l \<and> bh l = n \<and>
     (d = RB_RED \<longrightarrow> c = RB_BLACK \<and> col l = RB_BLACK) \<and> ctx_ok (n + blacks d) d k"

lemma blacks_simps [simp]: "blacks RB_BLACK = 1" "blacks RB_RED = 0"
  by (simp_all add: blacks_def)

lemma not_red [simp]: "c \<noteq> RB_RED \<longleftrightarrow> c = RB_BLACK" "c \<noteq> RB_BLACK \<longleftrightarrow> c = RB_RED"
  by (cases c; simp)+

lemma rb_ok_plug:
  "rb_ok (plug k t) \<and> col (plug k t) = RB_BLACK \<longleftrightarrow> rb_ok t \<and> ctx_ok (bh t) (col t) k"
  by (induction k t rule: plug.induct) auto

lemma ctx_ok_black: "ctx_ok n c k \<Longrightarrow> ctx_ok n RB_BLACK k"
  by (cases k rule: above.cases) auto

lemma bh_mir: "rb_ok t \<Longrightarrow> bh (mir_tree t) = bh t"
  by (induction t) auto

lemma rb_ok_mir [simp]: "rb_ok (mir_tree t) \<longleftrightarrow> rb_ok t"
proof (induction t)
  case (Nd c l i r)
  then show ?case using bh_mir [of l] bh_mir [of r] by auto
qed simp

lemma ctx_ok_mir [simp]: "ctx_ok n c (mir_ctx k) \<longleftrightarrow> ctx_ok n c k"
  by (induction k arbitrary: n c rule: mir_ctx.induct) (auto simp: bh_mir)

section \<open>Insertion\<close>

text \<open>The tree at the head of the loop: \<open>z\<close> is red, and only its parent may be red as well.\<close>

definition ins_focus :: "rb_rest \<Rightarrow> rb_ptr list \<Rightarrow> rb_state \<Rightarrow> frame list \<Rightarrow> rb_ptr \<Rightarrow> bool" where
  "ins_focus G xs s k z \<longleftrightarrow> (\<exists>l r. holds G s (plug k (Nd RB_RED l z r)) \<and> rb_ok (Nd RB_RED l z r) \<and>
     ctx_ok (bh l) RB_BLACK k \<and> ids (plug k (Nd RB_RED l z r)) = xs)"

definition rb_whole :: "rb_rest \<Rightarrow> rb_ptr list \<Rightarrow> rb_state \<Rightarrow> bool" where
  "rb_whole G xs s \<longleftrightarrow> (\<exists>t. holds G s t \<and> rb_ok t \<and> col t = RB_BLACK \<and> ids t = xs)"

lemma ins_focus_mir [simp]: "ins_focus (mir_rest G) (rev xs) (mir s) (mir_ctx k) z \<longleftrightarrow> ins_focus G xs s k z"
  (is "?L = ?R")
proof -
  have *: "ins_focus (mir_rest G) (rev xs) (mir s) (mir_ctx k) z" if "ins_focus G xs s k z" for G xs s k
  proof -
    obtain l r where "holds G s (plug k (Nd RB_RED l z r))" "rb_ok (Nd RB_RED l z r)"
        "ctx_ok (bh l) RB_BLACK k" "ids (plug k (Nd RB_RED l z r)) = xs"
      using \<open>ins_focus G xs s k z\<close> by (auto simp: ins_focus_def)
    then show ?thesis
      using holds_mir_plug [of G s k "Nd RB_RED l z r"] mir_tree_plug [of k "Nd RB_RED l z r"]
        ids_mir_tree [of "plug k (Nd RB_RED l z r)"] bh_mir [of r] bh_mir [of l]
      unfolding ins_focus_def by (rule_tac exI [of _ "mir_tree r"], rule_tac exI [of _ "mir_tree l"]) auto
  qed
  show ?thesis using * [of G xs s k] * [of "mir_rest G" "rev xs" "mir s" "mir_ctx k"] by auto
qed

lemma rb_whole_mir [simp]: "rb_whole (mir_rest G) (rev xs) (mir s) \<longleftrightarrow> rb_whole G xs s"
proof -
  have *: "rb_whole (mir_rest G) (rev xs) (mir s)" if "rb_whole G xs s" for G xs s
    using that unfolding rb_whole_def by (metis holds_mir rb_ok_mir mir_tree_simps(2) ids_mir_tree)
  show ?thesis using * [of G xs s] * [of "mir_rest G" "rev xs" "mir s"] by auto
qed

text \<open>One turn of the loop: either the red pair has moved two levels up, or it is gone.\<close>

definition ins_result :: "rb_rest \<Rightarrow> rb_ptr list \<Rightarrow> frame list \<Rightarrow> rb_ptr \<times> rb_state \<Rightarrow> bool" where
  "ins_result G xs k = (\<lambda>(z, s). ins_focus G xs s k z \<or>
     rb_whole G xs s \<and> n_color s (n_parent s z) = RB_BLACK)"

lemma insert_case3:
  assumes "holds G s (plug k (Nd RB_BLACK (Nd RB_RED (Nd RB_RED a x b) y e) g u))"
    and "rb_ok (Nd RB_RED a x b)" "rb_ok e" "rb_ok u" "bh a = bh e" "bh e = bh u"
    and "col e = RB_BLACK" "col u = RB_BLACK" "ctx_ok (bh a + 1) RB_BLACK k"
  defines "s2 \<equiv> set_color g RB_RED (set_color y RB_BLACK s)"
  shows "ins_result G (ids (plug k (Nd RB_BLACK (Nd RB_RED (Nd RB_RED a x b) y e) g u))) k'
           (x, rotate_right g s2)"
proof -
  have "holds G (set_color y RB_BLACK s) (plug k (Nd RB_BLACK (Nd RB_BLACK (Nd RB_RED a x b) y e) g u))"
    using holds_set_color [of G s "FL RB_BLACK g u # k" RB_RED "Nd RB_RED a x b" y e RB_BLACK] assms(1) by simp
  then have "holds G s2 (plug k (Nd RB_RED (Nd RB_BLACK (Nd RB_RED a x b) y e) g u))"
    unfolding s2_def by (rule holds_set_color)
  then have h: "holds G (rotate_right g s2) (plug k (Nd RB_BLACK (Nd RB_RED a x b) y (Nd RB_RED e g u)))"
    by (rule holds_rotate_right)
  let ?t = "Nd RB_BLACK (Nd RB_RED a x b) y (Nd RB_RED e g u)"
  have "rb_ok ?t \<and> ctx_ok (bh ?t) (col ?t) k" using assms by simp
  then have "rb_ok (plug k ?t)" "col (plug k ?t) = RB_BLACK" using rb_ok_plug by blast+
  moreover have "n_color (rotate_right g s2) (n_parent (rotate_right g s2) x) = RB_BLACK"
    using h holds_fields(2) [of G _ "FL RB_BLACK y (Nd RB_RED e g u) # k" RB_RED a x b]
      holds_fields(1) [OF h] by simp
  ultimately show "ins_result G (ids (plug k (Nd RB_BLACK (Nd RB_RED (Nd RB_RED a x b) y e) g u))) k'
      (x, rotate_right g s2)"
    using h unfolding ins_result_def rb_whole_def by (auto simp: ids_plug)
qed

lemma insert_recolour:
  assumes "holds G s (plug k (Nd RB_BLACK t g u))" "t = Nd RB_RED a p b" "u = Nd RB_RED ul ui ur"
    and "rb_ok a" "rb_ok b" "rb_ok u" "bh a = bh b" "bh b = bh u" "ctx_ok (bh a + 1) RB_BLACK k"
  shows "ins_focus G (ids (plug k (Nd RB_BLACK t g u)))
    (set_color g RB_RED (set_color ui RB_BLACK (set_color p RB_BLACK s))) k g"
proof -
  have "holds G (set_color p RB_BLACK s) (plug k (Nd RB_BLACK (Nd RB_BLACK a p b) g u))"
    using holds_set_color [of G s "FL RB_BLACK g u # k" RB_RED a p b RB_BLACK] assms(1,2) by simp
  then have "holds G (set_color ui RB_BLACK (set_color p RB_BLACK s))
      (plug k (Nd RB_BLACK (Nd RB_BLACK a p b) g (Nd RB_BLACK ul ui ur)))"
    using holds_set_color [of G _ "FR RB_BLACK (Nd RB_BLACK a p b) g # k" RB_RED ul ui ur RB_BLACK]
      assms(3) by simp
  then have "holds G (set_color g RB_RED (set_color ui RB_BLACK (set_color p RB_BLACK s)))
      (plug k (Nd RB_RED (Nd RB_BLACK a p b) g (Nd RB_BLACK ul ui ur)))"
    by (rule holds_set_color)
  then show ?thesis
    using assms(2-) unfolding ins_focus_def
    by (rule_tac exI [of _ "Nd RB_BLACK a p b"], rule_tac exI [of _ "Nd RB_BLACK ul ui ur"])
      (auto simp: ids_plug)
qed

lemma insert_step_left_ok:
  assumes focus: "ins_focus G xs s (f # FL RB_BLACK g u # k) z" and red: "col (plug [f] Lf) = RB_RED"
  shows "ins_result G xs k (insert_step_left z s)"
proof -
  obtain l r where h: "holds G s (plug (f # FL RB_BLACK g u # k) (Nd RB_RED l z r))"
      and ok: "rb_ok (Nd RB_RED l z r)" "ctx_ok (bh l) RB_BLACK (f # FL RB_BLACK g u # k)"
      and xs: "xs = ids (plug (f # FL RB_BLACK g u # k) (Nd RB_RED l z r))"
    using focus by (auto simp: ins_focus_def)
  define p where "p = above [f]"
  define t where "t = plug [f] (Nd RB_RED l z r)"
  have t: "holds G s (plug k (Nd RB_BLACK t g u))" "xs = ids (plug k (Nd RB_BLACK t g u))"
    using h xs by (cases f; simp add: t_def)+
  obtain a b where ab: "t = Nd RB_RED a p b" "rb_ok a" "rb_ok b" "bh a = bh l" "bh b = bh l" "rb_ok u"
      "bh u = bh l" "ctx_ok (bh l + 1) RB_BLACK k"
    using ok red by (cases f) (auto simp: t_def p_def)
  have par: "n_parent s z = p" "n_parent s p = g" "n_right s g = rt u"
    using holds_fields(2) [OF h] holds_fields(4) [OF t(1)]
      holds_fields(2) [of G s "FL RB_BLACK g u # k" RB_RED a p b] t(1) ab(1)
    by (cases f; simp add: p_def)+
  show ?thesis
  proof (cases "col u")
    case RB_RED
    then obtain ul ui ur where u: "u = Nd RB_RED ul ui ur" by (cases u) auto
    have "n_color s (rt u) = RB_RED"
      using holds_col [of G s "FR RB_BLACK t g # k" u] t(1) u by simp
    then have "insert_step_left z s = (g, set_color g RB_RED (set_color ui RB_BLACK (set_color p RB_BLACK s)))"
      using u by (simp add: insert_step_left_def Let_def par rb_set_fields)
    moreover have "ins_focus G xs (set_color g RB_RED (set_color ui RB_BLACK (set_color p RB_BLACK s))) k g"
      unfolding t(2) by (rule insert_recolour [OF t(1) ab(1) u]) (use ab in auto)
    ultimately show ?thesis by (simp add: ins_result_def)
  next
    case RB_BLACK
    have "n_color s (rt u) = RB_BLACK"
      using holds_col [of G s "FR RB_BLACK t g # k" u] t(1) RB_BLACK by simp
    show ?thesis
    proof (cases f)
      case (FL c i sib)
      then have tt: "t = Nd RB_RED (Nd RB_RED l z r) p sib"
        using red by (simp add: t_def p_def)
      have "z \<noteq> n_right s p"
        using holds_fields(4) [of G s "FL RB_BLACK g u # k" RB_RED "Nd RB_RED l z r" p sib] t(1) tt
          rt_in_ids [of sib] by (cases sib) (auto simp: holds_plug)
      then have "insert_step_left z s = (z, rotate_right g (set_color g RB_RED (set_color p RB_BLACK s)))"
        using \<open>n_color s (rt u) = RB_BLACK\<close> by (simp add: insert_step_left_def Let_def par rb_set_fields)
      moreover have "ins_result G (ids (plug k (Nd RB_BLACK t g u))) k
          (z, rotate_right g (set_color g RB_RED (set_color p RB_BLACK s)))"
        unfolding tt by (rule insert_case3 [OF t(1) [unfolded tt] ok(1)])
          (use ab tt RB_BLACK ok(2) FL red in auto)
      ultimately show ?thesis by (simp only: t(2))
    next
      case (FR c sib i)
      then have tt: "t = Nd RB_RED sib p (Nd RB_RED l z r)"
        using red by (simp add: t_def p_def)
      have zr: "z = n_right s p"
        using holds_fields(4) [of G s "FL RB_BLACK g u # k" RB_RED sib p "Nd RB_RED l z r"] t(1) tt by simp
      have h': "holds G (rotate_left p s) (plug k (Nd RB_BLACK (Nd RB_RED (Nd RB_RED sib p l) z r) g u))"
        using holds_rotate_left [of G s "FL RB_BLACK g u # k" RB_RED sib p RB_RED l z r] t(1) tt by simp
      have "n_parent (rotate_left p s) p = z" "n_parent (rotate_left p s) z = g"
        using h' holds_fields(2) [of G "rotate_left p s" "FL RB_RED z r # FL RB_BLACK g u # k" RB_RED sib p l]
          holds_fields(2) [of G "rotate_left p s" "FL RB_BLACK g u # k" RB_RED "Nd RB_RED sib p l" z r]
        by simp_all
      then have "insert_step_left z s =
          (p, rotate_right g (set_color g RB_RED (set_color z RB_BLACK (rotate_left p s))))"
        using \<open>n_color s (rt u) = RB_BLACK\<close>
        by (simp add: insert_step_left_def Let_def par rb_set_fields flip: zr)
      moreover have "ins_result G (ids (plug k (Nd RB_BLACK (Nd RB_RED (Nd RB_RED sib p l) z r) g u))) k
          (p, rotate_right g (set_color g RB_RED (set_color z RB_BLACK (rotate_left p s))))"
        by (rule insert_case3 [OF h']) (use ab tt RB_BLACK ok FR red in auto)
      ultimately show ?thesis by (simp add: t(2) tt ids_plug)
    qed
  qed
qed

text \<open>The loop: it returns, with the same nodes in a red-black tree.\<close>

lemma insert_step_right_mir: "insert_step_right z s = map_prod id mir (insert_step_left z (mir s))"
  by (simp add: insert_step_left_def insert_step_right_def Let_def mir_out del: mir_sets split: if_split)

lemma insert_step_right_ok:
  assumes "ins_focus G xs s (f # FR RB_BLACK u g # k) z" and "col (plug [f] Lf) = RB_RED"
  shows "ins_result G xs k (insert_step_right z s)"
proof -
  obtain f' where f': "mir_ctx (f # FR RB_BLACK u g # k) = f' # FL RB_BLACK g (mir_tree u) # mir_ctx k"
      "col (plug [f'] Lf) = RB_RED"
    using assms(2) by (cases f) auto
  have "ins_focus (mir_rest G) (rev xs) (mir s) (f' # FL RB_BLACK g (mir_tree u) # mir_ctx k) z"
    using assms(1) by (simp flip: f'(1))
  from insert_step_left_ok [OF this f'(2)]
  have "ins_result (mir_rest G) (rev xs) (mir_ctx k) (insert_step_left z (mir s))" .
  then show ?thesis
    using ins_focus_mir [of G xs "mir (snd (insert_step_left z (mir s)))" k]
      rb_whole_mir [of G xs "mir (snd (insert_step_left z (mir s)))"]
    by (auto simp: insert_step_right_mir ins_result_def split: prod.splits)
qed

lemma rb_whole_blacken:
  assumes "holds G s t" "rb_ok t"
  shows "rb_whole G (ids t) (set_color (rb_root s) RB_BLACK s)"
proof (cases t)
  case Lf
  then have "rb_root s = NIL" using assms(1) by (simp add: holds_def)
  then show ?thesis
    using assms Lf holds_set_color_NIL [OF assms(1)] by (auto simp: rb_whole_def)
next
  case (Nd c l i r)
  then have "rb_root s = i" using assms(1) by (simp add: holds_def)
  then show ?thesis
    using assms(2) Nd holds_set_color [of G s "[]" c l i r RB_BLACK] assms(1)
    unfolding rb_whole_def by (intro exI [of _ "Nd RB_BLACK l i r"]) simp
qed

lemma insert_fixup_ok:
  assumes "ins_focus G xs s k z"
  shows "\<exists>s'. insert_fixup z s = Some s' \<and> rb_whole G xs s'"
  using assms
proof (induction "length k" arbitrary: s k z rule: less_induct)
  case less
  obtain l r where h: "holds G s (plug k (Nd RB_RED l z r))" "rb_ok (Nd RB_RED l z r)"
      "ctx_ok (bh l) RB_BLACK k" "ids (plug k (Nd RB_RED l z r)) = xs"
    using less.prems by (auto simp: ins_focus_def)
  have par: "n_parent s z = above k" by (rule holds_fields(2) [OF h(1)])
  show ?case
  proof (cases "k \<noteq> [] \<and> col (plug [hd k] Lf) = RB_RED")
    case False
    have "n_color s (above k) = RB_BLACK"
    proof (cases k rule: above.cases)
      case 1
      then show ?thesis using holds_NIL [OF h(1)] by simp
    next
      case (2 c i u k')
      then show ?thesis using False holds_fields(1) [of G s k' c _ i u] h(1) by simp
    next
      case (3 c u i k')
      then show ?thesis using False holds_fields(1) [of G s k' c u i] h(1) by simp
    qed
    then have "insert_fixup z s = Some (set_color (rb_root s) RB_BLACK s)"
      by (subst insert_fixup.simps) (simp add: par)
    moreover have "rb_ok (plug k (Nd RB_RED l z r))"
      using False h(2,3) rb_ok_plug [of k "Nd RB_RED l z r"] by (cases k rule: above.cases) auto
    ultimately show ?thesis using rb_whole_blacken [OF h(1)] h(4) by auto
  next
    case True
    then obtain f k1 where k: "k = f # k1" "col (plug [f] Lf) = RB_RED" by (cases k) auto
    have "ctx_ok (bh l) RB_RED k1" using h(3) k by (cases f) auto
    then obtain u g k2 where k1: "k1 = FL RB_BLACK g u # k2 \<or> k1 = FR RB_BLACK u g # k2"
      by (cases k1 rule: above.cases) auto
    obtain a b where t: "plug k (Nd RB_RED l z r) = plug k1 (Nd RB_RED a (above k) b)"
      using k by (cases f) auto
    note p = holds_fields [OF h(1) [unfolded t]]
    have res: "ins_result G xs k2 (if above k = n_left s g then insert_step_left z s else insert_step_right z s)"
        "n_parent s (above k) = g"
    proof -
      from k1 show "n_parent s (above k) = g" using p(2) by auto
      from k1 show "ins_result G xs k2 (if above k = n_left s g then insert_step_left z s else insert_step_right z s)"
      proof
        assume k1: "k1 = FL RB_BLACK g u # k2"
        then have "n_left s g = above k"
          using h(1) [unfolded t] holds_fields(3) [of G s k2 RB_BLACK "Nd RB_RED a (above k) b" g u] by simp
        then show ?thesis
          using less.prems k k1 by (auto intro: insert_step_left_ok)
      next
        assume k1: "k1 = FR RB_BLACK u g # k2"
        then have hg: "holds G s (plug k2 (Nd RB_BLACK u g (Nd RB_RED a (above k) b)))"
          using h(1) [unfolded t] by simp
        then have "n_left s g = rt u" by (rule holds_fields(3))
        moreover have "rt u \<noteq> above k"
          using hg p(5) rt_in_ids [of u] by (cases u) (auto simp: holds_plug)
        ultimately show ?thesis
          using less.prems k k1 by (auto intro: insert_step_right_ok)
      qed
    qed
    obtain z' s' where step: "(if above k = n_left s g then insert_step_left z s else insert_step_right z s) = (z', s')"
      by fastforce
    have unf: "insert_fixup z s = insert_fixup z' s'"
      using p(1) res(2) step by (subst insert_fixup.simps) (simp add: par)
    from res(1) [unfolded step] consider "ins_focus G xs s' k2 z'"
      | "rb_whole G xs s'" "n_color s' (n_parent s' z') = RB_BLACK"
      by (auto simp: ins_result_def)
    then show ?thesis
    proof cases
      case 1
      have "length k2 < length k" using k k1 by auto
      from less.hyps [OF this 1] show ?thesis by (simp add: unf)
    next
      case 2
      then have "insert_fixup z' s' = Some (set_color (rb_root s') RB_BLACK s')"
        by (subst insert_fixup.simps) simp
      then show ?thesis
        using 2(1) rb_whole_blacken [of G s'] by (auto simp: unf rb_whole_def)
    qed
  qed
qed

section \<open>Deletion\<close>

text \<open>The tree at the head of the loop: below \<open>x\<close> one black node is missing on every path. The root of
  the subtree may be red, and then stand below or above a red node; colouring it repairs the tree.\<close>

fun blacken :: "rbt \<Rightarrow> rbt" where
  "blacken Lf = Lf"
| "blacken (Nd c l i r) = Nd RB_BLACK l i r"

definition del_focus :: "rb_rest \<Rightarrow> rb_ptr list \<Rightarrow> rb_state \<Rightarrow> frame list \<Rightarrow> rbt \<Rightarrow> rb_ptr \<Rightarrow> bool" where
  "del_focus G xs s k t x \<longleftrightarrow> holds G s (plug k t) \<and> rt t = x \<and> n_parent s x = above k \<and>
     rb_ok (blacken t) \<and> ctx_ok (Suc (bh t)) RB_BLACK k \<and> ids (plug k t) = xs"

definition del_result :: "rb_rest \<Rightarrow> rb_ptr list \<Rightarrow> frame list \<Rightarrow> rb_ptr \<times> rb_state \<Rightarrow> bool" where
  "del_result G xs k = (\<lambda>(x, s). (\<exists>t k'. del_focus G xs s k' t x \<and> (k' = k \<or> col t = RB_RED)) \<or>
     x = rb_root s \<and> rb_whole G xs s)"

lemma blacken_simps [simp]: "rt (blacken t) = rt t" "ids (blacken t) = ids t" "col (blacken t) = RB_BLACK"
    "mir_tree (blacken t) = blacken (mir_tree t)" "col t = RB_BLACK \<Longrightarrow> blacken t = t"
  by (cases t; simp)+

text \<open>The turn of the loop for a left child, in two parts: the red sibling, and the rest.\<close>

definition del_sibling :: "rb_ptr \<Rightarrow> rb_state \<Rightarrow> rb_ptr \<times> rb_state" where
  "del_sibling x s =
     (let w = n_right s (n_parent s x)
      in if n_color s w = RB_RED then
              (let s1 = set_color w RB_BLACK s;
                   s2 = set_color (n_parent s1 x) RB_RED s1;
                   s3 = rotate_left (n_parent s2 x) s2
               in (n_right s3 (n_parent s3 x), s3))
            else (w, s))"

definition del_far :: "rb_ptr \<Rightarrow> rb_ptr \<Rightarrow> rb_state \<Rightarrow> rb_ptr \<times> rb_state" where
  "del_far x w s =
     (let s1 = set_color w (n_color s (n_parent s x)) s;
          s2 = set_color (n_parent s1 x) RB_BLACK s1;
          s3 = set_color (n_right s2 w) RB_BLACK s2;
          s4 = rotate_left (n_parent s3 x) s3
      in (rb_root s4, s4))"

definition del_rest :: "rb_ptr \<Rightarrow> rb_ptr \<Rightarrow> rb_state \<Rightarrow> rb_ptr \<times> rb_state" where
  "del_rest x w s =
     (if n_color s (n_left s w) = RB_BLACK \<and> n_color s (n_right s w) = RB_BLACK
      then (let s1 = set_color w RB_RED s in (n_parent s1 x, s1))
      else
        (case (if n_color s (n_right s w) = RB_BLACK then
                (let s1 = set_color (n_left s w) RB_BLACK s;
                     s2 = set_color w RB_RED s1;
                     s3 = rotate_right w s2
                 in (n_right s3 (n_parent s3 x), s3))
              else (w, s)) of (w, s) \<Rightarrow> del_far x w s))"

lemma delete_step_left_parts: "delete_step_left x s = (case del_sibling x s of (w, s) \<Rightarrow> del_rest x w s)"
  unfolding delete_step_left_def del_sibling_def del_rest_def del_far_def Let_def by simp

lemma del_focus_parent:
  assumes "holds G s (plug k t)" "r_nilp G = above k \<or> t \<noteq> Lf"
  shows "n_parent s (rt t) = above k"
  using assms by (cases t) (auto simp: holds_plug framed_def)

lemma del_far_ok:
  assumes h: "holds G s (plug k (Nd c t p (Nd d wl w (Nd RB_RED u v e))))"
    and par: "n_parent s (rt t) = p"
    and ok: "rb_ok t" "rb_ok wl" "rb_ok u" "rb_ok e" "bh wl = bh t" "bh u = bh t" "bh e = bh t"
      "ctx_ok (bh t + 1 + blacks c) c k"
  shows "del_result G (ids (plug k (Nd c t p (Nd d wl w (Nd RB_RED u v e))))) k' (del_far (rt t) w s)"
proof -
  define s1 where "s1 = set_color w c s"
  define s2 where "s2 = set_color p RB_BLACK s1"
  define s3 where "s3 = set_color v RB_BLACK s2"
  have f: "n_color s p = c" "n_right s w = v"
    using holds_fields(1) [OF h] holds_fields(4) [of G s "FR c t p # k" d wl w] h by simp_all
  have "holds G s1 (plug k (Nd c t p (Nd c wl w (Nd RB_RED u v e))))"
    using holds_set_color [of G s "FR c t p # k" d wl w "Nd RB_RED u v e" c] h by (simp add: s1_def)
  then have "holds G s2 (plug k (Nd RB_BLACK t p (Nd c wl w (Nd RB_RED u v e))))"
    unfolding s2_def by (rule holds_set_color)
  then have "holds G s3 (plug k (Nd RB_BLACK t p (Nd c wl w (Nd RB_BLACK u v e))))"
    using holds_set_color [of G s2 "FR c wl w # FR RB_BLACK t p # k" RB_RED u v e RB_BLACK]
    by (simp add: s3_def)
  then have h4: "holds G (rotate_left p s3) (plug k (Nd c (Nd RB_BLACK t p wl) w (Nd RB_BLACK u v e)))"
    by (rule holds_rotate_left)
  let ?t = "Nd c (Nd RB_BLACK t p wl) w (Nd RB_BLACK u v e)"
  have "rb_ok (plug k ?t)" "col (plug k ?t) = RB_BLACK"
    using rb_ok_plug [of k ?t] ok by auto
  then have "rb_whole G (ids (plug k ?t)) (rotate_left p s3)"
    using h4 by (auto simp: rb_whole_def)
  moreover have "del_far (rt t) w s = (rb_root (rotate_left p s3), rotate_left p s3)"
    using f par by (simp add: del_far_def Let_def s1_def s2_def s3_def rb_set_fields)
  ultimately show ?thesis by (simp add: del_result_def ids_plug)
qed

lemma del_rest_ok:
  assumes h: "holds G s (plug k (Nd c t p (Nd RB_BLACK wl w wr)))"
    and par: "n_parent s (rt t) = p" "r_nilp G = p \<or> t \<noteq> Lf"
    and ok: "rb_ok t" "col t = RB_BLACK" "rb_ok wl" "rb_ok wr" "bh wl = bh t" "bh wr = bh t"
      "ctx_ok (bh t + 1 + blacks c) c k"
    and k': "k' = k \<or> c = RB_RED"
  shows "del_result G (ids (plug k (Nd c t p (Nd RB_BLACK wl w wr)))) k' (del_rest (rt t) w s)"
proof -
  let ?T = "plug k (Nd c t p (Nd RB_BLACK wl w wr))"
  have f: "n_left s w = rt wl" "n_right s w = rt wr" "n_color s (rt wl) = col wl" "n_color s (rt wr) = col wr"
    using holds_fields(3,4) [of G s "FR c t p # k" RB_BLACK wl w wr] h
      holds_col [of G s "FL RB_BLACK w wr # FR c t p # k" wl]
      holds_col [of G s "FR RB_BLACK wl w # FR c t p # k" wr] by simp_all
  consider "col wl = RB_BLACK" "col wr = RB_BLACK" | "col wr = RB_RED" | "col wl = RB_RED" "col wr = RB_BLACK"
    by (cases "col wl"; cases "col wr") auto
  then show ?thesis
  proof cases
    case 1
    let ?s1 = "set_color w RB_RED s"
    have h1: "holds G ?s1 (plug k (Nd c t p (Nd RB_RED wl w wr)))"
      using holds_set_color [of G s "FR c t p # k" RB_BLACK wl w wr RB_RED] h by simp
    have "del_focus G (ids ?T) ?s1 k (Nd c t p (Nd RB_RED wl w wr)) p"
      using h1 holds_fields(2) [OF h1] ok 1 ctx_ok_black by (simp add: del_focus_def ids_plug)
    moreover have "del_rest (rt t) w s = (p, ?s1)"
      using f 1 par by (simp add: del_rest_def Let_def rb_set_fields)
    ultimately show ?thesis
      using k' unfolding del_result_def by (cases "k' = k") fastforce+
  next
    case 2
    then obtain u v e where wr: "wr = Nd RB_RED u v e" by (cases wr) auto
    have "del_rest (rt t) w s = del_far (rt t) w s"
      using f 2 by (simp add: del_rest_def)
    moreover have "del_result G (ids ?T) k' (del_far (rt t) w s)"
      unfolding wr by (rule del_far_ok [OF h [unfolded wr] par(1)]) (use ok wr in auto)
    ultimately show ?thesis by simp
  next
    case 3
    then obtain u v e where wl: "wl = Nd RB_RED u v e" by (cases wl) auto
    define s1 where "s1 = set_color v RB_BLACK s"
    define s2 where "s2 = set_color w RB_RED s1"
    have "holds G s1 (plug k (Nd c t p (Nd RB_BLACK (Nd RB_BLACK u v e) w wr)))"
      using holds_set_color [of G s "FL RB_BLACK w wr # FR c t p # k" RB_RED u v e RB_BLACK] h
      by (simp add: s1_def wl)
    then have "holds G s2 (plug k (Nd c t p (Nd RB_RED (Nd RB_BLACK u v e) w wr)))"
      using holds_set_color [of G s1 "FR c t p # k" RB_BLACK "Nd RB_BLACK u v e" w wr RB_RED]
      by (simp add: s2_def)
    then have h3: "holds G (rotate_right w s2) (plug k (Nd c t p (Nd RB_BLACK u v (Nd RB_RED e w wr))))"
      using holds_rotate_right [of G s2 "FR c t p # k" RB_RED RB_BLACK u v e w wr] by simp
    have p3: "n_parent (rotate_right w s2) (rt t) = p"
      using del_focus_parent [of G "rotate_right w s2" "FL c p (Nd RB_BLACK u v (Nd RB_RED e w wr)) # k" t]
        h3 par(2) by simp
    have "n_right (rotate_right w s2) p = v"
      using holds_fields(4) [OF h3] by simp
    then have "del_rest (rt t) w s = del_far (rt t) v (rotate_right w s2)"
      using f 3 p3 by (simp add: del_rest_def Let_def wl s1_def s2_def)
    moreover have "del_result G (ids (plug k (Nd c t p (Nd RB_BLACK u v (Nd RB_RED e w wr))))) k'
        (del_far (rt t) v (rotate_right w s2))"
      by (rule del_far_ok [OF h3 p3]) (use ok wl in auto)
    ultimately show ?thesis by (simp add: wl ids_plug)
  qed
qed

lemma delete_step_left_ok:
  assumes foc: "del_focus G xs s (FL c p u # k) t x" and black: "col t = RB_BLACK"
    and nilp: "r_nilp G = p \<or> t \<noteq> Lf"
  shows "del_result G xs k (delete_step_left x s)"
proof -
  have h: "holds G s (plug k (Nd c t p u))" and x: "x = rt t" and par: "n_parent s x = p"
    and ok: "rb_ok t" "rb_ok u" "bh u = Suc (bh t)" "ctx_ok (bh t + 1 + blacks c) c k"
      "c = RB_RED \<Longrightarrow> col u = RB_BLACK"
    and xs: "xs = ids (plug k (Nd c t p u))"
    using foc black by (auto simp: del_focus_def)
  obtain d wl w wr where u: "u = Nd d wl w wr" using ok(3) by (cases u) auto
  have f: "n_right s p = w" "n_color s w = d"
    using holds_fields(4) [OF h] holds_fields(1) [of G s "FR c t p # k" d wl w wr] h u by simp_all
  show ?thesis
  proof (cases d)
    case RB_BLACK
    then have "del_sibling x s = (w, s)" using par f by (simp add: del_sibling_def)
    then show ?thesis
      using del_rest_ok [of G s k c t p wl w wr k] h par nilp ok black u RB_BLACK
      by (simp add: delete_step_left_parts x xs)
  next
    case RB_RED
    then have c: "c = RB_BLACK" using ok(5) u by (cases c) auto
    define s1 where "s1 = set_color w RB_BLACK s"
    define s2 where "s2 = set_color p RB_RED s1"
    have "holds G s1 (plug k (Nd c t p (Nd RB_BLACK wl w wr)))"
      using holds_set_color [of G s "FR c t p # k" RB_RED wl w wr RB_BLACK] h RB_RED u by (simp add: s1_def)
    then have "holds G s2 (plug k (Nd RB_RED t p (Nd RB_BLACK wl w wr)))"
      unfolding s2_def by (rule holds_set_color)
    then have h3: "holds G (rotate_left p s2) (plug (FL RB_BLACK w wr # k) (Nd RB_RED t p wl))"
      using holds_rotate_left by simp
    have p3: "n_parent (rotate_left p s2) x = p"
      using del_focus_parent [of G "rotate_left p s2" "FL RB_RED p wl # FL RB_BLACK w wr # k" t]
        h3 nilp x by simp
    have ok': "rb_ok wl" "rb_ok wr" "bh wl = Suc (bh t)" "bh wr = Suc (bh t)" "col wl = RB_BLACK"
      using ok(2,3) u RB_RED by auto
    then obtain ul v ur where wl: "wl = Nd RB_BLACK ul v ur" by (cases wl) auto
    have "n_right (rotate_left p s2) p = v"
      using holds_fields(4) [OF h3] wl by simp
    then have "del_sibling x s = (v, rotate_left p s2)"
      using par f RB_RED p3 by (simp add: del_sibling_def Let_def s1_def s2_def rb_set_fields)
    then show ?thesis
      using del_rest_ok [of G "rotate_left p s2" "FL RB_BLACK w wr # k" RB_RED t p ul v ur k]
        h3 p3 nilp ok ok' black wl c u
      by (simp add: delete_step_left_parts x xs ids_plug)
  qed
qed

lemma delete_step_right_mir: "delete_step_right x s = map_prod id mir (delete_step_left x (mir s))"
  by (simp add: delete_step_left_def delete_step_right_def Let_def mir_out del: mir_sets split: if_split)

lemma del_focus_mir [simp]:
  "del_focus (mir_rest G) (rev xs) (mir s) (mir_ctx k) (mir_tree t) x \<longleftrightarrow> del_focus G xs s k t x"
proof -
  have bh: "bh (mir_tree t) = bh t" if "rb_ok (blacken t)"
    using that bh_mir by (cases t) auto
  have "ids (plug (mir_ctx k) (mir_tree t)) = rev (ids (plug k t))"
    by (simp flip: mir_tree_plug)
  then show ?thesis
    using bh rb_ok_mir [of "blacken t"] by (auto simp: del_focus_def holds_mir_plug)
qed

lemma delete_step_right_ok:
  assumes "del_focus G xs s (FR c u p # k) t x" "col t = RB_BLACK" "r_nilp G = p \<or> t \<noteq> Lf"
  shows "del_result G xs k (delete_step_right x s)"
proof -
  have "del_focus (mir_rest G) (rev xs) (mir s) (FL c p (mir_tree u) # mir_ctx k) (mir_tree t) x"
    using assms(1) del_focus_mir [of G xs s "FR c u p # k" t x] by simp
  moreover have "r_nilp (mir_rest G) = p \<or> mir_tree t \<noteq> Lf"
    using assms(3) by (simp add: mir_rest_def)
  ultimately have res: "del_result (mir_rest G) (rev xs) (mir_ctx k) (delete_step_left x (mir s))"
    using assms(2) by (intro delete_step_left_ok [where u = "mir_tree u" and t = "mir_tree t"]) auto
  obtain x' s' where step: "delete_step_left x (mir s) = (x', s')" by fastforce
  from res consider t' k' where "del_focus (mir_rest G) (rev xs) s' k' t' x'" "k' = mir_ctx k \<or> col t' = RB_RED"
    | "x' = rb_root s'" "rb_whole (mir_rest G) (rev xs) s'"
    by (auto simp: step del_result_def)
  then show ?thesis
  proof cases
    case 1
    then have "del_focus G xs (mir s') (mir_ctx k') (mir_tree t') x'"
      using del_focus_mir [of G xs "mir s'" "mir_ctx k'" "mir_tree t'" x'] by simp
    moreover have "mir_ctx k' = k \<or> col (mir_tree t') = RB_RED" using 1(2) by auto
    ultimately have "\<exists>t k'. del_focus G xs (mir s') k' t x' \<and> (k' = k \<or> col t = RB_RED)" by blast
    then show ?thesis by (simp add: delete_step_right_mir step del_result_def)
  next
    case 2
    then show ?thesis
      using rb_whole_mir [of G xs "mir s'"] by (simp add: delete_step_right_mir step del_result_def)
  qed
qed

lemma del_focus_blacken:
  assumes "del_focus G xs s k t x" "k = [] \<or> col t = RB_RED"
  shows "delete_fixup x s = Some (set_color x RB_BLACK s) \<and> rb_whole G xs (set_color x RB_BLACK s)"
proof -
  have h: "holds G s (plug k t)" "rt t = x" "rb_ok (blacken t)" "ctx_ok (Suc (bh t)) RB_BLACK k"
      "ids (plug k t) = xs"
    using assms(1) by (simp_all add: del_focus_def)
  have "x = rb_root s \<or> n_color s x \<noteq> RB_BLACK"
    using assms(2) holds_root [OF h(1)] holds_col [OF h(1)] h(2) by auto
  then have "delete_fixup x s = Some (set_color x RB_BLACK s)"
    by (subst delete_fixup.simps) auto
  moreover have "holds G (set_color x RB_BLACK s) (plug k (blacken t))"
    using h(1,2) holds_set_color holds_set_color_NIL by (cases t) auto
  moreover have "rb_ok (plug k (blacken t)) \<and> col (plug k (blacken t)) = RB_BLACK"
  proof -
    have "ctx_ok (bh (blacken t)) RB_BLACK k"
      using assms(2) h(4) by (cases t) auto
    then show ?thesis using rb_ok_plug [of k "blacken t"] h(3) by simp
  qed
  ultimately show ?thesis
    using h(5) by (auto simp: rb_whole_def ids_plug)
qed

lemma delete_fixup_root:
  assumes "rb_whole G xs s"
  shows "\<exists>s'. delete_fixup (rb_root s) s = Some s' \<and> rb_whole G xs s'"
proof -
  have "delete_fixup (rb_root s) s = Some (set_color (rb_root s) RB_BLACK s)"
    by (subst delete_fixup.simps) simp
  then show ?thesis using assms rb_whole_blacken by (auto simp: rb_whole_def)
qed

lemma delete_fixup_ok:
  assumes "del_focus G xs s k t x"
  shows "\<exists>s'. delete_fixup x s = Some s' \<and> rb_whole G xs s'"
  using assms
proof (induction "length k" arbitrary: s k t x rule: less_induct)
  case less
  show ?case
  proof (cases "k = [] \<or> col t = RB_RED")
    case True
    then show ?thesis using del_focus_blacken [OF less.prems] by auto
  next
    case False
    then obtain f k1 where k: "k = f # k1" by (cases k) auto
    have h: "holds G s (plug k t)" "x = rt t" "n_parent s x = above k"
      using less.prems by (simp_all add: del_focus_def)
    have black: "col t = RB_BLACK" using False by simp
    have nilp: "r_nilp G = above k \<or> t \<noteq> Lf"
      using h by (auto simp: holds_def framed_def)
    have res: "del_result G xs k1
        (if x = n_left s (n_parent s x) then delete_step_left x s else delete_step_right x s)"
    proof (cases f)
      case (FL c p u)
      then have "n_left s (above k) = x"
        using h k holds_fields(3) [of G s k1 c t p u] by simp
      then show ?thesis
        using h(3) delete_step_left_ok [of G xs s c p u k1 t x] less.prems black nilp k FL by simp
    next
      case (FR c u p)
      then have hp: "holds G s (plug k1 (Nd c u p t))" using h k by simp
      have "u \<noteq> Lf" using less.prems k FR by (auto simp: del_focus_def)
      then have "rt u \<noteq> rt t"
        using hp rt_in_ids [of u] rt_in_ids [of t] by (cases t) (auto simp: holds_plug dest: is_tree_NIL)
      then have "n_left s (above k) \<noteq> x"
        using holds_fields(3) [OF hp] h(2) k FR by simp
      then show ?thesis
        using h(3) delete_step_right_ok [of G xs s c u p k1 t x] less.prems black nilp k FR by simp
    qed
    obtain x' s' where step:
        "(if x = n_left s (n_parent s x) then delete_step_left x s else delete_step_right x s) = (x', s')"
      by fastforce
    have "x \<noteq> rb_root s \<and> n_color s x = RB_BLACK"
      using holds_root [OF h(1)] holds_col [OF h(1)] h(2) False by auto
    then have unf: "delete_fixup x s = delete_fixup x' s'"
      using step by (subst delete_fixup.simps) simp
    from res [unfolded step] consider t' k' where "del_focus G xs s' k' t' x'" "k' = k1 \<or> col t' = RB_RED"
      | "x' = rb_root s'" "rb_whole G xs s'"
      by (auto simp: del_result_def)
    then show ?thesis
    proof cases
      case 1
      then show ?thesis
        using less.hyps [of k1 s' t' x'] del_focus_blacken [OF 1(1)] k by (auto simp: unf)
    next
      case 2
      then show ?thesis using delete_fixup_root [of G xs s'] by (simp add: unf)
    qed
  qed
qed

end
