(* ===== verification/Rb_Unlink.thy ===== *)
theory Rb_Unlink
  imports Rb_Fixup
begin

text \<open>
  Taking a node out of the tree: \<open>transplant\<close>, the successor of a node with two children, and
  \<open>rb_unlink\<close>, which leaves either a red-black tree or one with the defect that
  \<open>delete_fixup\<close> repairs.
\<close>

definition rest_of :: "rb_state \<Rightarrow> rb_rest" where
  "rest_of s = \<lparr>r_area = n_area s, r_used = rb_used s, r_nilp = n_parent s NIL, r_head = rb_free_head s,
     r_left = n_left s, r_right = n_right s\<rparr>"

text \<open>A change that touches the nodes of \<open>I\<close>, the root and the parent of the sentinel only.\<close>

definition keeps :: "rb_ptr set \<Rightarrow> rb_state \<Rightarrow> rb_state \<Rightarrow> bool" where
  "keeps I s' s \<longleftrightarrow> n_area s' = n_area s \<and> rb_used s' = rb_used s \<and> rb_free_head s' = rb_free_head s \<and>
     n_color s' NIL = n_color s NIL \<and> (\<forall>i. i \<notin> I \<longrightarrow> n_left s' i = n_left s i \<and> n_right s' i = n_right s i)"

lemma keeps_trans: "keeps I s' s \<Longrightarrow> keeps J s'' s' \<Longrightarrow> J \<subseteq> I \<Longrightarrow> keeps I s'' s"
  by (auto simp: keeps_def)

lemma framed_rest_of [simp]: "framed (rest_of s) I s \<longleftrightarrow> n_color s NIL = RB_BLACK"
  by (simp add: framed_def rest_of_def)

lemma r_nilp_rest_of [simp]: "r_nilp (rest_of s) = n_parent s NIL"
  by (simp add: rest_of_def)

lemma holds_rest_of: "holds G s t \<Longrightarrow> holds (rest_of s) s t"
  by (simp add: holds_def framed_def rest_of_def)

section \<open>Replacing a node by its only child\<close>

lemma transplant_put:
  assumes "is_ctx s z k" "n_parent s z = above k" "z \<noteq> NIL" "z \<notin> ctx_ids k" "distinct (lids k @ rids k)"
  shows "transplant z v s = set_parent v (above k) (put_child v k s)"
  unfolding transplant_def Let_def replace_at_def [symmetric] replace_at_put [OF assms]
  using assms(2) by simp

lemma transplant_ok:
  assumes h: "holds G s (plug k (Nd c l z r))" and v: "l = Lf \<and> v = r \<or> r = Lf \<and> v = l"
  defines "s' \<equiv> transplant z (rt v) s"
  shows "holds (rest_of s') s' (plug k v)" "n_parent s' (rt v) = above k"
    "keeps (ctx_ids k) s' s"
    "i \<notin> set (ids v) \<Longrightarrow> i \<noteq> NIL \<Longrightarrow> n_parent s' i = n_parent s i" "n_color s' = n_color s"
proof -
  note hh = h [unfolded holds_plug]
  have s': "s' = set_parent (rt v) (above k) (put_child (rt v) k s)"
    unfolding s'_def using hh by (intro transplant_put) (auto simp: ctx_apart_def)
  have tv: "is_tree s z v" "distinct (ids v)" "ctx_apart k v"
    using hh v by (auto simp: ctx_apart_def)
  have ctx: "is_ctx s z k" "distinct (lids k @ rids k)" "NIL \<notin> ctx_ids k"
    using hh ctx_ids_NIL by (auto simp: ctx_apart_def)
  have apart: "j \<notin> ctx_ids k" if "j \<in> set (ids v)" for j
    using tv(3) that by (auto simp: ctx_apart_def)
  have rtv: "rt v \<notin> ctx_ids k" using rt_not_ctx [OF ctx(1) tv(3)] .
  have "is_tree s' (above k) v"
    by (rule is_tree_frame [OF is_tree_adopt [OF tv(1,2)]])
      (use apart is_tree_NIL [OF tv(1)] in \<open>auto simp: same_node_def s' rb_set_fields n_parent_adopt\<close>)
  moreover have "is_ctx s' (rt v) k"
    by (rule is_ctx_frame [OF is_ctx_put [OF ctx(1,2)]])
      (use rtv in \<open>auto simp: s' same_node_def rb_set_fields ctx_ids_def\<close>)
  moreover have "n_color s' NIL = RB_BLACK"
    using hh by (simp add: s' rb_set_fields framed_def)
  ultimately show "holds (rest_of s') s' (plug k v)"
    using tv by (simp add: holds_plug)
  show "n_parent s' (rt v) = above k" by (simp add: s' rb_set_fields)
  show "keeps (ctx_ids k) s' s"
    by (simp add: keeps_def s' rb_set_fields) (simp add: set_parent_def)
  show "n_color s' = n_color s" by (simp add: s' rb_set_fields)
  show "n_parent s' i = n_parent s i" if "i \<notin> set (ids v)" "i \<noteq> NIL"
    using that rt_in_ids [of v] by (cases v) (auto simp: s' rb_set_fields)
qed

section \<open>The successor\<close>

lemma plug_append: "plug (k1 @ k2) t = plug k2 (plug k1 t)"
  by (induction k1 t rule: plug.induct) simp_all

lemma lids_append: "lids (k1 @ k2) = lids k2 @ lids k1"
  by (induction k1 rule: lids.induct) simp_all

lemma rids_append: "rids (k1 @ k2) = rids k1 @ rids k2"
  by (induction k1 rule: rids.induct) simp_all

lemma leftmost_exists:
  assumes "is_tree s p r" "r \<noteq> Lf"
  shows "\<exists>ky cy y yr. r = plug ky (Nd cy Lf y yr) \<and> tree_minimum (rt r) s = Some y \<and> lids ky = []"
  using assms
proof (induction r arbitrary: p)
  case (Nd c l i r)
  show ?case
  proof (cases "l = Lf")
    case True
    have "tree_minimum i s = Some i"
      using Nd.prems True by (subst tree_minimum.simps) simp
    then show ?thesis using True by (intro exI [of _ "[]"]) auto
  next
    case False
    then obtain ky cy y yr where l: "l = plug ky (Nd cy Lf y yr)" "tree_minimum (rt l) s = Some y" "lids ky = []"
      using Nd.IH(1) [of i] Nd.prems by auto
    have "tree_minimum i s = tree_minimum (rt l) s"
      using Nd.prems False rt_eq_NIL [of s i l] by (subst tree_minimum.simps) simp
    then show ?thesis using l by (intro exI [of _ "ky @ [FL c i r]"]) (auto simp: plug_append lids_append)
  qed
qed simp

text \<open>Putting the successor \<open>y\<close>, which already has the right subtree, in the place of \<open>z\<close>.\<close>

definition splice :: "rb_ptr \<Rightarrow> rb_ptr \<Rightarrow> rb_state \<Rightarrow> rb_state" where
  "splice z y s =
     (let s2 = transplant z y s;
          s3 = set_left y (n_left s2 z) s2;
          s4 = set_parent (n_left s3 y) y s3
      in set_color y (n_color s4 z) s4)"

lemma splice_ok:
  assumes ctx: "is_ctx s z k" "distinct (lids k @ rids k)"
    and z: "n_parent s z = above k" "n_left s z = rt l" "n_color s z = c" "z \<noteq> NIL"
    and l: "is_tree s z l" "distinct (ids l)" "l \<noteq> Lf"
    and R: "is_tree s y R" "distinct (ids R)" "n_right s y = rt R"
    and y: "y < RB_MAX_NODES" "z \<noteq> y" "y \<notin> set (ids l) \<union> set (ids R) \<union> ctx_ids k"
    and z': "z \<notin> set (ids l) \<union> set (ids R) \<union> ctx_ids k"
    and ap: "set (ids l) \<inter> set (ids R) = {}" "ctx_ids k \<inter> (set (ids l) \<union> set (ids R)) = {}"
    and nil: "n_color s NIL = RB_BLACK"
  defines "s' \<equiv> splice z y s"
  shows "holds (rest_of s') s' (plug k (Nd c l y R))" "n_parent s' NIL = n_parent s NIL"
    "keeps (insert y (ctx_ids k)) s' s"
proof -
  have "transplant z y s = set_parent y (above k) (put_child y k s)"
    using ctx z z' by (intro transplant_put) auto
  then have s': "s' = set_color y c (set_parent (rt l) y (set_left y (rt l)
      (set_parent y (above k) (put_child y k s))))"
    using z z' y by (simp add: s'_def splice_def Let_def rb_set_fields)
  have rtl: "rt l \<in> set (ids l)" "rt l \<noteq> y" "rt l \<noteq> NIL"
    using l y rt_in_ids [of l] is_tree_NIL [OF l(1)] by auto
  have apart: "i \<notin> ctx_ids k" if "i \<in> set (ids l) \<union> set (ids R) \<union> {y}" for i
    using that ap y by blast
  have apart': "i \<noteq> y \<and> i \<notin> set (ids l)" if "i \<in> ctx_ids k" for i
    using that ap y by blast
  have tl: "is_tree s' y l"
    by (rule is_tree_frame [OF is_tree_adopt [OF l(1,2)]])
      (use l(3) y apart in \<open>auto simp: same_node_def s' rb_set_fields n_parent_adopt\<close>)
  have tR: "is_tree s' y R"
    by (rule is_tree_frame [OF R(1)])
      (use y ap rtl apart in \<open>auto simp: same_node_def s' rb_set_fields\<close>)
  have "is_ctx s' y k"
    by (rule is_ctx_frame [OF is_ctx_put [OF ctx]])
      (use rtl apart' in \<open>auto simp: s' same_node_def rb_set_fields ctx_ids_def\<close>)
  moreover have "n_color s' y = c" "n_parent s' y = above k" "n_left s' y = rt l" "n_right s' y = rt R"
    using rtl R(3) y by (auto simp: s' rb_set_fields)
  moreover have "n_color s' NIL = RB_BLACK"
    using nil y by (auto simp: s' rb_set_fields)
  ultimately show "holds (rest_of s') s' (plug k (Nd c l y R))"
    using tl tR y ap l R ctx(2) by (auto simp: holds_plug ctx_apart_def)
  show "n_parent s' NIL = n_parent s NIL"
    using rtl y by (auto simp: s' rb_set_fields)
  show "keeps (insert y (ctx_ids k)) s' s"
    using y by (auto simp: keeps_def s' rb_set_fields) (simp_all add: set_defs)
qed

lemma rb_unlink_two:
  assumes "n_left s z \<noteq> NIL" "n_right s z \<noteq> NIL" "tree_minimum (n_right s z) s = Some y"
  shows "rb_unlink z s = Some (n_right s y, n_color s y, splice z y
     (if n_parent s y = z then set_parent (n_right s y) y s
      else (let t1 = transplant y (n_right s y) s; t2 = set_right y (n_right t1 z) t1
            in set_parent (n_right t2 y) y t2)))"
  using assms by (simp add: rb_unlink_def splice_def Let_def)

section \<open>Unlinking\<close>

lemma ctx_ids_append: "ctx_ids (k1 @ k2) = ctx_ids k1 \<union> ctx_ids k2"
  by (induction k1 rule: lids.induct) (auto simp: ctx_ids_def)

lemma ids_plug_ctx: "set (ids (plug k t)) = ctx_ids k \<union> set (ids t)"
  by (auto simp: ids_plug ctx_ids_def)

lemma above_append: "above (k1 @ k2) = (if k1 = [] then above k2 else above k1)"
  by (cases k1 rule: above.cases) simp_all

lemma plug_not_Lf: "k \<noteq> [] \<Longrightarrow> plug k t \<noteq> Lf"
proof (induction k t rule: plug.induct)
  case (2 c i r k t)
  then show ?case by (cases "k = []") simp_all
next
  case (3 c l i k t)
  then show ?case by (cases "k = []") simp_all
qed simp

text \<open>A node with two children. Its successor \<open>y\<close> is the root of \<open>Nd cy Lf y yr\<close> below \<open>ky\<close>.\<close>

lemma rb_unlink_successor:
  assumes h: "holds G s (plug k (Nd c l z r))" and l: "l \<noteq> Lf"
    and r: "r = plug ky (Nd cy Lf y yr)" and tm: "tree_minimum (rt r) s = Some y"
  obtains s' where "rb_unlink z s = Some (rt yr, cy, s')"
    "holds (rest_of s') s' (plug k (Nd c l y (plug ky yr)))"
    "n_parent s' (rt yr) = above (ky @ FR c l y # k)"
    "keeps (set (ids (plug k (Nd c l z r)))) s' s"
proof -
  have hy: "holds G s (plug (ky @ FR c l z # k) (Nd cy Lf y yr))"
    using h r by (simp add: plug_append)
  note hh = h [unfolded holds_plug] and f = holds_fields [OF h] and fy = holds_fields [OF hy]
  have nz: "n_left s z \<noteq> NIL" "n_right s z \<noteq> NIL"
    using f hh l r rt_eq_NIL [of s z] plug_not_Lf [of ky] by (auto, metis plug.simps(1) rbt.distinct(1))
  define s1 where "s1 = (if n_parent s y = z then set_parent (n_right s y) y s
      else (let t1 = transplant y (n_right s y) s; t2 = set_right y (n_right t1 z) t1
            in set_parent (n_right t2 y) y t2))"
  have unl: "rb_unlink z s = Some (rt yr, cy, splice z y s1)"
    using rb_unlink_two [OF nz, of y] tm f(4) fy by (simp add: s1_def)
  have "distinct (ids (plug (ky @ FR c l z # k) (Nd cy Lf y yr)))"
    using hy by (simp add: holds_def)
  then have dist: "distinct (lids k @ rids k)" "distinct (ids l)" "distinct (ids (plug ky yr))" "z \<noteq> y"
      "y \<notin> set (ids l) \<union> set (ids (plug ky yr)) \<union> ctx_ids k"
      "z \<notin> set (ids l) \<union> set (ids (plug ky yr)) \<union> ctx_ids k"
      "set (ids l) \<inter> set (ids (plug ky yr)) = {}"
      "ctx_ids k \<inter> (set (ids l) \<union> set (ids (plug ky yr))) = {}"
    by (auto simp: plug_append ids_plug ctx_ids_def)
  let ?W = "set (ids (plug k (Nd c l z r)))"
  have W: "?W = ctx_ids k \<union> set (ids l) \<union> {z, y} \<union> set (ids (plug ky yr))"
    by (auto simp: ids_plug_ctx r)
  have mid: "is_ctx s1 z k \<and> n_parent s1 z = above k \<and> n_left s1 z = rt l \<and> n_color s1 z = c \<and>
      is_tree s1 z l \<and> is_tree s1 y (plug ky yr) \<and> n_right s1 y = rt (plug ky yr) \<and>
      n_color s1 NIL = RB_BLACK \<and> (yr = Lf \<longrightarrow> n_parent s1 NIL = above (ky @ FR c l y # k)) \<and>
      keeps ?W s1 s"
  proof (cases "ky = []")
    case True
    have yr: "is_tree s y yr" "n_color s NIL = RB_BLACK" using hh r True by (auto simp: framed_def)
    have "set_parent (rt yr) y s = (if yr = Lf then set_parent NIL y s else s)"
      using yr(1) by (cases yr) (auto simp: set_parent_def fun_upd_idem)
    then have s1: "s1 = (if yr = Lf then set_parent NIL y s else s)"
      using True fy by (simp add: s1_def above_append)
    have same: "same_node s1 s i" if "i \<noteq> NIL" for i
      using that by (simp add: s1 same_node_def rb_set_fields)
    have "is_ctx s1 z k"
    proof (rule is_ctx_frame)
      show ctx: "is_ctx s z k" using hh by simp
      show "rb_root s1 = rb_root s" by (simp add: s1 rb_set_fields)
      show "same_node s1 s i" if "i \<in> set (lids k) \<union> set (rids k)" for i
        using that ctx_ids_NIL [OF ctx] by (intro same) (auto simp: ctx_ids_def)
    qed
    moreover have "is_tree s1 z l"
      by (rule is_tree_frame [of s]) (use hh is_tree_NIL [of s z l] in \<open>auto intro!: same\<close>)
    moreover have "is_tree s1 y yr"
      by (rule is_tree_frame [of s]) (use yr is_tree_NIL [of s y yr] in \<open>auto intro!: same\<close>)
    moreover have "keeps ?W s1 s"
      by (simp add: s1 keeps_def set_parent_def)
    ultimately show ?thesis
      using True f fy yr by (simp add: s1 rb_set_fields)
  next
    case False
    define t1 where "t1 = transplant y (rt yr) s"
    have "y \<notin> set (ids yr)" using dist(5) by (simp add: ids_plug)
    note tr = transplant_ok [OF hy, of yr, folded t1_def, simplified]
    have ht: "holds (rest_of t1) t1 (plug k (Nd c l z (plug ky yr)))"
      using tr(1) by (simp add: plug_append)
    note f1 = holds_fields [OF ht] and hh1 = ht [unfolded holds_plug]
    let ?R = "plug ky yr"
    have R: "?R \<noteq> Lf" using False by (rule plug_not_Lf)
    have rtR: "rt ?R \<in> set (ids ?R)" "rt ?R \<noteq> NIL" "rt ?R \<noteq> y" "rt ?R \<noteq> z"
      using rt_in_ids [OF R] is_tree_NIL [of t1 z ?R] hh1 dist(5,6) by auto
    have "above ky \<noteq> z"
      using False above_in_ctx [of ky] dist(6) by (auto simp: ids_plug_ctx)
    then have s1: "s1 = set_parent (rt ?R) y (set_right y (rt ?R) t1)"
      using False fy f1 by (simp add: s1_def above_append t1_def [symmetric] Let_def rb_set_fields)
    have same: "same_node s1 t1 i" if "i \<noteq> y" "i \<notin> set (ids ?R)" for i
      using that rtR by (auto simp: s1 same_node_def rb_set_fields)
    have "is_ctx s1 z k"
    proof (rule is_ctx_frame)
      show "is_ctx t1 z k" using hh1 by simp
      show "rb_root s1 = rb_root t1" by (simp add: s1 rb_set_fields)
      show "same_node s1 t1 i" if "i \<in> set (lids k) \<union> set (rids k)" for i
        using that dist(5,8) by (intro same) (auto simp: ctx_ids_def)
    qed
    moreover have "is_tree s1 z l"
    proof (rule is_tree_frame)
      show "is_tree t1 z l" using hh1 by simp
      show "same_node s1 t1 i" if "i \<in> set (ids l)" for i
        using that dist(5,7) by (intro same) auto
    qed
    moreover have "is_tree s1 y ?R"
      by (rule is_tree_frame [OF is_tree_adopt [of t1 z ?R]])
        (use hh1 dist R in \<open>auto simp: same_node_def s1 rb_set_fields n_parent_adopt\<close>)
    moreover have "keeps ?W s1 s"
    proof (rule keeps_trans [of _ t1 s "insert y {}"])
      have "ctx_ids (ky @ FR c l z # k) = ctx_ids ky \<union> set (ids l) \<union> {z} \<union> ctx_ids k"
        unfolding ctx_ids_append by (auto simp: ctx_ids_def)
      then show "keeps ?W t1 s"
        unfolding W unfolding ids_plug_ctx by (intro keeps_trans [OF _ tr(3)]) (auto simp: keeps_def)
      show "keeps (insert y {}) s1 t1" by (auto simp: keeps_def s1 rb_set_fields) (simp_all add: set_defs)
    qed (simp add: W)
    moreover have "n_color s1 NIL = RB_BLACK" using hh1 by (simp add: s1 rb_set_fields)
    moreover have "n_parent s1 NIL = above (ky @ FR c l y # k)" if "yr = Lf"
      using tr(2) that False rtR by (simp add: s1 rb_set_fields above_append)
    ultimately show ?thesis
      using f1 rtR dist(4) by (simp add: s1 rb_set_fields)
  qed
  let ?s' = "splice z y s1"
  have sp: "holds (rest_of ?s') ?s' (plug k (Nd c l y (plug ky yr)))" "n_parent ?s' NIL = n_parent s1 NIL"
    "keeps (insert y (ctx_ids k)) ?s' s1"
    using mid dist fy(6) f(5) l by (intro splice_ok [of s1 z k l c y "plug ky yr"]; blast)+
  have "keeps ?W ?s' s"
    by (rule keeps_trans [OF _ sp(3)]) (use mid in \<open>auto simp: W\<close>)
  moreover have "n_parent ?s' (rt yr) = above (ky @ FR c l y # k)"
    using del_focus_parent [of "rest_of ?s'" ?s' "ky @ FR c l y # k" yr] sp(1,2) mid
    by (cases "yr = Lf") (simp_all add: plug_append)
  ultimately show thesis using that [OF unl sp(1)] by blast
qed

text \<open>After the node of colour \<open>oc\<close> above \<open>v\<close> has gone.\<close>

definition unlinked :: "rb_ptr list \<Rightarrow> rb_color \<Rightarrow> rb_state \<Rightarrow> rb_ptr \<Rightarrow> bool" where
  "unlinked xs oc s x \<longleftrightarrow> (if oc = RB_BLACK then \<exists>k t. del_focus (rest_of s) xs s k t x
     else rb_whole (rest_of s) xs s)"

lemma unlinkedI:
  assumes "holds (rest_of s) s (plug k v)" "n_parent s (rt v) = above k" "rb_ok v"
    "ctx_ok (bh v + blacks oc) oc k" "oc = RB_RED \<Longrightarrow> col v = RB_BLACK" "ids (plug k v) = xs"
  shows "unlinked xs oc s (rt v)"
proof (cases oc)
  case RB_BLACK
  have "rb_ok (blacken v)" using assms(3) by (cases v) auto
  then show ?thesis
    using assms RB_BLACK unfolding unlinked_def del_focus_def by auto
next
  case RB_RED
  then have "rb_ok (plug k v)" "col (plug k v) = RB_BLACK"
    using assms(3-5) rb_ok_plug [of k v] ctx_ok_black [of "bh v" RB_RED k] by auto
  then show ?thesis
    using assms(1,6) RB_RED by (auto simp: unlinked_def rb_whole_def)
qed

lemma ctx_ok_rename: "ctx_ok n c (ky @ FR d l z # k) \<longleftrightarrow> ctx_ok n c (ky @ FR d l y # k)"
  by (induction ky arbitrary: n c rule: lids.induct) simp_all

lemma rb_unlink_ok:
  assumes h: "holds G s (plug k (Nd c l z r))"
    and ok: "rb_ok (plug k (Nd c l z r))" "col (plug k (Nd c l z r)) = RB_BLACK"
  obtains x oc s' where "rb_unlink z s = Some (x, oc, s')" "unlinked (lids k @ ids l @ ids r @ rids k) oc s' x"
    "keeps (set (ids (plug k (Nd c l z r)))) s' s"
proof -
  note out = that and f = holds_fields [OF h] and hh = h [unfolded holds_plug]
  have ok': "rb_ok (Nd c l z r)" "ctx_ok (bh (Nd c l z r)) c k"
    using ok rb_ok_plug [of k "Nd c l z r"] by auto
  have nil: "rt l = NIL \<longleftrightarrow> l = Lf" "rt r = NIL \<longleftrightarrow> r = Lf"
    using hh rt_eq_NIL by auto
  have sub: "ctx_ids k \<subseteq> set (ids (plug k (Nd c l z r)))" by (auto simp: ids_plug_ctx)
  have one: thesis if v: "l = Lf \<and> v = r \<or> r = Lf \<and> v = l"
      and unl: "rb_unlink z s = Some (rt v, c, transplant z (rt v) s)" for v
  proof (rule out [OF unl])
    note tr = transplant_ok [OF h v]
    show "unlinked (lids k @ ids l @ ids r @ rids k) c (transplant z (rt v) s) (rt v)"
      using v ok' by (intro unlinkedI [OF tr(1,2)]) (auto simp: ids_plug)
    show "keeps (set (ids (plug k (Nd c l z r)))) (transplant z (rt v) s) s"
      using tr(3) sub by (auto simp: keeps_def)
  qed
  show thesis
  proof (cases "l = Lf \<or> r = Lf")
    case True
    then show ?thesis
    proof (cases "l = Lf")
      case True
      then show ?thesis using f(1,3,4) by (intro one [of r]) (simp_all add: rb_unlink_def)
    next
      case False
      then show ?thesis using True f(1,3,4) nil by (intro one [of l]) (simp_all add: rb_unlink_def)
    qed
  next
    case False
    then obtain ky cy y yr where r: "r = plug ky (Nd cy Lf y yr)" "tree_minimum (rt r) s = Some y"
        and ky: "lids ky = []"
      using leftmost_exists [of s z r] hh by auto
    from rb_unlink_successor [OF h _ r(1,2)] False obtain s' where s':
        "rb_unlink z s = Some (rt yr, cy, s')" "holds (rest_of s') s' (plug k (Nd c l y (plug ky yr)))"
        "n_parent s' (rt yr) = above (ky @ FR c l y # k)" "keeps (set (ids (plug k (Nd c l z r)))) s' s"
      by blast
    have "rb_ok (Nd cy Lf y yr) \<and> ctx_ok (bh (Nd cy Lf y yr)) cy (ky @ FR c l z # k)"
      using ok rb_ok_plug [of "ky @ FR c l z # k" "Nd cy Lf y yr"] by (simp add: plug_append r)
    then have "rb_ok yr" "ctx_ok (bh yr + blacks cy) cy (ky @ FR c l y # k)" "cy = RB_RED \<longrightarrow> col yr = RB_BLACK"
      using ctx_ok_rename [of _ cy ky c l z k y] by auto
    then have "unlinked (lids k @ ids l @ ids r @ rids k) cy s' (rt yr)"
      using s'(2,3) ky by (intro unlinkedI [where k = "ky @ FR c l y # k"]) (auto simp: plug_append ids_plug r)
    then show ?thesis using out s'(1,4) by blast
  qed
qed

end
