(* ===== verification/Vma_Rbtree_Spec.thy ===== *)
theory Vma_Rbtree_Spec
  imports Rb_Unlink
begin

text \<open>
  The red-black tree back-end meets the contract of the memory area back-ends: its invariant (the
  pointers spell out a red-black tree, the rest of the pool hangs on the free list, the areas in the order of
  the tree are sorted and disjoint), every operation on every branch, and the interpretation of
  \<open>vma_backend\<close>.
\<close>

section \<open>The tree of a state, the free list, the invariant\<close>

fun to_tree :: "nat \<Rightarrow> rb_state \<Rightarrow> rb_ptr \<Rightarrow> rbt" where
  "to_tree 0 s p = Lf"
| "to_tree (Suc n) s p =
     (if p = NIL then Lf else Nd (n_color s p) (to_tree n s (n_left s p)) p (to_tree n s (n_right s p)))"

definition tree_of :: "rb_state \<Rightarrow> rbt" where
  "tree_of s = to_tree (Suc RB_MAX_NODES) s (rb_root s)"

fun free_chain :: "(rb_ptr \<Rightarrow> rb_ptr) \<Rightarrow> rb_ptr list \<Rightarrow> rb_ptr \<Rightarrow> bool" where
  "free_chain R [] h \<longleftrightarrow> h = NULLP"
| "free_chain R (i # fs) h \<longleftrightarrow> h = i \<and> i < RB_MAX_NODES \<and> free_chain R fs (R i)"

definition rb_free_ok :: "rb_state \<Rightarrow> rb_ptr list \<Rightarrow> rbt \<Rightarrow> bool" where
  "rb_free_ok s fs t \<longleftrightarrow> free_chain (n_right s) fs (rb_free_head s) \<and> distinct fs \<and>
     set fs \<union> set (ids t) = {..<RB_MAX_NODES} \<and> set fs \<inter> set (ids t) = {}"

definition rb_tree :: "rb_state \<Rightarrow> rbt \<Rightarrow> bool" where
  "rb_tree s t \<longleftrightarrow> holds (rest_of s) s t \<and> rb_ok t \<and> col t = RB_BLACK \<and> rb_used s = length (ids t) \<and>
     (\<exists>fs. rb_free_ok s fs t) \<and> vma_wf (map (n_area s) (ids t))"

definition rb_inv :: "rb_state \<Rightarrow> bool" where
  "rb_inv s \<longleftrightarrow> rb_tree s (tree_of s)"

definition rb_areas :: "rb_state \<Rightarrow> vm_area list" where
  "rb_areas s = map (n_area s) (ids (tree_of s))"

fun depth :: "rbt \<Rightarrow> nat" where
  "depth Lf = 0"
| "depth (Nd c l i r) = Suc (max (depth l) (depth r))"

lemma depth_length: "depth t \<le> length (ids t)"
  by (induction t) auto

lemma to_tree_eq: "is_tree s p t \<Longrightarrow> depth t < n \<Longrightarrow> to_tree n s (rt t) = t"
proof (induction t arbitrary: p n)
  case Lf
  then show ?case by (cases n) simp_all
next
  case (Nd c l i r)
  then obtain m where "n = Suc m" by (cases n) auto
  with Nd.prems Nd.IH(1) [of i m] Nd.IH(2) [of i m] show ?case by auto
qed

lemma holds_length: "holds G s t \<Longrightarrow> length (ids t) \<le> RB_MAX_NODES"
proof -
  assume h: "holds G s t"
  have "set (ids t) \<subseteq> {..<RB_MAX_NODES}"
    using h is_tree_ids by (auto simp: holds_def)
  then have "card (set (ids t)) \<le> RB_MAX_NODES"
    using card_mono [of "{..<RB_MAX_NODES}"] by simp
  then show ?thesis using h by (simp add: holds_def distinct_card)
qed

lemma tree_of_eq: "holds G s t \<Longrightarrow> tree_of s = t"
  unfolding tree_of_def
  using to_tree_eq [of s NIL t "Suc RB_MAX_NODES"] depth_length [of t] holds_length [of G s t]
  by (simp add: holds_def)

lemma rb_invI:
  assumes "rb_tree s t" shows "rb_inv s" "rb_areas s = map (n_area s) (ids t)"
  using assms tree_of_eq [of "rest_of s" s t] by (auto simp: rb_inv_def rb_areas_def rb_tree_def)

lemma free_chain_cong: "free_chain R fs h \<Longrightarrow> (\<And>i. i \<in> set fs \<Longrightarrow> R' i = R i) \<Longrightarrow> free_chain R' fs h"
  by (induction fs arbitrary: h) auto

lemma rb_free_length: "rb_free_ok s fs t \<Longrightarrow> distinct (ids t) \<Longrightarrow> length fs + length (ids t) = RB_MAX_NODES"
  using card_Un_disjoint [of "set fs" "set (ids t)"] by (simp add: rb_free_ok_def distinct_card)

section \<open>Walking down\<close>

text \<open>The areas of a node and of its subtrees.\<close>

lemma wf_node:
  assumes "vma_wf (map A (ids (Nd c l i r)))"
  shows "vma_wf (map A (ids l))" "vma_wf (map A (ids r))" "va_start (A i) < va_end (A i)"
    "j \<in> set (ids l) \<Longrightarrow> va_end (A j) \<le> va_start (A i)" "j \<in> set (ids l) \<Longrightarrow> va_start (A j) < va_start (A i)"
    "j \<in> set (ids r) \<Longrightarrow> va_end (A i) \<le> va_start (A j)" "j \<in> set (ids r) \<Longrightarrow> va_start (A i) < va_start (A j)"
proof -
  show l: "vma_wf (map A (ids l))" and "vma_wf (map A (ids r))" and i: "va_start (A i) < va_end (A i)"
    using assms by (auto simp: vma_wf_append vma_wf_Cons vma_range_ok_def)
  show el: "va_end (A j) \<le> va_start (A i)" if "j \<in> set (ids l)"
    using assms that by (auto simp: vma_wf_append)
  show er: "va_end (A i) \<le> va_start (A j)" if "j \<in> set (ids r)"
    using assms that by (auto simp: vma_wf_append vma_wf_Cons)
  show "va_start (A j) < va_start (A i)" if "j \<in> set (ids l)"
    using vma_wf_range [OF l, of "A j"] el [OF that] that by (auto intro: less_le_trans)
  show "va_start (A i) < va_start (A j)" if "j \<in> set (ids r)"
    using i er [OF that] by (rule less_le_trans)
qed

lemma rb_search_ok:
  assumes "is_tree s p t" "vma_wf (map (n_area s) (ids t))"
  shows "\<exists>z. rb_search st (rt t) s = Some z \<and>
    (if list_ex (\<lambda>a. va_start a = st) (map (n_area s) (ids t))
     then z \<in> set (ids t) \<and> va_start (n_area s z) = st else z = NIL)"
  using assms
proof (induction t arbitrary: p)
  case Lf
  then show ?case by (subst rb_search.simps) simp
next
  case (Nd c l i r)
  let ?A = "n_area s"
  have f: "n_left s i = rt l" "n_right s i = rt r" "i \<noteq> NIL" "is_tree s i l" "is_tree s i r"
    using Nd.prems(1) by auto
  note wf = wf_node [OF Nd.prems(2)]
  consider "st = va_start (?A i)" | "st < va_start (?A i)" | "va_start (?A i) < st"
    using less_linear by blast
  then show ?case
  proof cases
    case 1
    then show ?thesis using f by (subst rb_search.simps) simp
  next
    case 2
    have "rb_search st i s = rb_search st (rt l) s"
      using f 2 by (subst rb_search.simps) auto
    moreover have "list_ex (\<lambda>a. va_start a = st) (map ?A (ids (Nd c l i r))) \<longleftrightarrow>
        list_ex (\<lambda>a. va_start a = st) (map ?A (ids l))"
      using 2 wf(7) by (force simp: list_ex_iff)
    ultimately show ?thesis using Nd.IH(1) [OF f(4) wf(1)] by (auto split: if_splits)
  next
    case 3
    have "rb_search st i s = rb_search st (rt r) s"
      using f 3 by (subst rb_search.simps) auto
    moreover have "list_ex (\<lambda>a. va_start a = st) (map ?A (ids (Nd c l i r))) \<longleftrightarrow>
        list_ex (\<lambda>a. va_start a = st) (map ?A (ids r))"
      using 3 wf(5) by (force simp: list_ex_iff)
    ultimately show ?thesis using Nd.IH(2) [OF f(5) wf(2)] by (auto split: if_splits)
  qed
qed

lemma vma_spec_find_append:
  "vma_spec_find (xs @ ys) addr = (case vma_spec_find xs addr of None \<Rightarrow> vma_spec_find ys addr | Some a \<Rightarrow> Some a)"
  by (induction xs) (simp_all add: vma_spec_find_def)

lemma vma_spec_find_Cons:
  "vma_spec_find (a # xs) addr = (if vma_contains addr a then Some a else vma_spec_find xs addr)"
  by (simp add: vma_spec_find_def)

lemma rb_find_from_ok:
  assumes "is_tree s p t" "vma_wf (map (n_area s) (ids t))"
  shows "rb_find_from addr (rt t) s = Some (vma_spec_find (map (n_area s) (ids t)) addr)"
  using assms
proof (induction t arbitrary: p)
  case Lf
  then show ?case by (subst rb_find_from.simps) (simp add: vma_spec_find_def)
next
  case (Nd c l i r)
  let ?A = "n_area s"
  have f: "n_left s i = rt l" "n_right s i = rt r" "i \<noteq> NIL" "is_tree s i l" "is_tree s i r"
    using Nd.prems(1) by auto
  note wf = wf_node [OF Nd.prems(2)]
  consider "addr < va_start (?A i)" | "va_end (?A i) \<le> addr" | "vma_contains addr (?A i)"
    by (fastforce simp: vma_contains_def not_less not_le)
  then show ?case
  proof cases
    case 1
    have "\<forall>a \<in> set (map ?A (ids r)). \<not> vma_contains addr a"
    proof
      fix a assume "a \<in> set (map ?A (ids r))"
      then obtain j where "a = ?A j" "j \<in> set (ids r)" by auto
      with wf(7) [of j] 1 show "\<not> vma_contains addr a" by (auto simp: vma_contains_def)
    qed
    then have "vma_spec_find (map ?A (ids r)) addr = None" by (simp add: vma_spec_find_None)
    moreover have "\<not> vma_contains addr (?A i)" using 1 by (auto simp: vma_contains_def)
    ultimately show ?thesis
      using f 1 Nd.IH(1) [OF f(4) wf(1)]
      by (subst rb_find_from.simps) (simp add: vma_spec_find_append vma_spec_find_Cons split: option.split)
  next
    case 2
    have "\<forall>a \<in> set (map ?A (ids l)). \<not> vma_contains addr a"
    proof
      fix a assume "a \<in> set (map ?A (ids l))"
      then obtain j where j: "a = ?A j" "j \<in> set (ids l)" by auto
      have "va_end a \<le> addr" unfolding j(1) using wf(3) wf(4) [OF j(2)] 2 by order
      then show "\<not> vma_contains addr a" by (auto simp: vma_contains_def)
    qed
    then have "vma_spec_find (map ?A (ids l)) addr = None" by (simp add: vma_spec_find_None)
    moreover have "\<not> vma_contains addr (?A i)" "\<not> addr < va_start (?A i)"
      using 2 wf(3) by (auto simp: vma_contains_def)
    ultimately show ?thesis
      using f 2 Nd.IH(2) [OF f(5) wf(2)]
      by (subst rb_find_from.simps) (simp add: vma_spec_find_append vma_spec_find_Cons)
  next
    case 3
    have "vma_spec_find (map ?A (ids (Nd c l i r))) addr = Some (?A i)"
      using vma_spec_find_Some [OF Nd.prems(2)] 3 by simp
    then show ?thesis
      using f 3 by (subst rb_find_from.simps) (auto simp: vma_contains_def)
  qed
qed

text \<open>The descent checks the areas on its path only; because the areas of the tree are disjoint, that is
  enough: an overlap is always found, and without one the place found is the one in address order.\<close>

lemma rb_descend_overlap:
  assumes "is_tree s p t" "vma_wf (map (n_area s) (ids t))" "st < en"
    "list_ex (vma_overlaps st en) (map (n_area s) (ids t))"
  shows "rb_descend st en q (rt t) s = Some NULLP"
  using assms
proof (induction t arbitrary: p q)
  case (Nd c l i r)
  let ?A = "n_area s"
  have f: "n_left s i = rt l" "n_right s i = rt r" "i \<noteq> NIL" "is_tree s i l" "is_tree s i r"
    using Nd.prems(1) by auto
  note wf = wf_node [OF Nd.prems(2)]
  consider "vma_overlaps st en (?A i)" | "\<not> vma_overlaps st en (?A i)" "st < va_start (?A i)"
    | "\<not> vma_overlaps st en (?A i)" "\<not> st < va_start (?A i)"
    by blast
  then show ?case
  proof cases
    case 1
    then show ?thesis using f by (subst rb_descend.simps) (simp add: vma_overlaps_def)
  next
    case 2
    have "st < va_end (?A i)" using 2(2) wf(3) by order
    then have "en \<le> va_start (?A i)" using 2(1) by (auto simp: vma_overlaps_def)
    then have "\<not> vma_overlaps st en (?A j)" if "j \<in> set (ids r)" for j
      using wf(7) [OF that] by (auto simp: vma_overlaps_def)
    then have "list_ex (vma_overlaps st en) (map ?A (ids l))"
      using Nd.prems(4) 2(1) by (auto simp: list_ex_iff)
    from Nd.IH(1) [OF f(4) wf(1) Nd.prems(3) this]
    have "rb_descend st en i (rt l) s = Some NULLP" .
    then show ?thesis
      using f 2 by (subst rb_descend.simps) (simp add: vma_overlaps_def)
  next
    case 3
    have "va_start (?A i) < en" using 3(2) Nd.prems(3) by order
    then have "va_end (?A i) \<le> st" using 3(1) by (auto simp: vma_overlaps_def)
    then have "va_start (?A i) \<le> st" using wf(3) by order
    then have "\<not> vma_overlaps st en (?A j)" if "j \<in> set (ids l)" for j
      using wf(4) [OF that] by (auto simp: vma_overlaps_def)
    then have "list_ex (vma_overlaps st en) (map ?A (ids r))"
      using Nd.prems(4) 3(1) by (auto simp: list_ex_iff)
    from Nd.IH(2) [OF f(5) wf(2) Nd.prems(3) this]
    have "rb_descend st en i (rt r) s = Some NULLP" .
    then show ?thesis
      using f 3 by (subst rb_descend.simps) (simp add: vma_overlaps_def)
  qed
qed simp

lemma rb_descend_place:
  assumes "is_tree s p t" "vma_wf (map (n_area s) (ids t))" "st < en"
    "\<not> list_ex (vma_overlaps st en) (map (n_area s) (ids t))"
  shows "\<exists>k. t = plug k Lf \<and> rb_descend st en q (rt t) s = Some (if k = [] then q else above k) \<and>
    (\<forall>j \<in> set (lids k). va_start (n_area s j) < st) \<and> (\<forall>j \<in> set (rids k). st < va_start (n_area s j))"
  using assms
proof (induction t arbitrary: p q)
  case Lf
  then show ?case by (subst rb_descend.simps) (intro exI [of _ "[]"], simp)
next
  case (Nd c l i r)
  let ?A = "n_area s"
  have f: "n_left s i = rt l" "n_right s i = rt r" "i \<noteq> NIL" "is_tree s i l" "is_tree s i r"
    using Nd.prems(1) by auto
  note wf = wf_node [OF Nd.prems(2)]
  have no: "\<not> vma_overlaps st en (?A i)" "\<not> list_ex (vma_overlaps st en) (map ?A (ids l))"
      "\<not> list_ex (vma_overlaps st en) (map ?A (ids r))"
    using Nd.prems(4) by auto
  show ?case
  proof (cases "st < va_start (?A i)")
    case True
    obtain k where k: "l = plug k Lf" "rb_descend st en i (rt l) s = Some (if k = [] then i else above k)"
        "\<forall>j \<in> set (lids k). va_start (?A j) < st" "\<forall>j \<in> set (rids k). st < va_start (?A j)"
      using Nd.IH(1) [OF f(4) wf(1) Nd.prems(3) no(2)] by blast
    have "rb_descend st en q i s = rb_descend st en i (rt l) s"
      using f True no(1) by (subst rb_descend.simps) (auto simp: vma_overlaps_def)
    moreover have "\<forall>j \<in> set (ids r). st < va_start (?A j)"
      using True wf(7) by (auto intro: less_trans)
    ultimately show ?thesis
      using k True by (intro exI [of _ "k @ [FL c i r]"])
        (auto simp: plug_append above_append lids_append rids_append)
  next
    case False
    obtain k where k: "r = plug k Lf" "rb_descend st en i (rt r) s = Some (if k = [] then i else above k)"
        "\<forall>j \<in> set (lids k). va_start (?A j) < st" "\<forall>j \<in> set (rids k). st < va_start (?A j)"
      using Nd.IH(2) [OF f(5) wf(2) Nd.prems(3) no(3)] by blast
    have "rb_descend st en q i s = rb_descend st en i (rt r) s"
      using f False no(1) by (subst rb_descend.simps) (auto simp: vma_overlaps_def)
    moreover have i: "va_start (?A i) < st"
    proof -
      have "va_start (?A i) < en" using False Nd.prems(3) by order
      then have "va_end (?A i) \<le> st" using no(1) by (auto simp: vma_overlaps_def)
      then show ?thesis using wf(3) by order
    qed
    moreover have "\<forall>j \<in> set (ids l). va_start (?A j) < st"
      using i wf(5) by (auto intro: less_trans)
    ultimately show ?thesis
      using k by (intro exI [of _ "k @ [FR c l i]"])
        (auto simp: plug_append above_append lids_append rids_append)
  qed
qed

section \<open>The operations\<close>

text \<open>The state before \<open>insert_fixup\<close>: the new node is red and hangs in the place found.\<close>

definition linked :: "rb_state \<Rightarrow> rb_ptr \<Rightarrow> rb_ptr \<Rightarrow> vm_area \<Rightarrow> rb_state" where
  "linked s z parent a =
     set_parent z parent (set_area z a (set_right z NIL (set_left z NIL (set_parent z NIL
       (set_color z RB_RED (set_area z (mk_area 0 0 0 None) (s\<lparr>rb_free_head := n_right s z\<rparr>)))))))"

lemma linked_fields:
  "n_color (linked s z p a) = (n_color s)(z := RB_RED)" "n_parent (linked s z p a) = (n_parent s)(z := p)"
  "n_left (linked s z p a) = (n_left s)(z := NIL)" "n_right (linked s z p a) = (n_right s)(z := NIL)"
  "n_area (linked s z p a) = (n_area s)(z := a)" "rb_root (linked s z p a) = rb_root s"
  "rb_used (linked s z p a) = rb_used s" "rb_free_head (linked s z p a) = n_right s z"
  by (simp_all add: linked_def set_defs)

lemma holds_used:
  assumes "holds (rest_of s) s t"
  shows "holds (rest_of (s\<lparr>rb_used := n\<rparr>)) (s\<lparr>rb_used := n\<rparr>) t"
proof -
  have "is_tree (s\<lparr>rb_used := n\<rparr>) NIL t"
    by (rule is_tree_frame [of s]) (use assms in \<open>simp_all add: holds_def same_node_def\<close>)
  then show ?thesis using assms by (simp add: holds_def)
qed

lemma linked_focus:
  fixes a :: vm_area
  assumes t: "holds G s (plug k Lf)" "rb_ok (plug k Lf)" "col (plug k Lf) = RB_BLACK"
    and z: "z < RB_MAX_NODES" "z \<notin> set (ids (plug k Lf))"
  defines "s' \<equiv> put_child z k (linked s z (above k) a)"
  shows "ins_focus (rest_of s') (lids k @ z # rids k) s' k z"
proof -
  have h: "is_ctx s NIL k" "distinct (lids k @ rids k)" "n_color s NIL = RB_BLACK"
    using t(1) by (simp_all add: holds_plug ctx_apart_def framed_def)
  have zk: "z \<notin> ctx_ids k" "z \<noteq> NIL" using z by (auto simp: ids_plug_ctx)
  have "is_ctx (linked s z (above k) a) NIL k"
    by (rule is_ctx_frame [OF h(1)]) (use zk in \<open>auto simp: linked_fields same_node_def ctx_ids_def\<close>)
  then have "is_ctx s' z k" unfolding s'_def using h(2) by (rule is_ctx_put)
  moreover have "is_tree s' (above k) (Nd RB_RED Lf z Lf)"
    using z(1) zk(1) by (simp add: s'_def linked_fields)
  moreover have "n_color s' NIL = RB_BLACK" using h(3) zk by (simp add: s'_def linked_fields)
  ultimately have "holds (rest_of s') s' (plug k (Nd RB_RED Lf z Lf))"
    using h(2) zk by (simp add: holds_plug ctx_apart_def)
  moreover have "ctx_ok 0 RB_BLACK k" using t(2,3) rb_ok_plug [of k Lf] by simp
  ultimately show ?thesis
    unfolding ins_focus_def by (intro exI [of _ Lf]) (simp add: ids_plug)
qed

lemma rb_add_ok:
  assumes inv: "rb_tree s t"
  shows "\<exists>r s'. rb_add s st en fl nm = Some (r, s') \<and> rb_inv s' \<and>
    vma_spec_add RB_MAX_NODES (map (n_area s) (ids t)) st en fl nm = (r, rb_areas s')"
proof -
  let ?A = "n_area s"
  have h: "holds (rest_of s) s t" "rb_ok t" "col t = RB_BLACK" "rb_used s = length (ids t)"
      "vma_wf (map ?A (ids t))"
    using inv by (simp_all add: rb_tree_def)
  obtain fs where fs: "rb_free_ok s fs t" using inv by (auto simp: rb_tree_def)
  have tree: "is_tree s NIL t" "distinct (ids t)" "rb_root s = rt t" using h(1) by (simp_all add: holds_def)
  have areas: "rb_areas s = map ?A (ids t)" "rb_inv s" using rb_invI [OF inv] by simp_all
  show ?thesis
  proof (cases "RB_MAX_NODES \<le> rb_used s \<or> \<not> vma_range_ok st en \<or> list_ex (vma_overlaps st en) (map ?A (ids t))")
    case True
    have "rb_add s st en fl nm = Some (- 1, s)"
      using True rb_descend_overlap [OF tree(1) h(5), of st en NIL]
      by (auto simp: rb_add_def vma_range_ok_def page_aligned_def tree(3))
    then show ?thesis using True areas h(4) by (auto simp: vma_spec_add_def)
  next
    case False
    then have g: "rb_used s < RB_MAX_NODES" "vma_range_ok st en" "st < en"
        "\<not> list_ex (vma_overlaps st en) (map ?A (ids t))"
      by (auto simp: vma_range_ok_def)
    let ?a = "mk_area st en fl nm"
    obtain k where k: "t = plug k Lf" "rb_descend st en NIL (rt t) s = Some (above k)"
        "\<forall>j \<in> set (lids k). va_start (?A j) < st" "\<forall>j \<in> set (rids k). st < va_start (?A j)"
    proof -
      obtain k where "t = plug k Lf" "rb_descend st en NIL (rt t) s = Some (if k = [] then NIL else above k)"
        "\<forall>j \<in> set (lids k). va_start (?A j) < st" "\<forall>j \<in> set (rids k). st < va_start (?A j)"
        using rb_descend_place [OF tree(1) h(5) g(3,4)] by blast
      then show thesis using that [of k] by (cases k) (simp_all split: if_splits)
    qed
    obtain z fs' where z: "fs = z # fs'"
      using rb_free_length [OF fs tree(2)] g(1) h(4) by (cases fs) auto
    have zf: "rb_free_head s = z" "z < RB_MAX_NODES" "z \<notin> set (ids t)" "z \<noteq> NULLP"
      using fs z by (auto simp: rb_free_ok_def NULLP_def RB_MAX_NODES_def)
    define s3 where "s3 = put_child z k (linked s z (above k) ?a)"
    have ctx: "is_ctx s NIL k" "distinct (lids k @ rids k)" and zk: "z \<notin> ctx_ids k"
      using h(1) zf(3) by (auto simp: k(1) holds_plug ctx_apart_def ids_plug_ctx)
    have above: "above k = NIL \<longleftrightarrow> k = []" "above k \<noteq> NULLP" "above k \<noteq> z \<or> k = []"
      using ctx_ids_NIL [OF ctx(1)] above_in_ctx [of k] is_ctx_ids [OF ctx(1), of "above k"] zk
      by (cases "k = []"; auto simp: ctx_ids_def NULLP_def NIL_def RB_MAX_NODES_def)+
    have guards: "\<not> RB_MAX_NODES \<le> rb_used s" "\<not> en \<le> st" "st AND 0xFFF = 0" "en AND 0xFFF = 0"
      using g(1,2) by (auto simp: vma_range_ok_def page_aligned_def)
    define s1 where "s1 = set_right z NIL (set_left z NIL (set_parent z NIL
       (set_color z RB_RED (set_area z (mk_area 0 0 0 None) (s\<lparr>rb_free_head := n_right s z\<rparr>)))))"
    let ?s2 = "set_parent z (above k) (set_area z ?a s1)"
    have s2: "?s2 = linked s z (above k) ?a" by (simp add: linked_def s1_def)
    have "(if above k = NIL then set_root z ?s2
        else if st < va_start (n_area ?s2 (above k)) then set_left (above k) z ?s2
        else set_right (above k) z ?s2) = s3"
      using above k(3,4) unfolding s2
      by (cases k rule: above.cases) (auto simp: s3_def put_child_def linked_fields dest: less_imp_not_less)
    moreover have "pool_alloc s = (z, s1)"
      using zf by (simp add: pool_alloc_def s1_def)
    ultimately have add: "rb_add s st en fl nm =
        (case insert_fixup z s3 of None \<Rightarrow> None | Some s4 \<Rightarrow> Some (0, s4\<lparr>rb_used := rb_used s4 + 1\<rparr>))"
      using k(2) above(2) zf(4) guards
      by (simp add: rb_add_def tree(3) Let_def split del: if_split)
    let ?xs = "lids k @ z # rids k"
    have "ins_focus (rest_of s3) ?xs s3 k z"
      unfolding s3_def using h(1-3) zf by (intro linked_focus [where G = "rest_of s"]) (simp_all add: k(1))
    from insert_fixup_ok [OF this] obtain s4 where
        s4: "insert_fixup z s3 = Some s4" "rb_whole (rest_of s3) ?xs s4" by blast
    then obtain t4 where t4: "holds (rest_of s3) s4 t4" "rb_ok t4" "col t4 = RB_BLACK" "ids t4 = ?xs"
      by (auto simp: rb_whole_def)
    define s5 where "s5 = s4\<lparr>rb_used := rb_used s4 + 1\<rparr>"
    have ids: "ids t = lids k @ rids k" by (simp add: k(1) ids_plug)
    have h5: "holds (rest_of s5) s5 t4"
      using holds_used [OF holds_rest_of [OF t4(1)]] by (simp add: s5_def)
    have A5: "n_area s5 = ?A(z := ?a)"
      using t4(1) by (simp add: holds_def framed_def rest_of_def s5_def s3_def linked_fields)
    have "map (n_area s5) ?xs = vma_insert ?a (map ?A (ids t))"
      using k(3,4) zf(3) unfolding A5 ids map_append
      by (subst vma_insert_append) (auto simp: ids)
    then have A: "map (n_area s5) (ids t4) = vma_insert ?a (map ?A (ids t))" by (simp only: t4(4))
    have fs': "free_chain (n_right s) fs' (n_right s z)" "distinct fs'" "z \<notin> set fs'"
        "set fs' \<union> insert z (set (ids t)) = {..<RB_MAX_NODES}" "set fs' \<inter> insert z (set (ids t)) = {}"
      using fs by (auto simp: rb_free_ok_def z)
    have right: "n_right s5 i = n_right s i" if "i \<in> set fs'" for i
    proof -
      have "i \<notin> set ?xs" "i \<noteq> z" "i \<notin> ctx_ids k" using that fs'(5) by (auto simp: ids ctx_ids_def)
      then show ?thesis
        using t4(1,4) by (simp add: holds_def framed_def rest_of_def s5_def s3_def linked_fields)
    qed
    have "rb_free_head s5 = n_right s z" "rb_used s5 = Suc (rb_used s)"
      using t4(1) by (simp_all add: holds_def framed_def rest_of_def s5_def s3_def linked_fields)
    moreover have "set (ids t4) = insert z (set (ids t))" by (auto simp: t4(4) ids)
    ultimately have "rb_free_ok s5 fs' t4"
      using free_chain_cong [OF fs'(1) right] fs'(2-) by (simp add: rb_free_ok_def)
    moreover have "vma_wf (map (n_area s5) (ids t4))"
      unfolding A using vma_wf_insert [OF h(5), of ?a] g by simp
    moreover have "rb_used s5 = length (ids t4)"
      using \<open>rb_used s5 = Suc (rb_used s)\<close> h(4) by (simp add: t4(4) ids)
    ultimately have "rb_tree s5 t4"
      using h5 t4(2,3) by (auto simp: rb_tree_def)
    then show ?thesis
      using rb_invI [of s5 t4] False A add s4(1) h(4) unfolding vma_spec_add_def by (simp add: s5_def)
  qed
qed

lemma node_split: "z \<in> set (ids t) \<Longrightarrow> \<exists>k c l r. t = plug k (Nd c l z r)"
proof (induction t)
  case (Nd c l i r)
  then consider "z = i" | "z \<in> set (ids l)" | "z \<in> set (ids r)" by auto
  then show ?case
  proof cases
    case 1
    then show ?thesis by (intro exI [of _ "[]"]) simp
  next
    case 2
    with Nd.IH(1) obtain k c' l' r' where "l = plug k (Nd c' l' z r')" by blast
    then have "Nd c l i r = plug (k @ [FL c i r]) (Nd c' l' z r')" by (simp add: plug_append)
    then show ?thesis by blast
  next
    case 3
    with Nd.IH(2) obtain k c' l' r' where "r = plug k (Nd c' l' z r')" by blast
    then have "Nd c l i r = plug (k @ [FR c l i]) (Nd c' l' z r')" by (simp add: plug_append)
    then show ?thesis by blast
  qed
qed simp

lemma filter_wf_remove:
  assumes "vma_wf (xs @ a # ys)"
  shows "filter (\<lambda>b. va_start b \<noteq> va_start a) (xs @ a # ys) = xs @ ys"
  using vma_wf_starts_sorted [OF assms]
  by (auto simp: sorted_wrt_append intro!: arg_cong2 [where f = "(@)"] filter_True)

lemma holds_pool_free:
  assumes "holds (rest_of s) s t" "z \<notin> set (ids t)"
  shows "holds (rest_of (pool_free z s)) (pool_free z s) t"
proof -
  have "is_tree (pool_free z s) NIL t"
    by (rule is_tree_frame [of s]) (use assms in \<open>auto simp: holds_def same_node_def pool_free_def set_right_def\<close>)
  then show ?thesis using assms(1) by (simp add: holds_def pool_free_def set_right_def)
qed

lemma rb_remove_ok:
  assumes inv: "rb_tree s t"
  shows "\<exists>r s'. rb_remove s st = Some (r, s') \<and> rb_inv s' \<and>
    vma_spec_remove (map (n_area s) (ids t)) st = (r, rb_areas s')"
proof -
  let ?A = "n_area s"
  have h: "holds (rest_of s) s t" "rb_ok t" "col t = RB_BLACK" "rb_used s = length (ids t)"
      "vma_wf (map ?A (ids t))"
    using inv by (simp_all add: rb_tree_def)
  obtain fs where fs: "rb_free_ok s fs t" using inv by (auto simp: rb_tree_def)
  have tree: "is_tree s NIL t" "distinct (ids t)" "rb_root s = rt t" using h(1) by (simp_all add: holds_def)
  have areas: "rb_areas s = map ?A (ids t)" "rb_inv s" using rb_invI [OF inv] by simp_all
  obtain z where z: "rb_search st (rt t) s = Some z"
      "if list_ex (\<lambda>a. va_start a = st) (map ?A (ids t))
       then z \<in> set (ids t) \<and> va_start (?A z) = st else z = NIL"
    using rb_search_ok [OF tree(1) h(5), of st] by blast
  show ?thesis
  proof (cases "list_ex (\<lambda>a. va_start a = st) (map ?A (ids t))")
    case False
    then show ?thesis
      using z areas by (auto simp: rb_remove_def tree(3) vma_spec_remove_def)
  next
    case True
    then have zt: "z \<in> set (ids t)" "va_start (?A z) = st" using z(2) by simp_all
    then obtain k c l r where k: "t = plug k (Nd c l z r)" using node_split by blast
    have zf: "z \<noteq> NIL" "z < RB_MAX_NODES" using is_tree_ids [OF tree(1) zt(1)] by auto
    let ?xs = "lids k @ ids l @ ids r @ rids k"
    obtain x oc s1 where s1: "rb_unlink z s = Some (x, oc, s1)" "unlinked ?xs oc s1 x" "keeps (set (ids t)) s1 s"
      using rb_unlink_ok [OF h(1) [unfolded k] h(2,3) [unfolded k]] unfolding k by blast
    obtain s2 where s2: "(if oc = RB_BLACK then delete_fixup x s1 else Some s1) = Some s2"
        "rb_whole (rest_of s1) ?xs s2"
      using s1(2) delete_fixup_ok [of "rest_of s1" ?xs s1 _ _ x] unfolding unlinked_def
      by (cases oc) auto
    then obtain t2 where t2: "holds (rest_of s1) s2 t2" "rb_ok t2" "col t2 = RB_BLACK" "ids t2 = ?xs"
      by (auto simp: rb_whole_def)
    define s3 where "s3 = (pool_free z s2)\<lparr>rb_used := rb_used (pool_free z s2) - 1\<rparr>"
    have rem: "rb_remove s st = Some (0, s3)"
      using z(1) zf s1(1) s2(1) by (simp add: rb_remove_def tree(3) Let_def s3_def)
    have ids: "ids t = (lids k @ ids l) @ z # (ids r @ rids k)" by (simp add: k ids_plug)
    have zx: "z \<notin> set ?xs" "set (ids t) = insert z (set ?xs)" using tree(2) by (auto simp: ids)
    have h3: "holds (rest_of s3) s3 t2"
      unfolding s3_def using zx(1) t2(4) by (intro holds_used holds_pool_free holds_rest_of [OF t2(1)]) simp
    have A3: "n_area s3 = ?A" "rb_used s3 = rb_used s - 1" "rb_free_head s3 = z"
        "n_right s3 = (n_right s2)(z := rb_free_head s)"
      using t2(1) s1(3) by (simp_all add: holds_def framed_def rest_of_def keeps_def s3_def pool_free_def set_right_def)
    have A: "map (n_area s3) (ids t2) = filter (\<lambda>a. va_start a \<noteq> st) (map ?A (ids t))"
      using filter_wf_remove [of "map ?A (lids k @ ids l)" "?A z" "map ?A (ids r @ rids k)"] h(5) zt(2)
      unfolding A3 t2(4) ids by simp
    have fs': "free_chain (n_right s) fs (rb_free_head s)" "distinct fs"
        "set fs \<union> set (ids t) = {..<RB_MAX_NODES}" "set fs \<inter> set (ids t) = {}"
      using fs by (auto simp: rb_free_ok_def)
    have right: "n_right s3 i = n_right s i" if "i \<in> set fs" for i
    proof -
      have "i \<notin> set (ids t)" "i \<notin> set ?xs" "i \<noteq> z" using that fs'(4) zx(2) by auto
      then show ?thesis
        using t2(1,4) s1(3) unfolding A3 by (simp add: holds_def framed_def rest_of_def keeps_def)
    qed
    have "rb_free_ok s3 (z # fs) t2"
      unfolding rb_free_ok_def
    proof (intro conjI)
      have "free_chain (n_right s3) fs (rb_free_head s)"
        by (rule free_chain_cong [OF fs'(1) right])
      moreover have "n_right s3 z = rb_free_head s" by (simp add: A3(4))
      ultimately show "free_chain (n_right s3) (z # fs) (rb_free_head s3)"
        unfolding free_chain.simps A3(3) using zf(2) by (simp only: simp_thms)
      show "distinct (z # fs)" using fs'(2,4) zt(1) by auto
      show "set (z # fs) \<union> set (ids t2) = {..<RB_MAX_NODES}"
        using fs'(3) unfolding zx(2) t2(4) by auto
      show "set (z # fs) \<inter> set (ids t2) = {}"
        using fs'(4) zx(1) unfolding zx(2) t2(4) by auto
    qed
    moreover have "vma_wf (map (n_area s3) (ids t2))"
      unfolding A by (rule vma_wf_filter [OF h(5)])
    moreover have "rb_used s3 = length (ids t2)"
      using h(4) unfolding A3 t2(4) ids by simp
    ultimately have "rb_tree s3 t2"
      using h3 t2(2,3) by (auto simp: rb_tree_def)
    then show ?thesis
      using rb_invI [of s3 t2] True A rem by (simp add: vma_spec_remove_def)
  qed
qed

section \<open>Initialisation\<close>

lemma fold_right_fields:
  "n_right (fold (\<lambda>i. set_right i (Suc i)) [0..<n] s) i = (if i < n then Suc i else n_right s i)"
  "n_left (fold (\<lambda>i. set_right i (Suc i)) [0..<n] s) = n_left s"
  "n_color (fold (\<lambda>i. set_right i (Suc i)) [0..<n] s) = n_color s"
  "rb_root (fold (\<lambda>i. set_right i (Suc i)) [0..<n] s) = rb_root s"
  "rb_used (fold (\<lambda>i. set_right i (Suc i)) [0..<n] s) = rb_used s"
  "rb_free_head (fold (\<lambda>i. set_right i (Suc i)) [0..<n] s) = rb_free_head s"
  by (induction n) (simp_all add: set_right_def)

lemma free_chain_upt:
  assumes "i \<le> n" "n \<le> RB_MAX_NODES" "\<And>j. j < n \<Longrightarrow> R j = (if j + 1 = n then NULLP else j + 1)"
  shows "free_chain R [i..<n] (if i = n then NULLP else i)"
  using assms(1)
proof (induction "n - i" arbitrary: i)
  case (Suc m)
  then have "i < n" "free_chain R [Suc i..<n] (if Suc i = n then NULLP else Suc i)" by simp_all
  with assms(2) assms(3) [of i] show ?case by (subst upt_conv_Cons) (auto split: if_splits)
qed simp

lemma rb_init_tree: "rb_tree (rb_init s) Lf"
proof -
  let ?s = "rb_init s"
  have f: "n_color ?s NIL = RB_BLACK" "rb_root ?s = NIL" "rb_used ?s = 0" "rb_free_head ?s = 0"
    by (simp_all add: rb_init_def pool_init_def Let_def set_defs fold_right_fields)
  have R: "n_right ?s j = (if j + 1 = RB_MAX_NODES then NULLP else j + 1)" if "j < RB_MAX_NODES" for j
    using that by (simp add: rb_init_def pool_init_def Let_def rb_set_fields fold_right_fields RB_MAX_NODES_def)
  have "free_chain (n_right ?s) [0..<RB_MAX_NODES] 0"
    using free_chain_upt [of 0 RB_MAX_NODES, OF _ _ R] by (simp add: RB_MAX_NODES_def)
  then have "rb_free_ok ?s [0..<RB_MAX_NODES] Lf"
    using f(4) by (auto simp: rb_free_ok_def)
  then show ?thesis
    using f by (auto simp: rb_tree_def holds_def)
qed

section \<open>The contract\<close>

lemma rb_find_ok: "rb_inv s \<Longrightarrow> rb_find s addr = Some (vma_spec_find (rb_areas s) addr)"
  using rb_find_from_ok [of s NIL "tree_of s" addr]
  by (simp add: rb_find_def rb_inv_def rb_tree_def rb_areas_def holds_def)

lemma rb_count_ok: "rb_inv s \<Longrightarrow> rb_count s = length (rb_areas s)"
  by (simp add: rb_count_def rb_inv_def rb_tree_def rb_areas_def)

lemma rb_add_returns:
  assumes "rb_inv s"
  obtains r s' where "rb_add s st en fl nm = Some (r, s')" "rb_inv s'"
    "vma_spec_add RB_MAX_NODES (rb_areas s) st en fl nm = (r, rb_areas s')"
  using rb_add_ok [of s "tree_of s" st en fl nm] assms unfolding rb_inv_def rb_areas_def by blast

lemma rb_remove_returns:
  assumes "rb_inv s"
  obtains r s' where "rb_remove s st = Some (r, s')" "rb_inv s'"
    "vma_spec_remove (rb_areas s) st = (r, rb_areas s')"
  using rb_remove_ok [of s "tree_of s" st] assms unfolding rb_inv_def rb_areas_def by blast

text \<open>The state of the back-end in the interface: a call that does not return would leave \<open>None\<close>, so
  the invariant of the contract says that every call returned.\<close>

fun live_inv :: "rb_state option \<Rightarrow> bool" where
  "live_inv None \<longleftrightarrow> False"
| "live_inv (Some s) \<longleftrightarrow> rb_inv s"

fun live_areas :: "rb_state option \<Rightarrow> vm_area list" where
  "live_areas None = []"
| "live_areas (Some s) = rb_areas s"

interpretation rb: vma_backend RB_MAX_NODES "\<lambda>s. s \<noteq> None" "vo_init rb_ops" "vo_add rb_ops" "vo_remove rb_ops"
  "vo_find rb_ops" "vo_count rb_ops" live_inv live_areas
proof
  fix s :: "rb_state option" and st en fl nm addr
  show "live_inv (vo_init rb_ops s)" "live_areas (vo_init rb_ops s) = []" if "s \<noteq> None"
    using that rb_invI [OF rb_init_tree] by (auto simp: rb_ops_def)
  assume inv: "live_inv s"
  then obtain t where t: "s = Some t" "rb_inv t" by (cases s) auto
  then show "vma_wf (live_areas s)"
    by (simp add: rb_inv_def rb_tree_def rb_areas_def)
  obtain r t' where "rb_add t st en fl nm = Some (r, t')" "rb_inv t'"
      "vma_spec_add RB_MAX_NODES (rb_areas t) st en fl nm = (r, rb_areas t')"
    using rb_add_returns [OF t(2)] by blast
  then show "live_inv (snd (vo_add rb_ops s st en fl nm))"
    "map_prod id live_areas (vo_add rb_ops s st en fl nm) = vma_spec_add RB_MAX_NODES (live_areas s) st en fl nm"
    by (simp_all add: rb_ops_def t(1) rb_step_def)
  obtain r t' where "rb_remove t st = Some (r, t')" "rb_inv t'"
      "vma_spec_remove (rb_areas t) st = (r, rb_areas t')"
    using rb_remove_returns [OF t(2)] by blast
  then show "live_inv (snd (vo_remove rb_ops s st))"
    "map_prod id live_areas (vo_remove rb_ops s st) = vma_spec_remove (live_areas s) st"
    by (simp_all add: rb_ops_def t(1) rb_step_def)
  show "vo_find rb_ops s addr = vma_spec_find (live_areas s) addr"
    using rb_find_ok [OF t(2)] by (simp add: rb_ops_def t(1))
  show "vo_count rb_ops s = length (live_areas s)"
    using rb_count_ok [OF t(2)] by (simp add: rb_ops_def t(1))
qed

section \<open>Balance\<close>

lemma bh_size: "rb_ok t \<Longrightarrow> 2 ^ bh t \<le> Suc (length (ids t))"
  by (induction t) (auto simp: blacks_def)

lemma depth_bh: "rb_ok t \<Longrightarrow> depth t + blacks (col t) \<le> 2 * bh t + 1"
proof (induction t)
  case (Nd c l i r)
  then show ?case by (cases c; cases "col l"; cases "col r") auto
qed simp

lemma depth_bound:
  assumes "rb_ok t" "col t = RB_BLACK"
  shows "2 ^ depth t \<le> (length (ids t) + 1) ^ 2"
proof -
  have "depth t \<le> 2 * bh t" using depth_bh [OF assms(1)] assms(2) by simp
  then have "(2 :: nat) ^ depth t \<le> 2 ^ (2 * bh t)" by (intro power_increasing) simp_all
  also have "\<dots> = (2 ^ bh t) ^ 2" by (simp add: power_mult mult.commute flip: power_mult)
  also have "\<dots> \<le> (length (ids t) + 1) ^ 2" using bh_size [OF assms(1)] by (intro power_mono) simp_all
  finally show ?thesis .
qed

text \<open>The states the operations lead to.\<close>

inductive rb_reachable :: "rb_state \<Rightarrow> bool" where
  "rb_reachable (rb_init s)"
| "rb_reachable s \<Longrightarrow> rb_add s st en fl nm = Some (r, s') \<Longrightarrow> rb_reachable s'"
| "rb_reachable s \<Longrightarrow> rb_remove s st = Some (r, s') \<Longrightarrow> rb_reachable s'"

lemma rb_reachable_inv: "rb_reachable s \<Longrightarrow> rb_inv s"
proof (induction rule: rb_reachable.induct)
  case (1 s)
  show ?case by (rule rb_invI [OF rb_init_tree])
next
  case (2 s st en fl nm r s')
  then show ?case using rb_add_returns [of s st en fl nm] by (metis option.inject prod.inject)
next
  case (3 s st r s')
  then show ?case using rb_remove_returns [of s st] by (metis option.inject prod.inject)
qed

section \<open>Properties\<close>

lemma rb_ops_call: "ops_call rb_ops = vma_backend_call (vo_add rb_ops) (vo_remove rb_ops) (vo_find rb_ops) (vo_count rb_ops)"
  by (simp add: ops_call_def)

text \<open>C4. Through the public interface, with the red-black tree registered and \<open>vma_init\<close> called,
  every sequence of add, remove, find and count calls is answered exactly as the specification (a list of
  disjoint page-aligned intervals, at most 256) answers it: the overlap test on the search path misses no
  overlap, the rotations and the two repair loops lose, repeat and reorder no area, and every node comes
  back to the pool.\<close>

theorem rbtree_refines_spec:
  assumes "vma_data v \<noteq> None"
  shows "run_calls vma_dispatch_call (vma_init (vma_register_backend (Some rb_ops) v)) cs =
    run_calls (vma_spec_call RB_MAX_NODES) [] cs"
  unfolding vma_registered_run rb_ops_call by (rule rb.run_init_refines [OF assms])

theorem rbtree_refines_spec_witness:
  "run_calls vma_dispatch_call (vma_init (vma_register_backend (Some rb_ops)
      \<lparr>g_vma_ops = None, g_vma_ready = False,
        vma_data = Some \<lparr>n_area = (\<lambda>_. mk_area 0 0 0 None), n_color = (\<lambda>_. RB_RED), n_parent = (\<lambda>_. 0),
          n_left = (\<lambda>_. 0), n_right = (\<lambda>_. 0), rb_free_head = 0, rb_root = 0, rb_used = 77\<rparr>\<rparr>))
     [Call_Add 0x3000 0x5000 1 None, Call_Add 0x1000 0x2000 3 None, Call_Add 0x4000 0x6000 1 None,
      Call_Find 0x4FFF, Call_Remove 0x1000, Call_Count] =
   [Reply_Int 0, Reply_Int 0, Reply_Int (- 1), Reply_Area (Some (mk_area 0x3000 0x5000 1 None)),
    Reply_Int 0, Reply_Unsigned 1]"
  by (subst rbtree_refines_spec)
    (simp_all add: RB_MAX_NODES_def vma_spec_add_def vma_range_ok_def
      page_aligned_def vma_overlaps_def vma_spec_find_def vma_contains_def vma_spec_remove_def)

text \<open>C5. In every state the operations of the red-black tree lead to, every operation returns (none of the
  loops that follow pointers runs for ever), and the tree is balanced: its height is at most twice the
  binary logarithm of the number of areas plus one, as the head of the file says.\<close>

theorem rbtree_total_balanced:
  assumes "rb_reachable s"
  shows "rb_add s st en fl nm \<noteq> None \<and> rb_remove s st \<noteq> None \<and> rb_find s addr \<noteq> None \<and>
    2 ^ depth (tree_of s) \<le> (rb_count s + 1) ^ 2"
proof -
  have inv: "rb_inv s" using rb_reachable_inv [OF assms] .
  then have "2 ^ depth (tree_of s) \<le> (rb_count s + 1) ^ 2"
    using depth_bound [of "tree_of s"] by (simp add: rb_inv_def rb_tree_def rb_count_def)
  then show ?thesis
    using rb_add_returns [OF inv, of st en fl nm] rb_remove_returns [OF inv, of st] rb_find_ok [OF inv]
    by (metis option.distinct(1))
qed

theorem rbtree_total_balanced_witness:
  "rb_find (rb_init \<lparr>n_area = (\<lambda>_. mk_area 0 0 0 None), n_color = (\<lambda>_. RB_RED), n_parent = (\<lambda>_. 0),
     n_left = (\<lambda>_. 0), n_right = (\<lambda>_. 0), rb_free_head = 0, rb_root = 0, rb_used = 77\<rparr>) 0x1000 \<noteq> None"
  using rbtree_total_balanced [OF rb_reachable.intros(1)] by blast

end
