(* ===== verification/Vma_Maple.thy ===== *)
theory Vma_Maple
  imports Vma "HOL-Library.Monad_Syntax"
begin

text \<open>
  The third back-end of the memory areas, \<open>vma_maple.c\<close>: a B+ tree of nodes with up to ten entries. Nodes
  and areas live in static pools; a pointer into a pool is an index, \<open>None\<close> is \<open>NULL\<close>. An access outside an
  array, or through a null pointer, makes the run undefined: the operation is \<open>None\<close>.
\<close>

section \<open>Data\<close>

definition MAPLE_NODE_SLOTS :: nat where "MAPLE_NODE_SLOTS = 10"
definition MAPLE_MAX_PIVOTS :: nat where "MAPLE_MAX_PIVOTS = MAPLE_NODE_SLOTS - 1"
definition MAPLE_MAX_NODES :: nat where "MAPLE_MAX_NODES = 64"
definition MAPLE_MAX_VMAS :: nat where "MAPLE_MAX_VMAS = 256"
definition SPLIT_MID :: nat where "SPLIT_MID = MAPLE_NODE_SLOTS div 2"

type_synonym mptr = "nat option"

text \<open>\<open>m_entries\<close> is the union: children of an inner node, areas of a leaf.\<close>

record maple_node =
  m_pivots :: "nat \<Rightarrow> u32"
  m_nr :: u8
  m_leaf :: u8
  m_parent :: mptr
  m_entries :: "nat \<Rightarrow> mptr"

text \<open>\<open>g_vma_next\<close> is the \<open>name\<close> field of a free area, which then holds a link of the free list.\<close>

record maple_state =
  g_node_pool :: "nat \<Rightarrow> maple_node"
  g_node_free :: mptr
  g_vma_pool :: "nat \<Rightarrow> vm_area"
  g_vma_next :: "nat \<Rightarrow> mptr"
  g_vma_free :: mptr
  g_maple_root :: mptr
  g_count :: u32

definition on_node :: "nat \<Rightarrow> (maple_node \<Rightarrow> maple_node) \<Rightarrow> maple_state \<Rightarrow> maple_state" where
  "on_node p f s = s\<lparr>g_node_pool := (g_node_pool s)(p := f (g_node_pool s p))\<rparr>"

definition nr_entries :: "maple_state \<Rightarrow> nat \<Rightarrow> nat" where "nr_entries s p = unat (m_nr (g_node_pool s p))"

text \<open>\<open>(unsigned)(nr_entries - 1)\<close>, which wraps around for an empty node.\<close>

definition nr_pred :: "maple_state \<Rightarrow> nat \<Rightarrow> nat" where
  "nr_pred s p = unat (ucast (m_nr (g_node_pool s p)) - 1 :: u32)"

definition get_pivot :: "maple_state \<Rightarrow> nat \<Rightarrow> nat \<Rightarrow> u32 option" where
  "get_pivot s p i = (if i < MAPLE_MAX_PIVOTS then Some (m_pivots (g_node_pool s p) i) else None)"

definition set_pivot :: "nat \<Rightarrow> nat \<Rightarrow> u32 \<Rightarrow> maple_state \<Rightarrow> maple_state option" where
  "set_pivot p i v s =
     (if i < MAPLE_MAX_PIVOTS then Some (on_node p (\<lambda>n. n\<lparr>m_pivots := (m_pivots n)(i := v)\<rparr>) s) else None)"

definition get_entry :: "maple_state \<Rightarrow> nat \<Rightarrow> nat \<Rightarrow> mptr option" where
  "get_entry s p i = (if i < MAPLE_NODE_SLOTS then Some (m_entries (g_node_pool s p) i) else None)"

definition set_entry :: "nat \<Rightarrow> nat \<Rightarrow> mptr \<Rightarrow> maple_state \<Rightarrow> maple_state option" where
  "set_entry p i v s =
     (if i < MAPLE_NODE_SLOTS then Some (on_node p (\<lambda>n. n\<lparr>m_entries := (m_entries n)(i := v)\<rparr>) s) else None)"

section \<open>Pools\<close>

definition node_pool_init :: "maple_state \<Rightarrow> maple_state" where
  "node_pool_init s =
     (let s1 = fold (\<lambda>i. on_node i (\<lambda>n. n\<lparr>m_parent := Some (i + 1)\<rparr>)) [0..<MAPLE_MAX_NODES - 1] (s\<lparr>g_node_free := Some 0\<rparr>)
      in on_node (MAPLE_MAX_NODES - 1) (\<lambda>n. n\<lparr>m_parent := None\<rparr>) s1)"

definition node_alloc :: "maple_state \<Rightarrow> mptr \<times> maple_state" where
  "node_alloc s =
     (case g_node_free s of
        None \<Rightarrow> (None, s)
      | Some n \<Rightarrow>
          (let s1 = s\<lparr>g_node_free := m_parent (g_node_pool s n)\<rparr> in
           (Some n, on_node n (\<lambda>nd. \<lparr>m_pivots = (\<lambda>i. if i < MAPLE_MAX_PIVOTS then 0 else m_pivots nd i), m_nr = 0, m_leaf = 0,
              m_parent = None, m_entries = (\<lambda>i. if i < MAPLE_NODE_SLOTS then None else m_entries nd i)\<rparr>) s1)))"

definition node_free :: "nat \<Rightarrow> maple_state \<Rightarrow> maple_state" where
  "node_free n s = (on_node n (\<lambda>nd. nd\<lparr>m_parent := g_node_free s\<rparr>) s)\<lparr>g_node_free := Some n\<rparr>"

definition vma_pool_init :: "maple_state \<Rightarrow> maple_state" where
  "vma_pool_init s =
     (let s1 = fold (\<lambda>i s. s\<lparr>g_vma_next := (g_vma_next s)(i := Some (i + 1))\<rparr>) [0..<MAPLE_MAX_VMAS - 1] (s\<lparr>g_vma_free := Some 0\<rparr>)
      in s1\<lparr>g_vma_next := (g_vma_next s1)(MAPLE_MAX_VMAS - 1 := None)\<rparr>)"

definition vma_alloc :: "maple_state \<Rightarrow> mptr \<times> maple_state" where
  "vma_alloc s =
     (case g_vma_free s of
        None \<Rightarrow> (None, s)
      | Some v \<Rightarrow> (Some v, s\<lparr>g_vma_free := g_vma_next s v, g_vma_pool := (g_vma_pool s)(v := mk_area 0 0 0 None)\<rparr>))"

definition vma_free_entry :: "nat \<Rightarrow> maple_state \<Rightarrow> maple_state" where
  "vma_free_entry v s = s\<lparr>g_vma_next := (g_vma_next s)(v := g_vma_free s), g_vma_free := Some v\<rparr>"

section \<open>Leaves\<close>

function leaf_find_from :: "maple_state \<Rightarrow> nat \<Rightarrow> u32 \<Rightarrow> nat \<Rightarrow> nat option" where
  "leaf_find_from s leaf start i =
     (if i < nr_entries s leaf then
        do { v \<leftarrow> get_pivot s leaf i; if start \<le> v then Some i else leaf_find_from s leaf start (i + 1) }
      else Some (nr_entries s leaf))"
  by pat_completeness auto
termination by (relation "measure (\<lambda>(s, leaf, start, i). nr_entries s leaf - i)") auto

definition leaf_find_slot :: "maple_state \<Rightarrow> nat \<Rightarrow> u32 \<Rightarrow> nat option" where
  "leaf_find_slot s leaf start = leaf_find_from s leaf start 0"

fun leaf_shift_up :: "nat \<Rightarrow> nat \<Rightarrow> nat \<Rightarrow> maple_state \<Rightarrow> maple_state option" where
  "leaf_shift_up leaf pos 0 s = Some s"
| "leaf_shift_up leaf pos (Suc i) s =
     (if pos < Suc i then
        do { v \<leftarrow> get_pivot s leaf i; s1 \<leftarrow> set_pivot leaf (Suc i) v s;
             e \<leftarrow> get_entry s1 leaf i; s2 \<leftarrow> set_entry leaf (Suc i) e s1;
             leaf_shift_up leaf pos i s2 }
      else Some s)"

definition leaf_insert_at :: "nat \<Rightarrow> nat \<Rightarrow> nat \<Rightarrow> maple_state \<Rightarrow> maple_state option" where
  "leaf_insert_at leaf pos vma s =
     do { s1 \<leftarrow> leaf_shift_up leaf pos (nr_entries s leaf) s;
          s2 \<leftarrow> set_pivot leaf pos (va_start (g_vma_pool s1 vma)) s1;
          s3 \<leftarrow> set_entry leaf pos (Some vma) s2;
          Some (on_node leaf (\<lambda>n. n\<lparr>m_nr := m_nr n + 1\<rparr>) s3) }"

function leaf_shift_down :: "nat \<Rightarrow> nat \<Rightarrow> nat \<Rightarrow> maple_state \<Rightarrow> maple_state option" where
  "leaf_shift_down leaf i n s =
     (if i < n then
        do { v \<leftarrow> get_pivot s leaf (i + 1); s1 \<leftarrow> set_pivot leaf i v s;
             e \<leftarrow> get_entry s1 leaf (i + 1); s2 \<leftarrow> set_entry leaf i e s1;
             leaf_shift_down leaf (i + 1) n s2 }
      else Some s)"
  by pat_completeness auto
termination by (relation "measure (\<lambda>(leaf, i, n, s). n - i)") auto

definition leaf_remove_at :: "nat \<Rightarrow> nat \<Rightarrow> maple_state \<Rightarrow> maple_state option" where
  "leaf_remove_at leaf pos s =
     do { s1 \<leftarrow> leaf_shift_down leaf pos (nr_pred s leaf) s;
          let s2 = on_node leaf (\<lambda>n. n\<lparr>m_nr := m_nr n - 1\<rparr>) s1;
          s3 \<leftarrow> set_pivot leaf (nr_entries s2 leaf) 0 s2;
          set_entry leaf (nr_entries s3 leaf) None s3 }"

section \<open>Inner nodes\<close>

function internal_find_from :: "maple_state \<Rightarrow> nat \<Rightarrow> u32 \<Rightarrow> nat \<Rightarrow> nat option" where
  "internal_find_from s node addr i =
     (if i < nr_pred s node then
        do { v \<leftarrow> get_pivot s node i; if addr < v then Some i else internal_find_from s node addr (i + 1) }
      else Some (nr_pred s node))"
  by pat_completeness auto
termination by (relation "measure (\<lambda>(s, node, addr, i). nr_pred s node - i)") auto

definition internal_find_child :: "maple_state \<Rightarrow> nat \<Rightarrow> u32 \<Rightarrow> nat option" where
  "internal_find_child s node addr = internal_find_from s node addr 0"

fun pivots_shift_up :: "nat \<Rightarrow> nat \<Rightarrow> nat \<Rightarrow> maple_state \<Rightarrow> maple_state option" where
  "pivots_shift_up node pos 0 s = Some s"
| "pivots_shift_up node pos (Suc i) s =
     (if pos < Suc i then do { v \<leftarrow> get_pivot s node i; s1 \<leftarrow> set_pivot node (Suc i) v s; pivots_shift_up node pos i s1 }
      else Some s)"

fun children_shift_up :: "nat \<Rightarrow> nat \<Rightarrow> nat \<Rightarrow> maple_state \<Rightarrow> maple_state option" where
  "children_shift_up node pos 0 s = Some s"
| "children_shift_up node pos (Suc i) s =
     (if pos + 1 < Suc i then do { e \<leftarrow> get_entry s node i; s1 \<leftarrow> set_entry node (Suc i) e s; children_shift_up node pos i s1 }
      else Some s)"

definition internal_insert_at :: "nat \<Rightarrow> nat \<Rightarrow> u32 \<Rightarrow> nat \<Rightarrow> maple_state \<Rightarrow> maple_state option" where
  "internal_insert_at node pos split_key new_child s =
     do { s1 \<leftarrow> pivots_shift_up node pos (nr_pred s node) s;
          s2 \<leftarrow> set_pivot node pos split_key s1;
          s3 \<leftarrow> children_shift_up node pos (nr_entries s2 node) s2;
          s4 \<leftarrow> set_entry node (pos + 1) (Some new_child) s3;
          let s5 = on_node new_child (\<lambda>n. n\<lparr>m_parent := Some node\<rparr>) s4;
          Some (on_node node (\<lambda>n. n\<lparr>m_nr := m_nr n + 1\<rparr>) s5) }"

section \<open>Splitting\<close>

function split_leaf_move :: "nat \<Rightarrow> nat \<Rightarrow> nat \<Rightarrow> nat \<Rightarrow> maple_state \<Rightarrow> maple_state option" where
  "split_leaf_move leaf new_leaf i n s =
     (if i < n then
        do { v \<leftarrow> get_pivot s leaf (SPLIT_MID + i); s1 \<leftarrow> set_pivot new_leaf i v s;
             e \<leftarrow> get_entry s1 leaf (SPLIT_MID + i); s2 \<leftarrow> set_entry new_leaf i e s1;
             s3 \<leftarrow> set_pivot leaf (SPLIT_MID + i) 0 s2; s4 \<leftarrow> set_entry leaf (SPLIT_MID + i) None s3;
             split_leaf_move leaf new_leaf (i + 1) n s4 }
      else Some s)"
  by pat_completeness auto
termination by (relation "measure (\<lambda>(leaf, new_leaf, i, n, s). n - i)") auto

text \<open>\<open>nr_entries - SPLIT_MID\<close>, and \<open>nr_entries - 1 - SPLIT_MID\<close>, as unsigned numbers.\<close>

definition move_count :: "maple_state \<Rightarrow> nat \<Rightarrow> nat \<Rightarrow> nat" where
  "move_count s p k = unat (ucast (m_nr (g_node_pool s p)) - of_nat k :: u32)"

definition split_leaf :: "nat \<Rightarrow> nat \<Rightarrow> maple_state \<Rightarrow> (u32 \<times> maple_state) option" where
  "split_leaf leaf new_leaf s =
     do { let s1 = on_node new_leaf (\<lambda>n. n\<lparr>m_leaf := 1\<rparr>) s;
          let k = move_count s1 leaf SPLIT_MID;
          s2 \<leftarrow> split_leaf_move leaf new_leaf 0 k s1;
          let s3 = on_node new_leaf (\<lambda>n. n\<lparr>m_nr := of_nat k\<rparr>) s2;
          let s4 = on_node leaf (\<lambda>n. n\<lparr>m_nr := of_nat SPLIT_MID\<rparr>) s3;
          v \<leftarrow> get_pivot s4 new_leaf 0;
          Some (v, s4) }"

function split_pivots_move :: "nat \<Rightarrow> nat \<Rightarrow> nat \<Rightarrow> nat \<Rightarrow> maple_state \<Rightarrow> maple_state option" where
  "split_pivots_move node new_node i n s =
     (if i < n then
        do { v \<leftarrow> get_pivot s node (SPLIT_MID + i); s1 \<leftarrow> set_pivot new_node i v s;
             s2 \<leftarrow> set_pivot node (SPLIT_MID + i) 0 s1;
             split_pivots_move node new_node (i + 1) n s2 }
      else Some s)"
  by pat_completeness auto
termination by (relation "measure (\<lambda>(node, new_node, i, n, s). n - i)") auto

function split_children_move :: "nat \<Rightarrow> nat \<Rightarrow> nat \<Rightarrow> nat \<Rightarrow> maple_state \<Rightarrow> maple_state option" where
  "split_children_move node new_node i n s =
     (if i < n then
        do { e \<leftarrow> get_entry s node (SPLIT_MID + i); s1 \<leftarrow> set_entry new_node i e s;
             let s2 = (case e of None \<Rightarrow> s1 | Some c \<Rightarrow> on_node c (\<lambda>nd. nd\<lparr>m_parent := Some new_node\<rparr>) s1);
             s3 \<leftarrow> set_entry node (SPLIT_MID + i) None s2;
             split_children_move node new_node (i + 1) n s3 }
      else Some s)"
  by pat_completeness auto
termination by (relation "measure (\<lambda>(node, new_node, i, n, s). n - i)") auto

definition split_internal :: "nat \<Rightarrow> nat \<Rightarrow> maple_state \<Rightarrow> (u32 \<times> maple_state) option" where
  "split_internal node new_node s =
     do { let s1 = on_node new_node (\<lambda>n. n\<lparr>m_leaf := 0\<rparr>) s;
          up_key \<leftarrow> get_pivot s1 node (SPLIT_MID - 1);
          s2 \<leftarrow> split_pivots_move node new_node 0 (move_count s1 node (1 + SPLIT_MID)) s1;
          let k = move_count s2 node SPLIT_MID;
          s3 \<leftarrow> split_children_move node new_node 0 k s2;
          let s4 = on_node new_node (\<lambda>n. n\<lparr>m_nr := of_nat k\<rparr>) s3;
          let s5 = on_node node (\<lambda>n. n\<lparr>m_nr := of_nat SPLIT_MID\<rparr>) s4;
          s6 \<leftarrow> set_pivot node (SPLIT_MID - 1) 0 s5;
          Some (up_key, s6) }"

section \<open>Operations\<close>

definition maple_init :: "maple_state \<Rightarrow> maple_state" where
  "maple_init s =
     (let s1 = vma_pool_init (node_pool_init s); (r, s2) = node_alloc s1; s3 = s2\<lparr>g_maple_root := r\<rparr>;
          s4 = (case r of None \<Rightarrow> s3 | Some p \<Rightarrow> on_node p (\<lambda>n. n\<lparr>m_leaf := 1, m_parent := None\<rparr>) s3)
      in s4\<lparr>g_count := 0\<rparr>)"

text \<open>The way down to a leaf: \<open>Some None\<close> when it meets a null child.\<close>

partial_function (option) maple_descend :: "maple_state \<Rightarrow> u32 \<Rightarrow> nat \<Rightarrow> mptr option" where
  "maple_descend s addr node =
     (if m_leaf (g_node_pool s node) \<noteq> 0 then Some (Some node)
      else do { idx \<leftarrow> internal_find_child s node addr; c \<leftarrow> get_entry s node idx;
                (case c of None \<Rightarrow> Some None | Some n \<Rightarrow> maple_descend s addr n) })"

function maple_overlap_from :: "maple_state \<Rightarrow> nat \<Rightarrow> u32 \<Rightarrow> u32 \<Rightarrow> nat \<Rightarrow> bool option" where
  "maple_overlap_from s node st en i =
     (if i < nr_entries s node then
        do { e \<leftarrow> get_entry s node i; v \<leftarrow> e;
             (if st < va_end (g_vma_pool s v) \<and> va_start (g_vma_pool s v) < en then Some True
              else maple_overlap_from s node st en (i + 1)) }
      else Some False)"
  by pat_completeness auto
termination by (relation "measure (\<lambda>(s, node, st, en, i). nr_entries s node - i)") auto

text \<open>The loop that carries a split upwards.\<close>

definition maple_new_root :: "nat \<Rightarrow> nat \<Rightarrow> u32 \<Rightarrow> maple_state \<Rightarrow> maple_state option" where
  "maple_new_root child new_child split_key s =
     (case node_alloc s of
        (None, s1) \<Rightarrow> Some s1
      | (Some r, s1) \<Rightarrow>
          do { let s2 = on_node r (\<lambda>n. n\<lparr>m_leaf := 0, m_nr := 2\<rparr>) s1;
               s3 \<leftarrow> set_pivot r 0 split_key s2; s4 \<leftarrow> set_entry r 0 (Some child) s3; s5 \<leftarrow> set_entry r 1 (Some new_child) s4;
               let s6 = on_node r (\<lambda>n. n\<lparr>m_parent := None\<rparr>) s5;
               let s7 = on_node child (\<lambda>n. n\<lparr>m_parent := Some r\<rparr>) s6;
               let s8 = on_node new_child (\<lambda>n. n\<lparr>m_parent := Some r\<rparr>) s7;
               Some (s8\<lparr>g_maple_root := Some r\<rparr>) })"

partial_function (option) maple_up :: "nat \<Rightarrow> nat \<Rightarrow> u32 \<Rightarrow> maple_state \<Rightarrow> maple_state option" where
  "maple_up child new_child split_key s =
     (case m_parent (g_node_pool s child) of
        None \<Rightarrow> maple_new_root child new_child split_key s
      | Some parent \<Rightarrow>
          if nr_entries s parent < MAPLE_NODE_SLOTS then
            do { pos \<leftarrow> internal_find_from s parent split_key 0; internal_insert_at parent pos split_key new_child s }
          else
            (case node_alloc s of
               (None, s1) \<Rightarrow> Some s1
             | (Some new_parent, s1) \<Rightarrow>
                 do { (parent_up_key, s2) \<leftarrow> split_internal parent new_parent s1;
                      let half = (if split_key < parent_up_key then parent else new_parent);
                      pos \<leftarrow> internal_find_from s2 half split_key 0;
                      s3 \<leftarrow> internal_insert_at half pos split_key new_child s2;
                      maple_up parent new_parent parent_up_key s3 }))"

definition maple_split_insert :: "nat \<Rightarrow> nat \<Rightarrow> u32 \<Rightarrow> maple_state \<Rightarrow> (int \<times> maple_state) option" where
  "maple_split_insert node vma st s =
     (case node_alloc s of
        (None, s1) \<Rightarrow> Some (- 1, vma_free_entry vma s1)
      | (Some new_leaf, s1) \<Rightarrow>
          do { (up_key, s2) \<leftarrow> split_leaf node new_leaf s1;
               let half = (if st < up_key then node else new_leaf);
               pos \<leftarrow> leaf_find_slot s2 half st;
               s3 \<leftarrow> leaf_insert_at half pos vma s2;
               s4 \<leftarrow> maple_up node new_leaf up_key s3;
               Some (0, s4\<lparr>g_count := g_count s4 + 1\<rparr>) })"

definition maple_add :: "maple_state \<Rightarrow> u32 \<Rightarrow> u32 \<Rightarrow> u32 \<Rightarrow> string option \<Rightarrow> (int \<times> maple_state) option" where
  "maple_add s st en fl nm =
     (if of_nat MAPLE_MAX_VMAS \<le> g_count s then Some (- 1, s)
      else if en \<le> st then Some (- 1, s)
      else if st AND 0xFFF \<noteq> 0 \<or> en AND 0xFFF \<noteq> 0 then Some (- 1, s)
      else
        (case g_maple_root s of
           None \<Rightarrow> Some (- 1, s)
         | Some root \<Rightarrow>
             do { leaf \<leftarrow> maple_descend s st root; node \<leftarrow> leaf;
                  hit \<leftarrow> maple_overlap_from s node st en 0;
                  (if hit then Some (- 1, s)
                   else
                     (case vma_alloc s of
                        (None, s1) \<Rightarrow> Some (- 1, s1)
                      | (Some vma, s1) \<Rightarrow>
                          (let s2 = s1\<lparr>g_vma_pool := (g_vma_pool s1)(vma := mk_area st en fl nm)\<rparr> in
                           if nr_entries s2 node < MAPLE_NODE_SLOTS then
                             do { pos \<leftarrow> leaf_find_slot s2 node st;
                                  s3 \<leftarrow> leaf_insert_at node pos vma s2;
                                  Some (0, s3\<lparr>g_count := g_count s3 + 1\<rparr>) }
                           else maple_split_insert node vma st s2))) }))"

function maple_search_start :: "maple_state \<Rightarrow> nat \<Rightarrow> u32 \<Rightarrow> nat \<Rightarrow> (nat \<times> nat) option option" where
  "maple_search_start s node st i =
     (if i < nr_entries s node then
        do { e \<leftarrow> get_entry s node i;
             (case e of
                Some v \<Rightarrow> if va_start (g_vma_pool s v) = st then Some (Some (i, v)) else maple_search_start s node st (i + 1)
              | None \<Rightarrow> maple_search_start s node st (i + 1)) }
      else Some None)"
  by pat_completeness auto
termination by (relation "measure (\<lambda>(s, node, st, i). nr_entries s node - i)") auto

definition maple_remove :: "maple_state \<Rightarrow> u32 \<Rightarrow> (int \<times> maple_state) option" where
  "maple_remove s st =
     (case g_maple_root s of
        None \<Rightarrow> Some (- 1, s)
      | Some root \<Rightarrow>
          do { leaf \<leftarrow> maple_descend s st root;
               (case leaf of
                  None \<Rightarrow> Some (- 1, s)
                | Some node \<Rightarrow>
                    do { hit \<leftarrow> maple_search_start s node st 0;
                         (case hit of
                            None \<Rightarrow> Some (- 1, s)
                          | Some (i, v) \<Rightarrow>
                              do { s1 \<leftarrow> leaf_remove_at node i (vma_free_entry v s);
                                   Some (0, s1\<lparr>g_count := g_count s1 - 1\<rparr>) }) }) })"

function maple_search_addr :: "maple_state \<Rightarrow> nat \<Rightarrow> u32 \<Rightarrow> nat \<Rightarrow> vm_area option option" where
  "maple_search_addr s node addr i =
     (if i < nr_entries s node then
        do { e \<leftarrow> get_entry s node i;
             (case e of
                Some v \<Rightarrow> if va_start (g_vma_pool s v) \<le> addr \<and> addr < va_end (g_vma_pool s v) then Some (Some (g_vma_pool s v))
                          else maple_search_addr s node addr (i + 1)
              | None \<Rightarrow> maple_search_addr s node addr (i + 1)) }
      else Some None)"
  by pat_completeness auto
termination by (relation "measure (\<lambda>(s, node, addr, i). nr_entries s node - i)") auto

definition maple_find :: "maple_state \<Rightarrow> u32 \<Rightarrow> vm_area option option" where
  "maple_find s addr =
     (case g_maple_root s of
        None \<Rightarrow> Some None
      | Some root \<Rightarrow>
          do { leaf \<leftarrow> maple_descend s addr root;
               (case leaf of None \<Rightarrow> Some None | Some node \<Rightarrow> maple_search_addr s node addr 0) })"

definition maple_count :: "maple_state \<Rightarrow> u32" where "maple_count s = g_count s"

text \<open>The table of the back-end. Its state is \<open>None\<close> once a call has been undefined.\<close>

definition maple_step :: "(maple_state \<Rightarrow> (int \<times> maple_state) option) \<Rightarrow> maple_state option \<Rightarrow> int \<times> maple_state option" where
  "maple_step f s =
     (case s of
        None \<Rightarrow> (- 1, None)
      | Some s \<Rightarrow> (case f s of None \<Rightarrow> (- 1, None) | Some (r, s') \<Rightarrow> (r, Some s')))"

definition maple_ops :: "maple_state option vma_ops" where
  "maple_ops = \<lparr>vo_name = ''maple-tree'', vo_init = map_option maple_init,
     vo_add = (\<lambda>s st en fl nm. maple_step (\<lambda>s. maple_add s st en fl nm) s),
     vo_remove = (\<lambda>s st. maple_step (\<lambda>s. maple_remove s st) s),
     vo_find = (\<lambda>s addr. case Option.bind s (\<lambda>s. maple_find s addr) of None \<Rightarrow> None | Some r \<Rightarrow> r),
     vo_count = (\<lambda>s. case s of None \<Rightarrow> 0 | Some s \<Rightarrow> unat (maple_count s))\<rparr>"

declare leaf_find_from.simps [simp del] leaf_shift_down.simps [simp del] internal_find_from.simps [simp del]
  split_leaf_move.simps [simp del] split_pivots_move.simps [simp del] split_children_move.simps [simp del]
  maple_overlap_from.simps [simp del] maple_search_start.simps [simp del] maple_search_addr.simps [simp del]
declare maple_descend.simps [code] maple_up.simps [code]

end
