(* ===== verification/Vma_Maple_Spec.thy ===== *)
theory Vma_Maple_Spec
  imports Vma_Maple
begin

text \<open>
  The maple tree back-end while it holds at most nine areas: its only leaf is a sorted array, and it
  answers like the specification. The tenth area needs a tenth separator key, for which a node has no room.
\<close>

section \<open>Moving entries of a leaf\<close>

lemma maple_consts: "MAPLE_MAX_PIVOTS = 9" "MAPLE_NODE_SLOTS = 10" "MAPLE_MAX_NODES = 64" "MAPLE_MAX_VMAS = 256" "SPLIT_MID = 5"
  by (simp_all add: MAPLE_MAX_PIVOTS_def MAPLE_NODE_SLOTS_def MAPLE_MAX_NODES_def MAPLE_MAX_VMAS_def SPLIT_MID_def)

lemma on_node_on_node: "on_node p f (on_node p g s) = on_node p (\<lambda>n. f (g n)) s"
  by (simp add: on_node_def)

lemma on_node_sel [simp]:
  "g_node_pool (on_node p f s) q = (if q = p then f (g_node_pool s p) else g_node_pool s q)"
  "g_node_free (on_node p f s) = g_node_free s" "g_vma_pool (on_node p f s) = g_vma_pool s"
  "g_vma_next (on_node p f s) = g_vma_next s" "g_vma_free (on_node p f s) = g_vma_free s"
  "g_maple_root (on_node p f s) = g_maple_root s" "g_count (on_node p f s) = g_count s"
  by (simp_all add: on_node_def)

lemma on_node_cong: "f (g_node_pool s p) = g (g_node_pool s p) \<Longrightarrow> on_node p f s = on_node p g s"
  by (simp add: on_node_def)

text \<open>One entry copied from slot \<open>i\<close> to slot \<open>j\<close>.\<close>

definition copy_slot :: "nat \<Rightarrow> nat \<Rightarrow> maple_node \<Rightarrow> maple_node" where
  "copy_slot i j n = n\<lparr>m_pivots := (m_pivots n)(j := m_pivots n i), m_entries := (m_entries n)(j := m_entries n i)\<rparr>"

lemma copy_step:
  assumes "i < 9" "j < 9"
  shows "do { v \<leftarrow> get_pivot s p i; s1 \<leftarrow> set_pivot p j v s; e \<leftarrow> get_entry s1 p i; s2 \<leftarrow> set_entry p j e s1; f s2 } =
    f (on_node p (copy_slot i j) s)"
  using assms
  by (simp add: get_pivot_def set_pivot_def get_entry_def set_entry_def maple_consts on_node_on_node)
    (simp add: on_node_def copy_slot_def)

definition shifted_up :: "nat \<Rightarrow> nat \<Rightarrow> maple_node \<Rightarrow> maple_node" where
  "shifted_up pos n nd = nd\<lparr>m_pivots := (\<lambda>i. if pos < i \<and> i \<le> n then m_pivots nd (i - 1) else m_pivots nd i),
     m_entries := (\<lambda>i. if pos < i \<and> i \<le> n then m_entries nd (i - 1) else m_entries nd i)\<rparr>"

lemma shifted_up_id: "n \<le> pos \<Longrightarrow> on_node p (shifted_up pos n) s = s"
proof -
  assume "n \<le> pos"
  then have "shifted_up pos n nd = nd" for nd by (intro maple_node.equality ext) (auto simp: shifted_up_def)
  then show ?thesis by (simp add: on_node_def)
qed

lemma leaf_shift_up: "n \<le> 8 \<Longrightarrow> leaf_shift_up p pos n s = Some (on_node p (shifted_up pos n) s)"
proof (induction n arbitrary: s)
  case 0
  then show ?case by (simp add: shifted_up_id)
next
  case (Suc n)
  show ?case
  proof (cases "pos < Suc n")
    case True
    have "leaf_shift_up p pos (Suc n) s = leaf_shift_up p pos n (on_node p (copy_slot n (Suc n)) s)"
      using True Suc.prems by (simp add: copy_step)
    also have "\<dots> = Some (on_node p (shifted_up pos n) (on_node p (copy_slot n (Suc n)) s))"
      using Suc by simp
    also have "shifted_up pos n (copy_slot n (Suc n) nd) = shifted_up pos (Suc n) nd" for nd
      using True by (intro maple_node.equality ext) (auto simp: shifted_up_def copy_slot_def le_Suc_eq)
    then have "on_node p (shifted_up pos n) (on_node p (copy_slot n (Suc n)) s) = on_node p (shifted_up pos (Suc n)) s"
      by (simp add: on_node_on_node)
    finally show ?thesis .
  next
    case False
    then show ?thesis by (simp add: shifted_up_id)
  qed
qed

text \<open>With nine entries there is no room: the tenth pivot lies outside the array.\<close>

lemma leaf_insert_full:
  assumes "nr_entries s p = 9" "pos \<le> 9"
  shows "leaf_insert_at p pos vma s = None"
proof (cases "pos < 9")
  case True
  have "leaf_shift_up p pos (Suc 8) s = None"
    unfolding leaf_shift_up.simps(2) using True by (simp add: set_pivot_def get_pivot_def maple_consts)
  then show ?thesis using assms by (simp add: leaf_insert_at_def numeral_eq_Suc)
next
  case False
  then have "leaf_shift_up p pos 9 s = Some s" "pos = 9" using assms(2) by (simp_all add: numeral_eq_Suc)
  then show ?thesis using assms(1) by (simp add: leaf_insert_at_def set_pivot_def maple_consts)
qed

definition shifted_down :: "nat \<Rightarrow> nat \<Rightarrow> maple_node \<Rightarrow> maple_node" where
  "shifted_down i n nd = nd\<lparr>m_pivots := (\<lambda>j. if i \<le> j \<and> j < n then m_pivots nd (j + 1) else m_pivots nd j),
     m_entries := (\<lambda>j. if i \<le> j \<and> j < n then m_entries nd (j + 1) else m_entries nd j)\<rparr>"

lemma leaf_shift_down: "n \<le> 8 \<Longrightarrow> leaf_shift_down p i n s = Some (on_node p (shifted_down i n) s)"
proof (induction "n - i" arbitrary: i s)
  case 0
  then have "shifted_down i n nd = nd" for nd by (intro maple_node.equality ext) (auto simp: shifted_down_def)
  then show ?case using 0 by (subst leaf_shift_down.simps) (simp add: on_node_def)
next
  case (Suc k)
  then have i: "i < n" by simp
  have "leaf_shift_down p i n s = leaf_shift_down p (i + 1) n (on_node p (copy_slot (i + 1) i) s)"
    using i Suc.prems by (subst leaf_shift_down.simps) (simp add: copy_step)
  also have "\<dots> = Some (on_node p (shifted_down (i + 1) n) (on_node p (copy_slot (i + 1) i) s))"
    using Suc by simp
  also have "shifted_down (i + 1) n (copy_slot (i + 1) i nd) = shifted_down i n nd" for nd
    using i by (intro maple_node.equality ext) (auto simp: shifted_down_def copy_slot_def)
  then have "on_node p (shifted_down (i + 1) n) (on_node p (copy_slot (i + 1) i) s) = on_node p (shifted_down i n) s"
    by (simp add: on_node_on_node)
  finally show ?case .
qed

section \<open>The leaf as a list of areas\<close>

definition leaf_is :: "maple_state \<Rightarrow> nat \<Rightarrow> nat list \<Rightarrow> bool" where
  "leaf_is s r vs \<longleftrightarrow> m_leaf (g_node_pool s r) \<noteq> 0 \<and> nr_entries s r = length vs \<and>
     (\<forall>i < length vs. m_entries (g_node_pool s r) i = Some (vs ! i) \<and>
        m_pivots (g_node_pool s r) i = va_start (g_vma_pool s (vs ! i)))"

fun vchain :: "maple_state \<Rightarrow> nat list \<Rightarrow> mptr \<Rightarrow> bool" where
  "vchain s [] h \<longleftrightarrow> h = None"
| "vchain s (v # vs) h \<longleftrightarrow> h = Some v \<and> vchain s vs (g_vma_next s v)"

definition maple_rep :: "maple_state \<Rightarrow> nat \<Rightarrow> nat list \<Rightarrow> nat list \<Rightarrow> bool" where
  "maple_rep s r vs fl \<longleftrightarrow> g_maple_root s = Some r \<and> leaf_is s r vs \<and> length vs \<le> 9 \<and> distinct (vs @ fl) \<and>
     vma_wf (map (g_vma_pool s) vs) \<and> vchain s fl (g_vma_free s) \<and> length fl + length vs = MAPLE_MAX_VMAS \<and>
     g_count s = of_nat (length vs)"

definition maple_inv :: "maple_state \<Rightarrow> bool" where
  "maple_inv s \<longleftrightarrow> (\<exists>r vs fl. maple_rep s r vs fl)"

definition maple_areas :: "maple_state \<Rightarrow> vm_area list" where
  "maple_areas s = (case g_maple_root s of None \<Rightarrow> []
     | Some r \<Rightarrow> map (\<lambda>i. g_vma_pool s (the (m_entries (g_node_pool s r) i))) [0..<nr_entries s r])"

lemma rep_areas: "maple_rep s r vs fl \<Longrightarrow> maple_areas s = map (g_vma_pool s) vs"
  by (auto simp: maple_rep_def maple_areas_def leaf_is_def intro!: nth_equalityI)

lemma vchain_cong: "vchain s vs h \<Longrightarrow> (\<And>v. v \<in> set vs \<Longrightarrow> g_vma_next s' v = g_vma_next s v) \<Longrightarrow> vchain s' vs h"
  by (induction vs arbitrary: h) auto

lemma unat_ucast_8: "unat (ucast w :: u32) = unat w" for w :: u8
proof -
  have "unat w < 2 ^ 8" using unsigned_less [of w] by simp
  then show ?thesis by (simp add: unsigned_ucast_eq take_bit_nat_eq_self unat_lt_2p32)
qed

lemma nr_pred_leaf: "0 < nr_entries s p \<Longrightarrow> nr_pred s p = nr_entries s p - 1"
proof -
  assume "0 < nr_entries s p"
  moreover have u: "unat (ucast (m_nr (g_node_pool s p)) :: u32) = nr_entries s p" by (simp add: nr_entries_def unat_ucast_8)
  ultimately have "(ucast (m_nr (g_node_pool s p)) :: u32) \<noteq> 0" by auto
  then show ?thesis by (simp add: nr_pred_def unat_dec word_greater_zero_iff u)
qed

subsection \<open>Searching the leaf\<close>

lemma leaf_nr:
  assumes leaf: "leaf_is s r vs" and len: "length vs \<le> 9"
  shows "nr_entries s r = length vs"
  using leaf by (simp add: leaf_is_def)

lemma leaf_get:
  assumes leaf: "leaf_is s r vs" and len: "length vs \<le> 9"
  shows "i < length vs \<Longrightarrow> get_entry s r i = Some (Some (vs ! i))"
  "i < length vs \<Longrightarrow> get_pivot s r i = Some (va_start (g_vma_pool s (vs ! i)))"
  using leaf len by (simp_all add: leaf_is_def get_entry_def get_pivot_def maple_consts)

lemma leaf_descend:
  assumes leaf: "leaf_is s r vs" and len: "length vs \<le> 9"
  shows "maple_descend s addr r = Some (Some r)"
  using leaf by (subst maple_descend.simps) (simp add: leaf_is_def)

lemma leaf_overlap:
  assumes leaf: "leaf_is s r vs" and len: "length vs \<le> 9"
  shows "maple_overlap_from s r st en i = Some (list_ex (vma_overlaps st en) (map (g_vma_pool s) (drop i vs)))"
proof (induction "length vs - i" arbitrary: i)
  case 0
  then show ?case by (subst maple_overlap_from.simps) (simp add: leaf_nr [OF leaf len])
next
  case (Suc n)
  then have i: "i < length vs" by simp
  then have "drop i vs = vs ! i # drop (i + 1) vs" by (simp add: Cons_nth_drop_Suc)
  then show ?case
    using Suc.hyps(1) [of "i + 1"] Suc.hyps(2) i
    by (subst maple_overlap_from.simps) (auto simp: leaf_nr [OF leaf len] leaf_get [OF leaf len] vma_overlaps_def)
qed

lemma leaf_find:
  assumes leaf: "leaf_is s r vs" and len: "length vs \<le> 9" and "i \<le> length vs"
  shows "leaf_find_from s r st i =
    Some (i + length (takeWhile (\<lambda>a. va_start a < st) (map (g_vma_pool s) (drop i vs))))"
  using assms(3)
proof (induction "length vs - i" arbitrary: i)
  case 0
  then show ?case by (subst leaf_find_from.simps) (simp add: leaf_nr [OF leaf len])
next
  case (Suc n)
  then have i: "i < length vs" by simp
  then have "drop i vs = vs ! i # drop (i + 1) vs" by (simp add: Cons_nth_drop_Suc)
  then show ?case
    using Suc.hyps(1) [of "i + 1"] Suc.hyps(2) i
    by (subst leaf_find_from.simps) (simp add: leaf_nr [OF leaf len] leaf_get [OF leaf len] not_le)
qed

lemma leaf_search_addr:
  assumes leaf: "leaf_is s r vs" and len: "length vs \<le> 9"
  shows "maple_search_addr s r addr i = Some (vma_spec_find (map (g_vma_pool s) (drop i vs)) addr)"
proof (induction "length vs - i" arbitrary: i)
  case 0
  then show ?case by (subst maple_search_addr.simps) (simp add: leaf_nr [OF leaf len] vma_spec_find_def)
next
  case (Suc n)
  then have i: "i < length vs" by simp
  then have "drop i vs = vs ! i # drop (i + 1) vs" by (simp add: Cons_nth_drop_Suc)
  then show ?case
    using Suc.hyps(1) [of "i + 1"] Suc.hyps(2) i
    by (subst maple_search_addr.simps) (simp add: leaf_nr [OF leaf len] leaf_get [OF leaf len] vma_contains_def vma_spec_find_def)
qed

lemma leaf_search_start:
  assumes leaf: "leaf_is s r vs" and len: "length vs \<le> 9"
  shows "i \<le> length vs \<Longrightarrow> (case maple_search_start s r st i of
      None \<Rightarrow> False
    | Some None \<Rightarrow> \<forall>j. i \<le> j \<longrightarrow> j < length vs \<longrightarrow> va_start (g_vma_pool s (vs ! j)) \<noteq> st
    | Some (Some (j, v)) \<Rightarrow> j < length vs \<and> v = vs ! j \<and> va_start (g_vma_pool s v) = st)"
proof (induction "length vs - i" arbitrary: i)
  case 0
  then show ?case by (subst maple_search_start.simps) (simp add: leaf_nr [OF leaf len])
next
  case (Suc n)
  then have i: "i < length vs" by simp
  show ?case
  proof (cases "va_start (g_vma_pool s (vs ! i)) = st")
    case True
    then show ?thesis using i by (subst maple_search_start.simps) (simp add: leaf_nr [OF leaf len] leaf_get [OF leaf len])
  next
    case False
    then have "maple_search_start s r st i = maple_search_start s r st (i + 1)"
      using i by (subst maple_search_start.simps) (simp add: leaf_nr [OF leaf len] leaf_get [OF leaf len])
    moreover have "\<forall>j. i \<le> j \<longrightarrow> j < length vs \<longrightarrow> va_start (g_vma_pool s (vs ! j)) \<noteq> st"
      if "\<forall>j. i + 1 \<le> j \<longrightarrow> j < length vs \<longrightarrow> va_start (g_vma_pool s (vs ! j)) \<noteq> st"
      using that False by (metis Suc_eq_plus1 Suc_leI le_neq_implies_less)
    moreover have "n = length vs - (i + 1)" "i + 1 \<le> length vs" using Suc.hyps(2) by simp_all
    note Suc.hyps(1) [OF this]
    ultimately show ?thesis by (cases "maple_search_start s r st (i + 1)") (simp_all split: option.split_asm option.split)
  qed
qed

subsection \<open>Changing the leaf\<close>

definition same_areas :: "maple_state \<Rightarrow> maple_state \<Rightarrow> bool" where
  "same_areas s s' \<longleftrightarrow> g_vma_pool s' = g_vma_pool s \<and> g_vma_next s' = g_vma_next s \<and> g_vma_free s' = g_vma_free s \<and>
     g_maple_root s' = g_maple_root s \<and> g_count s' = g_count s"

lemma leaf_insert:
  assumes "leaf_is s r vs" "length vs \<le> 8" "pos \<le> length vs"
  obtains s' where "leaf_insert_at r pos v s = Some s'" "leaf_is s' r (take pos vs @ v # drop pos vs)" "same_areas s s'"
proof -
  let ?nd = "g_node_pool s r" and ?n = "length vs"
  let ?st = "va_start (g_vma_pool s v)"
  define f where "f = (\<lambda>n :: maple_node. let n1 = shifted_up pos ?n n in
    n1\<lparr>m_pivots := (m_pivots n1)(pos := ?st), m_entries := (m_entries n1)(pos := Some v), m_nr := m_nr n1 + 1\<rparr>)"
  have nr: "nr_entries s r = ?n" using assms(1) by (simp add: leaf_is_def)
  have run: "leaf_insert_at r pos v s = Some (on_node r f s)"
    using assms(2,3) by (simp add: leaf_insert_at_def nr leaf_shift_up set_pivot_def set_entry_def maple_consts
      on_node_on_node f_def Let_def)
  have "unat (m_nr ?nd) = ?n" using nr by (simp add: nr_entries_def)
  then have "unat (m_nr ?nd + 1) = Suc ?n" using assms(2) by (subst unat_add_lem [THEN iffD1]) simp_all
  then have nr': "nr_entries (on_node r f s) r = Suc ?n" by (simp add: nr_entries_def f_def Let_def shifted_up_def)
  have at: "(take pos vs @ v # drop pos vs) ! i = (if i < pos then vs ! i else if i = pos then v else vs ! (i - 1))"
    if "i \<le> ?n" for i using that assms(3) by (auto simp: nth_append min_def nth_Cons')
  have "m_entries (f ?nd) i = Some ((take pos vs @ v # drop pos vs) ! i) \<and>
      m_pivots (f ?nd) i = va_start (g_vma_pool s ((take pos vs @ v # drop pos vs) ! i))" if "i \<le> ?n" for i
    unfolding at [OF that] using that assms by (auto simp: f_def Let_def shifted_up_def leaf_is_def)
  moreover have "m_leaf (f ?nd) \<noteq> 0" using assms(1) by (simp add: f_def Let_def shifted_up_def leaf_is_def)
  ultimately have "leaf_is (on_node r f s) r (take pos vs @ v # drop pos vs)"
    using nr' assms(3) by (simp add: leaf_is_def less_Suc_eq_le)
  then show thesis using that run by (simp add: same_areas_def)
qed

lemma leaf_remove:
  assumes "leaf_is s r vs" "length vs \<le> 9" "pos < length vs"
  obtains s' where "leaf_remove_at r pos s = Some s'" "leaf_is s' r (take pos vs @ drop (Suc pos) vs)" "same_areas s s'"
proof -
  let ?nd = "g_node_pool s r" and ?n = "length vs"
  define f where "f = (\<lambda>n :: maple_node. let n1 = shifted_down pos (?n - 1) n in
    n1\<lparr>m_nr := m_nr n1 - 1, m_pivots := (m_pivots n1)(?n - 1 := 0), m_entries := (m_entries n1)(?n - 1 := None)\<rparr>)"
  have nr: "nr_entries s r = ?n" using assms(1) by (simp add: leaf_is_def)
  then have pred: "nr_pred s r = ?n - 1" using nr_pred_leaf [of s r] assms(3) by (cases vs) simp_all
  have u: "unat (m_nr ?nd) = ?n" using nr by (simp add: nr_entries_def)
  then have "m_nr ?nd \<noteq> 0" using assms(3) by auto
  then have dec: "unat (m_nr ?nd - 1) = ?n - 1" using u by (simp add: unat_sub word_le_nat_alt Suc_leI word_greater_zero_iff [symmetric] word_less_nat_alt)
  have run: "leaf_remove_at r pos s = Some (on_node r f s)"
    using assms(2,3) dec by (simp add: leaf_remove_at_def pred leaf_shift_down set_pivot_def set_entry_def maple_consts
      on_node_on_node nr_entries_def shifted_down_def f_def Let_def)
  have nr': "nr_entries (on_node r f s) r = ?n - 1" using dec by (simp add: nr_entries_def f_def Let_def shifted_down_def)
  have at: "(take pos vs @ drop (Suc pos) vs) ! i = (if i < pos then vs ! i else vs ! (i + 1))" if "i < ?n - 1" for i
    using that assms(3) by (auto simp: nth_append min_def)
  have "m_entries (f ?nd) i = Some ((take pos vs @ drop (Suc pos) vs) ! i) \<and>
      m_pivots (f ?nd) i = va_start (g_vma_pool s ((take pos vs @ drop (Suc pos) vs) ! i))" if "i < ?n - 1" for i
    unfolding at [OF that] using that assms by (auto simp: f_def Let_def shifted_down_def leaf_is_def)
  moreover have "m_leaf (f ?nd) \<noteq> 0" using assms(1) by (simp add: f_def Let_def shifted_down_def leaf_is_def)
  moreover have "length (take pos vs @ drop (Suc pos) vs) = ?n - 1" using assms(3) by simp
  ultimately have "leaf_is (on_node r f s) r (take pos vs @ drop (Suc pos) vs)"
    using nr' by (simp add: leaf_is_def)
  then show thesis using that run by (simp add: same_areas_def)
qed

section \<open>Adding and removing\<close>

lemma rep_fresh:
  assumes "maple_rep s r vs fl"
  obtains v fl' where "fl = v # fl'" "g_vma_free s = Some v" "v \<notin> set vs" "v \<notin> set fl'" "vchain s fl' (g_vma_next s v)"
proof -
  have "length fl \<noteq> 0" using assms by (auto simp: maple_rep_def maple_consts)
  then obtain v fl' where "fl = v # fl'" by (cases fl) auto
  then show thesis using that assms by (auto simp: maple_rep_def)
qed

lemma insert_takeWhile:
  fixes f :: "nat \<Rightarrow> vm_area" and x :: vm_area
  assumes "sorted_wrt (\<lambda>a b. va_start a < va_start b) (map f vs)"
  defines "pos \<equiv> length (takeWhile (\<lambda>a. va_start a < va_start x) (map f vs))"
  shows "vma_insert x (map f vs) = take pos (map f vs) @ x # drop pos (map f vs)" "pos \<le> length vs"
proof -
  let ?xs = "map f vs" let ?P = "\<lambda>a. va_start a < va_start x"
  have t: "take pos ?xs = takeWhile ?P ?xs" "drop pos ?xs = dropWhile ?P ?xs"
    by (simp_all add: pos_def takeWhile_eq_take [symmetric] dropWhile_eq_drop [symmetric])
  have "\<not> ?P b" if b: "b \<in> set (dropWhile ?P ?xs)" for b
  proof (cases "dropWhile ?P ?xs")
    case Nil
    have False using b unfolding Nil by simp
    then show ?thesis ..
  next
    case (Cons c cs)
    then have c: "\<not> ?P c" using hd_dropWhile [of ?P ?xs] by simp
    have "sorted_wrt (\<lambda>a b. va_start a < va_start b) (takeWhile ?P ?xs @ dropWhile ?P ?xs)" using assms(1) by simp
    then have "sorted_wrt (\<lambda>a b. va_start a < va_start b) (c # cs)" unfolding sorted_wrt_append Cons by blast
    then have "\<forall>d \<in> set cs. va_start c < va_start d" by simp
    moreover have "b = c \<or> b \<in> set cs" using b unfolding Cons by simp
    ultimately show ?thesis using c by force
  qed
  then have "\<forall>b \<in> set (dropWhile ?P ?xs). \<not> ?P b" by blast
  moreover have "\<forall>b \<in> set (takeWhile ?P ?xs). ?P b" by (meson set_takeWhileD)
  ultimately have "vma_insert x (takeWhile ?P ?xs @ dropWhile ?P ?xs) = takeWhile ?P ?xs @ x # dropWhile ?P ?xs"
    by (intro vma_insert_append)
  then show "vma_insert x ?xs = take pos ?xs @ x # drop pos ?xs" unfolding t by simp
  show "pos \<le> length vs" unfolding pos_def using length_takeWhile_le [of ?P ?xs] by simp
qed

lemma maple_add_ok:
  fixes st en flags :: u32 and nm :: "string option"
  assumes rep: "maple_rep s r vs fl"
  defines "spec \<equiv> vma_spec_add MAPLE_MAX_VMAS (map (g_vma_pool s) vs) st en flags nm"
  shows "if length (snd spec) \<le> 9
    then \<exists>s' vs' fl'. maple_add s st en flags nm = Some (fst spec, s') \<and> maple_rep s' r vs' fl' \<and> map (g_vma_pool s') vs' = snd spec
    else maple_add s st en flags nm = None"
proof -
  note R = rep [unfolded maple_rep_def]
  let ?xs = "map (g_vma_pool s) vs"
  have leaf: "leaf_is s r vs" and len: "length vs \<le> 9" and root: "g_maple_root s = Some r" using R by blast+
  have cnt: "\<not> of_nat MAPLE_MAX_VMAS \<le> g_count s"
    using R by (simp add: maple_consts word_le_nat_alt unat_of_nat)
  have cap: "\<not> MAPLE_MAX_VMAS \<le> length ?xs" using len by (simp add: maple_consts)
  have range: "\<not> (en \<le> st \<or> st AND 0xFFF \<noteq> 0 \<or> en AND 0xFFF \<noteq> 0) \<longleftrightarrow> vma_range_ok st en"
    by (auto simp: vma_range_ok_def page_aligned_def)
  show ?thesis
  proof (cases "vma_range_ok st en \<and> \<not> list_ex (vma_overlaps st en) ?xs")
    case False
    then have spec: "spec = (- 1, ?xs)" using cap by (auto simp: spec_def vma_spec_add_def)
    have "maple_add s st en flags nm = Some (- 1, s)"
      using False range cnt leaf_overlap [OF leaf len, of st en 0]
      by (auto simp: maple_add_def root leaf_descend [OF leaf len] not_le)
    then show ?thesis using rep len spec by auto
  next
    case True
    note acc = True
    let ?new = "mk_area st en flags nm"
    have spec: "spec = (0, vma_insert ?new ?xs)" using True cap by (auto simp: spec_def vma_spec_add_def)
    obtain v fl' where v: "fl = v # fl'" "g_vma_free s = Some v" "v \<notin> set vs" "v \<notin> set fl'" "vchain s fl' (g_vma_next s v)"
      using rep_fresh [OF rep] .
    define s2 where "s2 = s\<lparr>g_vma_free := g_vma_next s v, g_vma_pool := (g_vma_pool s)(v := ?new)\<rparr>"
    have same: "map (g_vma_pool s2) vs = ?xs" using v(3) by (auto simp: s2_def)
    have leaf2: "leaf_is s2 r vs"
      using leaf v(3) unfolding leaf_is_def by (auto simp: s2_def nr_entries_def)
    define pos where "pos = length (takeWhile (\<lambda>a. va_start a < va_start ?new) ?xs)"
    have sorted: "sorted_wrt (\<lambda>a b. va_start a < va_start b) ?xs" using R vma_wf_starts_sorted by blast
    note ins = insert_takeWhile [OF sorted, of ?new, folded pos_def]
    have nr2: "nr_entries s2 r = length vs" using leaf2 by (simp add: leaf_is_def)
    have find: "leaf_find_slot s2 r st = Some pos"
      using leaf_find [OF leaf2 len, of 0 st] same by (simp add: leaf_find_slot_def pos_def)
    have run: "maple_add s st en flags nm =
        do { s3 \<leftarrow> leaf_insert_at r pos v s2; Some (0, s3\<lparr>g_count := g_count s3 + 1\<rparr>) }"
    proof -
      have ok: "\<not> en \<le> st" "st AND 0xFFF = 0" "en AND 0xFFF = 0" using True range by auto
      have "maple_overlap_from s r st en 0 = Some False" using True leaf_overlap [OF leaf len, of st en 0] by simp
      moreover have "vma_alloc s = (Some v, s\<lparr>g_vma_free := g_vma_next s v, g_vma_pool := (g_vma_pool s)(v := mk_area 0 0 0 None)\<rparr>)"
        using v(2) by (simp add: vma_alloc_def)
      moreover have "s\<lparr>g_vma_free := g_vma_next s v, g_vma_pool := (g_vma_pool s)(v := mk_area 0 0 0 None),
          g_vma_pool := ((g_vma_pool s)(v := mk_area 0 0 0 None))(v := ?new)\<rparr> = s2" by (simp add: s2_def)
      moreover have "length vs < MAPLE_NODE_SLOTS" using len by (simp add: maple_consts)
      ultimately show ?thesis
        using cnt ok find nr2 by (simp add: maple_add_def root leaf_descend [OF leaf len])
    qed
    show ?thesis
    proof (cases "length vs = 9")
      case True
      then have "leaf_insert_at r pos v s2 = None" using leaf_insert_full [of s2 r pos v] nr2 ins(2) by simp
      then show ?thesis using True run spec by simp
    next
      case False
      then have "length vs \<le> 8" using len by simp
      then obtain s3 where s3: "leaf_insert_at r pos v s2 = Some s3" "leaf_is s3 r (take pos vs @ v # drop pos vs)" "same_areas s2 s3"
        using leaf_insert [OF leaf2 _ ins(2)] by metis
      let ?vs' = "take pos vs @ v # drop pos vs" and ?s' = "s3\<lparr>g_count := g_count s3 + 1\<rparr>"
      have cells: "g_vma_pool ?s' = (g_vma_pool s)(v := ?new)" using s3(3) by (simp add: same_areas_def s2_def)
      have "map (g_vma_pool ?s') ?vs' = take pos (map (g_vma_pool s2) vs) @ ?new # drop pos (map (g_vma_pool s2) vs)"
        unfolding cells by (simp add: take_map drop_map s2_def)
      then have areas: "map (g_vma_pool ?s') ?vs' = vma_insert ?new ?xs" unfolding same ins(1) .
      have "vma_wf (vma_insert ?new ?xs)" using acc R by (intro vma_wf_insert) auto
      moreover have "distinct (?vs' @ fl')"
      proof -
        have "set ?vs' = insert v (set vs)" by (metis append_take_drop_id list.simps(15) set_append Un_insert_right)
        moreover have "distinct ?vs'" using v(3) R
          by (simp, metis append_take_drop_id distinct_append in_set_dropD in_set_takeD)
        ultimately show ?thesis using R v(1,4) by auto
      qed
      moreover have "vchain ?s' fl' (g_vma_free ?s')"
      proof -
        have "g_vma_free ?s' = g_vma_next s v" "g_vma_next ?s' = g_vma_next s" using s3(3) by (simp_all add: same_areas_def s2_def)
        then show ?thesis using vchain_cong [OF v(5), of ?s'] by simp
      qed
      moreover have "length ?vs' = Suc (length vs)" using ins(2) by simp
      moreover have "g_count ?s' = of_nat (Suc (length vs))" using s3(3) R by (simp add: same_areas_def s2_def)
      moreover have "leaf_is ?s' r ?vs'" using s3(2) by (simp add: leaf_is_def nr_entries_def)
      moreover have "g_maple_root ?s' = Some r" using s3(3) root by (simp add: same_areas_def s2_def)
      ultimately have fin: "maple_rep ?s' r ?vs' fl'"
        unfolding maple_rep_def areas using \<open>length vs \<le> 8\<close> R v(1) by (simp only:) simp
      have res: "maple_add s st en flags nm = Some (fst spec, ?s')" using run s3(1) spec by simp
      have lst: "map (g_vma_pool ?s') ?vs' = snd spec" unfolding areas spec by simp
      have len9: "length (snd spec) \<le> 9" using spec \<open>length vs \<le> 8\<close> by simp
      show ?thesis
        unfolding if_P [OF len9] by (intro exI [of _ ?s'] exI [of _ ?vs'] exI [of _ fl'] conjI res fin lst)
    qed
  qed
qed

lemma filter_start:
  fixes f :: "nat \<Rightarrow> vm_area"
  assumes "sorted_wrt (\<lambda>a b. va_start a < va_start b) (map f vs)" "i < length vs"
  shows "filter (\<lambda>a. va_start a \<noteq> va_start (f (vs ! i))) (map f vs) = map f (take i vs @ drop (Suc i) vs)"
proof -
  have "va_start (f (vs ! j)) \<noteq> va_start (f (vs ! i))" if "j < length vs" "j \<noteq> i" for j
  proof (cases "j < i")
    case True
    then show ?thesis using sorted_wrt_nth_less [OF assms(1) True] assms(2) by auto
  next
    case False
    then have "i < j" using that(2) by simp
    then show ?thesis using sorted_wrt_nth_less [OF assms(1) \<open>i < j\<close>] that(1) by auto
  qed
  then have "\<forall>x \<in> set (take i vs). va_start (f x) \<noteq> va_start (f (vs ! i))"
    "\<forall>x \<in> set (drop (Suc i) vs). va_start (f x) \<noteq> va_start (f (vs ! i))"
    using assms(2) by (auto simp: in_set_conv_nth)
  then have "filter (\<lambda>x. va_start (f x) \<noteq> va_start (f (vs ! i))) (take i vs @ vs ! i # drop (Suc i) vs) =
      take i vs @ drop (Suc i) vs" by simp
  then show ?thesis using assms(2) by (simp add: filter_map o_def id_take_nth_drop [symmetric])
qed

lemma maple_remove_ok:
  assumes rep: "maple_rep s r vs fl"
  shows "\<exists>s' vs' fl'. maple_remove s st = Some (fst (vma_spec_remove (map (g_vma_pool s) vs) st), s') \<and> maple_rep s' r vs' fl' \<and>
    map (g_vma_pool s') vs' = snd (vma_spec_remove (map (g_vma_pool s) vs) st)"
proof -
  note R = rep [unfolded maple_rep_def]
  let ?xs = "map (g_vma_pool s) vs"
  have leaf: "leaf_is s r vs" and len: "length vs \<le> 9" and root: "g_maple_root s = Some r" using R by blast+
  note search = leaf_search_start [OF leaf len, of 0 st]
  obtain hit where hit: "maple_search_start s r st 0 = Some hit" using search by (cases "maple_search_start s r st 0") auto
  show ?thesis
  proof (cases hit)
    case None
    then have "\<forall>j < length vs. va_start (g_vma_pool s (vs ! j)) \<noteq> st" using search hit by simp
    then have "\<not> list_ex (\<lambda>a. va_start a = st) ?xs" by (auto simp: list_ex_iff in_set_conv_nth)
    moreover have "maple_remove s st = Some (- 1, s)"
      using hit None by (simp add: maple_remove_def root leaf_descend [OF leaf len])
    ultimately show ?thesis using rep by (auto simp: vma_spec_remove_def)
  next
    case (Some iv)
    then obtain i v where iv: "hit = Some (i, v)" by (cases iv) auto
    then have v: "i < length vs" "v = vs ! i" "va_start (g_vma_pool s v) = st" using search hit by auto
    have "va_start (?xs ! i) = st" "?xs ! i \<in> set ?xs" using v by simp_all
    then have "list_ex (\<lambda>a. va_start a = st) ?xs" by (auto simp: list_ex_iff)
    then have spec: "vma_spec_remove ?xs st = (0, filter (\<lambda>a. va_start a \<noteq> st) ?xs)" by (simp add: vma_spec_remove_def)
    define s1 where "s1 = vma_free_entry v s"
    have leaf1: "leaf_is s1 r vs" using leaf by (simp add: leaf_is_def s1_def vma_free_entry_def nr_entries_def)
    from leaf_remove [OF leaf1 len v(1)] obtain s2 where s2: "leaf_remove_at r i s1 = Some s2"
      "leaf_is s2 r (take i vs @ drop (Suc i) vs)" "same_areas s1 s2" .
    let ?vs' = "take i vs @ drop (Suc i) vs" and ?s' = "s2\<lparr>g_count := g_count s2 - 1\<rparr>"
    have run: "maple_remove s st = Some (0, ?s')"
      using hit iv s2(1) by (simp add: maple_remove_def root leaf_descend [OF leaf len] s1_def)
    have cells: "g_vma_pool ?s' = g_vma_pool s" using s2(3) by (simp add: same_areas_def s1_def vma_free_entry_def)
    have sorted: "sorted_wrt (\<lambda>a b. va_start a < va_start b) ?xs" using R vma_wf_starts_sorted by blast
    have areas: "map (g_vma_pool ?s') ?vs' = filter (\<lambda>a. va_start a \<noteq> st) ?xs"
      unfolding cells filter_start [OF sorted v(1), folded v(2), unfolded v(3)] ..
    have split: "vs = take i vs @ v # drop (Suc i) vs" using v(1,2) by (simp add: id_take_nth_drop)
    have dist: "distinct ((take i vs @ v # drop (Suc i) vs) @ fl)" using R split by metis
    then have vfl: "v \<notin> set fl" "distinct (?vs' @ v # fl)" by auto
    moreover have "vchain ?s' (v # fl) (g_vma_free ?s')"
    proof -
      have "g_vma_free ?s' = Some v" "g_vma_next ?s' = (g_vma_next s)(v := g_vma_free s)"
        using s2(3) by (simp_all add: same_areas_def s1_def vma_free_entry_def)
      moreover have "vchain ?s' fl (g_vma_free s)"
        by (rule vchain_cong [of s]) (use R vfl(1) calculation in auto)
      ultimately show ?thesis by simp
    qed
    moreover have "length ?vs' = length vs - 1" using v(1) by simp
    moreover have "g_count ?s' = of_nat (length vs - 1)"
      using s2(3) R v(1) by (simp add: same_areas_def s1_def vma_free_entry_def of_nat_diff Suc_leI)
    moreover have "leaf_is ?s' r ?vs'" using s2(2) by (simp add: leaf_is_def nr_entries_def)
    moreover have "g_maple_root ?s' = Some r" using s2(3) root by (simp add: same_areas_def s1_def vma_free_entry_def)
    moreover have "vma_wf (map (g_vma_pool ?s') ?vs')" unfolding areas using R vma_wf_filter by blast
    ultimately have fin: "maple_rep ?s' r ?vs' (v # fl)"
      unfolding maple_rep_def using R len v(1) by (simp only:) simp
    show ?thesis
      unfolding spec using run fin areas by (intro exI [of _ ?s'] exI [of _ ?vs'] exI [of _ "v # fl"]) simp
  qed
qed

lemma maple_find_ok:
  assumes "maple_rep s r vs fl"
  shows "maple_find s addr = Some (vma_spec_find (map (g_vma_pool s) vs) addr)"
proof -
  note R = assms [unfolded maple_rep_def]
  have leaf: "leaf_is s r vs" and len: "length vs \<le> 9" and root: "g_maple_root s = Some r" using R by blast+
  show ?thesis
    using leaf_search_addr [OF leaf len, of addr 0] by (simp add: maple_find_def root leaf_descend [OF leaf len])
qed

section \<open>Initialisation\<close>

lemma vchain_upt: "(\<And>i. a \<le> i \<Longrightarrow> i < n \<Longrightarrow> g_vma_next s i = (if Suc i < n then Some (Suc i) else None)) \<Longrightarrow> a < n \<Longrightarrow>
    vchain s [a..<n] (Some a)"
proof (induction "n - a" arbitrary: a)
  case (Suc k)
  have up: "[a..<n] = a # [Suc a..<n]" using Suc.prems(2) by (rule upt_conv_Cons)
  show ?case
  proof (cases "Suc a < n")
    case True
    have "vchain s [Suc a..<n] (Some (Suc a))" using Suc True by auto
    then show ?thesis using Suc.prems True by (simp add: up)
  next
    case False
    then have "[Suc a..<n] = []" by simp
    then show ?thesis using Suc.prems False by (simp add: up)
  qed
qed simp

lemma fold_next: "fold (\<lambda>i s. s\<lparr>g_vma_next := (g_vma_next s)(i := Some (i + 1))\<rparr>) [0..<n] s =
    s\<lparr>g_vma_next := (\<lambda>i. if i < n then Some (Suc i) else g_vma_next s i)\<rparr>"
  by (induction n) (auto simp: fun_eq_iff less_Suc_eq)

lemma fold_parent: "\<exists>np. fold (\<lambda>i. on_node i (\<lambda>n. n\<lparr>m_parent := Some (i + 1)\<rparr>)) [0..<n] s = s\<lparr>g_node_pool := np\<rparr>"
proof (induction n)
  case 0
  then show ?case by (intro exI [of _ "g_node_pool s"]) simp
next
  case (Suc n)
  then obtain np where "fold (\<lambda>i. on_node i (\<lambda>n. n\<lparr>m_parent := Some (i + 1)\<rparr>)) [0..<n] s = s\<lparr>g_node_pool := np\<rparr>" by blast
  then show ?case by (simp, simp add: on_node_def) blast
qed

lemma maple_init_rep: "maple_rep (maple_init s) 0 [] [0..<MAPLE_MAX_VMAS]"
proof -
  obtain np where np: "node_pool_init s = s\<lparr>g_node_free := Some 0, g_node_pool := np\<rparr>"
    using fold_parent [of "MAPLE_MAX_NODES - 1" "s\<lparr>g_node_free := Some 0\<rparr>"]
    by (auto simp: node_pool_init_def Let_def on_node_def)
  define nx where "nx = (\<lambda>i. if Suc i < MAPLE_MAX_VMAS then Some (Suc i) else if i = MAPLE_MAX_VMAS - 1 then None else g_vma_next s i)"
  have pools: "vma_pool_init (node_pool_init s) = s\<lparr>g_node_free := Some 0, g_node_pool := np, g_vma_free := Some 0, g_vma_next := nx\<rparr>"
    unfolding vma_pool_init_def Let_def np by (subst fold_next, subst fold_next) (auto simp: nx_def fun_eq_iff less_diff_conv)
  have init: "g_maple_root (maple_init s) = Some 0" "g_vma_free (maple_init s) = Some 0" "g_vma_next (maple_init s) = nx"
    "g_count (maple_init s) = 0" "m_leaf (g_node_pool (maple_init s) 0) = 1" "m_nr (g_node_pool (maple_init s) 0) = 0"
    unfolding maple_init_def node_alloc_def pools Let_def by simp_all
  have "vchain (maple_init s) [0..<MAPLE_MAX_VMAS] (Some 0)"
    by (rule vchain_upt) (auto simp: init(3) nx_def maple_consts)
  then show ?thesis
    using init by (simp add: maple_rep_def leaf_is_def nr_entries_def maple_consts del: upt_rec_numeral)
qed

section \<open>Properties\<close>

text \<open>The number of areas along a run of the specification stays within \<open>n\<close>.\<close>

fun within :: "nat \<Rightarrow> vm_area list \<Rightarrow> vma_call list \<Rightarrow> bool" where
  "within n xs [] \<longleftrightarrow> True"
| "within n xs (c # cs) \<longleftrightarrow> (let xs' = snd (vma_spec_call MAPLE_MAX_VMAS xs c) in length xs' \<le> n \<and> within n xs' cs)"

lemma maple_call:
  assumes "maple_inv s" "length (snd (vma_spec_call MAPLE_MAX_VMAS (maple_areas s) c)) \<le> 9"
  shows "\<exists>s'. ops_call maple_ops (Some s) c = (fst (vma_spec_call MAPLE_MAX_VMAS (maple_areas s) c), Some s') \<and> maple_inv s' \<and>
    maple_areas s' = snd (vma_spec_call MAPLE_MAX_VMAS (maple_areas s) c)"
proof -
  obtain r vs fl where rep: "maple_rep s r vs fl" using assms(1) by (auto simp: maple_inv_def)
  note areas = rep_areas [OF rep]
  show ?thesis
  proof (cases c)
    case (Call_Add st en flags nm)
    from maple_add_ok [OF rep, of st en flags nm] assms(2) Call_Add obtain s' vs' fl' where
      "maple_add s st en flags nm = Some (fst (vma_spec_add MAPLE_MAX_VMAS (maple_areas s) st en flags nm), s')"
      "maple_rep s' r vs' fl'" "map (g_vma_pool s') vs' = snd (vma_spec_add MAPLE_MAX_VMAS (maple_areas s) st en flags nm)"
      unfolding areas by auto
    then show ?thesis using Call_Add rep_areas [of s' r vs' fl']
      by (auto simp: ops_call_def maple_ops_def maple_step_def maple_inv_def prod.case_eq_if map_prod_def)
  next
    case (Call_Remove st)
    from maple_remove_ok [OF rep, of st] obtain s' vs' fl' where
      "maple_remove s st = Some (fst (vma_spec_remove (maple_areas s) st), s')"
      "maple_rep s' r vs' fl'" "map (g_vma_pool s') vs' = snd (vma_spec_remove (maple_areas s) st)"
      unfolding areas by auto
    then show ?thesis using Call_Remove rep_areas [of s' r vs' fl']
      by (auto simp: ops_call_def maple_ops_def maple_step_def maple_inv_def prod.case_eq_if map_prod_def)
  next
    case (Call_Find addr)
    then show ?thesis using maple_find_ok [OF rep, of addr] assms(1) areas
      by (auto simp: ops_call_def maple_ops_def)
  next
    case Call_Count
    have "unat (g_count s) = length vs" using rep by (simp add: maple_rep_def unat_of_nat)
    then show ?thesis using Call_Count assms(1) areas
      by (auto simp: ops_call_def maple_ops_def maple_count_def)
  qed
qed

lemma maple_run:
  "maple_inv s \<Longrightarrow> within 9 (maple_areas s) cs \<Longrightarrow>
    run_calls (ops_call maple_ops) (Some s) cs = run_calls (vma_spec_call MAPLE_MAX_VMAS) (maple_areas s) cs"
proof (induction cs arbitrary: s)
  case (Cons c cs)
  obtain r xs where c: "vma_spec_call MAPLE_MAX_VMAS (maple_areas s) c = (r, xs)"
    by (cases "vma_spec_call MAPLE_MAX_VMAS (maple_areas s) c")
  with maple_call [OF Cons.prems(1), of c] Cons.prems(2) obtain s' where
    "ops_call maple_ops (Some s) c = (r, Some s')" "maple_inv s'" "maple_areas s' = xs" by (auto simp: Let_def)
  then show ?case using c Cons by (simp add: Let_def)
qed simp

text \<open>C9. With the maple tree behind the public interface, every sequence of calls during which at most nine
  areas exist at any time is answered as the specification answers it.\<close>

theorem maple_refines_nine_areas:
  assumes "vma_data v \<noteq> None" "within 9 [] cs"
  shows "run_calls vma_dispatch_call (vma_init (vma_register_backend (Some maple_ops) v)) cs =
    run_calls (vma_spec_call MAPLE_MAX_VMAS) [] cs"
proof -
  obtain s0 where s0: "vma_data v = Some s0" using assms(1) by auto
  have rep: "maple_rep (maple_init s0) 0 [] [0..<MAPLE_MAX_VMAS]" by (rule maple_init_rep)
  then have "maple_inv (maple_init s0)" "maple_areas (maple_init s0) = []"
    using rep_areas [OF rep] by (auto simp: maple_inv_def)
  moreover have "vo_init maple_ops (vma_data v) = Some (maple_init s0)" by (simp add: maple_ops_def s0)
  ultimately show ?thesis unfolding vma_registered_run using maple_run assms(2) by metis
qed

definition sample_maple :: maple_state where
  "sample_maple = \<lparr>g_node_pool = (\<lambda>_. \<lparr>m_pivots = (\<lambda>_. 0), m_nr = 0, m_leaf = 0, m_parent = None, m_entries = (\<lambda>_. None)\<rparr>),
     g_node_free = None, g_vma_pool = (\<lambda>_. mk_area 0 0 0 None), g_vma_next = (\<lambda>_. None), g_vma_free = None,
     g_maple_root = None, g_count = 0\<rparr>"

theorem maple_refines_nine_areas_witness:
  "run_calls vma_dispatch_call (vma_init (vma_register_backend (Some maple_ops)
      \<lparr>g_vma_ops = None, g_vma_ready = False, vma_data = Some sample_maple\<rparr>))
     [Call_Add 0x3000 0x5000 1 None, Call_Add 0x1000 0x2000 3 None, Call_Add 0x4000 0x6000 1 None,
      Call_Find 0x4FFF, Call_Remove 0x1000, Call_Count] =
   [Reply_Int 0, Reply_Int 0, Reply_Int (- 1), Reply_Area (Some (mk_area 0x3000 0x5000 1 None)),
    Reply_Int 0, Reply_Unsigned 1]"
  by (subst maple_refines_nine_areas)
    (simp_all add: MAPLE_MAX_VMAS_def vma_spec_add_def vma_range_ok_def
      page_aligned_def vma_overlaps_def vma_spec_find_def vma_contains_def vma_spec_remove_def)

text \<open>C25. An add is undefined exactly when it would make a tenth area: the leaf has slots for ten areas but
  an array of nine pivots, and the tenth pivot is written past its end.\<close>

theorem maple_tenth_area_undefined:
  assumes "maple_inv s"
  shows "maple_add s st en flags nm = None \<longleftrightarrow>
    length (maple_areas s) = 9 \<and> vma_range_ok st en \<and> \<not> list_ex (vma_overlaps st en) (maple_areas s)"
proof -
  obtain r vs fl where rep: "maple_rep s r vs fl" using assms by (auto simp: maple_inv_def)
  have len: "length (maple_areas s) \<le> 9" using rep rep_areas [OF rep] by (simp add: maple_rep_def)
  then have "length (snd (vma_spec_add MAPLE_MAX_VMAS (maple_areas s) st en flags nm)) \<le> 9 \<longleftrightarrow>
      \<not> (length (maple_areas s) = 9 \<and> vma_range_ok st en \<and> \<not> list_ex (vma_overlaps st en) (maple_areas s))"
    by (auto simp: vma_spec_add_def maple_consts)
  then show ?thesis using maple_add_ok [OF rep, of st en flags nm] unfolding rep_areas [OF rep, symmetric]
    by (auto split: if_splits)
qed

text \<open>The state with the areas \<open>xs\<close> in slots 0, 1, \<open>\<dots>\<close>\<close>

definition maple_with :: "vm_area list \<Rightarrow> maple_state" where
  "maple_with xs = \<lparr>g_node_pool = (\<lambda>_. \<lparr>m_pivots = (\<lambda>i. va_start (xs ! i)), m_nr = of_nat (length xs), m_leaf = 1,
       m_parent = None, m_entries = (\<lambda>i. if i < length xs then Some i else None)\<rparr>),
     g_node_free = Some 1, g_vma_pool = (\<lambda>i. xs ! i),
     g_vma_next = (\<lambda>i. if Suc i < MAPLE_MAX_VMAS then Some (Suc i) else None), g_vma_free = Some (length xs),
     g_maple_root = Some 0, g_count = of_nat (length xs)\<rparr>"

lemma maple_with_inv:
  assumes "vma_wf xs" "length xs \<le> 9"
  shows "maple_inv (maple_with xs)" "maple_areas (maple_with xs) = xs"
proof -
  let ?s = "maple_with xs"
  have cells: "map (g_vma_pool ?s) [0..<length xs] = xs" by (simp add: maple_with_def map_nth)
  have "unat (of_nat (length xs) :: u8) = length xs" using assms(2) by (simp add: unat_of_nat)
  then have "leaf_is ?s 0 [0..<length xs]" by (simp add: leaf_is_def maple_with_def nr_entries_def)
  moreover have "vchain ?s [length xs..<MAPLE_MAX_VMAS] (Some (length xs))"
    using assms(2) by (intro vchain_upt) (auto simp: maple_with_def maple_consts)
  moreover have "distinct ([0..<length xs] @ [length xs..<MAPLE_MAX_VMAS])" by auto
  moreover have "length [length xs..<MAPLE_MAX_VMAS] + length [0..<length xs] = MAPLE_MAX_VMAS"
    using assms(2) by (simp add: maple_consts del: upt_rec_numeral)
  moreover have "g_vma_free ?s = Some (length xs)" "g_maple_root ?s = Some 0" "g_count ?s = of_nat (length xs)"
    by (simp_all add: maple_with_def)
  ultimately have rep: "maple_rep ?s 0 [0..<length xs] [length xs..<MAPLE_MAX_VMAS]"
    using assms unfolding maple_rep_def cells by simp
  then show "maple_inv ?s" by (auto simp: maple_inv_def)
  show "maple_areas ?s = xs" using rep_areas [OF rep] cells by simp
qed

theorem maple_tenth_area_undefined_witness:
  "maple_add (maple_with (map (\<lambda>i. mk_area (of_nat i * 0x1000) (of_nat i * 0x1000 + 0x1000) 1 None) [1..<10]))
     0x20000 0x21000 3 None = None"
proof -
  let ?xs = "map (\<lambda>i. mk_area (of_nat i * 0x1000) (of_nat i * 0x1000 + 0x1000) 1 None) [1..<10]"
  have "vma_wf ?xs" by (simp add: vma_wf_def vma_range_ok_def page_aligned_def upt_rec)
  then show ?thesis
    using maple_tenth_area_undefined [OF maple_with_inv(1) [of ?xs], of "0x20000" "0x21000" 3 None] maple_with_inv(2) [of ?xs]
    by (simp add: vma_range_ok_def page_aligned_def upt_rec vma_overlaps_def)
qed

end
