(* ===== verification/Phys_Mem.thy ===== *)
theory Phys_Mem
  imports Prelude
begin

text \<open>
  Memory as the CPU addresses it: a function from 32-bit virtual addresses to bytes. The 32-bit
  and 64-bit accesses are little-endian, as on the i386, and their addresses wrap around. The
  direct map of \<open>vmm.h\<close> places physical address \<open>p\<close> at \<open>p + KERNEL_VIRT_OFFSET\<close>.
\<close>

type_synonym memory = "u32 \<Rightarrow> u8"

definition KERNEL_VIRT_OFFSET :: u32 where "KERNEL_VIRT_OFFSET = 0xC0000000"

definition PHYS_TO_VIRT :: "u32 \<Rightarrow> u32" where
  "PHYS_TO_VIRT paddr = paddr + KERNEL_VIRT_OFFSET"

definition VIRT_TO_PHYS :: "u32 \<Rightarrow> u32" where
  "VIRT_TO_PHYS vaddr = vaddr - KERNEL_VIRT_OFFSET"

lemma VIRT_TO_PHYS_PHYS_TO_VIRT [simp]: "VIRT_TO_PHYS (PHYS_TO_VIRT p) = p"
  by (simp add: VIRT_TO_PHYS_def PHYS_TO_VIRT_def)

lemma PHYS_TO_VIRT_VIRT_TO_PHYS [simp]: "PHYS_TO_VIRT (VIRT_TO_PHYS v) = v"
  by (simp add: VIRT_TO_PHYS_def PHYS_TO_VIRT_def)

definition rd32 :: "memory \<Rightarrow> u32 \<Rightarrow> u32" where
  "rd32 m a = ucast (m a) OR push_bit 8 (ucast (m (a + 1))) OR
     push_bit 16 (ucast (m (a + 2))) OR push_bit 24 (ucast (m (a + 3)))"

definition wr32 :: "memory \<Rightarrow> u32 \<Rightarrow> u32 \<Rightarrow> memory" where
  "wr32 m a v = m(a := ucast v, a + 1 := ucast (drop_bit 8 v),
     a + 2 := ucast (drop_bit 16 v), a + 3 := ucast (drop_bit 24 v))"

definition rd64 :: "memory \<Rightarrow> u32 \<Rightarrow> u64" where
  "rd64 m a = ucast (rd32 m a) OR push_bit 32 (ucast (rd32 m (a + 4)))"

lemma byte_offsets: "(a :: u32) + 1 \<noteq> a" "a + 2 \<noteq> a" "a + 3 \<noteq> a" "a + 2 \<noteq> a + 1" "a + 3 \<noteq> a + 1" "a + 3 \<noteq> a + 2"
  by simp_all

lemma word32_bytes: "(ucast (ucast v :: u8) :: u32) OR push_bit 8 (ucast (ucast (drop_bit 8 v) :: u8)) OR
    push_bit 16 (ucast (ucast (drop_bit 16 v) :: u8)) OR push_bit 24 (ucast (ucast (drop_bit 24 v) :: u8)) = v"
  for v :: u32
proof (rule bit_word_eqI)
  fix n assume "n < LENGTH(32)"
  then consider "n < 8" | "8 \<le> n" "n < 16" | "16 \<le> n" "n < 24" | "24 \<le> n" "n < 32" by force
  then show "bit ((ucast (ucast v :: u8) :: u32) OR push_bit 8 (ucast (ucast (drop_bit 8 v) :: u8)) OR
      push_bit 16 (ucast (ucast (drop_bit 16 v) :: u8)) OR push_bit 24 (ucast (ucast (drop_bit 24 v) :: u8))) n = bit v n"
    by cases (simp_all add: bit_or_iff bit_push_bit_iff bit_ucast_iff bit_drop_bit_eq less_diff_conv2)
qed

lemma rd32_wr32_same [simp]: "rd32 (wr32 m a v) a = v"
  by (simp add: rd32_def wr32_def byte_offsets word32_bytes)

text \<open>A word written four bytes or more away is not disturbed.\<close>

lemma rd32_wr32_other:
  assumes "4 \<le> unat (a - b)" "4 \<le> unat (b - a)"
  shows "rd32 (wr32 m b v) a = rd32 m a"
proof -
  have ne: "a + k \<noteq> b + l" if "unat k < 4" "unat l < 4" for k l
  proof
    assume "a + k = b + l"
    then have "a - b = l - k" "b - a = k - l" by (simp_all add: algebra_simps)
    moreover have "unat (l - k) < 4 \<or> unat (k - l) < 4"
      using that by (cases "k \<le> l") (auto simp: unat_sub)
    ultimately show False using assms by auto
  qed
  have "a + k \<noteq> b \<and> a + k \<noteq> b + 1 \<and> a + k \<noteq> b + 2 \<and> a + k \<noteq> b + 3" if "unat k < 4" for k
    using ne [OF that, of 0] ne [OF that, of 1] ne [OF that, of 2] ne [OF that, of 3] by simp
  from this [of 0] this [of 1] this [of 2] this [of 3]
  show ?thesis by (simp add: rd32_def wr32_def)
qed

end
