(* ===== verification/Pmm.thy ===== *)
theory Pmm
  imports Phys_Mem "HOL-Library.Disjoint_Sets"
begin

text \<open>
  The physical page allocator's public interface: the table of function pointers of \<open>pmm.h\<close>, the
  dispatch layer \<open>pmm.c\<close>, and the contract every back-end is held to. Physical addresses are
  32-bit words and the null pointer is \<open>0\<close>.
\<close>

definition PMM_PAGE_SIZE :: u32 where "PMM_PAGE_SIZE = 4096"

section \<open>The table of a back-end and the dispatch layer\<close>

text \<open>The pointers the dispatch layer tests for \<open>NULL\<close> are options; \<open>po_init\<close> is \<open>None\<close> on a state
  where the back-end's initialisation does not return.\<close>

record 's pmm_ops =
  po_name :: string
  po_init :: "'s \<Rightarrow> 's option"
  po_alloc_page :: "('s \<Rightarrow> u32 \<times> 's) option"
  po_free_page :: "(u32 \<Rightarrow> 's \<Rightarrow> 's) option"
  po_total_pages :: "('s \<Rightarrow> u32) option"
  po_free_pages :: "('s \<Rightarrow> u32) option"
  po_managed_base :: "('s \<Rightarrow> u32) option"
  po_page_addr :: "('s \<Rightarrow> u32 \<Rightarrow> u32) option"
  po_page_is_used :: "('s \<Rightarrow> u32 \<Rightarrow> int) option"

record 's pmm_state =
  g_pmm_ops :: "'s pmm_ops option"
  pmm_data :: 's

definition pmm_register_backend :: "'s pmm_ops option \<Rightarrow> 's pmm_state \<Rightarrow> 's pmm_state" where
  "pmm_register_backend ops st = st\<lparr>g_pmm_ops := ops\<rparr>"

definition pmm_backend_name :: "'s pmm_state \<Rightarrow> string option" where
  "pmm_backend_name st = map_option po_name (g_pmm_ops st)"

text \<open>\<open>dflt\<close> is the table \<open>pmm_bitmap_get_ops()\<close> returns.\<close>

definition pmm_init :: "'s pmm_ops \<Rightarrow> 's pmm_state \<Rightarrow> 's pmm_state option" where
  "pmm_init dflt st =
     (let st1 = (case g_pmm_ops st of None \<Rightarrow> st\<lparr>g_pmm_ops := Some dflt\<rparr> | Some _ \<Rightarrow> st) in
      case g_pmm_ops st1 of
        None \<Rightarrow> None
      | Some ops \<Rightarrow> map_option (\<lambda>d. st1\<lparr>pmm_data := d\<rparr>) (po_init ops (pmm_data st1)))"

definition pmm_alloc_page :: "'s pmm_state \<Rightarrow> u32 \<times> 's pmm_state" where
  "pmm_alloc_page st = (case Option.bind (g_pmm_ops st) po_alloc_page of
     None \<Rightarrow> (0, st)
   | Some f \<Rightarrow> (case f (pmm_data st) of (p, d) \<Rightarrow> (p, st\<lparr>pmm_data := d\<rparr>)))"

definition pmm_free_page :: "u32 \<Rightarrow> 's pmm_state \<Rightarrow> 's pmm_state" where
  "pmm_free_page page st = (case Option.bind (g_pmm_ops st) po_free_page of
     None \<Rightarrow> st
   | Some f \<Rightarrow> st\<lparr>pmm_data := f page (pmm_data st)\<rparr>)"

definition pmm_total_pages :: "'s pmm_state \<Rightarrow> u32" where
  "pmm_total_pages st = (case Option.bind (g_pmm_ops st) po_total_pages of
     None \<Rightarrow> 0 | Some f \<Rightarrow> f (pmm_data st))"

definition pmm_free_pages :: "'s pmm_state \<Rightarrow> u32" where
  "pmm_free_pages st = (case Option.bind (g_pmm_ops st) po_free_pages of
     None \<Rightarrow> 0 | Some f \<Rightarrow> f (pmm_data st))"

definition pmm_managed_base :: "'s pmm_state \<Rightarrow> u32" where
  "pmm_managed_base st = (case Option.bind (g_pmm_ops st) po_managed_base of
     None \<Rightarrow> 0 | Some f \<Rightarrow> f (pmm_data st))"

definition pmm_page_addr :: "u32 \<Rightarrow> 's pmm_state \<Rightarrow> u32" where
  "pmm_page_addr page_index st = (case Option.bind (g_pmm_ops st) po_page_addr of
     None \<Rightarrow> 0 | Some f \<Rightarrow> f (pmm_data st) page_index)"

definition pmm_page_is_used :: "u32 \<Rightarrow> 's pmm_state \<Rightarrow> int" where
  "pmm_page_is_used page_index st = (case Option.bind (g_pmm_ops st) po_page_is_used of
     None \<Rightarrow> - 1 | Some f \<Rightarrow> f (pmm_data st) page_index)"

section \<open>What a back-end promises\<close>

text \<open>Allocating \<open>n\<close> times in a row, and freeing a list of pages in order.\<close>

fun alloc_n :: "('s \<Rightarrow> u32 \<times> 's) \<Rightarrow> nat \<Rightarrow> 's \<Rightarrow> u32 list \<times> 's" where
  "alloc_n al 0 s = ([], s)"
| "alloc_n al (Suc n) s = (case al s of (p, s1) \<Rightarrow> (case alloc_n al n s1 of (ps, s2) \<Rightarrow> (p # ps, s2)))"

fun free_all :: "(u32 \<Rightarrow> 's \<Rightarrow> 's) \<Rightarrow> u32 list \<Rightarrow> 's \<Rightarrow> 's" where
  "free_all fr [] s = s"
| "free_all fr (p # ps) s = free_all fr ps (fr p s)"

text \<open>
  \<open>managed s\<close> is the set of physical pages the allocator owns and \<open>free_set s\<close> those it may hand
  out. \<open>freeable s\<close> are the pages a caller may return: those handed out and not yet returned.
\<close>

locale pmm_backend =
  fixes alloc :: "'s \<Rightarrow> u32 \<times> 's"
    and free :: "u32 \<Rightarrow> 's \<Rightarrow> 's"
    and total_pages :: "'s \<Rightarrow> u32"
    and free_pages :: "'s \<Rightarrow> u32"
    and inv :: "'s \<Rightarrow> bool"
    and managed :: "'s \<Rightarrow> u32 set"
    and free_set :: "'s \<Rightarrow> u32 set"
    and freeable :: "'s \<Rightarrow> u32 set"
  assumes managed_page: "inv s \<Longrightarrow> a \<in> managed s \<Longrightarrow> page_aligned a \<and> a \<noteq> 0"
    and free_managed: "inv s \<Longrightarrow> free_set s \<subseteq> managed s"
    and freeable_managed: "inv s \<Longrightarrow> freeable s \<subseteq> managed s - free_set s"
    and alloc_inv: "inv s \<Longrightarrow> inv (snd (alloc s))"
    and alloc_managed: "inv s \<Longrightarrow> managed (snd (alloc s)) = managed s"
    and alloc_none: "inv s \<Longrightarrow> free_set s = {} \<Longrightarrow>
      fst (alloc s) = 0 \<and> free_set (snd (alloc s)) = {} \<and> freeable (snd (alloc s)) = freeable s"
    and alloc_some: "inv s \<Longrightarrow> free_set s \<noteq> {} \<Longrightarrow>
      fst (alloc s) \<in> free_set s \<and> free_set (snd (alloc s)) = free_set s - {fst (alloc s)} \<and>
      freeable (snd (alloc s)) = insert (fst (alloc s)) (freeable s)"
    and free_inv: "inv s \<Longrightarrow> a \<in> freeable s \<Longrightarrow> inv (free a s)"
    and free_managed_eq: "inv s \<Longrightarrow> a \<in> freeable s \<Longrightarrow> managed (free a s) = managed s"
    and free_free: "inv s \<Longrightarrow> a \<in> freeable s \<Longrightarrow>
      free_set (free a s) = insert a (free_set s) \<and> freeable (free a s) = freeable s - {a}"
    and free_pages_card: "inv s \<Longrightarrow> free_pages s = of_nat (card (free_set s))"
    and total_pages_card: "inv s \<Longrightarrow> total_pages s = of_nat (card (managed s))"
begin

lemma alloc_null_iff: "inv s \<Longrightarrow> fst (alloc s) = 0 \<longleftrightarrow> free_set s = {}"
  using alloc_none [of s] alloc_some [of s] free_managed [of s] managed_page [of s] by blast

lemma alloc_page: "inv s \<Longrightarrow> fst (alloc s) \<noteq> 0 \<Longrightarrow>
    page_aligned (fst (alloc s)) \<and> fst (alloc s) \<in> managed s \<and> fst (alloc s) \<notin> freeable s"
  using alloc_null_iff [of s] alloc_some [of s] free_managed [of s] freeable_managed [of s]
    managed_page [of s] by blast

text \<open>What is allocated can be freed, which puts the allocator back where it was.\<close>

lemma alloc_free:
  assumes "inv s" "fst (alloc s) \<noteq> 0"
  shows "inv (free (fst (alloc s)) (snd (alloc s)))"
    and "free_set (free (fst (alloc s)) (snd (alloc s))) = free_set s"
    and "freeable (free (fst (alloc s)) (snd (alloc s))) = freeable s"
proof -
  have ne: "free_set s \<noteq> {}" using assms alloc_null_iff by blast
  note al = alloc_some [OF assms(1) ne] and inv' = alloc_inv [OF assms(1)]
  have f: "fst (alloc s) \<in> freeable (snd (alloc s))" using al by blast
  show "inv (free (fst (alloc s)) (snd (alloc s)))" by (rule free_inv [OF inv' f])
  show "free_set (free (fst (alloc s)) (snd (alloc s))) = free_set s"
    using free_free [OF inv' f] al by auto
  show "freeable (free (fst (alloc s)) (snd (alloc s))) = freeable s"
    using free_free [OF inv' f] al freeable_managed [OF assms(1)] by auto
qed

text \<open>Successive allocations hand out distinct pages, as long as there are free ones.\<close>

lemma alloc_n_distinct:
  assumes "inv s" "n \<le> card (free_set s)" "alloc_n alloc n s = (ps, s')"
  shows "inv s' \<and> length ps = n \<and> distinct ps \<and> set ps \<subseteq> free_set s \<and> 0 \<notin> set ps \<and>
    free_set s' = free_set s - set ps \<and> freeable s' = freeable s \<union> set ps \<and> managed s' = managed s"
  using assms
proof (induction n arbitrary: s ps s')
  case (Suc n)
  obtain p s1 where al: "alloc s = (p, s1)" by (cases "alloc s")
  obtain qs where qs: "alloc_n alloc n s1 = (qs, s')" "ps = p # qs"
    using Suc.prems(3) al by (auto split: prod.splits)
  have ne: "free_set s \<noteq> {}" using Suc.prems(2) by auto
  have p: "p \<in> free_set s" "free_set s1 = free_set s - {p}" "freeable s1 = insert p (freeable s)"
    using alloc_some [OF Suc.prems(1) ne] al by auto
  have "p \<noteq> 0" using p(1) free_managed [OF Suc.prems(1)] managed_page [OF Suc.prems(1)] by blast
  moreover have "inv s1" "managed s1 = managed s"
    using alloc_inv [OF Suc.prems(1)] alloc_managed [OF Suc.prems(1)] al by auto
  moreover have "n \<le> card (free_set s1)" using p Suc.prems(2) by simp
  ultimately show ?case using Suc.IH [of s1 qs s'] qs p by auto
qed auto

text \<open>Freeing distinct allocated pages, in any order, returns all of them.\<close>

lemma free_all_free:
  assumes "inv s" "distinct ps" "set ps \<subseteq> freeable s"
  shows "inv (free_all free ps s) \<and> free_set (free_all free ps s) = free_set s \<union> set ps \<and>
    freeable (free_all free ps s) = freeable s - set ps \<and> managed (free_all free ps s) = managed s"
  using assms
proof (induction ps arbitrary: s)
  case (Cons p ps)
  then have p: "p \<in> freeable s" by simp
  note fr = free_inv [OF Cons.prems(1) p] free_free [OF Cons.prems(1) p] free_managed_eq [OF Cons.prems(1) p]
  have "set ps \<subseteq> freeable (free p s)" using Cons.prems fr(2) by auto
  with Cons.IH [OF fr(1)] Cons.prems(2) fr show ?case by auto
qed auto

end

text \<open>A back-end that also ignores every bad argument: unaligned, foreign or already free pages.\<close>

locale pmm_backend_checked = pmm_backend +
  assumes free_bad: "inv s \<Longrightarrow> a \<notin> freeable s \<Longrightarrow> free a s = s"
begin

lemma free_always_inv: "inv s \<Longrightarrow> inv (free a s)"
  using free_bad free_inv by (cases "a \<in> freeable s") auto

lemma free_twice: "inv s \<Longrightarrow> free a (free a s) = free a s"
  using free_bad free_inv free_free by (cases "a \<in> freeable s") auto

end

section \<open>The dispatch layer over a registered back-end\<close>

text \<open>What a back-end promises, the public functions of \<open>pmm.c\<close> promise once it is registered.\<close>

definition registered :: "'s pmm_ops \<Rightarrow> ('s \<Rightarrow> bool) \<Rightarrow> 's pmm_state \<Rightarrow> bool" where
  "registered ops ok st \<longleftrightarrow> g_pmm_ops st = Some ops \<and> ok (pmm_data st)"

lemma registered_backend:
  assumes b: "pmm_backend al fr tot frp ok man fs fb"
    and ops: "po_alloc_page ops = Some al" "po_free_page ops = Some fr" "po_total_pages ops = Some tot" "po_free_pages ops = Some frp"
  shows "pmm_backend pmm_alloc_page pmm_free_page pmm_total_pages pmm_free_pages (registered ops ok)
    (\<lambda>st. man (pmm_data st)) (\<lambda>st. fs (pmm_data st)) (\<lambda>st. fb (pmm_data st))"
proof
  fix st :: "'a pmm_state" and a
  assume "registered ops ok st"
  then have g: "g_pmm_ops st = Some ops" and k: "ok (pmm_data st)" by (simp_all add: registered_def)
  have al: "fst (pmm_alloc_page st) = fst (al (pmm_data st))" "pmm_data (snd (pmm_alloc_page st)) = snd (al (pmm_data st))"
    "g_pmm_ops (snd (pmm_alloc_page st)) = Some ops"
    using g ops by (simp_all add: pmm_alloc_page_def split: prod.split)
  have fr: "pmm_data (pmm_free_page a st) = fr a (pmm_data st)" "g_pmm_ops (pmm_free_page a st) = Some ops"
    using g ops by (simp_all add: pmm_free_page_def)
  have q: "pmm_free_pages st = frp (pmm_data st)" "pmm_total_pages st = tot (pmm_data st)"
    using g ops by (simp_all add: pmm_free_pages_def pmm_total_pages_def)
  note D = pmm_backend.managed_page [OF b k] pmm_backend.free_managed [OF b k] pmm_backend.freeable_managed [OF b k]
    pmm_backend.alloc_inv [OF b k] pmm_backend.alloc_managed [OF b k] pmm_backend.alloc_none [OF b k]
    pmm_backend.alloc_some [OF b k] pmm_backend.free_inv [OF b k] pmm_backend.free_managed_eq [OF b k]
    pmm_backend.free_free [OF b k] pmm_backend.free_pages_card [OF b k] pmm_backend.total_pages_card [OF b k]
  show "a \<in> man (pmm_data st) \<Longrightarrow> page_aligned a \<and> a \<noteq> 0" "fs (pmm_data st) \<subseteq> man (pmm_data st)"
    "fb (pmm_data st) \<subseteq> man (pmm_data st) - fs (pmm_data st)" by (rule D; assumption?)+
  show "registered ops ok (snd (pmm_alloc_page st))" using D(4) al by (simp add: registered_def)
  show "man (pmm_data (snd (pmm_alloc_page st))) = man (pmm_data st)" using D(5) al by simp
  show "fs (pmm_data st) = {} \<Longrightarrow> fst (pmm_alloc_page st) = 0 \<and> fs (pmm_data (snd (pmm_alloc_page st))) = {} \<and>
      fb (pmm_data (snd (pmm_alloc_page st))) = fb (pmm_data st)" unfolding al by (rule D)
  show "fs (pmm_data st) \<noteq> {} \<Longrightarrow> fst (pmm_alloc_page st) \<in> fs (pmm_data st) \<and>
      fs (pmm_data (snd (pmm_alloc_page st))) = fs (pmm_data st) - {fst (pmm_alloc_page st)} \<and>
      fb (pmm_data (snd (pmm_alloc_page st))) = insert (fst (pmm_alloc_page st)) (fb (pmm_data st))" unfolding al by (rule D)
  show "a \<in> fb (pmm_data st) \<Longrightarrow> registered ops ok (pmm_free_page a st)" using D(8) fr by (simp add: registered_def)
  show "a \<in> fb (pmm_data st) \<Longrightarrow> man (pmm_data (pmm_free_page a st)) = man (pmm_data st)" unfolding fr by (rule D)
  show "a \<in> fb (pmm_data st) \<Longrightarrow> fs (pmm_data (pmm_free_page a st)) = insert a (fs (pmm_data st)) \<and>
      fb (pmm_data (pmm_free_page a st)) = fb (pmm_data st) - {a}" unfolding fr by (rule D)
  show "pmm_free_pages st = of_nat (card (fs (pmm_data st)))" "pmm_total_pages st = of_nat (card (man (pmm_data st)))"
    unfolding q by (rule D)+
qed

section \<open>The dispatch layer without a back-end\<close>

lemma pmm_unregistered:
  assumes "g_pmm_ops st = None"
  shows "pmm_alloc_page st = (0, st)" "pmm_free_page p st = st" "pmm_total_pages st = 0"
    "pmm_free_pages st = 0" "pmm_managed_base st = 0" "pmm_page_addr i st = 0"
    "pmm_page_is_used i st = - 1"
  using assms by (simp_all add: pmm_alloc_page_def pmm_free_page_def pmm_total_pages_def
      pmm_free_pages_def pmm_managed_base_def pmm_page_addr_def pmm_page_is_used_def)

end
