(* ===== verification/Vmm.thy ===== *)
theory Vmm
  imports Pmm Vma
begin

text \<open>
  The virtual memory manager \<open>vmm.c\<close>: the two-level i386 page tables, mapping and unmapping of
  single pages, the queries, the bump allocator of virtual pages and its release, the construction
  of the kernel's address space and the removal of the identity mapping. The page directory is a
  static array of the kernel; page tables live in pages of the physical allocator and are read and
  written through the direct map, as words of a byte memory.
\<close>

section \<open>Constants and state\<close>

definition VMM_PAGE_SIZE :: u32 where "VMM_PAGE_SIZE = 4096"
definition VMM_ENTRIES_PER_PT :: u32 where "VMM_ENTRIES_PER_PT = 1024"
definition VMM_ENTRIES_PER_PD :: u32 where "VMM_ENTRIES_PER_PD = 1024"
definition KHEAP_START :: u32 where "KHEAP_START = 0xE0000000"
definition KHEAP_MAX_SIZE :: u32 where "KHEAP_MAX_SIZE = 256 * 1024 * 1024"
definition KHEAP_END :: u32 where "KHEAP_END = KHEAP_START + KHEAP_MAX_SIZE"
definition PTE_PRESENT :: u32 where "PTE_PRESENT = 1"
definition PTE_WRITABLE :: u32 where "PTE_WRITABLE = 2"
definition PTE_USER :: u32 where "PTE_USER = 4"
definition PDE_PRESENT :: u32 where "PDE_PRESENT = 1"
definition PDE_WRITABLE :: u32 where "PDE_WRITABLE = 2"
definition PDE_USER :: u32 where "PDE_USER = 4"

text \<open>The privileged instructions of \<open>paging_flush.asm\<close>, recorded in the order they are executed.\<close>

datatype cpu_op = Invlpg u32 | Load_CR3 u32

text \<open>The statics of \<open>vmm.c\<close>, the memory, and the state of the components it calls. \<open>pd_addr\<close> is
  the address the linker gives \<open>g_kernel_pd\<close>.\<close>

record ('b, 'v) vmm_state =
  g_kernel_pd :: "u32 list"
  g_vmm_ready :: bool
  g_next_vaddr :: u32
  g_direct_map_end :: u32
  pd_addr :: u32
  vm_mem :: memory
  vm_cpu :: "cpu_op list"
  vm_pmm :: "'b pmm_state"
  vm_vma :: "'v vma_state"

section \<open>Page tables\<close>

definition pd_index :: "u32 \<Rightarrow> u32" where "pd_index virt = drop_bit 22 virt AND 0x3FF"
definition pt_index :: "u32 \<Rightarrow> u32" where "pt_index virt = drop_bit 12 virt AND 0x3FF"

function memzero_words :: "u32 \<Rightarrow> u32 \<Rightarrow> memory \<Rightarrow> memory" where
  "memzero_words p i m = (if i < VMM_PAGE_SIZE div 4 then memzero_words p (i + 1) (wr32 m (p + 4 * i) 0) else m)"
  by pat_completeness auto
termination
  by (relation "measure (\<lambda>(p, i, m). unat (VMM_PAGE_SIZE div 4) - unat i)") (auto intro: loop_measure)

definition memzero_page :: "u32 \<Rightarrow> memory \<Rightarrow> memory" where
  "memzero_page page m = memzero_words page 0 m"

declare memzero_words.simps [simp del]

definition pd_get :: "('b, 'v) vmm_state \<Rightarrow> u32 \<Rightarrow> u32" where "pd_get s i = g_kernel_pd s ! unat i"

definition pd_set :: "u32 \<Rightarrow> u32 \<Rightarrow> ('b, 'v) vmm_state \<Rightarrow> ('b, 'v) vmm_state" where
  "pd_set i v s = s\<lparr>g_kernel_pd := (g_kernel_pd s)[unat i := v]\<rparr>"

text \<open>\<open>pt->entries[pti]\<close> of the table at the pointer \<open>pt\<close>.\<close>

definition pt_get :: "('b, 'v) vmm_state \<Rightarrow> u32 \<Rightarrow> u32 \<Rightarrow> u32" where
  "pt_get s pt pti = rd32 (vm_mem s) (pt + 4 * pti)"

definition pt_set :: "u32 \<Rightarrow> u32 \<Rightarrow> u32 \<Rightarrow> ('b, 'v) vmm_state \<Rightarrow> ('b, 'v) vmm_state" where
  "pt_set pt pti v s = s\<lparr>vm_mem := wr32 (vm_mem s) (pt + 4 * pti) v\<rparr>"

definition vmm_invlpg :: "u32 \<Rightarrow> ('b, 'v) vmm_state \<Rightarrow> ('b, 'v) vmm_state" where
  "vmm_invlpg virt s = s\<lparr>vm_cpu := vm_cpu s @ [Invlpg virt]\<rparr>"

definition vmm_load_page_directory :: "u32 \<Rightarrow> ('b, 'v) vmm_state \<Rightarrow> ('b, 'v) vmm_state" where
  "vmm_load_page_directory phys s = s\<lparr>vm_cpu := vm_cpu s @ [Load_CR3 phys]\<rparr>"

text \<open>The pointer returned is \<open>0\<close> when there is no page table.\<close>

definition vmm_ensure_page_table :: "u32 \<Rightarrow> ('b, 'v) vmm_state \<Rightarrow> u32 \<times> ('b, 'v) vmm_state" where
  "vmm_ensure_page_table pd_idx s =
     (let pde = pd_get s pd_idx in
      if pde AND PDE_PRESENT \<noteq> 0 then (PHYS_TO_VIRT (pde AND NOT 0xFFF), s)
      else
        (case pmm_alloc_page (vm_pmm s) of
           (pt_phys, pm) \<Rightarrow>
             (let s1 = s\<lparr>vm_pmm := pm\<rparr> in
              if pt_phys = 0 then (0, s1)
              else
                (let pt_virt = PHYS_TO_VIRT pt_phys;
                     s2 = s1\<lparr>vm_mem := memzero_page pt_virt (vm_mem s1)\<rparr>
                 in (pt_virt, pd_set pd_idx (pt_phys OR PDE_PRESENT OR PDE_WRITABLE) s2)))))"

definition vmm_map_page :: "u32 \<Rightarrow> u32 \<Rightarrow> u32 \<Rightarrow> ('b, 'v) vmm_state \<Rightarrow> int \<times> ('b, 'v) vmm_state" where
  "vmm_map_page virt phys flags s =
     (if virt AND 0xFFF \<noteq> 0 \<or> phys AND 0xFFF \<noteq> 0 then (- 1, s)
      else
        (let pdi = pd_index virt; pti = pt_index virt in
         case vmm_ensure_page_table pdi s of
           (pt, s1) \<Rightarrow>
             (if pt = 0 then (- 1, s1)
              else
                (let s2 = (if flags AND PTE_USER \<noteq> 0 then pd_set pdi (pd_get s1 pdi OR PDE_USER) s1 else s1);
                     s3 = pt_set pt pti ((phys AND NOT 0xFFF) OR (flags AND 0xFFF)) s2
                 in (0, if g_vmm_ready s3 then vmm_invlpg virt s3 else s3)))))"

definition vmm_unmap_page :: "u32 \<Rightarrow> ('b, 'v) vmm_state \<Rightarrow> ('b, 'v) vmm_state" where
  "vmm_unmap_page virt s =
     (if virt AND 0xFFF \<noteq> 0 then s
      else
        (let pde = pd_get s (pd_index virt) in
         if pde AND PDE_PRESENT = 0 then s
         else
           (let pt = PHYS_TO_VIRT (pde AND NOT 0xFFF);
                s1 = pt_set pt (pt_index virt) 0 s
            in if g_vmm_ready s1 then vmm_invlpg virt s1 else s1)))"

section \<open>Queries\<close>

definition vmm_is_ready :: "('b, 'v) vmm_state \<Rightarrow> bool" where "vmm_is_ready s = g_vmm_ready s"
definition vmm_direct_map_end :: "('b, 'v) vmm_state \<Rightarrow> u32" where "vmm_direct_map_end s = g_direct_map_end s"

definition vmm_is_mapped :: "u32 \<Rightarrow> ('b, 'v) vmm_state \<Rightarrow> int" where
  "vmm_is_mapped virt s =
     (if \<not> g_vmm_ready s then - 1
      else if virt AND 0xFFF \<noteq> 0 then - 1
      else
        (let pde = pd_get s (pd_index virt) in
         if pde AND PDE_PRESENT = 0 then 0
         else if pt_get s (PHYS_TO_VIRT (pde AND NOT 0xFFF)) (pt_index virt) AND PTE_PRESENT \<noteq> 0 then 1 else 0))"

text \<open>\<open>Some phys\<close> for the result 0 with \<open>*phys\<close> set, \<open>None\<close> for -1; every caller passes a
  non-null pointer.\<close>

definition vmm_get_physical :: "u32 \<Rightarrow> ('b, 'v) vmm_state \<Rightarrow> u32 option" where
  "vmm_get_physical virt s =
     (if \<not> g_vmm_ready s then None
      else if virt AND 0xFFF \<noteq> 0 then None
      else
        (let pde = pd_get s (pd_index virt) in
         if pde AND PDE_PRESENT = 0 then None
         else
           (let pte = pt_get s (PHYS_TO_VIRT (pde AND NOT 0xFFF)) (pt_index virt) in
            if pte AND PTE_PRESENT = 0 then None else Some (pte AND NOT 0xFFF))))"

definition vmm_get_pde :: "u32 \<Rightarrow> ('b, 'v) vmm_state \<Rightarrow> u32" where
  "vmm_get_pde pd_idx s = (if \<not> g_vmm_ready s \<or> VMM_ENTRIES_PER_PD \<le> pd_idx then 0 else pd_get s pd_idx)"

definition vmm_get_pte :: "u32 \<Rightarrow> ('b, 'v) vmm_state \<Rightarrow> u32" where
  "vmm_get_pte virt s =
     (if \<not> g_vmm_ready s then 0
      else
        (let pde = pd_get s (pd_index virt) in
         if pde AND PDE_PRESENT = 0 then 0
         else pt_get s (PHYS_TO_VIRT (pde AND NOT 0xFFF)) (pt_index virt)))"

section \<open>Allocating and freeing virtual pages\<close>

text \<open>The loop of step 4; \<open>False\<close> when it leaves for the rollback.\<close>

function vmm_alloc_from :: "u32 \<Rightarrow> u32 \<Rightarrow> u32 \<Rightarrow> ('b, 'v) vmm_state \<Rightarrow> bool \<times> ('b, 'v) vmm_state" where
  "vmm_alloc_from start count i s =
     (if i < count then
        (let virt = start + i * VMM_PAGE_SIZE in
         case pmm_alloc_page (vm_pmm s) of
           (phys, pm) \<Rightarrow>
             (let s1 = s\<lparr>vm_pmm := pm\<rparr> in
              if phys = 0 then (False, s1)
              else
                (case vmm_map_page virt phys (PTE_PRESENT OR PTE_WRITABLE) s1 of
                   (ret, s2) \<Rightarrow>
                     if ret \<noteq> 0 then (False, s2\<lparr>vm_pmm := pmm_free_page phys (vm_pmm s2)\<rparr>)
                     else vmm_alloc_from start count (i + 1) s2)))
      else (True, s))"
  by pat_completeness auto
termination
  by (relation "measure (\<lambda>(start, count, i, s). unat count - unat i)") (auto intro: loop_measure)

function vmm_rollback_from :: "u32 \<Rightarrow> u32 \<Rightarrow> u32 \<Rightarrow> ('b, 'v) vmm_state \<Rightarrow> ('b, 'v) vmm_state" where
  "vmm_rollback_from start count j s =
     (if j < count then
        (let rollback_virt = start + j * VMM_PAGE_SIZE in
         vmm_rollback_from start count (j + 1)
           (case vmm_get_physical rollback_virt s of
              None \<Rightarrow> s
            | Some rollback_phys \<Rightarrow>
                vmm_unmap_page rollback_virt (s\<lparr>vm_pmm := pmm_free_page rollback_phys (vm_pmm s)\<rparr>)))
      else s)"
  by pat_completeness auto
termination
  by (relation "measure (\<lambda>(start, count, j, s). unat count - unat j)") (auto intro: loop_measure)

definition vmm_alloc_pages :: "u32 \<Rightarrow> ('b, 'v) vmm_state \<Rightarrow> u32 \<times> ('b, 'v) vmm_state" where
  "vmm_alloc_pages count s =
     (if count = 0 \<or> \<not> g_vmm_ready s \<or> g_next_vaddr s = 0 then (0, s)
      else
        (let start = g_next_vaddr s; total_bytes = count * VMM_PAGE_SIZE in
         if 0xFFFFFFFF - start < total_bytes then (0, s)
         else
           (case vmm_alloc_from start count 0 (s\<lparr>g_next_vaddr := start + total_bytes\<rparr>) of
              (ok, s1) \<Rightarrow>
                (if ok then
                   (start,
                    if vma_is_ready (vm_vma s1) then
                      s1\<lparr>vm_vma := snd (vma_add (vm_vma s1) start (start + total_bytes)
                          (VMA_READ OR VMA_WRITE) (Some ''vmm-alloc''))\<rparr>
                    else s1)
                 else (0, vmm_rollback_from start count 0 s1)))))"

function vmm_free_from :: "u32 \<Rightarrow> u32 \<Rightarrow> u32 \<Rightarrow> ('b, 'v) vmm_state \<Rightarrow> ('b, 'v) vmm_state" where
  "vmm_free_from base count i s =
     (if i < count then
        (let virt = base + i * VMM_PAGE_SIZE;
             s1 = (case vmm_get_physical virt s of
                     None \<Rightarrow> s
                   | Some phys \<Rightarrow> s\<lparr>vm_pmm := pmm_free_page phys (vm_pmm s)\<rparr>)
         in vmm_free_from base count (i + 1) (vmm_unmap_page virt s1))
      else s)"
  by pat_completeness auto
termination
  by (relation "measure (\<lambda>(base, count, i, s). unat count - unat i)") (auto intro: loop_measure)

definition vmm_free_pages :: "u32 \<Rightarrow> u32 \<Rightarrow> ('b, 'v) vmm_state \<Rightarrow> ('b, 'v) vmm_state" where
  "vmm_free_pages vaddr count s =
     (if vaddr = 0 \<or> count = 0 \<or> \<not> g_vmm_ready s then s
      else
        (let s1 = (if vma_is_ready (vm_vma s) then s\<lparr>vm_vma := snd (vma_remove (vm_vma s) vaddr)\<rparr> else s)
         in vmm_free_from vaddr count 0 s1))"

section \<open>Initialisation\<close>

text \<open>The two mappings of every page below \<open>map_end\<close>; \<open>False\<close> when one fails and \<open>vmm_init\<close> returns
  early. The counter may wrap around, so the loop need not end for every \<open>map_end\<close>.\<close>

partial_function (option) vmm_map_loop :: "u32 \<Rightarrow> u32 \<Rightarrow> ('b, 'v) vmm_state \<Rightarrow> (bool \<times> ('b, 'v) vmm_state) option" where
  "vmm_map_loop map_end addr s =
     (if addr < map_end then
        (case vmm_map_page addr addr (PTE_PRESENT OR PTE_WRITABLE) s of
           (ret, s1) \<Rightarrow>
             if ret \<noteq> 0 then Some (False, s1)
             else
               (case vmm_map_page (addr + KERNEL_VIRT_OFFSET) addr (PTE_PRESENT OR PTE_WRITABLE) s1 of
                  (ret2, s2) \<Rightarrow>
                    if ret2 \<noteq> 0 then Some (False, s2) else vmm_map_loop map_end (addr + VMM_PAGE_SIZE) s2))
      else Some (True, s))"

definition vmm_map_end :: "u32 \<Rightarrow> 'b pmm_state \<Rightarrow> u32" where
  "vmm_map_end kernel_end pm =
     (let map_end = kernel_end;
          min_map = 16 * 1024 * 1024;
          map_end = (if map_end < min_map then min_map else map_end);
          pmm_end = pmm_managed_base pm + pmm_total_pages pm * VMM_PAGE_SIZE;
          map_end = (if map_end < pmm_end then pmm_end else map_end);
          map_end = (if 0x40000000 < map_end then 0x40000000 else map_end)
      in (map_end + VMM_PAGE_SIZE - 1) AND NOT (VMM_PAGE_SIZE - 1))"

definition vmm_init :: "u32 \<Rightarrow> ('b, 'v) vmm_state \<Rightarrow> ('b, 'v) vmm_state option" where
  "vmm_init kernel_phys_end s =
     (let s0 = s\<lparr>g_kernel_pd := replicate 1024 0\<rparr>;
          map_end = vmm_map_end kernel_phys_end (vm_pmm s)
      in map_option
           (\<lambda>(ok, s1).
              if \<not> ok then s1
              else
                (let s2 = (vmm_load_page_directory (VIRT_TO_PHYS (pd_addr s1)) s1)\<lparr>g_vmm_ready := True\<rparr>;
                     direct_map_top = KERNEL_VIRT_OFFSET + map_end;
                     align_4m = 0x400000
                 in s2\<lparr>g_next_vaddr := (direct_map_top + align_4m - 1) AND NOT (align_4m - 1),
                       g_direct_map_end := direct_map_top\<rparr>))
           (vmm_map_loop map_end 0 s0))"

fun pd_clear :: "nat \<Rightarrow> u32 list \<Rightarrow> u32 list" where
  "pd_clear 0 pd = pd"
| "pd_clear (Suc i) pd = (let pd' = pd_clear i pd in if pd' ! i AND PDE_PRESENT \<noteq> 0 then pd'[i := 0] else pd')"

definition vmm_unmap_identity :: "('b, 'v) vmm_state \<Rightarrow> ('b, 'v) vmm_state" where
  "vmm_unmap_identity s =
     (if \<not> g_vmm_ready s then s
      else vmm_load_page_directory (VIRT_TO_PHYS (pd_addr s))
        (s\<lparr>g_kernel_pd := pd_clear (unat (pd_index KERNEL_VIRT_OFFSET)) (g_kernel_pd s)\<rparr>))"

declare vmm_alloc_from.simps [simp del] vmm_rollback_from.simps [simp del] vmm_free_from.simps [simp del]

end
