(* ===== verification/Vmm_Space.thy ===== *)
theory Vmm_Space
  imports Vmm
begin

text \<open>
  The address space that the page tables of \<open>vmm.c\<close> describe: the map from virtual pages to page
  table entries. Under the invariant \<open>vm_ok\<close> (one page table per present directory entry, each in a
  page of its own that the physical allocator has handed out) mapping is an update of that map,
  unmapping clears one entry, and the queries look it up.
\<close>

section \<open>Indices, frames and entry addresses\<close>

lemma index_lt: "pd_index v < 1024" "pt_index v < 1024"
proof -
  have "(1023 :: u32) = mask 10" by (simp add: mask_eq_exp_minus_1)
  then have "pd_index v \<le> 1023" "pt_index v \<le> 1023"
    unfolding pd_index_def pt_index_def by (simp_all add: word_and_le1)
  then show "pd_index v < 1024" "pt_index v < 1024" by (simp_all add: word_le_nat_alt word_less_nat_alt)
qed

lemma index_lt_nat: "unat (pd_index v) < 1024" "unat (pt_index v) < 1024"
  using index_lt [of v] by (simp_all add: word_less_nat_alt)

lemma unat_indices: "unat (pd_index v) = unat v div 2 ^ 22" "unat (pt_index v) = unat v div 2 ^ 12 mod 2 ^ 10"
proof -
  have m: "(1023 :: u32) = mask 10" by (simp add: mask_eq_exp_minus_1)
  have "unat v div 2 ^ 22 < 2 ^ 10" using unat_lt_2p32 [of v] by (simp add: less_mult_imp_div_less)
  then show "unat (pd_index v) = unat v div 2 ^ 22"
    by (simp only: pd_index_def m unat_and_mask) (simp add: drop_bit_eq_div unat_div)
  show "unat (pt_index v) = unat v div 2 ^ 12 mod 2 ^ 10"
    by (simp only: pt_index_def m unat_and_mask) (simp add: drop_bit_eq_div unat_div)
qed

text \<open>An aligned address is its two indices.\<close>

lemma indices_inj:
  assumes "page_aligned v" "page_aligned w" "pd_index v = pd_index w" "pt_index v = pt_index w"
  shows "v = w"
proof -
  have rec: "unat x = unat (pd_index x) * 2 ^ 22 + unat (pt_index x) * 2 ^ 12" if x: "page_aligned x" for x
  proof -
    obtain k where k: "unat x = 4096 * k" using x by (auto simp: page_aligned_iff dvd_def)
    have "unat x div 2 ^ 12 = k" "unat x div 2 ^ 22 = k div 1024" using k by simp_all
    moreover have "4096 * k = 4096 * (k div 1024 * 1024 + k mod 1024)" by simp
    ultimately show ?thesis unfolding unat_indices k by (simp only: distrib_left) simp
  qed
  show ?thesis using rec [OF assms(1)] rec [OF assms(2)] assms(3,4) by (simp add: word_unat_eq_iff)
qed

definition frame_of :: "u32 \<Rightarrow> u32" where "frame_of e = e AND NOT 0xFFF"

lemma not_low12: "NOT (0xFFF :: u32) = - 4096"
  by simp

lemma frame_of_aligned: "page_aligned (frame_of e)"
  by (simp add: frame_of_def page_aligned_iff unat_and_not_4095 minus_mod_eq_mult_div)

lemma frame_of_id: "page_aligned a \<Longrightarrow> frame_of a = a"
  by (simp add: frame_of_def page_aligned_iff word_unat_eq_iff unat_and_not_4095 dvd_eq_mod_eq_0)

lemma frame_of_or: "page_aligned a \<Longrightarrow> f AND NOT 0xFFF = 0 \<Longrightarrow> frame_of (a OR f) = a"
  using frame_of_id [of a] unfolding frame_of_def by (simp add: word_ao_dist)

lemma low_of_or: "page_aligned a \<Longrightarrow> b AND NOT 0xFFF = 0 \<Longrightarrow> (a OR f) AND b = f AND b"
proof -
  assume a: "page_aligned a" and b: "b AND NOT 0xFFF = 0"
  have "a AND b = (a AND NOT 0xFFF) AND b" using frame_of_id [OF a] by (simp add: frame_of_def)
  also have "\<dots> = a AND (b AND NOT 0xFFF)" by (simp only: and.assoc and.commute and.left_commute)
  finally have "a AND b = 0" using b by simp
  then show ?thesis by (simp add: word_ao_dist)
qed

lemma frame_of_or_low: "f AND NOT 0xFFF = 0 \<Longrightarrow> frame_of (e OR f) = frame_of e"
  by (simp add: frame_of_def word_ao_dist)

lemma four_apart:
  fixes a b :: u32
  assumes "4 dvd unat a" "4 dvd unat b" "a \<noteq> b"
  shows "4 \<le> unat (a - b)"
proof -
  have "4 dvd unat (a - b)"
    using assms(1,2) by (auto simp: unat_sub_if_size word_size intro!: dvd_diff_nat dvd_add)
  moreover have "unat (a - b) \<noteq> 0" using assms(3) by (simp add: unsigned_eq_0_iff)
  ultimately show ?thesis by (intro dvd_imp_le) simp_all
qed

lemma unat_entry:
  assumes "page_aligned pt" "i < 1024"
  shows "unat (pt + 4 * i) = unat pt + 4 * unat i"
proof -
  have i: "unat i < 1024" using assms(2) by (simp add: word_less_nat_alt)
  then have "unat (4 * i) = 4 * unat i" by (simp add: unat_word_ariths)
  moreover obtain k where "unat pt = 4096 * k" using assms(1) by (auto simp: page_aligned_iff dvd_def)
  then have "unat pt + 4096 \<le> 2 ^ 32" using unat_lt_2p32 [of pt] by simp
  ultimately show ?thesis using i by (subst unat_add_no_wrap) simp_all
qed

lemma page_aligned_phys_to_virt: "page_aligned p \<Longrightarrow> page_aligned (PHYS_TO_VIRT p)"
  by (simp only: PHYS_TO_VIRT_def) (rule page_aligned_add, assumption, simp add: page_aligned_def KERNEL_VIRT_OFFSET_def)

lemma entry_dvd: "page_aligned pt \<Longrightarrow> i < 1024 \<Longrightarrow> 4 dvd unat (pt + 4 * i)"
proof -
  assume a: "page_aligned pt" "i < 1024"
  have "4 dvd unat pt" using dvd_trans [of 4 4096 "unat pt"] a(1) by (simp add: page_aligned_iff)
  then show ?thesis unfolding unat_entry [OF a] by (rule dvd_add) simp
qed

lemma entry_inj:
  assumes "page_aligned p" "page_aligned q" "i < 1024" "j < 1024" "p + 4 * i = q + 4 * j"
  shows "p = q \<and> i = j"
proof -
  have eq: "unat p + 4 * unat i = unat q + 4 * unat j"
    using assms unat_entry [of p i] unat_entry [of q j] by simp
  have lt: "unat i < 1024" "unat j < 1024" using assms(3,4) by (simp_all add: word_less_nat_alt)
  obtain k l where kl: "unat p = 4096 * k" "unat q = 4096 * l"
    using assms(1,2) by (auto simp: page_aligned_iff dvd_def)
  have "k = l" using eq lt unfolding kl by (cases k l rule: linorder_cases) linarith+
  then have "unat p = unat q \<and> unat i = unat j" using eq kl by simp
  then show ?thesis by (simp add: word_unat_eq_iff)
qed

text \<open>Two different entries of aligned tables do not overlap.\<close>

lemma rd_entry_other:
  assumes "page_aligned p" "page_aligned q" "i < 1024" "j < 1024" "p \<noteq> q \<or> i \<noteq> j"
  shows "rd32 (wr32 m (p + 4 * i) v) (q + 4 * j) = rd32 m (q + 4 * j)"
proof -
  have "p + 4 * i \<noteq> q + 4 * j" using entry_inj [OF assms(1-4)] assms(5) by blast
  then show ?thesis
    using entry_dvd [OF assms(1,3)] entry_dvd [OF assms(2,4)] by (intro rd32_wr32_other four_apart) auto
qed

lemma memzero_words:
  assumes "page_aligned p" "page_aligned q" "j < 1024"
  shows "rd32 (memzero_words p i m) (q + 4 * j) = (if p = q \<and> i \<le> j then 0 else rd32 m (q + 4 * j))"
  using assms(1)
proof (induction p i m rule: memzero_words.induct)
  case (1 p i m)
  show ?case
  proof (cases "i < 1024")
    case True
    have le: "i + 1 \<le> j \<longleftrightarrow> i \<le> j \<and> i \<noteq> j"
      using unat_inc [OF True] by (auto simp: word_le_nat_alt word_unat_eq_iff)
    have "memzero_words p i m = memzero_words p (i + 1) (wr32 m (p + 4 * i) 0)"
      using True by (subst memzero_words.simps) (simp add: VMM_PAGE_SIZE_def)
    moreover have "rd32 (memzero_words p (i + 1) (wr32 m (p + 4 * i) 0)) (q + 4 * j) =
        (if p = q \<and> i + 1 \<le> j then 0 else rd32 (wr32 m (p + 4 * i) 0) (q + 4 * j))"
      using 1 True by (simp add: VMM_PAGE_SIZE_def)
    ultimately show ?thesis
      using rd_entry_other [OF 1(2) assms(2) True assms(3), of m 0] by (auto simp: le)
  next
    case False
    then have "\<not> i \<le> j" using assms(3) by auto
    with False show ?thesis by (subst memzero_words.simps) (simp add: VMM_PAGE_SIZE_def)
  qed
qed

lemma memzero_page:
  assumes "page_aligned p" "page_aligned q" "j < 1024"
  shows "rd32 (memzero_page p m) (q + 4 * j) = (if p = q then 0 else rd32 m (q + 4 * j))"
  using memzero_words [OF assms, of 0 m] by (simp add: memzero_page_def)

section \<open>The address space\<close>

definition present :: "('b, 'v) vmm_state \<Rightarrow> u32 \<Rightarrow> bool" where
  "present s i \<longleftrightarrow> pd_get s i AND PDE_PRESENT \<noteq> 0"

definition table_of :: "('b, 'v) vmm_state \<Rightarrow> u32 \<Rightarrow> u32" where
  "table_of s i = frame_of (pd_get s i)"

text \<open>The page table entry that translates \<open>v\<close>, \<open>0\<close> when there is no page table.\<close>

definition walk :: "('b, 'v) vmm_state \<Rightarrow> u32 \<Rightarrow> u32" where
  "walk s v = (if present s (pd_index v) then pt_get s (PHYS_TO_VIRT (table_of s (pd_index v))) (pt_index v) else 0)"

text \<open>The address space as a map from page addresses to entries.\<close>

definition space :: "('b, 'v) vmm_state \<Rightarrow> u32 \<Rightarrow> u32" where
  "space s v = (if page_aligned v then walk s v else 0)"

definition tables :: "('b, 'v) vmm_state \<Rightarrow> u32 set" where
  "tables s = table_of s ` {i. i < 1024 \<and> present s i}"

text \<open>The invariant, over the contract of the physical allocator: \<open>ok\<close> is its invariant, \<open>man\<close> the
  pages it manages and \<open>fr\<close> those that are free.\<close>

definition vm_ok ::
    "('b pmm_state \<Rightarrow> bool) \<Rightarrow> ('b pmm_state \<Rightarrow> u32 set) \<Rightarrow> ('b pmm_state \<Rightarrow> u32 set) \<Rightarrow> ('b, 'v) vmm_state \<Rightarrow> bool" where
  "vm_ok ok man fr s \<longleftrightarrow> ok (vm_pmm s) \<and> length (g_kernel_pd s) = 1024 \<and>
     tables s \<subseteq> man (vm_pmm s) - fr (vm_pmm s) \<and> inj_on (table_of s) {i. i < 1024 \<and> present s i} \<and>
     (\<forall>a \<in> man (vm_pmm s). a < 0x40000000)"

text \<open>What the page-table operations leave alone.\<close>

definition rest_eq :: "('b, 'v) vmm_state \<Rightarrow> ('b, 'v) vmm_state \<Rightarrow> bool" where
  "rest_eq s s' \<longleftrightarrow> g_vmm_ready s' = g_vmm_ready s \<and> g_next_vaddr s' = g_next_vaddr s \<and>
     g_direct_map_end s' = g_direct_map_end s \<and> pd_addr s' = pd_addr s \<and> vm_vma s' = vm_vma s"

lemma rest_eq_refl [simp]: "rest_eq s s"
  by (simp add: rest_eq_def)

lemma rest_eq_trans: "rest_eq s t \<Longrightarrow> rest_eq t u \<Longrightarrow> rest_eq s u"
  by (simp add: rest_eq_def)

named_theorems vm_simps \<open>the page-table reads of an updated state\<close>

lemma pd_get_set:
  "length (g_kernel_pd s) = 1024 \<Longrightarrow> i < 1024 \<Longrightarrow> pd_get (pd_set i v s) j = (if j = i then v else pd_get s j)"
  by (auto simp: pd_get_def pd_set_def nth_list_update word_less_nat_alt word_unat_eq_iff)

lemma pd_get_frame [vm_simps]:
  "pd_get (s\<lparr>vm_mem := m\<rparr>) i = pd_get s i" "pd_get (s\<lparr>vm_pmm := pm\<rparr>) i = pd_get s i"
  "pd_get (s\<lparr>vm_cpu := c\<rparr>) i = pd_get s i" "pd_get (pt_set pt k v s) i = pd_get s i"
  "pd_get (vmm_invlpg a s) i = pd_get s i" "pd_get (s\<lparr>g_vmm_ready := b\<rparr>) i = pd_get s i"
  "pd_get (s\<lparr>g_next_vaddr := n\<rparr>) i = pd_get s i" "pd_get (s\<lparr>vm_vma := w\<rparr>) i = pd_get s i"
  by (simp_all add: pd_get_def pt_set_def vmm_invlpg_def)

lemma set_frame [vm_simps]:
  "vm_mem (pd_set i v s) = vm_mem s" "vm_pmm (pd_set i v s) = vm_pmm s" "vm_vma (pd_set i v s) = vm_vma s"
  "g_vmm_ready (pd_set i v s) = g_vmm_ready s" "g_next_vaddr (pd_set i v s) = g_next_vaddr s"
  "g_direct_map_end (pd_set i v s) = g_direct_map_end s" "pd_addr (pd_set i v s) = pd_addr s"
  "length (g_kernel_pd (pd_set i v s)) = length (g_kernel_pd s)"
  "vm_pmm (pt_set pt k v s) = vm_pmm s" "vm_vma (pt_set pt k v s) = vm_vma s"
  "g_vmm_ready (pt_set pt k v s) = g_vmm_ready s" "g_next_vaddr (pt_set pt k v s) = g_next_vaddr s"
  "g_direct_map_end (pt_set pt k v s) = g_direct_map_end s" "pd_addr (pt_set pt k v s) = pd_addr s"
  "g_kernel_pd (pt_set pt k v s) = g_kernel_pd s" "vm_cpu (pt_set pt k v s) = vm_cpu s" "vm_cpu (pd_set i v s) = vm_cpu s"
  "vm_mem (vmm_invlpg a s) = vm_mem s" "vm_pmm (vmm_invlpg a s) = vm_pmm s" "vm_vma (vmm_invlpg a s) = vm_vma s"
  "g_vmm_ready (vmm_invlpg a s) = g_vmm_ready s" "g_next_vaddr (vmm_invlpg a s) = g_next_vaddr s"
  "g_direct_map_end (vmm_invlpg a s) = g_direct_map_end s" "pd_addr (vmm_invlpg a s) = pd_addr s"
  "g_kernel_pd (vmm_invlpg a s) = g_kernel_pd s" "vm_cpu (vmm_invlpg a s) = vm_cpu s @ [Invlpg a]"
  by (simp_all add: pd_set_def pt_set_def vmm_invlpg_def)

text \<open>States that agree on directory and memory describe the same address space.\<close>

lemma space_cong:
  assumes "\<And>i. i < 1024 \<Longrightarrow> pd_get s' i = pd_get s i" "vm_mem s' = vm_mem s"
  shows "walk s' = walk s" "i < 1024 \<Longrightarrow> present s' i = present s i" "i < 1024 \<Longrightarrow> table_of s' i = table_of s i"
    "tables s' = tables s" "{i. i < 1024 \<and> present s' i} = {i. i < 1024 \<and> present s i}"
proof -
  show p: "present s' i = present s i" and t: "table_of s' i = table_of s i" if "i < 1024" for i
    using assms(1) [OF that] by (simp_all add: present_def table_of_def)
  show "walk s' = walk s"
    using p [OF index_lt(1)] t [OF index_lt(1)] by (simp add: fun_eq_iff walk_def pt_get_def assms(2))
  show e: "{i. i < 1024 \<and> present s' i} = {i. i < 1024 \<and> present s i}" using p by blast
  show "tables s' = tables s" unfolding tables_def e using t by (intro image_cong) auto
qed

lemma vm_ok_cong:
  assumes "\<And>i. i < 1024 \<Longrightarrow> pd_get s' i = pd_get s i" "length (g_kernel_pd s') = length (g_kernel_pd s)" "vm_mem s' = vm_mem s"
    and "ok (vm_pmm s')" "man (vm_pmm s') = man (vm_pmm s)" "fr (vm_pmm s') \<inter> tables s = {}"
    and "vm_ok ok man fr s"
  shows "vm_ok ok man fr s'"
proof -
  note sc = space_cong [OF assms(1,3)]
  have "inj_on (table_of s') {i. i < 1024 \<and> present s' i}"
    using assms(7) sc(2,3) by (auto simp: inj_on_def vm_ok_def)
  then show ?thesis using assms(2,4-7) sc(4) by (auto simp: vm_ok_def)
qed

lemma table_aligned: "page_aligned (table_of s i)"
  by (simp add: table_of_def frame_of_aligned)

section \<open>Over a physical allocator that keeps its contract\<close>

text \<open>From \<open>s\<close> to \<open>s'\<close> the pages \<open>F\<close> and the new page tables were taken from the allocator, and
  nothing else: \<open>fr\<close> are the free pages, \<open>fb\<close> those that may be given back.\<close>

definition took :: "('b pmm_state \<Rightarrow> u32 set) \<Rightarrow> ('b pmm_state \<Rightarrow> u32 set) \<Rightarrow> ('b pmm_state \<Rightarrow> u32 set) \<Rightarrow>
    u32 set \<Rightarrow> ('b, 'v) vmm_state \<Rightarrow> ('b, 'v) vmm_state \<Rightarrow> bool" where
  "took man fr fb F s s' \<longleftrightarrow> F \<subseteq> fr (vm_pmm s) \<and> F \<inter> tables s' = {} \<and>
     tables s \<subseteq> tables s' \<and> tables s' \<subseteq> tables s \<union> fr (vm_pmm s) \<and>
     fr (vm_pmm s') = fr (vm_pmm s) - tables s' - F \<and>
     fb (vm_pmm s') = fb (vm_pmm s) \<union> (tables s' - tables s) \<union> F \<and> man (vm_pmm s') = man (vm_pmm s)"

lemma took_refl: "fr (vm_pmm s) \<inter> tables s = {} \<Longrightarrow> took man fr fb {} s s"
  by (auto simp: took_def)

lemma took_sets:
  assumes "F \<subseteq> fs" "F \<inter> tt = {}" "ts \<subseteq> tt" "tt \<subseteq> ts \<union> fs" "ft = fs - tt - F" "bt = bs \<union> (tt - ts) \<union> F"
    and "G \<subseteq> ft" "G \<inter> tu = {}" "tt \<subseteq> tu" "tu \<subseteq> tt \<union> ft" "fu = ft - tu - G" "bu = bt \<union> (tu - tt) \<union> G"
  shows "F \<union> G \<subseteq> fs" "(F \<union> G) \<inter> tu = {}" "ts \<subseteq> tu" "tu \<subseteq> ts \<union> fs" "fu = fs - tu - (F \<union> G)"
    "bu = bs \<union> (tu - ts) \<union> (F \<union> G)"
proof -
  show "F \<union> G \<subseteq> fs" using assms(1,5,7) by blast
  show "(F \<union> G) \<inter> tu = {}" using assms(2,5,8,10) by blast
  show "ts \<subseteq> tu" using assms(3,9) by blast
  show "tu \<subseteq> ts \<union> fs" using assms(4,5,10) by blast
  show "fu = fs - tu - (F \<union> G)" unfolding assms(11,5) using assms(9) by blast
  show "bu = bs \<union> (tu - ts) \<union> (F \<union> G)" unfolding assms(12,6) using assms(3,9) by blast
qed

lemma took_trans:
  assumes "took man fr fb F s t" "took man fr fb G t u"
  shows "took man fr fb (F \<union> G) s u"
proof -
  note A = assms(1) [unfolded took_def] and B = assms(2) [unfolded took_def]
  note sets = took_sets [of F "fr (vm_pmm s)" "tables t" "tables s" "fr (vm_pmm t)" "fb (vm_pmm t)" "fb (vm_pmm s)"
      G "tables u" "fr (vm_pmm u)" "fb (vm_pmm u)"]
  show ?thesis unfolding took_def using A B by (intro conjI sets) simp_all
qed

lemma took_tables_only: "vm_pmm s' = vm_pmm s \<Longrightarrow> tables s' = tables s \<Longrightarrow> fr (vm_pmm s) \<inter> tables s = {} \<Longrightarrow>
    took man fr fb {} s s'"
  by (auto simp: took_def)

text \<open>The queries look the address space up.\<close>

lemma query_space:
  "vmm_get_physical virt s = (if g_vmm_ready s \<and> page_aligned virt \<and> space s virt AND 1 \<noteq> 0
     then Some (frame_of (space s virt)) else None)"
  "vmm_is_mapped virt s = (if g_vmm_ready s \<and> page_aligned virt then (if space s virt AND 1 \<noteq> 0 then 1 else 0) else - 1)"
  "vmm_get_pte virt s = (if g_vmm_ready s then walk s virt else 0)"
proof -
  have off: "pd_get s i AND PDE_PRESENT = 0 \<longleftrightarrow> \<not> present s i" for i by (simp add: present_def)
  have tab: "pd_get s i AND NOT 0xFFF = table_of s i" for i by (simp only: table_of_def frame_of_def)
  have al: "virt AND 0xFFF \<noteq> 0 \<longleftrightarrow> \<not> page_aligned virt" by (simp only: page_aligned_def)
  note defs = Let_def off tab al PTE_PRESENT_def space_def walk_def frame_of_def
  show "vmm_get_physical virt s = (if g_vmm_ready s \<and> page_aligned virt \<and> space s virt AND 1 \<noteq> 0
     then Some (frame_of (space s virt)) else None)"
    unfolding vmm_get_physical_def defs by (cases "present s (pd_index virt)") auto
  show "vmm_is_mapped virt s = (if g_vmm_ready s \<and> page_aligned virt then (if space s virt AND 1 \<noteq> 0 then 1 else 0) else - 1)"
    unfolding vmm_is_mapped_def defs by (cases "present s (pd_index virt)") auto
  show "vmm_get_pte virt s = (if g_vmm_ready s then walk s virt else 0)"
    unfolding vmm_get_pte_def defs by (cases "present s (pd_index virt)") auto
qed

locale vmm_pages = pmm_backend pmm_alloc_page pmm_free_page pmm_total_pages pmm_free_pages inv managed free_set freeable
  for inv :: "'b pmm_state \<Rightarrow> bool" and managed :: "'b pmm_state \<Rightarrow> u32 set" and free_set :: "'b pmm_state \<Rightarrow> u32 set"
    and freeable :: "'b pmm_state \<Rightarrow> u32 set"
begin

lemma ensure_page_table:
  assumes ok: "vm_ok inv managed free_set (s :: ('b, 'v) vmm_state)" and i: "i < 1024"
    and room: "present s i \<or> free_set (vm_pmm s) \<noteq> {}"
  shows "\<exists>s'. vmm_ensure_page_table i s = (PHYS_TO_VIRT (table_of s' i), s') \<and> PHYS_TO_VIRT (table_of s' i) \<noteq> 0 \<and>
    present s' i \<and> vm_ok inv managed free_set s' \<and> walk s' = walk s \<and> rest_eq s s' \<and> vm_cpu s' = vm_cpu s \<and>
    (\<forall>j < 1024. j \<noteq> i \<longrightarrow> present s' j = present s j) \<and>
    (if present s i then s' = s else vm_pmm s' = snd (pmm_alloc_page (vm_pmm s))) \<and>
    took managed free_set freeable {} s s'"
proof -
  have nz: "PHYS_TO_VIRT a \<noteq> 0" if "a < 0x40000000" for a
  proof
    assume "PHYS_TO_VIRT a = 0"
    then have "a = - KERNEL_VIRT_OFFSET" by (simp add: PHYS_TO_VIRT_def eq_neg_iff_add_eq_0)
    then show False using that by (simp add: KERNEL_VIRT_OFFSET_def)
  qed
  have top: "\<forall>a \<in> managed (vm_pmm s). a < 0x40000000" and len: "length (g_kernel_pd s) = 1024"
    and inv: "inv (vm_pmm s)" and tm: "tables s \<subseteq> managed (vm_pmm s) - free_set (vm_pmm s)"
    and inj: "inj_on (table_of s) {i. i < 1024 \<and> present s i}" using ok by (auto simp: vm_ok_def)
  show ?thesis
  proof (cases "present s i")
    case True
    then have "table_of s i \<in> managed (vm_pmm s)" using tm i by (auto simp: tables_def)
    then have "PHYS_TO_VIRT (table_of s i) \<noteq> 0" using nz top by blast
    moreover have "vmm_ensure_page_table i s = (PHYS_TO_VIRT (table_of s i), s)"
      using True by (simp add: vmm_ensure_page_table_def present_def table_of_def frame_of_def)
    moreover have "took managed free_set freeable {} s s" using ok by (intro took_refl) (auto simp: vm_ok_def)
    ultimately show ?thesis using True ok by (intro exI [of _ s]) simp
  next
    case False
    then have ne: "free_set (vm_pmm s) \<noteq> {}" using room by blast
    obtain p pm where al: "pmm_alloc_page (vm_pmm s) = (p, pm)" by (cases "pmm_alloc_page (vm_pmm s)")
    have p: "p \<in> free_set (vm_pmm s)" "free_set pm = free_set (vm_pmm s) - {p}" "inv pm" "managed pm = managed (vm_pmm s)"
      using alloc_some [OF inv ne] alloc_inv [OF inv] alloc_managed [OF inv] al by auto
    have pm: "p \<in> managed (vm_pmm s)" using p(1) free_managed [OF inv] by blast
    have pa: "page_aligned p" and p0: "p \<noteq> 0" using managed_page [OF inv pm] by auto
    define s' where "s' = pd_set i (p OR PDE_PRESENT OR PDE_WRITABLE)
      (s\<lparr>vm_pmm := pm, vm_mem := memzero_page (PHYS_TO_VIRT p) (vm_mem s)\<rparr>)"
    have run: "vmm_ensure_page_table i s = (PHYS_TO_VIRT p, s')"
      using False p0 al by (simp add: vmm_ensure_page_table_def present_def Let_def s'_def)
    have pd: "pd_get s' j = (if j = i then p OR PDE_PRESENT OR PDE_WRITABLE else pd_get s j)" for j
      using len i unfolding s'_def by (subst pd_get_set) (simp_all add: pd_get_def)
    have mem: "vm_mem s' = memzero_page (PHYS_TO_VIRT p) (vm_mem s)" and pmm: "vm_pmm s' = pm"
      by (simp_all add: s'_def pd_set_def)
    have tab: "table_of s' j = (if j = i then p else table_of s j)" for j
    proof -
      have "frame_of (p OR (PDE_PRESENT OR PDE_WRITABLE)) = p"
        using frame_of_or [OF pa, of 3] by (simp add: PDE_PRESENT_def PDE_WRITABLE_def)
      then show ?thesis unfolding table_of_def pd by (simp only: or.assoc split: if_split) simp
    qed
    have pre: "present s' j = (if j = i then True else present s j)" for j
    proof -
      have "(p OR (PDE_PRESENT OR PDE_WRITABLE)) AND PDE_PRESENT \<noteq> 0"
        using low_of_or [OF pa, of 1 3] by (simp add: PDE_PRESENT_def PDE_WRITABLE_def)
      then show ?thesis unfolding present_def pd by (simp only: or.assoc split: if_split) simp
    qed
    have old: "table_of s j \<noteq> p" if "j < 1024" "present s j" for j
      using tm that p(1) by (auto simp: tables_def)
    have ptes: "walk s' v = walk s v" for v
    proof (cases "pd_index v = i")
      case True
      have "rd32 (vm_mem s') (PHYS_TO_VIRT p + 4 * pt_index v) = 0"
        unfolding mem by (subst memzero_page) (simp_all add: page_aligned_phys_to_virt pa index_lt)
      then show ?thesis using True False by (simp add: walk_def pre tab pt_get_def)
    next
      case ne: False
      show ?thesis
      proof (cases "present s (pd_index v)")
        case True
        have "PHYS_TO_VIRT p \<noteq> PHYS_TO_VIRT (table_of s (pd_index v))"
          using old [OF index_lt(1) True] by (simp add: PHYS_TO_VIRT_def)
        then have "rd32 (vm_mem s') (PHYS_TO_VIRT (table_of s (pd_index v)) + 4 * pt_index v) =
            rd32 (vm_mem s) (PHYS_TO_VIRT (table_of s (pd_index v)) + 4 * pt_index v)"
          unfolding mem by (subst memzero_page) (simp_all add: page_aligned_phys_to_virt pa index_lt table_aligned)
        then show ?thesis using ne True by (simp add: walk_def pre tab pt_get_def)
      qed (simp add: walk_def pre ne)
    qed
    have set: "{j. j < 1024 \<and> present s' j} = insert i {j. j < 1024 \<and> present s j}" using i pre by auto
    have "table_of s' ` {j. j < 1024 \<and> present s j} = table_of s ` {j. j < 1024 \<and> present s j}"
      using False tab by (intro image_cong) auto
    then have tabs: "tables s' = insert p (tables s)"
      unfolding tables_def set image_insert using tab [of i] by (simp only: if_True refl)
    have "inj_on (table_of s') {j. j < 1024 \<and> present s' j}"
      unfolding set using inj old False by (auto simp: inj_on_def tab)
    then have "vm_ok inv managed free_set s'"
      using tabs p pm tm top len by (auto simp: vm_ok_def pmm) (simp add: s'_def vm_simps)
    moreover have "rest_eq s s'" "vm_cpu s' = vm_cpu s" by (simp_all add: rest_eq_def s'_def pd_set_def)
    moreover have "took managed free_set freeable {} s s'"
    proof -
      have "freeable pm = insert p (freeable (vm_pmm s))" using alloc_some [OF inv ne] al by auto
      moreover have "p \<notin> tables s" "free_set (vm_pmm s) \<inter> tables s = {}" using tm p(1) by auto
      ultimately show ?thesis using p tabs by (auto simp: took_def pmm)
    qed
    ultimately show ?thesis
      using run tab [of i] pre ptes False nz [of p] top pm al pmm
      by (intro exI [of _ s']) (auto simp: fun_eq_iff)
  qed
qed

lemma vmm_map_page:
  assumes ok: "vm_ok inv managed free_set (s :: ('b, 'v) vmm_state)" and al: "page_aligned virt" "page_aligned phys"
    and room: "present s (pd_index virt) \<or> free_set (vm_pmm s) \<noteq> {}"
  shows "\<exists>s'. vmm_map_page virt phys flags s = (0, s') \<and> vm_ok inv managed free_set s' \<and>
    space s' = (space s)(virt := phys OR (flags AND 0xFFF)) \<and> rest_eq s s' \<and> 
    vm_cpu s' = vm_cpu s @ (if g_vmm_ready s then [Invlpg virt] else []) \<and>
    (\<forall>j < 1024. present s' j \<longleftrightarrow> present s j \<or> j = pd_index virt) \<and>
    vm_pmm s' = (if present s (pd_index virt) then vm_pmm s else snd (pmm_alloc_page (vm_pmm s))) \<and>
    took managed free_set freeable {} s s'"
proof -
  let ?i = "pd_index virt" and ?k = "pt_index virt" and ?e = "phys OR (flags AND 0xFFF)"
  obtain s1 where s1: "vmm_ensure_page_table ?i s = (PHYS_TO_VIRT (table_of s1 ?i), s1)" "PHYS_TO_VIRT (table_of s1 ?i) \<noteq> 0"
    "present s1 ?i" "vm_ok inv managed free_set s1" "walk s1 = walk s" "rest_eq s s1" "vm_cpu s1 = vm_cpu s"
    "\<forall>j < 1024. j \<noteq> ?i \<longrightarrow> present s1 j = present s j"
    "if present s ?i then s1 = s else vm_pmm s1 = snd (pmm_alloc_page (vm_pmm s))" "took managed free_set freeable {} s s1"
    using ensure_page_table [OF ok index_lt(1) room] by blast
  define s2 where "s2 = (if flags AND PTE_USER \<noteq> 0 then pd_set ?i (pd_get s1 ?i OR PDE_USER) s1 else s1)"
  define s3 where "s3 = pt_set (PHYS_TO_VIRT (table_of s1 ?i)) ?k ?e s2"
  define s' where "s' = (if g_vmm_ready s3 then vmm_invlpg virt s3 else s3)"
  have len: "length (g_kernel_pd s1) = 1024" using s1(4) by (simp add: vm_ok_def)
  have run: "vmm_map_page virt phys flags s = (0, s')"
    using al s1(1,2) frame_of_id [OF al(2)]
    by (simp add: vmm_map_page_def Let_def s2_def s3_def s'_def page_aligned_def frame_of_def)
  have pd2: "pd_get s2 j = (if j = ?i \<and> flags AND PTE_USER \<noteq> 0 then pd_get s1 ?i OR PDE_USER else pd_get s1 j)" for j
    using pd_get_set [OF len index_lt(1), of virt] by (simp add: s2_def)
  have frame2: "vm_mem s2 = vm_mem s1" "vm_pmm s2 = vm_pmm s1" "vm_cpu s2 = vm_cpu s1" "rest_eq s1 s2"
    "length (g_kernel_pd s2) = 1024"
    using len by (simp_all add: s2_def rest_eq_def vm_simps)
  have pre2: "present s2 j = present s1 j" "table_of s2 j = table_of s1 j" for j
  proof -
    have "(pd_get s1 ?i OR PDE_USER) AND PDE_PRESENT = pd_get s1 ?i AND PDE_PRESENT"
      by (simp add: word_ao_dist PDE_USER_def PDE_PRESENT_def)
    then show "present s2 j = present s1 j" by (simp add: present_def pd2)
    have "frame_of (pd_get s1 ?i OR PDE_USER) = frame_of (pd_get s1 ?i)"
      by (rule frame_of_or_low) (simp add: PDE_USER_def)
    then show "table_of s2 j = table_of s1 j" by (simp add: table_of_def pd2)
  qed
  have pre': "present s' j = present s1 j" "table_of s' j = table_of s1 j" for j
    using pre2 by (simp_all add: s'_def s3_def present_def table_of_def vm_simps)
  have tabs: "tables s' = tables s1" by (simp add: tables_def pre')
  have mem: "vm_mem s' = wr32 (vm_mem s1) (PHYS_TO_VIRT (table_of s1 ?i) + 4 * ?k) ?e"
    by (simp add: s'_def s3_def pt_set_def frame2 vmm_invlpg_def)
  have inj: "inj_on (table_of s1) {j. j < 1024 \<and> present s1 j}" using s1(4) by (simp add: vm_ok_def)
  have pmm: "vm_pmm s' = vm_pmm s1" by (simp add: s'_def s3_def vm_simps frame2)
  have w: "walk s' v = ((walk s1)(virt := ?e)) v" if "page_aligned v" for v
  proof (cases "v = virt")
    case True
    then show ?thesis using s1(3) by (simp add: walk_def pre' pt_get_def mem)
  next
    case False
    show ?thesis
    proof (cases "present s1 (pd_index v)")
      case True
      have "table_of s1 ?i \<noteq> table_of s1 (pd_index v) \<or> ?k \<noteq> pt_index v"
        using False indices_inj [OF al(1) that] inj_onD [OF inj, of ?i "pd_index v"] s1(3) True index_lt by auto
      then have "PHYS_TO_VIRT (table_of s1 ?i) \<noteq> PHYS_TO_VIRT (table_of s1 (pd_index v)) \<or> ?k \<noteq> pt_index v"
        by (simp add: PHYS_TO_VIRT_def)
      then have "rd32 (vm_mem s') (PHYS_TO_VIRT (table_of s1 (pd_index v)) + 4 * pt_index v) =
          rd32 (vm_mem s1) (PHYS_TO_VIRT (table_of s1 (pd_index v)) + 4 * pt_index v)"
        unfolding mem by (intro rd_entry_other) (simp_all add: page_aligned_phys_to_virt table_aligned index_lt)
      then show ?thesis using False by (simp add: walk_def pre' pt_get_def)
    qed (simp add: walk_def pre' False)
  qed
  then have sp: "space s' = (space s)(virt := ?e)" using al(1) s1(5) by (auto simp: fun_eq_iff space_def)
  have "vm_ok inv managed free_set s'"
  proof -
    have "present s' = present s1" "table_of s' = table_of s1" using pre' by (simp_all add: fun_eq_iff)
    moreover have "length (g_kernel_pd s') = 1024" using frame2(5) by (simp add: s'_def s3_def vm_simps)
    ultimately show ?thesis using s1(4) tabs pmm by (simp add: vm_ok_def)
  qed
  moreover have "rest_eq s s'"
    using s1(6) frame2(4) by (simp add: rest_eq_def s'_def s3_def vm_simps)
  moreover have "vm_cpu s' = vm_cpu s @ (if g_vmm_ready s then [Invlpg virt] else [])"
    using s1(6,7) frame2(3,4) by (simp add: s'_def s3_def vm_simps rest_eq_def)
  moreover have "vm_pmm s' = (if present s ?i then vm_pmm s else snd (pmm_alloc_page (vm_pmm s)))"
    using s1(9) pmm by (simp split: if_splits)
  moreover have "\<forall>j < 1024. present s' j \<longleftrightarrow> present s j \<or> j = ?i"
    using s1(3,8) by (auto simp: pre')
  moreover have "took managed free_set freeable {} s s'"
    using took_trans [OF s1(10) took_tables_only [of s' s1]] pmm tabs s1(4) by (auto simp: vm_ok_def)
  ultimately show ?thesis using run sp by blast
qed

text \<open>Without a page for the page table nothing is mapped.\<close>

lemma vmm_map_page_fails:
  assumes ok: "vm_ok inv managed free_set (s :: ('b, 'v) vmm_state)" and al: "page_aligned virt" "page_aligned phys"
    and none: "\<not> present s (pd_index virt)" "free_set (vm_pmm s) = {}"
  shows "vmm_map_page virt phys flags s = (- 1, s\<lparr>vm_pmm := snd (pmm_alloc_page (vm_pmm s))\<rparr>)"
proof -
  obtain pm where "pmm_alloc_page (vm_pmm s) = (0, pm)"
    using alloc_none [OF _ none(2)] ok by (cases "pmm_alloc_page (vm_pmm s)") (auto simp: vm_ok_def)
  then have "vmm_ensure_page_table (pd_index virt) s = (0, s\<lparr>vm_pmm := snd (pmm_alloc_page (vm_pmm s))\<rparr>)"
    using none(1) by (simp add: vmm_ensure_page_table_def present_def Let_def split: prod.split)
  then show ?thesis using al by (simp add: vmm_map_page_def Let_def page_aligned_def)
qed

lemma vmm_unmap_page:
  assumes ok: "vm_ok inv managed free_set (s :: ('b, 'v) vmm_state)" and al: "page_aligned virt"
  defines "s' \<equiv> vmm_unmap_page virt s"
  shows "space s' = (space s)(virt := 0)" "vm_ok inv managed free_set s'" "rest_eq s s'" "vm_pmm s' = vm_pmm s"
    "tables s' = tables s" "vm_cpu s' = vm_cpu s @ (if present s (pd_index virt) \<and> g_vmm_ready s then [Invlpg virt] else [])"
proof -
  let ?i = "pd_index virt" and ?k = "pt_index virt"
  have "space s' = (space s)(virt := 0) \<and> vm_ok inv managed free_set s' \<and> rest_eq s s' \<and> vm_pmm s' = vm_pmm s \<and>
    tables s' = tables s \<and> vm_cpu s' = vm_cpu s @ (if present s ?i \<and> g_vmm_ready s then [Invlpg virt] else [])"
  proof (cases "present s ?i")
    case False
    then have "s' = s" using al by (simp add: s'_def vmm_unmap_page_def present_def page_aligned_def)
    moreover have "space s virt = 0" using False by (simp add: space_def walk_def)
    ultimately show ?thesis using False ok by (auto simp: fun_eq_iff)
  next
    case True
    define s1 where "s1 = pt_set (PHYS_TO_VIRT (table_of s ?i)) ?k 0 s"
    have s': "s' = (if g_vmm_ready s1 then vmm_invlpg virt s1 else s1)"
      using True al by (simp add: s'_def vmm_unmap_page_def present_def page_aligned_def Let_def s1_def table_of_def frame_of_def)
    have pd: "pd_get s' j = pd_get s j" for j by (simp add: s' s1_def vm_simps)
    then have pre: "present s' = present s" "table_of s' = table_of s"
      by (simp_all add: fun_eq_iff present_def table_of_def)
    then have tabs: "tables s' = tables s" by (simp add: tables_def)
    have mem: "vm_mem s' = wr32 (vm_mem s) (PHYS_TO_VIRT (table_of s ?i) + 4 * ?k) 0"
      by (simp add: s' s1_def pt_set_def vmm_invlpg_def)
    have inj: "inj_on (table_of s) {j. j < 1024 \<and> present s j}" using ok by (simp add: vm_ok_def)
    have "walk s' v = ((walk s)(virt := 0)) v" if v: "page_aligned v" for v
    proof (cases "v = virt")
      case False
      show ?thesis
      proof (cases "present s (pd_index v)")
        case pv: True
        have "table_of s ?i \<noteq> table_of s (pd_index v) \<or> ?k \<noteq> pt_index v"
          using False indices_inj [OF al v] inj_onD [OF inj, of ?i "pd_index v"] True pv index_lt by auto
        then have "PHYS_TO_VIRT (table_of s ?i) \<noteq> PHYS_TO_VIRT (table_of s (pd_index v)) \<or> ?k \<noteq> pt_index v"
          by (simp add: PHYS_TO_VIRT_def)
        then have "rd32 (vm_mem s') (PHYS_TO_VIRT (table_of s (pd_index v)) + 4 * pt_index v) =
            rd32 (vm_mem s) (PHYS_TO_VIRT (table_of s (pd_index v)) + 4 * pt_index v)"
          unfolding mem by (intro rd_entry_other) (simp_all add: page_aligned_phys_to_virt table_aligned index_lt)
        then show ?thesis using False by (simp add: walk_def pre pt_get_def)
      qed (simp add: walk_def pre False)
    qed (use True in \<open>simp add: walk_def pre pt_get_def mem\<close>)
    then have "space s' = (space s)(virt := 0)" by (auto simp: fun_eq_iff space_def)
    moreover have "vm_ok inv managed free_set s'"
      using ok tabs pre by (simp add: vm_ok_def) (simp add: s' s1_def vm_simps)
    ultimately show ?thesis using tabs True by (simp add: s' s1_def vm_simps rest_eq_def)
  qed
  then show "space s' = (space s)(virt := 0)" "vm_ok inv managed free_set s'" "rest_eq s s'" "vm_pmm s' = vm_pmm s"
    "tables s' = tables s" "vm_cpu s' = vm_cpu s @ (if present s ?i \<and> g_vmm_ready s then [Invlpg virt] else [])" by blast+
qed

end

end
