(* ===== verification/Vmm_Alloc.thy ===== *)
theory Vmm_Alloc
  imports Vmm_Space
begin

text \<open>
  The multi-page operations of \<open>vmm.c\<close> on the address space of \<open>Vmm_Space\<close>: allocation of
  consecutive virtual pages with its rollback, release, and the loop of \<open>vmm_init\<close>.
\<close>

section \<open>Consecutive pages\<close>

definition page_at :: "u32 \<Rightarrow> nat \<Rightarrow> u32" where "page_at start j = start + of_nat j * VMM_PAGE_SIZE"

definition range_ok :: "u32 \<Rightarrow> nat \<Rightarrow> bool" where
  "range_ok start n \<longleftrightarrow> page_aligned start \<and> unat start + n * 4096 < 2 ^ 32"

lemma unat_page_at:
  assumes "range_ok start n" "j \<le> n"
  shows "unat (page_at start j) = unat start + j * 4096"
proof -
  have "j * 4096 \<le> n * 4096" using assms(2) by simp
  then have lt: "unat start + j * 4096 < 2 ^ 32" using assms(1) by (simp add: range_ok_def)
  then have "unat (of_nat j * VMM_PAGE_SIZE) = j * 4096" by (simp add: VMM_PAGE_SIZE_def unat_word_ariths unat_of_nat)
  then show ?thesis using lt unfolding page_at_def by (subst unat_add_no_wrap) simp_all
qed

lemma range_no_overflow:
  assumes "range_ok w (unat count)"
  shows "\<not> 0xFFFFFFFF - w < count * VMM_PAGE_SIZE"
proof -
  have "unat (count * VMM_PAGE_SIZE) = unat count * 4096"
    using assms by (simp add: VMM_PAGE_SIZE_def unat_word_ariths range_ok_def)
  moreover have "unat (0xFFFFFFFF - w) = 0xFFFFFFFF - unat w"
    using unat_lt_2p32 [of w] by (subst unat_sub) (simp_all add: word_le_nat_alt)
  moreover have "unat w + unat count * 4096 < 4294967296" using assms by (simp add: range_ok_def)
  ultimately show ?thesis unfolding word_less_nat_alt by linarith
qed

lemma page_at_aligned: "page_aligned start \<Longrightarrow> page_aligned (page_at start j)"
  unfolding page_at_def
  by (intro page_aligned_add) (auto simp: page_aligned_iff VMM_PAGE_SIZE_def unat_word_ariths intro!: dvd_mod)

lemma page_at_inj: "range_ok start n \<Longrightarrow> i \<le> n \<Longrightarrow> j \<le> n \<Longrightarrow> page_at start i = page_at start j \<longleftrightarrow> i = j"
proof
  assume a: "range_ok start n" "i \<le> n" "j \<le> n" and eq: "page_at start i = page_at start j"
  have "unat start + i * 4096 = unat start + j * 4096"
    using arg_cong [OF eq, of unat] unfolding unat_page_at [OF a(1,2)] unat_page_at [OF a(1,3)] .
  then show "i = j" by simp
qed simp

lemma page_at_unat [simp]: "start + i * VMM_PAGE_SIZE = page_at start (unat i)"
  by (simp add: page_at_def)

definition mapped_frames :: "(u32 \<Rightarrow> u32) \<Rightarrow> u32 \<Rightarrow> nat \<Rightarrow> u32 list \<Rightarrow> (u32 \<Rightarrow> u32) \<Rightarrow> bool" where
  "mapped_frames sp start i fs sp' \<longleftrightarrow> (\<forall>j < length fs. sp' (page_at start (i + j)) = fs ! j OR 3) \<and>
     (\<forall>v. v \<notin> page_at start ` {i..<i + length fs} \<longrightarrow> sp' v = sp v)"

lemma mapped_frames_Nil: "mapped_frames sp start i [] sp' \<longleftrightarrow> sp' = sp"
  by (auto simp: mapped_frames_def)

lemma mapped_frames_Cons:
  assumes "range_ok start n" "i + Suc (length fs) \<le> n"
    and "mapped_frames (sp(page_at start i := f OR 3)) start (Suc i) fs sp'"
  shows "mapped_frames sp start i (f # fs) sp'"
proof -
  have "page_at start i \<noteq> page_at start j" if "j \<in> {Suc i..<Suc i + length fs}" for j
    using page_at_inj [OF assms(1), of i j] assms(2) that by auto
  then have "page_at start i \<notin> page_at start ` {Suc i..<Suc i + length fs}" by blast
  then have "sp' (page_at start i) = (sp(page_at start i := f OR 3)) (page_at start i)"
    using assms(3) unfolding mapped_frames_def by blast
  then have "sp' (page_at start i) = f OR 3" by simp
  moreover have "sp' (page_at start (i + j)) = (f # fs) ! j OR 3" if "0 < j" "j < Suc (length fs)" for j
    using that assms(3) by (cases j) (auto simp: mapped_frames_def)
  moreover have "{i..<i + Suc (length fs)} = insert i {Suc i..<Suc i + length fs}" by auto
  ultimately show ?thesis
    using assms(3) unfolding mapped_frames_def by (auto simp: less_Suc_eq_0_disj)
qed

section \<open>Allocation\<close>

context vmm_pages
begin

text \<open>A page taken from the allocator, and one given back.\<close>

lemma take_page:
  assumes ok: "vm_ok inv managed free_set (s :: ('b, 'v) vmm_state)" and ne: "free_set (vm_pmm s) \<noteq> {}"
    and al: "pmm_alloc_page (vm_pmm s) = (p, pm)"
  shows "vm_ok inv managed free_set (s\<lparr>vm_pmm := pm\<rparr>)" "took managed free_set freeable {p} s (s\<lparr>vm_pmm := pm\<rparr>)"
    "space (s\<lparr>vm_pmm := pm\<rparr>) = space s" "tables (s\<lparr>vm_pmm := pm\<rparr>) = tables s" "page_aligned p" "p \<noteq> 0" "p \<in> free_set (vm_pmm s)"
    "\<And>i. present (s\<lparr>vm_pmm := pm\<rparr>) i = present s i"
proof -
  let ?s = "s\<lparr>vm_pmm := pm\<rparr>"
  have inv: "inv (vm_pmm s)" and dis: "free_set (vm_pmm s) \<inter> tables s = {}" using ok by (auto simp: vm_ok_def)
  have A: "p \<in> free_set (vm_pmm s)" "free_set pm = free_set (vm_pmm s) - {p}" "inv pm" "managed pm = managed (vm_pmm s)"
    "freeable pm = insert p (freeable (vm_pmm s))"
    using alloc_some [OF inv ne] alloc_inv [OF inv] alloc_managed [OF inv] al by auto
  then show "p \<in> free_set (vm_pmm s)" "page_aligned p" "p \<noteq> 0" using managed_page [OF inv] free_managed [OF inv] by blast+
  note sc = space_cong [of ?s s, OF pd_get_frame(2)]
  show t: "tables ?s = tables s" and sp: "space ?s = space s" and "\<And>i. present ?s i = present s i"
    using sc by (simp_all add: space_def fun_eq_iff present_def vm_simps)
  show "vm_ok inv managed free_set ?s"
    using ok A dis by (intro vm_ok_cong [of ?s s]) (auto simp: vm_simps)
  show "took managed free_set freeable {p} s ?s" using A dis t by (auto simp: took_def)
qed

lemma give_page:
  assumes ok: "vm_ok inv managed free_set (s :: ('b, 'v) vmm_state)" and p: "p \<in> freeable (vm_pmm s)" "p \<notin> tables s"
  defines "t \<equiv> s\<lparr>vm_pmm := pmm_free_page p (vm_pmm s)\<rparr>"
  shows "vm_ok inv managed free_set t" "space t = space s" "tables t = tables s"
    "free_set (vm_pmm t) = insert p (free_set (vm_pmm s))" "freeable (vm_pmm t) = freeable (vm_pmm s) - {p}"
    "managed (vm_pmm t) = managed (vm_pmm s)"
proof -
  have inv: "inv (vm_pmm s)" and dis: "free_set (vm_pmm s) \<inter> tables s = {}" using ok by (auto simp: vm_ok_def)
  note sc = space_cong [of t s]
  show "tables t = tables s" "space t = space s"
    using sc by (simp_all add: space_def fun_eq_iff t_def vm_simps)
  show f: "free_set (vm_pmm t) = insert p (free_set (vm_pmm s))" "freeable (vm_pmm t) = freeable (vm_pmm s) - {p}"
    "managed (vm_pmm t) = managed (vm_pmm s)"
    using free_free [OF inv p(1)] free_managed_eq [OF inv p(1)] by (simp_all add: t_def)
  show "vm_ok inv managed free_set t"
    using ok f free_inv [OF inv p(1)] dis p(2) by (intro vm_ok_cong [of t s]) (auto simp: t_def vm_simps)
qed

lemma vmm_alloc_from:
  assumes "vm_ok inv managed free_set (s :: ('b, 'v) vmm_state)" "range_ok start (unat count)" "unat i \<le> unat count"
  shows "\<exists>ok s' fs. vmm_alloc_from start count i s = (ok, s') \<and> vm_ok inv managed free_set s' \<and> rest_eq s s' \<and>
    took managed free_set freeable (set fs) s s' \<and> distinct fs \<and> length fs \<le> unat count - unat i \<and>
    (ok \<longrightarrow> length fs = unat count - unat i) \<and> mapped_frames (space s) start (unat i) fs (space s')"
  using assms
proof (induction start count i s rule: vmm_alloc_from.induct)
  case (1 start count i s)
  note ok = 1(2) and rng = 1(3)
  have dis: "free_set (vm_pmm s) \<inter> tables s = {}" and inv: "inv (vm_pmm s)" using ok by (auto simp: vm_ok_def)
  let ?v = "page_at start (unat i)"
  show ?case
  proof (cases "i < count")
    case False
    then have "vmm_alloc_from start count i s = (True, s)" by (subst vmm_alloc_from.simps) simp
    moreover have "unat i = unat count" using False 1(4) by (simp add: word_less_nat_alt)
    ultimately show ?thesis using ok took_refl [of free_set s managed freeable, OF dis]
      by (intro exI [of _ True] exI [of _ s] exI [of _ "[]"]) (simp add: mapped_frames_Nil)
  next
    case True
    obtain p pm where al: "pmm_alloc_page (vm_pmm s) = (p, pm)" by (cases "pmm_alloc_page (vm_pmm s)")
    define s1 where "s1 = s\<lparr>vm_pmm := pm\<rparr>"
    show ?thesis
    proof (cases "free_set (vm_pmm s) = {}")
      case empty: True
      have A: "p = 0" "free_set pm = {}" "freeable pm = freeable (vm_pmm s)" "inv pm" "managed pm = managed (vm_pmm s)"
        using alloc_none [OF inv empty] alloc_inv [OF inv] alloc_managed [OF inv] al by auto
      then have "vmm_alloc_from start count i s = (False, s1)"
        using True al by (subst vmm_alloc_from.simps) (simp add: Let_def s1_def)
      moreover have "vm_ok inv managed free_set s1"
        using ok A by (intro vm_ok_cong [of s1 s]) (auto simp: s1_def vm_simps)
      moreover have t: "tables s1 = tables s" "space s1 = space s"
        using space_cong [of s1 s] by (simp_all add: space_def fun_eq_iff s1_def vm_simps)
      moreover have "took managed free_set freeable {} s s1"
        using A empty t dis by (auto simp: took_def s1_def)
      ultimately show ?thesis
        by (intro exI [of _ False] exI [of _ s1] exI [of _ "[]"]) (simp add: mapped_frames_Nil rest_eq_def s1_def)
    next
      case ne: False
      note tp = take_page [OF ok ne al, folded s1_def]
      have al_v: "page_aligned ?v" using rng by (simp add: page_at_aligned range_ok_def)
      show ?thesis
      proof (cases "present s1 (pd_index ?v) \<or> free_set (vm_pmm s1) \<noteq> {}")
        case room: True
        obtain s2 where s2: "vmm_map_page ?v p (PTE_PRESENT OR PTE_WRITABLE) s1 = (0, s2)" "vm_ok inv managed free_set s2"
          "space s2 = (space s1)(?v := p OR ((PTE_PRESENT OR PTE_WRITABLE) AND 0xFFF))" "rest_eq s1 s2"
          "took managed free_set freeable {} s1 s2"
          using vmm_map_page [OF tp(1) al_v tp(5) room] by blast
        have sp2: "space s2 = (space s)(?v := p OR 3)"
          using s2(3) tp(3) by (simp add: PTE_PRESENT_def PTE_WRITABLE_def)
        have ui: "unat (i + 1) = Suc (unat i)" by (rule unat_inc [OF True])
        have le: "unat (i + 1) \<le> unat count" using ui True by (simp add: word_less_nat_alt)
        have m: "(0, s2) = vmm_map_page (start + i * VMM_PAGE_SIZE) p (PTE_PRESENT OR PTE_WRITABLE) (s\<lparr>vm_pmm := pm\<rparr>)"
          using s2(1) by (simp add: s1_def)
        have z: "\<not> (0 :: int) \<noteq> 0" by simp
        obtain b s' fs where IH: "vmm_alloc_from start count (i + 1) s2 = (b, s')" "vm_ok inv managed free_set s'"
          "rest_eq s2 s'" "took managed free_set freeable (set fs) s2 s'" "distinct fs" "length fs \<le> unat count - unat (i + 1)"
          "b \<longrightarrow> length fs = unat count - unat (i + 1)" "mapped_frames (space s2) start (unat (i + 1)) fs (space s')"
          using 1(1) [OF True refl al [symmetric] refl tp(6) m z s2(2) rng le] by blast
        have "vmm_alloc_from start count i s = (b, s')"
          using True al tp(6) s2(1) IH(1) by (subst vmm_alloc_from.simps) (simp add: Let_def s1_def)
        moreover have "took managed free_set freeable (set (p # fs)) s s'"
          using took_trans [OF took_trans [OF tp(2) s2(5)] IH(4)] by simp
        moreover from tp(2) s2(5) IH(4) have "p \<notin> set fs"
        proof -
          have "took managed free_set freeable ({p} \<union> {}) s s2" by (rule took_trans [OF tp(2) s2(5)])
          then show ?thesis using IH(4) by (auto simp: took_def)
        qed
        moreover have "mapped_frames (space s) start (unat i) (p # fs) (space s')"
          using IH(6,8) ui True sp2
          by (intro mapped_frames_Cons [OF rng]) (auto simp: word_less_nat_alt)
        moreover have "rest_eq s s'" using IH(3) s2(4) by (simp add: rest_eq_def s1_def)
        ultimately show ?thesis
          using IH(2,5,6,7) ui True
          by (intro exI [of _ b] exI [of _ s'] exI [of _ "p # fs"]) (auto simp: word_less_nat_alt)
      next
        case False
        then have none: "\<not> present s1 (pd_index ?v)" "free_set (vm_pmm s1) = {}" by auto
        obtain pm2 where al2: "pmm_alloc_page (vm_pmm s1) = (0, pm2)"
          using alloc_none [OF _ none(2)] tp(1) by (cases "pmm_alloc_page (vm_pmm s1)") (auto simp: vm_ok_def)
        define s2 where "s2 = s1\<lparr>vm_pmm := pm2\<rparr>"
        have inv1: "inv (vm_pmm s1)" using tp(1) by (simp add: vm_ok_def)
        have A: "free_set pm2 = {}" "freeable pm2 = freeable (vm_pmm s1)" "inv pm2" "managed pm2 = managed (vm_pmm s1)"
          using alloc_none [OF inv1 none(2)] alloc_inv [OF inv1] alloc_managed [OF inv1] al2 by auto
        have ok2: "vm_ok inv managed free_set s2"
          using tp(1) A by (intro vm_ok_cong [of s2 s1]) (auto simp: s2_def vm_simps)
        have t2: "tables s2 = tables s1" "space s2 = space s1"
          using space_cong [of s2 s1] by (simp_all add: space_def fun_eq_iff s2_def vm_simps)
        define s3 where "s3 = s2\<lparr>vm_pmm := pmm_free_page p (vm_pmm s2)\<rparr>"
        have T: "p \<in> freeable (vm_pmm s1)" "p \<notin> tables s1" "free_set (vm_pmm s1) = free_set (vm_pmm s) - tables s1 - {p}"
          "freeable (vm_pmm s1) = freeable (vm_pmm s) \<union> {p}" "managed (vm_pmm s1) = managed (vm_pmm s)"
          using tp(2,4) by (auto simp: took_def)
        have pf: "p \<in> freeable (vm_pmm s2)" "p \<notin> tables s2" using T A t2 by (simp_all add: s2_def)
        note g = give_page [OF ok2 pf, folded s3_def]
        have "vmm_map_page ?v p (PTE_PRESENT OR PTE_WRITABLE) s1 = (- 1, s2)"
          using vmm_map_page_fails [OF tp(1) al_v tp(5) none] al2 by (simp add: s2_def)
        then have "vmm_alloc_from start count i s = (False, s3)"
          using True al tp(6) by (subst vmm_alloc_from.simps) (simp add: Let_def s1_def s3_def)
        moreover have "took managed free_set freeable {} s s3"
        proof -
          have "free_set (vm_pmm s) = {p}" using none(2) T(3) tp(4,7) dis by auto
          moreover have "p \<notin> freeable (vm_pmm s)" using freeable_managed [OF inv] tp(7) by auto
          ultimately show ?thesis using g A T t2 tp(4) dis by (auto simp: took_def s2_def)
        qed
        moreover have "space s3 = space s" "rest_eq s s3" using g(2) t2 tp(3) by (simp_all add: rest_eq_def s3_def s2_def s1_def)
        ultimately show ?thesis using g(1)
          by (intro exI [of _ False] exI [of _ s3] exI [of _ "[]"]) (simp add: mapped_frames_Nil)
      qed
    qed
  qed
qed

end

section \<open>Giving pages back\<close>

text \<open>The pages \<open>j..<n\<close> of a range that are mapped, and their frames. The frames may be given back when
  they were taken from the allocator, hold no page table and are not shared.\<close>

definition live :: "(u32 \<Rightarrow> u32) \<Rightarrow> u32 \<Rightarrow> nat \<Rightarrow> nat \<Rightarrow> nat set" where
  "live sp start j n = {k \<in> {j..<n}. sp (page_at start k) AND 1 \<noteq> 0}"

definition frames :: "(u32 \<Rightarrow> u32) \<Rightarrow> u32 \<Rightarrow> nat \<Rightarrow> nat \<Rightarrow> u32 set" where
  "frames sp start j n = (\<lambda>k. frame_of (sp (page_at start k))) ` live sp start j n"

definition droppable :: "(u32 \<Rightarrow> u32) \<Rightarrow> u32 \<Rightarrow> nat \<Rightarrow> nat \<Rightarrow> u32 set \<Rightarrow> bool" where
  "droppable sp start j n A \<longleftrightarrow> frames sp start j n \<subseteq> A \<and>
     inj_on (\<lambda>k. frame_of (sp (page_at start k))) (live sp start j n)"

definition cleared :: "(u32 \<Rightarrow> u32) \<Rightarrow> u32 \<Rightarrow> nat \<Rightarrow> nat \<Rightarrow> bool \<Rightarrow> u32 \<Rightarrow> u32" where
  "cleared sp start j n all v =
     (if v \<in> page_at start ` (if all then {j..<n} else live sp start j n) then 0 else sp v)"

lemma live_Suc: "j < n \<Longrightarrow> live sp start j n = (if sp (page_at start j) AND 1 \<noteq> 0 then insert j (live sp start (Suc j) n)
    else live sp start (Suc j) n)"
  by (auto simp: live_def Suc_le_eq le_less)

lemma live_upd:
  assumes "range_ok start n" "j < n"
  shows "live (sp(page_at start j := e)) start (Suc j) n = live sp start (Suc j) n"
    "frames (sp(page_at start j := e)) start (Suc j) n = frames sp start (Suc j) n"
    "\<And>A. droppable (sp(page_at start j := e)) start (Suc j) n A = droppable sp start (Suc j) n A"
proof -
  have ne: "page_at start k \<noteq> page_at start j" if "k \<in> {Suc j..<n}" for k
    using page_at_inj [OF assms(1), of k j] assms(2) that by auto
  then show l: "live (sp(page_at start j := e)) start (Suc j) n = live sp start (Suc j) n"
    by (auto simp: live_def)
  have sub: "live sp start (Suc j) n \<subseteq> {Suc j..<n}" by (auto simp: live_def)
  have fr: "frame_of ((sp(page_at start j := e)) (page_at start k)) = frame_of (sp (page_at start k))"
    if "k \<in> live sp start (Suc j) n" for k using ne [of k] that sub by auto
  then show f: "frames (sp(page_at start j := e)) start (Suc j) n = frames sp start (Suc j) n"
    unfolding frames_def l by (intro image_cong) auto
  show "\<And>A. droppable (sp(page_at start j := e)) start (Suc j) n A = droppable sp start (Suc j) n A"
    unfolding droppable_def f l using fr by (simp cong: inj_on_cong)
qed

lemma droppable_Suc:
  assumes "droppable sp start j n A" "j < n"
  shows "droppable sp start (Suc j) n (A - (if sp (page_at start j) AND 1 \<noteq> 0 then {frame_of (sp (page_at start j))} else {}))"
    "sp (page_at start j) AND 1 \<noteq> 0 \<Longrightarrow> frame_of (sp (page_at start j)) \<in> A"
proof -
  have notin: "j \<notin> live sp start (Suc j) n" by (simp add: live_def)
  show "sp (page_at start j) AND 1 \<noteq> 0 \<Longrightarrow> frame_of (sp (page_at start j)) \<in> A"
    using assms by (auto simp: droppable_def frames_def live_Suc)
  show "droppable sp start (Suc j) n (A - (if sp (page_at start j) AND 1 \<noteq> 0 then {frame_of (sp (page_at start j))} else {}))"
  proof (cases "sp (page_at start j) AND 1 \<noteq> 0")
    case True
    then have l: "live sp start j n = insert j (live sp start (Suc j) n)" using live_Suc [OF assms(2)] by simp
    have "inj_on (\<lambda>k. frame_of (sp (page_at start k))) (insert j (live sp start (Suc j) n))"
      "(\<lambda>k. frame_of (sp (page_at start k))) ` insert j (live sp start (Suc j) n) \<subseteq> A"
      using assms(1) unfolding droppable_def frames_def l by auto
    then show ?thesis using True notin unfolding droppable_def frames_def by (auto simp: inj_on_insert image_iff)
  next
    case False
    then show ?thesis using assms live_Suc [OF assms(2), of sp start] by (simp add: droppable_def frames_def)
  qed
qed

lemma cleared_step:
  assumes "range_ok start n" "j < n" "all \<or> sp (page_at start j) AND 1 \<noteq> 0"
  shows "cleared (sp(page_at start j := 0)) start (Suc j) n all = cleared sp start j n all"
proof -
  have split: "{j..<n} = insert j {Suc j..<n}" using assms(2) by auto
  have dom: "page_at start ` (if all then {j..<n} else live sp start j n) =
      insert (page_at start j) (page_at start ` (if all then {Suc j..<n} else live sp start (Suc j) n))"
    using assms(3) live_Suc [OF assms(2), of sp start] split by auto
  show ?thesis
    unfolding cleared_def fun_eq_iff dom live_upd [OF assms(1,2)] by auto
qed

lemma cleared_skip:
  assumes "j < n" "sp (page_at start j) AND 1 = 0"
  shows "cleared sp start (Suc j) n False = cleared sp start j n False"
  using live_Suc [OF assms(1), of sp start] assms(2) by (simp add: cleared_def fun_eq_iff)

lemma frames_Suc: "j < n \<Longrightarrow> frames sp start j n = (if sp (page_at start j) AND 1 \<noteq> 0
    then insert (frame_of (sp (page_at start j))) (frames sp start (Suc j) n) else frames sp start (Suc j) n)"
  by (simp add: frames_def live_Suc)

text \<open>The frames of a range that was unused before \<open>fs\<close> was mapped into it.\<close>

lemma alloc_frames:
  assumes rng: "range_ok w n" and unused: "\<forall>j < n. sp (page_at w j) = 0"
    and mf: "mapped_frames sp w 0 fs sp'" and len: "length fs \<le> n"
    and al: "\<And>f. f \<in> set fs \<Longrightarrow> page_aligned f" and dist: "distinct fs"
  shows "live sp' w 0 n = {..<length fs}" "frames sp' w 0 n = set fs"
    "set fs \<subseteq> ok \<Longrightarrow> droppable sp' w 0 n ok" "cleared sp' w 0 n b = sp"
proof -
  have inr: "page_at w j \<in> page_at w ` {0..<length fs} \<longleftrightarrow> j < length fs" if "j < n" for j
    using page_at_inj [OF rng, of j] that len by (auto simp: image_iff)
  have fr: "frame_of (f OR 3) = f" "(f OR 3) AND 1 \<noteq> 0" if "f \<in> set fs" for f
    using frame_of_or [OF al [OF that], of 3] low_of_or [OF al [OF that], of 1 3] by simp_all
  have sp: "sp' (page_at w j) = (if j < length fs then fs ! j OR 3 else 0)" if "j < n" for j
    using mf inr [OF that] unused that by (auto simp: mapped_frames_def)
  show lv: "live sp' w 0 n = {..<length fs}"
    using sp fr len by (auto simp: live_def split: if_splits)
  have img: "frame_of (sp' (page_at w j)) = fs ! j" if "j < length fs" for j
    using sp [of j] that len fr by auto
  show frs: "frames sp' w 0 n = set fs"
    unfolding frames_def lv using img by (auto simp: in_set_conv_nth image_iff Bex_def)
  show "set fs \<subseteq> ok \<Longrightarrow> droppable sp' w 0 n ok"
    unfolding droppable_def frs lv using img dist by (auto simp: inj_on_def nth_eq_iff_index_eq)
  show "cleared sp' w 0 n b = sp"
  proof
    fix v show "cleared sp' w 0 n b v = sp v"
    proof (cases "v \<in> page_at w ` {..<length fs}")
      case True
      then show ?thesis using lv unused len sp by (auto simp: cleared_def)
    next
      case False
      then have "sp' v = sp v" using mf by (auto simp: mapped_frames_def atLeast0LessThan)
      then show ?thesis using False lv unused by (auto simp: cleared_def)
    qed
  qed
qed

context vmm_pages
begin

lemma drop_page:
  assumes ok: "vm_ok inv managed free_set (s :: ('b, 'v) vmm_state)" and al: "page_aligned v"
    and f: "f \<in> freeable (vm_pmm s)" "f \<notin> tables s"
  defines "t \<equiv> vmm_unmap_page v (s\<lparr>vm_pmm := pmm_free_page f (vm_pmm s)\<rparr>)"
  shows "vm_ok inv managed free_set t" "space t = (space s)(v := 0)" "tables t = tables s" "rest_eq s t"
    "free_set (vm_pmm t) = insert f (free_set (vm_pmm s))" "freeable (vm_pmm t) = freeable (vm_pmm s) - {f}"
    "managed (vm_pmm t) = managed (vm_pmm s)"
proof -
  note g = give_page [OF ok f]
  note u = vmm_unmap_page [OF g(1) al, folded t_def]
  show "vm_ok inv managed free_set t" "space t = (space s)(v := 0)" "tables t = tables s"
    "free_set (vm_pmm t) = insert f (free_set (vm_pmm s))" "freeable (vm_pmm t) = freeable (vm_pmm s) - {f}"
    "managed (vm_pmm t) = managed (vm_pmm s)"
    using u g by simp_all
  show "rest_eq s t" using u(3) by (simp add: rest_eq_def)
qed

lemma vmm_rollback_from:
  assumes "vm_ok inv managed free_set (s :: ('b, 'v) vmm_state)" "range_ok start (unat count)" "unat j \<le> unat count"
    and "g_vmm_ready s" "droppable (space s) start (unat j) (unat count) (freeable (vm_pmm s) - tables s)"
  defines "s' \<equiv> vmm_rollback_from start count j s"
  shows "vm_ok inv managed free_set s' \<and> rest_eq s s' \<and> tables s' = tables s \<and> managed (vm_pmm s') = managed (vm_pmm s) \<and>
    space s' = cleared (space s) start (unat j) (unat count) False \<and>
    free_set (vm_pmm s') = free_set (vm_pmm s) \<union> frames (space s) start (unat j) (unat count) \<and>
    freeable (vm_pmm s') = freeable (vm_pmm s) - frames (space s) start (unat j) (unat count)"
  using assms(1-5) unfolding s'_def
proof (induction start count j s rule: vmm_rollback_from.induct)
  case (1 start count j s)
  let ?v = "page_at start (unat j)"
  show ?case
  proof (cases "j < count")
    case False
    then have "unat j = unat count" "vmm_rollback_from start count j s = s"
      using 1(4) by (simp add: word_less_nat_alt, subst vmm_rollback_from.simps, simp)
    then show ?thesis using 1(2) by (simp add: cleared_def frames_def live_def fun_eq_iff)
  next
    case True
    then have lt: "unat j < unat count" by (simp add: word_less_nat_alt)
    have uj: "unat (j + 1) = Suc (unat j)" by (rule unat_inc [OF True])
    have al: "page_aligned ?v" using 1(3) by (simp add: page_at_aligned range_ok_def)
    define t where "t = (case vmm_get_physical ?v s of None \<Rightarrow> s
      | Some f \<Rightarrow> vmm_unmap_page ?v (s\<lparr>vm_pmm := pmm_free_page f (vm_pmm s)\<rparr>))"
    have step: "vmm_rollback_from start count j s = vmm_rollback_from start count (j + 1) t"
      using True by (subst vmm_rollback_from.simps) (simp add: t_def Let_def)
    have IH: "vm_ok inv managed free_set t \<Longrightarrow> g_vmm_ready t \<Longrightarrow>
        droppable (space t) start (Suc (unat j)) (unat count) (freeable (vm_pmm t) - tables t) \<Longrightarrow>
        vm_ok inv managed free_set (vmm_rollback_from start count j s) \<and> rest_eq t (vmm_rollback_from start count j s) \<and>
        tables (vmm_rollback_from start count j s) = tables t \<and> managed (vm_pmm (vmm_rollback_from start count j s)) = managed (vm_pmm t) \<and>
        space (vmm_rollback_from start count j s) = cleared (space t) start (Suc (unat j)) (unat count) False \<and>
        free_set (vm_pmm (vmm_rollback_from start count j s)) = free_set (vm_pmm t) \<union> frames (space t) start (Suc (unat j)) (unat count) \<and>
        freeable (vm_pmm (vmm_rollback_from start count j s)) = freeable (vm_pmm t) - frames (space t) start (Suc (unat j)) (unat count)"
      using 1(1) [OF True refl, unfolded page_at_unat, folded t_def] 1(3) lt unfolding step uj by simp
    note dr = droppable_Suc [OF 1(6) lt]
    show ?thesis
    proof (cases "space s ?v AND 1 \<noteq> 0")
      case live: True
      let ?f = "frame_of (space s ?v)"
      have t: "t = vmm_unmap_page ?v (s\<lparr>vm_pmm := pmm_free_page ?f (vm_pmm s)\<rparr>)"
        using live al 1(5) by (simp add: t_def query_space)
      have "?f \<in> freeable (vm_pmm s)" "?f \<notin> tables s" using dr(2) live by auto
      note dp = drop_page [OF 1(2) al this, folded t]
      have rest: "g_vmm_ready t" using dp(4) 1(5) by (simp add: rest_eq_def)
      have "droppable (space t) start (Suc (unat j)) (unat count) (freeable (vm_pmm t) - tables t)"
        using dr(1) live unfolding dp(2) live_upd(3) [OF 1(3) lt] dp(3,6) by (simp add: Diff_insert2 [symmetric] set_diff_eq conj_commute conj_left_commute)
      from IH [OF dp(1) rest this] show ?thesis
        using dp live cleared_step [OF 1(3) lt, of False "space s"] live_upd [OF 1(3) lt, of "space s" 0] frames_Suc [OF lt, of "space s" start]
        by (auto simp: rest_eq_def)
    next
      case False
      then have t: "t = s" using al 1(5) by (simp add: t_def query_space)
      have "droppable (space t) start (Suc (unat j)) (unat count) (freeable (vm_pmm t) - tables t)"
        using dr(1) False by (simp add: t)
      then show ?thesis
        using IH 1(2,5) False cleared_skip [OF lt, of "space s" start] frames_Suc [OF lt, of "space s" start] by (simp add: t)
    qed
  qed
qed

lemma vmm_free_from:
  assumes "vm_ok inv managed free_set (s :: ('b, 'v) vmm_state)" "range_ok start (unat count)" "unat i \<le> unat count"
    and "g_vmm_ready s" "droppable (space s) start (unat i) (unat count) (freeable (vm_pmm s) - tables s)"
  defines "s' \<equiv> vmm_free_from start count i s"
  shows "vm_ok inv managed free_set s' \<and> rest_eq s s' \<and> tables s' = tables s \<and> managed (vm_pmm s') = managed (vm_pmm s) \<and>
    space s' = cleared (space s) start (unat i) (unat count) True \<and>
    free_set (vm_pmm s') = free_set (vm_pmm s) \<union> frames (space s) start (unat i) (unat count) \<and>
    freeable (vm_pmm s') = freeable (vm_pmm s) - frames (space s) start (unat i) (unat count)"
  using assms(1-5) unfolding s'_def
proof (induction start count i s rule: vmm_free_from.induct)
  case (1 start count i s)
  let ?v = "page_at start (unat i)"
  show ?case
  proof (cases "i < count")
    case False
    then have "unat i = unat count" "vmm_free_from start count i s = s"
      using 1(4) by (simp add: word_less_nat_alt, subst vmm_free_from.simps, simp)
    then show ?thesis using 1(2) by (simp add: cleared_def frames_def live_def fun_eq_iff)
  next
    case True
    then have lt: "unat i < unat count" by (simp add: word_less_nat_alt)
    have ui: "unat (i + 1) = Suc (unat i)" by (rule unat_inc [OF True])
    have al: "page_aligned ?v" using 1(3) by (simp add: page_at_aligned range_ok_def)
    define t where "t = vmm_unmap_page ?v (case vmm_get_physical ?v s of None \<Rightarrow> s
      | Some f \<Rightarrow> s\<lparr>vm_pmm := pmm_free_page f (vm_pmm s)\<rparr>)"
    have step: "vmm_free_from start count i s = vmm_free_from start count (i + 1) t"
      using True by (subst vmm_free_from.simps) (simp add: t_def Let_def)
    have IH: "vm_ok inv managed free_set t \<Longrightarrow> g_vmm_ready t \<Longrightarrow>
        droppable (space t) start (Suc (unat i)) (unat count) (freeable (vm_pmm t) - tables t) \<Longrightarrow>
        vm_ok inv managed free_set (vmm_free_from start count i s) \<and> rest_eq t (vmm_free_from start count i s) \<and>
        tables (vmm_free_from start count i s) = tables t \<and> managed (vm_pmm (vmm_free_from start count i s)) = managed (vm_pmm t) \<and>
        space (vmm_free_from start count i s) = cleared (space t) start (Suc (unat i)) (unat count) True \<and>
        free_set (vm_pmm (vmm_free_from start count i s)) = free_set (vm_pmm t) \<union> frames (space t) start (Suc (unat i)) (unat count) \<and>
        freeable (vm_pmm (vmm_free_from start count i s)) = freeable (vm_pmm t) - frames (space t) start (Suc (unat i)) (unat count)"
      using 1(1) [OF True refl refl, unfolded page_at_unat, folded t_def] 1(3) lt unfolding step ui by simp
    note dr = droppable_Suc [OF 1(6) lt]
    have dp: "vm_ok inv managed free_set t" "space t = (space s)(?v := 0)" "tables t = tables s" "rest_eq s t"
      "free_set (vm_pmm t) = (if space s ?v AND 1 \<noteq> 0 then insert (frame_of (space s ?v)) (free_set (vm_pmm s)) else free_set (vm_pmm s))"
      "freeable (vm_pmm t) = freeable (vm_pmm s) - (if space s ?v AND 1 \<noteq> 0 then {frame_of (space s ?v)} else {})"
      "managed (vm_pmm t) = managed (vm_pmm s)"
    proof -
      have "vm_ok inv managed free_set t \<and> space t = (space s)(?v := 0) \<and> tables t = tables s \<and> rest_eq s t \<and>
        free_set (vm_pmm t) = (if space s ?v AND 1 \<noteq> 0 then insert (frame_of (space s ?v)) (free_set (vm_pmm s)) else free_set (vm_pmm s)) \<and>
        freeable (vm_pmm t) = freeable (vm_pmm s) - (if space s ?v AND 1 \<noteq> 0 then {frame_of (space s ?v)} else {}) \<and>
        managed (vm_pmm t) = managed (vm_pmm s)"
      proof (cases "space s ?v AND 1 \<noteq> 0")
        case live: True
        have "frame_of (space s ?v) \<in> freeable (vm_pmm s)" "frame_of (space s ?v) \<notin> tables s" using dr(2) live by auto
        note dp = drop_page [OF 1(2) al this]
        have "t = vmm_unmap_page ?v (s\<lparr>vm_pmm := pmm_free_page (frame_of (space s ?v)) (vm_pmm s)\<rparr>)"
          using live al 1(5) by (simp add: t_def query_space)
        then show ?thesis using dp live by simp
      next
        case False
        then have "t = vmm_unmap_page ?v s" using al 1(5) by (simp add: t_def query_space)
        then show ?thesis using vmm_unmap_page [OF 1(2) al] False by simp
      qed
      then show "vm_ok inv managed free_set t" "space t = (space s)(?v := 0)" "tables t = tables s" "rest_eq s t"
        "free_set (vm_pmm t) = (if space s ?v AND 1 \<noteq> 0 then insert (frame_of (space s ?v)) (free_set (vm_pmm s)) else free_set (vm_pmm s))"
        "freeable (vm_pmm t) = freeable (vm_pmm s) - (if space s ?v AND 1 \<noteq> 0 then {frame_of (space s ?v)} else {})"
        "managed (vm_pmm t) = managed (vm_pmm s)" by blast+
    qed
    have rest: "g_vmm_ready t" using dp(4) 1(5) by (simp add: rest_eq_def)
    have "droppable (space t) start (Suc (unat i)) (unat count) (freeable (vm_pmm t) - tables t)"
      using dr(1) unfolding dp(2) live_upd(3) [OF 1(3) lt] dp(3,6) by (simp add: set_diff_eq conj_commute conj_left_commute)
    from IH [OF dp(1) rest this] show ?thesis
      using dp cleared_step [OF 1(3) lt, of True "space s"] live_upd [OF 1(3) lt, of "space s" 0] frames_Suc [OF lt, of "space s" start]
      by (auto simp: rest_eq_def)
  qed
qed

text \<open>Allocating \<open>count\<close> pages from an unused part of the address space: all of them are mapped to
  pages of their own, or nothing is.\<close>

lemma vmm_alloc_pages:
  assumes ok: "vm_ok inv managed free_set (s :: ('b, 'v) vmm_state)" and rdy: "g_vmm_ready s"
    and rng: "0 < count" "range_ok (g_next_vaddr s) (unat count)" "g_next_vaddr s \<noteq> 0"
    and unused: "\<forall>j < unat count. space s (page_at (g_next_vaddr s) j) = 0"
  shows "\<exists>r s' fs. vmm_alloc_pages count s = (r, s') \<and> vm_ok inv managed free_set s' \<and> distinct fs \<and> 
    took managed free_set freeable (set fs) s s' \<and> g_next_vaddr s' = g_next_vaddr s + count * VMM_PAGE_SIZE \<and> g_vmm_ready s' \<and>
    (if r = 0 then fs = [] \<and> space s' = space s
     else r = g_next_vaddr s \<and> length fs = unat count \<and> mapped_frames (space s) r 0 fs (space s'))"
proof -
  let ?w = "g_next_vaddr s"
  define s0 where "s0 = s\<lparr>g_next_vaddr := ?w + count * VMM_PAGE_SIZE\<rparr>"
  have sc: "space s0 = space s" "tables s0 = tables s"
    using space_cong [of s0 s] by (simp_all add: s0_def space_def fun_eq_iff vm_simps)
  have ok0: "vm_ok inv managed free_set s0" using ok by (intro vm_ok_cong [of s0 s]) (auto simp: s0_def vm_simps vm_ok_def)
  obtain b s1 fs where al: "vmm_alloc_from ?w count 0 s0 = (b, s1)" "vm_ok inv managed free_set s1" "rest_eq s0 s1"
    "took managed free_set freeable (set fs) s0 s1" "distinct fs" "length fs \<le> unat count"
    "b \<longrightarrow> length fs = unat count" "mapped_frames (space s) ?w 0 fs (space s1)"
    using vmm_alloc_from [OF ok0 rng(2), of 0] sc by auto
  have "\<not> 0xFFFFFFFF - ?w < count * VMM_PAGE_SIZE" by (rule range_no_overflow [OF rng(2)])
  then have run: "vmm_alloc_pages count s = (if b then (?w, if vma_is_ready (vm_vma s1) then
        s1\<lparr>vm_vma := snd (vma_add (vm_vma s1) ?w (?w + count * VMM_PAGE_SIZE) (VMA_READ OR VMA_WRITE) (Some ''vmm-alloc''))\<rparr>
      else s1) else (0, vmm_rollback_from ?w count 0 s1))"
    using rng rdy al(1) word_gt_0 [of count] by (simp add: vmm_alloc_pages_def s0_def Let_def)
  have tk: "took managed free_set freeable (set fs) s s1" using al(4) sc(2) by (simp add: took_def s0_def)
  have nv: "g_next_vaddr s1 = ?w + count * VMM_PAGE_SIZE" using al(3) by (simp add: rest_eq_def s0_def)
  have rdy1: "g_vmm_ready s1" using al(3) rdy by (simp add: rest_eq_def s0_def)
  show ?thesis
  proof (cases b)
    case True
    define s2 where "s2 = (if vma_is_ready (vm_vma s1) then
        s1\<lparr>vm_vma := snd (vma_add (vm_vma s1) ?w (?w + count * VMM_PAGE_SIZE) (VMA_READ OR VMA_WRITE) (Some ''vmm-alloc''))\<rparr> else s1)"
    have c: "pd_get s2 i = pd_get s1 i" for i by (simp add: s2_def vm_simps)
    have f: "vm_mem s2 = vm_mem s1" "vm_pmm s2 = vm_pmm s1" "g_next_vaddr s2 = g_next_vaddr s1" "g_vmm_ready s2 = g_vmm_ready s1"
      "length (g_kernel_pd s2) = length (g_kernel_pd s1)" by (simp_all add: s2_def)
    have "space s2 = space s1" "tables s2 = tables s1"
      unfolding fun_eq_iff space_def space_cong [of s2 s1, OF c f(1)] by simp_all
    moreover have "vm_ok inv managed free_set s2"
      using al(2) f by (intro vm_ok_cong [of s2 s1, OF c]) (auto simp: vm_ok_def)
    moreover have "vmm_alloc_pages count s = (?w, s2)" using run True by (simp add: s2_def)
    ultimately show ?thesis
      using True al tk nv rng(3) f rdy1 by (intro exI [of _ ?w] exI [of _ s2] exI [of _ fs]) (auto simp: took_def)
  next
    case False
    define s2 where "s2 = vmm_rollback_from ?w count 0 s1"
    have pa: "page_aligned f" if "f \<in> set fs" for f
      using that tk managed_page free_managed ok unfolding took_def vm_ok_def by blast
    note af = alloc_frames [OF rng(2) unused al(8,6) pa al(5)]
    note lv = af(1) and frs = af(2)
    have dr: "droppable (space s1) ?w 0 (unat count) (freeable (vm_pmm s1) - tables s1)"
      using tk by (intro af) (auto simp: took_def)
    have rb: "vm_ok inv managed free_set s2 \<and> rest_eq s1 s2 \<and> tables s2 = tables s1 \<and> managed (vm_pmm s2) = managed (vm_pmm s1) \<and>
      space s2 = cleared (space s1) ?w 0 (unat count) False \<and>
      free_set (vm_pmm s2) = free_set (vm_pmm s1) \<union> set fs \<and> freeable (vm_pmm s2) = freeable (vm_pmm s1) - set fs"
      using vmm_rollback_from [OF al(2) rng(2), of 0] rdy1 dr frs by (simp add: s2_def)
    have "space s2 = space s" using rb af(4) by simp
    moreover have "took managed free_set freeable {} s s2"
    proof -
      have "set fs \<inter> freeable (vm_pmm s) = {}" using freeable_managed tk ok unfolding took_def vm_ok_def by blast
      then show ?thesis using rb tk by (auto simp: took_def)
    qed
    ultimately show ?thesis
      using run False rb nv rdy1 by (intro exI [of _ 0] exI [of _ s2] exI [of _ "[]"]) (auto simp: s2_def rest_eq_def)
  qed
qed

end

end
