(* ===== verification/Vmm_Init.thy ===== *)
theory Vmm_Init
  imports Vmm_Alloc
begin

text \<open>
  \<open>vmm_init\<close> builds the identity mapping and the direct map, \<open>vmm_unmap_identity\<close> removes the
  former. The loop over the pages returns for every physical range that \<open>vmm_map_end\<close> can give, and
  with enough free pages for the page tables the address space it leaves is exactly the two mappings.
\<close>

section \<open>The address space of the kernel\<close>

definition kernel_space :: "u32 \<Rightarrow> u32 \<Rightarrow> u32" where
  "kernel_space a v = (if \<not> page_aligned v then 0
     else if v < a then v OR 3
     else if KERNEL_VIRT_OFFSET \<le> v \<and> VIRT_TO_PHYS v < a then VIRT_TO_PHYS v OR 3 else 0)"

definition direct_space :: "u32 \<Rightarrow> u32 \<Rightarrow> u32" where
  "direct_space a v = (if v < KERNEL_VIRT_OFFSET then 0 else kernel_space a v)"

text \<open>The page tables that cover the physical range below \<open>a\<close>, once.\<close>

definition tables_for :: "u32 \<Rightarrow> nat" where "tables_for a = (unat a + 0x3FFFFF) div 0x400000"

definition kernel_pdes :: "nat \<Rightarrow> u32 set" where
  "kernel_pdes n = {j. unat j < n \<or> 768 \<le> unat j \<and> unat j < 768 + n}"

lemma clip:
  fixes c x y :: u32
  shows "(if c < x then c else x) \<le> c" "c \<le> (if c < x then x else c)"
    "y \<le> x \<Longrightarrow> y \<le> c \<Longrightarrow> y \<le> (if c < x then c else x)"
  by auto

lemma map_end_ok: "page_aligned (vmm_map_end ke pm)" "vmm_map_end ke pm \<le> 0x40000000" "0x1000000 \<le> vmm_map_end ke pm"
proof -
  obtain m where m: "vmm_map_end ke pm = align_up_u32 m 4096" "m \<le> 0x40000000" "0x1000000 \<le> m"
  proof -
    let ?lo = "if ke < 16 * 1024 * 1024 then 16 * 1024 * 1024 else ke"
    let ?pe = "pmm_managed_base pm + pmm_total_pages pm * VMM_PAGE_SIZE"
    let ?hi = "if ?lo < ?pe then ?pe else ?lo"
    let ?mm = "if 0x40000000 < ?hi then 0x40000000 else ?hi"
    have "vmm_map_end ke pm = align_up_u32 ?mm 4096"
      by (simp only: vmm_map_end_def Let_def align_up_u32_def VMM_PAGE_SIZE_def add_diff_eq)
    moreover have "?mm \<le> 0x40000000" by (rule clip)
    moreover have "0x1000000 \<le> ?lo" by (simp add: not_less)
    then have "0x1000000 \<le> ?hi" using clip(2) [of ?lo ?pe] by (rule order_trans)
    then have "0x1000000 \<le> ?mm" using clip(3) [of "0x1000000" ?hi "0x40000000"] by simp
    ultimately show ?thesis by (rule that)
  qed
  show "page_aligned (vmm_map_end ke pm)" unfolding m(1) by (rule page_aligned_align_up)
  have "unat m \<le> 0x40000000" using m(2) by (simp add: word_le_nat_alt)
  then have up: "unat (align_up_u32 m 4096) = (unat m + 4095) div 4096 * 4096" by (intro unat_align_up) simp
  have "(unat m + 4095) div 4096 * 4096 \<le> (0x40000000 + 4095) div 4096 * 4096"
    using \<open>unat m \<le> 0x40000000\<close> by (intro mult_le_mono1 div_le_mono) simp
  then show "vmm_map_end ke pm \<le> 0x40000000" unfolding m(1) word_le_nat_alt up by simp
  have "m \<le> align_up_u32 m 4096" using \<open>unat m \<le> 0x40000000\<close> by (intro align_up_ge) simp
  then show "0x1000000 \<le> vmm_map_end ke pm" unfolding m(1) using m(3) by (rule order_trans [rotated])
qed

lemma aligned_step:
  assumes "page_aligned a" "page_aligned m" "a < m"
  shows "unat (a + VMM_PAGE_SIZE) = unat a + 4096" "unat a + 4096 \<le> unat m" "page_aligned (a + VMM_PAGE_SIZE)"
proof -
  obtain i j where ij: "unat a = 4096 * i" "unat m = 4096 * j" using assms by (auto simp: page_aligned_iff dvd_def)
  then show "unat a + 4096 \<le> unat m" using assms(3) by (simp add: word_less_nat_alt)
  then show "unat (a + VMM_PAGE_SIZE) = unat a + 4096"
    using unat_lt_2p32 [of m] by (subst unat_add_no_wrap) (simp_all add: VMM_PAGE_SIZE_def)
  show "page_aligned (a + VMM_PAGE_SIZE)" using assms(1) by (intro page_aligned_add) (simp_all add: VMM_PAGE_SIZE_def page_aligned_def)
qed

text \<open>The loop always returns.\<close>

lemma vmm_map_loop_returns:
  assumes "page_aligned a" "page_aligned m"
  shows "\<exists>r. vmm_map_loop m a s = Some r"
  using assms
proof (induction "unat m - unat a" arbitrary: a s rule: less_induct)
  case less
  show ?case
  proof (cases "a < m")
    case True
    note st = aligned_step [OF less.prems True]
    have "unat m - unat (a + VMM_PAGE_SIZE) < unat m - unat a" using st by simp
    from less.hyps [OF this st(3) less.prems(2)] show ?thesis
      using True by (subst vmm_map_loop.simps) (auto split: prod.split)
  next
    case False
    then have "vmm_map_loop m a s = Some (True, s)" by (subst vmm_map_loop.simps) simp
    then show ?thesis by blast
  qed
qed

lemma kernel_space_step:
  assumes "page_aligned a" "page_aligned m" "a < m" "m \<le> 0x40000000"
  shows "kernel_space (a + VMM_PAGE_SIZE) = (kernel_space a)(a := a OR 3, a + KERNEL_VIRT_OFFSET := a OR 3)"
proof
  fix v
  note st = aligned_step [OF assms(1-3)]
  have m: "unat m \<le> 0x40000000" using assms(4) by (simp add: word_le_nat_alt)
  have lt: "x < a + VMM_PAGE_SIZE \<longleftrightarrow> x < a \<or> x = a" if x: "page_aligned x" for x
  proof -
    obtain i j where "unat x = 4096 * i" "unat a = 4096 * j" using x assms(1) by (auto simp: page_aligned_iff dvd_def)
    then show ?thesis using st(1) by (auto simp: word_less_nat_alt word_unat_eq_iff)
  qed
  have ak: "unat (a + KERNEL_VIRT_OFFSET) = unat a + 0xC0000000"
    using st m by (subst unat_add_no_wrap) (simp_all add: KERNEL_VIRT_OFFSET_def)
  have al: "page_aligned (a + KERNEL_VIRT_OFFSET)"
    using page_aligned_phys_to_virt [OF assms(1)] by (simp add: PHYS_TO_VIRT_def)
  have vp: "page_aligned (VIRT_TO_PHYS v)" if "page_aligned v"
  proof -
    have "VIRT_TO_PHYS v = v + 0x40000000" by (simp add: VIRT_TO_PHYS_def KERNEL_VIRT_OFFSET_def)
    then show ?thesis using that by (simp only:) (rule page_aligned_add, assumption, simp add: page_aligned_def)
  qed
  have eq: "VIRT_TO_PHYS v = a \<longleftrightarrow> v = a + KERNEL_VIRT_OFFSET" by (auto simp: VIRT_TO_PHYS_def)
  have low: "\<not> KERNEL_VIRT_OFFSET \<le> a" using st(2) m by (simp add: word_le_nat_alt KERNEL_VIRT_OFFSET_def)
  have high: "KERNEL_VIRT_OFFSET \<le> a + KERNEL_VIRT_OFFSET" "\<not> a + KERNEL_VIRT_OFFSET < a" "a + KERNEL_VIRT_OFFSET \<noteq> a"
    using ak by (simp_all add: word_le_nat_alt word_less_nat_alt) (simp_all add: KERNEL_VIRT_OFFSET_def)
  show "kernel_space (a + VMM_PAGE_SIZE) v = ((kernel_space a)(a := a OR 3, a + KERNEL_VIRT_OFFSET := a OR 3)) v"
    using lt [of v] lt [of "VIRT_TO_PHYS v"] vp eq assms(1) al low high
    by (auto simp: kernel_space_def VIRT_TO_PHYS_def)
qed

lemma tables_step:
  assumes "page_aligned a" "page_aligned m" "a < m" "m \<le> 0x40000000"
  shows "unat (pd_index a) = unat a div 0x400000" "unat (pd_index (a + KERNEL_VIRT_OFFSET)) = 768 + unat a div 0x400000"
    "kernel_pdes (tables_for (a + VMM_PAGE_SIZE)) = insert (pd_index a) (insert (pd_index (a + KERNEL_VIRT_OFFSET)) (kernel_pdes (tables_for a)))"
    "unat a div 0x400000 < tables_for m" "tables_for m \<le> 256"
proof -
  note st = aligned_step [OF assms(1-3)]
  have m: "unat m \<le> 0x40000000" using assms(4) by (simp add: word_le_nat_alt)
  show i: "unat (pd_index a) = unat a div 0x400000" by (simp add: unat_indices)
  have ak: "unat (a + KERNEL_VIRT_OFFSET) = unat a + 0xC0000000"
    using st m by (subst unat_add_no_wrap) (simp_all add: KERNEL_VIRT_OFFSET_def)
  show k: "unat (pd_index (a + KERNEL_VIRT_OFFSET)) = 768 + unat a div 0x400000" by (simp add: unat_indices ak)
  define q where "q = unat a div 0x400000"
  define r where "r = unat a mod 0x400000"
  have qr: "unat a = 0x400000 * q + r" "r < 0x400000" by (simp_all add: q_def r_def)
  have r4: "r + 4096 \<le> 0x400000"
  proof -
    have "4096 dvd r" using assms(1) by (simp add: r_def page_aligned_iff dvd_mod_iff)
    then obtain c where "r = 4096 * c" by (auto simp: dvd_def)
    then show ?thesis using qr(2) by simp
  qed
  have n: "tables_for a = q \<or> tables_for a = Suc q" "tables_for (a + VMM_PAGE_SIZE) = Suc q"
  proof -
    have "tables_for a = (0x400000 * q + (r + 0x3FFFFF)) div 0x400000" by (simp add: tables_for_def qr(1) add.assoc)
    also have "\<dots> = q + (r + 0x3FFFFF) div 0x400000" by simp
    finally have t: "tables_for a = q + (r + 0x3FFFFF) div 0x400000" .
    have "(r + 0x3FFFFF) div 0x400000 < 2" using qr(2) by (simp add: less_mult_imp_div_less)
    then show "tables_for a = q \<or> tables_for a = Suc q" using t by auto
    have "tables_for (a + VMM_PAGE_SIZE) = (0x400000 * q + (r + 4096 + 0x3FFFFF)) div 0x400000"
      by (simp add: tables_for_def st(1) qr(1) add.assoc)
    also have "\<dots> = q + (r + 4096 + 0x3FFFFF) div 0x400000" by simp
    also have "(r + 4096 + 0x3FFFFF) div 0x400000 = 1" using r4 by (intro div_nat_eqI) simp_all
    finally show "tables_for (a + VMM_PAGE_SIZE) = Suc q" by simp
  qed
  show "kernel_pdes (tables_for (a + VMM_PAGE_SIZE)) = insert (pd_index a) (insert (pd_index (a + KERNEL_VIRT_OFFSET)) (kernel_pdes (tables_for a)))"
    using n i k unfolding kernel_pdes_def q_def [symmetric] by (auto simp: word_unat_eq_iff)
  have "Suc q = tables_for (a + VMM_PAGE_SIZE)" using n(2) by simp
  also have "\<dots> \<le> tables_for m" unfolding tables_for_def st(1) using st(2) by (intro div_le_mono) simp
  finally show "unat a div 0x400000 < tables_for m" by (simp add: q_def)
  have "tables_for m \<le> (0x40000000 + 0x3FFFFF) div 0x400000" unfolding tables_for_def using m by (intro div_le_mono) simp
  then show "tables_for m \<le> 256" by simp
qed

lemma card_kernel_pdes:
  assumes "n \<le> 256"
  shows "finite (kernel_pdes n)" "card (kernel_pdes n) = 2 * n"
proof -
  have "unat ` kernel_pdes n = {..<n} \<union> {768..<768 + n}"
  proof (intro equalityI subsetI)
    fix j assume j: "j \<in> {..<n} \<union> {768..<768 + n}"
    then have "unat (of_nat j :: u32) = j" using assms by (simp add: unat_of_nat) (auto simp: less_imp_le)
    then show "j \<in> unat ` kernel_pdes n" using j by (intro image_eqI [of _ _ "of_nat j"]) (auto simp: kernel_pdes_def)
  qed (auto simp: kernel_pdes_def)
  moreover have "inj_on unat (kernel_pdes n)" by (rule inj_onI) (simp add: word_unat_eq_iff)
  ultimately have "card (kernel_pdes n) = card ({..<n} \<union> {768..<768 + n})" using card_image by fastforce
  also have "\<dots> = 2 * n" using assms by (subst card_Un_disjoint) auto
  finally show "card (kernel_pdes n) = 2 * n" .
  show "finite (kernel_pdes n)" by (rule finite)
qed

section \<open>The loop\<close>

lemma unat_pd_lt: "j < 1024 \<longleftrightarrow> unat j < 1024" for j :: u32
  by (simp add: word_less_nat_alt)

context vmm_pages
begin

lemma vmm_map_loop:
  assumes m: "page_aligned m" "m \<le> 0x40000000"
    and a: "page_aligned a" "a \<le> m"
    and ok: "vm_ok inv managed free_set (s :: ('b, 'v) vmm_state)" and sp: "space s = kernel_space a"
    and pre: "\<forall>j < 1024. present s j \<longleftrightarrow> j \<in> kernel_pdes (tables_for a)"
    and tk: "took managed free_set freeable {} s0 s" "tables s0 = {}" "2 * tables_for m \<le> card (free_set (vm_pmm s0))"
    and fin: "finite (free_set (vm_pmm s0))" and re: "rest_eq s0 s"
  shows "\<exists>s'. vmm_map_loop m a s = Some (True, s') \<and> vm_ok inv managed free_set s' \<and> space s' = kernel_space m \<and>
    took managed free_set freeable {} s0 s' \<and> rest_eq s0 s' \<and> card (tables s') = 2 * tables_for m"
  using a ok sp pre tk(1) re
proof (induction "unat m - unat a" arbitrary: a s rule: less_induct)
  case less
  have m4: "unat m \<le> 0x40000000" using m(2) by (simp add: word_le_nat_alt)
  have nt: "tables_for m \<le> 256"
  proof -
    have "tables_for m \<le> (0x40000000 + 0x3FFFFF) div 0x400000" unfolding tables_for_def using m4 by (intro div_le_mono) simp
    then show ?thesis by simp
  qed
  have card_tables: "card (tables t) = card P" if "vm_ok inv managed free_set (t :: ('b, 'v) vmm_state)" "\<forall>j < 1024. present t j \<longleftrightarrow> j \<in> P" "P \<subseteq> {j. j < 1024}" for t P
  proof -
    have e: "{i. i < 1024 \<and> present t i} = P" using that(2,3) by auto
    show ?thesis using that(1) card_image unfolding tables_def vm_ok_def e by blast
  qed
  have sub: "kernel_pdes n \<subseteq> {j. j < 1024}" if "n \<le> 256" for n
    using that by (auto simp: kernel_pdes_def word_less_nat_alt)
  have kept: "took managed free_set freeable {} s0 s" by (rule less.prems(6))
  show ?case
  proof (cases "a < m")
    case True
    note st = aligned_step [OF less.prems(1) m(1) True]
    note ts = tables_step [OF less.prems(1) m(1) True m(2)]
    have na: "tables_for a \<le> 256"
    proof -
      have "tables_for a \<le> tables_for m" unfolding tables_for_def using True by (intro div_le_mono) (simp add: word_less_nat_alt)
      then show ?thesis using nt by simp
    qed
    define P where "P = kernel_pdes (tables_for a)"
    define Q where "Q = kernel_pdes (tables_for (a + VMM_PAGE_SIZE))"
    let ?i = "pd_index a" and ?k = "pd_index (a + KERNEL_VIRT_OFFSET)"
    have nQ: "tables_for (a + VMM_PAGE_SIZE) \<le> tables_for m"
      unfolding tables_for_def st(1) using st(2) by (intro div_le_mono) simp
    have Q: "Q = insert ?i (insert ?k P)" using ts(3) by (simp add: P_def Q_def)
    have cQ: "card Q \<le> 2 * tables_for m" "finite Q" using card_kernel_pdes [of "tables_for (a + VMM_PAGE_SIZE)"] nQ nt by (auto simp: Q_def)
    have QL: "Q \<subseteq> {j. j < 1024}" unfolding Q_def using nQ nt by (intro sub) simp
    text \<open>While a page table is missing there is a free page.\<close>
    have room: "free_set (vm_pmm t) \<noteq> {}" if t: "vm_ok inv managed free_set (t :: ('b, 'v) vmm_state)" "\<forall>j < 1024. present t j \<longleftrightarrow> j \<in> R"
      "R \<subset> Q" "took managed free_set freeable {} s0 t" for t R
    proof -
      have "card (tables t) < card Q"
        using card_tables [OF t(1,2)] QL t(3) psubset_card_mono [OF cQ(2) t(3)] by auto
      then have "card (tables t) < card (free_set (vm_pmm s0))" using cQ(1) tk(3) by simp
      moreover have "free_set (vm_pmm t) = free_set (vm_pmm s0) - tables t" "tables t \<subseteq> free_set (vm_pmm s0)"
        using t(4) tk(2) by (auto simp: took_def)
      ultimately show ?thesis using fin by (metis Diff_eq_empty_iff card_seteq leD less_imp_le_nat subset_antisym)
    qed
    have r1: "present s ?i \<or> free_set (vm_pmm s) \<noteq> {}"
      using room [OF less.prems(3) less.prems(5) [folded P_def] _ kept] less.prems(5) index_lt(1) Q by (auto simp: P_def psubset_eq)
    obtain s1 where s1: "vmm_map_page a a (PTE_PRESENT OR PTE_WRITABLE) s = (0, s1)" "vm_ok inv managed free_set s1"
      "space s1 = (space s)(a := a OR ((PTE_PRESENT OR PTE_WRITABLE) AND 0xFFF))" "rest_eq s s1"
      "\<forall>j < 1024. present s1 j \<longleftrightarrow> present s j \<or> j = ?i" "took managed free_set freeable {} s s1"
      using vmm_map_page [OF less.prems(3) less.prems(1) less.prems(1) r1] by blast
    have t1: "took managed free_set freeable {} s0 s1" using took_trans [OF kept s1(6)] by simp
    have p1: "\<forall>j < 1024. present s1 j \<longleftrightarrow> j \<in> insert ?i P" using s1(5) less.prems(5) by (auto simp: P_def)
    have r2: "present s1 ?k \<or> free_set (vm_pmm s1) \<noteq> {}"
      using room [OF s1(2) p1 _ t1] p1 index_lt(1) Q by (auto simp: psubset_eq)
    have al: "page_aligned (a + KERNEL_VIRT_OFFSET)"
      using page_aligned_phys_to_virt [OF less.prems(1)] by (simp add: PHYS_TO_VIRT_def)
    obtain s2 where s2: "vmm_map_page (a + KERNEL_VIRT_OFFSET) a (PTE_PRESENT OR PTE_WRITABLE) s1 = (0, s2)" "vm_ok inv managed free_set s2"
      "space s2 = (space s1)(a + KERNEL_VIRT_OFFSET := a OR ((PTE_PRESENT OR PTE_WRITABLE) AND 0xFFF))" "rest_eq s1 s2"
      "\<forall>j < 1024. present s2 j \<longleftrightarrow> present s1 j \<or> j = ?k" "took managed free_set freeable {} s1 s2"
      using vmm_map_page [OF s1(2) al less.prems(1) r2] by blast
    have t2: "took managed free_set freeable {} s0 s2" using took_trans [OF t1 s2(6)] by simp
    have sp2: "space s2 = kernel_space (a + VMM_PAGE_SIZE)"
      using kernel_space_step [OF less.prems(1) m(1) True m(2)] s1(3) s2(3) less.prems(4)
      by (simp add: PTE_PRESENT_def PTE_WRITABLE_def)
    have p2: "\<forall>j < 1024. present s2 j \<longleftrightarrow> j \<in> kernel_pdes (tables_for (a + VMM_PAGE_SIZE))"
      using s2(5) p1 Q by (auto simp: Q_def)
    have re2: "rest_eq s0 s2" using less.prems(7) s1(4) s2(4) rest_eq_trans by blast
    have le: "a + VMM_PAGE_SIZE \<le> m" "unat m - unat (a + VMM_PAGE_SIZE) < unat m - unat a"
      using st by (simp_all add: word_le_nat_alt)
    have "vmm_map_loop m a s = vmm_map_loop m (a + VMM_PAGE_SIZE) s2"
      using True s1(1) s2(1) by (subst vmm_map_loop.simps) simp
    then show ?thesis using less.hyps [OF le(2) st(3) le(1) s2(2) sp2 p2 t2 re2] by simp
  next
    case False
    then have eq: "a = m" using less.prems(2) by simp
    have "vmm_map_loop m a s = Some (True, s)" using False by (subst vmm_map_loop.simps) simp
    moreover have "card (tables s) = 2 * tables_for m"
      using card_tables [OF less.prems(3,5) sub] card_kernel_pdes nt by (simp add: eq)
    ultimately show ?thesis using less.prems by (simp add: eq)
  qed
qed

text \<open>Initialisation with enough free pages for the page tables.\<close>

lemma vmm_init:
  fixes s :: "('b, 'v) vmm_state" and ke :: u32
  defines "m \<equiv> vmm_map_end ke (vm_pmm s)"
  assumes inv: "inv (vm_pmm s)" and top: "\<forall>a \<in> managed (vm_pmm s). a < 0x40000000"
    and room: "2 * tables_for m \<le> card (free_set (vm_pmm s))"
  shows "\<exists>s'. vmm_init ke s = Some s' \<and> vm_ok inv managed free_set s' \<and> g_vmm_ready s' \<and> space s' = kernel_space m \<and>
    tables s' \<subseteq> free_set (vm_pmm s) \<and> card (tables s') = 2 * tables_for m \<and>
    free_set (vm_pmm s') = free_set (vm_pmm s) - tables s' \<and> managed (vm_pmm s') = managed (vm_pmm s) \<and>
    freeable (vm_pmm s') = freeable (vm_pmm s) \<union> tables s' \<and> g_direct_map_end s' = KERNEL_VIRT_OFFSET + m \<and>
    g_next_vaddr s' = (KERNEL_VIRT_OFFSET + m + 0x400000 - 1) AND NOT (0x400000 - 1) \<and> vm_vma s' = vm_vma s"
proof -
  define s0 where "s0 = s\<lparr>g_kernel_pd := replicate 1024 0\<rparr>"
  have pd: "pd_get s0 j = 0" if "j < 1024" for j
    using that by (simp add: pd_get_def s0_def word_less_nat_alt del: replicate.simps)
  then have pre0: "\<not> present s0 j" if "j < 1024" for j using that by (simp add: present_def)
  have t0: "tables s0 = {}" using pre0 by (auto simp: tables_def)
  have ok0: "vm_ok inv managed free_set s0"
    using inv top t0 pre0 unfolding vm_ok_def by (auto simp: inj_on_def) (simp_all add: s0_def)
  have sp0: "space s0 = kernel_space 0"
    using pre0 [OF index_lt(1)] by (auto simp: fun_eq_iff space_def walk_def kernel_space_def)
  have k0: "kernel_pdes (tables_for 0) = {}" by (auto simp: kernel_pdes_def tables_for_def)
  have pmm0: "vm_pmm s0 = vm_pmm s" by (simp add: s0_def)
  have tk0: "took managed free_set freeable {} s0 s0" by (rule took_refl) (simp add: t0)
  note me = map_end_ok [of ke "vm_pmm s", folded m_def]
  have z: "page_aligned (0 :: u32)" "(0 :: u32) \<le> m" by (simp_all add: page_aligned_def)
  have pr: "\<forall>j < 1024. present s0 j \<longleftrightarrow> j \<in> kernel_pdes (tables_for 0)" using pre0 k0 by auto
  have rm: "2 * tables_for m \<le> card (free_set (vm_pmm s0))" using room by (simp add: pmm0)
  obtain s1 where s1: "vmm_map_loop m 0 s0 = Some (True, s1)" "vm_ok inv managed free_set s1" "space s1 = kernel_space m"
    "took managed free_set freeable {} s0 s1" "rest_eq s0 s1" "card (tables s1) = 2 * tables_for m"
    using vmm_map_loop [OF me(1,2) z ok0 sp0 pr tk0 t0 rm finite rest_eq_refl] by blast
  define s' where "s' = ((vmm_load_page_directory (VIRT_TO_PHYS (pd_addr s1)) s1)\<lparr>g_vmm_ready := True\<rparr>)
    \<lparr>g_next_vaddr := (KERNEL_VIRT_OFFSET + m + 0x400000 - 1) AND NOT (0x400000 - 1), g_direct_map_end := KERNEL_VIRT_OFFSET + m\<rparr>"
  have run: "vmm_init ke s = Some s'"
    using s1(1) unfolding vmm_init_def Let_def s0_def [symmetric] m_def [symmetric] by (simp add: s'_def)
  have f: "pd_get s' j = pd_get s1 j" "vm_mem s' = vm_mem s1" "vm_pmm s' = vm_pmm s1"
    "length (g_kernel_pd s') = length (g_kernel_pd s1)" for j
    by (simp_all add: s'_def pd_get_def vmm_load_page_directory_def)
  note sc = space_cong [of s' s1, OF f(1,2)]
  have "space s' = space s1" by (simp add: fun_eq_iff space_def sc)
  then have "space s' = kernel_space m" using s1(3) by simp
  moreover have "vm_ok inv managed free_set s'"
    using s1(2) f by (intro vm_ok_cong [of s' s1]) (auto simp: vm_ok_def)
  moreover have "vm_vma s' = vm_vma s" using s1(5) by (simp add: rest_eq_def s'_def s0_def vmm_load_page_directory_def)
  ultimately show ?thesis
    using run s1(4,6) t0 sc(4) f(3) pmm0 by (intro exI [of _ s']) (auto simp: took_def s'_def)
qed

lemma pd_clear_nth:
  "length (pd_clear n pd) = length pd \<and> (n \<le> length pd \<longrightarrow> (\<forall>i < length pd.
     pd_clear n pd ! i = (if i < n \<and> pd ! i AND PDE_PRESENT \<noteq> 0 then 0 else pd ! i)))"
  by (induction n) (auto simp: Let_def nth_list_update less_Suc_eq)

lemma vmm_unmap_identity:
  fixes s :: "('b, 'v) vmm_state"
  assumes ok: "vm_ok inv managed free_set s" and rdy: "g_vmm_ready s"
  defines "s' \<equiv> vmm_unmap_identity s"
  shows "vm_ok inv managed free_set s'" "space s' = (\<lambda>v. if v < KERNEL_VIRT_OFFSET then 0 else space s v)" "rest_eq s s'"
    "vm_pmm s' = vm_pmm s" "vm_cpu s' = vm_cpu s @ [Load_CR3 (VIRT_TO_PHYS (pd_addr s))]"
proof -
  have len: "length (g_kernel_pd s) = 1024" using ok by (simp add: vm_ok_def)
  have k: "unat (pd_index KERNEL_VIRT_OFFSET) = 768" by (simp add: unat_indices KERNEL_VIRT_OFFSET_def)
  have s': "s' = vmm_load_page_directory (VIRT_TO_PHYS (pd_addr s)) (s\<lparr>g_kernel_pd := pd_clear 768 (g_kernel_pd s)\<rparr>)"
    using rdy by (simp only: s'_def vmm_unmap_identity_def k if_False simp_thms)
  have pd: "pd_get s' j = (if unat j < 768 \<and> present s j then 0 else pd_get s j)" if "j < 1024" for j
  proof -
    have "unat j < 1024" using that by (simp add: word_less_nat_alt)
    then show ?thesis
      using pd_clear_nth [of 768 "g_kernel_pd s"] len
      by (simp add: s' vmm_load_page_directory_def pd_get_def present_def)
  qed
  have pre: "present s' j \<longleftrightarrow> present s j \<and> 768 \<le> unat j" if "j < 1024" for j
    using pd [OF that] by (auto simp: present_def)
  have tab: "table_of s' j = table_of s j" if "j < 1024" "present s' j" for j
    using pd [OF that(1)] pre [OF that(1)] that(2) by (simp add: table_of_def)
  have mem: "pt_get s' = pt_get s" by (simp add: fun_eq_iff pt_get_def s' vmm_load_page_directory_def)
  have low: "v < KERNEL_VIRT_OFFSET \<longleftrightarrow> unat (pd_index v) < 768" for v
    by (simp add: unat_indices word_less_nat_alt KERNEL_VIRT_OFFSET_def div_less_iff_less_mult)
  show "space s' = (\<lambda>v. if v < KERNEL_VIRT_OFFSET then 0 else space s v)"
    using pre [OF index_lt(1)] tab [OF index_lt(1)] mem
    by (auto simp: space_def walk_def low)
  have sub: "{i. i < 1024 \<and> present s' i} \<subseteq> {i. i < 1024 \<and> present s i}" using pre by auto
  have "tables s' \<subseteq> tables s" unfolding tables_def using sub tab by fastforce
  moreover have "inj_on (table_of s') {i. i < 1024 \<and> present s' i}"
  proof -
    have "inj_on (table_of s) {i. i < 1024 \<and> present s' i}" using ok sub inj_on_subset unfolding vm_ok_def by blast
    then show ?thesis using tab by (auto simp: inj_on_def)
  qed
  moreover have "length (g_kernel_pd s') = 1024" using len pd_clear_nth [of 768 "g_kernel_pd s"]
    by (simp add: s' vmm_load_page_directory_def)
  ultimately show "vm_ok inv managed free_set s'" using ok by (auto simp: vm_ok_def s' vmm_load_page_directory_def)
  show "rest_eq s s'" "vm_pmm s' = vm_pmm s" "vm_cpu s' = vm_cpu s @ [Load_CR3 (VIRT_TO_PHYS (pd_addr s))]"
    by (simp_all add: s' rest_eq_def vmm_load_page_directory_def)
qed

lemma kernel_direct: "(\<lambda>v. if v < KERNEL_VIRT_OFFSET then 0 else kernel_space m v) = direct_space m"
  by (simp add: fun_eq_iff direct_space_def)

text \<open>Mapping on every branch, and what the queries answer afterwards.\<close>

lemma map_page_total:
  fixes s :: "('b, 'v) vmm_state"
  assumes ok: "vm_ok inv managed free_set s" and run: "vmm_map_page virt phys flags s = (ret, s')"
  shows "vm_ok inv managed free_set s' \<and> rest_eq s s' \<and>
    (if page_aligned virt \<and> page_aligned phys \<and> (present s (pd_index virt) \<or> free_set (vm_pmm s) \<noteq> {})
     then ret = 0 \<and> space s' = (space s)(virt := phys OR (flags AND 0xFFF)) \<and> took managed free_set freeable {} s s'
     else ret = - 1 \<and> space s' = space s \<and> tables s' = tables s \<and> free_set (vm_pmm s') = free_set (vm_pmm s))"
proof (cases "page_aligned virt \<and> page_aligned phys")
  case False
  then have "s' = s" "ret = - 1" using run by (auto simp: vmm_map_page_def page_aligned_def)
  then show ?thesis using False ok by auto
next
  case True
  then have al: "page_aligned virt" "page_aligned phys" by auto
  show ?thesis
  proof (cases "present s (pd_index virt) \<or> free_set (vm_pmm s) \<noteq> {}")
    case room: True
    from vmm_map_page [OF ok al room, of flags] show ?thesis using True room run by auto
  next
    case none: False
    then have fr: "free_set (vm_pmm s) = {}" and np: "\<not> present s (pd_index virt)" by auto
    define t where "t = s\<lparr>vm_pmm := snd (pmm_alloc_page (vm_pmm s))\<rparr>"
    have s': "s' = t" "ret = - 1" using vmm_map_page_fails [OF ok al np fr, of flags] run by (auto simp: t_def)
    have inv: "inv (vm_pmm s)" using ok by (simp add: vm_ok_def)
    note A = alloc_none [OF inv fr] alloc_inv [OF inv] alloc_managed [OF inv]
    have pm: "pd_get t i = pd_get s i" "vm_mem t = vm_mem s" "length (g_kernel_pd t) = length (g_kernel_pd s)"
      "free_set (vm_pmm t) = {}" "rest_eq s t" for i using A by (simp_all add: t_def pd_get_def rest_eq_def)
    note sc = space_cong [of t s, OF pm(1,2)]
    have "space t = space s" by (simp add: fun_eq_iff space_def sc)
    moreover have "vm_ok inv managed free_set t" using A by (intro vm_ok_cong [OF pm(1,3,2) _ _ _ ok]) (simp_all add: t_def)
    ultimately show ?thesis using True none s' sc(4) pm fr by auto
  qed
qed

lemma map_query:
  fixes s :: "('b, 'v) vmm_state"
  assumes ok: "vm_ok inv managed free_set s" and rdy: "g_vmm_ready s" and al: "page_aligned virt" "page_aligned phys"
    and fl: "flags AND PTE_PRESENT \<noteq> 0" and run: "vmm_map_page virt phys flags s = (0, s1)"
  shows "vmm_is_mapped virt s1 = 1" "vmm_get_physical virt s1 = Some phys" "vmm_get_pte virt s1 = phys OR (flags AND 0xFFF)"
    "vmm_is_mapped virt (vmm_unmap_page virt s1) = 0" "vmm_get_physical virt (vmm_unmap_page virt s1) = None"
    "w \<noteq> virt \<Longrightarrow> vmm_get_physical w s1 = vmm_get_physical w s"
    "w \<noteq> virt \<Longrightarrow> vmm_get_physical w (vmm_unmap_page virt s1) = vmm_get_physical w s"
proof -
  have m: "vm_ok inv managed free_set s1" "rest_eq s s1" "space s1 = (space s)(virt := phys OR (flags AND 0xFFF))"
    using map_page_total [OF ok run] al by (auto split: if_splits)
  note u = vmm_unmap_page [OF m(1) al(1)]
  have rd: "g_vmm_ready s1" "g_vmm_ready (vmm_unmap_page virt s1)" using rdy m(2) u(3) by (simp_all add: rest_eq_def)
  have low: "(flags AND 0xFFF) AND NOT 0xFFF = 0" by (simp only: and.assoc) simp
  have e: "frame_of (phys OR (flags AND 0xFFF)) = phys" by (rule frame_of_or [OF al(2) low])
  have "(phys OR (flags AND 0xFFF)) AND 1 = (flags AND 0xFFF) AND 1" by (rule low_of_or [OF al(2)]) simp
  also have "\<dots> = flags AND (0xFFF AND 1)" by (simp only: and.assoc)
  finally have p: "(phys OR (flags AND 0xFFF)) AND 1 \<noteq> 0" using fl by (simp add: PTE_PRESENT_def)
  have "walk s1 virt = space s1 virt" using al(1) by (simp add: space_def)
  then show "vmm_is_mapped virt s1 = 1" "vmm_get_physical virt s1 = Some phys" "vmm_get_pte virt s1 = phys OR (flags AND 0xFFF)"
    "vmm_is_mapped virt (vmm_unmap_page virt s1) = 0" "vmm_get_physical virt (vmm_unmap_page virt s1) = None"
    "w \<noteq> virt \<Longrightarrow> vmm_get_physical w s1 = vmm_get_physical w s"
    "w \<noteq> virt \<Longrightarrow> vmm_get_physical w (vmm_unmap_page virt s1) = vmm_get_physical w s"
    using rd rdy al(1) e p m(3) u(1) by (simp_all add: query_space)
qed

text \<open>Release of pages that the allocator handed out.\<close>

lemma vmm_free_pages:
  fixes s :: "('b, 'v) vmm_state"
  assumes ok: "vm_ok inv managed free_set s" "g_vmm_ready s" "0 < count" "v \<noteq> 0" "range_ok v (unat count)"
    and dr: "droppable (space s) v 0 (unat count) (freeable (vm_pmm s) - tables s)"
  defines "s' \<equiv> vmm_free_pages v count s"
  shows "vm_ok inv managed free_set s'" "space s' = cleared (space s) v 0 (unat count) True" "tables s' = tables s"
    "free_set (vm_pmm s') = free_set (vm_pmm s) \<union> frames (space s) v 0 (unat count)"
    "freeable (vm_pmm s') = freeable (vm_pmm s) - frames (space s) v 0 (unat count)" "g_next_vaddr s' = g_next_vaddr s"
proof -
  define s1 where "s1 = (if vma_is_ready (vm_vma s) then s\<lparr>vm_vma := snd (vma_remove (vm_vma s) v)\<rparr> else s)"
  have f: "pd_get s1 j = pd_get s j" "vm_mem s1 = vm_mem s" "vm_pmm s1 = vm_pmm s" "g_vmm_ready s1 = g_vmm_ready s"
    "length (g_kernel_pd s1) = length (g_kernel_pd s)" "g_next_vaddr s1 = g_next_vaddr s" for j
    by (simp_all add: s1_def pd_get_def)
  note sc = space_cong [of s1 s, OF f(1,2)]
  have sp: "space s1 = space s" by (simp add: fun_eq_iff space_def sc)
  have ok1: "vm_ok inv managed free_set s1" using ok(1) f by (intro vm_ok_cong [of s1 s]) (auto simp: vm_ok_def)
  have dr1: "droppable (space s1) v (unat 0) (unat count) (freeable (vm_pmm s1) - tables s1)"
    using dr f sp sc(4) by simp
  have s': "s' = vmm_free_from v count 0 s1"
    using ok(2-4) word_gt_0 [of count] by (simp add: s'_def vmm_free_pages_def s1_def)
  have "vm_ok inv managed free_set s' \<and> rest_eq s1 s' \<and> tables s' = tables s1 \<and> managed (vm_pmm s') = managed (vm_pmm s1) \<and>
    space s' = cleared (space s1) v (unat 0) (unat count) True \<and>
    free_set (vm_pmm s') = free_set (vm_pmm s1) \<union> frames (space s1) v (unat 0) (unat count) \<and>
    freeable (vm_pmm s') = freeable (vm_pmm s1) - frames (space s1) v (unat 0) (unat count)"
    unfolding s' using vmm_free_from [OF ok1 ok(5) _ _ dr1] f(4) ok(2) by auto
  then show "vm_ok inv managed free_set s'" "space s' = cleared (space s) v 0 (unat count) True" "tables s' = tables s"
    "free_set (vm_pmm s') = free_set (vm_pmm s) \<union> frames (space s) v 0 (unat count)"
    "freeable (vm_pmm s') = freeable (vm_pmm s) - frames (space s) v 0 (unat count)" "g_next_vaddr s' = g_next_vaddr s"
    using sp sc(4) f by (auto simp: rest_eq_def)
qed

text \<open>Allocating and freeing again leaves the address space as it was, and gives every page back but
  the page tables made on the way.\<close>

lemma alloc_free_roundtrip:
  fixes s :: "('b, 'v) vmm_state"
  assumes ok: "vm_ok inv managed free_set s" and rdy: "g_vmm_ready s"
    and rng: "0 < count" "range_ok (g_next_vaddr s) (unat count)" "g_next_vaddr s \<noteq> 0"
    and unused: "\<forall>j < unat count. space s (page_at (g_next_vaddr s) j) = 0"
    and al: "vmm_alloc_pages count s = (r, s1)" "r \<noteq> 0"
  shows "space (vmm_free_pages r count s1) = space s" "vm_ok inv managed free_set (vmm_free_pages r count s1)"
    "free_set (vm_pmm (vmm_free_pages r count s1)) = free_set (vm_pmm s) - tables (vmm_free_pages r count s1)"
proof -
  obtain fs where A: "vm_ok inv managed free_set s1" "distinct fs" "took managed free_set freeable (set fs) s s1"
    "r = g_next_vaddr s" "length fs = unat count" "mapped_frames (space s) r 0 fs (space s1)" "g_vmm_ready s1"
    using vmm_alloc_pages [OF ok rdy rng unused] al by auto
  have inv: "inv (vm_pmm s)" and dis: "free_set (vm_pmm s) \<inter> tables s = {}" using ok by (auto simp: vm_ok_def)
  have pa: "page_aligned f" if "f \<in> set fs" for f
    using that A(3) managed_page [OF inv] free_managed [OF inv] unfolding took_def by blast
  have len: "length fs \<le> unat count" using A(5) by simp
  note af = alloc_frames [OF rng(2) unused A(6) [unfolded A(4)] len pa A(2)]
  have dr: "droppable (space s1) r 0 (unat count) (freeable (vm_pmm s1) - tables s1)"
    unfolding A(4) using A(3) by (intro af) (auto simp: took_def)
  have rr: "r \<noteq> 0" "range_ok r (unat count)" using rng A(4) by simp_all
  note fr = vmm_free_pages [OF A(1,7) rng(1) rr dr]
  show "vm_ok inv managed free_set (vmm_free_pages r count s1)" by (rule fr)
  show "space (vmm_free_pages r count s1) = space s" using fr(2) af(4) by (simp add: A(4))
  show "free_set (vm_pmm (vmm_free_pages r count s1)) = free_set (vm_pmm s) - tables (vmm_free_pages r count s1)"
    using fr(3,4) af(2) A(3) by (auto simp: took_def A(4))
qed

text \<open>Two free pages for every page asked for are enough: one for the page, one for its page table.\<close>

lemma vmm_alloc_from_succeeds:
  assumes "vm_ok inv managed free_set (s :: ('b, 'v) vmm_state)" "page_aligned start"
    and "2 * (unat count - unat i) \<le> card (free_set (vm_pmm s))"
  shows "fst (vmm_alloc_from start count i s)"
  using assms
proof (induction start count i s rule: vmm_alloc_from.induct)
  case (1 start count i s)
  show ?case
  proof (cases "i < count")
    case False
    then show ?thesis by (subst vmm_alloc_from.simps) simp
  next
    case True
    then have lt: "unat i < unat count" by (simp add: word_less_nat_alt)
    have ui: "unat (i + 1) = Suc (unat i)" by (rule unat_inc [OF True])
    obtain p pm where al: "pmm_alloc_page (vm_pmm s) = (p, pm)" by (cases "pmm_alloc_page (vm_pmm s)")
    have ne: "free_set (vm_pmm s) \<noteq> {}" using 1(4) lt by auto
    define s1 where "s1 = s\<lparr>vm_pmm := pm\<rparr>"
    note tp = take_page [OF 1(2) ne al, folded s1_def]
    have c1: "card (free_set (vm_pmm s1)) = card (free_set (vm_pmm s)) - 1"
    proof -
      have "inv (vm_pmm s)" using 1(2) by (simp add: vm_ok_def)
      from alloc_some [OF this ne] have "free_set (vm_pmm s1) = free_set (vm_pmm s) - {p}" using al by (simp add: s1_def)
      then show ?thesis using tp(7) by simp
    qed
    then have ne1: "free_set (vm_pmm s1) \<noteq> {}" using 1(4) lt by auto
    have va: "page_aligned (page_at start (unat i))" by (rule page_at_aligned [OF 1(3)])
    obtain s2 where s2: "vmm_map_page (page_at start (unat i)) p (PTE_PRESENT OR PTE_WRITABLE) s1 = (0, s2)"
      "vm_ok inv managed free_set s2"
      "vm_pmm s2 = (if present s1 (pd_index (page_at start (unat i))) then vm_pmm s1 else snd (pmm_alloc_page (vm_pmm s1)))"
      using vmm_map_page [OF tp(1) va tp(5) disjI2 [OF ne1]] by blast
    have "card (free_set (vm_pmm s1)) \<le> card (free_set (vm_pmm s2)) + 1"
    proof -
      have "inv (vm_pmm s1)" using tp(1) by (simp add: vm_ok_def)
      from alloc_some [OF this ne1] show ?thesis unfolding s2(3) by (auto simp: card_Diff_singleton)
    qed
    then have "2 * (unat count - unat (i + 1)) \<le> card (free_set (vm_pmm s2))" using c1 1(4) lt unfolding ui by simp
    then have "fst (vmm_alloc_from start count (i + 1) s2)"
      using 1(1) [OF True refl al [symmetric] s1_def tp(6), unfolded page_at_unat, OF s2(1) [symmetric]] s2(2) 1(3) by simp
    then show ?thesis
      using True al tp(6) s2(1) by (subst vmm_alloc_from.simps) (simp add: Let_def s1_def)
  qed
qed

lemma vmm_alloc_pages_succeeds:
  fixes s :: "('b, 'v) vmm_state"
  assumes ok: "vm_ok inv managed free_set s" and rdy: "g_vmm_ready s"
    and rng: "0 < count" "range_ok (g_next_vaddr s) (unat count)" "g_next_vaddr s \<noteq> 0"
    and room: "2 * unat count \<le> card (free_set (vm_pmm s))"
  shows "fst (vmm_alloc_pages count s) = g_next_vaddr s"
proof -
  let ?s = "s\<lparr>g_next_vaddr := g_next_vaddr s + count * VMM_PAGE_SIZE\<rparr>"
  have "vm_ok inv managed free_set ?s" using ok by (intro vm_ok_cong [of ?s s]) (auto simp: vm_simps vm_ok_def)
  moreover have "page_aligned (g_next_vaddr s)" using rng(2) by (simp add: range_ok_def)
  ultimately have "fst (vmm_alloc_from (g_next_vaddr s) count 0 ?s)" using room by (intro vmm_alloc_from_succeeds) simp_all
  then obtain t where "vmm_alloc_from (g_next_vaddr s) count 0 ?s = (True, t)"
    by (metis (full_types) prod.collapse)
  moreover have "count \<noteq> 0" using rng(1) by auto
  ultimately show ?thesis
    using rdy rng(3) range_no_overflow [OF rng(2)] by (simp add: vmm_alloc_pages_def Let_def)
qed

text \<open>The rollback loop of a failing allocation runs over the whole range, not only over the pages this
  call has mapped.\<close>

lemma rollback_takes_foreign:
  fixes s :: "('b, 'v) vmm_state"
  defines "w \<equiv> g_next_vaddr s"
  assumes ok: "vm_ok inv managed free_set s" and rdy: "g_vmm_ready s"
    and rng: "range_ok w (unat count)" "w \<noteq> 0" and k: "k < unat count" and few: "card (free_set (vm_pmm s)) \<le> k"
    and sp: "\<forall>j < unat count. space s (page_at w j) = (if j = k then f OR 3 else 0)"
    and f: "f \<in> freeable (vm_pmm s)" "f \<notin> tables s"
  shows "\<exists>s'. vmm_alloc_pages count s = (0, s') \<and> space s' (page_at w k) = 0 \<and> f \<in> free_set (vm_pmm s')"
proof -
  define s0 where "s0 = s\<lparr>g_next_vaddr := w + count * VMM_PAGE_SIZE\<rparr>"
  have inv: "inv (vm_pmm s)" using ok by (simp add: vm_ok_def)
  have sc: "space s0 = space s" "tables s0 = tables s"
    using space_cong [of s0 s] by (simp_all add: s0_def space_def fun_eq_iff vm_simps)
  have ok0: "vm_ok inv managed free_set s0" using ok by (intro vm_ok_cong [of s0 s]) (auto simp: s0_def vm_simps vm_ok_def)
  obtain b s1 fs where al: "vmm_alloc_from w count 0 s0 = (b, s1)" "vm_ok inv managed free_set s1" "rest_eq s0 s1"
    "took managed free_set freeable (set fs) s0 s1" "distinct fs" "b \<longrightarrow> length fs = unat count"
    "mapped_frames (space s) w 0 fs (space s1)"
    using vmm_alloc_from [OF ok0 rng(1), of 0] sc by auto
  have tk: "took managed free_set freeable (set fs) s s1" using al(4) sc(2) by (simp add: took_def s0_def)
  have "card (set fs) \<le> card (free_set (vm_pmm s))" using tk by (intro card_mono finite) (simp add: took_def)
  then have len: "length fs \<le> k" using few distinct_card [OF al(5)] by simp
  with al(6) k have b: "\<not> b" by auto
  have pa: "page_aligned g" "(g OR 3) AND 1 \<noteq> 0" "frame_of (g OR 3) = g" if "g \<in> insert f (set fs)" for g
  proof -
    show g: "page_aligned g"
      using that tk f(1) freeable_managed [OF inv] free_managed [OF inv] managed_page [OF inv] unfolding took_def by blast
    show "(g OR 3) AND 1 \<noteq> 0" "frame_of (g OR 3) = g" using frame_of_or [OF g, of 3] low_of_or [OF g, of 1 3] by simp_all
  qed
  have s1: "space s1 (page_at w j) = (if j < length fs then fs ! j OR 3 else if j = k then f OR 3 else 0)" if j: "j < unat count" for j
  proof -
    have "page_at w j \<in> page_at w ` {0..<length fs} \<longleftrightarrow> j < length fs"
      using page_at_inj [OF rng(1), of j] j k len by (auto simp: image_iff)
    then show ?thesis using al(7) sp j by (auto simp: mapped_frames_def)
  qed
  have lv: "live (space s1) w 0 (unat count) = insert k {..<length fs}"
    using s1 pa(2) k len by (auto simp: live_def split: if_splits)
  have img: "frame_of (space s1 (page_at w j)) = (if j = k then f else fs ! j)" if "j \<in> insert k {..<length fs}" for j
    using that s1 [of j] len k pa(3) by auto
  have frs: "frames (space s1) w 0 (unat count) = insert f (set fs)"
  proof -
    have "frames (space s1) w 0 (unat count) = (\<lambda>j. if j = k then f else fs ! j) ` insert k {..<length fs}"
      unfolding frames_def lv by (rule image_cong [OF refl img])
    also have "\<dots> = insert f ((\<lambda>j. if j = k then f else fs ! j) ` {..<length fs})" by (simp only: image_insert if_True refl)
    also have "(\<lambda>j. if j = k then f else fs ! j) ` {..<length fs} = (!) fs ` {..<length fs}"
      using len by (intro image_cong) auto
    also have "\<dots> = set fs" by (auto simp: set_conv_nth)
    finally show ?thesis .
  qed
  have ff: "f \<notin> set fs" "f \<notin> free_set (vm_pmm s)" using f freeable_managed [OF inv] tk by (auto simp: took_def)
  have "inj_on (\<lambda>j. frame_of (space s1 (page_at w j))) (insert k {..<length fs})"
  proof (rule inj_onI)
    fix i j assume ij: "i \<in> insert k {..<length fs}" "j \<in> insert k {..<length fs}"
      and e: "frame_of (space s1 (page_at w i)) = frame_of (space s1 (page_at w j))"
    have e: "(if i = k then f else fs ! i) = (if j = k then f else fs ! j)" using e unfolding img [OF ij(1)] img [OF ij(2)] .
    have mem: "x = k \<or> x < length fs \<and> fs ! x \<in> set fs" if "x \<in> insert k {..<length fs}" for x using that by auto
    show "i = j"
    proof (cases "i = k \<or> j = k")
      case True
      then show ?thesis using e mem [OF ij(1)] mem [OF ij(2)] ff(1) by (auto split: if_splits)
    next
      case False
      then show ?thesis using e ij nth_eq_iff_index_eq [OF al(5), of i j] by simp
    qed
  qed
  moreover have "insert f (set fs) \<subseteq> freeable (vm_pmm s1) - tables s1" using tk f ff by (auto simp: took_def)
  ultimately have dr: "droppable (space s1) w (unat 0) (unat count) (freeable (vm_pmm s1) - tables s1)"
    by (simp add: droppable_def lv frs)
  have rdy1: "g_vmm_ready s1" using al(3) rdy by (simp add: rest_eq_def s0_def)
  note rb = vmm_rollback_from [OF al(2) rng(1) _ rdy1 dr]
  have c0: "count \<noteq> 0" using k by auto
  have "\<not> 0xFFFFFFFF - w < count * VMM_PAGE_SIZE" by (rule range_no_overflow [OF rng(1)])
  then have run: "vmm_alloc_pages count s = (0, vmm_rollback_from w count 0 s1)"
    using c0 rng(2) rdy al(1) b by (simp add: vmm_alloc_pages_def w_def s0_def Let_def)
  have "space (vmm_rollback_from w count 0 s1) = cleared (space s1) w 0 (unat count) False \<and>
    free_set (vm_pmm (vmm_rollback_from w count 0 s1)) = free_set (vm_pmm s1) \<union> insert f (set fs)"
    using rb frs by simp
  then show ?thesis using run lv by (auto simp: cleared_def)
qed

end

text \<open>The low bits of \<open>g_next_vaddr\<close> when the direct map reaches the top of the address space.\<close>

lemma next_vaddr_wraps:
  fixes m :: u32
  assumes "0x3FC00000 < m" "m \<le> 0x40000000"
  shows "(KERNEL_VIRT_OFFSET + m + 0x400000 - 1) AND NOT (0x400000 - 1) = 0"
proof -
  define x where "x = KERNEL_VIRT_OFFSET + m + 0x400000 - 1"
  have "x = m - 0x3FC00001" by (simp add: x_def KERNEL_VIRT_OFFSET_def)
  moreover have "unat (m - 0x3FC00001) = unat m - 0x3FC00001"
    using assms(1) by (subst unat_sub) (simp_all add: word_le_nat_alt word_less_nat_alt)
  ultimately have "x < 2 ^ 22" using assms(2) by (simp add: word_less_nat_alt word_le_nat_alt)
  then have "x AND mask 22 = x" by (simp add: less_mask_eq)
  then have "x AND NOT (mask 22) = (x AND mask 22) AND NOT (mask 22)" by simp
  also have "\<dots> = 0" by (simp only: and.assoc) simp
  also have "(mask 22 :: u32) = 0x400000 - 1" by (simp add: mask_eq_exp_minus_1)
  finally show ?thesis by (simp only: x_def)
qed

text \<open>The counter of the bump allocator moves whatever becomes of the pages.\<close>

lemma next_vaddr_map: "g_next_vaddr (snd (vmm_map_page v p fl s)) = g_next_vaddr s"
  by (simp add: vmm_map_page_def vmm_ensure_page_table_def Let_def vm_simps split: prod.splits if_splits) 
    (auto simp: vm_simps)

lemma next_vaddr_alloc_from: "g_next_vaddr (snd (vmm_alloc_from start count i s)) = g_next_vaddr s"
proof (induction start count i s rule: vmm_alloc_from.induct)
  case (1 start count i s)
  have m: "g_next_vaddr t' = g_next_vaddr t" if "vmm_map_page v p fl t = (x, t')" for v p fl x and t t' :: "('a, 'b) vmm_state"
    using next_vaddr_map [of v p fl t] that by simp
  show ?case
    using 1 by (subst vmm_alloc_from.simps) (auto simp: Let_def dest: m split: prod.splits)
qed

lemma next_vaddr_rollback: "g_next_vaddr (vmm_rollback_from start count j s) = g_next_vaddr s"
proof (induction start count j s rule: vmm_rollback_from.induct)
  case (1 start count j s)
  have u: "g_next_vaddr (vmm_unmap_page v t) = g_next_vaddr t" for v and t :: "('a, 'b) vmm_state"
    by (simp add: vmm_unmap_page_def Let_def vm_simps)
  show ?case
    using 1 u by (subst vmm_rollback_from.simps) (auto simp: Let_def split: option.splits)
qed

end
