(* ===== verification/Mb2.thy ===== *)
theory Mb2
  imports Phys_Mem
begin

text \<open>
  The Multiboot2 parsing that \<open>pmm_bitmap.c\<close>, \<open>pmm_buddy.c\<close> and \<open>mmap.c\<close> share: the search for a
  tag and the walk over the entries of the memory map. Pointers are 32-bit words, so the bounds
  tests compare wrapped sums as the i386 code does; a loop that need not end on hostile data is a
  \<open>partial_function\<close>, whose value is \<open>None\<close> when it does not return.
\<close>

section \<open>Boot-time inputs\<close>

text \<open>\<open>g_mb2_info\<close> (a physical address, \<open>0\<close> for \<open>NULL\<close>) and the symbols of the linker script.\<close>

record boot_info =
  g_mb2_info :: u32
  kernel_phys_start :: u32
  kernel_phys_end :: u32

section \<open>Tags\<close>

definition align8_u32 :: "u32 \<Rightarrow> u32" where
  "align8_u32 n = (n + 7) AND NOT 7"

definition MB2_TAG_TYPE_END :: u32 where "MB2_TAG_TYPE_END = 0"
definition MB2_TAG_TYPE_MMAP :: u32 where "MB2_TAG_TYPE_MMAP = 6"

text \<open>\<open>MB2_FIND_OK\<close> carries the pointer the C function stores through \<open>out\<close>.\<close>

datatype mb2_find_result = MB2_FIND_OK u32 | MB2_FIND_NOT_FOUND | MB2_FIND_INVALID

definition tag_type :: "memory \<Rightarrow> u32 \<Rightarrow> u32" where "tag_type m p = rd32 m p"
definition tag_size :: "memory \<Rightarrow> u32 \<Rightarrow> u32" where "tag_size m p = rd32 m (p + 4)"

partial_function (option) mb2_find_loop ::
    "memory \<Rightarrow> u32 \<Rightarrow> u32 \<Rightarrow> u32 \<Rightarrow> mb2_find_result option" where
  "mb2_find_loop m en want_type p =
     (if p + 8 \<le> en then
        (if tag_type m p = MB2_TAG_TYPE_END \<and> tag_size m p = 8 then Some MB2_FIND_NOT_FOUND
         else if tag_size m p < 8 then Some MB2_FIND_INVALID
         else if en < p + tag_size m p then Some MB2_FIND_INVALID
         else if tag_type m p = want_type then Some (MB2_FIND_OK p)
         else mb2_find_loop m en want_type (p + align8_u32 (tag_size m p)))
      else Some MB2_FIND_NOT_FOUND)"

definition mb2_find_tag :: "memory \<Rightarrow> u32 \<Rightarrow> u32 \<Rightarrow> u32 \<Rightarrow> mb2_find_result option" where
  "mb2_find_tag m base total_size want_type =
     (if base = 0 \<or> total_size < 16 then Some MB2_FIND_INVALID
      else mb2_find_loop m (base + total_size) want_type (base + 8))"

text \<open>The variant of \<open>pmm_buddy.c\<close>, which looks for the memory map only and returns a pointer,
  \<open>0\<close> when there is none.\<close>

partial_function (option) mb2_find_mmap_loop :: "memory \<Rightarrow> u32 \<Rightarrow> u32 \<Rightarrow> u32 option" where
  "mb2_find_mmap_loop m en p =
     (if p + 8 \<le> en then
        (if tag_type m p = 0 \<and> tag_size m p = 8 then Some 0
         else if tag_size m p < 8 \<or> en < p + tag_size m p then Some 0
         else if tag_type m p = 6 then Some p
         else mb2_find_mmap_loop m en (p + ((tag_size m p + 7) AND NOT 7)))
      else Some 0)"

definition mb2_find_mmap :: "memory \<Rightarrow> u32 \<Rightarrow> u32 \<Rightarrow> u32 option" where
  "mb2_find_mmap m base total_size =
     (if base = 0 \<or> total_size < 16 then Some 0 else mb2_find_mmap_loop m (base + total_size) (base + 8))"

section \<open>Memory-map entries\<close>

definition mmap_entry_size :: "memory \<Rightarrow> u32 \<Rightarrow> u32" where "mmap_entry_size m tag = rd32 m (tag + 8)"
definition entry_addr :: "memory \<Rightarrow> u32 \<Rightarrow> u64" where "entry_addr m p = rd64 m p"
definition entry_len :: "memory \<Rightarrow> u32 \<Rightarrow> u64" where "entry_len m p = rd64 m (p + 8)"
definition entry_type :: "memory \<Rightarrow> u32 \<Rightarrow> u32" where "entry_type m p = rd32 m (p + 16)"

text \<open>\<open>for (p = entries; p + entry_size <= entries_end; p += entry_size)\<close>, with a body that
  returns the new state and whether it leaves the loop by \<open>break\<close>.\<close>

partial_function (option) mmap_loop ::
    "u32 \<Rightarrow> u32 \<Rightarrow> (u32 \<Rightarrow> 's \<Rightarrow> bool \<times> 's) \<Rightarrow> u32 \<Rightarrow> 's \<Rightarrow> 's option" where
  "mmap_loop entry_size entries_end body p s =
     (if p + entry_size \<le> entries_end then
        (case body p s of (brk, s') \<Rightarrow>
           if brk then Some s' else mmap_loop entry_size entries_end body (p + entry_size) s')
      else Some s)"

section \<open>The tag search on a well-formed information structure\<close>

text \<open>Where a tag ends, with the padding up to the next multiple of 8 bytes.\<close>

definition tag_after :: "u32 \<Rightarrow> u32 \<Rightarrow> u32" where
  "tag_after p sz = p + of_nat (8 * ((unat sz + 7) div 8))"

text \<open>\<open>tags_at m p ts\<close>: the tags \<open>ts\<close> (type and size) lie one after the other from \<open>p\<close>, each on an
  8-byte boundary after the last, closed by the end tag.\<close>

fun tags_at :: "memory \<Rightarrow> u32 \<Rightarrow> (u32 \<times> u32) list \<Rightarrow> bool" where
  "tags_at m p [] \<longleftrightarrow> tag_type m p = 0 \<and> tag_size m p = 8"
| "tags_at m p ((ty, sz) # ts) \<longleftrightarrow> tag_type m p = ty \<and> tag_size m p = sz \<and> 8 \<le> sz \<and>
     \<not> (ty = 0 \<and> sz = 8) \<and> tags_at m (tag_after p sz) ts"

fun tags_bytes :: "(u32 \<times> u32) list \<Rightarrow> nat" where
  "tags_bytes [] = 8"
| "tags_bytes ((ty, sz) # ts) = (unat sz + 7) div 8 * 8 + tags_bytes ts"

fun first_tag :: "u32 \<Rightarrow> u32 \<Rightarrow> (u32 \<times> u32) list \<Rightarrow> mb2_find_result" where
  "first_tag want p [] = MB2_FIND_NOT_FOUND"
| "first_tag want p ((ty, sz) # ts) =
     (if ty = want then MB2_FIND_OK p else first_tag want (tag_after p sz) ts)"

lemma unat_align8:
  assumes "unat n + 7 < 2 ^ 32"
  shows "unat (align8_u32 n) = (unat n + 7) div 8 * 8"
proof -
  have "(7 :: u32) = mask 3" by (simp add: mask_eq_exp_minus_1)
  moreover have "unat (n + 7) = unat n + 7" using assms by (subst unat_add_no_wrap) auto
  ultimately show ?thesis
    using unat_and_not_mask [of "n + 7" 3] by (simp add: align8_u32_def minus_mod_eq_div_mult)
qed

lemma align8_after: "unat sz + 7 < 2 ^ 32 \<Longrightarrow> p + align8_u32 sz = tag_after p sz"
proof -
  assume "unat sz + 7 < 2 ^ 32"
  then have "unat (align8_u32 sz) = 8 * ((unat sz + 7) div 8)" by (simp add: unat_align8)
  then have "of_nat (unat (align8_u32 sz)) = (of_nat (8 * ((unat sz + 7) div 8)) :: u32)" by (rule arg_cong)
  then have "align8_u32 sz = of_nat (8 * ((unat sz + 7) div 8))" by simp
  then show ?thesis by (simp add: tag_after_def)
qed

lemma tags_bytes_ge: "8 \<le> tags_bytes ts"
  by (induction ts rule: tags_bytes.induct) auto

lemma mb2_find_loop_tags:
  assumes "tags_at m p ts" "unat p + tags_bytes ts \<le> unat en"
  shows "mb2_find_loop m en want p = Some (first_tag want p ts)"
  using assms
proof (induction ts arbitrary: p)
  case Nil
  have "unat (p + 8) = unat p + 8"
    using Nil(2) unat_lt_2p32 [of en] by (subst unat_add_no_wrap) auto
  with Nil show ?case
    by (subst mb2_find_loop.simps) (simp add: MB2_TAG_TYPE_END_def word_le_nat_alt)
next
  case (Cons t ts)
  obtain ty sz where t: "t = (ty, sz)" by (cases t)
  have lim: "unat p + ((unat sz + 7) div 8 * 8) + tags_bytes ts < 2 ^ 32"
    using Cons.prems(2) unat_lt_2p32 [of en] by (simp add: t)
  note ge = tags_bytes_ge [of ts]
  have a: "unat (align8_u32 sz) = (unat sz + 7) div 8 * 8"
    using lim ge by (intro unat_align8) linarith
  have step: "unat (p + align8_u32 sz) = unat p + (unat sz + 7) div 8 * 8"
    using lim by (subst unat_add_no_wrap) (auto simp: a)
  have "unat sz + 7 < 2 ^ 32" using lim ge by linarith
  note after = align8_after [OF this, of p]
  have p8: "unat (p + 8) = unat p + 8"
    using lim ge by (subst unat_add_no_wrap) auto
  have psz: "unat (p + sz) = unat p + unat sz"
    using lim ge by (subst unat_add_no_wrap) auto
  have "p + 8 \<le> en" "\<not> en < p + sz"
    using Cons.prems(2) ge by (simp_all add: t word_le_nat_alt word_less_nat_alt p8 psz)
  moreover have "mb2_find_loop m en want (p + align8_u32 sz) = Some (first_tag want (p + align8_u32 sz) ts)"
    using Cons.prems step by (intro Cons.IH) (simp_all add: t after)
  ultimately show ?case
    using Cons.prems(1) after
    by (subst mb2_find_loop.simps) (auto simp: t MB2_TAG_TYPE_END_def not_less [symmetric])
qed

text \<open>The buddy allocator's search is the same search for type 6.\<close>

definition find_result_ptr :: "mb2_find_result \<Rightarrow> u32" where
  "find_result_ptr r = (case r of MB2_FIND_OK p \<Rightarrow> p | _ \<Rightarrow> 0)"

lemma mb2_find_loop_Some:
  assumes "mb2_find_loop m en w p = Some r" "w = 6"
  shows "mb2_find_mmap_loop m en p = Some (find_result_ptr r)"
proof (rule mb2_find_loop.raw_induct [where P = "\<lambda>m en w p r. w = 6 \<longrightarrow>
    mb2_find_mmap_loop m en p = Some (find_result_ptr r)", THEN mp, OF _ assms(1)])
  fix loop m en w p r
  assume IH: "\<And>m en w p r. loop m en w p = Some r \<Longrightarrow>
      w = 6 \<longrightarrow> mb2_find_mmap_loop m en p = Some (find_result_ptr r)"
    and body: "(if p + 8 \<le> en
      then if tag_type m p = MB2_TAG_TYPE_END \<and> tag_size m p = 8 then Some MB2_FIND_NOT_FOUND
        else if tag_size m p < 8 then Some MB2_FIND_INVALID
        else if en < p + tag_size m p then Some MB2_FIND_INVALID
        else if tag_type m p = w then Some (MB2_FIND_OK p)
        else loop m en w (p + align8_u32 (tag_size m p))
      else Some MB2_FIND_NOT_FOUND) = Some r"
  show "w = 6 \<longrightarrow> mb2_find_mmap_loop m en p = Some (find_result_ptr r)"
    using body IH [of m en w "p + align8_u32 (tag_size m p)" r]
    by (subst mb2_find_mmap_loop.simps)
      (auto simp: find_result_ptr_def MB2_TAG_TYPE_END_def align8_u32_def split: if_splits)
qed (rule assms(2))

lemma mb2_find_mmap_loop_Some:
  assumes "mb2_find_mmap_loop m en p = Some q"
  shows "\<exists>r. mb2_find_loop m en 6 p = Some r"
proof (rule mb2_find_mmap_loop.raw_induct
    [where P = "\<lambda>m en p q. \<exists>r. mb2_find_loop m en 6 p = Some r", OF _ assms])
  fix loop m en p q
  assume IH: "\<And>m en p q. loop m en p = Some q \<Longrightarrow> \<exists>r. mb2_find_loop m en 6 p = Some r"
    and body: "(if p + 8 \<le> en
      then if tag_type m p = 0 \<and> tag_size m p = 8 then Some 0
        else if tag_size m p < 8 \<or> en < p + tag_size m p then Some 0
        else if tag_type m p = 6 then Some p
        else loop m en (p + (tag_size m p + 7 AND NOT 7))
      else Some 0) = Some q"
  show "\<exists>r. mb2_find_loop m en 6 p = Some r"
    using body IH [of m en "p + (tag_size m p + 7 AND NOT 7)" q]
    by (subst mb2_find_loop.simps)
      (auto simp: MB2_TAG_TYPE_END_def align8_u32_def split: if_splits)
qed

lemma mb2_find_mmap_eq:
  "mb2_find_mmap m base total_size =
    map_option find_result_ptr (mb2_find_tag m base total_size MB2_TAG_TYPE_MMAP)"
proof (cases "base = 0 \<or> total_size < 16")
  case True
  then show ?thesis by (simp add: mb2_find_mmap_def mb2_find_tag_def find_result_ptr_def)
next
  case False
  let ?loop = "mb2_find_loop m (base + total_size) 6 (base + 8)"
  show ?thesis
  proof (cases ?loop)
    case None
    then have "mb2_find_mmap_loop m (base + total_size) (base + 8) = None"
      using mb2_find_mmap_loop_Some [of m "base + total_size" "base + 8"]
      by (cases "mb2_find_mmap_loop m (base + total_size) (base + 8)") auto
    with None False show ?thesis
      by (auto simp: mb2_find_mmap_def mb2_find_tag_def MB2_TAG_TYPE_MMAP_def)
  next
    case (Some r)
    with False show ?thesis
      using mb2_find_loop_Some [OF Some refl]
      by (auto simp: mb2_find_mmap_def mb2_find_tag_def MB2_TAG_TYPE_MMAP_def)
  qed
qed

section \<open>The entry walk\<close>

text \<open>While the sum of the last pointer and the entry size does not wrap around, the walk visits
  \<open>n\<close> entries and returns.\<close>

fun fold_entries :: "(u32 \<Rightarrow> 's \<Rightarrow> bool \<times> 's) \<Rightarrow> u32 list \<Rightarrow> 's \<Rightarrow> 's" where
  "fold_entries body [] s = s"
| "fold_entries body (p # ps) s =
     (case body p s of (brk, s') \<Rightarrow> if brk then s' else fold_entries body ps s')"

definition entry_ptrs :: "u32 \<Rightarrow> u32 \<Rightarrow> nat \<Rightarrow> u32 list" where
  "entry_ptrs p es n = map (\<lambda>i. p + of_nat i * es) [0..<n]"

lemma entry_ptrs_Suc: "entry_ptrs p es (Suc n) = p # entry_ptrs (p + es) es n"
  by (simp add: entry_ptrs_def upt_conv_Cons map_Suc_upt [symmetric] algebra_simps del: upt_Suc)

lemma mmap_loop_fold:
  assumes "0 < es" "unat en + unat es < 2 ^ 32" "unat p \<le> unat en"
  shows "mmap_loop es en body p s = Some (fold_entries body (entry_ptrs p es ((unat en - unat p) div unat es)) s)"
  using assms(3)
proof (induction "(unat en - unat p) div unat es" arbitrary: p s)
  case 0
  have sum: "unat (p + es) = unat p + unat es"
    using assms(2) 0(2) by (subst unat_add_no_wrap) auto
  have "unat en - unat p < unat es"
    using 0(1) assms(1) by (metis div_eq_0_iff less_irrefl unat_gt_0)
  then have "\<not> p + es \<le> en" by (simp add: word_le_nat_alt sum)
  then show ?case
    unfolding 0(1) [symmetric] by (subst mmap_loop.simps) (simp add: entry_ptrs_def)
next
  case (Suc n)
  have es: "0 < unat es" using assms(1) by (simp add: unat_gt_0)
  have sum: "unat (p + es) = unat p + unat es"
    using assms(2) Suc(3) by (subst unat_add_no_wrap) auto
  have le: "unat es \<le> unat en - unat p"
    using Suc(2) es by (metis Suc_neq_Zero div_less not_le)
  then have in_range: "p + es \<le> en" using Suc(3) by (simp add: word_le_nat_alt sum)
  have n: "n = (unat en - unat (p + es)) div unat es"
    using Suc(2) le es by (simp add: sum le_div_geq flip: diff_diff_left)
  have IH: "mmap_loop es en body (p + es) s' = Some (fold_entries body (entry_ptrs (p + es) es n) s')" for s'
    using Suc(1) [OF n] in_range n by (simp add: word_le_nat_alt)
  show ?case
    unfolding Suc(2) [symmetric] using in_range IH
    by (subst mmap_loop.simps) (auto simp: entry_ptrs_Suc split: prod.split)
qed

section \<open>Properties\<close>

text \<open>C24. On a well-formed information structure (tags one after the other on 8-byte boundaries, closed by
  the end tag, all inside \<open>[base, base + total_size)\<close>; a size need not be a multiple of 8) the search returns, with the first tag of
  the wanted type or \<open>MB2_FIND_NOT_FOUND\<close>.\<close>

theorem mb2_find_tag_first:
  assumes "tags_at m (base + 8) ts" "base \<noteq> 0"
    and "unat base + 8 + tags_bytes ts \<le> unat base + unat total_size"
    and "unat base + unat total_size < 2 ^ 32"
  shows "mb2_find_tag m base total_size want = Some (first_tag want (base + 8) ts)"
proof -
  note ge = tags_bytes_ge [of ts]
  have "unat (base + 8) = unat base + 8" "unat (base + total_size) = unat base + unat total_size"
    using assms(3,4) ge by (subst unat_add_no_wrap; simp)+
  moreover have "\<not> total_size < 16" using assms(3) ge by (simp add: word_less_nat_alt)
  ultimately show ?thesis
    using assms mb2_find_loop_tags [OF assms(1), of "base + total_size" want]
    by (simp add: mb2_find_tag_def)
qed

definition sample_tags :: memory where
  "sample_tags = wr32 (wr32 (wr32 (wr32 (wr32 (wr32 (\<lambda>_. 0) 0x1008 4) 0x100C 13) 0x1018 6) 0x101C 37) 0x1040 0) 0x1044 8"

theorem mb2_find_tag_first_witness:
  "mb2_find_tag sample_tags 0x1000 0x48 MB2_TAG_TYPE_MMAP = Some (MB2_FIND_OK 0x1018)"
  by (subst mb2_find_tag_first [where ts = "[(4, 13), (6, 37)]"])
    (simp_all add: sample_tags_def wr32_def rd32_def tag_type_def tag_size_def
      MB2_TAG_TYPE_MMAP_def tag_after_def)

text \<open>The private tag search of the buddy allocator finds the memory map exactly when the search of the
  other files does, on every memory image, including those on which neither returns.\<close>

theorem buddy_tag_search_equiv:
  "mb2_find_mmap m base total_size = map_option find_result_ptr (mb2_find_tag m base total_size MB2_TAG_TYPE_MMAP)"
  by (rule mb2_find_mmap_eq)

end
