(* ===== verification/Boot_Map.thy ===== *)
theory Boot_Map
  imports Mb2
begin

text \<open>
  What both page allocators read out of the boot loader's memory map: the pages a byte range
  touches, the walk over the entries of the memory-map tag, and a small boot-time memory image on
  which the properties are evaluated.
\<close>

section \<open>Page ranges\<close>

text \<open>The pages from \<open>p\<close> up to \<open>e\<close>.\<close>

definition pages_between :: "u32 \<Rightarrow> u32 \<Rightarrow> u32 set" where
  "pages_between p e = {a. page_aligned a \<and> p \<le> a \<and> a < e}"

lemma aligned_next:
  assumes "page_aligned p" "page_aligned e" "p < e"
  shows "unat (p + 4096) = unat p + 4096" "p + 4096 \<le> e"
proof -
  obtain i j where ij: "unat p = 4096 * i" "unat e = 4096 * j" using assms by (auto simp: page_aligned_iff dvd_def)
  then have "unat p + 4096 \<le> unat e" using assms(3) by (simp add: word_less_nat_alt)
  moreover from this show "unat (p + 4096) = unat p + 4096"
    using unat_lt_2p32 [of e] by (subst unat_add_no_wrap) auto
  ultimately show "p + 4096 \<le> e" by (simp add: word_le_nat_alt)
qed

lemma pages_between_step:
  assumes "page_aligned p" "page_aligned e" "p < e"
  shows "pages_between p e = insert p (pages_between (p + 4096) e)"
proof -
  note n = aligned_next [OF assms]
  have "a = p \<or> p + 4096 \<le> a" if "page_aligned a" "p \<le> a" for a
    using aligned_next [OF assms(1) that(1)] that(2) by (cases "p = a") auto
  moreover have "p \<le> a" if "p + 4096 \<le> a" for a using that n(1) by (simp add: word_le_nat_alt)
  ultimately show ?thesis using assms by (auto simp: pages_between_def)
qed

text \<open>The pages that a byte range touches.\<close>

definition touched_pages :: "u32 \<Rightarrow> u32 \<Rightarrow> u32 set" where
  "touched_pages start en = (if en \<le> start then {}
     else pages_between (align_down_u32 start 4096) (align_up_u32 en 4096))"

lemma pages_between_below:
  assumes "page_aligned e" "x \<in> pages_between p e"
  shows "unat x + 4096 \<le> unat e"
  using assms aligned_next [of x e] by (auto simp: pages_between_def word_le_nat_alt)

section \<open>The entries of the memory map\<close>

definition u64_add_sat :: "u64 \<Rightarrow> u64 \<Rightarrow> u64" where
  "u64_add_sat a b = (let r = a + b in if r < a then - 1 else r)"

definition mb2_end_of :: "boot_info \<Rightarrow> memory \<Rightarrow> u32" where
  "mb2_end_of bi m = g_mb2_info bi + rd32 m (PHYS_TO_VIRT (g_mb2_info bi))"

definition mmap_ptrs :: "memory \<Rightarrow> u32 \<Rightarrow> u32 list" where
  "mmap_ptrs m tag = entry_ptrs (tag + 16) (mmap_entry_size m tag)
     ((unat (tag + tag_size m tag) - unat (tag + 16)) div unat (mmap_entry_size m tag))"

text \<open>The tag does not reach the top of the address space and its sizes are at least those of the
  C structures.\<close>

definition mmap_tag_ok :: "memory \<Rightarrow> u32 \<Rightarrow> bool" where
  "mmap_tag_ok m tag \<longleftrightarrow> 16 \<le> tag_size m tag \<and> 24 \<le> mmap_entry_size m tag \<and>
     unat tag + unat (tag_size m tag) + unat (mmap_entry_size m tag) < 2 ^ 32"

lemma mmap_tag_walk:
  assumes "mmap_tag_ok m tag"
  shows "mmap_loop (mmap_entry_size m tag) (tag + tag_size m tag) body (tag + 16) st =
    Some (fold_entries body (mmap_ptrs m tag) st)"
proof -
  have lim: "unat tag + unat (tag_size m tag) + unat (mmap_entry_size m tag) < 2 ^ 32"
    and sz: "16 \<le> unat (tag_size m tag)" and es: "24 \<le> unat (mmap_entry_size m tag)"
    using assms by (simp_all add: mmap_tag_ok_def word_le_nat_alt)
  have "unat (tag + tag_size m tag) = unat tag + unat (tag_size m tag)" "unat (tag + 16) = unat tag + 16"
    using lim sz by (subst unat_add_no_wrap; simp)+
  then show ?thesis
    unfolding mmap_ptrs_def using lim sz es by (intro mmap_loop_fold) (auto simp: word_less_nat_alt)
qed

section \<open>An example\<close>

text \<open>A boot-time memory image: the information structure at physical \<open>0x9000\<close> with one usable
  megabyte at 1 MiB, and a kernel image of 128 KiB at its start.\<close>

definition sample_boot :: boot_info where
  "sample_boot = \<lparr>g_mb2_info = 0x9000, kernel_phys_start = 0x100000, kernel_phys_end = 0x120000\<rparr>"

definition sample_boot_mem :: memory where
  "sample_boot_mem = foldr (\<lambda>(a, v) m. wr32 m a v)
     [(0xC0009000, 0x38), (0xC0009008, 6), (0xC000900C, 40), (0xC0009010, 24), (0xC0009018, 0x100000),
      (0xC0009020, 0x100000), (0xC0009028, 1), (0xC0009034, 8)] (\<lambda>_. 0)"

lemma sample_boot_reads:
  "rd32 sample_boot_mem 0xC0009000 = 0x38" "rd32 sample_boot_mem 0xC0009008 = 6" "rd32 sample_boot_mem 0xC000900C = 40"
  "rd32 sample_boot_mem 0xC0009010 = 24" "rd32 sample_boot_mem 0xC0009014 = 0" "rd32 sample_boot_mem 0xC0009018 = 0x100000"
  "rd32 sample_boot_mem 0xC000901C = 0" "rd32 sample_boot_mem 0xC0009020 = 0x100000" "rd32 sample_boot_mem 0xC0009024 = 0"
  "rd32 sample_boot_mem 0xC0009028 = 1" "rd32 sample_boot_mem 0xC0009030 = 0" "rd32 sample_boot_mem 0xC0009034 = 8"
  by (simp_all add: sample_boot_mem_def rd32_def wr32_def)

end
