(* ===== verification/Pmm_Bitmap.thy ===== *)
theory Pmm_Bitmap
  imports Pmm
begin

text \<open>
  The bitmap back-end \<open>pmm_bitmap.c\<close>, its run-time half: the per-region bitmaps (bit 1 = used),
  the round-robin allocator, the checked \<open>free\<close>, the resynchronisation of the cached counters and
  the queries. Shows that the operations meet the contract of \<open>Pmm\<close>, with every bad \<open>free\<close>
  ignored. Initialisation is in \<open>Pmm_Bitmap_Init\<close>.
\<close>

section \<open>State\<close>

definition PMM_ONE_MIB :: u32 where "PMM_ONE_MIB = 0x100000"
definition PMM_MAX_REGIONS :: nat where "PMM_MAX_REGIONS = 32"

text \<open>\<open>r_bitmap\<close> holds the bytes the C pointer points to, \<open>[]\<close> for the null pointer.\<close>

record pmm_region =
  r_base :: u32
  r_pages :: u32
  r_bitmap :: "u8 list"
  r_bitmap_bytes :: u32
  r_bitmap_storage_bytes :: u32
  r_bitmap_pages :: u32
  r_free :: u32

record bitmap_state =
  g_regions :: "pmm_region list"
  g_region_count :: nat
  g_region_rr :: nat
  g_pmm_total_pages :: u32
  g_pmm_total_free :: u32
  g_pmm_ready :: bool
  g_mem :: memory

section \<open>Bit and address operations\<close>

definition pmm_addr_is_page_aligned :: "u32 \<Rightarrow> bool" where
  "pmm_addr_is_page_aligned addr \<longleftrightarrow> addr AND (PMM_PAGE_SIZE - 1) = 0"

definition region_contains_addr :: "pmm_region \<Rightarrow> u32 \<Rightarrow> bool" where
  "region_contains_addr r addr \<longleftrightarrow>
     (if r_pages r = 0 then False
      else (let en = r_base r + r_pages r * PMM_PAGE_SIZE in r_base r \<le> addr \<and> addr < en))"

definition region_addr_to_index :: "pmm_region \<Rightarrow> u32 \<Rightarrow> u32" where
  "region_addr_to_index r addr = (addr - r_base r) div PMM_PAGE_SIZE"

definition region_index_to_addr :: "pmm_region \<Rightarrow> u32 \<Rightarrow> u32" where
  "region_index_to_addr r idx = r_base r + idx * PMM_PAGE_SIZE"

definition bitmap_test_r :: "pmm_region \<Rightarrow> u32 \<Rightarrow> bool" where
  "bitmap_test_r r b =
     (let byte = drop_bit 3 b; mask = push_bit (unat (b AND 7)) 1
      in (r_bitmap r ! unat byte) AND mask \<noteq> 0)"

definition bitmap_set_r :: "u32 \<Rightarrow> pmm_region \<Rightarrow> pmm_region" where
  "bitmap_set_r b r =
     (let byte = drop_bit 3 b; mask = push_bit (unat (b AND 7)) 1
      in r\<lparr>r_bitmap := (r_bitmap r)[unat byte := (r_bitmap r ! unat byte) OR mask]\<rparr>)"

definition bitmap_clear_r :: "u32 \<Rightarrow> pmm_region \<Rightarrow> pmm_region" where
  "bitmap_clear_r b r =
     (let byte = drop_bit 3 b; mask = push_bit (unat (b AND 7)) 1
      in r\<lparr>r_bitmap := (r_bitmap r)[unat byte := (r_bitmap r ! unat byte) AND NOT mask]\<rparr>)"

section \<open>Allocation\<close>

text \<open>The two loops of \<open>pmm_find_free_index\<close>.\<close>

function find_free_bit :: "pmm_region \<Rightarrow> u32 \<Rightarrow> u32 \<Rightarrow> u32 option" where
  "find_free_bit r byte b =
     (if b < 8 then
        (let idx = push_bit 3 byte + b in
         if r_pages r \<le> idx then None
         else if \<not> bitmap_test_r r idx then Some idx
         else find_free_bit r byte (b + 1))
      else None)"
  by pat_completeness auto
termination by (relation "measure (\<lambda>(r, byte, b). 8 - unat b)") (auto simp: loop_measure_8)

function find_free_byte :: "pmm_region \<Rightarrow> u32 \<Rightarrow> u32 option" where
  "find_free_byte r byte =
     (if byte < r_bitmap_bytes r then
        (if r_bitmap r ! unat byte = 0xFF then find_free_byte r (byte + 1)
         else (case find_free_bit r byte 0 of
                 Some idx \<Rightarrow> Some idx
               | None \<Rightarrow> find_free_byte r (byte + 1)))
      else None)"
  by pat_completeness auto
termination by (relation "measure (\<lambda>(r, byte). unat (r_bitmap_bytes r) - unat byte)")
  (auto simp: loop_measure)

definition pmm_find_free_index :: "pmm_region \<Rightarrow> u32 option" where
  "pmm_find_free_index r = find_free_byte r 0"

text \<open>The counting loop over one region and the loop over the regions of \<open>pmm_resync_free_count\<close>.\<close>

function count_clear_from :: "pmm_region \<Rightarrow> u32 \<Rightarrow> u32 \<Rightarrow> u32" where
  "count_clear_from r i n =
     (if i < r_pages r then count_clear_from r (i + 1) (if \<not> bitmap_test_r r i then n + 1 else n) else n)"
  by pat_completeness auto
termination by (relation "measure (\<lambda>(r, i, n). unat (r_pages r) - unat i)")
  (auto simp: loop_measure)

function resync_from :: "nat \<Rightarrow> bitmap_state \<Rightarrow> bitmap_state" where
  "resync_from ri s =
     (if ri < g_region_count s then
        (let n = count_clear_from (g_regions s ! ri) 0 0 in
         resync_from (ri + 1) (s\<lparr>g_regions := (g_regions s)[ri := (g_regions s ! ri)\<lparr>r_free := n\<rparr>],
           g_pmm_total_free := g_pmm_total_free s + n\<rparr>))
      else s)"
  by pat_completeness auto
termination by (relation "measure (\<lambda>(ri, s). g_region_count s - ri)") auto

definition pmm_resync_free_count :: "bitmap_state \<Rightarrow> bitmap_state" where
  "pmm_resync_free_count s = resync_from 0 (s\<lparr>g_pmm_total_free := 0\<rparr>)"

text \<open>The round-robin loop of \<open>pmm_bitmap_alloc_page\<close>; \<open>None\<close> when it finds no page.\<close>

function alloc_from :: "nat \<Rightarrow> bitmap_state \<Rightarrow> (u32 \<times> bitmap_state) option" where
  "alloc_from off s =
     (if off < g_region_count s then
        (let ri = (g_region_rr s + off) mod g_region_count s; r = g_regions s ! ri in
         if r_free r = 0 then alloc_from (off + 1) s
         else (case pmm_find_free_index r of
                 None \<Rightarrow> alloc_from (off + 1) s
               | Some idx \<Rightarrow>
                   (let r' = (bitmap_set_r idx r)\<lparr>r_free := r_free r - 1\<rparr> in
                    Some (region_index_to_addr r idx,
                      s\<lparr>g_regions := (g_regions s)[ri := r'],
                        g_pmm_total_free := (if 0 < g_pmm_total_free s then g_pmm_total_free s - 1
                                             else g_pmm_total_free s),
                        g_region_rr := ri\<rparr>))))
      else None)"
  by pat_completeness auto
termination by (relation "measure (\<lambda>(off, s). g_region_count s - off)") auto

definition pmm_bitmap_alloc_page :: "bitmap_state \<Rightarrow> u32 \<times> bitmap_state" where
  "pmm_bitmap_alloc_page s =
     (if \<not> g_pmm_ready s \<or> g_region_count s = 0 \<or> g_pmm_total_pages s = 0 then (0, s)
      else if g_pmm_total_free s = 0 then (0, s)
      else (case alloc_from 0 s of
              Some (page, s') \<Rightarrow> (page, s')
            | None \<Rightarrow> (0, pmm_resync_free_count s)))"

section \<open>Release\<close>

function free_from :: "nat \<Rightarrow> u32 \<Rightarrow> bitmap_state \<Rightarrow> bitmap_state" where
  "free_from ri addr s =
     (if ri < g_region_count s then
        (let r = g_regions s ! ri in
         if \<not> region_contains_addr r addr then free_from (ri + 1) addr s
         else
           (let idx = region_addr_to_index r addr in
            if r_pages r \<le> idx then s
            else if \<not> bitmap_test_r r idx then s
            else
              (let r' = (bitmap_clear_r idx r)\<lparr>r_free := r_free r + 1\<rparr> in
               s\<lparr>g_regions := (g_regions s)[ri := r'], g_pmm_total_free := g_pmm_total_free s + 1\<rparr>)))
      else s)"
  by pat_completeness auto
termination by (relation "measure (\<lambda>(ri, addr, s). g_region_count s - ri)") auto

definition pmm_bitmap_free_page :: "u32 \<Rightarrow> bitmap_state \<Rightarrow> bitmap_state" where
  "pmm_bitmap_free_page page s =
     (if \<not> g_pmm_ready s \<or> page = 0 then s
      else if \<not> pmm_addr_is_page_aligned page then s
      else free_from 0 page s)"

section \<open>Queries\<close>

definition pmm_bitmap_total_pages :: "bitmap_state \<Rightarrow> u32" where
  "pmm_bitmap_total_pages s = (if g_pmm_ready s then g_pmm_total_pages s else 0)"

definition pmm_bitmap_free_pages :: "bitmap_state \<Rightarrow> u32" where
  "pmm_bitmap_free_pages s = (if g_pmm_ready s then g_pmm_total_free s else 0)"

function min_base_from :: "bitmap_state \<Rightarrow> nat \<Rightarrow> u32 \<Rightarrow> u32" where
  "min_base_from s i min_base =
     (if i < g_region_count s then
        min_base_from s (i + 1)
          (if r_base (g_regions s ! i) \<noteq> 0 \<and> r_base (g_regions s ! i) < min_base
           then r_base (g_regions s ! i) else min_base)
      else min_base)"
  by pat_completeness auto
termination by (relation "measure (\<lambda>(s, i, m). g_region_count s - i)") auto

definition pmm_bitmap_managed_base :: "bitmap_state \<Rightarrow> u32" where
  "pmm_bitmap_managed_base s =
     (if \<not> g_pmm_ready s \<or> g_region_count s = 0 then 0
      else min_base_from s 1 (r_base (g_regions s ! 0)))"

function page_addr_from :: "bitmap_state \<Rightarrow> u32 \<Rightarrow> nat \<Rightarrow> u32 \<Rightarrow> u32" where
  "page_addr_from s idx ri acc =
     (if ri < g_region_count s then
        (let r = g_regions s ! ri in
         if idx < acc + r_pages r then region_index_to_addr r (idx - acc)
         else page_addr_from s idx (ri + 1) (acc + r_pages r))
      else 0)"
  by pat_completeness auto
termination by (relation "measure (\<lambda>(s, idx, ri, acc). g_region_count s - ri)") auto

definition pmm_bitmap_page_addr :: "bitmap_state \<Rightarrow> u32 \<Rightarrow> u32" where
  "pmm_bitmap_page_addr s page_index =
     (if \<not> g_pmm_ready s then 0 else page_addr_from s page_index 0 0)"

function page_is_used_from :: "bitmap_state \<Rightarrow> u32 \<Rightarrow> nat \<Rightarrow> u32 \<Rightarrow> int" where
  "page_is_used_from s idx ri acc =
     (if ri < g_region_count s then
        (let r = g_regions s ! ri in
         if idx < acc + r_pages r then (if bitmap_test_r r (idx - acc) then 1 else 0)
         else page_is_used_from s idx (ri + 1) (acc + r_pages r))
      else - 1)"
  by pat_completeness auto
termination by (relation "measure (\<lambda>(s, idx, ri, acc). g_region_count s - ri)") auto

definition pmm_bitmap_page_is_used :: "bitmap_state \<Rightarrow> u32 \<Rightarrow> int" where
  "pmm_bitmap_page_is_used s page_index =
     (if \<not> g_pmm_ready s then - 1 else page_is_used_from s page_index 0 0)"

declare find_free_bit.simps [simp del] find_free_byte.simps [simp del] count_clear_from.simps [simp del]
  resync_from.simps [simp del] alloc_from.simps [simp del] free_from.simps [simp del]
  min_base_from.simps [simp del] page_addr_from.simps [simp del] page_is_used_from.simps [simp del]

section \<open>One region\<close>

text \<open>The shape of a region in use: a page-aligned, non-null range of pages that stays below
  \<open>2\<^sup>3\<^sup>2\<close>, with a bit for every page.\<close>

definition region_ok :: "pmm_region \<Rightarrow> bool" where
  "region_ok r \<longleftrightarrow> page_aligned (r_base r) \<and> 0 < r_base r \<and>
     unat (r_base r) + unat (r_pages r) * 4096 < 2 ^ 32 \<and>
     unat (r_pages r) \<le> 8 * unat (r_bitmap_bytes r) \<and> 8 * unat (r_bitmap_bytes r) < 2 ^ 32 \<and>
     unat (r_bitmap_bytes r) \<le> length (r_bitmap r)"

definition clear_idx :: "pmm_region \<Rightarrow> u32 set" where
  "clear_idx r = {i. i < r_pages r \<and> \<not> bitmap_test_r r i}"

definition region_managed :: "pmm_region \<Rightarrow> u32 set" where
  "region_managed r = region_index_to_addr r ` {i. i < r_pages r}"

definition region_free_set :: "pmm_region \<Rightarrow> u32 set" where
  "region_free_set r = region_index_to_addr r ` clear_idx r"

definition region_inv :: "pmm_region \<Rightarrow> bool" where
  "region_inv r \<longleftrightarrow> region_ok r \<and> unat (r_free r) = card (clear_idx r)"

subsection \<open>Bits\<close>

lemma unat_byte_index: "unat (drop_bit 3 b) = unat b div 8" for b :: u32
  by (simp add: drop_bit_eq_div unat_div_distrib)

lemma unat_bit_index: "unat (b AND 7) = unat b mod 8" for b :: u32
  using unat_and_mask [of b 3] by (simp add: mask_eq_exp_minus_1)

lemma bitmap_test_bit: "bitmap_test_r r b \<longleftrightarrow> bit (r_bitmap r ! (unat b div 8)) (unat b mod 8)"
  by (simp add: bitmap_test_r_def Let_def unat_byte_index unat_bit_index bit_iff_and_push_bit_not_eq_0)

lemma same_bit: "unat b div 8 = unat c div 8 \<Longrightarrow> unat b mod 8 = unat c mod 8 \<longleftrightarrow> b = c" for b c :: u32
  by (metis mult_div_mod_eq word_unat_eq_iff)

lemma test_set:
  assumes "unat b div 8 < length (r_bitmap r)"
  shows "bitmap_test_r (bitmap_set_r b r) c \<longleftrightarrow> c = b \<or> bitmap_test_r r c"
  using assms same_bit [of b c]
  by (cases "unat b div 8 = unat c div 8")
    (auto simp: bitmap_test_bit bitmap_set_r_def Let_def unat_byte_index unat_bit_index bit_or_iff bit_exp_iff)

lemma test_clear:
  assumes "unat b div 8 < length (r_bitmap r)"
  shows "bitmap_test_r (bitmap_clear_r b r) c \<longleftrightarrow> c \<noteq> b \<and> bitmap_test_r r c"
  using assms same_bit [of b c]
  by (cases "unat b div 8 = unat c div 8")
    (auto simp: bitmap_test_bit bitmap_clear_r_def Let_def unat_byte_index unat_bit_index
      bit_and_iff bit_not_iff bit_exp_iff)

lemma region_fields [simp]:
  "r_base (bitmap_set_r b r) = r_base r" "r_pages (bitmap_set_r b r) = r_pages r"
  "r_bitmap_bytes (bitmap_set_r b r) = r_bitmap_bytes r" "r_free (bitmap_set_r b r) = r_free r"
  "length (r_bitmap (bitmap_set_r b r)) = length (r_bitmap r)"
  "r_base (bitmap_clear_r b r) = r_base r" "r_pages (bitmap_clear_r b r) = r_pages r"
  "r_bitmap_bytes (bitmap_clear_r b r) = r_bitmap_bytes r" "r_free (bitmap_clear_r b r) = r_free r"
  "length (r_bitmap (bitmap_clear_r b r)) = length (r_bitmap r)"
  by (simp_all add: bitmap_set_r_def bitmap_clear_r_def Let_def)

lemma region_free_field [simp]:
  "bitmap_test_r (r\<lparr>r_free := n\<rparr>) b = bitmap_test_r r b"
  "clear_idx (r\<lparr>r_free := n\<rparr>) = clear_idx r" "region_ok (r\<lparr>r_free := n\<rparr>) = region_ok r"
  "region_index_to_addr (r\<lparr>r_free := n\<rparr>) = region_index_to_addr r"
  "region_managed (r\<lparr>r_free := n\<rparr>) = region_managed r"
  "region_free_set (r\<lparr>r_free := n\<rparr>) = region_free_set r"
  by (auto simp: bitmap_test_r_def clear_idx_def region_ok_def region_index_to_addr_def
      region_managed_def region_free_set_def)

lemma region_ok_byte:
  assumes "region_ok r" "b < r_pages r"
  shows "unat b div 8 < length (r_bitmap r)"
proof -
  have "unat b < 8 * unat (r_bitmap_bytes r)" using assms by (simp add: region_ok_def word_less_nat_alt)
  then have "unat b div 8 < unat (r_bitmap_bytes r)" by (simp add: div_less_iff_less_mult mult.commute)
  with assms(1) show ?thesis by (simp add: region_ok_def)
qed

lemma set_region:
  assumes "region_ok r" "b < r_pages r"
  shows "clear_idx (bitmap_set_r b r) = clear_idx r - {b}" "region_ok (bitmap_set_r b r)"
    "region_index_to_addr (bitmap_set_r b r) = region_index_to_addr r"
    "region_managed (bitmap_set_r b r) = region_managed r"
proof -
  show "region_index_to_addr (bitmap_set_r b r) = region_index_to_addr r"
    by (simp add: region_index_to_addr_def fun_eq_iff)
  then show "region_managed (bitmap_set_r b r) = region_managed r" by (simp add: region_managed_def)
  show "region_ok (bitmap_set_r b r)" using assms(1) by (simp add: region_ok_def)
qed (use assms(2) in \<open>auto simp: clear_idx_def test_set [OF region_ok_byte [OF assms]]\<close>)

lemma clear_region:
  assumes "region_ok r" "b < r_pages r"
  shows "clear_idx (bitmap_clear_r b r) = insert b (clear_idx r)" "region_ok (bitmap_clear_r b r)"
    "region_index_to_addr (bitmap_clear_r b r) = region_index_to_addr r"
    "region_managed (bitmap_clear_r b r) = region_managed r"
proof -
  show "region_index_to_addr (bitmap_clear_r b r) = region_index_to_addr r"
    by (simp add: region_index_to_addr_def fun_eq_iff)
  then show "region_managed (bitmap_clear_r b r) = region_managed r" by (simp add: region_managed_def)
  show "region_ok (bitmap_clear_r b r)" using assms(1) by (simp add: region_ok_def)
qed (use assms(2) in \<open>auto simp: clear_idx_def test_clear [OF region_ok_byte [OF assms]]\<close>)

subsection \<open>Addresses\<close>

lemma unat_index_to_addr:
  assumes "region_ok r" "i \<le> r_pages r"
  shows "unat (region_index_to_addr r i) = unat (r_base r) + unat i * 4096"
proof -
  have lt: "unat (r_base r) + unat i * 4096 < 2 ^ 32"
    using assms by (auto simp: region_ok_def word_le_nat_alt)
  then have "unat (i * 4096) = unat i * 4096" by (simp add: unat_word_ariths)
  with lt show ?thesis
    by (simp add: region_index_to_addr_def PMM_PAGE_SIZE_def unat_word_ariths)
qed

lemma index_to_addr_inj: "region_ok r \<Longrightarrow> inj_on (region_index_to_addr r) {i. i < r_pages r}"
proof (rule inj_onI)
  fix i j assume r: "region_ok r" and ij: "i \<in> {i. i < r_pages r}" "j \<in> {i. i < r_pages r}"
    and "region_index_to_addr r i = region_index_to_addr r j"
  then have "unat (r_base r) + unat i * 4096 = unat (r_base r) + unat j * 4096"
    using unat_index_to_addr [OF r, of i] unat_index_to_addr [OF r, of j] by simp
  then show "i = j" by (simp add: word_unat_eq_iff)
qed

lemma card_region_managed: "region_ok r \<Longrightarrow> card (region_managed r) = unat (r_pages r)"
  unfolding region_managed_def by (simp add: card_image index_to_addr_inj card_words_below)

lemma card_region_free_set: "region_ok r \<Longrightarrow> card (region_free_set r) = card (clear_idx r)"
  unfolding region_free_set_def
  by (rule card_image [OF inj_on_subset [OF index_to_addr_inj]]) (auto simp: clear_idx_def)

lemma region_free_subset: "region_free_set r \<subseteq> region_managed r"
  by (auto simp: region_free_set_def region_managed_def clear_idx_def)

lemma region_managed_page:
  "region_ok r \<Longrightarrow> a \<in> region_managed r \<Longrightarrow> page_aligned a \<and> a \<noteq> 0 \<and> r_base r \<le> a"
  using unat_index_to_addr [of r]
  by (auto simp: region_managed_def page_aligned_iff region_ok_def word_le_nat_alt word_less_nat_alt
      unat_eq_zero [symmetric] simp del: unat_eq_zero)

text \<open>A page-aligned address passes the range test of the region exactly when it is one of the
  region's pages, and the two address conversions are inverse there.\<close>

lemma addr_to_index:
  assumes "region_ok r" "i < r_pages r"
  shows "region_addr_to_index r (region_index_to_addr r i) = i"
    "region_contains_addr r (region_index_to_addr r i)"
proof -
  note ad = unat_index_to_addr [OF assms(1) less_imp_le [OF assms(2)]]
  note en = unat_index_to_addr [OF assms(1) order_refl]
  have "region_index_to_addr r i - r_base r = i * 4096"
    by (simp add: region_index_to_addr_def PMM_PAGE_SIZE_def)
  moreover have "unat (i * 4096) = unat i * 4096"
    using ad unat_lt_2p32 [of "region_index_to_addr r i"] by (simp add: unat_word_ariths)
  ultimately have "unat (region_addr_to_index r (region_index_to_addr r i)) = unat i"
    by (simp add: region_addr_to_index_def PMM_PAGE_SIZE_def unat_div)
  then show "region_addr_to_index r (region_index_to_addr r i) = i" by (simp add: word_unat_eq_iff)
  show "region_contains_addr r (region_index_to_addr r i)"
    using assms(2) ad en
    by (auto simp: region_contains_addr_def Let_def word_le_nat_alt word_less_nat_alt
        region_index_to_addr_def)
qed

lemma contains_iff:
  assumes "region_ok r" "page_aligned a"
  shows "region_contains_addr r a \<longleftrightarrow> a \<in> region_managed r"
proof
  assume c: "region_contains_addr r a"
  note en = unat_index_to_addr [OF assms(1) order_refl]
  have r: "unat (r_base r) \<le> unat a" "unat a < unat (r_base r) + unat (r_pages r) * 4096"
    using c en by (auto simp: region_contains_addr_def Let_def word_le_nat_alt word_less_nat_alt
        region_index_to_addr_def split: if_splits)
  define k where "k = (unat a - unat (r_base r)) div 4096"
  have "4096 dvd unat a - unat (r_base r)"
    using assms by (auto simp: region_ok_def page_aligned_iff intro: dvd_diff_nat)
  then have k: "unat a = unat (r_base r) + k * 4096" using r(1) by (auto simp: k_def)
  then have kp: "k < unat (r_pages r)" using r(2) by simp
  then have uk: "unat (of_nat k :: u32) = k" by (rule unat_of_nat_less)
  then have lt: "of_nat k < r_pages r" using kp by (simp add: word_less_nat_alt)
  have "unat (region_index_to_addr r (of_nat k)) = unat a"
    using unat_index_to_addr [OF assms(1) less_imp_le [OF lt]] k uk by simp
  then have "region_index_to_addr r (of_nat k) = a" by (simp add: word_unat_eq_iff)
  then show "a \<in> region_managed r" using lt by (auto simp: region_managed_def)
next
  assume "a \<in> region_managed r"
  then show "region_contains_addr r a"
    using addr_to_index(2) [OF assms(1)] by (auto simp: region_managed_def)
qed

subsection \<open>The search\<close>

lemma find_free_bit_spec:
  assumes "8 * unat byte + 8 < 2 ^ 32" "b \<le> 8"
  shows "case find_free_bit r byte b of
      None \<Rightarrow> \<forall>j < r_pages r. 8 * unat byte + unat b \<le> unat j \<longrightarrow> unat j < 8 * unat byte + 8 \<longrightarrow> bitmap_test_r r j
    | Some i \<Rightarrow> i < r_pages r \<and> \<not> bitmap_test_r r i \<and> 8 * unat byte + unat b \<le> unat i \<and>
        (\<forall>j < i. 8 * unat byte + unat b \<le> unat j \<longrightarrow> bitmap_test_r r j)"
  using assms
proof (induction r byte b rule: find_free_bit.induct)
  case (1 r byte b)
  define idx where "idx = push_bit 3 byte + b"
  show ?case
  proof (cases "b < 8")
    case True
    then have b: "unat b < 8" "unat (b + 1) = unat b + 1"
      using unat_inc [of b 8] by (simp_all add: word_less_nat_alt)
    have idx: "unat idx = 8 * unat byte + unat b"
      using 1(2) b by (simp add: idx_def push_bit_eq_mult unat_word_ariths)
    have here: "j = idx \<or> 8 * unat byte + unat (b + 1) \<le> unat j" if "8 * unat byte + unat b \<le> unat j" for j
      using that by (auto simp: word_unat_eq_iff idx b(2))
    show ?thesis
    proof (cases "r_pages r \<le> idx")
      case out: True
      then have "\<not> 8 * unat byte + unat b \<le> unat j" if "j < r_pages r" for j
        using that idx by (simp add: word_less_nat_alt word_le_nat_alt)
      with out True show ?thesis by (subst find_free_bit.simps) (auto simp: Let_def simp flip: idx_def)
    next
      case inside: False
      show ?thesis
      proof (cases "bitmap_test_r r idx")
        case used: True
        have step: "find_free_bit r byte b = find_free_bit r byte (b + 1)"
          using True inside used by (subst find_free_bit.simps) (simp add: Let_def flip: idx_def)
        have "b + 1 \<le> 8" using b by (simp add: word_le_nat_alt)
        with 1(1) [OF True idx_def] inside used 1(2)
        show ?thesis unfolding step using here used b(2) by (force split: option.splits)
      next
        case False
        then have "find_free_bit r byte b = Some idx"
          using True inside by (subst find_free_bit.simps) (simp add: Let_def flip: idx_def)
        then show ?thesis
          using inside idx False by (simp add: not_le word_less_nat_alt)
      qed
    qed
  next
    case False
    with 1(3) have "unat b = 8" by (simp add: word_less_nat_alt word_le_nat_alt)
    then show ?thesis using False by (subst find_free_bit.simps) auto
  qed
qed

lemma test_all_ones: "r_bitmap r ! (unat j div 8) = 0xFF \<Longrightarrow> bitmap_test_r r j"
proof -
  have "bit (mask 8 :: u8) (unat j mod 8)" by (simp add: bit_mask_iff)
  then have "bit (0xFF :: u8) (unat j mod 8)" by (simp add: mask_eq_exp_minus_1)
  then show "r_bitmap r ! (unat j div 8) = 0xFF \<Longrightarrow> bitmap_test_r r j" by (simp add: bitmap_test_bit)
qed

lemma full_byte:
  assumes "r_bitmap r ! unat byte = 0xFF" "8 * unat byte \<le> unat j" "unat j < 8 * unat byte + 8"
  shows "bitmap_test_r r j"
proof -
  have "unat j div 8 = unat byte" using assms(2,3) by simp
  then show ?thesis using assms(1) by (intro test_all_ones) simp
qed

lemma find_free_byte_spec:
  assumes "region_ok r"
  shows "case find_free_byte r byte of
      None \<Rightarrow> \<forall>j < r_pages r. 8 * unat byte \<le> unat j \<longrightarrow> bitmap_test_r r j
    | Some i \<Rightarrow> i < r_pages r \<and> \<not> bitmap_test_r r i \<and> (\<forall>j < i. 8 * unat byte \<le> unat j \<longrightarrow> bitmap_test_r r j)"
  using assms
proof (induction r byte rule: find_free_byte.induct)
  case (1 r byte)
  show ?case
  proof (cases "byte < r_bitmap_bytes r")
    case True
    have lim: "8 * unat byte + 8 < 2 ^ 32" and nxt: "8 * unat (byte + 1) = 8 * unat byte + 8"
      using True 1(3) unat_inc [OF True] by (auto simp: region_ok_def word_less_nat_alt)
    note fb = find_free_bit_spec [OF lim, of 0 r]
    have IH: "case find_free_byte r (byte + 1) of
        None \<Rightarrow> \<forall>j < r_pages r. 8 * unat byte + 8 \<le> unat j \<longrightarrow> bitmap_test_r r j
      | Some i \<Rightarrow> i < r_pages r \<and> \<not> bitmap_test_r r i \<and> (\<forall>j < i. 8 * unat byte + 8 \<le> unat j \<longrightarrow> bitmap_test_r r j)"
      if "r_bitmap r ! unat byte = 0xFF \<or> find_free_bit r byte 0 = None"
      using that 1 True unfolding nxt by (cases "r_bitmap r ! unat byte = 0xFF") auto
    have low: "bitmap_test_r r j"
      if "r_bitmap r ! unat byte = 0xFF \<or> find_free_bit r byte 0 = None" "j < r_pages r"
        "8 * unat byte \<le> unat j" "unat j < 8 * unat byte + 8" for j
      using that fb full_byte [of r byte j] by auto
    show ?thesis
    proof (cases "r_bitmap r ! unat byte = 0xFF \<or> find_free_bit r byte 0 = None")
      case full: True
      then have "find_free_byte r byte = find_free_byte r (byte + 1)"
        using True by (subst find_free_byte.simps) auto
      then show ?thesis
        using IH [OF full] low [OF full] by (auto split: option.splits intro: not_le_imp_less)
    next
      case False
      then obtain i where i: "find_free_bit r byte 0 = Some i" "r_bitmap r ! unat byte \<noteq> 0xFF" by auto
      then have "find_free_byte r byte = Some i" using True by (subst find_free_byte.simps) simp
      then show ?thesis using fb i by simp
    qed
  next
    case False
    then have "\<not> 8 * unat byte \<le> unat j" if "j < r_pages r" for j
      using that 1(3) by (simp add: region_ok_def word_less_nat_alt)
    with False show ?thesis by (subst find_free_byte.simps) auto
  qed
qed

lemma find_free_index_Some:
  assumes "region_ok r" "pmm_find_free_index r = Some i"
  shows "i < r_pages r" "i \<in> clear_idx r" "\<And>j. j \<in> clear_idx r \<Longrightarrow> i \<le> j"
  using find_free_byte_spec [OF assms(1), of 0] assms(2)
  by (auto simp: pmm_find_free_index_def clear_idx_def not_less [symmetric])

lemma find_free_index_None:
  assumes "region_ok r" "pmm_find_free_index r = None"
  shows "clear_idx r = {}"
  using find_free_byte_spec [OF assms(1), of 0] assms(2)
  by (auto simp: pmm_find_free_index_def clear_idx_def)

lemma count_clear_from_eq:
  "unat (count_clear_from r i n) = (unat n + card {j \<in> clear_idx r. i \<le> j}) mod 2 ^ 32"
proof (induction r i n rule: count_clear_from.induct)
  case (1 r i n)
  show ?case
  proof (cases "i < r_pages r")
    case True
    have next_gt: "i + 1 \<le> j \<longleftrightarrow> i < j" for j
      using unat_inc [OF True] by (simp add: word_le_nat_alt word_less_nat_alt Suc_le_eq)
    have split: "{j \<in> clear_idx r. i \<le> j} =
        (if bitmap_test_r r i then {} else {i}) \<union> {j \<in> clear_idx r. i + 1 \<le> j}"
      using True by (auto simp: next_gt clear_idx_def intro: le_neq_trans less_imp_le)
    have "card {j \<in> clear_idx r. i \<le> j} =
        (if bitmap_test_r r i then 0 else 1) + card {j \<in> clear_idx r. i + 1 \<le> j}"
      unfolding split by (subst card_Un_disjoint) (auto simp: next_gt)
    with 1 [OF True] True show ?thesis
      by (subst count_clear_from.simps) (simp add: unat_word_ariths mod_simps)
  next
    case False
    then have none: "{j \<in> clear_idx r. i \<le> j} = {}" by (auto simp: clear_idx_def)
    show ?thesis
      unfolding none using False unat_lt_2p32 [of n] by (subst count_clear_from.simps) simp
  qed
qed

lemma card_clear_idx_le: "card (clear_idx r) \<le> unat (r_pages r)"
  using card_mono [of "{i. i < r_pages r}" "clear_idx r"] by (auto simp: clear_idx_def card_words_below)

lemma count_clear: "unat (count_clear_from r 0 0) = card (clear_idx r)"
  using count_clear_from_eq [of r 0 0] card_clear_idx_le [of r] unat_lt_2p32 [of "r_pages r"] by simp

section \<open>The whole allocator\<close>

definition region_at :: "bitmap_state \<Rightarrow> nat \<Rightarrow> pmm_region" where
  "region_at s ri = g_regions s ! ri"

definition bm_core :: "bitmap_state \<Rightarrow> bool" where
  "bm_core s \<longleftrightarrow> length (g_regions s) = PMM_MAX_REGIONS \<and>
     0 < g_region_count s \<and> g_region_count s \<le> PMM_MAX_REGIONS \<and>
     (\<forall>i < g_region_count s. region_inv (region_at s i)) \<and>
     disjoint_family_on (\<lambda>i. region_managed (region_at s i)) {..< g_region_count s} \<and>
     unat (g_pmm_total_pages s) = (\<Sum>i < g_region_count s. unat (r_pages (region_at s i))) \<and>
     unat (g_pmm_total_free s) = (\<Sum>i < g_region_count s. unat (r_free (region_at s i)))"

definition bm_inv :: "bitmap_state \<Rightarrow> bool" where
  "bm_inv s \<longleftrightarrow> (g_pmm_ready s \<longrightarrow> bm_core s)"

definition bm_managed :: "bitmap_state \<Rightarrow> u32 set" where
  "bm_managed s = (if g_pmm_ready s then \<Union>i < g_region_count s. region_managed (region_at s i) else {})"

definition bm_free :: "bitmap_state \<Rightarrow> u32 set" where
  "bm_free s = (if g_pmm_ready s then \<Union>i < g_region_count s. region_free_set (region_at s i) else {})"

lemma bm_core_ok: "bm_core s \<Longrightarrow> i < g_region_count s \<Longrightarrow> region_ok (region_at s i)"
  by (simp add: bm_core_def region_inv_def)

lemma bm_core_disjoint:
  "bm_core s \<Longrightarrow> i < g_region_count s \<Longrightarrow> j < g_region_count s \<Longrightarrow>
   a \<in> region_managed (region_at s i) \<Longrightarrow> a \<in> region_managed (region_at s j) \<Longrightarrow> i = j"
  by (auto simp: bm_core_def disjoint_family_on_def)

lemma card_bm_managed: "bm_core s \<Longrightarrow> card (\<Union>i < g_region_count s. region_managed (region_at s i)) =
    unat (g_pmm_total_pages s)"
  by (subst card_UN_disjoint)
    (auto simp: bm_core_def disjoint_family_on_def region_inv_def card_region_managed intro!: sum.cong)

lemma card_bm_free: "bm_core s \<Longrightarrow> card (\<Union>i < g_region_count s. region_free_set (region_at s i)) =
    unat (g_pmm_total_free s)"
  using region_free_subset
  by (subst card_UN_disjoint)
    (auto simp: bm_core_def disjoint_family_on_def region_inv_def card_region_free_set intro!: sum.cong, blast)

lemma sum_update:
  fixes f :: "nat \<Rightarrow> nat"
  assumes "k < n" "\<And>i. i < n \<Longrightarrow> i \<noteq> k \<Longrightarrow> g i = f i"
  shows "(\<Sum>i < n. g i) + f k = (\<Sum>i < n. f i) + g k"
proof -
  have "(\<Sum>i \<in> {..<n} - {k}. g i) = (\<Sum>i \<in> {..<n} - {k}. f i)" using assms(2) by (intro sum.cong) auto
  then show ?thesis
    using assms(1) sum.remove [of "{..<n}" k g] sum.remove [of "{..<n}" k f] by simp
qed

text \<open>Replacing one region by another with the same pages.\<close>

lemma bm_core_update:
  assumes "bm_core s" "ri < g_region_count s" "region_inv r'"
    and "region_managed r' = region_managed (region_at s ri)" "r_pages r' = r_pages (region_at s ri)"
    and "unat tf + unat (r_free (region_at s ri)) = unat (g_pmm_total_free s) + unat (r_free r')"
    and "s' = s\<lparr>g_regions := (g_regions s)[ri := r'], g_pmm_total_free := tf, g_region_rr := rr\<rparr>"
  shows "bm_core s'"
    and "(\<Union>i < g_region_count s'. region_managed (region_at s' i)) =
      (\<Union>i < g_region_count s. region_managed (region_at s i))"
    and "(\<Union>i < g_region_count s'. region_free_set (region_at s' i)) =
      (\<Union>i < g_region_count s. region_free_set (region_at s i)) - region_free_set (region_at s ri) \<union>
      region_free_set r'"
proof -
  have ri: "ri < length (g_regions s)" using assms(1,2) by (simp add: bm_core_def)
  have at: "region_at s' i = (if i = ri then r' else region_at s i)" for i
    using ri by (simp add: assms(7) region_at_def nth_list_update)
  have same: "region_managed (region_at s' i) = region_managed (region_at s i)" for i
    using assms(4) by (simp add: at)
  have cnt: "g_region_count s' = g_region_count s" by (simp add: assms(7))
  have tf: "unat tf = (\<Sum>i < g_region_count s. unat (r_free (region_at s' i)))"
    using sum_update [OF assms(2), of "\<lambda>i. unat (r_free (region_at s' i))" "\<lambda>i. unat (r_free (region_at s i))"]
      assms(1,6) by (simp add: at bm_core_def)
  have tp: "(\<Sum>i < g_region_count s. unat (r_pages (region_at s' i))) =
      (\<Sum>i < g_region_count s. unat (r_pages (region_at s i)))"
    using assms(5) by (intro sum.cong) (auto simp: at)
  show "bm_core s'"
    unfolding bm_core_def cnt same using assms(1,3) tf tp
    by (simp add: bm_core_def assms(7)) (simp add: assms(7) [symmetric] at)
  show "(\<Union>i < g_region_count s'. region_managed (region_at s' i)) =
      (\<Union>i < g_region_count s. region_managed (region_at s i))"
    by (simp add: cnt same)
  have other: "region_free_set (region_at s i) \<inter> region_free_set (region_at s ri) = {}"
    if "i < g_region_count s" "i \<noteq> ri" for i
    using bm_core_disjoint [OF assms(1) that(1) assms(2)] that(2) region_free_subset by blast
  show "(\<Union>i < g_region_count s'. region_free_set (region_at s' i)) =
      (\<Union>i < g_region_count s. region_free_set (region_at s i)) - region_free_set (region_at s ri) \<union>
      region_free_set r'"
  proof (rule set_eqI)
    fix a
    show "a \<in> (\<Union>i < g_region_count s'. region_free_set (region_at s' i)) \<longleftrightarrow>
      a \<in> (\<Union>i < g_region_count s. region_free_set (region_at s i)) - region_free_set (region_at s ri) \<union>
        region_free_set r'"
      using assms(2) other by (auto simp: cnt at split: if_splits) (metis lessThan_iff)
  qed
qed

subsection \<open>Allocation\<close>

lemma region_inv_free_pos: "region_inv r \<Longrightarrow> r_free r \<noteq> 0 \<longleftrightarrow> clear_idx r \<noteq> {}"
  by (auto simp: region_inv_def unat_eq_zero [symmetric] simp del: unat_eq_zero)

lemma alloc_from_Some:
  assumes "bm_core s" "off \<le> k" "k < g_region_count s"
    and "r_free (region_at s ((g_region_rr s + k) mod g_region_count s)) \<noteq> 0"
  shows "\<exists>ri idx. ri < g_region_count s \<and> pmm_find_free_index (region_at s ri) = Some idx \<and>
    alloc_from off s = Some (region_index_to_addr (region_at s ri) idx,
      s\<lparr>g_regions := (g_regions s)[ri := (bitmap_set_r idx (region_at s ri))\<lparr>r_free := r_free (region_at s ri) - 1\<rparr>],
        g_pmm_total_free := (if 0 < g_pmm_total_free s then g_pmm_total_free s - 1 else g_pmm_total_free s),
        g_region_rr := ri\<rparr>)"
  using assms
proof (induction off s rule: alloc_from.induct)
  case (1 off s)
  define ri where "ri = (g_region_rr s + off) mod g_region_count s"
  define r where "r = g_regions s ! ri"
  have off: "off < g_region_count s" and ri: "ri < g_region_count s" using 1(4,5) by (auto simp: ri_def)
  have inv: "region_inv r" using 1(3) ri by (simp add: bm_core_def r_def region_at_def)
  show ?case
  proof (cases "r_free r = 0")
    case True
    then have "off \<noteq> k" using 1(6) by (auto simp: r_def ri_def region_at_def)
    then have le: "off + 1 \<le> k" using 1(4) by simp
    have "alloc_from off s = alloc_from (off + 1) s"
      using off True by (subst alloc_from.simps) (simp add: Let_def flip: ri_def r_def)
    with 1(1) [OF off ri_def r_def True 1(3) le 1(5,6)] show ?thesis by simp
  next
    case False
    then obtain idx where idx: "pmm_find_free_index r = Some idx"
      using inv region_inv_free_pos [OF inv] find_free_index_None [of r]
      by (cases "pmm_find_free_index r") (auto simp: region_inv_def)
    have "alloc_from off s = Some (region_index_to_addr r idx,
      s\<lparr>g_regions := (g_regions s)[ri := (bitmap_set_r idx r)\<lparr>r_free := r_free r - 1\<rparr>],
        g_pmm_total_free := (if 0 < g_pmm_total_free s then g_pmm_total_free s - 1 else g_pmm_total_free s),
        g_region_rr := ri\<rparr>)"
      using off False idx by (subst alloc_from.simps) (simp add: Let_def flip: ri_def r_def)
    with ri idx show ?thesis by (auto simp: r_def region_at_def)
  qed
qed

lemma rotate_index:
  assumes "ri < n"
  shows "\<exists>k < n. (rr + k) mod n = (ri :: nat)"
proof (intro exI conjI)
  let ?k = "(ri + n - rr mod n) mod n"
  show "?k < n" using assms by simp
  have "(rr + ?k) mod n = (rr mod n + (ri + n - rr mod n)) mod n" by (simp add: mod_simps)
  also have "\<dots> = (ri + n) mod n"
    using assms by (simp add: le_add_diff_inverse mod_less_divisor less_imp_le trans_le_add2)
  finally show "(rr + ?k) mod n = ri" using assms by simp
qed

lemma alloc_region:
  assumes "region_inv r" "pmm_find_free_index r = Some idx"
  defines "r' \<equiv> (bitmap_set_r idx r)\<lparr>r_free := r_free r - 1\<rparr>"
  shows "region_inv r'" "region_managed r' = region_managed r" "r_pages r' = r_pages r"
    "unat (r_free r') + 1 = unat (r_free r)" "r_free r \<noteq> 0"
    "region_free_set r' = region_free_set r - {region_index_to_addr r idx}"
    "region_index_to_addr r idx \<in> region_free_set r"
proof -
  have ok: "region_ok r" using assms(1) by (simp add: region_inv_def)
  note f = find_free_index_Some [OF ok assms(2)] and sr = set_region [OF ok find_free_index_Some(1) [OF ok assms(2)]]
  show nz: "r_free r \<noteq> 0" using f(2) region_inv_free_pos [OF assms(1)] by auto
  then have dec: "unat (r_free r - 1) + 1 = unat (r_free r)"
    using unat_dec [of "r_free r"] by (simp add: word_gt_0 unat_gt_0)
  then show "unat (r_free r') + 1 = unat (r_free r)" by (simp add: r'_def)
  have "card (clear_idx r - {idx}) + 1 = card (clear_idx r)"
    using card_Suc_Diff1 [OF _ f(2)] by simp
  with dec assms(1) sr show "region_inv r'" by (simp add: region_inv_def r'_def)
  show "region_managed r' = region_managed r" "r_pages r' = r_pages r" using sr by (simp_all add: r'_def)
  have inj: "inj_on (region_index_to_addr r) (clear_idx r)"
    by (rule inj_on_subset [OF index_to_addr_inj [OF ok]]) (auto simp: clear_idx_def)
  then show "region_free_set r' = region_free_set r - {region_index_to_addr r idx}"
    using sr f(2) inj_on_image_set_diff [OF inj, of "clear_idx r" "{idx}"]
    by (simp add: r'_def region_free_set_def)
  show "region_index_to_addr r idx \<in> region_free_set r" using f(2) by (simp add: region_free_set_def)
qed

lemma bm_alloc_Some:
  assumes "bm_core s" "g_pmm_ready s" "bm_free s \<noteq> {}"
  shows "\<exists>p s'. pmm_bitmap_alloc_page s = (p, s') \<and> p \<in> bm_free s \<and> bm_core s' \<and> g_pmm_ready s' \<and>
    bm_free s' = bm_free s - {p} \<and> bm_managed s' = bm_managed s"
proof -
  have tf: "unat (g_pmm_total_free s) \<noteq> 0"
    using assms card_bm_free [OF assms(1)] by (auto simp: bm_free_def card_eq_0_iff)
  then have tf0: "g_pmm_total_free s \<noteq> 0" by auto
  have "\<exists>i < g_region_count s. r_free (region_at s i) \<noteq> 0"
    by (rule ccontr) (use tf assms(1) in \<open>simp add: bm_core_def\<close>)
  then obtain i where i: "i < g_region_count s" "r_free (region_at s i) \<noteq> 0" by blast
  obtain k where k: "k < g_region_count s" "(g_region_rr s + k) mod g_region_count s = i"
    using rotate_index [OF i(1)] by blast
  obtain ri idx where ri: "ri < g_region_count s" "pmm_find_free_index (region_at s ri) = Some idx"
    and al: "alloc_from 0 s = Some (region_index_to_addr (region_at s ri) idx,
      s\<lparr>g_regions := (g_regions s)[ri := (bitmap_set_r idx (region_at s ri))\<lparr>r_free := r_free (region_at s ri) - 1\<rparr>],
        g_pmm_total_free := (if 0 < g_pmm_total_free s then g_pmm_total_free s - 1 else g_pmm_total_free s),
        g_region_rr := ri\<rparr>)"
    using alloc_from_Some [OF assms(1) le0 k(1)] i(2) k(2) by blast
  have inv: "region_inv (region_at s ri)" using assms(1) ri(1) by (simp add: bm_core_def)
  note ar = alloc_region [OF inv ri(2)]
  define s' where "s' = s\<lparr>g_regions := (g_regions s)[ri := (bitmap_set_r idx (region_at s ri))
      \<lparr>r_free := r_free (region_at s ri) - 1\<rparr>], g_pmm_total_free := g_pmm_total_free s - 1, g_region_rr := ri\<rparr>"
  have dec: "unat (g_pmm_total_free s - 1) + 1 = unat (g_pmm_total_free s)"
    using unat_dec [of "g_pmm_total_free s"] tf0 by (simp add: word_gt_0 unat_gt_0)
  have "unat (g_pmm_total_free s - 1) + unat (r_free (region_at s ri)) =
      unat (g_pmm_total_free s) + unat (r_free ((bitmap_set_r idx (region_at s ri))\<lparr>r_free := r_free (region_at s ri) - 1\<rparr>))"
    using dec ar(4) by simp
  note up = bm_core_update [OF assms(1) ri(1) ar(1,2,3) this s'_def]
  have tp: "g_pmm_total_pages s \<noteq> 0"
  proof -
    have "card (bm_free s) \<le> card (bm_managed s)"
      by (rule card_mono) (use region_free_subset in \<open>auto simp: bm_free_def bm_managed_def assms(2)\<close>)
    then show ?thesis
      using tf card_bm_free [OF assms(1)] card_bm_managed [OF assms(1)]
      by (auto simp: bm_free_def bm_managed_def assms(2))
  qed
  have "pmm_bitmap_alloc_page s = (region_index_to_addr (region_at s ri) idx, s')"
    using al tf0 tp assms(2) i(1) by (simp add: pmm_bitmap_alloc_page_def s'_def word_gt_0)
  moreover have "region_index_to_addr (region_at s ri) idx \<in> bm_free s"
    using ar(7) ri(1) by (auto simp: bm_free_def assms(2))
  moreover have "g_pmm_ready s'" by (simp add: s'_def assms(2))
  moreover have "bm_free s' = bm_free s - {region_index_to_addr (region_at s ri) idx}"
    using up(3) ar(6,7) ri(1) \<open>g_pmm_ready s'\<close> assms(2) unfolding bm_free_def by auto
  moreover have "bm_managed s' = bm_managed s"
    using up(2) \<open>g_pmm_ready s'\<close> assms(2) by (simp add: bm_managed_def)
  ultimately show ?thesis using up(1) by blast
qed

lemma bm_alloc_None:
  assumes "bm_inv s" "bm_free s = {}"
  shows "pmm_bitmap_alloc_page s = (0, s)"
proof (cases "g_pmm_ready s")
  case True
  then have "unat (g_pmm_total_free s) = 0"
    using assms card_bm_free [of s] by (simp add: bm_inv_def bm_free_def)
  then have "g_pmm_total_free s = 0" by (simp add: unat_eq_zero)
  then show ?thesis by (simp add: pmm_bitmap_alloc_page_def)
qed (simp add: pmm_bitmap_alloc_page_def)

subsection \<open>Release\<close>

lemma free_from_skip:
  assumes "bm_core s" "page_aligned a" "\<forall>i. ri \<le> i \<longrightarrow> i < g_region_count s \<longrightarrow> a \<notin> region_managed (region_at s i)"
  shows "free_from ri a s = s"
  using assms
proof (induction ri a s rule: free_from.induct)
  case (1 ri a s)
  show ?case
  proof (cases "ri < g_region_count s")
    case True
    then have "\<not> region_contains_addr (g_regions s ! ri) a"
      using 1(2-) contains_iff [OF bm_core_ok [OF 1(2) True] 1(3)] by (auto simp: region_at_def)
    with True 1 show ?thesis by (subst free_from.simps) (auto simp: Let_def)
  qed (subst free_from.simps, simp)
qed

lemma free_from_at:
  assumes "bm_core s" "page_aligned a" "ri \<le> k" "k < g_region_count s" "a \<in> region_managed (region_at s k)"
  shows "free_from ri a s = free_from k a s"
  using assms
proof (induction "k - ri" arbitrary: ri)
  case (Suc d)
  have lt: "ri < g_region_count s" "ri \<noteq> k" "ri + 1 \<le> k" using Suc(2,5,6) by auto
  have "a \<notin> region_managed (region_at s ri)"
    using bm_core_disjoint [OF Suc(3) lt(1) Suc(6) _ Suc(7)] lt(2) by blast
  then have "\<not> region_contains_addr (g_regions s ! ri) a"
    using contains_iff [OF bm_core_ok [OF Suc(3) lt(1)] Suc(4)] by (simp add: region_at_def)
  then have "free_from ri a s = free_from (ri + 1) a s"
    using lt(1) by (subst free_from.simps) (simp add: Let_def)
  also have "\<dots> = free_from k a s" using Suc(2) lt by (intro Suc.hyps Suc.prems) auto
  finally show ?case .
qed simp

lemma free_region:
  assumes "region_inv r" "idx < r_pages r" "bitmap_test_r r idx"
  defines "r' \<equiv> (bitmap_clear_r idx r)\<lparr>r_free := r_free r + 1\<rparr>"
  shows "region_inv r'" "region_managed r' = region_managed r" "r_pages r' = r_pages r"
    "unat (r_free r') = unat (r_free r) + 1"
    "region_free_set r' = insert (region_index_to_addr r idx) (region_free_set r)"
proof -
  have ok: "region_ok r" using assms(1) by (simp add: region_inv_def)
  note cr = clear_region [OF ok assms(2)]
  have new: "idx \<notin> clear_idx r" using assms(3) by (simp add: clear_idx_def)
  have card: "card (clear_idx (bitmap_clear_r idx r)) = card (clear_idx r) + 1"
    unfolding cr(1) using new by (subst card_insert_disjoint) auto
  have "card (clear_idx (bitmap_clear_r idx r)) \<le> unat (r_pages r)"
    using card_clear_idx_le [of "bitmap_clear_r idx r"] by simp
  then have "unat (r_free r) + 1 < 2 ^ 32"
    using card assms(1) unat_lt_2p32 [of "r_pages r"] by (simp add: region_inv_def)
  then have inc: "unat (r_free r + 1) = unat (r_free r) + 1" by (subst unat_add_no_wrap) auto
  then show "unat (r_free r') = unat (r_free r) + 1" by (simp add: r'_def)
  show "region_inv r'" using inc card assms(1) cr(2) by (simp add: region_inv_def r'_def)
  show "region_managed r' = region_managed r" "r_pages r' = r_pages r" using cr by (simp_all add: r'_def)
  show "region_free_set r' = insert (region_index_to_addr r idx) (region_free_set r)"
    using cr by (simp add: r'_def region_free_set_def)
qed

lemma in_region_free_iff:
  "region_ok r \<Longrightarrow> i < r_pages r \<Longrightarrow> region_index_to_addr r i \<in> region_free_set r \<longleftrightarrow> \<not> bitmap_test_r r i"
  using inj_on_image_mem_iff [OF index_to_addr_inj [of r], of i "clear_idx r"]
  by (auto simp: region_free_set_def clear_idx_def)

lemma bm_free_bad:
  assumes "bm_inv s" "a \<notin> bm_managed s - bm_free s"
  shows "pmm_bitmap_free_page a s = s"
proof (cases "g_pmm_ready s \<and> a \<noteq> 0 \<and> page_aligned a")
  case True
  then have core: "bm_core s" and al: "page_aligned a" using assms(1) by (auto simp: bm_inv_def)
  have eq: "pmm_bitmap_free_page a s = free_from 0 a s"
    using True by (simp add: pmm_bitmap_free_page_def pmm_addr_is_page_aligned_def page_aligned_def PMM_PAGE_SIZE_def)
  show ?thesis
  proof (cases "a \<in> bm_managed s")
    case False
    then show ?thesis
      unfolding eq using True by (intro free_from_skip [OF core al]) (auto simp: bm_managed_def)
  next
    case man: True
    then obtain k where k: "k < g_region_count s" "a \<in> region_managed (region_at s k)"
      using True by (auto simp: bm_managed_def)
    note ok = bm_core_ok [OF core k(1)]
    obtain i where i: "i < r_pages (region_at s k)" "a = region_index_to_addr (region_at s k) i"
      using k(2) by (auto simp: region_managed_def)
    have "a \<in> bm_free s" using assms(2) man by blast
    then obtain j where "j < g_region_count s" "a \<in> region_free_set (region_at s j)"
      using True by (auto simp: bm_free_def)
    then have "a \<in> region_free_set (region_at s k)"
      using bm_core_disjoint [OF core _ k(1) _ k(2)] region_free_subset by blast
    then have "\<not> bitmap_test_r (region_at s k) i" using in_region_free_iff [OF ok i(1)] i(2) by simp
    then have "free_from k a s = s"
      using k(1) i addr_to_index [OF ok i(1)]
      by (subst free_from.simps) (simp add: Let_def region_at_def)
    then show ?thesis using eq free_from_at [OF core al le0 k] by simp
  qed
qed (auto simp: pmm_bitmap_free_page_def pmm_addr_is_page_aligned_def page_aligned_def PMM_PAGE_SIZE_def)

lemma bm_free_good:
  assumes "bm_inv s" "a \<in> bm_managed s - bm_free s"
  defines "s' \<equiv> pmm_bitmap_free_page a s"
  shows "bm_inv s'" "bm_managed s' = bm_managed s" "bm_free s' = insert a (bm_free s)"
proof -
  have rdy: "g_pmm_ready s" using assms(2) by (auto simp: bm_managed_def split: if_splits)
  then have core: "bm_core s" using assms(1) by (simp add: bm_inv_def)
  obtain k where k: "k < g_region_count s" "a \<in> region_managed (region_at s k)"
    using assms(2) rdy by (auto simp: bm_managed_def)
  note ok = bm_core_ok [OF core k(1)] and pg = region_managed_page [OF bm_core_ok [OF core k(1)] k(2)]
  have inv: "region_inv (region_at s k)" using core k(1) by (simp add: bm_core_def)
  obtain i where i: "i < r_pages (region_at s k)" "a = region_index_to_addr (region_at s k) i"
    using k(2) by (auto simp: region_managed_def)
  have used: "bitmap_test_r (region_at s k) i"
    using assms(2) in_region_free_iff [OF ok i(1)] i(2) k(1) rdy by (auto simp: bm_free_def)
  note fr = free_region [OF inv i(1) used]
  define r' where "r' = (bitmap_clear_r i (region_at s k))\<lparr>r_free := r_free (region_at s k) + 1\<rparr>"
  have "card (bm_free s) < card (bm_managed s)"
    by (rule psubset_card_mono) (use assms(2) rdy region_free_subset in \<open>auto simp: bm_free_def bm_managed_def\<close>)
  then have "unat (g_pmm_total_free s) < unat (g_pmm_total_pages s)"
    using rdy card_bm_free [OF core] card_bm_managed [OF core] by (simp add: bm_free_def bm_managed_def)
  then have inc: "unat (g_pmm_total_free s + 1) = unat (g_pmm_total_free s) + 1"
    using unat_inc [of "g_pmm_total_free s" "g_pmm_total_pages s"] by (simp add: word_less_nat_alt)
  have s': "s' = s\<lparr>g_regions := (g_regions s)[k := r'], g_pmm_total_free := g_pmm_total_free s + 1,
      g_region_rr := g_region_rr s\<rparr>"
  proof -
    have "s' = free_from 0 a s"
      using rdy pg by (simp add: s'_def pmm_bitmap_free_page_def pmm_addr_is_page_aligned_def
          page_aligned_def PMM_PAGE_SIZE_def)
    also have "\<dots> = free_from k a s" using pg free_from_at [OF core _ le0 k] by blast
    also have "\<dots> = s\<lparr>g_regions := (g_regions s)[k := r'], g_pmm_total_free := g_pmm_total_free s + 1\<rparr>"
      using addr_to_index [OF ok i(1)] i k(1) used
      by (subst free_from.simps) (simp add: Let_def region_at_def r'_def)
    finally show ?thesis by simp
  qed
  have "unat (g_pmm_total_free s + 1) + unat (r_free (region_at s k)) =
      unat (g_pmm_total_free s) + unat (r_free r')"
    using inc fr(4) by (simp add: r'_def)
  note up = bm_core_update [OF core k(1) fr(1,2,3) [folded r'_def] this s']
  have rdy': "g_pmm_ready s'" using rdy by (simp add: s')
  show "bm_inv s'" using up(1) by (simp add: bm_inv_def)
  show "bm_managed s' = bm_managed s" using up(2) rdy rdy' by (simp add: bm_managed_def)
  have "region_free_set (region_at s k) \<subseteq> (\<Union>i < g_region_count s. region_free_set (region_at s i))"
    using k(1) by blast
  then show "bm_free s' = insert a (bm_free s)"
    using up(3) fr(5) [folded r'_def] rdy rdy' i(2) unfolding bm_free_def by auto
qed

interpretation bm: pmm_backend_checked pmm_bitmap_alloc_page pmm_bitmap_free_page
  pmm_bitmap_total_pages pmm_bitmap_free_pages bm_inv bm_managed bm_free "\<lambda>s. bm_managed s - bm_free s"
proof
  fix s :: bitmap_state and a
  assume inv: "bm_inv s"
  show "a \<in> bm_managed s \<Longrightarrow> page_aligned a \<and> a \<noteq> 0"
    using inv region_managed_page bm_core_ok by (fastforce simp: bm_managed_def bm_inv_def split: if_splits)
  show sub: "bm_free s \<subseteq> bm_managed s"
    unfolding bm_free_def bm_managed_def by (auto dest: subsetD [OF region_free_subset])
  show "bm_managed s - bm_free s \<subseteq> bm_managed s - bm_free s" by simp
  have al: "bm_inv (snd (pmm_bitmap_alloc_page s)) \<and>
      bm_managed (snd (pmm_bitmap_alloc_page s)) = bm_managed s \<and>
      (bm_free s = {} \<longrightarrow> fst (pmm_bitmap_alloc_page s) = 0 \<and> bm_free (snd (pmm_bitmap_alloc_page s)) = {}) \<and>
      (bm_free s \<noteq> {} \<longrightarrow> fst (pmm_bitmap_alloc_page s) \<in> bm_free s \<and>
        bm_free (snd (pmm_bitmap_alloc_page s)) = bm_free s - {fst (pmm_bitmap_alloc_page s)})"
  proof (cases "bm_free s = {}")
    case True
    with inv bm_alloc_None [OF inv True] show ?thesis by simp
  next
    case False
    then have "g_pmm_ready s" by (auto simp: bm_free_def split: if_splits)
    with inv bm_alloc_Some [of s] False show ?thesis by (auto simp: bm_inv_def)
  qed
  then show "bm_inv (snd (pmm_bitmap_alloc_page s))"
    and "bm_managed (snd (pmm_bitmap_alloc_page s)) = bm_managed s" by simp_all
  show "fst (pmm_bitmap_alloc_page s) = 0 \<and> bm_free (snd (pmm_bitmap_alloc_page s)) = {} \<and>
      bm_managed (snd (pmm_bitmap_alloc_page s)) - bm_free (snd (pmm_bitmap_alloc_page s)) =
      bm_managed s - bm_free s" if "bm_free s = {}"
    using al that by simp
  show "fst (pmm_bitmap_alloc_page s) \<in> bm_free s \<and>
      bm_free (snd (pmm_bitmap_alloc_page s)) = bm_free s - {fst (pmm_bitmap_alloc_page s)} \<and>
      bm_managed (snd (pmm_bitmap_alloc_page s)) - bm_free (snd (pmm_bitmap_alloc_page s)) =
      insert (fst (pmm_bitmap_alloc_page s)) (bm_managed s - bm_free s)" if "bm_free s \<noteq> {}"
    using al that sub by auto
  show "bm_inv (pmm_bitmap_free_page a s)" "bm_managed (pmm_bitmap_free_page a s) = bm_managed s"
    "bm_free (pmm_bitmap_free_page a s) = insert a (bm_free s) \<and>
      bm_managed (pmm_bitmap_free_page a s) - bm_free (pmm_bitmap_free_page a s) =
      bm_managed s - bm_free s - {a}"
    if "a \<in> bm_managed s - bm_free s"
    using bm_free_good [OF inv that] that by auto
  show "pmm_bitmap_free_pages s = of_nat (card (bm_free s))"
    using inv card_bm_free [of s] by (simp add: pmm_bitmap_free_pages_def bm_free_def bm_inv_def)
  show "pmm_bitmap_total_pages s = of_nat (card (bm_managed s))"
    using inv card_bm_managed [of s] by (simp add: pmm_bitmap_total_pages_def bm_managed_def bm_inv_def)
  show "pmm_bitmap_free_page a s = s" if "a \<notin> bm_managed s - bm_free s"
    by (rule bm_free_bad [OF inv that])
qed

section \<open>The page numbering of the queries\<close>

definition pages_before :: "bitmap_state \<Rightarrow> nat \<Rightarrow> nat" where
  "pages_before s ri = (\<Sum>i < ri. unat (r_pages (region_at s i)))"

lemma pages_before_Suc: "pages_before s (Suc ri) = pages_before s ri + unat (r_pages (region_at s ri))"
  by (simp add: pages_before_def)

lemma pages_before_mono: "ri \<le> rj \<Longrightarrow> pages_before s ri \<le> pages_before s rj"
  unfolding pages_before_def by (rule sum_mono2) auto

lemma page_query_step:
  assumes "bm_core s" "ri < g_region_count s" "unat acc = pages_before s ri" "acc \<le> idx"
  shows "unat (acc + r_pages (region_at s ri)) = pages_before s (Suc ri)"
    and "idx < acc + r_pages (region_at s ri) \<longleftrightarrow> unat idx < pages_before s (Suc ri)"
    and "unat (idx - acc) = unat idx - pages_before s ri"
proof -
  have "pages_before s (Suc ri) \<le> pages_before s (g_region_count s)"
    using assms(2) by (intro pages_before_mono) simp
  then have "pages_before s (Suc ri) < 2 ^ 32"
    using assms(1) unat_lt_2p32 [of "g_pmm_total_pages s"] by (simp add: bm_core_def pages_before_def)
  then show eq: "unat (acc + r_pages (region_at s ri)) = pages_before s (Suc ri)"
    using assms(3) by (subst unat_add_no_wrap) (simp_all add: pages_before_Suc)
  show "idx < acc + r_pages (region_at s ri) \<longleftrightarrow> unat idx < pages_before s (Suc ri)"
    by (simp add: word_less_nat_alt eq)
  show "unat (idx - acc) = unat idx - pages_before s ri"
    using assms(3,4) by (simp add: unat_sub)
qed

text \<open>The page with number \<open>idx\<close> is page \<open>idx - pages_before s k\<close> of the region \<open>k\<close> it falls into.\<close>

lemma page_query_from:
  assumes "bm_core s" "ri \<le> g_region_count s" "unat acc = pages_before s ri" "acc \<le> idx"
  shows "(idx < g_pmm_total_pages s \<longrightarrow> (\<exists>k < g_region_count s. \<exists>j < r_pages (region_at s k).
           unat idx = pages_before s k + unat j \<and>
           page_addr_from s idx ri acc = region_index_to_addr (region_at s k) j \<and>
           page_is_used_from s idx ri acc = (if bitmap_test_r (region_at s k) j then 1 else 0))) \<and>
    (g_pmm_total_pages s \<le> idx \<longrightarrow> page_addr_from s idx ri acc = 0 \<and> page_is_used_from s idx ri acc = - 1)"
  using assms
proof (induction "g_region_count s - ri" arbitrary: ri acc)
  case 0
  then have "unat acc = unat (g_pmm_total_pages s)" by (simp add: bm_core_def pages_before_def)
  then have "g_pmm_total_pages s \<le> idx" using 0(5) by (simp add: word_unat_eq_iff [symmetric])
  then show ?case
    using 0(1) by (subst page_addr_from.simps, subst page_is_used_from.simps) auto
next
  case (Suc d)
  have lt: "ri < g_region_count s" using Suc(2) by simp
  note st = page_query_step [OF Suc(3) lt Suc(5,6)]
  show ?case
  proof (cases "idx < acc + r_pages (region_at s ri)")
    case True
    have le: "pages_before s (Suc ri) \<le> unat (g_pmm_total_pages s)"
      using pages_before_mono [of "Suc ri" "g_region_count s" s] lt Suc(3)
      by (simp add: bm_core_def pages_before_def)
    have "unat idx < pages_before s (Suc ri)" using True st(2) by simp
    then have in_range: "idx < g_pmm_total_pages s" and j: "idx - acc < r_pages (region_at s ri)"
      using le Suc(5,6) st(3) by (auto simp: word_less_nat_alt word_le_nat_alt pages_before_Suc)
    have "unat idx = pages_before s ri + unat (idx - acc)"
      using Suc(5,6) by (simp add: st(3) word_le_nat_alt)
    moreover have "page_addr_from s idx ri acc = region_index_to_addr (region_at s ri) (idx - acc)"
      using lt True by (subst page_addr_from.simps) (simp add: Let_def region_at_def)
    moreover have "page_is_used_from s idx ri acc =
        (if bitmap_test_r (region_at s ri) (idx - acc) then 1 else 0)"
      using lt True by (subst page_is_used_from.simps) (simp add: Let_def region_at_def)
    ultimately show ?thesis using in_range j lt by (auto simp: not_le [symmetric])
  next
    case False
    have "page_addr_from s idx ri acc = page_addr_from s idx (Suc ri) (acc + r_pages (region_at s ri))"
      using lt False by (subst page_addr_from.simps) (simp add: Let_def region_at_def)
    moreover have "page_is_used_from s idx ri acc = page_is_used_from s idx (Suc ri) (acc + r_pages (region_at s ri))"
      using lt False by (subst page_is_used_from.simps) (simp add: Let_def region_at_def)
    moreover note Suc.hyps(1) [of "Suc ri" "acc + r_pages (region_at s ri)"]
    ultimately show ?thesis using Suc(2,3) lt st(1) False by simp
  qed
qed

lemma page_query:
  assumes "bm_core s" "g_pmm_ready s" "idx < g_pmm_total_pages s"
  shows "\<exists>k < g_region_count s. \<exists>j < r_pages (region_at s k). unat idx = pages_before s k + unat j \<and>
    pmm_bitmap_page_addr s idx = region_index_to_addr (region_at s k) j \<and>
    pmm_bitmap_page_is_used s idx = (if bitmap_test_r (region_at s k) j then 1 else 0)"
  using page_query_from [OF assms(1), of 0 0 idx] assms
  by (simp add: pages_before_def pmm_bitmap_page_addr_def pmm_bitmap_page_is_used_def)

lemma page_query_used:
  assumes "bm_core s" "g_pmm_ready s" "idx < g_pmm_total_pages s"
  shows "pmm_bitmap_page_addr s idx \<in> bm_managed s"
    and "pmm_bitmap_page_is_used s idx = (if pmm_bitmap_page_addr s idx \<in> bm_free s then 0 else 1)"
proof -
  obtain k j where k: "k < g_region_count s" "j < r_pages (region_at s k)"
    and ad: "pmm_bitmap_page_addr s idx = region_index_to_addr (region_at s k) j"
    and us: "pmm_bitmap_page_is_used s idx = (if bitmap_test_r (region_at s k) j then 1 else 0)"
    using page_query [OF assms] by blast
  have m: "pmm_bitmap_page_addr s idx \<in> region_managed (region_at s k)"
    using k ad by (auto simp: region_managed_def)
  then show "pmm_bitmap_page_addr s idx \<in> bm_managed s"
    using k assms(2) by (auto simp: bm_managed_def)
  have "pmm_bitmap_page_addr s idx \<in> bm_free s \<longleftrightarrow>
      pmm_bitmap_page_addr s idx \<in> region_free_set (region_at s k)"
  proof
    assume "pmm_bitmap_page_addr s idx \<in> bm_free s"
    then obtain i where "i < g_region_count s" "pmm_bitmap_page_addr s idx \<in> region_free_set (region_at s i)"
      using assms(2) by (auto simp: bm_free_def)
    then show "pmm_bitmap_page_addr s idx \<in> region_free_set (region_at s k)"
      using bm_core_disjoint [OF assms(1) _ k(1) _ m] region_free_subset by blast
  qed (use k(1) assms(2) in \<open>auto simp: bm_free_def\<close>)
  then show "pmm_bitmap_page_is_used s idx = (if pmm_bitmap_page_addr s idx \<in> bm_free s then 0 else 1)"
    using us in_region_free_iff [OF bm_core_ok [OF assms(1) k(1)] k(2)] ad by simp
qed

lemma page_addr_surj:
  assumes "bm_core s" "g_pmm_ready s" "a \<in> bm_managed s"
  shows "\<exists>idx < g_pmm_total_pages s. pmm_bitmap_page_addr s idx = a"
proof -
  obtain k j where k: "k < g_region_count s" "j < r_pages (region_at s k)"
    and a: "a = region_index_to_addr (region_at s k) j"
    using assms(2,3) by (auto simp: bm_managed_def region_managed_def)
  have tot: "unat (g_pmm_total_pages s) = pages_before s (g_region_count s)"
    using assms(1) by (simp add: bm_core_def pages_before_def)
  have lt: "pages_before s k + unat j < pages_before s (Suc k)"
    using k(2) by (simp add: pages_before_Suc word_less_nat_alt)
  also have "\<dots> \<le> unat (g_pmm_total_pages s)" unfolding tot using k(1) by (intro pages_before_mono) simp
  finally have n: "pages_before s k + unat j < unat (g_pmm_total_pages s)" .
  define idx :: u32 where "idx = of_nat (pages_before s k + unat j)"
  have ui: "unat idx = pages_before s k + unat j" unfolding idx_def by (rule unat_of_nat_less [OF n])
  then have in_range: "idx < g_pmm_total_pages s" using n by (simp add: word_less_nat_alt)
  obtain k' j' where k': "k' < g_region_count s" "j' < r_pages (region_at s k')"
      "unat idx = pages_before s k' + unat j'"
      "pmm_bitmap_page_addr s idx = region_index_to_addr (region_at s k') j'"
    using page_query [OF assms(1,2) in_range] by blast
  have lt': "pages_before s k' + unat j' < pages_before s (Suc k')"
    using k'(2) by (simp add: pages_before_Suc word_less_nat_alt)
  have "\<not> k < k'" "\<not> k' < k"
    using pages_before_mono [of "Suc k" k' s] pages_before_mono [of "Suc k'" k s] lt lt' ui k'(3) by auto
  then have "k' = k" "j' = j" using ui k'(3) by (auto simp: word_unat_eq_iff)
  with in_range k'(4) a show ?thesis by blast
qed

lemma page_addr_bij:
  assumes "bm_core s" "g_pmm_ready s"
  shows "bij_betw (pmm_bitmap_page_addr s) {idx. idx < g_pmm_total_pages s} (bm_managed s)"
proof -
  have img: "pmm_bitmap_page_addr s ` {idx. idx < g_pmm_total_pages s} = bm_managed s"
    using page_query_used(1) [OF assms] page_addr_surj [OF assms] by blast
  have "card (bm_managed s) = unat (g_pmm_total_pages s)"
    using card_bm_managed [OF assms(1)] assms(2) by (simp add: bm_managed_def)
  then have "inj_on (pmm_bitmap_page_addr s) {idx. idx < g_pmm_total_pages s}"
    by (intro eq_card_imp_inj_on) (simp_all add: img card_words_below)
  with img show ?thesis by (simp add: bij_betw_def)
qed

section \<open>Properties\<close>

text \<open>A concrete allocator: eight pages at 1 MiB, the first of which is in use.\<close>

definition sample_bitmap :: bitmap_state where
  "sample_bitmap = \<lparr>g_regions = \<lparr>r_base = 0x100000, r_pages = 8, r_bitmap = [1], r_bitmap_bytes = 1,
       r_bitmap_storage_bytes = 1, r_bitmap_pages = 0, r_free = 7\<rparr> #
       replicate 31 \<lparr>r_base = 0, r_pages = 0, r_bitmap = [], r_bitmap_bytes = 0,
         r_bitmap_storage_bytes = 0, r_bitmap_pages = 0, r_free = 0\<rparr>,
     g_region_count = 1, g_region_rr = 0, g_pmm_total_pages = 8, g_pmm_total_free = 7,
     g_pmm_ready = True, g_mem = (\<lambda>_. 0)\<rparr>"

lemma sample_bitmap_core: "bm_core sample_bitmap"
proof -
  have at: "region_at sample_bitmap 0 = \<lparr>r_base = 0x100000, r_pages = 8, r_bitmap = [1], r_bitmap_bytes = 1,
       r_bitmap_storage_bytes = 1, r_bitmap_pages = 0, r_free = 7\<rparr>"
    by (simp add: region_at_def sample_bitmap_def)
  have "unat (count_clear_from (region_at sample_bitmap 0) 0 0) = 7" unfolding at by code_simp
  then have "card (clear_idx (region_at sample_bitmap 0)) = 7" using count_clear by simp
  moreover have "region_ok (region_at sample_bitmap 0)"
    by (simp add: region_ok_def at page_aligned_def)
  ultimately have "region_inv (region_at sample_bitmap 0)" by (simp add: region_inv_def at)
  moreover have "length (g_regions sample_bitmap) = PMM_MAX_REGIONS" "g_region_count sample_bitmap = 1"
      "g_pmm_total_pages sample_bitmap = 8" "g_pmm_total_free sample_bitmap = 7"
    by (simp_all add: sample_bitmap_def PMM_MAX_REGIONS_def)
  ultimately show ?thesis
    by (simp add: bm_core_def disjoint_family_on_def at PMM_MAX_REGIONS_def)
qed

lemma sample_bitmap_inv: "bm_inv sample_bitmap" "g_pmm_ready sample_bitmap" "card (bm_free sample_bitmap) = 7"
  using sample_bitmap_core card_bm_free [OF sample_bitmap_core]
  by (simp_all add: bm_inv_def bm_free_def) (simp_all add: sample_bitmap_def)

text \<open>C22. Allocation in a consistent state: the null pointer exactly when no page is free; otherwise a
  page-aligned page that was free, that is no longer free, with everything else unchanged.\<close>

theorem bitmap_alloc_page_spec:
  assumes "bm_inv s" "pmm_bitmap_alloc_page s = (p, s')"
  shows "bm_inv s' \<and> bm_managed s' = bm_managed s \<and> (p = 0 \<longleftrightarrow> bm_free s = {}) \<and>
    (p \<noteq> 0 \<longrightarrow> p \<in> bm_free s \<and> page_aligned p) \<and> bm_free s' = bm_free s - {p}"
proof -
  have fst: "fst (pmm_bitmap_alloc_page s) = p" and snd: "snd (pmm_bitmap_alloc_page s) = s'" using assms(2) by auto
  note al = bm.alloc_inv [OF assms(1)] bm.alloc_managed [OF assms(1)] bm.alloc_null_iff [OF assms(1)]
    bm.alloc_some [OF assms(1)] bm.alloc_none [OF assms(1)] bm.alloc_page [OF assms(1)]
  show ?thesis using al unfolding fst snd by (cases "bm_free s = {}") auto
qed

theorem bitmap_alloc_page_spec_witness:
  "fst (pmm_bitmap_alloc_page sample_bitmap) \<noteq> 0 \<and> page_aligned (fst (pmm_bitmap_alloc_page sample_bitmap))"
  using bitmap_alloc_page_spec [OF sample_bitmap_inv(1) prod.collapse [symmetric]] sample_bitmap_inv(3) by auto

text \<open>Successive allocations never hand out the same page twice: as many as there are free pages give
  distinct, non-null, formerly free pages, and freeing them in any order restores the free set.\<close>

theorem bitmap_alloc_n_distinct:
  assumes "bm_inv s" "n \<le> card (bm_free s)" "alloc_n pmm_bitmap_alloc_page n s = (ps, s')"
    and "distinct qs" "set qs = set ps"
  shows "distinct ps \<and> length ps = n \<and> 0 \<notin> set ps \<and> set ps \<subseteq> bm_free s \<and> bm_free s' = bm_free s - set ps \<and>
    bm_free (free_all pmm_bitmap_free_page qs s') = bm_free s"
proof -
  note al = bm.alloc_n_distinct [OF assms(1-3)]
  then have "bm_free (free_all pmm_bitmap_free_page qs s') = bm_free s' \<union> set qs"
    using bm.free_all_free [of s' qs] assms(4,5) bm.free_managed [OF assms(1)] by auto
  with al assms(5) show ?thesis by auto
qed

theorem bitmap_alloc_n_distinct_witness:
  "distinct (fst (alloc_n pmm_bitmap_alloc_page 3 sample_bitmap))"
  using bitmap_alloc_n_distinct [of sample_bitmap 3 _ _ "fst (alloc_n pmm_bitmap_alloc_page 3 sample_bitmap)",
      OF sample_bitmap_inv(1) _ prod.collapse [symmetric]] sample_bitmap_inv
    bm.alloc_n_distinct [of sample_bitmap 3, OF sample_bitmap_inv(1) _ prod.collapse [symmetric]]
  by simp

text \<open>C23. Freeing: a managed page in use becomes free and nothing else changes; any other argument (null,
  unaligned, outside the managed ranges, already free) leaves the allocator exactly as it was.\<close>

theorem bitmap_free_page_spec:
  assumes "bm_inv s"
  shows "(if a \<in> bm_managed s \<and> a \<notin> bm_free s
      then bm_inv (pmm_bitmap_free_page a s) \<and> bm_managed (pmm_bitmap_free_page a s) = bm_managed s \<and>
        bm_free (pmm_bitmap_free_page a s) = insert a (bm_free s)
      else pmm_bitmap_free_page a s = s)"
  using bm.free_inv [OF assms] bm.free_managed_eq [OF assms] bm.free_free [OF assms] bm.free_bad [OF assms] by auto

theorem bitmap_free_page_spec_witness:
  "pmm_bitmap_free_page 0x100800 sample_bitmap = sample_bitmap"
proof -
  have "0x100800 \<notin> bm_managed sample_bitmap"
    using bm.managed_page [OF sample_bitmap_inv(1), of "0x100800"] by (auto simp: page_aligned_def)
  with bitmap_free_page_spec [OF sample_bitmap_inv(1), of "0x100800"] show ?thesis by simp
qed

text \<open>The page numbers of the queries run over the managed pages: \<open>page_addr\<close> is a bijection from
  the numbers below \<open>total_pages\<close>, \<open>page_is_used\<close> tells whether that page is free, and numbers
  out of range give 0 and -1.\<close>

theorem bitmap_page_numbering:
  assumes "bm_inv s" "g_pmm_ready s"
  shows "bij_betw (pmm_bitmap_page_addr s) {i. i < pmm_bitmap_total_pages s} (bm_managed s) \<and>
    (\<forall>i. pmm_bitmap_page_is_used s i =
      (if i < pmm_bitmap_total_pages s then (if pmm_bitmap_page_addr s i \<in> bm_free s then 0 else 1) else - 1)) \<and>
    (\<forall>i. pmm_bitmap_total_pages s \<le> i \<longrightarrow> pmm_bitmap_page_addr s i = 0)"
proof -
  have core: "bm_core s" and tot: "pmm_bitmap_total_pages s = g_pmm_total_pages s"
    using assms by (simp_all add: bm_inv_def pmm_bitmap_total_pages_def)
  have out: "pmm_bitmap_page_addr s i = 0 \<and> pmm_bitmap_page_is_used s i = - 1" if "g_pmm_total_pages s \<le> i" for i
    using page_query_from [OF core, of 0 0 i] that assms(2)
    by (simp add: pages_before_def pmm_bitmap_page_addr_def pmm_bitmap_page_is_used_def)
  show ?thesis
    using page_addr_bij [OF core assms(2)] page_query_used(2) [OF core assms(2)] out
    unfolding tot by (auto simp: not_less)
qed

theorem bitmap_page_numbering_witness:
  "pmm_bitmap_page_is_used sample_bitmap 8 = - 1"
  using bitmap_page_numbering [OF sample_bitmap_inv(1,2)]
  by (auto simp: pmm_bitmap_total_pages_def sample_bitmap_def)

end
