(* ===== verification/Pmm_Bitmap_Init.thy ===== *)
theory Pmm_Bitmap_Init
  imports Boot_Map Pmm_Bitmap
begin

text \<open>
  Initialisation of the bitmap back-end \<open>pmm_bitmap.c\<close>: the choice of the managed range and of the
  place of each region's bitmap, the walk over the Multiboot2 memory map, the reservation of the
  kernel image and of the boot information, the self-test and the table of operations.
\<close>

section \<open>Small helpers\<close>

definition u32_max :: "u32 \<Rightarrow> u32 \<Rightarrow> u32" where "u32_max a b = (if b < a then a else b)"
definition u32_min :: "u32 \<Rightarrow> u32 \<Rightarrow> u32" where "u32_min a b = (if a < b then a else b)"

definition ranges_overlap_u32 :: "u32 \<Rightarrow> u32 \<Rightarrow> u32 \<Rightarrow> u32 \<Rightarrow> bool" where
  "ranges_overlap_u32 a_start a_end b_start b_end =
     (let s = u32_max a_start b_start; e = u32_min a_end b_end in s < e)"

function memfill_from :: "u8 list \<Rightarrow> u8 \<Rightarrow> u32 \<Rightarrow> u32 \<Rightarrow> u8 list" where
  "memfill_from dst value bytes i =
     (if i < bytes then memfill_from (dst[unat i := value]) value bytes (i + 1) else dst)"
  by pat_completeness auto
termination by (relation "measure (\<lambda>(dst, value, bytes, i). unat bytes - unat i)") (auto simp: loop_measure)

definition memfill_u8 :: "u8 list \<Rightarrow> u8 \<Rightarrow> u32 \<Rightarrow> u8 list" where
  "memfill_u8 dst value bytes = memfill_from dst value bytes 0"

section \<open>Reserving pages\<close>

function mark_used_from :: "nat \<Rightarrow> u32 \<Rightarrow> bitmap_state \<Rightarrow> bitmap_state" where
  "mark_used_from ri phys_addr s =
     (if ri < g_region_count s then
        (let r = g_regions s ! ri in
         if \<not> region_contains_addr r phys_addr then mark_used_from (ri + 1) phys_addr s
         else
           (let idx = region_addr_to_index r phys_addr in
            if r_pages r \<le> idx then s
            else if bitmap_test_r r idx then s
            else
              (let r1 = bitmap_set_r idx r in
               if 0 < r_free r1 then
                 s\<lparr>g_regions := (g_regions s)[ri := r1\<lparr>r_free := r_free r1 - 1\<rparr>],
                   g_pmm_total_free := (if 0 < g_pmm_total_free s then g_pmm_total_free s - 1
                                        else g_pmm_total_free s)\<rparr>
               else s\<lparr>g_regions := (g_regions s)[ri := r1]\<rparr>)))
      else s)"
  by pat_completeness auto
termination by (relation "measure (\<lambda>(ri, a, s). g_region_count s - ri)") auto

definition bitmap_mark_used_by_addr :: "u32 \<Rightarrow> bitmap_state \<Rightarrow> bitmap_state" where
  "bitmap_mark_used_by_addr phys_addr s =
     (if \<not> g_pmm_ready s then s
      else mark_used_from 0
        (if \<not> pmm_addr_is_page_aligned phys_addr then align_down_u32 phys_addr PMM_PAGE_SIZE else phys_addr) s)"

text \<open>The loop \<open>for (p = s; p < e; p += PMM_PAGE_SIZE)\<close> would not end if \<open>p\<close> could step over \<open>e\<close> and
  wrap around, so it is a \<open>partial_function\<close>; with both ends page-aligned it always ends.\<close>

partial_function (option) mark_used_loop :: "u32 \<Rightarrow> u32 \<Rightarrow> bitmap_state \<Rightarrow> bitmap_state option" where
  "mark_used_loop p e s =
     (if p < e then mark_used_loop (p + PMM_PAGE_SIZE) e (bitmap_mark_used_by_addr p s) else Some s)"

definition bitmap_mark_used_range :: "u32 \<Rightarrow> u32 \<Rightarrow> bitmap_state \<Rightarrow> bitmap_state option" where
  "bitmap_mark_used_range start end_excl s =
     (if \<not> g_pmm_ready s then Some s
      else if end_excl \<le> start then Some s
      else mark_used_loop (align_down_u32 start PMM_PAGE_SIZE) (align_up_u32 end_excl PMM_PAGE_SIZE) s)"

definition pmm_reserve_multiboot2_info :: "boot_info \<Rightarrow> bitmap_state \<Rightarrow> bitmap_state option" where
  "pmm_reserve_multiboot2_info bi s =
     (let mb2_phys = g_mb2_info bi;
          mb2_size = rd32 (g_mem s) (PHYS_TO_VIRT mb2_phys)
      in bitmap_mark_used_range mb2_phys (mb2_phys + mb2_size) s)"

definition pmm_reserve_kernel_image :: "boot_info \<Rightarrow> bitmap_state \<Rightarrow> bitmap_state option" where
  "pmm_reserve_kernel_image bi s =
     (if kernel_phys_start bi < kernel_phys_end bi
      then bitmap_mark_used_range (kernel_phys_start bi) (kernel_phys_end bi) s else Some s)"

section \<open>Layout of a region\<close>

record region_layout =
  l_usable_start :: u32
  l_usable_end :: u32
  l_managed_start :: u32
  l_managed_end :: u32
  l_pages :: u32
  l_bitmap_bytes :: u32
  l_bitmap_storage_bytes :: u32
  l_bitmap_pages :: u32

text \<open>One turn of the loop body; the attempts are counted down from 4.\<close>

fun layout_attempts ::
    "nat \<Rightarrow> u32 \<Rightarrow> u32 \<Rightarrow> u32 \<Rightarrow> u32 \<Rightarrow> u32 \<Rightarrow> u32 \<Rightarrow> u32 \<Rightarrow> u32 \<Rightarrow> region_layout option" where
  "layout_attempts 0 us ue ks ke ms me managed_start managed_end = None"
| "layout_attempts (Suc n) us ue ks ke ms me managed_start managed_end =
     (let managed_start = (if ranges_overlap_u32 managed_start managed_end ks ke \<and>
            managed_start < ke \<and> ks < managed_end
            then u32_max managed_start (align_up_u32 ke PMM_PAGE_SIZE) else managed_start);
          managed_start = align_up_u32 managed_start PMM_PAGE_SIZE;
          managed_end = align_down_u32 managed_end PMM_PAGE_SIZE in
      if managed_end \<le> managed_start + PMM_PAGE_SIZE then None
      else
        (let bytes = managed_end - managed_start; pages = bytes div PMM_PAGE_SIZE in
         if pages < 8 then None
         else
           (let bitmap_bytes = (pages + 7) div 8;
                bitmap_storage = align_up_u32 bitmap_bytes PMM_PAGE_SIZE;
                bitmap_pages = bitmap_storage div PMM_PAGE_SIZE in
            if pages \<le> bitmap_pages then None
            else
              (let bitmap_start = managed_start; bitmap_end = bitmap_start + bitmap_storage in
               if ms < me \<and> ranges_overlap_u32 bitmap_start bitmap_end ms me
               then layout_attempts n us ue ks ke ms me (align_up_u32 me PMM_PAGE_SIZE) managed_end
               else Some \<lparr>l_usable_start = us, l_usable_end = ue, l_managed_start = managed_start,
                 l_managed_end = managed_end, l_pages = pages, l_bitmap_bytes = bitmap_bytes,
                 l_bitmap_storage_bytes = bitmap_storage, l_bitmap_pages = bitmap_pages\<rparr>))))"

definition pmm_compute_region_layout ::
    "u32 \<Rightarrow> u32 \<Rightarrow> u32 \<Rightarrow> u32 \<Rightarrow> u32 \<Rightarrow> u32 \<Rightarrow> region_layout option" where
  "pmm_compute_region_layout usable_start usable_end kernel_start kernel_end mb2_start mb2_end =
     (if usable_end \<le> usable_start then None
      else layout_attempts 4 usable_start usable_end kernel_start kernel_end mb2_start mb2_end
        usable_start usable_end)"

section \<open>Adding a region\<close>

function free_tail_from :: "u32 \<Rightarrow> pmm_region \<Rightarrow> pmm_region" where
  "free_tail_from i r =
     (if i < r_pages r then free_tail_from (i + 1) ((bitmap_clear_r i r)\<lparr>r_free := r_free r + 1\<rparr>) else r)"
  by pat_completeness auto
termination by (relation "measure (\<lambda>(i, r). unat (r_pages r) - unat i)") (auto simp: loop_measure)

definition pmm_region_bitmap_init_and_free_tail :: "pmm_region \<Rightarrow> pmm_region" where
  "pmm_region_bitmap_init_and_free_tail r =
     (let r1 = r\<lparr>r_bitmap := memfill_u8 (r_bitmap r) 0xFF (r_bitmap_storage_bytes r), r_free := 0\<rparr>
      in free_tail_from (r_bitmap_pages r1) r1)"

text \<open>The bytes of the storage as they are in memory when the bitmap pointer is set.\<close>

definition mem_bytes :: "memory \<Rightarrow> u32 \<Rightarrow> u32 \<Rightarrow> u8 list" where
  "mem_bytes m p n = map (\<lambda>i. m (p + of_nat i)) [0..<unat n]"

definition pmm_add_region ::
    "u32 \<Rightarrow> u32 \<Rightarrow> u32 \<Rightarrow> u32 \<Rightarrow> u32 \<Rightarrow> u32 \<Rightarrow> bitmap_state \<Rightarrow> int \<times> bitmap_state" where
  "pmm_add_region usable_start usable_end kernel_start kernel_end mb2_start mb2_end s =
     (if PMM_MAX_REGIONS \<le> g_region_count s then (0, s)
      else (case pmm_compute_region_layout usable_start usable_end kernel_start kernel_end mb2_start mb2_end of
        None \<Rightarrow> (0, s)
      | Some layout \<Rightarrow>
          (let r = \<lparr>r_base = l_managed_start layout, r_pages = l_pages layout,
                 r_bitmap = mem_bytes (g_mem s) (PHYS_TO_VIRT (l_managed_start layout)) (l_bitmap_storage_bytes layout),
                 r_bitmap_bytes = l_bitmap_bytes layout,
                 r_bitmap_storage_bytes = l_bitmap_storage_bytes layout,
                 r_bitmap_pages = l_bitmap_pages layout, r_free = 0\<rparr>;
               r' = pmm_region_bitmap_init_and_free_tail r
           in (1, s\<lparr>g_regions := (g_regions s)[g_region_count s := r'],
                  g_region_count := g_region_count s + 1\<rparr>))))"

section \<open>The self-test\<close>

text \<open>The loop that fills \<open>pages[]\<close>: at most \<open>n\<close> allocations, stopping at the first failure.\<close>

fun selftest_alloc :: "nat \<Rightarrow> bitmap_state \<Rightarrow> u32 list \<times> bitmap_state" where
  "selftest_alloc 0 s = ([], s)"
| "selftest_alloc (Suc n) s =
     (case pmm_bitmap_alloc_page s of (p, s1) \<Rightarrow>
        if p = 0 then ([], s1) else (case selftest_alloc n s1 of (ps, s2) \<Rightarrow> (p # ps, s2)))"

definition selftest_fill :: "u32 \<Rightarrow> u32 \<Rightarrow> memory \<Rightarrow> memory" where
  "selftest_fill w pattern m = fold (\<lambda>j m. wr32 m (w + 4 * of_nat j) pattern) [0..<1024] m"

definition selftest_verify :: "u32 \<Rightarrow> u32 \<Rightarrow> memory \<Rightarrow> bool" where
  "selftest_verify w pattern m = list_all (\<lambda>j. rd32 m (w + 4 * of_nat j) = pattern) [0..<1024]"

definition selftest_pattern :: "nat \<Rightarrow> u32" where
  "selftest_pattern i = 0xC0FFEE00 XOR (of_nat i * 0x11111111)"

text \<open>Writing and reading back page after page; \<open>False\<close> as soon as one read differs.\<close>

fun selftest_pages :: "nat \<Rightarrow> u32 list \<Rightarrow> memory \<Rightarrow> bool \<times> memory" where
  "selftest_pages i [] m = (True, m)"
| "selftest_pages i (p # ps) m =
     (let w = PHYS_TO_VIRT p; m' = selftest_fill w (selftest_pattern i) m in
      if selftest_verify w (selftest_pattern i) m' then selftest_pages (i + 1) ps m' else (False, m'))"

text \<open>What the self-test reports; it prints one line in each case but the first.\<close>

datatype selftest_result = Not_Run | Skipped | Alloc_Failed | Counter_Mismatch_Alloc | Pattern_Failed
  | Counter_Mismatch_Free | Passed

definition pmm_selftest :: "bitmap_state \<Rightarrow> selftest_result \<times> bitmap_state" where
  "pmm_selftest s =
     (if \<not> g_pmm_ready s \<or> g_region_count s = 0 \<or> g_pmm_total_pages s = 0 then (Not_Run, s)
      else
        (let free_before = g_pmm_total_free s in
         if free_before < 4 then (Skipped, s)
         else
           (case selftest_alloc 4 s of (pages, s1) \<Rightarrow>
              if length pages \<noteq> 4 then (Alloc_Failed, free_all pmm_bitmap_free_page pages s1)
              else if g_pmm_total_free s1 \<noteq> free_before - 4
              then (Counter_Mismatch_Alloc, free_all pmm_bitmap_free_page pages s1)
              else
                (case selftest_pages 0 pages (g_mem s1) of (ok, m) \<Rightarrow>
                   (let s2 = free_all pmm_bitmap_free_page pages (s1\<lparr>g_mem := m\<rparr>) in
                    if \<not> ok then (Pattern_Failed, s2)
                    else if g_pmm_total_free s2 \<noteq> free_before then (Counter_Mismatch_Free, s2)
                    else (Passed, s2))))))"

section \<open>Initialisation\<close>

definition empty_region :: pmm_region where
  "empty_region = \<lparr>r_base = 0, r_pages = 0, r_bitmap = [], r_bitmap_bytes = 0,
     r_bitmap_storage_bytes = 0, r_bitmap_pages = 0, r_free = 0\<rparr>"

fun clear_regions :: "nat \<Rightarrow> pmm_region list \<Rightarrow> pmm_region list" where
  "clear_regions 0 rs = rs"
| "clear_regions (Suc n) rs = clear_regions n (rs[PMM_MAX_REGIONS - Suc n := empty_region])"

definition pmm_reset_state :: "bitmap_state \<Rightarrow> bitmap_state" where
  "pmm_reset_state s = s\<lparr>g_pmm_ready := False, g_region_count := 0, g_region_rr := 0,
     g_pmm_total_pages := 0, g_pmm_total_free := 0,
     g_regions := clear_regions PMM_MAX_REGIONS (g_regions s)\<rparr>"

function recompute_from :: "nat \<Rightarrow> bitmap_state \<Rightarrow> bitmap_state" where
  "recompute_from i s =
     (if i < g_region_count s then
        recompute_from (i + 1)
          (s\<lparr>g_pmm_total_pages := g_pmm_total_pages s + r_pages (g_regions s ! i),
             g_pmm_total_free := g_pmm_total_free s + r_free (g_regions s ! i)\<rparr>)
      else s)"
  by pat_completeness auto
termination by (relation "measure (\<lambda>(i, s). g_region_count s - i)") auto

definition pmm_recompute_totals :: "bitmap_state \<Rightarrow> bitmap_state" where
  "pmm_recompute_totals s = recompute_from 0 (s\<lparr>g_pmm_total_pages := 0, g_pmm_total_free := 0\<rparr>)"

text \<open>The tests on one memory-map entry: the clamped usable range, or \<open>None\<close> for \<open>continue\<close>.\<close>

definition entry_usable :: "memory \<Rightarrow> u32 \<Rightarrow> (u32 \<times> u32) option" where
  "entry_usable m p =
     (if entry_type m p \<noteq> 1 then None
      else
        (let region_start64 = entry_addr m p;
             region_end64 = u64_add_sat (entry_addr m p) (entry_len m p) in
         if region_end64 = - 1 \<or> region_end64 \<le> region_start64 then None
         else if 0x100000000 \<le> region_start64 then None
         else
           (let region_start = (ucast region_start64 :: u32);
                region_end = (if 0x100000000 \<le> region_end64 then 0xFFFFFFFF else ucast region_end64 :: u32) in
            if region_end \<le> PMM_ONE_MIB then None
            else
              (let region_start = (if region_start < PMM_ONE_MIB then PMM_ONE_MIB else region_start) in
               if region_end \<le> region_start then None else Some (region_start, region_end)))))"

definition init_entry :: "boot_info \<Rightarrow> u32 \<Rightarrow> u32 \<Rightarrow> bitmap_state \<times> nat \<Rightarrow> bool \<times> bitmap_state \<times> nat" where
  "init_entry bi mb2_end p sa =
     (case sa of (s, added) \<Rightarrow>
        (case entry_usable (g_mem s) p of
           None \<Rightarrow> (False, s, added)
         | Some (region_start, region_end) \<Rightarrow>
             (case pmm_add_region region_start region_end (kernel_phys_start bi) (kernel_phys_end bi)
                     (g_mb2_info bi) mb2_end s of
                (ok, s') \<Rightarrow>
                  if ok = 0 then (PMM_MAX_REGIONS \<le> g_region_count s', s', added)
                  else (False, s', added + 1))))"

definition pmm_bitmap_init :: "boot_info \<Rightarrow> bitmap_state \<Rightarrow> bitmap_state option" where
  "pmm_bitmap_init bi s =
     (let s0 = pmm_reset_state s; m = g_mem s in
      if g_mb2_info bi = 0 then Some s0
      else
        (let base = PHYS_TO_VIRT (g_mb2_info bi); total_size = rd32 m base in
         case mb2_find_tag m base total_size MB2_TAG_TYPE_MMAP of
           None \<Rightarrow> None
         | Some (MB2_FIND_OK tag) \<Rightarrow>
             (if tag = 0 then Some s0
              else if tag_size m tag < 16 \<or> mmap_entry_size m tag < 24 then Some s0
              else
                (let entries = tag + 16; entries_end = tag + tag_size m tag;
                     mb2_end = g_mb2_info bi + rd32 m (PHYS_TO_VIRT (g_mb2_info bi)) in
                 case mmap_loop (mmap_entry_size m tag) entries_end (init_entry bi mb2_end) entries (s0, 0) of
                   None \<Rightarrow> None
                 | Some (s1, added) \<Rightarrow>
                     if added = 0 \<or> g_region_count s1 = 0 then Some s1
                     else
                       (let s2 = pmm_recompute_totals (s1\<lparr>g_pmm_ready := True\<rparr>) in
                        Option.bind (pmm_reserve_kernel_image bi s2) (\<lambda>s3.
                        Option.bind (pmm_reserve_multiboot2_info bi s3) (\<lambda>s4.
                        Some (snd (pmm_selftest (pmm_resync_free_count s4))))))))
         | Some _ \<Rightarrow> Some s0))"

definition g_bitmap_ops :: "boot_info \<Rightarrow> bitmap_state pmm_ops" where
  "g_bitmap_ops bi = \<lparr>po_name = ''bitmap'', po_init = pmm_bitmap_init bi,
     po_alloc_page = Some pmm_bitmap_alloc_page, po_free_page = Some pmm_bitmap_free_page,
     po_total_pages = Some pmm_bitmap_total_pages, po_free_pages = Some pmm_bitmap_free_pages,
     po_managed_base = Some pmm_bitmap_managed_base, po_page_addr = Some pmm_bitmap_page_addr,
     po_page_is_used = Some pmm_bitmap_page_is_used\<rparr>"

declare memfill_from.simps [simp del] mark_used_from.simps [simp del] free_tail_from.simps [simp del]
  recompute_from.simps [simp del] layout_attempts.simps [simp del]

section \<open>Reservations remove pages from the free set\<close>

lemma mark_used_skip:
  assumes "bm_core s" "page_aligned a" "\<forall>i. ri \<le> i \<longrightarrow> i < g_region_count s \<longrightarrow> a \<notin> region_managed (region_at s i)"
  shows "mark_used_from ri a s = s"
  using assms
proof (induction ri a s rule: mark_used_from.induct)
  case (1 ri a s)
  show ?case
  proof (cases "ri < g_region_count s")
    case True
    then have "\<not> region_contains_addr (g_regions s ! ri) a"
      using 1(2-) contains_iff [OF bm_core_ok [OF 1(2) True] 1(3)] by (auto simp: region_at_def)
    with True 1 show ?thesis by (subst mark_used_from.simps) (auto simp: Let_def)
  qed (subst mark_used_from.simps, simp)
qed

lemma mark_used_at:
  assumes "bm_core s" "page_aligned a" "ri \<le> k" "k < g_region_count s" "a \<in> region_managed (region_at s k)"
  shows "mark_used_from ri a s = mark_used_from k a s"
  using assms
proof (induction "k - ri" arbitrary: ri)
  case (Suc d)
  have lt: "ri < g_region_count s" "ri \<noteq> k" "ri + 1 \<le> k" using Suc(2,5,6) by auto
  have "a \<notin> region_managed (region_at s ri)"
    using bm_core_disjoint [OF Suc(3) lt(1) Suc(6) _ Suc(7)] lt(2) by blast
  then have "\<not> region_contains_addr (g_regions s ! ri) a"
    using contains_iff [OF bm_core_ok [OF Suc(3) lt(1)] Suc(4)] by (simp add: region_at_def)
  then have "mark_used_from ri a s = mark_used_from (ri + 1) a s"
    using lt(1) by (subst mark_used_from.simps) (simp add: Let_def)
  also have "\<dots> = mark_used_from k a s" using Suc(2) lt by (intro Suc.hyps Suc.prems) auto
  finally show ?case .
qed simp

lemma use_region:
  assumes "region_inv r" "idx < r_pages r" "\<not> bitmap_test_r r idx"
  defines "r' \<equiv> (bitmap_set_r idx r)\<lparr>r_free := r_free r - 1\<rparr>"
  shows "region_inv r'" "region_managed r' = region_managed r" "r_pages r' = r_pages r"
    "unat (r_free r') + 1 = unat (r_free r)" "r_free r \<noteq> 0"
    "region_free_set r' = region_free_set r - {region_index_to_addr r idx}"
proof -
  have ok: "region_ok r" using assms(1) by (simp add: region_inv_def)
  note sr = set_region [OF ok assms(2)]
  have cl: "idx \<in> clear_idx r" using assms(2,3) by (simp add: clear_idx_def)
  then show nz: "r_free r \<noteq> 0" using region_inv_free_pos [OF assms(1)] by auto
  then have dec: "unat (r_free r - 1) + 1 = unat (r_free r)"
    using unat_dec [of "r_free r"] by (simp add: word_gt_0 unat_gt_0)
  then show "unat (r_free r') + 1 = unat (r_free r)" by (simp add: r'_def)
  have "card (clear_idx r - {idx}) + 1 = card (clear_idx r)"
    using card_Suc_Diff1 [OF _ cl] by simp
  with dec assms(1) sr show "region_inv r'" by (simp add: region_inv_def r'_def)
  show "region_managed r' = region_managed r" "r_pages r' = r_pages r" using sr by (simp_all add: r'_def)
  have inj: "inj_on (region_index_to_addr r) (clear_idx r)"
    by (rule inj_on_subset [OF index_to_addr_inj [OF ok]]) (auto simp: clear_idx_def)
  then show "region_free_set r' = region_free_set r - {region_index_to_addr r idx}"
    using sr cl inj_on_image_set_diff [OF inj, of "clear_idx r" "{idx}"]
    by (simp add: r'_def region_free_set_def)
qed

definition bm_ok :: "bitmap_state \<Rightarrow> bool" where
  "bm_ok s \<longleftrightarrow> g_pmm_ready s \<and> bm_core s"

lemma mark_used:
  assumes "bm_ok s" "page_aligned a"
  defines "s' \<equiv> mark_used_from 0 a s"
  shows "bm_ok s'" "bm_managed s' = bm_managed s" "bm_free s' = bm_free s - {a}" "g_mem s' = g_mem s"
proof -
  have core: "bm_core s" and rdy: "g_pmm_ready s" using assms(1) by (auto simp: bm_ok_def)
  have "bm_ok s' \<and> bm_managed s' = bm_managed s \<and> bm_free s' = bm_free s - {a} \<and> g_mem s' = g_mem s"
  proof (cases "a \<in> bm_free s")
    case False
    have "s' = s"
    proof (cases "a \<in> bm_managed s")
      case True
      then obtain k where k: "k < g_region_count s" "a \<in> region_managed (region_at s k)"
        using rdy by (auto simp: bm_managed_def)
      obtain i where i: "i < r_pages (region_at s k)" "a = region_index_to_addr (region_at s k) i"
        using k(2) by (auto simp: region_managed_def)
      have "bitmap_test_r (region_at s k) i"
        using False in_region_free_iff [OF bm_core_ok [OF core k(1)] i(1)] i(2) k(1) rdy by (auto simp: bm_free_def)
      then have "mark_used_from k a s = s"
        using k(1) i addr_to_index [OF bm_core_ok [OF core k(1)] i(1)]
        by (subst mark_used_from.simps) (simp add: Let_def region_at_def)
      then show ?thesis using mark_used_at [OF core assms(2) le0 k] by (simp add: s'_def)
    next
      case False
      then show ?thesis
        unfolding s'_def using rdy by (intro mark_used_skip [OF core assms(2)]) (auto simp: bm_managed_def)
    qed
    with False assms(1) show ?thesis by simp
  next
    case True
    then obtain k where k: "k < g_region_count s" "a \<in> region_free_set (region_at s k)"
      using rdy by (auto simp: bm_free_def)
    then have km: "a \<in> region_managed (region_at s k)" using region_free_subset by blast
    note ok = bm_core_ok [OF core k(1)]
    have inv: "region_inv (region_at s k)" using core k(1) by (simp add: bm_core_def)
    obtain i where i: "i < r_pages (region_at s k)" "a = region_index_to_addr (region_at s k) i"
      using km by (auto simp: region_managed_def)
    have clr: "\<not> bitmap_test_r (region_at s k) i" using k(2) in_region_free_iff [OF ok i(1)] i(2) by simp
    note us = use_region [OF inv i(1) clr]
    have "card (bm_free s) \<noteq> 0" using True by (auto simp: card_eq_0_iff)
    then have tf: "unat (g_pmm_total_free s) \<noteq> 0"
      using card_bm_free [OF core] rdy by (simp add: bm_free_def)
    then have "g_pmm_total_free s \<noteq> 0" by auto
    with tf have dec: "unat (g_pmm_total_free s - 1) + 1 = unat (g_pmm_total_free s)" and pos: "0 < g_pmm_total_free s"
      using unat_dec [of "g_pmm_total_free s"] by (simp_all add: word_gt_0 unat_gt_0)
    have s': "s' = s\<lparr>g_regions := (g_regions s)[k := (bitmap_set_r i (region_at s k))\<lparr>r_free := r_free (region_at s k) - 1\<rparr>],
        g_pmm_total_free := g_pmm_total_free s - 1, g_region_rr := g_region_rr s\<rparr>"
    proof -
      have "s' = mark_used_from k a s" using mark_used_at [OF core assms(2) le0 k(1) km] by (simp add: s'_def)
      also have "\<dots> = s\<lparr>g_regions := (g_regions s)[k := (bitmap_set_r i (region_at s k))\<lparr>r_free := r_free (region_at s k) - 1\<rparr>],
        g_pmm_total_free := g_pmm_total_free s - 1\<rparr>"
        using addr_to_index [OF ok i(1)] i k(1) clr pos us(5)
        by (subst mark_used_from.simps) (simp add: Let_def region_at_def word_gt_0)
      finally show ?thesis by simp
    qed
    have "unat (g_pmm_total_free s - 1) + unat (r_free (region_at s k)) = unat (g_pmm_total_free s) +
        unat (r_free ((bitmap_set_r i (region_at s k))\<lparr>r_free := r_free (region_at s k) - 1\<rparr>))"
      using dec us(4) by simp
    note up = bm_core_update [OF core k(1) us(1,2,3) this s']
    have rdy': "g_pmm_ready s'" using rdy by (simp add: s')
    have "bm_free s' = bm_free s - {a}"
      using up(3) us(6) i(2) k rdy rdy' unfolding bm_free_def by auto
    then show ?thesis using up(1,2) rdy rdy' s' by (simp add: bm_ok_def bm_managed_def)
  qed
  then show "bm_ok s'" "bm_managed s' = bm_managed s" "bm_free s' = bm_free s - {a}" "g_mem s' = g_mem s"
    by auto
qed

lemma mark_used_by_addr_aligned:
  "bm_ok s \<Longrightarrow> page_aligned p \<Longrightarrow> bitmap_mark_used_by_addr p s = mark_used_from 0 p s"
  by (simp add: bitmap_mark_used_by_addr_def bm_ok_def pmm_addr_is_page_aligned_def page_aligned_def PMM_PAGE_SIZE_def)

lemma mark_used_loop:
  assumes "bm_ok s" "page_aligned p" "page_aligned e"
  shows "\<exists>s'. mark_used_loop p e s = Some s' \<and> bm_ok s' \<and> bm_managed s' = bm_managed s \<and>
    bm_free s' = bm_free s - pages_between p e \<and> g_mem s' = g_mem s"
  using assms
proof (induction "unat e - unat p" arbitrary: p s rule: less_induct)
  case less
  show ?case
  proof (cases "p < e")
    case True
    note n = aligned_next [OF less.prems(2,3) True]
    note mu = mark_used [OF less.prems(1,2)]
    have "unat e - unat (p + 4096) < unat e - unat p" using n True by (simp add: word_less_nat_alt)
    moreover have "page_aligned (p + 4096)"
      using less.prems(2) by (intro page_aligned_add) (simp_all add: page_aligned_def)
    ultimately obtain s' where s': "mark_used_loop (p + 4096) e (mark_used_from 0 p s) = Some s'" "bm_ok s'"
      "bm_managed s' = bm_managed s" "bm_free s' = bm_free s - {p} - pages_between (p + 4096) e" "g_mem s' = g_mem s"
      using less.hyps [of "p + 4096" "mark_used_from 0 p s"] mu less.prems(3) by auto
    have "mark_used_loop p e s = Some s'"
      using True s'(1) mark_used_by_addr_aligned [OF less.prems(1,2)]
      by (subst mark_used_loop.simps) (simp add: PMM_PAGE_SIZE_def)
    then show ?thesis using s' pages_between_step [OF less.prems(2,3) True] by auto
  next
    case False
    then have "pages_between p e = {}" by (auto simp: pages_between_def)
    with False less.prems show ?thesis by (subst mark_used_loop.simps) simp
  qed
qed

lemma mark_used_range:
  assumes "bm_ok s"
  shows "\<exists>s'. bitmap_mark_used_range start en s = Some s' \<and> bm_ok s' \<and> bm_managed s' = bm_managed s \<and>
    bm_free s' = bm_free s - touched_pages start en \<and> g_mem s' = g_mem s"
proof (cases "en \<le> start")
  case True
  then show ?thesis using assms by (auto simp: bitmap_mark_used_range_def touched_pages_def)
next
  case False
  then show ?thesis
    using mark_used_loop [OF assms page_aligned_align_down page_aligned_align_up, of start en] assms
    by (simp add: bitmap_mark_used_range_def touched_pages_def PMM_PAGE_SIZE_def bm_ok_def)
qed

section \<open>The chosen layout is safe\<close>

text \<open>Inside the usable range, page-aligned, clear of the kernel image, room for the bitmap with a
  bit per page, and the bitmap's storage clear of the boot information.\<close>

definition layout_safe :: "u32 \<Rightarrow> u32 \<Rightarrow> u32 \<Rightarrow> u32 \<Rightarrow> u32 \<Rightarrow> u32 \<Rightarrow> region_layout \<Rightarrow> bool" where
  "layout_safe us ue ks ke ms me L \<longleftrightarrow>
     us \<le> l_managed_start L \<and> l_managed_end L \<le> ue \<and>
     page_aligned (l_managed_start L) \<and> page_aligned (l_managed_end L) \<and>
     unat (l_managed_start L) + unat (l_pages L) * 4096 = unat (l_managed_end L) \<and>
     8 \<le> l_pages L \<and> unat (l_bitmap_bytes L) = (unat (l_pages L) + 7) div 8 \<and>
     unat (l_bitmap_storage_bytes L) = unat (l_bitmap_pages L) * 4096 \<and>
     l_bitmap_bytes L \<le> l_bitmap_storage_bytes L \<and> l_bitmap_pages L < l_pages L \<and>
     (ks < ke \<longrightarrow> l_managed_end L \<le> ks \<or> ke \<le> l_managed_start L) \<and>
     (ms < me \<longrightarrow> l_managed_start L + l_bitmap_storage_bytes L \<le> ms \<or> me \<le> l_managed_start L)"

lemma ranges_overlap_iff:
  "ranges_overlap_u32 a b c d \<longleftrightarrow> a < b \<and> a < d \<and> c < b \<and> c < d"
  by (auto simp: ranges_overlap_u32_def u32_max_def u32_min_def)

text \<open>The facts about one turn of the loop, on the lengths as natural numbers.\<close>

lemma layout_sizes:
  assumes "page_aligned a" "page_aligned b" "a < b"
  defines "pages \<equiv> (b - a) div 4096"
  defines "bytes \<equiv> (pages + 7) div 8"
  defines "storage \<equiv> align_up_u32 bytes 4096"
  shows "unat a + unat pages * 4096 = unat b" "unat pages < 2 ^ 20" "unat bytes = (unat pages + 7) div 8"
    "unat storage = unat (storage div 4096) * 4096" "bytes \<le> storage"
proof -
  obtain i j where ij: "unat a = 4096 * i" "unat b = 4096 * j"
    using assms(1,2) by (auto simp: page_aligned_iff dvd_def)
  have up: "unat pages = j - i"
    using assms(3) ij by (simp add: pages_def unat_div unat_sub word_less_nat_alt word_le_nat_alt
        diff_mult_distrib2 [symmetric])
  show "unat a + unat pages * 4096 = unat b" using up ij assms(3) by (simp add: word_less_nat_alt)
  show lt: "unat pages < 2 ^ 20" using up ij unat_lt_2p32 [of b] by simp
  then have "unat (pages + 7) = unat pages + 7" by (subst unat_add_no_wrap) auto
  then show ub: "unat bytes = (unat pages + 7) div 8" by (simp add: bytes_def unat_div)
  then have le: "unat bytes \<le> 0xFFFFF000" using lt by simp
  have us: "unat storage = (unat bytes + 4095) div 4096 * 4096"
    unfolding storage_def by (rule unat_align_up [OF le])
  then show "unat storage = unat (storage div 4096) * 4096" by (simp add: unat_div)
  show "bytes \<le> storage" unfolding storage_def by (rule align_up_ge [OF le])
qed

lemma align_up_small: "v \<le> 0xFFFFE000 \<Longrightarrow> v \<le> align_up_u32 v 4096 \<and> align_up_u32 v 4096 \<le> 0xFFFFE000"
  using unat_align_up [of v] align_up_ge [of v] by (simp add: word_le_nat_alt)

lemma layout_attempts_safe:
  assumes "layout_attempts n us ue ks ke ms me a b = Some L"
    and "us \<le> a" "b \<le> ue" "a \<le> 0xFFFFE000" "ke \<le> 0xFFFFE000" "me \<le> 0xFFFFE000"
  shows "layout_safe us ue ks ke ms me L"
  using assms
proof (induction n arbitrary: a b)
  case 0
  then show ?case by (simp add: layout_attempts.simps)
next
  case (Suc n)
  note 2 = Suc
  define a1 where "a1 = (if ranges_overlap_u32 a b ks ke \<and> a < ke \<and> ks < b
    then u32_max a (align_up_u32 ke PMM_PAGE_SIZE) else a)"
  define a2 where "a2 = align_up_u32 a1 PMM_PAGE_SIZE"
  define b2 where "b2 = align_down_u32 b PMM_PAGE_SIZE"
  define pages where "pages = (b2 - a2) div PMM_PAGE_SIZE"
  define bytes where "bytes = (pages + 7) div 8"
  define storage where "storage = align_up_u32 bytes PMM_PAGE_SIZE"
  define bp where "bp = storage div PMM_PAGE_SIZE"
  note defs = a1_def [symmetric] a2_def [symmetric] b2_def [symmetric] pages_def [symmetric]
    bytes_def [symmetric] storage_def [symmetric] bp_def [symmetric]
  have a1: "a \<le> a1" "a1 \<le> 0xFFFFE000"
    using 2(5) align_up_small [OF 2(6)] by (auto simp: a1_def u32_max_def PMM_PAGE_SIZE_def)
  have a2: "a1 \<le> a2" "a2 \<le> 0xFFFFE000" "page_aligned a2"
    using align_up_small [OF a1(2)] page_aligned_align_up by (auto simp: a2_def PMM_PAGE_SIZE_def)
  have b2: "b2 \<le> b" "page_aligned b2"
    using align_down_le page_aligned_align_down by (auto simp: b2_def PMM_PAGE_SIZE_def)
  have run: "\<not> b2 \<le> a2 + PMM_PAGE_SIZE \<and> \<not> pages < 8 \<and> \<not> pages \<le> bp \<and>
      (if ms < me \<and> ranges_overlap_u32 a2 (a2 + storage) ms me
       then layout_attempts n us ue ks ke ms me (align_up_u32 me PMM_PAGE_SIZE) b2 = Some L
       else L = \<lparr>l_usable_start = us, l_usable_end = ue, l_managed_start = a2, l_managed_end = b2,
         l_pages = pages, l_bitmap_bytes = bytes, l_bitmap_storage_bytes = storage, l_bitmap_pages = bp\<rparr>)"
    using 2(2) unfolding layout_attempts.simps Let_def defs by (auto split: if_splits)
  have "unat (a2 + PMM_PAGE_SIZE) = unat a2 + 4096"
    using a2(2) by (subst unat_add_no_wrap) (auto simp: PMM_PAGE_SIZE_def word_le_nat_alt)
  then have lt: "a2 < b2" using run by (auto simp: word_le_nat_alt word_less_nat_alt)
  note sz = layout_sizes [OF a2(3) b2(2) lt, folded PMM_PAGE_SIZE_def, folded pages_def,
      folded bytes_def, folded storage_def, folded bp_def]
  have kernel: "b2 \<le> ks \<or> ke \<le> a2" if "ks < ke"
  proof (cases "ranges_overlap_u32 a b ks ke \<and> a < ke \<and> ks < b")
    case True
    then have "ke \<le> a1"
      using align_up_small [OF 2(6)] by (auto simp: a1_def u32_max_def PMM_PAGE_SIZE_def)
    then show ?thesis using a2(1) by auto
  next
    case False
    have "a < b" using a1(1) a2(1) lt b2(1) by auto
    with False that show ?thesis using a1(1) a2(1) b2(1) by (auto simp: ranges_overlap_iff)
  qed
  have stop: "unat (a2 + storage) = unat a2 + unat storage" "a2 < a2 + storage"
  proof -
    have "unat storage \<le> unat pages * 4096" "0 < unat storage"
      using run sz(3,4,5) by (auto simp: word_le_nat_alt word_less_nat_alt)
    moreover have "unat a2 + unat pages * 4096 < 2 ^ 32" using sz(1) unat_lt_2p32 [of b2] by simp
    ultimately have lim: "unat a2 + unat storage < 2 ^ 32" and pos: "0 < unat storage" by simp_all
    show eq: "unat (a2 + storage) = unat a2 + unat storage" using lim by (subst unat_add_no_wrap) auto
    show "a2 < a2 + storage" using pos unfolding word_less_nat_alt eq by simp
  qed
  show ?case
  proof (cases "ms < me \<and> ranges_overlap_u32 a2 (a2 + storage) ms me")
    case True
    then have at: "layout_attempts n us ue ks ke ms me (align_up_u32 me PMM_PAGE_SIZE) b2 = Some L"
      using run by simp
    have "us \<le> align_up_u32 me PMM_PAGE_SIZE" "align_up_u32 me PMM_PAGE_SIZE \<le> 0xFFFFE000"
      using True 2(3) a1(1) a2(1) align_up_small [OF 2(7)]
      by (auto simp: ranges_overlap_iff PMM_PAGE_SIZE_def)
    then show ?thesis using 2(1) [OF at] 2(4,6,7) b2(1) by auto
  next
    case False
    then have L: "L = \<lparr>l_usable_start = us, l_usable_end = ue, l_managed_start = a2, l_managed_end = b2,
         l_pages = pages, l_bitmap_bytes = bytes, l_bitmap_storage_bytes = storage, l_bitmap_pages = bp\<rparr>"
      using run by simp
    have "a2 + storage \<le> ms \<or> me \<le> a2" if "ms < me"
      using False that stop(2) by (auto simp: ranges_overlap_iff)
    moreover have "us \<le> a2" "b2 \<le> ue" using 2(3,4) a1(1) a2(1) b2(1) by auto
    moreover have "8 \<le> pages" "bp < pages" using run by auto
    ultimately show ?thesis
      unfolding layout_safe_def L using a2(3) b2(2) sz kernel
      by (simp add: PMM_PAGE_SIZE_def)
  qed
qed

section \<open>A fresh region\<close>

lemma length_memfill_from [simp]: "length (memfill_from dst v bytes i) = length dst"
proof (induction dst v bytes i rule: memfill_from.induct)
  case (1 dst v bytes i)
  then show ?case by (subst memfill_from.simps) simp
qed

lemma memfill_from_nth:
  assumes "unat bytes \<le> length dst" "j < unat bytes" "unat i \<le> j \<or> dst ! j = v"
  shows "memfill_from dst v bytes i ! j = v"
  using assms
proof (induction dst v bytes i rule: memfill_from.induct)
  case (1 dst v bytes i)
  show ?case
  proof (cases "i < bytes")
    case True
    have "unat (i + 1) \<le> j \<or> dst[unat i := v] ! j = v"
      using 1(2,3,4) True unat_inc [OF True] by (cases "j = unat i") (auto simp: word_less_nat_alt nth_list_update)
    then have "memfill_from (dst[unat i := v]) v bytes (i + 1) ! j = v"
      using 1(1) [OF True] 1(2,3) by simp
    with True show ?thesis by (subst memfill_from.simps) simp
  next
    case False
    with 1 show ?thesis by (subst memfill_from.simps) (auto simp: word_less_nat_alt)
  qed
qed

lemma free_tail:
  assumes "region_inv r" "\<forall>j < r_pages r. i \<le> j \<longrightarrow> bitmap_test_r r j"
  shows "region_inv (free_tail_from i r) \<and> region_managed (free_tail_from i r) = region_managed r \<and>
    r_base (free_tail_from i r) = r_base r \<and> r_pages (free_tail_from i r) = r_pages r \<and>
    clear_idx (free_tail_from i r) = clear_idx r \<union> {j. i \<le> j \<and> j < r_pages r}"
  using assms
proof (induction i r rule: free_tail_from.induct)
  case (1 i r)
  note inv = 1(2) and used = 1(3)
  let ?r = "(bitmap_clear_r i r)\<lparr>r_free := r_free r + 1\<rparr>"
  show ?case
  proof (cases "i < r_pages r")
    case True
    have ok: "region_ok r" using inv by (simp add: region_inv_def)
    have t: "bitmap_test_r r i" using used True by simp
    note fr = free_region [OF inv True t] and cr = clear_region [OF ok True]
    have gt: "i + 1 \<le> j \<longleftrightarrow> i < j" for j
      using unat_inc [OF True] by (simp add: word_le_nat_alt word_less_nat_alt Suc_le_eq)
    have "\<forall>j < r_pages ?r. i + 1 \<le> j \<longrightarrow> bitmap_test_r ?r j"
      using used test_clear [OF region_ok_byte [OF ok True]] by (auto simp: gt)
    note IH = 1(1) [OF True fr(1) this]
    moreover have "free_tail_from i r = free_tail_from (i + 1) ?r" using True by (subst free_tail_from.simps) simp
    moreover have "insert i (clear_idx r) \<union> {j. i + 1 \<le> j \<and> j < r_pages r} = clear_idx r \<union> {j. i \<le> j \<and> j < r_pages r}"
      using True by (auto simp: gt)
    ultimately show ?thesis using cr fr(2) by simp
  next
    case False
    then have "free_tail_from i r = r" by (subst free_tail_from.simps) simp
    then show ?thesis using inv False by auto
  qed
qed

text \<open>The pages of a region are the page-aligned addresses of its range.\<close>

lemma region_managed_range:
  assumes "region_ok r"
  shows "region_managed r = {a. page_aligned a \<and> r_base r \<le> a \<and> unat a < unat (r_base r) + unat (r_pages r) * 4096}"
proof -
  note en = unat_index_to_addr [OF assms order_refl]
  have "a \<in> region_managed r \<longleftrightarrow> r_base r \<le> a \<and> unat a < unat (r_base r) + unat (r_pages r) * 4096"
    if "page_aligned a" for a
    using contains_iff [OF assms that] en
    by (cases "r_pages r = 0")
      (auto simp: region_contains_addr_def Let_def region_index_to_addr_def word_less_nat_alt word_le_nat_alt)
  then show ?thesis using region_managed_page [OF assms] by blast
qed

definition fresh_region :: "memory \<Rightarrow> region_layout \<Rightarrow> pmm_region" where
  "fresh_region m L = \<lparr>r_base = l_managed_start L, r_pages = l_pages L,
     r_bitmap = mem_bytes m (PHYS_TO_VIRT (l_managed_start L)) (l_bitmap_storage_bytes L),
     r_bitmap_bytes = l_bitmap_bytes L, r_bitmap_storage_bytes = l_bitmap_storage_bytes L,
     r_bitmap_pages = l_bitmap_pages L, r_free = 0\<rparr>"

lemma fresh_region:
  fixes m :: memory
  assumes "layout_safe us ue ks ke ms me L" "0 < us"
  defines "r \<equiv> pmm_region_bitmap_init_and_free_tail (fresh_region m L)"
  shows "region_inv r" "r_base r = l_managed_start L" "r_pages r = l_pages L"
    "clear_idx r = {j. l_bitmap_pages L \<le> j \<and> j < l_pages L}"
    "region_managed r = pages_between (l_managed_start L) (l_managed_end L)"
proof -
  let ?r0 = "fresh_region m L"
  let ?r1 = "?r0\<lparr>r_bitmap := memfill_u8 (r_bitmap ?r0) 0xFF (r_bitmap_storage_bytes ?r0), r_free := 0\<rparr>"
  have flds: "r_base ?r1 = l_managed_start L" "r_pages ?r1 = l_pages L" "r_bitmap_bytes ?r1 = l_bitmap_bytes L"
    "length (r_bitmap ?r1) = unat (l_bitmap_storage_bytes L)" "r_free ?r1 = 0" "r_bitmap_pages ?r1 = l_bitmap_pages L"
    by (simp_all add: fresh_region_def memfill_u8_def mem_bytes_def)
  note L = assms(1) [unfolded layout_safe_def]
  have lim: "unat (l_managed_start L) + unat (l_pages L) * 4096 < 2 ^ 32"
    using L unat_lt_2p32 [of "l_managed_end L"] by simp
  have "8 * unat (l_bitmap_bytes L) \<le> unat (l_pages L) + 7" "unat (l_pages L) \<le> 8 * unat (l_bitmap_bytes L)"
    using L by simp_all
  moreover have "unat (l_pages L) < 2 ^ 20" using lim by simp
  moreover have "0 < l_managed_start L" using L assms(2) by (auto intro: less_le_trans)
  ultimately have ok: "region_ok ?r1"
    using L lim unfolding region_ok_def flds by (auto simp: word_le_nat_alt)
  have used: "bitmap_test_r ?r1 j" if "j < l_pages L" for j
  proof -
    have "unat j div 8 < unat (l_bitmap_storage_bytes L)"
      using region_ok_byte [OF ok, of j] that flds(2,4) by simp
    then have "r_bitmap ?r1 ! (unat j div 8) = 0xFF"
      by (simp add: memfill_u8_def, intro memfill_from_nth)
        (simp_all add: fresh_region_def mem_bytes_def)
    then show ?thesis by (rule test_all_ones)
  qed
  then have none: "clear_idx ?r1 = {}" using flds(2) by (auto simp: clear_idx_def)
  then have inv1: "region_inv ?r1" using ok flds(5) by (simp add: region_inv_def)
  have r: "r = free_tail_from (l_bitmap_pages L) ?r1"
    by (simp add: r_def pmm_region_bitmap_init_and_free_tail_def Let_def) (simp add: fresh_region_def)
  note ft = free_tail [OF inv1, of "l_bitmap_pages L", folded r] 
  show "region_inv r" "r_base r = l_managed_start L" "r_pages r = l_pages L"
    "clear_idx r = {j. l_bitmap_pages L \<le> j \<and> j < l_pages L}"
    using ft used none flds by auto
  have "region_managed r = region_managed ?r1" using ft used flds(2) by auto
  then show "region_managed r = pages_between (l_managed_start L) (l_managed_end L)"
    using L flds(1,2) unfolding region_managed_range [OF ok] pages_between_def by (simp add: word_less_nat_alt)
qed

lemma pmm_add_region_eq:
  "pmm_add_region us ue ks ke ms me s =
     (if PMM_MAX_REGIONS \<le> g_region_count s then (0, s)
      else (case pmm_compute_region_layout us ue ks ke ms me of
        None \<Rightarrow> (0, s)
      | Some L \<Rightarrow> (1, s\<lparr>g_regions := (g_regions s)[g_region_count s :=
            pmm_region_bitmap_init_and_free_tail (fresh_region (g_mem s) L)],
          g_region_count := g_region_count s + 1\<rparr>)))"
  by (simp add: pmm_add_region_def fresh_region_def Let_def split: option.split)

section \<open>Building the regions\<close>

text \<open>The state while the memory map is walked: every region built so far is in shape and lies in
  the usable range of an entry already visited, outside the kernel image.\<close>

definition in_entry :: "memory \<Rightarrow> u32 \<Rightarrow> u32 set \<Rightarrow> bool" where
  "in_entry m p A \<longleftrightarrow> (\<exists>a b. entry_usable m p = Some (a, b) \<and> (\<forall>x \<in> A. a \<le> x \<and> unat x + 4096 \<le> unat b))"

definition building :: "boot_info \<Rightarrow> memory \<Rightarrow> u32 list \<Rightarrow> bitmap_state \<Rightarrow> bool" where
  "building bi m done s \<longleftrightarrow> g_mem s = m \<and> \<not> g_pmm_ready s \<and> length (g_regions s) = PMM_MAX_REGIONS \<and>
     g_region_count s \<le> PMM_MAX_REGIONS \<and>
     (\<forall>i < g_region_count s. region_inv (region_at s i) \<and> (\<exists>p \<in> set done. in_entry m p (region_managed (region_at s i))) \<and>
        (\<forall>x \<in> region_managed (region_at s i). kernel_phys_start bi < kernel_phys_end bi \<longrightarrow>
           unat x + 4096 \<le> unat (kernel_phys_start bi) \<or> kernel_phys_end bi \<le> x)) \<and>
     disjoint_family_on (\<lambda>i. region_managed (region_at s i)) {..< g_region_count s}"

text \<open>Two entries do not describe the same memory, and no usable entry starts in the last two pages
  below 4 GiB.\<close>

definition entries_disjoint :: "memory \<Rightarrow> u32 \<Rightarrow> u32 \<Rightarrow> bool" where
  "entries_disjoint m p q = (case (entry_usable m p, entry_usable m q) of
     (Some (a, b), Some (c, d)) \<Rightarrow> b \<le> c \<or> d \<le> a | _ \<Rightarrow> True)"

definition entry_below_top :: "memory \<Rightarrow> u32 \<Rightarrow> bool" where
  "entry_below_top m p = (case entry_usable m p of Some (a, b) \<Rightarrow> a \<le> 0xFFFFE000 | None \<Rightarrow> True)"

lemma entry_usable_ge: "entry_usable m p = Some (a, b) \<Longrightarrow> PMM_ONE_MIB \<le> a \<and> a < b"
  by (auto simp: entry_usable_def Let_def split: if_splits)

lemma pmm_add_region_building:
  assumes "building bi m done s" "entry_usable m p = Some (a, b)" "a \<le> 0xFFFFE000"
    and "kernel_phys_end bi \<le> 0xFFFFE000" "me \<le> 0xFFFFE000"
    and "\<forall>q \<in> set done. entries_disjoint m q p"
    and "pmm_add_region a b (kernel_phys_start bi) (kernel_phys_end bi) ms me s = (ok, s')"
  shows "building bi m (done @ [p]) s'"
proof (cases "ok = 0")
  case True
  then have "s' = s" using assms(7) by (auto simp: pmm_add_region_eq split: if_splits option.splits)
  then show ?thesis using assms(1) by (fastforce simp: building_def)
next
  case False
  then obtain L where L: "pmm_compute_region_layout a b (kernel_phys_start bi) (kernel_phys_end bi) ms me = Some L"
    and room: "g_region_count s < PMM_MAX_REGIONS"
    and s': "s' = s\<lparr>g_regions := (g_regions s)[g_region_count s :=
        pmm_region_bitmap_init_and_free_tail (fresh_region m L)], g_region_count := g_region_count s + 1\<rparr>"
    using assms(1,7) by (auto simp: pmm_add_region_eq building_def split: if_splits option.splits)
  have safe: "layout_safe a b (kernel_phys_start bi) (kernel_phys_end bi) ms me L"
    using L assms(3-5) by (intro layout_attempts_safe) (auto simp: pmm_compute_region_layout_def split: if_splits)
  note S = safe [unfolded layout_safe_def]
  have pos: "0 < a" using entry_usable_ge [OF assms(2)] by (auto simp: PMM_ONE_MIB_def word_le_nat_alt word_less_nat_alt)
  note fr = fresh_region [OF safe pos, of m]
  define r where "r = pmm_region_bitmap_init_and_free_tail (fresh_region m L)"
  have at: "region_at s' i = (if i = g_region_count s then r else region_at s i)" for i
    using room assms(1) by (simp add: s' r_def region_at_def building_def nth_list_update)
  have ends: "page_aligned (l_managed_end L)" "a \<le> l_managed_start L" using S by blast+
  have rm: "a \<le> x \<and> unat x + 4096 \<le> unat (l_managed_end L)" if x: "x \<in> region_managed r" for x
  proof -
    have p: "x \<in> pages_between (l_managed_start L) (l_managed_end L)" using x fr(5) by (simp add: r_def)
    then have "l_managed_start L \<le> x" by (simp add: pages_between_def)
    with ends(2) pages_between_below [OF ends(1) p] show ?thesis using order_trans by blast
  qed
  have "unat (l_managed_end L) \<le> unat b" using S word_le_nat_alt by blast
  then have "\<forall>x \<in> region_managed r. a \<le> x \<and> unat x + 4096 \<le> unat b" using rm le_trans by blast
  then have here: "in_entry m p (region_managed r)" using assms(2) by (auto simp: in_entry_def)
  have kern: "unat x + 4096 \<le> unat (kernel_phys_start bi) \<or> kernel_phys_end bi \<le> x"
    if x: "x \<in> region_managed r" and k: "kernel_phys_start bi < kernel_phys_end bi" for x
  proof (cases "l_managed_end L \<le> kernel_phys_start bi")
    case True
    then show ?thesis using rm [OF x] by (simp add: word_le_nat_alt)
  next
    case False
    then have "kernel_phys_end bi \<le> l_managed_start L" using S k by blast
    moreover have "l_managed_start L \<le> x" using x fr(5) by (simp add: r_def pages_between_def)
    ultimately show ?thesis using order_trans by blast
  qed
  have dis: "region_managed (region_at s i) \<inter> region_managed r = {}" if i: "i < g_region_count s" for i
  proof -
    obtain q where q: "q \<in> set done" "in_entry m q (region_managed (region_at s i))"
      using assms(1) i unfolding building_def by blast
    then show ?thesis
      using assms(6) here assms(2)
      by (fastforce simp: in_entry_def entries_disjoint_def word_le_nat_alt)
  qed
  have "disjoint_family_on (\<lambda>i. region_managed (region_at s i)) {..< g_region_count s}"
    using assms(1) by (simp add: building_def)
  then have "disjoint_family_on (\<lambda>i. region_managed (region_at s' i)) {..< g_region_count s}"
    by (simp add: disjoint_family_on_def at)
  moreover have "region_managed (region_at s' (g_region_count s)) \<inter>
      (\<Union>i < g_region_count s. region_managed (region_at s' i)) = {}"
    using dis by (fastforce simp: at)
  ultimately have fam: "disjoint_family_on (\<lambda>i. region_managed (region_at s' i)) {..< g_region_count s'}"
    by (simp add: s' lessThan_Suc disjoint_family_on_insert)
  have "region_inv (region_at s' i) \<and> (\<exists>q \<in> set (done @ [p]). in_entry m q (region_managed (region_at s' i))) \<and>
      (\<forall>x \<in> region_managed (region_at s' i). kernel_phys_start bi < kernel_phys_end bi \<longrightarrow>
         unat x + 4096 \<le> unat (kernel_phys_start bi) \<or> kernel_phys_end bi \<le> x)"
    if i: "i < g_region_count s'" for i
  proof (cases "i = g_region_count s")
    case True
    then show ?thesis using fr(1) here kern by (simp add: at r_def)
  next
    case False
    then have "i < g_region_count s" using i by (simp add: s')
    with assms(1) False show ?thesis unfolding building_def by (simp add: at)
  qed
  moreover have "g_mem s' = m" "\<not> g_pmm_ready s'" "length (g_regions s') = PMM_MAX_REGIONS"
      "g_region_count s' \<le> PMM_MAX_REGIONS"
    using assms(1) room by (simp_all add: s' building_def)
  ultimately show ?thesis using fam unfolding building_def by blast
qed

lemma init_entry_building:
  assumes "building bi m done s" "entry_below_top m p" "\<forall>q \<in> set done. entries_disjoint m q p"
    and "kernel_phys_end bi \<le> 0xFFFFE000" "me \<le> 0xFFFFE000"
    and "init_entry bi me p (s, n) = (brk, s', n')"
  shows "building bi m (done @ [p]) s'"
proof (cases "entry_usable m p")
  case None
  have "building bi m (done @ [p]) s" using assms(1) by (fastforce simp: building_def)
  moreover have "s' = s" using None assms(1,6) by (simp add: init_entry_def building_def)
  ultimately show ?thesis by simp
next
  case (Some ab)
  obtain a b where ab: "ab = (a, b)" by (cases ab)
  obtain ok s1 where add: "pmm_add_region a b (kernel_phys_start bi) (kernel_phys_end bi) (g_mb2_info bi) me s = (ok, s1)"
    by fastforce
  have "s' = s1" using assms(1,6) Some ab add by (auto simp: init_entry_def building_def split: if_splits)
  moreover have "a \<le> 0xFFFFE000" using assms(2) Some ab by (simp add: entry_below_top_def)
  ultimately show ?thesis
    using pmm_add_region_building [OF assms(1) _ _ assms(4,5,3) add] Some ab by simp
qed

lemma fold_entries_building:
  assumes "building bi m done s" "\<forall>p \<in> set ps. entry_below_top m p"
    and "\<forall>q \<in> set done. \<forall>p \<in> set ps. entries_disjoint m q p" "sorted_wrt (entries_disjoint m) ps"
    and "kernel_phys_end bi \<le> 0xFFFFE000" "me \<le> 0xFFFFE000"
    and "fold_entries (init_entry bi me) ps (s, n) = (s', n')"
  shows "building bi m (done @ ps) s'"
  using assms
proof (induction ps arbitrary: "done" s n)
  case (Cons p ps)
  obtain brk s1 n1 where st: "init_entry bi me p (s, n) = (brk, s1, n1)" by (metis prod.collapse)
  have b1: "building bi m (done @ [p]) s1"
    using init_entry_building [OF Cons.prems(1) _ _ Cons.prems(5,6) st] Cons.prems(2,3) by simp
  show ?case
  proof (cases brk)
    case True
    then have "s' = s1" using Cons.prems(7) st by simp
    then show ?thesis using b1 by (fastforce simp: building_def)
  next
    case False
    then have "fold_entries (init_entry bi me) ps (s1, n1) = (s', n')" using Cons.prems(7) st by simp
    from Cons.IH [OF b1 _ _ _ Cons.prems(5,6) this] Cons.prems(2,3,4) show ?thesis by auto
  qed
qed (simp add: building_def)

lemma reset_building:
  assumes "length (g_regions s) = PMM_MAX_REGIONS"
  shows "building bi (g_mem s) [] (pmm_reset_state s)"
proof -
  have "length (clear_regions n rs) = length rs" for n rs by (induction n arbitrary: rs) simp_all
  then show ?thesis using assms by (simp add: building_def pmm_reset_state_def disjoint_family_on_def)
qed

section \<open>The counters\<close>

lemma recompute_from_eq:
  "recompute_from i s = s\<lparr>
     g_pmm_total_pages := g_pmm_total_pages s + (\<Sum>k \<in> {i..< g_region_count s}. r_pages (region_at s k)),
     g_pmm_total_free := g_pmm_total_free s + (\<Sum>k \<in> {i..< g_region_count s}. r_free (region_at s k))\<rparr>"
proof (induction i s rule: recompute_from.induct)
  case (1 i s)
  show ?case
  proof (cases "i < g_region_count s")
    case True
    then show ?thesis
      using 1 [OF True]
      by (subst recompute_from.simps) (simp add: region_at_def sum.atLeast_Suc_lessThan add.assoc)
  qed (subst recompute_from.simps, simp)
qed

lemma unat_sum_words:
  fixes f :: "nat \<Rightarrow> u32"
  assumes "(\<Sum>k < n. unat (f k)) < 2 ^ 32"
  shows "unat (\<Sum>k < n. f k) = (\<Sum>k < n. unat (f k))"
  using assms by (induction n) (auto simp: unat_word_ariths)

lemma recompute_core:
  assumes "building bi m done s" "0 < g_region_count s"
  defines "s' \<equiv> pmm_recompute_totals (s\<lparr>g_pmm_ready := True\<rparr>)"
  shows "bm_ok s'" "region_at s' = region_at s" "g_region_count s' = g_region_count s" "g_mem s' = m"
proof -
  have s': "s' = s\<lparr>g_pmm_ready := True, g_pmm_total_pages := (\<Sum>k < g_region_count s. r_pages (region_at s k)),
      g_pmm_total_free := (\<Sum>k < g_region_count s. r_free (region_at s k))\<rparr>"
    by (simp add: s'_def pmm_recompute_totals_def recompute_from_eq region_at_def atLeast0LessThan)
  show at: "region_at s' = region_at s" and cnt: "g_region_count s' = g_region_count s" and "g_mem s' = m"
    using assms(1) by (simp_all add: s' region_at_def fun_eq_iff building_def)
  have inv: "region_inv (region_at s i)" if "i < g_region_count s" for i
    using assms(1) that by (simp add: building_def)
  have dis: "disjoint_family_on (\<lambda>i. region_managed (region_at s i)) {..< g_region_count s}"
    using assms(1) by (simp add: building_def)
  let ?U = "\<Union>i < g_region_count s. region_managed (region_at s i)"
  have "(\<Sum>k < g_region_count s. unat (r_pages (region_at s k))) =
      (\<Sum>k < g_region_count s. card (region_managed (region_at s k)))"
    using inv by (intro sum.cong) (auto simp: region_inv_def card_region_managed)
  also have "\<dots> = card ?U" using dis by (subst card_UN_disjoint) (auto simp: disjoint_family_on_def)
  also have "\<dots> < card (UNIV :: u32 set)"
  proof (rule psubset_card_mono)
    have "0 \<notin> ?U" using inv region_managed_page by (fastforce simp: region_inv_def)
    then show "?U \<subset> UNIV" by blast
  qed simp
  finally have P: "(\<Sum>k < g_region_count s. unat (r_pages (region_at s k))) < 2 ^ 32"
    by (simp add: card_word)
  moreover have "(\<Sum>k < g_region_count s. unat (r_free (region_at s k))) \<le>
      (\<Sum>k < g_region_count s. unat (r_pages (region_at s k)))"
    using inv card_clear_idx_le by (intro sum_mono) (simp add: region_inv_def)
  ultimately have F: "(\<Sum>k < g_region_count s. unat (r_free (region_at s k))) < 2 ^ 32" by simp
  have "unat (g_pmm_total_pages s') = (\<Sum>i < g_region_count s. unat (r_pages (region_at s i)))"
    and "unat (g_pmm_total_free s') = (\<Sum>i < g_region_count s. unat (r_free (region_at s i)))"
    using unat_sum_words [OF P] unat_sum_words [OF F] by (simp_all add: s')
  moreover have "g_pmm_ready s'" "length (g_regions s') = PMM_MAX_REGIONS" "g_region_count s \<le> PMM_MAX_REGIONS"
    using assms(1) by (simp_all add: s' building_def)
  ultimately show "bm_ok s'"
    using inv dis assms(2) unfolding bm_ok_def bm_core_def cnt at by simp
qed

text \<open>On a consistent state the resynchronisation changes nothing.\<close>

lemma resync_from_eq:
  assumes "\<forall>i < g_region_count s. region_inv (region_at s i)" "length (g_regions s) = PMM_MAX_REGIONS"
    and "g_region_count s \<le> PMM_MAX_REGIONS"
  shows "resync_from ri s = s\<lparr>g_pmm_total_free := g_pmm_total_free s +
    (\<Sum>k \<in> {ri..< g_region_count s}. r_free (region_at s k))\<rparr>"
  using assms
proof (induction ri s rule: resync_from.induct)
  case (1 ri s)
  show ?case
  proof (cases "ri < g_region_count s")
    case True
    let ?r = "g_regions s ! ri"
    define n where "n = count_clear_from ?r 0 0"
    have "unat n = unat (r_free ?r)"
      using 1(2) True count_clear [of ?r] by (simp add: n_def region_inv_def region_at_def)
    then have n: "n = r_free ?r" by (simp add: word_unat_eq_iff)
    then have "?r\<lparr>r_free := n\<rparr> = ?r" by simp
    then have same: "(g_regions s)[ri := ?r\<lparr>r_free := n\<rparr>] = g_regions s" by (simp add: list_update_id)
    let ?s = "s\<lparr>g_regions := (g_regions s)[ri := ?r\<lparr>r_free := n\<rparr>], g_pmm_total_free := g_pmm_total_free s + n\<rparr>"
    have s1: "?s = s\<lparr>g_pmm_total_free := g_pmm_total_free s + r_free ?r\<rparr>" by (simp add: same n)
    have "resync_from ri s = resync_from (ri + 1) ?s"
      using True by (subst resync_from.simps) (simp add: Let_def n_def)
    moreover have "resync_from (ri + 1) ?s = ?s\<lparr>g_pmm_total_free := g_pmm_total_free ?s +
        (\<Sum>k \<in> {ri + 1..< g_region_count ?s}. r_free (region_at ?s k))\<rparr>"
      using 1(2-) by (intro 1(1) [OF True n_def]) (simp_all add: s1 region_at_def)
    ultimately show ?thesis
      using True by (simp add: s1 region_at_def sum.atLeast_Suc_lessThan add.assoc)
  qed (subst resync_from.simps, simp)
qed

lemma resync_id:
  assumes "bm_core s"
  shows "pmm_resync_free_count s = s"
proof -
  have "(\<Sum>k < g_region_count s. unat (r_free (region_at s k))) = unat (g_pmm_total_free s)"
    using assms by (simp add: bm_core_def)
  then have "(\<Sum>k < g_region_count s. r_free (region_at s k)) = g_pmm_total_free s"
    using unat_sum_words [of "\<lambda>k. r_free (region_at s k)" "g_region_count s"] unat_lt_2p32 [of "g_pmm_total_free s"]
    by (simp add: word_unat_eq_iff)
  moreover have "resync_from 0 (s\<lparr>g_pmm_total_free := 0\<rparr>) = s\<lparr>g_pmm_total_free :=
      (\<Sum>k < g_region_count s. r_free (region_at s k))\<rparr>"
    using assms by (subst resync_from_eq) (simp_all add: bm_core_def region_at_def atLeast0LessThan)
  ultimately show ?thesis by (simp add: pmm_resync_free_count_def)
qed

section \<open>The self-test passes\<close>

lemma fill_spec:
  assumes "n \<le> 1024" "j < n"
  shows "rd32 (fold (\<lambda>j m. wr32 m (w + 4 * of_nat j) v) [0..<n] m) (w + 4 * of_nat j) = v"
  using assms
proof (induction n)
  case (Suc n)
  let ?m = "fold (\<lambda>j m. wr32 m (w + 4 * of_nat j) v) [0..<n] m"
  show ?case
  proof (cases "j = n")
    case False
    then have jn: "j < n" using Suc.prems by simp
    define x :: u32 where "x = of_nat (4 * (n - j))"
    have ux: "unat x = 4 * (n - j)" using Suc.prems unfolding x_def by (subst unat_of_nat) simp
    have d: "(w + 4 * of_nat n) - (w + 4 * of_nat j) = x" "(w + 4 * of_nat j) - (w + 4 * of_nat n) = - x"
      using jn by (simp_all add: x_def of_nat_diff algebra_simps)
    have "- x = of_nat (2 ^ 32 - 4 * (n - j))"
      using Suc.prems unfolding x_def by (subst of_nat_diff) simp_all
    then have "unat (- x) = (2 ^ 32 - 4 * (n - j)) mod 2 ^ 32"
      by (simp only: unat_of_nat) simp
    then have "unat (- x) = 2 ^ 32 - 4 * (n - j)" using jn by simp
    then have "rd32 (wr32 ?m (w + 4 * of_nat n) v) (w + 4 * of_nat j) = rd32 ?m (w + 4 * of_nat j)"
      using ux jn Suc.prems by (intro rd32_wr32_other, unfold d) simp_all
    then show ?thesis using Suc.IH jn Suc.prems by simp
  qed simp
qed simp

lemma selftest_verify_fill: "selftest_verify w v (selftest_fill w v m)"
  by (simp add: selftest_verify_def selftest_fill_def list_all_iff fill_spec del: upt_Suc)

lemma selftest_pages_ok: "fst (selftest_pages i ps m)"
  by (induction i ps m rule: selftest_pages.induct) (simp_all add: Let_def selftest_verify_fill)

lemma selftest_alloc_eq:
  assumes "bm_inv s" "n \<le> card (bm_free s)"
  shows "selftest_alloc n s = alloc_n pmm_bitmap_alloc_page n s"
  using assms
proof (induction n arbitrary: s)
  case (Suc n)
  obtain p s1 where al: "pmm_bitmap_alloc_page s = (p, s1)" by (cases "pmm_bitmap_alloc_page s")
  have ne: "bm_free s \<noteq> {}" using Suc.prems(2) by auto
  then have "p \<noteq> 0" "p \<in> bm_free s" "bm_free s1 = bm_free s - {p}" "bm_inv s1"
    using bm.alloc_null_iff [OF Suc.prems(1)] bm.alloc_some [OF Suc.prems(1) ne]
      bm.alloc_inv [OF Suc.prems(1)] al by auto
  then show ?case using Suc.IH [of s1] Suc.prems(2) al by simp
qed simp

lemma bm_mem [simp]:
  "bm_inv (s\<lparr>g_mem := m\<rparr>) = bm_inv s" "bm_free (s\<lparr>g_mem := m\<rparr>) = bm_free s" "bm_managed (s\<lparr>g_mem := m\<rparr>) = bm_managed s"
  by (simp_all add: bm_inv_def bm_core_def bm_free_def bm_managed_def region_at_def)

lemma bm_ok_iff: "bm_inv s \<Longrightarrow> bm_managed s \<noteq> {} \<Longrightarrow> bm_ok s"
  by (auto simp: bm_ok_def bm_inv_def bm_managed_def split: if_splits)

lemma total_free_card: "bm_ok s \<Longrightarrow> g_pmm_total_free s = of_nat (card (bm_free s))"
  using bm.free_pages_card [of s] by (simp add: bm_ok_def bm_inv_def pmm_bitmap_free_pages_def)

lemma card_bm_free_unat: "bm_ok s \<Longrightarrow> unat (g_pmm_total_free s) = card (bm_free s)"
  using card_bm_free [of s] by (simp add: bm_ok_def bm_free_def)

lemma selftest_ok:
  assumes "bm_ok s" "pmm_selftest s = (res, s')"
  shows "res = (if g_pmm_total_pages s = 0 then Not_Run else if g_pmm_total_free s < 4 then Skipped else Passed)"
    and "bm_ok s'" "bm_free s' = bm_free s" "bm_managed s' = bm_managed s"
proof -
  have inv: "bm_inv s" using assms(1) by (simp add: bm_ok_def bm_inv_def)
  have "res = (if g_pmm_total_pages s = 0 then Not_Run else if g_pmm_total_free s < 4 then Skipped else Passed) \<and>
    bm_ok s' \<and> bm_free s' = bm_free s \<and> bm_managed s' = bm_managed s"
  proof (cases "g_pmm_total_pages s = 0 \<or> g_pmm_total_free s < 4")
    case True
    then show ?thesis
      using assms by (auto simp: pmm_selftest_def bm_ok_def bm_core_def Let_def)
  next
    case False
    then have four: "4 \<le> card (bm_free s)"
      using card_bm_free_unat [OF assms(1)] by (simp add: word_less_nat_alt)
    obtain ps s1 where al: "alloc_n pmm_bitmap_alloc_page 4 s = (ps, s1)" by fastforce
    note dis = bm.alloc_n_distinct [OF inv four al]
    have man: "bm_managed s \<noteq> {}" using four bm.free_managed [OF inv] by auto
    have ok1: "bm_ok s1" using dis man by (intro bm_ok_iff) auto
    have sa: "selftest_alloc 4 s = (ps, s1)" using selftest_alloc_eq [OF inv four] al by simp
    have cnt1: "g_pmm_total_free s1 = g_pmm_total_free s - 4"
      using dis four total_free_card [OF assms(1)] total_free_card [OF ok1]
      by (simp add: card_Diff_subset distinct_card of_nat_diff)
    obtain m where m: "selftest_pages 0 ps (g_mem s1) = (True, m)"
      using selftest_pages_ok [of 0 ps "g_mem s1"] by (cases "selftest_pages 0 ps (g_mem s1)") auto
    define s2 where "s2 = free_all pmm_bitmap_free_page ps (s1\<lparr>g_mem := m\<rparr>)"
    have fr: "bm_inv s2 \<and> bm_free s2 = bm_free s1 \<union> set ps \<and> bm_managed s2 = bm_managed s1"
      using bm.free_all_free [of "s1\<lparr>g_mem := m\<rparr>" ps] dis bm.free_managed [OF inv] by (auto simp: s2_def)
    have same: "bm_free s2 = bm_free s" using fr dis by auto
    have ok2: "bm_ok s2" using fr dis man by (intro bm_ok_iff) auto
    have "g_pmm_total_free s2 = g_pmm_total_free s"
      using total_free_card [OF assms(1)] total_free_card [OF ok2] same by simp
    then have "pmm_selftest s = (Passed, s2)"
      using False assms(1) sa dis cnt1 m
      by (simp add: pmm_selftest_def bm_ok_def bm_core_def Let_def s2_def)
    then show ?thesis using assms(2) False ok2 same fr dis by auto
  qed
  then show "res = (if g_pmm_total_pages s = 0 then Not_Run else if g_pmm_total_free s < 4 then Skipped else Passed)"
    and "bm_ok s'" "bm_free s' = bm_free s" "bm_managed s' = bm_managed s" by blast+
qed

section \<open>Initialisation is safe\<close>

text \<open>What the boot loader has to provide: a memory-map tag that does not reach the top of the
  address space, entries that do not overlap, nothing in the last two pages below 4 GiB.\<close>

definition boot_map_ok :: "boot_info \<Rightarrow> memory \<Rightarrow> u32 \<Rightarrow> bool" where
  "boot_map_ok bi m tag \<longleftrightarrow> g_mb2_info bi \<noteq> 0 \<and>
     mb2_find_tag m (PHYS_TO_VIRT (g_mb2_info bi)) (rd32 m (PHYS_TO_VIRT (g_mb2_info bi))) MB2_TAG_TYPE_MMAP
       = Some (MB2_FIND_OK tag) \<and>
     tag \<noteq> 0 \<and> 16 \<le> tag_size m tag \<and> 24 \<le> mmap_entry_size m tag \<and>
     unat tag + unat (tag_size m tag) + unat (mmap_entry_size m tag) < 2 ^ 32 \<and>
     sorted_wrt (entries_disjoint m) (mmap_ptrs m tag) \<and> list_all (entry_below_top m) (mmap_ptrs m tag) \<and>
     kernel_phys_end bi \<le> 0xFFFFE000 \<and> mb2_end_of bi m \<le> 0xFFFFE000"

text \<open>An entry from which a region can be built.\<close>

definition entry_accepted :: "boot_info \<Rightarrow> memory \<Rightarrow> u32 \<Rightarrow> bool" where
  "entry_accepted bi m p = (case entry_usable m p of None \<Rightarrow> False
     | Some (a, b) \<Rightarrow> pmm_compute_region_layout a b (kernel_phys_start bi) (kernel_phys_end bi)
         (g_mb2_info bi) (mb2_end_of bi m) \<noteq> None)"

lemma init_entry_count:
  assumes "g_mem s = m" "init_entry bi (mb2_end_of bi m) p (s, n) = (brk, s', n')"
  shows "g_mem s' = m \<and> g_region_count s' + n = g_region_count s + n' \<and> n \<le> n' \<and>
    (entry_accepted bi m p \<and> g_region_count s < PMM_MAX_REGIONS \<longrightarrow> n < n') \<and> (\<not> entry_accepted bi m p \<longrightarrow> n' = n) \<and>
    (brk \<longrightarrow> PMM_MAX_REGIONS \<le> g_region_count s')"
  using assms
  by (auto simp: init_entry_def entry_accepted_def pmm_add_region_eq split: option.splits if_splits prod.splits)

lemma fold_entries_count:
  assumes "g_mem s = m" "fold_entries (init_entry bi (mb2_end_of bi m)) ps (s, n) = (s', n')"
  shows "g_region_count s' + n = g_region_count s + n' \<and> n \<le> n' \<and>
    (g_region_count s < PMM_MAX_REGIONS \<longrightarrow> (\<exists>p \<in> set ps. entry_accepted bi m p) \<longrightarrow> n < n') \<and>
    ((\<forall>p \<in> set ps. \<not> entry_accepted bi m p) \<longrightarrow> n' = n)"
  using assms
proof (induction ps arbitrary: s n)
  case (Cons p ps)
  obtain brk s1 n1 where st: "init_entry bi (mb2_end_of bi m) p (s, n) = (brk, s1, n1)" by (metis prod.collapse)
  note one = init_entry_count [OF Cons.prems(1) st]
  show ?case
  proof (cases brk)
    case True
    then have "s' = s1" "n' = n1" using Cons.prems(2) st by simp_all
    then show ?thesis using one True by auto
  next
    case False
    then have rest: "fold_entries (init_entry bi (mb2_end_of bi m)) ps (s1, n1) = (s', n')"
      using Cons.prems(2) st by simp
    have "g_mem s1 = m" using one by blast
    note IH = Cons.IH [OF this rest]
    show ?thesis
    proof (cases "entry_accepted bi m p \<and> g_region_count s < PMM_MAX_REGIONS")
      case True
      then have "n < n1" using one by blast
      then show ?thesis using IH one by auto
    next
      case out: False
      show ?thesis
      proof (cases "g_region_count s < PMM_MAX_REGIONS")
        case True
        then have "n1 = n" "g_region_count s1 = g_region_count s" using out one by auto
        then show ?thesis using IH True out by auto
      qed (use IH one in auto)
    qed
  qed
qed simp

lemma mmap_walk:
  assumes "boot_map_ok bi m tag"
  shows "mmap_loop (mmap_entry_size m tag) (tag + tag_size m tag) body (tag + 16) st =
    Some (fold_entries body (mmap_ptrs m tag) st)"
  using assms by (intro mmap_tag_walk) (auto simp: boot_map_ok_def mmap_tag_ok_def)

lemma bitmap_init_run:
  assumes "boot_map_ok bi m tag" "g_mem s = m"
    and "fold_entries (init_entry bi (mb2_end_of bi m)) (mmap_ptrs m tag) (pmm_reset_state s, 0) = (s1, added)"
  shows "pmm_bitmap_init bi s = (if added = 0 \<or> g_region_count s1 = 0 then Some s1
      else (let s2 = pmm_recompute_totals (s1\<lparr>g_pmm_ready := True\<rparr>) in
        Option.bind (pmm_reserve_kernel_image bi s2) (\<lambda>s3.
        Option.bind (pmm_reserve_multiboot2_info bi s3) (\<lambda>s4. Some (snd (pmm_selftest (pmm_resync_free_count s4)))))))"
  using assms(1) [unfolded boot_map_ok_def] mmap_walk [OF assms(1), of "init_entry bi (mb2_end_of bi m)" "(pmm_reset_state s, 0)"] assms(3)
  unfolding pmm_bitmap_init_def Let_def by (simp add: assms(2) mb2_end_of_def not_less [symmetric])

text \<open>The regions that the walk has built decide what is managed, and what is free but for the reservations.\<close>

lemma bitmap_init_regions:
  assumes boot: "boot_map_ok bi m tag" "g_mem s = m" and len: "length (g_regions s) = PMM_MAX_REGIONS"
    and f: "fold_entries (init_entry bi (mb2_end_of bi m)) (mmap_ptrs m tag) (pmm_reset_state s, 0) = (s1, added)" and "added \<noteq> 0"
  shows "\<exists>s'. pmm_bitmap_init bi s = Some s' \<and> bm_ok s' \<and> bm_managed s' = (\<Union>i < g_region_count s1. region_managed (region_at s1 i)) \<and>
    bm_free s' = (\<Union>i < g_region_count s1. region_free_set (region_at s1 i)) -
      touched_pages (kernel_phys_start bi) (kernel_phys_end bi) - touched_pages (g_mb2_info bi) (mb2_end_of bi m)"
proof -
  note B = boot(1) [unfolded boot_map_ok_def]
  have bld: "building bi m (mmap_ptrs m tag) s1"
    using fold_entries_building [OF reset_building [OF len, of bi, unfolded boot(2)], of "mmap_ptrs m tag"] B f
    by (auto simp: list_all_iff)
  have "g_region_count s1 = added" using fold_entries_count [OF _ f] boot(2) by (auto simp: pmm_reset_state_def)
  then have pos: "0 < g_region_count s1" using assms(5) by simp
  define s2 where "s2 = pmm_recompute_totals (s1\<lparr>g_pmm_ready := True\<rparr>)"
  note rc = recompute_core [OF bld pos, folded s2_def]
  have ok2: "bm_ok s2" by (rule rc(1))
  have man: "bm_managed s2 = (\<Union>i < g_region_count s1. region_managed (region_at s1 i))"
    "bm_free s2 = (\<Union>i < g_region_count s1. region_free_set (region_at s1 i))"
    using ok2 rc(2,3) by (simp_all add: bm_managed_def bm_free_def bm_ok_def)
  obtain s3 where s3: "pmm_reserve_kernel_image bi s2 = Some s3" "bm_ok s3" "bm_managed s3 = bm_managed s2"
    "bm_free s3 = bm_free s2 - touched_pages (kernel_phys_start bi) (kernel_phys_end bi)" "g_mem s3 = g_mem s2"
  proof (cases "kernel_phys_start bi < kernel_phys_end bi")
    case True
    then show ?thesis
      using that mark_used_range [OF ok2, of "kernel_phys_start bi" "kernel_phys_end bi"]
      by (auto simp: pmm_reserve_kernel_image_def)
  next
    case False
    then have "pmm_reserve_kernel_image bi s2 = Some s2" by (simp add: pmm_reserve_kernel_image_def)
    moreover have "touched_pages (kernel_phys_start bi) (kernel_phys_end bi) = {}"
      using False by (simp add: touched_pages_def not_less)
    ultimately show ?thesis using that [of s2] ok2 by simp
  qed
  have mem3: "g_mem s3 = m" using s3(5) rc(4) by simp
  obtain s4 where s4: "pmm_reserve_multiboot2_info bi s3 = Some s4" "bm_ok s4" "bm_managed s4 = bm_managed s3"
    "bm_free s4 = bm_free s3 - touched_pages (g_mb2_info bi) (mb2_end_of bi m)"
    using mark_used_range [OF s3(2), of "g_mb2_info bi" "mb2_end_of bi m"] mem3
    by (auto simp: pmm_reserve_multiboot2_info_def Let_def mb2_end_of_def)
  have rs: "pmm_resync_free_count s4 = s4" using s4(2) by (intro resync_id) (simp add: bm_ok_def)
  obtain res s5 where s5: "pmm_selftest s4 = (res, s5)" by (cases "pmm_selftest s4")
  note st = selftest_ok [OF s4(2) s5]
  have "pmm_bitmap_init bi s = Some s5"
    using bitmap_init_run [OF boot f] assms(5) pos s3(1) s4(1) rs s5 by (simp add: s2_def [symmetric] Let_def)
  then show ?thesis using st s4 s3 man by simp
qed

lemma bitmap_init:
  assumes "boot_map_ok bi (g_mem s) tag" "length (g_regions s) = PMM_MAX_REGIONS"
  shows "\<exists>s'. pmm_bitmap_init bi s = Some s' \<and> bm_inv s' \<and>
    (g_pmm_ready s' \<longleftrightarrow> (\<exists>p \<in> set (mmap_ptrs (g_mem s) tag). entry_accepted bi (g_mem s) p)) \<and>
    bm_free s' \<inter> touched_pages (kernel_phys_start bi) (kernel_phys_end bi) = {} \<and>
    bm_free s' \<inter> touched_pages (g_mb2_info bi) (mb2_end_of bi (g_mem s)) = {} \<and>
    (\<forall>a \<in> bm_managed s'. \<exists>p \<in> set (mmap_ptrs (g_mem s) tag). in_entry (g_mem s) p {a})"
proof -
  define m where "m = g_mem s"
  note boot = assms(1) [folded m_def]
  obtain s1 added where f: "fold_entries (init_entry bi (mb2_end_of bi m)) (mmap_ptrs m tag) (pmm_reset_state s, 0) = (s1, added)" by fastforce
  have bld: "building bi m (mmap_ptrs m tag) s1"
    using fold_entries_building [OF reset_building [OF assms(2), of bi, folded m_def], of "mmap_ptrs m tag"] boot [unfolded boot_map_ok_def] f
    by (auto simp: list_all_iff)
  have cnt: "g_region_count s1 = added" "(0 < added) = (\<exists>p \<in> set (mmap_ptrs m tag). entry_accepted bi m p)"
    using fold_entries_count [OF _ f] by (auto simp: pmm_reset_state_def m_def PMM_MAX_REGIONS_def)
  show ?thesis
  proof (cases "added = 0")
    case True
    have "\<not> g_pmm_ready s1" using bld by (simp add: building_def)
    then show ?thesis
      using True bitmap_init_run [OF boot m_def [symmetric] f] cnt unfolding m_def [symmetric]
      by (simp add: bm_inv_def bm_free_def bm_managed_def)
  next
    case False
    from bitmap_init_regions [OF boot m_def [symmetric] assms(2) f this] obtain s5 where s5: "pmm_bitmap_init bi s = Some s5" "bm_ok s5"
      "bm_managed s5 = (\<Union>i < g_region_count s1. region_managed (region_at s1 i))"
      "bm_free s5 = (\<Union>i < g_region_count s1. region_free_set (region_at s1 i)) -
        touched_pages (kernel_phys_start bi) (kernel_phys_end bi) - touched_pages (g_mb2_info bi) (mb2_end_of bi m)" by blast
    have "\<forall>a \<in> bm_managed s5. \<exists>p \<in> set (mmap_ptrs m tag). in_entry m p {a}"
      using bld s5(3) unfolding building_def by (fastforce simp: in_entry_def)
    moreover have "\<exists>p \<in> set (mmap_ptrs m tag). entry_accepted bi m p" using False cnt by simp
    moreover have "bm_inv s5" "g_pmm_ready s5" using s5(2) by (simp_all add: bm_ok_def bm_inv_def)
    ultimately show ?thesis using s5(1,4) unfolding m_def [symmetric] by blast
  qed
qed

section \<open>Properties\<close>

lemma sample_boot_ok: "boot_map_ok sample_boot sample_boot_mem 0xC0009008"
proof -
  have m: "rd32 sample_boot_mem 0xC0009000 = 0x38" "rd32 sample_boot_mem 0xC0009008 = 6"
    "rd32 sample_boot_mem 0xC000900C = 40" "rd32 sample_boot_mem 0xC0009010 = 24"
    by (simp_all add: sample_boot_mem_def rd32_def wr32_def)
  have "mb2_find_tag sample_boot_mem 0xC0009000 0x38 6 = Some (MB2_FIND_OK 0xC0009008)"
    by (simp add: mb2_find_tag_def, subst mb2_find_loop.simps)
      (simp add: tag_type_def tag_size_def m MB2_TAG_TYPE_END_def)
  moreover have "mmap_ptrs sample_boot_mem 0xC0009008 = [0xC0009018]"
    by (simp add: mmap_ptrs_def mmap_entry_size_def tag_size_def m entry_ptrs_def)
  moreover have "entry_usable sample_boot_mem 0xC0009018 = Some (0x100000, 0x200000)"
    by (simp add: entry_usable_def entry_type_def entry_addr_def entry_len_def rd64_def
        sample_boot_mem_def rd32_def wr32_def u64_add_sat_def Let_def PMM_ONE_MIB_def)
  ultimately show ?thesis
    by (simp add: boot_map_ok_def sample_boot_def PHYS_TO_VIRT_def KERNEL_VIRT_OFFSET_def m
        MB2_TAG_TYPE_MMAP_def mmap_entry_size_def tag_size_def entry_below_top_def mb2_end_of_def)
qed



text \<open>The self-test always passes on a consistent allocator with at least four free pages, and it
  leaves the set of free pages as it found it.\<close>

theorem bitmap_selftest_passes:
  assumes "bm_ok s" "4 \<le> g_pmm_total_free s"
  shows "fst (pmm_selftest s) = Passed \<and> bm_ok (snd (pmm_selftest s)) \<and> bm_free (snd (pmm_selftest s)) = bm_free s"
proof -
  have "card (bm_free s) \<le> card (bm_managed s)"
    using bm.free_managed [of s] assms(1) by (intro card_mono) (auto simp: bm_ok_def bm_inv_def)
  then have "g_pmm_total_pages s \<noteq> 0"
    using assms card_bm_free_unat [OF assms(1)] card_bm_managed [of s]
    by (auto simp: bm_ok_def bm_managed_def word_le_nat_alt)
  then show ?thesis
    using selftest_ok [OF assms(1) prod.collapse [symmetric]] assms(2)
    by (simp add: not_less [symmetric])
qed

theorem bitmap_selftest_passes_witness: "fst (pmm_selftest sample_bitmap) = Passed"
proof -
  have "bm_ok sample_bitmap" using sample_bitmap_core sample_bitmap_inv by (simp add: bm_ok_def)
  moreover have "4 \<le> g_pmm_total_free sample_bitmap" by (simp add: sample_bitmap_def)
  ultimately show ?thesis using bitmap_selftest_passes by blast
qed

text \<open>Near the top of the address space the layout computation wraps around: for a usable range that
  starts in the last page below 4 GiB, off a page boundary, \<open>align_up_u32\<close> yields 0 and the
  region accepted runs from address 0, over the kernel image.\<close>

theorem layout_wraps_to_zero:
  "map_option (\<lambda>L. (l_managed_start L, l_managed_end L))
     (pmm_compute_region_layout 0xFFFFF800 0xFFFFFFFF 0x100000 0x200000 0x300000 0x301000) =
   Some (0, 0xFFFFF000)"
  by code_simp

end
