(* ===== verification/Ring_List.thy ===== *)
theory Ring_List
  imports Main
begin

text \<open>
  Intrusive circular doubly-linked lists with a sentinel head, as \<open>pmm_buddy.c\<close> keeps its free
  lists: the fields \<open>next\<close> and \<open>prev\<close> are functions from node references, \<open>ring nx pv h xs\<close> says
  that following them from the sentinel \<open>h\<close> visits \<open>xs\<close> and comes back, both ways round.
\<close>

fun chain :: "('n \<Rightarrow> 'n) \<Rightarrow> ('n \<Rightarrow> 'n) \<Rightarrow> 'n list \<Rightarrow> bool" where
  "chain nx pv (a # b # l) \<longleftrightarrow> nx a = b \<and> pv b = a \<and> chain nx pv (b # l)"
| "chain nx pv _ \<longleftrightarrow> True"

definition ring :: "('n \<Rightarrow> 'n) \<Rightarrow> ('n \<Rightarrow> 'n) \<Rightarrow> 'n \<Rightarrow> 'n list \<Rightarrow> bool" where
  "ring nx pv h xs \<longleftrightarrow> distinct (h # xs) \<and> chain nx pv (h # xs @ [h])"

lemma chain_append: "chain nx pv (l @ x # r) \<longleftrightarrow> chain nx pv (l @ [x]) \<and> chain nx pv (x # r)"
proof (induction l)
  case (Cons a l)
  then show ?case by (cases l) auto
qed simp

text \<open>A chain reads \<open>next\<close> of all nodes but the last and \<open>prev\<close> of all but the first.\<close>

lemma chain_cong:
  "(\<And>x. x \<in> set (butlast l) \<Longrightarrow> nx x = nx' x) \<Longrightarrow> (\<And>x. x \<in> set (tl l) \<Longrightarrow> pv x = pv' x) \<Longrightarrow>
   chain nx pv l \<longleftrightarrow> chain nx' pv' l"
proof (induction l)
  case (Cons a l)
  show ?case
  proof (cases l)
    case (Cons b r)
    have "nx a = nx' a" "pv b = pv' b" using Cons.prems Cons by simp_all
    moreover have "chain nx pv l \<longleftrightarrow> chain nx' pv' l"
      using Cons.prems Cons by (intro Cons.IH) (auto split: if_splits)
    ultimately show ?thesis using Cons by simp
  qed simp
qed simp

lemma ring_cong:
  assumes "\<And>x. x \<in> set (h # xs) \<Longrightarrow> nx x = nx' x" "\<And>x. x \<in> set (h # xs) \<Longrightarrow> pv x = pv' x"
  shows "ring nx pv h xs \<longleftrightarrow> ring nx' pv' h xs"
proof -
  have "chain nx pv (h # xs @ [h]) \<longleftrightarrow> chain nx' pv' (h # xs @ [h])"
    using assms by (intro chain_cong) (auto split: if_splits)
  then show ?thesis by (simp add: ring_def)
qed

lemma ring_Nil: "ring nx pv h [] \<longleftrightarrow> nx h = h \<and> pv h = h"
  by (auto simp: ring_def)

lemma ring_empty_iff: "ring nx pv h xs \<Longrightarrow> nx h = h \<longleftrightarrow> xs = []"
  by (cases xs) (auto simp: ring_def)

lemma ring_first: "ring nx pv h (x # xs) \<Longrightarrow> nx h = x"
  by (simp add: ring_def)

lemma ring_pv_head:
  assumes "ring nx pv h xs"
  shows "pv h = last (h # xs)"
proof (cases xs rule: rev_cases)
  case Nil
  then show ?thesis using assms by (simp add: ring_Nil)
next
  case (snoc ys y)
  then have "chain nx pv ((h # ys) @ y # [h])" using assms by (simp add: ring_def)
  then have "chain nx pv (y # [h])" by (rule iffD1 [OF chain_append, THEN conjunct2])
  with snoc show ?thesis by simp
qed

lemma ring_add_tail:
  assumes "ring nx pv h xs" "n \<noteq> h" "n \<notin> set xs"
  shows "ring (nx(n := h, pv h := n)) (pv(n := pv h, h := n)) h (xs @ [n])"
proof -
  define p where "p = last (h # xs)"
  have p: "pv h = p" unfolding p_def by (rule ring_pv_head [OF assms(1)])
  define L where "L = butlast (h # xs)"
  have L: "h # xs = L @ [p]" unfolding p_def L_def by (metis append_butlast_last_id list.discI)
  have "distinct (h # xs)" and c: "chain nx pv ((h # xs) @ [h])" using assms(1) by (simp_all add: ring_def)
  then have d: "distinct (L @ [p])" and cL: "chain nx pv (L @ [p])"
    unfolding L using chain_append [of nx pv L p "[h]"] by simp_all
  have "n \<notin> set (h # xs)" using assms(2,3) by simp
  then have ne: "n \<notin> set (L @ [p])" unfolding L .
  have "hd (L @ [p]) = h" by (simp flip: L)
  then have h: "h \<notin> set (tl (L @ [p]))" using d by (cases L) auto
  let ?nx = "nx(n := h, p := n)" and ?pv = "pv(n := p, h := n)"
  have "chain ?nx ?pv (L @ [p]) \<longleftrightarrow> chain nx pv (L @ [p])"
    using d ne h by (intro chain_cong) (auto dest: list.set_sel(2) [rotated])
  moreover have "chain ?nx ?pv [p, n, h]" using ne assms(2) by simp
  ultimately have "chain ?nx ?pv (L @ p # [n, h])" using cL chain_append [of ?nx ?pv L p "[n, h]"] by simp
  moreover have "L @ p # [n, h] = h # (xs @ [n]) @ [h]" using arg_cong [OF L, of "\<lambda>l. l @ [n, h]"] by simp
  moreover have "distinct (h # xs @ [n])" using assms by (simp add: ring_def)
  ultimately show ?thesis unfolding p ring_def by simp
qed

text \<open>The neighbours of a node are in the ring.\<close>

lemma ring_neighbours:
  assumes "ring nx pv h (a @ n # b)"
  shows "pv n = last (h # a)" "nx n = hd (b @ [h])"
proof -
  define p where "p = last (h # a)"
  define q where "q = hd (b @ [h])"
  have L: "h # a = butlast (h # a) @ [p]" unfolding p_def by (metis append_butlast_last_id list.discI)
  have R: "b @ [h] = q # tl (b @ [h])" unfolding q_def by simp
  have "chain nx pv ((h # a) @ n # (b @ [h]))" using assms by (simp add: ring_def)
  then have "chain nx pv (butlast (h # a) @ p # n # q # tl (b @ [h]))"
    by (subst (asm) L, subst (asm) R) simp
  then have "chain nx pv (p # n # q # tl (b @ [h]))"
    by (rule iffD1 [OF chain_append, THEN conjunct2])
  then have "pv n = p" "nx n = q" by simp_all
  then show "pv n = last (h # a)" "nx n = hd (b @ [h])" by (simp_all only: p_def q_def)
qed

lemma last_not_butlast: "distinct xs \<Longrightarrow> xs \<noteq> [] \<Longrightarrow> x \<in> set (butlast xs) \<Longrightarrow> x \<noteq> last xs"
  by (cases xs rule: rev_cases) auto

lemma hd_not_tl: "distinct xs \<Longrightarrow> x \<in> set (tl xs) \<Longrightarrow> x \<noteq> hd xs"
  by (cases xs) auto

lemma ring_del:
  assumes "ring nx pv h (a @ n # b)"
  shows "ring (nx(pv n := nx n, n := n)) (pv(nx n := pv n, n := n)) h (a @ b)"
proof -
  define p where "p = last (h # a)"
  define q where "q = hd (b @ [h])"
  have L: "h # a = butlast (h # a) @ [p]" unfolding p_def by (metis append_butlast_last_id list.discI)
  have R: "b @ [h] = q # tl (b @ [h])" unfolding q_def by simp
  have c: "chain nx pv ((h # a) @ n # (b @ [h]))" using assms by (simp add: ring_def)
  have "distinct (h # a @ n # b)" using assms by (simp add: ring_def)
  then have d: "distinct (h # a)" "distinct (b @ [h])" "h \<noteq> n" "n \<notin> set a" "n \<notin> set b" "set a \<inter> set b = {}" by auto
  have pin: "p \<in> insert h (set a)" by (simp add: p_def)
  have qin: "q \<in> insert h (set b)" unfolding q_def by (cases b) auto
  have c2: "chain nx pv (butlast (h # a) @ p # n # q # tl (b @ [h]))"
    using c by (subst (asm) L, subst (asm) R) simp
  then have pnq: "chain nx pv (butlast (h # a) @ [p]) \<and> chain nx pv (p # n # q # tl (b @ [h]))"
    by (rule iffD1 [OF chain_append])
  then have pq: "pv n = p" "nx n = q" and "chain nx pv (butlast (h # a) @ [p])" "chain nx pv (q # tl (b @ [h]))"
    by simp_all
  then have cL: "chain nx pv (h # a)" and cR: "chain nx pv (b @ [h])"
    unfolding L [symmetric] R [symmetric] by blast+
  let ?nx = "nx(p := q, n := n)" and ?pv = "pv(q := p, n := n)"
  have bl: "x \<noteq> p \<and> x \<noteq> n" if "x \<in> set (butlast (h # a))" for x
    using last_not_butlast [OF d(1) _ that] in_set_butlastD [OF that] d(3,4) by (auto simp: p_def)
  have "chain ?nx ?pv (h # a) \<longleftrightarrow> chain nx pv (h # a)"
    using bl qin d by (intro chain_cong) auto
  moreover have tr: "x \<noteq> q \<and> x \<noteq> n" if "x \<in> set (tl (b @ [h]))" for x
    using hd_not_tl [OF d(2) that] list.set_sel(2) [OF _ that] d(3,5) by (auto simp: q_def)
  then have "chain ?nx ?pv (b @ [h]) \<longleftrightarrow> chain nx pv (b @ [h])"
    using pin d by (intro chain_cong) auto
  moreover have "?nx p = q" "?pv q = p" using pin qin d(3-5) by auto
  ultimately have "chain ?nx ?pv (butlast (h # a) @ [p])" and "chain ?nx ?pv (q # tl (b @ [h]))"
    and "?nx p = q" "?pv q = p"
    using cL cR unfolding L [symmetric] R [symmetric] by blast+
  moreover from this have "chain ?nx ?pv (p # q # tl (b @ [h]))" by (simp only: chain.simps)
  ultimately have "chain ?nx ?pv (butlast (h # a) @ p # q # tl (b @ [h]))"
    by (simp only: chain_append [of ?nx ?pv "butlast (h # a)" p "q # tl (b @ [h])"])
  moreover have "butlast (h # a) @ p # q # tl (b @ [h]) = h # (a @ b) @ [h]"
    using arg_cong2 [OF L R, of append] by simp
  moreover have "distinct (h # a @ b)" using assms by (simp add: ring_def)
  ultimately show ?thesis unfolding pq ring_def by simp
qed

end
