(* ===== verification/Pmm_Buddy.thy ===== *)
theory Pmm_Buddy
  imports Pmm Ring_List
begin

text \<open>
  The buddy back-end \<open>pmm_buddy.c\<close>, its run-time half: free blocks of \<open>2\<^sup>o\<close> pages on one intrusive
  circular list per order, allocation by splitting, release by merging with the buddy. The nodes
  of the lists live in the page table entries (\<open>Pg i\<close>) and in the array of sentinels (\<open>Head o\<close>),
  so the pointers of the C code are node references.
\<close>

section \<open>State\<close>

definition BUDDY_MAX_ORDER :: nat where "BUDDY_MAX_ORDER = 10"
definition PAGE_SIZE :: u32 where "PAGE_SIZE = 4096"

datatype nref = Null | Head nat | Pg nat

record free_node =
  fn_prev :: nref
  fn_next :: nref

record page_info =
  pi_node :: free_node
  pi_order :: u8
  pi_is_free :: u8

record buddy_zone =
  z_base_phys :: u32
  z_total_pages :: u32
  z_pages :: "page_info list"
  z_free_list :: "free_node list"
  z_free_count :: "u32 list"
  z_total_free :: u32

record buddy_state =
  g_zone :: buddy_zone
  g_buddy_ready :: bool
  b_mem :: memory

section \<open>The list operations\<close>

text \<open>Reading and writing the fields of a node through a pointer.\<close>

fun get_node :: "buddy_zone \<Rightarrow> nref \<Rightarrow> free_node" where
  "get_node z Null = \<lparr>fn_prev = Null, fn_next = Null\<rparr>"
| "get_node z (Head h) = z_free_list z ! h"
| "get_node z (Pg i) = pi_node (z_pages z ! i)"

fun set_node :: "nref \<Rightarrow> free_node \<Rightarrow> buddy_zone \<Rightarrow> buddy_zone" where
  "set_node Null n z = z"
| "set_node (Head h) n z = z\<lparr>z_free_list := (z_free_list z)[h := n]\<rparr>"
| "set_node (Pg i) n z = z\<lparr>z_pages := (z_pages z)[i := (z_pages z ! i)\<lparr>pi_node := n\<rparr>]\<rparr>"

definition nprev :: "buddy_zone \<Rightarrow> nref \<Rightarrow> nref" where "nprev z r = fn_prev (get_node z r)"
definition nnext :: "buddy_zone \<Rightarrow> nref \<Rightarrow> nref" where "nnext z r = fn_next (get_node z r)"

definition set_prev :: "nref \<Rightarrow> nref \<Rightarrow> buddy_zone \<Rightarrow> buddy_zone" where
  "set_prev r v z = set_node r ((get_node z r)\<lparr>fn_prev := v\<rparr>) z"

definition set_next :: "nref \<Rightarrow> nref \<Rightarrow> buddy_zone \<Rightarrow> buddy_zone" where
  "set_next r v z = set_node r ((get_node z r)\<lparr>fn_next := v\<rparr>) z"

definition list_init :: "nref \<Rightarrow> buddy_zone \<Rightarrow> buddy_zone" where
  "list_init head z = set_next head head (set_prev head head z)"

definition list_empty :: "nref \<Rightarrow> buddy_zone \<Rightarrow> bool" where
  "list_empty head z \<longleftrightarrow> nnext z head = head"

definition list_add_tail :: "nref \<Rightarrow> nref \<Rightarrow> buddy_zone \<Rightarrow> buddy_zone" where
  "list_add_tail node head z =
     (let z1 = set_prev node (nprev z head) z;
          z2 = set_next node head z1;
          z3 = set_next (nprev z2 head) node z2
      in set_prev head node z3)"

definition list_del :: "nref \<Rightarrow> buddy_zone \<Rightarrow> buddy_zone" where
  "list_del node z =
     (let z1 = set_next (nprev z node) (nnext z node) z;
          z2 = set_prev (nnext z1 node) (nprev z1 node) z1;
          z3 = set_prev node node z2
      in set_next node node z3)"

definition list_pop :: "nref \<Rightarrow> buddy_zone \<Rightarrow> nref \<times> buddy_zone" where
  "list_pop head z =
     (if list_empty head z then (Null, z)
      else (let node = nnext z head in (node, list_del node z)))"

section \<open>Indices and addresses\<close>

text \<open>The pointer difference \<open>p - g_zone.pages\<close> of the page whose first field is the node.\<close>

fun page_index :: "nref \<Rightarrow> u32" where
  "page_index (Pg i) = of_nat i"
| "page_index _ = 0"

definition index_to_page :: "u32 \<Rightarrow> nref" where "index_to_page idx = Pg (unat idx)"

definition index_to_phys :: "buddy_zone \<Rightarrow> u32 \<Rightarrow> u32" where
  "index_to_phys z idx = z_base_phys z + idx * PAGE_SIZE"

definition phys_to_index :: "buddy_zone \<Rightarrow> u32 \<Rightarrow> u32" where
  "phys_to_index z phys = (phys - z_base_phys z) div PAGE_SIZE"

definition calc_buddy_index :: "u32 \<Rightarrow> nat \<Rightarrow> u32" where
  "calc_buddy_index idx order = idx XOR push_bit order 1"

text \<open>Assignments to \<open>p->order\<close> and \<open>p->is_free\<close>.\<close>

definition set_order :: "u32 \<Rightarrow> u8 \<Rightarrow> buddy_zone \<Rightarrow> buddy_zone" where
  "set_order idx v z = z\<lparr>z_pages := (z_pages z)[unat idx := (z_pages z ! unat idx)\<lparr>pi_order := v\<rparr>]\<rparr>"

definition set_is_free :: "u32 \<Rightarrow> u8 \<Rightarrow> buddy_zone \<Rightarrow> buddy_zone" where
  "set_is_free idx v z = z\<lparr>z_pages := (z_pages z)[unat idx := (z_pages z ! unat idx)\<lparr>pi_is_free := v\<rparr>]\<rparr>"

section \<open>Free blocks\<close>

definition buddy_add_free :: "u32 \<Rightarrow> nat \<Rightarrow> buddy_zone \<Rightarrow> buddy_zone" where
  "buddy_add_free idx order z =
     (let z1 = set_order idx (of_nat order) z;
          z2 = set_is_free idx 1 z1;
          z3 = list_add_tail (index_to_page idx) (Head order) z2
      in z3\<lparr>z_free_count := (z_free_count z3)[order := z_free_count z3 ! order + 1],
            z_total_free := z_total_free z3 + push_bit order 1\<rparr>)"

definition buddy_remove_free :: "u32 \<Rightarrow> nat \<Rightarrow> buddy_zone \<Rightarrow> buddy_zone" where
  "buddy_remove_free idx order z =
     (let z1 = list_del (index_to_page idx) z;
          z2 = set_is_free idx 0 z1
      in z2\<lparr>z_free_count := (z_free_count z2)[order := z_free_count z2 ! order - 1],
            z_total_free := z_total_free z2 - push_bit order 1\<rparr>)"

function find_order :: "buddy_zone \<Rightarrow> nat \<Rightarrow> nat" where
  "find_order z cur =
     (if cur \<le> BUDDY_MAX_ORDER then (if \<not> list_empty (Head cur) z then cur else find_order z (cur + 1))
      else cur)"
  by pat_completeness auto
termination by (relation "measure (\<lambda>(z, cur). Suc BUDDY_MAX_ORDER - cur)") auto

text \<open>\<open>while (cur > order) { cur--; buddy_add_free(idx + (1u << cur), cur); }\<close>\<close>

function split_block :: "u32 \<Rightarrow> nat \<Rightarrow> nat \<Rightarrow> buddy_zone \<Rightarrow> buddy_zone" where
  "split_block idx order cur z =
     (if order < cur then
        (let cur' = cur - 1; buddy_idx = idx + push_bit cur' 1 in
         split_block idx order cur' (buddy_add_free buddy_idx cur' z))
      else z)"
  by pat_completeness auto
termination by (relation "measure (\<lambda>(idx, order, cur, z). cur)") auto

definition buddy_alloc :: "nat \<Rightarrow> buddy_zone \<Rightarrow> u32 \<times> buddy_zone" where
  "buddy_alloc order z =
     (let cur = find_order z order in
      if BUDDY_MAX_ORDER < cur then (- 1, z)
      else
        (case list_pop (Head cur) z of (node, z1) \<Rightarrow>
           (let idx = page_index node;
                z2 = set_is_free idx 0 z1;
                z3 = z2\<lparr>z_free_count := (z_free_count z2)[cur := z_free_count z2 ! cur - 1],
                        z_total_free := z_total_free z2 - push_bit cur 1\<rparr>;
                z4 = split_block idx order cur z3
            in (idx, set_order idx (of_nat order) z4))))"

text \<open>The merge loop; the block that results is put on its free list.\<close>

function buddy_free :: "u32 \<Rightarrow> nat \<Rightarrow> buddy_zone \<Rightarrow> buddy_zone" where
  "buddy_free idx order z =
     (if order < BUDDY_MAX_ORDER then
        (let bi = calc_buddy_index idx order in
         if z_total_pages z \<le> bi then buddy_add_free idx order z
         else
           (let buddy = z_pages z ! unat bi in
            if pi_is_free buddy = 0 \<or> pi_order buddy \<noteq> of_nat order then buddy_add_free idx order z
            else buddy_free (idx AND NOT (push_bit order 1)) (order + 1) (buddy_remove_free bi order z)))
      else buddy_add_free idx order z)"
  by pat_completeness auto
termination by (relation "measure (\<lambda>(idx, order, z). BUDDY_MAX_ORDER - order)") auto

section \<open>The operations of the table\<close>

definition pmm_buddy_alloc_page :: "buddy_state \<Rightarrow> u32 \<times> buddy_state" where
  "pmm_buddy_alloc_page s =
     (if \<not> g_buddy_ready s then (0, s)
      else if z_total_free (g_zone s) = 0 then (0, s)
      else
        (case buddy_alloc 0 (g_zone s) of (idx, z) \<Rightarrow>
           (if idx = - 1 then 0 else index_to_phys z idx, s\<lparr>g_zone := z\<rparr>)))"

definition pmm_buddy_free_page :: "u32 \<Rightarrow> buddy_state \<Rightarrow> buddy_state" where
  "pmm_buddy_free_page page s =
     (if \<not> g_buddy_ready s \<or> page = 0 then s
      else if page AND (PAGE_SIZE - 1) \<noteq> 0 then s
      else if page < z_base_phys (g_zone s) then s
      else
        (let idx = phys_to_index (g_zone s) page in
         if z_total_pages (g_zone s) \<le> idx then s
         else
           (let pg = z_pages (g_zone s) ! unat idx in
            if pi_is_free pg \<noteq> 0 then s
            else s\<lparr>g_zone := buddy_free idx (unat (pi_order pg)) (g_zone s)\<rparr>)))"

definition pmm_buddy_total_pages :: "buddy_state \<Rightarrow> u32" where
  "pmm_buddy_total_pages s = (if g_buddy_ready s then z_total_pages (g_zone s) else 0)"

definition pmm_buddy_free_pages :: "buddy_state \<Rightarrow> u32" where
  "pmm_buddy_free_pages s = (if g_buddy_ready s then z_total_free (g_zone s) else 0)"

definition pmm_buddy_managed_base :: "buddy_state \<Rightarrow> u32" where
  "pmm_buddy_managed_base s = (if g_buddy_ready s then z_base_phys (g_zone s) else 0)"

definition pmm_buddy_page_addr :: "buddy_state \<Rightarrow> u32 \<Rightarrow> u32" where
  "pmm_buddy_page_addr s pidx =
     (if \<not> g_buddy_ready s \<or> z_total_pages (g_zone s) \<le> pidx then 0
      else index_to_phys (g_zone s) pidx)"

definition pmm_buddy_page_is_used :: "buddy_state \<Rightarrow> u32 \<Rightarrow> int" where
  "pmm_buddy_page_is_used s pidx =
     (if \<not> g_buddy_ready s then - 1
      else if z_total_pages (g_zone s) \<le> pidx then - 1
      else if pi_is_free (z_pages (g_zone s) ! unat pidx) \<noteq> 0 then 0 else 1)"

declare find_order.simps [simp del] split_block.simps [simp del] buddy_free.simps [simp del]

section \<open>The fields as functions\<close>

fun vref :: "buddy_zone \<Rightarrow> nref \<Rightarrow> bool" where
  "vref z Null = False"
| "vref z (Head h) = (h < length (z_free_list z))"
| "vref z (Pg i) = (i < length (z_pages z))"

definition ord :: "buddy_zone \<Rightarrow> nat \<Rightarrow> nat" where "ord z i = unat (pi_order (z_pages z ! i))"
definition isf :: "buddy_zone \<Rightarrow> nat \<Rightarrow> bool" where "isf z i \<longleftrightarrow> pi_is_free (z_pages z ! i) \<noteq> 0"

named_theorems zone_simps \<open>what each assignment leaves alone\<close>

lemma get_set_node: "vref z r \<Longrightarrow> get_node (set_node r n z) r' = (if r' = r then n else get_node z r')"
  by (cases r; cases r') (auto simp: nth_list_update)

lemma set_node_frame [zone_simps]:
  "z_base_phys (set_node r n z) = z_base_phys z" "z_total_pages (set_node r n z) = z_total_pages z"
  "length (z_pages (set_node r n z)) = length (z_pages z)" "length (z_free_list (set_node r n z)) = length (z_free_list z)"
  "z_free_count (set_node r n z) = z_free_count z" "z_total_free (set_node r n z) = z_total_free z"
  "ord (set_node r n z) = ord z" "isf (set_node r n z) = isf z" "vref (set_node r n z) = vref z"
proof -
  have "pi_order (z_pages (set_node r n z) ! j) = pi_order (z_pages z ! j)"
    "pi_is_free (z_pages (set_node r n z) ! j) = pi_is_free (z_pages z ! j)" for j
    by (cases r; simp add: nth_update_field [of pi_order "pi_node_update (\<lambda>_. n)"]
      nth_update_field [of pi_is_free "pi_node_update (\<lambda>_. n)"])+
  then show "ord (set_node r n z) = ord z" "isf (set_node r n z) = isf z"
    by (simp_all add: fun_eq_iff ord_def isf_def)
  show "vref (set_node r n z) = vref z" (is "?l = ?r")
  proof
    fix x show "?l x = ?r x" by (cases r; cases x) simp_all
  qed
qed (cases r; simp)+

lemma set_link_frame [zone_simps]:
  "z_base_phys (set_next r v z) = z_base_phys z" "z_total_pages (set_next r v z) = z_total_pages z"
  "length (z_pages (set_next r v z)) = length (z_pages z)" "length (z_free_list (set_next r v z)) = length (z_free_list z)"
  "z_free_count (set_next r v z) = z_free_count z" "z_total_free (set_next r v z) = z_total_free z"
  "ord (set_next r v z) = ord z" "isf (set_next r v z) = isf z" "vref (set_next r v z) = vref z"
  "z_base_phys (set_prev r v z) = z_base_phys z" "z_total_pages (set_prev r v z) = z_total_pages z"
  "length (z_pages (set_prev r v z)) = length (z_pages z)" "length (z_free_list (set_prev r v z)) = length (z_free_list z)"
  "z_free_count (set_prev r v z) = z_free_count z" "z_total_free (set_prev r v z) = z_total_free z"
  "ord (set_prev r v z) = ord z" "isf (set_prev r v z) = isf z" "vref (set_prev r v z) = vref z"
  by (simp_all add: set_next_def set_prev_def zone_simps)

lemma links_set:
  assumes "vref z r"
  shows "nnext (set_next r v z) = (nnext z)(r := v)" "nprev (set_next r v z) = nprev z"
    "nprev (set_prev r v z) = (nprev z)(r := v)" "nnext (set_prev r v z) = nnext z"
  using assms by (auto simp: fun_eq_iff nnext_def nprev_def set_next_def set_prev_def get_set_node)

lemma list_op_frame [zone_simps]:
  "z_base_phys (list_add_tail n h z) = z_base_phys z" "z_total_pages (list_add_tail n h z) = z_total_pages z"
  "length (z_pages (list_add_tail n h z)) = length (z_pages z)"
  "length (z_free_list (list_add_tail n h z)) = length (z_free_list z)"
  "z_free_count (list_add_tail n h z) = z_free_count z" "z_total_free (list_add_tail n h z) = z_total_free z"
  "ord (list_add_tail n h z) = ord z" "isf (list_add_tail n h z) = isf z"
  "z_base_phys (list_del n z) = z_base_phys z" "z_total_pages (list_del n z) = z_total_pages z"
  "length (z_pages (list_del n z)) = length (z_pages z)"
  "length (z_free_list (list_del n z)) = length (z_free_list z)"
  "z_free_count (list_del n z) = z_free_count z" "z_total_free (list_del n z) = z_total_free z"
  "ord (list_del n z) = ord z" "isf (list_del n z) = isf z"
  by (simp_all add: list_add_tail_def list_del_def Let_def zone_simps)

text \<open>The list operations on the link functions, as \<open>Ring_List\<close> describes them.\<close>

lemma list_add_tail_links:
  assumes "vref z n" "vref z h" "vref z (nprev z h)" "n \<noteq> h"
  shows "nnext (list_add_tail n h z) = (nnext z)(n := h, nprev z h := n)"
    "nprev (list_add_tail n h z) = (nprev z)(n := nprev z h, h := n)"
  using assms by (simp_all add: list_add_tail_def Let_def links_set zone_simps)

lemma list_del_links:
  assumes "vref z n" "vref z (nprev z n)" "vref z (nnext z n)" "nprev z n \<noteq> n" "nnext z n \<noteq> n"
  shows "nnext (list_del n z) = (nnext z)(nprev z n := nnext z n, n := n)"
    "nprev (list_del n z) = (nprev z)(nnext z n := nprev z n, n := n)"
  using assms by (simp_all add: list_del_def Let_def links_set zone_simps)

lemma set_order_frame [zone_simps]:
  "z_base_phys (set_order i v z) = z_base_phys z" "z_total_pages (set_order i v z) = z_total_pages z"
  "length (z_pages (set_order i v z)) = length (z_pages z)" "z_free_list (set_order i v z) = z_free_list z"
  "z_free_count (set_order i v z) = z_free_count z" "z_total_free (set_order i v z) = z_total_free z"
  "isf (set_order i v z) = isf z" "nnext (set_order i v z) = nnext z" "nprev (set_order i v z) = nprev z"
  "vref (set_order i v z) = vref z"
proof -
  have "pi_node (z_pages (set_order i v z) ! j) = pi_node (z_pages z ! j)" for j
    by (simp add: set_order_def nth_update_field [of pi_node "pi_order_update (\<lambda>_. v)"])
  then have g: "get_node (set_order i v z) r = get_node z r" for r
    by (cases r) (simp_all, simp add: set_order_def)
  then show "nnext (set_order i v z) = nnext z" "nprev (set_order i v z) = nprev z"
    by (simp_all add: fun_eq_iff nnext_def nprev_def)
  show "isf (set_order i v z) = isf z"
    by (simp add: fun_eq_iff isf_def set_order_def nth_update_field [of pi_is_free "pi_order_update (\<lambda>_. v)"])
  show "vref (set_order i v z) = vref z" (is "?l = ?r")
  proof
    fix x show "?l x = ?r x" by (cases x) (simp_all add: set_order_def)
  qed
qed (simp_all add: set_order_def)

lemma set_is_free_frame [zone_simps]:
  "z_base_phys (set_is_free i v z) = z_base_phys z" "z_total_pages (set_is_free i v z) = z_total_pages z"
  "length (z_pages (set_is_free i v z)) = length (z_pages z)" "z_free_list (set_is_free i v z) = z_free_list z"
  "z_free_count (set_is_free i v z) = z_free_count z" "z_total_free (set_is_free i v z) = z_total_free z"
  "ord (set_is_free i v z) = ord z" "nnext (set_is_free i v z) = nnext z" "nprev (set_is_free i v z) = nprev z"
  "vref (set_is_free i v z) = vref z"
proof -
  have "pi_node (z_pages (set_is_free i v z) ! j) = pi_node (z_pages z ! j)" for j
    by (simp add: set_is_free_def nth_update_field [of pi_node "pi_is_free_update (\<lambda>_. v)"])
  then have g: "get_node (set_is_free i v z) r = get_node z r" for r
    by (cases r) (simp_all, simp add: set_is_free_def)
  then show "nnext (set_is_free i v z) = nnext z" "nprev (set_is_free i v z) = nprev z"
    by (simp_all add: fun_eq_iff nnext_def nprev_def)
  show "ord (set_is_free i v z) = ord z"
    by (simp add: fun_eq_iff ord_def set_is_free_def nth_update_field [of pi_order "pi_is_free_update (\<lambda>_. v)"])
  show "vref (set_is_free i v z) = vref z" (is "?l = ?r")
  proof
    fix x show "?l x = ?r x" by (cases x) (simp_all add: set_is_free_def)
  qed
qed (simp_all add: set_is_free_def)

lemma count_frame [zone_simps]:
  "ord (z_free_count_update f z) = ord z" "isf (z_free_count_update f z) = isf z"
  "nnext (z_free_count_update f z) = nnext z" "nprev (z_free_count_update f z) = nprev z"
  "ord (z_total_free_update g z) = ord z" "isf (z_total_free_update g z) = isf z"
  "nnext (z_total_free_update g z) = nnext z" "nprev (z_total_free_update g z) = nprev z"
proof -
  have "get_node (z_free_count_update f z) r = get_node z r" "get_node (z_total_free_update g z) r = get_node z r" for r
    by (cases r; simp)+
  then show "nnext (z_free_count_update f z) = nnext z" "nprev (z_free_count_update f z) = nprev z"
    "nnext (z_total_free_update g z) = nnext z" "nprev (z_total_free_update g z) = nprev z"
    by (simp_all add: fun_eq_iff nnext_def nprev_def)
qed (simp_all add: fun_eq_iff ord_def isf_def)

lemma set_fields:
  assumes "unat i < length (z_pages z)"
  shows "ord (set_order i v z) = (ord z)(unat i := unat v)" "isf (set_is_free i v z) = (isf z)(unat i := v \<noteq> 0)"
  using assms by (auto simp: fun_eq_iff ord_def isf_def set_order_def set_is_free_def nth_list_update)

section \<open>The shape of a zone\<close>

definition block :: "nat \<Rightarrow> nat \<Rightarrow> nat set" where "block i k = {i..<i + 2 ^ k}"

text \<open>The first pages of the free blocks, those of one order, and all pages in free blocks.\<close>

definition heads :: "buddy_zone \<Rightarrow> nat set" where
  "heads z = {i. i < unat (z_total_pages z) \<and> isf z i}"

definition order_heads :: "buddy_zone \<Rightarrow> nat \<Rightarrow> nat set" where
  "order_heads z k = {i \<in> heads z. ord z i = k}"

definition free_idx :: "buddy_zone \<Rightarrow> nat set" where
  "free_idx z = (\<Union>i \<in> heads z. block i (ord z i))"

definition on_list :: "buddy_zone \<Rightarrow> nat \<Rightarrow> bool" where
  "on_list z k \<longleftrightarrow> (\<exists>l. ring (nnext z) (nprev z) (Head k) (map Pg l) \<and> set l = order_heads z k)"

definition block_ok :: "buddy_zone \<Rightarrow> nat \<Rightarrow> nat \<Rightarrow> bool" where
  "block_ok z i k \<longleftrightarrow> k \<le> BUDDY_MAX_ORDER \<and> 2 ^ k dvd i \<and> i + 2 ^ k \<le> unat (z_total_pages z)"

text \<open>The free blocks are aligned, inside the zone and disjoint; each free list holds exactly the
  blocks of its order; the counters agree with the lists.\<close>

definition bd_core :: "buddy_zone \<Rightarrow> bool" where
  "bd_core z \<longleftrightarrow> length (z_free_list z) = Suc BUDDY_MAX_ORDER \<and> length (z_free_count z) = Suc BUDDY_MAX_ORDER \<and>
     length (z_pages z) = unat (z_total_pages z) \<and> unat (z_total_pages z) \<le> 2 ^ 20 \<and>
     (\<forall>i \<in> heads z. block_ok z i (ord z i)) \<and>
     disjoint_family_on (\<lambda>i. block i (ord z i)) (heads z) \<and>
     (\<forall>k \<le> BUDDY_MAX_ORDER. on_list z k) \<and>
     (\<forall>k \<le> BUDDY_MAX_ORDER. z_free_count z ! k = of_nat (card (order_heads z k))) \<and>
     z_total_free z = of_nat (card (free_idx z))"

lemma finite_heads [simp]: "finite (heads z)" "finite (order_heads z k)" "finite (free_idx z)"
  by (simp_all add: heads_def order_heads_def free_idx_def block_def)

lemma in_block [simp]: "i \<in> block i k"
  by (simp add: block_def)

lemma heads_free: "i \<in> heads z \<Longrightarrow> block i (ord z i) \<subseteq> free_idx z"
  by (auto simp: free_idx_def)

lemma free_idx_lt: "bd_core z \<Longrightarrow> j \<in> free_idx z \<Longrightarrow> j < unat (z_total_pages z)"
  by (fastforce simp: free_idx_def block_def bd_core_def block_ok_def)

lemma card_block [simp]: "card (block i k) = 2 ^ k"
  by (simp add: block_def)

lemma push_bit_1: "(push_bit k 1 :: u32) = of_nat (2 ^ k)"
  by (simp add: push_bit_eq_mult)

lemma nat_of_order: "k \<le> BUDDY_MAX_ORDER \<Longrightarrow> unat (of_nat k :: u8) = k"
  by (simp add: unat_of_nat BUDDY_MAX_ORDER_def)

lemma vref_ring:
  assumes "bd_core z" "k \<le> BUDDY_MAX_ORDER" "ring (nnext z) (nprev z) (Head k) (map Pg l)" "set l = order_heads z k"
    and "r \<in> set (Head k # map Pg l)"
  shows "vref z r"
  using assms by (auto simp: bd_core_def order_heads_def heads_def)

lemma ring_nodes_apart:
  assumes "set l = order_heads z k" "set l' = order_heads z k'" "k \<noteq> k'"
  shows "set (Head k # map Pg l) \<inter> set (Head k' # map Pg l') = {}"
  using assms by (auto simp: order_heads_def)

subsection \<open>Adding a free block\<close>

lemma buddy_add_free:
  assumes core: "bd_core z" and ok: "block_ok z (unat idx) k" and new: "block (unat idx) k \<inter> free_idx z = {}"
  defines "z' \<equiv> buddy_add_free idx k z"
  shows "bd_core z'" "heads z' = insert (unat idx) (heads z)" "ord z' = (ord z)(unat idx := k)"
    "free_idx z' = free_idx z \<union> block (unat idx) k"
    "z_base_phys z' = z_base_phys z" "z_total_pages z' = z_total_pages z"
proof -
  let ?i = "unat idx"
  define z2 where "z2 = set_is_free idx 1 (set_order idx (of_nat k) z)"
  define z3 where "z3 = list_add_tail (Pg ?i) (Head k) z2"
  have z': "z' = z3\<lparr>z_free_count := (z_free_count z3)[k := z_free_count z3 ! k + 1],
      z_total_free := z_total_free z3 + push_bit k 1\<rparr>"
    by (simp add: z'_def buddy_add_free_def Let_def z2_def z3_def index_to_page_def)
  have k: "k \<le> BUDDY_MAX_ORDER" and inz: "?i < length (z_pages z)"
    using ok core by (auto simp: block_ok_def bd_core_def intro: less_le_trans [rotated])
  have tp: "z_total_pages z' = z_total_pages z" "z_base_phys z' = z_base_phys z"
    by (simp_all add: z' z3_def z2_def zone_simps)
  then show "z_base_phys z' = z_base_phys z" "z_total_pages z' = z_total_pages z" by simp_all
  have o2: "ord z2 = (ord z)(?i := k)" and f2: "isf z2 = (isf z)(?i := True)"
    using inz by (simp_all add: z2_def zone_simps set_fields nat_of_order [OF k])
  have lk2: "nnext z2 = nnext z" "nprev z2 = nprev z" "vref z2 = vref z" by (simp_all add: z2_def zone_simps)
  have o3: "ord z' = ord z2" "isf z' = isf z2"
    by (simp_all add: z' z3_def zone_simps)
  have lk': "nnext z' = nnext z3" "nprev z' = nprev z3"
    by (simp_all add: z' zone_simps)
  show ord': "ord z' = (ord z)(?i := k)" using o3 o2 by simp
  have notin: "?i \<notin> heads z"
    using new heads_free [of ?i z] in_block [of ?i k] in_block [of ?i "ord z ?i"] by blast
  show hd': "heads z' = insert ?i (heads z)"
    using inz core tp o3 f2 by (auto simp: heads_def bd_core_def)
  show free': "free_idx z' = free_idx z \<union> block ?i k"
  proof -
    have "(\<Union>i \<in> heads z. block i (ord z' i)) = (\<Union>i \<in> heads z. block i (ord z i))"
      using notin by (intro SUP_cong) (auto simp: ord')
    then show ?thesis unfolding free_idx_def hd' by (simp add: ord' Un_commute)
  qed
  have oh: "order_heads z' j = (if j = k then insert ?i (order_heads z k) else order_heads z j)" for j
    using notin by (auto simp: order_heads_def hd' ord')
  obtain l where l: "ring (nnext z) (nprev z) (Head k) (map Pg l)" "set l = order_heads z k"
    using core k by (auto simp: bd_core_def on_list_def)
  have il: "?i \<notin> set l" using l(2) notin by (simp add: order_heads_def)
  have pin: "nprev z (Head k) \<in> set (Head k # map Pg l)"
    using ring_pv_head [OF l(1)] by (metis last_in_set list.discI)
  have vh: "vref z (Head k)" "vref z (nprev z (Head k))"
    by (rule vref_ring [OF core k l], simp) (rule vref_ring [OF core k l pin])
  have links: "nnext z' = (nnext z)(Pg ?i := Head k, nprev z (Head k) := Pg ?i)"
    "nprev z' = (nprev z)(Pg ?i := nprev z (Head k), Head k := Pg ?i)"
    using list_add_tail_links [of z2 "Pg ?i" "Head k"] inz vh by (simp_all add: lk' z3_def lk2)
  have on: "on_list z' j" if j: "j \<le> BUDDY_MAX_ORDER" for j
  proof (cases "j = k")
    case True
    have "ring (nnext z') (nprev z') (Head k) (map Pg l @ [Pg ?i])"
      unfolding links by (rule ring_add_tail [OF l(1)]) (use il in auto)
    then have "ring (nnext z') (nprev z') (Head k) (map Pg (l @ [?i]))" by simp
    moreover have "set (l @ [?i]) = order_heads z' k" using l(2) by (simp add: oh)
    ultimately show ?thesis using True unfolding on_list_def by blast
  next
    case False
    obtain l' where l': "ring (nnext z) (nprev z) (Head j) (map Pg l')" "set l' = order_heads z j"
      using core j by (auto simp: bd_core_def on_list_def)
    have "?i \<notin> set l'" using l'(2) notin by (simp add: order_heads_def)
    then have apart: "x \<noteq> Pg ?i \<and> x \<noteq> Head k \<and> x \<noteq> nprev z (Head k)" if "x \<in> set (Head j # map Pg l')" for x
      using that pin ring_nodes_apart [OF l(2) l'(2)] False by auto
    have "ring (nnext z') (nprev z') (Head j) (map Pg l') = ring (nnext z) (nprev z) (Head j) (map Pg l')"
      by (rule ring_cong) (use apart in \<open>simp_all add: links\<close>)
    with l' False show ?thesis by (auto simp: on_list_def oh)
  qed
  have cnt: "z_free_count z' ! j = of_nat (card (order_heads z' j))" if j: "j \<le> BUDDY_MAX_ORDER" for j
  proof -
    have zc: "z_free_count z' = (z_free_count z)[k := z_free_count z ! k + 1]"
      by (simp add: z' z3_def z2_def zone_simps)
    have "?i \<notin> order_heads z k" using notin by (simp add: order_heads_def)
    then have "card (insert ?i (order_heads z k)) = Suc (card (order_heads z k))" by simp
    then show ?thesis
      using core j k unfolding zc oh bd_core_def
      by (cases "j = k") (simp_all add: add.commute)
  qed
  have tot: "z_total_free z' = of_nat (card (free_idx z'))"
  proof -
    have "card (free_idx z') = card (free_idx z) + 2 ^ k"
      unfolding free' using new by (subst card_Un_disjoint) (auto simp: block_def)
    then show ?thesis using core by (simp add: bd_core_def z' z3_def z2_def zone_simps push_bit_1)
  qed
  have bok: "block_ok z' i (ord z' i)" if "i \<in> heads z'" for i
    using that ok core notin by (auto simp: hd' ord' block_ok_def bd_core_def tp)
  have "disjoint_family_on (\<lambda>i. block i (ord z' i)) (heads z')"
  proof -
    have "disjoint_family_on (\<lambda>i. block i (ord z' i)) (heads z)"
      using core notin unfolding bd_core_def disjoint_family_on_def ord' by auto
    moreover have "(\<Union>i \<in> heads z. block i (ord z' i)) = free_idx z"
      unfolding free_idx_def using notin by (intro SUP_cong) (auto simp: ord')
    then have "block ?i (ord z' ?i) \<inter> (\<Union>i \<in> heads z. block i (ord z' i)) = {}"
      using new by (simp add: ord')
    ultimately show ?thesis unfolding hd' using notin by (subst disjoint_family_on_insert) auto
  qed
  moreover have "length (z_free_list z') = Suc BUDDY_MAX_ORDER" "length (z_free_count z') = Suc BUDDY_MAX_ORDER"
    "length (z_pages z') = unat (z_total_pages z')" "unat (z_total_pages z') \<le> 2 ^ 20"
    using core by (simp_all add: bd_core_def z' z3_def z2_def zone_simps)
  ultimately show "bd_core z'" using bok on cnt tot unfolding bd_core_def by blast
qed

subsection \<open>Removing a free block\<close>

lemma buddy_remove_free:
  assumes core: "bd_core z" and hd: "unat idx \<in> order_heads z k"
  defines "z' \<equiv> buddy_remove_free idx k z"
  shows "bd_core z'" "heads z' = heads z - {unat idx}" "ord z' = ord z"
    "free_idx z' = free_idx z - block (unat idx) k" "block (unat idx) k \<subseteq> free_idx z"
    "z_base_phys z' = z_base_phys z" "z_total_pages z' = z_total_pages z"
proof -
  let ?i = "unat idx"
  define z2 where "z2 = list_del (Pg ?i) z"
  have z': "z' = (set_is_free idx 0 z2)\<lparr>z_free_count := (z_free_count (set_is_free idx 0 z2))
      [k := z_free_count (set_is_free idx 0 z2) ! k - 1],
      z_total_free := z_total_free (set_is_free idx 0 z2) - push_bit k 1\<rparr>"
    by (simp add: z'_def buddy_remove_free_def Let_def z2_def index_to_page_def)
  have ih: "?i \<in> heads z" and ok: "ord z ?i = k" using hd by (auto simp: order_heads_def)
  have bok: "block_ok z ?i k" using core ih ok by (auto simp: bd_core_def)
  have k: "k \<le> BUDDY_MAX_ORDER" and inz: "?i < length (z_pages z)"
    using bok core ih by (auto simp: block_ok_def bd_core_def heads_def)
  show sub: "block ?i k \<subseteq> free_idx z" using heads_free [OF ih] ok by simp
  have tp: "z_total_pages z' = z_total_pages z" "z_base_phys z' = z_base_phys z"
    by (simp_all add: z' z2_def zone_simps)
  then show "z_base_phys z' = z_base_phys z" "z_total_pages z' = z_total_pages z" by simp_all
  show ord': "ord z' = ord z" by (simp add: z' z2_def zone_simps)
  have f': "isf z' = (isf z)(?i := False)"
    using inz by (simp add: z' zone_simps set_fields z2_def)
  show hd': "heads z' = heads z - {?i}" by (auto simp: heads_def tp f')
  have dis: "disjoint_family_on (\<lambda>i. block i (ord z i)) (heads z)" using core by (simp add: bd_core_def)
  show free': "free_idx z' = free_idx z - block ?i k"
  proof -
    have "block i (ord z i) \<inter> block ?i k = {}" if "i \<in> heads z" "i \<noteq> ?i" for i
      using disjoint_family_onD [OF dis that(1) ih that(2)] ok by simp
    then have "free_idx z' \<inter> block ?i k = {}" unfolding free_idx_def hd' ord' by auto
    moreover have "free_idx z = free_idx z' \<union> block ?i k"
      unfolding free_idx_def hd' ord' using ih ok by auto
    ultimately show ?thesis by blast
  qed
  have oh: "order_heads z' j = (if j = k then order_heads z k - {?i} else order_heads z j)" for j
    using ok by (auto simp: order_heads_def hd' ord')
  obtain l where l: "ring (nnext z) (nprev z) (Head k) (map Pg l)" "set l = order_heads z k"
    using core k by (auto simp: bd_core_def on_list_def)
  have "?i \<in> set l" using l(2) hd by simp
  then obtain a b where ab: "l = a @ ?i # b" by (auto simp: in_set_conv_decomp)
  have dl: "distinct (Head k # map Pg l)" using l(1) by (simp add: ring_def)
  have r: "ring (nnext z) (nprev z) (Head k) (map Pg a @ Pg ?i # map Pg b)" using l(1) ab by simp
  have nb: "nprev z (Pg ?i) \<in> set (Head k # map Pg a)" "nnext z (Pg ?i) \<in> set (map Pg b @ [Head k])"
    unfolding ring_neighbours [OF r] by (rule last_in_set, simp) (rule hd_in_set, simp)
  then have nb': "nprev z (Pg ?i) \<in> set (Head k # map Pg l)" "nnext z (Pg ?i) \<in> set (Head k # map Pg l)"
    using ab by auto
  have "?i \<notin> set a" "?i \<notin> set b" using dl ab by (auto simp: distinct_map)
  then have ne: "nprev z (Pg ?i) \<noteq> Pg ?i" "nnext z (Pg ?i) \<noteq> Pg ?i" using nb by auto
  have links: "nnext z' = (nnext z)(nprev z (Pg ?i) := nnext z (Pg ?i), Pg ?i := Pg ?i)"
    "nprev z' = (nprev z)(nnext z (Pg ?i) := nprev z (Pg ?i), Pg ?i := Pg ?i)"
    using list_del_links [of z "Pg ?i"] vref_ring [OF core k l nb'(1)] vref_ring [OF core k l nb'(2)] inz ne
    by (simp_all add: z' zone_simps z2_def)
  have on: "on_list z' j" if j: "j \<le> BUDDY_MAX_ORDER" for j
  proof (cases "j = k")
    case True
    have "ring (nnext z') (nprev z') (Head k) (map Pg (a @ b))"
      unfolding links using ring_del [OF r] by simp
    moreover have "set (a @ b) = order_heads z' k"
      using l(2) ab \<open>?i \<notin> set a\<close> \<open>?i \<notin> set b\<close> by (auto simp: oh)
    ultimately show ?thesis using True unfolding on_list_def by blast
  next
    case False
    obtain l' where l': "ring (nnext z) (nprev z) (Head j) (map Pg l')" "set l' = order_heads z j"
      using core j by (auto simp: bd_core_def on_list_def)
    have apart: "x \<noteq> Pg ?i \<and> x \<noteq> nprev z (Pg ?i) \<and> x \<noteq> nnext z (Pg ?i)" if "x \<in> set (Head j # map Pg l')" for x
      using that nb' ring_nodes_apart [OF l(2) l'(2)] False \<open>?i \<in> set l\<close> by auto
    have "ring (nnext z') (nprev z') (Head j) (map Pg l') = ring (nnext z) (nprev z) (Head j) (map Pg l')"
      by (rule ring_cong) (use apart in \<open>simp_all add: links\<close>)
    with l' False show ?thesis by (auto simp: on_list_def oh)
  qed
  have cnt: "z_free_count z' ! j = of_nat (card (order_heads z' j))" if j: "j \<le> BUDDY_MAX_ORDER" for j
  proof -
    have zc: "z_free_count z' = (z_free_count z)[k := z_free_count z ! k - 1]"
      by (simp add: z' z2_def zone_simps)
    have "card (order_heads z k) = Suc (card (order_heads z k - {?i}))"
      using card_Suc_Diff1 [OF _ hd] by simp
    then show ?thesis
      using core j k unfolding zc oh bd_core_def by (cases "j = k") simp_all
  qed
  have tot: "z_total_free z' = of_nat (card (free_idx z'))"
  proof -
    have "card (free_idx z) = card (free_idx z') + 2 ^ k"
      unfolding free' using sub card_mono [OF _ sub] by (subst card_Diff_subset) (auto simp: block_def)
    moreover have "z_total_free z' = z_total_free z - 2 ^ k"
      by (simp add: z' z2_def zone_simps push_bit_1)
    moreover have "z_total_free z = of_nat (card (free_idx z))" using core by (simp add: bd_core_def)
    ultimately show ?thesis by simp
  qed
  have bok': "block_ok z' i (ord z' i)" if "i \<in> heads z'" for i
    using that core by (auto simp: hd' ord' block_ok_def bd_core_def tp)
  have "disjoint_family_on (\<lambda>i. block i (ord z' i)) (heads z')"
    unfolding ord' hd' by (rule disjoint_family_on_mono [OF _ dis]) auto
  moreover have "length (z_free_list z') = Suc BUDDY_MAX_ORDER" "length (z_free_count z') = Suc BUDDY_MAX_ORDER"
    "length (z_pages z') = unat (z_total_pages z')" "unat (z_total_pages z') \<le> 2 ^ 20"
    using core by (simp_all add: bd_core_def z' z2_def zone_simps)
  ultimately show "bd_core z'" using bok' on cnt tot unfolding bd_core_def by blast
qed

subsection \<open>Allocating one page\<close>

lemma list_empty_iff: "bd_core z \<Longrightarrow> k \<le> BUDDY_MAX_ORDER \<Longrightarrow> list_empty (Head k) z \<longleftrightarrow> order_heads z k = {}"
  by (auto simp: bd_core_def on_list_def list_empty_def dest!: spec [of _ k] ring_empty_iff)

lemma find_order_spec:
  assumes "bd_core z" "j \<le> i" "i \<le> BUDDY_MAX_ORDER" "order_heads z i \<noteq> {}"
  shows "find_order z j \<le> BUDDY_MAX_ORDER \<and> j \<le> find_order z j \<and> order_heads z (find_order z j) \<noteq> {}"
  using assms
proof (induction z j rule: find_order.induct)
  case (1 z cur)
  show ?case
  proof (cases "list_empty (Head cur) z")
    case True
    then have "cur \<noteq> i" using 1(2,4,5) list_empty_iff by auto
    then have le: "cur + 1 \<le> i" "cur \<le> BUDDY_MAX_ORDER" using 1(3,4) by auto
    have "find_order z cur = find_order z (cur + 1)"
      using True le by (subst find_order.simps) simp
    with 1(1) [OF le(2) _ 1(2) le(1) 1(4,5)] True show ?thesis by auto
  next
    case False
    then have "find_order z cur = cur" using 1(3,4) by (subst find_order.simps) simp
    with False 1(2-4) list_empty_iff [OF 1(2), of cur] show ?thesis by auto
  qed
qed

text \<open>\<open>2\<^sup>k\<close> pages are the first page and one block of each smaller order.\<close>

lemma block_split: "0 < k \<Longrightarrow> block i k = block i (k - 1) \<union> block (i + 2 ^ (k - 1)) (k - 1)"
  by (cases k) (auto simp: block_def)

lemma unat_half:
  assumes "unat idx + 2 ^ k \<le> n" "n \<le> 2 ^ 20" "j \<le> k"
  shows "unat (idx + push_bit j 1 :: u32) = unat idx + 2 ^ j"
proof -
  have "(2 :: nat) ^ j \<le> 2 ^ k" using assms(3) by (rule power_increasing) simp
  then have "unat idx + 2 ^ j \<le> unat idx + 2 ^ k" by (rule add_left_mono)
  also have "\<dots> \<le> 2 ^ 20" using assms(1,2) by (rule le_trans)
  finally have lim: "unat idx + 2 ^ j < 2 ^ 32" by simp
  then have "unat (of_nat (2 ^ j) :: u32) = 2 ^ j" by (simp add: unat_of_nat del: of_nat_power)
  with lim show ?thesis unfolding push_bit_1 by (subst unat_add_no_wrap) simp_all
qed

lemma split_block:
  assumes "bd_core z" "block_ok z (unat idx) cur" "block (unat idx) cur \<inter> free_idx z = {}" "order \<le> cur"
  defines "z' \<equiv> split_block idx order cur z"
  shows "bd_core z' \<and> free_idx z' = free_idx z \<union> (block (unat idx) cur - block (unat idx) order) \<and>
    (\<forall>j. j \<notin> free_idx z' \<longrightarrow> ord z' j = ord z j) \<and> z_base_phys z' = z_base_phys z \<and> z_total_pages z' = z_total_pages z"
  using assms(1-4) unfolding z'_def
proof (induction idx order cur z rule: split_block.induct)
  case (1 idx order cur z)
  show ?case
  proof (cases "order < cur")
    case True
    define c where "c = cur - 1"
    define z1 where "z1 = buddy_add_free (idx + push_bit c 1) c z"
    have cur: "cur = Suc c" using True by (simp add: c_def)
    have tp: "unat (z_total_pages z) \<le> 2 ^ 20" using 1(2) by (simp add: bd_core_def)
    have half: "unat (idx + push_bit c 1) = unat idx + 2 ^ c"
      using 1(3) tp by (intro unat_half [of _ cur]) (auto simp: block_ok_def cur)
    have sp: "block (unat idx) cur = block (unat idx) c \<union> block (unat idx + 2 ^ c) c"
      using block_split [of cur "unat idx"] by (simp add: cur)
    have bok: "block_ok z (unat idx + 2 ^ c) c" "block_ok z (unat idx) c"
      using 1(3) by (auto simp: block_ok_def cur elim: dvd_trans [rotated])
    have "block (unat idx + 2 ^ c) c \<inter> free_idx z = {}" using 1(4) sp by blast
    note add = buddy_add_free [OF 1(2), of "idx + push_bit c 1" c, unfolded half, OF bok(1) this, folded z1_def]
    have disj: "block (unat idx) c \<inter> block (unat idx + 2 ^ c) c = {}" by (auto simp: block_def)
    have "block_ok z1 (unat idx) c" using bok(2) add(6) by (simp add: block_ok_def)
    moreover have "block (unat idx) c \<inter> free_idx z1 = {}" using add(4) disj 1(4) sp by auto
    ultimately have IH: "bd_core (split_block idx order c z1) \<and>
        free_idx (split_block idx order c z1) = free_idx z1 \<union> (block (unat idx) c - block (unat idx) order) \<and>
        (\<forall>j. j \<notin> free_idx (split_block idx order c z1) \<longrightarrow> ord (split_block idx order c z1) j = ord z1 j) \<and>
        z_base_phys (split_block idx order c z1) = z_base_phys z1 \<and>
        z_total_pages (split_block idx order c z1) = z_total_pages z1"
      using 1(1) [OF True c_def refl, folded z1_def] add(1) True cur by simp
    have step: "split_block idx order cur z = split_block idx order c z1"
      using True by (subst split_block.simps) (simp add: Let_def c_def z1_def)
    have "block (unat idx) order \<subseteq> block (unat idx) c"
      using True cur by (auto simp: block_def less_Suc_eq_le elim!: less_le_trans intro: power_increasing)
    then have "free_idx z1 \<union> (block (unat idx) c - block (unat idx) order) =
        free_idx z \<union> (block (unat idx) cur - block (unat idx) order)"
      using add(4) sp disj by auto
    moreover have "ord z1 j = ord z j" if "j \<notin> free_idx z1" for j
    proof -
      have "unat idx + 2 ^ c \<in> free_idx z1" using add(4) by simp
      then show ?thesis using that add(3) by auto
    qed
    ultimately show ?thesis unfolding step using IH add(5,6) by auto
  next
    case False
    then have "cur = order" using 1(5) by simp
    then show ?thesis using 1(2) by (subst (1 2 3 4 5 6) split_block.simps) auto
  qed
qed

lemma list_pop_first:
  assumes "bd_core z" "k \<le> BUDDY_MAX_ORDER" "order_heads z k \<noteq> {}"
  shows "\<exists>i \<in> order_heads z k. list_pop (Head k) z = (Pg i, list_del (Pg i) z)"
proof -
  obtain l where l: "ring (nnext z) (nprev z) (Head k) (map Pg l)" "set l = order_heads z k"
    using assms(1,2) unfolding bd_core_def on_list_def by blast
  then obtain i l' where "l = i # l'" using assms(3) by (cases l) auto
  then show ?thesis
    using l ring_first [of "nnext z" "nprev z" "Head k" "Pg i" "map Pg l'"] list_empty_iff [OF assms(1,2)] assms(3)
    by (auto simp: list_pop_def Let_def)
qed

text \<open>Pages outside the free blocks have order 0: they are handed out one at a time.\<close>

definition bd_inv_zone :: "buddy_zone \<Rightarrow> bool" where
  "bd_inv_zone z \<longleftrightarrow> bd_core z \<and> (\<forall>j < unat (z_total_pages z). j \<notin> free_idx z \<longrightarrow> ord z j = 0) \<and>
     page_aligned (z_base_phys z) \<and> 0 < z_base_phys z \<and>
     unat (z_base_phys z) + unat (z_total_pages z) * 4096 < 2 ^ 32"

lemma buddy_alloc_page:
  assumes "bd_inv_zone z" "free_idx z \<noteq> {}" "buddy_alloc 0 z = (idx, z')"
  shows "unat idx \<in> free_idx z" "free_idx z' = free_idx z - {unat idx}" "bd_inv_zone z'"
    "z_base_phys z' = z_base_phys z" "z_total_pages z' = z_total_pages z"
proof -
  have core: "bd_core z" using assms(1) by (simp add: bd_inv_zone_def)
  obtain i0 where i0: "i0 \<in> heads z" using assms(2) by (auto simp: free_idx_def)
  then have "ord z i0 \<le> BUDDY_MAX_ORDER" "order_heads z (ord z i0) \<noteq> {}"
    using core by (auto simp: bd_core_def block_ok_def order_heads_def)
  note fo = find_order_spec [OF core _ this, of 0]
  define cur where "cur = find_order z 0"
  have cur: "cur \<le> BUDDY_MAX_ORDER" "order_heads z cur \<noteq> {}" using fo by (simp_all add: cur_def)
  obtain i where i: "i \<in> order_heads z cur" "list_pop (Head cur) z = (Pg i, list_del (Pg i) z)"
    using list_pop_first [OF core cur] by blast
  have ilt: "i < unat (z_total_pages z)" using i(1) by (simp add: order_heads_def heads_def)
  have ui: "unat (of_nat i :: u32) = i" by (rule unat_of_nat_less [OF ilt])
  define z1 where "z1 = buddy_remove_free (of_nat i) cur z"
  have z1: "z1 = (set_is_free (of_nat i) 0 (list_del (Pg i) z))\<lparr>
      z_free_count := (z_free_count (set_is_free (of_nat i) 0 (list_del (Pg i) z)))
        [cur := z_free_count (set_is_free (of_nat i) 0 (list_del (Pg i) z)) ! cur - 1],
      z_total_free := z_total_free (set_is_free (of_nat i) 0 (list_del (Pg i) z)) - push_bit cur 1\<rparr>"
    by (simp add: z1_def buddy_remove_free_def Let_def index_to_page_def ui)
  have "buddy_alloc 0 z = (of_nat i, set_order (of_nat i) 0 (split_block (of_nat i) 0 cur z1))"
    using i(2) cur(1) unfolding z1 by (simp add: buddy_alloc_def Let_def cur_def [symmetric])
  then have res: "idx = of_nat i" "z' = set_order (of_nat i) 0 (split_block (of_nat i) 0 cur z1)"
    using assms(3) by simp_all
  have uidx: "unat idx = i" using res(1) ui by simp
  note rm = buddy_remove_free [OF core, of "of_nat i" cur, unfolded ui, OF i(1), folded z1_def]
  have bok: "block_ok z1 i cur"
    using core i(1) rm(7) by (auto simp: bd_core_def order_heads_def block_ok_def)
  have "block i cur \<inter> free_idx z1 = {}" using rm(4) by auto
  note sp = split_block [OF rm(1), of "of_nat i" cur 0, unfolded ui, OF bok this le0]
  define z2 where "z2 = split_block (of_nat i) 0 cur z1"
  have z': "z' = set_order idx 0 z2" using res by (simp add: z2_def)
  have b0: "block i 0 = {i}" by (simp add: block_def)
  have free2: "free_idx z2 = free_idx z - {i}"
    using sp rm(4,5) b0 in_block [of i cur] by (auto simp: z2_def)
  then have inot: "i \<notin> heads z2" using heads_free [of i z2] in_block [of i "ord z2 i"] by blast
  have len: "i < length (z_pages z2)" using sp ilt rm(7) by (simp add: z2_def bd_core_def)
  have ord': "ord z' = (ord z2)(i := 0)" using set_fields(1) [of idx z2 0] len uidx by (simp add: z')
  have hd': "heads z' = heads z2" by (simp add: heads_def z' zone_simps)
  have cong: "ord z' j = ord z2 j" if "j \<in> heads z2" for j using that inot ord' by auto
  have free': "free_idx z' = free_idx z2" unfolding free_idx_def hd' using cong by auto
  have oh': "order_heads z' k = order_heads z2 k" for k using cong by (auto simp: order_heads_def hd')
  have "bd_core z'"
    using sp cong unfolding bd_core_def z2_def [symmetric] free' hd' oh' on_list_def
    by (auto simp: z' zone_simps block_ok_def disjoint_family_on_def)
  moreover have "ord z' j = 0" if "j < unat (z_total_pages z)" "j \<notin> free_idx z'" for j
  proof (cases "j = i")
    case False
    then have "ord z2 j = ord z1 j" using that sp free' by (simp add: z2_def)
    moreover have "j \<notin> free_idx z" using that False free' free2 by simp
    ultimately show ?thesis using assms(1) that False ord' rm(3) by (simp add: bd_inv_zone_def)
  qed (simp add: ord')
  ultimately show "bd_inv_zone z'"
    using assms(1) sp rm(6,7) by (simp add: bd_inv_zone_def z' zone_simps z2_def)
  show "z_base_phys z' = z_base_phys z" "z_total_pages z' = z_total_pages z"
    using sp rm(6,7) by (simp_all add: z' zone_simps z2_def)
  show "unat idx \<in> free_idx z" "free_idx z' = free_idx z - {unat idx}"
    using free' free2 uidx rm(5) in_block [of i cur] by auto
qed

subsection \<open>Releasing one page\<close>

text \<open>The buddy of an aligned block, and the block the two make together.\<close>

lemma bit_split_word:
  fixes idx :: u32
  assumes "k < 32" "bit idx k"
  shows "idx XOR push_bit k 1 = idx AND NOT (push_bit k 1)" "idx = (idx AND NOT (push_bit k 1)) + push_bit k 1"
proof -
  show "idx XOR push_bit k 1 = idx AND NOT (push_bit k 1)"
    using assms by (auto intro!: bit_word_eqI simp: bit_xor_iff bit_and_iff bit_not_iff bit_push_bit_iff bit_1_iff bit_exp_iff)
  have "(idx AND NOT (push_bit k 1)) + push_bit k 1 = (idx AND NOT (push_bit k 1)) OR push_bit k 1"
    by (rule disjunctive_add) (simp add: bit_and_iff bit_not_iff)
  also have "\<dots> = idx"
    using assms by (auto intro!: bit_word_eqI simp: bit_or_iff bit_and_iff bit_not_iff bit_exp_iff)
  finally show "idx = (idx AND NOT (push_bit k 1)) + push_bit k 1" by simp
qed

lemma bit_clear_word:
  fixes idx :: u32
  assumes "\<not> bit idx k"
  shows "idx XOR push_bit k 1 = idx + push_bit k 1" "idx AND NOT (push_bit k 1) = idx"
proof -
  have "idx + push_bit k 1 = idx OR push_bit k 1"
    using assms by (intro disjunctive_add) (auto simp: bit_exp_iff)
  also have "\<dots> = idx XOR push_bit k 1"
    using assms by (auto intro!: bit_word_eqI simp: bit_or_iff bit_xor_iff bit_exp_iff)
  finally show "idx XOR push_bit k 1 = idx + push_bit k 1" by simp
  show "idx AND NOT (push_bit k 1) = idx"
    using assms by (auto intro!: bit_word_eqI simp: bit_and_iff bit_not_iff bit_exp_iff)
qed

lemma unat_pow2: "k < 32 \<Longrightarrow> unat (push_bit k 1 :: u32) = 2 ^ k"
proof -
  assume "k < 32"
  then have "(2 :: nat) ^ k < 2 ^ 32" by (intro power_strict_increasing) simp_all
  then show ?thesis unfolding push_bit_1 by (simp add: unat_of_nat del: of_nat_power)
qed

lemma buddy_pair:
  fixes idx :: u32
  assumes "2 ^ k dvd unat idx" "unat idx + 2 ^ k \<le> 2 ^ 20" "k \<le> 20"
  defines "bi \<equiv> calc_buddy_index idx k" and "pa \<equiv> idx AND NOT (push_bit k 1)"
  shows "block (unat pa) (Suc k) = block (unat idx) k \<union> block (unat bi) k"
    "block (unat idx) k \<inter> block (unat bi) k = {}" "2 ^ Suc k dvd unat pa" "2 ^ k dvd unat bi"
    "unat pa + 2 ^ Suc k = max (unat idx) (unat bi) + 2 ^ k"
proof -
  obtain q where q: "unat idx = 2 ^ k * q" using assms(1) by (auto simp: dvd_def)
  have bit: "bit idx k \<longleftrightarrow> odd q"
  proof -
    have "bit idx k = bit (unat idx) k" by (simp add: bit_unsigned_iff)
    also have "\<dots> = odd (unat idx div 2 ^ k)" by (rule bit_iff_odd)
    finally show ?thesis by (simp add: q)
  qed
  have p2: "unat (push_bit k 1 :: u32) = 2 ^ k" using assms(3) by (intro unat_pow2) simp
  have "block (unat pa) (Suc k) = block (unat idx) k \<union> block (unat bi) k \<and>
    block (unat idx) k \<inter> block (unat bi) k = {} \<and> 2 ^ Suc k dvd unat pa \<and> 2 ^ k dvd unat bi \<and>
    unat pa + 2 ^ Suc k = max (unat idx) (unat bi) + 2 ^ k"
  proof (cases "bit idx k")
    case True
    have k: "k < 32" using assms(3) by simp
    note sp = bit_split_word [OF k True]
    obtain r where r: "q = 2 * r + 1" using True bit by (auto elim: oddE)
    have "pa = idx - push_bit k 1" using sp(2) by (simp add: pa_def algebra_simps)
    moreover have "(push_bit k 1 :: u32) \<le> idx"
      unfolding word_le_nat_alt p2 using q r by simp
    ultimately have "unat pa = unat idx - 2 ^ k"
      by (simp only: unat_sub p2)
    then have "unat pa = 2 ^ Suc k * r" "unat idx = unat pa + 2 ^ k"
      using q r by (simp_all add: algebra_simps)
    moreover have "bi = pa" using sp(1) by (simp add: bi_def pa_def calc_buddy_index_def)
    ultimately show ?thesis by (auto simp: block_def)
  next
    case False
    note cl = bit_clear_word [OF False]
    obtain r where r: "q = 2 * r" using False bit by (auto elim: evenE)
    have "pa = idx" using cl(2) by (simp add: pa_def)
    moreover have "unat bi = unat idx + 2 ^ k"
      using cl(1) assms(2) p2 by (simp add: bi_def calc_buddy_index_def) (subst unat_add_no_wrap; simp)
    ultimately show ?thesis using q r by (auto simp: block_def)
  qed
  then show "block (unat pa) (Suc k) = block (unat idx) k \<union> block (unat bi) k"
    "block (unat idx) k \<inter> block (unat bi) k = {}" "2 ^ Suc k dvd unat pa" "2 ^ k dvd unat bi"
    "unat pa + 2 ^ Suc k = max (unat idx) (unat bi) + 2 ^ k" by blast+
qed

lemma buddy_free:
  assumes "bd_core z" "block_ok z (unat idx) k" "block (unat idx) k \<inter> free_idx z = {}"
  defines "z' \<equiv> buddy_free idx k z"
  shows "bd_core z' \<and> free_idx z' = free_idx z \<union> block (unat idx) k \<and>
    (\<forall>j. j \<notin> free_idx z' \<longrightarrow> ord z' j = ord z j) \<and> z_base_phys z' = z_base_phys z \<and> z_total_pages z' = z_total_pages z"
  using assms(1-3) unfolding z'_def
proof (induction idx k z rule: buddy_free.induct)
  case (1 idx k z)
  define bi where "bi = calc_buddy_index idx k"
  have stop: "bd_core z1 \<and> free_idx z1 = free_idx z \<union> block (unat idx) k \<and>
      (\<forall>j. j \<notin> free_idx z1 \<longrightarrow> ord z1 j = ord z j) \<and> z_base_phys z1 = z_base_phys z \<and> z_total_pages z1 = z_total_pages z"
    if "z1 = buddy_add_free idx k z" for z1
  proof -
    note add = buddy_add_free [OF 1(2-4), folded that]
    have "ord z1 j = ord z j" if "j \<notin> free_idx z1" for j
      using that add(3,4) in_block [of "unat idx" k] by auto
    with add show ?thesis by auto
  qed
  show ?case
  proof (cases "k < BUDDY_MAX_ORDER \<and> bi < z_total_pages z \<and> pi_is_free (z_pages z ! unat bi) \<noteq> 0 \<and>
      pi_order (z_pages z ! unat bi) = of_nat k")
    case False
    then have "buddy_free idx k z = buddy_add_free idx k z"
      unfolding buddy_free.simps [of idx k z] Let_def bi_def [symmetric] by (auto simp only: not_le split: if_split)
    then show ?thesis by (rule stop)
  next
    case True
    define pa where "pa = idx AND NOT (push_bit k 1)"
    define z1 where "z1 = buddy_remove_free bi k z"
    have k: "k < BUDDY_MAX_ORDER" using True by simp
    have tp: "unat (z_total_pages z) \<le> 2 ^ 20" using 1(2) by (simp add: bd_core_def)
    have pair: "2 ^ k dvd unat idx" "unat idx + 2 ^ k \<le> 2 ^ 20" "k \<le> 20"
      using 1(3) tp k by (auto simp: block_ok_def BUDDY_MAX_ORDER_def)
    note bp = buddy_pair [OF pair, folded bi_def pa_def]
    have hd: "unat bi \<in> order_heads z k"
    proof -
      have "unat bi < unat (z_total_pages z)" using True unfolding word_less_nat_alt by blast
      moreover have "isf z (unat bi)" using True by (simp add: isf_def)
      moreover have "ord z (unat bi) = k" using True nat_of_order [of k] k by (simp add: ord_def)
      ultimately show ?thesis by (simp add: order_heads_def heads_def)
    qed
    note rm = buddy_remove_free [OF 1(2) hd, folded z1_def]
    have "unat bi + 2 ^ k \<le> unat (z_total_pages z)"
      using 1(2) hd by (auto simp: bd_core_def order_heads_def block_ok_def)
    then have "unat pa + 2 ^ Suc k \<le> unat (z_total_pages z)"
      using 1(3) unfolding bp(5) by (auto simp: block_ok_def)
    then have bok: "block_ok z1 (unat pa) (Suc k)"
      using bp(3) k rm(7) by (simp add: block_ok_def)
    have "block (unat pa) (Suc k) \<inter> free_idx z1 = {}" using rm(4) bp(1) 1(4) by blast
    moreover note IH0 = 1(1) [OF k bi_def _ refl, folded pa_def z1_def Suc_eq_plus1]
    ultimately have IH: "bd_core (buddy_free pa (Suc k) z1) \<and>
        free_idx (buddy_free pa (Suc k) z1) = free_idx z1 \<union> block (unat pa) (Suc k) \<and>
        (\<forall>j. j \<notin> free_idx (buddy_free pa (Suc k) z1) \<longrightarrow> ord (buddy_free pa (Suc k) z1) j = ord z1 j) \<and>
        z_base_phys (buddy_free pa (Suc k) z1) = z_base_phys z1 \<and>
        z_total_pages (buddy_free pa (Suc k) z1) = z_total_pages z1"
      using True by (intro IH0 rm(1) bok) (simp_all add: not_le)
    have step: "buddy_free idx k z = buddy_free pa (Suc k) z1"
      using True unfolding buddy_free.simps [of idx k z] Let_def bi_def [symmetric] pa_def z1_def Suc_eq_plus1
      by (auto simp only: not_le split: if_split)
    have "free_idx z1 \<union> block (unat pa) (Suc k) = free_idx z \<union> block (unat idx) k"
      using rm(4,5) bp(1) by blast
    then show ?thesis unfolding step using IH rm(3,6,7) by simp
  qed
qed

lemma buddy_free_one:
  assumes "bd_inv_zone z" "unat idx < unat (z_total_pages z)" "unat idx \<notin> free_idx z"
  defines "z' \<equiv> buddy_free idx (unat (pi_order (z_pages z ! unat idx))) z"
  shows "bd_inv_zone z'" "free_idx z' = insert (unat idx) (free_idx z)"
    "z_base_phys z' = z_base_phys z" "z_total_pages z' = z_total_pages z"
proof -
  have "ord z (unat idx) = 0" using assms by (simp add: bd_inv_zone_def)
  then have z': "z' = buddy_free idx 0 z" by (simp add: z'_def ord_def)
  have b0: "block (unat idx) 0 = {unat idx}" by (simp add: block_def)
  have "bd_core z" "block_ok z (unat idx) 0" "block (unat idx) 0 \<inter> free_idx z = {}"
    using assms(1-3) b0 by (auto simp: bd_inv_zone_def block_ok_def BUDDY_MAX_ORDER_def)
  note bf = buddy_free [OF this, folded z', unfolded b0]
  then show "free_idx z' = insert (unat idx) (free_idx z)"
    "z_base_phys z' = z_base_phys z" "z_total_pages z' = z_total_pages z" by auto
  show "bd_inv_zone z'" using bf assms(1) by (auto simp: bd_inv_zone_def)
qed

section \<open>The contract\<close>

definition bd_inv :: "buddy_state \<Rightarrow> bool" where
  "bd_inv s \<longleftrightarrow> (g_buddy_ready s \<longrightarrow> bd_inv_zone (g_zone s))"

definition bd_page :: "buddy_zone \<Rightarrow> nat \<Rightarrow> u32" where "bd_page z i = index_to_phys z (of_nat i)"

definition bd_managed :: "buddy_state \<Rightarrow> u32 set" where
  "bd_managed s = (if g_buddy_ready s then bd_page (g_zone s) ` {..< unat (z_total_pages (g_zone s))} else {})"

definition bd_free :: "buddy_state \<Rightarrow> u32 set" where
  "bd_free s = (if g_buddy_ready s then bd_page (g_zone s) ` free_idx (g_zone s) else {})"

lemma unat_bd_page:
  assumes "bd_inv_zone z" "i < unat (z_total_pages z)"
  shows "unat (bd_page z i) = unat (z_base_phys z) + i * 4096"
proof -
  have lt: "unat (z_base_phys z) + i * 4096 < 2 ^ 32" using assms by (auto simp: bd_inv_zone_def)
  have "unat (of_nat i * PAGE_SIZE) = i * 4096"
    using lt unat_of_nat_less [OF assms(2)] by (simp add: PAGE_SIZE_def unat_word_ariths)
  then show ?thesis using lt unfolding bd_page_def index_to_phys_def by (subst unat_add_no_wrap) simp_all
qed

lemma bd_page_inj: "bd_inv_zone z \<Longrightarrow> inj_on (bd_page z) {..< unat (z_total_pages z)}"
proof (rule inj_onI)
  fix i j assume z: "bd_inv_zone z" and ij: "i \<in> {..< unat (z_total_pages z)}" "j \<in> {..< unat (z_total_pages z)}"
    and eq: "bd_page z i = bd_page z j"
  have "unat (bd_page z i) = unat (z_base_phys z) + i * 4096" "unat (bd_page z j) = unat (z_base_phys z) + j * 4096"
    using ij by (simp_all only: lessThan_iff unat_bd_page [OF z])
  moreover have "unat (bd_page z i) = unat (bd_page z j)" by (rule arg_cong [OF eq])
  ultimately have "i * 4096 = j * 4096" by linarith
  then show "i = j" by simp
qed

lemma bd_free_idx_sub: "bd_inv_zone z \<Longrightarrow> free_idx z \<subseteq> {..< unat (z_total_pages z)}"
  using free_idx_lt by (auto simp: bd_inv_zone_def)

lemma bd_page_in_free:
  "bd_inv_zone z \<Longrightarrow> i < unat (z_total_pages z) \<Longrightarrow> bd_page z i \<in> bd_page z ` free_idx z \<longleftrightarrow> i \<in> free_idx z"
  using inj_on_image_mem_iff [OF bd_page_inj _ bd_free_idx_sub, of z i] by auto

lemma bd_page_index:
  assumes "bd_inv_zone z" "i < unat (z_total_pages z)"
  shows "phys_to_index z (bd_page z i) = of_nat i" "page_aligned (bd_page z i)" "bd_page z i \<noteq> 0"
    "z_base_phys z \<le> bd_page z i"
proof -
  note up = unat_bd_page [OF assms] and ui = unat_of_nat_less [OF assms(2)]
  show le: "z_base_phys z \<le> bd_page z i" using up by (simp add: word_le_nat_alt)
  have "unat (phys_to_index z (bd_page z i)) = i"
    using up le by (simp add: phys_to_index_def PAGE_SIZE_def unat_div unat_sub)
  then show "phys_to_index z (bd_page z i) = of_nat i" using ui by (simp add: word_unat_eq_iff)
  show "page_aligned (bd_page z i)" using assms(1) up by (auto simp: page_aligned_iff bd_inv_zone_def)
  show "bd_page z i \<noteq> 0"
    using assms(1) up by (auto simp: bd_inv_zone_def word_less_nat_alt)
qed

lemma bd_alloc:
  assumes "bd_inv s" "bd_free s \<noteq> {}"
  shows "\<exists>p s'. pmm_buddy_alloc_page s = (p, s') \<and> p \<in> bd_free s \<and> bd_inv s' \<and> bd_free s' = bd_free s - {p} \<and>
    bd_managed s' = bd_managed s"
proof -
  have rdy: "g_buddy_ready s" using assms(2) by (auto simp: bd_free_def split: if_splits)
  define z where "z = g_zone s"
  have inv: "bd_inv_zone z" using assms(1) rdy by (simp add: bd_inv_def z_def)
  have ne: "free_idx z \<noteq> {}" using assms(2) rdy by (auto simp: bd_free_def z_def)
  obtain idx z' where al: "buddy_alloc 0 z = (idx, z')" by fastforce
  note ba = buddy_alloc_page [OF inv ne al]
  have lt: "unat idx < unat (z_total_pages z)" using bd_free_idx_sub [OF inv] ba(1) by auto
  have tp: "unat (z_total_pages z) \<le> 2 ^ 20" using inv by (simp add: bd_inv_zone_def bd_core_def)
  have "z_total_free z = of_nat (card (free_idx z))" using inv by (simp add: bd_inv_zone_def bd_core_def)
  moreover have "card (free_idx z) \<le> 2 ^ 20"
    using card_mono [OF _ bd_free_idx_sub [OF inv]] tp by simp
  moreover have "card (free_idx z) \<noteq> 0" using ne by simp
  ultimately have "unat (z_total_free z) \<noteq> 0" by (simp add: unat_of_nat)
  then have tf: "z_total_free z \<noteq> 0" by auto
  have "idx \<noteq> - 1"
  proof
    assume "idx = - 1"
    moreover have "(- 1 :: u32) = 4294967295" by simp
    ultimately have "unat idx = 4294967295" by (simp only:) simp
    with lt tp show False by simp
  qed
  then have run: "pmm_buddy_alloc_page s = (index_to_phys z' idx, s\<lparr>g_zone := z'\<rparr>)"
    using rdy tf al by (simp add: pmm_buddy_alloc_page_def z_def [symmetric])
  have pg: "index_to_phys z' idx = bd_page z (unat idx)"
    by (simp add: bd_page_def index_to_phys_def ba(4))
  have same: "bd_page z' = bd_page z" by (simp add: fun_eq_iff bd_page_def index_to_phys_def ba(4))
  have "bd_free (s\<lparr>g_zone := z'\<rparr>) = bd_free s - {bd_page z (unat idx)}"
    using inj_on_image_set_diff [OF bd_page_inj [OF inv], of "free_idx z" "{unat idx}"] bd_free_idx_sub [OF inv] ba(1) rdy
    by (auto simp: bd_free_def same ba(2) z_def)
  then show ?thesis
    using run pg ba rdy same by (auto simp: bd_free_def bd_managed_def bd_inv_def z_def)
qed

lemma bd_alloc_none:
  assumes "bd_inv s" "bd_free s = {}"
  shows "pmm_buddy_alloc_page s = (0, s)"
proof (cases "g_buddy_ready s")
  case True
  then have "free_idx (g_zone s) = {}" using assms(2) by (simp add: bd_free_def)
  then have "z_total_free (g_zone s) = 0" using assms(1) True by (simp add: bd_inv_def bd_inv_zone_def bd_core_def)
  then show ?thesis by (simp add: pmm_buddy_alloc_page_def)
qed (simp add: pmm_buddy_alloc_page_def)

lemma bd_free_page:
  assumes "bd_inv s" "a \<in> bd_managed s - bd_free s"
  defines "s' \<equiv> pmm_buddy_free_page a s"
  shows "bd_inv s'" "bd_managed s' = bd_managed s" "bd_free s' = insert a (bd_free s)"
proof -
  have rdy: "g_buddy_ready s" using assms(2) by (auto simp: bd_managed_def split: if_splits)
  define z where "z = g_zone s"
  have inv: "bd_inv_zone z" using assms(1) rdy by (simp add: bd_inv_def z_def)
  obtain i where i: "i < unat (z_total_pages z)" "a = bd_page z i"
    using assms(2) rdy by (auto simp: bd_managed_def z_def)
  have ni: "i \<notin> free_idx z" using assms(2) rdy i bd_page_in_free [OF inv i(1)] by (auto simp: bd_free_def z_def)
  note pg = bd_page_index [OF inv i(1), folded i(2)] and ui = unat_of_nat_less [OF i(1)]
  have "\<not> isf z i"
  proof
    assume "isf z i"
    then have "i \<in> heads z" using i(1) by (simp add: heads_def)
    then show False using ni heads_free [of i z] in_block [of i "ord z i"] by blast
  qed
  then have nf: "pi_is_free (z_pages z ! i) = 0" by (simp add: isf_def)
  define z' where "z' = buddy_free (of_nat i) (unat (pi_order (z_pages z ! i))) z"
  have "\<not> z_total_pages z \<le> of_nat i" using ui i(1) by (simp add: word_le_nat_alt)
  then have s': "s' = s\<lparr>g_zone := z'\<rparr>"
    using rdy pg nf ui i(1)
    by (simp add: s'_def pmm_buddy_free_page_def z_def [symmetric] Let_def page_aligned_def PAGE_SIZE_def
        z'_def not_less [symmetric])
  note bf = buddy_free_one [OF inv, of "of_nat i", unfolded ui, OF i(1) ni, folded z'_def]
  have same: "bd_page z' = bd_page z" by (simp add: fun_eq_iff bd_page_def index_to_phys_def bf(3))
  show "bd_inv s'" "bd_managed s' = bd_managed s" "bd_free s' = insert a (bd_free s)"
    using bf rdy same i(2) by (simp_all add: s' bd_inv_def bd_managed_def bd_free_def z_def)
qed

interpretation bd: pmm_backend pmm_buddy_alloc_page pmm_buddy_free_page
  pmm_buddy_total_pages pmm_buddy_free_pages bd_inv bd_managed bd_free "\<lambda>s. bd_managed s - bd_free s"
proof
  fix s :: buddy_state and a
  assume inv: "bd_inv s"
  show "page_aligned a \<and> a \<noteq> 0" if "a \<in> bd_managed s"
    using inv that bd_page_index by (fastforce simp: bd_managed_def bd_inv_def split: if_splits)
  show sub: "bd_free s \<subseteq> bd_managed s"
    using inv bd_free_idx_sub by (auto simp: bd_free_def bd_managed_def bd_inv_def)
  show "bd_managed s - bd_free s \<subseteq> bd_managed s - bd_free s" by simp
  have al: "bd_inv (snd (pmm_buddy_alloc_page s)) \<and> bd_managed (snd (pmm_buddy_alloc_page s)) = bd_managed s \<and>
      (bd_free s = {} \<longrightarrow> fst (pmm_buddy_alloc_page s) = 0 \<and> bd_free (snd (pmm_buddy_alloc_page s)) = {}) \<and>
      (bd_free s \<noteq> {} \<longrightarrow> fst (pmm_buddy_alloc_page s) \<in> bd_free s \<and>
        bd_free (snd (pmm_buddy_alloc_page s)) = bd_free s - {fst (pmm_buddy_alloc_page s)})"
    using inv bd_alloc [OF inv] bd_alloc_none [OF inv] by (cases "bd_free s = {}") auto
  then show "bd_inv (snd (pmm_buddy_alloc_page s))"
    and "bd_managed (snd (pmm_buddy_alloc_page s)) = bd_managed s" by simp_all
  show "fst (pmm_buddy_alloc_page s) = 0 \<and> bd_free (snd (pmm_buddy_alloc_page s)) = {} \<and>
      bd_managed (snd (pmm_buddy_alloc_page s)) - bd_free (snd (pmm_buddy_alloc_page s)) =
      bd_managed s - bd_free s" if "bd_free s = {}"
    using al that by simp
  show "fst (pmm_buddy_alloc_page s) \<in> bd_free s \<and>
      bd_free (snd (pmm_buddy_alloc_page s)) = bd_free s - {fst (pmm_buddy_alloc_page s)} \<and>
      bd_managed (snd (pmm_buddy_alloc_page s)) - bd_free (snd (pmm_buddy_alloc_page s)) =
      insert (fst (pmm_buddy_alloc_page s)) (bd_managed s - bd_free s)" if "bd_free s \<noteq> {}"
    using al that sub by auto
  show "bd_inv (pmm_buddy_free_page a s)" "bd_managed (pmm_buddy_free_page a s) = bd_managed s"
    "bd_free (pmm_buddy_free_page a s) = insert a (bd_free s) \<and>
      bd_managed (pmm_buddy_free_page a s) - bd_free (pmm_buddy_free_page a s) = bd_managed s - bd_free s - {a}"
    if "a \<in> bd_managed s - bd_free s"
    using bd_free_page [OF inv that] that by auto
  show "pmm_buddy_free_pages s = of_nat (card (bd_free s))"
    using inv card_image [OF inj_on_subset [OF bd_page_inj bd_free_idx_sub], of "g_zone s"]
    by (auto simp: pmm_buddy_free_pages_def bd_free_def bd_inv_def bd_inv_zone_def bd_core_def)
  show "pmm_buddy_total_pages s = of_nat (card (bd_managed s))"
    using inv card_image [OF bd_page_inj, of "g_zone s"]
    by (auto simp: pmm_buddy_total_pages_def bd_managed_def bd_inv_def)
qed

end
