(* ===== verification/Pmm_Buddy_Init.thy ===== *)
theory Pmm_Buddy_Init
  imports Boot_Map Pmm_Buddy
begin

text \<open>
  Initialisation of the buddy back-end \<open>pmm_buddy.c\<close>: the largest usable range of the memory map,
  the place of the page table behind the kernel image and the boot information, the cutting of the
  managed pages into aligned blocks, the self-test and the operations table. The page table is the
  list \<open>z_pages\<close>; the bytes it occupies in memory are not written to \<open>b_mem\<close>.
\<close>

section \<open>Small helpers\<close>

definition align_up :: "u32 \<Rightarrow> u32 \<Rightarrow> u32" where "align_up v a = (v + (a - 1)) AND NOT (a - 1)"
definition align_down :: "u32 \<Rightarrow> u32 \<Rightarrow> u32" where "align_down v a = v AND NOT (a - 1)"

text \<open>What \<open>memzero\<close> makes of a \<open>page_info_t\<close> (12 bytes) and of the zone.\<close>

definition SIZEOF_PAGE_INFO :: u32 where "SIZEOF_PAGE_INFO = 12"

definition zero_node :: free_node where "zero_node = \<lparr>fn_prev = Null, fn_next = Null\<rparr>"

definition zero_page_info :: page_info where
  "zero_page_info = \<lparr>pi_node = zero_node, pi_order = 0, pi_is_free = 0\<rparr>"

definition zero_zone :: buddy_zone where
  "zero_zone = \<lparr>z_base_phys = 0, z_total_pages = 0, z_pages = [],
     z_free_list = replicate (Suc BUDDY_MAX_ORDER) zero_node,
     z_free_count = replicate (Suc BUDDY_MAX_ORDER) 0, z_total_free = 0\<rparr>"

fun init_lists :: "nat \<Rightarrow> buddy_zone \<Rightarrow> buddy_zone" where
  "init_lists 0 z = z"
| "init_lists (Suc i) z = list_init (Head i) (init_lists i z)"

section \<open>The largest usable range\<close>

definition buddy_entry_range :: "memory \<Rightarrow> u32 \<Rightarrow> (u32 \<times> u32) option" where
  "buddy_entry_range m p =
     (if entry_type m p \<noteq> 1 then None
      else
        (let s64 = entry_addr m p; e64 = entry_addr m p + entry_len m p in
         if 0x100000000 \<le> s64 then None
         else
           (let rs = (ucast s64 :: u32);
                re = (if 0x100000000 \<le> e64 then 0xFFFFFFFF else ucast e64 :: u32) in
            if re \<le> 0x100000 then None
            else
              (let rs = (if rs < 0x100000 then 0x100000 else rs) in
               if re \<le> rs then None else Some (rs, re)))))"

definition best_step :: "memory \<Rightarrow> u32 \<Rightarrow> u32 \<times> u32 \<Rightarrow> bool \<times> (u32 \<times> u32)" where
  "best_step m p best =
     (False, (case buddy_entry_range m p of None \<Rightarrow> best
        | Some (rs, re) \<Rightarrow> if snd best - fst best < re - rs then (rs, re) else best))"

section \<open>Cutting the zone into blocks\<close>

fun fill_order :: "nat \<Rightarrow> u32 \<Rightarrow> u32 \<Rightarrow> nat" where
  "fill_order 0 idx managed_pages = 0"
| "fill_order (Suc j) idx managed_pages =
     (let blk = push_bit (Suc j) 1 in
      if idx AND (blk - 1) = 0 \<and> idx + blk \<le> managed_pages then Suc j
      else fill_order j idx managed_pages)"

partial_function (option) fill_zone :: "u32 \<Rightarrow> u32 \<Rightarrow> buddy_zone \<Rightarrow> buddy_zone option" where
  "fill_zone idx managed_pages z =
     (if idx < managed_pages then
        (let order = fill_order BUDDY_MAX_ORDER idx managed_pages in
         fill_zone (idx + push_bit order 1) managed_pages (buddy_add_free idx order z))
      else Some z)"

section \<open>The self-test\<close>

definition buddy_selftest :: "buddy_state \<Rightarrow> bool \<times> buddy_state" where
  "buddy_selftest s =
     (let free_before = z_total_free (g_zone s) in
      case pmm_buddy_alloc_page s of (p1, s1) \<Rightarrow>
      (case pmm_buddy_alloc_page s1 of (p2, s2) \<Rightarrow>
         (if p1 = 0 \<or> p2 = 0 \<or> p1 = p2 then
            (let s3 = (if p1 \<noteq> 0 then pmm_buddy_free_page p1 s2 else s2) in
             (False, if p2 \<noteq> 0 then pmm_buddy_free_page p2 s3 else s3))
          else
            (let ok = (z_total_free (g_zone s2) = free_before - 2);
                 s3 = pmm_buddy_free_page p2 (pmm_buddy_free_page p1 s2)
             in (ok \<and> z_total_free (g_zone s3) = free_before, s3)))))"

section \<open>Initialisation\<close>

text \<open>Step 2 and step 3: where the managed pages start and how many there are.\<close>

definition buddy_layout :: "boot_info \<Rightarrow> memory \<Rightarrow> u32 \<Rightarrow> u32 \<Rightarrow> (u32 \<times> u32 \<times> u32) option" where
  "buddy_layout bi m best_start best_end =
     (let k_end_phys = align_up (kernel_phys_end bi) PAGE_SIZE;
          mb2_phys = g_mb2_info bi;
          mb2_size = rd32 m (PHYS_TO_VIRT mb2_phys);
          mb2_end_p = align_up (mb2_phys + mb2_size) PAGE_SIZE;
          safe_start = best_start;
          safe_start = (if safe_start < k_end_phys \<and> k_end_phys \<le> best_end then k_end_phys else safe_start);
          safe_start = (if safe_start < mb2_end_p \<and> mb2_end_p \<le> best_end then mb2_end_p else safe_start);
          region_start = align_up safe_start PAGE_SIZE;
          region_end = align_down best_end PAGE_SIZE;
          region_pages = (region_end - region_start) div PAGE_SIZE;
          info_bytes = region_pages * SIZEOF_PAGE_INFO;
          info_pages = align_up info_bytes PAGE_SIZE div PAGE_SIZE in
      if region_pages \<le> info_pages then None
      else
        (let managed_start = region_start + info_pages * PAGE_SIZE;
             managed_pages = (region_end - managed_start) div PAGE_SIZE in
         if managed_pages < 16 then None else Some (region_start, managed_start, managed_pages)))"

definition pmm_buddy_init :: "boot_info \<Rightarrow> buddy_state \<Rightarrow> buddy_state option" where
  "pmm_buddy_init bi s =
     (let z0 = init_lists (Suc BUDDY_MAX_ORDER) zero_zone;
          s0 = s\<lparr>g_buddy_ready := False, g_zone := z0\<rparr>; m = b_mem s in
      if g_mb2_info bi = 0 then Some s0
      else
        (let mb2_base = PHYS_TO_VIRT (g_mb2_info bi) in
         case mb2_find_mmap m mb2_base (rd32 m mb2_base) of
           None \<Rightarrow> None
         | Some tag \<Rightarrow>
             (if tag = 0 then Some s0
              else if tag_size m tag < 16 \<or> mmap_entry_size m tag < 24 then Some s0
              else
                (case mmap_loop (mmap_entry_size m tag) (tag + tag_size m tag) (best_step m) (tag + 16) (0, 0) of
                   None \<Rightarrow> None
                 | Some (best_start, best_end) \<Rightarrow>
                     if best_end \<le> best_start \<or> best_end - best_start < 32 * PAGE_SIZE then Some s0
                     else
                       (case buddy_layout bi m best_start best_end of
                          None \<Rightarrow> Some s0
                        | Some (region_start, managed_start, managed_pages) \<Rightarrow>
                            (let z1 = z0\<lparr>z_base_phys := managed_start, z_total_pages := managed_pages,
                                   z_pages := replicate (unat managed_pages) zero_page_info, z_total_free := 0\<rparr> in
                             map_option (\<lambda>z. snd (buddy_selftest (s\<lparr>g_zone := z, g_buddy_ready := True\<rparr>)))
                               (fill_zone 0 managed_pages z1)))))))"

definition g_buddy_ops :: "boot_info \<Rightarrow> buddy_state pmm_ops" where
  "g_buddy_ops bi = \<lparr>po_name = ''buddy'', po_init = pmm_buddy_init bi,
     po_alloc_page = Some pmm_buddy_alloc_page, po_free_page = Some pmm_buddy_free_page,
     po_total_pages = Some pmm_buddy_total_pages, po_free_pages = Some pmm_buddy_free_pages,
     po_managed_base = Some pmm_buddy_managed_base, po_page_addr = Some pmm_buddy_page_addr,
     po_page_is_used = Some pmm_buddy_page_is_used\<rparr>"

declare fill_zone.simps [code]

lemma align_eqs: "align_up = align_up_u32" "align_down = align_down_u32"
  by (simp_all add: fun_eq_iff align_up_def align_up_u32_def align_down_def align_down_u32_def)

section \<open>The empty zone\<close>

lemma init_lists_links:
  "n \<le> length (z_free_list z) \<Longrightarrow> nnext (init_lists n z) = (\<lambda>r. case r of Head i \<Rightarrow> if i < n then Head i else nnext z r | _ \<Rightarrow> nnext z r) \<and>
    nprev (init_lists n z) = (\<lambda>r. case r of Head i \<Rightarrow> if i < n then Head i else nprev z r | _ \<Rightarrow> nprev z r) \<and>
    vref (init_lists n z) = vref z \<and> length (z_free_list (init_lists n z)) = length (z_free_list z) \<and>
    z_free_count (init_lists n z) = z_free_count z"
proof (induction n)
  case 0
  then show ?case by (auto simp: fun_eq_iff split: nref.split)
next
  case (Suc n)
  then have IH: "nnext (init_lists n z) = (\<lambda>r. case r of Head i \<Rightarrow> if i < n then Head i else nnext z r | _ \<Rightarrow> nnext z r)"
    "nprev (init_lists n z) = (\<lambda>r. case r of Head i \<Rightarrow> if i < n then Head i else nprev z r | _ \<Rightarrow> nprev z r)"
    "vref (init_lists n z) = vref z" "length (z_free_list (init_lists n z)) = length (z_free_list z)"
    "z_free_count (init_lists n z) = z_free_count z" by auto
  have v: "vref (init_lists n z) (Head n)" using Suc.prems IH(3) by simp
  then show ?case
    using IH by (auto simp: list_init_def links_set zone_simps fun_eq_iff split: nref.split)
qed

lemma empty_zone_core:
  fixes b n :: u32
  assumes "unat n \<le> 2 ^ 20"
  defines "z \<equiv> (init_lists (Suc BUDDY_MAX_ORDER) zero_zone)\<lparr>z_base_phys := b, z_total_pages := n,
    z_pages := replicate (unat n) zero_page_info, z_total_free := 0\<rparr>"
  shows "bd_core z" "free_idx z = {}" "j < unat n \<Longrightarrow> ord z j = 0" "z_base_phys z = b" "z_total_pages z = n"
proof -
  let ?z0 = "init_lists (Suc BUDDY_MAX_ORDER) zero_zone"
  have "Suc BUDDY_MAX_ORDER \<le> length (z_free_list zero_zone)" by (simp add: zero_zone_def)
  note il = init_lists_links [OF this]
  have node: "get_node z (Head k) = get_node ?z0 (Head k)" for k by (simp add: z_def)
  have lk: "nnext z (Head k) = Head k" "nprev z (Head k) = Head k" if "k \<le> BUDDY_MAX_ORDER" for k
  proof -
    have "nnext ?z0 (Head k) = Head k" "nprev ?z0 (Head k) = Head k" using il that by simp_all
    moreover have "nnext z (Head k) = nnext ?z0 (Head k)" "nprev z (Head k) = nprev ?z0 (Head k)"
      unfolding nnext_def nprev_def node by (rule refl)+
    ultimately show "nnext z (Head k) = Head k" "nprev z (Head k) = Head k" by simp_all
  qed
  have fl: "length (z_free_list z) = Suc BUDDY_MAX_ORDER" "z_free_count z = replicate (Suc BUDDY_MAX_ORDER) 0"
    using il by (simp_all add: z_def zero_zone_def)
  show o0: "ord z j = 0" if "j < unat n" for j using that by (simp add: z_def ord_def zero_page_info_def)
  have "heads z = {}" by (auto simp: heads_def isf_def z_def zero_page_info_def)
  then show fi: "free_idx z = {}" and "z_base_phys z = b" "z_total_pages z = n"
    by (simp_all add: free_idx_def z_def)
  have oh: "order_heads z k = {}" for k using \<open>heads z = {}\<close> by (simp add: order_heads_def)
  have on: "on_list z k" if "k \<le> BUDDY_MAX_ORDER" for k
    using lk [OF that] oh unfolding on_list_def by (intro exI [of _ "[]"]) (simp add: ring_Nil)
  have cnt: "z_free_count z ! k = 0" if "k \<le> BUDDY_MAX_ORDER" for k
    unfolding fl(2) using that by (intro nth_replicate) simp
  have "length (z_pages z) = unat (z_total_pages z)" "z_total_free z = 0" "unat (z_total_pages z) \<le> 2 ^ 20"
    using assms(1) by (simp_all add: z_def)
  then show "bd_core z"
    unfolding bd_core_def using on cnt fl fi \<open>heads z = {}\<close> oh by (simp add: disjoint_family_on_def)
qed

section \<open>Cutting into blocks covers the zone\<close>

lemma low_mask: "idx AND (push_bit k 1 - 1) = 0 \<longleftrightarrow> 2 ^ k dvd unat idx" for idx :: u32
proof -
  have "(push_bit k 1 - 1 :: u32) = mask k" by (simp add: mask_eq_exp_minus_1)
  then have "idx AND (push_bit k 1 - 1) = 0 \<longleftrightarrow> unat (idx AND mask k) = 0"
    by (simp only: unsigned_eq_0_iff)
  then show ?thesis by (simp only: unat_and_mask dvd_eq_mod_eq_0)
qed

lemma fill_order_ok:
  assumes "idx < n" "unat n \<le> 2 ^ 20" "j \<le> BUDDY_MAX_ORDER"
  shows "fill_order j idx n \<le> j \<and> 2 ^ fill_order j idx n dvd unat idx \<and> unat idx + 2 ^ fill_order j idx n \<le> unat n"
  using assms(3)
proof (induction j)
  case 0
  then show ?case using assms(1) by (simp add: word_less_nat_alt Suc_le_eq)
next
  case (Suc j)
  have k: "Suc j \<le> 20" using Suc.prems by (simp add: BUDDY_MAX_ORDER_def)
  have p: "unat (push_bit (Suc j) 1 :: u32) = 2 ^ Suc j" using k by (intro unat_pow2) simp
  have "(2 :: nat) ^ Suc j \<le> 2 ^ 20" using k by (intro power_increasing) simp_all
  moreover have "unat idx < 2 ^ 20" using assms(1,2) by (simp add: word_less_nat_alt)
  ultimately have lim: "unat idx + 2 ^ Suc j < 2 ^ 32" by simp
  have sum: "unat (idx + push_bit (Suc j) 1) = unat idx + 2 ^ Suc j"
    using unat_add_no_wrap [of idx "push_bit (Suc j) 1"] lim unfolding p by simp
  show ?case
  proof (cases "idx AND (push_bit (Suc j) 1 - 1) = 0 \<and> idx + push_bit (Suc j) 1 \<le> n")
    case True
    then have "fill_order (Suc j) idx n = Suc j" by (simp only: fill_order.simps Let_def if_True simp_thms)
    moreover have "2 ^ Suc j dvd unat idx" using True low_mask by blast
    moreover have "unat idx + 2 ^ Suc j \<le> unat n" using True unfolding word_le_nat_alt sum by blast
    ultimately show ?thesis by simp
  next
    case False
    then have "fill_order (Suc j) idx n = fill_order j idx n" by (simp only: fill_order.simps Let_def if_False)
    then show ?thesis using Suc by simp
  qed
qed

lemma fill_zone:
  assumes "bd_core z" "z_total_pages z = n" "unat idx \<le> unat n" "free_idx z = {..< unat idx}"
  shows "\<exists>z'. fill_zone idx n z = Some z' \<and> bd_core z' \<and> free_idx z' = {..< unat n} \<and>
    z_base_phys z' = z_base_phys z \<and> z_total_pages z' = n"
  using assms
proof (induction "unat n - unat idx" arbitrary: idx z rule: less_induct)
  case less
  show ?case
  proof (cases "idx < n")
    case True
    define k where "k = fill_order BUDDY_MAX_ORDER idx n"
    define z1 where "z1 = buddy_add_free idx k z"
    have n: "unat n \<le> 2 ^ 20" using less.prems(1,2) by (auto simp: bd_core_def)
    have k: "k \<le> BUDDY_MAX_ORDER" "2 ^ k dvd unat idx" "unat idx + 2 ^ k \<le> unat n"
      using fill_order_ok [OF True n order_refl] by (simp_all add: k_def)
    have nxt: "unat (idx + push_bit k 1) = unat idx + 2 ^ k"
      using k(3) n by (intro unat_half [of _ k]) auto
    have bok: "block_ok z (unat idx) k" using k less.prems(2) by (simp add: block_ok_def)
    have "block (unat idx) k \<inter> free_idx z = {}" unfolding less.prems(4) by (auto simp: block_def)
    note add = buddy_add_free [OF less.prems(1) bok this, folded z1_def]
    have step: "fill_zone idx n z = fill_zone (idx + push_bit k 1) n z1"
      using True by (subst fill_zone.simps) (simp only: Let_def k_def z1_def if_True)
    have "free_idx z1 = {..< unat (idx + push_bit k 1)}"
      unfolding add(4) less.prems(4) nxt block_def by auto
    moreover have "unat n - unat (idx + push_bit k 1) < unat n - unat idx"
      using k(3) unfolding nxt by (intro diff_less_mono2) (auto intro: less_le_trans [rotated])
    moreover have "unat (idx + push_bit k 1) \<le> unat n" using k(3) nxt by simp
    ultimately show ?thesis
      unfolding step using less.hyps [of "idx + push_bit k 1" z1] add(1,5,6) less.prems(2) by simp
  next
    case False
    then have "unat idx = unat n" using less.prems(3) by (simp add: word_less_nat_alt)
    then show ?thesis using False less.prems by (subst fill_zone.simps) simp
  qed
qed

section \<open>The self-test succeeds\<close>

lemma buddy_selftest:
  assumes "bd_inv s" "2 \<le> card (bd_free s)" "buddy_selftest s = (ok, s')"
  shows "ok" "bd_inv s'" "bd_free s' = bd_free s" "bd_managed s' = bd_managed s"
proof -
  obtain p1 s1 where a1: "pmm_buddy_alloc_page s = (p1, s1)" by fastforce
  obtain p2 s2 where a2: "pmm_buddy_alloc_page s1 = (p2, s2)" by fastforce
  define s3 where "s3 = pmm_buddy_free_page p2 (pmm_buddy_free_page p1 s2)"
  have an: "alloc_n pmm_buddy_alloc_page 2 s = ([p1, p2], s2)" using a1 a2 by (simp add: numeral_2_eq_2)
  note al = bd.alloc_n_distinct [OF assms(1,2) an]
  have fa: "free_all pmm_buddy_free_page [p1, p2] s2 = s3" by (simp add: s3_def)
  have ps: "distinct [p1, p2]" "set [p1, p2] \<subseteq> bd_managed s2 - bd_free s2"
    using al bd.free_managed [OF assms(1)] by auto
  note fr = bd.free_all_free [OF conjunct1 [OF al] ps, unfolded fa]
  have inv3: "bd_inv s3" "bd_free s3 = bd_free s" "bd_managed s3 = bd_managed s" using fr al by auto
  have rdy: "g_buddy_ready x" if "bd_free x \<noteq> {}" for x using that by (auto simp: bd_free_def split: if_splits)
  have tot: "z_total_free (g_zone x) = of_nat (card (bd_free x))" if "bd_inv x" "g_buddy_ready x" for x
    using bd.free_pages_card [OF that(1)] that(2) by (simp add: pmm_buddy_free_pages_def)
  have ne: "bd_free s \<noteq> {}" using assms(2) by auto
  have rs: "g_buddy_ready s" using rdy [OF ne] .
  have r12: "g_buddy_ready s2" using a1 a2 rs
    by (auto simp: pmm_buddy_alloc_page_def split: if_splits prod.splits)
  have "card (bd_free s2) = card (bd_free s) - 2" using al by (simp add: card_Diff_subset)
  then have c2: "(of_nat (card (bd_free s2)) :: u32) = of_nat (card (bd_free s)) - 2" using assms(2) by simp
  have "ok \<and> s' = s3"
  proof -
    have "p1 \<noteq> 0" "p2 \<noteq> 0" "p1 \<noteq> p2" using al by auto
    then have "buddy_selftest s = (z_total_free (g_zone s2) = z_total_free (g_zone s) - 2 \<and>
        z_total_free (g_zone s3) = z_total_free (g_zone s), s3)"
      using a1 a2 by (simp add: buddy_selftest_def Let_def s3_def)
    moreover have "z_total_free (g_zone s2) = z_total_free (g_zone s) - 2"
      using tot [OF assms(1) rs] tot [OF conjunct1 [OF al] r12] c2 by simp
    moreover have "z_total_free (g_zone s3) = z_total_free (g_zone s)"
      using tot [OF assms(1) rs] tot [OF inv3(1) rdy] inv3(2) ne by simp
    ultimately show ?thesis using assms(3) by simp
  qed
  then show "ok" "bd_inv s'" "bd_free s' = bd_free s" "bd_managed s' = bd_managed s" using inv3 by simp_all
qed

section \<open>The chosen range\<close>

definition buddy_best :: "memory \<Rightarrow> u32 list \<Rightarrow> u32 \<times> u32" where
  "buddy_best m ps = fold_entries (best_step m) ps (0, 0)"

lemma buddy_entry_range_ge:
  "buddy_entry_range m p = Some (a, b) \<Longrightarrow> 0x100000 \<le> a \<and> a < b"
  by (auto simp: buddy_entry_range_def Let_def split: if_splits)

lemma fold_best:
  assumes "fold_entries (best_step m) ps best = (a, b)"
  shows "((a, b) = best \<or> (\<exists>p \<in> set ps. buddy_entry_range m p = Some (a, b))) \<and> snd best - fst best \<le> b - a \<and>
    (\<forall>p \<in> set ps. \<forall>c d. buddy_entry_range m p = Some (c, d) \<longrightarrow> d - c \<le> b - a)"
  using assms
proof (induction ps arbitrary: best)
  case (Cons p ps)
  define nb where "nb = snd (best_step m p best)"
  have "fold_entries (best_step m) ps nb = (a, b)"
  proof -
    have "best_step m p best = (False, nb)" by (simp add: nb_def best_step_def)
    then show ?thesis using Cons.prems by simp
  qed
  note IH = Cons.IH [OF this]
  have nb: "nb = best \<or> buddy_entry_range m p = Some nb" "snd best - fst best \<le> snd nb - fst nb"
    "\<And>c d. buddy_entry_range m p = Some (c, d) \<Longrightarrow> d - c \<le> snd nb - fst nb"
    by (auto simp: nb_def best_step_def split: option.splits)
  show ?case using IH nb by (auto intro: order_trans)
qed simp

lemma round_up_bounds: "x \<le> (x + 4095) div 4096 * 4096" "(x + 4095) div 4096 * 4096 \<le> x + 4095" for x :: nat
  using mod_less_divisor [of 4096 "x + 4095"] div_mult_mod_eq [of "x + 4095" 4096] by linarith+

lemma buddy_layout_safe:
  assumes "buddy_layout bi m a b = Some (rs, ms, n)" "0x100000 \<le> a" "a < b" "unat b - unat a \<ge> 0x20000"
    and "unat (kernel_phys_end bi) \<le> 0xFFFFF000" "unat (mb2_end_of bi m) \<le> 0xFFFFF000"
  shows "a \<le> rs" "unat rs + 12 * unat n \<le> unat ms" "page_aligned ms" "unat ms + unat n * 4096 \<le> unat b"
    "16 \<le> unat n" "unat n \<le> 2 ^ 20" "align_up_u32 (kernel_phys_end bi) 4096 \<le> b \<Longrightarrow> align_up_u32 (kernel_phys_end bi) 4096 \<le> rs"
    "align_up_u32 (mb2_end_of bi m) 4096 \<le> b \<Longrightarrow> align_up_u32 (mb2_end_of bi m) 4096 \<le> rs"
proof -
  define ke where "ke = align_up_u32 (kernel_phys_end bi) 4096"
  define me where "me = align_up_u32 (mb2_end_of bi m) 4096"
  define s1 where "s1 = (if a < ke \<and> ke \<le> b then ke else a)"
  define s2 where "s2 = (if s1 < me \<and> me \<le> b then me else s1)"
  define re where "re = align_down_u32 b 4096"
  define rp where "rp = (re - rs) div 4096"
  define ip where "ip = align_up_u32 (rp * 12) 4096 div 4096"
  have L: "(if rp \<le> ip then None else if (re - (rs + ip * 4096)) div 4096 < 16 then None
      else Some (rs, rs + ip * 4096, (re - (rs + ip * 4096)) div 4096)) = Some (rs, ms, n) \<and> rs = align_up_u32 s2 4096"
    using assms(1) unfolding buddy_layout_def Let_def align_eqs PAGE_SIZE_def mb2_end_of_def [symmetric]
      ke_def [symmetric] me_def [symmetric] s1_def [symmetric] s2_def [symmetric] re_def [symmetric] SIZEOF_PAGE_INFO_def
    by (auto simp: rp_def ip_def split: if_splits)
  then have rs: "rs = align_up_u32 s2 4096" and lt: "ip < rp"
    and ms: "ms = rs + ip * 4096" and n: "n = (re - ms) div 4096" and n16: "16 \<le> n"
    by (auto simp: not_le not_less split: if_splits)
  have al: "page_aligned ke" "page_aligned me" "page_aligned re" "page_aligned rs"
    by (simp_all add: ke_def me_def re_def rs page_aligned_align_up page_aligned_align_down)
  have ge: "a \<le> s1" "s1 \<le> s2" by (auto simp: s1_def s2_def)
  have in_b: "s1 \<le> b" "s2 \<le> b" using assms(3) by (auto simp: s1_def s2_def)
  have re: "unat re \<le> unat b" "unat b < unat re + 4096"
    using mod_less_divisor [of 4096 "unat b"] by (simp_all add: re_def unat_align_down)
  have below: "unat s2 \<le> 0xFFFFF000 \<and> (page_aligned s2 \<or> s2 = a)"
  proof -
    have "page_aligned s2 \<or> s2 = a" using al by (auto simp: s1_def s2_def)
    moreover have "unat s2 \<le> 0xFFFFF000" if "page_aligned s2"
      using that unat_lt_2p32 [of s2] by (auto simp: page_aligned_iff dvd_def)
    moreover have "unat a \<le> 0xFFFFF000" using assms(3,4) unat_lt_2p32 [of b] by linarith
    ultimately show ?thesis by auto
  qed
  then have urs: "unat rs = (unat s2 + 4095) div 4096 * 4096" by (simp add: rs unat_align_up)
  have s2rs: "unat s2 \<le> unat rs" unfolding urs using round_up_bounds(1) .
  have le: "unat rs \<le> unat re"
  proof (cases "page_aligned s2")
    case True
    then have "unat rs = unat s2" by (auto simp: urs page_aligned_iff dvd_def)
    moreover obtain i j where "unat s2 = 4096 * i" "unat re = 4096 * j"
      using True al(3) by (auto simp: page_aligned_iff dvd_def)
    moreover have "unat s2 \<le> unat b" using in_b(2) by (simp add: word_le_nat_alt)
    ultimately show ?thesis using re(2) by simp
  next
    case False
    then have "s2 = a" using below by blast
    then have "unat rs \<le> unat a + 4095" unfolding urs using round_up_bounds(2) by simp
    then show ?thesis using assms(3,4) re(2) by linarith
  qed
  obtain i j where ij: "unat rs = 4096 * i" "unat re = 4096 * j"
    using al(3,4) by (auto simp: page_aligned_iff dvd_def)
  have urp: "unat rp = j - i" using le by (simp add: rp_def unat_div unat_sub word_le_nat_alt ij diff_mult_distrib2 [symmetric])
  have j: "j < 1048576" using unat_lt_2p32 [of re] ij by simp
  have "unat (rp * 12) = 12 * (j - i)" using urp j by (simp add: unat_word_ariths)
  moreover from this have "unat (rp * 12) \<le> 0xFFFFF000" using j by linarith
  ultimately have uip: "unat ip = (12 * (j - i) + 4095) div 4096" by (simp add: ip_def unat_div unat_align_up)
  have lt': "unat ip < j - i" using lt urp by (simp add: word_less_nat_alt)
  have "unat (ip * 4096) = unat ip * 4096" using lt' j by (simp add: unat_word_ariths)
  moreover have "4096 * i + unat ip * 4096 < 2 ^ 32" using lt' j by simp
  ultimately have ums: "unat ms = 4096 * (i + unat ip)" using ij by (simp add: ms) (subst unat_add_no_wrap; simp)
  have sum: "i + unat ip < j" using lt' by (simp only: less_diff_conv add.commute)
  then have "unat ms \<le> unat re" unfolding ums ij by simp
  then have un: "unat n = j - (i + unat ip)"
    by (simp add: n unat_div unat_sub word_le_nat_alt ums ij diff_mult_distrib2 [symmetric])
  show "page_aligned ms" using ums by (simp add: page_aligned_iff)
  show "16 \<le> unat n" using n16 by (simp add: word_le_nat_alt)
  show "unat n \<le> 2 ^ 20" using un j by simp
  show "a \<le> rs" using ge s2rs by (auto simp: word_le_nat_alt)
  have "unat n + unat ip = j - i" using un sum by simp
  moreover have "12 * (j - i) \<le> 4096 * unat ip" unfolding uip using round_up_bounds(1) [of "12 * (j - i)"] by (simp add: mult.commute)
  ultimately show "unat rs + 12 * unat n \<le> unat ms" unfolding ums ij(1) by simp
  show "unat ms + unat n * 4096 \<le> unat b" using un sum re(1) unfolding ums ij(2) by simp
  show "ke \<le> rs" if "ke \<le> b"
  proof -
    have "ke \<le> s1" using that by (auto simp: s1_def)
    then show ?thesis using ge(2) s2rs by (auto simp: word_le_nat_alt)
  qed
  show "me \<le> rs" if "me \<le> b"
  proof -
    have "me \<le> s2" using that by (auto simp: s2_def)
    then show ?thesis using s2rs by (auto simp: word_le_nat_alt)
  qed
qed

section \<open>Initialisation\<close>

text \<open>A memory map the boot loader may pass. The kernel image and the boot information do not straddle
  the end of a usable range: they end (rounded up to a page) inside it or start behind it.\<close>

definition clear_of_end :: "u32 \<Rightarrow> u32 \<Rightarrow> u32 \<Rightarrow> bool" where
  "clear_of_end start en b \<longleftrightarrow> align_up_u32 en 4096 \<le> b \<or> b \<le> start"

definition buddy_map_ok :: "boot_info \<Rightarrow> memory \<Rightarrow> u32 \<Rightarrow> bool" where
  "buddy_map_ok bi m tag \<longleftrightarrow> g_mb2_info bi \<noteq> 0 \<and>
     mb2_find_tag m (PHYS_TO_VIRT (g_mb2_info bi)) (rd32 m (PHYS_TO_VIRT (g_mb2_info bi))) MB2_TAG_TYPE_MMAP
       = Some (MB2_FIND_OK tag) \<and> tag \<noteq> 0 \<and> mmap_tag_ok m tag \<and>
     unat (kernel_phys_end bi) \<le> 0xFFFFF000 \<and> unat (mb2_end_of bi m) \<le> 0xFFFFF000 \<and>
     (\<forall>p \<in> set (mmap_ptrs m tag). case buddy_entry_range m p of None \<Rightarrow> True
        | Some (a, b) \<Rightarrow> clear_of_end (kernel_phys_start bi) (kernel_phys_end bi) b \<and>
            clear_of_end (g_mb2_info bi) (mb2_end_of bi m) b)"

lemma not_touched:
  assumes "page_aligned x" "align_up_u32 en 4096 \<le> x \<or> unat x + 4096 \<le> unat st"
  shows "x \<notin> touched_pages st en"
proof
  assume "x \<in> touched_pages st en"
  then have x: "align_down_u32 st 4096 \<le> x" "x < align_up_u32 en 4096"
    by (auto simp: touched_pages_def pages_between_def split: if_splits)
  then have "unat x + 4096 \<le> unat st" using assms(2) by auto
  moreover have "unat st - unat st mod 4096 \<le> unat x" using x(1) by (simp add: word_le_nat_alt unat_align_down)
  ultimately show False using mod_less_divisor [of 4096 "unat st"] by linarith
qed

lemma buddy_zone_ready:
  assumes L: "buddy_layout bi m a b = Some (rs, ms, n)" "0x100000 \<le> a" "a < b" "unat b - unat a \<ge> 0x20000"
    and lim: "unat (kernel_phys_end bi) \<le> 0xFFFFF000" "unat (mb2_end_of bi m) \<le> 0xFFFFF000"
  defines "z1 \<equiv> (init_lists (Suc BUDDY_MAX_ORDER) zero_zone)\<lparr>z_base_phys := ms, z_total_pages := n,
    z_pages := replicate (unat n) zero_page_info, z_total_free := 0\<rparr>"
  shows "\<exists>z. fill_zone 0 n z1 = Some z \<and> bd_inv_zone z \<and> free_idx z = {..< unat n} \<and> z_base_phys z = ms \<and>
    z_total_pages z = n"
proof -
  note ly = buddy_layout_safe [OF L lim]
  note ez = empty_zone_core [OF ly(6), where b = ms, folded z1_def]
  obtain z where z: "fill_zone 0 n z1 = Some z" "bd_core z" "free_idx z = {..< unat n}"
    "z_base_phys z = ms" "z_total_pages z = n"
    using fill_zone [OF ez(1,5), of 0] ez(2,4) by auto
  have "unat ms + unat n * 4096 < 2 ^ 32" using ly(4) unat_lt_2p32 [of b] by simp
  moreover have "0 < ms" using ly(1,2) L(2) by (auto simp: word_less_nat_alt word_le_nat_alt)
  ultimately have "bd_inv_zone z" using z ly(3) by (simp add: bd_inv_zone_def)
  with z show ?thesis by blast
qed

lemma buddy_init_run:
  assumes "buddy_map_ok bi (b_mem s) tag" "buddy_best (b_mem s) (mmap_ptrs (b_mem s) tag) = (a, b)"
  shows "pmm_buddy_init bi s =
    (let z0 = init_lists (Suc BUDDY_MAX_ORDER) zero_zone; s0 = s\<lparr>g_buddy_ready := False, g_zone := z0\<rparr> in
     if b \<le> a \<or> b - a < 32 * PAGE_SIZE then Some s0
     else case buddy_layout bi (b_mem s) a b of None \<Rightarrow> Some s0
       | Some (rs, ms, n) \<Rightarrow> map_option (\<lambda>z. snd (buddy_selftest (s\<lparr>g_zone := z, g_buddy_ready := True\<rparr>)))
           (fill_zone 0 n (z0\<lparr>z_base_phys := ms, z_total_pages := n,
              z_pages := replicate (unat n) zero_page_info, z_total_free := 0\<rparr>)))"
proof -
  define m where "m = b_mem s"
  note B = assms(1) [folded m_def, unfolded buddy_map_ok_def]
  have tag: "mb2_find_mmap m (PHYS_TO_VIRT (g_mb2_info bi)) (rd32 m (PHYS_TO_VIRT (g_mb2_info bi))) = Some tag"
    using B by (simp add: mb2_find_mmap_eq find_result_ptr_def)
  have "mmap_loop (mmap_entry_size m tag) (tag + tag_size m tag) (best_step m) (tag + 16) (0, 0) = Some (a, b)"
    using B assms(2) by (simp add: mmap_tag_walk buddy_best_def m_def)
  with B tag show ?thesis
    unfolding pmm_buddy_init_def m_def [symmetric] Let_def by (simp add: mmap_tag_ok_def not_less [symmetric] flip: m_def)
qed

lemma buddy_init:
  assumes "buddy_map_ok bi (b_mem s) tag" "buddy_best (b_mem s) (mmap_ptrs (b_mem s) tag) = (a, b)"
  shows "\<exists>s'. pmm_buddy_init bi s = Some s' \<and> bd_inv s' \<and> bd_free s' = bd_managed s' \<and>
    (g_buddy_ready s' \<longleftrightarrow> a < b \<and> 32 * PAGE_SIZE \<le> b - a \<and> buddy_layout bi (b_mem s) a b \<noteq> None) \<and>
    bd_managed s' \<inter> touched_pages (kernel_phys_start bi) (kernel_phys_end bi) = {} \<and>
    bd_managed s' \<inter> touched_pages (g_mb2_info bi) (mb2_end_of bi (b_mem s)) = {} \<and>
    (\<forall>x \<in> bd_managed s'. a \<le> x \<and> unat x + 4096 \<le> unat b)"
proof -
  define m where "m = b_mem s"
  note B = assms(1) [folded m_def, unfolded buddy_map_ok_def]
  note run = buddy_init_run [OF assms, unfolded Let_def, folded m_def]
  show ?thesis
  proof (cases "a < b \<and> 32 * PAGE_SIZE \<le> b - a \<and> buddy_layout bi m a b \<noteq> None")
    case False
    then have "pmm_buddy_init bi s = Some (s\<lparr>g_buddy_ready := False, g_zone := init_lists (Suc BUDDY_MAX_ORDER) zero_zone\<rparr>)"
      unfolding run by (auto simp: not_less not_le split: option.split)
    with False show ?thesis by (simp add: bd_inv_def bd_free_def bd_managed_def flip: m_def)
  next
    case True
    then obtain rs ms n where L: "buddy_layout bi m a b = Some (rs, ms, n)" by auto
    have size: "a < b" "unat b - unat a \<ge> 0x20000"
    proof -
      have "unat (b - a) = unat b - unat a" using True by (intro unat_sub) (simp add: less_imp_le)
      then show "a < b" "unat b - unat a \<ge> 0x20000" using True by (simp_all add: word_le_nat_alt PAGE_SIZE_def)
    qed
    have "(a, b) \<noteq> (0, 0)" using size by auto
    then obtain p where p: "p \<in> set (mmap_ptrs m tag)" "buddy_entry_range m p = Some (a, b)"
      using fold_best [of m "mmap_ptrs m tag" "(0, 0)" a b] assms(2) by (auto simp: buddy_best_def m_def)
    have a: "0x100000 \<le> a" using buddy_entry_range_ge [OF p(2)] by simp
    have lim: "unat (kernel_phys_end bi) \<le> 0xFFFFF000" "unat (mb2_end_of bi m) \<le> 0xFFFFF000" using B by auto
    note ly = buddy_layout_safe [OF L a size lim]
    obtain z where z: "fill_zone 0 n ((init_lists (Suc BUDDY_MAX_ORDER) zero_zone)\<lparr>z_base_phys := ms,
        z_total_pages := n, z_pages := replicate (unat n) zero_page_info, z_total_free := 0\<rparr>) = Some z"
      "bd_inv_zone z" "free_idx z = {..< unat n}" "z_base_phys z = ms" "z_total_pages z = n"
      using buddy_zone_ready [OF L a size lim] by blast
    define s1 where "s1 = s\<lparr>g_zone := z, g_buddy_ready := True\<rparr>"
    obtain ok s' where st: "buddy_selftest s1 = (ok, s')" by fastforce
    have inv1: "bd_inv s1" and fr1: "bd_free s1 = bd_managed s1"
      using z by (simp_all add: s1_def bd_inv_def bd_free_def bd_managed_def)
    have c1: "card (bd_free s1) = unat n"
      using z card_image [OF bd_page_inj [OF z(2)]] by (simp add: s1_def bd_free_def)
    then have "2 \<le> card (bd_free s1)" using ly(5) by simp
    note se = buddy_selftest [OF inv1 this st]
    have res: "pmm_buddy_init bi s = Some s'"
      using True z(1) st unfolding run by (simp add: L s1_def not_less [symmetric] not_le)
    have in_b: "page_aligned x \<and> rs \<le> x \<and> a \<le> x \<and> unat x + 4096 \<le> unat b" if x: "x \<in> bd_managed s1" for x
    proof -
      obtain i where i: "i < unat n" "x = bd_page z i" using x z by (auto simp: s1_def bd_managed_def)
      have ux: "unat x = unat ms + i * 4096" using unat_bd_page [OF z(2), of i] i z by simp
      have "(i + 1) * 4096 \<le> unat n * 4096" using i(1) by (intro mult_le_mono1) simp
      then have "unat x + 4096 \<le> unat b" using ux ly(4) by simp
      moreover have "unat rs \<le> unat x" using ux ly(2) by simp
      ultimately show ?thesis using ly(1) bd_page_index(2) [OF z(2), of i] i z by (auto simp: word_le_nat_alt)
    qed
    have ends: "clear_of_end (kernel_phys_start bi) (kernel_phys_end bi) b" "clear_of_end (g_mb2_info bi) (mb2_end_of bi m) b"
      using B p by (auto dest!: bspec [OF _ p(1)])
    have cl: "x \<notin> touched_pages st en" if x: "x \<in> bd_managed s1" and e: "clear_of_end st en b"
      "align_up_u32 en 4096 \<le> b \<Longrightarrow> align_up_u32 en 4096 \<le> rs" for x st en
      using in_b [OF x] e by (intro not_touched) (auto simp: clear_of_end_def word_le_nat_alt)
    have "g_buddy_ready s'"
    proof -
      have "bd_managed s' \<noteq> {}" using se(4) fr1 c1 ly(5) by (metis card.empty not_numeral_le_zero)
      then show ?thesis by (auto simp: bd_managed_def split: if_splits)
    qed
    with res se fr1 in_b cl ends ly(7,8) True show ?thesis unfolding m_def [symmetric] by (auto 0 3)
  qed
qed

section \<open>Properties\<close>

text \<open>A zone of sixteen pages at 2 MiB, all of them free.\<close>

definition sample_zone :: buddy_zone where
  "sample_zone = the (fill_zone 0 16 ((init_lists (Suc BUDDY_MAX_ORDER) zero_zone)\<lparr>z_base_phys := 0x200000,
     z_total_pages := 16, z_pages := replicate 16 zero_page_info, z_total_free := 0\<rparr>))"

definition sample_buddy :: buddy_state where
  "sample_buddy = \<lparr>g_zone = sample_zone, g_buddy_ready = True, b_mem = \<lambda>_. 0\<rparr>"

lemma sample_buddy_inv: "bd_inv sample_buddy" "bd_free sample_buddy = bd_managed sample_buddy" "card (bd_free sample_buddy) = 16"
proof -
  have "unat (16 :: u32) \<le> 2 ^ 20" by simp
  note ez = empty_zone_core [OF this, where b = "0x200000"]
  have 16: "unat (16 :: u32) = 16" "unat (0 :: u32) = 0" by simp_all
  obtain z where z: "sample_zone = z" "bd_core z" "free_idx z = {..< 16}" "z_base_phys z = 0x200000" "z_total_pages z = 16"
    using fill_zone [OF ez(1,5), of 0] ez(2,4) unfolding 16 sample_zone_def by auto
  then have inv: "bd_inv_zone z" by (simp add: bd_inv_zone_def page_aligned_def)
  show "bd_inv sample_buddy" "bd_free sample_buddy = bd_managed sample_buddy"
    using z inv by (simp_all add: sample_buddy_def bd_inv_def bd_free_def bd_managed_def)
  show "card (bd_free sample_buddy) = 16"
    using z card_image [OF bd_page_inj [OF inv]] by (simp add: sample_buddy_def bd_free_def)
qed

text \<open>C20. Allocation by the buddy allocator in a consistent state: the null pointer exactly when no page is
  free; otherwise a page-aligned page that was free; exactly that page leaves the free set, whatever
  splitting of larger blocks it took.\<close>

theorem buddy_alloc_page_spec:
  assumes "bd_inv s" "pmm_buddy_alloc_page s = (p, s')"
  shows "bd_inv s' \<and> bd_managed s' = bd_managed s \<and> (p = 0 \<longleftrightarrow> bd_free s = {}) \<and>
    (p \<noteq> 0 \<longrightarrow> p \<in> bd_free s \<and> page_aligned p) \<and> bd_free s' = bd_free s - {p} \<and>
    pmm_buddy_free_pages s' = of_nat (card (bd_free s'))"
proof -
  have fst: "fst (pmm_buddy_alloc_page s) = p" and snd: "snd (pmm_buddy_alloc_page s) = s'" using assms(2) by auto
  note al = bd.alloc_inv [OF assms(1)] bd.alloc_managed [OF assms(1)] bd.alloc_null_iff [OF assms(1)]
    bd.alloc_some [OF assms(1)] bd.alloc_none [OF assms(1)] bd.alloc_page [OF assms(1)]
  have "bd_inv s'" using al(1) snd by simp
  with al bd.free_pages_card [OF this] show ?thesis unfolding fst snd by (cases "bd_free s = {}") auto
qed

theorem buddy_alloc_page_spec_witness:
  "page_aligned (fst (pmm_buddy_alloc_page sample_buddy)) \<and> fst (pmm_buddy_alloc_page sample_buddy) \<noteq> 0"
  using buddy_alloc_page_spec [OF sample_buddy_inv(1) prod.collapse [symmetric]] sample_buddy_inv(3) by auto

text \<open>C21. Freeing a page that the buddy allocator handed out returns exactly that page to the free set,
  whatever merging with buddies follows, and keeps the allocator consistent.\<close>

theorem buddy_free_page_spec:
  assumes "bd_inv s" "a \<in> bd_managed s" "a \<notin> bd_free s"
  shows "bd_inv (pmm_buddy_free_page a s) \<and> bd_managed (pmm_buddy_free_page a s) = bd_managed s \<and>
    bd_free (pmm_buddy_free_page a s) = insert a (bd_free s)"
  using bd.free_inv [OF assms(1), of a] bd.free_managed_eq [OF assms(1), of a] bd.free_free [OF assms(1), of a] assms by auto

theorem buddy_free_page_spec_witness:
  "bd_free (pmm_buddy_free_page (fst (pmm_buddy_alloc_page sample_buddy)) (snd (pmm_buddy_alloc_page sample_buddy))) =
   bd_free sample_buddy"
proof -
  let ?p = "fst (pmm_buddy_alloc_page sample_buddy)" and ?s = "snd (pmm_buddy_alloc_page sample_buddy)"
  have ne: "bd_free sample_buddy \<noteq> {}" using sample_buddy_inv(3) by auto
  note al = bd.alloc_inv [OF sample_buddy_inv(1)] bd.alloc_managed [OF sample_buddy_inv(1)]
    bd.alloc_some [OF sample_buddy_inv(1) ne]
  have "?p \<in> bd_managed ?s" "?p \<notin> bd_free ?s" using al sample_buddy_inv(2) by auto
  from buddy_free_page_spec [OF al(1) this] show ?thesis using al(3) by auto
qed

text \<open>As many allocations as there are free pages give distinct non-null pages, and freeing them in
  any order merges everything back: the free set is restored.\<close>

theorem buddy_alloc_n_distinct:
  assumes "bd_inv s" "n \<le> card (bd_free s)" "alloc_n pmm_buddy_alloc_page n s = (ps, s')"
    and "distinct qs" "set qs = set ps"
  shows "distinct ps \<and> length ps = n \<and> 0 \<notin> set ps \<and> set ps \<subseteq> bd_free s \<and> bd_free s' = bd_free s - set ps \<and>
    bd_inv (free_all pmm_buddy_free_page qs s') \<and> bd_free (free_all pmm_buddy_free_page qs s') = bd_free s"
proof -
  note al = bd.alloc_n_distinct [OF assms(1-3)]
  then have "bd_inv (free_all pmm_buddy_free_page qs s') \<and> bd_free (free_all pmm_buddy_free_page qs s') = bd_free s' \<union> set qs"
    using bd.free_all_free [of s' qs] assms(4,5) bd.free_managed [OF assms(1)] by auto
  with al assms(5) show ?thesis by auto
qed

theorem buddy_alloc_n_distinct_witness:
  "distinct (fst (alloc_n pmm_buddy_alloc_page 16 sample_buddy))"
  using buddy_alloc_n_distinct [of sample_buddy 16 _ _ "fst (alloc_n pmm_buddy_alloc_page 16 sample_buddy)",
      OF sample_buddy_inv(1) _ prod.collapse [symmetric]] sample_buddy_inv(3)
    bd.alloc_n_distinct [of sample_buddy 16, OF sample_buddy_inv(1) _ prod.collapse [symmetric]]
  by simp

text \<open>\<open>page_is_used\<close> answers 0 only for the first page of a free block: a page inside a free block
  that is not its first page is reported as used, although the allocator may hand it out.\<close>

theorem buddy_page_is_used_interior:
  assumes "bd_inv s" "g_buddy_ready s" "i < pmm_buddy_total_pages s"
  shows "pmm_buddy_page_is_used s i = (if unat i \<in> heads (g_zone s) then 0 else 1) \<and>
    (pmm_buddy_page_addr s i \<in> bd_free s \<longleftrightarrow> unat i \<in> free_idx (g_zone s))"
proof -
  have i: "unat i < unat (z_total_pages (g_zone s))"
    using assms(2,3) by (simp add: pmm_buddy_total_pages_def word_less_nat_alt)
  have "pmm_buddy_page_addr s i = bd_page (g_zone s) (unat i)"
    using assms(2) i by (simp add: pmm_buddy_page_addr_def bd_page_def word_le_nat_alt)
  then have "pmm_buddy_page_addr s i \<in> bd_free s \<longleftrightarrow> unat i \<in> free_idx (g_zone s)"
    using assms(1,2) i bd_page_in_free by (simp add: bd_free_def bd_inv_def)
  moreover have "pmm_buddy_page_is_used s i = (if unat i \<in> heads (g_zone s) then 0 else 1)"
    using assms(2) i by (simp add: pmm_buddy_page_is_used_def heads_def isf_def word_le_nat_alt)
  ultimately show ?thesis by blast
qed

theorem buddy_page_is_used_interior_witness:
  "pmm_buddy_page_is_used sample_buddy 1 = 1 \<and> pmm_buddy_page_addr sample_buddy 1 \<in> bd_free sample_buddy"
proof -
  have z: "z_total_pages sample_zone = 16" "isf sample_zone 1 = False" by code_simp+
  have "unat (1 :: u32) \<notin> heads (g_zone sample_buddy)" using z by (simp add: heads_def sample_buddy_def)
  moreover have "pmm_buddy_page_addr sample_buddy 1 \<in> bd_managed sample_buddy"
    using z by (auto simp: bd_managed_def sample_buddy_def pmm_buddy_page_addr_def bd_page_def word_le_nat_alt
        intro!: image_eqI [of _ _ 1])
  ultimately show ?thesis
    using buddy_page_is_used_interior [of sample_buddy 1] sample_buddy_inv(1,2) z
    by (simp add: sample_buddy_def pmm_buddy_total_pages_def word_less_nat_alt)
qed

lemma buddy_free_total: "z_total_free (buddy_free idx k z) = z_total_free z + push_bit k 1"
proof (induction idx k z rule: buddy_free.induct)
  case (1 idx k z)
  have add: "z_total_free (buddy_add_free idx k z) = z_total_free z + push_bit k 1" for idx k z
    by (simp add: buddy_add_free_def Let_def zone_simps)
  have rm: "z_total_free (buddy_remove_free b k z) = z_total_free z - push_bit k 1" for b
    by (simp add: buddy_remove_free_def Let_def zone_simps)
  have two: "push_bit (k + 1) 1 = push_bit k 1 + (push_bit k 1 :: u32)" by (simp add: push_bit_eq_mult)
  show ?case
    using 1 [OF _ refl _ refl] unfolding buddy_free.simps [of idx k z] Let_def
    by (simp only: add rm two split: if_split) (simp add: algebra_simps)
qed

text \<open>The test for double frees looks at the first page of a block only: a page that lies in a free block
  without being its first page (freed before, and merged) is accepted a second time, and the
  allocator counts the pages of the block twice.\<close>

theorem buddy_double_free_unnoticed:
  assumes "bd_inv s" "g_buddy_ready s" "i \<in> free_idx (g_zone s)" "i \<notin> heads (g_zone s)"
  defines "a \<equiv> bd_page (g_zone s) i"
  shows "a \<in> bd_free s \<and>
    pmm_buddy_free_pages (pmm_buddy_free_page a s) = pmm_buddy_free_pages s + 2 ^ ord (g_zone s) i"
proof -
  define z where "z = g_zone s"
  have inv: "bd_inv_zone z" using assms(1,2) by (simp add: bd_inv_def z_def)
  have i: "i < unat (z_total_pages z)" using bd_free_idx_sub [OF inv] assms(3) by (auto simp: z_def)
  note pg = bd_page_index [OF inv i] and ui = unat_of_nat_less [OF i]
  have "\<not> isf z i" using assms(4) i by (simp add: heads_def z_def)
  then have nf: "pi_is_free (z_pages z ! i) = 0" by (simp add: isf_def)
  have "\<not> z_total_pages z \<le> of_nat i" using ui i by (simp add: word_le_nat_alt)
  then have "pmm_buddy_free_page a s = s\<lparr>g_zone := buddy_free (of_nat i) (ord z i) z\<rparr>"
    using assms(2) pg nf ui
    by (simp add: a_def pmm_buddy_free_page_def z_def [symmetric] Let_def page_aligned_def PAGE_SIZE_def ord_def
        not_less [symmetric])
  then have "pmm_buddy_free_pages (pmm_buddy_free_page a s) = pmm_buddy_free_pages s + push_bit (ord z i) 1"
    using assms(2) by (simp add: pmm_buddy_free_pages_def buddy_free_total z_def)
  moreover have "a \<in> bd_free s" using assms(2,3) by (simp add: a_def bd_free_def)
  ultimately show ?thesis by (simp add: z_def)
qed

theorem buddy_double_free_unnoticed_witness:
  "pmm_buddy_free_pages (pmm_buddy_free_page 0x201000 sample_buddy) = 17 \<and> pmm_buddy_total_pages sample_buddy = 16"
proof -
  have z: "z_total_pages sample_zone = 16" "isf sample_zone 1 = False" "ord sample_zone 1 = 0" "z_base_phys sample_zone = 0x200000"
    by code_simp+
  have "1 \<notin> heads (g_zone sample_buddy)" using z by (simp add: heads_def sample_buddy_def)
  moreover have "1 \<in> free_idx (g_zone sample_buddy)"
    using sample_buddy_inv(1,2) bd_page_in_free [of sample_zone 1] z
    by (simp add: bd_free_def bd_managed_def bd_inv_def sample_buddy_def)
  moreover have "bd_page (g_zone sample_buddy) 1 = 0x201000"
    using z by (simp add: bd_page_def index_to_phys_def sample_buddy_def PAGE_SIZE_def)
  moreover have "pmm_buddy_free_pages sample_buddy = 16"
    using bd.free_pages_card [OF sample_buddy_inv(1)] sample_buddy_inv(3) by simp
  ultimately show ?thesis
    using buddy_double_free_unnoticed [OF sample_buddy_inv(1), of 1] z by (simp add: sample_buddy_def pmm_buddy_total_pages_def)
qed


lemma sample_boot_buddy: "buddy_map_ok sample_boot sample_boot_mem 0xC0009008"
  "mmap_ptrs sample_boot_mem 0xC0009008 = [0xC0009018]"
  "buddy_entry_range sample_boot_mem 0xC0009018 = Some (0x100000, 0x200000)"
proof -
  have m: "rd32 sample_boot_mem 0xC0009000 = 0x38" "rd32 sample_boot_mem 0xC0009008 = 6"
    "rd32 sample_boot_mem 0xC000900C = 40" "rd32 sample_boot_mem 0xC0009010 = 24"
    by (simp_all add: sample_boot_mem_def rd32_def wr32_def)
  have t: "mb2_find_tag sample_boot_mem 0xC0009000 0x38 6 = Some (MB2_FIND_OK 0xC0009008)"
    by (simp add: mb2_find_tag_def, subst mb2_find_loop.simps)
      (simp add: tag_type_def tag_size_def m MB2_TAG_TYPE_END_def)
  show p: "mmap_ptrs sample_boot_mem 0xC0009008 = [0xC0009018]"
    by (simp add: mmap_ptrs_def mmap_entry_size_def tag_size_def m entry_ptrs_def)
  show r: "buddy_entry_range sample_boot_mem 0xC0009018 = Some (0x100000, 0x200000)"
    by (simp add: buddy_entry_range_def entry_type_def entry_addr_def entry_len_def rd64_def
        sample_boot_mem_def rd32_def wr32_def Let_def)
  show "buddy_map_ok sample_boot sample_boot_mem 0xC0009008"
    using t p r by (simp add: buddy_map_ok_def mmap_tag_ok_def sample_boot_def PHYS_TO_VIRT_def KERNEL_VIRT_OFFSET_def m
        MB2_TAG_TYPE_MMAP_def mmap_entry_size_def tag_size_def mb2_end_of_def clear_of_end_def align_up_u32_def)
qed


end
