(* ===== verification/Vmm_Kernel.thy ===== *)
theory Vmm_Kernel
  imports Vmm_Init Pmm_Bitmap_Init Pmm_Buddy_Init
begin

text \<open>
  The virtual memory manager over the two physical allocators of the kernel, each registered with
  the dispatch layer: both keep the contract that the lemmas about \<open>vmm.c\<close> rest on. The properties are stated
  for the bitmap allocator, the one \<open>pmm_init\<close> selects when none has been registered.
\<close>

section \<open>The allocators behind the dispatch layer\<close>

lemmas bitmap_ops_sel = g_bitmap_ops_def pmm_ops.select_convs
lemmas buddy_ops_sel = g_buddy_ops_def pmm_ops.select_convs

interpretation kb: vmm_pages "registered (g_bitmap_ops bi) bm_inv" "\<lambda>p. bm_managed (pmm_data p)" "\<lambda>p. bm_free (pmm_data p)"
  "\<lambda>p. bm_managed (pmm_data p) - bm_free (pmm_data p)" for bi
  unfolding vmm_pages_def by (rule registered_backend [OF bm.pmm_backend_axioms]) (simp_all add: bitmap_ops_sel)

interpretation kd: vmm_pages "registered (g_buddy_ops bi) bd_inv" "\<lambda>p. bd_managed (pmm_data p)" "\<lambda>p. bd_free (pmm_data p)"
  "\<lambda>p. bd_managed (pmm_data p) - bd_free (pmm_data p)" for bi
  unfolding vmm_pages_def by (rule registered_backend [OF bd.pmm_backend_axioms]) (simp_all add: buddy_ops_sel)

text \<open>The invariant of the kernel's state, its free pages, and what an operation took from them.\<close>

abbreviation kvm_ok :: "boot_info \<Rightarrow> (bitmap_state, 'v) vmm_state \<Rightarrow> bool" where
  "kvm_ok bi \<equiv> vm_ok (registered (g_bitmap_ops bi) bm_inv) (\<lambda>p. bm_managed (pmm_data p)) (\<lambda>p. bm_free (pmm_data p))"

abbreviation kvm_free :: "(bitmap_state, 'v) vmm_state \<Rightarrow> u32 set" where
  "kvm_free s \<equiv> bm_free (pmm_data (vm_pmm s))"

abbreviation kvm_took :: "u32 set \<Rightarrow> (bitmap_state, 'v) vmm_state \<Rightarrow> (bitmap_state, 'v) vmm_state \<Rightarrow> bool" where
  "kvm_took \<equiv> took (\<lambda>p. bm_managed (pmm_data p)) (\<lambda>p. bm_free (pmm_data p))
     (\<lambda>p. bm_managed (pmm_data p) - bm_free (pmm_data p))"

section \<open>An example\<close>

text \<open>A running kernel with an empty page directory and the bitmap allocator of eight pages, and a
  state before initialisation whose allocator has 520, one of them in use.\<close>

definition sample_vmm :: "(bitmap_state, unit) vmm_state" where
  "sample_vmm = \<lparr>g_kernel_pd = replicate 1024 0, g_vmm_ready = True, g_next_vaddr = 0xD0000000, g_direct_map_end = 0xD0000000,
     pd_addr = 0xC0100000, vm_mem = (\<lambda>_. 0), vm_cpu = [],
     vm_pmm = \<lparr>g_pmm_ops = Some (g_bitmap_ops sample_boot), pmm_data = sample_bitmap\<rparr>,
     vm_vma = \<lparr>g_vma_ops = None, g_vma_ready = False, vma_data = ()\<rparr>\<rparr>"

definition large_bitmap :: bitmap_state where
  "large_bitmap = sample_bitmap\<lparr>g_regions := (g_regions sample_bitmap)[0 := \<lparr>r_base = 0x100000, r_pages = 520,
       r_bitmap = 1 # replicate 64 0, r_bitmap_bytes = 65, r_bitmap_storage_bytes = 65, r_bitmap_pages = 0, r_free = 519\<rparr>],
     g_pmm_total_pages := 520, g_pmm_total_free := 519\<rparr>"

definition sample_vmm0 :: "(bitmap_state, unit) vmm_state" where
  "sample_vmm0 = sample_vmm\<lparr>g_vmm_ready := False, g_next_vaddr := 0,
     vm_pmm := \<lparr>g_pmm_ops = Some (g_bitmap_ops sample_boot), pmm_data = large_bitmap\<rparr>\<rparr>"

lemma large_bitmap_core: "bm_core large_bitmap"
proof -
  have at: "region_at large_bitmap 0 = \<lparr>r_base = 0x100000, r_pages = 520, r_bitmap = 1 # replicate 64 0, r_bitmap_bytes = 65,
       r_bitmap_storage_bytes = 65, r_bitmap_pages = 0, r_free = 519\<rparr>"
    by (simp add: region_at_def large_bitmap_def sample_bitmap_def)
  have "unat (count_clear_from (region_at large_bitmap 0) 0 0) = 519" unfolding at by code_simp
  then have "card (clear_idx (region_at large_bitmap 0)) = 519" using count_clear by simp
  moreover have "region_ok (region_at large_bitmap 0)"
    by (simp add: region_ok_def at page_aligned_def)
  ultimately have "region_inv (region_at large_bitmap 0)" by (simp add: region_inv_def at)
  moreover have "length (g_regions large_bitmap) = PMM_MAX_REGIONS" "g_region_count large_bitmap = 1"
      "g_pmm_total_pages large_bitmap = 520" "g_pmm_total_free large_bitmap = 519"
    by (simp_all add: large_bitmap_def sample_bitmap_def PMM_MAX_REGIONS_def)
  ultimately show ?thesis
    by (simp add: bm_core_def disjoint_family_on_def at PMM_MAX_REGIONS_def)
qed

lemma sample_bitmap_low:
  "a \<in> bm_managed sample_bitmap \<Longrightarrow> a < 0x40000000" "a \<in> bm_managed large_bitmap \<Longrightarrow> a < 0x40000000"
  "a \<in> bm_managed large_bitmap \<Longrightarrow> a < 0x1000000"
proof -
  have at: "r_base (region_at sample_bitmap 0) = 0x100000" "r_pages (region_at sample_bitmap 0) = 8"
    "r_base (region_at large_bitmap 0) = 0x100000" "r_pages (region_at large_bitmap 0) = 520"
    "g_region_count sample_bitmap = 1" "g_region_count large_bitmap = 1"
    by (simp_all add: region_at_def large_bitmap_def sample_bitmap_def)
  have low: "a < 0x1000000" if r: "a \<in> region_managed r" "region_ok r" "r_base r = 0x100000" "r_pages r \<le> 520" for r
  proof -
    obtain i where i: "a = region_index_to_addr r i" "i < r_pages r" using r(1) by (auto simp: region_managed_def)
    then have "unat i < 520" using r(4) by (simp add: word_less_nat_alt word_le_nat_alt)
    then show ?thesis using unat_index_to_addr [OF r(2) less_imp_le [OF i(2)]] r(3) i(1) by (simp add: word_less_nat_alt)
  qed
  have w: "a < 0x1000000 \<Longrightarrow> a < 0x40000000" by (simp add: word_less_nat_alt)
  show "a \<in> bm_managed sample_bitmap \<Longrightarrow> a < 0x40000000"
    using w low bm_core_ok [OF sample_bitmap_core] at by (auto simp: bm_managed_def split: if_splits)
  show large: "a \<in> bm_managed large_bitmap \<Longrightarrow> a < 0x1000000"
    using low bm_core_ok [OF large_bitmap_core] at by (auto simp: bm_managed_def split: if_splits)
  then show "a \<in> bm_managed large_bitmap \<Longrightarrow> a < 0x40000000" using w by blast
qed

lemma sample_vmm_ok: "kvm_ok sample_boot sample_vmm" "g_vmm_ready sample_vmm" "card (kvm_free sample_vmm) = 7"
  "tables sample_vmm = {}" "space sample_vmm v = 0" "\<not> present sample_vmm i \<or> \<not> i < 1024"
proof -
  have np: "\<not> present sample_vmm i" if "i < 1024" for i
    using that by (simp add: present_def pd_get_def sample_vmm_def word_less_nat_alt del: replicate.simps)
  then show "\<not> present sample_vmm i \<or> \<not> i < 1024" by blast
  show t: "tables sample_vmm = {}" using np by (auto simp: tables_def)
  show "space sample_vmm v = 0" using np [OF index_lt(1)] by (simp add: space_def walk_def)
  have pm: "vm_pmm sample_vmm = \<lparr>g_pmm_ops = Some (g_bitmap_ops sample_boot), pmm_data = sample_bitmap\<rparr>"
    "length (g_kernel_pd sample_vmm) = 1024" by (simp_all add: sample_vmm_def del: replicate.simps)
  show "kvm_ok sample_boot sample_vmm"
    unfolding vm_ok_def registered_def t pm using sample_bitmap_inv(1) sample_bitmap_low(1) np
    by (auto simp: inj_on_def)
  show "g_vmm_ready sample_vmm" "card (kvm_free sample_vmm) = 7"
    using sample_bitmap_inv(3) by (simp_all add: pm) (simp add: sample_vmm_def del: replicate.simps)
qed

lemma sample_vmm0_ok: "registered (g_bitmap_ops sample_boot) bm_inv (vm_pmm sample_vmm0)"
  "\<forall>a \<in> bm_managed (pmm_data (vm_pmm sample_vmm0)). a < 0x40000000" "card (kvm_free sample_vmm0) = 519"
  "vmm_map_end 0x120000 (vm_pmm sample_vmm0) = 0x1000000" "vmm_map_end 0x40000000 (vm_pmm sample_vmm0) = 0x40000000"
proof -
  have pm: "vm_pmm sample_vmm0 = \<lparr>g_pmm_ops = Some (g_bitmap_ops sample_boot), pmm_data = large_bitmap\<rparr>"
    by (simp add: sample_vmm0_def)
  show "registered (g_bitmap_ops sample_boot) bm_inv (vm_pmm sample_vmm0)"
    "\<forall>a \<in> bm_managed (pmm_data (vm_pmm sample_vmm0)). a < 0x40000000" "card (kvm_free sample_vmm0) = 519"
    using large_bitmap_core sample_bitmap_low(2) card_bm_free [OF large_bitmap_core]
    by (simp_all add: pm registered_def bm_inv_def bm_free_def) (simp_all add: large_bitmap_def sample_bitmap_def)
  have "pmm_managed_base (vm_pmm sample_vmm0) = 0x100000" "pmm_total_pages (vm_pmm sample_vmm0) = 520"
    unfolding pm pmm_managed_base_def pmm_total_pages_def by code_simp+
  then show "vmm_map_end 0x120000 (vm_pmm sample_vmm0) = 0x1000000" "vmm_map_end 0x40000000 (vm_pmm sample_vmm0) = 0x40000000"
    by (simp_all add: vmm_map_end_def Let_def VMM_PAGE_SIZE_def)
qed

section \<open>Properties\<close>

text \<open>C10. With free pages for the page tables, \<open>vmm_init\<close> returns with paging on and an address space
  that is exactly two mappings of the physical range below \<open>m\<close>: the identity, and the direct map at
  \<open>KERNEL_VIRT_OFFSET\<close>. Each page table is a page of its own that was taken from the free pages.\<close>

theorem vmm_init_builds_space:
  assumes "registered (g_bitmap_ops bi) bm_inv (vm_pmm s)" "\<forall>a \<in> bm_managed (pmm_data (vm_pmm s)). a < 0x40000000"
    and "m = vmm_map_end ke (vm_pmm s)" "2 * tables_for m \<le> card (kvm_free s)"
  shows "\<exists>s'. vmm_init ke s = Some s' \<and> kvm_ok bi s' \<and> vmm_is_ready s' \<and> space s' = kernel_space m \<and>
    tables s' \<subseteq> kvm_free s \<and> card (tables s') = 2 * tables_for m \<and> kvm_free s' = kvm_free s - tables s' \<and>
    vmm_direct_map_end s' = KERNEL_VIRT_OFFSET + m"
proof -
  from kb.vmm_init [OF assms(1,2), of ke] obtain s' where "vmm_init ke s = Some s'" "kvm_ok bi s'" "g_vmm_ready s'"
    "space s' = kernel_space m" "tables s' \<subseteq> kvm_free s" "card (tables s') = 2 * tables_for m"
    "kvm_free s' = kvm_free s - tables s'" "g_direct_map_end s' = KERNEL_VIRT_OFFSET + m"
    using assms(3,4) by blast
  then show ?thesis by (auto simp: vmm_is_ready_def vmm_direct_map_end_def)
qed

theorem vmm_init_builds_space_witness:
  "\<exists>s'. vmm_init 0x120000 sample_vmm0 = Some s' \<and> space s' 0xC0100000 = 0x100003 \<and> card (tables s') = 8"
proof -
  have t: "tables_for 0x1000000 = 4" by (simp add: tables_for_def)
  have k: "kernel_space 0x1000000 0xC0100000 = 0x100003"
    by (simp add: kernel_space_def page_aligned_def KERNEL_VIRT_OFFSET_def VIRT_TO_PHYS_def)
  show ?thesis
    using vmm_init_builds_space [OF sample_vmm0_ok(1,2) refl, of "0x120000"] t k
    unfolding sample_vmm0_ok(3,4) by auto
qed

text \<open>\<open>vmm_init\<close> returns from every state: the counter of its loop never wraps around, because
  \<open>map_end\<close> is at most 1 GiB.\<close>

theorem vmm_init_returns: "\<exists>s'. vmm_init ke s = Some s'"
proof -
  have "page_aligned (0 :: u32)" by (simp add: page_aligned_def)
  then obtain r where "vmm_map_loop (vmm_map_end ke (vm_pmm s)) 0 (s\<lparr>g_kernel_pd := replicate 1024 0\<rparr>) = Some r"
    using vmm_map_loop_returns map_end_ok(1) by blast
  then show ?thesis by (cases r) (simp add: vmm_init_def Let_def del: replicate.simps)
qed

text \<open>C26. Mapping a page, on every branch: with aligned addresses and a page table (or a free page
  for one) it updates exactly the entry of \<open>virt\<close> and takes at most the page for the table; else it
  fails and the address space is as before.\<close>

theorem vmm_map_page_spec:
  assumes ok: "kvm_ok bi s" and run: "vmm_map_page virt phys flags s = (ret, s')"
  shows "kvm_ok bi s' \<and> rest_eq s s' \<and>
    (if page_aligned virt \<and> page_aligned phys \<and> (present s (pd_index virt) \<or> kvm_free s \<noteq> {})
     then ret = 0 \<and> space s' = (space s)(virt := phys OR (flags AND 0xFFF)) \<and> kvm_took {} s s'
     else ret = - 1 \<and> space s' = space s \<and> tables s' = tables s \<and> kvm_free s' = kvm_free s)"
  by (rule kb.map_page_total [OF assms])

theorem vmm_map_page_spec_witness:
  "fst (vmm_map_page 0xD0000000 0x5000 3 sample_vmm) = 0 \<and>
   space (snd (vmm_map_page 0xD0000000 0x5000 3 sample_vmm)) 0xD0000000 = 0x5003"
proof -
  have "kvm_free sample_vmm \<noteq> {}" using sample_vmm_ok(3) by auto
  then show ?thesis
    using vmm_map_page_spec [OF sample_vmm_ok(1) prod.collapse [symmetric], of "0xD0000000" "0x5000" 3]
    by (simp add: page_aligned_def)
qed

text \<open>What is mapped is found: after mapping a page as present the queries answer with its frame and
  flags, and after unmapping it they answer as for a page never mapped. The other pages are not
  affected by either.\<close>

theorem vmm_map_query_roundtrip:
  assumes ok: "kvm_ok bi s" and rdy: "g_vmm_ready s" and al: "page_aligned virt" "page_aligned phys"
    and fl: "flags AND PTE_PRESENT \<noteq> 0" and run: "vmm_map_page virt phys flags s = (0, s1)"
  shows "vmm_is_mapped virt s1 = 1 \<and> vmm_get_physical virt s1 = Some phys \<and> vmm_get_pte virt s1 = phys OR (flags AND 0xFFF) \<and>
    vmm_is_mapped virt (vmm_unmap_page virt s1) = 0 \<and> vmm_get_physical virt (vmm_unmap_page virt s1) = None \<and>
    (\<forall>w. w \<noteq> virt \<longrightarrow> vmm_get_physical w s1 = vmm_get_physical w s \<and>
       vmm_get_physical w (vmm_unmap_page virt s1) = vmm_get_physical w s)"
  using kb.map_query [OF assms] by blast

theorem vmm_map_query_roundtrip_witness:
  "vmm_get_physical 0xD0000000 (snd (vmm_map_page 0xD0000000 0x5000 3 sample_vmm)) = Some 0x5000"
proof -
  have "kvm_free sample_vmm \<noteq> {}" using sample_vmm_ok(3) by auto
  then have "fst (vmm_map_page 0xD0000000 0x5000 3 sample_vmm) = 0"
    using kb.map_page_total [OF sample_vmm_ok(1) prod.collapse [symmetric], of "0xD0000000" "0x5000" 3]
    by (simp add: page_aligned_def)
  then have "vmm_map_page 0xD0000000 0x5000 3 sample_vmm = (0, snd (vmm_map_page 0xD0000000 0x5000 3 sample_vmm))"
    by (simp add: prod_eq_iff)
  then show ?thesis
    using vmm_map_query_roundtrip [OF sample_vmm_ok(1,2), of "0xD0000000" "0x5000" 3] by (simp add: page_aligned_def PTE_PRESENT_def)
qed

text \<open>C12. Allocating consecutive virtual pages from an unused range is all or nothing: either every page is
  mapped, present and writable, to a distinct formerly free frame, or nothing is mapped and the only
  pages the failing call keeps are those of new page tables. It does not fail when there are two
  free pages for every page asked for.\<close>

theorem vmm_alloc_pages_spec:
  assumes "kvm_ok bi s" "g_vmm_ready s" "0 < count" "range_ok (g_next_vaddr s) (unat count)" "g_next_vaddr s \<noteq> 0"
    and "\<forall>j < unat count. space s (page_at (g_next_vaddr s) j) = 0"
  shows "\<exists>r s' fs. vmm_alloc_pages count s = (r, s') \<and> kvm_ok bi s' \<and> distinct fs \<and> kvm_took (set fs) s s' \<and>
    g_next_vaddr s' = g_next_vaddr s + count * VMM_PAGE_SIZE \<and>
    (if r = 0 then fs = [] \<and> space s' = space s
     else r = g_next_vaddr s \<and> length fs = unat count \<and> mapped_frames (space s) r 0 fs (space s')) \<and>
    (2 * unat count \<le> card (kvm_free s) \<longrightarrow> r \<noteq> 0)"
proof -
  note sc = kb.vmm_alloc_pages_succeeds [OF assms(1-5)]
  from kb.vmm_alloc_pages [OF assms] obtain r s' fs where A: "vmm_alloc_pages count s = (r, s')" "kvm_ok bi s'" "distinct fs"
    "kvm_took (set fs) s s'" "g_next_vaddr s' = g_next_vaddr s + count * VMM_PAGE_SIZE"
    "if r = 0 then fs = [] \<and> space s' = space s
     else r = g_next_vaddr s \<and> length fs = unat count \<and> mapped_frames (space s) r 0 fs (space s')" by blast
  have "2 * unat count \<le> card (kvm_free s) \<longrightarrow> r \<noteq> 0" using sc A(1) assms(5) by simp
  with A show ?thesis by blast
qed

lemma sample_vmm_alloc:
  "g_next_vaddr sample_vmm = 0xD0000000" "range_ok (g_next_vaddr sample_vmm) (unat (3 :: u32))"
  "fst (vmm_alloc_pages 3 sample_vmm) \<noteq> 0"
proof -
  show n: "g_next_vaddr sample_vmm = 0xD0000000" by (simp add: sample_vmm_def del: replicate.simps)
  show "range_ok (g_next_vaddr sample_vmm) (unat (3 :: u32))" by (simp add: n range_ok_def page_aligned_def)
  from kb.vmm_alloc_pages_succeeds [OF sample_vmm_ok(1,2) _ this] show "fst (vmm_alloc_pages 3 sample_vmm) \<noteq> 0"
    using sample_vmm_ok(3) n by simp
qed

theorem vmm_alloc_pages_spec_witness:
  "\<exists>s' fs. vmm_alloc_pages 3 sample_vmm = (0xD0000000, s') \<and> length fs = 3 \<and> distinct fs \<and>
    (\<forall>j < 3. space s' (page_at 0xD0000000 j) = fs ! j OR 3)"
proof -
  have "\<forall>j < unat (3 :: u32). space sample_vmm (page_at (g_next_vaddr sample_vmm) j) = 0" using sample_vmm_ok(5) by blast
  from vmm_alloc_pages_spec [OF sample_vmm_ok(1,2) _ sample_vmm_alloc(2) _ this] obtain r s' fs
    where "vmm_alloc_pages 3 sample_vmm = (r, s')" "distinct fs" "r \<noteq> 0 \<longrightarrow> r = g_next_vaddr sample_vmm \<and> length fs = 3 \<and>
      mapped_frames (space sample_vmm) r 0 fs (space s')" using sample_vmm_alloc(1) by (auto split: if_splits)
  then show ?thesis using sample_vmm_alloc(1,3) by (auto simp: mapped_frames_def)
qed

text \<open>Allocating and freeing again leaves the address space as it was and gives every frame back except
  those of the page tables.\<close>

theorem vmm_alloc_free_roundtrip:
  assumes "kvm_ok bi s" "g_vmm_ready s" "0 < count" "range_ok (g_next_vaddr s) (unat count)" "g_next_vaddr s \<noteq> 0"
    and "\<forall>j < unat count. space s (page_at (g_next_vaddr s) j) = 0" "vmm_alloc_pages count s = (r, s1)" "r \<noteq> 0"
  shows "kvm_ok bi (vmm_free_pages r count s1) \<and> space (vmm_free_pages r count s1) = space s \<and>
    kvm_free (vmm_free_pages r count s1) = kvm_free s - tables (vmm_free_pages r count s1)"
  using kb.alloc_free_roundtrip [OF assms] by blast

theorem vmm_alloc_free_roundtrip_witness:
  "let (r, s1) = vmm_alloc_pages 3 sample_vmm in r \<noteq> 0 \<and> space (vmm_free_pages r 3 s1) = space sample_vmm"
proof -
  have "\<forall>j < unat (3 :: u32). space sample_vmm (page_at (g_next_vaddr sample_vmm) j) = 0" using sample_vmm_ok(5) by blast
  from vmm_alloc_free_roundtrip [OF sample_vmm_ok(1,2) _ sample_vmm_alloc(2) _ this prod.collapse [symmetric] sample_vmm_alloc(3)]
  show ?thesis using sample_vmm_alloc(1,3) by (simp add: case_prod_beta)
qed

text \<open>\<open>vmm_unmap_identity\<close> leaves the kernel half of the address space alone, removes the rest, and
  reloads the page directory; no page of the allocator changes hands.\<close>

theorem vmm_unmap_identity_spec:
  assumes "kvm_ok bi s" "g_vmm_ready s"
  shows "kvm_ok bi (vmm_unmap_identity s) \<and> vm_pmm (vmm_unmap_identity s) = vm_pmm s \<and>
    space (vmm_unmap_identity s) = (\<lambda>v. if v < KERNEL_VIRT_OFFSET then 0 else space s v) \<and>
    vm_cpu (vmm_unmap_identity s) = vm_cpu s @ [Load_CR3 (VIRT_TO_PHYS (pd_addr s))]"
  using kb.vmm_unmap_identity [OF assms] by blast

theorem vmm_unmap_identity_spec_witness: "space (vmm_unmap_identity sample_vmm) 0x100000 = 0"
  using vmm_unmap_identity_spec [OF sample_vmm_ok(1,2)] by (simp add: KERNEL_VIRT_OFFSET_def)

text \<open>C28. With more than 512 MiB mapped, the direct map runs into the kernel heap: right after \<open>vmm_init\<close>
  the first page of the heap is already mapped to the frame at \<open>0x20000000\<close>.\<close>

theorem direct_map_overlaps_heap:
  assumes "registered (g_bitmap_ops bi) bm_inv (vm_pmm s)" "\<forall>a \<in> bm_managed (pmm_data (vm_pmm s)). a < 0x40000000"
    and "2 * tables_for (vmm_map_end ke (vm_pmm s)) \<le> card (kvm_free s)" "0x20000000 < vmm_map_end ke (vm_pmm s)"
  shows "\<exists>s'. vmm_init ke s = Some s' \<and> vmm_get_physical KHEAP_START s' = Some 0x20000000"
proof -
  from kb.vmm_init [OF assms(1-3)] obtain s' where s': "vmm_init ke s = Some s'" "g_vmm_ready s'"
    "space s' = kernel_space (vmm_map_end ke (vm_pmm s))" by blast
  have "\<not> KHEAP_START < vmm_map_end ke (vm_pmm s)"
    using map_end_ok(2) [of ke "vm_pmm s"] by (simp add: KHEAP_START_def word_less_nat_alt word_le_nat_alt)
  then have "space s' KHEAP_START = 0x20000003"
    using assms(4) unfolding s'(3)
    by (simp add: kernel_space_def KHEAP_START_def page_aligned_def KERNEL_VIRT_OFFSET_def VIRT_TO_PHYS_def)
  then show ?thesis using s'(1,2) by (auto simp: query_space KHEAP_START_def page_aligned_def frame_of_def)
qed

theorem direct_map_overlaps_heap_witness:
  "\<exists>s'. vmm_init 0x40000000 sample_vmm0 = Some s' \<and> vmm_get_physical KHEAP_START s' = Some 0x20000000"
proof -
  have t: "tables_for 0x40000000 = 256" by (simp add: tables_for_def)
  show ?thesis
    by (rule direct_map_overlaps_heap [OF sample_vmm0_ok(1,2)]) (simp_all add: sample_vmm0_ok(3,5) t)
qed

text \<open>When the mapped range ends above 0x3FC00000, rounding its top up to 4 MiB wraps \<open>g_next_vaddr\<close>
  around to 0 and the page allocator refuses every request from then on.\<close>

theorem alloc_area_wraps:
  assumes "registered (g_bitmap_ops bi) bm_inv (vm_pmm s)" "\<forall>a \<in> bm_managed (pmm_data (vm_pmm s)). a < 0x40000000"
    and "2 * tables_for (vmm_map_end ke (vm_pmm s)) \<le> card (kvm_free s)" "0x3FC00000 < vmm_map_end ke (vm_pmm s)"
  shows "\<exists>s'. vmm_init ke s = Some s' \<and> g_next_vaddr s' = 0 \<and> (\<forall>count. vmm_alloc_pages count s' = (0, s'))"
proof -
  from kb.vmm_init [OF assms(1-3)] obtain s' where s': "vmm_init ke s = Some s'"
    "g_next_vaddr s' = (KERNEL_VIRT_OFFSET + vmm_map_end ke (vm_pmm s) + 0x400000 - 1) AND NOT (0x400000 - 1)" by blast
  moreover have "g_next_vaddr s' = 0"
    unfolding s'(2) by (rule next_vaddr_wraps [OF assms(4) map_end_ok(2)])
  ultimately show ?thesis by (simp add: vmm_alloc_pages_def)
qed

theorem alloc_area_wraps_witness:
  "\<exists>s'. vmm_init 0x40000000 sample_vmm0 = Some s' \<and> g_next_vaddr s' = 0"
proof -
  have t: "tables_for 0x40000000 = 256" by (simp add: tables_for_def)
  have "2 * tables_for (vmm_map_end 0x40000000 (vm_pmm sample_vmm0)) \<le> card (kvm_free sample_vmm0)"
    "0x3FC00000 < vmm_map_end 0x40000000 (vm_pmm sample_vmm0)" by (simp_all add: sample_vmm0_ok(3,5) t)
  from alloc_area_wraps [OF sample_vmm0_ok(1,2) this] show ?thesis by blast
qed

text \<open>C27. A failing allocation frees pages it has not allocated: its rollback runs over the whole range, so
  a page that was mapped there before (page number \<open>k\<close>, beyond what memory allowed) is unmapped and
  its frame goes back to the physical allocator.\<close>

theorem alloc_rollback_frees_foreign_page:
  assumes "kvm_ok bi s" "g_vmm_ready s" "range_ok (g_next_vaddr s) (unat count)" "g_next_vaddr s \<noteq> 0"
    and "k < unat count" "card (kvm_free s) \<le> k"
    and "\<forall>j < unat count. space s (page_at (g_next_vaddr s) j) = (if j = k then f OR 3 else 0)"
    and "f \<in> bm_managed (pmm_data (vm_pmm s)) - kvm_free s" "f \<notin> tables s"
  shows "\<exists>s'. vmm_alloc_pages count s = (0, s') \<and> space s' (page_at (g_next_vaddr s) k) = 0 \<and> f \<in> kvm_free s'"
  by (rule kb.rollback_takes_foreign [OF assms])

lemma sample_used_page: "0x100000 \<in> bm_managed sample_bitmap - bm_free sample_bitmap"
proof -
  have at: "region_at sample_bitmap 0 = \<lparr>r_base = 0x100000, r_pages = 8, r_bitmap = [1], r_bitmap_bytes = 1,
       r_bitmap_storage_bytes = 1, r_bitmap_pages = 0, r_free = 7\<rparr>" "g_region_count sample_bitmap = 1"
    by (simp_all add: region_at_def sample_bitmap_def)
  have ok: "region_ok (region_at sample_bitmap 0)" by (rule bm_core_ok [OF sample_bitmap_core]) (simp add: at)
  have z: "region_index_to_addr (region_at sample_bitmap 0) 0 = 0x100000"
    by (simp add: at region_index_to_addr_def)
  have "i = 0" if "region_index_to_addr (region_at sample_bitmap 0) i = 0x100000" "i < 8" for i
  proof -
    have "unat (region_index_to_addr (region_at sample_bitmap 0) i) = 0x100000 + unat i * 4096"
      using unat_index_to_addr [OF ok, of i] that(2) by (simp add: at)
    then show ?thesis unfolding that(1) by (simp add: unsigned_eq_0_iff)
  qed
  moreover have "bitmap_test_r (region_at sample_bitmap 0) 0" unfolding at(1) by code_simp
  ultimately have "0x100000 \<notin> region_free_set (region_at sample_bitmap 0)"
    by (auto simp: region_free_set_def clear_idx_def at) (metis)
  moreover have "0x100000 \<in> region_managed (region_at sample_bitmap 0)"
    using imageI [of 0 "{i. i < r_pages (region_at sample_bitmap 0)}" "region_index_to_addr (region_at sample_bitmap 0)"] z
    by (simp add: region_managed_def at)
  ultimately show ?thesis by (simp add: bm_managed_def bm_free_def at(2) sample_bitmap_inv(2))
qed

theorem alloc_rollback_frees_foreign_page_witness:
  "let s = snd (vmm_map_page 0xD0006000 0x100000 3 sample_vmm); s' = snd (vmm_alloc_pages 7 s)
   in vmm_get_physical 0xD0006000 s = Some 0x100000 \<and> fst (vmm_alloc_pages 7 s) = 0 \<and> 0x100000 \<in> kvm_free s'"
proof -
  define s where "s = snd (vmm_map_page 0xD0006000 0x100000 3 sample_vmm)"
  have ne: "kvm_free sample_vmm \<noteq> {}" using sample_vmm_ok(3) by auto
  have al: "page_aligned (0xD0006000 :: u32)" "page_aligned (0x100000 :: u32)" by (simp_all add: page_aligned_def)
  have run: "vmm_map_page 0xD0006000 0x100000 3 sample_vmm = (0, s)"
    and M: "kvm_ok sample_boot s" "rest_eq sample_vmm s" "space s = (space sample_vmm)(0xD0006000 := 0x100003)"
      "kvm_took {} sample_vmm s" "\<forall>j < 1024. present s j \<longleftrightarrow> j = pd_index 0xD0006000"
    using kb.vmm_map_page [OF sample_vmm_ok(1) al disjI2 [OF ne], of 3] sample_vmm_ok(6) by (auto simp: s_def)
  have tab: "tables s = {table_of s (pd_index 0xD0006000)}" using M(5) index_lt(1) by (auto simp: tables_def)
  have dm: "vm_pmm sample_vmm = \<lparr>g_pmm_ops = Some (g_bitmap_ops sample_boot), pmm_data = sample_bitmap\<rparr>"
    by (simp add: sample_vmm_def del: replicate.simps)
  have f: "0x100000 \<in> bm_managed (pmm_data (vm_pmm s)) - kvm_free s" "0x100000 \<notin> tables s"
    and fr: "kvm_free s = kvm_free sample_vmm - tables s" "tables s \<subseteq> kvm_free sample_vmm"
    using M(4) sample_used_page sample_vmm_ok(4) by (auto simp: took_def dm)
  have few: "card (kvm_free s) \<le> 6" using fr tab sample_vmm_ok(3) by simp
  have nv: "g_next_vaddr s = 0xD0000000" "g_vmm_ready s" using M(2) sample_vmm_alloc(1) sample_vmm_ok(2) by (auto simp: rest_eq_def)
  have rng: "range_ok (g_next_vaddr s) (unat (7 :: u32))" by (simp add: nv range_ok_def page_aligned_def)
  have p6: "page_at 0xD0000000 6 = 0xD0006000" by (simp add: page_at_def VMM_PAGE_SIZE_def)
  have sp: "\<forall>j < unat (7 :: u32). space s (page_at (g_next_vaddr s) j) = (if j = 6 then 0x100000 OR 3 else 0)"
    using page_at_inj [OF rng, of _ 6] sample_vmm_ok(5) unfolding M(3) nv(1) p6 by auto
  have "vmm_get_physical 0xD0006000 s = Some 0x100000"
    using nv(2) al(1) by (simp add: query_space M(3) frame_of_def)
  moreover have "\<exists>s'. vmm_alloc_pages 7 s = (0, s') \<and> space s' (page_at (g_next_vaddr s) 6) = 0 \<and> 0x100000 \<in> kvm_free s'"
    by (rule alloc_rollback_frees_foreign_page [OF M(1) nv(2) rng _ _ few sp f]) (simp_all add: nv)
  ultimately show ?thesis unfolding Let_def s_def [symmetric] by auto
qed

text \<open>The size computation of \<open>vmm_alloc_pages\<close> wraps around for \<open>2\<^sup>2\<^sup>0\<close> pages and more, and the check that
  follows it does not notice: a request for \<open>2\<^sup>2\<^sup>0 + 1\<close> pages (more than the address space) is not refused,
  and reserves 4096 bytes.\<close>

theorem alloc_size_wraps:
  assumes "g_vmm_ready s" "g_next_vaddr s = 0xD0000000"
  shows "g_next_vaddr (snd (vmm_alloc_pages 0x100001 s)) = 0xD0001000"
proof -
  let ?s = "s\<lparr>g_next_vaddr := 0xD0001000\<rparr>"
  obtain b s1 where al: "vmm_alloc_from 0xD0000000 0x100001 0 ?s = (b, s1)" by (cases "vmm_alloc_from 0xD0000000 0x100001 0 ?s")
  have "g_next_vaddr s1 = 0xD0001000" using next_vaddr_alloc_from [of "0xD0000000" "0x100001" 0 ?s] by (simp add: al)
  moreover have "0x100001 * VMM_PAGE_SIZE = 0x1000" by (simp add: VMM_PAGE_SIZE_def)
  ultimately show ?thesis
    using assms al by (simp add: vmm_alloc_pages_def Let_def next_vaddr_rollback)
qed

theorem alloc_size_wraps_witness: "g_next_vaddr (snd (vmm_alloc_pages 0x100001 sample_vmm)) = 0xD0001000"
  by (rule alloc_size_wraps [OF sample_vmm_ok(2) sample_vmm_alloc(1)])

text \<open>\<open>map_end\<close> is computed from the lowest managed address and the number of pages, as if they were
  contiguous. When the allocator has several regions, pages of the upper ones lie beyond the end of
  the direct map: here page 8, at \<open>0x2000000\<close>, while the map ends at \<open>0x1000000\<close>.\<close>

definition two_regions :: "bitmap_state pmm_state" where
  "two_regions = \<lparr>g_pmm_ops = Some (g_bitmap_ops sample_boot), pmm_data = sample_bitmap\<lparr>
     g_regions := (g_regions sample_bitmap)[1 := (g_regions sample_bitmap ! 0)\<lparr>r_base := 0x2000000\<rparr>],
     g_region_count := 2, g_pmm_total_pages := 16, g_pmm_total_free := 14\<rparr>\<rparr>"

theorem map_end_misses_upper_region:
  "pmm_page_addr 8 two_regions = 0x2000000 \<and> vmm_map_end 0x120000 two_regions = 0x1000000"
proof -
  have "pmm_page_addr 8 two_regions = 0x2000000" "pmm_managed_base two_regions = 0x100000" "pmm_total_pages two_regions = 16"
    unfolding two_regions_def pmm_page_addr_def pmm_managed_base_def pmm_total_pages_def by code_simp+
  then show ?thesis by (simp add: vmm_map_end_def Let_def VMM_PAGE_SIZE_def)
qed

end
