(* ===== verification/Vmm_Tlb.thy ===== *)
theory Vmm_Tlb
  imports Vmm_Kernel
begin

text \<open>
  The translation caches of the processor beside the page tables of \<open>vmm.c\<close>. The processor may load a
  present entry into its cache, or drop one, at any moment between two operations of the kernel; the
  operations execute \<open>invlpg\<close> and loads of \<open>cr3\<close>. The steps are the single-page operations and the
  exchange of pages with the physical allocator, of which the multi-page operations are sequences.
\<close>

section \<open>The machine\<close>

type_synonym tlb = "u32 \<Rightarrow> u32 option"

fun tlb_exec :: "cpu_op \<Rightarrow> tlb \<Rightarrow> tlb" where
  "tlb_exec (Invlpg v) t = t(v := None)"
| "tlb_exec (Load_CR3 _) t = (\<lambda>_. None)"

text \<open>The instructions that an operation from \<open>s\<close> to \<open>s'\<close> has executed, in order.\<close>

definition executed :: "('b, 'v) vmm_state \<Rightarrow> ('b, 'v) vmm_state \<Rightarrow> cpu_op list" where
  "executed s s' = drop (length (vm_cpu s)) (vm_cpu s')"

definition tlb_after :: "('b, 'v) vmm_state \<Rightarrow> ('b, 'v) vmm_state \<Rightarrow> tlb \<Rightarrow> tlb" where
  "tlb_after s s' t = fold tlb_exec (executed s s') t"

inductive mmu_step :: "(bitmap_state, 'v) vmm_state \<times> tlb \<Rightarrow> (bitmap_state, 'v) vmm_state \<times> tlb \<Rightarrow> bool" where
  map_page: "vmm_map_page virt phys flags s = (ret, s') \<Longrightarrow> mmu_step (s, t) (s', tlb_after s s' t)"
| unmap_page: "mmu_step (s, t) (vmm_unmap_page virt s, tlb_after s (vmm_unmap_page virt s) t)"
| unmap_identity: "mmu_step (s, t) (vmm_unmap_identity s, tlb_after s (vmm_unmap_identity s) t)"
| take_page: "pmm_alloc_page (vm_pmm s) = (p, pm) \<Longrightarrow> mmu_step (s, t) (s\<lparr>vm_pmm := pm\<rparr>, t)"
| give_page: "p \<in> bm_managed (pmm_data (vm_pmm s)) - kvm_free s \<Longrightarrow> p \<notin> tables s \<Longrightarrow>
    mmu_step (s, t) (s\<lparr>vm_pmm := pmm_free_page p (vm_pmm s)\<rparr>, t)"
| fill: "space s v AND PTE_PRESENT \<noteq> 0 \<Longrightarrow> mmu_step (s, t) (s, t(v \<mapsto> space s v))"
| evict: "mmu_step (s, t) (s, t(v := None))"

inductive_cases mmu_stepE: "mmu_step (s, t) c"

definition coherent :: "(u32 \<Rightarrow> u32) \<Rightarrow> tlb \<Rightarrow> bool" where
  "coherent sp t \<longleftrightarrow> (\<forall>v e. t v = Some e \<longrightarrow> sp v = e)"

definition mmu_ok :: "boot_info \<Rightarrow> (bitmap_state, 'v) vmm_state \<times> tlb \<Rightarrow> bool" where
  "mmu_ok bi c \<longleftrightarrow> kvm_ok bi (fst c) \<and> vmm_is_ready (fst c) \<and> coherent (space (fst c)) (snd c)"

section \<open>Coherence\<close>

lemma coherent_upd: "coherent sp t \<Longrightarrow> coherent (sp(v := e)) (t(v := None))"
  by (auto simp: coherent_def)

lemma coherent_drop: "coherent sp t \<Longrightarrow> coherent sp (t(v := None))"
  by (auto simp: coherent_def)

lemma tlb_after_simps:
  "vm_cpu s' = vm_cpu s \<Longrightarrow> tlb_after s s' t = t"
  "vm_cpu s' = vm_cpu s @ [op] \<Longrightarrow> tlb_after s s' t = tlb_exec op t"
  by (simp_all add: tlb_after_def executed_def)

lemma map_page_coherent:
  assumes ok: "kvm_ok bi s" and rdy: "g_vmm_ready s" and co: "coherent (space s) t"
    and run: "vmm_map_page virt phys flags s = (ret, s')"
  shows "coherent (space s') (tlb_after s s' t)"
proof (cases "page_aligned virt \<and> page_aligned phys")
  case False
  then have "s' = s" using run by (auto simp: vmm_map_page_def page_aligned_def)
  then show ?thesis using co by (simp add: tlb_after_simps)
next
  case True
  then have al: "page_aligned virt" "page_aligned phys" by auto
  show ?thesis
  proof (cases "present s (pd_index virt) \<or> kvm_free s \<noteq> {}")
    case room: True
    from kb.vmm_map_page [OF ok al room, of flags] show ?thesis
      using run rdy coherent_upd [OF co] by (auto simp: tlb_after_simps(2))
  next
    case False
    then have "s' = s\<lparr>vm_pmm := snd (pmm_alloc_page (vm_pmm s))\<rparr>"
      using kb.vmm_map_page_fails [OF ok al, of flags] run by auto
    moreover have "space s' = space s" using kb.map_page_total [OF ok run] False True by auto
    ultimately show ?thesis using co by (simp add: tlb_after_simps(1))
  qed
qed

lemma unmap_page_coherent:
  assumes ok: "kvm_ok bi s" and rdy: "g_vmm_ready s" and co: "coherent (space s) t"
  shows "kvm_ok bi (vmm_unmap_page virt s)" "g_vmm_ready (vmm_unmap_page virt s)"
    "coherent (space (vmm_unmap_page virt s)) (tlb_after s (vmm_unmap_page virt s) t)"
proof -
  have "kvm_ok bi (vmm_unmap_page virt s) \<and> g_vmm_ready (vmm_unmap_page virt s) \<and>
    coherent (space (vmm_unmap_page virt s)) (tlb_after s (vmm_unmap_page virt s) t)"
  proof (cases "page_aligned virt")
    case False
    then have "vmm_unmap_page virt s = s" by (simp add: vmm_unmap_page_def page_aligned_def)
    then show ?thesis using assms by (simp add: tlb_after_simps)
  next
    case True
    note u = kb.vmm_unmap_page [OF ok True]
    have "coherent ((space s)(virt := 0)) (tlb_after s (vmm_unmap_page virt s) t)"
    proof (cases "present s (pd_index virt)")
      case True
      then have "tlb_after s (vmm_unmap_page virt s) t = t(virt := None)" using u(6) rdy by (simp add: tlb_after_simps(2))
      then show ?thesis using coherent_upd [OF co] by simp
    next
      case False
      then have "tlb_after s (vmm_unmap_page virt s) t = t" "space s virt = 0"
        using u(6) by (simp_all add: tlb_after_simps(1) space_def walk_def)
      then show ?thesis using co by (metis fun_upd_triv)
    qed
    then show ?thesis using u rdy by (simp add: rest_eq_def)
  qed
  then show "kvm_ok bi (vmm_unmap_page virt s)" "g_vmm_ready (vmm_unmap_page virt s)"
    "coherent (space (vmm_unmap_page virt s)) (tlb_after s (vmm_unmap_page virt s) t)" by blast+
qed

lemma mmu_step_ok: "mmu_step c c' \<Longrightarrow> mmu_ok bi c \<Longrightarrow> mmu_ok bi c'"
proof (induction rule: mmu_step.induct)
  case (map_page virt phys flags s ret s' t)
  then show ?case
    using map_page_coherent [of bi s t virt phys flags ret s'] kb.map_page_total [of bi s virt phys flags ret s']
    by (auto simp: mmu_ok_def vmm_is_ready_def rest_eq_def)
next
  case (unmap_page s t virt)
  then show ?case using unmap_page_coherent [of bi s t virt] by (simp add: mmu_ok_def vmm_is_ready_def)
next
  case (unmap_identity s t)
  then have ok: "kvm_ok bi s" "g_vmm_ready s" by (simp_all add: mmu_ok_def vmm_is_ready_def)
  note u = kb.vmm_unmap_identity [OF ok]
  have "tlb_after s (vmm_unmap_identity s) t = (\<lambda>_. None)" using u(5) by (simp add: tlb_after_simps(2))
  then show ?case using u ok by (simp add: mmu_ok_def vmm_is_ready_def rest_eq_def coherent_def)
next
  case (take_page s p pm t)
  then have ok: "kvm_ok bi s" and inv: "registered (g_bitmap_ops bi) bm_inv (vm_pmm s)" by (simp_all add: mmu_ok_def vm_ok_def)
  show ?case
  proof (cases "kvm_free s = {}")
    case True
    have "pm = snd (pmm_alloc_page (vm_pmm s))" using take_page(1) by simp
    then have A: "registered (g_bitmap_ops bi) bm_inv pm" "bm_managed (pmm_data pm) = bm_managed (pmm_data (vm_pmm s))"
      "bm_free (pmm_data pm) = {}"
      using kb.alloc_none [OF inv True] kb.alloc_inv [OF inv] kb.alloc_managed [OF inv] by simp_all
    note sc = space_cong [of "s\<lparr>vm_pmm := pm\<rparr>" s]
    have "kvm_ok bi (s\<lparr>vm_pmm := pm\<rparr>)"
      using A by (intro vm_ok_cong [of "s\<lparr>vm_pmm := pm\<rparr>" s, OF _ _ _ _ _ _ ok]) (simp_all add: vm_simps)
    moreover have "space (s\<lparr>vm_pmm := pm\<rparr>) = space s" using sc by (simp add: fun_eq_iff space_def vm_simps)
    ultimately show ?thesis using take_page by (simp add: mmu_ok_def vmm_is_ready_def)
  next
    case False
    from kb.take_page [OF ok False take_page(1)] show ?thesis
      using take_page(2) by (simp add: mmu_ok_def vmm_is_ready_def)
  qed
next
  case (give_page p s t)
  then have ok: "kvm_ok bi s" by (simp add: mmu_ok_def)
  from kb.give_page [OF ok give_page(1,2)] show ?case using give_page(3) by (simp add: mmu_ok_def vmm_is_ready_def)
next
  case (fill s v t)
  then show ?case by (auto simp: mmu_ok_def coherent_def)
next
  case (evict s t v)
  then show ?case by (simp add: mmu_ok_def coherent_drop)
qed

text \<open>C11. The processor never translates through a stale entry: along every sequence of mapping, unmapping,
  removal of the identity mapping, allocation and release of pages, and cache fills at any point,
  each translation that is cached is the one in the page tables.\<close>

theorem tlb_never_stale:
  assumes "mmu_step\<^sup>*\<^sup>* (s, \<lambda>_. None) (s', t)" "kvm_ok bi s" "g_vmm_ready s"
  shows "kvm_ok bi s' \<and> (\<forall>v e. t v = Some e \<and> page_aligned v \<longrightarrow> vmm_get_pte v s' = e)"
proof -
  have "mmu_ok bi (s, \<lambda>_. None)" using assms(2,3) by (simp add: mmu_ok_def vmm_is_ready_def coherent_def)
  with assms(1) have "mmu_ok bi (s', t)" by (induction rule: rtranclp_induct) (auto intro: mmu_step_ok)
  then have "kvm_ok bi s'" "g_vmm_ready s'" "coherent (space s') t" by (simp_all add: mmu_ok_def vmm_is_ready_def)
  moreover have "vmm_get_pte v s' = e" if "t v = Some e" "page_aligned v" for v e
  proof -
    have "space s' v = e" using that(1) \<open>coherent (space s') t\<close> unfolding coherent_def by blast
    then show ?thesis using that(2) \<open>g_vmm_ready s'\<close> by (simp add: query_space space_def)
  qed
  ultimately show ?thesis by blast
qed

theorem tlb_never_stale_witness:
  "let s1 = snd (vmm_map_page 0xD0000000 0x5000 3 sample_vmm); t1 = (\<lambda>_. None)(0xD0000000 \<mapsto> space s1 0xD0000000)
   in \<forall>v e. tlb_after s1 (vmm_unmap_page 0xD0000000 s1) t1 v = Some e \<and> page_aligned v \<longrightarrow>
     vmm_get_pte v (vmm_unmap_page 0xD0000000 s1) = e"
proof -
  define s1 where "s1 = snd (vmm_map_page 0xD0000000 0x5000 3 sample_vmm)"
  have ne: "kvm_free sample_vmm \<noteq> {}" using sample_vmm_ok(3) by auto
  have al: "page_aligned (0xD0000000 :: u32)" "page_aligned (0x5000 :: u32)" by (simp_all add: page_aligned_def)
  have run: "vmm_map_page 0xD0000000 0x5000 3 sample_vmm = (0, s1)" and sp: "space s1 0xD0000000 = 0x5003"
    and cpu: "vm_cpu s1 = vm_cpu sample_vmm @ [Invlpg 0xD0000000]"
    using kb.vmm_map_page [OF sample_vmm_ok(1) al disjI2 [OF ne], of 3] sample_vmm_ok(2) by (auto simp: s1_def)
  have "tlb_after sample_vmm s1 (\<lambda>_. None) = (\<lambda>_. None)" using cpu by (simp add: tlb_after_simps(2) fun_eq_iff)
  then have s1: "mmu_step (sample_vmm, \<lambda>_. None) (s1, \<lambda>_. None)" using mmu_step.map_page [OF run, of "\<lambda>_. None"] by simp
  have s2: "mmu_step (s1, \<lambda>_. None) (s1, (\<lambda>_. None)(0xD0000000 \<mapsto> space s1 0xD0000000))"
    by (rule mmu_step.fill) (simp add: sp PTE_PRESENT_def)
  note s3 = mmu_step.unmap_page [of s1 "(\<lambda>_. None)(0xD0000000 \<mapsto> space s1 0xD0000000)" "0xD0000000"]
  have "mmu_step\<^sup>*\<^sup>* (sample_vmm, \<lambda>_. None)
    (vmm_unmap_page 0xD0000000 s1, tlb_after s1 (vmm_unmap_page 0xD0000000 s1) ((\<lambda>_. None)(0xD0000000 \<mapsto> space s1 0xD0000000)))"
    by (rule converse_rtranclp_into_rtranclp, rule s1, rule converse_rtranclp_into_rtranclp, rule s2, rule r_into_rtranclp, rule s3)
  from tlb_never_stale [OF this sample_vmm_ok(1,2)] show ?thesis unfolding s1_def [symmetric] Let_def by blast
qed

end
