(* ===== verification/Heap_Ops.thy ===== *)
theory Heap_Ops
  imports Vmm
begin

text \<open>
  The interface of the kernel heap's back-ends (\<open>kmalloc.h\<close>) and the contract every back-end is held
  to. A heap lives in its own part of the memory; the state of a back-end extends the state of the
  memory managers it may ask for pages. A run of a client of the heap is compared with an abstract store of objects.
\<close>

section \<open>Byte ranges of the memory\<close>

lemma wr32_out:
  assumes "unat w + 4 \<le> 2 ^ 32" "unat x < unat w \<or> unat w + 4 \<le> unat x"
  shows "wr32 m w v x = m x"
proof -
  have "unat (w + 1) = unat w + 1" "unat (w + 2) = unat w + 2" "unat (w + 3) = unat w + 3"
    using assms(1) by (subst unat_add_no_wrap; simp)+
  then have "x \<noteq> w" "x \<noteq> w + 1" "x \<noteq> w + 2" "x \<noteq> w + 3" using assms(2) by auto
  then show ?thesis by (simp add: wr32_def)
qed

lemma rd32_cong:
  assumes "unat b + 4 \<le> 2 ^ 32" "\<And>x. unat b \<le> unat x \<Longrightarrow> unat x < unat b + 4 \<Longrightarrow> m' x = m x"
  shows "rd32 m' b = rd32 m b"
proof -
  have "unat (b + 1) = unat b + 1" "unat (b + 2) = unat b + 2" "unat (b + 3) = unat b + 3"
    using assms(1) by (subst unat_add_no_wrap; simp)+
  then show ?thesis using assms(2) by (simp add: rd32_def)
qed

text \<open>Accesses to words that do not overlap.\<close>

lemma rd32_wr32_far:
  assumes "unat w + 4 \<le> 2 ^ 32" "unat r + 4 \<le> 2 ^ 32" "unat w + 4 \<le> unat r \<or> unat r + 4 \<le> unat w"
  shows "rd32 (wr32 m w v) r = rd32 m r"
  using assms by (intro rd32_cong wr32_out) auto

section \<open>The table of a back-end\<close>

record heap_stats =
  hs_heap_size :: u32
  hs_used_bytes :: u32
  hs_free_bytes :: u32
  hs_alloc_count :: u32
  hs_free_count :: u32

record 's heap_ops =
  ho_name :: string
  ho_init :: "u32 \<Rightarrow> u32 \<Rightarrow> 's \<Rightarrow> 's"
  ho_alloc :: "u32 \<Rightarrow> 's \<Rightarrow> (u32 \<times> 's) option"
  ho_free :: "u32 \<Rightarrow> 's \<Rightarrow> 's option"
  ho_stats :: "'s \<Rightarrow> heap_stats option"

text \<open>What every back-end's state holds: the memory managers and the bytes of the heap.\<close>

record ('b, 'v) kheap =
  kh_vm :: "('b, 'v) vmm_state"
  kh_mem :: memory

section \<open>What a back-end promises\<close>

definition block_at :: "u32 \<Rightarrow> nat \<Rightarrow> u32 set" where
  "block_at p n = {x. unat p \<le> unat x \<and> unat x < unat p + n}"

text \<open>
  \<open>live s\<close> maps the address of every allocated block to its size, and \<open>full s n\<close> says that there is no room for
  \<open>n\<close> more bytes: then, and only then, a request is refused. A client may write the bytes of its
  own blocks (\<open>poke\<close>) and nothing else. Requests above \<open>0xFFFFFFF8\<close> are outside the contract.
\<close>

locale heap_backend =
  fixes alloc :: "u32 \<Rightarrow> 's \<Rightarrow> (u32 \<times> 's) option"
    and free :: "u32 \<Rightarrow> 's \<Rightarrow> 's option"
    and mem :: "'s \<Rightarrow> memory"
    and poke :: "u32 \<Rightarrow> u8 \<Rightarrow> 's \<Rightarrow> 's"
    and inv :: "'s \<Rightarrow> bool"
    and live :: "'s \<Rightarrow> u32 \<Rightarrow> nat option"
    and full :: "'s \<Rightarrow> u32 \<Rightarrow> bool"
  assumes live_block: "inv s \<Longrightarrow> live s p = Some n \<Longrightarrow> p \<noteq> 0 \<and> 8 dvd unat p \<and> unat p + n \<le> 2 ^ 32"
    and live_disjoint: "inv s \<Longrightarrow> live s p = Some n \<Longrightarrow> live s q = Some k \<Longrightarrow> p \<noteq> q \<Longrightarrow> block_at p n \<inter> block_at q k = {}"
    and alloc_ok: "inv s \<Longrightarrow> sz \<le> 0xFFFFFFF8 \<Longrightarrow> \<exists>p s'. alloc sz s = Some (p, s') \<and> inv s' \<and> (p = 0 \<longleftrightarrow> full s sz) \<and>
      (if p = 0 then live s' = live s else live s p = None \<and> (\<exists>k. unat sz \<le> k \<and> live s' = (live s)(p \<mapsto> k))) \<and>
      (\<forall>q k. live s q = Some k \<longrightarrow> (\<forall>x \<in> block_at q k. mem s' x = mem s x))"
    and free_ok: "inv s \<Longrightarrow> live s p = Some n \<Longrightarrow> \<exists>s'. free p s = Some s' \<and> inv s' \<and> live s' = (live s)(p := None) \<and>
      (\<forall>q k. q \<noteq> p \<longrightarrow> live s q = Some k \<longrightarrow> (\<forall>x \<in> block_at q k. mem s' x = mem s x))"
    and free_null: "inv s \<Longrightarrow> free 0 s = Some s"
    and poke_ok: "inv s \<Longrightarrow> live s p = Some n \<Longrightarrow> x \<in> block_at p n \<Longrightarrow>
      inv (poke x v s) \<and> live (poke x v s) = live s \<and> mem (poke x v s) = (mem s)(x := v)"

section \<open>A client of the heap\<close>

text \<open>A client allocates, frees blocks it holds and writes bytes inside them.\<close>

datatype heap_cmd = Alloc u32 | Free u32 | Write u32 nat u8

text \<open>The abstract heap: the blocks the client holds, with their contents. A request is answered with the address
  of a fresh aligned block, apart from the others, the first bytes of which are \<open>bs\<close>, or with 0 when it is refused.\<close>

type_synonym obj_store = "u32 \<Rightarrow> u8 list option"

inductive store_step :: "obj_store \<Rightarrow> heap_cmd \<Rightarrow> u32 \<Rightarrow> obj_store \<Rightarrow> bool" where
  alloc: "o1 p = None \<Longrightarrow> p \<noteq> 0 \<Longrightarrow> 8 dvd unat p \<Longrightarrow> unat p + length bs \<le> 2 ^ 32 \<Longrightarrow> unat n \<le> length bs \<Longrightarrow>
    \<forall>q cs. o1 q = Some cs \<longrightarrow> block_at p (length bs) \<inter> block_at q (length cs) = {} \<Longrightarrow>
    store_step o1 (Alloc n) p (o1(p \<mapsto> bs))"
| refuse: "store_step o1 (Alloc n) 0 o1"
| free: "o1 p = Some bs \<Longrightarrow> store_step o1 (Free p) 0 (o1(p := None))"
| free_null: "store_step o1 (Free 0) 0 o1"
| store_byte: "o1 p = Some bs \<Longrightarrow> i < length bs \<Longrightarrow> store_step o1 (Write p i v) 0 (o1(p \<mapsto> bs[i := v]))"

text \<open>A client that keeps to the rules: it frees and writes only what it holds, and asks for sizes within
  the contract.\<close>

fun cmd_ok :: "(u32 \<Rightarrow> nat option) \<Rightarrow> heap_cmd \<Rightarrow> bool" where
  "cmd_ok l (Alloc n) = (n \<le> 0xFFFFFFF8)"
| "cmd_ok l (Free p) = (p = 0 \<or> l p \<noteq> None)"
| "cmd_ok l (Write p i v) = (case l p of None \<Rightarrow> False | Some n \<Rightarrow> i < n)"

text \<open>The commands on a back-end with operations \<open>al\<close> and \<open>fr\<close>, memory \<open>mm\<close> written by \<open>pk\<close> and live blocks
  \<open>lv\<close>; the objects of a heap state; and a run, up to the first command that breaks the rules.\<close>

definition heap_exec :: "(u32 \<Rightarrow> 's \<Rightarrow> (u32 \<times> 's) option) \<Rightarrow> (u32 \<Rightarrow> 's \<Rightarrow> 's option) \<Rightarrow> (u32 \<Rightarrow> u8 \<Rightarrow> 's \<Rightarrow> 's) \<Rightarrow>
    heap_cmd \<Rightarrow> 's \<Rightarrow> (u32 \<times> 's) option" where
  "heap_exec al fr pk c s =
     (case c of Alloc n \<Rightarrow> al n s | Free p \<Rightarrow> map_option (Pair 0) (fr p s) | Write p i v \<Rightarrow> Some (0, pk (p + of_nat i) v s))"

definition heap_objects :: "('s \<Rightarrow> memory) \<Rightarrow> ('s \<Rightarrow> u32 \<Rightarrow> nat option) \<Rightarrow> 's \<Rightarrow> obj_store" where
  "heap_objects mm lv s p = map_option (\<lambda>n. map (\<lambda>i. mm s (p + of_nat i)) [0..<n]) (lv s p)"

text \<open>The trace of a run: every command with the state it was given in and its answer, the final state, and
  the commands that were left.\<close>

type_synonym 's heap_trace = "('s \<times> heap_cmd \<times> u32) list \<times> 's \<times> heap_cmd list"

fun heap_run :: "(u32 \<Rightarrow> 's \<Rightarrow> (u32 \<times> 's) option) \<Rightarrow> (u32 \<Rightarrow> 's \<Rightarrow> 's option) \<Rightarrow> (u32 \<Rightarrow> u8 \<Rightarrow> 's \<Rightarrow> 's) \<Rightarrow>
    ('s \<Rightarrow> u32 \<Rightarrow> nat option) \<Rightarrow> heap_cmd list \<Rightarrow> 's \<Rightarrow> 's heap_trace option" where
  "heap_run al fr pk lv [] s = Some ([], s, [])"
| "heap_run al fr pk lv (c # cs) s =
     (if cmd_ok (lv s) c
      then Option.bind (heap_exec al fr pk c s)
        (\<lambda>(a, s1). map_option (\<lambda>(es, s', rest). ((s, c, a) # es, s', rest)) (heap_run al fr pk lv cs s1))
      else Some ([], s, c # cs))"

text \<open>A trace is one of the abstract heap with these answers, in which exactly the requests for which there was
  no room are refused.\<close>

fun trace_ok :: "('s \<Rightarrow> obj_store) \<Rightarrow> ('s \<Rightarrow> u32 \<Rightarrow> bool) \<Rightarrow> ('s \<times> heap_cmd \<times> u32) list \<Rightarrow> 's \<Rightarrow> bool" where
  "trace_ok ob full [] s' = True"
| "trace_ok ob full ((s, c, a) # es) s' =
     (store_step (ob s) c a (ob (case es of [] \<Rightarrow> s' | e # _ \<Rightarrow> fst e)) \<and>
      (\<forall>n. c = Alloc n \<longrightarrow> (a = 0 \<longleftrightarrow> full s n)) \<and> trace_ok ob full es s')"

text \<open>What a run of a back-end promises.\<close>

definition serves :: "'s heap_trace option \<Rightarrow> 's \<Rightarrow> heap_cmd list \<Rightarrow> ('s \<Rightarrow> obj_store) \<Rightarrow> ('s \<Rightarrow> u32 \<Rightarrow> nat option) \<Rightarrow>
    ('s \<Rightarrow> u32 \<Rightarrow> bool) \<Rightarrow> 's \<Rightarrow> bool" where
  "serves r s cs ob lv full s' \<longleftrightarrow> (\<exists>es rest. r = Some (es, s', rest) \<and> map (\<lambda>(s, c, a). c) es @ rest = cs \<and>
     (case es of [] \<Rightarrow> s' = s | e # _ \<Rightarrow> fst e = s) \<and> trace_ok ob full es s' \<and> (rest = [] \<or> \<not> cmd_ok (lv s') (hd rest)))"

context heap_backend
begin

abbreviation "exec \<equiv> heap_exec alloc free poke"
abbreviation "objects \<equiv> heap_objects mem live"
abbreviation "run_cmds \<equiv> heap_run alloc free poke live"

lemmas exec_def = heap_exec_def
lemmas objects_def = heap_objects_def

lemma byte_in_block: "inv s \<Longrightarrow> live s p = Some n \<Longrightarrow> i < n \<Longrightarrow> unat (p + of_nat i) = unat p + i \<and> p + of_nat i \<in> block_at p n"
proof -
  assume a: "inv s" "live s p = Some n" "i < n"
  have le: "unat p + n \<le> 2 ^ 32" using live_block [OF a(1,2)] by simp
  then have "unat (of_nat i :: u32) = i" using a(3) by (simp add: unat_of_nat)
  then have "unat (p + of_nat i) = unat p + i" using le a(3) by (subst unat_add_no_wrap) simp_all
  then show ?thesis using a(3) by (simp add: block_at_def)
qed

lemma objects_upd:
  assumes "inv s" "\<And>q k. q \<noteq> p \<Longrightarrow> live s q = Some k \<Longrightarrow> live s' q = Some k \<and> (\<forall>x \<in> block_at q k. mem s' x = mem s x)"
    and "\<And>q. q \<noteq> p \<Longrightarrow> live s q = None \<Longrightarrow> live s' q = None" "q \<noteq> p"
  shows "objects s' q = objects s q"
  using assms(2) [of q] assms(3) [of q] assms(4) byte_in_block [OF assms(1), of q] by (cases "live s q") (auto simp: objects_def)

text \<open>Every command of a well-behaved client returns and acts on the objects as on the abstract heap.\<close>

lemma exec_refines:
  assumes inv: "inv s" and ok: "cmd_ok (live s) c"
  shows "\<exists>a s'. exec c s = Some (a, s') \<and> inv s' \<and> store_step (objects s) c a (objects s') \<and>
    (\<forall>n. c = Alloc n \<longrightarrow> (a = 0 \<longleftrightarrow> full s n))"
proof (cases c)
  case (Alloc n)
  then have "n \<le> 0xFFFFFFF8" using ok by simp
  from alloc_ok [OF inv this] obtain p s' where a: "alloc n s = Some (p, s')" "inv s'" "p = 0 \<longleftrightarrow> full s n"
    "if p = 0 then live s' = live s else live s p = None \<and> (\<exists>k. unat n \<le> k \<and> live s' = (live s)(p \<mapsto> k))"
    "\<forall>q k. live s q = Some k \<longrightarrow> (\<forall>x \<in> block_at q k. mem s' x = mem s x)" by blast
  have "store_step (objects s) (Alloc n) p (objects s')"
  proof (cases "p = 0")
    case True
    then have "objects s' q = objects s q" for q
      using a(4,5) byte_in_block [OF inv, of q] by (cases "live s q") (auto simp: objects_def)
    then have "objects s' = objects s" by blast
    then show ?thesis using True by (simp add: store_step.refuse)
  next
    case False
    then obtain k where k: "live s p = None" "unat n \<le> k" "live s' = (live s)(p \<mapsto> k)" using a(4) by auto
    have "objects s' q = objects s q" if "q \<noteq> p" for q
      using k a(5) that by (intro objects_upd [OF inv, of p]) auto
    moreover obtain bs where bs: "objects s' p = Some bs" "length bs = k" using k(3) by (simp add: objects_def)
    ultimately have o: "objects s' = (objects s)(p \<mapsto> bs)" by (auto simp: fun_eq_iff)
    have p: "live s' p = Some k" using k(3) by simp
    have "block_at p (length bs) \<inter> block_at q (length cs) = {}" if "objects s q = Some cs" for q cs
    proof -
      have q: "live s q = Some (length cs)" using that by (auto simp: objects_def)
      then have "q \<noteq> p" "live s' q = Some (length cs)" using k(1,3) by auto
      then show ?thesis using live_disjoint [OF a(2) p] bs(2) by metis
    qed
    moreover have "objects s p = None" using k(1) by (simp add: objects_def)
    ultimately show ?thesis unfolding o using live_block [OF a(2) p] bs(2) k(2) by (intro store_step.alloc) auto
  qed
  then show ?thesis using a Alloc by (simp add: exec_def)
next
  case (Free p)
  show ?thesis
  proof (cases "p = 0")
    case True
    then show ?thesis using Free inv free_null store_step.free_null by (auto simp: exec_def)
  next
    case False
    then obtain n where n: "live s p = Some n" using ok Free by auto
    from free_ok [OF inv n] obtain s' where f: "free p s = Some s'" "inv s'" "live s' = (live s)(p := None)"
      "\<forall>q k. q \<noteq> p \<longrightarrow> live s q = Some k \<longrightarrow> (\<forall>x \<in> block_at q k. mem s' x = mem s x)" by blast
    have "objects s' q = objects s q" if "q \<noteq> p" for q
      using f that by (intro objects_upd [OF inv, of p]) auto
    moreover have "objects s' p = None" using f(3) by (simp add: objects_def)
    ultimately have "objects s' = (objects s)(p := None)" by (auto simp: fun_eq_iff)
    moreover obtain bs where "objects s p = Some bs" using n by (simp add: objects_def)
    ultimately show ?thesis using f Free store_step.free [of "objects s" p bs] by (simp add: exec_def)
  qed
next
  case (Write p i v)
  then obtain n where n: "live s p = Some n" "i < n" using ok by (auto split: option.splits)
  note ib = byte_in_block [OF inv n]
  define s' where "s' = poke (p + of_nat i) v s"
  have w: "inv s'" "live s' = live s" "mem s' = (mem s)(p + of_nat i := v)"
    using poke_ok [OF inv n(1), of "p + of_nat i" v] ib by (simp_all add: s'_def)
  have "objects s' q = objects s q" if "q \<noteq> p" for q
  proof (rule objects_upd [OF inv, of p])
    fix q k assume q: "q \<noteq> p" "live s q = Some k"
    then have "p + of_nat i \<notin> block_at q k" using live_disjoint [OF inv n(1) q(2)] ib by blast
    then show "live s' q = Some k \<and> (\<forall>x \<in> block_at q k. mem s' x = mem s x)" using w q by auto
  qed (use w that in auto)
  moreover have "objects s' p = Some ((map (\<lambda>j. mem s (p + of_nat j)) [0..<n])[i := v])"
  proof -
    have "p + of_nat j = p + of_nat i \<longleftrightarrow> j = i" if "j < n" for j :: nat
      using byte_in_block [OF inv n(1) that] ib by (auto simp: word_unat_eq_iff)
    then have "map (\<lambda>j. mem s' (p + of_nat j)) [0..<n] = (map (\<lambda>j. mem s (p + of_nat j)) [0..<n])[i := v]"
      using w(3) by (intro nth_equalityI) (auto simp: nth_list_update)
    then show ?thesis using w(2) n(1) by (simp add: objects_def)
  qed
  moreover have o: "objects s p = Some (map (\<lambda>j. mem s (p + of_nat j)) [0..<n])" using n(1) by (simp add: objects_def)
  ultimately have "objects s' = (objects s)(p \<mapsto> (map (\<lambda>j. mem s (p + of_nat j)) [0..<n])[i := v])" by (auto simp: fun_eq_iff)
  then show ?thesis using w Write store_step.store_byte [of "objects s" p "map (\<lambda>j. mem s (p + of_nat j)) [0..<n]" i v] o n(2) by (simp add: exec_def s'_def)
qed

text \<open>Along every run, up to the first command that breaks the rules.\<close>

lemma run_serves: "inv s \<Longrightarrow> \<exists>s'. serves (run_cmds cs s) s cs objects live full s' \<and> inv s'"
proof (induction cs arbitrary: s)
  case Nil
  then show ?case by (simp add: serves_def)
next
  case (Cons c cs)
  show ?case
  proof (cases "cmd_ok (live s) c")
    case True
    from exec_refines [OF Cons.prems True] obtain a s1 where s1: "exec c s = Some (a, s1)" "inv s1" "store_step (objects s) c a (objects s1)"
      "\<forall>n. c = Alloc n \<longrightarrow> (a = 0 \<longleftrightarrow> full s n)" by blast
    from Cons.IH [OF s1(2)] obtain s' es rest where r: "run_cmds cs s1 = Some (es, s', rest)" "inv s'" "map (\<lambda>(s, c, a). c) es @ rest = cs"
      "case es of [] \<Rightarrow> s' = s1 | e # _ \<Rightarrow> fst e = s1" "trace_ok objects full es s'" "rest = [] \<or> \<not> cmd_ok (live s') (hd rest)"
      unfolding serves_def by blast
    have "(case es of [] \<Rightarrow> s' | e # _ \<Rightarrow> fst e) = s1" using r(4) by (cases es) simp_all
    then have "serves (run_cmds (c # cs) s) s (c # cs) objects live full s'"
      unfolding serves_def using r s1 True by (intro exI [of _ "(s, c, a) # es"] exI [of _ rest]) simp
    then show ?thesis using r(2) by blast
  next
    case False
    then have "serves (run_cmds (c # cs) s) s (c # cs) objects live full s" by (simp add: serves_def)
    then show ?thesis using Cons.prems by blast
  qed
qed

end

end
