(* ===== verification/Heap_First_Fit.thy ===== *)
theory Heap_First_Fit
  imports Heap_Ops
begin

text \<open>
  The first-fit back-end \<open>heap_first_fit.c\<close>: block headers in the bytes of the heap, linked both ways,
  with splitting on allocation and coalescing on release. The invariant describes the heap as a list
  of blocks that tile \<open>[heap_start, heap_brk)\<close>.
\<close>

section \<open>Headers\<close>

definition HEADER_SIZE :: u32 where "HEADER_SIZE = (16 + 7) AND NOT 7"
definition ALIGN8 :: "u32 \<Rightarrow> u32" where "ALIGN8 x = (x + 7) AND NOT 7"

record ('b, 'v) ff_state = "('b, 'v) kheap" +
  heap_start :: u32
  heap_brk :: u32
  heap_end :: u32
  free_list :: u32

definition blk_size :: "memory \<Rightarrow> u32 \<Rightarrow> u32" where "blk_size m b = rd32 m b"
definition blk_is_free :: "memory \<Rightarrow> u32 \<Rightarrow> u32" where "blk_is_free m b = rd32 m (b + 4)"
definition blk_next :: "memory \<Rightarrow> u32 \<Rightarrow> u32" where "blk_next m b = rd32 m (b + 8)"
definition blk_prev :: "memory \<Rightarrow> u32 \<Rightarrow> u32" where "blk_prev m b = rd32 m (b + 12)"

definition set_size :: "u32 \<Rightarrow> u32 \<Rightarrow> memory \<Rightarrow> memory" where "set_size b v m = wr32 m b v"
definition set_free :: "u32 \<Rightarrow> u32 \<Rightarrow> memory \<Rightarrow> memory" where "set_free b v m = wr32 m (b + 4) v"
definition set_bnext :: "u32 \<Rightarrow> u32 \<Rightarrow> memory \<Rightarrow> memory" where "set_bnext b v m = wr32 m (b + 8) v"
definition set_bprev :: "u32 \<Rightarrow> u32 \<Rightarrow> memory \<Rightarrow> memory" where "set_bprev b v m = wr32 m (b + 12) v"

section \<open>Operations\<close>

definition merge_with_next :: "u32 \<Rightarrow> memory \<Rightarrow> memory" where
  "merge_with_next block m =
     (let victim = blk_next m block;
          m1 = set_size block (blk_size m block + (HEADER_SIZE + blk_size m victim)) m;
          m2 = set_bnext block (blk_next m1 victim) m1
      in if blk_next m2 victim \<noteq> 0 then set_bprev (blk_next m2 victim) block m2 else m2)"

text \<open>\<open>heap_grow\<close>, which nothing calls.\<close>

function heap_grow_from :: "u32 \<Rightarrow> u32 \<Rightarrow> ('b, 'v) ff_state \<Rightarrow> int \<times> ('b, 'v) ff_state" where
  "heap_grow_from pages i s =
     (if i < pages then
        (if heap_end s \<le> heap_brk s then (- 1, s)
         else
           (case pmm_alloc_page (vm_pmm (kh_vm s)) of
              (phys, pm) \<Rightarrow>
                (let vm1 = (kh_vm s)\<lparr>vm_pmm := pm\<rparr> in
                 if phys = 0 then (- 1, s\<lparr>kh_vm := vm1\<rparr>)
                 else
                   (case vmm_map_page (heap_brk s) phys (PTE_PRESENT OR PTE_WRITABLE) vm1 of
                      (ret, vm2) \<Rightarrow>
                        if ret \<noteq> 0 then (- 1, s\<lparr>kh_vm := vm2\<lparr>vm_pmm := pmm_free_page phys (vm_pmm vm2)\<rparr>\<rparr>)
                        else heap_grow_from pages (i + 1) (s\<lparr>kh_vm := vm2, heap_brk := heap_brk s + VMM_PAGE_SIZE\<rparr>)))))
      else (0, s))"
  by pat_completeness auto
termination
  by (relation "measure (\<lambda>(pages, i, s). unat pages - unat i)") (auto intro: loop_measure)

definition heap_grow :: "u32 \<Rightarrow> ('b, 'v) ff_state \<Rightarrow> int \<times> ('b, 'v) ff_state" where
  "heap_grow min_bytes s = heap_grow_from ((min_bytes + VMM_PAGE_SIZE - 1) div VMM_PAGE_SIZE) 0 s"

definition heap_first_fit_init :: "u32 \<Rightarrow> u32 \<Rightarrow> ('b, 'v) ff_state \<Rightarrow> ('b, 'v) ff_state" where
  "heap_first_fit_init start sz s =
     s\<lparr>heap_start := start, heap_brk := start + sz, heap_end := KHEAP_END, free_list := start,
       kh_mem := set_bprev start 0 (set_bnext start 0 (set_free start 1 (set_size start (sz - HEADER_SIZE) (kh_mem s))))\<rparr>"

text \<open>The loop of the allocation up to the block that fits, \<open>0\<close> when there is none. It follows the
  pointers in the heap, so on a corrupt list it may not end.\<close>

partial_function (option) ff_find :: "memory \<Rightarrow> u32 \<Rightarrow> u32 \<Rightarrow> u32 option" where
  "ff_find m sz cur =
     (if cur = 0 then Some 0
      else if blk_is_free m cur \<noteq> 0 \<and> sz \<le> blk_size m cur then Some cur
      else ff_find m sz (blk_next m cur))"

definition ff_split :: "u32 \<Rightarrow> u32 \<Rightarrow> memory \<Rightarrow> memory" where
  "ff_split cur sz m =
     (let new_block = cur + HEADER_SIZE + sz;
          m1 = set_size new_block (blk_size m cur - sz - HEADER_SIZE) m;
          m2 = set_free new_block 1 m1;
          m3 = set_bnext new_block (blk_next m2 cur) m2;
          m4 = set_bprev new_block cur m3;
          m5 = (if blk_next m4 cur \<noteq> 0 then set_bprev (blk_next m4 cur) new_block m4 else m4)
      in set_bnext cur new_block (set_size cur sz m5))"

definition heap_first_fit_alloc :: "u32 \<Rightarrow> ('b, 'v) ff_state \<Rightarrow> (u32 \<times> ('b, 'v) ff_state) option" where
  "heap_first_fit_alloc req s =
     (let sz = ALIGN8 req; m = kh_mem s in
      case ff_find m sz (free_list s) of
        None \<Rightarrow> None
      | Some cur \<Rightarrow>
          (if cur = 0 then Some (0, s)
           else
             (let m1 = (if HEADER_SIZE + 8 < blk_size m cur - sz then ff_split cur sz m else m)
              in Some (cur + HEADER_SIZE, s\<lparr>kh_mem := set_free cur 0 m1\<rparr>))))"

partial_function (option) ff_merge_forward :: "u32 \<Rightarrow> memory \<Rightarrow> memory option" where
  "ff_merge_forward block m =
     (if blk_next m block \<noteq> 0 \<and> blk_is_free m (blk_next m block) \<noteq> 0
      then ff_merge_forward block (merge_with_next block m) else Some m)"

definition heap_first_fit_free :: "u32 \<Rightarrow> ('b, 'v) ff_state \<Rightarrow> ('b, 'v) ff_state option" where
  "heap_first_fit_free ptr s =
     (if ptr = 0 then Some s
      else
        (let block = ptr - HEADER_SIZE in
         if block < heap_start s \<or> heap_brk s \<le> block then Some s
         else
           map_option
             (\<lambda>m. s\<lparr>kh_mem := (if blk_prev m block \<noteq> 0 \<and> blk_is_free m (blk_prev m block) \<noteq> 0
                               then merge_with_next (blk_prev m block) m else m)\<rparr>)
             (ff_merge_forward block (set_free block 1 (kh_mem s)))))"

partial_function (option) ff_stats_from :: "memory \<Rightarrow> u32 \<Rightarrow> heap_stats \<Rightarrow> heap_stats option" where
  "ff_stats_from m cur out =
     (if cur = 0 then Some out
      else
        ff_stats_from m (blk_next m cur)
          (if blk_is_free m cur \<noteq> 0
           then out\<lparr>hs_free_bytes := hs_free_bytes out + blk_size m cur, hs_free_count := hs_free_count out + 1\<rparr>
           else out\<lparr>hs_used_bytes := hs_used_bytes out + (blk_size m cur + HEADER_SIZE),
                    hs_alloc_count := hs_alloc_count out + 1\<rparr>))"

definition heap_first_fit_stats :: "('b, 'v) ff_state \<Rightarrow> heap_stats option" where
  "heap_first_fit_stats s =
     ff_stats_from (kh_mem s) (free_list s)
       \<lparr>hs_heap_size = heap_brk s - heap_start s, hs_used_bytes = 0, hs_free_bytes = 0, hs_alloc_count = 0, hs_free_count = 0\<rparr>"

definition heap_first_fit_ops :: "('b, 'v) ff_state heap_ops" where
  "heap_first_fit_ops = \<lparr>ho_name = ''first_fit'', ho_init = heap_first_fit_init, ho_alloc = heap_first_fit_alloc,
     ho_free = heap_first_fit_free, ho_stats = heap_first_fit_stats\<rparr>"

declare ff_find.simps [code] ff_merge_forward.simps [code] ff_stats_from.simps [code] heap_grow_from.simps [simp del]

lemma HEADER_SIZE_16 [simp]: "HEADER_SIZE = 16"
  by (simp add: HEADER_SIZE_def)

section \<open>Reads after writes of header fields\<close>

lemmas hdr_defs = blk_size_def blk_is_free_def blk_next_def blk_prev_def set_size_def set_free_def set_bnext_def set_bprev_def

lemma hdr_same [simp]:
  "blk_size (set_size b v m) b = v" "blk_is_free (set_free b v m) b = v" "blk_next (set_bnext b v m) b = v"
  "blk_prev (set_bprev b v m) b = v"
  "blk_size (set_free b v m) b = blk_size m b" "blk_size (set_bnext b v m) b = blk_size m b" "blk_size (set_bprev b v m) b = blk_size m b"
  "blk_is_free (set_size b v m) b = blk_is_free m b" "blk_is_free (set_bnext b v m) b = blk_is_free m b" "blk_is_free (set_bprev b v m) b = blk_is_free m b"
  "blk_next (set_size b v m) b = blk_next m b" "blk_next (set_free b v m) b = blk_next m b" "blk_next (set_bprev b v m) b = blk_next m b"
  "blk_prev (set_size b v m) b = blk_prev m b" "blk_prev (set_free b v m) b = blk_prev m b" "blk_prev (set_bnext b v m) b = blk_prev m b"
  by (simp_all add: hdr_defs rd32_wr32_other)

text \<open>A header that fits below the end of the address space, and two headers that do not overlap.\<close>

definition hdr_fits :: "u32 \<Rightarrow> bool" where "hdr_fits b \<longleftrightarrow> unat b + 16 \<le> 2 ^ 32"

definition apart :: "u32 \<Rightarrow> u32 \<Rightarrow> bool" where
  "apart a b \<longleftrightarrow> hdr_fits a \<and> hdr_fits b \<and> (unat a + 16 \<le> unat b \<or> unat b + 16 \<le> unat a)"

lemma hdr_offsets: "hdr_fits b \<Longrightarrow> unat (b + 4) = unat b + 4 \<and> unat (b + 8) = unat b + 8 \<and> unat (b + 12) = unat b + 12"
  unfolding hdr_fits_def by (intro conjI; subst unat_add_no_wrap; simp)

lemma hdr_apart [simp]:
  assumes "apart a b"
  shows "blk_size (set_size a v m) b = blk_size m b" "blk_size (set_free a v m) b = blk_size m b"
    "blk_size (set_bnext a v m) b = blk_size m b" "blk_size (set_bprev a v m) b = blk_size m b"
    "blk_is_free (set_size a v m) b = blk_is_free m b" "blk_is_free (set_free a v m) b = blk_is_free m b"
    "blk_is_free (set_bnext a v m) b = blk_is_free m b" "blk_is_free (set_bprev a v m) b = blk_is_free m b"
    "blk_next (set_size a v m) b = blk_next m b" "blk_next (set_free a v m) b = blk_next m b"
    "blk_next (set_bnext a v m) b = blk_next m b" "blk_next (set_bprev a v m) b = blk_next m b"
    "blk_prev (set_size a v m) b = blk_prev m b" "blk_prev (set_free a v m) b = blk_prev m b"
    "blk_prev (set_bnext a v m) b = blk_prev m b" "blk_prev (set_bprev a v m) b = blk_prev m b"
proof -
  have f: "hdr_fits a" "hdr_fits b" using assms by (simp_all add: apart_def)
  note o = hdr_offsets [OF f(1)] hdr_offsets [OF f(2)]
  show "blk_size (set_size a v m) b = blk_size m b" "blk_size (set_free a v m) b = blk_size m b"
    "blk_size (set_bnext a v m) b = blk_size m b" "blk_size (set_bprev a v m) b = blk_size m b"
    "blk_is_free (set_size a v m) b = blk_is_free m b" "blk_is_free (set_free a v m) b = blk_is_free m b"
    "blk_is_free (set_bnext a v m) b = blk_is_free m b" "blk_is_free (set_bprev a v m) b = blk_is_free m b"
    "blk_next (set_size a v m) b = blk_next m b" "blk_next (set_free a v m) b = blk_next m b"
    "blk_next (set_bnext a v m) b = blk_next m b" "blk_next (set_bprev a v m) b = blk_next m b"
    "blk_prev (set_size a v m) b = blk_prev m b" "blk_prev (set_free a v m) b = blk_prev m b"
    "blk_prev (set_bnext a v m) b = blk_prev m b" "blk_prev (set_bprev a v m) b = blk_prev m b"
    unfolding hdr_defs using assms f o by (intro rd32_wr32_far; simp add: apart_def hdr_fits_def; linarith)+
qed

lemma set_out:
  assumes "hdr_fits b" "unat x < unat b \<or> unat b + 16 \<le> unat x"
  shows "set_size b v m x = m x" "set_free b v m x = m x" "set_bnext b v m x = m x" "set_bprev b v m x = m x"
  using hdr_offsets [OF assms(1)] assms unfolding hdr_defs hdr_fits_def by (intro wr32_out; linarith)+

end
