(* ===== verification/Heap_First_Fit_Inv.thy ===== *)
theory Heap_First_Fit_Inv
  imports Heap_First_Fit
begin

text \<open>
  The first-fit heap as a list of blocks \<open>(size, free)\<close> that tile the committed part of the heap, and
  what splitting, coalescing and marking do to that list. The back-end keeps the contract of
  \<open>Heap_Ops\<close>.
\<close>

section \<open>Segments of the block list\<close>

fun tot :: "(u32 \<times> bool) list \<Rightarrow> nat" where
  "tot [] = 0"
| "tot ((z, f) # bs) = 16 + unat z + tot bs"

fun after :: "u32 \<Rightarrow> (u32 \<times> bool) list \<Rightarrow> u32" where
  "after a [] = a"
| "after a ((z, f) # bs) = after (a + 16 + z) bs"

fun lastb :: "u32 \<Rightarrow> u32 \<Rightarrow> (u32 \<times> bool) list \<Rightarrow> u32" where
  "lastb p a [] = p"
| "lastb p a ((z, f) # bs) = lastb a (a + 16 + z) bs"

text \<open>The headers of the blocks \<open>bs\<close> from address \<open>a\<close> on: \<open>p\<close> is the block before, \<open>e\<close> the pointer after.\<close>

fun seg :: "memory \<Rightarrow> u32 \<Rightarrow> u32 \<Rightarrow> (u32 \<times> bool) list \<Rightarrow> u32 \<Rightarrow> bool" where
  "seg m p a [] e = True"
| "seg m p a ((z, f) # bs) e = (blk_size m a = z \<and> (blk_is_free m a \<noteq> 0) = f \<and> blk_prev m a = p \<and>
     blk_next m a = (if bs = [] then e else a + 16 + z) \<and> seg m a (a + 16 + z) bs e)"

lemma tot_append [simp]: "tot (xs @ ys) = tot xs + tot ys"
  by (induction xs rule: tot.induct) auto

lemma after_append [simp]: "after a (xs @ ys) = after (after a xs) ys"
  by (induction a xs rule: after.induct) auto

lemma lastb_append: "lastb p a (xs @ ys) = lastb (lastb p a xs) (after a xs) ys"
  by (induction p a xs rule: lastb.induct) auto

lemma after_tot: "after a bs = a + of_nat (tot bs)"
  by (induction a bs rule: after.induct) (simp_all add: add.assoc)

lemma unat_after: "unat a + tot bs < 2 ^ 32 \<Longrightarrow> unat (after a bs) = unat a + tot bs"
  unfolding after_tot by (subst unat_add_no_wrap) (simp_all add: unat_of_nat)

lemma seg_append: "seg m p a (xs @ ys) e \<longleftrightarrow>
    seg m p a xs (if ys = [] then e else after a xs) \<and> seg m (lastb p a xs) (after a xs) ys e"
  by (induction p a xs rule: lastb.induct) auto

lemma hdr_cong:
  assumes "hdr_fits a" "\<And>x. unat a \<le> unat x \<Longrightarrow> unat x < unat a + 16 \<Longrightarrow> m' x = m x"
  shows "blk_size m' a = blk_size m a" "blk_is_free m' a = blk_is_free m a" "blk_next m' a = blk_next m a"
    "blk_prev m' a = blk_prev m a"
  using hdr_offsets [OF assms(1)] assms(1)
  unfolding hdr_defs hdr_fits_def by (intro rd32_cong assms(2); linarith)+

lemma seg_cong:
  assumes "unat a + tot bs < 2 ^ 32" "\<And>x. unat a \<le> unat x \<Longrightarrow> unat x < unat a + tot bs \<Longrightarrow> m' x = m x"
  shows "seg m' p a bs e = seg m p a bs e"
  using assms
proof (induction p a bs rule: lastb.induct)
  case (2 p a z f bs)
  have u: "unat (a + 16 + z) = unat a + 16 + unat z" using unat_after [of a "[(z, f)]"] 2(2) by simp
  have h: "hdr_fits a" using 2(2) by (simp add: hdr_fits_def)
  have "m' x = m x" if "unat a \<le> unat x" "unat x < unat a + 16" for x using 2(3) that by simp
  note hc = hdr_cong [OF h this]
  have "seg m' a (a + 16 + z) bs e = seg m a (a + 16 + z) bs e" using 2 u by (intro 2(1)) simp_all
  then show ?case using hc by simp
qed simp

text \<open>Replacing some consecutive blocks by others of the same extent: the bytes outside the replaced
  blocks and the following header stay, and that header gets its new predecessor.\<close>

lemma seg_replace:
  assumes sg: "seg m p a (xs @ us @ ys) e" and wrap: "unat a + tot (xs @ us @ ys) < 2 ^ 32"
    and ne: "us \<noteq> []" "vs \<noteq> []" and ext: "tot vs = tot us"
    and out: "\<And>x. unat x < unat (after a xs) \<or> unat (after a xs) + tot us + (if ys = [] then 0 else 16) \<le> unat x \<Longrightarrow> m' x = m x"
    and inner: "seg m' (lastb p a xs) (after a xs) vs (if ys = [] then e else after (after a xs) us)"
    and hdr: "ys \<noteq> [] \<Longrightarrow> blk_size m' (after (after a xs) us) = blk_size m (after (after a xs) us) \<and>
      blk_is_free m' (after (after a xs) us) = blk_is_free m (after (after a xs) us) \<and>
      blk_next m' (after (after a xs) us) = blk_next m (after (after a xs) us) \<and>
      blk_prev m' (after (after a xs) us) = lastb (lastb p a xs) (after a xs) vs"
  shows "seg m' p a (xs @ vs @ ys) e"
proof -
  let ?b = "after a xs" and ?n = "after (after a xs) us"
  have ub: "unat ?b = unat a + tot xs" using wrap by (intro unat_after) simp
  have un: "unat ?n = unat ?b + tot us" using wrap ub by (intro unat_after) simp
  have av: "after ?b vs = ?n" unfolding after_tot [of ?b] ext by (rule refl)
  have xs: "seg m' p a xs ?b"
  proof -
    have "seg m p a xs ?b" using sg ne(1) by (simp add: seg_append)
    moreover have "seg m' p a xs ?b = seg m p a xs ?b" using wrap ub by (intro seg_cong out) auto
    ultimately show ?thesis by simp
  qed
  have ys: "seg m' (lastb (lastb p a xs) ?b vs) ?n ys e"
  proof (cases ys)
    case (Cons y ys')
    obtain z f where y: "y = (z, f)" by (cases y)
    have old: "seg m (lastb (lastb p a xs) ?b us) ?n ((z, f) # ys') e" using sg unfolding Cons y by (simp add: seg_append)
    have u: "unat (?n + 16 + z) = unat ?n + 16 + unat z"
      using unat_after [of ?n "[(z, f)]"] wrap un ub unfolding Cons y by simp
    have "seg m' ?n (?n + 16 + z) ys' e = seg m ?n (?n + 16 + z) ys' e"
      using wrap un ub u unfolding Cons y by (intro seg_cong out) auto
    then show ?thesis using old hdr unfolding Cons y by simp
  qed simp
  show ?thesis using xs ys inner ne(2) by (simp add: seg_append lastb_append av split: if_splits)
qed

section \<open>Marking, splitting and merging\<close>

lemma seg_at:
  assumes "seg m p a (xs @ (z, f) # ys) e"
  shows "blk_size m (after a xs) = z" "(blk_is_free m (after a xs) \<noteq> 0) = f" "blk_prev m (after a xs) = lastb p a xs"
    "blk_next m (after a xs) = (if ys = [] then e else after a xs + 16 + z)"
    "ys \<noteq> [] \<Longrightarrow> blk_prev m (after a xs + 16 + z) = after a xs"
  using assms by (auto simp: seg_append) (cases ys; auto)+

lemma unat_sum3: "unat b + 16 + unat z < 2 ^ 32 \<Longrightarrow> unat (b + 16 + z) = unat b + 16 + unat z" for b z :: u32
  using unat_after [of b "[(z, False)]"] by simp

lemma at_unat:
  assumes "unat a + tot (xs @ (z, f) # ys) < 2 ^ 32"
  shows "unat (after a xs) = unat a + tot xs" "unat (after a xs + 16 + z) = unat (after a xs) + 16 + unat z"
    "hdr_fits (after a xs)"
proof -
  show u: "unat (after a xs) = unat a + tot xs" using assms by (intro unat_after) simp
  show "unat (after a xs + 16 + z) = unat (after a xs) + 16 + unat z"
    using unat_after [of "after a xs" "[(z, f)]"] assms u by simp
  show "hdr_fits (after a xs)" using assms u by (simp add: hdr_fits_def)
qed

lemma seg_set_free:
  assumes sg: "seg m p a (xs @ (z, f) # ys) e" and wrap: "unat a + tot (xs @ (z, f) # ys) < 2 ^ 32"
  shows "seg (set_free (after a xs) v m) p a (xs @ (z, v \<noteq> 0) # ys) e"
proof -
  let ?b = "after a xs"
  note u = at_unat [OF wrap] and at = seg_at [OF sg]
  have ap: "apart ?b (?b + 16 + z)" if "ys \<noteq> []"
    using that wrap u by (cases ys) (auto simp: apart_def hdr_fits_def)
  have "seg (set_free ?b v m) p a (xs @ [(z, v \<noteq> 0)] @ ys) e"
    by (rule seg_replace [of m p a xs "[(z, f)]" ys])
      (use sg wrap u at ap in \<open>auto simp: seg_append intro: set_out\<close>)
  then show ?thesis by simp
qed

lemma ff_split_seg:
  assumes sg: "seg m p a (xs @ (z, f) # ys) 0" and wrap: "unat a + tot (xs @ (z, f) # ys) < 2 ^ 32"
    and fit: "unat sz + 16 \<le> unat z"
  shows "seg (ff_split (after a xs) sz m) p a (xs @ (sz, f) # (z - sz - 16, True) # ys) 0"
    "unat (z - sz - 16) = unat z - unat sz - 16"
    "unat y < unat (after a xs) \<or> unat (after a xs) + tot [(z, f)] + (if ys = [] then 0 else 16) \<le> unat y \<Longrightarrow>
      ff_split (after a xs) sz m y = m y"
proof -
  define b where "b = after a xs"
  define n where "n = b + 16 + sz"
  define x where "x = b + 16 + z"
  note u = at_unat [OF wrap, folded b_def, folded x_def] and at = seg_at [OF sg, folded b_def, folded x_def]
  have un: "unat n = unat b + 16 + unat sz" unfolding n_def using u fit unat_lt_2p32 [of x] by (intro unat_sum3) simp
  have z: "unat (z - sz - 16) = unat z - unat sz - 16"
  proof -
    have "unat (z - sz) = unat z - unat sz" using fit by (subst unat_sub) (simp_all add: word_le_nat_alt)
    then show ?thesis using fit by (subst unat_sub) (simp_all add: word_le_nat_alt)
  qed
  then show "unat (z - sz - 16) = unat z - unat sz - 16" .
  have xn: "n + 16 + (z - sz - 16) = x" by (simp add: n_def x_def)
  have bn: "apart b n" "apart n b" using u un fit unat_lt_2p32 [of x] by (simp_all add: apart_def hdr_fits_def)
  have fx: "hdr_fits x" if "ys \<noteq> []" using that wrap u by (cases ys) (auto simp: hdr_fits_def b_def)
  have bx: "apart b x" "apart x b" "apart n x" "apart x n" "x \<noteq> 0" if "ys \<noteq> []"
    using that fx u un fit bn by (auto simp: apart_def)
  define m4 where "m4 = set_bprev n b (set_bnext n (blk_next m b) (set_free n 1 (set_size n (z - sz - 16) m)))"
  have m': "ff_split b sz m = set_bnext b n (set_size b sz (if ys = [] then m4 else set_bprev x n m4))"
    using bn bx at by (simp add: ff_split_def Let_def n_def [symmetric] m4_def)
  have o4: "m4 y = m y" if "unat y < unat n \<or> unat n + 16 \<le> unat y" for y
    using that bn(1) by (simp add: m4_def set_out apart_def)
  have out: "ff_split b sz m y = m y"
    if "unat y < unat (after a xs) \<or> unat (after a xs) + tot [(z, f)] + (if ys = [] then 0 else 16) \<le> unat y" for y
    unfolding m' using that u un fit bn fx o4 [of y] by (auto simp: set_out b_def [symmetric] apart_def)
  then show "unat y < unat (after a xs) \<or> unat (after a xs) + tot [(z, f)] + (if ys = [] then 0 else 16) \<le> unat y \<Longrightarrow>
      ff_split (after a xs) sz m y = m y" by (simp add: b_def)
  have "seg (ff_split b sz m) p a (xs @ [(sz, f), (z - sz - 16, True)] @ ys) 0"
  proof (rule seg_replace [of m p a xs "[(z, f)]" ys])
    show "ff_split b sz m y = m y"
      if "unat y < unat (after a xs) \<or> unat (after a xs) + tot [(z, f)] + (if ys = [] then 0 else 16) \<le> unat y" for y
      using that by (rule out)
    show "seg (ff_split b sz m) (lastb p a xs) (after a xs) [(sz, f), (z - sz - 16, True)]
        (if ys = [] then 0 else after (after a xs) [(z, f)])"
      unfolding m' m4_def using at bn bx by (auto simp: b_def [symmetric] n_def [symmetric] x_def [symmetric] xn)
    show "blk_size (ff_split b sz m) (after (after a xs) [(z, f)]) = blk_size m (after (after a xs) [(z, f)]) \<and>
        blk_is_free (ff_split b sz m) (after (after a xs) [(z, f)]) = blk_is_free m (after (after a xs) [(z, f)]) \<and>
        blk_next (ff_split b sz m) (after (after a xs) [(z, f)]) = blk_next m (after (after a xs) [(z, f)]) \<and>
        blk_prev (ff_split b sz m) (after (after a xs) [(z, f)]) = lastb (lastb p a xs) (after a xs) [(sz, f), (z - sz - 16, True)]"
      if "ys \<noteq> []"
      unfolding m' m4_def using that bx by (simp add: b_def [symmetric] n_def [symmetric] x_def [symmetric])
  qed (use sg wrap z fit in auto)
  then show "seg (ff_split (after a xs) sz m) p a (xs @ (sz, f) # (z - sz - 16, True) # ys) 0" by (simp add: b_def)
qed

lemma merge_seg:
  assumes sg: "seg m p a (xs @ (y, f) # (z, g) # ys) 0" and wrap: "unat a + tot (xs @ (y, f) # (z, g) # ys) < 2 ^ 32"
  shows "seg (merge_with_next (after a xs) m) p a (xs @ (y + 16 + z, f) # ys) 0"
    "unat (y + 16 + z) = unat y + 16 + unat z"
    "unat q < unat (after a xs) \<or> unat (after a xs) + tot [(y, f), (z, g)] + (if ys = [] then 0 else 16) \<le> unat q \<Longrightarrow>
      merge_with_next (after a xs) m q = m q"
proof -
  define b where "b = after a xs"
  define n where "n = b + 16 + y"
  define x where "x = n + 16 + z"
  have w2: "unat a + tot ((xs @ [(y, f)]) @ (z, g) # ys) < 2 ^ 32" using wrap by simp
  have s2: "seg m p a ((xs @ [(y, f)]) @ (z, g) # ys) 0" using sg by simp
  note u = at_unat [OF wrap, folded b_def, folded n_def] and at = seg_at [OF sg, folded b_def, folded n_def]
  note v = at_unat [OF w2] and av = seg_at [OF s2]
  have nx: "after a (xs @ [(y, f)]) = n" "lastb p a (xs @ [(y, f)]) = b" by (simp_all add: b_def n_def lastb_append)
  note v = v [unfolded nx, folded x_def] and av = av [unfolded nx, folded x_def]
  have sum: "unat (y + 16 + z) = unat y + 16 + unat z"
    using u v unat_lt_2p32 [of x] by (intro unat_sum3) simp
  then show "unat (y + 16 + z) = unat y + 16 + unat z" .
  have bn: "apart b n" "apart n b" using u v by (simp_all add: apart_def)
  have fx: "hdr_fits x" if "ys \<noteq> []" using that wrap u v by (cases ys) (auto simp: hdr_fits_def b_def)
  have bx: "apart b x" "apart x b" "apart n x" "apart x n" "x \<noteq> 0" if "ys \<noteq> []"
    using that fx u v bn by (auto simp: apart_def)
  have m': "merge_with_next b m = (let m2 = set_bnext b (if ys = [] then 0 else x) (set_size b (y + 16 + z) m)
      in if ys = [] then m2 else set_bprev x b m2)"
    unfolding add.assoc [of y 16 z] using bn bx at av by (simp add: merge_with_next_def Let_def)
  have out: "merge_with_next b m q = m q"
    if "unat q < unat (after a xs) \<or> unat (after a xs) + tot [(y, f), (z, g)] + (if ys = [] then 0 else 16) \<le> unat q" for q
    unfolding m' Let_def using that u v bn fx by (auto simp: set_out b_def [symmetric] apart_def)
  then show "unat q < unat (after a xs) \<or> unat (after a xs) + tot [(y, f), (z, g)] + (if ys = [] then 0 else 16) \<le> unat q \<Longrightarrow>
      merge_with_next (after a xs) m q = m q" by (simp add: b_def)
  have "seg (merge_with_next b m) p a (xs @ [(y + 16 + z, f)] @ ys) 0"
  proof (rule seg_replace [of m p a xs "[(y, f), (z, g)]" ys])
    show "merge_with_next b m q = m q"
      if "unat q < unat (after a xs) \<or> unat (after a xs) + tot [(y, f), (z, g)] + (if ys = [] then 0 else 16) \<le> unat q" for q
      using that by (rule out)
    show "seg (merge_with_next b m) (lastb p a xs) (after a xs) [(y + 16 + z, f)] (if ys = [] then 0 else after (after a xs) [(y, f), (z, g)])"
      unfolding m' Let_def using at bx by (auto simp: b_def [symmetric] n_def [symmetric] x_def [symmetric])
    show "blk_size (merge_with_next b m) (after (after a xs) [(y, f), (z, g)]) = blk_size m (after (after a xs) [(y, f), (z, g)]) \<and>
        blk_is_free (merge_with_next b m) (after (after a xs) [(y, f), (z, g)]) = blk_is_free m (after (after a xs) [(y, f), (z, g)]) \<and>
        blk_next (merge_with_next b m) (after (after a xs) [(y, f), (z, g)]) = blk_next m (after (after a xs) [(y, f), (z, g)]) \<and>
        blk_prev (merge_with_next b m) (after (after a xs) [(y, f), (z, g)]) = lastb (lastb p a xs) (after a xs) [(y + 16 + z, f)]"
      if "ys \<noteq> []"
      unfolding m' Let_def using that bx by (simp add: b_def [symmetric] n_def [symmetric] x_def [symmetric])
  qed (use sg wrap sum in auto)
  then show "seg (merge_with_next (after a xs) m) p a (xs @ (y + 16 + z, f) # ys) 0" by (simp add: b_def)
qed

end
