(* ===== verification/Heap_First_Fit_Spec.thy ===== *)
theory Heap_First_Fit_Spec
  imports Heap_First_Fit_Inv
begin

text \<open>
  The first-fit back-end against the contract of \<open>Heap_Ops\<close>: which block an allocation takes, that the
  blocks always tile the heap with no two free ones side by side, and that a client's bytes are its own.
\<close>

section \<open>Allocated blocks\<close>

fun live_of :: "u32 \<Rightarrow> (u32 \<times> bool) list \<Rightarrow> u32 \<Rightarrow> nat option" where
  "live_of a [] = Map.empty"
| "live_of a ((z, f) # bs) = (if f then live_of (a + 16 + z) bs else (live_of (a + 16 + z) bs)(a + 16 \<mapsto> unat z))"

lemma live_of_append: "live_of a (xs @ ys) = live_of (after a xs) ys ++ live_of a xs"
  by (induction a xs rule: live_of.induct) (simp_all add: fun_eq_iff map_add_def split: option.split)

lemma cons_unat:
  assumes "unat a + tot ((z, f) # bs) < 2 ^ 32"
  shows "unat (a + 16 + z) = unat a + 16 + unat z" "unat (a + 16) = unat a + 16" "unat (a + 16 + z) + tot bs < 2 ^ 32"
proof -
  show u: "unat (a + 16 + z) = unat a + 16 + unat z" using assms by (intro unat_sum3) simp
  show "unat (a + 16) = unat a + 16" using assms by (subst unat_add_no_wrap) simp_all
  show "unat (a + 16 + z) + tot bs < 2 ^ 32" using assms u by simp
qed

lemma live_bounds:
  assumes "unat a + tot bs < 2 ^ 32" "live_of a bs q = Some k"
  shows "unat a + 16 \<le> unat q \<and> unat q + k \<le> unat a + tot bs"
  using assms
proof (induction a bs rule: live_of.induct)
  case (2 a z f bs)
  note u = cons_unat [OF 2(3)]
  show ?case
  proof (cases "\<not> f \<and> q = a + 16")
    case True
    then show ?thesis using 2(4) u by auto
  next
    case False
    then have "live_of (a + 16 + z) bs q = Some k" using 2(4) by (auto split: if_splits)
    then show ?thesis using 2(1,2,3) u by (cases f) auto
  qed
qed simp

lemma live_disjoint_blocks:
  assumes "unat a + tot bs < 2 ^ 32" "live_of a bs p = Some n" "live_of a bs q = Some k" "p \<noteq> q"
  shows "block_at p n \<inter> block_at q k = {}"
  using assms
proof (induction a bs rule: live_of.induct)
  case (2 a z f bs)
  note u = cons_unat [OF 2(3)]
  note w = u(3)
  show ?case
  proof (cases f)
    case True
    then show ?thesis using 2 w by simp
  next
    case False
    have B: "unat (a + 16 + z) + 16 \<le> unat r" if "live_of (a + 16 + z) bs r = Some j" for r j
      using live_bounds [OF w that] by simp
    consider "p = a + 16" | "q = a + 16" | "p \<noteq> a + 16" "q \<noteq> a + 16" by blast
    then show ?thesis
    proof cases
      case 1
      then show ?thesis using 2(4,5,6) False B [of q k] u by (auto simp: block_at_def)
    next
      case 2
      then show ?thesis using \<open>live_of a ((z, f) # bs) p = Some n\<close> \<open>live_of a ((z, f) # bs) q = Some k\<close> \<open>p \<noteq> q\<close>
          False B [of p n] u by (auto simp: block_at_def)
    next
      case 3
      then show ?thesis using 2(2) 2(4-6) False w by simp
    qed
  qed
qed simp

lemma live_outside:
  assumes w: "unat a + tot (xs @ us @ ys) < 2 ^ 32" and q: "live_of a (xs @ us @ ys) q = Some k"
    and n: "live_of (after a xs) us q = None" and x: "x \<in> block_at q k"
  shows "unat x < unat (after a xs) \<or> unat (after a xs) + tot us + (if ys = [] then 0 else 16) \<le> unat x"
proof -
  let ?b = "after a xs"
  have ub: "unat ?b = unat a + tot xs" using w by (intro unat_after) simp
  have un: "unat (after ?b us) = unat ?b + tot us" using w ub by (intro unat_after) simp
  from q n consider "live_of a xs q = Some k" | "live_of (after ?b us) ys q = Some k"
    by (auto simp: live_of_append map_add_Some_iff)
  then show ?thesis
  proof cases
    case 1
    then have "unat q + k \<le> unat a + tot xs" using live_bounds [of a xs q k] w by simp
    then show ?thesis using x ub by (auto simp: block_at_def)
  next
    case 2
    then have "unat (after ?b us) + 16 \<le> unat q" using live_bounds [of "after ?b us" ys q k] w ub un by simp
    then show ?thesis using x un 2 by (auto simp: block_at_def split: if_splits)
  qed
qed

lemma live_aligned:
  assumes "unat a + tot bs < 2 ^ 32" "live_of a bs q = Some k" "8 dvd unat a" "\<forall>(z, f) \<in> set bs. 8 dvd unat z"
  shows "8 dvd unat q \<and> 8 dvd k"
  using assms
proof (induction a bs rule: live_of.induct)
  case (2 a z f bs)
  note u = cons_unat [OF 2(3)]
  have d: "8 dvd unat (a + 16 + z)" "8 dvd unat (a + 16)" using 2(5,6) unfolding u(1,2) by (auto intro!: dvd_add)
  show ?case
  proof (cases "\<not> f \<and> q = a + 16")
    case True
    then show ?thesis using 2(4,6) d by auto
  next
    case False
    then have "live_of (a + 16 + z) bs q = Some k" using 2(4) by (auto split: if_splits)
    then show ?thesis using 2(1,2,3,6) u d by (cases f) auto
  qed
qed simp

text \<open>Marking a block, and joining or cutting free ones.\<close>

lemma live_mid:
  assumes w: "unat a + tot (xs @ (z, f) # ys) < 2 ^ 32"
  shows "live_of a (xs @ (z, False) # ys) = (live_of a (xs @ (z, True) # ys))(after a xs + 16 \<mapsto> unat z)"
    "live_of a (xs @ (z, True) # ys) (after a xs + 16) = None"
proof -
  let ?b = "after a xs"
  note u = at_unat [OF w]
  have "unat (?b + 16) = unat ?b + 16" using w u by (subst unat_add_no_wrap) simp_all
  then have "live_of a xs (?b + 16) = None" using live_bounds [of a xs "?b + 16"] w u(1) by (cases "live_of a xs (?b + 16)") auto
  moreover have "live_of (?b + 16 + z) ys (?b + 16) = None"
    using live_bounds [of "?b + 16 + z" ys "?b + 16"] w u \<open>unat (?b + 16) = unat ?b + 16\<close>
    by (cases "live_of (?b + 16 + z) ys (?b + 16)") auto
  ultimately show "live_of a (xs @ (z, False) # ys) = (live_of a (xs @ (z, True) # ys))(after a xs + 16 \<mapsto> unat z)"
    "live_of a (xs @ (z, True) # ys) (after a xs + 16) = None"
    by (auto simp: live_of_append map_add_def fun_eq_iff split: option.split)
qed

lemma live_join: "live_of a (xs @ (y, True) # (z, True) # ys) = live_of a (xs @ (y + 16 + z, True) # ys)"
proof -
  have "after a xs + 16 + y + 16 + z = after a xs + 16 + (y + 16 + z)" by simp
  then show ?thesis by (simp only: live_of_append live_of.simps if_True)
qed

text \<open>Where a live block comes from.\<close>

lemma live_split:
  assumes "live_of a bs q = Some k"
  shows "\<exists>xs z ys. bs = xs @ (z, False) # ys \<and> q = after a xs + 16 \<and> k = unat z"
  using assms
proof (induction a bs rule: live_of.induct)
  case (2 a z f bs)
  show ?case
  proof (cases "\<not> f \<and> q = a + 16")
    case True
    then show ?thesis using 2(3) by (intro exI [of _ "[]"] exI [of _ z] exI [of _ bs]) auto
  next
    case False
    then have "live_of (a + 16 + z) bs q = Some k" using 2(3) by (auto split: if_splits)
    then obtain xs w ys where "bs = xs @ (w, False) # ys" "q = after (a + 16 + z) xs + 16" "k = unat w"
      using 2(1,2) by (cases f) auto
    then show ?thesis by (intro exI [of _ "(z, f) # xs"] exI [of _ w] exI [of _ ys]) simp
  qed
qed simp

section \<open>Searching\<close>

fun first_fit :: "u32 \<Rightarrow> u32 \<Rightarrow> (u32 \<times> bool) list \<Rightarrow> u32" where
  "first_fit sz a [] = 0"
| "first_fit sz a ((z, f) # bs) = (if f \<and> sz \<le> z then a else first_fit sz (a + 16 + z) bs)"

lemma ff_find_seg:
  assumes "seg m p a bs 0" "unat a + tot bs < 2 ^ 32" "0 < unat a"
  shows "ff_find m sz (if bs = [] then 0 else a) = Some (first_fit sz a bs)"
  using assms
proof (induction p a bs rule: lastb.induct)
  case (1 p a)
  then show ?case by (subst ff_find.simps) simp
next
  case (2 p a z f bs)
  have u: "unat (a + 16 + z) = unat a + 16 + unat z" using 2(3) by (intro unat_sum3) simp
  have IH: "ff_find m sz (if bs = [] then 0 else a + 16 + z) = Some (first_fit sz (a + 16 + z) bs)"
    using 2 u by (intro 2(1)) simp_all
  have "a \<noteq> 0" using 2(4) by auto
  then show ?case using 2(2) IH by (subst ff_find.simps) auto
qed

lemma first_fit_split:
  assumes "unat a + tot bs < 2 ^ 32" "0 < unat a"
  shows "if first_fit sz a bs = 0 then \<forall>(z, f) \<in> set bs. f \<longrightarrow> \<not> sz \<le> z
    else \<exists>xs z ys. bs = xs @ (z, True) # ys \<and> first_fit sz a bs = after a xs \<and> sz \<le> z \<and> (\<forall>(w, f) \<in> set xs. f \<longrightarrow> \<not> sz \<le> w)"
  using assms
proof (induction sz a bs rule: first_fit.induct)
  case (2 sz a z f bs)
  have u: "unat (a + 16 + z) = unat a + 16 + unat z" using 2(2) by (intro unat_sum3) simp
  have a0: "a \<noteq> 0" using 2(3) by auto
  show ?case
  proof (cases "f \<and> sz \<le> z")
    case True
    then show ?thesis using a0 by (auto intro!: exI [of _ "[]"])
  next
    case False
    have IH: "if first_fit sz (a + 16 + z) bs = 0 then \<forall>(z, f) \<in> set bs. f \<longrightarrow> \<not> sz \<le> z
      else \<exists>xs w ys. bs = xs @ (w, True) # ys \<and> first_fit sz (a + 16 + z) bs = after (a + 16 + z) xs \<and> sz \<le> w \<and>
        (\<forall>(w, f) \<in> set xs. f \<longrightarrow> \<not> sz \<le> w)"
      using 2 u False by (intro 2(1)) simp_all
    show ?thesis
    proof (cases "first_fit sz (a + 16 + z) bs = 0")
      case True
      then show ?thesis using IH False by auto
    next
      case nz: False
      then obtain xs w ys where "bs = xs @ (w, True) # ys" "first_fit sz (a + 16 + z) bs = after (a + 16 + z) xs" "sz \<le> w"
        "\<forall>(w, f) \<in> set xs. f \<longrightarrow> \<not> sz \<le> w" using IH by auto
      then show ?thesis using nz False by (auto intro!: exI [of _ "(z, f) # xs"])
    qed
  qed
qed simp

lemma first_fit_append: "\<forall>(w, f) \<in> set xs. f \<longrightarrow> \<not> sz \<le> w \<Longrightarrow> sz \<le> z \<Longrightarrow> first_fit sz a (xs @ (z, True) # ys) = after a xs"
  by (induction a xs rule: after.induct) auto

section \<open>The invariant\<close>

fun blocks_from :: "nat \<Rightarrow> memory \<Rightarrow> u32 \<Rightarrow> (u32 \<times> bool) list" where
  "blocks_from 0 m a = []"
| "blocks_from (Suc k) m a = (if a = 0 then [] else (blk_size m a, blk_is_free m a \<noteq> 0) # blocks_from k m (blk_next m a))"

definition ff_blocks :: "('b, 'v) ff_state \<Rightarrow> (u32 \<times> bool) list" where
  "ff_blocks s = blocks_from (unat (heap_brk s - heap_start s)) (kh_mem s) (free_list s)"

definition coal :: "(u32 \<times> bool) list \<Rightarrow> bool" where
  "coal bs \<longleftrightarrow> successively (\<lambda>x y. \<not> (snd x \<and> snd y)) bs"

definition ff_rep :: "('b, 'v) ff_state \<Rightarrow> (u32 \<times> bool) list \<Rightarrow> bool" where
  "ff_rep s bs \<longleftrightarrow> bs \<noteq> [] \<and> free_list s = heap_start s \<and> 0 < unat (heap_start s) \<and> 8 dvd unat (heap_start s) \<and>
     unat (heap_start s) + tot bs = unat (heap_brk s) \<and> (\<forall>(z, f) \<in> set bs. 8 dvd unat z) \<and>
     seg (kh_mem s) 0 (heap_start s) bs 0 \<and> coal bs"

definition ff_inv :: "('b, 'v) ff_state \<Rightarrow> bool" where "ff_inv s \<longleftrightarrow> ff_rep s (ff_blocks s)"

definition ff_live :: "('b, 'v) ff_state \<Rightarrow> u32 \<Rightarrow> nat option" where "ff_live s = live_of (heap_start s) (ff_blocks s)"

definition ff_poke :: "u32 \<Rightarrow> u8 \<Rightarrow> ('b, 'v) ff_state \<Rightarrow> ('b, 'v) ff_state" where
  "ff_poke x v s = s\<lparr>kh_mem := (kh_mem s)(x := v)\<rparr>"

lemma length_tot: "length bs \<le> tot bs"
  by (induction bs rule: tot.induct) auto

lemma blocks_from_seg:
  assumes "seg m p a bs 0" "unat a + tot bs < 2 ^ 32" "0 < unat a" "length bs \<le> k"
  shows "blocks_from k m (if bs = [] then 0 else a) = bs"
  using assms
proof (induction p a bs arbitrary: k rule: lastb.induct)
  case (1 p a)
  then show ?case by (cases k) simp_all
next
  case (2 p a z f bs)
  have u: "unat (a + 16 + z) = unat a + 16 + unat z" using 2(3) by (intro unat_sum3) simp
  obtain j where k: "k = Suc j" "length bs \<le> j" using 2(5) by (cases k) auto
  have "blocks_from j m (if bs = [] then 0 else a + 16 + z) = bs" using 2(2-4) u k by (intro 2(1)) simp_all
  moreover have "a \<noteq> 0" using 2(4) by auto
  ultimately show ?case using 2(2) k by auto
qed

lemma rep_wrap: "ff_rep s bs \<Longrightarrow> unat (heap_start s) + tot bs < 2 ^ 32"
  using unat_lt_2p32 [of "heap_brk s"] by (simp add: ff_rep_def)

lemma rep_blocks: "ff_rep s bs \<Longrightarrow> ff_blocks s = bs"
proof -
  assume r: "ff_rep s bs"
  have "unat (heap_brk s - heap_start s) = tot bs"
    using r by (subst unat_sub) (auto simp: ff_rep_def word_le_nat_alt)
  then show ?thesis
    using blocks_from_seg [of "kh_mem s" 0 "heap_start s" bs "tot bs"] r rep_wrap [OF r] length_tot [of bs]
    by (simp add: ff_blocks_def ff_rep_def)
qed

lemma rep_inv: "ff_rep s bs \<Longrightarrow> ff_inv s" "ff_rep s bs \<Longrightarrow> ff_live s = live_of (heap_start s) bs"
  using rep_blocks by (auto simp: ff_inv_def ff_live_def)

lemma inv_rep: "ff_inv s \<Longrightarrow> ff_rep s (ff_blocks s)"
  by (simp add: ff_inv_def)

text \<open>A new memory with a new block list of the same extent.\<close>

lemma rep_upd:
  assumes "ff_rep s bs" "seg m 0 (heap_start s) cs 0" "tot cs = tot bs" "cs \<noteq> []" "\<forall>(z, f) \<in> set cs. 8 dvd unat z" "coal cs"
  shows "ff_rep (s\<lparr>kh_mem := m\<rparr>) cs"
  using assms by (simp add: ff_rep_def)

section \<open>The bytes of the live blocks\<close>

definition keep :: "(u32 \<Rightarrow> nat option) \<Rightarrow> memory \<Rightarrow> memory \<Rightarrow> bool" where
  "keep l m m' \<longleftrightarrow> (\<forall>q k. l q = Some k \<longrightarrow> (\<forall>x \<in> block_at q k. m' x = m x))"

lemma keep_refl [simp]: "keep l m m"
  by (simp add: keep_def)

lemma keep_trans: "keep l m m' \<Longrightarrow> keep l m' m'' \<Longrightarrow> keep l m m''"
  by (simp add: keep_def)

lemma keep_sub: "keep l m m' \<Longrightarrow> l' \<subseteq>\<^sub>m l \<Longrightarrow> keep l' m m'"
  unfolding keep_def map_le_def by (metis domI)

lemma live_all_free: "\<forall>(z, f) \<in> set us. f \<Longrightarrow> live_of a us = Map.empty"
  by (induction a us rule: live_of.induct) auto

lemma keep_region:
  assumes "unat a + tot (xs @ us @ ys) < 2 ^ 32" "\<forall>(z, f) \<in> set us. f"
    and "\<And>x. unat x < unat (after a xs) \<or> unat (after a xs) + tot us + (if ys = [] then 0 else 16) \<le> unat x \<Longrightarrow> m' x = m x"
  shows "keep (live_of a (xs @ us @ ys)) m m'"
  unfolding keep_def by (intro allI impI ballI assms(3), rule live_outside [OF assms(1)])
    (simp_all add: live_all_free [OF assms(2)])

lemma keep_set_free:
  assumes "unat a + tot (xs @ (z, f) # ys) < 2 ^ 32"
  shows "keep (live_of a (xs @ (z, True) # ys)) m (set_free (after a xs) v m)"
proof -
  have "keep (live_of a (xs @ [(z, True)] @ ys)) m (set_free (after a xs) v m)"
    using assms at_unat [OF assms] by (intro keep_region set_out) auto
  then show ?thesis by simp
qed

lemma keep_merge:
  assumes "seg m p a (xs @ (y, True) # (z, True) # ys) 0" "unat a + tot (xs @ (y, True) # (z, True) # ys) < 2 ^ 32"
  shows "keep (live_of a (xs @ (y, True) # (z, True) # ys)) m (merge_with_next (after a xs) m)"
proof -
  have "keep (live_of a (xs @ [(y, True), (z, True)] @ ys)) m (merge_with_next (after a xs) m)"
    using assms(2) merge_seg(3) [OF assms] by (intro keep_region) auto
  then show ?thesis by simp
qed

section \<open>Allocation\<close>

lemma ALIGN8_round:
  assumes "req \<le> 0xFFFFFFF8"
  shows "unat req \<le> unat (ALIGN8 req)" "8 dvd unat (ALIGN8 req)" "unat (ALIGN8 req) < unat req + 8"
proof -
  have "(7 :: u32) = mask 3" by (simp add: mask_eq_exp_minus_1)
  then have "unat (ALIGN8 req) = unat (req + 7) - unat (req + 7) mod 8"
    unfolding ALIGN8_def using unat_and_not_mask [of "req + 7" 3] by simp
  moreover have "unat (req + 7) = unat req + 7" using assms by (subst unat_add_no_wrap) (simp_all add: word_le_nat_alt)
  ultimately have e: "unat (ALIGN8 req) = unat req + 7 - (unat req + 7) mod 8" by simp
  show "unat req \<le> unat (ALIGN8 req)" "unat (ALIGN8 req) < unat req + 8" unfolding e
    by (use mod_less_divisor [of 8 "unat req + 7"] in linarith)+
  show "8 dvd unat (ALIGN8 req)" unfolding e by (simp add: minus_mod_eq_mult_div)
qed

lemma alloc_rep:
  assumes r: "ff_rep s bs" and n: "req \<le> 0xFFFFFFF8"
  defines "a \<equiv> heap_start s" and "sz \<equiv> ALIGN8 req"
  shows "if first_fit sz a bs = 0 then heap_first_fit_alloc req s = Some (0, s) \<and> (\<forall>(z, f) \<in> set bs. f \<longrightarrow> \<not> sz \<le> z)
    else \<exists>xs z ys cs k m'. bs = xs @ (z, True) # ys \<and> sz \<le> z \<and> (\<forall>(w, f) \<in> set xs. f \<longrightarrow> \<not> sz \<le> w) \<and>
      heap_first_fit_alloc req s = Some (after a xs + 16, s\<lparr>kh_mem := m'\<rparr>) \<and> after a xs + 16 \<noteq> 0 \<and>
      ff_rep (s\<lparr>kh_mem := m'\<rparr>) cs \<and> live_of a bs (after a xs + 16) = None \<and> unat req \<le> k \<and>
      live_of a cs = (live_of a bs)(after a xs + 16 \<mapsto> k) \<and> keep (live_of a bs) (kh_mem s) m'"
proof -
  let ?m = "kh_mem s"
  have wrap: "unat a + tot bs < 2 ^ 32" using rep_wrap [OF r] by (simp add: a_def)
  have R: "bs \<noteq> []" "free_list s = a" "0 < unat a" "8 dvd unat a" "seg ?m 0 a bs 0" "coal bs" "\<forall>(z, f) \<in> set bs. 8 dvd unat z"
    using r by (auto simp: ff_rep_def a_def)
  have find: "ff_find ?m sz (free_list s) = Some (first_fit sz a bs)"
    using ff_find_seg [OF R(5) wrap, of sz] R(1-3) by (simp add: word_gt_0 unat_gt_0)
  have a0: "0 < unat a" by (rule R(3))
  note sp = first_fit_split [OF wrap R(3), of sz]
  show ?thesis
  proof (cases "first_fit sz a bs = 0")
    case True
    then show ?thesis using sp find by (simp add: heap_first_fit_alloc_def sz_def [symmetric] Let_def)
  next
    case False
    then obtain xs z ys where bs: "bs = xs @ (z, True) # ys" "first_fit sz a bs = after a xs" "sz \<le> z" "\<forall>(w, f) \<in> set xs. f \<longrightarrow> \<not> sz \<le> w"
      using sp by auto
    let ?b = "after a xs"
    have w: "unat a + tot (xs @ (z, True) # ys) < 2 ^ 32" using wrap bs(1) by simp
    have sg: "seg ?m 0 a (xs @ (z, True) # ys) 0" using R(5) bs(1) by simp
    note u = at_unat [OF w] and at = seg_at [OF sg]
    have b16: "unat (?b + 16) = unat ?b + 16" using w u by (subst unat_add_no_wrap) simp_all
    then have nz: "?b + 16 \<noteq> 0" by auto
    have zs: "unat (z - sz) = unat z - unat sz" using bs(3) by (rule unat_sub)
    define m1 where "m1 = (if HEADER_SIZE + 8 < blk_size ?m ?b - sz then ff_split ?b sz ?m else ?m)"
    define m' where "m' = set_free ?b 0 m1"
    have run: "heap_first_fit_alloc req s = Some (?b + 16, s\<lparr>kh_mem := m'\<rparr>)"
      using find False bs(2) by (simp add: heap_first_fit_alloc_def sz_def [symmetric] Let_def m'_def m1_def)
    note al = ALIGN8_round [OF n, folded sz_def]
    have "\<exists>cs k. ff_rep (s\<lparr>kh_mem := m'\<rparr>) cs \<and> unat req \<le> k \<and> live_of a cs = (live_of a bs)(?b + 16 \<mapsto> k) \<and> keep (live_of a bs) ?m m'"
    proof (cases "24 < z - sz")
      case True
      have fit: "unat sz + 16 \<le> unat z" "unat sz + 24 < unat z" using True zs by (simp_all add: word_less_nat_alt)
      note S = ff_split_seg [OF sg w fit(1)]
      have m1: "m1 = ff_split ?b sz ?m" using True at(1) by (simp add: m1_def)
      let ?ds = "xs @ (sz, True) # (z - sz - 16, True) # ys"
      let ?cs = "xs @ (sz, False) # (z - sz - 16, True) # ys"
      have wd: "unat a + tot ?ds < 2 ^ 32" using w S(2) fit by simp
      have seg': "seg m' 0 a ?cs 0" unfolding m'_def m1 using seg_set_free [OF S(1) wd, of 0] by simp
      have "8 dvd unat z" using R(7) bs(1) by auto
      then have d: "8 dvd unat (z - sz - 16)" unfolding S(2) using al(2) by (intro dvd_diff_nat) auto
      have "ff_rep (s\<lparr>kh_mem := m'\<rparr>) ?cs"
        using seg' R(6,7) d al(2) S(2) fit unfolding a_def bs(1)
        by (intro rep_upd [OF r]) (auto simp: bs(1) coal_def successively_append_iff successively_Cons)
      moreover have eq: "live_of a bs = live_of a ?ds" unfolding bs(1) live_join by (simp add: algebra_simps)
      then have "live_of a ?cs = (live_of a bs)(?b + 16 \<mapsto> unat sz)" using live_mid(1) [OF wd] by simp
      moreover have "keep (live_of a bs) ?m m1"
      proof -
        have "keep (live_of a (xs @ [(z, True)] @ ys)) ?m m1" unfolding m1 using w S(3) by (intro keep_region) auto
        then show ?thesis by (simp add: bs(1))
      qed
      then have "keep (live_of a bs) ?m m'" unfolding m'_def using keep_set_free [OF wd, of m1 0] eq keep_trans by simp
      ultimately show ?thesis using al(1) by blast
    next
      case False
      have m1: "m1 = ?m" using False at(1) by (simp add: m1_def)
      let ?cs = "xs @ (z, False) # ys"
      have seg': "seg m' 0 a ?cs 0" unfolding m'_def m1 using seg_set_free [OF sg w, of 0] by simp
      have "ff_rep (s\<lparr>kh_mem := m'\<rparr>) ?cs"
        using seg' R(6,7) unfolding a_def bs(1)
        by (intro rep_upd [OF r]) (auto simp: bs(1) coal_def successively_append_iff successively_Cons)
      moreover have "live_of a ?cs = (live_of a bs)(?b + 16 \<mapsto> unat z)" using live_mid(1) [OF w] bs(1) by simp
      moreover have "keep (live_of a bs) ?m m'" unfolding m'_def m1 using keep_set_free [OF w] bs(1) by simp
      moreover have "unat req \<le> unat z" using al(1) bs(3) by (simp add: word_le_nat_alt)
      ultimately show ?thesis by blast
    qed
    then obtain cs k where C: "ff_rep (s\<lparr>kh_mem := m'\<rparr>) cs" "unat req \<le> k" "live_of a cs = (live_of a bs)(?b + 16 \<mapsto> k)"
      "keep (live_of a bs) ?m m'" by blast
    have none: "live_of a bs (?b + 16) = None" using live_mid(2) [OF w] bs(1) by simp
    have "\<exists>xs z ys cs k m'. bs = xs @ (z, True) # ys \<and> sz \<le> z \<and> (\<forall>(w, f) \<in> set xs. f \<longrightarrow> \<not> sz \<le> w) \<and>
      heap_first_fit_alloc req s = Some (after a xs + 16, s\<lparr>kh_mem := m'\<rparr>) \<and> after a xs + 16 \<noteq> 0 \<and>
      ff_rep (s\<lparr>kh_mem := m'\<rparr>) cs \<and> live_of a bs (after a xs + 16) = None \<and> unat req \<le> k \<and>
      live_of a cs = (live_of a bs)(after a xs + 16 \<mapsto> k) \<and> keep (live_of a bs) (kh_mem s) m'"
      using bs(1,3,4) run nz C none by blast
    then show ?thesis using False by (simp only: if_False)
  qed
qed

section \<open>Release\<close>

lemma successively_append_Cons:
  "successively P (xs @ y # ys) \<longleftrightarrow> successively P (xs @ [y]) \<and> successively P (y # ys)"
  by (auto simp: successively_append_iff successively_Cons)

text \<open>The forward loop absorbs the free block that may follow.\<close>

lemma merge_forward_rep:
  assumes sg: "seg m p a (xs @ (z, True) # ys) 0" and w: "unat a + tot (xs @ (z, True) # ys) < 2 ^ 32"
    and co: "coal ys" and d: "8 dvd unat z" "\<forall>(z, f) \<in> set ys. 8 dvd unat z"
  shows "\<exists>m' y zs. ff_merge_forward (after a xs) m = Some m' \<and> seg m' p a (xs @ (y, True) # zs) 0 \<and>
    tot (xs @ (y, True) # zs) = tot (xs @ (z, True) # ys) \<and> live_of a (xs @ (y, True) # zs) = live_of a (xs @ (z, True) # ys) \<and>
    keep (live_of a (xs @ (z, True) # ys)) m m' \<and> coal ((y, True) # zs) \<and> 8 dvd unat y \<and> (\<forall>(z, f) \<in> set zs. 8 dvd unat z)"
proof -
  let ?b = "after a xs"
  have stop: "ff_merge_forward ?b m' = Some m'" if s': "seg m' p a (xs @ (y, True) # zs) 0" "zs = [] \<or> \<not> snd (hd zs)" for m' y zs
  proof -
    note at = seg_at [OF s'(1)]
    have "blk_next m' ?b = 0 \<or> blk_is_free m' (blk_next m' ?b) = 0"
      using s' at by (cases zs) (auto simp: seg_append)
    then show ?thesis by (subst ff_merge_forward.simps) auto
  qed
  show ?thesis
  proof (cases "ys = [] \<or> \<not> snd (hd ys)")
    case True
    have "coal ((z, True) # ys)" using True co by (cases ys) (auto simp: coal_def successively_Cons)
    then show ?thesis using stop [OF sg True] sg d by (intro exI [of _ m] exI [of _ z] exI [of _ ys]) simp
  next
    case False
    then obtain y zs where ys: "ys = (y, True) # zs" by (cases ys) auto
    have sg2: "seg m p a (xs @ (z, True) # (y, True) # zs) 0" and w2: "unat a + tot (xs @ (z, True) # (y, True) # zs) < 2 ^ 32"
      using sg w ys by simp_all
    note M = merge_seg [OF sg2 w2]
    have zs: "zs = [] \<or> \<not> snd (hd zs)" using co ys by (cases zs) (auto simp: coal_def)
    note at = seg_at [OF sg2] and at2 = seg_at [of m p a "xs @ [(z, True)]" y True zs 0] and u = at_unat [OF w2]
    have "?b + 16 + z \<noteq> 0" using u by auto
    moreover have "blk_is_free m (?b + 16 + z) \<noteq> 0" using at2(2) sg2 by simp
    ultimately have "ff_merge_forward ?b m = ff_merge_forward ?b (merge_with_next ?b m)"
      using at(4) by (subst ff_merge_forward.simps) simp
    also have "\<dots> = Some (merge_with_next ?b m)" by (rule stop [OF M(1) zs])
    finally have run: "ff_merge_forward ?b m = Some (merge_with_next ?b m)" .
    have "8 dvd unat (z + 16 + y)" unfolding M(2) using d ys by (auto intro!: dvd_add)
    moreover have "coal ((z + 16 + y, True) # zs)" using zs co ys by (cases zs) (auto simp: coal_def successively_Cons)
    moreover have "live_of a (xs @ (z, True) # ys) = live_of a (xs @ (z + 16 + y, True) # zs)" unfolding ys by (rule live_join)
    moreover have "keep (live_of a (xs @ (z, True) # ys)) m (merge_with_next ?b m)" unfolding ys by (rule keep_merge [OF sg2 w2])
    moreover have "tot (xs @ (z + 16 + y, True) # zs) = tot (xs @ (z, True) # ys)" using M(2) ys by simp
    ultimately show ?thesis using run M(1) d(2) ys
      by (intro exI [of _ "merge_with_next ?b m"] exI [of _ "z + 16 + y"] exI [of _ zs]) simp
  qed
qed

text \<open>The backward step lets the free block before absorb it.\<close>

lemma merge_backward_rep:
  assumes sg: "seg m 0 a (xs @ (z, True) # ys) 0" and w: "unat a + tot (xs @ (z, True) # ys) < 2 ^ 32"
    and co: "coal xs" "coal ((z, True) # ys)" and d: "\<forall>(z, f) \<in> set (xs @ (z, True) # ys). 8 dvd unat z" and a0: "0 < unat a"
  defines "m' \<equiv> (if blk_prev m (after a xs) \<noteq> 0 \<and> blk_is_free m (blk_prev m (after a xs)) \<noteq> 0
    then merge_with_next (blk_prev m (after a xs)) m else m)"
  shows "\<exists>cs. seg m' 0 a cs 0 \<and> tot cs = tot (xs @ (z, True) # ys) \<and> live_of a cs = live_of a (xs @ (z, True) # ys) \<and>
    keep (live_of a (xs @ (z, True) # ys)) m m' \<and> coal cs \<and> cs \<noteq> [] \<and> (\<forall>(z, f) \<in> set cs. 8 dvd unat z)"
proof -
  note at = seg_at [OF sg]
  show ?thesis
  proof (cases "xs = [] \<or> \<not> snd (last xs)")
    case True
    have "blk_prev m (after a xs) = 0 \<or> blk_is_free m (blk_prev m (after a xs)) = 0"
    proof (cases xs rule: rev_cases)
      case Nil
      then show ?thesis using at(3) by simp
    next
      case (snoc us x)
      obtain y f where x: "x = (y, f)" by (cases x)
      have "lastb 0 a xs = after a us" by (simp add: snoc x lastb_append)
      moreover have "blk_is_free m (after a us) = 0"
        using seg_at(2) [of m 0 a us y f "(z, True) # ys" 0] sg True by (simp add: snoc x)
      ultimately show ?thesis using at(3) by simp
    qed
    then have "m' = m" by (auto simp: m'_def)
    moreover have "coal (xs @ (z, True) # ys)" using True co by (auto simp: coal_def successively_append_iff)
    ultimately show ?thesis using sg d by (intro exI [of _ "xs @ (z, True) # ys"]) simp
  next
    case False
    then obtain us y where xs: "xs = us @ [(y, True)]" by (cases xs rule: rev_cases) auto
    have sg2: "seg m 0 a (us @ (y, True) # (z, True) # ys) 0" and w2: "unat a + tot (us @ (y, True) # (z, True) # ys) < 2 ^ 32"
      using sg w xs by simp_all
    note M = merge_seg [OF sg2 w2] and at2 = seg_at [OF sg2] and u = at_unat [OF w2]
    have pv: "blk_prev m (after a xs) = after a us" using at(3) by (simp add: xs lastb_append)
    have "after a us \<noteq> 0" using u(1) a0 by auto
    then have m': "m' = merge_with_next (after a us) m" using at2(2) by (simp add: m'_def pv)
    have "8 dvd unat (y + 16 + z)" unfolding M(2) using d xs by (auto intro!: dvd_add)
    moreover have "coal (us @ (y + 16 + z, True) # ys)"
      using co xs by (auto simp: coal_def successively_append_iff successively_Cons)
    moreover have "live_of a (xs @ (z, True) # ys) = live_of a (us @ (y + 16 + z, True) # ys)" using live_join xs by simp
    moreover have "keep (live_of a (xs @ (z, True) # ys)) m m'" unfolding m' using keep_merge [OF sg2 w2] xs by simp
    moreover have "tot (us @ (y + 16 + z, True) # ys) = tot (xs @ (z, True) # ys)" using M(2) xs by simp
    ultimately show ?thesis using M(1) d xs m' by (intro exI [of _ "us @ (y + 16 + z, True) # ys"]) auto
  qed
qed

lemma free_rep:
  assumes r: "ff_rep s bs" and l: "live_of (heap_start s) bs p = Some n"
  shows "\<exists>m' cs. heap_first_fit_free p s = Some (s\<lparr>kh_mem := m'\<rparr>) \<and> ff_rep (s\<lparr>kh_mem := m'\<rparr>) cs \<and>
    live_of (heap_start s) cs = (live_of (heap_start s) bs)(p := None) \<and>
    keep ((live_of (heap_start s) bs)(p := None)) (kh_mem s) m'"
proof -
  define a where "a = heap_start s"
  let ?m = "kh_mem s"
  obtain xs z ys where bs: "bs = xs @ (z, False) # ys" "p = after a xs + 16" using live_split [OF l] by (auto simp: a_def)
  let ?b = "after a xs"
  have wrap: "unat a + tot (xs @ (z, False) # ys) < 2 ^ 32" using rep_wrap [OF r] by (simp add: a_def bs(1))
  have wrapT: "unat a + tot (xs @ (z, True) # ys) < 2 ^ 32" using wrap by simp
  have R: "free_list s = a" "0 < unat a" "seg ?m 0 a (xs @ (z, False) # ys) 0" "coal (xs @ (z, False) # ys)"
    "\<forall>(z, f) \<in> set (xs @ (z, False) # ys). 8 dvd unat z" "unat a + tot (xs @ (z, False) # ys) = unat (heap_brk s)"
    using r by (auto simp: ff_rep_def a_def bs(1))
  note u = at_unat [OF wrap]
  have b16: "unat (?b + 16) = unat ?b + 16" using wrap u by (subst unat_add_no_wrap) simp_all
  have p0: "p \<noteq> 0" using b16 bs(2) by auto
  have rng: "\<not> (?b < a \<or> heap_brk s \<le> ?b)" using u(1) R(6) by (simp add: word_less_nat_alt word_le_nat_alt)
  define m1 where "m1 = set_free ?b 1 ?m"
  have s1: "seg m1 0 a (xs @ (z, True) # ys) 0" unfolding m1_def using seg_set_free [OF R(3) wrap, of 1] by simp
  have co: "coal xs" "coal ys" using R(4) by (auto simp: coal_def successively_append_iff successively_Cons)
  have d: "8 dvd unat z" "\<forall>(z, f) \<in> set ys. 8 dvd unat z" using R(5) by auto
  obtain m2 y zs where F: "ff_merge_forward ?b m1 = Some m2" "seg m2 0 a (xs @ (y, True) # zs) 0"
    "tot (xs @ (y, True) # zs) = tot (xs @ (z, True) # ys)" "live_of a (xs @ (y, True) # zs) = live_of a (xs @ (z, True) # ys)"
    "keep (live_of a (xs @ (z, True) # ys)) m1 m2" "coal ((y, True) # zs)" "8 dvd unat y" "\<forall>(z, f) \<in> set zs. 8 dvd unat z"
    using merge_forward_rep [OF s1 wrapT co(2) d] by blast
  have w2: "unat a + tot (xs @ (y, True) # zs) < 2 ^ 32" using wrapT F(3) by simp
  define m3 where "m3 = (if blk_prev m2 ?b \<noteq> 0 \<and> blk_is_free m2 (blk_prev m2 ?b) \<noteq> 0 then merge_with_next (blk_prev m2 ?b) m2 else m2)"
  have "\<forall>(z, f) \<in> set (xs @ (y, True) # zs). 8 dvd unat z" using F(7,8) R(5) by auto
  from merge_backward_rep [OF F(2) w2 co(1) F(6) this R(2), folded m3_def] obtain cs where B: "seg m3 0 a cs 0"
    "tot cs = tot (xs @ (y, True) # zs)" "live_of a cs = live_of a (xs @ (y, True) # zs)"
    "keep (live_of a (xs @ (y, True) # zs)) m2 m3" "coal cs" "cs \<noteq> []" "\<forall>(z, f) \<in> set cs. 8 dvd unat z" by blast
  have run: "heap_first_fit_free p s = Some (s\<lparr>kh_mem := m3\<rparr>)"
    using p0 rng F(1) by (simp add: heap_first_fit_free_def bs(2) m1_def [symmetric] m3_def a_def [symmetric])
  have lv: "live_of a (xs @ (z, True) # ys) = (live_of a bs)(p := None)"
    using live_mid [OF wrapT] by (auto simp: bs fun_eq_iff)
  have "ff_rep (s\<lparr>kh_mem := m3\<rparr>) cs"
    using B F(3) unfolding a_def bs(1) by (intro rep_upd [OF r]) (auto simp: bs(1))
  moreover have "keep (live_of a (xs @ (z, True) # ys)) ?m m3"
  proof (rule keep_trans)
    show "keep (live_of a (xs @ (z, True) # ys)) ?m m1" unfolding m1_def by (rule keep_set_free [OF wrapT])
    have "keep (live_of a (xs @ (z, True) # ys)) m2 m3" using B(4) by (simp only: F(4))
    with F(5) show "keep (live_of a (xs @ (z, True) # ys)) m1 m3" by (rule keep_trans)
  qed
  moreover have "live_of a cs = (live_of a bs)(p := None)" using B(3) F(4) lv by simp
  ultimately show ?thesis using run lv unfolding a_def by (intro exI [of _ m3] exI [of _ cs]) simp
qed

section \<open>A client's writes\<close>

lemma seg_poke:
  assumes "seg m p a bs e" "unat a + tot bs < 2 ^ 32" "live_of a bs q = Some k" "x \<in> block_at q k"
  shows "seg (m(x := v)) p a bs e"
  using assms
proof (induction p a bs rule: lastb.induct)
  case (2 p a z f bs)
  note u = cons_unat [OF 2(3)]
  have h: "hdr_fits a" using 2(3) by (simp add: hdr_fits_def)
  have x: "unat a + 16 \<le> unat x" using live_bounds [OF 2(3,4)] 2(5) by (auto simp: block_at_def)
  then have "(m(x := v)) y = m y" if "unat y < unat a + 16" for y using that by auto
  then have hd: "blk_size (m(x := v)) a = blk_size m a" "blk_is_free (m(x := v)) a = blk_is_free m a"
    "blk_next (m(x := v)) a = blk_next m a" "blk_prev (m(x := v)) a = blk_prev m a"
    using hdr_cong [OF h, of "m(x := v)" m] by simp_all
  have "seg (m(x := v)) a (a + 16 + z) bs e"
  proof (cases "\<not> f \<and> q = a + 16")
    case True
    then have "unat x < unat (a + 16 + z)" using 2(4,5) u by (auto simp: block_at_def)
    then have "seg (m(x := v)) a (a + 16 + z) bs e = seg m a (a + 16 + z) bs e"
      using u(3) by (intro seg_cong) auto
    then show ?thesis using 2(2) by simp
  next
    case False
    then have "live_of (a + 16 + z) bs q = Some k" using 2(4) by (auto split: if_splits)
    then show ?thesis using 2 u by (intro 2(1)) auto
  qed
  then show ?case using 2(2) unfolding seg.simps hd by blast
qed simp

section \<open>When there is no room\<close>

text \<open>The sizes of blocks are multiples of 8; a block of size \<open>k\<close> takes the \<open>16 + k\<close> bytes from its header on. There is
  room for a request when some stretch of the heap that is long enough touches no allocated block.\<close>

definition round8 :: "u32 \<Rightarrow> nat" where "round8 n = 8 * ((unat n + 7) div 8)"

definition gap_at :: "(u32 \<Rightarrow> nat option) \<Rightarrow> nat \<Rightarrow> nat \<Rightarrow> bool" where
  "gap_at l x k \<longleftrightarrow> (\<forall>p n. l p = Some n \<longrightarrow> {x..<x + 16 + k} \<inter> {unat p - 16..<unat p + n} = {})"

definition ff_full :: "('b, 'v) ff_state \<Rightarrow> u32 \<Rightarrow> bool" where
  "ff_full s n \<longleftrightarrow> (\<nexists>x. unat (heap_start s) \<le> x \<and> x + 16 + round8 n \<le> unat (heap_brk s) \<and> gap_at (ff_live s) x (round8 n))"

lemma unat_ALIGN8: "req \<le> 0xFFFFFFF8 \<Longrightarrow> unat (ALIGN8 req) = round8 req"
proof -
  assume n: "req \<le> 0xFFFFFFF8"
  obtain j where "unat (ALIGN8 req) = 8 * j" using ALIGN8_round(2) [OF n] by (elim dvdE)
  moreover from this have "(unat req + 7) div 8 = j" using ALIGN8_round(1,3) [OF n] by (intro div_nat_eqI) simp_all
  ultimately show ?thesis by (simp add: round8_def)
qed

lemma free_gap:
  assumes "unat a + tot bs < 2 ^ 32" "(z, True) \<in> set bs" "k \<le> unat z"
  shows "\<exists>x. unat a \<le> x \<and> x + 16 + k \<le> unat a + tot bs \<and> gap_at (live_of a bs) x k"
  using assms
proof (induction a bs rule: live_of.induct)
  case (2 a y f bs)
  note u = cons_unat [OF 2(3)]
  show ?case
  proof (cases "f \<and> k \<le> unat y")
    case True
    have "unat a + 16 + unat y + 16 \<le> unat p" if "live_of (a + 16 + y) bs p = Some n" for p n
      using live_bounds [OF u(3) that] u(1) by simp
    then have "gap_at (live_of a ((y, f) # bs)) (unat a) k" using True by (fastforce simp: gap_at_def)
    then show ?thesis using True by (intro exI [of _ "unat a"]) simp
  next
    case False
    then have "(z, True) \<in> set bs" using 2(4,5) by auto
    then obtain x where x: "unat (a + 16 + y) \<le> x" "x + 16 + k \<le> unat (a + 16 + y) + tot bs" "gap_at (live_of (a + 16 + y) bs) x k"
      using 2(1,2) [of] u(3) 2(5) by (cases f) blast+
    have "gap_at (live_of a ((y, f) # bs)) x k" using x(1,3) u by (auto simp: gap_at_def)
    then show ?thesis using x u by (intro exI [of _ x]) simp
  qed
qed simp

lemma gap_free:
  assumes "unat a + tot bs < 2 ^ 32" "coal bs" "unat a \<le> x" "x + 16 + k \<le> unat a + tot bs" "gap_at (live_of a bs) x k"
  shows "\<exists>z. (z, True) \<in> set bs \<and> k \<le> unat z"
  using assms
proof (induction a bs rule: live_of.induct)
  case (2 a y f bs)
  note u = cons_unat [OF 2(3)]
  have co: "coal bs" using 2(4) by (cases bs) (auto simp: coal_def)
  show ?case
  proof (cases "unat (a + 16 + y) \<le> x")
    case True
    have "live_of (a + 16 + y) bs p = Some n \<Longrightarrow> live_of a ((y, f) # bs) p = Some n" for p n
      using live_bounds [OF u(3), of p n] u by auto
    then have "gap_at (live_of (a + 16 + y) bs) x k" using 2(7) by (auto simp: gap_at_def)
    then show ?thesis using 2(1,2) u co True 2(6) by (cases f) auto
  next
    case False
    then have x: "unat a \<le> x" "x < unat a + 16 + unat y" using 2(5) u by simp_all
    have f: f
    proof (rule ccontr)
      assume "\<not> f"
      then have "live_of a ((y, f) # bs) (a + 16) = Some (unat y)" by simp
      then show False using 2(7) x u(2) by (fastforce simp: gap_at_def)
    qed
    have "x + 16 + k \<le> unat a + 16 + unat y"
    proof (cases bs)
      case Nil
      then show ?thesis using 2(6) by simp
    next
      case (Cons b cs)
      then obtain w where b: "b = (w, False)" using 2(4) f by (cases b) (auto simp: coal_def)
      then have l: "live_of a ((y, f) # bs) (a + 16 + y + 16) = Some (unat w)" using Cons f by simp
      have "unat (a + 16 + y + 16) = unat (a + 16 + y) + 16"
        using cons_unat(2) [of "a + 16 + y" w False cs] u(3) Cons b by simp
      then show ?thesis using 2(7) l x u(1) unfolding gap_at_def by fastforce
    qed
    then show ?thesis using f x by (intro exI [of _ y]) auto
  qed
qed simp

lemma full_blocks:
  assumes "ff_inv s" "req \<le> 0xFFFFFFF8"
  shows "ff_full s req \<longleftrightarrow> (\<forall>(z, f) \<in> set (ff_blocks s). f \<longrightarrow> \<not> ALIGN8 req \<le> z)"
proof -
  note r = inv_rep [OF assms(1)] and w = rep_wrap [OF inv_rep [OF assms(1)]]
  have R: "coal (ff_blocks s)" "unat (heap_brk s) = unat (heap_start s) + tot (ff_blocks s)" using r by (auto simp: ff_rep_def)
  have "ALIGN8 req \<le> z \<longleftrightarrow> round8 req \<le> unat z" for z by (simp only: word_le_nat_alt unat_ALIGN8 [OF assms(2)])
  then have e: "(\<forall>(z, f) \<in> set (ff_blocks s). f \<longrightarrow> \<not> ALIGN8 req \<le> z) \<longleftrightarrow> (\<nexists>z. (z, True) \<in> set (ff_blocks s) \<and> round8 req \<le> unat z)"
    by auto
  show ?thesis unfolding e ff_full_def ff_live_def R(2)
    using free_gap [OF w, of _ "round8 req"] gap_free [OF w R(1), of _ "round8 req"] by blast
qed

section \<open>The contract\<close>

text \<open>What the operations leave alone: the memory managers and the bounds of the heap.\<close>

definition ff_frame :: "('b, 'v) ff_state \<Rightarrow> ('b, 'v) vmm_state \<times> u32 \<times> u32" where
  "ff_frame s = (kh_vm s, heap_start s, heap_brk s)"

lemma ff_frame_mem [simp]: "ff_frame (s\<lparr>kh_mem := m\<rparr>) = ff_frame s"
  by (simp add: ff_frame_def)

interpretation ff: heap_backend heap_first_fit_alloc heap_first_fit_free kh_mem ff_poke "\<lambda>s. ff_inv s \<and> ff_frame s = r" ff_live ff_full
  for r
proof
  fix s :: "('a, 'b) ff_state" and p q :: u32 and n k :: nat and req :: u32 and x v and rr
  assume "ff_inv s \<and> ff_frame s = rr"
  then have inv: "ff_inv s" and fr: "ff_frame s = rr" by blast+
  note r = inv_rep [OF inv]
  note w = rep_wrap [OF r]
  show "p \<noteq> 0 \<and> 8 dvd unat p \<and> unat p + n \<le> 2 ^ 32" if "ff_live s p = Some n"
    using live_bounds [OF w that [unfolded ff_live_def]] live_aligned [OF w that [unfolded ff_live_def]] r w
    by (auto simp: ff_rep_def)
  show "block_at p n \<inter> block_at q k = {}" if "ff_live s p = Some n" "ff_live s q = Some k" "p \<noteq> q"
    using live_disjoint_blocks [OF w] that by (simp add: ff_live_def)
  show "\<exists>p s'. heap_first_fit_alloc req s = Some (p, s') \<and> (ff_inv s' \<and> ff_frame s' = rr) \<and> (p = 0 \<longleftrightarrow> ff_full s req) \<and>
      (if p = 0 then ff_live s' = ff_live s else ff_live s p = None \<and> (\<exists>k. unat req \<le> k \<and> ff_live s' = (ff_live s)(p \<mapsto> k))) \<and>
      (\<forall>q k. ff_live s q = Some k \<longrightarrow> (\<forall>x \<in> block_at q k. kh_mem s' x = kh_mem s x))" if rq: "req \<le> 0xFFFFFFF8"
  proof (cases "first_fit (ALIGN8 req) (heap_start s) (ff_blocks s) = 0")
    case True
    then show ?thesis using alloc_rep [OF r rq] inv fr full_blocks [OF inv rq] by (intro exI [of _ 0] exI [of _ s]) simp
  next
    case False
    then obtain p cs k m' where A: "heap_first_fit_alloc req s = Some (p, s\<lparr>kh_mem := m'\<rparr>)" "p \<noteq> 0"
      "ff_rep (s\<lparr>kh_mem := m'\<rparr>) cs" "live_of (heap_start s) (ff_blocks s) p = None" "unat req \<le> k"
      "live_of (heap_start s) cs = (live_of (heap_start s) (ff_blocks s))(p \<mapsto> k)"
      "keep (live_of (heap_start s) (ff_blocks s)) (kh_mem s) m'" "\<exists>xs z ys. ff_blocks s = xs @ (z, True) # ys \<and> ALIGN8 req \<le> z"
      using alloc_rep [OF r rq] by (simp only: if_False) blast
    have "\<not> ff_full s req" unfolding full_blocks [OF inv rq] using A(8) by auto

    have "ff_live (s\<lparr>kh_mem := m'\<rparr>) = (ff_live s)(p \<mapsto> k)" using rep_inv(2) [OF A(3)] A(6) by (simp add: ff_live_def)
    moreover have "\<forall>q k. ff_live s q = Some k \<longrightarrow> (\<forall>x \<in> block_at q k. m' x = kh_mem s x)"
      using A(7) by (simp add: keep_def ff_live_def)
    ultimately show ?thesis using A(1,2,4,5) rep_inv(1) [OF A(3)] fr \<open>\<not> ff_full s req\<close>
      by (intro exI [of _ p] exI [of _ "s\<lparr>kh_mem := m'\<rparr>"]) (auto simp: ff_live_def)
  qed
  show "\<exists>s'. heap_first_fit_free p s = Some s' \<and> (ff_inv s' \<and> ff_frame s' = rr) \<and> ff_live s' = (ff_live s)(p := None) \<and>
      (\<forall>q k. q \<noteq> p \<longrightarrow> ff_live s q = Some k \<longrightarrow> (\<forall>x \<in> block_at q k. kh_mem s' x = kh_mem s x))" if "ff_live s p = Some n"
  proof -
    from free_rep [OF r, of p n] that obtain m' cs where A: "heap_first_fit_free p s = Some (s\<lparr>kh_mem := m'\<rparr>)"
      "ff_rep (s\<lparr>kh_mem := m'\<rparr>) cs" "live_of (heap_start s) cs = (ff_live s)(p := None)" "keep ((ff_live s)(p := None)) (kh_mem s) m'"
      by (auto simp: ff_live_def)
    have "ff_live (s\<lparr>kh_mem := m'\<rparr>) = (ff_live s)(p := None)" using rep_inv(2) [OF A(2)] A(3) by simp
    moreover have "\<forall>q k. q \<noteq> p \<longrightarrow> ff_live s q = Some k \<longrightarrow> (\<forall>x \<in> block_at q k. m' x = kh_mem s x)"
      using A(4) unfolding keep_def by (metis fun_upd_other)
    ultimately show ?thesis using A(1) rep_inv(1) [OF A(2)] fr by (intro exI [of _ "s\<lparr>kh_mem := m'\<rparr>"]) simp
  qed
  show "(ff_inv (ff_poke x v s) \<and> ff_frame (ff_poke x v s) = rr) \<and> ff_live (ff_poke x v s) = ff_live s \<and> kh_mem (ff_poke x v s) = (kh_mem s)(x := v)"
    if "ff_live s p = Some n" "x \<in> block_at p n"
  proof -
    have "seg ((kh_mem s)(x := v)) 0 (heap_start s) (ff_blocks s) 0"
      using r that by (intro seg_poke [OF _ w]) (auto simp: ff_rep_def ff_live_def)
    then have "ff_rep (ff_poke x v s) (ff_blocks s)"
      unfolding ff_poke_def using r by (intro rep_upd [OF r]) (auto simp: ff_rep_def)
    from rep_inv [OF this] show ?thesis using fr by (simp add: ff_poke_def ff_live_def)
  qed
  show "heap_first_fit_free 0 s = Some s" by (simp add: heap_first_fit_free_def)
qed

section \<open>Statistics\<close>

lemma stats_seg:
  assumes "seg m p a bs 0" "unat a + tot bs < 2 ^ 32" "0 < unat a"
  shows "\<exists>out'. ff_stats_from m (if bs = [] then 0 else a) out = Some out' \<and> hs_heap_size out' = hs_heap_size out \<and>
    hs_used_bytes out' + hs_free_bytes out' + 16 * hs_free_count out' =
      hs_used_bytes out + hs_free_bytes out + 16 * hs_free_count out + of_nat (tot bs) \<and>
    hs_alloc_count out' = hs_alloc_count out + of_nat (length (filter (\<lambda>(z, f). \<not> f) bs)) \<and>
    hs_free_count out' = hs_free_count out + of_nat (length (filter snd bs))"
  using assms
proof (induction p a bs arbitrary: out rule: lastb.induct)
  case (1 p a)
  then show ?case by (subst ff_stats_from.simps) simp
next
  case (2 p a z f bs)
  note u = cons_unat [OF 2(3)]
  have a0: "a \<noteq> 0" using 2(4) by auto
  define o2 where "o2 = (if f then out\<lparr>hs_free_bytes := hs_free_bytes out + z, hs_free_count := hs_free_count out + 1\<rparr>
    else out\<lparr>hs_used_bytes := hs_used_bytes out + (z + HEADER_SIZE), hs_alloc_count := hs_alloc_count out + 1\<rparr>)"
  have run: "ff_stats_from m a out = ff_stats_from m (if bs = [] then 0 else a + 16 + z) o2"
    using 2(2) a0 by (subst ff_stats_from.simps) (auto simp: o2_def)
  have "seg m a (a + 16 + z) bs 0" "0 < unat (a + 16 + z)" using 2(2) u by simp_all
  from 2(1) [OF this(1) u(3) this(2), of o2] obtain o' where E: "ff_stats_from m a out = Some o'"
    "hs_heap_size o' = hs_heap_size o2"
    "hs_used_bytes o' + hs_free_bytes o' + 16 * hs_free_count o' =
      hs_used_bytes o2 + hs_free_bytes o2 + 16 * hs_free_count o2 + of_nat (tot bs)"
    "hs_alloc_count o' = hs_alloc_count o2 + of_nat (length (filter (\<lambda>(z, f). \<not> f) bs))"
    "hs_free_count o' = hs_free_count o2 + of_nat (length (filter snd bs))" unfolding run [symmetric] by blast
  have "hs_used_bytes o2 + hs_free_bytes o2 + 16 * hs_free_count o2 =
      hs_used_bytes out + hs_free_bytes out + 16 * hs_free_count out + (16 + z)"
    by (simp add: o2_def algebra_simps)
  then have "hs_used_bytes o' + hs_free_bytes o' + 16 * hs_free_count o' =
      hs_used_bytes out + hs_free_bytes out + 16 * hs_free_count out + of_nat (tot ((z, f) # bs))"
    unfolding E(3) by (simp add: add.assoc)
  moreover have "hs_heap_size o' = hs_heap_size out" using E(2) by (simp add: o2_def)
  moreover have "hs_alloc_count o' = hs_alloc_count out + of_nat (length (filter (\<lambda>(z, f). \<not> f) ((z, f) # bs)))"
    unfolding E(4) by (simp add: o2_def add.assoc)
  moreover have "hs_free_count o' = hs_free_count out + of_nat (length (filter snd ((z, f) # bs)))"
    unfolding E(5) by (simp add: o2_def add.assoc)
  ultimately show ?case using E(1) by (intro exI [of _ o']) (simp only: list.distinct if_False simp_thms)
qed

section \<open>Initialisation\<close>

lemma init_rep:
  assumes "0 < unat start" "8 dvd unat start" "8 dvd unat sz" "16 \<le> unat sz" "unat start + unat sz < 2 ^ 32"
  shows "ff_rep (heap_first_fit_init start sz s) [(sz - 16, True)]" "ff_live (heap_first_fit_init start sz s) = Map.empty"
proof -
  have u: "unat (sz - 16) = unat sz - 16" using assms(4) by (subst unat_sub) (simp_all add: word_le_nat_alt)
  moreover have "8 dvd unat sz - 16" using assms(3) by (intro dvd_diff_nat) simp_all
  moreover have "unat (start + sz) = unat start + unat sz" using assms(5) by (intro unat_add_no_wrap) simp
  ultimately show r: "ff_rep (heap_first_fit_init start sz s) [(sz - 16, True)]"
    using assms by (simp add: ff_rep_def heap_first_fit_init_def coal_def)
  show "ff_live (heap_first_fit_init start sz s) = Map.empty" using rep_inv(2) [OF r] by simp
qed

text \<open>The blocks lie in the heap.\<close>

lemma live_in_heap:
  "ff_inv s \<Longrightarrow> ff_live s p = Some n \<Longrightarrow> unat (heap_start s) + 16 \<le> unat p \<and> unat p + n \<le> unat (heap_brk s)"
  using live_bounds [OF rep_wrap [OF inv_rep]] inv_rep [of s] by (fastforce simp: ff_live_def ff_rep_def)

text \<open>A heap of 64 KiB at \<open>KHEAP_START\<close>, as the kernel starts it, over an empty machine.\<close>

definition sample_ff :: "(unit, unit) ff_state" where
  "sample_ff = heap_first_fit_init KHEAP_START 0x10000
     \<lparr>kh_vm = \<lparr>g_kernel_pd = [], g_vmm_ready = False, g_next_vaddr = 0, g_direct_map_end = 0, pd_addr = 0, vm_mem = (\<lambda>_. 0), vm_cpu = [],
        vm_pmm = \<lparr>g_pmm_ops = None, pmm_data = ()\<rparr>, vm_vma = \<lparr>g_vma_ops = None, g_vma_ready = False, vma_data = ()\<rparr>\<rparr>,
      kh_mem = (\<lambda>_. 0), heap_start = 0, heap_brk = 0, heap_end = 0, free_list = 0\<rparr>"

lemma sample_ff_rep: "ff_rep sample_ff [(0xFFF0, True)]" "ff_live sample_ff = Map.empty"
  using init_rep [of KHEAP_START "0x10000"] by (simp_all add: sample_ff_def KHEAP_START_def)

section \<open>Properties\<close>

text \<open>C7. To a client that frees and writes only blocks it holds, the first-fit heap is a store of
  objects: every command returns; a request is answered with the address of a new block that is aligned, large enough,
  apart from the client's other blocks and inside the heap, and refused exactly when no gap between the allocated blocks is long
  enough for it; and the bytes of a block, read at its address, change by the client's own writes only, until it is freed.\<close>

theorem first_fit_refines_object_store:
  assumes "ff_inv s"
  shows "\<exists>s'. serves (heap_run heap_first_fit_alloc heap_first_fit_free ff_poke ff_live cs s) s cs
      (heap_objects kh_mem ff_live) ff_live ff_full s' \<and> ff_inv s' \<and> ff_frame s' = ff_frame s \<and>
    (\<forall>p n. ff_live s' p = Some n \<longrightarrow> unat (heap_start s) + 16 \<le> unat p \<and> unat p + n \<le> unat (heap_brk s))"
proof -
  from ff.run_serves [of s "ff_frame s" cs] assms obtain s' where s':
    "serves (heap_run heap_first_fit_alloc heap_first_fit_free ff_poke ff_live cs s) s cs (heap_objects kh_mem ff_live) ff_live ff_full s'"
    "ff_inv s'" "ff_frame s' = ff_frame s" by blast
  then show ?thesis using live_in_heap [OF s'(2)] by (intro exI [of _ s']) (simp add: ff_frame_def)
qed

text \<open>A run with requests that are answered and one that is too large.\<close>

theorem first_fit_refines_object_store_witness:
  "\<exists>s'. serves (heap_run heap_first_fit_alloc heap_first_fit_free ff_poke ff_live [Alloc 100, Alloc 200, Alloc 0x20000, Free 0] sample_ff)
     sample_ff [Alloc 100, Alloc 200, Alloc 0x20000, Free 0] (heap_objects kh_mem ff_live) ff_live ff_full s' \<and> heap_start s' = 0xE0000000"
proof -
  have "heap_start sample_ff = 0xE0000000" by (simp add: sample_ff_def heap_first_fit_init_def KHEAP_START_def)
  then show ?thesis using first_fit_refines_object_store [OF rep_inv(1) [OF sample_ff_rep(1)], of "[Alloc 100, Alloc 200, Alloc 0x20000, Free 0]"]
    by (auto simp: ff_frame_def)
qed

text \<open>Allocation fails exactly when no free block has the rounded size; otherwise it returns the payload of
  the first such block, and the blocks still tile the heap with no two free ones side by side.\<close>

theorem first_fit_alloc_spec:
  assumes "ff_inv s" "req \<le> 0xFFFFFFF8"
  shows "\<exists>p s'. heap_first_fit_alloc req s = Some (p, s') \<and> ff_inv s' \<and>
    (p = 0 \<longleftrightarrow> (\<forall>(z, f) \<in> set (ff_blocks s). f \<longrightarrow> \<not> ALIGN8 req \<le> z)) \<and>
    (p \<noteq> 0 \<longrightarrow> p = first_fit (ALIGN8 req) (heap_start s) (ff_blocks s) + 16 \<and> unat req \<le> the (ff_live s' p))"
proof -
  note r = inv_rep [OF assms(1)]
  show ?thesis
  proof (cases "first_fit (ALIGN8 req) (heap_start s) (ff_blocks s) = 0")
    case True
    then have "heap_first_fit_alloc req s = Some (0, s)" "\<forall>(z, f) \<in> set (ff_blocks s). f \<longrightarrow> \<not> ALIGN8 req \<le> z"
      using alloc_rep [OF r assms(2)] by simp_all
    then show ?thesis using assms(1) by (intro exI [of _ 0] exI [of _ s]) (simp only: simp_thms)
  next
    case False
    then obtain xs z ys cs k m' where A: "ff_blocks s = xs @ (z, True) # ys" "ALIGN8 req \<le> z"
      "heap_first_fit_alloc req s = Some (after (heap_start s) xs + 16, s\<lparr>kh_mem := m'\<rparr>)" "after (heap_start s) xs + 16 \<noteq> 0"
      "ff_rep (s\<lparr>kh_mem := m'\<rparr>) cs" "unat req \<le> k"
      "live_of (heap_start s) cs = (live_of (heap_start s) (ff_blocks s))(after (heap_start s) xs + 16 \<mapsto> k)"
      "\<forall>(w, f) \<in> set xs. f \<longrightarrow> \<not> ALIGN8 req \<le> w"
      using alloc_rep [OF r assms(2)] by (simp only: if_False) (elim exE conjE, rule that; assumption)
    have "first_fit (ALIGN8 req) (heap_start s) (ff_blocks s) = after (heap_start s) xs"
      unfolding A(1) by (rule first_fit_append [OF A(8,2)])
    moreover have "\<not> (\<forall>(z, f) \<in> set (ff_blocks s). f \<longrightarrow> \<not> ALIGN8 req \<le> z)"
      unfolding A(1) using A(2) by (simp only: set_append list.set ball_Un ball_simps split_conv) blast
    moreover have "ff_live (s\<lparr>kh_mem := m'\<rparr>) (after (heap_start s) xs + 16) = Some k" using rep_inv(2) [OF A(5)] A(7) by simp
    ultimately show ?thesis using A(3,4,6) rep_inv(1) [OF A(5)]
      by (intro exI [of _ "after (heap_start s) xs + 16"] exI [of _ "s\<lparr>kh_mem := m'\<rparr>"]) (simp only: option.sel simp_thms refl)
  qed
qed

theorem first_fit_alloc_spec_witness:
  "\<exists>s'. heap_first_fit_alloc 100 sample_ff = Some (0xE0000010, s')"
proof -
  have b: "ff_blocks sample_ff = [(0xFFF0, True)]" "heap_start sample_ff = 0xE0000000"
    using rep_blocks [OF sample_ff_rep(1)] by (simp_all add: sample_ff_def heap_first_fit_init_def KHEAP_START_def)
  have a: "ALIGN8 100 = 104" by (simp add: ALIGN8_def)
  have "(100 :: u32) \<le> 0xFFFFFFF8" by (simp add: word_le_nat_alt)
  from first_fit_alloc_spec [OF rep_inv(1) [OF sample_ff_rep(1)] this] show ?thesis unfolding a b by auto
qed

text \<open>The statistics add up: the bytes in use (with their headers), the free bytes and a header for every
  free block make the size of the heap; the counts are those of the blocks.\<close>

theorem first_fit_stats_add_up:
  assumes "ff_inv s"
  shows "\<exists>st. heap_first_fit_stats s = Some st \<and>
    hs_used_bytes st + hs_free_bytes st + 16 * hs_free_count st = hs_heap_size st \<and>
    hs_free_count st = of_nat (length (filter snd (ff_blocks s))) \<and>
    hs_alloc_count st = of_nat (length (filter (\<lambda>(z, f). \<not> f) (ff_blocks s)))"
proof -
  note r = inv_rep [OF assms]
  have R: "seg (kh_mem s) 0 (heap_start s) (ff_blocks s) 0" "0 < unat (heap_start s)" "ff_blocks s \<noteq> []" "free_list s = heap_start s"
    "unat (heap_start s) + tot (ff_blocks s) = unat (heap_brk s)" using r by (auto simp: ff_rep_def)
  have "heap_brk s - heap_start s = of_nat (tot (ff_blocks s))"
  proof -
    have "unat (heap_brk s - heap_start s) = tot (ff_blocks s)" using R(5) by (subst unat_sub) (simp_all add: word_le_nat_alt)
    then have "of_nat (unat (heap_brk s - heap_start s)) = (of_nat (tot (ff_blocks s)) :: u32)" by (rule arg_cong)
    then show ?thesis by simp
  qed
  then show ?thesis
    using stats_seg [OF R(1) rep_wrap [OF r] R(2),
        of "\<lparr>hs_heap_size = heap_brk s - heap_start s, hs_used_bytes = 0, hs_free_bytes = 0, hs_alloc_count = 0, hs_free_count = 0\<rparr>"] R(3,4)
    by (auto simp: heap_first_fit_stats_def)
qed

theorem first_fit_stats_add_up_witness:
  "\<exists>st. heap_first_fit_stats sample_ff = Some st \<and> hs_free_count st = 1 \<and> hs_alloc_count st = 0"
  using first_fit_stats_add_up [OF rep_inv(1) [OF sample_ff_rep(1)]] by (auto simp: rep_blocks [OF sample_ff_rep(1)])

text \<open>A request above \<open>0xFFFFFFF8\<close> bytes wraps around in \<open>ALIGN8\<close> and is answered like a request for
  nothing: with a free block, by a pointer to an empty block.\<close>

theorem first_fit_huge_request:
  assumes "0xFFFFFFF8 < req"
  shows "heap_first_fit_alloc req s = heap_first_fit_alloc 0 s"
proof -
  have "unat (req + 7) = unat req + 7 - 2 ^ 32"
    using assms unat_lt_2p32 [of req] by (simp add: unat_word_ariths word_less_nat_alt mod_if)
  then have l: "req + 7 < 2 ^ 3" using unat_lt_2p32 [of req] by (simp add: word_less_nat_alt)
  have "(req + 7) AND mask 3 = req + 7" by (rule less_mask_eq [OF l])
  then have "(req + 7) AND NOT (mask 3) = ((req + 7) AND mask 3) AND NOT (mask 3)" by simp
  also have "\<dots> = 0" by (simp only: and.assoc) simp
  also have "(mask 3 :: u32) = 7" by (simp add: mask_eq_exp_minus_1)
  finally have "ALIGN8 req = ALIGN8 0" by (simp add: ALIGN8_def)
  then show ?thesis by (simp add: heap_first_fit_alloc_def)
qed

theorem first_fit_huge_request_witness:
  "\<exists>s'. heap_first_fit_alloc 0xFFFFFFFF sample_ff = Some (0xE0000010, s')"
proof -
  have b: "ff_blocks sample_ff = [(0xFFF0, True)]" "heap_start sample_ff = 0xE0000000"
    using rep_blocks [OF sample_ff_rep(1)] by (simp_all add: sample_ff_def heap_first_fit_init_def KHEAP_START_def)
  have a: "ALIGN8 0 = 0" by (simp add: ALIGN8_def)
  have "first_fit (ALIGN8 0) (heap_start sample_ff) [(0xFFF0, True)] = 0xE0000000" by (simp add: b a)
  then obtain s' where "heap_first_fit_alloc 0 sample_ff = Some (0xE0000010, s')"
    using alloc_rep [OF sample_ff_rep(1), of 0] by (auto simp: Cons_eq_append_conv b)
  then show ?thesis using first_fit_huge_request [of "0xFFFFFFFF" sample_ff] by simp
qed

end
