(* ===== verification/Heap_Slab.thy ===== *)
theory Heap_Slab
  imports Heap_Ops
begin

text \<open>
  The slab back-end \<open>heap_slab.c\<close>: seven sizes of objects, pages cut into slots, a bitmap of the free
  slots in the header at the start of each page, and two lists of pages for every size.
\<close>

section \<open>Data\<close>

definition NUM_CACHES :: nat where "NUM_CACHES = 7"
definition cache_sizes :: "u32 list" where "cache_sizes = [32, 64, 128, 256, 512, 1024, 2048]"

text \<open>The header: five words and a bitmap of four, rounded up to a multiple of 8.\<close>

definition SLAB_HDR_SIZE :: u32 where "SLAB_HDR_SIZE = (36 + 7) AND NOT 7"

record slab_cache =
  sc_obj_size :: u32
  sc_partial :: u32
  sc_full :: u32

record ('b, 'v) slab_state = "('b, 'v) kheap" +
  caches :: "slab_cache list"
  slab_brk :: u32
  slab_committed :: u32

definition sl_next :: "memory \<Rightarrow> u32 \<Rightarrow> u32" where "sl_next m p = rd32 m p"
definition sl_cache_idx :: "memory \<Rightarrow> u32 \<Rightarrow> u32" where "sl_cache_idx m p = rd32 m (p + 4)"
definition sl_obj_size :: "memory \<Rightarrow> u32 \<Rightarrow> u32" where "sl_obj_size m p = rd32 m (p + 8)"
definition sl_capacity :: "memory \<Rightarrow> u32 \<Rightarrow> u32" where "sl_capacity m p = rd32 m (p + 12)"
definition sl_free_count :: "memory \<Rightarrow> u32 \<Rightarrow> u32" where "sl_free_count m p = rd32 m (p + 16)"
definition sl_bitmap :: "u32 \<Rightarrow> u32" where "sl_bitmap p = p + 20"

definition sl_set_next :: "u32 \<Rightarrow> u32 \<Rightarrow> memory \<Rightarrow> memory" where "sl_set_next p v m = wr32 m p v"
definition sl_set_cache_idx :: "u32 \<Rightarrow> u32 \<Rightarrow> memory \<Rightarrow> memory" where "sl_set_cache_idx p v m = wr32 m (p + 4) v"
definition sl_set_obj_size :: "u32 \<Rightarrow> u32 \<Rightarrow> memory \<Rightarrow> memory" where "sl_set_obj_size p v m = wr32 m (p + 8) v"
definition sl_set_capacity :: "u32 \<Rightarrow> u32 \<Rightarrow> memory \<Rightarrow> memory" where "sl_set_capacity p v m = wr32 m (p + 12) v"
definition sl_set_free_count :: "u32 \<Rightarrow> u32 \<Rightarrow> memory \<Rightarrow> memory" where "sl_set_free_count p v m = wr32 m (p + 16) v"

section \<open>The bitmap of a slab\<close>

lemma loop_measure_32: "b < 32 \<Longrightarrow> 32 - unat (b + 1) < 32 - unat b" for b :: u32
  using loop_measure [of b 32] by simp

text \<open>The inner loop over the bits of one word: \<open>None\<close> when it runs to its end.\<close>

function bitmap_scan_bits :: "memory \<Rightarrow> u32 \<Rightarrow> u32 \<Rightarrow> u32 \<Rightarrow> u32 \<Rightarrow> int option" where
  "bitmap_scan_bits m bm bits w b =
     (if b < 32 then
        (let idx = w * 32 + b in
         if bits \<le> idx then Some (- 1)
         else if rd32 m (bm + 4 * w) AND push_bit (unat b) 1 \<noteq> 0 then Some (sint idx)
         else bitmap_scan_bits m bm bits w (b + 1))
      else None)"
  by pat_completeness auto
termination
  by (relation "measure (\<lambda>(m, bm, bits, w, b). 32 - unat b)") (auto intro: loop_measure_32)

function bitmap_scan_words :: "memory \<Rightarrow> u32 \<Rightarrow> u32 \<Rightarrow> u32 \<Rightarrow> int" where
  "bitmap_scan_words m bm bits w =
     (if w < (bits + 31) div 32 then
        (if rd32 m (bm + 4 * w) = 0 then bitmap_scan_words m bm bits (w + 1)
         else
           (case bitmap_scan_bits m bm bits w 0 of
              Some r \<Rightarrow> r
            | None \<Rightarrow> bitmap_scan_words m bm bits (w + 1)))
      else - 1)"
  by pat_completeness auto
termination
  by (relation "measure (\<lambda>(m, bm, bits, w). unat ((bits + 31) div 32) - unat w)") (auto intro: loop_measure)

declare bitmap_scan_bits.simps [simp del] bitmap_scan_words.simps [simp del]

definition bitmap_find_first_set :: "memory \<Rightarrow> u32 \<Rightarrow> u32 \<Rightarrow> int" where
  "bitmap_find_first_set m bm bits = bitmap_scan_words m bm bits 0"

definition bitmap_clear_bit :: "u32 \<Rightarrow> u32 \<Rightarrow> memory \<Rightarrow> memory" where
  "bitmap_clear_bit bm idx m =
     (let a = bm + 4 * (idx div 32) in wr32 m a (rd32 m a AND NOT (push_bit (unat (idx mod 32)) 1)))"

definition bitmap_set_bit :: "u32 \<Rightarrow> u32 \<Rightarrow> memory \<Rightarrow> memory" where
  "bitmap_set_bit bm idx m =
     (let a = bm + 4 * (idx div 32) in wr32 m a (rd32 m a OR push_bit (unat (idx mod 32)) 1))"

section \<open>Slabs\<close>

definition slab_get_page :: "('b, 'v) slab_state \<Rightarrow> u32 \<times> ('b, 'v) slab_state" where
  "slab_get_page s =
     (if KHEAP_END \<le> slab_brk s then (0, s)
      else
        (let virt = slab_brk s in
         if slab_committed s \<le> slab_brk s then
           (case pmm_alloc_page (vm_pmm (kh_vm s)) of
              (phys, pm) \<Rightarrow>
                (let vm1 = (kh_vm s)\<lparr>vm_pmm := pm\<rparr> in
                 if phys = 0 then (0, s\<lparr>kh_vm := vm1\<rparr>)
                 else
                   (case vmm_map_page virt phys (PTE_PRESENT OR PTE_WRITABLE) vm1 of
                      (ret, vm2) \<Rightarrow>
                        if ret \<noteq> 0 then (0, s\<lparr>kh_vm := vm2\<lparr>vm_pmm := pmm_free_page phys (vm_pmm vm2)\<rparr>\<rparr>)
                        else (virt, s\<lparr>kh_vm := vm2, slab_committed := slab_committed s + VMM_PAGE_SIZE,
                                      slab_brk := slab_brk s + VMM_PAGE_SIZE\<rparr>))))
         else (virt, s\<lparr>slab_brk := slab_brk s + VMM_PAGE_SIZE\<rparr>)))"

definition slab_create :: "nat \<Rightarrow> ('b, 'v) slab_state \<Rightarrow> u32 \<times> ('b, 'v) slab_state" where
  "slab_create cache_idx s =
     (case slab_get_page s of
        (hdr, s1) \<Rightarrow>
          if hdr = 0 then (0, s1)
          else
            (let obj_size = sc_obj_size (caches s1 ! cache_idx);
                 capacity = (VMM_PAGE_SIZE - SLAB_HDR_SIZE) div obj_size;
                 capacity = (if 128 < capacity then 128 else capacity);
                 m1 = sl_set_next hdr 0 (kh_mem s1);
                 m2 = sl_set_cache_idx hdr (of_nat cache_idx) m1;
                 m3 = sl_set_obj_size hdr obj_size m2;
                 m4 = sl_set_capacity hdr capacity m3;
                 m5 = sl_set_free_count hdr capacity m4;
                 m6 = wr32 (wr32 (wr32 (wr32 m5 (sl_bitmap hdr) 0) (sl_bitmap hdr + 4) 0) (sl_bitmap hdr + 8) 0) (sl_bitmap hdr + 12) 0;
                 m7 = fold (\<lambda>i. bitmap_set_bit (sl_bitmap hdr) (of_nat i)) [0..<unat capacity] m6
             in (hdr, s1\<lparr>kh_mem := m7\<rparr>)))"

fun find_cache_from :: "u32 \<Rightarrow> int \<Rightarrow> u32 list \<Rightarrow> int" where
  "find_cache_from sz i [] = - 1"
| "find_cache_from sz i (c # cs) = (if sz \<le> c then i else find_cache_from sz (i + 1) cs)"

definition find_cache :: "u32 \<Rightarrow> int" where
  "find_cache sz = find_cache_from sz 0 cache_sizes"

section \<open>Operations\<close>

definition heap_slab_init :: "u32 \<Rightarrow> u32 \<Rightarrow> ('b, 'v) slab_state \<Rightarrow> ('b, 'v) slab_state" where
  "heap_slab_init start sz s =
     s\<lparr>slab_brk := start, slab_committed := start + sz,
       caches := map (\<lambda>c. \<lparr>sc_obj_size = c, sc_partial = 0, sc_full = 0\<rparr>) cache_sizes\<rparr>"

definition set_cache :: "nat \<Rightarrow> (slab_cache \<Rightarrow> slab_cache) \<Rightarrow> ('b, 'v) slab_state \<Rightarrow> ('b, 'v) slab_state" where
  "set_cache ci f s = s\<lparr>caches := (caches s)[ci := f (caches s ! ci)]\<rparr>"

text \<open>The part of the allocation that takes the first free slot of the first slab on the list.\<close>

definition slab_take :: "nat \<Rightarrow> ('b, 'v) slab_state \<Rightarrow> u32 \<times> ('b, 'v) slab_state" where
  "slab_take ci s =
     (let slab = sc_partial (caches s ! ci);
          m = kh_mem s;
          slot = bitmap_find_first_set m (sl_bitmap slab) (sl_capacity m slab)
      in if slot < 0 then (0, s)
         else
           (let m1 = bitmap_clear_bit (sl_bitmap slab) (word_of_int slot) m;
                m2 = sl_set_free_count slab (sl_free_count m1 slab - 1) m1;
                obj = slab + SLAB_HDR_SIZE + word_of_int slot * sl_obj_size m2 slab;
                s2 = s\<lparr>kh_mem := m2\<rparr>
            in if sl_free_count m2 slab = 0 then
                 (let s3 = set_cache ci (\<lambda>c. c\<lparr>sc_partial := sl_next m2 slab\<rparr>) s2;
                      s4 = s3\<lparr>kh_mem := sl_set_next slab (sc_full (caches s3 ! ci)) (kh_mem s3)\<rparr>
                  in (obj, set_cache ci (\<lambda>c. c\<lparr>sc_full := slab\<rparr>) s4))
               else (obj, s2)))"

definition heap_slab_alloc :: "u32 \<Rightarrow> ('b, 'v) slab_state \<Rightarrow> (u32 \<times> ('b, 'v) slab_state) option" where
  "heap_slab_alloc sz s =
     (if sz = 0 then Some (0, s)
      else if find_cache sz < 0 then Some (0, s)
      else
        (let ci = nat (find_cache sz);
             (ok, s1) = (if sc_partial (caches s ! ci) = 0 then
                 (case slab_create ci s of
                    (new_slab, s1) \<Rightarrow>
                      if new_slab = 0 then (False, s1)
                      else (True, set_cache ci (\<lambda>c. c\<lparr>sc_partial := new_slab\<rparr>) s1))
               else (True, s))
         in Some (if ok then slab_take ci s1 else (0, s1))))"

text \<open>The walk along the full list up to the link that holds \<open>slab\<close> or null: the page whose \<open>next\<close> field
  that link is (\<open>None\<close> for the head of the list), and what the link holds.\<close>

partial_function (option) slab_find_link :: "memory \<Rightarrow> u32 \<Rightarrow> u32 option \<Rightarrow> u32 \<Rightarrow> (u32 option \<times> u32) option" where
  "slab_find_link m slab pp cur =
     (if cur \<noteq> 0 \<and> cur \<noteq> slab then slab_find_link m slab (Some cur) (sl_next m cur) else Some (pp, cur))"

text \<open>\<open>None\<close>: the header says something that makes the run undefined (a size of 0, an index outside
  the table), or the walk does not return.\<close>

definition heap_slab_free :: "u32 \<Rightarrow> ('b, 'v) slab_state \<Rightarrow> ('b, 'v) slab_state option" where
  "heap_slab_free ptr s =
     (if ptr = 0 then Some s
      else
        (let m = kh_mem s;
             slab = ptr AND NOT (VMM_PAGE_SIZE - 1);
             offset = (ptr - slab) - SLAB_HDR_SIZE
         in if sl_obj_size m slab = 0 then None
            else
              (let slot = offset div sl_obj_size m slab in
               if sl_capacity m slab \<le> slot then Some s
               else
                 (let was_full = (sl_free_count m slab = 0);
                      m1 = bitmap_set_bit (sl_bitmap slab) slot m;
                      m2 = sl_set_free_count slab (sl_free_count m1 slab + 1) m1;
                      s2 = s\<lparr>kh_mem := m2\<rparr>
                  in if \<not> was_full then Some s2
                     else
                       (let ci = unat (sl_cache_idx m2 slab) in
                        if NUM_CACHES \<le> ci then None
                        else
                          (case slab_find_link m2 slab None (sc_full (caches s2 ! ci)) of
                             None \<Rightarrow> None
                           | Some (pp, cur) \<Rightarrow>
                               (let s3 = (if cur = 0 then s2
                                          else (case pp of
                                             None \<Rightarrow> set_cache ci (\<lambda>c. c\<lparr>sc_full := sl_next m2 slab\<rparr>) s2
                                           | Some p \<Rightarrow> s2\<lparr>kh_mem := sl_set_next p (sl_next m2 slab) m2\<rparr>));
                                    s4 = s3\<lparr>kh_mem := sl_set_next slab (sc_partial (caches s3 ! ci)) (kh_mem s3)\<rparr>
                                in Some (set_cache ci (\<lambda>c. c\<lparr>sc_partial := slab\<rparr>) s4))))))))"

partial_function (option) slab_stats_partial :: "memory \<Rightarrow> u32 \<Rightarrow> heap_stats \<Rightarrow> heap_stats option" where
  "slab_stats_partial m p out =
     (if p = 0 then Some out
      else
        (let used = sl_capacity m p - sl_free_count m p
         in slab_stats_partial m (sl_next m p)
              (out\<lparr>hs_alloc_count := hs_alloc_count out + used,
                   hs_used_bytes := hs_used_bytes out + used * sl_obj_size m p,
                   hs_free_count := hs_free_count out + sl_free_count m p,
                   hs_free_bytes := hs_free_bytes out + sl_free_count m p * sl_obj_size m p\<rparr>)))"

partial_function (option) slab_stats_full :: "memory \<Rightarrow> u32 \<Rightarrow> heap_stats \<Rightarrow> heap_stats option" where
  "slab_stats_full m p out =
     (if p = 0 then Some out
      else
        slab_stats_full m (sl_next m p)
          (out\<lparr>hs_alloc_count := hs_alloc_count out + sl_capacity m p,
               hs_used_bytes := hs_used_bytes out + sl_capacity m p * sl_obj_size m p\<rparr>))"

fun slab_stats_caches :: "memory \<Rightarrow> slab_cache list \<Rightarrow> heap_stats \<Rightarrow> heap_stats option" where
  "slab_stats_caches m [] out = Some out"
| "slab_stats_caches m (c # cs) out =
     Option.bind (slab_stats_partial m (sc_partial c) out)
       (\<lambda>out. Option.bind (slab_stats_full m (sc_full c) out) (slab_stats_caches m cs))"

definition heap_slab_stats :: "('b, 'v) slab_state \<Rightarrow> heap_stats option" where
  "heap_slab_stats s =
     slab_stats_caches (kh_mem s) (caches s)
       \<lparr>hs_heap_size = (if KHEAP_START < slab_brk s then slab_brk s - KHEAP_START else 0), hs_used_bytes = 0,
        hs_free_bytes = 0, hs_alloc_count = 0, hs_free_count = 0\<rparr>"

definition heap_slab_ops :: "('b, 'v) slab_state heap_ops" where
  "heap_slab_ops = \<lparr>ho_name = ''slab'', ho_init = heap_slab_init, ho_alloc = heap_slab_alloc,
     ho_free = heap_slab_free, ho_stats = heap_slab_stats\<rparr>"

declare slab_find_link.simps [code] slab_stats_partial.simps [code] slab_stats_full.simps [code]

end
