(* ===== verification/Heap_Slab_Spec.thy ===== *)
theory Heap_Slab_Spec
  imports Heap_Slab
begin

text \<open>
  The slab back-end on the memory of the heap: the words of a page header, the bitmap as a set of slots, the two page
  lists of every size, and what allocation and freeing do to the live objects. The contract is in \<open>Heap_Slab_Space\<close>.
\<close>

section \<open>The words of a page\<close>

definition pw :: "memory \<Rightarrow> u32 \<Rightarrow> nat \<Rightarrow> u32" where "pw m P k = rd32 m (P + of_nat (4 * k))"
definition pset :: "u32 \<Rightarrow> nat \<Rightarrow> u32 \<Rightarrow> memory \<Rightarrow> memory" where "pset P k v m = wr32 m (P + of_nat (4 * k)) v"

lemma header_words:
  "sl_next m P = pw m P 0" "sl_cache_idx m P = pw m P 1" "sl_obj_size m P = pw m P 2"
  "sl_capacity m P = pw m P 3" "sl_free_count m P = pw m P 4"
  "sl_set_next P v m = pset P 0 v m" "sl_set_cache_idx P v m = pset P 1 v m" "sl_set_obj_size P v m = pset P 2 v m"
  "sl_set_capacity P v m = pset P 3 v m" "sl_set_free_count P v m = pset P 4 v m"
  by (simp_all add: pw_def pset_def sl_next_def sl_cache_idx_def sl_obj_size_def sl_capacity_def sl_free_count_def
      sl_set_next_def sl_set_cache_idx_def sl_set_obj_size_def sl_set_capacity_def sl_set_free_count_def)

lemma bitmap_words:
  "rd32 m (sl_bitmap P + 4 * w) = pw m P (5 + unat w)" "wr32 m (sl_bitmap P + 4 * w) v = pset P (5 + unat w) v m"
  by (simp_all add: pw_def pset_def sl_bitmap_def algebra_simps)

text \<open>A page lies below the end of the address space.\<close>

lemma page_room: "page_aligned P \<Longrightarrow> unat P + 4096 \<le> 2 ^ 32" for P :: u32
proof -
  assume "page_aligned P"
  then obtain q where q: "unat P = 4096 * q" by (auto simp: page_aligned_iff)
  moreover have "unat P < 2 ^ 32" using unat_lt_2p32 [of P] by simp
  ultimately have "q < 1048576" by simp
  then show ?thesis using q by simp
qed

lemma unat_page_off:
  fixes P :: u32
  assumes "page_aligned P" "n < 4096"
  shows "unat (P + of_nat n) = unat P + n"
proof -
  have "unat (of_nat n :: u32) = n" using assms(2) by (simp add: unat_of_nat)
  then show ?thesis using page_room [OF assms(1)] assms(2) by (subst unat_add_no_wrap) simp_all
qed

lemma pages_apart:
  fixes P Q :: u32
  assumes "page_aligned P" "page_aligned Q" "P \<noteq> Q"
  shows "unat P + 4096 \<le> unat Q \<or> unat Q + 4096 \<le> unat P"
proof -
  obtain p q where "unat P = 4096 * p" "unat Q = 4096 * q"
    using assms(1,2) unfolding page_aligned_iff by (metis dvdE)
  moreover have "unat P \<noteq> unat Q" using assms(3) by (simp add: word_unat_eq_iff)
  ultimately show ?thesis by (cases "p < q") auto
qed

lemma pw_pset:
  assumes P: "page_aligned P" "k < 9" and Q: "page_aligned Q" "j < 9"
  shows "pw (pset P k v m) Q j = (if P = Q \<and> k = j then v else pw m Q j)"
proof (cases "P = Q \<and> k = j")
  case True
  then show ?thesis by (simp add: pw_def pset_def)
next
  case False
  have u: "unat (P + of_nat (4 * k)) = unat P + 4 * k" "unat (Q + of_nat (4 * j)) = unat Q + 4 * j"
    using P Q by (simp_all add: unat_page_off del: of_nat_mult)
  have "rd32 (wr32 m (P + of_nat (4 * k)) v) (Q + of_nat (4 * j)) = rd32 m (Q + of_nat (4 * j))"
  proof (rule rd32_wr32_far)
    show "unat (P + of_nat (4 * k)) + 4 \<le> 2 ^ 32" "unat (Q + of_nat (4 * j)) + 4 \<le> 2 ^ 32"
      using u P Q page_room [OF P(1)] page_room [OF Q(1)] by simp_all
    show "unat (P + of_nat (4 * k)) + 4 \<le> unat (Q + of_nat (4 * j)) \<or>
        unat (Q + of_nat (4 * j)) + 4 \<le> unat (P + of_nat (4 * k))"
      using False u P Q pages_apart [OF P(1) Q(1)] by (cases "P = Q"; cases "k < j") auto
  qed
  then show ?thesis using False by (auto simp: pw_def pset_def)
qed

lemma pset_out:
  assumes "page_aligned P" "k < 9" "unat x < unat P \<or> unat P + 40 \<le> unat x"
  shows "pset P k v m x = m x"
proof -
  have u: "unat (P + of_nat (4 * k)) = unat P + 4 * k"
    using assms(1,2) by (simp add: unat_page_off del: of_nat_mult)
  show ?thesis
    unfolding pset_def using assms u page_room [OF assms(1)] by (intro wr32_out) auto
qed

section \<open>The bitmap as a set of slots\<close>

definition slab_bit :: "memory \<Rightarrow> u32 \<Rightarrow> nat \<Rightarrow> bool" where
  "slab_bit m P i \<longleftrightarrow> bit (pw m P (5 + i div 32)) (i mod 32)"

lemma slab_bit_change:
  assumes "page_aligned P" "unat idx < 128" "i < 128"
  shows "slab_bit (bitmap_clear_bit (sl_bitmap P) idx m) P i \<longleftrightarrow> slab_bit m P i \<and> i \<noteq> unat idx"
    "slab_bit (bitmap_set_bit (sl_bitmap P) idx m) P i \<longleftrightarrow> slab_bit m P i \<or> i = unat idx"
proof -
  have d: "unat (idx div 32) = unat idx div 32" "unat (idx mod 32) = unat idx mod 32"
    by (simp_all add: unat_div unat_mod)
  have s: "5 + unat idx div 32 < 9" "5 + i div 32 < 9" using assms by auto
  have e: "i = unat idx \<longleftrightarrow> i div 32 = unat idx div 32 \<and> i mod 32 = unat idx mod 32"
    by (metis mult_div_mod_eq)
  show "slab_bit (bitmap_clear_bit (sl_bitmap P) idx m) P i \<longleftrightarrow> slab_bit m P i \<and> i \<noteq> unat idx"
    using assms(1) s e
    by (auto simp: slab_bit_def bitmap_clear_bit_def Let_def bitmap_words d pw_pset bit_simps)
  show "slab_bit (bitmap_set_bit (sl_bitmap P) idx m) P i \<longleftrightarrow> slab_bit m P i \<or> i = unat idx"
    using assms(1) s e
    by (auto simp: slab_bit_def bitmap_set_bit_def Let_def bitmap_words d pw_pset bit_simps)
qed

lemma bitmap_change_words:
  assumes "unat idx < 128"
  obtains v where "bitmap_clear_bit (sl_bitmap P) idx m = pset P (5 + unat idx div 32) v m"
proof -
  have "unat (idx div 32) = unat idx div 32" by (simp add: unat_div)
  then show thesis using that by (simp add: bitmap_clear_bit_def Let_def bitmap_words)
qed

lemma bitmap_set_words:
  assumes "unat idx < 128"
  obtains v where "bitmap_set_bit (sl_bitmap P) idx m = pset P (5 + unat idx div 32) v m"
proof -
  have "unat (idx div 32) = unat idx div 32" by (simp add: unat_div)
  then show thesis using that by (simp add: bitmap_set_bit_def Let_def bitmap_words)
qed

text \<open>The search for the first set bit.\<close>

definition first_set :: "(nat \<Rightarrow> bool) \<Rightarrow> nat \<Rightarrow> nat \<Rightarrow> int \<Rightarrow> bool" where
  "first_set B lo hi r \<longleftrightarrow> (\<exists>i. lo \<le> i \<and> i < hi \<and> B i \<and> r = int i \<and> (\<forall>j. lo \<le> j \<longrightarrow> j < i \<longrightarrow> \<not> B j)) \<or>
     r = - 1 \<and> (\<forall>j. lo \<le> j \<longrightarrow> j < hi \<longrightarrow> \<not> B j)"

lemma scan_word:
  assumes "unat w < 4" "b < 32"
  shows "rd32 m (sl_bitmap P + 4 * w) AND push_bit (unat b) 1 \<noteq> 0 \<longleftrightarrow> slab_bit m P (32 * unat w + unat b)"
    "unat (w * 32 + b) = 32 * unat w + unat b"
proof -
  have b: "unat b < 32" using assms(2) by (simp add: word_less_nat_alt)
  have "unat (w * 32) = unat w * 32" using assms(1) by (subst unat_mult_lem [THEN iffD1]) simp_all
  then show "unat (w * 32 + b) = 32 * unat w + unat b"
    using assms(1) b by (subst unat_add_no_wrap) simp_all
  show "rd32 m (sl_bitmap P + 4 * w) AND push_bit (unat b) 1 \<noteq> 0 \<longleftrightarrow> slab_bit m P (32 * unat w + unat b)"
    unfolding bitmap_words slab_bit_def bit_iff_and_push_bit_not_eq_0 using b by simp
qed

lemma sint_small: "unat w < 2 ^ 31 \<Longrightarrow> sint w = int (unat w)" for w :: u32
proof -
  assume "unat w < 2 ^ 31"
  then have "int (unat w) < int (2 ^ 31)" by (simp only: of_nat_less_iff)
  then have "uint w < 2 ^ 31" by simp
  moreover have "0 \<le> uint w" by simp
  ultimately have "signed_take_bit 31 (uint w) = uint w"
    by (intro signed_take_bit_int_eq_self) linarith+
  then have "sint w = uint w" by (simp add: sint_uint)
  then show ?thesis by simp
qed

lemma none_step: "\<forall>j. Suc lo \<le> j \<longrightarrow> j < hi \<longrightarrow> \<not> B j \<Longrightarrow> \<not> B lo \<Longrightarrow> \<forall>j. lo \<le> j \<longrightarrow> j < hi \<longrightarrow> \<not> B j" for lo :: nat
  by (metis Suc_le_eq le_neq_implies_less)

lemma first_set_step: "first_set B (Suc lo) hi r \<Longrightarrow> \<not> B lo \<Longrightarrow> first_set B lo hi r"
  unfolding first_set_def by (metis Suc_le_eq less_or_eq_imp_le le_neq_implies_less)

lemma bitmap_scan_bits:
  assumes "unat w < 4" "b \<le> 32" "unat bits \<le> 128" "32 * unat w + unat b \<le> unat bits"
  shows "case bitmap_scan_bits m (sl_bitmap P) bits w b of
      None \<Rightarrow> 32 * unat w + 32 \<le> unat bits \<and> (\<forall>j. 32 * unat w + unat b \<le> j \<longrightarrow> j < 32 * unat w + 32 \<longrightarrow> \<not> slab_bit m P j)
    | Some r \<Rightarrow> first_set (slab_bit m P) (32 * unat w + unat b) (unat bits) r"
  using assms(2,4)
proof (induction "32 - unat b" arbitrary: b)
  case 0
  then have b: "unat b = 32" by (simp add: word_le_nat_alt)
  then have "bitmap_scan_bits m (sl_bitmap P) bits w b = None"
    by (subst bitmap_scan_bits.simps) (simp add: word_less_nat_alt)
  then show ?case using 0(3) b by simp
next
  case (Suc n)
  then have b: "b < 32" by (simp add: word_less_nat_alt)
  then have b1: "unat (b + 1) = Suc (unat b)" "b + 1 \<le> 32" "unat b < 32"
    using unat_inc [OF b] by (simp_all add: word_less_nat_alt word_le_nat_alt)
  note sw = scan_word [OF assms(1) b]
  have le: "bits \<le> w * 32 + b \<longleftrightarrow> unat bits \<le> 32 * unat w + unat b" by (simp add: word_le_nat_alt sw(2))
  consider "bits \<le> w * 32 + b" | "\<not> bits \<le> w * 32 + b" "slab_bit m P (32 * unat w + unat b)"
    | "\<not> bits \<le> w * 32 + b" "\<not> slab_bit m P (32 * unat w + unat b)" by blast
  then show ?case
  proof cases
    case 1
    then have "bitmap_scan_bits m (sl_bitmap P) bits w b = Some (- 1)"
      using b by (subst bitmap_scan_bits.simps) (simp add: Let_def)
    then show ?thesis using 1 le by (auto simp: first_set_def)
  next
    case 2
    have "sint (w * 32 + b) = int (32 * unat w + unat b)"
      using assms(1) b1(3) by (subst sint_small) (simp_all add: sw(2))
    then have "bitmap_scan_bits m (sl_bitmap P) bits w b = Some (int (32 * unat w + unat b))"
      using b 2 sw(1) by (subst bitmap_scan_bits.simps) (simp add: Let_def del: push_bit_of_1)
    then show ?thesis using 2 le by (auto simp: first_set_def)
  next
    case 3
    then have e: "bitmap_scan_bits m (sl_bitmap P) bits w b = bitmap_scan_bits m (sl_bitmap P) bits w (b + 1)"
      using b sw(1) by (subst bitmap_scan_bits.simps) (simp add: Let_def del: push_bit_of_1)
    have "n = 32 - unat (b + 1)" "32 * unat w + unat (b + 1) \<le> unat bits"
      using Suc.hyps(2) b1 3(1) le by simp_all
    note IH = Suc.hyps(1) [OF this(1) b1(2) this(2), unfolded b1(1) add_Suc_right]
    show ?thesis
    proof (cases "bitmap_scan_bits m (sl_bitmap P) bits w (b + 1)")
      case None
      then show ?thesis using IH none_step [of "32 * unat w + unat b" "32 * unat w + 32" "slab_bit m P"] 3(2) unfolding e by simp
    next
      case (Some r)
      then show ?thesis using IH first_set_step [of "slab_bit m P" "32 * unat w + unat b"] 3(2) unfolding e by simp
    qed
  qed
qed

lemma first_set_skip:
  "first_set B mid hi r \<Longrightarrow> lo \<le> mid \<Longrightarrow> \<forall>j. lo \<le> j \<longrightarrow> j < mid \<longrightarrow> \<not> B j \<Longrightarrow> first_set B lo hi r"
proof -
  assume a: "first_set B mid hi r" "lo \<le> mid" "\<forall>j. lo \<le> j \<longrightarrow> j < mid \<longrightarrow> \<not> B j"
  have ext: "\<not> B j" if "lo \<le> j" "j < n" "\<forall>j. mid \<le> j \<longrightarrow> j < n \<longrightarrow> \<not> B j" for j n
    using that a(3) by (cases "j < mid") auto
  from a(1) show ?thesis
    unfolding first_set_def
  proof (elim disjE exE conjE)
    fix i assume i: "mid \<le> i" "i < hi" "B i" "r = int i" "\<forall>j. mid \<le> j \<longrightarrow> j < i \<longrightarrow> \<not> B j"
    then show "(\<exists>i. lo \<le> i \<and> i < hi \<and> B i \<and> r = int i \<and> (\<forall>j. lo \<le> j \<longrightarrow> j < i \<longrightarrow> \<not> B j)) \<or>
        r = - 1 \<and> (\<forall>j. lo \<le> j \<longrightarrow> j < hi \<longrightarrow> \<not> B j)"
      using a(2) ext [of _ i] by (intro disjI1 exI [of _ i]) simp
  next
    assume "r = - 1" "\<forall>j. mid \<le> j \<longrightarrow> j < hi \<longrightarrow> \<not> B j"
    then show "(\<exists>i. lo \<le> i \<and> i < hi \<and> B i \<and> r = int i \<and> (\<forall>j. lo \<le> j \<longrightarrow> j < i \<longrightarrow> \<not> B j)) \<or>
        r = - 1 \<and> (\<forall>j. lo \<le> j \<longrightarrow> j < hi \<longrightarrow> \<not> B j)"
      using ext [of _ hi] by simp
  qed
qed

lemma bitmap_scan_words:
  assumes "unat bits \<le> 128"
  shows "first_set (slab_bit m P) (32 * unat w) (unat bits) (bitmap_scan_words m (sl_bitmap P) bits w)"
proof (induction "5 - unat w" arbitrary: w rule: less_induct)
  case less
  have n: "unat ((bits + 31) div 32) = (unat bits + 31) div 32"
    using assms by (simp add: unat_div unat_add_no_wrap)
  show ?case
  proof (cases "w < (bits + 31) div 32")
    case False
    then have "unat bits \<le> 32 * unat w" using n by (simp add: word_less_nat_alt)
    moreover have "bitmap_scan_words m (sl_bitmap P) bits w = - 1"
      using False by (subst bitmap_scan_words.simps) simp
    ultimately show ?thesis by (simp add: first_set_def)
  next
    case True
    then have w: "unat w < (unat bits + 31) div 32" using n by (simp add: word_less_nat_alt)
    then have w4: "unat w < 4" "32 * unat w \<le> unat bits" using assms by simp_all
    have w1: "unat (w + 1) = Suc (unat w)" using unat_inc [OF True] by simp
    note IH = less [of "w + 1", unfolded w1]
    have next_word: "first_set (slab_bit m P) (32 * unat w) (unat bits) (bitmap_scan_words m (sl_bitmap P) bits (w + 1))"
      if "\<forall>j. 32 * unat w \<le> j \<longrightarrow> j < 32 * unat w + 32 \<longrightarrow> \<not> slab_bit m P j"
    proof -
      have "first_set (slab_bit m P) (32 * Suc (unat w)) (unat bits) (bitmap_scan_words m (sl_bitmap P) bits (w + 1))"
        using IH w4 by simp
      then show ?thesis
        by (rule first_set_skip) (use that in \<open>simp_all add: add.commute\<close>)
    qed
    show ?thesis
    proof (cases "rd32 m (sl_bitmap P + 4 * w) = 0")
      case zero: True
      have "\<not> slab_bit m P j" if "32 * unat w \<le> j" "j < 32 * unat w + 32" for j
      proof -
        have "j div 32 = unat w" by (rule div_nat_eqI) (use that in simp_all)
        then show ?thesis using zero by (simp add: slab_bit_def bitmap_words)
      qed
      then show ?thesis
        using next_word zero True by (subst bitmap_scan_words.simps) simp
    next
      case False
      note sb = bitmap_scan_bits [OF w4(1) _ assms, of 0 m P]
      show ?thesis
      proof (cases "bitmap_scan_bits m (sl_bitmap P) bits w 0")
        case None
        then show ?thesis
          using sb next_word False True w4(2) by (subst bitmap_scan_words.simps) simp
      next
        case (Some r)
        then show ?thesis
          using sb False True w4(2) by (subst bitmap_scan_words.simps) simp
      qed
    qed
  qed
qed

lemma bitmap_find_first_set:
  "unat bits \<le> 128 \<Longrightarrow> first_set (slab_bit m P) 0 (unat bits) (bitmap_find_first_set m (sl_bitmap P) bits)"
  using bitmap_scan_words [of bits m P 0] by (simp add: bitmap_find_first_set_def)

section \<open>Slabs, their lists and the live objects\<close>

definition slab_pages :: "('b, 'v) slab_state \<Rightarrow> u32 set" where
  "slab_pages s = {P. page_aligned P \<and> KHEAP_START \<le> P \<and> P < slab_brk s}"

definition slots :: "memory \<Rightarrow> u32 \<Rightarrow> nat set" where
  "slots m P = {i. i < unat (pw m P 3) \<and> slab_bit m P i}"

definition slab_ok :: "memory \<Rightarrow> u32 \<Rightarrow> bool" where
  "slab_ok m P \<longleftrightarrow> unat (pw m P 1) < NUM_CACHES \<and> pw m P 2 = cache_sizes ! unat (pw m P 1) \<and>
     pw m P 3 = (VMM_PAGE_SIZE - SLAB_HDR_SIZE) div pw m P 2 \<and> unat (pw m P 4) = card (slots m P)"

fun slist :: "memory \<Rightarrow> u32 list \<Rightarrow> u32 \<Rightarrow> bool" where
  "slist m [] h \<longleftrightarrow> h = 0"
| "slist m (p # ps) h \<longleftrightarrow> h = p \<and> slist m ps (pw m p 0)"

definition cache_ok :: "('b, 'v) slab_state \<Rightarrow> nat \<Rightarrow> u32 list \<Rightarrow> u32 list \<Rightarrow> bool" where
  "cache_ok s ci ps fs \<longleftrightarrow>
     slist (kh_mem s) ps (sc_partial (caches s ! ci)) \<and> slist (kh_mem s) fs (sc_full (caches s ! ci)) \<and>
     distinct ps \<and> distinct fs \<and>
     set ps = {P \<in> slab_pages s. unat (pw (kh_mem s) P 1) = ci \<and> pw (kh_mem s) P 4 \<noteq> 0} \<and>
     set fs = {P \<in> slab_pages s. unat (pw (kh_mem s) P 1) = ci \<and> pw (kh_mem s) P 4 = 0}"

definition slab_inv :: "('b, 'v) slab_state \<Rightarrow> bool" where
  "slab_inv s \<longleftrightarrow> page_aligned (slab_brk s) \<and> KHEAP_START \<le> slab_brk s \<and> slab_brk s \<le> KHEAP_END \<and>
     map sc_obj_size (caches s) = cache_sizes \<and> (\<forall>P \<in> slab_pages s. slab_ok (kh_mem s) P) \<and>
     (\<forall>ci < NUM_CACHES. \<exists>ps fs. cache_ok s ci ps fs)"

text \<open>Objects: slot \<open>i\<close> of page \<open>P\<close>.\<close>

definition obj_at :: "memory \<Rightarrow> u32 \<Rightarrow> nat \<Rightarrow> u32" where
  "obj_at m P i = P + of_nat (40 + i * unat (pw m P 2))"

definition slab_live :: "('b, 'v) slab_state \<Rightarrow> u32 \<Rightarrow> nat option" where
  "slab_live s p =
     (let P = align_down_u32 p 4096; m = kh_mem s; sz = unat (pw m P 2); off = unat p - unat P - 40 in
      if KHEAP_START \<le> P \<and> P < slab_brk s \<and> unat P + 40 \<le> unat p \<and> sz dvd off \<and>
         off div sz < unat (pw m P 3) \<and> \<not> slab_bit m P (off div sz)
      then Some sz else None)"

text \<open>The geometry of a slab: where the slots lie in the page.\<close>

lemma hdr40 [simp]: "SLAB_HDR_SIZE = 40"
  by (simp add: SLAB_HDR_SIZE_def)

lemma slab_geometry:
  assumes "slab_ok m P"
  shows "32 \<le> unat (pw m P 2)" "8 dvd unat (pw m P 2)" "0 < unat (pw m P 3)" "unat (pw m P 3) \<le> 126"
    "40 + unat (pw m P 3) * unat (pw m P 2) \<le> 4096"
proof -
  define ci where "ci = unat (pw m P 1)"
  have "ci = 0 \<or> ci = 1 \<or> ci = 2 \<or> ci = 3 \<or> ci = 4 \<or> ci = 5 \<or> ci = 6"
    using assms by (auto simp: slab_ok_def NUM_CACHES_def ci_def)
  moreover have "pw m P 2 = cache_sizes ! ci" "pw m P 3 = (VMM_PAGE_SIZE - SLAB_HDR_SIZE) div pw m P 2"
    using assms by (simp_all add: slab_ok_def ci_def)
  ultimately show "32 \<le> unat (pw m P 2)" "8 dvd unat (pw m P 2)" "0 < unat (pw m P 3)" "unat (pw m P 3) \<le> 126"
    "40 + unat (pw m P 3) * unat (pw m P 2) \<le> 4096"
    by (elim disjE; simp add: cache_sizes_def VMM_PAGE_SIZE_def)+
qed

lemma slot_end:
  assumes "slab_ok m P" "i < unat (pw m P 3)"
  shows "40 + i * unat (pw m P 2) + unat (pw m P 2) \<le> 4096"
proof -
  have "Suc i * unat (pw m P 2) \<le> unat (pw m P 3) * unat (pw m P 2)" using assms(2) by (intro mult_le_mono1) simp
  then show ?thesis using slab_geometry(5) [OF assms(1)] by simp
qed

lemma unat_obj_at:
  assumes "page_aligned P" "slab_ok m P" "i < unat (pw m P 3)"
  shows "unat (obj_at m P i) = unat P + 40 + i * unat (pw m P 2)"
proof -
  have "40 + i * unat (pw m P 2) < 4096"
    using slot_end [OF assms(2,3)] slab_geometry(1) [OF assms(2)] by simp
  then show ?thesis unfolding obj_at_def by (subst unat_page_off [OF assms(1)]) simp_all
qed

lemma align_down_obj:
  assumes "page_aligned P" "unat p = unat P + n" "n < 4096"
  shows "align_down_u32 p 4096 = P"
proof -
  obtain q where "unat P = 4096 * q" using assms(1) unfolding page_aligned_iff by (metis dvdE)
  then have "unat p mod 4096 = n" using assms(2,3) by simp
  then have "unat (align_down_u32 p 4096) = unat P" using assms(2) by (simp add: unat_align_down)
  then show ?thesis by (simp add: word_unat_eq_iff)
qed

lemma slab_live_iff:
  assumes "slab_inv s"
  shows "slab_live s p = Some n \<longleftrightarrow> (\<exists>P \<in> slab_pages s. \<exists>i. i < unat (pw (kh_mem s) P 3) \<and> \<not> slab_bit (kh_mem s) P i \<and>
    p = obj_at (kh_mem s) P i \<and> n = unat (pw (kh_mem s) P 2))" (is "?L \<longleftrightarrow> ?R")
proof
  let ?m = "kh_mem s"
  assume ?R
  then obtain P i where P: "P \<in> slab_pages s" "i < unat (pw ?m P 3)" "\<not> slab_bit ?m P i" "p = obj_at ?m P i"
      "n = unat (pw ?m P 2)" by blast
  have ok: "slab_ok ?m P" "page_aligned P" "KHEAP_START \<le> P" "P < slab_brk s"
    using assms P(1) by (auto simp: slab_inv_def slab_pages_def)
  have u: "unat p = unat P + 40 + i * unat (pw ?m P 2)" unfolding P(4) by (rule unat_obj_at [OF ok(2,1) P(2)])
  have "40 + i * unat (pw ?m P 2) < 4096"
    using slot_end [OF ok(1) P(2)] slab_geometry(1) [OF ok(1)] by simp
  then have "align_down_u32 p 4096 = P" using u by (intro align_down_obj [OF ok(2), of _ "40 + i * unat (pw ?m P 2)"]) simp_all
  moreover have "unat (pw ?m P 2) \<noteq> 0" using slab_geometry(1) [OF ok(1)] by simp
  ultimately show ?L
    using ok(3,4) P(2,3,5) u by (simp add: slab_live_def Let_def)
next
  let ?m = "kh_mem s" and ?P = "align_down_u32 p 4096"
  let ?i = "(unat p - unat ?P - 40) div unat (pw ?m ?P 2)"
  assume ?L
  then have L: "KHEAP_START \<le> ?P" "?P < slab_brk s" "unat ?P + 40 \<le> unat p" "unat (pw ?m ?P 2) dvd unat p - unat ?P - 40"
      "?i < unat (pw ?m ?P 3)" "\<not> slab_bit ?m ?P ?i" "n = unat (pw ?m ?P 2)"
    by (auto simp: slab_live_def Let_def split: if_splits)
  have P: "?P \<in> slab_pages s" using L(1,2) page_aligned_align_down by (simp add: slab_pages_def)
  then have ok: "slab_ok ?m ?P" "page_aligned ?P" using assms by (auto simp: slab_inv_def slab_pages_def)
  have "unat (obj_at ?m ?P ?i) = unat p"
    using unat_obj_at [OF ok(2,1) L(5)] L(3,4) by simp
  then have "p = obj_at ?m ?P ?i" by (simp add: word_unat_eq_iff)
  then show ?R using P L(5,6,7) by blast
qed

text \<open>What a change of memory has to respect for a page, for a list and for the objects to stay.\<close>

lemma slots_cong: "(\<And>k. k < 9 \<Longrightarrow> pw m' P k = pw m P k) \<Longrightarrow> unat (pw m P 3) \<le> 128 \<Longrightarrow> slots m' P = slots m P"
  by (auto simp: slots_def slab_bit_def)

lemma slab_ok_cong: "slab_ok m P \<Longrightarrow> (\<And>k. k < 9 \<Longrightarrow> pw m' P k = pw m P k) \<Longrightarrow> slab_ok m' P"
  using slots_cong [of m' P m] slab_geometry(4) [of m P] by (simp add: slab_ok_def)

lemma slist_cong: "slist m ps h \<Longrightarrow> (\<And>p. p \<in> set ps \<Longrightarrow> pw m' p 0 = pw m p 0) \<Longrightarrow> slist m' ps h"
  by (induction ps arbitrary: h) auto

lemma slist_append: "slist m (ps @ p # qs) h \<Longrightarrow> slist m (p # qs) p"
  by (induction ps arbitrary: h) auto

lemma pages_nonzero: "P \<in> slab_pages s \<Longrightarrow> P \<noteq> 0"
  by (auto simp: slab_pages_def KHEAP_START_def)

lemma slist_head: "slist m ps h \<Longrightarrow> 0 \<notin> set ps \<Longrightarrow> h = 0 \<longleftrightarrow> ps = []"
  by (cases ps) auto

text \<open>The bytes of an object are not header bytes.\<close>

lemma obj_block_off:
  assumes "page_aligned P" "slab_ok m P" "i < unat (pw m P 3)" "x \<in> block_at (obj_at m P i) (unat (pw m P 2))"
    and "page_aligned Q" "k < 9"
  shows "pset Q k v m' x = m' x"
proof (rule pset_out [OF assms(5,6)])
  have "unat P + 40 \<le> unat x" "unat x < unat P + 4096"
    using assms(4) unat_obj_at [OF assms(1-3)] slot_end [OF assms(2,3)] by (auto simp: block_at_def)
  then show "unat x < unat Q \<or> unat Q + 40 \<le> unat x"
    using pages_apart [OF assms(1,5)] by (cases "P = Q") auto
qed

text \<open>Two objects that are not the same slot do not overlap.\<close>

lemma obj_blocks_apart:
  assumes P: "page_aligned P" "slab_ok m P" "i < unat (pw m P 3)"
    and Q: "page_aligned Q" "slab_ok m Q" "j < unat (pw m Q 3)" and ne: "P \<noteq> Q \<or> i \<noteq> j"
  shows "block_at (obj_at m P i) (unat (pw m P 2)) \<inter> block_at (obj_at m Q j) (unat (pw m Q 2)) = {}"
proof -
  note u = unat_obj_at [OF P] unat_obj_at [OF Q] slot_end [OF P(2,3)] slot_end [OF Q(2,3)]
  have "unat (obj_at m P i) + unat (pw m P 2) \<le> unat (obj_at m Q j) \<or>
      unat (obj_at m Q j) + unat (pw m Q 2) \<le> unat (obj_at m P i)"
  proof (cases "P = Q")
    case False
    then show ?thesis using pages_apart [OF P(1) Q(1)] u by auto
  next
    case True
    let ?z = "unat (pw m P 2)"
    consider "Suc i \<le> j" | "Suc j \<le> i" using ne True by linarith
    then have "Suc i * ?z \<le> j * ?z \<or> Suc j * ?z \<le> i * ?z" by cases (metis mult_le_mono1)+
    then show ?thesis using u True by auto
  qed
  then show ?thesis by (auto simp: block_at_def)
qed

section \<open>Steps that change one page\<close>

definition hdr_bytes :: "('b, 'v) slab_state \<Rightarrow> u32 set" where
  "hdr_bytes s = {x. \<exists>Q \<in> slab_pages s. unat Q \<le> unat x \<and> unat x < unat Q + 40}"

lemma pset_not_hdr: "x \<notin> hdr_bytes s \<Longrightarrow> P \<in> slab_pages s \<Longrightarrow> k < 9 \<Longrightarrow> pset P k v m x = m x"
  by (intro pset_out) (auto simp: hdr_bytes_def slab_pages_def not_le)

lemma live_not_hdr:
  assumes "slab_inv s" "slab_live s q = Some n" "x \<in> block_at q n"
  shows "x \<notin> hdr_bytes s"
proof -
  from assms(2) obtain P i where P: "P \<in> slab_pages s" "i < unat (pw (kh_mem s) P 3)" "q = obj_at (kh_mem s) P i"
      "n = unat (pw (kh_mem s) P 2)"
    unfolding slab_live_iff [OF assms(1)] by blast
  then have ok: "page_aligned P" "slab_ok (kh_mem s) P" using assms(1) by (auto simp: slab_inv_def slab_pages_def)
  have x: "unat P + 40 \<le> unat x" "unat x < unat P + 4096"
    using assms(3) unat_obj_at [OF ok P(2)] slot_end [OF ok(2) P(2)] by (auto simp: block_at_def P(3,4))
  have "\<not> (unat Q \<le> unat x \<and> unat x < unat Q + 40)" if "Q \<in> slab_pages s" for Q
    using x pages_apart [OF ok(1), of Q] that by (cases "P = Q") (auto simp: slab_pages_def)
  then show ?thesis by (auto simp: hdr_bytes_def)
qed

text \<open>The static words of every page stay, and the bitmap of \<open>P\<close> becomes \<open>B\<close>.\<close>

definition bits_change :: "u32 \<Rightarrow> (nat \<Rightarrow> bool) \<Rightarrow> ('b, 'v) slab_state \<Rightarrow> ('b, 'v) slab_state \<Rightarrow> bool" where
  "bits_change P B s s' \<longleftrightarrow> slab_brk s' = slab_brk s \<and> map sc_obj_size (caches s') = map sc_obj_size (caches s) \<and>
     (\<forall>Q \<in> slab_pages s. pw (kh_mem s') Q 1 = pw (kh_mem s) Q 1 \<and> pw (kh_mem s') Q 2 = pw (kh_mem s) Q 2 \<and>
        pw (kh_mem s') Q 3 = pw (kh_mem s) Q 3 \<and> (Q \<noteq> P \<longrightarrow> pw (kh_mem s') Q 4 = pw (kh_mem s) Q 4) \<and>
        (\<forall>i < 128. slab_bit (kh_mem s') Q i \<longleftrightarrow> (if Q = P then B i else slab_bit (kh_mem s) Q i)))"

lemma bits_change_ok:
  assumes "slab_inv s" "bits_change P B s s'" "P \<in> slab_pages s"
    and "unat (pw (kh_mem s') P 4) = card {i. i < unat (pw (kh_mem s) P 3) \<and> B i}"
    and "\<And>ci. ci < NUM_CACHES \<Longrightarrow> \<exists>ps fs. cache_ok s' ci ps fs"
  shows "slab_inv s'"
proof -
  have pages: "slab_pages s' = slab_pages s" using assms(2) by (simp add: slab_pages_def bits_change_def)
  have "slab_ok (kh_mem s') Q" if Q: "Q \<in> slab_pages s" for Q
  proof -
    have ok: "slab_ok (kh_mem s) Q" using assms(1) Q by (simp add: slab_inv_def)
    then have "i < 128" if "i < unat (pw (kh_mem s) Q 3)" for i using slab_geometry(4) [OF ok] that by simp
    then have "slots (kh_mem s') Q = (if Q = P then {i. i < unat (pw (kh_mem s) P 3) \<and> B i} else slots (kh_mem s) Q)"
      using assms(2) Q by (auto simp: slots_def bits_change_def)
    then show ?thesis using ok assms(2,4) Q by (auto simp: slab_ok_def bits_change_def)
  qed
  then show ?thesis
    using assms(1,2,5) pages by (auto simp: slab_inv_def bits_change_def)
qed

lemma bits_change_live:
  assumes "slab_inv s" "slab_inv s'" "bits_change P B s s'" "P \<in> slab_pages s"
  shows "slab_live s' p = Some n \<longleftrightarrow> (\<exists>Q \<in> slab_pages s. \<exists>i. i < unat (pw (kh_mem s) Q 3) \<and>
    \<not> (if Q = P then B i else slab_bit (kh_mem s) Q i) \<and> p = obj_at (kh_mem s) Q i \<and> n = unat (pw (kh_mem s) Q 2))"
proof -
  have pages: "slab_pages s' = slab_pages s" using assms(3) by (simp add: slab_pages_def bits_change_def)
  have "i < 128" if "Q \<in> slab_pages s" "i < unat (pw (kh_mem s) Q 3)" for Q i
    using assms(1) that slab_geometry(4) [of "kh_mem s" Q] by (auto simp: slab_inv_def)
  then show ?thesis
    using assms(3) unfolding slab_live_iff [OF assms(2)] pages
    by (intro bex_cong refl ex_cong1) (auto simp: bits_change_def obj_at_def)
qed

text \<open>A slot of \<open>P\<close> is taken, or given back.\<close>

lemma obj_at_inj:
  assumes "slab_inv s" "P \<in> slab_pages s" "i < unat (pw (kh_mem s) P 3)" "Q \<in> slab_pages s" "j < unat (pw (kh_mem s) Q 3)"
    "obj_at (kh_mem s) P i = obj_at (kh_mem s) Q j"
  shows "P = Q \<and> i = j"
proof (rule ccontr)
  let ?m = "kh_mem s"
  assume "\<not> (P = Q \<and> i = j)"
  moreover have ok: "slab_ok ?m P" "slab_ok ?m Q" "page_aligned P" "page_aligned Q"
    using assms by (auto simp: slab_inv_def slab_pages_def)
  ultimately have "block_at (obj_at ?m P i) (unat (pw ?m P 2)) \<inter> block_at (obj_at ?m Q j) (unat (pw ?m Q 2)) = {}"
    using assms by (intro obj_blocks_apart) auto
  moreover have "obj_at ?m P i \<in> block_at (obj_at ?m P i) (unat (pw ?m P 2))"
      "obj_at ?m Q j \<in> block_at (obj_at ?m Q j) (unat (pw ?m Q 2))"
    using slab_geometry(1) [OF ok(1)] slab_geometry(1) [OF ok(2)] by (auto simp: block_at_def)
  ultimately show False using assms(6) by auto
qed

lemma live_take:
  assumes "slab_inv s" "slab_inv s'" "P \<in> slab_pages s" "i < unat (pw (kh_mem s) P 3)" "slab_bit (kh_mem s) P i"
    and ch: "bits_change P (\<lambda>j. slab_bit (kh_mem s) P j \<and> j \<noteq> i) s s'"
  shows "slab_live s (obj_at (kh_mem s) P i) = None"
    "slab_live s' = (slab_live s)(obj_at (kh_mem s) P i \<mapsto> unat (pw (kh_mem s) P 2))"
proof -
  let ?m = "kh_mem s" let ?p = "obj_at ?m P i"
  show none: "slab_live s ?p = None"
    using slab_live_iff [OF assms(1), of ?p] obj_at_inj [OF assms(1,3,4)] assms(5) by (cases "slab_live s ?p") auto
  show "slab_live s' = (slab_live s)(?p \<mapsto> unat (pw ?m P 2))"
  proof (rule ext)
    fix q
    have eq: "slab_live s' q = Some n \<longleftrightarrow> ((slab_live s)(?p \<mapsto> unat (pw ?m P 2))) q = Some n" for n
    proof (cases "q = ?p")
      case True
      have "slab_live s' ?p = Some (unat (pw ?m P 2))"
        unfolding bits_change_live [OF assms(1,2) ch assms(3)] using assms(3,4) by (intro bexI [of _ P] exI [of _ i]) auto
      then show ?thesis using True by auto
    next
      case False
      then show ?thesis
        unfolding bits_change_live [OF assms(1,2) ch assms(3)] fun_upd_other [OF False] slab_live_iff [OF assms(1)]
        by (intro bex_cong refl ex_cong1) auto
    qed
    then show "slab_live s' q = ((slab_live s)(?p \<mapsto> unat (pw ?m P 2))) q"
      by (metis not_None_eq)
  qed
qed

lemma live_give:
  assumes "slab_inv s" "slab_inv s'" "P \<in> slab_pages s" "i < unat (pw (kh_mem s) P 3)" "\<not> slab_bit (kh_mem s) P i"
    and ch: "bits_change P (\<lambda>j. slab_bit (kh_mem s) P j \<or> j = i) s s'"
  shows "slab_live s' = (slab_live s)(obj_at (kh_mem s) P i := None)"
proof (rule ext)
  let ?m = "kh_mem s" let ?p = "obj_at ?m P i"
  fix q
  have eq: "slab_live s' q = Some n \<longleftrightarrow> ((slab_live s)(?p := None)) q = Some n" for n
  proof (cases "q = ?p")
    case True
    have "slab_live s' ?p \<noteq> Some k" for k
      unfolding bits_change_live [OF assms(1,2) ch assms(3)]
      using obj_at_inj [OF assms(1,3,4)] by (auto split: if_splits)
    then show ?thesis using True by simp
  next
    case False
    then show ?thesis
      unfolding bits_change_live [OF assms(1,2) ch assms(3)] fun_upd_other [OF False] slab_live_iff [OF assms(1)]
      by (intro bex_cong refl ex_cong1) auto
  qed
  then show "slab_live s' q = ((slab_live s)(?p := None)) q"
    by (metis not_None_eq)
qed

section \<open>Taking a slot\<close>

definition flips :: "u32 \<Rightarrow> u32 \<Rightarrow> memory \<Rightarrow> memory \<Rightarrow> bool" where
  "flips P idx m m1 \<longleftrightarrow> m1 = bitmap_clear_bit (sl_bitmap P) idx m \<or> m1 = bitmap_set_bit (sl_bitmap P) idx m"

lemma flips_words:
  assumes "flips P idx m m1" "unat idx < 128" "page_aligned P"
  shows "page_aligned Q \<Longrightarrow> k < 9 \<Longrightarrow> Q \<noteq> P \<or> k < 5 \<Longrightarrow> pw m1 Q k = pw m Q k"
    "unat x < unat P \<or> unat P + 40 \<le> unat x \<Longrightarrow> m1 x = m x"
proof -
  obtain v where m1: "m1 = pset P (5 + unat idx div 32) v m"
    using assms(1,2) bitmap_change_words [of idx P m] bitmap_set_words [of idx P m] by (auto simp: flips_def)
  have "5 + unat idx div 32 < 9" using assms(2) by simp
  then show "page_aligned Q \<Longrightarrow> k < 9 \<Longrightarrow> Q \<noteq> P \<or> k < 5 \<Longrightarrow> pw m1 Q k = pw m Q k"
    "unat x < unat P \<or> unat P + 40 \<le> unat x \<Longrightarrow> m1 x = m x"
    using assms(3) by (auto simp: m1 pw_pset pset_out)
qed

lemma slab_bit_other: "page_aligned P \<Longrightarrow> page_aligned Q \<Longrightarrow> Q \<noteq> P \<Longrightarrow> flips P idx m m1 \<Longrightarrow> unat idx < 128 \<Longrightarrow> i < 128 \<Longrightarrow>
    slab_bit m1 Q i = slab_bit m Q i"
  using flips_words(1) [of P idx m m1 Q "5 + i div 32"] by (simp add: slab_bit_def)

lemma slab_bit_pset: "page_aligned P \<Longrightarrow> page_aligned Q \<Longrightarrow> k < 5 \<Longrightarrow> i < 128 \<Longrightarrow> slab_bit (pset P k v m) Q i = slab_bit m Q i"
  by (auto simp: slab_bit_def pw_pset)

text \<open>The lists of the other sizes are not concerned.\<close>

lemma cache_ok_other:
  assumes "cache_ok s cj ps fs" "caches s' ! cj = caches s ! cj" "slab_pages s' = slab_pages s"
    and "\<And>Q. Q \<in> slab_pages s \<Longrightarrow> pw (kh_mem s') Q 1 = pw (kh_mem s) Q 1"
    and "\<And>Q. Q \<in> slab_pages s \<Longrightarrow> unat (pw (kh_mem s) Q 1) = cj \<Longrightarrow>
      pw (kh_mem s') Q 0 = pw (kh_mem s) Q 0 \<and> (pw (kh_mem s') Q 4 = 0 \<longleftrightarrow> pw (kh_mem s) Q 4 = 0)"
  shows "cache_ok s' cj ps fs"
proof -
  have "slist (kh_mem s') ps (sc_partial (caches s ! cj))" "slist (kh_mem s') fs (sc_full (caches s ! cj))"
    using assms(1,5) by (auto simp: cache_ok_def intro!: slist_cong [of "kh_mem s"])
  then show ?thesis using assms by (auto simp: cache_ok_def)
qed

lemma map_obj_size_update [simp]:
  "sc_obj_size c = sc_obj_size (cs ! i) \<Longrightarrow> map sc_obj_size (cs[i := c]) = map sc_obj_size cs"
  by (simp add: map_update) (metis list_update_id map_update)

lemma slab_take_ok:
  assumes inv: "slab_inv s" and ci: "ci < NUM_CACHES" and lists: "cache_ok s ci (P # ps) fs"
  obtains p s' where "slab_take ci s = (p, s')" "slab_inv s'" "p \<noteq> 0" "slab_live s p = None"
    "slab_live s' = (slab_live s)(p \<mapsto> unat (cache_sizes ! ci))" "\<And>x. x \<notin> hdr_bytes s \<Longrightarrow> kh_mem s' x = kh_mem s x"
proof -
  let ?m = "kh_mem s"
  have P: "P \<in> slab_pages s" "unat (pw ?m P 1) = ci" "pw ?m P 4 \<noteq> 0" "sc_partial (caches s ! ci) = P"
    using lists by (auto simp: cache_ok_def)
  have ok: "slab_ok ?m P" "page_aligned P" using inv P(1) by (auto simp: slab_inv_def slab_pages_def)
  have len: "ci < length (caches s)"
    using inv ci by (auto simp: slab_inv_def NUM_CACHES_def cache_sizes_def dest: arg_cong [of _ _ length])
  have cap: "unat (pw ?m P 3) \<le> 128" using slab_geometry(4) [OF ok(1)] by simp
  obtain i where i: "bitmap_find_first_set ?m (sl_bitmap P) (pw ?m P 3) = int i" "i < unat (pw ?m P 3)" "slab_bit ?m P i"
  proof -
    have "slots ?m P \<noteq> {}" using ok(1) P(3) by (auto simp: slab_ok_def unat_eq_0)
    then obtain j where "j < unat (pw ?m P 3)" "slab_bit ?m P j" by (auto simp: slots_def)
    then show thesis using bitmap_find_first_set [OF cap, of ?m P] that by (auto simp: first_set_def)
  qed
  define idx :: u32 where "idx = of_nat i"
  have idx: "unat idx = i" "i < 128" using i(2) cap by (simp_all add: idx_def unat_of_nat)
  define m1 where "m1 = bitmap_clear_bit (sl_bitmap P) idx ?m"
  have fl: "flips P idx ?m m1" "unat idx < 128" using idx by (simp_all add: flips_def m1_def)
  define m2 where "m2 = pset P 4 (pw ?m P 4 - 1) m1"
  have w2: "pw m2 Q k = (if Q = P \<and> k = 4 then pw ?m P 4 - 1 else pw ?m Q k)"
    if "page_aligned Q" "k < 9" "Q \<noteq> P \<or> k < 5" for Q k
    using that flips_words(1) [OF fl ok(2)] ok(2) by (auto simp: m2_def pw_pset)
  have b2: "slab_bit m2 Q j \<longleftrightarrow> (if Q = P then slab_bit ?m P j \<and> j \<noteq> i else slab_bit ?m Q j)"
    if "page_aligned Q" "j < 128" for Q j
    using that ok(2) fl slab_bit_other [OF ok(2) that(1) _ fl that(2)] slab_bit_change(1) [OF ok(2) fl(2) that(2), of ?m]
    by (auto simp: m2_def slab_bit_pset m1_def [symmetric] idx(1))
  have card: "unat (pw ?m P 4 - 1) = card {j. j < unat (pw ?m P 3) \<and> slab_bit ?m P j \<and> j \<noteq> i}"
  proof -
    have "{j. j < unat (pw ?m P 3) \<and> slab_bit ?m P j \<and> j \<noteq> i} = slots ?m P - {i}" by (auto simp: slots_def)
    moreover have "i \<in> slots ?m P" "finite (slots ?m P)" using i by (simp_all add: slots_def)
    moreover have "unat (pw ?m P 4 - 1) = unat (pw ?m P 4) - 1" using P(3) by (simp add: unat_dec word_greater_zero_iff)
    ultimately show ?thesis using ok(1) by (simp add: slab_ok_def)
  qed
  let ?p = "obj_at ?m P i"
  have obj: "P + SLAB_HDR_SIZE + word_of_int (int i) * pw m2 P 2 = ?p"
    using w2 [OF ok(2), of 2] by (simp add: obj_at_def)
  define s' where "s' = (if pw m2 P 4 = 0
     then s\<lparr>kh_mem := pset P 0 (sc_full (caches s ! ci)) m2,
            caches := (caches s)[ci := (caches s ! ci)\<lparr>sc_partial := pw m2 P 0, sc_full := P\<rparr>]\<rparr>
     else s\<lparr>kh_mem := m2\<rparr>)"
  have take: "slab_take ci s = (?p, s')"
  proof -
    have "pw m1 P 4 = pw ?m P 4" using flips_words(1) [OF fl ok(2,2), of 4] by simp
    then show ?thesis
      using i(1) len obj
      by (simp add: slab_take_def Let_def header_words P(4) m1_def [symmetric] m2_def [symmetric] idx_def [symmetric]
        s'_def set_cache_def)
  qed
  have aligned: "page_aligned Q" if "Q \<in> slab_pages s" for Q using that by (simp add: slab_pages_def)
  have pages: "slab_pages s' = slab_pages s" by (simp add: s'_def slab_pages_def)
  let ?c = "pw ?m P 4 - 1"
  have c2: "pw m2 P 4 = ?c" using w2 [OF ok(2), of 4] by simp
  have w': "pw (kh_mem s') Q k = (if Q = P \<and> k = 4 then ?c
      else if Q = P \<and> k = 0 \<and> ?c = 0 then sc_full (caches s ! ci) else pw ?m Q k)"
    if "page_aligned Q" "k < 5" for Q k
    using w2 [of Q k] that ok(2) by (auto simp: s'_def c2 pw_pset)
  have b': "slab_bit (kh_mem s') Q j \<longleftrightarrow> (if Q = P then slab_bit ?m P j \<and> j \<noteq> i else slab_bit ?m Q j)"
    if "page_aligned Q" "j < 128" for Q j
    using b2 [OF that] that ok(2) by (auto simp: s'_def slab_bit_pset)
  have ch: "bits_change P (\<lambda>j. slab_bit ?m P j \<and> j \<noteq> i) s s'"
    using aligned w' b' by (auto simp: bits_change_def s'_def)
  have cok: "\<exists>ps fs. cache_ok s' cj ps fs" if cj: "cj < NUM_CACHES" for cj
  proof (cases "cj = ci")
    case False
    then obtain ps' fs' where "cache_ok s cj ps' fs'" using inv cj by (auto simp: slab_inv_def)
    then have "cache_ok s' cj ps' fs'"
      by (rule cache_ok_other) (use False pages aligned w' P(2) in \<open>auto simp: s'_def\<close>)
    then show ?thesis by blast
  next
    case True
    have L: "slist ?m ps (pw ?m P 0)" "slist ?m fs (sc_full (caches s ! ci))" "distinct (P # ps)" "distinct fs"
      "set (P # ps) = {Q \<in> slab_pages s. unat (pw ?m Q 1) = ci \<and> pw ?m Q 4 \<noteq> 0}"
      "set fs = {Q \<in> slab_pages s. unat (pw ?m Q 1) = ci \<and> pw ?m Q 4 = 0}"
      using lists by (simp_all add: cache_ok_def)
    have Pfs: "P \<notin> set fs" using L(6) P(3) by simp
    have pal: "page_aligned Q" if "Q \<in> set ps \<union> set fs" for Q using that L(5,6) aligned by auto
    have keep: "slist (kh_mem s') ps (pw ?m P 0)" "slist (kh_mem s') fs (sc_full (caches s ! ci))"
      using L(3) Pfs pal by (auto intro!: slist_cong [OF L(1)] slist_cong [OF L(2)] simp: w')
    have w1: "pw (kh_mem s') Q 1 = pw ?m Q 1" if "Q \<in> slab_pages s" for Q using w' [OF aligned [OF that], of 1] by simp
    have w4: "pw (kh_mem s') Q 4 = (if Q = P then ?c else pw ?m Q 4)" if "Q \<in> slab_pages s" for Q
      using w' [OF aligned [OF that], of 4] by simp
    have sel: "{Q \<in> slab_pages s'. unat (pw (kh_mem s') Q 1) = ci \<and> pw (kh_mem s') Q 4 \<noteq> 0} =
        {Q \<in> slab_pages s. unat (pw ?m Q 1) = ci \<and> (if Q = P then ?c \<noteq> 0 else pw ?m Q 4 \<noteq> 0)}"
      "{Q \<in> slab_pages s'. unat (pw (kh_mem s') Q 1) = ci \<and> pw (kh_mem s') Q 4 = 0} =
        {Q \<in> slab_pages s. unat (pw ?m Q 1) = ci \<and> (if Q = P then ?c = 0 else pw ?m Q 4 = 0)}"
      unfolding pages by (intro Collect_cong conj_cong refl; simp add: w1 [unfolded One_nat_def] w4)+
    show ?thesis
    proof (cases "?c = 0")
      case c0: True
      have "pw (kh_mem s') P 0 = sc_full (caches s ! ci)" using w' [OF ok(2), of 0] c0 by simp
      moreover have "caches s' ! ci = (caches s ! ci)\<lparr>sc_partial := pw ?m P 0, sc_full := P\<rparr>"
        using c0 c2 len w2 [OF ok(2), of 0] by (simp add: s'_def)
      moreover have "set ps = {Q \<in> slab_pages s'. unat (pw (kh_mem s') Q 1) = ci \<and> pw (kh_mem s') Q 4 \<noteq> 0}"
      proof -
        have "set ps = set (P # ps) - {P}" using L(3) by auto
        then show ?thesis unfolding sel L(5) using c0 by auto
      qed
      moreover have "set (P # fs) = {Q \<in> slab_pages s'. unat (pw (kh_mem s') Q 1) = ci \<and> pw (kh_mem s') Q 4 = 0}"
        unfolding sel using L(6) c0 P(1,2) by auto
      ultimately have "cache_ok s' ci ps (P # fs)"
        using keep L(3,4) Pfs by (simp add: cache_ok_def)
      then show ?thesis using True by blast
    next
      case c1: False
      have "pw (kh_mem s') P 0 = pw ?m P 0" using w' [OF ok(2), of 0] c1 by simp
      moreover have "caches s' = caches s" using c1 c2 by (simp add: s'_def)
      moreover have "set (P # ps) = {Q \<in> slab_pages s'. unat (pw (kh_mem s') Q 1) = ci \<and> pw (kh_mem s') Q 4 \<noteq> 0}"
        unfolding L(5) sel using c1 P(3) by auto
      moreover have "set fs = {Q \<in> slab_pages s'. unat (pw (kh_mem s') Q 1) = ci \<and> pw (kh_mem s') Q 4 = 0}"
        unfolding L(6) sel using c1 P(3) by auto
      ultimately have "cache_ok s' ci (P # ps) fs"
        using keep L(3,4) P(4) by (simp add: cache_ok_def)
      then show ?thesis using True by blast
    qed
  qed
  have inv': "slab_inv s'"
    by (rule bits_change_ok [OF inv ch P(1) _ cok]) (use w' ok(2) card in simp_all)
  note live = live_take [OF inv inv' P(1) i(2,3) ch]
  have "?p \<noteq> 0"
  proof -
    have "unat ?p \<noteq> 0" using unat_obj_at [OF ok(2,1) i(2)] by simp
    then show ?thesis by (simp add: unat_eq_0)
  qed
  moreover have "unat (pw ?m P 2) = unat (cache_sizes ! ci)" using ok(1) P(2) by (simp add: slab_ok_def)
  moreover have "kh_mem s' x = ?m x" if x: "x \<notin> hdr_bytes s" for x
  proof -
    have "unat x < unat P \<or> unat P + 40 \<le> unat x" using x P(1) by (auto simp: hdr_bytes_def not_le)
    then have "m1 x = ?m x" by (rule flips_words(2) [OF fl ok(2)])
    then show ?thesis using pset_not_hdr [OF x P(1)] by (simp add: s'_def m2_def)
  qed
  ultimately show thesis using that [OF take inv' _ live(1)] live(2) by simp
qed

section \<open>A new slab\<close>

text \<open>The loop that marks the slots of a new slab as free.\<close>

lemma free_all:
  assumes "page_aligned P" "n \<le> 128"
  defines "mark \<equiv> fold (\<lambda>i. bitmap_set_bit (sl_bitmap P) (of_nat i)) [0..<n]"
  shows "j < 128 \<Longrightarrow> slab_bit (mark m) P j \<longleftrightarrow> slab_bit m P j \<or> j < n"
    "page_aligned Q \<Longrightarrow> k < 9 \<Longrightarrow> Q \<noteq> P \<or> k < 5 \<Longrightarrow> pw (mark m) Q k = pw m Q k"
    "unat x < unat P \<or> unat P + 40 \<le> unat x \<Longrightarrow> mark m x = m x"
proof -
  have "(j < 128 \<longrightarrow> (slab_bit (mark m) P j \<longleftrightarrow> slab_bit m P j \<or> j < n)) \<and>
      (page_aligned Q \<longrightarrow> k < 9 \<longrightarrow> Q \<noteq> P \<or> k < 5 \<longrightarrow> pw (mark m) Q k = pw m Q k) \<and>
      (unat x < unat P \<or> unat P + 40 \<le> unat x \<longrightarrow> mark m x = m x)"
    unfolding mark_def using assms(2)
  proof (induction n)
    case (Suc n)
    let ?m = "fold (\<lambda>i. bitmap_set_bit (sl_bitmap P) (of_nat i)) [0..<n] m"
    have n: "unat (of_nat n :: u32) = n" "unat (of_nat n :: u32) < 128" using Suc.prems by (simp_all add: unat_of_nat)
    have fl: "flips P (of_nat n) ?m (bitmap_set_bit (sl_bitmap P) (of_nat n) ?m)" by (simp add: flips_def)
    show ?case
      using Suc flips_words [OF fl n(2) assms(1)] slab_bit_change(2) [OF assms(1) n(2), of j ?m]
      by (auto simp: n(1) less_Suc_eq)
  qed simp
  then show "j < 128 \<Longrightarrow> slab_bit (mark m) P j \<longleftrightarrow> slab_bit m P j \<or> j < n"
    "page_aligned Q \<Longrightarrow> k < 9 \<Longrightarrow> Q \<noteq> P \<or> k < 5 \<Longrightarrow> pw (mark m) Q k = pw m Q k"
    "unat x < unat P \<or> unat P + 40 \<le> unat x \<Longrightarrow> mark m x = m x" by blast+
qed

lemma slab_get_page_ok:
  obtains s1 where "slab_get_page s = (0, s1)" "slab_brk s1 = slab_brk s" "caches s1 = caches s" "kh_mem s1 = kh_mem s"
  | s1 where "slab_get_page s = (slab_brk s, s1)" "slab_brk s < KHEAP_END" "slab_brk s1 = slab_brk s + VMM_PAGE_SIZE"
    "caches s1 = caches s" "kh_mem s1 = kh_mem s"
proof -
  obtain phys pm where a: "pmm_alloc_page (vm_pmm (kh_vm s)) = (phys, pm)" by (cases "pmm_alloc_page (vm_pmm (kh_vm s))")
  obtain ret vm where v: "vmm_map_page (slab_brk s) phys (PTE_PRESENT OR PTE_WRITABLE) ((kh_vm s)\<lparr>vm_pmm := pm\<rparr>) = (ret, vm)"
    by (cases "vmm_map_page (slab_brk s) phys (PTE_PRESENT OR PTE_WRITABLE) ((kh_vm s)\<lparr>vm_pmm := pm\<rparr>)")
  note get = slab_get_page_def Let_def a v prod.case
  consider "KHEAP_END \<le> slab_brk s \<or> slab_committed s \<le> slab_brk s \<and> (phys = 0 \<or> ret \<noteq> 0)"
    | "\<not> KHEAP_END \<le> slab_brk s" "slab_committed s \<le> slab_brk s" "phys \<noteq> 0" "ret = 0"
    | "\<not> KHEAP_END \<le> slab_brk s" "\<not> slab_committed s \<le> slab_brk s" by blast
  then show thesis
  proof cases
    case 1
    define s1 where "s1 = snd (slab_get_page s)"
    have "slab_get_page s = (0, s1)" "slab_brk s1 = slab_brk s" "caches s1 = caches s" "kh_mem s1 = kh_mem s"
      using 1 unfolding s1_def get by (auto split: if_splits)
    then show thesis by (rule that(1))
  next
    case 2
    then show thesis by (intro that(2)) (simp add: get, simp_all add: not_le)
  next
    case 3
    then show thesis by (intro that(2)) (simp add: get, simp_all add: not_le)
  qed
qed

text \<open>What \<open>slab_create\<close> leaves on the new page, and everywhere else.\<close>

lemma slab_create_words:
  assumes "slab_get_page s = (P, s1)" "P \<noteq> 0" "page_aligned P" "sc_obj_size (caches s1 ! ci) = sz"
    and "unat ((VMM_PAGE_SIZE - SLAB_HDR_SIZE) div sz) \<le> 126"
  obtains m where "slab_create ci s = (P, s1\<lparr>kh_mem := m\<rparr>)" "pw m P 0 = 0" "pw m P 1 = of_nat ci" "pw m P 2 = sz"
    "pw m P 3 = (VMM_PAGE_SIZE - SLAB_HDR_SIZE) div sz" "pw m P 4 = (VMM_PAGE_SIZE - SLAB_HDR_SIZE) div sz"
    "\<forall>j < 128. slab_bit m P j \<longleftrightarrow> j < unat ((VMM_PAGE_SIZE - SLAB_HDR_SIZE) div sz)"
    "\<forall>Q k. page_aligned Q \<longrightarrow> Q \<noteq> P \<longrightarrow> k < 9 \<longrightarrow> pw m Q k = pw (kh_mem s1) Q k"
    "\<forall>x. unat x < unat P \<or> unat P + 40 \<le> unat x \<longrightarrow> m x = kh_mem s1 x"
proof -
  let ?cap = "(VMM_PAGE_SIZE - SLAB_HDR_SIZE) div sz"
  define m0 where "m0 = pset P 8 0 (pset P 7 0 (pset P 6 0 (pset P 5 0 (pset P 4 ?cap (pset P 3 ?cap (pset P 2 sz
    (pset P 1 (of_nat ci) (pset P 0 0 (kh_mem s1)))))))))"
  define m where "m = fold (\<lambda>i. bitmap_set_bit (sl_bitmap P) (of_nat i)) [0..<unat ?cap] m0"
  have "\<not> 128 < ?cap" using assms(5) by (simp add: word_less_nat_alt)
  moreover have "wr32 m (sl_bitmap P) v = pset P 5 v m" "wr32 m (sl_bitmap P + 4) v = pset P 6 v m"
    "wr32 m (sl_bitmap P + 8) v = pset P 7 v m" "wr32 m (sl_bitmap P + 12) v = pset P 8 v m" for m v
    by (simp_all add: pset_def sl_bitmap_def add.assoc)
  ultimately have create: "slab_create ci s = (P, s1\<lparr>kh_mem := m\<rparr>)"
    using assms(1,2,4) by (simp add: slab_create_def Let_def header_words m_def m0_def del: hdr40)
  note fa = free_all [OF assms(3), of "unat ?cap", folded m_def]
  have le: "unat ?cap \<le> 128" using assms(5) by simp
  have "5 + j div 32 = 5 \<or> 5 + j div 32 = 6 \<or> 5 + j div 32 = 7 \<or> 5 + j div 32 = 8" if "j < 128" for j :: nat
    using that by auto
  then have "\<not> slab_bit m0 P j" if "j < 128" for j
    using that assms(3) unfolding slab_bit_def m0_def by (fastforce simp: pw_pset)
  then have bits: "slab_bit m P j \<longleftrightarrow> j < unat ?cap" if "j < 128" for j
    using fa(1) [OF le that, of m0] that by (simp add: m_def)
  have w0: "pw m P k = pw m0 P k" if "k < 5" for k
    using fa(2) [OF le assms(3), of k m0] that by (simp add: m_def)
  have others: "pw m Q k = pw (kh_mem s1) Q k" if "page_aligned Q" "Q \<noteq> P" "k < 9" for Q k
    using fa(2) [OF le that(1,3), of m0] that assms(3) by (simp add: m_def m0_def pw_pset)
  have out: "m x = kh_mem s1 x" if "unat x < unat P \<or> unat P + 40 \<le> unat x" for x
    using fa(3) [OF le that, of m0] that assms(3) by (simp add: m_def m0_def pset_out)
  have "pw m P 0 = 0" "pw m P 1 = of_nat ci" "pw m P 2 = sz" "pw m P 3 = ?cap" "pw m P 4 = ?cap"
    using assms(3) by (simp_all add: w0 m0_def pw_pset del: hdr40)
  then show thesis using create bits others out by (intro that) blast+
qed

text \<open>The new page extends the pages; all its slots are free, so the live objects stay.\<close>

lemma slab_pages_grow:
  assumes "page_aligned (slab_brk s)" "KHEAP_START \<le> slab_brk s" "slab_brk s < KHEAP_END" "slab_brk s' = slab_brk s + VMM_PAGE_SIZE"
  shows "slab_pages s' = insert (slab_brk s) (slab_pages s)" "slab_brk s \<notin> slab_pages s"
    "page_aligned (slab_brk s')" "KHEAP_START \<le> slab_brk s'" "slab_brk s' \<le> KHEAP_END"
proof -
  have room: "unat (slab_brk s') = unat (slab_brk s) + 4096"
    using page_room [OF assms(1)] assms(3,4)
    by (simp add: VMM_PAGE_SIZE_def KHEAP_END_def KHEAP_START_def KHEAP_MAX_SIZE_def
      word_less_nat_alt unat_add_no_wrap)
  have nxt: "P < slab_brk s' \<longleftrightarrow> P < slab_brk s \<or> P = slab_brk s" if "page_aligned P" for P
    using room pages_apart [OF that assms(1)] by (auto simp: word_less_nat_alt word_unat_eq_iff)
  show "slab_pages s' = insert (slab_brk s) (slab_pages s)" "slab_brk s \<notin> slab_pages s"
    using nxt assms(1,2) by (auto simp: slab_pages_def)
  show "page_aligned (slab_brk s')"
    unfolding assms(4) by (rule page_aligned_add [OF assms(1)]) (simp add: VMM_PAGE_SIZE_def page_aligned_def)
  show "KHEAP_START \<le> slab_brk s'" using assms(2) room by (simp add: word_le_nat_alt)
  have "page_aligned KHEAP_END" by (simp add: page_aligned_def KHEAP_END_def KHEAP_START_def KHEAP_MAX_SIZE_def)
  moreover have "slab_brk s \<noteq> KHEAP_END" using assms(3) by auto
  ultimately show "slab_brk s' \<le> KHEAP_END"
    using pages_apart [OF assms(1), of KHEAP_END] room assms(3) by (auto simp: word_le_nat_alt word_less_nat_alt)
qed

lemma cache_sizes_cap: "ci < NUM_CACHES \<Longrightarrow> unat ((VMM_PAGE_SIZE - SLAB_HDR_SIZE) div cache_sizes ! ci) \<le> 126"
proof -
  assume "ci < NUM_CACHES"
  then have "ci = 0 \<or> ci = 1 \<or> ci = 2 \<or> ci = 3 \<or> ci = 4 \<or> ci = 5 \<or> ci = 6" by (auto simp: NUM_CACHES_def)
  then show ?thesis by (elim disjE; simp add: cache_sizes_def VMM_PAGE_SIZE_def)
qed

lemma inv_length: "slab_inv s \<Longrightarrow> length (caches s) = NUM_CACHES"
  by (auto simp: slab_inv_def NUM_CACHES_def cache_sizes_def dest: arg_cong [of _ _ length])

lemma inv_obj_size: "slab_inv s \<Longrightarrow> ci < NUM_CACHES \<Longrightarrow> sc_obj_size (caches s ! ci) = cache_sizes ! ci"
  using inv_length [of s] by (metis nth_map slab_inv_def)

text \<open>A state that differs only in what is not the slabs' business keeps everything.\<close>

lemma slab_frame:
  assumes "slab_brk s' = slab_brk s" "caches s' = caches s" "kh_mem s' = kh_mem s"
  shows "slab_inv s' \<longleftrightarrow> slab_inv s" "slab_live s' = slab_live s"
proof -
  have pages: "slab_pages s' = slab_pages s" using assms by (simp add: slab_pages_def)
  then have "cache_ok s' = cache_ok s" using assms by (intro ext) (simp add: cache_ok_def)
  then show "slab_inv s' \<longleftrightarrow> slab_inv s" using assms pages by (simp add: slab_inv_def)
  show "slab_live s' = slab_live s" using assms by (intro ext) (simp add: slab_live_def)
qed

lemma slab_create_ok:
  assumes inv: "slab_inv s" and ci: "ci < NUM_CACHES" and empty: "sc_partial (caches s ! ci) = 0"
  obtains (refused) s1 where "slab_create ci s = (0, s1)" "slab_inv s1" "slab_live s1 = slab_live s" "kh_mem s1 = kh_mem s" "fst (slab_get_page s) = 0"
  | (created) P s1 fs where "slab_create ci s = (P, s1)" "P \<noteq> 0"
    "slab_inv (set_cache ci (\<lambda>c. c\<lparr>sc_partial := P\<rparr>) s1)"
    "cache_ok (set_cache ci (\<lambda>c. c\<lparr>sc_partial := P\<rparr>) s1) ci [P] fs"
    "slab_live (set_cache ci (\<lambda>c. c\<lparr>sc_partial := P\<rparr>) s1) = slab_live s"
    "\<And>x q n. slab_live s q = Some n \<Longrightarrow> x \<in> block_at q n \<Longrightarrow> kh_mem s1 x = kh_mem s x" "fst (slab_get_page s) \<noteq> 0"
proof (cases rule: slab_get_page_ok [of s])
  case (1 s1)
  then have "slab_create ci s = (0, s1)" by (simp add: slab_create_def)
  then show thesis using slab_frame [OF 1(2-4)] inv 1(1,4) by (intro refused [of s1]) simp_all
next
  case (2 s1)
  let ?P = "slab_brk s" and ?sz = "cache_sizes ! ci" and ?m = "kh_mem s"
  have b: "page_aligned ?P" "KHEAP_START \<le> ?P" using inv by (simp_all add: slab_inv_def)
  have P0: "?P \<noteq> 0" using b(2) by (auto simp: KHEAP_START_def)
  have sz: "sc_obj_size (caches s1 ! ci) = ?sz" using inv_obj_size [OF inv ci] 2(4) by simp
  note cap = cache_sizes_cap [OF ci]
  obtain m where
    m: "slab_create ci s = (?P, s1\<lparr>kh_mem := m\<rparr>)" "pw m ?P 0 = 0" "pw m ?P 1 = of_nat ci" "pw m ?P 2 = ?sz"
    "pw m ?P 3 = (VMM_PAGE_SIZE - SLAB_HDR_SIZE) div ?sz" "pw m ?P 4 = (VMM_PAGE_SIZE - SLAB_HDR_SIZE) div ?sz"
    "\<forall>j < 128. slab_bit m ?P j \<longleftrightarrow> j < unat ((VMM_PAGE_SIZE - SLAB_HDR_SIZE) div ?sz)"
    "\<forall>Q k. page_aligned Q \<longrightarrow> Q \<noteq> ?P \<longrightarrow> k < 9 \<longrightarrow> pw m Q k = pw (kh_mem s1) Q k"
    "\<forall>x. unat x < unat ?P \<or> unat ?P + 40 \<le> unat x \<longrightarrow> m x = kh_mem s1 x"
    by (rule slab_create_words [OF 2(1) P0 b(1) sz cap])
  note m(7) [rule_format] m(8) [rule_format, unfolded 2(5)] m(9) [rule_format, unfolded 2(5)]
  note m = m(1-6) this
  define s2 where "s2 = set_cache ci (\<lambda>c. c\<lparr>sc_partial := ?P\<rparr>) (s1\<lparr>kh_mem := m\<rparr>)"
  have s2: "slab_brk s2 = ?P + VMM_PAGE_SIZE" "kh_mem s2 = m" "caches s2 = (caches s)[ci := (caches s ! ci)\<lparr>sc_partial := ?P\<rparr>]"
    using 2 by (simp_all add: s2_def set_cache_def)
  note grow = slab_pages_grow [OF b 2(2) s2(1)]
  have pages: "page_aligned Q" "Q \<noteq> ?P" if "Q \<in> slab_pages s" for Q using that grow(2) by (auto simp: slab_pages_def)
  have keep: "pw m Q k = pw ?m Q k" if "Q \<in> slab_pages s" "k < 9" for Q k using m(8) pages that by blast
  have ci_word: "unat (of_nat ci :: u32) = ci" using ci by (simp add: NUM_CACHES_def unat_of_nat)
  let ?cap = "unat ((VMM_PAGE_SIZE - SLAB_HDR_SIZE) div ?sz)"
  have slots_new: "slots m ?P = {..<?cap}" unfolding slots_def m(5) using m(7) cap by auto
  have ok_new: "slab_ok m ?P"
    unfolding slab_ok_def slots_new m(3-6) ci_word using ci by simp
  have oks: "slab_ok m Q" if "Q \<in> slab_pages s2" for Q
  proof (cases "Q = ?P")
    case False
    then have "Q \<in> slab_pages s" using that grow(1) by simp
    then show ?thesis using inv keep slab_ok_cong [of ?m Q m] by (simp add: slab_inv_def)
  qed (simp add: ok_new)
  have cap0: "pw m ?P 4 \<noteq> 0" using slab_geometry(3) [OF ok_new] m(5,6) by auto
  have sel: "{Q \<in> slab_pages s2. unat (pw m Q 1) = cj \<and> pw m Q 4 \<noteq> 0} =
      {Q \<in> slab_pages s. unat (pw ?m Q 1) = cj \<and> pw ?m Q 4 \<noteq> 0} \<union> (if cj = ci then {?P} else {})"
    "{Q \<in> slab_pages s2. unat (pw m Q 1) = cj \<and> pw m Q 4 = 0} =
      {Q \<in> slab_pages s. unat (pw ?m Q 1) = cj \<and> pw ?m Q 4 = 0}" for cj
    unfolding grow(1) using keep cap0 m(3) ci_word by auto
  have lists: "slist m ps h" if "slist ?m ps h" "set ps \<subseteq> slab_pages s" for ps h
    using that keep by (intro slist_cong [OF that(1)]) auto
  obtain fs where old: "cache_ok s ci [] fs"
  proof -
    obtain ps fs where c: "cache_ok s ci ps fs" using inv ci by (auto simp: slab_inv_def)
    moreover have "0 \<notin> set ps" using c pages_nonzero by (auto simp: cache_ok_def)
    ultimately have "ps = []" using empty slist_head [of ?m ps 0] by (simp add: cache_ok_def)
    then show thesis using that c by simp
  qed
  have len: "ci < length (caches s)" using inv_length [OF inv] ci by simp
  have new: "cache_ok s2 ci [?P] fs"
  proof -
    note o = old [unfolded cache_ok_def]
    have "slist m fs (sc_full (caches s ! ci))" using o by (intro lists) auto
    then show ?thesis
      unfolding cache_ok_def s2(2) sel using o m(2) len by (simp add: s2(3) subset_iff del: One_nat_def) blast
  qed
  have "\<exists>ps fs. cache_ok s2 cj ps fs" if cj: "cj < NUM_CACHES" for cj
  proof (cases "cj = ci")
    case False
    obtain ps fs where c: "cache_ok s cj ps fs" using inv cj by (auto simp: slab_inv_def)
    note o = c [unfolded cache_ok_def]
    have "slist m ps (sc_partial (caches s ! cj))" "slist m fs (sc_full (caches s ! cj))"
      using o by (auto intro!: lists)
    then have "cache_ok s2 cj ps fs"
      unfolding cache_ok_def s2(2) sel using o False by (simp add: s2(3) del: One_nat_def)
    then show ?thesis by blast
  qed (use new in blast)
  then have inv2: "slab_inv s2"
    using inv grow(3-5) oks by (auto simp: slab_inv_def s2)
  have live: "slab_live s2 = slab_live s"
  proof (rule ext)
    fix p
    have "slab_live s2 p = Some n \<longleftrightarrow> slab_live s p = Some n" for n
    proof -
      have "\<not> (i < unat (pw m ?P 3) \<and> \<not> slab_bit m ?P i)" for i
        unfolding m(5) using m(7) [of i] cap by auto
      moreover have "(\<exists>i. i < unat (pw m Q 3) \<and> \<not> slab_bit m Q i \<and> p = obj_at m Q i \<and> n = unat (pw m Q 2)) \<longleftrightarrow>
          (\<exists>i. i < unat (pw ?m Q 3) \<and> \<not> slab_bit ?m Q i \<and> p = obj_at ?m Q i \<and> n = unat (pw ?m Q 2))"
        if Q: "Q \<in> slab_pages s" for Q
      proof -
        have "slab_bit m Q i = slab_bit ?m Q i" if "i < unat (pw ?m Q 3)" for i
        proof -
          have "i < 128" using that slab_geometry(4) [of ?m Q] inv Q by (auto simp: slab_inv_def)
          then show ?thesis using keep [OF Q, of "5 + i div 32"] by (simp add: slab_bit_def)
        qed
        then show ?thesis using keep [OF Q, of 2] keep [OF Q, of 3] by (auto simp: obj_at_def)
      qed
      ultimately show ?thesis
        unfolding slab_live_iff [OF inv2] slab_live_iff [OF inv] s2(2) grow(1) by blast
    qed
    then show "slab_live s2 p = slab_live s p" by (metis not_None_eq)
  qed
  have mem: "m x = ?m x" if "slab_live s q = Some n" "x \<in> block_at q n" for x q n
  proof -
    have "x \<notin> hdr_bytes s2" using live_not_hdr [OF inv2] live that by simp
    then show ?thesis using grow(1) by (intro m(9)) (auto simp: hdr_bytes_def not_le)
  qed
  show thesis
    by (rule created [OF m(1) P0, folded s2_def, OF inv2 new live]) (use mem 2(1) P0 in simp_all)
qed

lemma find_cache_from:
  "0 \<le> i \<Longrightarrow> find_cache_from sz i cs = - 1 \<or> (\<exists>k < length cs. find_cache_from sz i cs = i + int k \<and> sz \<le> cs ! k)"
proof (induction cs arbitrary: i)
  case (Cons c cs)
  show ?case
  proof (cases "sz \<le> c")
    case False
    then have "find_cache_from sz i (c # cs) = find_cache_from sz (i + 1) cs" by simp
    moreover have "find_cache_from sz (i + 1) cs = - 1 \<or>
        (\<exists>k < length cs. find_cache_from sz (i + 1) cs = i + 1 + int k \<and> sz \<le> cs ! k)" using Cons by simp
    ultimately show ?thesis by (metis add.assoc add.commute length_Cons not_less_eq nth_Cons_Suc of_nat_Suc)
  qed auto
qed simp

lemma find_cache:
  assumes "\<not> find_cache sz < 0"
  shows "nat (find_cache sz) < NUM_CACHES" "sz \<le> cache_sizes ! nat (find_cache sz)"
proof -
  obtain k where "k < length cache_sizes" "find_cache sz = int k" "sz \<le> cache_sizes ! k"
    using find_cache_from [of 0 sz cache_sizes] assms by (auto simp: find_cache_def)
  then show "nat (find_cache sz) < NUM_CACHES" "sz \<le> cache_sizes ! nat (find_cache sz)"
    by (simp_all add: NUM_CACHES_def cache_sizes_def)
qed

text \<open>When the code refuses a request, and what it leaves alone.\<close>

definition slab_refused :: "('b, 'v) slab_state \<Rightarrow> u32 \<Rightarrow> bool" where
  "slab_refused s sz \<longleftrightarrow> sz = 0 \<or> find_cache sz < 0 \<or>
     sc_partial (caches s ! nat (find_cache sz)) = 0 \<and> fst (slab_get_page s) = 0"

lemma slab_take_frame: "slab_take ci s = (p, s') \<Longrightarrow>
    kh_vm s' = kh_vm s \<and> slab_brk s' = slab_brk s \<and> slab_committed s' = slab_committed s"
  by (auto simp: slab_take_def set_cache_def Let_def split: if_splits)

lemma heap_slab_alloc_frame:
  assumes "heap_slab_alloc sz s = Some (p, s')"
  defines "t \<equiv> (if sz = 0 \<or> find_cache sz < 0 \<or> sc_partial (caches s ! nat (find_cache sz)) \<noteq> 0 then s else snd (slab_get_page s))"
  shows "kh_vm s' = kh_vm t \<and> slab_brk s' = slab_brk t \<and> slab_committed s' = slab_committed t"
proof -
  have c: "kh_vm (snd (slab_create ci s)) = kh_vm (snd (slab_get_page s)) \<and> slab_brk (snd (slab_create ci s)) = slab_brk (snd (slab_get_page s)) \<and>
      slab_committed (snd (slab_create ci s)) = slab_committed (snd (slab_get_page s))" for ci
    by (simp add: slab_create_def Let_def split: prod.split)
  define ci where "ci = nat (find_cache sz)"
  obtain P s1 where P: "slab_create ci s = (P, s1)" by (cases "slab_create ci s")
  note c [of ci, unfolded P, simplified]
  then show ?thesis using assms(1) unfolding t_def heap_slab_alloc_def Let_def ci_def [symmetric] P prod.case
    by (auto simp: set_cache_def P dest!: slab_take_frame split: if_splits)
qed

lemma heap_slab_alloc_ok:
  assumes inv: "slab_inv s"
  shows "\<exists>p s'. heap_slab_alloc sz s = Some (p, s') \<and> slab_inv s' \<and> (p = 0 \<longleftrightarrow> slab_refused s sz) \<and>
    (if p = 0 then slab_live s' = slab_live s
     else slab_live s p = None \<and> (\<exists>k. unat sz \<le> k \<and> slab_live s' = (slab_live s)(p \<mapsto> k))) \<and>
    (\<forall>q k. slab_live s q = Some k \<longrightarrow> (\<forall>x \<in> block_at q k. kh_mem s' x = kh_mem s x))"
proof (cases "sz = 0 \<or> find_cache sz < 0")
  case True
  then show ?thesis using inv by (auto simp: heap_slab_alloc_def slab_refused_def)
next
  case False
  define ci where "ci = nat (find_cache sz)"
  have rf: "slab_refused s sz \<longleftrightarrow> sc_partial (caches s ! ci) = 0 \<and> fst (slab_get_page s) = 0"
    using False by (simp add: slab_refused_def ci_def)
  have ci: "ci < NUM_CACHES" "unat sz \<le> unat (cache_sizes ! ci)"
    using False find_cache [of sz] by (simp_all add: ci_def word_le_nat_alt)
  note alloc = heap_slab_alloc_def Let_def
  have take: ?thesis
    if run: "heap_slab_alloc sz s = Some (slab_take ci s1)" and c: "slab_inv s1" "cache_ok s1 ci (P # ps) fs"
      "slab_live s1 = slab_live s"
      "\<And>x q n. slab_live s q = Some n \<Longrightarrow> x \<in> block_at q n \<Longrightarrow> kh_mem s1 x = kh_mem s x" "\<not> slab_refused s sz" for s1 P ps fs
  proof -
    from slab_take_ok [OF c(1) ci(1) c(2)] obtain p s' where t: "slab_take ci s1 = (p, s')" "slab_inv s'" "p \<noteq> 0"
      "slab_live s1 p = None" "slab_live s' = (slab_live s1)(p \<mapsto> unat (cache_sizes ! ci))"
      "\<And>x. x \<notin> hdr_bytes s1 \<Longrightarrow> kh_mem s' x = kh_mem s1 x" by metis
    have "kh_mem s' x = kh_mem s x" if "slab_live s q = Some k" "x \<in> block_at q k" for q k x
      using live_not_hdr [OF c(1), of q k x] that c(3,4) t(6) by simp
    then show ?thesis using run t c(3,5) ci(2) by auto
  qed
  show ?thesis
  proof (cases "sc_partial (caches s ! ci) = 0")
    case p0: True
    show ?thesis
    proof (cases rule: slab_create_ok [OF inv ci(1) p0])
      case (1 s1)
      then have "heap_slab_alloc sz s = Some (0, s1)" using False p0 by (simp add: alloc ci_def [symmetric])
      moreover have "slab_refused s sz" using 1(5) p0 by (simp add: rf)
      ultimately show ?thesis using 1 by simp
    next
      case (2 P s1 fs)
      then have "heap_slab_alloc sz s = Some (slab_take ci (set_cache ci (\<lambda>c. c\<lparr>sc_partial := P\<rparr>) s1))"
        using False p0 by (simp add: alloc ci_def [symmetric])
      then show ?thesis by (rule take [OF _ 2(3,4,5)]) (use 2(6,7) in \<open>simp_all add: set_cache_def rf\<close>)
    qed
  next
    case p1: False
    obtain ps fs where c: "cache_ok s ci ps fs" using inv ci by (auto simp: slab_inv_def)
    then obtain P qs where "ps = P # qs" using p1 by (cases ps) (auto simp: cache_ok_def)
    moreover have "heap_slab_alloc sz s = Some (slab_take ci s)" using False p1 by (simp add: alloc ci_def [symmetric])
    moreover have "\<not> slab_refused s sz" using p1 by (simp add: rf)
    ultimately show ?thesis using take [of s P qs fs] c inv by simp
  qed
qed

section \<open>Giving a slot back\<close>

lemma find_link:
  "slist m (as @ P # bs) h \<Longrightarrow> 0 \<notin> set as \<Longrightarrow> P \<notin> set as \<Longrightarrow>
    slab_find_link m P pp h = Some (if as = [] then pp else Some (last as), P)"
proof (induction as arbitrary: pp h)
  case Nil
  then show ?case by (subst slab_find_link.simps) simp
next
  case (Cons a as)
  then have "slab_find_link m P pp h = slab_find_link m P (Some a) (pw m a 0)"
    by (subst slab_find_link.simps) (auto simp: header_words)
  moreover have "slab_find_link m P (Some a) (pw m a 0) = Some (if as = [] then Some a else Some (last as), P)"
    by (rule Cons.IH) (use Cons.prems in simp_all)
  ultimately show ?case by simp
qed

lemma slist_unlink:
  assumes "slist m (as @ P # bs) h" "distinct (as @ P # bs)"
    and "\<And>Q. Q \<in> set (as @ bs) \<Longrightarrow> pw m' Q 0 = (if as \<noteq> [] \<and> Q = last as then pw m P 0 else pw m Q 0)"
  shows "slist m' (as @ bs) (if as = [] then pw m P 0 else h)"
  using assms
proof (induction as arbitrary: h)
  case Nil
  then show ?case using slist_cong [of m bs "pw m P 0" m'] by simp
next
  case (Cons a as)
  have "slist m' (as @ bs) (if as = [] then pw m P 0 else pw m a 0)"
    by (rule Cons.IH) (use Cons.prems in auto)
  moreover have "pw m' a 0 = (if as = [] then pw m P 0 else pw m a 0)"
    using Cons.prems(2) Cons.prems(3) [of a] by auto
  ultimately show ?case using Cons.prems(1) by (auto split: if_splits)
qed

text \<open>The address of an object leads back to its slab and slot.\<close>

lemma slot_of_obj:
  assumes "page_aligned P" "slab_ok m P" "i < unat (pw m P 3)"
  defines "p \<equiv> obj_at m P i" and "idx \<equiv> of_nat i :: u32"
  shows "p \<noteq> 0" "p AND NOT (VMM_PAGE_SIZE - 1) = P" "(p - P - SLAB_HDR_SIZE) div pw m P 2 = idx" "pw m P 2 \<noteq> 0"
    "\<not> pw m P 3 \<le> idx" "unat idx = i" "unat idx < 128"
proof -
  note geo = slab_geometry [OF assms(2)]
  have z0: "unat (pw m P 2) \<noteq> 0" using geo(1) by auto
  then show "pw m P 2 \<noteq> 0" by auto
  have u: "unat p = unat P + 40 + i * unat (pw m P 2)" unfolding p_def by (rule unat_obj_at [OF assms(1-3)])
  then show "p \<noteq> 0" by auto
  have in_page: "40 + i * unat (pw m P 2) < 4096" using slot_end [OF assms(2,3)] geo(1) by simp
  show "p AND NOT (VMM_PAGE_SIZE - 1) = P"
    using align_down_obj [OF assms(1), of p "40 + i * unat (pw m P 2)"] u in_page
    by (simp add: align_down_u32_def VMM_PAGE_SIZE_def)
  show idx: "unat idx = i" "unat idx < 128" using assms(3) geo(4) by (simp_all add: idx_def unat_of_nat)
  have "unat (p - P - SLAB_HDR_SIZE) = i * unat (pw m P 2)" using u by (simp add: unat_sub word_le_nat_alt)
  then have "unat ((p - P - SLAB_HDR_SIZE) div pw m P 2) = i" using z0 by (simp add: unat_div)
  then show "(p - P - SLAB_HDR_SIZE) div pw m P 2 = idx" using idx(1) by (simp add: word_unat_eq_iff)
  show "\<not> pw m P 3 \<le> idx" using assms(3) idx(1) by (simp add: word_le_nat_alt)
qed

lemma heap_slab_free_ok:
  assumes inv: "slab_inv s" and live: "slab_live s p = Some n"
  obtains s' where "heap_slab_free p s = Some s'" "slab_inv s'" "slab_live s' = (slab_live s)(p := None)"
    "\<And>x. x \<notin> hdr_bytes s \<Longrightarrow> kh_mem s' x = kh_mem s x"
proof -
  note result = that
  let ?m = "kh_mem s"
  obtain P i where P: "P \<in> slab_pages s" "i < unat (pw ?m P 3)" "\<not> slab_bit ?m P i" "p = obj_at ?m P i"
    using live unfolding slab_live_iff [OF inv] by blast
  have ok: "slab_ok ?m P" "page_aligned P" using inv P(1) by (auto simp: slab_inv_def slab_pages_def)
  note geo = slab_geometry [OF ok(1)]
  define idx :: u32 where "idx = of_nat i"
  note obj = slot_of_obj [OF ok(2,1) P(2), folded P(4) idx_def]
  note down = obj(2) and slot = obj(3) and idx = obj(6,7)
  define m1 where "m1 = bitmap_set_bit (sl_bitmap P) idx ?m"
  have fl: "flips P idx ?m m1" by (simp add: flips_def m1_def)
  define m2 where "m2 = pset P 4 (pw ?m P 4 + 1) m1"
  have w2: "pw m2 Q k = (if Q = P \<and> k = 4 then pw ?m P 4 + 1 else pw ?m Q k)"
    if "page_aligned Q" "k < 9" "Q \<noteq> P \<or> k < 5" for Q k
    using that flips_words(1) [OF fl idx(2) ok(2)] ok(2) by (auto simp: m2_def pw_pset)
  have b2: "slab_bit m2 Q j \<longleftrightarrow> (if Q = P then slab_bit ?m P j \<or> j = i else slab_bit ?m Q j)"
    if "page_aligned Q" "j < 128" for Q j
    using that ok(2) slab_bit_other [OF ok(2) that(1) _ fl idx(2) that(2)] slab_bit_change(2) [OF ok(2) idx(2) that(2), of ?m]
    by (auto simp: m2_def slab_bit_pset m1_def [symmetric] idx(1))
  have le: "unat (pw ?m P 4) \<le> 126"
  proof -
    have "card (slots ?m P) \<le> card {..<unat (pw ?m P 3)}" by (intro card_mono) (auto simp: slots_def)
    then show ?thesis using ok(1) geo(4) by (simp add: slab_ok_def)
  qed
  have c1: "unat (pw ?m P 4 + 1) = unat (pw ?m P 4) + 1" "pw ?m P 4 + 1 \<noteq> 0"
  proof -
    show "unat (pw ?m P 4 + 1) = unat (pw ?m P 4) + 1" using le by (subst unat_add_no_wrap) simp_all
    then show "pw ?m P 4 + 1 \<noteq> 0" by auto
  qed
  have card: "unat (pw ?m P 4 + 1) = card {j. j < unat (pw ?m P 3) \<and> (slab_bit ?m P j \<or> j = i)}"
  proof -
    have "{j. j < unat (pw ?m P 3) \<and> (slab_bit ?m P j \<or> j = i)} = insert i (slots ?m P)" using P(2) by (auto simp: slots_def)
    moreover have "i \<notin> slots ?m P" "finite (slots ?m P)" using P(3) by (simp_all add: slots_def)
    ultimately show ?thesis using ok(1) c1(1) by (simp add: slab_ok_def)
  qed
  have aligned: "page_aligned Q" if "Q \<in> slab_pages s" for Q using that by (simp add: slab_pages_def)
  define ci where "ci = unat (pw ?m P 1)"
  have ci: "ci < NUM_CACHES" using ok(1) by (simp add: slab_ok_def ci_def)
  have len: "ci < length (caches s)" using inv_length [OF inv] ci by simp
  text \<open>The words of the final state, in both cases, suffice for the invariant.\<close>
  have finish: thesis
    if run: "heap_slab_free p s = Some s'" and brk: "slab_brk s' = slab_brk s"
      and sizes: "map sc_obj_size (caches s') = map sc_obj_size (caches s)"
      and w': "\<And>Q k. page_aligned Q \<Longrightarrow> 0 < k \<Longrightarrow> k < 5 \<Longrightarrow> pw (kh_mem s') Q k = (if Q = P \<and> k = 4 then pw ?m P 4 + 1 else pw ?m Q k)"
      and b': "\<And>Q j. page_aligned Q \<Longrightarrow> j < 128 \<Longrightarrow> slab_bit (kh_mem s') Q j = slab_bit m2 Q j"
      and cok: "\<And>cj. cj < NUM_CACHES \<Longrightarrow> \<exists>ps fs. cache_ok s' cj ps fs"
      and mem: "\<And>x. x \<notin> hdr_bytes s \<Longrightarrow> kh_mem s' x = ?m x" for s'
  proof -
    have ch: "bits_change P (\<lambda>j. slab_bit ?m P j \<or> j = i) s s'"
      using brk sizes aligned w' b' b2 by (auto simp: bits_change_def)
    have inv': "slab_inv s'"
      by (rule bits_change_ok [OF inv ch P(1) _ cok]) (use w' ok(2) card in simp_all)
    show thesis
      by (rule result [OF run inv' _ mem]) (simp add: live_give [OF inv inv' P(1-3) ch] P(4))
  qed
  have out: "m2 x = ?m x" if x: "x \<notin> hdr_bytes s" for x
  proof -
    have "unat x < unat P \<or> unat P + 40 \<le> unat x" using x P(1) by (auto simp: hdr_bytes_def not_le)
    then have "m1 x = ?m x" by (rule flips_words(2) [OF fl idx(2) ok(2)])
    then show ?thesis using pset_not_hdr [OF x P(1)] by (simp add: m2_def)
  qed
  have m14: "pw m1 P 4 = pw ?m P 4" using flips_words(1) [OF fl idx(2) ok(2,2), of 4] by simp
  note run = heap_slab_free_def Let_def header_words down slot
  show thesis
  proof (cases "pw ?m P 4 = 0")
    case False
    let ?s' = "s\<lparr>kh_mem := m2\<rparr>"
    have "heap_slab_free p s = Some ?s'"
      using False obj(1,4,5) m14 by (simp add: run m1_def [symmetric] m2_def [symmetric] del: hdr40)
    moreover have pages: "slab_pages ?s' = slab_pages s" by (simp add: slab_pages_def)
    have "\<exists>ps fs. cache_ok ?s' cj ps fs" if cj: "cj < NUM_CACHES" for cj
    proof -
      obtain ps fs where "cache_ok s cj ps fs" using inv cj by (auto simp: slab_inv_def)
      then have "cache_ok ?s' cj ps fs"
        by (rule cache_ok_other) (use pages aligned w2 False c1(2) in simp_all)
      then show ?thesis by blast
    qed
    ultimately show thesis
      by (intro finish [of ?s']) (use w2 out in simp_all)
  next
    case True
    obtain ps fs where c: "cache_ok s ci ps fs" using inv ci by (auto simp: slab_inv_def)
    note o = c [unfolded cache_ok_def]
    have "P \<in> set fs" using o P(1) True by (simp add: ci_def)
    then obtain as bs where fs: "fs = as @ P # bs" by (auto dest: split_list)
    have in_pages: "Q \<in> slab_pages s" if "Q \<in> set ps \<union> set fs" for Q using o that by auto
    then have al: "page_aligned Q" if "Q \<in> set ps \<union> set fs" for Q using that aligned by blast
    have zero: "0 \<notin> set fs" using in_pages pages_nonzero by blast
    have dist: "distinct (as @ P # bs)" using o fs by simp
    have Pps: "P \<notin> set ps" using o True by simp
    have last: "last as \<in> slab_pages s \<and> last as \<noteq> P \<and> last as \<notin> set ps" if "as \<noteq> []"
    proof -
      have l: "last as \<in> set as" "last as \<in> set fs" using that fs by simp_all
      then have "last as \<notin> set ps" using o by simp
      then show ?thesis using l dist in_pages [of "last as"] by auto
    qed
    let ?old = "sc_partial (caches s ! ci)" and ?next = "pw ?m P 0"
    define m3 where "m3 = (if as = [] then m2 else pset (last as) 0 ?next m2)"
    define s' where "s' = s\<lparr>kh_mem := pset P 0 ?old m3,
      caches := (caches s)[ci := (caches s ! ci)\<lparr>sc_full := (if as = [] then ?next else sc_full (caches s ! ci)), sc_partial := P\<rparr>]\<rparr>"
    have w': "pw (kh_mem s') Q k = (if Q = P \<and> k = 4 then pw ?m P 4 + 1 else if Q = P \<and> k = 0 then ?old
        else if as \<noteq> [] \<and> Q = last as \<and> k = 0 then ?next else pw ?m Q k)" if "page_aligned Q" "k < 5" for Q k
      using w2 [of Q k] that ok(2) last aligned [of "last as"] by (auto simp: s'_def m3_def pw_pset)
    have b': "slab_bit (kh_mem s') Q j = slab_bit m2 Q j" if "page_aligned Q" "j < 128" for Q j
      using that ok(2) last aligned [of "last as"] by (auto simp: s'_def m3_def slab_bit_pset)
    have words2: "pw m2 P 0 = ?next" "unat (pw m2 P (Suc 0)) = ci" "pset P 4 (pw m1 P 4 + 1) m1 = m2"
      using w2 [OF ok(2), of 0] w2 [OF ok(2), of 1] m14 by (simp_all add: ci_def m2_def)
    have link: "slab_find_link m2 P None (sc_full (caches s ! ci)) = Some (if as = [] then None else Some (last as), P)"
    proof (rule find_link)
      have "slist ?m fs (sc_full (caches s ! ci))" using o by simp
      then show "slist m2 (as @ P # bs) (sc_full (caches s ! ci))"
        unfolding fs [symmetric] by (rule slist_cong) (use al w2 in simp)
    qed (use zero fs dist in auto)
    have ci': "\<not> NUM_CACHES \<le> ci" using ci by simp
    have "heap_slab_free p s = Some s'"
      using obj(1,4,5) True words2 link ci' pages_nonzero [OF P(1)] len
      by (simp add: run m1_def [symmetric] s'_def m3_def set_cache_def del: hdr40)
    moreover have pages: "slab_pages s' = slab_pages s" by (simp add: slab_pages_def s'_def)
    have w1: "pw (kh_mem s') Q 1 = pw ?m Q 1" "pw (kh_mem s') Q 4 = (if Q = P then pw ?m P 4 + 1 else pw ?m Q 4)"
      if "Q \<in> slab_pages s" for Q
      using w' [OF aligned [OF that], of 1] w' [OF aligned [OF that], of 4] by simp_all
    have "\<exists>ps fs. cache_ok s' cj ps fs" if cj: "cj < NUM_CACHES" for cj
    proof (cases "cj = ci")
      case False
      obtain ps' fs' where "cache_ok s cj ps' fs'" using inv cj by (auto simp: slab_inv_def)
      then have "cache_ok s' cj ps' fs'"
      proof (rule cache_ok_other)
        show "caches s' ! cj = caches s ! cj" using False by (simp add: s'_def)
        fix Q assume Q: "Q \<in> slab_pages s" "unat (pw ?m Q 1) = cj"
        have "as \<noteq> [] \<Longrightarrow> unat (pw ?m (last as) 1) = ci" using o fs by auto
        then show "pw (kh_mem s') Q 0 = pw ?m Q 0 \<and> (pw (kh_mem s') Q 4 = 0 \<longleftrightarrow> pw ?m Q 4 = 0)"
          using Q False aligned w' ci_def by auto
      qed (use pages w1 in auto)
      then show ?thesis by blast
    next
      case here: True
      have w4: "pw (kh_mem s') Q 4 = 0 \<longleftrightarrow> Q \<noteq> P \<and> pw ?m Q 4 = 0" if "Q \<in> slab_pages s" for Q
        using w1(2) [OF that] c1(2) by presburger
      have sel: "{Q \<in> slab_pages s'. unat (pw (kh_mem s') Q 1) = ci \<and> pw (kh_mem s') Q 4 \<noteq> 0} =
          {Q \<in> slab_pages s. unat (pw ?m Q 1) = ci \<and> (Q = P \<or> pw ?m Q 4 \<noteq> 0)}"
        "{Q \<in> slab_pages s'. unat (pw (kh_mem s') Q 1) = ci \<and> pw (kh_mem s') Q 4 = 0} =
          {Q \<in> slab_pages s. unat (pw ?m Q 1) = ci \<and> Q \<noteq> P \<and> pw ?m Q 4 = 0}"
        unfolding pages
        by (rule Collect_cong, rule conj_cong [OF refl], simp only: w1(1) w4 de_Morgan_conj not_not)+
      have w0: "pw (kh_mem s') Q 0 = (if Q = P then ?old else if as \<noteq> [] \<and> Q = last as then ?next else pw ?m Q 0)"
        if "Q \<in> set ps \<union> set fs" for Q using w' [OF al [OF that], of 0] by simp
      have l1: "slist ?m ps ?old" "slist ?m (as @ P # bs) (sc_full (caches s ! ci))" using o fs by blast+
      have "pw (kh_mem s') Q 0 = pw ?m Q 0" if "Q \<in> set ps" for Q
        using w0 [of Q] that Pps last by (cases "as = []"; cases "Q = last as"; cases "Q = P") simp_all
      then have "slist (kh_mem s') ps ?old" by (rule slist_cong [OF l1(1)])
      moreover have "slist (kh_mem s') (as @ bs) (if as = [] then ?next else sc_full (caches s ! ci))"
      proof (rule slist_unlink [OF l1(2) dist])
        fix Q assume Q: "Q \<in> set (as @ bs)"
        then have "Q \<noteq> P" "Q \<in> set ps \<union> set fs" using dist fs by auto
        then show "pw (kh_mem s') Q 0 = (if as \<noteq> [] \<and> Q = last as then ?next else pw ?m Q 0)"
          using w0 [of Q] by simp
      qed
      moreover have "set (P # ps) = {Q \<in> slab_pages s'. unat (pw (kh_mem s') Q 1) = ci \<and> pw (kh_mem s') Q 4 \<noteq> 0}"
      proof -
        have "set ps = {Q \<in> slab_pages s. unat (pw ?m Q 1) = ci \<and> pw ?m Q 4 \<noteq> 0}" using o by blast
        then show ?thesis unfolding sel using P(1) ci_def [symmetric] by auto
      qed
      moreover have "set (as @ bs) = {Q \<in> slab_pages s'. unat (pw (kh_mem s') Q 1) = ci \<and> pw (kh_mem s') Q 4 = 0}"
      proof -
        have "set (as @ bs) = set fs - {P}" using dist fs by auto
        moreover have "set fs = {Q \<in> slab_pages s. unat (pw ?m Q 1) = ci \<and> pw ?m Q 4 = 0}" using o by blast
        ultimately show ?thesis unfolding sel by auto
      qed
      moreover have "pw (kh_mem s') P 0 = ?old" using w' [OF ok(2), of 0] by simp
      ultimately have "cache_ok s' ci (P # ps) (as @ bs)"
        using o dist Pps len by (simp add: cache_ok_def s'_def)
      then show ?thesis using here by blast
    qed
    moreover have "kh_mem s' x = ?m x" if "x \<notin> hdr_bytes s" for x
      using out [OF that] pset_not_hdr [OF that] P(1) last by (simp add: s'_def m3_def)
    ultimately show thesis
      using w' b' by (intro finish [of s']) (simp_all add: s'_def)
  qed
qed

section \<open>A client writes its own bytes\<close>

definition slab_poke :: "u32 \<Rightarrow> u8 \<Rightarrow> ('b, 'v) slab_state \<Rightarrow> ('b, 'v) slab_state" where
  "slab_poke x v s = s\<lparr>kh_mem := (kh_mem s)(x := v)\<rparr>"

lemma pw_upd_out:
  assumes "page_aligned Q" "k < 9" "unat x < unat Q \<or> unat Q + 40 \<le> unat x"
  shows "pw (m(x := v)) Q k = pw m Q k"
proof -
  have u: "unat (Q + of_nat (4 * k)) = unat Q + 4 * k"
    using assms(1,2) by (simp add: unat_page_off del: of_nat_mult)
  show ?thesis
    unfolding pw_def using u assms page_room [OF assms(1)] by (intro rd32_cong) auto
qed

text \<open>The slabs' invariant and objects depend only on the header words.\<close>

lemma header_frame:
  assumes "slab_inv s" "slab_brk s' = slab_brk s" "caches s' = caches s"
    and "\<And>Q k. Q \<in> slab_pages s \<Longrightarrow> k < 9 \<Longrightarrow> pw (kh_mem s') Q k = pw (kh_mem s) Q k"
  shows "slab_inv s'" "slab_live s' = slab_live s"
proof -
  have pages: "slab_pages s' = slab_pages s" using assms(2) by (simp add: slab_pages_def)
  have cok: "cache_ok s' ci ps fs" if "cache_ok s ci ps fs" for ci ps fs
    using that by (rule cache_ok_other) (use assms(3,4) pages in simp_all)
  show inv': "slab_inv s'"
    using assms cok pages slab_ok_cong [of "kh_mem s" _ "kh_mem s'"] unfolding slab_inv_def by metis
  show "slab_live s' = slab_live s"
  proof (rule ext)
    fix p
    have "slab_live s' p = Some n \<longleftrightarrow> slab_live s p = Some n" for n
    proof -
      have "slab_bit (kh_mem s') Q i = slab_bit (kh_mem s) Q i"
        if "Q \<in> slab_pages s" "i < unat (pw (kh_mem s) Q 3)" for Q i
      proof -
        have "i < 128" using that slab_geometry(4) [of "kh_mem s" Q] assms(1) by (auto simp: slab_inv_def)
        then show ?thesis using assms(4) [OF that(1), of "5 + i div 32"] by (simp add: slab_bit_def)
      qed
      then show ?thesis
        unfolding slab_live_iff [OF inv'] slab_live_iff [OF assms(1)] pages
        by (intro bex_cong refl ex_cong1) (auto simp: assms(4) obj_at_def)
    qed
    then show "slab_live s' p = slab_live s p" by (metis not_None_eq)
  qed
qed

section \<open>The contract\<close>

lemma slab_live_block:
  assumes "slab_inv s" "slab_live s p = Some n"
  shows "p \<noteq> 0 \<and> 8 dvd unat p \<and> unat p + n \<le> 2 ^ 32"
proof -
  let ?m = "kh_mem s"
  obtain P i where P: "P \<in> slab_pages s" "i < unat (pw ?m P 3)" "p = obj_at ?m P i" "n = unat (pw ?m P 2)"
    using assms(2) unfolding slab_live_iff [OF assms(1)] by blast
  have ok: "page_aligned P" "slab_ok ?m P" using assms(1) P(1) by (auto simp: slab_inv_def slab_pages_def)
  have u: "unat p = unat P + 40 + i * n" unfolding P(3,4) by (rule unat_obj_at [OF ok P(2)])
  have "8 dvd unat P" using ok(1) unfolding page_aligned_iff by (rule dvd_trans [rotated]) simp
  moreover have "8 dvd n" using slab_geometry(2) [OF ok(2)] P(4) by simp
  ultimately have "8 dvd unat p" unfolding u by (intro dvd_add dvd_mult) simp_all
  moreover have "unat p + n \<le> 2 ^ 32"
    using u page_room [OF ok(1)] slot_end [OF ok(2) P(2)] P(4) by simp
  moreover have "p \<noteq> 0" using u by auto
  ultimately show ?thesis by blast
qed

lemma slab_live_disjoint:
  assumes "slab_inv s" "slab_live s p = Some n" "slab_live s q = Some k" "p \<noteq> q"
  shows "block_at p n \<inter> block_at q k = {}"
proof -
  let ?m = "kh_mem s"
  obtain P i where P: "P \<in> slab_pages s" "i < unat (pw ?m P 3)" "p = obj_at ?m P i" "n = unat (pw ?m P 2)"
    using assms(2) unfolding slab_live_iff [OF assms(1)] by blast
  obtain Q j where Q: "Q \<in> slab_pages s" "j < unat (pw ?m Q 3)" "q = obj_at ?m Q j" "k = unat (pw ?m Q 2)"
    using assms(3) unfolding slab_live_iff [OF assms(1)] by blast
  have ok: "page_aligned P" "slab_ok ?m P" "page_aligned Q" "slab_ok ?m Q"
    using assms(1) P(1) Q(1) by (auto simp: slab_inv_def slab_pages_def)
  show ?thesis
    unfolding P(3,4) Q(3,4) by (rule obj_blocks_apart [OF ok(1,2) P(2) ok(3,4) Q(2)]) (use assms(4) P(3) Q(3) in auto)
qed

lemma slab_poke_ok:
  assumes inv: "slab_inv s" and live: "slab_live s p = Some n" "x \<in> block_at p n"
  shows "slab_inv (slab_poke x v s)" "slab_live (slab_poke x v s) = slab_live s"
proof -
  have "x \<notin> hdr_bytes s" by (rule live_not_hdr [OF inv live])
  then have w: "pw (kh_mem (slab_poke x v s)) Q k = pw (kh_mem s) Q k" if "Q \<in> slab_pages s" "k < 9" for Q k
    using that unfolding slab_poke_def by (simp, intro pw_upd_out) (auto simp: hdr_bytes_def slab_pages_def not_le)
  have "slab_brk (slab_poke x v s) = slab_brk s" "caches (slab_poke x v s) = caches s" by (simp_all add: slab_poke_def)
  then show "slab_inv (slab_poke x v s)" "slab_live (slab_poke x v s) = slab_live s" using header_frame [OF inv _ _ w] by simp_all
qed

lemma heap_slab_free_frame: "heap_slab_free p s = Some s' \<Longrightarrow>
    kh_vm s' = kh_vm s \<and> slab_brk s' = slab_brk s \<and> slab_committed s' = slab_committed s"
  by (auto simp: heap_slab_free_def set_cache_def Let_def split: if_splits option.splits prod.splits)

text \<open>A size has a slot to give exactly when not every slot on its pages holds an object.\<close>

definition class_size :: "u32 \<Rightarrow> nat option" where
  "class_size n = (if n = 0 then None else find (\<lambda>c. unat n \<le> c) [32, 64, 128, 256, 512, 1024, 2048])"

definition no_slot :: "('b, 'v) slab_state \<Rightarrow> nat \<Rightarrow> bool" where
  "no_slot s c \<longleftrightarrow> (\<forall>P \<in> slab_pages s. unat (sl_obj_size (kh_mem s) P) = c \<longrightarrow>
     (\<forall>i < (4096 - 40) div c. slab_live s (P + of_nat (40 + i * c)) \<noteq> None))"

lemma find_class:
  "class_size n = (if n = 0 \<or> find_cache n < 0 then None else Some (unat (cache_sizes ! nat (find_cache n))))"
  by (simp add: class_size_def find_cache_def cache_sizes_def word_le_nat_alt)

lemma cache_sizes_inj: "i < NUM_CACHES \<Longrightarrow> j < NUM_CACHES \<Longrightarrow> unat (cache_sizes ! i) = unat (cache_sizes ! j) \<longleftrightarrow> i = j"
proof -
  have "distinct cache_sizes" "length cache_sizes = 7" by (simp_all add: cache_sizes_def)
  then show "i < NUM_CACHES \<Longrightarrow> j < NUM_CACHES \<Longrightarrow> unat (cache_sizes ! i) = unat (cache_sizes ! j) \<longleftrightarrow> i = j"
    using nth_eq_iff_index_eq [of cache_sizes i j] by (simp add: NUM_CACHES_def word_unat_eq_iff [symmetric])
qed

lemma partial_empty:
  assumes inv: "slab_inv s" and ci: "ci < NUM_CACHES"
  shows "sc_partial (caches s ! ci) = 0 \<longleftrightarrow> no_slot s (unat (cache_sizes ! ci))"
proof -
  let ?m = "kh_mem s" and ?c = "unat (cache_sizes ! ci)"
  obtain ps fs where c: "cache_ok s ci ps fs" using inv ci by (auto simp: slab_inv_def)
  have ps: "set ps = {P \<in> slab_pages s. unat (pw ?m P 1) = ci \<and> pw ?m P 4 \<noteq> 0}" "slist ?m ps (sc_partial (caches s ! ci))"
    using c unfolding cache_ok_def by blast+
  then have "0 \<notin> set ps" using pages_nonzero by auto
  then have "sc_partial (caches s ! ci) = 0 \<longleftrightarrow> set ps = {}" using slist_head [OF ps(2)] by simp
  also have "\<dots> \<longleftrightarrow> (\<forall>P \<in> slab_pages s. unat (pw ?m P 1) = ci \<longrightarrow> pw ?m P 4 = 0)" unfolding ps(1) by blast
  also have "\<dots> \<longleftrightarrow> no_slot s ?c"
    unfolding no_slot_def header_words
  proof (rule ball_cong [OF refl])
    fix P assume P: "P \<in> slab_pages s"
    have ok: "slab_ok ?m P" "page_aligned P" using inv P by (auto simp: slab_inv_def slab_pages_def)
    have idx: "unat (pw ?m P 1) < NUM_CACHES" "pw ?m P 2 = cache_sizes ! unat (pw ?m P 1)" using ok(1) by (simp_all add: slab_ok_def)
    have cl: "unat (pw ?m P 2) = ?c \<longleftrightarrow> unat (pw ?m P 1) = ci" unfolding idx(2) by (rule cache_sizes_inj [OF idx(1) ci])
    have cap: "unat (pw ?m P 3) = (4096 - 40) div unat (pw ?m P 2)"
      using ok(1) by (simp add: slab_ok_def unat_div VMM_PAGE_SIZE_def)
    have "finite (slots ?m P)" by (simp add: slots_def)
    then have "pw ?m P 4 = 0 \<longleftrightarrow> slots ?m P = {}" using ok(1) by (simp add: slab_ok_def unat_eq_0 [symmetric])
    also have "\<dots> \<longleftrightarrow> (\<forall>i < unat (pw ?m P 3). slab_live s (obj_at ?m P i) \<noteq> None)"
    proof -
      have "slab_live s (obj_at ?m P i) \<noteq> None \<longleftrightarrow> \<not> slab_bit ?m P i" if i: "i < unat (pw ?m P 3)" for i
      proof
        assume "slab_live s (obj_at ?m P i) \<noteq> None"
        then obtain Q j where Q: "Q \<in> slab_pages s" "j < unat (pw ?m Q 3)" "\<not> slab_bit ?m Q j" "obj_at ?m P i = obj_at ?m Q j"
          using slab_live_iff [OF inv, of "obj_at ?m P i"] by blast
        have okQ: "slab_ok ?m Q" "page_aligned Q" using inv Q(1) by (auto simp: slab_inv_def slab_pages_def)
        note a = slot_of_obj [OF ok(2,1) i] and b = slot_of_obj [OF okQ(2,1) Q(2)]
        have "P = Q" using a(2) b(2) Q(4) by simp
        moreover have "i = j" using a(3,6) b(3,6) Q(4) \<open>P = Q\<close> by metis
        ultimately show "\<not> slab_bit ?m P i" using Q(3) by simp
      next
        assume "\<not> slab_bit ?m P i"
        then show "slab_live s (obj_at ?m P i) \<noteq> None" using slab_live_iff [OF inv, of "obj_at ?m P i"] P i by blast
      qed
      then show ?thesis by (auto simp: slots_def)
    qed
    finally have cal: "pw ?m P 4 = 0 \<longleftrightarrow> (\<forall>i < unat (pw ?m P 3). slab_live s (obj_at ?m P i) \<noteq> None)" .
    show "(unat (pw ?m P 1) = ci \<longrightarrow> pw ?m P 4 = 0) \<longleftrightarrow>
        (unat (pw ?m P 2) = ?c \<longrightarrow> (\<forall>i < (4096 - 40) div ?c. slab_live s (P + of_nat (40 + i * ?c)) \<noteq> None))"
    proof (cases "unat (pw ?m P 1) = ci")
      case True
      then have "unat (pw ?m P 2) = ?c" using cl by simp
      then show ?thesis using True cap cal by (simp only: obj_at_def simp_thms)
    qed (simp add: cl)
  qed
  finally show ?thesis .
qed

text \<open>\<open>heap_slab_init\<close> starts with no pages and no objects.\<close>

lemma heap_slab_init_ok:
  "slab_inv (heap_slab_init KHEAP_START sz s)" "slab_live (heap_slab_init KHEAP_START sz s) = Map.empty"
proof -
  let ?s = "heap_slab_init KHEAP_START sz s"
  have pages: "slab_pages ?s = {}" by (auto simp: slab_pages_def heap_slab_init_def)
  have "cache_ok ?s ci [] []" if "ci < NUM_CACHES" for ci
  proof -
    have "ci < length cache_sizes" using that by (simp add: NUM_CACHES_def cache_sizes_def)
    then show ?thesis using pages by (simp add: cache_ok_def) (simp add: heap_slab_init_def)
  qed
  then have cok: "\<forall>ci < NUM_CACHES. \<exists>ps fs. cache_ok ?s ci ps fs" by blast
  have brk: "slab_brk ?s = KHEAP_START" "map sc_obj_size (caches ?s) = cache_sizes"
    by (simp_all add: heap_slab_init_def comp_def)
  have "page_aligned KHEAP_START" "KHEAP_START \<le> KHEAP_END"
    by (simp_all add: page_aligned_def KHEAP_START_def KHEAP_END_def KHEAP_MAX_SIZE_def)
  then show inv: "slab_inv ?s"
    unfolding slab_inv_def pages brk using cok by blast
  show "slab_live ?s = Map.empty"
  proof (rule ext)
    fix p
    have "slab_live ?s p \<noteq> Some n" for n unfolding slab_live_iff [OF inv] pages by simp
    then show "slab_live ?s p = None" by (metis not_None_eq)
  qed
qed

section \<open>Properties\<close>

text \<open>Freeing a slot that is free already goes unnoticed: the count of free slots goes up although no slot
  has become free.\<close>

theorem slab_double_free_unnoticed:
  assumes inv: "slab_inv s" and P: "P \<in> slab_pages s" "i < unat (sl_capacity (kh_mem s) P)" "slab_bit (kh_mem s) P i"
  shows "\<exists>s'. heap_slab_free (obj_at (kh_mem s) P i) s = Some s' \<and>
    sl_free_count (kh_mem s') P = sl_free_count (kh_mem s) P + 1 \<and> slots (kh_mem s') P = slots (kh_mem s) P \<and> \<not> slab_inv s'"
proof -
  let ?m = "kh_mem s"
  have cap: "i < unat (pw ?m P 3)" using P(2) by (simp add: header_words)
  have ok: "slab_ok ?m P" "page_aligned P" using inv P(1) by (auto simp: slab_inv_def slab_pages_def)
  note geo = slab_geometry [OF ok(1)]
  define idx :: u32 where "idx = of_nat i"
  note obj = slot_of_obj [OF ok(2,1) cap, folded idx_def]
  define m1 where "m1 = bitmap_set_bit (sl_bitmap P) idx ?m"
  define m2 where "m2 = pset P 4 (pw m1 P 4 + 1) m1"
  have fl: "flips P idx ?m m1" by (simp add: flips_def m1_def)
  have m1w: "pw m1 P k = pw ?m P k" if "k < 5" for k
    using flips_words(1) [OF fl obj(7) ok(2,2), of k] that by simp
  have "i \<in> slots ?m P" "finite (slots ?m P)" using cap P(3) by (simp_all add: slots_def)
  then have "pw ?m P 4 \<noteq> 0" using ok(1) by (auto simp: slab_ok_def card_gt_0_iff)
  then have run: "heap_slab_free (obj_at ?m P i) s = Some (s\<lparr>kh_mem := m2\<rparr>)"
    using obj(1,4,5) by (simp add: heap_slab_free_def Let_def header_words obj(2,3) m1_def [symmetric] m2_def del: hdr40)
  have w2: "pw m2 P 4 = pw ?m P 4 + 1" "pw m2 P 3 = pw ?m P 3"
    using ok(2) m1w by (simp_all add: m2_def pw_pset)
  have "slab_bit m2 P j \<longleftrightarrow> slab_bit ?m P j" if "j < unat (pw ?m P 3)" for j
  proof -
    have "j < 128" using that geo(4) by simp
    then show ?thesis
      using slab_bit_change(2) [OF ok(2) obj(7), of j ?m] P(3) ok(2) by (auto simp: m2_def slab_bit_pset m1_def [symmetric] obj(6))
  qed
  then have sl: "slots m2 P = slots ?m P" using w2(2) by (auto simp: slots_def)
  have "\<not> slab_ok m2 P"
  proof -
    have "unat (pw ?m P 4 + 1) \<noteq> unat (pw ?m P 4)" by (simp flip: word_unat_eq_iff)
    then show ?thesis using ok(1) by (simp add: slab_ok_def sl w2(1))
  qed
  moreover have "P \<in> slab_pages (s\<lparr>kh_mem := m2\<rparr>)" using P(1) by (simp add: slab_pages_def)
  ultimately have "\<not> slab_inv (s\<lparr>kh_mem := m2\<rparr>)" by (auto simp: slab_inv_def)
  then show ?thesis using run sl w2(1) by (simp add: header_words)
qed

end
