(* ===== verification/Heap_Slab_Space.thy ===== *)
theory Heap_Slab_Space
  imports Heap_Slab_Spec Vmm_Kernel
begin

text \<open>
  The slab back-end in the address space: every page it uses is mapped, for writing, to a frame of its own, and a
  request is refused exactly when its size has no slot left and no page can be had. With this the back-end keeps the
  contract of \<open>Heap_Ops\<close>.
\<close>

section \<open>Heap pages and their frames\<close>

text \<open>The pages of \<open>[a, b)\<close> are present and writable, their frames are different, and none of these is free or a
  page table.\<close>

definition backed :: "(bitmap_state, 'v) vmm_state \<Rightarrow> u32 \<Rightarrow> u32 \<Rightarrow> bool" where
  "backed vm a b \<longleftrightarrow> (\<forall>v. page_aligned v \<and> a \<le> v \<and> v < b \<longrightarrow>
       space vm v AND 0xFFF = 3 \<and> frame_of (space vm v) \<notin> kvm_free vm \<union> tables vm) \<and>
     inj_on (\<lambda>v. frame_of (space vm v)) {v. page_aligned v \<and> a \<le> v \<and> v < b}"

lemma backed_empty: "backed vm a a"
  by (auto simp: backed_def inj_on_def)

lemma backed_took:
  assumes "backed vm a b" "kvm_took {} vm vm'" "space vm' = space vm"
  shows "backed vm' a b"
proof -
  have "kvm_free vm' \<union> tables vm' \<subseteq> kvm_free vm \<union> tables vm" using assms(2) by (auto simp: took_def)
  then show ?thesis using assms(1,3) unfolding backed_def by auto
qed

lemma backed_grow:
  assumes bk: "backed vm a b" and tk: "kvm_took {p} vm vm'" and sp: "space vm' = (space vm)(b := p OR 3)"
    and al: "page_aligned p" "page_aligned b" and b: "unat b + 4096 < 2 ^ 32"
  shows "backed vm' a (b + VMM_PAGE_SIZE)"
proof -
  have "unat (b + VMM_PAGE_SIZE) = unat b + 4096" using b by (subst unat_add_no_wrap) (simp_all add: VMM_PAGE_SIZE_def)
  then have nxt: "v < b + VMM_PAGE_SIZE \<longleftrightarrow> v < b \<or> v = b" if "page_aligned v" for v
    using pages_apart [OF that al(2)] by (auto simp: word_less_nat_alt word_unat_eq_iff)
  have p: "p \<in> kvm_free vm" "p \<notin> kvm_free vm' \<union> tables vm'" using tk by (auto simp: took_def)
  have sub: "kvm_free vm' \<union> tables vm' \<subseteq> kvm_free vm \<union> tables vm" using tk by (auto simp: took_def)
  have new: "frame_of (p OR 3) = p" "(p OR 3) AND 0xFFF = 3"
    using frame_of_or [OF al(1), of 3] al(1) by (simp_all add: page_aligned_def word_ao_dist)
  have old: "space vm v AND 0xFFF = 3 \<and> frame_of (space vm v) \<notin> kvm_free vm \<union> tables vm" if "page_aligned v" "a \<le> v" "v < b" for v
    using bk that unfolding backed_def by blast
  have inj: "inj_on (\<lambda>v. frame_of (space vm v)) {v. page_aligned v \<and> a \<le> v \<and> v < b}" using bk unfolding backed_def by blast
  have f: "frame_of (space vm' v) = (if v = b then p else frame_of (space vm v))" for v by (simp add: sp new(1))
  have "inj_on (\<lambda>v. frame_of (space vm' v)) {v. page_aligned v \<and> a \<le> v \<and> v < b + VMM_PAGE_SIZE}"
  proof (rule inj_onI, goal_cases)
    case (1 v w)
    then have v: "page_aligned v" "a \<le> v" "v < b \<or> v = b" and w: "page_aligned w" "a \<le> w" "w < b \<or> w = b" using nxt by auto
    have ne: "frame_of (space vm u) \<noteq> p" if "page_aligned u" "a \<le> u" "u < b" for u using old [OF that] p(1) by auto
    show ?case
    proof (cases "v = b \<or> w = b")
      case True
      then show ?thesis using 1(3) f [of v] f [of w] v w ne [of v] ne [of w] by (auto split: if_splits)
    next
      case False
      then show ?thesis using 1(3) f [of v] f [of w] v w inj_onD [OF inj, of v w] by simp
    qed
  qed
  moreover have "space vm' v AND 0xFFF = 3 \<and> frame_of (space vm' v) \<notin> kvm_free vm' \<union> tables vm'"
    if "page_aligned v" "a \<le> v" "v < b + VMM_PAGE_SIZE" for v
  proof (cases "v = b")
    case True
    then show ?thesis using new p(2) by (simp add: sp)
  next
    case False
    then show ?thesis using old [OF that(1,2)] nxt [OF that(1)] that(3) sub by (auto simp: sp)
  qed
  ultimately show ?thesis unfolding backed_def by blast
qed

text \<open>The pages that \<open>kmalloc_init\<close> maps.\<close>

lemma backed_mapped:
  assumes "kvm_took (set fs) vm vm'" "mapped_frames (space vm) a 0 fs (space vm')" "distinct fs" "range_ok a (length fs)"
    and "kvm_ok bi vm"
  shows "backed vm' a (a + of_nat (4096 * length fs))"
proof -
  have sz: "unat (a + of_nat (4096 * length fs)) = unat a + 4096 * length fs"
    using assms(4) by (subst unat_add_no_wrap) (simp_all add: range_ok_def unat_of_nat del: of_nat_mult)
  have al: "page_aligned f" if "f \<in> set fs" for f
    using that assms(1,5) kb.managed_page kb.free_managed by (fastforce simp: took_def vm_ok_def)
  have page: "\<exists>j < length fs. v = page_at a j" if v: "page_aligned v" "a \<le> v" "v < a + of_nat (4096 * length fs)" for v
  proof -
    have "page_aligned a" using assms(4) by (simp add: range_ok_def)
    then obtain j where j: "unat a = 4096 * j" unfolding page_aligned_iff by (elim dvdE)
    obtain i where i: "unat v = 4096 * i" using v(1) unfolding page_aligned_iff by (elim dvdE)
    note ij = i j
    have "j \<le> i" "i < j + length fs" using v(2,3) sz ij by (simp_all add: word_le_nat_alt word_less_nat_alt)
    moreover from this have "unat (page_at a (i - j)) = unat v" using unat_page_at [OF assms(4), of "i - j"] ij by simp
    ultimately show ?thesis by (intro exI [of _ "i - j"]) (simp add: word_unat_eq_iff)
  qed
  have at: "space vm' (page_at a j) AND 0xFFF = 3 \<and> frame_of (space vm' (page_at a j)) = fs ! j" if "j < length fs" for j
  proof -
    have "page_aligned (fs ! j)" using al that by simp
    moreover have "space vm' (page_at a j) = fs ! j OR 3" using assms(2) that by (simp add: mapped_frames_def)
    ultimately show ?thesis using frame_of_or [of "fs ! j" 3] by (simp add: page_aligned_def word_ao_dist)
  qed
  have "fs ! j \<notin> kvm_free vm' \<union> tables vm'" if "j < length fs" for j using assms(1) nth_mem [OF that] by (auto simp: took_def)
  moreover have "inj_on (\<lambda>v. frame_of (space vm' v)) {v. page_aligned v \<and> a \<le> v \<and> v < a + of_nat (4096 * length fs)}"
  proof (rule inj_onI, goal_cases)
    case (1 v w)
    then obtain j k where "j < length fs" "v = page_at a j" "k < length fs" "w = page_at a k" using page by blast
    then show ?case using 1(3) at nth_eq_iff_index_eq [OF assms(3)] by metis
  qed
  ultimately show ?thesis unfolding backed_def using page at by metis
qed

section \<open>Getting a page\<close>

lemma slab_get_page_eq:
  "slab_get_page s =
     (if KHEAP_END \<le> slab_brk s then (0, s)
      else if slab_committed s \<le> slab_brk s then
        (case vmm_alloc_from (slab_brk s) 1 0 (kh_vm s) of
           (ok, vm) \<Rightarrow>
             if ok then (slab_brk s, s\<lparr>kh_vm := vm, slab_committed := slab_committed s + VMM_PAGE_SIZE, slab_brk := slab_brk s + VMM_PAGE_SIZE\<rparr>)
             else (0, s\<lparr>kh_vm := vm\<rparr>))
      else (slab_brk s, s\<lparr>slab_brk := slab_brk s + VMM_PAGE_SIZE\<rparr>))"
proof -
  have one: "vmm_alloc_from v 1 1 vm = (True, vm)" for v and vm :: "('a, 'b) vmm_state" by (subst vmm_alloc_from.simps) simp
  show ?thesis
    by (subst vmm_alloc_from.simps) (simp add: slab_get_page_def Let_def one split: prod.split)
qed

text \<open>When one page can be mapped.\<close>

lemma one_page:
  fixes vm :: "(bitmap_state, 'v) vmm_state"
  assumes ok: "kvm_ok bi vm" and al: "page_aligned v"
  shows "fst (vmm_alloc_from v 1 0 vm) \<longleftrightarrow> kvm_free vm \<noteq> {} \<and> (present vm (pd_index v) \<or> card (kvm_free vm) \<noteq> 1)"
    "\<not> fst (vmm_alloc_from v 1 0 vm) \<Longrightarrow> kvm_free vm \<subseteq> kvm_free (snd (vmm_alloc_from v 1 0 vm))"
proof -
  obtain p pm where a: "pmm_alloc_page (vm_pmm vm) = (p, pm)" by (cases "pmm_alloc_page (vm_pmm vm)")
  define t where "t = vm\<lparr>vm_pmm := pm\<rparr>"
  obtain r vm2 where m: "vmm_map_page v p (PTE_PRESENT OR PTE_WRITABLE) t = (r, vm2)"
    by (cases "vmm_map_page v p (PTE_PRESENT OR PTE_WRITABLE) t")
  have one: "vmm_alloc_from v 1 1 vm = (True, vm)" for vm :: "(bitmap_state, 'v) vmm_state" by (subst vmm_alloc_from.simps) simp
  have run: "vmm_alloc_from v 1 0 vm = (if p = 0 then (False, t) else if r \<noteq> 0 then (False, vm2\<lparr>vm_pmm := pmm_free_page p (vm_pmm vm2)\<rparr>)
      else (True, vm2))"
    using m by (subst vmm_alloc_from.simps) (simp add: Let_def a one t_def)
  have "(fst (vmm_alloc_from v 1 0 vm) \<longleftrightarrow> kvm_free vm \<noteq> {} \<and> (present vm (pd_index v) \<or> card (kvm_free vm) \<noteq> 1)) \<and>
    (\<not> fst (vmm_alloc_from v 1 0 vm) \<longrightarrow> kvm_free vm \<subseteq> kvm_free (snd (vmm_alloc_from v 1 0 vm)))"
  proof (cases "kvm_free vm = {}")
    case True
    then have "p = 0" using kb.alloc_null_iff [of bi "vm_pmm vm"] ok a by (simp add: vm_ok_def)
    then show ?thesis using True run by simp
  next
    case False
    note k = kb.take_page [OF ok False a, folded t_def]
    have "kvm_free t = kvm_free vm - tables t - {p}" using k(2) by (auto simp: took_def)
    then have fr: "kvm_free t = kvm_free vm - {p}" using ok k(4) by (auto simp: vm_ok_def)
    have one: "kvm_free vm - {p} = {} \<longleftrightarrow> card (kvm_free vm) = 1"
    proof
      assume "kvm_free vm - {p} = {}"
      then have "kvm_free vm = {p}" using k(7) by blast
      then show "card (kvm_free vm) = 1" by simp
    next
      assume "card (kvm_free vm) = 1"
      then obtain q where "kvm_free vm = {q}" by (rule card_1_singletonE)
      then show "kvm_free vm - {p} = {}" using k(7) by simp
    qed
    note M = kb.map_page_total [OF k(1) m]
    have i: "fst (vmm_alloc_from v 1 0 vm) \<longleftrightarrow> r = 0" using run k(6) by simp
    have ri: "r = 0 \<longleftrightarrow> present vm (pd_index v) \<or> card (kvm_free vm) \<noteq> 1"
      using M al k(5,8) fr one by (simp split: if_splits)
    moreover have "kvm_free vm \<subseteq> kvm_free (vm2\<lparr>vm_pmm := pmm_free_page p (vm_pmm vm2)\<rparr>)" if "r \<noteq> 0"
    proof -
      have F: "kvm_ok bi vm2" "kvm_free vm2 = kvm_free t" "tables vm2 = tables t" "\<not> present t (pd_index v)" "kvm_free t = {}"
        using M that al k(5) by (auto split: if_splits)
      have "vm2 = t\<lparr>vm_pmm := snd (pmm_alloc_page (vm_pmm t))\<rparr>"
        using kb.vmm_map_page_fails [OF k(1) al k(5) F(4,5)] m by (metis prod.inject)
      then have "bm_managed (pmm_data (vm_pmm vm2)) = bm_managed (pmm_data (vm_pmm t))"
        using kb.alloc_managed [of bi "vm_pmm t"] k(1) by (simp add: vm_ok_def)
      note F = F this
      have "p \<in> bm_managed (pmm_data (vm_pmm vm2)) - kvm_free vm2" "p \<notin> tables vm2"
        using k(2) F by (auto simp: took_def)
      from kb.give_page [OF F(1) this] show ?thesis using F(2) fr by auto
    qed
    ultimately show ?thesis using i False run k(6) by auto
  qed
  then show "fst (vmm_alloc_from v 1 0 vm) \<longleftrightarrow> kvm_free vm \<noteq> {} \<and> (present vm (pd_index v) \<or> card (kvm_free vm) \<noteq> 1)"
    "\<not> fst (vmm_alloc_from v 1 0 vm) \<Longrightarrow> kvm_free vm \<subseteq> kvm_free (snd (vmm_alloc_from v 1 0 vm))" by blast+
qed

section \<open>The invariant with the address space\<close>

definition kslab_inv :: "boot_info \<Rightarrow> (bitmap_state, 'v) slab_state \<Rightarrow> bool" where
  "kslab_inv bi s \<longleftrightarrow> slab_inv s \<and> kvm_ok bi (kh_vm s) \<and> page_aligned (slab_committed s) \<and> slab_brk s \<le> slab_committed s \<and>
     backed (kh_vm s) KHEAP_START (slab_committed s)"

text \<open>There is no room for a request when its size has no slot, and the heap is at its end, or the page to be
  mapped next cannot be had, or not with the page table it needs.\<close>

definition no_page :: "(bitmap_state, 'v) slab_state \<Rightarrow> bool" where
  "no_page s \<longleftrightarrow> slab_brk s = KHEAP_END \<or>
     slab_brk s = slab_committed s \<and> (kvm_free (kh_vm s) = {} \<or> card (kvm_free (kh_vm s)) = 1 \<and> \<not> present (kh_vm s) (pd_index (slab_brk s)))"

definition kslab_full :: "(bitmap_state, 'v) slab_state \<Rightarrow> u32 \<Rightarrow> bool" where
  "kslab_full s n \<longleftrightarrow> (case class_size n of None \<Rightarrow> True | Some c \<Rightarrow> no_slot s c \<and> no_page s)"

lemma kslab_get_page:
  assumes inv: "kslab_inv bi s" and get: "slab_get_page s = (P, s1)"
  shows "P = 0 \<longleftrightarrow> no_page s" "kvm_ok bi (kh_vm s1)" "page_aligned (slab_committed s1)" "slab_brk s1 \<le> slab_committed s1"
    "backed (kh_vm s1) KHEAP_START (slab_committed s1)"
proof -
  have I: "slab_inv s" "kvm_ok bi (kh_vm s)" "page_aligned (slab_committed s)" "slab_brk s \<le> slab_committed s"
    "backed (kh_vm s) KHEAP_START (slab_committed s)" using inv by (simp_all add: kslab_inv_def)
  have b: "page_aligned (slab_brk s)" "KHEAP_START \<le> slab_brk s" "slab_brk s \<le> KHEAP_END" using I(1) by (simp_all add: slab_inv_def)
  have b0: "slab_brk s \<noteq> 0" using b(2) by (auto simp: KHEAP_START_def)
  have "(P = 0 \<longleftrightarrow> no_page s) \<and> kvm_ok bi (kh_vm s1) \<and> page_aligned (slab_committed s1) \<and> slab_brk s1 \<le> slab_committed s1 \<and>
    backed (kh_vm s1) KHEAP_START (slab_committed s1)"
  proof (cases "KHEAP_END \<le> slab_brk s")
    case True
    then have "slab_brk s = KHEAP_END" using b(3) by simp
    then show ?thesis using get I by (auto simp: slab_get_page_eq no_page_def)
  next
    case False
    then have lt: "slab_brk s < KHEAP_END" by simp
    then have room: "unat (slab_brk s) + 4096 < 2 ^ 32"
      by (simp add: word_less_nat_alt KHEAP_END_def KHEAP_START_def KHEAP_MAX_SIZE_def)
    then have up: "unat (slab_brk s + VMM_PAGE_SIZE) = unat (slab_brk s) + 4096"
      by (subst unat_add_no_wrap) (simp_all add: VMM_PAGE_SIZE_def)
    have al': "page_aligned (slab_brk s + VMM_PAGE_SIZE)"
      by (rule page_aligned_add [OF b(1)]) (simp add: VMM_PAGE_SIZE_def page_aligned_def)
    show ?thesis
    proof (cases "slab_committed s \<le> slab_brk s")
      case less: False
      then have "slab_brk s \<noteq> slab_committed s" by auto
      then have "unat (slab_brk s) + 4096 \<le> unat (slab_committed s)"
        using pages_apart [OF b(1) I(3)] less by (auto simp: word_le_nat_alt)
      then show ?thesis using False less get I b0 up by (auto simp: slab_get_page_eq no_page_def word_le_nat_alt)
    next
      case True
      then have eq: "slab_committed s = slab_brk s" using I(4) by simp
      obtain ok vm where v: "vmm_alloc_from (slab_brk s) 1 0 (kh_vm s) = (ok, vm)" by (cases "vmm_alloc_from (slab_brk s) 1 0 (kh_vm s)")
      have "range_ok (slab_brk s) (unat 1)" using b(1) room by (simp add: range_ok_def)
      from kb.vmm_alloc_from [OF I(2) this, of 0] v obtain fs where fs: "kvm_ok bi vm" "kvm_took (set fs) (kh_vm s) vm" "length fs \<le> 1"
        "ok \<longrightarrow> length fs = 1" "mapped_frames (space (kh_vm s)) (slab_brk s) 0 fs (space vm)" by auto
      have o: "ok \<longleftrightarrow> \<not> no_page s" using one_page(1) [OF I(2) b(1)] v lt eq by (auto simp: no_page_def)
      show ?thesis
      proof (cases ok)
        case False
        then have s1: "P = 0" "s1 = s\<lparr>kh_vm := vm\<rparr>" using get v \<open>\<not> KHEAP_END \<le> slab_brk s\<close> True by (auto simp: slab_get_page_eq)
        have "fs = []" using one_page(2) [OF I(2) b(1)] v False fs(2) by (cases fs) (auto simp: took_def)
        then show ?thesis using s1 fs o False I backed_took [OF I(5)] by (simp add: mapped_frames_Nil)
      next
        case ok: True
        then obtain p where p: "fs = [p]" using fs(3,4) by (cases fs) auto
        have s1: "P = slab_brk s" "s1 = s\<lparr>kh_vm := vm, slab_committed := slab_committed s + VMM_PAGE_SIZE, slab_brk := slab_brk s + VMM_PAGE_SIZE\<rparr>"
          using get v ok False True by (auto simp: slab_get_page_eq)
        have "space vm = (space (kh_vm s))(slab_brk s := p OR 3)"
          using fs(5) unfolding p mapped_frames_def by (auto simp: page_at_def fun_eq_iff)
        moreover have "page_aligned p" using kb.managed_page kb.free_managed I(2) fs(2) p by (fastforce simp: took_def vm_ok_def)
        ultimately have "backed vm KHEAP_START (slab_brk s + VMM_PAGE_SIZE)"
          using fs(2) I(5) b(1) room unfolding p eq by (intro backed_grow) simp_all
        then show ?thesis using s1 fs(1) al' o ok b0 eq by simp
      qed
    qed
  qed
  then show "P = 0 \<longleftrightarrow> no_page s" "kvm_ok bi (kh_vm s1)" "page_aligned (slab_committed s1)" "slab_brk s1 \<le> slab_committed s1"
    "backed (kh_vm s1) KHEAP_START (slab_committed s1)" by blast+
qed

lemma kslab_alloc:
  assumes inv: "kslab_inv bi s" and al: "heap_slab_alloc sz s = Some (p, s')"
  shows "kslab_inv bi s'" "p = 0 \<longleftrightarrow> kslab_full s sz"
proof -
  have I: "slab_inv s" using inv by (simp add: kslab_inv_def)
  obtain P s1 where g: "slab_get_page s = (P, s1)" by (cases "slab_get_page s")
  note G = kslab_get_page [OF inv g]
  from heap_slab_alloc_ok [OF I, of sz] al have A: "slab_inv s'" "p = 0 \<longleftrightarrow> slab_refused s sz" by auto
  show "kslab_inv bi s'"
    using heap_slab_alloc_frame [OF al] A(1) G inv g by (auto simp: kslab_inv_def split: if_splits)
  show "p = 0 \<longleftrightarrow> kslab_full s sz"
    unfolding A(2) slab_refused_def kslab_full_def find_class
    using partial_empty [OF I find_cache(1)] G(1) g by auto
qed

interpretation slab: heap_backend heap_slab_alloc heap_slab_free kh_mem slab_poke "kslab_inv bi" slab_live kslab_full for bi
proof
  fix s :: "(bitmap_state, 'b) slab_state" and p q sz x :: u32 and n k v
  assume kinv: "kslab_inv bi s"
  then have inv: "slab_inv s" by (simp add: kslab_inv_def)
  show "slab_live s p = Some n \<Longrightarrow> p \<noteq> 0 \<and> 8 dvd unat p \<and> unat p + n \<le> 2 ^ 32" by (rule slab_live_block [OF inv])
  show "slab_live s p = Some n \<Longrightarrow> slab_live s q = Some k \<Longrightarrow> p \<noteq> q \<Longrightarrow> block_at p n \<inter> block_at q k = {}"
    by (rule slab_live_disjoint [OF inv])
  show "\<exists>p s'. heap_slab_alloc sz s = Some (p, s') \<and> kslab_inv bi s' \<and> (p = 0 \<longleftrightarrow> kslab_full s sz) \<and>
      (if p = 0 then slab_live s' = slab_live s
       else slab_live s p = None \<and> (\<exists>k. unat sz \<le> k \<and> slab_live s' = (slab_live s)(p \<mapsto> k))) \<and>
      (\<forall>q k. slab_live s q = Some k \<longrightarrow> (\<forall>x \<in> block_at q k. kh_mem s' x = kh_mem s x))"
  proof -
    from heap_slab_alloc_ok [OF inv, of sz] obtain p s' where A: "heap_slab_alloc sz s = Some (p, s')"
      "if p = 0 then slab_live s' = slab_live s
       else slab_live s p = None \<and> (\<exists>k. unat sz \<le> k \<and> slab_live s' = (slab_live s)(p \<mapsto> k))"
      "\<forall>q k. slab_live s q = Some k \<longrightarrow> (\<forall>x \<in> block_at q k. kh_mem s' x = kh_mem s x)" by blast
    then show ?thesis using kslab_alloc [OF kinv A(1)] by blast
  qed
  show "\<exists>s'. heap_slab_free p s = Some s' \<and> kslab_inv bi s' \<and> slab_live s' = (slab_live s)(p := None) \<and>
      (\<forall>q k. q \<noteq> p \<longrightarrow> slab_live s q = Some k \<longrightarrow> (\<forall>x \<in> block_at q k. kh_mem s' x = kh_mem s x))"
    if live: "slab_live s p = Some n"
  proof -
    from heap_slab_free_ok [OF inv live] obtain s' where F: "heap_slab_free p s = Some s'" "slab_inv s'"
      "slab_live s' = (slab_live s)(p := None)" "\<And>x. x \<notin> hdr_bytes s \<Longrightarrow> kh_mem s' x = kh_mem s x" by metis
    moreover have "kslab_inv bi s'" using heap_slab_free_frame [OF F(1)] F(2) kinv by (simp add: kslab_inv_def)
    ultimately show ?thesis using live_not_hdr [OF inv] by blast
  qed
  show "heap_slab_free 0 s = Some s" by (simp add: heap_slab_free_def)
  show "kslab_inv bi (slab_poke x v s) \<and> slab_live (slab_poke x v s) = slab_live s \<and>
      kh_mem (slab_poke x v s) = (kh_mem s)(x := v)" if live: "slab_live s p = Some n" "x \<in> block_at p n"
    using slab_poke_ok [OF inv live, of v] kinv by (simp add: kslab_inv_def slab_poke_def)
qed

text \<open>The objects lie on the pages the slabs have taken, behind their headers.\<close>

lemma slab_live_in_heap:
  assumes "slab_inv s" "slab_live s p = Some n"
  shows "unat KHEAP_START + 40 \<le> unat p \<and> unat p + n \<le> unat (slab_brk s)"
proof -
  let ?m = "kh_mem s"
  obtain P i where P: "P \<in> slab_pages s" "i < unat (pw ?m P 3)" "p = obj_at ?m P i" "n = unat (pw ?m P 2)"
    using assms(2) unfolding slab_live_iff [OF assms(1)] by blast
  have ok: "page_aligned P" "slab_ok ?m P" "KHEAP_START \<le> P" "P < slab_brk s" "page_aligned (slab_brk s)"
    using assms(1) P(1) by (auto simp: slab_inv_def slab_pages_def)
  have u: "unat p = unat P + 40 + i * n" unfolding P(3,4) by (rule unat_obj_at [OF ok(1,2) P(2)])
  have "unat P + 4096 \<le> unat (slab_brk s)" using pages_apart [OF ok(1,5)] ok(4) by (auto simp: word_less_nat_alt)
  then show ?thesis using u slot_end [OF ok(2) P(2)] P(4) ok(3) by (simp add: word_le_nat_alt)
qed

text \<open>\<open>kmalloc_init\<close> starts the back-end on pages that are mapped.\<close>

lemma kslab_init:
  assumes "kvm_ok bi (kh_vm s)" "backed (kh_vm s) KHEAP_START (KHEAP_START + sz)" "page_aligned (KHEAP_START + sz)" "KHEAP_START \<le> KHEAP_START + sz"
  shows "kslab_inv bi (heap_slab_init KHEAP_START sz s)" "slab_live (heap_slab_init KHEAP_START sz s) = Map.empty"
proof -
  have "kh_vm (heap_slab_init KHEAP_START sz s) = kh_vm s" "slab_committed (heap_slab_init KHEAP_START sz s) = KHEAP_START + sz"
    "slab_brk (heap_slab_init KHEAP_START sz s) = KHEAP_START" by (simp_all add: heap_slab_init_def)
  then show "kslab_inv bi (heap_slab_init KHEAP_START sz s)" using assms heap_slab_init_ok(1) by (simp add: kslab_inv_def)
qed (rule heap_slab_init_ok)

section \<open>Properties\<close>

text \<open>C8. For a client that frees and writes only what it holds, the slab allocator is an object store: every
  command returns; a request is answered with the address of a fresh object of at least the size asked for, aligned, that
  overlaps no other, and refused exactly when it is for nothing or for more than 2048 bytes, or when its size has no free slot
  and no page can be had; and what the client reads at that address is what it wrote. Every object lies
  behind a header on a page that is mapped, writable, to a frame that no other heap page has and that is neither free nor a
  page table, also when the heap has grown meanwhile.\<close>

theorem slab_refines_object_store:
  assumes "kslab_inv bi s"
  shows "\<exists>s'. serves (heap_run heap_slab_alloc heap_slab_free slab_poke slab_live cs s) s cs
      (heap_objects kh_mem slab_live) slab_live kslab_full s' \<and> kslab_inv bi s' \<and> backed (kh_vm s') KHEAP_START (slab_brk s') \<and>
    (\<forall>p n. slab_live s' p = Some n \<longrightarrow> unat KHEAP_START + 40 \<le> unat p \<and> unat p + n \<le> unat (slab_brk s'))"
proof -
  from slab.run_serves [OF assms, of cs] obtain s' where s':
    "serves (heap_run heap_slab_alloc heap_slab_free slab_poke slab_live cs s) s cs (heap_objects kh_mem slab_live) slab_live kslab_full s'"
    "kslab_inv bi s'" by blast
  have "slab_inv s'" "slab_brk s' \<le> slab_committed s'" "backed (kh_vm s') KHEAP_START (slab_committed s')"
    using s'(2) by (simp_all add: kslab_inv_def)
  moreover from this have "backed (kh_vm s') KHEAP_START (slab_brk s')"
    unfolding backed_def by (auto intro: inj_on_subset)
  ultimately show ?thesis using s' slab_live_in_heap [of s'] by (intro exI [of _ s']) blast
qed

text \<open>A heap with no page mapped yet, on a running kernel of eight free pages.\<close>

definition sample_slab :: "(bitmap_state, unit) slab_state" where
  "sample_slab = heap_slab_init KHEAP_START 0 \<lparr>kh_vm = sample_vmm, kh_mem = (\<lambda>_. 0), caches = [], slab_brk = 0, slab_committed = 0\<rparr>"

theorem slab_refines_object_store_witness:
  "\<exists>s'. serves (heap_run heap_slab_alloc heap_slab_free slab_poke slab_live [Alloc 100, Alloc 2000, Alloc 2049, Free 0] sample_slab)
     sample_slab [Alloc 100, Alloc 2000, Alloc 2049, Free 0] (heap_objects kh_mem slab_live) slab_live kslab_full s' \<and> slab_inv s'"
proof -
  have "kslab_inv sample_boot sample_slab"
    unfolding sample_slab_def by (rule kslab_init) (use sample_vmm_ok(1) backed_empty in \<open>simp_all add: KHEAP_START_def page_aligned_def\<close>)
  from slab_refines_object_store [OF this, of "[Alloc 100, Alloc 2000, Alloc 2049, Free 0]"] show ?thesis by (auto simp: kslab_inv_def)
qed

end
