(* ===== verification/Kmalloc.thy ===== *)
theory Kmalloc
  imports Heap_First_Fit_Spec Heap_Slab_Space
begin

text \<open>
  The heap's dispatch layer \<open>kmalloc.c\<close>: forwarding to the registered back-end, and \<open>kmalloc_init\<close>, which
  maps the first pages of the heap before it starts the back-end.
\<close>

definition KCONFIG_HEAP_INITIAL_PAGES :: u32 where "KCONFIG_HEAP_INITIAL_PAGES = 16"
definition KHEAP_INITIAL_PAGES :: u32 where "KHEAP_INITIAL_PAGES = KCONFIG_HEAP_INITIAL_PAGES"

record 's kmalloc_state =
  g_heap_ops :: "'s heap_ops option"
  km_heap :: 's

definition kmalloc_register_backend :: "'s heap_ops option \<Rightarrow> 's kmalloc_state \<Rightarrow> 's kmalloc_state" where
  "kmalloc_register_backend ops st = st\<lparr>g_heap_ops := ops\<rparr>"

definition kmalloc_backend_name :: "'s kmalloc_state \<Rightarrow> string option" where
  "kmalloc_backend_name st = map_option ho_name (g_heap_ops st)"

text \<open>The loop over the first pages; \<open>False\<close> when it returns early.\<close>

function kmalloc_map_from :: "u32 \<Rightarrow> ('b, 'v) vmm_state \<Rightarrow> bool \<times> ('b, 'v) vmm_state" where
  "kmalloc_map_from i vm =
     (if i < KHEAP_INITIAL_PAGES then
        (let virt = KHEAP_START + i * VMM_PAGE_SIZE in
         case pmm_alloc_page (vm_pmm vm) of
           (phys, pm) \<Rightarrow>
             (if phys = 0 then (False, vm\<lparr>vm_pmm := pm\<rparr>)
              else
                (case vmm_map_page virt phys (PTE_PRESENT OR PTE_WRITABLE) (vm\<lparr>vm_pmm := pm\<rparr>) of
                   (ret, vm2) \<Rightarrow>
                     if ret \<noteq> 0 then (False, vm2\<lparr>vm_pmm := pmm_free_page phys (vm_pmm vm2)\<rparr>)
                     else kmalloc_map_from (i + 1) vm2)))
      else (True, vm))"
  by pat_completeness auto
termination
  by (relation "measure (\<lambda>(i, vm). unat KHEAP_INITIAL_PAGES - unat i)") (auto intro: loop_measure)

declare kmalloc_map_from.simps [simp del]

definition kmalloc_init :: "('b, 'v, 'x) kheap_scheme kmalloc_state \<Rightarrow> ('b, 'v, 'x) kheap_scheme kmalloc_state" where
  "kmalloc_init st =
     (case g_heap_ops st of
        None \<Rightarrow> st
      | Some ops \<Rightarrow>
          (let initial_size = KHEAP_INITIAL_PAGES * VMM_PAGE_SIZE in
           case kmalloc_map_from 0 (kh_vm (km_heap st)) of
             (ok, vm) \<Rightarrow>
               (let h = (km_heap st)\<lparr>kh_vm := vm\<rparr> in
                st\<lparr>km_heap := (if ok then ho_init ops KHEAP_START initial_size h else h)\<rparr>)))"

text \<open>\<open>None\<close> when the back-end does not return.\<close>

definition kmalloc :: "u32 \<Rightarrow> 's kmalloc_state \<Rightarrow> (u32 \<times> 's kmalloc_state) option" where
  "kmalloc sz st =
     (case g_heap_ops st of
        None \<Rightarrow> Some (0, st)
      | Some ops \<Rightarrow> map_option (\<lambda>(p, h). (p, st\<lparr>km_heap := h\<rparr>)) (ho_alloc ops sz (km_heap st)))"

definition kfree :: "u32 \<Rightarrow> 's kmalloc_state \<Rightarrow> 's kmalloc_state option" where
  "kfree ptr st =
     (case g_heap_ops st of
        None \<Rightarrow> Some st
      | Some ops \<Rightarrow> map_option (\<lambda>h. st\<lparr>km_heap := h\<rparr>) (ho_free ops ptr (km_heap st)))"

text \<open>\<open>kheap_get_stats\<close> for a non-null \<open>out\<close>; what \<open>out\<close> held stays when there is no back-end.\<close>

definition kheap_get_stats :: "heap_stats \<Rightarrow> 's kmalloc_state \<Rightarrow> heap_stats option" where
  "kheap_get_stats out st = (case g_heap_ops st of None \<Rightarrow> Some out | Some ops \<Rightarrow> ho_stats ops (km_heap st))"

section \<open>The dispatch layer keeps the back-end's contract\<close>

definition km_ok :: "'s heap_ops \<Rightarrow> ('s \<Rightarrow> bool) \<Rightarrow> 's kmalloc_state \<Rightarrow> bool" where
  "km_ok ops ok st \<longleftrightarrow> g_heap_ops st = Some ops \<and> ok (km_heap st)"

definition km_poke :: "(u32 \<Rightarrow> u8 \<Rightarrow> 's \<Rightarrow> 's) \<Rightarrow> u32 \<Rightarrow> u8 \<Rightarrow> 's kmalloc_state \<Rightarrow> 's kmalloc_state" where
  "km_poke pk x v st = st\<lparr>km_heap := pk x v (km_heap st)\<rparr>"

lemma registered_heap:
  assumes b: "heap_backend al fr mm pk ok lv full" and ops: "ho_alloc ops = al" "ho_free ops = fr"
  shows "heap_backend kmalloc kfree (\<lambda>st. mm (km_heap st)) (km_poke pk) (km_ok ops ok) (\<lambda>st. lv (km_heap st)) (\<lambda>st. full (km_heap st))"
proof
  fix st :: "'a kmalloc_state" and p q :: u32 and n k :: nat and sz :: u32 and x v
  assume "km_ok ops ok st"
  then have g: "g_heap_ops st = Some ops" and h: "ok (km_heap st)" by (simp_all add: km_ok_def)
  note D = heap_backend.live_block [OF b h] heap_backend.live_disjoint [OF b h]
  show "lv (km_heap st) p = Some n \<Longrightarrow> p \<noteq> 0 \<and> 8 dvd unat p \<and> unat p + n \<le> 2 ^ 32" by (rule D(1))
  show "lv (km_heap st) p = Some n \<Longrightarrow> lv (km_heap st) q = Some k \<Longrightarrow> p \<noteq> q \<Longrightarrow> block_at p n \<inter> block_at q k = {}"
    by (rule D(2))
  show "\<exists>p st'. kmalloc sz st = Some (p, st') \<and> km_ok ops ok st' \<and> (p = 0 \<longleftrightarrow> full (km_heap st) sz) \<and>
      (if p = 0 then lv (km_heap st') = lv (km_heap st)
       else lv (km_heap st) p = None \<and> (\<exists>k. unat sz \<le> k \<and> lv (km_heap st') = (lv (km_heap st))(p \<mapsto> k))) \<and>
      (\<forall>q k. lv (km_heap st) q = Some k \<longrightarrow> (\<forall>x \<in> block_at q k. mm (km_heap st') x = mm (km_heap st) x))"
    if sz: "sz \<le> 0xFFFFFFF8"
  proof -
    from heap_backend.alloc_ok [OF b h sz] obtain p h' where A: "al sz (km_heap st) = Some (p, h')" "ok h'" "p = 0 \<longleftrightarrow> full (km_heap st) sz"
      "if p = 0 then lv h' = lv (km_heap st) else lv (km_heap st) p = None \<and> (\<exists>k. unat sz \<le> k \<and> lv h' = (lv (km_heap st))(p \<mapsto> k))"
      "\<forall>q k. lv (km_heap st) q = Some k \<longrightarrow> (\<forall>x \<in> block_at q k. mm h' x = mm (km_heap st) x)" by blast
    then show ?thesis using g ops by (intro exI [of _ p] exI [of _ "st\<lparr>km_heap := h'\<rparr>"]) (simp add: kmalloc_def km_ok_def)
  qed
  show "\<exists>st'. kfree p st = Some st' \<and> km_ok ops ok st' \<and> lv (km_heap st') = (lv (km_heap st))(p := None) \<and>
      (\<forall>q k. q \<noteq> p \<longrightarrow> lv (km_heap st) q = Some k \<longrightarrow> (\<forall>x \<in> block_at q k. mm (km_heap st') x = mm (km_heap st) x))"
    if l: "lv (km_heap st) p = Some n"
  proof -
    from heap_backend.free_ok [OF b h l] obtain h' where A: "fr p (km_heap st) = Some h'" "ok h'" "lv h' = (lv (km_heap st))(p := None)"
      "\<forall>q k. q \<noteq> p \<longrightarrow> lv (km_heap st) q = Some k \<longrightarrow> (\<forall>x \<in> block_at q k. mm h' x = mm (km_heap st) x)" by blast
    then show ?thesis using g ops by (intro exI [of _ "st\<lparr>km_heap := h'\<rparr>"]) (simp add: kfree_def km_ok_def)
  qed
  show "kfree 0 st = Some st" using heap_backend.free_null [OF b h] g ops by (simp add: kfree_def)
  show "km_ok ops ok (km_poke pk x v st) \<and> lv (km_heap (km_poke pk x v st)) = lv (km_heap st) \<and>
      mm (km_heap (km_poke pk x v st)) = (mm (km_heap st))(x := v)" if "lv (km_heap st) p = Some n" "x \<in> block_at p n"
    using heap_backend.poke_ok [OF b h that] g by (simp add: km_poke_def km_ok_def)
qed

interpretation kff: heap_backend kmalloc kfree "\<lambda>st. kh_mem (km_heap st)" "km_poke ff_poke"
    "km_ok heap_first_fit_ops (\<lambda>h. ff_inv h \<and> ff_frame h = r)" "\<lambda>st. ff_live (km_heap st)" "\<lambda>st. ff_full (km_heap st)" for r
  by (rule registered_heap [OF ff.heap_backend_axioms]) (simp_all add: heap_first_fit_ops_def)

section \<open>Mapping the first pages\<close>

lemma kmalloc_map_eq: "kmalloc_map_from i vm = vmm_alloc_from KHEAP_START KHEAP_INITIAL_PAGES i vm"
proof (induction i vm rule: kmalloc_map_from.induct)
  case (1 i vm)
  show ?case
  proof (cases "i < KHEAP_INITIAL_PAGES")
    case True
    obtain p pm where al: "pmm_alloc_page (vm_pmm vm) = (p, pm)" by (cases "pmm_alloc_page (vm_pmm vm)")
    show ?thesis
    proof (cases "p = 0")
      case True
      then show ?thesis using al \<open>i < KHEAP_INITIAL_PAGES\<close>
        by (subst kmalloc_map_from.simps, subst vmm_alloc_from.simps) (simp add: Let_def)
    next
      case False
      obtain r vm2 where mp: "vmm_map_page (KHEAP_START + i * VMM_PAGE_SIZE) p (PTE_PRESENT OR PTE_WRITABLE) (vm\<lparr>vm_pmm := pm\<rparr>) = (r, vm2)"
        by (cases "vmm_map_page (KHEAP_START + i * VMM_PAGE_SIZE) p (PTE_PRESENT OR PTE_WRITABLE) (vm\<lparr>vm_pmm := pm\<rparr>)")
      show ?thesis
        using True False al mp 1 [OF True refl al [symmetric] False mp [symmetric]]
        by (subst kmalloc_map_from.simps, subst vmm_alloc_from.simps) (simp add: Let_def del: page_at_unat)
    qed
  next
    case False
    then show ?thesis by (subst kmalloc_map_from.simps, subst vmm_alloc_from.simps) simp
  qed
qed

lemma KHEAP_range: "range_ok KHEAP_START (unat KHEAP_INITIAL_PAGES)" "unat KHEAP_INITIAL_PAGES = 16"
  by (simp_all add: range_ok_def KHEAP_START_def KHEAP_INITIAL_PAGES_def KCONFIG_HEAP_INITIAL_PAGES_def page_aligned_def)

text \<open>\<open>kmalloc_init\<close> with any back-end: the first pages are mapped, and the back-end starts on them.\<close>

lemma kmalloc_init_maps:
  fixes st :: "(bitmap_state, 'v, 'x) kheap_scheme kmalloc_state"
  assumes ok: "kvm_ok bi (kh_vm (km_heap st))" and ops: "g_heap_ops st = Some ops"
    and room: "32 \<le> card (kvm_free (kh_vm (km_heap st)))"
  obtains vm' fs where "kmalloc_init st = st\<lparr>km_heap := ho_init ops KHEAP_START 0x10000 ((km_heap st)\<lparr>kh_vm := vm'\<rparr>)\<rparr>"
    "kvm_ok bi vm'" "kvm_took (set fs) (kh_vm (km_heap st)) vm'" "distinct fs" "length fs = 16"
    "mapped_frames (space (kh_vm (km_heap st))) KHEAP_START 0 fs (space vm')" "rest_eq (kh_vm (km_heap st)) vm'"
proof -
  let ?vm = "kh_vm (km_heap st)"
  have "fst (vmm_alloc_from KHEAP_START KHEAP_INITIAL_PAGES 0 ?vm)"
    using room KHEAP_range by (intro kb.vmm_alloc_from_succeeds [OF ok]) (auto simp: range_ok_def)
  with kb.vmm_alloc_from [OF ok KHEAP_range(1), of 0] obtain vm' fs where
    al: "vmm_alloc_from KHEAP_START KHEAP_INITIAL_PAGES 0 ?vm = (True, vm')" "kvm_ok bi vm'" "kvm_took (set fs) ?vm vm'" "distinct fs"
      "length fs = 16" "mapped_frames (space ?vm) KHEAP_START 0 fs (space vm')" "rest_eq ?vm vm'"
    by (auto simp: KHEAP_range(2))
  have sz: "KHEAP_INITIAL_PAGES * VMM_PAGE_SIZE = 0x10000"
    by (simp add: KHEAP_INITIAL_PAGES_def KCONFIG_HEAP_INITIAL_PAGES_def VMM_PAGE_SIZE_def)
  have "kmalloc_init st = st\<lparr>km_heap := ho_init ops KHEAP_START 0x10000 ((km_heap st)\<lparr>kh_vm := vm'\<rparr>)\<rparr>"
    using ops al(1) by (simp add: kmalloc_init_def kmalloc_map_eq Let_def sz)
  then show thesis using al that by blast
qed

lemma kmalloc_init_first_fit:
  fixes st :: "(bitmap_state, 'v) ff_state kmalloc_state"
  defines "vm \<equiv> kh_vm (km_heap st)" and "st' \<equiv> kmalloc_init st"
  assumes ok: "kvm_ok bi vm" and ops: "g_heap_ops st = Some heap_first_fit_ops" and room: "32 \<le> card (kvm_free vm)"
  shows "\<exists>fs. km_ok heap_first_fit_ops ff_inv st' \<and> ff_frame (km_heap st') = (kh_vm (km_heap st'), KHEAP_START, KHEAP_START + 0x10000) \<and> ff_live (km_heap st') = Map.empty \<and> kvm_ok bi (kh_vm (km_heap st')) \<and>
    distinct fs \<and> length fs = 16 \<and> kvm_took (set fs) vm (kh_vm (km_heap st')) \<and>
    mapped_frames (space vm) KHEAP_START 0 fs (space (kh_vm (km_heap st'))) \<and> rest_eq vm (kh_vm (km_heap st'))"
proof -
  obtain vm' fs where al: "st' = st\<lparr>km_heap := ho_init heap_first_fit_ops KHEAP_START 0x10000 ((km_heap st)\<lparr>kh_vm := vm'\<rparr>)\<rparr>"
    "kvm_ok bi vm'" "kvm_took (set fs) vm vm'" "distinct fs" "length fs = 16"
    "mapped_frames (space vm) KHEAP_START 0 fs (space vm')" "rest_eq vm vm'"
    unfolding vm_def st'_def by (rule kmalloc_init_maps [OF ok [unfolded vm_def] ops room [unfolded vm_def]])
  then have st': "st' = st\<lparr>km_heap := heap_first_fit_init KHEAP_START 0x10000 ((km_heap st)\<lparr>kh_vm := vm'\<rparr>)\<rparr>"
    by (simp add: heap_first_fit_ops_def)
  note I = init_rep [of KHEAP_START "0x10000" "(km_heap st)\<lparr>kh_vm := vm'\<rparr>"]
  have "kh_vm (km_heap st') = vm'" by (simp add: st' heap_first_fit_init_def)
  moreover have "ff_frame (km_heap st') = (vm', KHEAP_START, KHEAP_START + 0x10000)" by (simp add: ff_frame_def st' heap_first_fit_init_def)
  moreover have "ff_inv (km_heap st')" "ff_live (km_heap st') = Map.empty"
    using rep_inv(1) [OF I(1)] I(2) by (simp_all add: st' KHEAP_START_def del: page_at_unat)
  ultimately show ?thesis using al ops st' by (auto simp: km_ok_def)
qed

text \<open>The slab back-end starts the same way.\<close>

interpretation ksl: heap_backend kmalloc kfree "\<lambda>st. kh_mem (km_heap st)" "km_poke slab_poke" "km_ok heap_slab_ops (kslab_inv bi)"
    "\<lambda>st. slab_live (km_heap st)" "\<lambda>st. kslab_full (km_heap st)" for bi
  by (rule registered_heap [OF slab.heap_backend_axioms]) (simp_all add: heap_slab_ops_def)

lemma backed_heap:
  assumes "kvm_took (set fs) vm vm'" "mapped_frames (space vm) KHEAP_START 0 fs (space vm')" "distinct fs" "length fs = 16" "kvm_ok bi vm"
  shows "backed vm' KHEAP_START (KHEAP_START + 0x10000)"
  using backed_mapped [OF assms(1-3) _ assms(5)] KHEAP_range assms(4) by simp

lemma kmalloc_init_slab:
  fixes st :: "(bitmap_state, 'v) slab_state kmalloc_state"
  defines "vm \<equiv> kh_vm (km_heap st)" and "st' \<equiv> kmalloc_init st"
  assumes ok: "kvm_ok bi vm" and ops: "g_heap_ops st = Some heap_slab_ops" and room: "32 \<le> card (kvm_free vm)"
  shows "km_ok heap_slab_ops (kslab_inv bi) st' \<and> slab_live (km_heap st') = Map.empty"
proof -
  obtain vm' fs where al: "st' = st\<lparr>km_heap := ho_init heap_slab_ops KHEAP_START 0x10000 ((km_heap st)\<lparr>kh_vm := vm'\<rparr>)\<rparr>"
    "kvm_ok bi vm'" "kvm_took (set fs) vm vm'" "distinct fs" "length fs = 16"
    "mapped_frames (space vm) KHEAP_START 0 fs (space vm')"
    unfolding vm_def st'_def by (rule kmalloc_init_maps [OF ok [unfolded vm_def] ops room [unfolded vm_def]])
  then have st': "st' = st\<lparr>km_heap := heap_slab_init KHEAP_START 0x10000 ((km_heap st)\<lparr>kh_vm := vm'\<rparr>)\<rparr>"
    by (simp add: heap_slab_ops_def)
  have "backed vm' KHEAP_START (KHEAP_START + 0x10000)" by (rule backed_heap [OF al(3,6,4,5) ok])
  then have "kslab_inv bi (km_heap st')" "slab_live (km_heap st') = Map.empty"
    using kslab_init [of bi "(km_heap st)\<lparr>kh_vm := vm'\<rparr>" "0x10000"] al(2) unfolding st' by (simp_all add: KHEAP_START_def page_aligned_def)
  moreover have "g_heap_ops st' = Some heap_slab_ops" using ops by (simp add: st')
  ultimately show ?thesis by (simp add: km_ok_def)
qed

text \<open>So \<open>kmalloc\<close> and \<open>kfree\<close> serve a client of either back-end from there on.\<close>

lemma kmalloc_slab_client:
  fixes st :: "(bitmap_state, 'v) slab_state kmalloc_state"
  assumes "kvm_ok bi (kh_vm (km_heap st))" "g_heap_ops st = Some heap_slab_ops" "32 \<le> card (kvm_free (kh_vm (km_heap st)))"
  shows "\<exists>st'. serves (heap_run kmalloc kfree (km_poke slab_poke) (\<lambda>st. slab_live (km_heap st)) cs (kmalloc_init st)) (kmalloc_init st) cs
      (heap_objects (\<lambda>st. kh_mem (km_heap st)) (\<lambda>st. slab_live (km_heap st))) (\<lambda>st. slab_live (km_heap st))
      (\<lambda>st. kslab_full (km_heap st)) st' \<and> km_ok heap_slab_ops (kslab_inv bi) st'"
  using ksl.run_serves [of bi "kmalloc_init st" cs] kmalloc_init_slab [OF assms] by blast

section \<open>Properties\<close>

text \<open>C6. From a running memory manager with 32 free pages, \<open>kmalloc_init\<close> maps the 16 first pages of the
  heap to distinct frames, that are no longer free and hold no page table, and nothing else; and from then on \<open>kmalloc\<close> and
  \<open>kfree\<close> are an object store that starts empty: every command of a client that keeps to the rules returns, \<open>kmalloc\<close>
  answers with the address of an aligned block of its own, large enough and on the mapped pages, or with null exactly when no gap between the
  blocks is long enough, and what the client reads at the address is what it wrote.\<close>

theorem kmalloc_boot_client:
  fixes st :: "(bitmap_state, 'v) ff_state kmalloc_state"
  assumes "kvm_ok bi (kh_vm (km_heap st))" "g_heap_ops st = Some heap_first_fit_ops" "32 \<le> card (kvm_free (kh_vm (km_heap st)))"
    and "st0 = kmalloc_init st"
  shows "\<exists>st' fs. serves (heap_run kmalloc kfree (km_poke ff_poke) (\<lambda>st. ff_live (km_heap st)) cs st0) st0 cs
      (heap_objects (\<lambda>st. kh_mem (km_heap st)) (\<lambda>st. ff_live (km_heap st))) (\<lambda>st. ff_live (km_heap st)) (\<lambda>st. ff_full (km_heap st)) st' \<and>
    ff_live (km_heap st0) = Map.empty \<and> distinct fs \<and> length fs = 16 \<and>
    mapped_frames (space (kh_vm (km_heap st))) KHEAP_START 0 fs (space (kh_vm (km_heap st'))) \<and>
    kvm_ok bi (kh_vm (km_heap st')) \<and> backed (kh_vm (km_heap st')) KHEAP_START (KHEAP_START + 0x10000) \<and>
    (\<forall>p n. ff_live (km_heap st') p = Some n \<longrightarrow> unat KHEAP_START + 16 \<le> unat p \<and> unat p + n \<le> unat KHEAP_START + 0x10000)"
proof -
  let ?r = "(kh_vm (km_heap st0), KHEAP_START, KHEAP_START + 0x10000)"
  from kmalloc_init_first_fit [OF assms(1-3), folded assms(4)] obtain fs where K: "km_ok heap_first_fit_ops ff_inv st0"
    "ff_frame (km_heap st0) = ?r" "ff_live (km_heap st0) = Map.empty" "kvm_ok bi (kh_vm (km_heap st0))" "distinct fs" "length fs = 16"
    "kvm_took (set fs) (kh_vm (km_heap st)) (kh_vm (km_heap st0))"
    "mapped_frames (space (kh_vm (km_heap st))) KHEAP_START 0 fs (space (kh_vm (km_heap st0)))" by blast
  have "km_ok heap_first_fit_ops (\<lambda>h. ff_inv h \<and> ff_frame h = ?r) st0" using K(1,2) by (simp add: km_ok_def)
  from kff.run_serves [OF this, of cs] obtain st' where R:
    "serves (heap_run kmalloc kfree (km_poke ff_poke) (\<lambda>st. ff_live (km_heap st)) cs st0) st0 cs
      (heap_objects (\<lambda>st. kh_mem (km_heap st)) (\<lambda>st. ff_live (km_heap st))) (\<lambda>st. ff_live (km_heap st)) (\<lambda>st. ff_full (km_heap st)) st'"
    "ff_inv (km_heap st')" "ff_frame (km_heap st') = ?r" unfolding km_ok_def by blast
  have f: "kh_vm (km_heap st') = kh_vm (km_heap st0)" "heap_start (km_heap st') = KHEAP_START" "heap_brk (km_heap st') = KHEAP_START + 0x10000"
    using R(3) by (simp_all add: ff_frame_def)
  have "unat (KHEAP_START + 0x10000) = unat KHEAP_START + 0x10000" by (simp add: KHEAP_START_def)
  then show ?thesis using R(1) K live_in_heap [OF R(2)] backed_heap [OF K(7,8,5,6) assms(1)]
    by (intro exI [of _ st'] exI [of _ fs]) (simp add: f)
qed

definition sample_kmalloc :: "(bitmap_state, unit) ff_state kmalloc_state" where
  "sample_kmalloc = \<lparr>g_heap_ops = Some heap_first_fit_ops,
     km_heap = \<lparr>kh_vm = sample_vmm0, kh_mem = (\<lambda>_. 0), heap_start = 0, heap_brk = 0, heap_end = 0, free_list = 0\<rparr>\<rparr>"

theorem kmalloc_boot_client_witness:
  "\<exists>st'. serves (heap_run kmalloc kfree (km_poke ff_poke) (\<lambda>st. ff_live (km_heap st)) [Alloc 64, Alloc 0x20000, Free 0] (kmalloc_init sample_kmalloc))
      (kmalloc_init sample_kmalloc) [Alloc 64, Alloc 0x20000, Free 0]
      (heap_objects (\<lambda>st. kh_mem (km_heap st)) (\<lambda>st. ff_live (km_heap st))) (\<lambda>st. ff_live (km_heap st)) (\<lambda>st. ff_full (km_heap st)) st' \<and>
    backed (kh_vm (km_heap st')) KHEAP_START (KHEAP_START + 0x10000)"
proof -
  have np: "\<not> present sample_vmm0 i" if "i < 1024" for i
    using that sample_vmm_ok(6) [of i] by (simp add: sample_vmm0_def present_def pd_get_def)
  have t: "tables sample_vmm0 = {}" using np by (auto simp: tables_def)
  have "length (g_kernel_pd sample_vmm0) = 1024" by (simp add: sample_vmm0_def sample_vmm_def)
  then have "kvm_ok sample_boot sample_vmm0"
    using sample_vmm0_ok(1,2) np by (auto simp: vm_ok_def t inj_on_def)
  moreover have "km_heap sample_kmalloc = \<lparr>kh_vm = sample_vmm0, kh_mem = (\<lambda>_. 0), heap_start = 0, heap_brk = 0, heap_end = 0, free_list = 0\<rparr>"
    "g_heap_ops sample_kmalloc = Some heap_first_fit_ops" by (simp_all add: sample_kmalloc_def)
  ultimately show ?thesis
    using kmalloc_boot_client [of sample_boot sample_kmalloc _ "[Alloc 64, Alloc 0x20000, Free 0]", OF _ _ _ refl] sample_vmm0_ok(3) by auto
qed

end
