(* ===== verification/Serial.thy ===== *)
theory Serial
  imports Prelude
begin

text \<open>
  Port input and output (\<open>io.h\<close>) and the serial port driver (\<open>serial.c\<close>). The hardware is a
  parameter: a \<open>device\<close> says which byte a read of a port returns after a given history of accesses
  (newest access first), so every driver function is a function from histories to histories. The
  polling loops of the driver run until the device is ready; a device that never gets ready is the
  value \<open>None\<close>.
\<close>

section \<open>Ports\<close>

datatype io_event = In u16 u8 | Out u16 u8 | Outw u16 u16

type_synonym io_history = "io_event list"
type_synonym device = "io_history \<Rightarrow> u16 \<Rightarrow> u8"

definition outb :: "u16 \<Rightarrow> u8 \<Rightarrow> io_history \<Rightarrow> io_history" where
  "outb port value h = Out port value # h"

definition outw :: "u16 \<Rightarrow> u16 \<Rightarrow> io_history \<Rightarrow> io_history" where
  "outw port value h = Outw port value # h"

definition inb :: "device \<Rightarrow> u16 \<Rightarrow> io_history \<Rightarrow> u8 \<times> io_history" where
  "inb dev port h = (let value = dev h port in (value, In port value # h))"

definition io_wait :: "io_history \<Rightarrow> io_history" where
  "io_wait h = outb 0x80 0 h"

section \<open>The driver\<close>

text \<open>C characters are bytes: \<open>byte_of\<close> and \<open>char_of_byte\<close> are the casts between \<open>char\<close> and
  \<open>uint8_t\<close>.\<close>

abbreviation byte_of :: "char \<Rightarrow> u8" where
  "byte_of c \<equiv> of_char c"

definition char_of_byte :: "u8 \<Rightarrow> char" where
  "char_of_byte b = char_of (unat b)"

lemma char_of_byte_of [simp]: "char_of_byte (byte_of c) = c"
proof -
  have "unat (of_nat (of_char c) :: u8) = of_char c"
    using nat_of_char_less_256 [of c] by (simp add: unat_of_nat)
  then show ?thesis by (simp add: char_of_byte_def of_nat_of_char)
qed

definition COM1 :: u16 where
  "COM1 = 0x3F8"

definition serial_transmit_empty :: "device \<Rightarrow> io_history \<Rightarrow> bool \<times> io_history" where
  "serial_transmit_empty dev h = (let (v, h1) = inb dev (COM1 + 5) h in (v AND 0x20 \<noteq> 0, h1))"

definition serial_received :: "device \<Rightarrow> io_history \<Rightarrow> bool \<times> io_history" where
  "serial_received dev h = (let (v, h1) = inb dev (COM1 + 5) h in (v AND 0x01 \<noteq> 0, h1))"

text \<open>The busy wait of \<open>serial_putc\<close>.\<close>

partial_function (option) serial_wait :: "device \<Rightarrow> io_history \<Rightarrow> io_history option" where
  "serial_wait dev h =
     (case serial_transmit_empty dev h of (ready, h1) \<Rightarrow>
        if ready then Some h1 else serial_wait dev h1)"

definition serial_putc :: "device \<Rightarrow> char \<Rightarrow> io_history \<Rightarrow> io_history option" where
  "serial_putc dev c h =
     (case (if c = CHR 0x0A
            then map_option (outb COM1 (byte_of (CHR 0x0D))) (serial_wait dev h)
            else Some h) of
        None \<Rightarrow> None
      | Some h1 \<Rightarrow> map_option (outb COM1 (byte_of c)) (serial_wait dev h1))"

fun serial_write :: "device \<Rightarrow> string \<Rightarrow> io_history \<Rightarrow> io_history option" where
  "serial_write dev [] h = Some h"
| "serial_write dev (c # s) h =
     (case serial_putc dev c h of None \<Rightarrow> None | Some h1 \<Rightarrow> serial_write dev s h1)"

fun hex32_from :: "nat \<Rightarrow> u32 \<Rightarrow> string" where
  "hex32_from 0 v = []"
| "hex32_from (Suc i) v =
     ''0123456789ABCDEF'' ! unat (drop_bit (i * 4) v AND 0xF) # hex32_from i v"

definition serial_write_hex32 :: "device \<Rightarrow> u32 \<Rightarrow> io_history \<Rightarrow> io_history option" where
  "serial_write_hex32 dev v h =
     (case serial_write dev ''0x'' h of None \<Rightarrow> None | Some h1 \<Rightarrow> serial_write dev (hex32_from 8 v) h1)"

definition serial_init :: "io_history \<Rightarrow> io_history" where
  "serial_init h =
     outb (COM1 + 4) 0x0B (outb (COM1 + 2) 0xC7 (outb (COM1 + 3) 0x03 (outb (COM1 + 1) 0x00
       (outb (COM1 + 0) 0x03 (outb (COM1 + 3) 0x80 (outb (COM1 + 1) 0x00 h))))))"

text \<open>The caller's out parameter is never null here; \<open>None\<close> is the return value 0.\<close>

definition serial_try_getc :: "device \<Rightarrow> io_history \<Rightarrow> char option \<times> io_history" where
  "serial_try_getc dev h =
     (let (ready, h1) = serial_received dev h in
      if \<not> ready then (None, h1)
      else (let (b, h2) = inb dev COM1 h1 in (Some (char_of_byte b), h2)))"

partial_function (option) serial_getc :: "device \<Rightarrow> io_history \<Rightarrow> (char \<times> io_history) option" where
  "serial_getc dev h =
     (case serial_try_getc dev h of
        (Some c, h1) \<Rightarrow> Some (c, h1)
      | (None, h1) \<Rightarrow> serial_getc dev h1)"

section \<open>What reaches the line\<close>

text \<open>The bytes written to the data register, oldest first, and the text with the carriage returns
  that a terminal expects.\<close>

fun sent :: "io_history \<Rightarrow> u8 list" where
  "sent [] = []"
| "sent (Out p v # t) = sent t @ (if p = COM1 then [v] else [])"
| "sent (_ # t) = sent t"

fun crlf :: "string \<Rightarrow> string" where
  "crlf [] = []"
| "crlf (c # s) = (if c = CHR 0x0A then [CHR 0x0D, CHR 0x0A] else [c]) @ crlf s"

text \<open>No byte is written unless the access before it read the line status with the transmitter
  empty, so none overruns the one before it.\<close>

fun paced :: "io_history \<Rightarrow> bool" where
  "paced [] \<longleftrightarrow> True"
| "paced (Out p v # t) \<longleftrightarrow> (p = COM1 \<longrightarrow>
     (case t of In q w # _ \<Rightarrow> q = COM1 + 5 \<and> w AND 0x20 \<noteq> 0 | _ \<Rightarrow> False)) \<and> paced t"
| "paced (_ # t) \<longleftrightarrow> paced t"

text \<open>What the driver relies on: however often the status has been read, some later read finds the
  transmitter empty.\<close>

fun lsr_polls :: "device \<Rightarrow> nat \<Rightarrow> io_history \<Rightarrow> io_history" where
  "lsr_polls dev 0 h = h"
| "lsr_polls dev (Suc n) h = lsr_polls dev n (In (COM1 + 5) (dev h (COM1 + 5)) # h)"

definition uart_drains :: "device \<Rightarrow> bool" where
  "uart_drains dev \<longleftrightarrow> (\<forall>h. \<exists>n. dev (lsr_polls dev n h) (COM1 + 5) AND 0x20 \<noteq> 0)"

definition delivers :: "string \<Rightarrow> io_history \<Rightarrow> io_history \<Rightarrow> bool" where
  "delivers s h h' \<longleftrightarrow> (\<exists>t. h' = t @ h \<and> sent t = map byte_of s \<and> paced t)"

lemma sent_append [simp]: "sent (a @ b) = sent b @ sent a"
  by (induction a rule: sent.induct) auto

lemma paced_append: "paced a \<Longrightarrow> paced b \<Longrightarrow> paced (a @ b)"
proof (induction a rule: paced.induct)
  case (2 p v t)
  then show ?case by (cases t) (auto split: list.splits io_event.splits)
qed auto

lemma delivers_trans: "delivers s h h1 \<Longrightarrow> delivers s' h1 h2 \<Longrightarrow> delivers (s @ s') h h2"
  unfolding delivers_def by (metis append.assoc sent_append paced_append map_append)

lemma delivers_Nil: "delivers [] h h"
  by (simp add: delivers_def)

text \<open>The wait ends with a status read that shows the transmitter empty.\<close>

lemma serial_wait_polls:
  assumes "dev (lsr_polls dev n h) (COM1 + 5) AND 0x20 \<noteq> 0"
  shows "\<exists>t w. serial_wait dev h = Some (In (COM1 + 5) w # t @ h) \<and> w AND 0x20 \<noteq> 0 \<and>
    sent t = [] \<and> paced t"
  using assms
proof (induction n arbitrary: h)
  case 0
  then show ?case
    by (subst serial_wait.simps)
      (auto simp: serial_transmit_empty_def inb_def Let_def intro!: exI [of _ "[]"])
next
  case (Suc n)
  let ?w = "dev h (COM1 + 5)"
  show ?case
  proof (cases "?w AND 0x20 = 0")
    case True
    have step: "serial_wait dev h = serial_wait dev (In (COM1 + 5) ?w # h)"
      using True by (subst serial_wait.simps) (simp add: serial_transmit_empty_def inb_def Let_def)
    obtain t w where r: "serial_wait dev (In (COM1 + 5) ?w # h) = Some (In (COM1 + 5) w # t @ In (COM1 + 5) ?w # h)"
      "w AND 0x20 \<noteq> 0" "sent t = []" "paced t"
      using Suc.IH [of "In (COM1 + 5) ?w # h"] Suc.prems by auto
    with step show ?thesis
      by (intro exI [of _ "t @ [In (COM1 + 5) ?w]"] exI [of _ w]) (auto intro: paced_append)
  next
    case False
    then show ?thesis
      by (subst serial_wait.simps)
        (auto simp: serial_transmit_empty_def inb_def Let_def intro!: exI [of _ "[]"])
  qed
qed

lemma wait_then_out:
  assumes "uart_drains dev"
  shows "\<exists>h'. map_option (outb COM1 (byte_of c)) (serial_wait dev h) = Some h' \<and> delivers [c] h h'"
proof -
  obtain n where "dev (lsr_polls dev n h) (COM1 + 5) AND 0x20 \<noteq> 0"
    using assms by (auto simp: uart_drains_def)
  from serial_wait_polls [of dev n h, OF this] obtain t w where r: "serial_wait dev h = Some (In (COM1 + 5) w # t @ h)"
    "w AND 0x20 \<noteq> 0" "sent t = []" "paced t" by blast
  have "delivers [c] h (Out COM1 (byte_of c) # In (COM1 + 5) w # t @ h)"
    unfolding delivers_def
    by (rule exI [of _ "Out COM1 (byte_of c) # In (COM1 + 5) w # t"]) (use r in simp)
  with r(1) show ?thesis by (simp add: outb_def)
qed

lemma putc_delivers:
  assumes "uart_drains dev"
  shows "\<exists>h'. serial_putc dev c h = Some h' \<and> delivers (crlf [c]) h h'"
proof (cases "c = CHR 0x0A")
  case True
  obtain h1 where 1: "map_option (outb COM1 (byte_of (CHR 0x0D))) (serial_wait dev h) = Some h1"
    "delivers [CHR 0x0D] h h1" using wait_then_out [OF assms] by blast
  obtain h2 where 2: "map_option (outb COM1 (byte_of c)) (serial_wait dev h1) = Some h2"
    "delivers [c] h1 h2" using wait_then_out [OF assms] by blast
  have "delivers (crlf [c]) h h2" using delivers_trans [OF 1(2) 2(2)] True by simp
  moreover have "serial_putc dev c h = Some h2"
    using 1(1) 2(1) True by (simp only: serial_putc_def if_True option.case True)
  ultimately show ?thesis by blast
next
  case False
  with wait_then_out [OF assms, of c h] show ?thesis by (simp add: serial_putc_def)
qed

lemma write_delivers:
  assumes "uart_drains dev"
  shows "\<exists>h'. serial_write dev s h = Some h' \<and> delivers (crlf s) h h'"
proof (induction s arbitrary: h)
  case Nil
  then show ?case by (simp add: delivers_Nil)
next
  case (Cons c s)
  obtain h1 where 1: "serial_putc dev c h = Some h1" "delivers (crlf [c]) h h1"
    using putc_delivers [OF assms] by blast
  obtain h2 where 2: "serial_write dev s h1 = Some h2" "delivers (crlf s) h1 h2"
    using Cons.IH by blast
  have "crlf (c # s) = crlf [c] @ crlf s" by simp
  then show ?case using 1 2 delivers_trans [OF 1(2) 2(2)] by auto
qed

text \<open>C34. On a serial port whose transmitter always drains in the end, \<open>serial_write\<close> returns; it
  sends exactly the bytes of its string, in order, with a carriage return before each line feed, and
  never writes a byte before the status register has shown the transmitter empty.\<close>

theorem serial_write_delivers:
  assumes "uart_drains dev"
  shows "\<exists>t. serial_write dev s h = Some (t @ h) \<and> sent t = map byte_of (crlf s) \<and> paced t"
  using write_delivers [OF assms, of s h] by (auto simp: delivers_def)

text \<open>A port that is busy at every other access.\<close>

definition sample_uart :: device where
  "sample_uart h port = (if even (length h) then 0x40 else 0x60)"

lemma sample_uart_drains: "uart_drains sample_uart"
proof -
  have "\<exists>n. sample_uart (lsr_polls sample_uart n h) (COM1 + 5) AND 0x20 \<noteq> 0" for h
  proof (cases "even (length h)")
    case True
    then show ?thesis by (intro exI [of _ "Suc 0"]) (simp add: sample_uart_def)
  next
    case False
    then show ?thesis by (intro exI [of _ 0]) (simp add: sample_uart_def)
  qed
  then show ?thesis by (simp add: uart_drains_def)
qed

theorem serial_write_delivers_witness:
  "\<exists>t. serial_write sample_uart ''ok\<newline>'' [] = Some (t @ []) \<and> sent t = [0x6F, 0x6B, 0x0D, 0x0A] \<and> paced t"
proof -
  have "map byte_of (crlf ''ok\<newline>'') = [0x6F, 0x6B, 0x0D, 0x0A]" by simp
  then show ?thesis using serial_write_delivers [OF sample_uart_drains, of "''ok\<newline>''" "[]"] by metis
qed

end
