(* ===== verification/Printk.thy ===== *)
theory Printk
  imports Serial
begin

text \<open>
  Formatted output (\<open>printk.c\<close>): \<open>vprintk\<close> computes the characters that the code passes to
  \<open>serial_putc\<close>, in order, and \<open>printk\<close> sends them. A C string is the list of its characters before
  the terminator. A value \<open>None\<close> of \<open>vprintk\<close> marks the runs that C leaves undefined: reading past
  the terminator of the format, a missing argument or one of the wrong type, and a field width that
  overflows an \<open>int\<close>. The second half of the theory gives the meaning of a format independently of
  its parser, as a list of pieces, and shows that the code renders every format of that shape.
\<close>

section \<open>Numbers\<close>

definition is_digit :: "char \<Rightarrow> bool" where
  "is_digit c \<longleftrightarrow> (of_char (CHR ''0'') :: nat) \<le> of_char c \<and> of_char c \<le> (of_char (CHR ''9'') :: nat)"

definition digit_char :: "nat \<Rightarrow> char" where
  "digit_char n = char_of (48 + n)"

function dec_loop :: "nat \<Rightarrow> u32 \<Rightarrow> string \<Rightarrow> string" where
  "dec_loop i value tmp =
     (if value > 0 \<and> i < 10
      then dec_loop (i + 1) (value div 10) (tmp @ [digit_char (unat (value mod 10))])
      else tmp)"
  by pat_completeness auto
termination by (relation "measure (\<lambda>(i, value, tmp). 10 - i)") auto

declare dec_loop.simps [simp del]

definition fmt_u32_dec :: "u32 \<Rightarrow> string" where
  "fmt_u32_dec value = (if value = 0 then ''0'' else rev (dec_loop 0 value []))"

definition fmt_int_dec :: "u32 \<Rightarrow> string" where
  "fmt_int_dec value = (if value <s 0 then CHR ''-'' # fmt_u32_dec (0 - value) else fmt_u32_dec value)"

definition hex_digits :: string where
  "hex_digits = ''0123456789abcdef''"

function hex_loop :: "nat \<Rightarrow> u32 \<Rightarrow> string \<Rightarrow> string" where
  "hex_loop i value tmp =
     (if value > 0 \<and> i < 8
      then hex_loop (i + 1) (drop_bit 4 value) (tmp @ [hex_digits ! unat (value AND 0xF)])
      else tmp)"
  by pat_completeness auto
termination by (relation "measure (\<lambda>(i, value, tmp). 8 - i)") auto

declare hex_loop.simps [simp del]

definition fmt_u32_hex :: "u32 \<Rightarrow> string" where
  "fmt_u32_hex value = (if value = 0 then ''0'' else rev (hex_loop 0 value []))"

fun hex_width_from :: "nat \<Rightarrow> u32 \<Rightarrow> string" where
  "hex_width_from 0 num = []"
| "hex_width_from (Suc i) num = hex_digits ! unat (drop_bit (i * 4) num AND 0xF) # hex_width_from i num"

definition print_hex_u32_width :: "u32 \<Rightarrow> int \<Rightarrow> string" where
  "print_hex_u32_width num width =
     (let width = (if width \<le> 0 then 1 else width); width = (if width > 8 then 8 else width)
      in hex_width_from (nat width) num)"

section \<open>Formats\<close>

text \<open>\<open>serial_write_padded\<close>, for a string and its length.\<close>

definition write_padded :: "string \<Rightarrow> int \<Rightarrow> bool \<Rightarrow> char \<Rightarrow> string" where
  "write_padded s width left_align pad =
     (let width = (if width < 0 then 0 else width);
          padding = (if width > int (length s) then nat (width - int (length s)) else 0)
      in (if \<not> left_align then replicate padding pad else []) @ s @
         (if left_align then replicate padding CHR '' '' else []))"

text \<open>An argument: an \<open>int\<close>, \<open>unsigned\<close> or pointer, all of them 32 bits wide, or a string, null or
  not.\<close>

datatype karg = KInt u32 | KStr "string option"

text \<open>A character is passed as an \<open>int\<close>; \<open>char\<close> is signed.\<close>

definition kchar :: "char \<Rightarrow> karg" where
  "kchar c = KInt (scast (byte_of c))"

fun parse_flags :: "string \<Rightarrow> bool \<Rightarrow> char \<Rightarrow> string \<times> bool \<times> char" where
  "parse_flags [] left_align pad = ([], left_align, pad)"
| "parse_flags (c # fmt) left_align pad =
     (if c = CHR ''-'' then parse_flags fmt True pad
      else if c = CHR ''0'' then parse_flags fmt left_align (CHR ''0'')
      else (c # fmt, left_align, pad))"

fun parse_width :: "string \<Rightarrow> int \<Rightarrow> (string \<times> int) option" where
  "parse_width [] width = Some ([], width)"
| "parse_width (c # fmt) width =
     (if is_digit c
      then (let width = width * 10 + (of_char c - of_char (CHR ''0'')) in
            if width < 2 ^ 31 then parse_width fmt width else None)
      else Some (c # fmt, width))"

text \<open>One conversion: what it prints, and the arguments left.\<close>

fun convert :: "char \<Rightarrow> karg list \<Rightarrow> int \<Rightarrow> bool \<Rightarrow> char \<Rightarrow> (string \<times> karg list) option" where
  "convert spec args width left_align pad =
     (if spec = CHR ''%'' then Some (''%'', args)
      else if spec = CHR ''d'' then
        (case args of
           KInt v # rest \<Rightarrow>
             (let buf = fmt_int_dec v; len = int (length buf) in
              if pad = CHR ''0'' \<and> \<not> left_align \<and> width > len \<and> len > 0 \<and> hd buf = CHR ''-''
              then Some (CHR ''-'' # replicate (nat (width - len)) (CHR ''0'') @ tl buf, rest)
              else Some (write_padded buf width left_align pad, rest))
         | _ \<Rightarrow> None)
      else if spec = CHR ''u'' then
        (case args of
           KInt v # rest \<Rightarrow> Some (write_padded (fmt_u32_dec v) width left_align pad, rest)
         | _ \<Rightarrow> None)
      else if spec = CHR ''x'' then
        (case args of
           KInt v # rest \<Rightarrow> Some (write_padded (fmt_u32_hex v) width left_align pad, rest)
         | _ \<Rightarrow> None)
      else if spec = CHR ''p'' then
        (case args of
           KInt v # rest \<Rightarrow> Some (''0x'' @ print_hex_u32_width v 8, rest)
         | _ \<Rightarrow> None)
      else if spec = CHR ''s'' then
        (case args of
           KStr str # rest \<Rightarrow>
             Some (write_padded (case str of None \<Rightarrow> ''(null)'' | Some out \<Rightarrow> out) width left_align pad, rest)
         | _ \<Rightarrow> None)
      else if spec = CHR ''c'' then
        (case args of
           KInt v # rest \<Rightarrow> Some (write_padded [char_of_byte (ucast v)] width left_align pad, rest)
         | _ \<Rightarrow> None)
      else Some ([CHR ''%'', spec], args))"

lemma length_parse_flags: "(fmt', r) = parse_flags fmt l p \<Longrightarrow> length fmt' \<le> length fmt"
  by (induction fmt l p rule: parse_flags.induct) (auto split: if_splits)

lemma length_parse_width: "parse_width fmt w = Some (fmt', w') \<Longrightarrow> length fmt' \<le> length fmt"
  by (induction fmt w rule: parse_width.induct) (auto simp: Let_def split: if_splits)

text \<open>After a format that stops inside a directive the code prints a percent sign and the
  terminator and goes on behind it, which is undefined.\<close>

function vprintk :: "string \<Rightarrow> karg list \<Rightarrow> string option" where
  "vprintk fmt args =
     (case fmt of
        [] \<Rightarrow> Some []
      | c # fmt1 \<Rightarrow>
          if c \<noteq> CHR ''%'' then map_option ((#) c) (vprintk fmt1 args)
          else if fmt1 = [] then Some ''%''
          else
            (let (fmt2, left_align, pad) = parse_flags fmt1 False (CHR '' '') in
             case parse_width fmt2 0 of
               None \<Rightarrow> None
             | Some ([], width) \<Rightarrow> None
             | Some (spec # fmt3, width) \<Rightarrow>
                 (let pad = (if left_align then CHR '' '' else pad) in
                  case convert spec args width left_align pad of
                    None \<Rightarrow> None
                  | Some (out, rest) \<Rightarrow> map_option ((@) out) (vprintk fmt3 rest))))"
  by pat_completeness auto
termination
  by (relation "measure (\<lambda>(fmt, args). length fmt)")
    (auto dest!: length_parse_width length_parse_flags)

declare vprintk.simps [simp del]

definition printk :: "device \<Rightarrow> string \<Rightarrow> karg list \<Rightarrow> io_history \<Rightarrow> io_history option" where
  "printk dev fmt args h =
     (case vprintk fmt args of None \<Rightarrow> None | Some out \<Rightarrow> serial_write dev out h)"

section \<open>Numbers, and how to read them back\<close>

function nat_dec :: "nat \<Rightarrow> string" where
  "nat_dec n = (if n < 10 then [digit_char n] else nat_dec (n div 10) @ [digit_char (n mod 10)])"
  by pat_completeness auto
termination by (relation "measure id") auto

text \<open>The sixteen signs: the decimal digits, then the letters from a.\<close>

definition hex_sign :: "nat \<Rightarrow> char" where
  "hex_sign n = (if n < 10 then char_of (48 + n) else char_of (87 + n))"

function nat_hex :: "nat \<Rightarrow> string" where
  "nat_hex n = (if n < 16 then [hex_sign n] else nat_hex (n div 16) @ [hex_sign (n mod 16)])"
  by pat_completeness auto
termination by (relation "measure id") auto

declare nat_dec.simps [simp del] nat_hex.simps [simp del]

lemma hex_sign: "n < 16 \<Longrightarrow> hex_sign n = hex_digits ! n"
proof -
  have "\<forall>n \<in> {..<16}. hex_sign n = hex_digits ! n" by code_simp
  then show "n < 16 \<Longrightarrow> ?thesis" by simp
qed

lemma nat_hex_unfold: "nat_hex n = (if n < 16 then [hex_digits ! n] else nat_hex (n div 16) @ [hex_digits ! (n mod 16)])"
  by (subst nat_hex.simps) (simp add: hex_sign)

definition dec_value :: "string \<Rightarrow> nat" where
  "dec_value s = foldl (\<lambda>n c. 10 * n + (of_char c - 48)) 0 s"

definition hex_digit_value :: "char \<Rightarrow> nat" where
  "hex_digit_value c = (if is_digit c then of_char c - 48 else of_char c - 87)"

definition hex_value :: "string \<Rightarrow> nat" where
  "hex_value s = foldl (\<lambda>n c. 16 * n + hex_digit_value c) 0 s"

definition int_value :: "string \<Rightarrow> int" where
  "int_value s = (if s \<noteq> [] \<and> hd s = CHR ''-'' then - int (dec_value (tl s)) else int (dec_value s))"

lemma of_digit_char: "n < 10 \<Longrightarrow> (of_char (digit_char n) :: nat) = 48 + n"
  by (simp add: digit_char_def of_char_of)

lemma is_digit_char: "n < 10 \<Longrightarrow> is_digit (digit_char n)"
  by (simp add: is_digit_def of_digit_char)

lemma of_digit_char_int: "n < 10 \<Longrightarrow> (of_char (digit_char n) :: int) = 48 + int n"
proof -
  assume "n < 10"
  then have "int (of_char (digit_char n)) = 48 + int n" by (simp add: of_digit_char)
  then show ?thesis by (simp add: of_nat_of_char)
qed

lemma dec_value_snoc: "dec_value (s @ [c]) = 10 * dec_value s + (of_char c - 48)"
  by (simp add: dec_value_def)

lemma dec_value_nat_dec: "dec_value (nat_dec n) = n"
proof (induction n rule: nat_dec.induct)
  case (1 n)
  show ?case
  proof (cases "n < 10")
    case True
    then show ?thesis by (subst nat_dec.simps) (simp add: dec_value_def of_digit_char)
  next
    case False
    then show ?thesis using 1
      by (subst nat_dec.simps) (simp add: dec_value_snoc of_digit_char)
  qed
qed

lemma nat_dec_digits: "c \<in> set (nat_dec n) \<Longrightarrow> is_digit c"
proof (induction n rule: nat_dec.induct)
  case (1 n)
  then show ?case
    by (subst (asm) (2) nat_dec.simps) (auto simp: is_digit_char split: if_splits)
qed

lemma nat_dec_not_Nil [simp]: "nat_dec n \<noteq> []"
  by (subst nat_dec.simps) simp

lemma nat_dec_hd: "0 < n \<Longrightarrow> \<exists>c t. nat_dec n = c # t \<and> c \<noteq> CHR ''0'' \<and> c \<noteq> CHR ''-''"
proof (induction n rule: nat_dec.induct)
  case (1 n)
  show ?case
  proof (cases "n < 10")
    case True
    have "(of_char (digit_char n) :: nat) \<noteq> of_char (CHR ''0'')"
      "(of_char (digit_char n) :: nat) \<noteq> of_char (CHR ''-'')"
      using True 1 by (simp_all add: of_digit_char)
    then have "digit_char n \<noteq> CHR ''0''" "digit_char n \<noteq> CHR ''-''" by metis+
    with True show ?thesis by (subst nat_dec.simps) simp
  next
    case False
    then obtain c t where "nat_dec (n div 10) = c # t" "c \<noteq> CHR ''0''" "c \<noteq> CHR ''-''"
      using 1 by force
    with False show ?thesis by (subst nat_dec.simps) simp
  qed
qed

lemma dec_loop_nat_dec:
  "unat v < 10 ^ (10 - i) \<Longrightarrow>
     rev (dec_loop i v tmp) = (if v = 0 then [] else nat_dec (unat v)) @ rev tmp"
proof (induction i v tmp rule: dec_loop.induct)
  case (1 i v tmp)
  show ?case
  proof (cases "v = 0")
    case True
    then show ?thesis by (subst dec_loop.simps) simp
  next
    case False
    have i: "i < 10" using 1(2) False by (cases "i < 10") (auto simp: unsigned_eq_0_iff)
    have "10 - i = Suc (10 - (i + 1))" using i by simp
    then have ten: "(10::nat) ^ (10 - i) = 10 * 10 ^ (10 - (i + 1))" by (simp only: power_Suc)
    have u: "unat (v div 10) = unat v div 10" "unat (v mod 10) = unat v mod 10"
      by (simp_all add: unat_div unat_mod)
    have z: "v div 10 = 0 \<longleftrightarrow> unat v < 10"
      using u(1) by (metis div_less div_eq_0_iff less_numeral_extra(3) unsigned_0 unsigned_eq_0_iff zero_neq_numeral)
    have pos: "v > 0" using False by (simp add: word_gt_0)
    have bound: "unat (v div 10) < 10 ^ (10 - (i + 1))"
      using 1(2) unfolding u(1) ten by (simp add: less_mult_imp_div_less mult.commute)
    have "rev (dec_loop i v tmp) =
        rev (dec_loop (i + 1) (v div 10) (tmp @ [digit_char (unat (v mod 10))]))"
      using i pos by (subst dec_loop.simps) simp
    also have "\<dots> = (if v div 10 = 0 then [] else nat_dec (unat (v div 10))) @
        digit_char (unat (v mod 10)) # rev tmp"
      using 1(1) [OF conjI, OF pos i bound] by simp
    also have "\<dots> = nat_dec (unat v) @ rev tmp"
      unfolding z u by (subst (2) nat_dec.simps) simp
    finally show ?thesis using False by simp
  qed
qed

lemma fmt_u32_dec_eq: "fmt_u32_dec v = nat_dec (unat v)"
proof (cases "v = 0")
  case True
  moreover have "digit_char 0 = CHR ''0''" by code_simp
  ultimately show ?thesis by (simp add: fmt_u32_dec_def nat_dec.simps)
next
  case False
  then show ?thesis
    using dec_loop_nat_dec [of v 0 "[]"] unat_lt_2p32 [of v] by (simp add: fmt_u32_dec_def)
qed

lemma fmt_int_dec_eq:
  "fmt_int_dec v = (if sint v < 0 then CHR ''-'' # nat_dec (nat (- sint v)) else nat_dec (nat (sint v)))"
proof (cases "sint v < 0")
  case True
  have v: "uint v = sint v mod 2 ^ 32" by (simp add: uint_sint take_bit_eq_mod)
  have "- (2 ^ 31) \<le> sint v" using sint_greater_eq [of v] by simp
  moreover have "uint (0 - v) = (- sint v) mod 2 ^ 32"
    by (simp add: uint_word_ariths v mod_minus_eq)
  ultimately have "uint (0 - v) = - sint v" using True by (simp add: mod_pos_pos_trivial)
  then have "unat (0 - v) = nat (- sint v)" by (simp only: unat_eq_nat_uint)
  with True show ?thesis by (simp add: fmt_int_dec_def word_sless_alt fmt_u32_dec_eq)
next
  case False
  have "uint v = sint v mod 2 ^ 32" by (simp add: uint_sint take_bit_eq_mod)
  with False sint_less [of v] have "uint v = sint v" by (simp add: mod_pos_pos_trivial)
  then have "unat v = nat (sint v)" by (simp only: unat_eq_nat_uint)
  with False show ?thesis by (simp add: fmt_int_dec_def word_sless_alt fmt_u32_dec_eq)
qed

lemma hex_digit_value: "n < 16 \<Longrightarrow> hex_digit_value (hex_digits ! n) = n"
proof -
  have "\<forall>n \<in> {..<16}. hex_digit_value (hex_digits ! n) = n" by code_simp
  then show "n < 16 \<Longrightarrow> ?thesis" by simp
qed

lemma hex_value_snoc: "hex_value (s @ [c]) = 16 * hex_value s + hex_digit_value c"
  by (simp add: hex_value_def)

lemma hex_value_nat_hex: "hex_value (nat_hex n) = n"
proof (induction n rule: nat_hex.induct)
  case (1 n)
  show ?case
  proof (cases "n < 16")
    case True
    then show ?thesis by (subst nat_hex_unfold) (simp add: hex_value_def hex_digit_value)
  next
    case False
    then show ?thesis using 1
      by (subst nat_hex_unfold) (simp add: hex_value_snoc hex_digit_value)
  qed
qed

lemma unat_drop: "unat (drop_bit k v) = unat v div 2 ^ k" for v :: u32
  by (simp add: unat_drop_bit_eq flip: drop_bit_eq_div)

lemma nibble: "unat (drop_bit k v AND 0xF) = unat v div 2 ^ k mod 16" for v :: u32
proof -
  have "(0xF :: u32) = mask 4" by (simp add: mask_eq_exp_minus_1)
  then have "unat (drop_bit k v AND 0xF) = unat (drop_bit k v) mod 16"
    using unat_and_mask [of "drop_bit k v" 4] by simp
  then show ?thesis by (simp only: unat_drop)
qed

lemma hex_loop_nat_hex:
  "unat v < 16 ^ (8 - i) \<Longrightarrow>
     rev (hex_loop i v tmp) = (if v = 0 then [] else nat_hex (unat v)) @ rev tmp"
proof (induction i v tmp rule: hex_loop.induct)
  case (1 i v tmp)
  show ?case
  proof (cases "v = 0")
    case True
    then show ?thesis by (subst hex_loop.simps) simp
  next
    case False
    have i: "i < 8" using 1(2) False by (cases "i < 8") (auto simp: unsigned_eq_0_iff)
    have "8 - i = Suc (8 - (i + 1))" using i by simp
    then have sixteen: "(16::nat) ^ (8 - i) = 16 * 16 ^ (8 - (i + 1))" by (simp only: power_Suc)
    have u: "unat (drop_bit 4 v) = unat v div 16" "unat (v AND 0xF) = unat v mod 16"
      using nibble [of 0 v] unat_drop [of 4 v] by simp_all
    have z: "drop_bit 4 v = 0 \<longleftrightarrow> unat v < 16"
      using u(1) by (metis div_less div_eq_0_iff less_numeral_extra(3) unsigned_0 unsigned_eq_0_iff zero_neq_numeral)
    have pos: "v > 0" using False by (simp add: word_gt_0)
    have bound: "unat (drop_bit 4 v) < 16 ^ (8 - (i + 1))"
      using 1(2) unfolding u(1) sixteen by (simp add: less_mult_imp_div_less mult.commute)
    have "rev (hex_loop i v tmp) =
        rev (hex_loop (i + 1) (drop_bit 4 v) (tmp @ [hex_digits ! unat (v AND 0xF)]))"
      using i pos by (subst hex_loop.simps) simp
    also have "\<dots> = (if drop_bit 4 v = 0 then [] else nat_hex (unat (drop_bit 4 v))) @
        (hex_digits ! unat (v AND 0xF)) # rev tmp"
      using 1(1) [OF conjI, OF pos i bound] by simp
    also have "\<dots> = nat_hex (unat v) @ rev tmp"
      unfolding z u by (subst (2) nat_hex_unfold) simp
    finally show ?thesis using False by simp
  qed
qed

lemma fmt_u32_hex_eq: "fmt_u32_hex v = nat_hex (unat v)"
proof (cases "v = 0")
  case True
  then show ?thesis by (simp add: fmt_u32_hex_def nat_hex_unfold hex_digits_def)
next
  case False
  then show ?thesis
    using hex_loop_nat_hex [of v 0 "[]"] unat_lt_2p32 [of v] by (simp add: fmt_u32_hex_def)
qed

text \<open>The last digits of a number, as many as asked for.\<close>

definition hex_places :: "nat \<Rightarrow> nat \<Rightarrow> string" where
  "hex_places k n = map (\<lambda>i. hex_sign (n div 16 ^ i mod 16)) (rev [0..<k])"

lemma hex_places_eq: "hex_places k n = map (\<lambda>i. hex_digits ! (n div 16 ^ i mod 16)) (rev [0..<k])"
  by (simp add: hex_places_def hex_sign)

lemma hex_width_from_eq: "hex_width_from k v = hex_places k (unat v)"
proof (induction k)
  case (Suc k)
  have "(2::nat) ^ (k * 4) = 16 ^ k" by (simp add: power_mult mult.commute [of k])
  with Suc show ?case by (simp add: hex_places_eq nibble)
qed (simp add: hex_places_eq)

lemma hex_value_append: "hex_value (a @ b) = hex_value a * 16 ^ length b + hex_value b"
  by (induction b rule: rev_induct) (auto simp: hex_value_snoc hex_value_def algebra_simps)

lemma hex_value_places: "hex_value (hex_places k n) = n mod 16 ^ k"
proof (induction k)
  case (Suc k)
  have "hex_value (hex_places (Suc k) n) =
      hex_value [hex_digits ! (n div 16 ^ k mod 16)] * 16 ^ length (hex_places k n) + hex_value (hex_places k n)"
    using hex_value_append [of "[hex_digits ! (n div 16 ^ k mod 16)]" "hex_places k n"]
    by (simp add: hex_places_eq)
  also have "\<dots> = (n div 16 ^ k mod 16) * 16 ^ k + n mod 16 ^ k"
    using Suc by (simp add: hex_value_def hex_digit_value) (simp add: hex_places_eq)
  also have "\<dots> = n mod 16 ^ Suc k"
    using mod_mult2_eq [of n "16 ^ k" 16] by (simp only: power_Suc2 mult.commute)
  finally show ?case .
qed (simp add: hex_places_eq hex_value_def)

section \<open>The meaning of a format\<close>

text \<open>A format is a list of pieces: a character, a percent sign, or a directive with its two flags,
  its width (0 for none) and its conversion. \<open>show_piece\<close> writes a piece down; \<open>render\<close> says what it
  prints, with the sign of a number kept in front of the zeros that fill its field. Pointers have
  eight digits and no field.\<close>

datatype conv = Conv_d | Conv_u | Conv_x | Conv_p | Conv_s | Conv_c

datatype piece = Text char | Percent | Directive bool bool nat conv

fun conv_char :: "conv \<Rightarrow> char" where
  "conv_char Conv_d = CHR ''d''"
| "conv_char Conv_u = CHR ''u''"
| "conv_char Conv_x = CHR ''x''"
| "conv_char Conv_p = CHR ''p''"
| "conv_char Conv_s = CHR ''s''"
| "conv_char Conv_c = CHR ''c''"

fun show_piece :: "piece \<Rightarrow> string" where
  "show_piece (Text c) = [c]"
| "show_piece Percent = ''%%''"
| "show_piece (Directive left zero width k) =
     CHR ''%'' # (if left then ''-'' else []) @ (if zero then ''0'' else []) @
       (if width = 0 then [] else nat_dec width) @ [conv_char k]"

definition show_format :: "piece list \<Rightarrow> string" where
  "show_format ps = concat (map show_piece ps)"

fun piece_ok :: "piece \<Rightarrow> bool" where
  "piece_ok (Text c) \<longleftrightarrow> c \<noteq> CHR ''%''"
| "piece_ok Percent \<longleftrightarrow> True"
| "piece_ok (Directive left zero width k) \<longleftrightarrow> width < 2 ^ 31"

fun arg_text :: "conv \<Rightarrow> karg \<Rightarrow> (string \<times> string) option" where
  "arg_text Conv_d (KInt v) =
     Some (if sint v < 0 then ''-'' else [], nat_dec (nat \<bar>sint v\<bar>))"
| "arg_text Conv_u (KInt v) = Some ([], nat_dec (unat v))"
| "arg_text Conv_x (KInt v) = Some ([], nat_hex (unat v))"
| "arg_text Conv_p (KInt v) = Some (''0x'', hex_places 8 (unat v))"
| "arg_text Conv_s (KStr s) = Some ([], (case s of None \<Rightarrow> ''(null)'' | Some t \<Rightarrow> t))"
| "arg_text Conv_c (KInt v) = Some ([], [char_of_byte (ucast v)])"
| "arg_text _ _ = None"

definition field :: "bool \<Rightarrow> bool \<Rightarrow> nat \<Rightarrow> string \<times> string \<Rightarrow> string" where
  "field left zero width = (\<lambda>(sign, body).
     (let fill = width - length sign - length body in
      if left then sign @ body @ replicate fill CHR '' ''
      else if zero then sign @ replicate fill CHR ''0'' @ body
      else replicate fill CHR '' '' @ sign @ body))"

fun render :: "piece list \<Rightarrow> karg list \<Rightarrow> string option" where
  "render [] args = Some []"
| "render (Text c # ps) args = map_option ((#) c) (render ps args)"
| "render (Percent # ps) args = map_option ((#) (CHR ''%'')) (render ps args)"
| "render (Directive left zero width k # ps) args =
     (case args of
        [] \<Rightarrow> None
      | a # rest \<Rightarrow>
          (case arg_text k a of
             None \<Rightarrow> None
           | Some t \<Rightarrow>
               map_option ((@) (field left zero (if k = Conv_p then 0 else width) t)) (render ps rest)))"

section \<open>The code renders every format\<close>

lemma parse_width_dec: "w < 2 ^ 31 \<Longrightarrow> parse_width (nat_dec w @ t) 0 = parse_width t (int w)"
proof (induction w arbitrary: t rule: nat_dec.induct)
  case (1 w)
  show ?case
  proof (cases "w < 10")
    case True
    then show ?thesis by (subst nat_dec.simps) (simp add: is_digit_char of_digit_char_int)
  next
    case False
    have "parse_width (nat_dec w @ t) 0 = parse_width (nat_dec (w div 10) @ digit_char (w mod 10) # t) 0"
      using False by (subst nat_dec.simps) simp
    also have "\<dots> = parse_width (digit_char (w mod 10) # t) (int (w div 10))"
      using 1(1) [OF False] 1(2) by simp
    also have "\<dots> = parse_width t (int w)"
      using 1(2) div_mult_mod_eq [of "int w" 10]
      by (simp add: is_digit_char of_digit_char_int zdiv_int zmod_int Let_def del: div_mult_mod_eq)
    finally show ?thesis .
  qed
qed

lemma conv_char_plain:
  "conv_char k \<noteq> CHR ''-''" "conv_char k \<noteq> CHR ''0''" "\<not> is_digit (conv_char k)"
  by (cases k; simp add: is_digit_def)+

lemma parse_flags_show:
  "c \<noteq> CHR ''-'' \<Longrightarrow> c \<noteq> CHR ''0'' \<Longrightarrow>
     parse_flags ((if l then ''-'' else []) @ (if z then ''0'' else []) @ c # t) False (CHR '' '') =
       (c # t, l, if z then CHR ''0'' else CHR '' '')"
  by simp

lemma vprintk_directive:
  assumes "w < 2 ^ 31"
  shows "vprintk (show_piece (Directive l z w k) @ fmt) args =
    (case convert (conv_char k) args (int w) l (if l then CHR '' '' else if z then CHR ''0'' else CHR '' '') of
       None \<Rightarrow> None
     | Some (out, rest) \<Rightarrow> map_option ((@) out) (vprintk fmt rest))"
proof -
  define body where "body = (if w = 0 then [] else nat_dec w) @ conv_char k # fmt"
  obtain c t where body: "body = c # t" "c \<noteq> CHR ''-''" "c \<noteq> CHR ''0''"
    using nat_dec_hd [of w] conv_char_plain [of k] by (cases "w = 0") (auto simp: body_def)
  have width: "parse_width body 0 = Some (conv_char k # fmt, int w)"
    using parse_width_dec [OF assms] conv_char_plain(3) by (cases "w = 0") (auto simp: body_def)
  have fmt: "show_piece (Directive l z w k) @ fmt =
      CHR ''%'' # (if l then ''-'' else []) @ (if z then ''0'' else []) @ body"
    by (simp add: body_def)
  have flags: "parse_flags ((if l then ''-'' else []) @ (if z then ''0'' else []) @ body) False (CHR '' '') =
      (body, l, if z then CHR ''0'' else CHR '' '')"
    unfolding body(1) by (rule parse_flags_show [OF body(2,3)])
  have ne: "(if l then ''-'' else []) @ (if z then ''0'' else []) @ body \<noteq> []" by (simp add: body(1))
  show ?thesis
    unfolding fmt
    by (subst vprintk.simps) (simp only: list.case ne if_False not_True_eq_False flags width
        Let_def prod.case option.case HOL.simp_thms)
qed

lemma write_padded_field: "write_padded s (int w) l (if l then CHR '' '' else if z then CHR ''0'' else CHR '' '') = field l z w ([], s)"
  by (simp add: write_padded_def field_def Let_def nat_diff_distrib')

lemma hd_nat_dec: "hd (nat_dec n) \<noteq> CHR ''-''"
proof -
  have "is_digit (hd (nat_dec n))" by (rule nat_dec_digits [of _ n]) simp
  then show ?thesis by (auto simp: is_digit_def)
qed

lemma convert_field:
  "convert (conv_char k) args (int w) l (if l then CHR '' '' else if z then CHR ''0'' else CHR '' '') =
    (case args of
       [] \<Rightarrow> None
     | a # rest \<Rightarrow>
         (case arg_text k a of
            None \<Rightarrow> None
          | Some t \<Rightarrow> Some (field l z (if k = Conv_p then 0 else w) t, rest)))"
proof (cases args)
  case Nil
  then show ?thesis by (cases k) auto
next
  case (Cons a rest)
  show ?thesis
  proof (cases a)
    case (KInt v)
    show ?thesis
    proof (cases k)
      case Conv_d
      show ?thesis
      proof (cases "sint v < 0")
        case True
        then show ?thesis using Cons KInt Conv_d
          by (auto simp: fmt_int_dec_eq write_padded_def field_def Let_def nat_diff_distrib')
      next
        case False
        then show ?thesis using Cons KInt Conv_d hd_nat_dec [of "nat (sint v)"]
          by (auto simp: fmt_int_dec_eq write_padded_field simp del: if_split)
      qed
    next
      case Conv_u
      then show ?thesis using Cons KInt
        by (simp add: fmt_u32_dec_eq write_padded_field del: if_split)
    next
      case Conv_x
      then show ?thesis using Cons KInt
        by (simp add: fmt_u32_hex_eq write_padded_field del: if_split)
    next
      case Conv_p
      then show ?thesis using Cons KInt
        by (simp add: print_hex_u32_width_def hex_width_from_eq field_def)
    next
      case Conv_s
      then show ?thesis using Cons KInt by simp
    next
      case Conv_c
      then show ?thesis using Cons KInt by (simp add: write_padded_field del: if_split)
    qed
  next
    case (KStr s)
    then show ?thesis using Cons by (cases k) (simp_all add: write_padded_field del: if_split)
  qed
qed

lemma vprintk_render:
  "\<forall>p \<in> set ps. piece_ok p \<Longrightarrow> vprintk (show_format ps) args = render ps args"
proof (induction ps arbitrary: args)
  case Nil
  then show ?case by (simp add: show_format_def vprintk.simps)
next
  case (Cons p ps)
  have fmt: "show_format (p # ps) = show_piece p @ show_format ps" by (simp add: show_format_def)
  have IH: "vprintk (show_format ps) args = render ps args" for args using Cons by simp
  show ?case
  proof (cases p)
    case (Text c)
    then show ?thesis using Cons.prems IH unfolding fmt by (subst vprintk.simps) simp
  next
    case Percent
    have "show_format (p # ps) = CHR ''%'' # CHR ''%'' # show_format ps"
      by (simp add: show_format_def Percent)
    then show ?thesis
      by (simp only:)
        (subst vprintk.simps, cases "render ps args", simp_all add: is_digit_def IH Percent)
  next
    case (Directive l z w k)
    then have w: "w < 2 ^ 31" using Cons.prems by simp
    have "show_format (p # ps) = show_piece (Directive l z w k) @ show_format ps"
      by (simp add: show_format_def Directive)
    then have "vprintk (show_format (p # ps)) args = vprintk (show_piece (Directive l z w k) @ show_format ps) args"
      by simp
    then show ?thesis
      unfolding vprintk_directive [OF w] convert_field
      by (simp only: Directive) (simp add: IH split: list.split option.split)
  qed
qed

text \<open>A format that stops inside a directive makes the code read behind its terminator.\<close>

lemma vprintk_incomplete: "vprintk ''%5'' args = None" "vprintk ''%-0'' args = None"
  by (simp_all add: vprintk.simps [of "''%5''"] vprintk.simps [of "''%-0''"] is_digit_def)

lemma length_nat_hex: "n < 16 ^ k \<Longrightarrow> 0 < k \<Longrightarrow> length (nat_hex n) \<le> k"
proof (induction n arbitrary: k rule: nat_hex.induct)
  case (1 n)
  show ?case
  proof (cases "n < 16")
    case True
    then show ?thesis using 1 by (subst nat_hex_unfold) simp
  next
    case False
    then obtain k' where k: "k = Suc k'" "0 < k'"
      using 1(2,3) by (cases k; cases "k - 1") auto
    have "length (nat_hex (n div 16)) \<le> k'"
      using 1(1) [OF False, of k'] 1(2) k by (simp add: less_mult_imp_div_less mult.commute)
    with False k show ?thesis by (subst nat_hex_unfold) simp
  qed
qed

lemma hex_value_zeros: "hex_value (replicate k (CHR ''0'') @ s) = hex_value s"
proof -
  have "hex_value (replicate k (CHR ''0'')) = 0"
    by (induction k) (simp_all add: hex_value_def hex_digit_value_def is_digit_def flip: replicate_append_same)
  then show ?thesis by (simp add: hex_value_append)
qed

section \<open>Properties\<close>

text \<open>C30. Every well-formed format is printed as it is meant: the parser of \<open>vprintk\<close> recovers the
  flags, the width and the conversion of every directive, and each is printed as its meaning says,
  padded on the side and with the character the flags ask for, the sign before the zeros; an
  argument that is missing or of the wrong type is an error on both sides.\<close>

theorem printk_renders_format:
  assumes "\<forall>p \<in> set ps. piece_ok p"
  shows "vprintk (show_format ps) args = render ps args"
  using assms by (rule vprintk_render)

theorem printk_renders_format_witness:
  "vprintk ''[%5d|%-4u]\<newline>'' [KInt (- 42), KInt 7] = Some ''[  -42|7   ]\<newline>''"
proof -
  let ?ps = "[Text (CHR ''[''), Directive False False 5 Conv_d, Text (CHR ''|''),
    Directive True False 4 Conv_u, Text (CHR '']''), Text (CHR 0x0A)]"
  have "show_format ?ps = ''[%5d|%-4u]\<newline>''" by code_simp
  moreover have "render ?ps [KInt (- 42), KInt 7] = Some ''[  -42|7   ]\<newline>''" by code_simp
  moreover have "\<forall>p \<in> set ?ps. piece_ok p" by simp
  ultimately show ?thesis using printk_renders_format [of ?ps "[KInt (- 42), KInt 7]"] by metis
qed

text \<open>The numbers that \<open>printk\<close> writes read back as the values that were passed: \<open>%d\<close> as the
  signed value, the most negative one included, \<open>%u\<close> and \<open>%x\<close> as the unsigned one, and \<open>%08x\<close> with
  eight digits exactly.\<close>

theorem printk_numbers_read_back:
  "(\<exists>s. vprintk ''%d'' [KInt v] = Some s \<and> int_value s = sint v) \<and>
   (\<exists>s. vprintk ''%u'' [KInt v] = Some s \<and> dec_value s = unat v) \<and>
   (\<exists>s. vprintk ''%x'' [KInt v] = Some s \<and> hex_value s = unat v) \<and>
   (\<exists>s. vprintk ''%08x'' [KInt v] = Some s \<and> length s = 8 \<and> hex_value s = unat v) \<and>
   (\<exists>s. vprintk ''%p'' [KInt v] = Some (''0x'' @ s) \<and> length s = 8 \<and> hex_value s = unat v)"
proof -
  have eq: "vprintk (show_format [Directive False z w k]) [KInt v] = render [Directive False z w k] [KInt v]"
    if "w < 2 ^ 31" for z w k using that by (intro vprintk_render) simp
  have fmt: "show_format [Directive False False 0 Conv_d] = ''%d''"
    "show_format [Directive False False 0 Conv_u] = ''%u''"
    "show_format [Directive False False 0 Conv_x] = ''%x''"
    "show_format [Directive False True 8 Conv_x] = ''%08x''"
    "show_format [Directive False False 0 Conv_p] = ''%p''"
    by code_simp+
  have len: "length (nat_hex (unat v)) \<le> 8" using length_nat_hex [of "unat v" 8] unat_lt_2p32 [of v] by simp
  note r = eq [of 0 False Conv_d] eq [of 0 False Conv_u] eq [of 0 False Conv_x] eq [of 8 True Conv_x]
    eq [of 0 False Conv_p]
  show ?thesis
    using r len hd_nat_dec [of "nat (sint v)"] unat_lt_2p32 [of v]
    unfolding fmt
    by (simp add: field_def int_value_def dec_value_nat_dec hex_value_nat_hex hex_value_zeros
        hex_value_places hex_places_eq [of 8, THEN arg_cong, of length] Let_def)
qed

end
