(* ===== verification/Irq.thy ===== *)
theory Irq
  imports Printk
begin

text \<open>
  The 8259 interrupt controllers (\<open>pic.c\<close>) and the common entry point of the hardware interrupts
  (\<open>irq.c\<close>). A \<open>kio\<close> is the part of the machine that drivers change: the history of port accesses
  and the log of the calls of \<open>printk\<close>, newest last; drivers extend it with their own state. An
  interrupt handler is a function on such states, and the table of handlers is a list of 16 entries.
\<close>

type_synonym klog = "(string \<times> karg list) list"

abbreviation say :: "string \<Rightarrow> klog" where
  "say fmt \<equiv> [(fmt, [])]"

record kio =
  k_io :: io_history
  k_log :: klog

definition kprint :: "string \<Rightarrow> karg list \<Rightarrow> 'a kio_scheme \<Rightarrow> 'a kio_scheme" where
  "kprint fmt args s = s\<lparr>k_log := k_log s @ [(fmt, args)]\<rparr>"

definition kout :: "u16 \<Rightarrow> u8 \<Rightarrow> 'a kio_scheme \<Rightarrow> 'a kio_scheme" where
  "kout port value s = s\<lparr>k_io := outb port value (k_io s)\<rparr>"

definition kin :: "device \<Rightarrow> u16 \<Rightarrow> 'a kio_scheme \<Rightarrow> u8 \<times> 'a kio_scheme" where
  "kin dev port s = (let (v, h) = inb dev port (k_io s) in (v, s\<lparr>k_io := h\<rparr>))"

definition kwait :: "'a kio_scheme \<Rightarrow> 'a kio_scheme" where
  "kwait s = s\<lparr>k_io := io_wait (k_io s)\<rparr>"

section \<open>The interrupt controllers\<close>

definition PIC1_CMD :: u16 where "PIC1_CMD = 0x20"
definition PIC1_DATA :: u16 where "PIC1_DATA = 0x21"
definition PIC2_CMD :: u16 where "PIC2_CMD = 0xA0"
definition PIC2_DATA :: u16 where "PIC2_DATA = 0xA1"
definition PIC_EOI :: u8 where "PIC_EOI = 0x20"
definition ICW1_INIT :: u8 where "ICW1_INIT = 0x10"
definition ICW1_ICW4 :: u8 where "ICW1_ICW4 = 0x01"
definition ICW4_8086 :: u8 where "ICW4_8086 = 0x01"

lemmas pic_ports = PIC1_CMD_def PIC1_DATA_def PIC2_CMD_def PIC2_DATA_def

definition pic_read_mask :: "device \<Rightarrow> u16 \<Rightarrow> 'a kio_scheme \<Rightarrow> u8 \<times> 'a kio_scheme" where
  "pic_read_mask dev data_port s = kin dev data_port s"

definition pic_write_mask :: "u16 \<Rightarrow> u8 \<Rightarrow> 'a kio_scheme \<Rightarrow> 'a kio_scheme" where
  "pic_write_mask data_port m s = kout data_port m s"

definition pic_set_mask :: "device \<Rightarrow> u8 \<Rightarrow> 'a kio_scheme \<Rightarrow> 'a kio_scheme" where
  "pic_set_mask dev irq s =
     (let port = (if irq < 8 then PIC1_DATA else PIC2_DATA);
          line = unat (irq AND 7);
          (m, s1) = pic_read_mask dev port s
      in pic_write_mask port (m OR push_bit line 1) s1)"

definition pic_clear_mask :: "device \<Rightarrow> u8 \<Rightarrow> 'a kio_scheme \<Rightarrow> 'a kio_scheme" where
  "pic_clear_mask dev irq s =
     (let port = (if irq < 8 then PIC1_DATA else PIC2_DATA);
          line = unat (irq AND 7);
          (m, s1) = pic_read_mask dev port s
      in pic_write_mask port (m AND NOT (push_bit line 1)) s1)"

definition pic_send_eoi :: "u8 \<Rightarrow> 'a kio_scheme \<Rightarrow> 'a kio_scheme" where
  "pic_send_eoi irq s =
     (let s1 = (if irq \<ge> 8 then kout PIC2_CMD PIC_EOI s else s) in kout PIC1_CMD PIC_EOI s1)"

definition pic_init :: "device \<Rightarrow> 'a kio_scheme \<Rightarrow> 'a kio_scheme" where
  "pic_init dev s0 =
     (let (a1, s1) = kin dev PIC1_DATA s0;
          (a2, s2) = kin dev PIC2_DATA s1;
          s3 = kwait (kout PIC1_CMD (ICW1_INIT OR ICW1_ICW4) s2);
          s4 = kwait (kout PIC2_CMD (ICW1_INIT OR ICW1_ICW4) s3);
          s5 = kwait (kout PIC1_DATA 0x20 s4);
          s6 = kwait (kout PIC2_DATA 0x28 s5);
          s7 = kwait (kout PIC1_DATA 0x04 s6);
          s8 = kwait (kout PIC2_DATA 0x02 s7);
          s9 = kwait (kout PIC1_DATA ICW4_8086 s8);
          s10 = kwait (kout PIC2_DATA ICW4_8086 s9)
      in kout PIC2_DATA 0xFF (kout PIC1_DATA 0xFF s10))"

section \<open>Interrupt dispatch\<close>

text \<open>The registers that the assembly stubs push.\<close>

record irq_regs =
  r_gs :: u32
  r_fs :: u32
  r_es :: u32
  r_ds :: u32
  r_edi :: u32
  r_esi :: u32
  r_ebp :: u32
  r_esp :: u32
  r_ebx :: u32
  r_edx :: u32
  r_ecx :: u32
  r_eax :: u32
  r_int_no :: u32
  r_err_code :: u32
  r_eip :: u32
  r_cs :: u32
  r_eflags :: u32

type_synonym 'a irq_handler = "irq_regs \<Rightarrow> 'a kio_scheme \<Rightarrow> 'a kio_scheme"

type_synonym 'a irq_table = "'a irq_handler option list"

definition irq_install_handler :: "u8 \<Rightarrow> 'a irq_handler \<Rightarrow> 'a irq_table \<Rightarrow> 'a irq_table" where
  "irq_install_handler irq handler table =
     (if irq \<ge> 16 then table else table[unat irq := Some handler])"

definition irq_handler_c :: "'a irq_table \<Rightarrow> irq_regs option \<Rightarrow> 'a kio_scheme \<Rightarrow> 'a kio_scheme" where
  "irq_handler_c table r s =
     (case r of
        None \<Rightarrow> s
      | Some r \<Rightarrow>
          if r_int_no r < 0x20 \<or> r_int_no r > 0x2F
          then kprint ''[irq] unexpected vector=%u\<newline>'' [KInt (r_int_no r)] s
          else
            (let irq = (ucast (r_int_no r - 0x20) :: u8);
                 handler = (if irq < 16 then table ! unat irq else None);
                 s1 = (case handler of Some f \<Rightarrow> f r s | None \<Rightarrow> s)
             in pic_send_eoi irq s1))"

section \<open>What the controllers see\<close>

text \<open>The bytes written to a port, oldest first.\<close>

fun port_writes :: "u16 \<Rightarrow> io_history \<Rightarrow> u8 list" where
  "port_writes p [] = []"
| "port_writes p (Out q v # h) = port_writes p h @ (if q = p then [v] else [])"
| "port_writes p (_ # h) = port_writes p h"

text \<open>The 8259 with command port \<open>c\<close> and data port \<open>d\<close>: how many bytes of its initialisation it still waits for, and its
  mask register, when it is known. A command with bit 4 starts the initialisation and clears the mask; then come one byte
  more, another one unless bit 1 says that the controller is single, and another one if bit 0 asks for it. Any other byte
  for the data port is a mask.\<close>

fun pic_chip :: "u16 \<Rightarrow> u16 \<Rightarrow> io_history \<Rightarrow> nat \<times> u8 option" where
  "pic_chip c d [] = (0, None)"
| "pic_chip c d (Out q v # h) =
     (case pic_chip c d h of
        (n, m) \<Rightarrow>
          if q = c \<and> bit v 4 then (1 + (if bit v 1 then 0 else 1) + (if bit v 0 then 1 else 0), Some 0)
          else if q = d then (if n = 0 then (0, Some v) else (n - 1, m))
          else (n, m))"
| "pic_chip c d (_ # h) = pic_chip c d h"

definition pic_of :: "u8 \<Rightarrow> io_history \<Rightarrow> nat \<times> u8 option" where
  "pic_of irq = (if irq < 8 then pic_chip PIC1_CMD PIC1_DATA else pic_chip PIC2_CMD PIC2_DATA)"

text \<open>The mask register of a controller reads back the mask written last, outside its initialisation.\<close>

definition masks_read_back :: "device \<Rightarrow> bool" where
  "masks_read_back dev \<longleftrightarrow>
     (\<forall>h m. (pic_chip PIC1_CMD PIC1_DATA h = (0, Some m) \<longrightarrow> dev h PIC1_DATA = m) \<and>
            (pic_chip PIC2_CMD PIC2_DATA h = (0, Some m) \<longrightarrow> dev h PIC2_DATA = m))"

definition pic_mask :: "u8 \<Rightarrow> io_history \<Rightarrow> u8" where
  "pic_mask irq h = the (snd (pic_of irq h))"

text \<open>Whether the controllers hold an interrupt back.\<close>

definition irq_masked :: "u8 \<Rightarrow> io_history \<Rightarrow> bool" where
  "irq_masked irq h = bit (pic_mask irq h) (unat (irq AND 7))"

lemmas kio_defs = kout_def kin_def kwait_def outb_def inb_def io_wait_def

lemma pic_init_masks: "pic_of irq (k_io (pic_init dev s)) = (0, Some 0xFF)"
  by (simp add: pic_init_def kio_defs pic_ports pic_of_def Let_def ICW1_INIT_def ICW1_ICW4_def ICW4_8086_def case_prod_unfold)

lemma line_lt: "unat (irq AND 7) < 8" for irq :: u8
proof -
  have "(7 :: u8) = mask 3" by (simp add: mask_eq_exp_minus_1)
  then show ?thesis using unat_and_mask [of irq 3] by simp
qed

definition mask_port :: "u8 \<Rightarrow> u16" where
  "mask_port irq = (if irq < 8 then PIC1_DATA else PIC2_DATA)"

lemma pic_of_write: "pic_of irq h = (0, m) \<Longrightarrow> pic_of irq (Out (mask_port irq) v # h) = (0, Some v)"
  by (simp add: pic_of_def mask_port_def pic_ports split: if_splits)

lemma pic_change_mask:
  assumes "masks_read_back dev" "pic_of irq (k_io s) = (0, Some m)"
  shows "pic_of irq (k_io (pic_set_mask dev irq s)) = (0, Some (m OR push_bit (unat (irq AND 7)) 1))"
    and "pic_of irq (k_io (pic_clear_mask dev irq s)) = (0, Some (m AND NOT (push_bit (unat (irq AND 7)) 1)))"
proof -
  have rb: "dev (k_io s) (mask_port irq) = m"
    using assms unfolding masks_read_back_def mask_port_def pic_of_def by (simp split: if_splits)
  have rd: "pic_of irq (In (mask_port irq) v # h) = pic_of irq h" for v h by (simp add: pic_of_def)
  show "pic_of irq (k_io (pic_set_mask dev irq s)) = (0, Some (m OR push_bit (unat (irq AND 7)) 1))"
    and "pic_of irq (k_io (pic_clear_mask dev irq s)) = (0, Some (m AND NOT (push_bit (unat (irq AND 7)) 1)))"
    unfolding pic_set_mask_def pic_clear_mask_def mask_port_def [symmetric] Let_def
    by (simp_all add: pic_read_mask_def pic_write_mask_def kio_defs Let_def rb pic_of_write rd assms(2))
qed

lemma pic_other_masks:
  "irq < 8 \<longleftrightarrow> \<not> other < 8 \<Longrightarrow> pic_of other (k_io (pic_clear_mask dev irq s)) = pic_of other (k_io s)"
  by (simp add: pic_clear_mask_def pic_read_mask_def pic_write_mask_def kio_defs Let_def pic_of_def pic_ports case_prod_unfold split: if_splits)

lemma same_line: "irq < 16 \<Longrightarrow> other < 16 \<Longrightarrow> (irq < 8 \<longleftrightarrow> other < 8) \<Longrightarrow>
    unat (irq AND 7) = unat (other AND 7) \<longleftrightarrow> irq = other" for irq other :: u8
proof -
  have seven: "(7 :: u8) = mask 3" by (simp add: mask_eq_exp_minus_1)
  have low: "k mod 8 = (if k < 8 then k else k - 8)" if "k < 16" for k :: nat
    using that by (simp add: le_mod_geq)
  assume "irq < 16" "other < 16" "irq < 8 \<longleftrightarrow> other < 8"
  then have "unat irq < 16" "unat other < 16" "unat irq < 8 \<longleftrightarrow> unat other < 8"
    by (simp_all add: word_less_nat_alt)
  then have "unat irq mod 8 = unat other mod 8 \<longleftrightarrow> unat irq = unat other"
    unfolding low [OF \<open>unat irq < 16\<close>] low [OF \<open>unat other < 16\<close>] by auto
  then show ?thesis
    using unat_and_mask [of irq 3] unat_and_mask [of other 3] by (simp add: seven word_unat_eq_iff)
qed

text \<open>Unmasking one interrupt leaves the state of all the others.\<close>

lemma clear_mask_unmasks:
  assumes "masks_read_back dev" "irq < 16" "other < 16" "pic_of irq (k_io s) = (0, Some m)"
  shows "irq_masked other (k_io (pic_clear_mask dev irq s)) \<longleftrightarrow> other \<noteq> irq \<and> irq_masked other (k_io s)"
proof (cases "irq < 8 \<longleftrightarrow> other < 8")
  case True
  then have p: "pic_of other = pic_of irq" by (simp add: pic_of_def)
  show ?thesis
    unfolding irq_masked_def pic_mask_def p pic_change_mask(2) [OF assms(1,4)] assms(4)
    using same_line [OF assms(2,3) True] line_lt [of irq] line_lt [of other]
    by (auto simp: bit_simps)
next
  case False
  then show ?thesis by (auto simp: irq_masked_def pic_mask_def pic_other_masks)
qed

lemma send_eoi_writes:
  "port_writes PIC1_CMD (k_io (pic_send_eoi irq s)) = port_writes PIC1_CMD (k_io s) @ [PIC_EOI]"
  "port_writes PIC2_CMD (k_io (pic_send_eoi irq s)) =
     port_writes PIC2_CMD (k_io s) @ (if irq \<ge> 8 then [PIC_EOI] else [])"
  by (simp_all add: pic_send_eoi_def kio_defs pic_ports)

end
