(* ===== verification/Keyboard.thy ===== *)
theory Keyboard
  imports Irq
begin

text \<open>
  The keyboard driver (\<open>keyboard.c\<close>): the translation of scancodes, the ring buffer between the
  interrupt handler, which fills it, and the shell, which empties it, and the concurrency of the
  two. The handler runs to its end once it has started; the reader can be interrupted between any
  two of its accesses to the shared variables, which is the granularity of the step relation below.
\<close>

section \<open>State and ring buffer\<close>

record kbd = kio +
  kbd_buf :: "char list"
  kbd_head :: u8
  kbd_tail :: u8
  shift_down :: bool
  e0_prefix :: bool

definition KBD_DATA :: u16 where "KBD_DATA = 0x60"
definition KBD_BUF_SIZE :: u32 where "KBD_BUF_SIZE = 128"

definition kbd_next :: "u8 \<Rightarrow> u8" where
  "kbd_next i = ucast ((ucast i + 1) mod KBD_BUF_SIZE)"

definition kbd_buf_put :: "char \<Rightarrow> 'a kbd_scheme \<Rightarrow> 'a kbd_scheme" where
  "kbd_buf_put c s =
     (let head = kbd_head s; nxt = kbd_next head in
      if nxt = kbd_tail s then s
      else s\<lparr>kbd_buf := (kbd_buf s)[unat head := c], kbd_head := nxt\<rparr>)"

text \<open>The out parameter is never null here; \<open>None\<close> is the return value 0.\<close>

definition kbd_buf_get :: "'a kbd_scheme \<Rightarrow> char option \<times> 'a kbd_scheme" where
  "kbd_buf_get s =
     (let tail = kbd_tail s in
      if tail = kbd_head s then (None, s)
      else (Some (kbd_buf s ! unat tail), s\<lparr>kbd_tail := kbd_next tail\<rparr>))"

section \<open>Scancodes\<close>

text \<open>The initialisers of the two tables, whose remaining elements are zero.\<close>

definition NUL :: char where "NUL = CHR 0x00"

definition scancode_table :: "string \<Rightarrow> string" where
  "scancode_table init = init @ replicate (64 - length init) NUL"

definition scancode_map :: string where
  "scancode_map = scancode_table (
     [NUL, NUL] @ ''1234567890-='' @ [CHR 0x08, CHR 0x09] @
     ''qwertyuiop[]'' @ [CHR 0x0A, NUL] @
     ''asdfghjkl;'' @ [CHR 0x27, CHR 0x60, NUL, CHR 0x5C] @
     ''zxcvbnm,./'' @ [NUL, NUL, NUL] @ '' '')"

definition scancode_map_shift :: string where
  "scancode_map_shift = scancode_table (
     [NUL, NUL] @ ''!@#$%^&*()_+'' @ [CHR 0x08, CHR 0x09] @
     ''QWERTYUIOP{}'' @ [CHR 0x0A, NUL] @
     ''ASDFGHJKL:'' @ [CHR 0x22, CHR 0x7E, NUL, CHR 0x7C] @
     ''ZXCVBNM<>?'' @ [NUL, NUL, NUL] @ '' '')"

definition keyboard_handle_scancode :: "u8 \<Rightarrow> 'a kbd_scheme \<Rightarrow> 'a kbd_scheme" where
  "keyboard_handle_scancode sc s =
     (if sc = 0xE0 then s\<lparr>e0_prefix := True\<rparr>
      else if e0_prefix s then s\<lparr>e0_prefix := False\<rparr>
      else
        (let released = (sc AND 0x80 \<noteq> 0); code = sc AND 0x7F in
         if code = 0x2A \<or> code = 0x36 then s\<lparr>shift_down := \<not> released\<rparr>
         else if released then s
         else if unat code < length scancode_map
         then (let ch = (if shift_down s then scancode_map_shift ! unat code else scancode_map ! unat code)
               in if ch \<noteq> NUL then kbd_buf_put ch s else s)
         else s))"

definition keyboard_irq1_handler :: "device \<Rightarrow> irq_regs \<Rightarrow> 'a kbd_scheme \<Rightarrow> 'a kbd_scheme" where
  "keyboard_irq1_handler dev r s =
     (let (sc, s1) = kin dev KBD_DATA s in keyboard_handle_scancode sc s1)"

definition keyboard_init ::
  "device \<Rightarrow> 'a kbd_ext irq_table \<times> 'a kbd_scheme \<Rightarrow> 'a kbd_ext irq_table \<times> 'a kbd_scheme" where
  "keyboard_init dev = (\<lambda>(table, s).
     (irq_install_handler 1 (keyboard_irq1_handler dev) table, pic_clear_mask dev 1 s))"

definition keyboard_try_getc :: "'a kbd_scheme \<Rightarrow> char option \<times> 'a kbd_scheme" where
  "keyboard_try_getc s = kbd_buf_get s"

section \<open>The ring buffer is a bounded queue\<close>

definition kbd_count :: "'a kbd_scheme \<Rightarrow> nat" where
  "kbd_count s = (unat (kbd_head s) + 128 - unat (kbd_tail s)) mod 128"

definition kbd_queue :: "'a kbd_scheme \<Rightarrow> string" where
  "kbd_queue s = map (\<lambda>i. kbd_buf s ! ((unat (kbd_tail s) + i) mod 128)) [0..<kbd_count s]"

definition kbd_ok :: "'a kbd_scheme \<Rightarrow> bool" where
  "kbd_ok s \<longleftrightarrow> unat (kbd_head s) < 128 \<and> unat (kbd_tail s) < 128 \<and> length (kbd_buf s) = 128"

text \<open>The queue keeps at most 127 characters and drops what comes after.\<close>

definition enqueue :: "char \<Rightarrow> string \<Rightarrow> string" where
  "enqueue c q = (if length q < 127 then q @ [c] else q)"

lemma unat_kbd_next: "unat (kbd_next i) = (unat i + 1) mod 128"
proof -
  have i: "unat i < 256" using unsigned_less [of i] by simp
  then have "unat (ucast i :: u32) = unat i" by (simp add: unsigned_ucast_eq take_bit_nat_eq_self)
  with i have "unat ((ucast i :: u32) + 1) = unat i + 1"
    by (simp add: unat_word_ariths)
  then have "unat (((ucast i :: u32) + 1) mod KBD_BUF_SIZE) = (unat i + 1) mod 128"
    by (simp add: KBD_BUF_SIZE_def unat_mod)
  then show ?thesis by (simp add: kbd_next_def unsigned_ucast_eq take_bit_nat_eq_self)
qed

lemma next_if: "unat i < 128 \<Longrightarrow> unat (kbd_next i) = (if unat i = 127 then 0 else unat i + 1)"
  by (simp add: unat_kbd_next)

lemma count_if: "kbd_ok s \<Longrightarrow> kbd_count s =
    (if unat (kbd_tail s) \<le> unat (kbd_head s) then unat (kbd_head s) - unat (kbd_tail s)
     else unat (kbd_head s) + 128 - unat (kbd_tail s))"
  by (auto simp: kbd_count_def kbd_ok_def mod_if)

lemma mod_128: "(n::nat) < 256 \<Longrightarrow> n mod 128 = (if n < 128 then n else n - 128)"
  by (simp add: le_mod_geq)

lemma length_kbd_queue [simp]: "length (kbd_queue s) = kbd_count s"
  by (simp add: kbd_queue_def)

lemma kbd_count_less: "kbd_count s < 128"
  by (simp add: kbd_count_def)

lemma kbd_count_full: "kbd_ok s \<Longrightarrow> kbd_next (kbd_head s) = kbd_tail s \<longleftrightarrow> kbd_count s = 127"
proof -
  assume ok: "kbd_ok s"
  have "kbd_next (kbd_head s) = kbd_tail s \<longleftrightarrow> (unat (kbd_head s) + 1) mod 128 = unat (kbd_tail s)"
    by (simp add: word_unat_eq_iff unat_kbd_next)
  also have "\<dots> \<longleftrightarrow> kbd_count s = 127"
    using ok by (auto simp: kbd_ok_def kbd_count_def mod_if split: if_splits)
  finally show ?thesis .
qed

lemma kbd_count_empty: "kbd_ok s \<Longrightarrow> kbd_tail s = kbd_head s \<longleftrightarrow> kbd_count s = 0"
  by (auto simp: word_unat_eq_iff kbd_ok_def kbd_count_def mod_if)

lemma kbd_put:
  assumes "kbd_ok s"
  shows "kbd_ok (kbd_buf_put c s)" "kbd_queue (kbd_buf_put c s) = enqueue c (kbd_queue s)"
    "kbd_tail (kbd_buf_put c s) = kbd_tail s"
proof -
  let ?h = "unat (kbd_head s)" and ?t = "unat (kbd_tail s)"
  have b: "?h < 128" "?t < 128" "length (kbd_buf s) = 128" using assms by (auto simp: kbd_ok_def)
  show "kbd_ok (kbd_buf_put c s)"
    using b by (simp add: kbd_buf_put_def kbd_ok_def Let_def unat_kbd_next)
  show "kbd_tail (kbd_buf_put c s) = kbd_tail s" by (simp add: kbd_buf_put_def Let_def)
  show "kbd_queue (kbd_buf_put c s) = enqueue c (kbd_queue s)"
  proof (cases "kbd_count s = 127")
    case True
    then show ?thesis
      using kbd_count_full [OF assms] by (simp add: kbd_buf_put_def Let_def enqueue_def)
  next
    case False
    let ?s = "s\<lparr>kbd_buf := (kbd_buf s)[?h := c], kbd_head := kbd_next (kbd_head s)\<rparr>"
    have put: "kbd_buf_put c s = ?s"
      using kbd_count_full [OF assms] False by (simp add: kbd_buf_put_def Let_def)
    have n: "kbd_count s < 127" using False kbd_count_less [of s] by simp
    have ok: "kbd_ok ?s" using b by (simp add: kbd_ok_def unat_kbd_next)
    have cnt: "kbd_count ?s = Suc (kbd_count s)"
      using b n count_if [OF assms] count_if [OF ok] next_if [OF b(1)] by (auto split: if_splits)
    have last: "(?t + kbd_count s) mod 128 = ?h"
      using b n count_if [OF assms] mod_128 [of "?t + kbd_count s"] by (auto split: if_splits)
    have other: "?h \<noteq> (?t + i) mod 128" if "i < kbd_count s" for i
      using b that n count_if [OF assms] mod_128 [of "?t + i"] by (auto split: if_splits)
    have "kbd_queue ?s = map (\<lambda>i. (kbd_buf s)[?h := c] ! ((?t + i) mod 128)) [0..<kbd_count s] @ [c]"
      using last b unfolding kbd_queue_def cnt by simp
    also have "map (\<lambda>i. (kbd_buf s)[?h := c] ! ((?t + i) mod 128)) [0..<kbd_count s] = kbd_queue s"
      using other by (auto simp: kbd_queue_def)
    finally show ?thesis using n put by (simp add: enqueue_def)
  qed
qed

text \<open>Advancing the tail takes the first character off.\<close>

lemma kbd_advance:
  assumes "kbd_ok s" "0 < kbd_count s"
  shows "kbd_ok (s\<lparr>kbd_tail := kbd_next (kbd_tail s)\<rparr>)"
    "kbd_queue s = kbd_buf s ! unat (kbd_tail s) # kbd_queue (s\<lparr>kbd_tail := kbd_next (kbd_tail s)\<rparr>)"
proof -
  let ?h = "unat (kbd_head s)" and ?t = "unat (kbd_tail s)"
  let ?s = "s\<lparr>kbd_tail := kbd_next (kbd_tail s)\<rparr>"
  have b: "?h < 128" "?t < 128" "length (kbd_buf s) = 128" using assms by (auto simp: kbd_ok_def)
  show ok: "kbd_ok ?s" using b by (simp add: kbd_ok_def unat_kbd_next)
  have cnt: "kbd_count s = Suc (kbd_count ?s)"
    using b assms(2) count_if [OF assms(1)] count_if [OF ok] next_if [OF b(2)] by (auto split: if_splits)
  have "kbd_queue s = kbd_buf s ! ?t # map (\<lambda>i. kbd_buf s ! ((?t + Suc i) mod 128)) [0..<kbd_count ?s]"
    using b unfolding kbd_queue_def cnt map_upt_Suc by simp
  also have "map (\<lambda>i. kbd_buf s ! ((?t + Suc i) mod 128)) [0..<kbd_count ?s] = kbd_queue ?s"
    by (simp add: kbd_queue_def unat_kbd_next mod_simps)
  finally show "kbd_queue s = kbd_buf s ! ?t # kbd_queue ?s" .
qed

section \<open>What a scancode does\<close>

text \<open>The character that a scancode puts into the buffer, if any.\<close>

definition scancode_char :: "u8 \<Rightarrow> 'a kbd_scheme \<Rightarrow> char option" where
  "scancode_char sc s =
     (if sc = 0xE0 \<or> e0_prefix s \<or> sc AND 0x80 \<noteq> 0 \<or> sc = 0x2A \<or> sc = 0x36 \<or> \<not> sc < 0x40 then None
      else (let ch = (if shift_down s then scancode_map_shift else scancode_map) ! unat sc in
            if ch = NUL then None else Some ch))"

lemma length_scancode_map: "length scancode_map = 64" "length scancode_map_shift = 64"
  by (simp_all add: scancode_map_def scancode_map_shift_def scancode_table_def)

lemma make_code: "sc AND 0x80 = 0 \<Longrightarrow> sc AND 0x7F = sc" for sc :: u8
proof -
  assume 0: "sc AND 0x80 = 0"
  have "(0x80 OR 0x7F :: u8) = - 1" by simp
  moreover have "sc = sc AND - 1" by simp
  ultimately have "sc = sc AND (0x80 OR 0x7F)" by (simp only:)
  also have "\<dots> = (sc AND 0x80) OR (sc AND 0x7F)" by (simp only: bit.conj_disj_distrib)
  finally show ?thesis using 0 by simp
qed

definition same_ring :: "'a kbd_scheme \<Rightarrow> 'a kbd_scheme \<Rightarrow> bool" where
  "same_ring s s' \<longleftrightarrow> kbd_buf s' = kbd_buf s \<and> kbd_head s' = kbd_head s \<and> kbd_tail s' = kbd_tail s"

lemma same_ring_eq:
  "same_ring s s' \<Longrightarrow> kbd_queue s' = kbd_queue s \<and> kbd_ok s' = kbd_ok s \<and> kbd_tail s' = kbd_tail s \<and>
     kbd_count s' = kbd_count s"
  by (simp add: same_ring_def kbd_queue_def kbd_count_def kbd_ok_def)

lemma handle_scancode:
  "same_ring (case scancode_char sc s of None \<Rightarrow> s | Some c \<Rightarrow> kbd_buf_put c s) (keyboard_handle_scancode sc s)"
proof -
  have rel: "same_ring s (keyboard_handle_scancode sc s)" if "sc = 0xE0 \<or> e0_prefix s \<or> sc AND 0x80 \<noteq> 0"
    using that by (auto simp: keyboard_handle_scancode_def same_ring_def Let_def)
  show ?thesis
  proof (cases "sc = 0xE0 \<or> e0_prefix s \<or> sc AND 0x80 \<noteq> 0")
    case True
    then show ?thesis using rel by (auto simp: scancode_char_def)
  next
    case False
    then have code: "sc AND 0x7F = sc" using make_code by blast
    have "unat sc < length scancode_map \<longleftrightarrow> sc < 0x40"
      by (simp add: length_scancode_map word_less_nat_alt)
    with False show ?thesis
      by (auto simp: keyboard_handle_scancode_def scancode_char_def code same_ring_def Let_def)
  qed
qed

section \<open>Interrupts and the reader\<close>

text \<open>Where the reader is inside \<open>kbd_buf_get\<close>: before it, with the tail loaded, past the test for an
  empty buffer, or with the character loaded.\<close>

datatype reader = Idle | Loaded u8 | Filled u8 | Fetched u8 char

text \<open>The ghost components are the characters that the handler has put into the buffer and those that
  the reader has returned, oldest first.\<close>

type_synonym kbd_conf = "kbd \<times> reader \<times> string \<times> string"

definition kbd_table :: "device \<Rightarrow> unit kbd_ext irq_table" where
  "kbd_table dev = irq_install_handler 1 (keyboard_irq1_handler dev) (replicate 16 None)"

definition stored :: "device \<Rightarrow> irq_regs \<Rightarrow> kbd \<Rightarrow> string" where
  "stored dev r s =
     (if r_int_no r = 0x21
      then (case scancode_char (dev (k_io s) KBD_DATA) s of
              None \<Rightarrow> []
            | Some c \<Rightarrow> if kbd_count s < 127 then [c] else [])
      else [])"

inductive kbd_step :: "device \<Rightarrow> kbd_conf \<Rightarrow> kbd_conf \<Rightarrow> bool" for dev where
  irq: "kbd_step dev (s, r, put, got)
          (irq_handler_c (kbd_table dev) (Some regs) s, r, put @ stored dev regs s, got)"
| load: "kbd_step dev (s, Idle, put, got) (s, Loaded (kbd_tail s), put, got)"
| empty: "t = kbd_head s \<Longrightarrow> kbd_step dev (s, Loaded t, put, got) (s, Idle, put, got)"
| filled: "t \<noteq> kbd_head s \<Longrightarrow> kbd_step dev (s, Loaded t, put, got) (s, Filled t, put, got)"
| fetch: "kbd_step dev (s, Filled t, put, got) (s, Fetched t (kbd_buf s ! unat t), put, got)"
| store: "kbd_step dev (s, Fetched t c, put, got)
            (s\<lparr>kbd_tail := kbd_next t\<rparr>, Idle, put, got @ [c])"

inductive_cases kbd_stepE: "kbd_step dev (s, r, put, got) conf"

text \<open>Without an interrupt in between the reader's steps are \<open>kbd_buf_get\<close>.\<close>

lemma reader_steps:
  "case kbd_buf_get s of
     (None, s') \<Rightarrow> (kbd_step dev)\<^sup>*\<^sup>* (s, Idle, put, got) (s', Idle, put, got)
   | (Some c, s') \<Rightarrow> (kbd_step dev)\<^sup>*\<^sup>* (s, Idle, put, got) (s', Idle, put, got @ [c])"
proof (cases "kbd_tail s = kbd_head s")
  case True
  have "(kbd_step dev)\<^sup>*\<^sup>* (s, Idle, put, got) (s, Loaded (kbd_tail s), put, got)"
    using load by blast
  also have "(kbd_step dev)\<^sup>*\<^sup>* \<dots> (s, Idle, put, got)" using empty [OF True] by blast
  finally show ?thesis using True by (simp add: kbd_buf_get_def)
next
  case False
  have "(kbd_step dev)\<^sup>*\<^sup>* (s, Idle, put, got) (s, Loaded (kbd_tail s), put, got)"
    using load by blast
  also have "(kbd_step dev)\<^sup>*\<^sup>* \<dots> (s, Filled (kbd_tail s), put, got)"
    using filled [OF False] by blast
  also have "(kbd_step dev)\<^sup>*\<^sup>* \<dots> (s, Fetched (kbd_tail s) (kbd_buf s ! unat (kbd_tail s)), put, got)"
    using fetch by blast
  also have "(kbd_step dev)\<^sup>*\<^sup>* \<dots>
      (s\<lparr>kbd_tail := kbd_next (kbd_tail s)\<rparr>, Idle, put, got @ [kbd_buf s ! unat (kbd_tail s)])"
    using store by blast
  finally show ?thesis using False by (simp add: kbd_buf_get_def Let_def)
qed

text \<open>What the reader remembers stays true while interrupts run.\<close>

fun reader_ok :: "kbd \<Rightarrow> reader \<Rightarrow> bool" where
  "reader_ok s Idle \<longleftrightarrow> True"
| "reader_ok s (Loaded t) \<longleftrightarrow> t = kbd_tail s"
| "reader_ok s (Filled t) \<longleftrightarrow> t = kbd_tail s \<and> kbd_queue s \<noteq> []"
| "reader_ok s (Fetched t c) \<longleftrightarrow> t = kbd_tail s \<and> (\<exists>q. kbd_queue s = c # q)"

fun kbd_inv :: "kbd_conf \<Rightarrow> bool" where
  "kbd_inv (s, r, put, got) \<longleftrightarrow> kbd_ok s \<and> reader_ok s r \<and> put = got @ kbd_queue s"

lemma same_ring_io: "same_ring s (s\<lparr>k_io := h\<rparr>)" "same_ring s (s\<lparr>k_log := l\<rparr>)"
  by (simp_all add: same_ring_def)

lemma same_ring_trans: "same_ring a b \<Longrightarrow> same_ring b c \<Longrightarrow> same_ring a c"
  by (simp add: same_ring_def)

lemma same_ring_eoi: "same_ring s (pic_send_eoi i s)"
  by (simp add: pic_send_eoi_def kout_def same_ring_def Let_def)

lemma irq_cases:
  assumes "r_int_no regs \<ge> 0x20" "r_int_no regs \<le> 0x2F" "r_int_no regs \<noteq> 0x21"
  shows "kbd_table dev ! unat (ucast (r_int_no regs - 0x20) :: u8) = None"
proof -
  let ?v = "r_int_no regs"
  have u: "unat (?v - 0x20) = unat ?v - 0x20" using assms(1) by (simp add: unat_sub_if' word_le_nat_alt)
  have b: "unat ?v \<ge> 32" "unat ?v \<le> 47" "unat ?v \<noteq> 33"
    using assms by (simp_all add: word_le_nat_alt word_unat_eq_iff)
  have "unat (ucast (?v - 0x20) :: u8) = unat ?v - 32"
    using u b by (simp add: unsigned_ucast_eq take_bit_nat_eq_self)
  then show ?thesis using b by (simp add: kbd_table_def irq_install_handler_def nth_list_update)
qed

lemma irq_step:
  assumes "kbd_ok s"
  shows "kbd_ok (irq_handler_c (kbd_table dev) (Some regs) s) \<and>
    kbd_queue (irq_handler_c (kbd_table dev) (Some regs) s) = kbd_queue s @ stored dev regs s \<and>
    kbd_tail (irq_handler_c (kbd_table dev) (Some regs) s) = kbd_tail s"
proof -
  let ?s = "irq_handler_c (kbd_table dev) (Some regs) s"
  consider (odd) "r_int_no regs < 0x20 \<or> r_int_no regs > 0x2F" | (kbd) "r_int_no regs = 0x21"
    | (other) "r_int_no regs \<ge> 0x20" "r_int_no regs \<le> 0x2F" "r_int_no regs \<noteq> 0x21"
    by (meson linorder_not_less)
  then show ?thesis
  proof cases
    case odd
    then have "stored dev regs s = []" by (auto simp: stored_def)
    moreover have "same_ring s ?s"
      using odd by (auto simp: irq_handler_c_def kprint_def same_ring_io)
    ultimately show ?thesis using same_ring_eq assms by fastforce
  next
    case other
    then have "stored dev regs s = []" by (auto simp: stored_def)
    moreover have "same_ring s ?s"
      using other irq_cases [OF other, of dev]
      by (auto simp: irq_handler_c_def same_ring_eoi Let_def)
    ultimately show ?thesis using same_ring_eq assms by fastforce
  next
    case kbd
    let ?sc = "dev (k_io s) KBD_DATA"
    let ?s1 = "s\<lparr>k_io := In KBD_DATA ?sc # k_io s\<rparr>"
    let ?s2 = "case scancode_char ?sc ?s1 of None \<Rightarrow> ?s1 | Some c \<Rightarrow> kbd_buf_put c ?s1"
    have one: "\<not> (16 :: u8) \<le> 1" by (simp add: word_le_nat_alt)
    have run: "?s = pic_send_eoi 1 (keyboard_handle_scancode ?sc ?s1)"
      using kbd by (simp add: irq_handler_c_def kbd_table_def irq_install_handler_def
          keyboard_irq1_handler_def kin_def inb_def Let_def one)
    have ring: "same_ring ?s2 ?s"
      unfolding run using handle_scancode same_ring_eoi same_ring_trans by blast
    have sc: "scancode_char ?sc ?s1 = scancode_char ?sc s" by (simp add: scancode_char_def)
    note q1 = same_ring_eq [OF same_ring_io(1) [of s "In KBD_DATA ?sc # k_io s"]]
    have ok1: "kbd_ok ?s1" using q1 assms by simp
    have "kbd_ok ?s2 \<and> kbd_queue ?s2 = kbd_queue s @ stored dev regs s \<and> kbd_tail ?s2 = kbd_tail s"
      using kbd kbd_put [OF ok1] q1 ok1
      by (auto simp: sc stored_def enqueue_def split: option.splits)
    with same_ring_eq [OF ring] show ?thesis by simp
  qed
qed

lemma kbd_inv_step: "kbd_step dev c c' \<Longrightarrow> kbd_inv c \<Longrightarrow> kbd_inv c'"
proof (induction rule: kbd_step.induct)
  case (irq s r put got regs)
  then have ok: "kbd_ok s" "reader_ok s r" "put = got @ kbd_queue s" by simp_all
  show ?case using irq_step [OF ok(1), of dev regs] ok(2,3) by (cases r) auto
next
  case (filled t s put got)
  then have "kbd_count s \<noteq> 0" using kbd_count_empty [of s] by auto
  with filled show ?case by (auto simp flip: length_0_conv)
next
  case (fetch s t put got)
  then have "kbd_ok s" "t = kbd_tail s" "0 < kbd_count s" by (auto simp flip: length_greater_0_conv)
  with kbd_advance [of s] fetch show ?case by auto
next
  case (store s t c put got)
  then obtain q where q: "kbd_ok s" "t = kbd_tail s" "kbd_queue s = c # q" "put = got @ kbd_queue s" by auto
  then have "0 < kbd_count s" by (metis length_Cons length_kbd_queue zero_less_Suc)
  with kbd_advance [of s] q show ?case by auto
qed auto

lemma kbd_inv_steps: "(kbd_step dev)\<^sup>*\<^sup>* c c' \<Longrightarrow> kbd_inv c \<Longrightarrow> kbd_inv c'"
  by (induction rule: rtranclp_induct) (auto intro: kbd_inv_step)

section \<open>Typing\<close>

text \<open>The scancodes of a key that is pressed and released, with the shift key held for the characters
  of the second table.\<close>

definition key_of :: "string \<Rightarrow> char \<Rightarrow> u8 option" where
  "key_of table c = map_option of_nat (find (\<lambda>k. table ! k = c) [0..<64])"

definition press :: "char \<Rightarrow> u8 list" where
  "press c =
     (case key_of scancode_map c of
        Some k \<Rightarrow> [k, k OR 0x80]
      | None \<Rightarrow>
          (case key_of scancode_map_shift c of
             Some k \<Rightarrow> [0x2A, k, k OR 0x80, 0xAA]
           | None \<Rightarrow> []))"

definition typeable :: "char \<Rightarrow> bool" where
  "typeable c \<longleftrightarrow> c \<noteq> NUL \<and> (c \<in> set scancode_map \<or> c \<in> set scancode_map_shift)"

definition handle_all :: "u8 list \<Rightarrow> 'a kbd_scheme \<Rightarrow> 'a kbd_scheme" where
  "handle_all scs s = fold keyboard_handle_scancode scs s"

definition plain_keys :: "'a kbd_scheme \<Rightarrow> bool" where
  "plain_keys s \<longleftrightarrow> \<not> shift_down s \<and> \<not> e0_prefix s"

lemma key_codes:
  "k < 64 \<Longrightarrow> (of_nat k :: u8) < 0x40 \<and> unat (of_nat k :: u8) = k \<and> (of_nat k :: u8) \<noteq> 0xE0 \<and>
     of_nat k AND (0x80 :: u8) = 0 \<and>
     (of_nat k OR 0x80) AND (0x80 :: u8) \<noteq> 0 \<and> of_nat k OR (0x80 :: u8) \<noteq> 0xE0 \<and>
     (of_nat k OR 0x80) AND (0x7F :: u8) = of_nat k"
proof -
  have "\<forall>k \<in> set [0..<64]. (of_nat k :: u8) < 0x40 \<and> unat (of_nat k :: u8) = k \<and> (of_nat k :: u8) \<noteq> 0xE0 \<and>
     of_nat k AND (0x80 :: u8) = 0 \<and>
     (of_nat k OR 0x80) AND (0x80 :: u8) \<noteq> 0 \<and> of_nat k OR (0x80 :: u8) \<noteq> 0xE0 \<and>
     (of_nat k OR 0x80) AND (0x7F :: u8) = of_nat k"
    by code_simp
  then show "k < 64 \<Longrightarrow> ?thesis" by simp
qed

lemma key_of_Some:
  assumes "key_of table c = Some k" "c \<noteq> NUL" "table ! 0x2A = NUL" "table ! 0x36 = NUL"
  shows "table ! unat k = c \<and> k < 0x40 \<and> k AND 0x80 = 0 \<and> k \<noteq> 0xE0 \<and> (k OR 0x80) AND 0x80 \<noteq> 0 \<and>
    k OR 0x80 \<noteq> 0xE0 \<and> (k OR 0x80) AND 0x7F = k \<and> k \<noteq> 0x2A \<and> k \<noteq> 0x36"
proof -
  from assms(1) obtain i where "find (\<lambda>k. table ! k = c) [0..<64] = Some i" and k: "k = of_nat i"
    by (auto simp: key_of_def)
  then have i: "i < 64" "table ! i = c" by (auto simp: find_Some_iff)
  note codes = key_codes [OF i(1)]
  have "unat k \<noteq> 0x2A" "unat k \<noteq> 0x36" using codes i(2) assms(2-) k by auto
  then have "k \<noteq> 0x2A" "k \<noteq> 0x36" by auto
  with codes i(2) show ?thesis by (simp add: k)
qed

text \<open>A key that is pressed and released while the modifiers stay as they are.\<close>

lemma make_break:
  assumes k: "table ! unat k = c" "k < 0x40" "k AND 0x80 = 0" "k \<noteq> 0xE0" "(k OR 0x80) AND 0x80 \<noteq> 0"
      "k OR 0x80 \<noteq> 0xE0" "(k OR 0x80) AND 0x7F = k" "k \<noteq> 0x2A" "k \<noteq> 0x36"
    and c: "c \<noteq> NUL" and s: "\<not> e0_prefix s"
    and table: "table = (if shift_down s then scancode_map_shift else scancode_map)"
  shows "handle_all [k, k OR 0x80] s = kbd_buf_put c s"
proof -
  have code: "k AND 0x7F = k" using k(3) make_code by blast
  have len: "unat k < length scancode_map" using k(2) by (simp add: length_scancode_map word_less_nat_alt)
  have 1: "keyboard_handle_scancode k s = kbd_buf_put c s"
    using k c s table len by (auto simp: keyboard_handle_scancode_def code Let_def)
  have "\<not> e0_prefix (kbd_buf_put c s)" using s by (simp add: kbd_buf_put_def Let_def)
  then have "keyboard_handle_scancode (k OR 0x80) (kbd_buf_put c s) = kbd_buf_put c s"
    using k by (simp add: keyboard_handle_scancode_def Let_def)
  with 1 show ?thesis by (simp add: handle_all_def)
qed

lemma tables_nul:
  "scancode_map ! 0x2A = NUL" "scancode_map ! 0x36 = NUL"
  "scancode_map_shift ! 0x2A = NUL" "scancode_map_shift ! 0x36 = NUL"
  by code_simp+

lemma shift_key: "\<not> e0_prefix s \<Longrightarrow> keyboard_handle_scancode 0x2A s = s\<lparr>shift_down := True\<rparr>"
  "\<not> e0_prefix s \<Longrightarrow> keyboard_handle_scancode 0xAA s = s\<lparr>shift_down := False\<rparr>"
  by (simp_all add: keyboard_handle_scancode_def Let_def)

lemma press_key:
  assumes "typeable c" "plain_keys s"
  shows "handle_all (press c) s = kbd_buf_put c s"
proof -
  have c: "c \<noteq> NUL" and s: "\<not> shift_down s" "\<not> e0_prefix s"
    using assms by (auto simp: typeable_def plain_keys_def)
  show ?thesis
  proof (cases "key_of scancode_map c")
    case (Some k)
    then have "handle_all [k, k OR 0x80] s = kbd_buf_put c s"
      using key_of_Some [OF Some c tables_nul(1,2)] c s
      by (intro make_break [where table = scancode_map]) simp_all
    with Some show ?thesis by (simp add: press_def)
  next
    case None
    have "c \<notin> set scancode_map"
      using None by (auto simp: key_of_def find_None_iff in_set_conv_nth length_scancode_map)
    then have "c \<in> set scancode_map_shift" using assms(1) by (simp add: typeable_def)
    then obtain k where k: "key_of scancode_map_shift c = Some k"
      by (cases "key_of scancode_map_shift c")
        (auto simp: key_of_def find_None_iff in_set_conv_nth length_scancode_map)
    let ?s = "s\<lparr>shift_down := True\<rparr>"
    have down: "handle_all [k, k OR 0x80] ?s = kbd_buf_put c ?s"
      using key_of_Some [OF k c tables_nul(3,4)] c s
      by (intro make_break [where table = scancode_map_shift]) simp_all
    have "handle_all [0x2A, k, k OR 0x80, 0xAA] s =
        keyboard_handle_scancode 0xAA (handle_all [k, k OR 0x80] ?s)"
      using s by (simp add: handle_all_def shift_key)
    also have "\<dots> = (kbd_buf_put c ?s)\<lparr>shift_down := False\<rparr>"
      unfolding down using s by (simp add: shift_key kbd_buf_put_def Let_def)
    also have "\<dots> = kbd_buf_put c s" using s by (simp add: kbd_buf_put_def Let_def)
    finally show ?thesis using None k by (simp add: press_def)
  qed
qed

lemma type_string:
  assumes "\<forall>c \<in> set str. typeable c" "plain_keys s" "kbd_ok s" "kbd_count s + length str \<le> 127"
  shows "let s' = handle_all (concat (map press str)) s in
    kbd_ok s' \<and> plain_keys s' \<and> kbd_queue s' = kbd_queue s @ str"
  using assms
proof (induction str arbitrary: s)
  case Nil
  then show ?case by (simp add: handle_all_def)
next
  case (Cons c str)
  let ?s = "kbd_buf_put c s"
  have put: "kbd_ok ?s" "kbd_queue ?s = kbd_queue s @ [c]"
    using kbd_put [OF Cons.prems(3), of c] Cons.prems(4) by (auto simp: enqueue_def)
  have "plain_keys ?s" using Cons.prems(2) by (simp add: plain_keys_def kbd_buf_put_def Let_def)
  moreover have "kbd_count ?s + length str \<le> 127"
    using Cons.prems(4) put(2) by (simp flip: length_kbd_queue)
  moreover have "handle_all (concat (map press (c # str))) s = handle_all (concat (map press str)) ?s"
    using press_key [of c s] Cons.prems by (simp add: handle_all_def)
  ultimately show ?case using Cons.IH [of ?s] Cons.prems(1) put by (simp add: Let_def)
qed

text \<open>The accesses of an interrupt to the command ports are its acknowledgements.\<close>

lemma all_lines: "k < 8 \<Longrightarrow> bit (0xFF :: u8) k"
proof -
  have "(0xFF :: u8) = mask 8" by (simp add: mask_eq_exp_minus_1)
  then show "k < 8 \<Longrightarrow> ?thesis" by (simp only: bit_mask_iff) simp
qed

lemma handler_io: "k_io (keyboard_handle_scancode sc s) = k_io s"
  by (simp add: keyboard_handle_scancode_def kbd_buf_put_def Let_def)

lemma irq_io:
  "\<exists>h. port_writes PIC1_CMD h = port_writes PIC1_CMD (k_io s) \<and>
    port_writes PIC2_CMD h = port_writes PIC2_CMD (k_io s) \<and>
    k_io (case kbd_table dev ! n of Some f \<Rightarrow> f r s | None \<Rightarrow> s) = h" if "n < 16"
proof -
  have "kbd_table dev ! n = (if n = 1 then Some (keyboard_irq1_handler dev) else None)"
    using that by (simp add: kbd_table_def irq_install_handler_def nth_list_update word_le_nat_alt)
  then show ?thesis
    by (auto simp: keyboard_irq1_handler_def kin_def inb_def Let_def handler_io)
qed

lemma vector_irq:
  assumes "0x20 \<le> v" "v \<le> 0x2F"
  shows "unat (ucast (v - 0x20 :: u32) :: u8) = unat v - 32" "unat v - 32 < 16"
    "(8 :: u8) \<le> ucast (v - 0x20) \<longleftrightarrow> 0x28 \<le> v" "(ucast (v - 0x20) :: u8) < 16"
proof -
  have b: "32 \<le> unat v" "unat v \<le> 47" using assms by (simp_all add: word_le_nat_alt)
  then show "unat v - 32 < 16" by simp
  have "unat (v - 0x20) = unat v - 32" using assms(1) by (simp add: unat_sub_if' word_le_nat_alt)
  then show u: "unat (ucast (v - 0x20) :: u8) = unat v - 32"
    using b by (simp add: unsigned_ucast_eq take_bit_nat_eq_self)
  show "(8 :: u8) \<le> ucast (v - 0x20) \<longleftrightarrow> 0x28 \<le> v" "(ucast (v - 0x20) :: u8) < 16"
    using b by (auto simp: word_le_nat_alt word_less_nat_alt u)
qed

lemma acknowledged:
  "port_writes PIC1_CMD (k_io (irq_handler_c (kbd_table dev) (Some regs) t)) =
     port_writes PIC1_CMD (k_io t) @ (if 0x20 \<le> r_int_no regs \<and> r_int_no regs \<le> 0x2F then [PIC_EOI] else [])"
  "port_writes PIC2_CMD (k_io (irq_handler_c (kbd_table dev) (Some regs) t)) =
     port_writes PIC2_CMD (k_io t) @ (if 0x28 \<le> r_int_no regs \<and> r_int_no regs \<le> 0x2F then [PIC_EOI] else [])"
proof -
  let ?v = "r_int_no regs"
  let ?irq = "ucast (?v - 0x20) :: u8"
  let ?t' = "irq_handler_c (kbd_table dev) (Some regs) t"
  have "port_writes PIC1_CMD (k_io ?t') =
      port_writes PIC1_CMD (k_io t) @ (if 0x20 \<le> ?v \<and> ?v \<le> 0x2F then [PIC_EOI] else []) \<and>
    port_writes PIC2_CMD (k_io ?t') =
      port_writes PIC2_CMD (k_io t) @ (if 0x28 \<le> ?v \<and> ?v \<le> 0x2F then [PIC_EOI] else [])"
  proof (cases "0x20 \<le> ?v \<and> ?v \<le> 0x2F")
    case True
    note v = vector_irq [OF conjunct1 [OF True] conjunct2 [OF True]]
    let ?s = "case kbd_table dev ! (unat ?v - 32) of Some f \<Rightarrow> f regs t | None \<Rightarrow> t"
    have run: "?t' = pic_send_eoi ?irq ?s"
      using True v by (auto simp: irq_handler_c_def Let_def)
    have "port_writes PIC1_CMD (k_io ?s) = port_writes PIC1_CMD (k_io t)"
      "port_writes PIC2_CMD (k_io ?s) = port_writes PIC2_CMD (k_io t)"
      using irq_io [OF v(2), where s = t and dev = dev and r = regs] by auto
    with True v(3) show ?thesis unfolding run by (simp add: send_eoi_writes)
  next
    case False
    have "(0x28 \<le> ?v \<and> ?v \<le> 0x2F) = False"
      using False by (auto simp: word_le_nat_alt)
    with False show ?thesis by (auto simp: irq_handler_c_def kprint_def)
  qed
  then show "port_writes PIC1_CMD (k_io ?t') =
      port_writes PIC1_CMD (k_io t) @ (if 0x20 \<le> ?v \<and> ?v \<le> 0x2F then [PIC_EOI] else [])"
    and "port_writes PIC2_CMD (k_io ?t') =
      port_writes PIC2_CMD (k_io t) @ (if 0x28 \<le> ?v \<and> ?v \<le> 0x2F then [PIC_EOI] else [])" by blast+
qed

section \<open>Properties\<close>

text \<open>C29. The ring buffer between the interrupt handler and its reader loses, repeats and reorders
  nothing, whatever the interleaving: in every state that the two reach, with the reader interrupted
  between any two of its accesses, the characters stored so far are those returned by the reader
  followed by those still in the buffer, of which there are at most 127; the handler leaves the
  reader's index alone.\<close>

theorem keyboard_buffer_fifo:
  assumes "(kbd_step dev)\<^sup>*\<^sup>* (s0, Idle, [], []) (s, r, put, got)"
    and "kbd_ok s0" "kbd_queue s0 = []"
  shows "put = got @ kbd_queue s \<and> length (kbd_queue s) \<le> 127 \<and>
    (\<forall>regs. kbd_tail (irq_handler_c (kbd_table dev) (Some regs) s) = kbd_tail s) \<and>
    (\<forall>t c. r = Fetched t c \<longrightarrow> (\<exists>q. kbd_queue s = c # q))"
proof -
  have inv: "kbd_inv (s, r, put, got)" using kbd_inv_steps [OF assms(1)] assms(2,3) by simp
  then show ?thesis using irq_step [of s dev] kbd_count_less [of s] by (cases r) auto
qed

definition sample_kbd :: kbd where
  "sample_kbd = \<lparr>k_io = [], k_log = [], kbd_buf = replicate 128 NUL, kbd_head = 127, kbd_tail = 127,
     shift_down = False, e0_prefix = False\<rparr>"

definition sample_irq :: irq_regs where
  "sample_irq = \<lparr>r_gs = 0x10, r_fs = 0x10, r_es = 0x10, r_ds = 0x10, r_edi = 0, r_esi = 0, r_ebp = 0,
     r_esp = 0, r_ebx = 0, r_edx = 0, r_ecx = 0, r_eax = 0, r_int_no = 0x21, r_err_code = 0, r_eip = 0,
     r_cs = 8, r_eflags = 0x202\<rparr>"

lemma sample_kbd_ok: "kbd_ok sample_kbd" "kbd_queue sample_kbd = []" "plain_keys sample_kbd"
  by (simp_all add: kbd_ok_def sample_kbd_def kbd_queue_def kbd_count_def plain_keys_def)

text \<open>One key is stored while the reader sits between its load of the index and its test.\<close>

theorem keyboard_buffer_fifo_witness:
  "\<exists>s. (kbd_step (\<lambda>h p. 0x1E)) \<^sup>*\<^sup>* (sample_kbd, Idle, [], []) (s, Loaded 127, ''a'', []) \<and>
     ''a'' = [] @ kbd_queue s"
proof -
  let ?dev = "\<lambda>h p. (0x1E :: u8)"
  let ?s = "irq_handler_c (kbd_table ?dev) (Some sample_irq) sample_kbd"
  have tail: "kbd_tail sample_kbd = 127" by (simp add: sample_kbd_def)
  have stored: "stored ?dev sample_irq sample_kbd = ''a''" by code_simp
  have "kbd_step ?dev (sample_kbd, Idle, [], []) (sample_kbd, Loaded 127, [], [])"
    using load [of ?dev sample_kbd] unfolding tail .
  moreover have "kbd_step ?dev (sample_kbd, Loaded 127, [], []) (?s, Loaded 127, ''a'', [])"
    using irq [of ?dev sample_kbd "Loaded 127" "[]" "[]" sample_irq] unfolding stored append_Nil .
  ultimately have run: "(kbd_step ?dev)\<^sup>*\<^sup>* (sample_kbd, Idle, [], []) (?s, Loaded 127, ''a'', [])"
    by (blast intro: rtranclp.rtrancl_into_rtrancl)
  with keyboard_buffer_fifo [OF run sample_kbd_ok(1,2)] show ?thesis by blast
qed

text \<open>Typing a string puts that string into the buffer: pressing and releasing the key of each of its
  characters, with the shift key around those that need it, appends exactly these characters to the
  queue, as long as they fit, and leaves no modifier behind.\<close>

theorem keyboard_typing:
  assumes "\<forall>c \<in> set str. typeable c" "plain_keys s" "kbd_ok s" "length (kbd_queue s) + length str \<le> 127"
  shows "kbd_queue (handle_all (concat (map press str)) s) = kbd_queue s @ str \<and>
    kbd_ok (handle_all (concat (map press str)) s) \<and> plain_keys (handle_all (concat (map press str)) s)"
  using type_string [of str s] assms by (simp add: Let_def)

theorem keyboard_typing_witness:
  "kbd_queue (handle_all (concat (map press ''pmm state;A!'')) sample_kbd) = ''pmm state;A!''"
proof -
  have t: "\<forall>c \<in> set ''pmm state;A!''. typeable c" by code_simp
  have "length (kbd_queue sample_kbd) + length ''pmm state;A!'' \<le> 127" by (simp add: sample_kbd_ok(2))
  from keyboard_typing [OF t sample_kbd_ok(3,1) this] sample_kbd_ok(2) show ?thesis by simp
qed

lemma only_irq1_unmasked:
  assumes "masks_read_back dev" "irq < 16"
  shows "irq_masked irq (k_io (snd (keyboard_init dev (table, pic_init dev s)))) \<longleftrightarrow> irq \<noteq> 1"
proof -
  have "irq_masked irq (k_io (pic_clear_mask dev 1 (pic_init dev s))) \<longleftrightarrow> irq \<noteq> 1 \<and> irq_masked irq (k_io (pic_init dev s))"
    using assms by (intro clear_mask_unmasks [OF _ _ _ pic_init_masks]) simp_all
  moreover have "irq_masked irq (k_io (pic_init dev s))"
    unfolding irq_masked_def pic_mask_def pic_init_masks snd_conv option.sel by (rule all_lines [OF line_lt])
  ultimately show ?thesis by (simp add: keyboard_init_def)
qed

text \<open>C33. After the interrupt controllers and the keyboard have been initialised, the keyboard is the
  only interrupt that is let through, on controllers whose mask registers read back the mask written
  last (outside the initialisation sequence, as the 8259 does); and from then on every interrupt of the controllers is acknowledged exactly once at the
  master, and at the slave exactly when it came through it, while an unexpected vector is not
  acknowledged at all.\<close>

theorem keyboard_only_unmasked:
  assumes "masks_read_back dev" "irq < 16"
  shows "(irq_masked irq (k_io (snd (keyboard_init dev (table, pic_init dev s)))) \<longleftrightarrow> irq \<noteq> 1) \<and>
    (\<forall>regs t. let t' = irq_handler_c (kbd_table dev) (Some regs) t; v = r_int_no regs in
       port_writes PIC1_CMD (k_io t') = port_writes PIC1_CMD (k_io t) @
         (if 0x20 \<le> v \<and> v \<le> 0x2F then [PIC_EOI] else []) \<and>
       port_writes PIC2_CMD (k_io t') = port_writes PIC2_CMD (k_io t) @
         (if 0x28 \<le> v \<and> v \<le> 0x2F then [PIC_EOI] else []))"
proof
  show "irq_masked irq (k_io (snd (keyboard_init dev (table, pic_init dev s)))) \<longleftrightarrow> irq \<noteq> 1"
    by (rule only_irq1_unmasked [OF assms])
  show "\<forall>regs t. let t' = irq_handler_c (kbd_table dev) (Some regs) t; v = r_int_no regs in
       port_writes PIC1_CMD (k_io t') = port_writes PIC1_CMD (k_io t) @
         (if 0x20 \<le> v \<and> v \<le> 0x2F then [PIC_EOI] else []) \<and>
       port_writes PIC2_CMD (k_io t') = port_writes PIC2_CMD (k_io t) @
         (if 0x28 \<le> v \<and> v \<le> 0x2F then [PIC_EOI] else [])"
    by (simp add: acknowledged Let_def)
qed

text \<open>Controllers that read back their masks.\<close>

definition sample_pic :: device where
  "sample_pic h p =
     (case (if p = PIC1_DATA then pic_chip PIC1_CMD PIC1_DATA h else pic_chip PIC2_CMD PIC2_DATA h) of
        (0, Some m) \<Rightarrow> m
      | _ \<Rightarrow> 0xB8)"

lemma sample_pic_masks: "masks_read_back sample_pic" by (simp add: masks_read_back_def sample_pic_def pic_ports)

theorem keyboard_only_unmasked_witness:
  "irq_masked 4 (k_io (snd (keyboard_init sample_pic ([], pic_init sample_pic sample_kbd)))) \<and>
   \<not> irq_masked 1 (k_io (snd (keyboard_init sample_pic ([], pic_init sample_pic sample_kbd))))"
proof -
  show ?thesis
    using sample_pic_masks keyboard_only_unmasked [of sample_pic 4 "[]" sample_kbd]
      keyboard_only_unmasked [of sample_pic 1 "[]" sample_kbd]
    by (simp add: word_less_nat_alt)
qed

end
