(* ===== verification/Shell.thy ===== *)
theory Shell
  imports Keyboard
begin

text \<open>
  The console (\<open>console.c\<close>) and the shell (\<open>shell.c\<close>). The console reads the keyboard first and the
  serial port second. The shell reads a line with its editing keys, echoes it, splits it in place
  into arguments and runs the command of that name. The line editor is modelled on the sequence of
  characters that successive calls of \<open>console_getc\<close> return; an input that ends before its newline
  leaves the editor waiting, the value \<open>None\<close>. The line buffer is a list of characters that holds a
  terminator, pointers into it are indices, and the tokenizer overwrites separators in it.
\<close>

section \<open>The console\<close>

definition console_try_getc :: "device \<Rightarrow> 'a kbd_scheme \<Rightarrow> char option \<times> 'a kbd_scheme" where
  "console_try_getc dev s =
     (case keyboard_try_getc s of
        (Some c, s1) \<Rightarrow> (Some c, s1)
      | (None, s1) \<Rightarrow>
          (case serial_try_getc dev (k_io s1) of
             (Some c, h) \<Rightarrow> (Some (if c = CHR 0x0D then CHR 0x0A else c), s1\<lparr>k_io := h\<rparr>)
           | (None, h) \<Rightarrow> (None, s1\<lparr>k_io := h\<rparr>)))"

partial_function (option) console_getc :: "device \<Rightarrow> 'a kbd_scheme \<Rightarrow> (char \<times> 'a kbd_scheme) option" where
  "console_getc dev s =
     (case console_try_getc dev s of
        (Some c, s1) \<Rightarrow> Some (c, s1)
      | (None, s1) \<Rightarrow> console_getc dev s1)"

text \<open>What is in the keyboard buffer is read before the serial port is looked at.\<close>

lemma console_keyboard_first:
  "kbd_ok s \<Longrightarrow> kbd_queue s = c # q \<Longrightarrow>
     \<exists>s'. console_getc dev s = Some (c, s') \<and> kbd_queue s' = q \<and> k_io s' = k_io s"
proof -
  assume s: "kbd_ok s" "kbd_queue s = c # q"
  then have n: "0 < kbd_count s" by (metis length_Cons length_kbd_queue zero_less_Suc)
  then have "kbd_tail s \<noteq> kbd_head s" using kbd_count_empty [OF s(1)] by simp
  moreover note kbd_advance(2) [OF s(1) n]
  ultimately show ?thesis
    using s(2) by (subst console_getc.simps)
      (simp add: console_try_getc_def keyboard_try_getc_def kbd_buf_get_def Let_def)
qed

section \<open>Reading a line\<close>

definition SHELL_LINE_MAX :: nat where "SHELL_LINE_MAX = 128"

definition SHELL_PROMPT :: string where "SHELL_PROMPT = ''szy-kernel > ''"

definition LF :: char where "LF = CHR 0x0A"
definition BS :: char where "BS = CHR 0x08"

definition is_erase :: "char \<Rightarrow> bool" where
  "is_erase c \<longleftrightarrow> c = BS \<or> byte_of c = 0x7F"

definition is_control :: "char \<Rightarrow> bool" where
  "is_control c \<longleftrightarrow> byte_of c < 0x20"

fun readline_loop ::
  "nat \<Rightarrow> string \<Rightarrow> nat \<Rightarrow> string \<Rightarrow> klog \<Rightarrow> (string \<times> nat \<times> string \<times> klog) option" where
  "readline_loop cap buf len [] log = None"
| "readline_loop cap buf len (c # input) log =
     (if c = LF then Some (buf[len := NUL], len, input, log @ [([LF], [])])
      else if is_erase c then
        (if len > 0
         then readline_loop cap buf (len - 1) input (log @ [([BS] @ '' '' @ [BS], [])])
         else readline_loop cap buf len input log)
      else if is_control c then readline_loop cap buf len input log
      else if len + 1 < cap
        then readline_loop cap (buf[len := c]) (len + 1) input (log @ [(''%c'', [kchar c])])
      else readline_loop cap buf len input log)"

definition shell_readline ::
  "string \<Rightarrow> nat \<Rightarrow> string \<Rightarrow> klog \<Rightarrow> (string \<times> nat \<times> string \<times> klog) option" where
  "shell_readline buf cap input log =
     (if cap = 0 then Some (buf, 0, input, log) else readline_loop cap buf 0 input log)"

section \<open>Splitting it\<close>

definition is_space :: "char \<Rightarrow> bool" where
  "is_space c \<longleftrightarrow> c = CHR '' '' \<or> c = CHR 0x09 \<or> c = CHR 0x0D \<or> c = LF"

text \<open>The loops stop at the terminator; the bound keeps the functions total on a list without one.\<close>

function skip_spaces :: "string \<Rightarrow> nat \<Rightarrow> nat" where
  "skip_spaces line p =
     (if p < length line \<and> line ! p \<noteq> NUL \<and> is_space (line ! p) then skip_spaces line (p + 1) else p)"
  by pat_completeness auto
termination by (relation "measure (\<lambda>(line, p). length line - p)") auto

function skip_word :: "string \<Rightarrow> nat \<Rightarrow> nat" where
  "skip_word line p =
     (if p < length line \<and> line ! p \<noteq> NUL \<and> \<not> is_space (line ! p) then skip_word line (p + 1) else p)"
  by pat_completeness auto
termination by (relation "measure (\<lambda>(line, p). length line - p)") auto

declare skip_spaces.simps [simp del] skip_word.simps [simp del]

lemma skip_spaces_ge: "p \<le> skip_spaces line p"
  by (induction line p rule: skip_spaces.induct) (subst skip_spaces.simps, auto)

lemma skip_word_ge: "p \<le> skip_word line p"
  by (induction line p rule: skip_word.induct) (subst skip_word.simps, auto)

lemma skip_word_gt: "p < length line \<Longrightarrow> line ! p \<noteq> NUL \<Longrightarrow> \<not> is_space (line ! p) \<Longrightarrow> p < skip_word line p"
  using skip_word_ge [of "p + 1" line] by (subst skip_word.simps) simp

lemma skip_spaces_stop: "skip_spaces line p < length line \<Longrightarrow> line ! skip_spaces line p \<noteq> NUL \<Longrightarrow>
    \<not> is_space (line ! skip_spaces line p)"
  by (induction line p rule: skip_spaces.induct) (metis skip_spaces.simps)

function tokenize_loop :: "nat \<Rightarrow> string \<Rightarrow> nat list \<Rightarrow> nat \<Rightarrow> string \<times> nat list" where
  "tokenize_loop cap line argv p =
     (if p < length line \<and> line ! p \<noteq> NUL then
        (let p1 = skip_spaces line p in
         if \<not> (p1 < length line \<and> line ! p1 \<noteq> NUL) then (line, argv)
         else if length argv \<ge> cap then (line, argv)
         else
           (let p2 = skip_word line p1 in
            if p2 < length line \<and> line ! p2 \<noteq> NUL
            then tokenize_loop cap (line[p2 := NUL]) (argv @ [p1]) (p2 + 1)
            else tokenize_loop cap line (argv @ [p1]) p2))
      else (line, argv))"
  by pat_completeness auto
termination
proof (relation "measure (\<lambda>(cap, line, argv, p). length line - p)", goal_cases)
  case 1
  show ?case by simp
next
  case (2 cap line argv p p1 p2)
  then have "p \<le> p1" "p1 \<le> p2" "p2 < length line" "p < length line"
    using skip_spaces_ge skip_word_ge by auto
  then show ?case by simp
next
  case (3 cap line argv p p1 p2)
  then have "p1 < p2" using skip_spaces_stop [of line p] skip_word_gt [of p1 line] by simp
  moreover have "p \<le> p1" "p < length line" using 3 skip_spaces_ge by auto
  ultimately have "p < p2" "p < length line" by simp_all
  then show ?case by simp
qed

declare tokenize_loop.simps [simp del]

definition shell_tokenize :: "string \<Rightarrow> nat \<Rightarrow> string \<times> nat list" where
  "shell_tokenize line argv_cap =
     (if argv_cap = 0 then (line, []) else tokenize_loop argv_cap line [] 0)"

section \<open>Running it\<close>

fun streq :: "string \<Rightarrow> string \<Rightarrow> bool" where
  "streq (a # as) (b # bs) \<longleftrightarrow> a = b \<and> streq as bs"
| "streq as bs \<longleftrightarrow> as = [] \<and> bs = []"

text \<open>The string at an index of the buffer.\<close>

definition cstr :: "string \<Rightarrow> nat \<Rightarrow> string" where
  "cstr line p = takeWhile (\<lambda>c. c \<noteq> NUL) (drop p line)"

text \<open>A command is its name and its function; the functions are a parameter of the shell. The result
  tells what the dispatcher did.\<close>

datatype dispatch = Nothing | Run string "string list" | Unknown string

definition g_cmds :: "string list" where
  "g_cmds = [''cls'', ''shutdown'', ''cmds'', ''mmap'', ''free'', ''pmm'', ''vmm'', ''heap'', ''vma'', ''ring3'']"

definition shell_command_count :: nat where
  "shell_command_count = length g_cmds"

fun find_command :: "string list \<Rightarrow> string \<Rightarrow> string option" where
  "find_command [] s = None"
| "find_command (name # cmds) s = (if streq s name then Some name else find_command cmds s)"

definition shell_dispatch :: "string \<Rightarrow> dispatch" where
  "shell_dispatch line =
     (if cstr line 0 = [] then Nothing
      else
        (let (line', argv) = shell_tokenize line 16 in
         if argv = [] then Nothing
         else
           (case find_command g_cmds (cstr line' (hd argv)) of
              Some name \<Rightarrow> Run name (map (cstr line') argv)
            | None \<Rightarrow> Unknown (cstr line' (hd argv)))))"

text \<open>One turn of \<open>shell_run\<close>: the prompt, the line, its command. The buffer keeps what earlier turns
  left in it.\<close>

definition shell_turn ::
  "string \<Rightarrow> string \<Rightarrow> klog \<Rightarrow> (dispatch \<times> string \<times> string \<times> klog) option" where
  "shell_turn buf input log =
     (case shell_readline buf SHELL_LINE_MAX input (log @ [(SHELL_PROMPT, [])]) of
        None \<Rightarrow> None
      | Some (buf', len, rest, log') \<Rightarrow>
          (case shell_dispatch buf' of
             Unknown name \<Rightarrow>
               Some (Unknown name, buf', rest, log' @ [(''Unknown command: %s'' @ [LF], [KStr (Some name)])])
           | d \<Rightarrow> Some (d, buf', rest, log')))"

text \<open>The table of commands that \<open>cmds\<close> prints: columns as wide as the longest name and two spaces,
  at least 4, as many as fit into 80 characters, at least one.\<close>

fun print_padding :: "nat \<Rightarrow> klog" where
  "print_padding 0 = []"
| "print_padding (Suc n) = ('' '', []) # print_padding n"

fun print_names :: "nat \<Rightarrow> nat \<Rightarrow> nat \<Rightarrow> string list \<Rightarrow> klog" where
  "print_names col_w cols i [] = []"
| "print_names col_w cols i (name # names) =
     [(''%s'', [KStr (Some name)])] @
     print_padding (if col_w > length name then col_w - length name else 1) @
     (if (i + 1) mod cols = 0 then [([LF], [])] else []) @
     print_names col_w cols (i + 1) names"

definition shell_print_commands :: klog where
  "shell_print_commands =
     (let count = shell_command_count;
          max_len = fold (\<lambda>s m. if length s > m then length s else m) g_cmds 0;
          col_w = (if max_len + 2 < 4 then 4 else max_len + 2);
          cols = (if 80 div col_w = 0 then 1 else 80 div col_w)
      in [(''Commands (%u):'' @ [LF], [KInt (of_nat count)])] @
         print_names col_w cols 0 g_cmds @
         (if count mod cols \<noteq> 0 then [([LF], [])] else []))"

section \<open>Line editing\<close>

text \<open>What a key does to the line, and the line that a sequence of keys makes.\<close>

fun edit :: "nat \<Rightarrow> char \<Rightarrow> string \<Rightarrow> string" where
  "edit cap c line =
     (if c = CHR 0x08 \<or> c = CHR 0x7F then butlast line
      else if (of_char c :: nat) < 32 then line
      else if length line + 1 < cap then line @ [c] else line)"

lemma unat_byte_of: "unat (byte_of c) = of_char c"
proof -
  have "unat (of_nat (of_char c) :: u8) = of_char c"
    using nat_of_char_less_256 [of c] by (simp add: unat_of_nat)
  then show ?thesis by (simp add: of_nat_of_char)
qed

lemma is_erase_iff: "is_erase c \<longleftrightarrow> c = CHR 0x08 \<or> c = CHR 0x7F"
proof -
  have "byte_of c = 0x7F \<longleftrightarrow> (of_char c :: nat) = of_char (CHR 0x7F)" by (simp add: word_unat_eq_iff unat_byte_of)
  then show ?thesis by (simp only: is_erase_def BS_def of_char_eq_iff)
qed

lemma is_control_iff: "is_control c \<longleftrightarrow> (of_char c :: nat) < 32"
  by (simp add: is_control_def word_less_nat_alt unat_byte_of)

lemma edit_eq [simp]:
  "edit cap c line =
     (if is_erase c then butlast line
      else if is_control c then line
      else if length line + 1 < cap then line @ [c] else line)"
  unfolding edit.simps is_erase_iff is_control_iff ..

declare edit.simps [simp del]

definition edited :: "nat \<Rightarrow> string \<Rightarrow> string" where
  "edited cap keys = fold (edit cap) keys []"

text \<open>The terminal line: its characters and the cursor. A backspace moves the cursor, any other
  character overwrites what is under it.\<close>

type_synonym screen = "string \<times> nat"

fun put_char :: "char \<Rightarrow> screen \<Rightarrow> screen" where
  "put_char c (text, cursor) =
     (if c = BS then (text, cursor - 1)
      else (take cursor text @ [c] @ drop (cursor + 1) text, cursor + 1))"

definition display :: "string \<Rightarrow> screen \<Rightarrow> screen" where
  "display out s = fold put_char out s"

fun log_text :: "klog \<Rightarrow> string" where
  "log_text [] = []"
| "log_text ((fmt, args) # log) = (case vprintk fmt args of None \<Rightarrow> [] | Some s \<Rightarrow> s) @ log_text log"

text \<open>The screen shows the line up to the cursor, and blanks behind it.\<close>

definition shows_line :: "screen \<Rightarrow> string \<Rightarrow> bool" where
  "shows_line s line \<longleftrightarrow> (\<exists>n. s = (line @ replicate n CHR '' '', length line))"

lemma log_text_append [simp]: "log_text (a @ b) = log_text a @ log_text b"
  by (induction a rule: log_text.induct) auto

lemma vprintk_plain: "CHR ''%'' \<notin> set s \<Longrightarrow> vprintk s [] = Some s"
proof (induction s)
  case (Cons c s)
  then show ?case by (subst vprintk.simps) auto
qed (simp add: vprintk.simps)

lemma char_arg: "char_of_byte (ucast (scast (byte_of c) :: u32)) = c"
proof -
  have "(ucast (scast (byte_of c) :: u32) :: u8) = byte_of c"
    by (rule bit_word_eqI) (auto simp: bit_simps)
  then show ?thesis by simp
qed

lemma vprintk_char: "vprintk ''%c'' [kchar c] = Some [c]"
proof -
  have f: "show_format [Directive False False 0 Conv_c] = ''%c''" by code_simp
  have "vprintk (show_format [Directive False False 0 Conv_c]) [kchar c] =
      render [Directive False False 0 Conv_c] [kchar c]" by (rule vprintk_render) simp
  then show ?thesis unfolding f by (simp add: kchar_def char_arg field_def)
qed

lemma display_append: "display (a @ b) s = display b (display a s)"
  by (simp add: display_def)

lemma shows_put: "shows_line s line \<Longrightarrow> c \<noteq> BS \<Longrightarrow> shows_line (display [c] s) (line @ [c])"
proof -
  assume "shows_line s line" "c \<noteq> BS"
  then obtain n where s: "s = (line @ replicate n CHR '' '', length line)" by (auto simp: shows_line_def)
  have "display [c] s = ((line @ [c]) @ replicate (n - 1) CHR '' '', length (line @ [c]))"
    using \<open>c \<noteq> BS\<close> by (simp add: s display_def)
  then show ?thesis unfolding shows_line_def by blast
qed

lemma shows_erase: "shows_line s line \<Longrightarrow> line \<noteq> [] \<Longrightarrow> shows_line (display ([BS] @ '' '' @ [BS]) s) (butlast line)"
proof -
  assume "shows_line s line" "line \<noteq> []"
  then obtain n where s: "s = (line @ replicate n CHR '' '', length line)" by (auto simp: shows_line_def)
  have "BS \<noteq> CHR '' ''" by (simp add: BS_def)
  have l: "length line - 1 < length line" using \<open>line \<noteq> []\<close> by simp
  have "display ([BS] @ '' '' @ [BS]) s =
      (butlast line @ replicate (Suc n) CHR '' '', length (butlast line))"
    using \<open>line \<noteq> []\<close> \<open>BS \<noteq> CHR '' ''\<close> by (simp add: s display_def butlast_conv_take)
  then show ?thesis unfolding shows_line_def by blast
qed

lemma take_edited:
  assumes "take (length line) buf = line" "length line < length buf"
  shows "take (length line - 1) buf = butlast line"
    "take (Suc (length line)) (buf[length line := c]) = line @ [c]"
proof -
  have "butlast line = take (length line - 1) (take (length line) buf)"
    using assms(1) by (simp add: butlast_conv_take)
  then show "take (length line - 1) buf = butlast line" by (simp add: min_def)
  show "take (Suc (length line)) (buf[length line := c]) = line @ [c]"
    using assms by (simp add: take_Suc_conv_app_nth)
qed

lemma readline_run:
  assumes "LF \<notin> set keys" "length line < cap" "length buf = cap" "take (length line) buf = line"
  shows "\<exists>buf' log'. readline_loop cap buf (length line) (keys @ LF # rest) log =
      Some (buf'[length (fold (edit cap) keys line) := NUL], length (fold (edit cap) keys line), rest,
            log @ log' @ [([LF], [])]) \<and>
    length (fold (edit cap) keys line) < cap \<and> length buf' = cap \<and>
    take (length (fold (edit cap) keys line)) buf' = fold (edit cap) keys line \<and>
    (\<forall>s. shows_line s line \<longrightarrow> shows_line (display (log_text log') s) (fold (edit cap) keys line))"
  using assms
proof (induction keys arbitrary: line buf log)
  case Nil
  then show ?case by (intro exI [of _ buf] exI [of _ "[]"]) (simp add: display_def)
next
  case (Cons c keys)
  let ?buf = "if \<not> is_erase c \<and> \<not> is_control c \<and> length line + 1 < cap then buf[length line := c] else buf"
  let ?log = "if is_erase c then (if line = [] then [] else [([BS] @ '' '' @ [BS], [])])
    else if is_control c \<or> \<not> length line + 1 < cap then [] else [(''%c'', [kchar c])]"
  have c: "c \<noteq> LF" using Cons.prems(1) by auto
  have step: "readline_loop cap buf (length line) ((c # keys) @ LF # rest) log =
      readline_loop cap ?buf (length (edit cap c line)) (keys @ LF # rest) (log @ ?log)"
    using c by simp
  have len: "length (edit cap c line) < cap" "length ?buf = cap"
    using Cons.prems by auto
  have tk: "take (length (edit cap c line)) ?buf = edit cap c line"
    using take_edited [OF Cons.prems(4)] Cons.prems(2-4) by simp
  have scr: "shows_line (display (log_text ?log) s) (edit cap c line)" if s: "shows_line s line" for s
  proof -
    have blank: "vprintk ([BS] @ '' '' @ [BS]) [] = Some ([BS] @ '' '' @ [BS])"
      by (rule vprintk_plain) (simp add: BS_def)
    have "c \<noteq> BS" if "\<not> is_erase c" using that by (auto simp: is_erase_def)
    then show ?thesis
      using s shows_put [OF s, of c] shows_erase [OF s]
      by (auto simp: vprintk_char blank display_def [of "[]"] simp del: append.simps)
  qed
  have keys: "LF \<notin> set keys" using Cons.prems(1) by simp
  obtain buf' log' where r:
    "readline_loop cap ?buf (length (edit cap c line)) (keys @ LF # rest) (log @ ?log) =
      Some (buf'[length (fold (edit cap) keys (edit cap c line)) := NUL],
        length (fold (edit cap) keys (edit cap c line)), rest, (log @ ?log) @ log' @ [([LF], [])])"
    "length (fold (edit cap) keys (edit cap c line)) < cap" "length buf' = cap"
    "take (length (fold (edit cap) keys (edit cap c line))) buf' = fold (edit cap) keys (edit cap c line)"
    "\<forall>s. shows_line s (edit cap c line) \<longrightarrow>
      shows_line (display (log_text log') s) (fold (edit cap) keys (edit cap c line))"
    using Cons.IH [OF keys len(1,2) tk, of "log @ ?log"] by blast
  have fold: "fold (edit cap) (c # keys) line = fold (edit cap) keys (edit cap c line)" by simp
  have all: "\<forall>s. shows_line s line \<longrightarrow>
      shows_line (display (log_text (?log @ log')) s) (fold (edit cap) keys (edit cap c line))"
    unfolding log_text_append display_append using scr r(5) by blast
  show ?case
    unfolding step fold
    by (rule exI [of _ buf'], rule exI [of _ "?log @ log'"], intro conjI)
      (use r(1-4) all in \<open>simp_all only: append_assoc\<close>)
qed

section \<open>Words\<close>

text \<open>The words of a string: its longest runs without white space (space, tab, line feed, carriage return).\<close>

definition white_space :: "char set" where
  "white_space = {CHR 0x20, CHR 0x09, CHR 0x0A, CHR 0x0D}"

function words :: "string \<Rightarrow> string list" where
  "words s =
     (let s = dropWhile (\<lambda>c. c \<in> white_space) s in
      if s = [] then []
      else takeWhile (\<lambda>c. c \<notin> white_space) s # words (dropWhile (\<lambda>c. c \<notin> white_space) s))"
  by pat_completeness auto
termination
proof (relation "measure length", goal_cases)
  case (2 s s')
  then have "hd s' \<notin> white_space" using hd_dropWhile [of "\<lambda>c. c \<in> white_space" s] by auto
  then have "length (dropWhile (\<lambda>c. c \<notin> white_space) s') < length s'"
    using 2(2) by (cases s') (auto simp: le_imp_less_Suc length_dropWhile_le)
  moreover have "length s' \<le> length s" using 2(1) by (simp add: length_dropWhile_le)
  ultimately show ?case by simp
qed simp

lemma white_space_iff: "c \<in> white_space \<longleftrightarrow> is_space c"
  by (auto simp: white_space_def is_space_def LF_def)

lemmas words_unfold = words.simps [unfolded white_space_iff]

declare words.simps [simp del]

lemma not_space_NUL: "\<not> is_space NUL"
  by (simp add: is_space_def NUL_def LF_def)

text \<open>A buffer from an index on: the text up to the terminator.\<close>

lemma cstr_step: "p < length line \<Longrightarrow> line ! p \<noteq> NUL \<Longrightarrow> cstr line p = line ! p # cstr line (p + 1)"
  by (simp add: cstr_def Cons_nth_drop_Suc [symmetric])

lemma cstr_end: "\<not> (p < length line \<and> line ! p \<noteq> NUL) \<Longrightarrow> cstr line p = []"
  by (cases "p < length line") (simp_all add: cstr_def Cons_nth_drop_Suc [symmetric])

lemma cstr_eq_Nil: "cstr line p = [] \<longleftrightarrow> \<not> (p < length line \<and> line ! p \<noteq> NUL)"
  using cstr_step cstr_end by fastforce

lemma skip_spaces_cstr: "cstr line (skip_spaces line p) = dropWhile is_space (cstr line p)"
proof (induction line p rule: skip_spaces.induct)
  case (1 line p)
  show ?case
  proof (cases "p < length line \<and> line ! p \<noteq> NUL \<and> is_space (line ! p)")
    case True
    then show ?thesis using 1 by (subst skip_spaces.simps) (simp add: cstr_step)
  next
    case False
    then have "skip_spaces line p = p" by (subst skip_spaces.simps) (rule if_not_P)
    then show ?thesis
      using False cstr_step [of p line] cstr_end [of p line] by (cases "p < length line \<and> line ! p \<noteq> NUL") auto
  qed
qed

lemma skip_word_cstr:
  "cstr line (skip_word line p) = dropWhile (\<lambda>c. \<not> is_space c) (cstr line p)"
  "take (skip_word line p - p) (drop p line) = takeWhile (\<lambda>c. \<not> is_space c) (cstr line p)"
proof (induction line p rule: skip_word.induct)
  case (1 line p)
  let ?go = "p < length line \<and> line ! p \<noteq> NUL \<and> \<not> is_space (line ! p)"
  have stop: "skip_word line p = p" if "\<not> ?go" using that by (subst skip_word.simps) (rule if_not_P)
  have go: "skip_word line p = skip_word line (p + 1)" if ?go using that by (subst skip_word.simps) simp
  have ge: "p + 1 \<le> skip_word line (p + 1)" by (rule skip_word_ge)
  {
    case 1
    show ?case
    proof (cases ?go)
      case True
      then show ?thesis using "1.IH"(1) [OF True] unfolding go [OF True] by (simp add: cstr_step)
    next
      case False
      then show ?thesis unfolding stop [OF False]
        using cstr_step [of p line] cstr_end [of p line] by (cases "p < length line \<and> line ! p \<noteq> NUL") auto
    qed
  next
    case 2
    show ?case
    proof (cases ?go)
      case True
      then have "take (skip_word line p - p) (drop p line) =
          line ! p # take (skip_word line (p + 1) - (p + 1)) (drop (p + 1) line)"
        using ge unfolding go [OF True]
        by (simp add: Cons_nth_drop_Suc [symmetric] take_Cons' del: drop_drop)
      then show ?thesis using True "1.IH"(2) [OF True] by (simp add: cstr_step)
    next
      case False
      then show ?thesis unfolding stop [OF False]
        using cstr_step [of p line] cstr_end [of p line] by (cases "p < length line \<and> line ! p \<noteq> NUL") auto
    qed
  }
qed

lemma skip_word_le: "p \<le> length line \<Longrightarrow> skip_word line p \<le> length line"
  by (induction line p rule: skip_word.induct) (subst skip_word.simps, auto)

text \<open>Overwriting a character in front of an index does not change the string there, and a terminator
  at the end of a word makes the word a string.\<close>

lemma cstr_update_before: "q < p \<Longrightarrow> cstr (line[q := c]) p = cstr line p"
  by (simp add: cstr_def)

lemma cstr_word:
  assumes "line ! p2 = NUL \<or> p2 = length line" "p1 \<le> p2" "p2 \<le> length line"
    and "NUL \<notin> set (take (p2 - p1) (drop p1 line))"
  shows "cstr line p1 = take (p2 - p1) (drop p1 line)"
proof -
  have split: "drop p1 line = take (p2 - p1) (drop p1 line) @ drop p2 line"
    using assms(2) by (metis append_take_drop_id drop_drop le_add_diff_inverse2)
  have "takeWhile (\<lambda>c. c \<noteq> NUL) (drop p2 line) = []"
    using assms(1,3) by (cases "p2 < length line") (auto simp: Cons_nth_drop_Suc [symmetric])
  moreover have "\<forall>c \<in> set (take (p2 - p1) (drop p1 line)). c \<noteq> NUL" using assms(4) by auto
  ultimately show ?thesis unfolding cstr_def by (subst split) (simp add: takeWhile_append)
qed

lemma words_Nil [simp]: "words [] = []"
  by (subst words_unfold) simp

lemma words_space: "is_space c \<Longrightarrow> words (c # s) = words s"
  by (subst (1 2) words_unfold) simp

lemma words_run: "dropWhile is_space s \<noteq> [] \<Longrightarrow>
    words s = takeWhile (\<lambda>c. \<not> is_space c) (dropWhile is_space s) #
      words (dropWhile (\<lambda>c. \<not> is_space c) (dropWhile is_space s))"
  by (subst words_unfold) (simp add: Let_def)

lemma words_blank: "dropWhile is_space s = [] \<Longrightarrow> words s = []"
  by (subst words_unfold) (simp add: Let_def)

lemma middle_cong:
  assumes "\<forall>q < n. a ! q = b ! q" "length a = length b" "n \<le> length a" "m \<le> n"
  shows "take (n - m) (drop m a) = take (n - m) (drop m b)"
proof -
  have "take n a = take n b" using assms by (intro nth_take_lemma) auto
  then show ?thesis by (metis drop_take)
qed

lemma tokenize_words:
  assumes "p \<le> length line"
  shows "case tokenize_loop cap line argv p of (line', argv') \<Rightarrow>
    \<exists>new. argv' = argv @ new \<and> map (cstr line') new = take (cap - length argv) (words (cstr line p)) \<and>
      length line' = length line \<and> (\<forall>q < p. line' ! q = line ! q)"
  using assms
proof (induction cap line argv p rule: tokenize_loop.induct)
  case (1 cap line argv p)
  define p1 p2 where "p1 = skip_spaces line p" and "p2 = skip_word line p1"
  show ?case
  proof (cases "p < length line \<and> line ! p \<noteq> NUL")
    case False
    then have "tokenize_loop cap line argv p = (line, argv)" by (subst tokenize_loop.simps) auto
    with cstr_end [OF False] show ?thesis by simp
  next
    case go: True
    have c1: "cstr line p1 = dropWhile is_space (cstr line p)" by (simp add: p1_def skip_spaces_cstr)
    show ?thesis
    proof (cases "p1 < length line \<and> line ! p1 \<noteq> NUL \<and> length argv < cap")
      case False
      then have "tokenize_loop cap line argv p = (line, argv)"
        using go by (subst tokenize_loop.simps) (auto simp: p1_def Let_def)
      moreover have "take (cap - length argv) (words (cstr line p)) = []"
        using False c1 words_blank [of "cstr line p"] cstr_eq_Nil [of line p1] by auto
      ultimately show ?thesis by simp
    next
      case word: True
      then have p1: "p1 < length line" "line ! p1 \<noteq> NUL" and cap: "\<not> cap \<le> length argv" by simp_all
      have le: "p \<le> p1" "p1 \<le> p2" "p2 \<le> length line"
        using skip_spaces_ge skip_word_ge skip_word_le p1(1) by (simp_all add: p1_def p2_def)
      define w where "w = takeWhile (\<lambda>c. \<not> is_space c) (cstr line p1)"
      have w: "w = take (p2 - p1) (drop p1 line)" by (simp add: w_def p2_def skip_word_cstr)
      have wset: "set w \<subseteq> set (cstr line p1)" unfolding w_def by (meson set_takeWhileD subsetI)
      then have nul: "NUL \<notin> set (take (p2 - p1) (drop p1 line))"
        unfolding w [symmetric] cstr_def by (auto dest: set_takeWhileD)
      have "cstr line p1 \<noteq> []" using p1 by (simp add: cstr_eq_Nil)
      then have words: "words (cstr line p) = w # words (cstr line p2)"
        unfolding p2_def skip_word_cstr(1) w_def c1 by (rule words_run)
      have tk: "take (cap - length argv) (words (cstr line p)) =
          w # take (cap - length (argv @ [p1])) (words (cstr line p2))"
        using cap by (simp add: words take_Cons')
      show ?thesis
      proof (cases "p2 < length line \<and> line ! p2 \<noteq> NUL")
        case True
        let ?line = "line[p2 := NUL]"
        have run: "tokenize_loop cap line argv p = tokenize_loop cap ?line (argv @ [p1]) (p2 + 1)"
          using go word True by (subst tokenize_loop.simps) (simp add: Let_def flip: p1_def p2_def)
        obtain line' new where r: "tokenize_loop cap ?line (argv @ [p1]) (p2 + 1) = (line', (argv @ [p1]) @ new)"
          "map (cstr line') new = take (cap - length (argv @ [p1])) (words (cstr ?line (p2 + 1)))"
          "length line' = length ?line" "\<forall>q < p2 + 1. line' ! q = ?line ! q"
          using "1.IH"(1) [OF go p1_def] p1 cap p2_def True by (auto split: prod.splits)
        have sp: "is_space (line ! p2)"
        proof (rule ccontr)
          assume "\<not> is_space (line ! p2)"
          moreover have "cstr line p2 = line ! p2 # cstr line (p2 + 1)" using True by (simp add: cstr_step)
          moreover have "cstr line p2 = dropWhile (\<lambda>c. \<not> is_space c) (cstr line p1)"
            by (simp add: p2_def skip_word_cstr(1))
          ultimately show False by (metis dropWhile_eq_Cons_conv)
        qed
        have rest: "words (cstr ?line (p2 + 1)) = words (cstr line p2)"
          using True sp by (simp add: cstr_update_before cstr_step words_space)
        have agree: "\<forall>q < p2. line' ! q = line ! q" using r(4) by simp
        have mid: "take (p2 - p1) (drop p1 line') = take (p2 - p1) (drop p1 line)"
          using agree r(3) le by (intro middle_cong) auto
        have "line' ! p2 = NUL" using r(4) True by simp
        then have "cstr line' p1 = w"
          using cstr_word [of line' p2 p1] mid nul le r(3) w by simp
        then show ?thesis
          unfolding run r(1) prod.case using r(2,3) rest tk agree le
          by (intro exI [of _ "p1 # new"]) simp
      next
        case False
        have run: "tokenize_loop cap line argv p = tokenize_loop cap line (argv @ [p1]) p2"
          using go word False by (subst tokenize_loop.simps) (auto simp: Let_def simp flip: p1_def p2_def)
        also have "\<dots> = (line, argv @ [p1])"
          using False by (subst tokenize_loop.simps) auto
        finally have res: "tokenize_loop cap line argv p = (line, argv @ [p1])" .
        have "line ! p2 = NUL \<or> p2 = length line" using False le by auto
        then have "cstr line p1 = w" using cstr_word [of line p2 p1] nul le w by simp
        with tk show ?thesis unfolding res by (simp add: cstr_end [OF False])
      qed
    qed
  qed
qed

section \<open>Properties\<close>

lemma streq_eq: "streq a b \<longleftrightarrow> a = b"
  by (induction a b rule: streq.induct) auto

lemma find_command_eq: "find_command cmds s = (if s \<in> set cmds then Some s else None)"
  by (induction cmds) (auto simp: streq_eq)

text \<open>What the dispatcher is to do with the words of a line.\<close>

fun dispatch_words :: "string list \<Rightarrow> dispatch" where
  "dispatch_words [] = Nothing"
| "dispatch_words (w # ws) = (if w \<in> set g_cmds then Run w (w # ws) else Unknown w)"

lemma dispatch_line: "shell_dispatch line = dispatch_words (take 16 (words (cstr line 0)))"
proof (cases "cstr line 0 = []")
  case True
  then show ?thesis by (simp add: shell_dispatch_def)
next
  case False
  obtain line' argv where tok: "shell_tokenize line 16 = (line', argv)" by fastforce
  then have args: "take 16 (words (cstr line 0)) = map (cstr line') argv"
    using tokenize_words [where p = 0 and line = line and cap = 16 and argv = "[]"]
    by (auto simp: shell_tokenize_def)
  show ?thesis
    unfolding args using False tok by (cases argv) (auto simp: shell_dispatch_def find_command_eq)
qed

lemma NUL_not_edited: "NUL \<notin> set line \<Longrightarrow> NUL \<notin> set (fold (edit cap) keys line)"
proof (induction keys arbitrary: line)
  case (Cons c keys)
  have "is_control NUL" by (simp add: is_control_def NUL_def)
  then have "NUL \<notin> set (edit cap c line)" using Cons.prems by (auto dest: in_set_butlastD)
  with Cons.IH show ?case by simp
qed simp

lemma cstr_take: "take n buf = s \<Longrightarrow> length s = n \<Longrightarrow> n < length buf \<Longrightarrow> NUL \<notin> set s \<Longrightarrow>
    cstr (buf[n := NUL]) 0 = s"
proof -
  assume a: "take n buf = s" "length s = n" "n < length buf" "NUL \<notin> set s"
  have "buf[n := NUL] = s @ NUL # drop (Suc n) buf"
    using a by (simp add: upd_conv_take_nth_drop)
  moreover have "\<forall>c \<in> set s. c \<noteq> NUL" using a(4) by auto
  ultimately show ?thesis by (simp add: cstr_def takeWhile_append)
qed

text \<open>C31. The line editor: for every sequence of keys that ends in a newline, \<open>shell_readline\<close> returns the
  line that they edit, terminated and within the buffer, with the rest of the input unread; erasing
  removes the last character, other control characters do nothing, and a character that does not fit
  is dropped. A screen line that was empty shows exactly the edited line after the echo, whatever was
  typed and erased in between.\<close>

theorem shell_line_editing:
  assumes "LF \<notin> set keys" "0 < cap" "length buf = cap"
  shows "\<exists>buf' echo. shell_readline buf cap (keys @ LF # rest) log =
      Some (buf', length (edited cap keys), rest, log @ echo @ [([LF], [])]) \<and>
    length buf' = cap \<and> length (edited cap keys) < cap \<and> cstr buf' 0 = edited cap keys \<and>
    shows_line (display (log_text echo) ([], 0)) (edited cap keys)"
proof -
  obtain buf' echo where r: "readline_loop cap buf 0 (keys @ LF # rest) log =
      Some (buf'[length (edited cap keys) := NUL], length (edited cap keys), rest, log @ echo @ [([LF], [])])"
    "length (edited cap keys) < cap" "length buf' = cap"
    "take (length (edited cap keys)) buf' = edited cap keys"
    "\<forall>s. shows_line s [] \<longrightarrow> shows_line (display (log_text echo) s) (edited cap keys)"
    using readline_run [of keys "[]" cap buf rest log] assms unfolding edited_def by auto
  have "NUL \<notin> set (edited cap keys)" by (simp add: edited_def NUL_not_edited)
  then have "cstr (buf'[length (edited cap keys) := NUL]) 0 = edited cap keys"
    using r(2-4) by (intro cstr_take) simp_all
  moreover have "shows_line ([], 0) []" by (simp add: shows_line_def)
  ultimately show ?thesis using r assms(2) by (auto simp: shell_readline_def)
qed

theorem shell_line_editing_witness:
  "\<exists>buf' echo. shell_readline (replicate 5 NUL) 5 ((''frx'' @ [BS] @ ''ee s'') @ LF # ''cls'') [] =
      Some (buf', 4, ''cls'', [] @ echo @ [([LF], [])]) \<and> cstr buf' 0 = ''free''"
proof -
  have "edited 5 (''frx'' @ [BS] @ ''ee s'') = ''free''" by code_simp
  moreover have "LF \<notin> set (''frx'' @ [BS] @ ''ee s'')" by (simp add: LF_def BS_def)
  ultimately show ?thesis
    using shell_line_editing [of "''frx'' @ [BS] @ ''ee s''" 5 "replicate 5 NUL" "''cls''" "[]"] by auto
qed

text \<open>C32. Splitting a line in place and looking its command up does what the words of the line say: the
  blank line does nothing; otherwise the command whose name is the first word runs, with the first
  sixteen words as its arguments, and a first word that names no command is reported. The terminators
  that the tokenizer writes do not damage an argument it has already found.\<close>

theorem shell_dispatch_words:
  "shell_dispatch line = dispatch_words (take 16 (words (takeWhile (\<lambda>c. c \<noteq> NUL) line)))"
  using dispatch_line [of line] by (simp add: cstr_def)

end
