(* ===== verification/Syscall.thy ===== *)
theory Syscall
  imports Shell
begin

text \<open>
  System calls (\<open>syscall.c\<close>): the table of handlers, the three handlers the kernel has, and the
  pluggable entry mechanism, whose effect on the machine is a parameter because the kernel has none
  yet. A handler answers with the value for the caller's EAX, or never returns (\<open>None\<close>). Memory is a
  function from addresses to characters, so an address that runs past the end wraps around.
\<close>

record syscall_regs =
  nr :: u32
  arg1 :: u32
  arg2 :: u32
  arg3 :: u32
  arg4 :: u32
  arg5 :: u32

definition SYS_EXIT :: u32 where "SYS_EXIT = 1"
definition SYS_WRITE :: u32 where "SYS_WRITE = 4"
definition SYS_BRK :: u32 where "SYS_BRK = 45"
definition SYSCALL_MAX :: u32 where "SYSCALL_MAX = 256"
definition ENOSYS :: u32 where "ENOSYS = 38"

lemmas syscall_numbers = SYS_EXIT_def SYS_WRITE_def SYS_BRK_def SYSCALL_MAX_def ENOSYS_def

type_synonym user_mem = "u32 \<Rightarrow> char"

type_synonym syscall_handler = "user_mem \<Rightarrow> syscall_regs \<Rightarrow> klog \<Rightarrow> u32 option \<times> klog"

record 'm syscall_ops =
  so_name :: string
  so_init :: "'m \<Rightarrow> 'm"

record 'm sys_state =
  syscall_table :: "syscall_handler option list"
  g_syscall_ops :: "'m syscall_ops option"
  g_syscall_ready :: bool
  sys_machine :: 'm
  sys_log :: klog

section \<open>Handlers\<close>

definition sys_exit :: syscall_handler where
  "sys_exit mem regs log = (None, log @ [(''[syscall] exit(status=%d)\<newline>'', [KInt (arg1 regs)])])"

fun write_chars :: "user_mem \<Rightarrow> u32 \<Rightarrow> nat \<Rightarrow> klog" where
  "write_chars mem p 0 = []"
| "write_chars mem p (Suc n) = (''%c'', [kchar (mem p)]) # write_chars mem (p + 1) n"

definition sys_write :: syscall_handler where
  "sys_write mem regs log =
     (let fd = arg1 regs; buf = arg2 regs; count = arg3 regs in
      if fd \<noteq> 1 \<and> fd \<noteq> 2 then (Some (- 1), log)
      else if buf \<ge> 0xC0000000
      then (Some (- 1), log @ [(''[syscall] write: bad user pointer 0x%08x\<newline>'', [KInt buf])])
      else
        (let count = (if count > 4096 then 4096 else count)
         in (Some count, log @ write_chars mem buf (unat count))))"

definition sys_brk :: syscall_handler where
  "sys_brk mem regs log =
     (Some 0x00400000,
      log @ [(''[syscall] brk(0x%08x) '' @ [CHR 0xE2, CHR 0x80, CHR 0x94] @ '' stub, returning 0x00400000\<newline>'',
        [KInt (arg1 regs)])])"

section \<open>Registration and dispatch\<close>

definition syscall_register_backend :: "'m syscall_ops option \<Rightarrow> 'm sys_state \<Rightarrow> 'm sys_state" where
  "syscall_register_backend ops s = s\<lparr>g_syscall_ops := ops\<rparr>"

definition syscall_backend_name :: "'m sys_state \<Rightarrow> string option" where
  "syscall_backend_name s = map_option so_name (g_syscall_ops s)"

definition syscall_is_ready :: "'m sys_state \<Rightarrow> bool" where
  "syscall_is_ready s = g_syscall_ready s"

definition sys_print :: "string \<Rightarrow> karg list \<Rightarrow> 'm sys_state \<Rightarrow> 'm sys_state" where
  "sys_print fmt args s = s\<lparr>sys_log := sys_log s @ [(fmt, args)]\<rparr>"

definition syscall_register ::
  "u32 \<Rightarrow> syscall_handler option \<Rightarrow> 'm sys_state \<Rightarrow> int \<times> 'm sys_state" where
  "syscall_register n handler s =
     (if n = 0 \<or> n \<ge> SYSCALL_MAX
      then (- 1, sys_print ''[syscall] register: invalid nr=%u\<newline>'' [KInt n] s)
      else (0, s\<lparr>syscall_table := (syscall_table s)[unat n := handler]\<rparr>))"

definition syscall_dispatch ::
  "user_mem \<Rightarrow> syscall_regs option \<Rightarrow> 'm sys_state \<Rightarrow> u32 option \<times> 'm sys_state" where
  "syscall_dispatch mem regs s =
     (case regs of
        None \<Rightarrow> (Some (- ENOSYS), s)
      | Some regs \<Rightarrow>
          (let n = nr regs in
           case (if n \<ge> SYSCALL_MAX then None else syscall_table s ! unat n) of
             None \<Rightarrow> (Some (- ENOSYS), sys_print ''[syscall] unknown syscall nr=%u\<newline>'' [KInt n] s)
           | Some handler \<Rightarrow>
               (case handler mem regs (sys_log s) of (r, log) \<Rightarrow> (r, s\<lparr>sys_log := log\<rparr>))))"

definition syscall_init :: "'m sys_state \<Rightarrow> 'm sys_state" where
  "syscall_init s =
     (let s1 = s\<lparr>syscall_table := replicate (unat SYSCALL_MAX) None\<rparr>;
          s2 = snd (syscall_register SYS_EXIT (Some sys_exit) s1);
          s3 = snd (syscall_register SYS_WRITE (Some sys_write) s2);
          s4 = snd (syscall_register SYS_BRK (Some sys_brk) s3);
          s5 = sys_print (''[syscall] table: %u handlers registered '' @ ''(exit=%u, write=%u, brk=%u)\<newline>'')
                 [KInt 3, KInt SYS_EXIT, KInt SYS_WRITE, KInt SYS_BRK] s4;
          s6 = (case g_syscall_ops s5 of
                  Some ops \<Rightarrow>
                    (let s' = sys_print ''[syscall] backend: %s\<newline>'' [KStr (Some (so_name ops))] s5
                     in s'\<lparr>sys_machine := so_init ops (sys_machine s')\<rparr>)
                | None \<Rightarrow>
                    sys_print (''[syscall] no backend registered (dispatch only, '' @
                      ''no user-mode entry point)\<newline>'') [] s5)
      in sys_print ''[syscall] init ok\<newline>'' [] (s6\<lparr>g_syscall_ready := True\<rparr>))"

section \<open>Properties\<close>

lemma write_chars_text: "log_text (write_chars mem p n) = map (\<lambda>i. mem (p + of_nat i)) [0..<n]"
proof (induction n arbitrary: p)
  case (Suc n)
  then show ?case by (simp add: vprintk_char map_upt_Suc add.assoc del: upt_Suc)
qed simp

lemma table_after_init:
  "i < 256 \<Longrightarrow> syscall_table (syscall_init s) ! i =
    (if i = 1 then Some sys_exit else if i = 4 then Some sys_write else if i = 45 then Some sys_brk else None)"
  by (simp add: syscall_init_def syscall_register_def sys_print_def Let_def syscall_numbers
      nth_list_update word_le_nat_alt split: option.split)

lemma dispatch_after_init:
  "syscall_dispatch mem (Some regs) (syscall_init s) =
    (case (if nr regs = SYS_EXIT then Some sys_exit else if nr regs = SYS_WRITE then Some sys_write
       else if nr regs = SYS_BRK then Some sys_brk else None) of
       None \<Rightarrow> (Some (- ENOSYS), sys_print ''[syscall] unknown syscall nr=%u\<newline>'' [KInt (nr regs)] (syscall_init s))
     | Some h \<Rightarrow> (case h mem regs (sys_log (syscall_init s)) of (r, log) \<Rightarrow> (r, (syscall_init s)\<lparr>sys_log := log\<rparr>)))"
proof (cases "nr regs \<ge> SYSCALL_MAX")
  case True
  then have "nr regs \<noteq> SYS_EXIT" "nr regs \<noteq> SYS_WRITE" "nr regs \<noteq> SYS_BRK"
    by (auto simp: syscall_numbers word_le_nat_alt)
  with True show ?thesis by (simp add: syscall_dispatch_def Let_def)
next
  case False
  then have "unat (nr regs) < 256" by (simp add: syscall_numbers word_le_nat_alt)
  moreover have "unat (nr regs) = 1 \<longleftrightarrow> nr regs = SYS_EXIT" "unat (nr regs) = 4 \<longleftrightarrow> nr regs = SYS_WRITE"
    "unat (nr regs) = 45 \<longleftrightarrow> nr regs = SYS_BRK"
    by (simp_all add: word_unat_eq_iff syscall_numbers)
  ultimately show ?thesis using False by (simp add: syscall_dispatch_def table_after_init Let_def)
qed

text \<open>C35. System calls after initialisation: \<open>write\<close> refuses every file descriptor but the two output
  streams without printing, and a buffer that starts in kernel space with a message; otherwise it
  returns the smaller of the count and 4096 and prints exactly the bytes from the buffer's start on;
  \<open>exit\<close> never returns; \<open>brk\<close> answers with its fixed address; and every other number, however large,
  is refused with -ENOSYS. The table does not change.\<close>

theorem syscall_dispatch_spec:
  "let s0 = syscall_init s; (r, s1) = syscall_dispatch mem (Some regs) s0; n = nr regs;
       fd = arg1 regs; buf = arg2 regs; count = min (arg3 regs) 4096 in
   syscall_table s1 = syscall_table s0 \<and>
   (r = None \<longleftrightarrow> n = 1) \<and>
   (n = 45 \<longrightarrow> r = Some 0x00400000) \<and>
   (n \<notin> {1, 4, 45} \<longrightarrow> r = Some (- 38)) \<and>
   (n = 4 \<longrightarrow>
     (if fd \<noteq> 1 \<and> fd \<noteq> 2 then r = Some (- 1) \<and> sys_log s1 = sys_log s0
      else if 0xC0000000 \<le> buf then r = Some (- 1)
      else r = Some count \<and> log_text (sys_log s1) =
        log_text (sys_log s0) @ map (\<lambda>i. mem (buf + of_nat i)) [0..<unat count]))"
proof -
  have "(if (4096 :: u32) < arg3 regs then 4096 else arg3 regs) = min (arg3 regs) 4096"
    by (auto simp: min_def not_less intro: antisym)
  then have count: "(if (4096 :: u32) < arg3 regs then 4096 else arg3 regs) = min (arg3 regs) 4096" .
  note d = dispatch_after_init [of mem regs s]
  consider (is_exit) "nr regs = 1" | (is_write) "nr regs = 4" | (is_brk) "nr regs = 45" | (is_other) "nr regs \<notin> {1, 4, 45}"
    by blast
  then show ?thesis
  proof cases
    case is_exit
    then show ?thesis using d by (simp add: syscall_numbers sys_exit_def Let_def)
  next
    case is_write
    show ?thesis
    proof (cases "(arg1 regs = 1 \<or> arg1 regs = 2) \<and> \<not> 0xC0000000 \<le> arg2 regs")
      case True
      then have "sys_write mem regs log = (Some (min (arg3 regs) 4096),
          log @ write_chars mem (arg2 regs) (unat (min (arg3 regs) 4096)))" for log
        by (auto simp: sys_write_def count Let_def)
      with True is_write d show ?thesis by (auto simp: syscall_numbers write_chars_text Let_def)
    next
      case False
      with is_write d show ?thesis by (auto simp: syscall_numbers sys_write_def Let_def)
    qed
  next
    case is_brk
    then show ?thesis using d by (simp add: syscall_numbers sys_brk_def Let_def)
  next
    case is_other
    then show ?thesis using d by (simp add: syscall_numbers sys_print_def Let_def)
  qed
qed

definition sample_sys :: "unit sys_state" where
  "sample_sys = \<lparr>syscall_table = replicate 256 None, g_syscall_ops = None, g_syscall_ready = False,
     sys_machine = (), sys_log = []\<rparr>"

definition write_call :: "u32 \<Rightarrow> u32 \<Rightarrow> syscall_regs" where
  "write_call buf count = \<lparr>nr = 4, arg1 = 1, arg2 = buf, arg3 = count, arg4 = 0, arg5 = 0\<rparr>"

theorem syscall_dispatch_spec_witness:
  "fst (syscall_dispatch (\<lambda>a. CHR ''x'') (Some (write_call 0x400000 3)) (syscall_init sample_sys)) = Some 3"
  using syscall_dispatch_spec [of sample_sys "\<lambda>a. CHR ''x''" "write_call 0x400000 3"]
  by (simp add: write_call_def Let_def min_def split: prod.splits)

text \<open>C37. The check of \<open>write\<close> looks at the start of the buffer only: a buffer that starts below kernel
  space and is long enough is printed to its end, so the caller reads kernel memory, up to 4095 bytes
  of it.\<close>

theorem sys_write_leaks_kernel:
  "let s0 = syscall_init s; (r, s1) = syscall_dispatch mem (Some (write_call 0xBFFFFFFF 4096)) s0 in
   r = Some 4096 \<and> log_text (sys_log s1) =
     log_text (sys_log s0) @ mem 0xBFFFFFFF # map (\<lambda>i. mem (0xC0000000 + of_nat i)) [0..<4095]"
proof -
  have "map (\<lambda>i. mem (0xBFFFFFFF + of_nat i)) [0..<Suc 4095] =
      mem 0xBFFFFFFF # map (\<lambda>i. mem (0xC0000000 + of_nat i)) [0..<4095]"
    unfolding map_upt_Suc by (simp add: add.assoc [symmetric] del: upt_rec_numeral)
  then have shown: "log_text (write_chars mem 0xBFFFFFFF 4096) =
      mem 0xBFFFFFFF # map (\<lambda>i. mem (0xC0000000 + of_nat i)) [0..<4095]"
    unfolding write_chars_text by (simp del: upt_rec_numeral upt_Suc)
  have "syscall_dispatch mem (Some (write_call 0xBFFFFFFF 4096)) (syscall_init s) =
      (Some 4096, (syscall_init s)\<lparr>sys_log := sys_log (syscall_init s) @ write_chars mem 0xBFFFFFFF 4096\<rparr>)"
    unfolding dispatch_after_init
    by (simp add: write_call_def syscall_numbers sys_write_def Let_def del: write_chars.simps)
  then show ?thesis by (simp add: shown Let_def del: upt_rec_numeral upt_Suc write_chars.simps)
qed

end
