(* ===== verification/Cpu_Tables.thy ===== *)
theory Cpu_Tables
  imports Irq
begin

text \<open>
  The descriptor tables of the processor: the global descriptor table (\<open>gdt.c\<close>), the task state
  segment (\<open>tss.c\<close>) and the interrupt descriptor table (\<open>idt.c\<close>, its first half), with what the
  processor reads out of them. The addresses that the linker assigns are a parameter, \<open>link\<close>: the
  two tables, the task state segment, the top of the kernel stack and the assembly entry points of
  the vectors.
\<close>

record link =
  addr_gdt :: u32
  addr_idt :: u32
  addr_tss :: u32
  stack_top :: u32
  isr_stub :: "nat \<Rightarrow> u32"
  irq_stub :: "nat \<Rightarrow> u32"

section \<open>The global descriptor table\<close>

record gdt_entry =
  limit_low :: u16
  base_low :: u16
  base_mid :: u8
  access :: u8
  gran :: u8
  base_high :: u8

record table_reg =
  tr_limit :: u16
  tr_base :: u32

definition GDT_KERNEL_CODE_SEL :: u16 where "GDT_KERNEL_CODE_SEL = 0x08"
definition GDT_KERNEL_DATA_SEL :: u16 where "GDT_KERNEL_DATA_SEL = 0x10"
definition GDT_USER_CODE_SEL :: u16 where "GDT_USER_CODE_SEL = 0x1B"
definition GDT_USER_DATA_SEL :: u16 where "GDT_USER_DATA_SEL = 0x23"
definition GDT_TSS_SEL :: u16 where "GDT_TSS_SEL = 0x28"

lemmas selectors = GDT_KERNEL_CODE_SEL_def GDT_KERNEL_DATA_SEL_def GDT_USER_CODE_SEL_def
  GDT_USER_DATA_SEL_def GDT_TSS_SEL_def

text \<open>The segment registers, and the registers that hold the tables.\<close>

record cpu =
  c_gdtr :: table_reg
  c_idtr :: table_reg
  c_tr :: u16
  c_cs :: u16
  c_ss :: u16
  c_data :: u16

record tss =
  prev_tss :: u32
  esp0 :: u32
  ss0 :: u32
  esp1 :: u32
  ss1 :: u32
  esp2 :: u32
  ss2 :: u32
  t_cr3 :: u32
  t_eip :: u32
  t_eflags :: u32
  t_general :: "u32 list"
  t_segments :: "u32 list"
  ldt :: u32
  trap :: u16
  iomap_base :: u16

record idt_entry =
  offset_low :: u16
  selector :: u16
  zero :: u8
  type_attr :: u8
  offset_high :: u16

record tables =
  gdt :: "gdt_entry list"
  g_tss :: tss
  idt :: "idt_entry list"
  cpu :: cpu
  t_log :: klog

definition gdt_set_entry :: "nat \<Rightarrow> u32 \<Rightarrow> u32 \<Rightarrow> u8 \<Rightarrow> u8 \<Rightarrow> tables \<Rightarrow> tables" where
  "gdt_set_entry idx base limit acc flags t =
     t\<lparr>gdt := (gdt t)[idx :=
       \<lparr>limit_low = ucast (limit AND 0xFFFF),
        base_low = ucast (base AND 0xFFFF),
        base_mid = ucast (drop_bit 16 base AND 0xFF),
        access = acc,
        gran = (flags AND 0xF0) OR ucast (drop_bit 16 limit AND 0x0F),
        base_high = ucast (drop_bit 24 base AND 0xFF)\<rparr>]\<rparr>"

text \<open>\<open>gdt_flush\<close> is assembly: it loads the table and reloads the segment registers.\<close>

definition gdt_flush :: "table_reg \<Rightarrow> tables \<Rightarrow> tables" where
  "gdt_flush r t = t\<lparr>cpu := (cpu t)\<lparr>c_gdtr := r, c_cs := 0x08, c_data := 0x10, c_ss := 0x10\<rparr>\<rparr>"

definition gdt_init :: "link \<Rightarrow> tables \<Rightarrow> tables" where
  "gdt_init l t =
     (let t0 = gdt_set_entry 0 0 0 0 0 t;
          t1 = gdt_set_entry 1 0x00000000 0x000FFFFF 0x9A 0xC0 t0;
          t2 = gdt_set_entry 2 0x00000000 0x000FFFFF 0x92 0xC0 t1;
          t3 = gdt_set_entry 3 0x00000000 0x000FFFFF 0xFA 0xC0 t2;
          t4 = gdt_set_entry 4 0x00000000 0x000FFFFF 0xF2 0xC0 t3;
          t5 = gdt_set_entry 5 0 0 0 0 t4
      in gdt_flush \<lparr>tr_limit = of_nat (8 * length (gdt t5) - 1), tr_base = addr_gdt l\<rparr> t5)"

definition gdt_set_tss_entry :: "u32 \<Rightarrow> u32 \<Rightarrow> tables \<Rightarrow> tables" where
  "gdt_set_tss_entry base limit t = gdt_set_entry 5 base limit 0x89 0x00 t"

section \<open>The task state segment\<close>

text \<open>\<open>sizeof(tss_t)\<close>, with 8 general and 6 segment registers.\<close>

definition TSS_SIZE :: u32 where "TSS_SIZE = 104"

definition zero_tss :: tss where
  "zero_tss = \<lparr>prev_tss = 0, esp0 = 0, ss0 = 0, esp1 = 0, ss1 = 0, esp2 = 0, ss2 = 0, t_cr3 = 0,
     t_eip = 0, t_eflags = 0, t_general = replicate 8 0, t_segments = replicate 6 0, ldt = 0,
     trap = 0, iomap_base = 0\<rparr>"

definition ltr :: "u16 \<Rightarrow> tables \<Rightarrow> tables" where
  "ltr sel t = t\<lparr>cpu := (cpu t)\<lparr>c_tr := sel\<rparr>\<rparr>"

definition tss_init :: "link \<Rightarrow> tables \<Rightarrow> tables" where
  "tss_init l t =
     (let seg = zero_tss\<lparr>ss0 := ucast GDT_KERNEL_DATA_SEL, esp0 := stack_top l,
            iomap_base := ucast TSS_SIZE\<rparr>;
          t1 = gdt_set_tss_entry (addr_tss l) (TSS_SIZE - 1) (t\<lparr>g_tss := seg\<rparr>);
          t2 = ltr GDT_TSS_SEL t1
      in t2\<lparr>t_log := t_log t2 @ [(''[init] tss ok (esp0=0x%08x, ss0=0x%04x)\<newline>'',
           [KInt (esp0 (g_tss t2)), KInt (ss0 (g_tss t2))])]\<rparr>)"

definition tss_set_kernel_stack :: "u32 \<Rightarrow> tables \<Rightarrow> tables" where
  "tss_set_kernel_stack stack t = t\<lparr>g_tss := (g_tss t)\<lparr>esp0 := stack\<rparr>\<rparr>"

section \<open>The interrupt descriptor table\<close>

definition lidt :: "table_reg \<Rightarrow> tables \<Rightarrow> tables" where
  "lidt r t = t\<lparr>cpu := (cpu t)\<lparr>c_idtr := r\<rparr>\<rparr>"

definition idt_set_gate :: "u8 \<Rightarrow> u32 \<Rightarrow> u16 \<Rightarrow> u8 \<Rightarrow> tables \<Rightarrow> tables" where
  "idt_set_gate vector handler sel attr t =
     t\<lparr>idt := (idt t)[unat vector :=
       \<lparr>offset_low = ucast (handler AND 0xFFFF), selector = sel, zero = 0, type_attr = attr,
        offset_high = ucast (drop_bit 16 handler AND 0xFFFF)\<rparr>]\<rparr>"

definition zero_gate :: idt_entry where
  "zero_gate = \<lparr>offset_low = 0, selector = 0, zero = 0, type_attr = 0, offset_high = 0\<rparr>"

definition INT_GATE :: u8 where "INT_GATE = 0x8E"

text \<open>The 32 exception gates and the 16 interrupt gates, in the order of the calls.\<close>

definition idt_init :: "link \<Rightarrow> tables \<Rightarrow> tables" where
  "idt_init l t =
     (let t0 = t\<lparr>idt := replicate 256 zero_gate\<rparr>;
          t1 = fold (\<lambda>v. idt_set_gate (of_nat v) (isr_stub l v) GDT_KERNEL_CODE_SEL INT_GATE) [0..<32] t0;
          t2 = fold (\<lambda>i. idt_set_gate (of_nat (0x20 + i)) (irq_stub l i) GDT_KERNEL_CODE_SEL INT_GATE) [0..<16] t1
      in lidt \<lparr>tr_limit = of_nat (8 * length (idt t2) - 1), tr_base = addr_idt l\<rparr> t2)"

section \<open>What the processor reads\<close>

definition desc_base :: "gdt_entry \<Rightarrow> u32" where
  "desc_base e = ucast (base_low e) OR push_bit 16 (ucast (base_mid e)) OR push_bit 24 (ucast (base_high e))"

definition desc_limit :: "gdt_entry \<Rightarrow> u32" where
  "desc_limit e = ucast (limit_low e) OR push_bit 16 (ucast (gran e AND 0x0F))"

text \<open>The last byte of a segment, as an offset: the limit counts pages when the granularity bit is
  set.\<close>

definition desc_last :: "gdt_entry \<Rightarrow> u32" where
  "desc_last e = (if bit (gran e) 7 then push_bit 12 (desc_limit e) OR 0xFFF else desc_limit e)"

definition desc_present :: "gdt_entry \<Rightarrow> bool" where "desc_present e \<longleftrightarrow> bit (access e) 7"
definition desc_dpl :: "gdt_entry \<Rightarrow> u8" where "desc_dpl e = drop_bit 5 (access e) AND 3"
definition desc_code :: "gdt_entry \<Rightarrow> bool" where "desc_code e \<longleftrightarrow> access e AND 0x18 = 0x18"
definition desc_writable :: "gdt_entry \<Rightarrow> bool" where "desc_writable e \<longleftrightarrow> access e AND 0x1A = 0x12"

definition sel_index :: "u16 \<Rightarrow> nat" where "sel_index s = unat (drop_bit 3 s)"
definition sel_rpl :: "u16 \<Rightarrow> u16" where "sel_rpl s = s AND 3"

definition gate_offset :: "idt_entry \<Rightarrow> u32" where
  "gate_offset g = ucast (offset_low g) OR push_bit 16 (ucast (offset_high g))"

definition gate_present :: "idt_entry \<Rightarrow> bool" where "gate_present g \<longleftrightarrow> bit (type_attr g) 7"

definition mk_desc :: "u32 \<Rightarrow> u32 \<Rightarrow> u8 \<Rightarrow> u8 \<Rightarrow> gdt_entry" where
  "mk_desc base limit acc flags =
     \<lparr>limit_low = ucast (limit AND 0xFFFF), base_low = ucast (base AND 0xFFFF),
      base_mid = ucast (drop_bit 16 base AND 0xFF), access = acc,
      gran = (flags AND 0xF0) OR ucast (drop_bit 16 limit AND 0x0F),
      base_high = ucast (drop_bit 24 base AND 0xFF)\<rparr>"

lemma gdt_set_entry_eq: "gdt (gdt_set_entry idx base limit acc flags t) = (gdt t)[idx := mk_desc base limit acc flags]"
  by (simp add: gdt_set_entry_def mk_desc_def)

lemma masks_16: "(0xFFFF :: u32) = mask 16" "(0xFF :: u32) = mask 8" "(0x0F :: u32) = mask 4"
  "(0xFFFFF :: u32) = mask 20" "(0x0F :: u8) = mask 4" "(0xF0 :: u8) = NOT (mask 4)" "(0xFF :: u8) = mask 8"
  by (simp_all add: mask_eq_exp_minus_1)

lemma desc_reads:
  "desc_base (mk_desc base limit acc flags) = base"
  "desc_limit (mk_desc base limit acc flags) = limit AND 0xFFFFF"
  "access (mk_desc base limit acc flags) = acc"
  "gran (mk_desc base limit acc flags) AND 0xF0 = flags AND 0xF0"
proof -
  show "desc_base (mk_desc base limit acc flags) = base"
    unfolding desc_base_def mk_desc_def gdt_entry.simps masks_16
  proof (rule bit_word_eqI)
    fix n assume "n < LENGTH(32)"
    then show "bit (ucast (ucast (base AND mask 16) :: u16) OR
        push_bit 16 (ucast (ucast (drop_bit 16 base AND mask 8) :: u8)) OR
        push_bit 24 (ucast (ucast (drop_bit 24 base AND mask 8) :: u8)) :: u32) n = bit base n"
      by (cases "n < 16"; cases "n < 24") (auto simp: bit_simps not_less)
  qed
  show "desc_limit (mk_desc base limit acc flags) = limit AND 0xFFFFF"
    unfolding desc_limit_def mk_desc_def gdt_entry.simps masks_16
    by (rule bit_word_eqI) (auto simp: bit_simps not_less)
  show "gran (mk_desc base limit acc flags) AND 0xF0 = flags AND 0xF0"
    unfolding mk_desc_def gdt_entry.simps masks_16
    by (rule bit_word_eqI) (auto simp: bit_simps not_less)
qed (simp add: mk_desc_def)

lemma gate_reads:
  "gate_offset \<lparr>offset_low = ucast (handler AND 0xFFFF), selector = sel, zero = 0, type_attr = attr,
     offset_high = ucast (drop_bit 16 handler AND 0xFFFF)\<rparr> = handler"
  unfolding gate_offset_def idt_entry.simps masks_16
  by (rule bit_word_eqI, auto simp: bit_simps)

section \<open>The tables after initialisation\<close>

lemma gdt_after_init:
  assumes "length (gdt t) = 6"
  shows "gdt (tss_init l (gdt_init l t)) =
    [mk_desc 0 0 0 0, mk_desc 0 0xFFFFF 0x9A 0xC0, mk_desc 0 0xFFFFF 0x92 0xC0, mk_desc 0 0xFFFFF 0xFA 0xC0,
     mk_desc 0 0xFFFFF 0xF2 0xC0, mk_desc (addr_tss l) 103 0x89 0]"
proof -
  obtain a b c d e f where g: "gdt t = [a, b, c, d, e, f]"
    using assms by (auto simp: length_Suc_conv eval_nat_numeral)
  show ?thesis
    by (simp add: tss_init_def gdt_init_def gdt_flush_def ltr_def gdt_set_tss_entry_def gdt_set_entry_def
        mk_desc_def Let_def g TSS_SIZE_def)
qed

lemma fold_gates:
  assumes "k + n \<le> 256" "length (idt t) = 256"
  shows "length (idt (fold (\<lambda>i. idt_set_gate (of_nat (k + i)) (h i) sel attr) [0..<n] t)) = 256 \<and>
    (\<forall>v < 256. idt (fold (\<lambda>i. idt_set_gate (of_nat (k + i)) (h i) sel attr) [0..<n] t) ! v =
      (if k \<le> v \<and> v < k + n
       then \<lparr>offset_low = ucast (h (v - k) AND 0xFFFF), selector = sel, zero = 0, type_attr = attr,
          offset_high = ucast (drop_bit 16 (h (v - k)) AND 0xFFFF)\<rparr>
       else idt t ! v))"
  using assms(1)
proof (induction n)
  case (Suc n)
  have "unat (of_nat (k + n) :: u8) = k + n" using Suc.prems by (simp add: unat_of_nat del: of_nat_add)
  with Suc show ?case by (auto simp: idt_set_gate_def nth_list_update)
qed (auto simp: assms(2))

lemma idt_init_gate:
  assumes "v < 256"
  shows "idt (idt_init l t) ! v =
    (if v < 48
     then (let h = (if v < 32 then isr_stub l v else irq_stub l (v - 32)) in
       \<lparr>offset_low = ucast (h AND 0xFFFF), selector = GDT_KERNEL_CODE_SEL, zero = 0, type_attr = INT_GATE,
        offset_high = ucast (drop_bit 16 h AND 0xFFFF)\<rparr>)
     else zero_gate)" and "length (idt (idt_init l t)) = 256"
proof -
  let ?t0 = "t\<lparr>idt := replicate 256 zero_gate\<rparr>"
  let ?t1 = "fold (\<lambda>v. idt_set_gate (of_nat v) (isr_stub l v) GDT_KERNEL_CODE_SEL INT_GATE) [0..<32] ?t0"
  note 1 = fold_gates [where k = 0 and n = 32 and t = ?t0 and h = "isr_stub l" and sel = GDT_KERNEL_CODE_SEL
      and attr = INT_GATE]
  note 2 = fold_gates [where k = 32 and n = 16 and t = ?t1 and h = "irq_stub l" and sel = GDT_KERNEL_CODE_SEL
      and attr = INT_GATE]
  have len: "length (idt ?t1) = 256" using 1 by simp
  have idt: "idt (idt_init l t) =
      idt (fold (\<lambda>i. idt_set_gate (of_nat (0x20 + i)) (irq_stub l i) GDT_KERNEL_CODE_SEL INT_GATE) [0..<16] ?t1)"
    by (simp add: idt_init_def lidt_def Let_def del: upt_rec_numeral)
  show "length (idt (idt_init l t)) = 256" unfolding idt using 2 len by simp
  show "idt (idt_init l t) ! v =
    (if v < 48
     then (let h = (if v < 32 then isr_stub l v else irq_stub l (v - 32)) in
       \<lparr>offset_low = ucast (h AND 0xFFFF), selector = GDT_KERNEL_CODE_SEL, zero = 0, type_attr = INT_GATE,
        offset_high = ucast (drop_bit 16 h AND 0xFFFF)\<rparr>)
     else zero_gate)"
    unfolding idt using 1 2 len assms by (simp add: Let_def del: upt_rec_numeral)
qed

section \<open>Properties\<close>

text \<open>The segment that a selector names, as a program of the ring of that selector sees it.\<close>

definition flat_segment :: "tables \<Rightarrow> u16 \<Rightarrow> u8 \<Rightarrow> bool \<Rightarrow> bool" where
  "flat_segment t sel ring code \<longleftrightarrow>
     (let e = gdt t ! sel_index sel in
      desc_present e \<and> desc_base e = 0 \<and> desc_last e = 0xFFFFFFFF \<and> desc_dpl e = ring \<and>
      ucast (sel_rpl sel) = ring \<and> (if code then desc_code e else desc_writable e))"

text \<open>C36. After \<open>gdt_init\<close> and \<open>tss_init\<close> the four selectors of the kernel name flat segments over the
  whole address space, code and writable data for ring 0 and for ring 3, with a requested privilege
  level that is the segment's; the null descriptor is absent; the processor runs on the kernel's
  selectors with a table register that covers the six descriptors; the task register names a
  descriptor of exactly the task state segment, whose ring 0 stack is the kernel's data segment and
  the top of the kernel stack, and whose port permission map lies beyond its limit, so that ring 3 has
  no ports.\<close>

theorem segments_ready:
  assumes "length (gdt t0) = 6"
  shows "let t = tss_init l (gdt_init l t0); ts = gdt t ! sel_index (c_tr (cpu t)) in
    flat_segment t GDT_KERNEL_CODE_SEL 0 True \<and> flat_segment t GDT_KERNEL_DATA_SEL 0 False \<and>
    flat_segment t GDT_USER_CODE_SEL 3 True \<and> flat_segment t GDT_USER_DATA_SEL 3 False \<and>
    \<not> desc_present (gdt t ! 0) \<and>
    c_cs (cpu t) = GDT_KERNEL_CODE_SEL \<and> c_ss (cpu t) = GDT_KERNEL_DATA_SEL \<and> c_data (cpu t) = GDT_KERNEL_DATA_SEL \<and>
    c_gdtr (cpu t) = \<lparr>tr_limit = 47, tr_base = addr_gdt l\<rparr> \<and>
    desc_base ts = addr_tss l \<and> desc_last ts = TSS_SIZE - 1 \<and> access ts = 0x89 \<and>
    ss0 (g_tss t) = ucast GDT_KERNEL_DATA_SEL \<and> esp0 (g_tss t) = stack_top l \<and>
    desc_last ts < ucast (iomap_base (g_tss t))"
proof -
  let ?t = "tss_init l (gdt_init l t0)"
  have flat: "desc_present (mk_desc 0 0xFFFFF a 0xC0) \<longleftrightarrow> bit a 7"
    "desc_last (mk_desc 0 0xFFFFF a 0xC0) = 0xFFFFFFFF"
    "desc_dpl (mk_desc 0 0xFFFFF a 0xC0) = drop_bit 5 a AND 3"
    "desc_code (mk_desc 0 0xFFFFF a 0xC0) \<longleftrightarrow> a AND 0x18 = 0x18"
    "desc_writable (mk_desc 0 0xFFFFF a 0xC0) \<longleftrightarrow> a AND 0x1A = 0x12" for a
    by (simp_all add: desc_present_def desc_last_def desc_dpl_def desc_code_def desc_writable_def desc_reads(3))
      (simp add: mk_desc_def desc_limit_def)
  have sel: "sel_index 0x08 = 1" "sel_index 0x10 = 2" "sel_index 0x1B = 3" "sel_index 0x23 = 4" "sel_index 0x28 = 5"
    by (simp_all add: sel_index_def)
  have tr: "c_tr (cpu ?t) = 0x28" "c_cs (cpu ?t) = 0x08" "c_ss (cpu ?t) = 0x10" "c_data (cpu ?t) = 0x10"
    "c_gdtr (cpu ?t) = \<lparr>tr_limit = 47, tr_base = addr_gdt l\<rparr>"
    "ss0 (g_tss ?t) = 0x10" "esp0 (g_tss ?t) = stack_top l" "iomap_base (g_tss ?t) = 104"
    using assms
    by (simp_all add: tss_init_def gdt_init_def gdt_flush_def ltr_def gdt_set_tss_entry_def gdt_set_entry_def
        Let_def selectors TSS_SIZE_def)
  have ts: "desc_last (mk_desc (addr_tss l) 103 0x89 0) = 103"
    by (simp add: desc_last_def desc_reads) (simp add: mk_desc_def)
  show ?thesis
    unfolding Let_def tr gdt_after_init [OF assms] flat_segment_def selectors sel
    by (simp add: flat ts desc_reads TSS_SIZE_def sel_rpl_def) (simp add: desc_present_def desc_reads(3))
qed

definition sample_link :: link where
  "sample_link = \<lparr>addr_gdt = 0xC0110000, addr_idt = 0xC0110100, addr_tss = 0xC0110900,
     stack_top = 0xC0114000, isr_stub = (\<lambda>v. 0xC0101000 + of_nat (16 * v)), irq_stub = (\<lambda>i. 0xC0102000 + of_nat (16 * i))\<rparr>"

definition sample_tables :: tables where
  "sample_tables = \<lparr>gdt = replicate 6 (mk_desc 0 0 0 0), g_tss = zero_tss, idt = replicate 256 zero_gate,
     cpu = \<lparr>c_gdtr = \<lparr>tr_limit = 0, tr_base = 0\<rparr>, c_idtr = \<lparr>tr_limit = 0, tr_base = 0\<rparr>, c_tr = 0,
       c_cs = 0x10, c_ss = 0x18, c_data = 0x18\<rparr>, t_log = []\<rparr>"

theorem segments_ready_witness:
  "desc_base (gdt (tss_init sample_link (gdt_init sample_link sample_tables)) !
     sel_index (c_tr (cpu (tss_init sample_link (gdt_init sample_link sample_tables))))) = 0xC0110900"
  using segments_ready [of sample_tables sample_link]
  by (simp add: sample_tables_def sample_link_def Let_def)

text \<open>After \<open>idt_init\<close> exactly the 32 exception vectors and the 16 interrupt vectors have a gate, and
  each leads to the entry point of its vector: a present 32-bit interrupt gate into the kernel's code
  segment that ring 3 cannot raise by itself.\<close>

theorem idt_routes_vectors:
  "let t = idt_init l t0 in length (idt t) = 256 \<and>
     c_idtr (cpu t) = \<lparr>tr_limit = 2047, tr_base = addr_idt l\<rparr> \<and>
     (\<forall>v < 256. gate_present (idt t ! v) = (v < 48) \<and>
       (v < 32 \<longrightarrow> gate_offset (idt t ! v) = isr_stub l v) \<and>
       (32 \<le> v \<and> v < 48 \<longrightarrow> gate_offset (idt t ! v) = irq_stub l (v - 32)) \<and>
       (v < 48 \<longrightarrow> selector (idt t ! v) = GDT_KERNEL_CODE_SEL \<and> type_attr (idt t ! v) = 0x8E))"
proof -
  have "c_idtr (cpu (idt_init l t0)) = \<lparr>tr_limit = 2047, tr_base = addr_idt l\<rparr>"
    using idt_init_gate(2) [of 0 l t0] by (simp add: idt_init_def lidt_def Let_def del: upt_rec_numeral)
  moreover have "bit INT_GATE 7" by (simp add: INT_GATE_def)
  ultimately show ?thesis
    using idt_init_gate(1) [of _ l t0] idt_init_gate(2) [of 0 l t0]
    by (simp add: Let_def gate_reads gate_present_def INT_GATE_def zero_gate_def)
qed

theorem idt_routes_vectors_witness:
  "gate_offset (idt (idt_init sample_link sample_tables) ! 14) = 0xC01010E0"
  using idt_routes_vectors [of sample_link sample_tables] by (simp add: Let_def sample_link_def)

end
