(* ===== verification/Traps.thy ===== *)
theory Traps
  imports Cpu_Tables Vma_Sorted_Array
begin

text \<open>
  Exceptions (\<open>idt.c\<close>, its second half): the report that is printed, with the memory area that a
  faulting address belongs to, and whether the interrupted program goes on. The address that the
  processor leaves in CR2 is an argument.
\<close>

text \<open>The frame that the assembly stubs build; the last two fields exist when the exception came from
  ring 3.\<close>

record regs = irq_regs +
  user_esp :: u32
  user_ss :: u32

datatype outcome = Returns | Halts

definition exception_name :: "u32 \<Rightarrow> string" where
  "exception_name v =
     (if v = 0 then ''#DE Divide Error''
      else if v = 1 then ''#DB Debug''
      else if v = 2 then ''NMI''
      else if v = 3 then ''#BP Breakpoint''
      else if v = 4 then ''#OF Overflow''
      else if v = 5 then ''#BR BOUND Range''
      else if v = 6 then ''#UD Invalid Opcode''
      else if v = 7 then ''#NM Device Not Available''
      else if v = 8 then ''#DF Double Fault''
      else if v = 9 then ''Coprocessor Segment Overrun''
      else if v = 10 then ''#TS Invalid TSS''
      else if v = 11 then ''#NP Segment Not Present''
      else if v = 12 then ''#SS Stack-Segment Fault''
      else if v = 13 then ''#GP General Protection''
      else if v = 14 then ''#PF Page Fault''
      else if v = 15 then ''Reserved''
      else if v = 16 then ''#MF x87 FPU Floating-Point''
      else if v = 17 then ''#AC Alignment Check''
      else if v = 18 then ''#MC Machine Check''
      else if v = 19 then ''#XM SIMD Floating-Point''
      else ''CPU Exception'')"

definition flag_char :: "u32 \<Rightarrow> u32 \<Rightarrow> char \<Rightarrow> karg" where
  "flag_char flags flag c = kchar (if flags AND flag \<noteq> 0 then c else CHR ''-'')"

definition msg_no_vma :: "u32 \<Rightarrow> string \<times> karg list" where
  "msg_no_vma addr = (''VMA: no VMA covers 0x%08x (invalid access)\<newline>'', [KInt addr])"

definition msg_write :: "string \<times> karg list" where
  "msg_write = (''  -> WRITE to read-only VMA!\<newline>'', [])"

definition msg_exec :: "string \<times> karg list" where
  "msg_exec = (''  -> EXEC in non-executable VMA!\<newline>'', [])"

definition msg_demand :: "string \<times> karg list" where
  "msg_demand = (''  -> Page not present in valid VMA (demand paging candidate)\<newline>'', [])"

definition msg_area :: "vm_area \<Rightarrow> string \<times> karg list" where
  "msg_area a = (''VMA: [0x%08x, 0x%08x) '' @ [CHR 0x27] @ ''%s'' @ [CHR 0x27] @ '' flags=%c%c%c\<newline>'',
     [KInt (va_start a), KInt (va_end a), KStr (Some (case va_name a of None \<Rightarrow> ''?'' | Some n \<Rightarrow> n)),
      flag_char (va_flags a) VMA_READ (CHR ''r''), flag_char (va_flags a) VMA_WRITE (CHR ''w''),
      flag_char (va_flags a) VMA_EXEC (CHR ''x'')])"

text \<open>The part of the report that the memory areas decide.\<close>

definition fault_vma_report :: "'s vma_state \<Rightarrow> u32 \<Rightarrow> u32 \<Rightarrow> klog" where
  "fault_vma_report v fault_addr err =
     (if vma_is_ready v then
        (case vma_find v fault_addr of
           Some a \<Rightarrow>
             [msg_area a] @
             (if err AND 0x02 \<noteq> 0 \<and> va_flags a AND VMA_WRITE = 0 then [msg_write] else []) @
             (if err AND 0x10 \<noteq> 0 \<and> va_flags a AND VMA_EXEC = 0 then [msg_exec] else []) @
             (if err AND 0x01 = 0 then [msg_demand] else [])
         | None \<Rightarrow> [msg_no_vma fault_addr])
      else [])"

definition page_fault_handler :: "'s vma_state \<Rightarrow> u32 \<Rightarrow> regs \<Rightarrow> klog" where
  "page_fault_handler v cr2 r =
     (let fault_addr = cr2; err = r_err_code r in
      say ''\<newline>======== PAGE FAULT ========\<newline>'' @
      [(''Faulting address (CR2): 0x%08x\<newline>'', [KInt fault_addr])] @
      [(''Error code: 0x%08x\<newline>'', [KInt err])] @
      [(''  %s\<newline>'', [KStr (Some (if err AND 0x01 \<noteq> 0 then ''Protection violation (page present)''
          else ''Page not present''))])] @
      [(''  Caused by: %s\<newline>'', [KStr (Some (if err AND 0x02 \<noteq> 0 then ''write'' else ''read''))])] @
      [(''  CPU mode:  %s\<newline>'', [KStr (Some (if err AND 0x04 \<noteq> 0 then ''user (Ring 3)''
          else ''kernel (Ring 0)''))])] @
      (if err AND 0x08 \<noteq> 0 then say ''  Reserved bit set in page table entry!\<newline>'' else []) @
      (if err AND 0x10 \<noteq> 0 then say ''  Caused by instruction fetch\<newline>'' else []) @
      [(''EIP: 0x%08x\<newline>'', [KInt (r_eip r)])] @
      fault_vma_report v fault_addr err @
      say ''============================\<newline>'')"

definition isr_handler_c :: "'s vma_state \<Rightarrow> u32 \<Rightarrow> regs \<Rightarrow> klog \<Rightarrow> outcome \<times> klog" where
  "isr_handler_c v cr2 r log =
     (if r_int_no r = 14
      then (Halts, log @ page_fault_handler v cr2 r @ say ''Kernel panic: #PF Page Fault\<newline>'')
      else
        (let log1 = log @ [(''\<newline>[isr] %s vector=%u err=0x%08x eip=0x%08x\<newline>'',
               [KStr (Some (exception_name (r_int_no r))), KInt (r_int_no r), KInt (r_err_code r), KInt (r_eip r)])];
             log2 = (if r_cs r AND 0x3 = 3
               then log1 @ say ''[isr] Fault from Ring 3 (user mode)\<newline>'' @
                 [(''[isr] User CS=0x%04x  SS=0x%04x  ESP=0x%08x\<newline>'',
                   [KInt (r_cs r), KInt (user_ss r), KInt (user_esp r)])]
               else log1)
         in if r_int_no r = 3 then (Returns, log2)
            else (Halts, log2 @ say ''Kernel panic: '' @
              [(''%s\<newline>'', [KStr (Some (exception_name (r_int_no r)))])])))"

section \<open>Properties\<close>

lemma messages_differ:
  "msg_no_vma x \<noteq> msg_write" "msg_no_vma x \<noteq> msg_exec" "msg_no_vma x \<noteq> msg_demand" "msg_no_vma x \<noteq> msg_area a"
  "msg_write \<noteq> msg_exec" "msg_write \<noteq> msg_demand" "msg_write \<noteq> msg_area a" "msg_exec \<noteq> msg_demand"
  "msg_exec \<noteq> msg_area a" "msg_demand \<noteq> msg_area a"
  by (simp_all add: msg_no_vma_def msg_write_def msg_exec_def msg_demand_def msg_area_def)

definition other_lines :: "klog \<Rightarrow> bool" where
  "other_lines log \<longleftrightarrow> (\<forall>x a. msg_no_vma x \<notin> set log \<and> msg_area a \<notin> set log) \<and>
     msg_write \<notin> set log \<and> msg_exec \<notin> set log \<and> msg_demand \<notin> set log"

text \<open>The messages about areas come from one place only.\<close>

lemma fault_lines:
  assumes "r_int_no r = 14"
  shows "\<exists>a b. snd (isr_handler_c v cr2 r []) = a @ fault_vma_report v cr2 (r_err_code r) @ b \<and>
    other_lines a \<and> other_lines b"
proof -
  let ?err = "r_err_code r"
  let ?a = "say ''\<newline>======== PAGE FAULT ========\<newline>'' @
      [(''Faulting address (CR2): 0x%08x\<newline>'', [KInt cr2])] @
      [(''Error code: 0x%08x\<newline>'', [KInt ?err])] @
      [(''  %s\<newline>'', [KStr (Some (if ?err AND 0x01 \<noteq> 0 then ''Protection violation (page present)''
          else ''Page not present''))])] @
      [(''  Caused by: %s\<newline>'', [KStr (Some (if ?err AND 0x02 \<noteq> 0 then ''write'' else ''read''))])] @
      [(''  CPU mode:  %s\<newline>'', [KStr (Some (if ?err AND 0x04 \<noteq> 0 then ''user (Ring 3)''
          else ''kernel (Ring 0)''))])] @
      (if ?err AND 0x08 \<noteq> 0 then say ''  Reserved bit set in page table entry!\<newline>'' else []) @
      (if ?err AND 0x10 \<noteq> 0 then say ''  Caused by instruction fetch\<newline>'' else []) @
      [(''EIP: 0x%08x\<newline>'', [KInt (r_eip r)])]"
  let ?b = "say ''============================\<newline>'' @ say ''Kernel panic: #PF Page Fault\<newline>''"
  have "snd (isr_handler_c v cr2 r []) = ?a @ fault_vma_report v cr2 ?err @ ?b"
    using assms by (simp add: isr_handler_c_def page_fault_handler_def Let_def)
  moreover have "other_lines ?a" "other_lines ?b"
    by (auto simp: other_lines_def msg_no_vma_def msg_write_def msg_exec_def msg_demand_def msg_area_def)
  ultimately show ?thesis by blast
qed

text \<open>Of all exceptions only the breakpoint returns to the interrupted program; every other one halts.
  The report of a page fault places the address in the memory areas of the kernel: it says that no area
  covers it exactly when none does; otherwise it names the one that does, reports a write or an
  instruction fetch that the area forbids exactly when that is the fault, and offers the page for demand
  paging exactly when it was not present.\<close>

theorem trap_report:
  assumes "g_vma_ops v = Some sa_ops" "g_vma_ready v" "sa_inv (vma_data v)"
  shows "(\<forall>r log. fst (isr_handler_c v cr2 r log) = Returns \<longleftrightarrow> r_int_no r = 3) \<and>
    (\<forall>r. r_int_no r = 14 \<longrightarrow>
      (let report = set (snd (isr_handler_c v cr2 r [])); err = r_err_code r; areas = set (sa_areas (vma_data v)) in
       (msg_no_vma cr2 \<in> report \<longleftrightarrow> (\<forall>a \<in> areas. \<not> vma_contains cr2 a)) \<and>
       (\<forall>a \<in> areas. vma_contains cr2 a \<longrightarrow>
          msg_area a \<in> report \<and>
          (msg_write \<in> report \<longleftrightarrow> err AND 0x02 \<noteq> 0 \<and> va_flags a AND VMA_WRITE = 0) \<and>
          (msg_exec \<in> report \<longleftrightarrow> err AND 0x10 \<noteq> 0 \<and> va_flags a AND VMA_EXEC = 0) \<and>
          (msg_demand \<in> report \<longleftrightarrow> err AND 0x01 = 0))))"
proof (intro conjI allI impI)
  fix r :: regs and log
  show "fst (isr_handler_c v cr2 r log) = Returns \<longleftrightarrow> r_int_no r = 3"
    by (simp add: isr_handler_c_def Let_def)
next
  fix r :: regs
  assume pf: "r_int_no r = 14"
  obtain a b where out: "snd (isr_handler_c v cr2 r []) = a @ fault_vma_report v cr2 (r_err_code r) @ b"
    and lines: "other_lines a" "other_lines b" using fault_lines [OF pf, of v cr2] by blast
  have wf: "vma_wf (sa_areas (vma_data v))" using assms(3) by (rule sa.inv_wf)
  have find: "vma_find v cr2 = vma_spec_find (sa_areas (vma_data v)) cr2"
    using assms sa.find_areas [OF assms(3)] by (simp add: vma_find_def sa_ops_def)
  have ready: "vma_is_ready v" using assms(2) by (simp add: vma_is_ready_def)
  show "let report = set (snd (isr_handler_c v cr2 r [])); err = r_err_code r; areas = set (sa_areas (vma_data v)) in
       (msg_no_vma cr2 \<in> report \<longleftrightarrow> (\<forall>a \<in> areas. \<not> vma_contains cr2 a)) \<and>
       (\<forall>a \<in> areas. vma_contains cr2 a \<longrightarrow>
          msg_area a \<in> report \<and>
          (msg_write \<in> report \<longleftrightarrow> err AND 0x02 \<noteq> 0 \<and> va_flags a AND VMA_WRITE = 0) \<and>
          (msg_exec \<in> report \<longleftrightarrow> err AND 0x10 \<noteq> 0 \<and> va_flags a AND VMA_EXEC = 0) \<and>
          (msg_demand \<in> report \<longleftrightarrow> err AND 0x01 = 0))"
  proof (cases "vma_spec_find (sa_areas (vma_data v)) cr2")
    case None
    then have no: "\<forall>a \<in> set (sa_areas (vma_data v)). \<not> vma_contains cr2 a" by (simp add: vma_spec_find_None)
    have "fault_vma_report v cr2 (r_err_code r) = [msg_no_vma cr2]"
      using None ready by (simp add: fault_vma_report_def find)
    then show ?thesis using no by (simp add: out Let_def)
  next
    case (Some c)
    then have c: "c \<in> set (sa_areas (vma_data v))" "vma_contains cr2 c"
      using vma_spec_find_Some [OF wf] by auto
    have only: "x = c" if "x \<in> set (sa_areas (vma_data v))" "vma_contains cr2 x" for x
      using vma_wf_unique [OF wf that(1) c(1) that(2) c(2)] .
    have rep: "fault_vma_report v cr2 (r_err_code r) = [msg_area c] @
        (if r_err_code r AND 0x02 \<noteq> 0 \<and> va_flags c AND VMA_WRITE = 0 then [msg_write] else []) @
        (if r_err_code r AND 0x10 \<noteq> 0 \<and> va_flags c AND VMA_EXEC = 0 then [msg_exec] else []) @
        (if r_err_code r AND 0x01 = 0 then [msg_demand] else [])"
      using Some ready by (simp add: fault_vma_report_def find)
    let ?out = "set (snd (isr_handler_c v cr2 r []))" and ?err = "r_err_code r"
    have no: "m \<in> ?out \<longleftrightarrow> m \<in> set (fault_vma_report v cr2 ?err)"
      if "m \<in> {msg_no_vma cr2, msg_area c, msg_write, msg_exec, msg_demand}" for m
      using lines that unfolding out other_lines_def by auto
    have "msg_no_vma cr2 \<notin> ?out" "msg_area c \<in> ?out"
      "msg_write \<in> ?out \<longleftrightarrow> ?err AND 0x02 \<noteq> 0 \<and> va_flags c AND VMA_WRITE = 0"
      "msg_exec \<in> ?out \<longleftrightarrow> ?err AND 0x10 \<noteq> 0 \<and> va_flags c AND VMA_EXEC = 0"
      "msg_demand \<in> ?out \<longleftrightarrow> ?err AND 0x01 = 0"
      by (simp_all add: no rep messages_differ messages_differ [symmetric])
    then show ?thesis unfolding Let_def using c only by metis
  qed
qed

text \<open>A kernel with one read-only area, and a write into it.\<close>

definition sample_vma_data :: sa_state where
  "sample_vma_data = \<lparr>g_areas = replicate 256 (mk_area 0 0 0 None), g_count = 0\<rparr>"

definition sample_areas :: "sa_state vma_state" where
  "sample_areas = snd (vma_add (vma_init (vma_register_backend (Some sa_ops)
     \<lparr>g_vma_ops = None, g_vma_ready = False, vma_data = sample_vma_data\<rparr>))
     0x400000 0x401000 VMA_READ (Some ''user-code''))"

definition sample_fault :: regs where
  "sample_fault = \<lparr>r_gs = 0x23, r_fs = 0x23, r_es = 0x23, r_ds = 0x23, r_edi = 0, r_esi = 0, r_ebp = 0,
     r_esp = 0, r_ebx = 0, r_edx = 0, r_ecx = 0, r_eax = 0, r_int_no = 14, r_err_code = 7, r_eip = 0x400000,
     r_cs = 0x1B, r_eflags = 0x202, user_esp = 0x402000, user_ss = 0x23\<rparr>"

lemma sample_areas_ok:
  "g_vma_ops sample_areas = Some sa_ops" "g_vma_ready sample_areas" "sa_inv (vma_data sample_areas)"
  "sa_areas (vma_data sample_areas) = [mk_area 0x400000 0x401000 VMA_READ (Some ''user-code'')]"
proof -
  have st: "sa_storage sample_vma_data" by (simp add: sa_storage_def sample_vma_data_def VMA_MAX_AREAS_def)
  let ?d = "sa_init sample_vma_data"
  let ?add = "sa_add ?d 0x400000 0x401000 VMA_READ (Some ''user-code'')"
  have v: "sample_areas = \<lparr>g_vma_ops = Some sa_ops, g_vma_ready = True, vma_data = snd ?add\<rparr>"
    by (simp add: sample_areas_def vma_init_def vma_register_backend_def vma_add_def sa_ops_def split: prod.split)
  show "g_vma_ops sample_areas = Some sa_ops" "g_vma_ready sample_areas" unfolding v by simp_all
  show "sa_inv (vma_data sample_areas)"     unfolding v vma_state.select_convs by (rule sa.add_inv [OF sa.init_inv [OF st]])
  have "map_prod id sa_areas ?add = vma_spec_add VMA_MAX_AREAS [] 0x400000 0x401000 VMA_READ (Some ''user-code'')"
    using sa.add_areas [OF sa.init_inv [OF st]] sa.init_areas [OF st] by simp
  also have "\<dots> = (0, [mk_area 0x400000 0x401000 VMA_READ (Some ''user-code'')])"
    by (simp add: vma_spec_add_def VMA_MAX_AREAS_def vma_range_ok_def page_aligned_def)
  finally show "sa_areas (vma_data sample_areas) = [mk_area 0x400000 0x401000 VMA_READ (Some ''user-code'')]"
    unfolding v vma_state.select_convs by (metis snd_conv snd_map_prod)
qed

theorem trap_report_witness:
  "msg_write \<in> set (snd (isr_handler_c sample_areas 0x400010 sample_fault [])) \<and>
   msg_no_vma 0x400010 \<notin> set (snd (isr_handler_c sample_areas 0x400010 sample_fault []))"
proof -
  have "r_int_no sample_fault = 14" "r_err_code sample_fault = 7" by (simp_all add: sample_fault_def)
  moreover have "vma_contains 0x400010 (mk_area 0x400000 0x401000 VMA_READ (Some ''user-code''))"
    by (simp add: vma_contains_def)
  ultimately show ?thesis
    using conjunct2 [OF trap_report [OF sample_areas_ok(1-3), of "0x400010"]]
    by (simp add: Let_def sample_areas_ok(4) VMA_READ_def VMA_WRITE_def)
qed

end
