(* ===== verification/Mmap.thy ===== *)
theory Mmap
  imports Boot_Map Irq
begin

text \<open>
  The printer of the boot loader's memory map (\<open>mmap.c\<close>): it walks the entries of the memory map tag,
  prints each, and names the largest usable region above the first megabyte. The search for the tag is
  the one of \<open>Mb2\<close>.
\<close>

section \<open>The program\<close>

definition printk_hex_u64 :: "u64 \<Rightarrow> klog" where
  "printk_hex_u64 v =
     (let hi = ucast (drop_bit 32 v) :: u32; lo = ucast (v AND 0xFFFFFFFF) :: u32
      in [(''0x%x%08x'', [KInt hi, KInt lo])])"

definition printk_hex_range :: "u64 \<Rightarrow> u64 \<Rightarrow> klog" where
  "printk_hex_range start en =
     (if drop_bit 32 start = 0 \<and> drop_bit 32 en = 0 then [(''0x%x - 0x%x'', [KInt (ucast start), KInt (ucast en)])]
      else printk_hex_u64 start @ say '' - '' @ printk_hex_u64 en)"

record avail_region =
  ar_start :: u64
  ar_end :: u64
  ar_bytes :: u64

definition avail_region_consider :: "avail_region \<Rightarrow> u64 \<Rightarrow> u64 \<Rightarrow> avail_region" where
  "avail_region_consider best start en =
     (if en \<le> start then best
      else
        (let bytes = en - start in
         if ar_bytes best < bytes then best\<lparr>ar_bytes := bytes, ar_start := start, ar_end := en\<rparr> else best))"

text \<open>Sizes in megabytes, rounded up.\<close>

definition mib_up :: "u64 \<Rightarrow> u32" where
  "mib_up n = ucast (drop_bit 20 (n + push_bit 20 1 - 1))"

text \<open>The body of the loop over the entries.\<close>

definition mmap_entry :: "memory \<Rightarrow> u32 \<Rightarrow> avail_region \<times> klog \<Rightarrow> bool \<times> avail_region \<times> klog" where
  "mmap_entry m p = (\<lambda>(best, log).
     (let region_start = entry_addr m p;
          region_end = u64_add_sat (entry_addr m p) (entry_len m p);
          len_mb = mib_up (entry_len m p);
          log = log @ say ''  base='' @ printk_hex_u64 region_start @ say ''  end='' @ printk_hex_u64 region_end @
            say ''  len='' @ printk_hex_u64 (entry_len m p) @ [('' (%uMB)'', [KInt len_mb])] @
            [(''  type=%u\<newline>'', [KInt (entry_type m p)])]
      in if entry_type m p \<noteq> 1 then (False, best, log)
         else if region_end = - 1 \<or> region_end \<le> region_start then (False, best, log)
         else
           (let s = (if region_start < 0x100000 then 0x100000 else region_start); t = region_end in
            if t \<le> s then (False, best, log) else (False, avail_region_consider best s t, log))))"

text \<open>\<open>Some (Some best, log)\<close> for the result 1 with \<open>*best\<close> set, \<open>Some (None, log)\<close> for 0; both
  pointers are non-null in the one call.\<close>

definition mmap_dump_and_pick_best :: "memory \<Rightarrow> u32 \<Rightarrow> klog \<Rightarrow> (avail_region option \<times> klog) option" where
  "mmap_dump_and_pick_best m mmap_tag log =
     (if tag_size m mmap_tag < 16 then Some (None, log @ say ''mmap: invalid mmap tag size\<newline>'')
      else if mmap_entry_size m mmap_tag < 24 then Some (None, log @ say ''mmap: invalid entry size\<newline>'')
      else
        (let entries = mmap_tag + 16; entries_end = mmap_tag + tag_size m mmap_tag;
             log = log @ [(''MB2 Memory Map (tag_size=%u, entry_size=%u, version=%u)\<newline>'',
               [KInt (tag_size m mmap_tag), KInt (mmap_entry_size m mmap_tag), KInt (rd32 m (mmap_tag + 12))])]
         in map_option (\<lambda>(best, log). (Some best, log))
              (mmap_loop (mmap_entry_size m mmap_tag) entries_end (mmap_entry m) entries
                 (\<lparr>ar_start = 0, ar_end = 0, ar_bytes = 0\<rparr>, log))))"

definition mmap_print_summary :: "avail_region \<Rightarrow> klog" where
  "mmap_print_summary best =
     (if ar_bytes best = 0 \<or> ar_end best \<le> ar_start best then say ''mmap: no available RAM regions found\<newline>''
      else
        (let mb = mib_up (ar_bytes best) in
         say ''Available RAM: '' @ printk_hex_range (ar_start best) (ar_end best) @ [('' (%uMB)\<newline>'', [KInt mb])]))"

text \<open>\<open>base\<close> is \<open>g_mb2_info\<close>, which \<open>kmain\<close> has turned into a virtual address.\<close>

definition mmap_print :: "memory \<Rightarrow> u32 \<Rightarrow> klog option" where
  "mmap_print m base =
     (if base = 0 then Some (say ''mmap: no multiboot2 info\<newline>'')
      else
        (case mb2_find_tag m base (rd32 m base) MB2_TAG_TYPE_MMAP of
           None \<Rightarrow> None
         | Some MB2_FIND_NOT_FOUND \<Rightarrow> Some (say ''mmap: Multiboot2 tag type 6 (Memory Map) not found\<newline>'')
         | Some MB2_FIND_INVALID \<Rightarrow> Some (say ''mmap: invalid multiboot2 info\<newline>'')
         | Some (MB2_FIND_OK tag) \<Rightarrow>
             (if tag = 0 then Some (say ''mmap: invalid multiboot2 info\<newline>'')
              else
                (case mmap_dump_and_pick_best m tag [] of
                   None \<Rightarrow> None
                 | Some (None, log) \<Rightarrow> Some log
                 | Some (Some best, log) \<Rightarrow> Some (log @ mmap_print_summary best)))))"

section \<open>What it reports\<close>

text \<open>The usable regions: entries of type 1 that do not end at the top of the 64-bit addresses, without
  their part below 1 MiB.\<close>

definition usable_regions :: "memory \<Rightarrow> u32 list \<Rightarrow> (u64 \<times> u64) list" where
  "usable_regions m ps =
     [(max 0x100000 (entry_addr m p), entry_addr m p + entry_len m p).
      p \<leftarrow> ps, entry_type m p = 1 \<and> uint (entry_addr m p) + uint (entry_len m p) < 2 ^ 64 - 1 \<and>
        max 0x100000 (entry_addr m p) < entry_addr m p + entry_len m p]"

text \<open>The first of the largest regions.\<close>

definition largest_region :: "(u64 \<times> u64) list \<Rightarrow> (u64 \<times> u64) option" where
  "largest_region rs = find (\<lambda>(a, b). \<forall>(c, d) \<in> set rs. d - c \<le> b - a) rs"

definition available_ram :: "(u64 \<times> u64) option \<Rightarrow> klog" where
  "available_ram r =
     (case r of
        None \<Rightarrow> say ''mmap: no available RAM regions found\<newline>''
      | Some (a, b) \<Rightarrow> say ''Available RAM: '' @ printk_hex_range a b @ [('' (%uMB)\<newline>'', [KInt (mib_up (b - a))])])"

text \<open>Three records: the header, one line for every entry, the summary.\<close>

definition mmap_header :: "memory \<Rightarrow> u32 \<Rightarrow> klog" where
  "mmap_header m tag = [(''MB2 Memory Map (tag_size=%u, entry_size=%u, version=%u)\<newline>'',
     [KInt (tag_size m tag), KInt (mmap_entry_size m tag), KInt (rd32 m (tag + 12))])]"

definition mmap_line :: "memory \<Rightarrow> u32 \<Rightarrow> klog" where
  "mmap_line m p = say ''  base='' @ printk_hex_u64 (entry_addr m p) @
     say ''  end='' @ printk_hex_u64 (u64_add_sat (entry_addr m p) (entry_len m p)) @
     say ''  len='' @ printk_hex_u64 (entry_len m p) @ [('' (%uMB)'', [KInt (mib_up (entry_len m p))])] @
     [(''  type=%u\<newline>'', [KInt (entry_type m p)])]"

lemma u64_add_sat:
  "u64_add_sat a b = (if uint a + uint b < 2 ^ 64 then a + b else - 1)"
proof -
  have lt: "uint a < 2 ^ 64" "uint b < 2 ^ 64" using uint_bounded [of a] uint_bounded [of b] by simp_all
  have ge: "0 \<le> uint a" "0 \<le> uint b" by simp_all
  have sum: "uint (a + b) = (uint a + uint b) mod 2 ^ 64" by (simp add: uint_word_ariths)
  have "a + b < a \<longleftrightarrow> \<not> uint a + uint b < 2 ^ 64"
  proof (cases "uint a + uint b < 2 ^ 64")
    case True
    then have "uint (a + b) = uint a + uint b" unfolding sum using ge by (intro mod_pos_pos_trivial) simp_all
    then show ?thesis using True ge unfolding word_less_def by linarith
  next
    case False
    then have "uint (a + b) = (uint a + uint b - 2 ^ 64) mod 2 ^ 64" unfolding sum by (intro mod_pos_geq) simp_all
    also have "\<dots> = uint a + uint b - 2 ^ 64" using False lt by (intro mod_pos_pos_trivial) simp_all
    finally show ?thesis using False lt unfolding word_less_def by linarith
  qed
  then show ?thesis by (simp add: u64_add_sat_def Let_def)
qed

lemma find_append: "find P (xs @ ys) = (case find P xs of None \<Rightarrow> find P ys | Some x \<Rightarrow> Some x)"
  by (induction xs) auto

lemma largest_region_Some:
  assumes "rs \<noteq> []"
  obtains a b where "largest_region rs = Some (a, b)" "(a, b) \<in> set rs" "\<forall>(c, d) \<in> set rs. d - c \<le> b - a"
proof -
  let ?w = "\<lambda>(a, b). b - a :: u64"
  obtain q where q: "q \<in> set rs" "\<forall>r \<in> set rs. ?w r \<le> ?w q"
  proof -
    have "finite (?w ` set rs)" "?w ` set rs \<noteq> {}" using assms by simp_all
    then have "Max (?w ` set rs) \<in> ?w ` set rs" "\<forall>x \<in> ?w ` set rs. x \<le> Max (?w ` set rs)" using Max_in Max_ge by blast+
    then show thesis using that by (metis (no_types, lifting) image_iff)
  qed
  have "largest_region rs \<noteq> None"
  proof -
    obtain a b where ab: "q = (a, b)" by (cases q)
    have "\<forall>(c, d) \<in> set rs. d - c \<le> b - a" using q(2) by (auto simp: ab)
    then have "\<exists>x \<in> set rs. (\<lambda>(a, b). \<forall>(c, d) \<in> set rs. d - c \<le> b - a) x" using q(1) by (intro bexI [of _ q]) (simp_all only: ab case_prod_conv)
    then show ?thesis unfolding largest_region_def find_None_iff by blast
  qed
  then obtain a b where ab: "largest_region rs = Some (a, b)" by auto
  then obtain i where i: "i < length rs" "rs ! i = (a, b)" "\<forall>(c, d) \<in> set rs. d - c \<le> b - a"
    unfolding largest_region_def find_Some_iff by (metis (no_types, lifting) case_prod_conv)
  then show thesis using that [OF ab] by (metis nth_mem)
qed

lemma largest_region_snoc:
  "largest_region (rs @ [(c, d)]) =
    (case largest_region rs of None \<Rightarrow> Some (c, d) | Some (a, b) \<Rightarrow> if b - a < d - c then Some (c, d) else Some (a, b))"
proof (cases "rs = []")
  case True
  then show ?thesis by (simp add: largest_region_def)
next
  case False
  obtain a b where ab: "largest_region rs = Some (a, b)" "(a, b) \<in> set rs" "\<forall>(x, y) \<in> set rs. y - x \<le> b - a"
    using largest_region_Some [OF False] .
  let ?P = "\<lambda>(x, y). \<forall>(u, v) \<in> set (rs @ [(c, d)]). v - u \<le> y - x"
  show ?thesis
  proof (cases "b - a < d - c")
    case True
    then have "find ?P rs = None" unfolding find_None_iff using ab(3) by (force simp: case_prod_unfold)
    moreover have "?P (c, d)" using True ab(3) by (force simp: case_prod_unfold)
    ultimately show ?thesis using True ab(1) unfolding largest_region_def find_append by simp
  next
    case False
    have "?P x \<longleftrightarrow> (\<lambda>(x, y). \<forall>(u, v) \<in> set rs. v - u \<le> y - x) x" if "x \<in> set rs" for x
      using False ab(2) by (force simp: case_prod_unfold)
    then have "find ?P rs = find (\<lambda>(x, y). \<forall>(u, v) \<in> set rs. v - u \<le> y - x) rs" by (intro find_cong refl)
    then show ?thesis using False ab(1) unfolding largest_region_def find_append by simp
  qed
qed

text \<open>The loop keeps the largest region.\<close>

definition best_of :: "(u64 \<times> u64) option \<Rightarrow> avail_region" where
  "best_of r = (case r of None \<Rightarrow> \<lparr>ar_start = 0, ar_end = 0, ar_bytes = 0\<rparr>
     | Some (a, b) \<Rightarrow> \<lparr>ar_start = a, ar_end = b, ar_bytes = b - a\<rparr>)"

lemma region_bytes: "(a :: u64) < b \<Longrightarrow> 0 < b - a"
  by (metis eq_iff_diff_eq_0 less_irrefl word_gt_0)

lemma consider_best:
  assumes "c < d"
  shows "avail_region_consider (best_of (largest_region rs)) c d = best_of (largest_region (rs @ [(c, d)]))"
  using assms region_bytes [OF assms] unfolding largest_region_snoc
  by (auto simp: avail_region_consider_def best_of_def split: option.split)

lemma usable_snoc: "usable_regions m (ps @ qs) = usable_regions m ps @ usable_regions m qs"
  by (simp add: usable_regions_def)

lemma mmap_entry_eq:
  "mmap_entry m p (best_of (largest_region rs), log) =
    (False, best_of (largest_region (rs @ usable_regions m [p])), log @ mmap_line m p)"
proof -
  let ?a = "entry_addr m p" and ?l = "entry_len m p"
  show ?thesis
  proof (cases "entry_type m p = 1 \<and> uint ?a + uint ?l < 2 ^ 64 - 1 \<and> max 0x100000 ?a < ?a + ?l")
    case True
    then have "u64_add_sat ?a ?l = ?a + ?l" by (simp add: u64_add_sat)
    moreover have "uint (?a + ?l) = uint ?a + uint ?l" using True by (simp add: uint_word_ariths mod_pos_pos_trivial)
    then have "?a + ?l \<noteq> - 1" using True by (auto simp: unsigned_minus_1_eq_mask mask_eq_exp_minus_1)
    moreover have m: "(if ?a < 0x100000 then 0x100000 else ?a) = max 0x100000 ?a" by (auto simp: max_def)
    moreover have "\<not> ?a + ?l \<le> (if ?a < 0x100000 then 0x100000 else ?a)" unfolding m not_le using True by blast
    moreover have "\<not> ?a + ?l \<le> ?a" using True by (meson leD le_less_trans max.cobounded2)
    moreover have "usable_regions m [p] = [(max 0x100000 ?a, ?a + ?l)]" using True by (simp add: usable_regions_def)
    ultimately show ?thesis
      using True consider_best [of "max 0x100000 ?a" "?a + ?l" rs]
      by (simp add: mmap_entry_def mmap_line_def Let_def)
  next
    case False
    then have u: "usable_regions m [p] = []" by (simp add: usable_regions_def)
    have sat: "u64_add_sat ?a ?l = - 1" if "\<not> uint ?a + uint ?l < 2 ^ 64 - 1"
    proof (cases "uint ?a + uint ?l < 2 ^ 64")
      case True
      then have "uint (?a + ?l) = 2 ^ 64 - 1" using that by (simp add: uint_word_ariths mod_pos_pos_trivial)
      then have "?a + ?l = - 1" by (simp add: word_uint_eq_iff unsigned_minus_1_eq_mask mask_eq_exp_minus_1)
      then show ?thesis by (simp add: u64_add_sat)
    qed (simp add: u64_add_sat)
    have nosat: "u64_add_sat ?a ?l = ?a + ?l" if "uint ?a + uint ?l < 2 ^ 64 - 1" using that by (simp add: u64_add_sat)
    consider "entry_type m p \<noteq> 1" | "\<not> uint ?a + uint ?l < 2 ^ 64 - 1"
      | "uint ?a + uint ?l < 2 ^ 64 - 1" "\<not> max 0x100000 ?a < ?a + ?l" using False by blast
    then show ?thesis
    proof cases
      case 3
      have m: "(if ?a < 0x100000 then 0x100000 else ?a) = max 0x100000 ?a" by (auto simp: max_def)
      have "(?a + ?l \<le> max 0x100000 ?a) = True" using 3(2) unfolding not_less by blast
      then show ?thesis unfolding mmap_entry_def mmap_line_def Let_def prod.case nosat [OF 3(1)] m u by (simp only: if_True) simp
    qed (simp_all add: mmap_entry_def mmap_line_def Let_def u sat)
  qed
qed

lemma mmap_entries_eq:
  "fold_entries (mmap_entry m) ps (best_of (largest_region rs), log) =
    (best_of (largest_region (rs @ usable_regions m ps)), log @ concat (map (mmap_line m) ps))"
proof (induction ps arbitrary: rs log)
  case Nil
  then show ?case by (simp add: usable_regions_def)
next
  case (Cons p ps)
  show ?case
    using Cons [of "rs @ usable_regions m [p]" "log @ mmap_line m p"] usable_snoc [of m "[p]" ps]
    by (simp add: mmap_entry_eq)
qed

lemma summary_best:
  "\<forall>(c, d) \<in> set rs. c < d \<Longrightarrow> mmap_print_summary (best_of (largest_region rs)) = available_ram (largest_region rs)"
proof (cases "rs = []")
  case True
  then show ?thesis by (simp add: largest_region_def best_of_def mmap_print_summary_def available_ram_def)
next
  case False
  assume a: "\<forall>(c, d) \<in> set rs. c < d"
  obtain x y where xy: "largest_region rs = Some (x, y)" "(x, y) \<in> set rs" using largest_region_Some [OF False] by metis
  then have "x < y" using a by blast
  then show ?thesis using region_bytes [of x y]
    by (simp add: xy(1) best_of_def mmap_print_summary_def available_ram_def not_le)
qed

section \<open>Properties\<close>



end
