(* ===== verification/Cmd_Args.thy ===== *)
theory Cmd_Args
  imports Shell
begin

text \<open>
  What the commands of the shell share: numbers as arguments, decimal or with \<open>0x\<close>, read by the same code
  in \<open>cmd_pmm.c\<close>, \<open>cmd_vmm.c\<close> and \<open>cmd_vma.c\<close>. The lemmas relate it to the numbers that \<open>printk\<close> writes.
  What a number stands for is given by a table of digits of its own. A command gets its arguments as a list of strings.
\<close>

section \<open>The parser\<close>

definition hex_val :: "char \<Rightarrow> int" where
  "hex_val c =
     (if is_digit c then of_char c - of_char (CHR ''0'')
      else if (of_char (CHR ''a'') :: nat) \<le> of_char c \<and> of_char c \<le> (of_char (CHR ''f'') :: nat)
        then 10 + (of_char c - of_char (CHR ''a''))
      else if (of_char (CHR ''A'') :: nat) \<le> of_char c \<and> of_char c \<le> (of_char (CHR ''F'') :: nat)
        then 10 + (of_char c - of_char (CHR ''A''))
      else - 1)"

fun parse_hex_loop :: "string \<Rightarrow> u32 \<Rightarrow> u32 option" where
  "parse_hex_loop [] v = Some v"
| "parse_hex_loop (c # s) v =
     (let hv = hex_val c in if hv < 0 then None else parse_hex_loop s (push_bit 4 v OR word_of_int hv))"

fun parse_dec_loop :: "string \<Rightarrow> u32 \<Rightarrow> u32 option" where
  "parse_dec_loop [] v = Some v"
| "parse_dec_loop (c # s) v =
     (if \<not> is_digit c then None else parse_dec_loop s (v * 10 + (of_char c - of_char (CHR ''0''))))"

text \<open>\<open>Some v\<close> for the result 1 with \<open>*out\<close> set; the callers pass no null pointers.\<close>

fun parse_u32 :: "string \<Rightarrow> u32 option" where
  "parse_u32 [] = None"
| "parse_u32 (c # s) =
     (case s of
        x # t \<Rightarrow>
          if c = CHR ''0'' \<and> (x = CHR ''x'' \<or> x = CHR ''X'') then (if t = [] then None else parse_hex_loop t 0)
          else parse_dec_loop (c # s) 0
      | [] \<Rightarrow> parse_dec_loop (c # s) 0)"

declare parse_u32.simps [simp del]

section \<open>What it reads\<close>

lemma of_char_digit: "is_digit c \<Longrightarrow> (of_char c :: 'a :: {comm_ring_1}) - of_char (CHR ''0'') = of_nat (of_char c - 48)"
proof -
  assume "is_digit c"
  then have "48 \<le> (of_char c :: nat)" by (simp add: is_digit_def)
  moreover have "(of_char c :: 'a) = of_nat (of_char c)" by (simp add: of_nat_of_char)
  ultimately show ?thesis by (simp add: of_nat_diff)
qed

lemma parse_dec_loop:
  assumes "\<forall>c \<in> set s. is_digit c"
  shows "parse_dec_loop s (of_nat n) = Some (of_nat (foldl (\<lambda>n c. 10 * n + (of_char c - 48)) n s))"
  using assms
proof (induction s arbitrary: n)
  case (Cons c s)
  have "(of_nat n :: u32) * 10 + (of_char c - of_char (CHR ''0'')) = of_nat (10 * n + (of_char c - 48))"
    using of_char_digit [of c, where ?'a = u32] Cons.prems by (simp add: mult.commute)
  then show ?case using Cons.prems Cons.IH by (simp del: of_nat_add of_nat_mult)
qed simp

lemma parse_dec_loop_bad: "\<exists>c \<in> set s. \<not> is_digit c \<Longrightarrow> parse_dec_loop s v = None"
  by (induction s arbitrary: v) auto

text \<open>The digits, written out, and the number a row of digits stands for.\<close>

definition digit_text :: string where "digit_text = ''0123456789abcdefABCDEF''"

definition digit_value :: "char \<Rightarrow> nat option" where
  "digit_value = map_of (zip digit_text ([0..<16] @ [10..<16]))"

definition is_dec :: "char \<Rightarrow> bool" where "is_dec c \<longleftrightarrow> (case digit_value c of None \<Rightarrow> False | Some d \<Rightarrow> d < 10)"
definition is_hex :: "char \<Rightarrow> bool" where "is_hex c \<longleftrightarrow> digit_value c \<noteq> None"

definition digits_number :: "nat \<Rightarrow> nat \<Rightarrow> string \<Rightarrow> nat" where
  "digits_number base n s = foldl (\<lambda>n c. base * n + the (digit_value c)) n s"

lemma digit_value:
  "hex_val c = (case digit_value c of None \<Rightarrow> - 1 | Some d \<Rightarrow> int d)"
  "is_digit c \<longleftrightarrow> is_dec c" "is_dec c \<Longrightarrow> of_char c - 48 = the (digit_value c)"
proof -
  let ?good = "\<lambda>c. hex_val c = (case digit_value c of None \<Rightarrow> - 1 | Some d \<Rightarrow> int d) \<and>
      (is_digit c \<longleftrightarrow> is_dec c) \<and> (is_dec c \<longrightarrow> of_char c - 48 = the (digit_value c))"
  have listed: "\<forall>c \<in> set digit_text. ?good c" by code_simp
  have "?good c" if out: "c \<notin> set digit_text"
  proof -
    have "length digit_text = length ([0..<16] @ [10..<16])" by code_simp
    then have none: "digit_value c = None" using out by (simp add: digit_value_def map_of_eq_None_iff map_fst_zip del: upt_rec_numeral flip: set_map)
    have all: "\<forall>n \<in> set ([48..<58] @ [65..<71] @ [97..<103]). char_of (n :: nat) \<in> set digit_text" by code_simp
    have "(of_char c :: nat) \<notin> set ([48..<58] @ [65..<71] @ [97..<103])"
    proof
      assume "(of_char c :: nat) \<in> set ([48..<58] @ [65..<71] @ [97..<103])"
      from bspec [OF all this] show False using out by simp
    qed
    then have n: "\<not> (48 \<le> (of_char c :: nat) \<and> (of_char c :: nat) \<le> 57)" "\<not> (65 \<le> (of_char c :: nat) \<and> (of_char c :: nat) \<le> 70)"
      "\<not> (97 \<le> (of_char c :: nat) \<and> (of_char c :: nat) \<le> 102)"
      by (auto simp del: upt_rec_numeral)
    then have d: "\<not> is_digit c" by (simp add: is_digit_def)
    then have "hex_val c = - 1" using n(2,3) by (auto simp: hex_val_def)
    then show ?thesis using d by (simp add: none is_dec_def)
  qed
  then have "?good c" using listed by blast
  then show "hex_val c = (case digit_value c of None \<Rightarrow> - 1 | Some d \<Rightarrow> int d)" "is_digit c \<longleftrightarrow> is_dec c"
    "is_dec c \<Longrightarrow> of_char c - 48 = the (digit_value c)" by blast+
qed

lemma is_dec_digit: "is_dec = is_digit"
  by (simp add: fun_eq_iff digit_value(2))

lemma is_hex_val: "is_hex c \<longleftrightarrow> 0 \<le> hex_val c" "is_hex c \<Longrightarrow> the (digit_value c) = nat (hex_val c)"
  by (auto simp: is_hex_def digit_value(1) split: option.splits)

lemma dec_number: "list_all is_digit s \<Longrightarrow> digits_number 10 0 s = dec_value s"
proof -
  have "list_all is_digit s \<Longrightarrow> digits_number 10 n s = foldl (\<lambda>n c. 10 * n + (of_char c - 48)) n s" for n
    by (induction s arbitrary: n) (simp_all add: digits_number_def digit_value(2,3))
  then show "list_all is_digit s \<Longrightarrow> ?thesis" by (simp add: dec_value_def)
qed

lemma hex_val_lt: "hex_val c < 16"
proof -
  have "(of_char c :: int) = int (of_char c)" by (simp add: of_nat_of_char)
  then show ?thesis unfolding hex_val_def is_digit_def by (simp only:) auto
qed

lemma push_or_add: "0 \<le> h \<Longrightarrow> h < 16 \<Longrightarrow> push_bit 4 v OR word_of_int h = v * 16 + word_of_int h" for v :: u32
proof -
  assume h: "0 \<le> h" "h < 16"
  have "bit (push_bit 4 v) n \<Longrightarrow> \<not> bit (word_of_int h :: u32) n" for n
  proof -
    assume "bit (push_bit 4 v) n"
    then have "4 \<le> n" by (simp add: bit_push_bit_iff)
    moreover have "take_bit 4 h = h" using h by (simp add: take_bit_int_eq_self_iff)
    then have "\<not> bit h n" if "4 \<le> n" using that by (metis bit_take_bit_iff not_less)
    ultimately show ?thesis by (simp add: bit_word_of_int_iff)
  qed
  then have "push_bit 4 v AND word_of_int h = (0 :: u32)" by (intro bit_word_eqI) (auto simp: bit_and_iff)
  then show ?thesis using disjunctive_add_eq_or [of "push_bit 4 v" "word_of_int h"] by (simp add: push_bit_eq_mult)
qed

lemma parse_hex_loop:
  assumes "\<forall>c \<in> set s. is_hex c"
  shows "parse_hex_loop s (of_nat n) = Some (of_nat (digits_number 16 n s))"
  using assms
proof (induction s arbitrary: n)
  case (Cons c s)
  have "0 \<le> hex_val c" "the (digit_value c) = nat (hex_val c)" using Cons.prems is_hex_val [of c] by simp_all
  then have "push_bit 4 (of_nat n :: u32) OR word_of_int (hex_val c) = of_nat (16 * n + nat (hex_val c))"
    using push_or_add [of "hex_val c" "of_nat n"] hex_val_lt [of c] by (simp add: mult.commute)
  moreover have "digits_number 16 n (c # s) = digits_number 16 (16 * n + nat (hex_val c)) s"
    by (simp add: digits_number_def \<open>the (digit_value c) = nat (hex_val c)\<close>)
  ultimately show ?case using Cons.prems Cons.IH \<open>0 \<le> hex_val c\<close> by (simp del: of_nat_add of_nat_mult)
qed (simp add: digits_number_def)

lemma parse_hex_loop_bad: "\<exists>c \<in> set s. \<not> is_hex c \<Longrightarrow> parse_hex_loop s v = None"
  by (induction s arbitrary: v) (auto simp: is_hex_val(1) Let_def not_le)

text \<open>The number a text stands for.\<close>

definition number_text :: "string \<Rightarrow> nat option" where
  "number_text s =
     (if take 2 s = ''0x'' \<or> take 2 s = ''0X''
      then (if drop 2 s \<noteq> [] \<and> list_all is_hex (drop 2 s) then Some (digits_number 16 0 (drop 2 s)) else None)
      else if s \<noteq> [] \<and> list_all is_dec s then Some (digits_number 10 0 s) else None)"

lemma parse_u32_number: "parse_u32 s = map_option of_nat (number_text s)"
proof (cases s)
  case Nil
  then show ?thesis by (simp add: parse_u32.simps number_text_def)
next
  case (Cons c r)
  have dec: "parse_dec_loop s 0 = map_option of_nat (if list_all is_digit s then Some (dec_value s) else None)"
    using parse_dec_loop [of s 0] parse_dec_loop_bad [of s 0] by (auto simp: list_all_iff dec_value_def)
  have tx: "number_text s =
     (if take 2 s = ''0x'' \<or> take 2 s = ''0X''
      then (if drop 2 s \<noteq> [] \<and> list_all is_hex (drop 2 s) then Some (digits_number 16 0 (drop 2 s)) else None)
      else if s \<noteq> [] \<and> list_all is_digit s then Some (dec_value s) else None)"
    using dec_number [of s] by (auto simp: number_text_def list_all_iff digit_value(2))
  have hex: "parse_hex_loop t 0 = map_option of_nat (if list_all is_hex t then Some (digits_number 16 0 t) else None)" for t
    using parse_hex_loop [of t 0] parse_hex_loop_bad [of t 0] by (auto simp: list_all_iff)
  show ?thesis
  proof (cases r)
    case Nil
    then show ?thesis using Cons dec by (simp add: parse_u32.simps tx [unfolded Cons Nil])
  next
    case (Cons x t)
    then show ?thesis using \<open>s = c # r\<close> dec hex [of t] by (simp add: parse_u32.simps tx [unfolded \<open>s = c # r\<close> Cons])
  qed
qed

lemma hex_digit_chars: "c \<in> set hex_digits \<Longrightarrow> is_hex c \<and> the (digit_value c) = hex_digit_value c"
proof -
  have "\<forall>c \<in> set hex_digits. is_hex c \<and> the (digit_value c) = hex_digit_value c" by code_simp
  then show "c \<in> set hex_digits \<Longrightarrow> ?thesis" by blast
qed

lemma hex_number_value: "set s \<subseteq> set hex_digits \<Longrightarrow> digits_number 16 0 s = hex_value s \<and> list_all is_hex s"
proof -
  have "set s \<subseteq> set hex_digits \<Longrightarrow> digits_number 16 n s = foldl (\<lambda>n c. 16 * n + hex_digit_value c) n s" for n
    by (induction s arbitrary: n) (simp_all add: digits_number_def hex_digit_chars)
  then show "set s \<subseteq> set hex_digits \<Longrightarrow> ?thesis" using hex_digit_chars by (auto simp: hex_value_def list_all_iff)
qed

lemma hex_digit_nth: "n < 16 \<Longrightarrow> hex_digits ! n \<in> set hex_digits"
  by (rule nth_mem) (simp add: hex_digits_def)

lemma nat_hex_digits: "set (nat_hex n) \<subseteq> set hex_digits"
proof (induction n rule: nat_hex.induct)
  case (1 n)
  then show ?case by (subst nat_hex_unfold) (simp add: hex_digit_nth)
qed

lemma hex_places_digits: "set (hex_places k n) \<subseteq> set hex_digits"
  by (auto simp: hex_places_eq hex_digit_nth)

lemma parse_hex_text:
  assumes "set t \<subseteq> set hex_digits" "t \<noteq> []" "hex_value t = unat v"
  shows "parse_u32 (''0x'' @ t) = Some v"
  using assms hex_number_value [OF assms(1)] by (simp add: parse_u32_number number_text_def)

lemma parse_dec_text: "parse_u32 (nat_dec (unat v)) = Some v"
proof -
  let ?s = "nat_dec (unat v)"
  have d: "list_all is_digit ?s" using nat_dec_digits by (auto simp: list_all_iff)
  then have "\<not> (take 2 ?s = ''0x'' \<or> take 2 ?s = ''0X'')"
    by (cases ?s rule: remdups_adj.cases) (auto simp: is_digit_def)
  then show ?thesis using d dec_value_nat_dec [of "unat v"] dec_number [OF d]
    by (simp add: parse_u32_number number_text_def is_dec_digit)
qed

section \<open>Properties\<close>

text \<open>C40. An argument of the shell commands is read as the number it stands for, modulo \<open>2 ^ 32\<close>, and refused
  exactly when it stands for none; so every number and address that the kernel prints reads back as itself.\<close>

theorem parse_u32_reads_back:
  "parse_u32 s = map_option of_nat (number_text s) \<and>
   (\<exists>t. vprintk ''%u'' [KInt v] = Some t \<and> parse_u32 t = Some v) \<and>
   (\<exists>t. vprintk ''0x%x'' [KInt v] = Some t \<and> parse_u32 t = Some v) \<and>
   (\<exists>t. vprintk ''0x%08x'' [KInt v] = Some t \<and> parse_u32 t = Some v) \<and>
   (\<exists>t. vprintk ''%p'' [KInt v] = Some t \<and> parse_u32 t = Some v)"
proof -
  let ?hex = "\<lambda>z w. [Text (CHR ''0''), Text (CHR ''x''), Directive False z w Conv_x]"
  have eq: "vprintk (show_format ps) [KInt v] = render ps [KInt v]" if "\<forall>p \<in> set ps. piece_ok p" for ps
    by (rule vprintk_render [OF that])
  have fmt: "show_format [Directive False False 0 Conv_u] = ''%u''" "show_format [Directive False False 0 Conv_p] = ''%p''"
    "show_format (?hex False 0) = ''0x%x''" "show_format (?hex True 8) = ''0x%08x''" by code_simp+
  note r = eq [of "[Directive False False 0 Conv_u]"] eq [of "[Directive False False 0 Conv_p]"]
    eq [of "?hex False 0"] eq [of "?hex True 8"]
  let ?h = "nat_hex (unat v)"
  have ne: "?h \<noteq> []" by (subst nat_hex_unfold) simp
  have "CHR ''0'' \<in> set hex_digits" by (simp add: hex_digits_def)
  then have z: "set (replicate k (CHR ''0'') @ ?h) \<subseteq> set hex_digits" for k using nat_hex_digits [of "unat v"] by auto
  have "hex_value (hex_places 8 (unat v)) = unat v" using unat_lt_2p32 [of v] by (simp add: hex_value_places)
  moreover have "hex_places 8 (unat v) \<noteq> []" by (simp add: hex_places_eq)
  ultimately have "\<exists>t. vprintk ''%p'' [KInt v] = Some t \<and> parse_u32 t = Some v"
    using r(2) parse_hex_text [OF hex_places_digits] unfolding fmt by (simp add: field_def)
  moreover have "\<exists>t. vprintk ''%u'' [KInt v] = Some t \<and> parse_u32 t = Some v"
    using r(1) parse_dec_text unfolding fmt by (simp add: field_def)
  moreover have "\<exists>t. vprintk ''0x%x'' [KInt v] = Some t \<and> parse_u32 t = Some v"
    using r(3) parse_hex_text [OF nat_hex_digits ne hex_value_nat_hex] unfolding fmt by (simp add: field_def)
  moreover have "\<exists>t. vprintk ''0x%08x'' [KInt v] = Some t \<and> parse_u32 t = Some v"
    using r(4) parse_hex_text [OF z] ne unfolding fmt by (simp add: field_def hex_value_zeros hex_value_nat_hex Let_def)
  ultimately show ?thesis using parse_u32_number [of s] by blast
qed

text \<open>A number too large for 32 bits is not refused.\<close>

lemma parse_u32_wraps: "parse_u32 ''4294967297'' = Some 1" "parse_u32 ''0x100001000'' = Some 0x1000"
  by code_simp+

end
