(* ===== verification/Vmm_Window.thy ===== *)
theory Vmm_Window
  imports Vmm_Kernel
begin

text \<open>
  Accesses by virtual address, and the bits the processor sets. The code reaches page tables and pages at their
  addresses in the direct map; \<open>vmm.c\<close> is modelled as if these accesses always got there. An access here is
  translated by the page tables, and faults when the page is not present. \<open>window s P\<close> says that the direct map holds
  for the pages \<open>P\<close>: then the two views agree. The processor sets the accessed and dirty bits of the entries that
  it uses, at any time.
\<close>

section \<open>Translated accesses\<close>

text \<open>The place in the memory of the byte at a virtual address; \<open>None\<close> is a page fault.\<close>

definition vm_cell :: "('b, 'v) vmm_state \<Rightarrow> u32 \<Rightarrow> u32 option" where
  "vm_cell s v =
     (let e = walk s v in
      if e AND PTE_PRESENT = 0 then None else Some (PHYS_TO_VIRT ((e AND NOT 0xFFF) OR (v AND 0xFFF))))"

text \<open>Words do not cross a page.\<close>

definition vm_load :: "('b, 'v) vmm_state \<Rightarrow> u32 \<Rightarrow> u32 option" where
  "vm_load s v = map_option (rd32 (vm_mem s)) (vm_cell s v)"

definition vm_store :: "u32 \<Rightarrow> u32 \<Rightarrow> ('b, 'v) vmm_state \<Rightarrow> ('b, 'v) vmm_state option" where
  "vm_store v x s = map_option (\<lambda>a. s\<lparr>vm_mem := wr32 (vm_mem s) a x\<rparr>) (vm_cell s v)"

section \<open>The window of the direct map\<close>

definition window :: "('b, 'v) vmm_state \<Rightarrow> u32 set \<Rightarrow> bool" where
  "window s P \<longleftrightarrow> (\<forall>f \<in> P. space s (PHYS_TO_VIRT f) AND PTE_PRESENT \<noteq> 0 \<and> frame_of (space s (PHYS_TO_VIRT f)) = f)"

lemma window_mono: "window s Q \<Longrightarrow> P \<subseteq> Q \<Longrightarrow> window s P"
  by (auto simp: window_def)

lemma window_cong: "space s' = space s \<Longrightarrow> window s' P = window s P"
  by (simp add: window_def)

lemma window_upd: "window s P \<Longrightarrow> space s' = (space s)(v := e) \<Longrightarrow> v \<notin> PHYS_TO_VIRT ` P \<Longrightarrow> window s' P"
  by (auto simp: window_def)

lemma window_kernel:
  assumes "\<And>v. KERNEL_VIRT_OFFSET \<le> v \<Longrightarrow> v < PHYS_TO_VIRT m \<Longrightarrow> space s v = kernel_space m v" "\<forall>f \<in> P. page_aligned f \<and> f < m" "m < 0x40000000"
  shows "window s P"
  unfolding window_def
proof
  fix f assume f: "f \<in> P"
  then have a: "page_aligned f" "f < m" using assms(2) by auto
  then have u: "unat f < 0x40000000" using assms(3) by (simp add: word_less_nat_alt)
  then have "unat (PHYS_TO_VIRT f) = unat f + 0xC0000000"
    by (simp only: PHYS_TO_VIRT_def, subst unat_add_no_wrap) (simp_all add: KERNEL_VIRT_OFFSET_def)
  moreover have "unat (PHYS_TO_VIRT m) = unat m + 0xC0000000" if "unat m < 0x40000000"
    using that by (simp only: PHYS_TO_VIRT_def, subst unat_add_no_wrap) (simp_all add: KERNEL_VIRT_OFFSET_def)
  ultimately have "KERNEL_VIRT_OFFSET \<le> PHYS_TO_VIRT f" "\<not> PHYS_TO_VIRT f < m" "PHYS_TO_VIRT f < PHYS_TO_VIRT m"
    using u assms(3) a(2) by (simp_all add: word_le_nat_alt word_less_nat_alt KERNEL_VIRT_OFFSET_def)
  then have "space s (PHYS_TO_VIRT f) = f OR 3"
    using a page_aligned_phys_to_virt [OF a(1)] VIRT_TO_PHYS_PHYS_TO_VIRT [of f] by (simp add: assms(1) kernel_space_def)
  then show "space s (PHYS_TO_VIRT f) AND PTE_PRESENT \<noteq> 0 \<and> frame_of (space s (PHYS_TO_VIRT f)) = f"
    using low_of_or [OF a(1), of 1 3] frame_of_or [OF a(1), of 3] by (simp add: PTE_PRESENT_def)
qed

lemma in_page:
  fixes x k :: u32
  assumes "page_aligned x" "k < 4096"
  shows "unat (x + k) = unat x + unat k" "pd_index (x + k) = pd_index x" "pt_index (x + k) = pt_index x" "(x + k) AND 0xFFF = k" "x OR k = x + k"
proof -
  obtain q where q: "unat x = 4096 * q" using assms(1) by (auto simp: page_aligned_iff dvd_def)
  have k: "unat k < 4096" using assms(2) by (simp add: word_less_nat_alt)
  have "q < 2 ^ 20" using q unat_lt_2p32 [of x] by simp
  then show u: "unat (x + k) = unat x + unat k" using q k by (intro unat_add_no_wrap) simp
  have d: "(unat x + unat k) div 2 ^ 12 = q" "unat x div 2 ^ 12 = q" using q k by simp_all
  have e: "n div 2 ^ 22 = n div 2 ^ 12 div 2 ^ 10" for n :: nat by (simp flip: div_mult2_eq)
  have "unat (pd_index (x + k)) = unat (pd_index x)" unfolding unat_indices u e d ..
  then show "pd_index (x + k) = pd_index x" by (simp add: word_unat_eq_iff)
  have "unat (pt_index (x + k)) = unat (pt_index x)" unfolding unat_indices u d ..
  then show "pt_index (x + k) = pt_index x" by (simp add: word_unat_eq_iff)
  have m: "(0xFFF :: u32) = mask 12" by (simp add: mask_eq_exp_minus_1)
  have low: "unat (w AND 0xFFF) = unat w mod 4096" for w :: u32 unfolding m unat_and_mask by simp
  have "unat ((x + k) AND 0xFFF) = unat k" unfolding low u q using k by simp
  then show "(x + k) AND 0xFFF = k" by (simp add: word_unat_eq_iff)
  have kk: "k = k AND 0xFFF" using low [of k] k by (simp add: word_unat_eq_iff)
  have "x AND k = (x AND 0xFFF) AND k" by (subst kk) (simp only: and.assoc and.commute and.left_commute)
  then have "x AND k = 0" using assms(1) by (simp add: page_aligned_def)
  then show "x OR k = x + k" using disjunctive_add_eq_or [of x k] by simp
qed

lemma window_cell:
  assumes "window s P" "f \<in> P" "page_aligned f" "k < 4096"
  shows "vm_cell s (PHYS_TO_VIRT f + k) = Some (PHYS_TO_VIRT f + k)"
proof -
  note al = page_aligned_phys_to_virt [OF assms(3)]
  note ip = in_page [OF al assms(4)]
  have w: "walk s (PHYS_TO_VIRT f + k) = space s (PHYS_TO_VIRT f)" using al by (simp add: space_def walk_def ip(2,3))
  define e where "e = space s (PHYS_TO_VIRT f)"
  have e: "e AND PTE_PRESENT \<noteq> 0" "e AND NOT 0xFFF = f"
    using assms(1,2) unfolding window_def e_def frame_of_def by blast+
  have "vm_cell s (PHYS_TO_VIRT f + k) = Some (PHYS_TO_VIRT (f OR k))"
    unfolding vm_cell_def Let_def w e_def [symmetric] ip(4) e(2) using e(1) by (simp only: if_False)
  then show ?thesis using in_page(5) [OF assms(3,4)] by (simp add: PHYS_TO_VIRT_def)
qed

text \<open>The page tables, as the code reads them through the window, are the ones the processor walks.\<close>

lemma window_tables:
  assumes "window s (tables s)" "i < 1024" "present s i" "j < 1024"
  shows "vm_load s (PHYS_TO_VIRT (table_of s i) + 4 * j) = Some (pt_get s (PHYS_TO_VIRT (table_of s i)) j)"
proof -
  have j: "unat j < 1024" using assms(4) by (simp add: word_less_nat_alt)
  then have "unat (4 * j) = 4 * unat j" by (simp add: unat_word_ariths)
  then have "4 * j < 4096" using j by (simp add: word_less_nat_alt)
  moreover have "table_of s i \<in> tables s" using assms(2,3) by (auto simp: tables_def)
  ultimately show ?thesis using window_cell [OF assms(1) _ table_aligned [of s i], of "4 * j"] by (simp add: vm_load_def pt_get_def)
qed

section \<open>Accessed and dirty\<close>

definition PTE_ACCESSED :: u32 where "PTE_ACCESSED = 0x20"
definition PTE_DIRTY :: u32 where "PTE_DIRTY = 0x40"

text \<open>The processor uses an entry: a read sets the accessed bit, a write the dirty bit too.\<close>

inductive cpu_touch :: "('b, 'v) vmm_state \<Rightarrow> ('b, 'v) vmm_state \<Rightarrow> bool" where
  pde: "i < 1024 \<Longrightarrow> present s i \<Longrightarrow> cpu_touch s (pd_set i (pd_get s i OR PTE_ACCESSED) s)"
| pte: "i < 1024 \<Longrightarrow> present s i \<Longrightarrow> t = PHYS_TO_VIRT (table_of s i) \<Longrightarrow> j < 1024 \<Longrightarrow> pt_get s t j AND PTE_PRESENT \<noteq> 0 \<Longrightarrow>
    b = PTE_ACCESSED \<or> b = PTE_ACCESSED OR PTE_DIRTY \<Longrightarrow> cpu_touch s (pt_set t j (pt_get s t j OR b) s)"

text \<open>What stays, and how the entries may change.\<close>

definition touched :: "('b, 'v) vmm_state \<Rightarrow> ('b, 'v) vmm_state \<Rightarrow> bool" where
  "touched s s' \<longleftrightarrow> (\<forall>i < 1024. present s' i = present s i \<and> table_of s' i = table_of s i) \<and>
     length (g_kernel_pd s') = length (g_kernel_pd s) \<and> vm_pmm s' = vm_pmm s \<and> rest_eq s s' \<and>
     (\<forall>v. \<exists>b \<in> {0, 0x20, 0x60}. walk s' v = walk s v OR b \<and> (walk s v AND PTE_PRESENT = 0 \<longrightarrow> b = 0))"

lemma touched_refl: "touched s s"
  by (auto simp: touched_def)

lemma touched_trans:
  assumes "touched s t" "touched t u"
  shows "touched s u"
proof -
  have "\<exists>b \<in> {0, 0x20, 0x60}. walk u v = walk s v OR b \<and> (walk s v AND PTE_PRESENT = 0 \<longrightarrow> b = 0)" for v
  proof -
    obtain b where b: "b \<in> {0, 0x20, 0x60}" "walk t v = walk s v OR b" "walk s v AND PTE_PRESENT = 0 \<longrightarrow> b = 0"
      using assms(1) unfolding touched_def by blast
    obtain c where c: "c \<in> {0, 0x20, 0x60}" "walk u v = walk t v OR c" "walk t v AND PTE_PRESENT = 0 \<longrightarrow> c = 0"
      using assms(2) unfolding touched_def by blast
    have "b OR c \<in> {0, 0x20, 0x60}" using b(1) c(1) by auto
    moreover have "walk u v = walk s v OR (b OR c)" using b(2) c(2) by (simp add: or.assoc)
    moreover have "walk s v AND PTE_PRESENT = 0 \<longrightarrow> b OR c = 0" using b c by auto
    ultimately show ?thesis by blast
  qed
  then show ?thesis using assms by (auto simp: touched_def rest_eq_def)
qed

lemma touched_space:
  assumes "touched s s'"
  shows "tables s' = tables s" "window s' P = window s P" "vm_ok ok man fr s' = vm_ok ok man fr s"
    "space s v AND PTE_PRESENT = 0 \<Longrightarrow> space s' v = space s v"
    "\<exists>b \<in> {0, 0x20, 0x60}. space s' v = space s v OR b"
proof -
  note T = assms [unfolded touched_def]
  have set: "{i. i < 1024 \<and> present s' i} = {i. i < 1024 \<and> present s i}" using T by auto
  show tab: "tables s' = tables s" unfolding tables_def set using T by (intro image_cong) auto
  have "inj_on (table_of s') {i. i < 1024 \<and> present s i} = inj_on (table_of s) {i. i < 1024 \<and> present s i}"
    using T by (intro inj_on_cong) auto
  then show "vm_ok ok man fr s' = vm_ok ok man fr s" unfolding vm_ok_def tab set using T by simp
  have sp: "\<exists>b \<in> {0, 0x20, 0x60}. space s' v = space s v OR b \<and> (space s v AND PTE_PRESENT = 0 \<longrightarrow> b = 0)" for v
    using T unfolding space_def by (cases "page_aligned v") auto
  then show "\<exists>b \<in> {0, 0x20, 0x60}. space s' v = space s v OR b" by blast
  show "space s v AND PTE_PRESENT = 0 \<Longrightarrow> space s' v = space s v" using sp [of v] by auto
  have "frame_of (space s' v) = frame_of (space s v) \<and> space s' v AND PTE_PRESENT = space s v AND PTE_PRESENT" for v
  proof -
    obtain b where b: "b \<in> {0, 0x20, 0x60}" "space s' v = space s v OR b" using sp [of v] by blast
    have "b AND NOT 0xFFF = 0" "b AND PTE_PRESENT = 0" using b(1) by (auto simp: PTE_PRESENT_def)
    then show ?thesis using frame_of_or_low [of b "space s v"] by (simp add: b(2) word_ao_dist)
  qed
  then show "window s' P = window s P" by (simp add: window_def)
qed

lemma cpu_touch_touched:
  assumes "cpu_touch s s'" "length (g_kernel_pd s) = 1024" "inj_on (table_of s) {i. i < 1024 \<and> present s i}"
  shows "touched s s'"
  using assms(1)
proof cases
  case (pde i)
  have pd: "pd_get s' j = (if j = i then pd_get s i OR PTE_ACCESSED else pd_get s j)" for j
    using pd_get_set [OF assms(2) pde(2)] by (simp add: pde(1))
  have "(pd_get s i OR PTE_ACCESSED) AND PDE_PRESENT = pd_get s i AND PDE_PRESENT"
    by (simp add: word_ao_dist PTE_ACCESSED_def PDE_PRESENT_def)
  then have p: "present s' j = present s j" for j by (simp add: present_def pd)
  have "frame_of (pd_get s i OR PTE_ACCESSED) = frame_of (pd_get s i)" by (rule frame_of_or_low) (simp add: PTE_ACCESSED_def)
  then have t: "table_of s' j = table_of s j" for j by (simp add: table_of_def pd)
  have "walk s' = walk s" by (simp add: fun_eq_iff walk_def p t pt_get_def) (simp add: pde(1) vm_simps)
  then show ?thesis by (auto simp: touched_def p t) (simp_all add: pde(1) vm_simps rest_eq_def)
next
  case (pte i t j b)
  have pd: "pd_get s' k = pd_get s k" for k by (simp add: pte(1) vm_simps)
  then have p: "present s' k = present s k" "table_of s' k = table_of s k" for k by (simp_all add: present_def table_of_def)
  have b: "b \<in> {0, 0x20, 0x60}" using pte(7) by (auto simp: PTE_ACCESSED_def PTE_DIRTY_def)
  have "\<exists>c \<in> {0, 0x20, 0x60}. walk s' v = walk s v OR c \<and> (walk s v AND PTE_PRESENT = 0 \<longrightarrow> c = 0)" for v
  proof (cases "present s (pd_index v) \<and> table_of s (pd_index v) = table_of s i \<and> pt_index v = j")
    case True
    then have "walk s v = pt_get s t j" by (simp add: walk_def pte(4))
    moreover have "walk s' v = pt_get s t j OR b" using True by (simp add: walk_def p pte(4)) (simp add: pte(1,4) pt_get_def pt_set_def)
    ultimately show ?thesis using b pte(6) by auto
  next
    case False
    have "walk s' v = walk s v"
    proof (cases "present s (pd_index v)")
      case True
      then have "PHYS_TO_VIRT (table_of s i) \<noteq> PHYS_TO_VIRT (table_of s (pd_index v)) \<or> j \<noteq> pt_index v"
        using False VIRT_TO_PHYS_PHYS_TO_VIRT by metis
      then have "rd32 (vm_mem s') (PHYS_TO_VIRT (table_of s (pd_index v)) + 4 * pt_index v) =
          rd32 (vm_mem s) (PHYS_TO_VIRT (table_of s (pd_index v)) + 4 * pt_index v)"
        unfolding pte(1,4) pt_set_def
        by (simp, intro rd_entry_other page_aligned_phys_to_virt table_aligned pte(5) index_lt) auto
      then show ?thesis using True by (simp add: walk_def p pt_get_def)
    qed (simp add: walk_def p)
    then show ?thesis by auto
  qed
  then show ?thesis by (auto simp: touched_def p) (simp_all add: pte(1) vm_simps rest_eq_def)
qed

lemma cpu_touches:
  assumes "cpu_touch\<^sup>*\<^sup>* s s'" "vm_ok ok man fr s"
  shows "touched s s'"
  using assms(1)
proof (induction rule: rtranclp_induct)
  case base
  show ?case by (rule touched_refl)
next
  case (step t u)
  have "vm_ok ok man fr t" using touched_space(3) [OF step(3)] assms(2) by blast
  then have "touched t u" using cpu_touch_touched [OF step(2)] by (simp add: vm_ok_def)
  then show ?case using touched_trans step(3) by blast
qed

section \<open>A kernel after the initialisation of its memory\<close>

lemma sample_booted:
  "\<exists>s. vmm_init 0x120000 sample_vmm0 = Some s \<and> kvm_ok sample_boot s \<and> g_vmm_ready s \<and> card (kvm_free s) = 511 \<and>
    bm_managed (pmm_data (vm_pmm s)) = bm_managed large_bitmap \<and> kvm_free s = bm_free large_bitmap - tables s \<and>
    tables s \<subseteq> bm_free large_bitmap \<and> window s (bm_managed large_bitmap)"
proof -
  have pm: "pmm_data (vm_pmm sample_vmm0) = large_bitmap" by (simp add: sample_vmm0_def)
  have n: "tables_for 0x1000000 = 4" by (simp add: tables_for_def)
  have c: "card (bm_free large_bitmap) = 519" using sample_vmm0_ok(3) by (simp add: pm)
  from kb.vmm_init [OF sample_vmm0_ok(1,2), of "0x120000"] obtain s where
    s: "vmm_init 0x120000 sample_vmm0 = Some s" "kvm_ok sample_boot s" "g_vmm_ready s" "space s = kernel_space 0x1000000"
      "tables s \<subseteq> bm_free large_bitmap" "card (tables s) = 8" "kvm_free s = bm_free large_bitmap - tables s"
      "bm_managed (pmm_data (vm_pmm s)) = bm_managed large_bitmap"
    unfolding sample_vmm0_ok(4) n pm c by auto
  have "card (kvm_free s) = 511"
    unfolding s(7) using s(5,6) c by (subst card_Diff_subset) (simp_all add: pm finite_subset)
  moreover have "\<forall>f \<in> bm_managed large_bitmap. page_aligned f \<and> f < 0x1000000"
    using sample_bitmap_low(3) bm.managed_page [of large_bitmap] large_bitmap_core by (auto simp: bm_inv_def)
  then have "window s (bm_managed large_bitmap)" by (intro window_kernel [of "0x1000000"]) (simp_all add: s(4))
  ultimately show ?thesis using s by blast
qed

end
