(* ===== verification/Cmd_Vmm.thy ===== *)
theory Cmd_Vmm
  imports Cmd_Args Vmm_Window
begin

text \<open>
  The shell command \<open>vmm\<close> (\<open>cmd_vmm.c\<close>): inspecting the page directory and the page tables, translating an
  address, and mapping and unmapping a page by hand. A command returns the new state, what it printed and the
  address of the page fault it raised, if it raised one.
\<close>

section \<open>Printing\<close>

definition print_flags :: "u32 \<Rightarrow> klog" where
  "print_flags entry =
     (if entry AND 0x001 = 0 then say ''NOT PRESENT''
      else say ''P'' @
        [(''%s'', [KStr (Some (if entry AND 0x002 \<noteq> 0 then '' RW'' else '' RO''))])] @
        [(''%s'', [KStr (Some (if entry AND 0x004 \<noteq> 0 then '' U'' else '' S''))])] @
        (if entry AND 0x020 \<noteq> 0 then say '' A'' else []) @
        (if entry AND 0x040 \<noteq> 0 then say '' D'' else []))"

definition cmd_vmm_usage :: klog where
  "cmd_vmm_usage = concat (map say
     [''Usage:\<newline>'',
      ''  vmm state              Show VMM status\<newline>'',
      ''  vmm lookup <addr>      Translate virtual -> physical\<newline>'',
      ''  vmm pd [start] [count] Dump PDE entries\<newline>'',
      ''  vmm pt <pd_idx>        Dump PTE entries for a PDE\<newline>'',
      ''  vmm map <virt> <phys>  Map a virtual page\<newline>'',
      ''  vmm unmap <virt>       Unmap a virtual page\<newline>'',
      ''  vmm fault              Trigger a test page fault\<newline>'',
      ''Notes:\<newline>'',
      ''  Addresses can be decimal or hex (0x...)\<newline>''])"

section \<open>Inspection\<close>

definition cmd_vmm_state :: "('b, 'v) vmm_state \<Rightarrow> klog" where
  "cmd_vmm_state s =
     (if \<not> vmm_is_ready s then say ''VMM: not initialized (paging off)\<newline>''
      else
        (let pd_present = of_nat (length (filter (\<lambda>i. vmm_get_pde (of_nat i) s AND PDE_PRESENT \<noteq> 0) [0..<unat VMM_ENTRIES_PER_PD]))
         in say ''VMM: paging enabled\<newline>'' @
            [(''VMM: %u / %u PDE entries present\<newline>'', [KInt pd_present, KInt VMM_ENTRIES_PER_PD]),
             (''VMM: each PDE covers 4 MiB (%u MiB mapped)\<newline>'', [KInt (pd_present * 4)])]))"

definition cmd_vmm_lookup :: "string list \<Rightarrow> ('b, 'v) vmm_state \<Rightarrow> klog" where
  "cmd_vmm_lookup argv s =
     (if length argv < 3 then say ''vmm lookup: missing <addr>\<newline>''
      else
        (case parse_u32 (argv ! 2) of
           None \<Rightarrow> [(''vmm lookup: invalid addr: %s\<newline>'', [KStr (Some (argv ! 2))])]
         | Some virt \<Rightarrow>
             (let page_virt = virt AND NOT 0xFFF in
              case vmm_get_physical page_virt s of
                Some phys \<Rightarrow>
                  (let pte = vmm_get_pte page_virt s in
                   [(''virt 0x%08x -> phys 0x%08x  ['', [KInt page_virt, KInt phys])] @ print_flags pte @ say '']\<newline>'')
              | None \<Rightarrow> [(''virt 0x%08x -> NOT MAPPED\<newline>'', [KInt page_virt])])))"

text \<open>A row for an entry that is present; the loop over the page directory passes the others over.\<close>

definition pd_row :: "u32 \<Rightarrow> ('b, 'v) vmm_state \<Rightarrow> klog" where
  "pd_row i s =
     (let pde = vmm_get_pde i s in
      if pde AND PDE_PRESENT = 0 then []
      else
        (let virt_base = i * 4 * 1024 * 1024; pt_phys = pde AND NOT 0xFFF in
         [(''  PD[%3u] virt=0x%08x pt=0x%08x ['', [KInt i, KInt virt_base, KInt pt_phys])] @ print_flags pde @ say '']\<newline>''))"

definition cmd_vmm_pd :: "string list \<Rightarrow> ('b, 'v) vmm_state \<Rightarrow> klog" where
  "cmd_vmm_pd argv s =
     (case (if length argv \<ge> 3 then parse_u32 (argv ! 2) else Some 0) of
        None \<Rightarrow> [(''vmm pd: invalid start: %s\<newline>'', [KStr (Some (argv ! 2))])]
      | Some start \<Rightarrow>
          (case (if length argv \<ge> 4 then (case parse_u32 (argv ! 3) of None \<Rightarrow> None | Some c \<Rightarrow> if c = 0 then None else Some c)
                 else Some 16) of
             None \<Rightarrow> [(''vmm pd: invalid count: %s\<newline>'', [KStr (Some (argv ! 3))])]
           | Some count \<Rightarrow>
               (let capped = (if count > 128 then say ''vmm pd: count capped to 128\<newline>'' else []);
                    count = (if count > 128 then 128 else count)
                in if start \<ge> VMM_ENTRIES_PER_PD
                   then capped @ [(''vmm pd: start out of range (%u >= %u)\<newline>'', [KInt start, KInt VMM_ENTRIES_PER_PD])]
                   else
                     (let en = start + count; en = (if en > VMM_ENTRIES_PER_PD then VMM_ENTRIES_PER_PD else en) in
                      capped @ [(''PD[%u..%u)  (each PDE covers 4 MiB)\<newline>'', [KInt start, KInt en])] @
                      concat (map (\<lambda>i. pd_row (of_nat i) s) [unat start..<unat en])))))"

definition pt_row :: "u32 \<Rightarrow> u32 \<Rightarrow> u32 \<Rightarrow> klog" where
  "pt_row pti virt pte =
     [(''  PT[%3u] virt=0x%08x -> phys=0x%08x ['', [KInt pti, KInt virt, KInt (pte AND NOT 0xFFF)])] @ print_flags pte @ say '']\<newline>''"

text \<open>The loop over the entries of a page table, which stops after 64 rows; it returns \<open>shown\<close>.\<close>

fun pt_rows :: "u32 \<Rightarrow> nat list \<Rightarrow> u32 \<Rightarrow> ('b, 'v) vmm_state \<Rightarrow> u32 \<times> klog" where
  "pt_rows virt_base [] shown s = (shown, [])"
| "pt_rows virt_base (i # is) shown s =
     (let pti = of_nat i; virt = virt_base + pti * VMM_PAGE_SIZE; pte = vmm_get_pte virt s in
      if pte AND PTE_PRESENT = 0 then pt_rows virt_base is shown s
      else
        (let row = pt_row pti virt pte; shown = shown + 1 in
         if shown \<ge> 64 then (shown, row @ [(''  ... (truncated, %u+ entries)\<newline>'', [KInt shown])])
         else (case pt_rows virt_base is shown s of (shown, log) \<Rightarrow> (shown, row @ log))))"

definition cmd_vmm_pt :: "string list \<Rightarrow> ('b, 'v) vmm_state \<Rightarrow> klog" where
  "cmd_vmm_pt argv s =
     (if length argv < 3 then say ''vmm pt: missing <pd_idx>\<newline>''
      else
        (case parse_u32 (argv ! 2) of
           None \<Rightarrow> [(''vmm pt: invalid pd_idx: %s\<newline>'', [KStr (Some (argv ! 2))])]
         | Some pd_idx \<Rightarrow>
             (if pd_idx \<ge> VMM_ENTRIES_PER_PD then say ''vmm pt: pd_idx out of range\<newline>''
              else if vmm_get_pde pd_idx s AND PDE_PRESENT = 0 then [(''PD[%u]: NOT PRESENT\<newline>'', [KInt pd_idx])]
              else
                (let virt_base = pd_idx * 4 * 1024 * 1024;
                     (shown, log) = pt_rows virt_base [0..<unat VMM_ENTRIES_PER_PT] 0 s
                 in [(''PD[%u] page table (virt base 0x%08x):\<newline>'', [KInt pd_idx, KInt virt_base])] @ log @
                    (if shown = 0 then say ''  (all 1024 PTEs are empty)\<newline>'' else [])))))"

section \<open>Mapping by hand\<close>

definition cmd_vmm_map :: "string list \<Rightarrow> ('b, 'v) vmm_state \<Rightarrow> ('b, 'v) vmm_state \<times> klog" where
  "cmd_vmm_map argv s =
     (if length argv < 4 then (s, say ''vmm map: usage: vmm map <virt> <phys>\<newline>'')
      else
        (case parse_u32 (argv ! 2) of
           None \<Rightarrow> (s, [(''vmm map: invalid virt: %s\<newline>'', [KStr (Some (argv ! 2))])])
         | Some virt \<Rightarrow>
             (case parse_u32 (argv ! 3) of
                None \<Rightarrow> (s, [(''vmm map: invalid phys: %s\<newline>'', [KStr (Some (argv ! 3))])])
              | Some phys \<Rightarrow>
                  (if virt AND 0xFFF \<noteq> 0 \<or> phys AND 0xFFF \<noteq> 0
                   then (s, say ''vmm map: addresses must be 4KiB aligned\<newline>'')
                   else
                     (case vmm_map_page virt phys (PTE_PRESENT OR PTE_WRITABLE) s of
                        (ret, s1) \<Rightarrow>
                          (s1, if ret = 0 then [(''vmm map: 0x%08x -> 0x%08x OK\<newline>'', [KInt virt, KInt phys])]
                               else say ''vmm map: failed (PMM OOM?)\<newline>''))))))"

definition cmd_vmm_unmap :: "string list \<Rightarrow> ('b, 'v) vmm_state \<Rightarrow> ('b, 'v) vmm_state \<times> klog" where
  "cmd_vmm_unmap argv s =
     (if length argv < 3 then (s, say ''vmm unmap: missing <virt>\<newline>'')
      else
        (case parse_u32 (argv ! 2) of
           None \<Rightarrow> (s, [(''vmm unmap: invalid virt: %s\<newline>'', [KStr (Some (argv ! 2))])])
         | Some virt \<Rightarrow>
             (if virt AND 0xFFF \<noteq> 0 then (s, say ''vmm unmap: address must be 4KiB aligned\<newline>'')
              else (vmm_unmap_page virt s, [(''vmm unmap: 0x%08x OK\<newline>'', [KInt virt])]))))"

text \<open>The read of the word at \<open>0xDEAD0000\<close> faults when the page is not present.\<close>

definition cmd_vmm_fault :: "('b, 'v) vmm_state \<Rightarrow> klog \<times> u32 option" where
  "cmd_vmm_fault s =
     (say ''vmm fault: about to read unmapped address 0xDEAD0000...\<newline>'',
      if walk s 0xDEAD0000 AND PTE_PRESENT = 0 then Some 0xDEAD0000 else None)"

definition cmd_vmm_main :: "string list \<Rightarrow> ('b, 'v) vmm_state \<Rightarrow> ('b, 'v) vmm_state \<times> klog \<times> u32 option" where
  "cmd_vmm_main argv s =
     (if \<not> vmm_is_ready s then (s, say ''VMM: not initialized\<newline>'', None)
      else if length argv < 2 then (s, cmd_vmm_usage, None)
      else if streq (argv ! 1) ''state'' then (s, cmd_vmm_state s, None)
      else if streq (argv ! 1) ''lookup'' then (s, cmd_vmm_lookup argv s, None)
      else if streq (argv ! 1) ''pd'' then (s, cmd_vmm_pd argv s, None)
      else if streq (argv ! 1) ''pt'' then (s, cmd_vmm_pt argv s, None)
      else if streq (argv ! 1) ''map'' then (case cmd_vmm_map argv s of (s1, log) \<Rightarrow> (s1, log, None))
      else if streq (argv ! 1) ''unmap'' then (case cmd_vmm_unmap argv s of (s1, log) \<Rightarrow> (s1, log, None))
      else if streq (argv ! 1) ''fault'' then (case cmd_vmm_fault s of (log, f) \<Rightarrow> (s, log, f))
      else (s, [(''vmm: unknown subcommand: %s\<newline>'', [KStr (Some (argv ! 1))])] @ cmd_vmm_usage, None))"

section \<open>What a line asks for\<close>

datatype vmm_ask = Map_Page u32 u32 | Unmap_Page u32 | Inspect

definition aligned_number :: "string \<Rightarrow> u32 option" where
  "aligned_number t = (case parse_u32 t of None \<Rightarrow> None | Some v \<Rightarrow> if page_aligned v then Some v else None)"

fun vmm_request :: "string list \<Rightarrow> vmm_ask" where
  "vmm_request (c # sub # v # args) =
     (case aligned_number v of
        None \<Rightarrow> Inspect
      | Some virt \<Rightarrow>
          if sub = ''unmap'' then Unmap_Page virt
          else if sub = ''map'' then
            (case args of [] \<Rightarrow> Inspect
             | p # _ \<Rightarrow> (case aligned_number p of None \<Rightarrow> Inspect | Some phys \<Rightarrow> Map_Page virt phys))
          else Inspect)"
| "vmm_request argv = Inspect"

lemma aligned_number:
  "aligned_number t = (case parse_u32 t of None \<Rightarrow> None | Some v \<Rightarrow> if v AND 0xFFF = 0 then Some v else None)"
  by (simp add: aligned_number_def page_aligned_def cong: option.case_cong)

lemma cmd_vmm_main_state:
  assumes "g_vmm_ready s"
  shows "fst (cmd_vmm_main argv s) =
    (case vmm_request argv of
       Map_Page v p \<Rightarrow> snd (vmm_map_page v p (PTE_PRESENT OR PTE_WRITABLE) s)
     | Unmap_Page v \<Rightarrow> vmm_unmap_page v s
     | Inspect \<Rightarrow> s)"
proof -
  have m: "fst (case cmd_vmm_map argv s of (s1, log) \<Rightarrow> (s1, log, None)) = fst (cmd_vmm_map argv s)"
    "fst (case cmd_vmm_unmap argv s of (s1, log) \<Rightarrow> (s1, log, None)) = fst (cmd_vmm_unmap argv s)"
    "fst (case cmd_vmm_fault s of (log, f) \<Rightarrow> (s, log, f)) = s" by (simp_all split: prod.split)
  show ?thesis
  proof (cases argv rule: vmm_request.cases)
    case (1 c sub v args)
    have map: "fst (cmd_vmm_map (c # ''map'' # v # args) s) = (case vmm_request (c # ''map'' # v # args) of
        Map_Page v p \<Rightarrow> snd (vmm_map_page v p (PTE_PRESENT OR PTE_WRITABLE) s) | Unmap_Page v \<Rightarrow> vmm_unmap_page v s | Inspect \<Rightarrow> s)"
      by (simp add: cmd_vmm_map_def aligned_number split: option.split list.split prod.split)
    have unmap: "fst (cmd_vmm_unmap (c # ''unmap'' # v # args) s) = (case vmm_request (c # ''unmap'' # v # args) of
        Map_Page v p \<Rightarrow> snd (vmm_map_page v p (PTE_PRESENT OR PTE_WRITABLE) s) | Unmap_Page v \<Rightarrow> vmm_unmap_page v s | Inspect \<Rightarrow> s)"
      by (simp add: cmd_vmm_unmap_def aligned_number split: option.split)
    have other: "sub \<noteq> ''map'' \<Longrightarrow> sub \<noteq> ''unmap'' \<Longrightarrow> vmm_request argv = Inspect" by (simp add: 1 split: option.split)
    consider "sub = ''map''" | "sub = ''unmap''" | "sub \<noteq> ''map''" "sub \<noteq> ''unmap''" by blast
    then show ?thesis
    proof cases
      case 3
      then show ?thesis using other m(3) assms
        by (simp add: cmd_vmm_main_def vmm_is_ready_def streq_eq 1 if_distrib [of fst] del: vmm_request.simps)
    qed (use map unmap m assms in \<open>simp_all add: cmd_vmm_main_def vmm_is_ready_def streq_eq 1 del: vmm_request.simps\<close>)
  qed (use assms m in \<open>simp_all add: cmd_vmm_main_def cmd_vmm_map_def cmd_vmm_unmap_def vmm_is_ready_def\<close>)
qed

section \<open>Listing a page table\<close>

text \<open>The entries that are present, as index and entry.\<close>

definition present_entries :: "u32 \<Rightarrow> ('b, 'v) vmm_state \<Rightarrow> nat list \<Rightarrow> (u32 \<times> u32 \<times> u32) list" where
  "present_entries base s is =
     [(of_nat i, v, vmm_get_pte v s). i \<leftarrow> is, v \<leftarrow> [base + of_nat i * VMM_PAGE_SIZE], vmm_get_pte v s AND PTE_PRESENT \<noteq> 0]"

lemma pt_rows:
  assumes "unat shown < 64"
  shows "pt_rows base is shown s =
    (let es = present_entries base s is; k = 64 - unat shown in
     (shown + of_nat (min k (length es)), concat (map (\<lambda>(i, v, e). pt_row i v e) (take k es)) @
        (if k \<le> length es then [(''  ... (truncated, %u+ entries)\<newline>'', [KInt 64])] else [])))"
  using assms
proof (induction "is" arbitrary: shown)
  case Nil
  then show ?case by (simp add: present_entries_def)
next
  case (Cons i "is")
  let ?v = "base + of_nat i * VMM_PAGE_SIZE"
  show ?case
  proof (cases "vmm_get_pte ?v s AND PTE_PRESENT = 0")
    case True
    then show ?thesis using Cons by (simp add: present_entries_def)
  next
    case False
    have inc: "unat (shown + 1) = Suc (unat shown)" using Cons.prems unat_inc [of shown 64] by (simp add: word_less_nat_alt)
    have e: "present_entries base s (i # is) = (of_nat i, ?v, vmm_get_pte ?v s) # present_entries base s is"
      using False by (simp add: present_entries_def)
    show ?thesis
    proof (cases "unat shown = 63")
      case True
      then have "shown = 63" by (simp add: word_unat_eq_iff)
      then show ?thesis using False by (simp add: e Let_def)
    next
      case less: False
      then have lt: "unat (shown + 1) < 64" using Cons.prems inc by simp
      then have "\<not> shown + 1 \<ge> 64" by (simp add: word_le_nat_alt)
      moreover have "64 - unat shown = Suc (64 - unat (shown + 1))" using lt inc by simp
      ultimately show ?thesis using False Cons.IH [OF lt] by (simp add: e Let_def)
    qed
  qed
qed

text \<open>What \<open>vmm pt\<close> prints: the first 64 entries that are present, in order.\<close>

lemma vmm_pt_lists:
  assumes "parse_u32 t = Some i" "i < 1024" "g_vmm_ready s" "present s i"
  defines "es \<equiv> present_entries (0x400000 * i) s [0..<1024]"
  shows "cmd_vmm_pt [c, c', t] s =
    [(''PD[%u] page table (virt base 0x%08x):\<newline>'', [KInt i, KInt (0x400000 * i)])] @
    concat (map (\<lambda>(j, v, e). pt_row j v e) (take 64 es)) @
    (if 64 \<le> length es then [(''  ... (truncated, %u+ entries)\<newline>'', [KInt 64])] else []) @
    (if es = [] then say ''  (all 1024 PTEs are empty)\<newline>'' else [])"
proof -
  have "i * 4 * 1024 * 1024 = 0x400000 * i" by simp
  moreover have "vmm_get_pde i s AND PDE_PRESENT \<noteq> 0" "\<not> VMM_ENTRIES_PER_PD \<le> i"
    using assms(2-4) by (simp_all add: vmm_get_pde_def present_def VMM_ENTRIES_PER_PD_def not_le)
  moreover have "(of_nat (min 64 (length es)) :: u32) = 0 \<longleftrightarrow> es = []"
  proof -
    have "unat (of_nat (min 64 (length es)) :: u32) = min 64 (length es)" by (simp add: unat_of_nat min_def)
    then have "(of_nat (min 64 (length es)) :: u32) = 0 \<longleftrightarrow> min 64 (length es) = 0" by (metis unat_eq_0)
    then show ?thesis by (cases es) auto
  qed
  moreover have n: "unat VMM_ENTRIES_PER_PT = 1024" by (simp add: VMM_ENTRIES_PER_PT_def)
  ultimately show ?thesis
    using pt_rows [of 0 "0x400000 * i" "[0..<1024]" s] assms(1)
    by (simp add: cmd_vmm_pt_def es_def [symmetric] Let_def del: upt_rec_numeral)
qed

section \<open>Properties\<close>

text \<open>C15. Whatever line is typed at the command \<open>vmm\<close> on a running kernel: the invariants hold afterwards, and only
  \<open>map\<close> and \<open>unmap\<close> with page-aligned numbers change anything, namely the one page they name (and, for \<open>map\<close>, the
  allocator by the page for a new page table); \<open>map\<close> fails, with the address space as it was, exactly when it needs a page
  table and no page is free.\<close>

theorem vmm_command_spec:
  assumes "kvm_ok bi s" "g_vmm_ready s" and "s' = fst (cmd_vmm_main argv s)"
  shows "kvm_ok bi s' \<and> rest_eq s s' \<and>
    (case vmm_request argv of
       Map_Page v p \<Rightarrow>
         (if present s (pd_index v) \<or> kvm_free s \<noteq> {} then space s' = (space s)(v := p OR 3) \<and> kvm_took {} s s'
          else space s' = space s \<and> kvm_free s' = kvm_free s)
     | Unmap_Page v \<Rightarrow> space s' = (space s)(v := 0) \<and> vm_pmm s' = vm_pmm s
     | Inspect \<Rightarrow> s' = s)"
proof -
  have al: "page_aligned v \<and> page_aligned p" if "vmm_request argv = Map_Page v p" for v p
    using that by (cases argv rule: vmm_request.cases) (auto simp: aligned_number_def split: option.splits list.splits if_splits)
  have au: "page_aligned v" if "vmm_request argv = Unmap_Page v" for v
    using that by (cases argv rule: vmm_request.cases) (auto simp: aligned_number_def split: option.splits list.splits if_splits)
  have s': "s' = (case vmm_request argv of
       Map_Page v p \<Rightarrow> snd (vmm_map_page v p (PTE_PRESENT OR PTE_WRITABLE) s) | Unmap_Page v \<Rightarrow> vmm_unmap_page v s | Inspect \<Rightarrow> s)"
    using assms(3) cmd_vmm_main_state [OF assms(2)] by simp
  show ?thesis
  proof (cases "vmm_request argv")
    case (Map_Page v p)
    have "(PTE_PRESENT OR PTE_WRITABLE) AND 0xFFF = 3" by (simp add: PTE_PRESENT_def PTE_WRITABLE_def)
    then show ?thesis
      using kb.map_page_total [OF assms(1) prod.collapse [symmetric], of v p "PTE_PRESENT OR PTE_WRITABLE"] al [OF Map_Page]
      by (simp add: s' Map_Page split: if_splits)
  next
    case (Unmap_Page v)
    then show ?thesis using kb.vmm_unmap_page [OF assms(1) au [OF Unmap_Page]] by (simp add: s')
  next
    case Inspect
    then show ?thesis using assms(1) by (simp add: s')
  qed
qed

theorem vmm_command_spec_witness:
  "space (fst (cmd_vmm_main [''vmm'', ''map'', ''0xD0000000'', ''20480''] sample_vmm)) 0xD0000000 = 0x5003"
proof -
  have r: "vmm_request [''vmm'', ''map'', ''0xD0000000'', ''20480''] = Map_Page 0xD0000000 0x5000" by code_simp
  have "kvm_free sample_vmm \<noteq> {}" using sample_vmm_ok(3) by auto
  then show ?thesis
    using vmm_command_spec [OF sample_vmm_ok(1,2) refl, of "[''vmm'', ''map'', ''0xD0000000'', ''20480'']"] unfolding r by simp
qed

text \<open>C16. A page mapped with \<open>vmm map\<close> is reported by \<open>vmm lookup\<close> of any address in it, with its frame, its flags, and
  the accessed and dirty bits as the processor has set them in its entry since (at any time and to any entries); after
  \<open>vmm unmap\<close> it is reported as not mapped. The page tables must be reachable where the code reads them: the direct map
  holds for the page tables and the free pages before, and the mapped page is not the window of one of these. Then
  it still holds for the page tables when they are read.\<close>

theorem vmm_map_lookup:
  assumes "kvm_ok bi s" "g_vmm_ready s" "window s (tables s \<union> kvm_free s)" "v \<notin> PHYS_TO_VIRT ` (tables s \<union> kvm_free s)"
    and "vmm_request l1 = Map_Page v p" "present s (pd_index v) \<or> kvm_free s \<noteq> {}" "cpu_touch\<^sup>*\<^sup>* (fst (cmd_vmm_main l1 s)) s1"
    and "vmm_request l3 = Unmap_Page v" "cpu_touch\<^sup>*\<^sup>* (fst (cmd_vmm_main l3 s1)) s2" "parse_u32 t = Some w" "w AND NOT 0xFFF = v"
  shows "window s1 (tables s1) \<and> window s2 (tables s2) \<and>
    cmd_vmm_main [''vmm'', ''lookup'', t] s1 = (s1, [(''virt 0x%08x -> phys 0x%08x  ['', [KInt v, KInt p])] @
      say ''P'' @ [(''%s'', [KStr (Some '' RW'')])] @ [(''%s'', [KStr (Some '' S'')])] @
      (if walk s1 v AND PTE_ACCESSED \<noteq> 0 then say '' A'' else []) @ (if walk s1 v AND PTE_DIRTY \<noteq> 0 then say '' D'' else []) @
      say '']\<newline>'', None) \<and>
    cmd_vmm_main [''vmm'', ''lookup'', t] s2 = (s2, [(''virt 0x%08x -> NOT MAPPED\<newline>'', [KInt v])], None)"
proof -
  have al: "page_aligned v" "page_aligned p"
    using assms(5) by (cases l1 rule: vmm_request.cases, auto simp: aligned_number_def split: option.splits list.splits if_splits)+
  define m where "m = snd (vmm_map_page v p (PTE_PRESENT OR PTE_WRITABLE) s)"
  have fl: "(PTE_PRESENT OR PTE_WRITABLE) AND 0xFFF = 3" by (simp add: PTE_PRESENT_def PTE_WRITABLE_def)
  have M: "kvm_ok bi m \<and> rest_eq s m \<and> space m = (space s)(v := p OR 3) \<and> kvm_took {} s m"
    using kb.map_page_total [OF assms(1) prod.collapse [symmetric], of v p "PTE_PRESENT OR PTE_WRITABLE"] al assms(6)
    by (simp add: m_def fl)
  have "cpu_touch\<^sup>*\<^sup>* m s1" using cmd_vmm_main_state [OF assms(2)] assms(5,7) by (simp add: m_def)
  then have T1: "touched m s1" using cpu_touches M by blast
  have ok1: "kvm_ok bi s1" using touched_space(3) [OF T1] M by simp
  have rdy1: "g_vmm_ready s1" using T1 M assms(2) by (simp add: touched_def rest_eq_def)
  define u where "u = vmm_unmap_page v s1"
  note U = kb.vmm_unmap_page [OF ok1 al(1), folded u_def]
  have "cpu_touch\<^sup>*\<^sup>* u s2" using cmd_vmm_main_state [OF rdy1] assms(8,9) by (simp add: u_def)
  then have T2: "touched u s2" using cpu_touches U(2) by blast
  have rdy2: "g_vmm_ready s2" using T2 U(3) rdy1 by (simp add: touched_def rest_eq_def)
  have sub: "tables m \<subseteq> tables s \<union> kvm_free s" using M by (auto simp: took_def)
  have "window m (tables s \<union> kvm_free s)" using window_upd [OF assms(3) _ assms(4)] M by blast
  then have w1: "window s1 (tables s1)" using touched_space(1,2) [OF T1] window_mono [OF _ sub] by simp
  moreover have "v \<notin> PHYS_TO_VIRT ` tables s1" using assms(4) sub touched_space(1) [OF T1] by auto
  then have "window s2 (tables s2)" using touched_space(1,2) [OF T2] window_upd [OF w1 U(1)] U(5) by simp
  moreover have mv: "space m v = p OR 3" using M by simp
  obtain b where b: "b \<in> {0, 0x20, 0x60}" "space s1 v = (p OR 3) OR b"
    using touched_space(5) [OF T1, of v] unfolding mv by blast
  have z: "p AND k = 0" if "0xFFF AND k = k" for k
    using al(2) that and.assoc [of p "0xFFF" k] by (simp add: page_aligned_def)
  have "space s1 v AND k = (p AND k) OR (3 OR b) AND k" for k by (simp add: b(2) bit.conj_disj_distrib2 or.assoc)
  then have e: "space s1 v AND 1 \<noteq> 0" "space s1 v AND 2 \<noteq> 0" "space s1 v AND 4 = 0" "frame_of (space s1 v) = p"
    using b(1) frame_of_or [OF al(2), of "3 OR b"] by (auto simp: z b(2) or.assoc)
  have "space s2 v = 0" using touched_space(4) [OF T2, of v] U(1) by simp
  ultimately show ?thesis using e assms(10,11) rdy1 rdy2 al(1) query_space [of v s1] query_space [of v s2]
    by (simp add: cmd_vmm_main_def vmm_is_ready_def cmd_vmm_lookup_def print_flags_def space_def PTE_ACCESSED_def PTE_DIRTY_def)
qed

lemma cpu_touch_page:
  assumes "walk s v AND PTE_PRESENT \<noteq> 0"
  shows "\<exists>s'. cpu_touch s s' \<and> walk s' v = walk s v OR (PTE_ACCESSED OR PTE_DIRTY)"
proof -
  define t where "t = PHYS_TO_VIRT (table_of s (pd_index v))"
  define s' where "s' = pt_set t (pt_index v) (pt_get s t (pt_index v) OR (PTE_ACCESSED OR PTE_DIRTY)) s"
  have p: "present s (pd_index v)" using assms by (simp add: walk_def split: if_splits)
  have w: "walk s v = pt_get s t (pt_index v)" by (simp add: walk_def p t_def)
  have "cpu_touch s s'" unfolding s'_def using index_lt p assms w by (intro cpu_touch.pte [of "pd_index v"]) (auto simp: t_def)
  moreover have pd: "pd_get s' k = pd_get s k" for k by (simp add: s'_def vm_simps)
  then have "present s' k = present s k" "table_of s' k = table_of s k" for k by (simp_all add: present_def table_of_def)
  then have "walk s' v = walk s v OR (PTE_ACCESSED OR PTE_DIRTY)"
    using p by (simp add: walk_def flip: t_def) (simp add: s'_def pt_get_def pt_set_def)
  ultimately show ?thesis by blast
qed

theorem vmm_map_lookup_witness:
  "\<exists>s s1. vmm_init 0x120000 sample_vmm0 = Some s \<and>
     cpu_touch (fst (cmd_vmm_main [''vmm'', ''map'', ''0xD0000000'', ''20480''] s)) s1 \<and>
     cmd_vmm_main [''vmm'', ''lookup'', ''0xD0000123''] s1 = (s1, [(''virt 0x%08x -> phys 0x%08x  ['', [KInt 0xD0000000, KInt 0x5000])] @
       say ''P'' @ [(''%s'', [KStr (Some '' RW'')])] @ [(''%s'', [KStr (Some '' S'')])] @ say '' A'' @ say '' D'' @ say '']\<newline>'', None)"
proof -
  let ?l1 = "[''vmm'', ''map'', ''0xD0000000'', ''20480'']"
  have r: "vmm_request ?l1 = Map_Page 0xD0000000 0x5000"
    "vmm_request [''vmm'', ''unmap'', ''0xD0000000''] = Unmap_Page 0xD0000000" "parse_u32 ''0xD0000123'' = Some 0xD0000123"
    "(0xD0000123 :: u32) AND NOT 0xFFF = 0xD0000000" by code_simp+
  obtain s where s: "vmm_init 0x120000 sample_vmm0 = Some s" "kvm_ok sample_boot s" "g_vmm_ready s" "card (kvm_free s) = 511"
    "kvm_free s = bm_free large_bitmap - tables s" "tables s \<subseteq> bm_free large_bitmap" "window s (bm_managed large_bitmap)"
    using sample_booted by blast
  have f: "kvm_free s \<noteq> {}" using s(4) by auto
  have sub: "tables s \<union> kvm_free s \<subseteq> bm_managed large_bitmap" using s(5,6) bm.free_managed [of large_bitmap] large_bitmap_core by (auto simp: bm_inv_def)
  have "a \<noteq> 0x10000000" if "a \<in> bm_managed large_bitmap" for a using sample_bitmap_low(3) that by fastforce
  then have out: "0xD0000000 \<notin> PHYS_TO_VIRT ` (tables s \<union> kvm_free s)"
    using sub by (auto simp: PHYS_TO_VIRT_def KERNEL_VIRT_OFFSET_def eq_diff_eq [symmetric] dest!: subsetD)
  define m where "m = fst (cmd_vmm_main ?l1 s)"
  have "m = snd (vmm_map_page 0xD0000000 0x5000 (PTE_PRESENT OR PTE_WRITABLE) s)" using cmd_vmm_main_state [OF s(3)] r(1) by (simp add: m_def)
  then have "space m 0xD0000000 = 0x5003"
    using kb.map_page_total [OF s(2) prod.collapse [symmetric], of "0xD0000000" "0x5000" "PTE_PRESENT OR PTE_WRITABLE"] f
    by (simp add: page_aligned_def PTE_PRESENT_def PTE_WRITABLE_def)
  then have w: "walk m 0xD0000000 = 0x5003" by (simp add: space_def page_aligned_def)
  then obtain s1 where s1: "cpu_touch m s1" "walk s1 0xD0000000 = 0x5003 OR (PTE_ACCESSED OR PTE_DIRTY)"
    using cpu_touch_page [of m "0xD0000000"] by (auto simp: PTE_PRESENT_def)
  have touch: "cpu_touch\<^sup>*\<^sup>* (fst (cmd_vmm_main ?l1 s)) s1" using s1(1) unfolding m_def by (rule r_into_rtranclp)
  from vmm_map_lookup [OF s(2,3) window_mono [OF s(7) sub] out r(1) disjI2 [OF f] touch
      r(2) rtranclp.rtrancl_refl r(3,4)] s(1) s1
  show ?thesis unfolding m_def by (auto simp: PTE_ACCESSED_def PTE_DIRTY_def)
qed

end
