(* ===== verification/Kmain.thy ===== *)
theory Kmain
  imports Kmalloc Vma_Sorted_Array Syscall Traps Cpu_Tables
begin

text \<open>
  The start-up sequence \<open>kmain.c\<close>: the order in which the parts of the kernel are initialised, what each
  is given, and the state in which the shell starts. The configuration is that of \<open>kconfig.h\<close>: the bitmap
  allocator, the first-fit heap, the sorted array of memory areas.
\<close>

section \<open>State\<close>

text \<open>The statics of all parts. The heap holds the virtual memory manager, which holds the physical
  allocator and the memory areas; the keyboard's state holds the ports and what is printed. What a part
  prints while it initialises itself is not kept.\<close>

record 'm kernel =
  kn_kbd :: kbd
  kn_irqs :: "unit kbd_ext irq_table"
  kn_tables :: tables
  kn_heap :: "(bitmap_state, sa_state) ff_state kmalloc_state"
  kn_sys :: "'m sys_state"
  kn_mb2_info :: u32

definition kmain_print :: "string \<Rightarrow> karg list \<Rightarrow> 'm kernel \<Rightarrow> 'm kernel" where
  "kmain_print fmt args k = k\<lparr>kn_kbd := kprint fmt args (kn_kbd k)\<rparr>"

definition kn_vm :: "'m kernel \<Rightarrow> (bitmap_state, sa_state) vmm_state" where
  "kn_vm k = kh_vm (km_heap (kn_heap k))"

definition set_vm :: "(bitmap_state, sa_state) vmm_state \<Rightarrow> 'm kernel \<Rightarrow> 'm kernel" where
  "set_vm vm k = k\<lparr>kn_heap := (kn_heap k)\<lparr>km_heap := (km_heap (kn_heap k))\<lparr>kh_vm := vm\<rparr>\<rparr>\<rparr>"

section \<open>The boot information\<close>

text \<open>The boot code maps low memory at its own addresses and in the direct map alike.\<close>

partial_function (option) mb2_dump_loop :: "memory \<Rightarrow> u32 \<Rightarrow> u32 \<Rightarrow> klog \<Rightarrow> klog option" where
  "mb2_dump_loop m en p log =
     (if p + 8 \<le> en then
        (let tag = PHYS_TO_VIRT p in
         if tag_type m tag = 0 \<and> tag_size m tag = 8 then Some (log @ say ''[mb2] end tag\<newline>'')
         else
           (let log = log @ [(''[mb2] tag type=%u, size=%u\<newline>'', [KInt (tag_type m tag), KInt (tag_size m tag)])] in
            if tag_size m tag < 8 then Some (log @ say ''[mb2] invalid tag size\<newline>'')
            else (let next = (tag_size m tag + 7) AND NOT 7 in mb2_dump_loop m en (p + next) log)))
      else Some log)"

definition mb2_dump_tags :: "memory \<Rightarrow> u32 \<Rightarrow> klog option" where
  "mb2_dump_tags m base =
     (let total_size = rd32 m (PHYS_TO_VIRT base) in
      mb2_dump_loop m (base + total_size) (base + 8) [(''[mb2] info @ %p, total_size=%u\<newline>'', [KInt base, KInt total_size])])"

section \<open>The banner\<close>

definition KERNEL_NAME :: string where "KERNEL_NAME = ''SZY-KERNEL''"
definition KERNEL_VERSION :: string where "KERNEL_VERSION = ''0.1.0-dev''"

fun kstrlen :: "string \<Rightarrow> int" where
  "kstrlen [] = 0"
| "kstrlen (c # s) = 1 + kstrlen s"

definition banner_pad_to_inner_width :: "int \<Rightarrow> klog" where
  "banner_pad_to_inner_width already_printed =
     (let inner_width = 78; remain = inner_width - already_printed; remain = (if remain < 0 then 0 else remain)
      in replicate (nat remain) (''%c'', [kchar (CHR '' '')]))"

text \<open>\<open>date\<close> and \<open>time\<close> are the strings the compiler puts in.\<close>

definition kmain_print_login :: "string \<Rightarrow> string \<Rightarrow> klog" where
  "kmain_print_login date time =
     (let esc = [CHR 0x1B]; bs = [CHR 0x5C];
          name_w = kstrlen KERNEL_NAME; name_w = (if name_w < 12 then 12 else name_w);
          ver_w = kstrlen KERNEL_VERSION; ver_w = (if ver_w < 16 then 16 else ver_w);
          already = 2 + name_w + 2 + ver_w + 9 + kstrlen date + 1 + kstrlen time
      in say (esc @ ''[2J'' @ esc @ ''[H'') @
         say ''+------------------------------------------------------------------------------+\<newline>'' @
         say ''|   _____  ________  __   __      __ ________________                          |\<newline>'' @
         say ''|  / ___/ /_  __/ / / /  / /__   / //_/ __/ __/ __/ /                          |\<newline>'' @
         say (''| / /__    / / / /_/ /  / / _ '' @ bs @ '' / ,< / _// _// _// /                           |\<newline>'') @
         say (''| '' @ bs @ ''___/   /_/  '' @ bs @ ''____/  /_/'' @ bs @ ''___//_/|_/___/___/___/_/                            |\<newline>'') @
         say ''|                                                                              |\<newline>'' @
         say ''|'' @
         [(''  %-12s v%-16s  build: %s %s'', [KStr (Some KERNEL_NAME), KStr (Some KERNEL_VERSION), KStr (Some date), KStr (Some time)])] @
         banner_pad_to_inner_width already @
         say ''|\<newline>'' @
         say ''|  input: keyboard (IRQ1) + serial (COM1 polling)                              |\<newline>'' @
         say (''|  tip  : type '' @ [CHR 0x27] @ ''cls'' @ [CHR 0x27] @ '' then Enter to clear                                       |\<newline>'') @
         say ''+------------------------------------------------------------------------------+\<newline>'' @
         say ''\<newline>'')"

section \<open>The start-up sequence\<close>

text \<open>\<open>pmm_init\<close>: the allocator works on the memory that everything else sees.\<close>

definition kmain_pmm_init :: "boot_info \<Rightarrow> 'm kernel \<Rightarrow> 'm kernel option" where
  "kmain_pmm_init bi k =
     (let vm = kn_vm k; pm = pmm_register_backend (Some (g_bitmap_ops bi)) (vm_pmm vm);
          pm = pm\<lparr>pmm_data := (pmm_data pm)\<lparr>g_mem := vm_mem vm\<rparr>\<rparr>
      in map_option (\<lambda>pm1. set_vm (vm\<lparr>vm_pmm := pm1, vm_mem := g_mem (pmm_data pm1)\<rparr>) k) (pmm_init (g_bitmap_ops bi) pm))"

definition kmain_heap_init :: "'m kernel \<Rightarrow> 'm kernel" where
  "kmain_heap_init k = k\<lparr>kn_heap := kmalloc_init (kmalloc_register_backend (Some heap_first_fit_ops) (kn_heap k))\<rparr>"

definition kmain_vma_init :: "'m kernel \<Rightarrow> 'm kernel" where
  "kmain_vma_init k =
     (let vm = kn_vm k; v1 = vma_init (vma_register_backend (Some sa_ops) (vm_vma vm));
          v2 = (if vma_is_ready v1 then
                  (let va = snd (vma_add v1 KERNEL_VIRT_OFFSET (vmm_direct_map_end vm) (VMA_READ OR VMA_WRITE OR VMA_EXEC) (Some ''direct-map''))
                   in snd (vma_add va KHEAP_START (KHEAP_START + KCONFIG_HEAP_INITIAL_PAGES * VMM_PAGE_SIZE) (VMA_READ OR VMA_WRITE) (Some ''kheap'')))
                else v1)
      in set_vm (vm\<lparr>vm_vma := v2\<rparr>) k)"

text \<open>The branch for a good magic number; \<open>kernel_start\<close> and \<open>kernel_end\<close> are the linker's symbols.\<close>

definition kmain_memory :: "u32 \<Rightarrow> u32 \<Rightarrow> u32 \<Rightarrow> 'm kernel \<Rightarrow> 'm kernel option" where
  "kmain_memory kernel_start kernel_end mb2_info k =
     (let k0 = k\<lparr>kn_mb2_info := mb2_info\<rparr>;
          bi = \<lparr>g_mb2_info = mb2_info, kernel_phys_start = kernel_start, kernel_phys_end = kernel_end\<rparr>
      in case mb2_dump_tags (vm_mem (kn_vm k0)) mb2_info of
           None \<Rightarrow> None
         | Some log \<Rightarrow>
             (let k1 = fold (\<lambda>(fmt, args). kmain_print fmt args) log k0 in
              case kmain_pmm_init bi k1 of
                None \<Rightarrow> None
              | Some k2 \<Rightarrow>
                  (case vmm_init kernel_end (kn_vm k2) of
                     None \<Rightarrow> None
                   | Some vm3 \<Rightarrow>
                       (let k3 = set_vm vm3 k2;
                            k4 = k3\<lparr>kn_mb2_info := PHYS_TO_VIRT (kn_mb2_info k3)\<rparr>;
                            k5 = set_vm (vmm_unmap_identity (kn_vm k4)) k4;
                            k6 = kmain_heap_init k5;
                            k7 = kmain_vma_init k6
                        in Some (k7\<lparr>kn_sys := syscall_init (kn_sys k7)\<rparr>)))))"

text \<open>Up to the call of \<open>shell_run\<close>, which does not return.\<close>

definition kmain :: "device \<Rightarrow> link \<Rightarrow> string \<Rightarrow> string \<Rightarrow> u32 \<Rightarrow> u32 \<Rightarrow> u32 \<Rightarrow> u32 \<Rightarrow> 'm kernel \<Rightarrow> 'm kernel option" where
  "kmain dev l date time kernel_start kernel_end mb2_magic mb2_info k =
     (let k1 = k\<lparr>kn_kbd := (kn_kbd k)\<lparr>k_io := serial_init (k_io (kn_kbd k))\<rparr>\<rparr>;
          k2 = kmain_print ''[init] gdt ok\<newline>'' [] (k1\<lparr>kn_tables := gdt_init l (kn_tables k1)\<rparr>);
          k3 = kmain_print ''[init] idt ok\<newline>'' [] (k2\<lparr>kn_tables := idt_init l (kn_tables k2)\<rparr>);
          k4 = kmain_print ''[mb2] magic=%08x\<newline>'' [KInt mb2_magic] (k3\<lparr>kn_tables := tss_init l (kn_tables k3)\<rparr>)
      in case (if mb2_magic \<noteq> 0x36d76289 then Some (kmain_print ''[mb2] bad magic\<newline>'' [] k4)
               else kmain_memory kernel_start kernel_end mb2_info k4) of
           None \<Rightarrow> None
         | Some k5 \<Rightarrow>
             (let (irqs, kb) = keyboard_init dev (kn_irqs k5, pic_init dev (kn_kbd k5));
                  k6 = k5\<lparr>kn_irqs := irqs, kn_kbd := kb\<rparr>;
                  k7 = fold (\<lambda>(fmt, args). kmain_print fmt args) (kmain_print_login date time) k6
              in Some (kmain_print ''[kbd] IRQ1 enabled. Starting shell...\<newline>'' [] k7)))"

end
