(* ===== verification/Cmd_Vma.thy ===== *)
theory Cmd_Vma
  imports Cmd_Args Vma_Sorted_Array Vma_Rbtree_Spec Vma_Maple_Spec
begin

text \<open>
  The shell command \<open>vma\<close> (\<open>cmd_vma.c\<close>): looking an address up, the counter, and the self-test of the
  memory areas. What \<open>vma list\<close> prints comes from the back-end, which gets it as an argument here.
\<close>

section \<open>The subcommands\<close>

definition cmd_vma_usage :: klog where
  "cmd_vma_usage = concat (map say
     [''Usage:\<newline>'',
      ''  vma list              List all VMAs (sorted by address)\<newline>'',
      ''  vma find <addr>       Find VMA containing address\<newline>'',
      ''  vma count             Show VMA count and backend info\<newline>'',
      ''  vma test              Run VMA selftest\<newline>'',
      ''Notes:\<newline>'',
      ''  Addresses can be decimal or hex (0x...)\<newline>''])"

definition cmd_vma_list :: "('v vma_state \<Rightarrow> klog) \<Rightarrow> 'v vma_state \<Rightarrow> klog" where
  "cmd_vma_list dump v = (if \<not> vma_is_ready v then say ''VMA subsystem not initialized\<newline>'' else dump v)"

definition area_flag :: "u32 \<Rightarrow> u32 \<Rightarrow> char \<Rightarrow> karg" where
  "area_flag flags flag c = kchar (if flags AND flag \<noteq> 0 then c else CHR ''-'')"

definition cmd_vma_find_addr :: "'v vma_state \<Rightarrow> string list \<Rightarrow> klog" where
  "cmd_vma_find_addr v argv =
     (if length argv < 3 then say ''vma find: missing <addr>\<newline>''
      else
        (case parse_u32 (argv ! 2) of
           None \<Rightarrow> [(''vma find: invalid addr: %s\<newline>'', [KStr (Some (argv ! 2))])]
         | Some addr \<Rightarrow>
             (case vma_find v addr of
                Some a \<Rightarrow>
                  (let size = va_end a - va_start a; offset = addr - va_start a in
                   [(''0x%08x -> VMA [0x%08x, 0x%08x) '' @ [CHR 0x27] @ ''%s'' @ [CHR 0x27] @ ''\<newline>'',
                      [KInt addr, KInt (va_start a), KInt (va_end a),
                       KStr (Some (case va_name a of None \<Rightarrow> ''?'' | Some n \<Rightarrow> n))]),
                    (''  size: %u KiB, offset: 0x%x, flags: %c%c%c\<newline>'',
                      [KInt (size div 1024), KInt offset, area_flag (va_flags a) VMA_READ (CHR ''r''),
                       area_flag (va_flags a) VMA_WRITE (CHR ''w''), area_flag (va_flags a) VMA_EXEC (CHR ''x'')])])
              | None \<Rightarrow> [(''0x%08x -> no VMA (unmapped / untracked)\<newline>'', [KInt addr])])))"

definition cmd_vma_count_fn :: "'v vma_state \<Rightarrow> klog" where
  "cmd_vma_count_fn v =
     (if \<not> vma_is_ready v then say ''VMA subsystem not initialized\<newline>''
      else
        (let backend = vma_backend_name v in
         [(''VMA backend: %s\<newline>'', [KStr (Some (case backend of None \<Rightarrow> ''(none)'' | Some b \<Rightarrow> b))]),
          (''VMA count:   %u\<newline>'', [KInt (of_nat (vma_count v))])]))"

section \<open>The self-test\<close>

text \<open>A part of the test returns whether it passed, the new state and what it printed; \<open>None\<close> instead of a
  verdict is the early return of the first part.\<close>

definition test_start :: u32 where "test_start = 0xF1000000"
definition test_end :: u32 where "test_end = 0xF1010000"

definition pass_line :: klog where "pass_line = say ''[vma-test] PASS\<newline>''"

definition finds :: "'v vma_state \<Rightarrow> u32 \<Rightarrow> u32 \<Rightarrow> bool" where
  "finds v addr start = (case vma_find v addr of None \<Rightarrow> False | Some a \<Rightarrow> va_start a = start)"

definition vma_test1 :: "'v vma_state \<Rightarrow> bool option \<times> 'v vma_state \<times> klog" where
  "vma_test1 v =
     (let log = say ''[vma-test] test 1: add + find\<newline>'' in
      case vma_add v test_start test_end (VMA_READ OR VMA_WRITE) (Some ''_test'') of
        (r, v1) \<Rightarrow>
          if r \<noteq> 0 then (None, v1, log @ say ''[vma-test] FAIL: vma_add returned error\<newline>'')
          else if (case vma_find v1 (test_start + 0x100) of
                     None \<Rightarrow> True | Some a \<Rightarrow> va_start a \<noteq> test_start \<or> va_end a \<noteq> test_end)
            then (Some False, v1, log @ say ''[vma-test] FAIL: vma_find inside range failed\<newline>'')
          else (Some True, v1, log @ pass_line))"

definition vma_test2 :: "'v vma_state \<Rightarrow> bool \<times> 'v vma_state \<times> klog" where
  "vma_test2 v =
     (let log = say ''[vma-test] test 2: find outside\<newline>'' in
      if finds v (test_start - 0x1000) test_start
      then (False, v, log @ say ''[vma-test] FAIL: found VMA for address below range\<newline>'')
      else (True, v, log @ pass_line))"

definition vma_test3 :: "'v vma_state \<Rightarrow> bool \<times> 'v vma_state \<times> klog" where
  "vma_test3 v =
     (let log = say ''[vma-test] test 3: overlap detection\<newline>'' in
      case vma_add v (test_start + 0x1000) (test_end + 0x1000) VMA_READ (Some ''_test_overlap'') of
        (ret, v1) \<Rightarrow>
          if ret = 0 then (False, snd (vma_remove v1 (test_start + 0x1000)),
            log @ say ''[vma-test] FAIL: overlapping add should have failed\<newline>'')
          else (True, v1, log @ pass_line))"

definition vma_test4 :: "'v vma_state \<Rightarrow> bool \<times> 'v vma_state \<times> klog" where
  "vma_test4 v =
     (let log = say ''[vma-test] test 4: remove + find\<newline>'' in
      case vma_remove v test_start of
        (r, v1) \<Rightarrow>
          if r \<noteq> 0 then (False, v1, log @ say ''[vma-test] FAIL: vma_remove returned error\<newline>'')
          else if finds v1 (test_start + 0x100) test_start
            then (False, v1, log @ say ''[vma-test] FAIL: VMA still found after remove\<newline>'')
          else (True, v1, log @ pass_line))"

definition vma_test5 :: "'v vma_state \<Rightarrow> bool \<times> 'v vma_state \<times> klog" where
  "vma_test5 v =
     (let log = say ''[vma-test] test 5: boundary find (start, end-1, end)\<newline>'' in
      case vma_add v test_start test_end VMA_READ (Some ''_test_bound'') of
        (r, v1) \<Rightarrow>
          if r \<noteq> 0 then (False, v1, log @ say ''[vma-test] FAIL: vma_add for boundary test\<newline>'')
          else
            (let lo = finds v1 test_start test_start; hi = finds v1 (test_end - 1) test_start;
                 out = finds v1 test_end test_start;
                 log1 = (if lo then [] else [(''[vma-test] FAIL: find(start=0x%08x) missed\<newline>'', [KInt test_start])]);
                 log2 = (if hi then [] else [(''[vma-test] FAIL: find(end-1=0x%08x) missed\<newline>'', [KInt (test_end - 1)])]);
                 log3 = (if out then [(''[vma-test] FAIL: find(end=0x%08x) should not hit\<newline>'', [KInt test_end])] else []);
                 bound_ok = (lo \<and> hi \<and> \<not> out)
             in (bound_ok, snd (vma_remove v1 test_start),
                 log @ log1 @ log2 @ log3 @ (if bound_ok then pass_line else []))))"

definition vma_test6 :: "'v vma_state \<Rightarrow> bool \<times> 'v vma_state \<times> klog" where
  "vma_test6 v =
     (let log = say ''[vma-test] test 6: adjacent regions\<newline>'';
          a_start = 0xF1020000; a_end = 0xF1030000; b_start = 0xF1030000; b_end = 0xF1040000;
          (ra, v1) = vma_add v a_start a_end VMA_READ (Some ''_adj_a'');
          log1 = (if ra \<noteq> 0 then say ''[vma-test] FAIL: add region A\<newline>'' else []);
          (rb, v2) = (if ra = 0 then vma_add v1 b_start b_end (VMA_READ OR VMA_WRITE) (Some ''_adj_b'') else (0, v1));
          log2 = (if rb \<noteq> 0 then say ''[vma-test] FAIL: add region B (adjacent should succeed)\<newline>'' else []);
          adj_ok = (ra = 0 \<and> rb = 0);
          in_a = finds v2 (a_start + 0x100) a_start;
          in_b = finds v2 (b_start + 0x100) b_start;
          rw = (case vma_find v2 a_start of None \<Rightarrow> False | Some a \<Rightarrow> va_flags a AND VMA_WRITE \<noteq> 0);
          log3 = (if adj_ok \<and> \<not> in_a then say ''[vma-test] FAIL: find in region A\<newline>'' else []);
          log4 = (if adj_ok \<and> \<not> in_b then say ''[vma-test] FAIL: find in region B\<newline>'' else []);
          log5 = (if adj_ok \<and> rw then say ''[vma-test] FAIL: region A should be RO\<newline>'' else []);
          ok = (adj_ok \<and> in_a \<and> in_b \<and> \<not> rw);
          v3 = snd (vma_remove v2 a_start);
          v4 = snd (vma_remove v3 b_start)
      in (ok, v4, log @ log1 @ log2 @ log3 @ log4 @ log5 @ (if ok then pass_line else [])))"

definition VMA_BATCH_N :: nat where "VMA_BATCH_N = 8"

definition batch_base :: "nat \<Rightarrow> u32" where
  "batch_base i = 0xF1050000 + of_nat i * 0x10000"

fun batch_remove :: "nat list \<Rightarrow> 'v vma_state \<Rightarrow> 'v vma_state" where
  "batch_remove [] v = v"
| "batch_remove (i # is) v = batch_remove is (snd (vma_remove v (batch_base i)))"

fun batch_add :: "nat \<Rightarrow> nat list \<Rightarrow> 'v vma_state \<Rightarrow> bool \<times> 'v vma_state \<times> klog" where
  "batch_add i [] v = (True, v, [])"
| "batch_add i (_ # rest) v =
     (case vma_add v (batch_base i) (batch_base i + 0x10000) VMA_READ (Some ''_batch'') of
        (r, v1) \<Rightarrow>
          if r \<noteq> 0 then (False, batch_remove [0..<i] v1,
            [(''[vma-test] FAIL: batch add %d (0x%08x)\<newline>'', [KInt (of_nat i), KInt (batch_base i)])])
          else batch_add (i + 1) rest v1)"

definition batch_misses :: "'v vma_state \<Rightarrow> nat list" where
  "batch_misses v = filter (\<lambda>i. \<not> finds v (batch_base i + 0x8000) (batch_base i)) [0..<VMA_BATCH_N]"

definition vma_test7 :: "'v vma_state \<Rightarrow> bool \<times> 'v vma_state \<times> klog" where
  "vma_test7 v =
     (let log = say ''[vma-test] test 7: batch add/find (8 regions)\<newline>'';
          (added, v1, log1) = batch_add 0 [0..<VMA_BATCH_N] v;
          misses = (if added then batch_misses v1 else []);
          log2 = map (\<lambda>i. (''[vma-test] FAIL: batch find %d (0x%08x)\<newline>'', [KInt (of_nat i), KInt (batch_base i)])) misses;
          v2 = (if added then batch_remove [0..<VMA_BATCH_N] v1 else v1);
          batch_ok = (added \<and> misses = [])
      in (batch_ok, v2, log @ log1 @ log2 @ (if batch_ok then pass_line else [])))"

definition vma_test8 :: "'v vma_state \<Rightarrow> bool \<times> 'v vma_state \<times> klog" where
  "vma_test8 v =
     (let log = say ''[vma-test] test 8: remove non-existent\<newline>''; (ret, v1) = vma_remove v 0xF1FF0000 in
      if ret = 0 then (False, v1, log @ say ''[vma-test] FAIL: removing non-existent VMA should fail\<newline>'')
      else (True, v1, log @ pass_line))"

definition vma_test9 :: "'v vma_state \<Rightarrow> bool \<times> 'v vma_state \<times> klog" where
  "vma_test9 v =
     (let log = say ''[vma-test] test 9: count consistency\<newline>''; count_before = vma_count v in
      case vma_add v test_start test_end VMA_READ (Some ''_cnt'') of
        (r, v1) \<Rightarrow>
          if r \<noteq> 0 then (False, v1, log @ say ''[vma-test] FAIL: add for count test\<newline>'')
          else
            (let count_after = vma_count v1; grown = (count_after = count_before + 1);
                 log1 = (if grown then [] else [(''[vma-test] FAIL: count %u -> %u (expected +1)\<newline>'',
                   [KInt (of_nat count_before), KInt (of_nat count_after)])]);
                 v2 = snd (vma_remove v1 test_start); count_final = vma_count v2
             in if count_final \<noteq> count_before
                then (False, v2, log @ log1 @ [(''[vma-test] FAIL: count not restored %u != %u\<newline>'',
                   [KInt (of_nat count_final), KInt (of_nat count_before)])])
                else (grown, v2, log @ log1 @ pass_line)))"

definition cmd_vma_test :: "'v vma_state \<Rightarrow> 'v vma_state \<times> klog" where
  "cmd_vma_test v =
     (if \<not> vma_is_ready v then (v, say ''VMA subsystem not initialized\<newline>'')
      else
        (let log0 = say ''[vma-test] === VMA selftest ===\<newline>'' in
         case vma_test1 v of
           (None, v1, log1) \<Rightarrow> (v1, log0 @ log1)
         | (Some p1, v1, log1) \<Rightarrow>
             (let (p2, v2, log2) = vma_test2 v1; (p3, v3, log3) = vma_test3 v2; (p4, v4, log4) = vma_test4 v3;
                  (p5, v5, log5) = vma_test5 v4; (p6, v6, log6) = vma_test6 v5; (p7, v7, log7) = vma_test7 v6;
                  (p8, v8, log8) = vma_test8 v7; (p9, v9, log9) = vma_test9 v8;
                  pass = (p1 \<and> p2 \<and> p3 \<and> p4 \<and> p5 \<and> p6 \<and> p7 \<and> p8 \<and> p9)
              in (v9, log0 @ log1 @ log2 @ log3 @ log4 @ log5 @ log6 @ log7 @ log8 @ log9 @
                   [(''[vma-test] === %s ===\<newline>'', [KStr (Some (if pass then ''ALL PASS'' else ''SOME FAILED''))])]))))"

definition cmd_vma_fn :: "('v vma_state \<Rightarrow> klog) \<Rightarrow> string list \<Rightarrow> 'v vma_state \<Rightarrow> 'v vma_state \<times> klog" where
  "cmd_vma_fn dump argv v =
     (if length argv < 2 then (v, cmd_vma_usage)
      else if streq (argv ! 1) ''list'' then (v, cmd_vma_list dump v)
      else if streq (argv ! 1) ''find'' then (v, cmd_vma_find_addr v argv)
      else if streq (argv ! 1) ''count'' then (v, cmd_vma_count_fn v)
      else if streq (argv ! 1) ''test'' then cmd_vma_test v
      else (v, cmd_vma_usage))"

end
