(* ===== verification/Cmd_Vma_Spec.thy ===== *)
theory Cmd_Vma_Spec
  imports Cmd_Vma
begin

text \<open>
  The self-test of the memory areas passes with every back-end that has room for its areas, and leaves the
  areas as it found them; the maple tree has no room for them in a running kernel.
\<close>

section \<open>What the test needs of the memory areas\<close>

text \<open>\<open>ok v xs\<close>: the memory areas are ready and hold \<open>xs\<close>. The contract ends at \<open>room\<close> areas.\<close>

locale vma_client =
  fixes ok :: "'v vma_state \<Rightarrow> vm_area list \<Rightarrow> bool" and room :: nat
  assumes ready: "ok v xs \<Longrightarrow> vma_is_ready v"
    and wf: "ok v xs \<Longrightarrow> vma_wf xs"
    and add_new: "ok v xs \<Longrightarrow> length xs < room \<Longrightarrow> vma_range_ok st en \<Longrightarrow> \<not> list_ex (vma_overlaps st en) xs \<Longrightarrow>
      \<exists>v'. vma_add v st en fl nm = (0, v') \<and> ok v' (vma_insert (mk_area st en fl nm) xs)"
    and add_old: "ok v xs \<Longrightarrow> list_ex (vma_overlaps st en) xs \<Longrightarrow> \<exists>v'. vma_add v st en fl nm = (- 1, v') \<and> ok v' xs"
    and remove_old: "ok v xs \<Longrightarrow> list_ex (\<lambda>a. va_start a = st) xs \<Longrightarrow>
      \<exists>v'. vma_remove v st = (0, v') \<and> ok v' (filter (\<lambda>a. va_start a \<noteq> st) xs)"
    and remove_new: "ok v xs \<Longrightarrow> \<not> list_ex (\<lambda>a. va_start a = st) xs \<Longrightarrow> \<exists>v'. vma_remove v st = (- 1, v') \<and> ok v' xs"
    and find: "ok v xs \<Longrightarrow> vma_find v addr = vma_spec_find xs addr"
    and count: "ok v xs \<Longrightarrow> vma_count v = length xs"

text \<open>The areas that the test does not meet.\<close>

definition clear_of_test :: "vm_area list \<Rightarrow> bool" where
  "clear_of_test xs \<longleftrightarrow> (\<forall>a \<in> set xs. va_end a \<le> 0xF1000000 \<or> 0xF10D0000 \<le> va_start a) \<and>
     (\<forall>a \<in> set xs. va_start a \<noteq> 0xF1FF0000)"

text \<open>An area of the test region, next to such areas.\<close>

definition test_area :: "u32 \<Rightarrow> u32 \<Rightarrow> bool" where
  "test_area st en \<longleftrightarrow> 0xF1000000 \<le> st \<and> en \<le> 0xF10D0000 \<and> vma_range_ok st en"

lemma clear_apart:
  assumes "clear_of_test xs" "vma_wf xs" "test_area st en"
  shows "\<not> list_ex (vma_overlaps st en) xs" "\<not> list_ex (\<lambda>a. va_start a = st) xs"
proof -
  have sep: "va_end a \<le> st \<or> en \<le> va_start a" and r: "va_start a < va_end a" if "a \<in> set xs" for a
    using assms that by (auto simp: clear_of_test_def test_area_def vma_wf_def vma_range_ok_def intro: order_trans)
  have lt: "st < en" using assms(3) by (simp add: test_area_def vma_range_ok_def)
  show "\<not> list_ex (vma_overlaps st en) xs" using sep by (auto simp: list_ex_iff vma_overlaps_def not_less)
  show "\<not> list_ex (\<lambda>a. va_start a = st) xs"
  proof
    assume "list_ex (\<lambda>a. va_start a = st) xs"
    then obtain a where a: "a \<in> set xs" "va_start a = st" by (auto simp: list_ex_iff)
    from sep [OF a(1)] show False
    proof
      assume "va_end a \<le> st"
      then show False using r [OF a(1)] a(2) by simp
    next
      assume "en \<le> va_start a"
      then show False using lt a(2) by simp
    qed
  qed
qed

lemma filter_insert_self:
  "\<not> list_ex (\<lambda>a. va_start a = st) xs \<Longrightarrow> filter (\<lambda>a. va_start a \<noteq> st) (vma_insert (mk_area st en fl nm) xs) = xs"
  by (induction xs) (auto simp: filter_id_conv list_ex_iff)

text \<open>Inserting and removing different areas commute.\<close>

lemma filter_insert_other:
  assumes "sorted_wrt (\<lambda>a b. va_start a < va_start b) xs" "va_start a \<noteq> st"
  shows "filter (\<lambda>a. va_start a \<noteq> st) (vma_insert a xs) = vma_insert a (filter (\<lambda>a. va_start a \<noteq> st) xs)"
  using assms(1)
proof (induction xs)
  case (Cons b xs)
  have head: "vma_insert a ys = a # ys" if "\<forall>c \<in> set ys. \<not> va_start c < va_start a" for ys
    using that by (cases ys) simp_all
  show ?case
  proof (cases "va_start b < va_start a")
    case True
    then show ?thesis using Cons by simp
  next
    case False
    then have "\<forall>c \<in> set (b # xs). \<not> va_start c < va_start a" using Cons.prems by auto
    then have "\<forall>c \<in> set (filter (\<lambda>a. va_start a \<noteq> st) (b # xs)). \<not> va_start c < va_start a" by auto
    from head [OF this] False assms(2) show ?thesis by simp
  qed
qed (simp add: assms(2))

lemma find_insert_area:
  assumes "vma_wf xs" "vma_range_ok st en" "\<not> list_ex (vma_overlaps st en) xs"
  shows "vma_spec_find (vma_insert (mk_area st en fl nm) xs) addr =
    (if st \<le> addr \<and> addr < en then Some (mk_area st en fl nm) else vma_spec_find xs addr)"
  using vma_spec_find_insert [of xs "mk_area st en fl nm" addr] assms by (simp add: vma_contains_def)

text \<open>No area outside the test region is found under a start inside it.\<close>

lemma clear_find:
  assumes "clear_of_test xs" "vma_wf xs" "test_area st en"
  shows "(case vma_spec_find xs addr of None \<Rightarrow> False | Some a \<Rightarrow> va_start a = st) = False"
  using clear_apart(2) [OF assms] vma_spec_find_Some [OF assms(2), of addr]
  by (auto simp: list_ex_iff split: option.split)

text \<open>The areas of the batch.\<close>

abbreviation batch_area :: "nat \<Rightarrow> vm_area" where
  "batch_area i \<equiv> mk_area (batch_base i) (batch_base i + 0x10000) VMA_READ (Some ''_batch'')"

lemma unat_batch: "i \<le> 8 \<Longrightarrow> unat (batch_base i) = 0xF1050000 + i * 0x10000"
proof -
  assume i: "i \<le> 8"
  then have "unat (of_nat i * 0x10000 :: u32) = i * 0x10000" by (simp add: unat_word_ariths unat_of_nat)
  then show "unat (batch_base i) = 0xF1050000 + i * 0x10000"
    using i unfolding batch_base_def by (subst unat_add_no_wrap) simp_all
qed

lemma batch_next: "batch_base i + 0x10000 = batch_base (i + 1)"
  by (simp add: batch_base_def algebra_simps)

lemma batch_apart: "i < 8 \<Longrightarrow> j < 8 \<Longrightarrow> i \<noteq> j \<Longrightarrow> \<not> vma_overlaps (batch_base i) (batch_base (i + 1)) (batch_area j)"
  "i \<le> 8 \<Longrightarrow> j \<le> 8 \<Longrightarrow> batch_base i = batch_base j \<longleftrightarrow> i = j"
proof -
  assume "i < 8" "j < 8" "i \<noteq> j"
  then show "\<not> vma_overlaps (batch_base i) (batch_base (i + 1)) (batch_area j)"
    using unat_batch [of i] unat_batch [of j] unat_batch [of "i + 1"] unat_batch [of "j + 1"]
    by (auto simp: vma_overlaps_def batch_next word_less_nat_alt)
next
  assume "i \<le> 8" "j \<le> 8"
  then show "batch_base i = batch_base j \<longleftrightarrow> i = j"
    using unat_batch [of i] unat_batch [of j] by (auto simp: word_unat_eq_iff)
qed

lemma batch_test_area: "i < 8 \<Longrightarrow> test_area (batch_base i) (batch_base (i + 1))"
proof -
  assume i: "i < 8"
  have "unat (batch_base i) = 4096 * (0xF1050 + i * 16)" "unat (batch_base (i + 1)) = 4096 * (0xF1050 + (i + 1) * 16)"
    using unat_batch [of i] unat_batch [of "i + 1"] i by simp_all
  then have "page_aligned (batch_base i)" "page_aligned (batch_base (i + 1))" unfolding page_aligned_iff by simp_all
  then show ?thesis using unat_batch [of i] unat_batch [of "i + 1"] i
    by (simp add: test_area_def vma_range_ok_def word_le_nat_alt word_less_nat_alt)
qed

text \<open>Areas in address order are determined by the set of them.\<close>

lemma vma_wf_set_eq:
  assumes "vma_wf xs" "vma_wf ys" "set xs = set ys"
  shows "xs = ys"
proof -
  have s: "sorted (map va_start zs) \<and> distinct (map va_start zs)" if "vma_wf zs" for zs
  proof -
    have "sorted_wrt (<) (map va_start zs)" using vma_wf_starts_sorted [OF that] by (simp add: sorted_wrt_map)
    then show ?thesis by (simp add: strict_sorted_iff)
  qed
  have "map va_start xs = map va_start ys"
    using s [OF assms(1)] s [OF assms(2)] assms(3) by (intro sorted_distinct_set_unique) simp_all
  moreover have "inj_on va_start (set xs \<union> set ys)" using s [OF assms(1)] assms(3) by (simp add: distinct_map)
  ultimately show ?thesis by (rule map_inj_on)
qed

section \<open>The parts of the test\<close>

context vma_client
begin

lemma add_remove:
  assumes "ok v xs" "clear_of_test xs" "length xs < room" "test_area st en"
  obtains v1 v2 where "vma_add v st en fl nm = (0, v1)" "ok v1 (vma_insert (mk_area st en fl nm) xs)"
    "vma_remove v1 st = (0, v2)" "ok v2 xs"
    "\<And>addr. vma_find v1 addr = (if st \<le> addr \<and> addr < en then Some (mk_area st en fl nm) else vma_spec_find xs addr)"
proof -
  note ap = clear_apart [OF assms(2) wf [OF assms(1)] assms(4)]
  have r: "vma_range_ok st en" using assms(4) by (simp add: test_area_def)
  obtain v1 where v1: "vma_add v st en fl nm = (0, v1)" "ok v1 (vma_insert (mk_area st en fl nm) xs)"
    using add_new [OF assms(1,3) r ap(1)] by blast
  have "list_ex (\<lambda>a. va_start a = st) (vma_insert (mk_area st en fl nm) xs)" by (simp add: list_ex_iff)
  then obtain v2 where v2: "vma_remove v1 st = (0, v2)" "ok v2 xs"
    using remove_old [OF v1(2)] filter_insert_self [OF ap(2)] by metis
  show thesis using that [OF v1 v2] find [OF v1(2)] find_insert_area [OF wf [OF assms(1)] r ap(1)] by simp
qed

lemmas test_addrs = test_start_def test_end_def test_area_def vma_range_ok_def page_aligned_def

abbreviation "first_area \<equiv> mk_area test_start test_end (VMA_READ OR VMA_WRITE) (Some ''_test'')"

lemma first_test_area: "test_area test_start test_end"
  by (simp add: test_addrs)

lemma finds_clear:
  "ok v xs \<Longrightarrow> clear_of_test xs \<Longrightarrow> test_area st en \<Longrightarrow> finds v addr st = False"
  using clear_find [OF _ wf] find by (simp add: finds_def)

lemma test1:
  assumes "ok v xs" "clear_of_test xs" "length xs < room"
  obtains v' where "vma_test1 v = (Some True, v', say ''[vma-test] test 1: add + find\<newline>'' @ pass_line)"
    "ok v' (vma_insert first_area xs)"
proof -
  from add_remove [OF assms first_test_area, of "VMA_READ OR VMA_WRITE" "Some ''_test''"] obtain v1 v2 where
    v1: "vma_add v test_start test_end (VMA_READ OR VMA_WRITE) (Some ''_test'') = (0, v1)" "ok v1 (vma_insert first_area xs)"
    "\<And>addr. vma_find v1 addr = (if test_start \<le> addr \<and> addr < test_end then Some first_area else vma_spec_find xs addr)"
    by blast
  then show thesis using that [of v1] unfolding vma_test1_def by (simp add: test_addrs)
qed

lemma test2:
  assumes "ok v (vma_insert first_area xs)" "clear_of_test xs" "vma_wf xs"
  shows "vma_test2 v = (True, v, say ''[vma-test] test 2: find outside\<newline>'' @ pass_line)"
proof -
  note ap = clear_apart [OF assms(2,3) first_test_area]
  have "vma_range_ok test_start test_end" using first_test_area by (simp add: test_area_def)
  note f = find_insert_area [OF assms(3) this ap(1), of "VMA_READ OR VMA_WRITE" "Some ''_test''" "test_start - 0x1000"]
  have "vma_find v (test_start - 0x1000) = vma_spec_find xs (test_start - 0x1000)"
    unfolding find [OF assms(1)] f by (simp add: test_addrs)
  then have "finds v (test_start - 0x1000) test_start = False"
    using clear_find [OF assms(2,3) first_test_area, of "test_start - 0x1000"] by (simp add: finds_def)
  then show ?thesis by (simp add: vma_test2_def)
qed

lemma test3:
  assumes "ok v (vma_insert first_area xs)"
  obtains v' where "vma_test3 v = (True, v', say ''[vma-test] test 3: overlap detection\<newline>'' @ pass_line)"
    "ok v' (vma_insert first_area xs)"
proof -
  have "list_ex (vma_overlaps (test_start + 0x1000) (test_end + 0x1000)) (vma_insert first_area xs)"
    by (simp add: list_ex_iff vma_overlaps_def test_addrs)
  from add_old [OF assms this, of VMA_READ "Some ''_test_overlap''"] show thesis
    using that unfolding vma_test3_def by fastforce
qed

lemma test4:
  assumes "ok v (vma_insert first_area xs)" "clear_of_test xs" "vma_wf xs"
  obtains v' where "vma_test4 v = (True, v', say ''[vma-test] test 4: remove + find\<newline>'' @ pass_line)" "ok v' xs"
proof -
  have "list_ex (\<lambda>a. va_start a = test_start) (vma_insert first_area xs)" by (simp add: list_ex_iff)
  then obtain v1 where v1: "vma_remove v test_start = (0, v1)" "ok v1 xs"
    using remove_old [OF assms(1)] filter_insert_self [OF clear_apart(2) [OF assms(2,3) first_test_area]] by metis
  then show thesis using that [of v1] finds_clear [OF v1(2) assms(2) first_test_area] by (simp add: vma_test4_def)
qed

lemma test5:
  assumes "ok v xs" "clear_of_test xs" "length xs < room"
  obtains v' where "vma_test5 v = (True, v', say ''[vma-test] test 5: boundary find (start, end-1, end)\<newline>'' @ pass_line)"
    "ok v' xs"
proof -
  from add_remove [OF assms first_test_area, of VMA_READ "Some ''_test_bound''"] obtain v1 v2 where
    v: "vma_add v test_start test_end VMA_READ (Some ''_test_bound'') = (0, v1)"
      "vma_remove v1 test_start = (0, v2)" "ok v2 xs"
    and f: "\<And>addr. vma_find v1 addr = (if test_start \<le> addr \<and> addr < test_end
        then Some (mk_area test_start test_end VMA_READ (Some ''_test_bound'')) else vma_spec_find xs addr)"
    by metis
  have "finds v1 test_start test_start" "finds v1 (test_end - 1) test_start" by (simp_all add: finds_def f test_addrs)
  moreover have "finds v1 test_end test_start = False"
    using clear_find [OF assms(2) wf [OF assms(1)] first_test_area, of test_end] by (simp add: finds_def f)
  ultimately show thesis using that [of v2] v by (simp add: vma_test5_def)
qed

lemma test8:
  assumes "ok v xs" "clear_of_test xs"
  obtains v' where "vma_test8 v = (True, v', say ''[vma-test] test 8: remove non-existent\<newline>'' @ pass_line)" "ok v' xs"
proof -
  have "\<not> list_ex (\<lambda>a. va_start a = 0xF1FF0000) xs" using assms(2) by (simp add: clear_of_test_def list_ex_iff)
  from remove_new [OF assms(1) this] show thesis using that unfolding vma_test8_def by fastforce
qed

lemma test9:
  assumes "ok v xs" "clear_of_test xs" "length xs < room"
  obtains v' where "vma_test9 v = (True, v', say ''[vma-test] test 9: count consistency\<newline>'' @ pass_line)" "ok v' xs"
proof -
  from add_remove [OF assms first_test_area, of VMA_READ "Some ''_cnt''"] obtain v1 v2 where
    v: "vma_add v test_start test_end VMA_READ (Some ''_cnt'') = (0, v1)"
      "ok v1 (vma_insert (mk_area test_start test_end VMA_READ (Some ''_cnt'')) xs)"
      "vma_remove v1 test_start = (0, v2)" "ok v2 xs" by metis
  then show thesis using that [of v2] count [OF v(2)] count [OF v(4)] count [OF assms(1)] by (simp add: vma_test9_def)
qed

text \<open>Adding and removing, on the set of the areas.\<close>

lemma add_set:
  assumes "ok v ys" "length ys < room" "test_area st en" "\<forall>a \<in> set ys. \<not> vma_overlaps st en a"
  obtains v' ys' where "vma_add v st en fl nm = (0, v')" "ok v' ys'" "set ys' = insert (mk_area st en fl nm) (set ys)"
    "length ys' = Suc (length ys)"
proof -
  have "\<not> list_ex (vma_overlaps st en) ys" "vma_range_ok st en" using assms(3,4) by (auto simp: list_ex_iff test_area_def)
  with add_new [OF assms(1,2)] obtain v' where "vma_add v st en fl nm = (0, v')" "ok v' (vma_insert (mk_area st en fl nm) ys)"
    by blast
  then show thesis by (rule that) simp_all
qed

lemma remove_set:
  assumes "ok v ys" "a \<in> set ys"
  obtains v' ys' where "vma_remove v (va_start a) = (0, v')" "ok v' ys'" "set ys' = {b \<in> set ys. va_start b \<noteq> va_start a}"
proof -
  have "list_ex (\<lambda>b. va_start b = va_start a) ys" using assms(2) by (auto simp: list_ex_iff)
  from remove_old [OF assms(1) this] that show thesis by fastforce
qed

lemma batch_add_ok:
  assumes "ok v ys" "set ys = set xs \<union> batch_area ` {0..<i}" "length ys + length rest \<le> room" "i + length rest \<le> 8"
    and "clear_of_test xs" "vma_wf xs"
  obtains v' ys' where "batch_add i rest v = (True, v', [])" "ok v' ys'"
    "set ys' = set xs \<union> batch_area ` {0..<i + length rest}" "length ys' = length ys + length rest"
  using assms(1-4)
proof (induction rest arbitrary: i v ys thesis)
  case Nil
  then show ?case by simp
next
  case (Cons r rest)
  have i: "i < 8" using Cons.prems(5) by simp
  have apart: "\<forall>a \<in> set ys. \<not> vma_overlaps (batch_base i) (batch_base (i + 1)) a"
    using clear_apart(1) [OF assms(5,6) batch_test_area [OF i]] batch_apart(1) [OF i] i Cons.prems(3)
    by (auto simp: list_ex_iff)
  have len: "length ys < room" using Cons.prems(4) by simp
  from add_set [OF Cons.prems(2) len batch_test_area [OF i] apart] obtain v1 ys1
    where v1: "vma_add v (batch_base i) (batch_base (i + 1)) VMA_READ (Some ''_batch'') = (0, v1)" "ok v1 ys1"
    "set ys1 = insert (mk_area (batch_base i) (batch_base (i + 1)) VMA_READ (Some ''_batch'')) (set ys)" "length ys1 = Suc (length ys)"
    by blast
  have "set ys1 = set xs \<union> batch_area ` {0..<i + 1}"
    using v1(3) Cons.prems(3) by (auto simp: batch_next atLeastLessThanSuc)
  from Cons.IH [OF _ v1(2) this] obtain v2 ys2 where "batch_add (i + 1) rest v1 = (True, v2, [])" "ok v2 ys2"
    "set ys2 = set xs \<union> batch_area ` {0..<i + 1 + length rest}" "length ys2 = length ys1 + length rest"
    using Cons.prems(4,5) v1(4) by auto
  then show ?case using Cons.prems(1) [of v2 ys2] v1(1,4) by (simp add: batch_next)
qed

lemma batch_remove_ok:
  assumes "ok v ys" "set ys = set xs \<union> batch_area ` set is" "distinct is" "\<forall>i \<in> set is. i < 8" "clear_of_test xs" "vma_wf xs"
  shows "ok (batch_remove is v) xs"
  using assms(1-4)
proof (induction "is" arbitrary: v ys)
  case Nil
  then show ?case using vma_wf_set_eq [OF wf assms(6)] by (metis Un_empty_right batch_remove.simps(1) empty_set image_empty)
next
  case (Cons i "is")
  have i: "i < 8" using Cons.prems(4) by simp
  have "batch_area i \<in> set ys" using Cons.prems(2) by simp
  from remove_set [OF Cons.prems(1) this, unfolded mk_area_sel] obtain v1 ys1
    where v1: "vma_remove v (batch_base i) = (0, v1)" "ok v1 ys1" "set ys1 = {b \<in> set ys. va_start b \<noteq> batch_base i}"
    by blast
  have "\<forall>b \<in> set xs. va_start b \<noteq> batch_base i"
    using clear_apart(2) [OF assms(5,6) batch_test_area [OF i]] by (auto simp: list_ex_iff)
  moreover have "\<forall>j \<in> set is. batch_base j \<noteq> batch_base i" using batch_apart(2) [of _ i] Cons.prems(3,4) i by auto
  ultimately have "set ys1 = set xs \<union> batch_area ` set is" using v1(3) Cons.prems(2) by auto
  then show ?case using Cons.IH [OF v1(2)] Cons.prems(3,4) v1(1) by simp
qed

lemma test7:
  assumes "ok v xs" "clear_of_test xs" "length xs + 8 \<le> room"
  obtains v' where "vma_test7 v = (True, v', say ''[vma-test] test 7: batch add/find (8 regions)\<newline>'' @ pass_line)" "ok v' xs"
proof -
  note wf = wf [OF assms(1)]
  obtain v1 ys where v1: "batch_add 0 [0..<8] v = (True, v1, [])" "ok v1 ys" "set ys = set xs \<union> batch_area ` {0..<8}"
    by (rule batch_add_ok [OF assms(1), of xs 0 "[0..<8]"]) (use assms wf in auto)
  have "finds v1 (batch_base i + 0x8000) (batch_base i)" if "i < 8" for i
  proof -
    have "unat (batch_base i + 0x8000) = unat (batch_base i) + 0x8000"
      using unat_batch [of i] that by (subst unat_add_no_wrap) simp_all
    then have "vma_contains (batch_base i + 0x8000) (batch_area i)"
      using unat_batch [of i] unat_batch [of "i + 1"] that
      by (simp add: vma_contains_def batch_next word_le_nat_alt word_less_nat_alt)
    moreover have "batch_area i \<in> set ys" using v1(3) that by simp
    ultimately have "vma_spec_find ys (batch_base i + 0x8000) = Some (batch_area i)"
      using vma_spec_find_Some [OF vma_client.wf [OF vma_client_axioms v1(2)]] by blast
    then show ?thesis by (simp add: finds_def find [OF v1(2)])
  qed
  then have "batch_misses v1 = []" by (simp add: batch_misses_def VMA_BATCH_N_def filter_empty_conv)
  moreover have "ok (batch_remove [0..<8] v1) xs"
    by (rule batch_remove_ok [OF v1(2)]) (use assms wf v1(3) in auto)
  ultimately show thesis using that [of "batch_remove [0..<8] v1"] v1(1)
    by (simp add: vma_test7_def VMA_BATCH_N_def del: upt_Suc batch_remove.simps upt_rec_numeral)
qed

lemma test6:
  assumes "ok v xs" "clear_of_test xs" "length xs + 2 \<le> room"
  obtains v' where "vma_test6 v = (True, v', say ''[vma-test] test 6: adjacent regions\<newline>'' @ pass_line)" "ok v' xs"
proof -
  let ?A = "mk_area 0xF1020000 0xF1030000 VMA_READ (Some ''_adj_a'')"
  let ?B = "mk_area 0xF1030000 0xF1040000 (VMA_READ OR VMA_WRITE) (Some ''_adj_b'')"
  have ta: "test_area 0xF1020000 0xF1030000" "test_area 0xF1030000 0xF1040000" by (simp_all add: test_addrs)
  note wf0 = wf [OF assms(1)] and ca = clear_apart [OF assms(2) wf [OF assms(1)] ta(1)]
    and cb = clear_apart [OF assms(2) wf [OF assms(1)] ta(2)]
  have "length xs < room" "\<forall>a \<in> set xs. \<not> vma_overlaps 0xF1020000 0xF1030000 a" using assms(3) ca(1) by (auto simp: list_ex_iff)
  from add_set [OF assms(1) this(1) ta(1) this(2)] obtain v1 ys1 where v1:
    "vma_add v 0xF1020000 0xF1030000 VMA_READ (Some ''_adj_a'') = (0, v1)" "ok v1 ys1" "set ys1 = insert ?A (set xs)"
    "length ys1 = Suc (length xs)" by blast
  have "length ys1 < room" "\<forall>a \<in> set ys1. \<not> vma_overlaps 0xF1030000 0xF1040000 a"
    using assms(3) cb(1) v1(3,4) by (auto simp: list_ex_iff vma_overlaps_def)
  from add_set [OF v1(2) this(1) ta(2) this(2)] obtain v2 ys2 where v2:
    "vma_add v1 0xF1030000 0xF1040000 (VMA_READ OR VMA_WRITE) (Some ''_adj_b'') = (0, v2)" "ok v2 ys2"
    "set ys2 = insert ?B (insert ?A (set xs))" using v1(3) by metis
  note sf = vma_spec_find_Some [OF vma_client.wf [OF vma_client_axioms v2(2)]]
  have "vma_spec_find ys2 0xF1020100 = Some ?A" "vma_spec_find ys2 0xF1020000 = Some ?A" "vma_spec_find ys2 0xF1030100 = Some ?B"
    unfolding sf by (simp_all add: v2(3) vma_contains_def)
  then have "finds v2 0xF1020100 0xF1020000" "finds v2 0xF1030100 0xF1030000" "vma_find v2 0xF1020000 = Some ?A"
    by (simp_all add: finds_def find [OF v2(2)])
  moreover have "?A \<in> set ys2" by (simp add: v2(3))
  from remove_set [OF v2(2) this, unfolded mk_area_sel] obtain v3 ys3 where v3:
    "vma_remove v2 0xF1020000 = (0, v3)" "ok v3 ys3" "set ys3 = {b \<in> set ys2. va_start b \<noteq> 0xF1020000}" by blast
  moreover have "?B \<in> set ys3" by (simp add: v2(3) v3(3))
  from remove_set [OF v3(2) this, unfolded mk_area_sel] obtain v4 ys4 where v4:
    "vma_remove v3 0xF1030000 = (0, v4)" "ok v4 ys4" "set ys4 = {b \<in> set ys3. va_start b \<noteq> 0xF1030000}" by blast
  moreover have "set ys4 = set xs"
    using ca(2) cb(2) by (auto simp: v4(3) v3(3) v2(3) list_ex_iff)
  then have "ys4 = xs" by (rule vma_wf_set_eq [OF vma_client.wf [OF vma_client_axioms v4(2)] wf0])
  ultimately show thesis using that [of v4] v1(1) v2(1) by (simp add: vma_test6_def VMA_READ_def VMA_WRITE_def)
qed

end

section \<open>The whole test\<close>

definition vma_test_titles :: "string list" where
  "vma_test_titles = [''test 1: add + find'', ''test 2: find outside'', ''test 3: overlap detection'', ''test 4: remove + find'',
     ''test 5: boundary find (start, end-1, end)'', ''test 6: adjacent regions'', ''test 7: batch add/find (8 regions)'',
     ''test 8: remove non-existent'', ''test 9: count consistency'']"

text \<open>What is printed when every part passes.\<close>

definition vma_test_all_pass :: klog where
  "vma_test_all_pass = say ''[vma-test] === VMA selftest ===\<newline>'' @
     concat (map (\<lambda>t. say (''[vma-test] '' @ t @ ''\<newline>'') @ say ''[vma-test] PASS\<newline>'') vma_test_titles) @
     [(''[vma-test] === %s ===\<newline>'', [KStr (Some ''ALL PASS'')])]"

context vma_client
begin

lemma test_passes:
  assumes "ok v xs" "clear_of_test xs" "length xs + 8 \<le> room"
  obtains v' where "cmd_vma_test v = (v', vma_test_all_pass)" "ok v' xs"
proof -
  have r: "length xs < room" "length xs + 2 \<le> room" using assms(3) by simp_all
  note wf = wf [OF assms(1)]
  from test1 [OF assms(1,2) r(1)] obtain v1 where
    1: "vma_test1 v = (Some True, v1, say ''[vma-test] test 1: add + find\<newline>'' @ pass_line)" "ok v1 (vma_insert first_area xs)" .
  note 2 = test2 [OF 1(2) assms(2) wf]
  from test3 [OF 1(2)] obtain v3 where
    3: "vma_test3 v1 = (True, v3, say ''[vma-test] test 3: overlap detection\<newline>'' @ pass_line)" "ok v3 (vma_insert first_area xs)" .
  from test4 [OF 3(2) assms(2) wf] obtain v4 where
    4: "vma_test4 v3 = (True, v4, say ''[vma-test] test 4: remove + find\<newline>'' @ pass_line)" "ok v4 xs" .
  from test5 [OF 4(2) assms(2) r(1)] obtain v5 where
    5: "vma_test5 v4 = (True, v5, say ''[vma-test] test 5: boundary find (start, end-1, end)\<newline>'' @ pass_line)" "ok v5 xs" .
  from test6 [OF 5(2) assms(2) r(2)] obtain v6 where
    6: "vma_test6 v5 = (True, v6, say ''[vma-test] test 6: adjacent regions\<newline>'' @ pass_line)" "ok v6 xs" .
  from test7 [OF 6(2) assms(2,3)] obtain v7 where
    7: "vma_test7 v6 = (True, v7, say ''[vma-test] test 7: batch add/find (8 regions)\<newline>'' @ pass_line)" "ok v7 xs" .
  from test8 [OF 7(2) assms(2)] obtain v8 where
    8: "vma_test8 v7 = (True, v8, say ''[vma-test] test 8: remove non-existent\<newline>'' @ pass_line)" "ok v8 xs" .
  from test9 [OF 8(2) assms(2) r(1)] obtain v9 where
    9: "vma_test9 v8 = (True, v9, say ''[vma-test] test 9: count consistency\<newline>'' @ pass_line)" "ok v9 xs" .
  have "cmd_vma_test v = (v9, vma_test_all_pass)"
    using ready [OF assms(1)]
    by (simp add: cmd_vma_test_def 1(1) 2 3(1) 4(1) 5(1) 6(1) 7(1) 8(1) 9(1) pass_line_def vma_test_all_pass_def vma_test_titles_def)
  then show thesis using that 9(2) by blast
qed

end

section \<open>The back-ends of the kernel\<close>

text \<open>A registered and initialised back-end with the invariant \<open>ok\<close> that holds \<open>xs\<close>.\<close>

definition vma_holds :: "'s vma_ops \<Rightarrow> ('s \<Rightarrow> bool) \<Rightarrow> ('s \<Rightarrow> vm_area list) \<Rightarrow> 's vma_state \<Rightarrow> vm_area list \<Rightarrow> bool" where
  "vma_holds ops ok areas v xs \<longleftrightarrow> g_vma_ops v = Some ops \<and> g_vma_ready v \<and> ok (vma_data v) \<and> areas (vma_data v) = xs"

lemma backend_client:
  assumes "vma_backend cap st ini (vo_add ops) (vo_remove ops) (vo_find ops) (vo_count ops) ok areas"
  shows "vma_client (vma_holds ops ok areas) cap"
proof -
  note B = vma_backend.inv_wf [OF assms] vma_backend.add_inv [OF assms] vma_backend.add_areas [OF assms]
    vma_backend.remove_inv [OF assms] vma_backend.remove_areas [OF assms] vma_backend.find_areas [OF assms]
    vma_backend.count_areas [OF assms]
  have ad: "\<exists>v'. vma_add v st en fl nm = (fst (vma_spec_add cap xs st en fl nm), v') \<and>
      vma_holds ops ok areas v' (snd (vma_spec_add cap xs st en fl nm))" if "vma_holds ops ok areas v xs" for v xs st en fl nm
  proof -
    obtain r d where "vo_add ops (vma_data v) st en fl nm = (r, d)" by fastforce
    moreover from this have "vma_spec_add cap xs st en fl nm = (r, areas d)" "ok d"
      using that B(2,3) [of "vma_data v" st en fl nm] by (simp_all add: vma_holds_def)
    ultimately show ?thesis using that by (simp add: vma_holds_def vma_add_def)
  qed
  have rm: "\<exists>v'. vma_remove v st = (fst (vma_spec_remove xs st), v') \<and> vma_holds ops ok areas v' (snd (vma_spec_remove xs st))"
    if "vma_holds ops ok areas v xs" for v xs st
  proof -
    obtain r d where "vo_remove ops (vma_data v) st = (r, d)" by fastforce
    moreover from this have "vma_spec_remove xs st = (r, areas d)" "ok d"
      using that B(4,5) [of "vma_data v" st] by (simp_all add: vma_holds_def)
    ultimately show ?thesis using that by (simp add: vma_holds_def vma_remove_def)
  qed
  show ?thesis
  proof (standard, goal_cases)
    case (3 v xs st en fl nm)
    then show ?case using ad [OF 3(1), of st en fl nm] by (simp add: vma_spec_add_def)
  next
    case (4 v xs st en fl nm)
    then show ?case using ad [OF 4(1), of st en fl nm] by (simp add: vma_spec_add_def)
  next
    case (5 v xs st)
    then show ?case using rm [OF 5(1), of st] by (simp add: vma_spec_remove_def)
  next
    case (6 v xs st)
    then show ?case using rm [OF 6(1), of st] by (simp add: vma_spec_remove_def)
  qed (use B in \<open>auto simp: vma_holds_def vma_is_ready_def vma_find_def vma_count_def\<close>)
qed

interpretation sac: vma_client "vma_holds sa_ops sa_inv sa_areas" VMA_MAX_AREAS
  by (rule backend_client [of _ sa_storage sa_init]) (use sa.vma_backend_axioms in \<open>simp add: sa_ops_def\<close>)

interpretation rbc: vma_client "vma_holds rb_ops live_inv live_areas" RB_MAX_NODES
  by (rule backend_client [OF rb.vma_backend_axioms])

text \<open>The maple tree keeps the contract up to nine areas.\<close>

fun maple_live :: "maple_state option \<Rightarrow> bool" where
  "maple_live None \<longleftrightarrow> False"
| "maple_live (Some s) \<longleftrightarrow> maple_inv s"

fun maple_live_areas :: "maple_state option \<Rightarrow> vm_area list" where
  "maple_live_areas None = []"
| "maple_live_areas (Some s) = maple_areas s"

lemma maple_holds_call:
  assumes "vma_holds maple_ops maple_live maple_live_areas v xs" "length (snd (vma_spec_call MAPLE_MAX_VMAS xs c)) \<le> 9"
  shows "\<exists>v'. vma_dispatch_call v c = (fst (vma_spec_call MAPLE_MAX_VMAS xs c), v') \<and>
    vma_holds maple_ops maple_live maple_live_areas v' (snd (vma_spec_call MAPLE_MAX_VMAS xs c))"
proof -
  obtain s where s: "vma_data v = Some s" "maple_inv s" "maple_areas s = xs" "g_vma_ops v = Some maple_ops" "g_vma_ready v"
    using assms(1) by (cases "vma_data v") (auto simp: vma_holds_def)
  from maple_call [OF s(2), of c] assms(2) s(3) obtain s' where
    "ops_call maple_ops (Some s) c = (fst (vma_spec_call MAPLE_MAX_VMAS xs c), Some s')" "maple_inv s'"
    "maple_areas s' = snd (vma_spec_call MAPLE_MAX_VMAS xs c)" by auto
  then show ?thesis using s by (simp add: vma_dispatch_ready [OF s(4,5)] vma_holds_def)
qed

lemma maple_holds_le: "vma_holds maple_ops maple_live maple_live_areas v xs \<Longrightarrow> length xs \<le> 9 \<and> vma_wf xs"
proof -
  assume h: "vma_holds maple_ops maple_live maple_live_areas v xs"
  then obtain s where s: "vma_data v = Some s" by (cases "vma_data v") (auto simp: vma_holds_def)
  then obtain r vs fl where rep: "maple_rep s r vs fl" using h by (auto simp: vma_holds_def maple_inv_def)
  have "xs = map (g_vma_pool s) vs" using h s rep_areas [OF rep] by (simp add: vma_holds_def)
  then show "length xs \<le> 9 \<and> vma_wf xs" using rep by (simp add: maple_rep_def)
qed

lemma maple_holds_add:
  assumes "vma_holds maple_ops maple_live maple_live_areas v xs" "length (snd (vma_spec_add MAPLE_MAX_VMAS xs st en fl nm)) \<le> 9"
  shows "\<exists>v'. vma_add v st en fl nm = (fst (vma_spec_add MAPLE_MAX_VMAS xs st en fl nm), v') \<and>
    vma_holds maple_ops maple_live maple_live_areas v' (snd (vma_spec_add MAPLE_MAX_VMAS xs st en fl nm))"
  using maple_holds_call [OF assms(1), of "Call_Add st en fl nm"] assms(2)
  by (cases "vma_add v st en fl nm") (auto simp: vma_dispatch_call_def)

lemma maple_holds_remove:
  assumes "vma_holds maple_ops maple_live maple_live_areas v xs"
  shows "\<exists>v'. vma_remove v st = (fst (vma_spec_remove xs st), v') \<and>
    vma_holds maple_ops maple_live maple_live_areas v' (snd (vma_spec_remove xs st))"
proof -
  have "length (snd (vma_spec_remove xs st)) \<le> length xs" by (simp add: vma_spec_remove_def)
  then have "length (snd (vma_spec_remove xs st)) \<le> 9" using maple_holds_le [OF assms] by simp
  then show ?thesis using maple_holds_call [OF assms, of "Call_Remove st"]
    by (cases "vma_remove v st") (auto simp: vma_dispatch_call_def)
qed

interpretation mpc: vma_client "vma_holds maple_ops maple_live maple_live_areas" 9
proof (standard, goal_cases)
  case (1 v xs)
  then show ?case by (simp add: vma_holds_def vma_is_ready_def)
next
  case (2 v xs)
  then show ?case using maple_holds_le by blast
next
  case (3 v xs st en fl nm)
  then show ?case using maple_holds_add [OF 3(1), of st en fl nm] by (simp add: vma_spec_add_def maple_consts)
next
  case (4 v xs st en fl nm)
  then show ?case using maple_holds_add [OF 4(1), of st en fl nm] maple_holds_le [OF 4(1)] by (simp add: vma_spec_add_def)
next
  case (5 v xs st)
  then show ?case using maple_holds_remove [OF 5(1), of st] by (simp add: vma_spec_remove_def)
next
  case (6 v xs st)
  then show ?case using maple_holds_remove [OF 6(1), of st] by (simp add: vma_spec_remove_def)
next
  case (7 v xs addr)
  then show ?case using maple_holds_call [OF 7(1), of "Call_Find addr"] maple_holds_le [OF 7(1)]
    by (auto simp: vma_dispatch_call_def)
next
  case (8 v xs)
  then show ?case using maple_holds_call [OF 8(1), of Call_Count] maple_holds_le [OF 8(1)]
    by (auto simp: vma_dispatch_call_def)
qed

section \<open>The test on the maple tree\<close>

text \<open>Once a call has been undefined the state stays so.\<close>

definition dead :: "maple_state option vma_state \<Rightarrow> bool" where
  "dead v \<longleftrightarrow> g_vma_ops v = Some maple_ops \<and> vma_data v = None"

lemma dead_step: "dead v \<Longrightarrow> dead (snd (vma_add v st en fl nm))" "dead v \<Longrightarrow> dead (snd (vma_remove v st))"
  by (simp_all add: dead_def vma_add_def vma_remove_def maple_ops_def maple_step_def)

lemma dead_batch: "dead v \<Longrightarrow> dead (batch_remove is v)"
  by (induction "is" arbitrary: v) (simp_all add: dead_step)

lemma dead_test89:
  assumes "dead v"
  shows "dead (fst (snd (vma_test8 v)))" "dead (fst (snd (vma_test9 v)))"
proof -
  show "dead (fst (snd (vma_test8 v)))"
    using dead_step(2) [OF assms, of "0xF1FF0000"] by (auto simp: vma_test8_def Let_def split: prod.split)
  have "dead v1" if "vma_add v test_start test_end VMA_READ (Some ''_cnt'') = (r, v1)" for r v1
    using dead_step(1) [OF assms] that by (metis snd_conv)
  then show "dead (fst (snd (vma_test9 v)))"
    using dead_step(2) by (auto simp: vma_test9_def Let_def split: prod.split)
qed

lemma maple_holds_tenth:
  assumes "vma_holds maple_ops maple_live maple_live_areas v xs" "length xs = 9" "test_area st en"
    and "\<forall>a \<in> set xs. \<not> vma_overlaps st en a"
  shows "fst (vma_add v st en fl nm) = - 1" "dead (snd (vma_add v st en fl nm))"
proof -
  obtain s where s: "vma_data v = Some s" "maple_inv s" "maple_areas s = xs" "g_vma_ops v = Some maple_ops" "g_vma_ready v"
    using assms(1) by (cases "vma_data v") (auto simp: vma_holds_def)
  obtain r vs fl' where rep: "maple_rep s r vs fl'" using s(2) by (auto simp: maple_inv_def)
  have "\<not> list_ex (vma_overlaps st en) xs" using assms(4) by (auto simp: list_ex_iff)
  then have "vma_spec_add MAPLE_MAX_VMAS (map (g_vma_pool s) vs) st en fl nm = (0, vma_insert (mk_area st en fl nm) xs)"
    using assms(2,3) s(3) rep_areas [OF rep] by (simp add: vma_spec_add_def maple_consts test_area_def)
  then have "maple_add s st en fl nm = None" using maple_add_ok [OF rep, of st en fl nm] assms(2) by simp
  then show "fst (vma_add v st en fl nm) = - 1" "dead (snd (vma_add v st en fl nm))"
    using s by (simp_all add: vma_add_def maple_ops_def maple_step_def dead_def)
qed

lemma batch_add_maple:
  assumes "vma_holds maple_ops maple_live maple_live_areas v ys" "set ys = set xs \<union> batch_area ` {0..<i}"
    and "9 < length ys + length rest" "i + length rest \<le> 8" "clear_of_test xs" "vma_wf xs"
  shows "\<exists>v' log. batch_add i rest v = (False, v', log) \<and> dead v'"
  using assms(1-4)
proof (induction rest arbitrary: i v ys)
  case Nil
  then show ?case using maple_holds_le [OF Nil(1)] by simp
next
  case (Cons r rest)
  have i: "i < 8" using Cons.prems(4) by simp
  have apart: "\<forall>a \<in> set ys. \<not> vma_overlaps (batch_base i) (batch_base (i + 1)) a"
    using clear_apart(1) [OF assms(5,6) batch_test_area [OF i]] batch_apart(1) [OF i] i Cons.prems(2)
    by (auto simp: list_ex_iff)
  show ?case
  proof (cases "length ys = 9")
    case True
    note t = maple_holds_tenth [OF Cons.prems(1) True batch_test_area [OF i] apart, of VMA_READ "Some ''_batch''"]
    then show ?thesis using dead_batch by (cases "vma_add v (batch_base i) (batch_base (i + 1)) VMA_READ (Some ''_batch'')") (simp add: batch_next)
  next
    case False
    then have len: "length ys < 9" using maple_holds_le [OF Cons.prems(1)] by simp
    from mpc.add_set [OF Cons.prems(1) len batch_test_area [OF i] apart] obtain v1 ys1
      where v1: "vma_add v (batch_base i) (batch_base (i + 1)) VMA_READ (Some ''_batch'') = (0, v1)"
        "vma_holds maple_ops maple_live maple_live_areas v1 ys1"
      "set ys1 = insert (mk_area (batch_base i) (batch_base (i + 1)) VMA_READ (Some ''_batch'')) (set ys)" "length ys1 = Suc (length ys)"
      by blast
    have "set ys1 = set xs \<union> batch_area ` {0..<i + 1}"
      using v1(3) Cons.prems(2) by (auto simp: batch_next atLeastLessThanSuc)
    from Cons.IH [OF v1(2) this] show ?thesis using Cons.prems(3,4) v1(1,4) by (simp add: batch_next)
  qed
qed

lemma maple_test:
  assumes "vma_holds maple_ops maple_live maple_live_areas v xs" "clear_of_test xs" "2 \<le> length xs" "length xs \<le> 7"
  shows "dead (fst (cmd_vma_test v))"
proof -
  have r: "length xs < 9" "length xs + 2 \<le> 9" using assms(4) by simp_all
  have wf: "vma_wf xs" using maple_holds_le [OF assms(1)] by simp
  from mpc.test1 [OF assms(1,2) r(1)] obtain v1 log1 where
    1: "vma_test1 v = (Some True, v1, log1)" "vma_holds maple_ops maple_live maple_live_areas v1
      (vma_insert (mk_area test_start test_end (VMA_READ OR VMA_WRITE) (Some ''_test'')) xs)" .
  from mpc.test2 [OF 1(2) assms(2) wf] obtain log2 where 2: "vma_test2 v1 = (True, v1, log2)" by blast
  from mpc.test3 [OF 1(2)] obtain v3 log3 where 3: "vma_test3 v1 = (True, v3, log3)"
    "vma_holds maple_ops maple_live maple_live_areas v3
      (vma_insert (mk_area test_start test_end (VMA_READ OR VMA_WRITE) (Some ''_test'')) xs)" .
  from mpc.test4 [OF 3(2) assms(2) wf] obtain v4 log4 where 4: "vma_test4 v3 = (True, v4, log4)"
    "vma_holds maple_ops maple_live maple_live_areas v4 xs" .
  from mpc.test5 [OF 4(2) assms(2) r(1)] obtain v5 log5 where 5: "vma_test5 v4 = (True, v5, log5)"
    "vma_holds maple_ops maple_live maple_live_areas v5 xs" .
  from mpc.test6 [OF 5(2) assms(2) r(2)] obtain v6 log6 where 6: "vma_test6 v5 = (True, v6, log6)"
    "vma_holds maple_ops maple_live maple_live_areas v6 xs" .
  have "\<exists>v' log. batch_add 0 [0..<8] v6 = (False, v', log) \<and> dead v'"
    by (rule batch_add_maple [OF 6(2), of xs]) (use assms wf in auto)
  then obtain v7 log7 where 7: "vma_test7 v6 = (False, v7, log7)" "dead v7"
    by (auto simp: vma_test7_def VMA_BATCH_N_def simp del: upt_rec_numeral)
  obtain p8 v8 log8 where 8: "vma_test8 v7 = (p8, v8, log8)" by (cases "vma_test8 v7")
  obtain p9 v9 log9 where 9: "vma_test9 v8 = (p9, v9, log9)" by (cases "vma_test9 v8")
  have "dead v9" using dead_test89(1) [OF 7(2)] dead_test89(2) [of v8] 8 9 by simp
  then show ?thesis using mpc.ready [OF assms(1)] by (simp add: cmd_vma_test_def 1(1) 2 3(1) 4(1) 5(1) 6(1) 7(1) 8 9)
qed

section \<open>Properties\<close>

text \<open>C17. The command \<open>vma test\<close> reports that all nine parts pass, and leaves the areas as they were, whenever no
  area lies in its way and eight more fit: with each of the three back-ends, where for the maple tree eight more fit
  when there is at most one area. (The manual of the commands shows a test of four parts.)\<close>

theorem vma_selftest_passes:
  assumes "clear_of_test xs"
  shows "(vma_holds sa_ops sa_inv sa_areas v xs \<and> length xs + 8 \<le> VMA_MAX_AREAS \<longrightarrow>
      (\<exists>v'. cmd_vma_fn dump [''vma'', ''test''] v = (v', vma_test_all_pass) \<and> vma_holds sa_ops sa_inv sa_areas v' xs)) \<and>
    (vma_holds rb_ops live_inv live_areas r xs \<and> length xs + 8 \<le> RB_MAX_NODES \<longrightarrow>
      (\<exists>r'. cmd_vma_fn dump_r [''vma'', ''test''] r = (r', vma_test_all_pass) \<and> vma_holds rb_ops live_inv live_areas r' xs)) \<and>
    (vma_holds maple_ops maple_live maple_live_areas m xs \<and> length xs \<le> 1 \<longrightarrow>
      (\<exists>m'. cmd_vma_fn dump_m [''vma'', ''test''] m = (m', vma_test_all_pass) \<and> vma_holds maple_ops maple_live maple_live_areas m' xs))"
  using sac.test_passes [OF _ assms, of v] rbc.test_passes [OF _ assms, of r] mpc.test_passes [OF _ assms, of m]
  by (fastforce simp: cmd_vma_fn_def)

theorem vma_selftest_passes_witness:
  "(\<exists>v'. cmd_vma_fn (\<lambda>_. []) [''vma'', ''test''] (vma_init (vma_register_backend (Some sa_ops)
      \<lparr>g_vma_ops = None, g_vma_ready = False,
        vma_data = \<lparr>g_areas = replicate 256 (mk_area 0 0 0 None), g_count = 0\<rparr>\<rparr>)) = (v', vma_test_all_pass)) \<and>
   (\<exists>r'. cmd_vma_fn (\<lambda>_. []) [''vma'', ''test''] (vma_init (vma_register_backend (Some rb_ops)
      \<lparr>g_vma_ops = None, g_vma_ready = False,
        vma_data = Some \<lparr>n_area = (\<lambda>_. mk_area 0 0 0 None), n_color = (\<lambda>_. RB_RED), n_parent = (\<lambda>_. 0),
          n_left = (\<lambda>_. 0), n_right = (\<lambda>_. 0), rb_free_head = 0, rb_root = 0, rb_used = 77\<rparr>\<rparr>)) = (r', vma_test_all_pass)) \<and>
   (\<exists>m'. cmd_vma_fn (\<lambda>_. []) [''vma'', ''test''] \<lparr>g_vma_ops = Some maple_ops, g_vma_ready = True, vma_data = Some (maple_with [])\<rparr> =
      (m', vma_test_all_pass))"
proof -
  let ?v = "vma_init (vma_register_backend (Some sa_ops) \<lparr>g_vma_ops = None, g_vma_ready = False,
    vma_data = \<lparr>g_areas = replicate 256 (mk_area 0 0 0 None), g_count = 0\<rparr>\<rparr>)"
  let ?t = "Some \<lparr>n_area = (\<lambda>_. mk_area 0 0 0 None), n_color = (\<lambda>_. RB_RED), n_parent = (\<lambda>_. 0),
    n_left = (\<lambda>_. 0), n_right = (\<lambda>_. 0), rb_free_head = 0, rb_root = 0, rb_used = 77\<rparr>"
  let ?r = "vma_init (vma_register_backend (Some rb_ops) \<lparr>g_vma_ops = None, g_vma_ready = False, vma_data = ?t\<rparr>)"
  let ?m = "\<lparr>g_vma_ops = Some maple_ops, g_vma_ready = True, vma_data = Some (maple_with [])\<rparr>"
  have st: "sa_storage \<lparr>g_areas = replicate 256 (mk_area 0 0 0 None), g_count = 0\<rparr>" by (simp add: sa_storage_def VMA_MAX_AREAS_def)
  have "vma_holds sa_ops sa_inv sa_areas ?v []"
    using sa.init_inv [OF st] sa.init_areas [OF st]
    by (simp add: vma_holds_def vma_init_def vma_register_backend_def) (simp add: sa_ops_def)
  moreover have "vma_holds rb_ops live_inv live_areas ?r []"
    using rb.init_inv [of ?t] rb.init_areas [of ?t]
    by (simp add: vma_holds_def vma_init_def vma_register_backend_def)
  moreover have "vma_holds maple_ops maple_live maple_live_areas ?m []"
    using maple_with_inv [of "[]"] by (simp add: vma_holds_def vma_wf_def)
  ultimately show ?thesis
    using vma_selftest_passes [where xs = "[]" and v = ?v and dump = "\<lambda>_. []" and r = ?r and dump_r = "\<lambda>_. []" and m = ?m and dump_m = "\<lambda>_. []"]
    by (auto simp: clear_of_test_def VMA_MAX_AREAS_def RB_MAX_NODES_def)
qed

text \<open>C18. With the maple tree and the two areas that \<open>kmain\<close> registers, the command \<open>vma test\<close> writes past an array:
  the eighth area of its batch is the tenth of the tree.\<close>

theorem vma_selftest_breaks_maple:
  assumes "vma_holds maple_ops maple_live maple_live_areas v xs" "clear_of_test xs" "length xs = 2"
  shows "vma_data (fst (cmd_vma_fn dump [''vma'', ''test''] v)) = None"
  using maple_test [OF assms(1,2)] assms(3) by (simp add: cmd_vma_fn_def dead_def)

theorem vma_selftest_breaks_maple_witness:
  "vma_data (fst (cmd_vma_fn (\<lambda>_. []) [''vma'', ''test'']
     \<lparr>g_vma_ops = Some maple_ops, g_vma_ready = True,
      vma_data = Some (maple_with [mk_area 0xC0000000 0xC8000000 7 (Some ''direct-map''), mk_area 0xE0000000 0xE0010000 3 (Some ''kheap'')])\<rparr>)) = None"
proof -
  let ?xs = "[mk_area 0xC0000000 0xC8000000 7 (Some ''direct-map''), mk_area 0xE0000000 0xE0010000 3 (Some ''kheap'')]"
  have "vma_wf ?xs" by (simp add: vma_wf_def vma_range_ok_def page_aligned_def)
  then show ?thesis
    using maple_with_inv [of ?xs] by (intro vma_selftest_breaks_maple [of _ ?xs]) (simp_all add: vma_holds_def clear_of_test_def)
qed

end
