(* ===== verification/Cmd_Pmm.thy ===== *)
theory Cmd_Pmm
  imports Cmd_Args Vmm_Window
begin

text \<open>
  The shell commands \<open>pmm\<close> (\<open>cmd_pmm.c\<close>) and \<open>free\<close> (\<open>cmd_free.c\<close>): the pages that \<open>pmm alloc\<close> takes are
  tracked, so that \<open>pmm freeall\<close> gives back these and no others; \<open>pmm test\<close> is the self-test of the
  allocator through its public interface. The self-test writes a page at its address in the direct map; these accesses
  are translated, and one that faults ends the command.
\<close>

section \<open>State\<close>

definition PMM_CMD_TRACK_MAX :: u32 where "PMM_CMD_TRACK_MAX = 1024"

record ('b, 'v) pmm_cmd =
  pc_vm :: "('b, 'v) vmm_state"
  g_pmm_cmd_allocs :: "u32 list"
  g_pmm_cmd_alloc_count :: u32
  pc_log :: klog
  pc_fault :: "u32 option"

definition pc_print :: "string \<Rightarrow> karg list \<Rightarrow> ('b, 'v) pmm_cmd \<Rightarrow> ('b, 'v) pmm_cmd" where
  "pc_print fmt args s = s\<lparr>pc_log := pc_log s @ [(fmt, args)]\<rparr>"

definition pc_alloc :: "('b, 'v) pmm_cmd \<Rightarrow> u32 \<times> ('b, 'v) pmm_cmd" where
  "pc_alloc s = (case pmm_alloc_page (vm_pmm (pc_vm s)) of (p, pm) \<Rightarrow> (p, s\<lparr>pc_vm := (pc_vm s)\<lparr>vm_pmm := pm\<rparr>\<rparr>))"

definition pc_free :: "u32 \<Rightarrow> ('b, 'v) pmm_cmd \<Rightarrow> ('b, 'v) pmm_cmd" where
  "pc_free p s = s\<lparr>pc_vm := (pc_vm s)\<lparr>vm_pmm := pmm_free_page p (vm_pmm (pc_vm s))\<rparr>\<rparr>"

definition pc_free_pages :: "('b, 'v) pmm_cmd \<Rightarrow> u32" where
  "pc_free_pages s = pmm_free_pages (vm_pmm (pc_vm s))"

section \<open>Tracking\<close>

definition pmm_cmd_track_add :: "u32 \<Rightarrow> ('b, 'v) pmm_cmd \<Rightarrow> ('b, 'v) pmm_cmd" where
  "pmm_cmd_track_add addr s =
     (if g_pmm_cmd_alloc_count s < PMM_CMD_TRACK_MAX
      then s\<lparr>g_pmm_cmd_allocs := (g_pmm_cmd_allocs s)[unat (g_pmm_cmd_alloc_count s) := addr],
             g_pmm_cmd_alloc_count := g_pmm_cmd_alloc_count s + 1\<rparr>
      else s)"

function track_remove_from :: "u32 \<Rightarrow> u32 \<Rightarrow> ('b, 'v) pmm_cmd \<Rightarrow> int \<times> ('b, 'v) pmm_cmd" where
  "track_remove_from addr i s =
     (if i < g_pmm_cmd_alloc_count s then
        (if g_pmm_cmd_allocs s ! unat i = addr then
           (let count = g_pmm_cmd_alloc_count s - 1 in
            (1, s\<lparr>g_pmm_cmd_alloc_count := count,
                  g_pmm_cmd_allocs := (g_pmm_cmd_allocs s)[unat i := g_pmm_cmd_allocs s ! unat count]\<rparr>))
         else track_remove_from addr (i + 1) s)
      else (0, s))"
  by pat_completeness auto
termination
  by (relation "measure (\<lambda>(addr, i, s). unat (g_pmm_cmd_alloc_count s) - unat i)") (auto intro: loop_measure)

declare track_remove_from.simps [simp del]

definition pmm_cmd_track_remove :: "u32 \<Rightarrow> ('b, 'v) pmm_cmd \<Rightarrow> int \<times> ('b, 'v) pmm_cmd" where
  "pmm_cmd_track_remove addr s = track_remove_from addr 0 s"

section \<open>The subcommands\<close>

definition cmd_pmm_usage :: "('b, 'v) pmm_cmd \<Rightarrow> ('b, 'v) pmm_cmd" where
  "cmd_pmm_usage s = fold (\<lambda>l. pc_print l [])
     [''Usage:\<newline>'', ''  pmm state\<newline>'', ''  pmm alloc [count]\<newline>'', ''  pmm free <addr>\<newline>'', ''  pmm freeall\<newline>'',
      ''  pmm dump [start_index] [count]\<newline>'',
      ''  pmm test              '' @ [CHR 0xE2, CHR 0x80, CHR 0x94] @ '' automated selftest\<newline>'', ''Notes:\<newline>'',
      ''  - addr can be decimal or hex (0x...)\<newline>'', ''  - dump shows used/free for page indices\<newline>''] s"

definition cmd_pmm_stat :: "('b, 'v) pmm_cmd \<Rightarrow> ('b, 'v) pmm_cmd" where
  "cmd_pmm_stat s =
     (let pm = vm_pmm (pc_vm s); total = pmm_total_pages pm; free = pmm_free_pages pm; base = pmm_managed_base pm in
      if total = 0 \<or> base = 0 then pc_print ''PMM: not initialized\<newline>'' [] s
      else
        (let used = total - free in
         pc_print ''PMM: free %u / %u pages (used %u)\<newline>'' [KInt free, KInt total, KInt used]
           (pc_print ''PMM: min_base=0x%08x page_size=%u\<newline>'' [KInt base, KInt PMM_PAGE_SIZE] s)))"

function cmd_alloc_from :: "u32 \<Rightarrow> u32 \<Rightarrow> ('b, 'v) pmm_cmd \<Rightarrow> ('b, 'v) pmm_cmd" where
  "cmd_alloc_from count i s =
     (if i < count then
        (if g_pmm_cmd_alloc_count s \<ge> PMM_CMD_TRACK_MAX
         then pc_print ''pmm alloc: tracking full (%u), stop\<newline>'' [KInt PMM_CMD_TRACK_MAX] s
         else
           (case pc_alloc s of
              (p, s1) \<Rightarrow>
                if p = 0 then pc_print ''pmm alloc: OOM after %u pages\<newline>'' [KInt i] s1
                else cmd_alloc_from count (i + 1) (pc_print ''pmm alloc: %p\<newline>'' [KInt p] (pmm_cmd_track_add p s1))))
      else s)"
  by pat_completeness auto
termination by (relation "measure (\<lambda>(count, i, s). unat count - unat i)") (auto intro: loop_measure)

declare cmd_alloc_from.simps [simp del]

definition cmd_pmm_alloc :: "string list \<Rightarrow> ('b, 'v) pmm_cmd \<Rightarrow> ('b, 'v) pmm_cmd" where
  "cmd_pmm_alloc argv s =
     (case (if length argv \<ge> 3 then (case parse_u32 (argv ! 2) of None \<Rightarrow> None | Some c \<Rightarrow> if c = 0 then None else Some c)
            else Some 1) of
        None \<Rightarrow> pc_print ''pmm alloc: invalid count: %s\<newline>'' [KStr (Some (argv ! 2))] s
      | Some count \<Rightarrow>
          (if count > 256
           then cmd_alloc_from 256 0 (pc_print ''pmm alloc: count too large (%u), capped to 256\<newline>'' [KInt count] s)
           else cmd_alloc_from count 0 s))"

definition cmd_pmm_free :: "string list \<Rightarrow> ('b, 'v) pmm_cmd \<Rightarrow> ('b, 'v) pmm_cmd" where
  "cmd_pmm_free argv s =
     (if length argv < 3 then pc_print ''pmm free: missing <addr>\<newline>'' [] s
      else
        (case parse_u32 (argv ! 2) of
           None \<Rightarrow> pc_print ''pmm free: invalid addr: %s\<newline>'' [KStr (Some (argv ! 2))] s
         | Some addr \<Rightarrow> pc_free addr (snd (pmm_cmd_track_remove addr s))))"

definition cmd_pmm_freeall :: "('b, 'v) pmm_cmd \<Rightarrow> ('b, 'v) pmm_cmd" where
  "cmd_pmm_freeall s =
     (if g_pmm_cmd_alloc_count s = 0 then pc_print ''pmm freeall: nothing to free\<newline>'' [] s
      else
        (let n = g_pmm_cmd_alloc_count s;
             s1 = fold (\<lambda>i s. pc_free (g_pmm_cmd_allocs s ! i) s) [0..<unat n] s
         in pc_print ''pmm freeall: freed %u pages\<newline>'' [KInt n] (s1\<lparr>g_pmm_cmd_alloc_count := 0\<rparr>)))"

text \<open>The line that closes a row of the dump, and the loop over the pages.\<close>

definition dump_row_end :: "u32 \<Rightarrow> u32 \<Rightarrow> ('b, 'v) pmm_cmd \<Rightarrow> ('b, 'v) pmm_cmd" where
  "dump_row_end base idx0 s =
     (let a = pmm_page_addr idx0 (vm_pmm (pc_vm s)); addr0 = (if a = 0 then base else a)
      in pc_print ''  idx %u addr 0x%08x\<newline>'' [KInt idx0, KInt addr0] s)"

function dump_from :: "u32 \<Rightarrow> u32 \<Rightarrow> u32 \<Rightarrow> u32 \<Rightarrow> ('b, 'v) pmm_cmd \<Rightarrow> u32 \<times> ('b, 'v) pmm_cmd" where
  "dump_from base en i line s =
     (if i < en then
        (let used = pmm_page_is_used i (vm_pmm (pc_vm s));
             c = (if used = 1 then CHR ''#'' else if used = 0 then CHR ''.'' else CHR ''?'');
             s1 = pc_print ''%c'' [kchar c] s; line1 = line + 1
         in if line1 = 32 then dump_from base en (i + 1) 0 (dump_row_end base (i - 31) s1)
            else dump_from base en (i + 1) line1 s1)
      else (line, s))"
  by pat_completeness auto
termination by (relation "measure (\<lambda>(base, en, i, line, s). unat en - unat i)") (auto intro: loop_measure)

declare dump_from.simps [simp del]

definition cmd_pmm_dump :: "string list \<Rightarrow> ('b, 'v) pmm_cmd \<Rightarrow> ('b, 'v) pmm_cmd" where
  "cmd_pmm_dump argv s =
     (let pm = vm_pmm (pc_vm s); total = pmm_total_pages pm; base = pmm_managed_base pm in
      if total = 0 \<or> base = 0 then pc_print ''PMM: not initialized\<newline>'' [] s
      else
        (case (if length argv \<ge> 3 then parse_u32 (argv ! 2) else Some 0) of
           None \<Rightarrow> pc_print ''pmm dump: invalid start_index: %s\<newline>'' [KStr (Some (argv ! 2))] s
         | Some start \<Rightarrow>
             (case (if length argv \<ge> 4 then (case parse_u32 (argv ! 3) of None \<Rightarrow> None | Some c \<Rightarrow> if c = 0 then None else Some c)
                    else Some 64) of
                None \<Rightarrow> pc_print ''pmm dump: invalid count: %s\<newline>'' [KStr (Some (argv ! 3))] s
              | Some count \<Rightarrow>
                  (let (count, s1) = (if count > 256
                         then (256, pc_print ''pmm dump: count too large (%u), capped to 256\<newline>'' [KInt count] s) else (count, s))
                   in if start \<ge> total
                      then pc_print ''pmm dump: start_index out of range (%u >= %u)\<newline>'' [KInt start, KInt total] s1
                      else
                        (let en = start + count; en = (if en > total then total else en);
                             s2 = pc_print ''PMM dump: index [%u, %u)\<newline>'' [KInt start, KInt en] s1;
                             (line, s4) = dump_from base en start 0 s2
                         in if line \<noteq> 0 then dump_row_end base (en - line) s4 else s4)))))"

section \<open>The self-test\<close>

text \<open>A part takes the verdict so far and returns the new one; \<open>None\<close> is the early return, or the page fault.\<close>

definition pmm_test1 :: "('b, 'v) pmm_cmd \<Rightarrow> bool option \<times> ('b, 'v) pmm_cmd" where
  "pmm_test1 s =
     (let s0 = pc_print ''[pmm-test] test 1: basic alloc/free roundtrip\<newline>'' [] s; free_before = pc_free_pages s0 in
      case pc_alloc s0 of
        (p1, s1) \<Rightarrow>
          if p1 = 0 then (None, pc_print ''[pmm-test] FAIL: pmm_alloc_page returned NULL\<newline>'' [] s1)
          else
            (let free_after_alloc = pc_free_pages s1; ok1 = (free_after_alloc = free_before - 1);
                 s2 = (if ok1 then s1 else pc_print ''[pmm-test] FAIL: free count %u -> %u (expected %u)\<newline>''
                        [KInt free_before, KInt free_after_alloc, KInt (free_before - 1)] s1);
                 s3 = pc_free p1 s2;
                 free_after_free = pc_free_pages s3; ok2 = (free_after_free = free_before);
                 s4 = (if ok2 then s3 else pc_print ''[pmm-test] FAIL: free count not restored %u != %u\<newline>''
                        [KInt free_after_free, KInt free_before] s3);
                 pass = (ok1 \<and> ok2)
             in (Some pass, if pass then pc_print ''[pmm-test] PASS\<newline>'' [] s4 else s4)))"

text \<open>Allocating \<open>n\<close> more pages after \<open>ps\<close>; \<open>None\<close> when there is none left, after giving the pages back.\<close>

fun align_alloc :: "nat \<Rightarrow> u32 list \<Rightarrow> bool \<Rightarrow> ('b, 'v) pmm_cmd \<Rightarrow> (u32 list \<times> bool) option \<times> ('b, 'v) pmm_cmd" where
  "align_alloc 0 ps ok s = (Some (ps, ok), s)"
| "align_alloc (Suc n) ps ok s =
     (case pc_alloc s of
        (p, s1) \<Rightarrow>
          if p = 0 then (None, fold pc_free ps
            (pc_print ''[pmm-test] FAIL: alloc returned NULL at i=%d\<newline>'' [KInt (of_nat (length ps))] s1))
          else if p AND 0xFFF \<noteq> 0 then align_alloc n (ps @ [p]) False
            (pc_print ''[pmm-test] FAIL: page %d not 4KiB aligned: 0x%08x\<newline>'' [KInt (of_nat (length ps)), KInt p] s1)
          else align_alloc n (ps @ [p]) ok s1)"

definition PMM_TEST_ALIGN_N :: nat where "PMM_TEST_ALIGN_N = 8"

definition pmm_test2 :: "bool \<Rightarrow> ('b, 'v) pmm_cmd \<Rightarrow> bool option \<times> ('b, 'v) pmm_cmd" where
  "pmm_test2 pass s =
     (case align_alloc PMM_TEST_ALIGN_N [] True (pc_print ''[pmm-test] test 2: page alignment\<newline>'' [] s) of
        (None, s1) \<Rightarrow> (None, s1)
      | (Some (ps, align_ok), s1) \<Rightarrow>
          (let s2 = fold pc_free ps s1 in
           if align_ok then (Some pass, pc_print ''[pmm-test] PASS\<newline>'' [] s2) else (Some False, s2)))"

fun unique_alloc :: "nat \<Rightarrow> u32 list \<Rightarrow> ('b, 'v) pmm_cmd \<Rightarrow> u32 list option \<times> ('b, 'v) pmm_cmd" where
  "unique_alloc 0 ps s = (Some ps, s)"
| "unique_alloc (Suc n) ps s =
     (case pc_alloc s of
        (p, s1) \<Rightarrow>
          if p = 0 then (None, fold pc_free ps
            (pc_print ''[pmm-test] FAIL: alloc returned NULL at i=%d\<newline>'' [KInt (of_nat (length ps))] s1))
          else unique_alloc n (ps @ [p]) s1)"

definition PMM_TEST_UNIQUE_N :: nat where "PMM_TEST_UNIQUE_N = 16"

text \<open>The pairs of equal pages, in the order the two loops meet them.\<close>

definition duplicate_pages :: "u32 list \<Rightarrow> (nat \<times> nat) list" where
  "duplicate_pages ps =
     [(i, j). i \<leftarrow> [0..<PMM_TEST_UNIQUE_N], j \<leftarrow> [i + 1..<PMM_TEST_UNIQUE_N], ps ! i = ps ! j]"

definition pmm_test3 :: "bool \<Rightarrow> ('b, 'v) pmm_cmd \<Rightarrow> bool option \<times> ('b, 'v) pmm_cmd" where
  "pmm_test3 pass s =
     (case unique_alloc PMM_TEST_UNIQUE_N [] (pc_print ''[pmm-test] test 3: uniqueness\<newline>'' [] s) of
        (None, s1) \<Rightarrow> (None, s1)
      | (Some ps, s1) \<Rightarrow>
          (let dups = duplicate_pages ps;
               s2 = fold (\<lambda>(i, j). pc_print ''[pmm-test] FAIL: duplicate page [%d]==[%d]=0x%08x\<newline>''
                 [KInt (of_nat i), KInt (of_nat j), KInt (ps ! i)]) dups s1;
               s3 = fold pc_free ps s2
           in if dups = [] then (Some pass, pc_print ''[pmm-test] PASS\<newline>'' [] s3) else (Some False, s3)))"

fun batch_alloc :: "nat \<Rightarrow> u32 list \<Rightarrow> ('b, 'v) pmm_cmd \<Rightarrow> u32 list \<times> ('b, 'v) pmm_cmd" where
  "batch_alloc 0 ps s = (ps, s)"
| "batch_alloc (Suc n) ps s =
     (case pc_alloc s of
        (p, s1) \<Rightarrow>
          if p = 0 then (ps, pc_print ''[pmm-test] WARN: OOM at page %d (ok if memory is tight)\<newline>'' [KInt (of_nat (length ps))] s1)
          else batch_alloc n (ps @ [p]) s1)"

definition PMM_TEST_BATCH_N :: nat where "PMM_TEST_BATCH_N = 32"

definition pmm_test4 :: "bool \<Rightarrow> ('b, 'v) pmm_cmd \<Rightarrow> bool \<times> ('b, 'v) pmm_cmd" where
  "pmm_test4 pass s =
     (let s0 = pc_print ''[pmm-test] test 4: batch stress (32 pages)\<newline>'' [] s; free_start = pc_free_pages s0;
          (ps, s1) = batch_alloc PMM_TEST_BATCH_N [] s0;
          alloc_count = of_nat (length ps); free_mid = pc_free_pages s1; ok1 = (free_mid = free_start - alloc_count);
          s2 = (if ok1 then s1 else pc_print ''[pmm-test] FAIL: free count %u, expected %u (allocated %d)\<newline>''
            [KInt free_mid, KInt (free_start - alloc_count), KInt alloc_count] s1);
          s3 = fold pc_free ps s2;
          free_end = pc_free_pages s3; ok2 = (free_end = free_start);
          s4 = (if ok2 then s3 else pc_print ''[pmm-test] FAIL: free count not restored %u != %u\<newline>'' [KInt free_end, KInt free_start] s3);
          pass = (pass \<and> ok1 \<and> ok2)
      in (pass, if pass then pc_print ''[pmm-test] PASS\<newline>'' [] s4 else s4))"

text \<open>Writing a page of words, translated; \<open>Some\<close> of the address is a page fault.\<close>

definition rw_pattern :: "nat \<Rightarrow> u32" where "rw_pattern i = 0xC0FFEE00 + of_nat i"

fun rw_fill :: "u32 \<Rightarrow> nat list \<Rightarrow> ('b, 'v) vmm_state \<Rightarrow> u32 option \<times> ('b, 'v) vmm_state" where
  "rw_fill virt [] s = (None, s)"
| "rw_fill virt (i # is) s =
     (case vm_store (virt + 4 * of_nat i) (rw_pattern i) s of
        None \<Rightarrow> (Some (virt + 4 * of_nat i), s)
      | Some s1 \<Rightarrow> rw_fill virt is s1)"

text \<open>Reading it back, up to the first word that differs.\<close>

datatype rw_result = RW_Ok | RW_Mismatch nat u32 | RW_Fault u32

fun rw_check :: "u32 \<Rightarrow> nat list \<Rightarrow> ('b, 'v) vmm_state \<Rightarrow> rw_result" where
  "rw_check virt [] s = RW_Ok"
| "rw_check virt (i # is) s =
     (case vm_load s (virt + 4 * of_nat i) of
        None \<Rightarrow> RW_Fault (virt + 4 * of_nat i)
      | Some x \<Rightarrow> if x \<noteq> rw_pattern i then RW_Mismatch i x else rw_check virt is s)"

definition pmm_test5 :: "bool \<Rightarrow> ('b, 'v) pmm_cmd \<Rightarrow> bool option \<times> ('b, 'v) pmm_cmd" where
  "pmm_test5 pass s =
     (let s0 = pc_print ''[pmm-test] test 5: write/read via PHYS_TO_VIRT\<newline>'' [] s in
      if vmm_is_ready (pc_vm s0) then
        (case pc_alloc s0 of
           (pg, s1) \<Rightarrow>
             if pg \<noteq> 0 then
               (let virt = PHYS_TO_VIRT pg; words = [0..<unat (PMM_PAGE_SIZE div 4)];
                    (fault, vm) = rw_fill virt words (pc_vm s1); s2 = s1\<lparr>pc_vm := vm\<rparr>
                in case fault of
                     Some a \<Rightarrow> (None, s2\<lparr>pc_fault := Some a\<rparr>)
                   | None \<Rightarrow>
                       (case rw_check virt words (pc_vm s2) of
                          RW_Fault a \<Rightarrow> (None, s2\<lparr>pc_fault := Some a\<rparr>)
                        | RW_Mismatch i x \<Rightarrow>
                            (Some False, pc_free pg (pc_print ''[pmm-test] FAIL: mismatch at word %u: 0x%08x != 0x%08x\<newline>''
                               [KInt (of_nat i), KInt x, KInt (rw_pattern i)] s2))
                        | RW_Ok \<Rightarrow> (Some pass, pc_print ''[pmm-test] PASS\<newline>'' [] (pc_free pg s2))))
             else (Some pass, pc_print ''[pmm-test] SKIP: alloc returned NULL\<newline>'' [] s1))
      else (Some pass, pc_print ''[pmm-test] SKIP: VMM not ready\<newline>'' [] s0))"

definition cmd_pmm_test :: "('b, 'v) pmm_cmd \<Rightarrow> ('b, 'v) pmm_cmd" where
  "cmd_pmm_test s =
     (case pmm_test1 (pc_print ''[pmm-test] === PMM selftest ===\<newline>'' [] s) of
        (None, s1) \<Rightarrow> s1
      | (Some pass1, s1) \<Rightarrow>
          (case pmm_test2 pass1 s1 of
             (None, s2) \<Rightarrow> s2
           | (Some pass2, s2) \<Rightarrow>
               (case pmm_test3 pass2 s2 of
                  (None, s3) \<Rightarrow> s3
                | (Some pass3, s3) \<Rightarrow>
                    (let (pass4, s4) = pmm_test4 pass3 s3
                     in case pmm_test5 pass4 s4 of
                          (None, s5) \<Rightarrow> s5
                        | (Some pass5, s5) \<Rightarrow>
                            pc_print ''[pmm-test] === %s ===\<newline>'' [KStr (Some (if pass5 then ''ALL PASS'' else ''SOME FAILED''))] s5))))"

section \<open>The commands\<close>

definition cmd_pmm_main :: "string list \<Rightarrow> ('b, 'v) pmm_cmd \<Rightarrow> ('b, 'v) pmm_cmd" where
  "cmd_pmm_main argv s =
     (if length argv < 2 then cmd_pmm_usage s
      else if streq (argv ! 1) ''state'' \<or> streq (argv ! 1) ''stat'' then cmd_pmm_stat s
      else if streq (argv ! 1) ''alloc'' then cmd_pmm_alloc argv s
      else if streq (argv ! 1) ''free'' then cmd_pmm_free argv s
      else if streq (argv ! 1) ''freeall'' then cmd_pmm_freeall s
      else if streq (argv ! 1) ''dump'' then cmd_pmm_dump argv s
      else if streq (argv ! 1) ''test'' then cmd_pmm_test s
      else if streq (argv ! 1) ''help'' \<or> streq (argv ! 1) ''-h'' \<or> streq (argv ! 1) ''--help'' then cmd_pmm_usage s
      else cmd_pmm_usage (pc_print ''pmm: unknown subcommand: %s\<newline>'' [KStr (Some (argv ! 1))] s))"

definition cmd_free_main :: "'b pmm_state \<Rightarrow> klog" where
  "cmd_free_main pm =
     (let total = pmm_total_pages pm; free = pmm_free_pages pm in
      if total = 0 then say ''PMM: not initialized\<newline>''
      else
        (let used = total - free; free_kib = free * 4; used_kib = used * 4 in
         [(''PMM: free %u / %u pages\<newline>'', [KInt free, KInt total]),
          (''PMM: free %uKiB, used %uKiB\<newline>'', [KInt free_kib, KInt used_kib])]))"

end
