(* ===== verification/Cmd_Pmm_Spec.thy ===== *)
theory Cmd_Pmm_Spec
  imports Cmd_Pmm
begin

text \<open>
  The command \<open>pmm\<close> on a running kernel: no subcommand disturbs the address space, the tracked pages stay
  apart from everything else, and the self-test passes whenever there are pages to run it with and the direct map
  holds for them.
\<close>

section \<open>Pages held for a while\<close>

text \<open>From \<open>s0\<close> to \<open>s\<close> the pages \<open>ps\<close> were taken from the allocator, and nothing else changed.\<close>

definition pages_held :: "('b pmm_state \<Rightarrow> bool) \<Rightarrow> ('b pmm_state \<Rightarrow> u32 set) \<Rightarrow> ('b pmm_state \<Rightarrow> u32 set) \<Rightarrow>
    ('b pmm_state \<Rightarrow> u32 set) \<Rightarrow> ('b, 'v) pmm_cmd \<Rightarrow> u32 list \<Rightarrow> ('b, 'v) pmm_cmd \<Rightarrow> bool" where
  "pages_held ok man fr fb s0 ps s \<longleftrightarrow> vm_ok ok man fr (pc_vm s0) \<and> vm_ok ok man fr (pc_vm s) \<and>
     space (pc_vm s) = space (pc_vm s0) \<and> tables (pc_vm s) = tables (pc_vm s0) \<and> rest_eq (pc_vm s0) (pc_vm s) \<and>
     distinct ps \<and> set ps \<subseteq> fr (vm_pmm (pc_vm s0)) \<and> fr (vm_pmm (pc_vm s)) = fr (vm_pmm (pc_vm s0)) - set ps \<and>
     fb (vm_pmm (pc_vm s)) = fb (vm_pmm (pc_vm s0)) \<union> set ps \<and> man (vm_pmm (pc_vm s)) = man (vm_pmm (pc_vm s0)) \<and>
     g_pmm_cmd_allocs s = g_pmm_cmd_allocs s0 \<and> g_pmm_cmd_alloc_count s = g_pmm_cmd_alloc_count s0 \<and> pc_fault s = pc_fault s0"

text \<open>A word stored in a page that is no page table leaves the address space alone.\<close>

lemma store_space:
  fixes s :: "('b, 'v) vmm_state" and x :: u32
  assumes "page_aligned p" "p \<notin> tables s" "k < 1024"
  defines "t \<equiv> s\<lparr>vm_mem := wr32 (vm_mem s) (PHYS_TO_VIRT p + 4 * k) x\<rparr>"
  shows "space t = space s" "tables t = tables s" "vm_ok ok man fr s \<Longrightarrow> vm_ok ok man fr t"
proof -
  have pd: "present t i = present s i" "table_of t i = table_of s i" for i
    by (simp_all add: t_def present_def table_of_def vm_simps)
  show tab: "tables t = tables s" by (simp add: tables_def pd)
  have "pt_get t (PHYS_TO_VIRT (table_of s i)) (pt_index v) = pt_get s (PHYS_TO_VIRT (table_of s i)) (pt_index v)"
    if "present s i" "i < 1024" for i v
  proof -
    have "table_of s i \<in> tables s" using that by (auto simp: tables_def)
    then have "PHYS_TO_VIRT p \<noteq> PHYS_TO_VIRT (table_of s i)" using assms(2) VIRT_TO_PHYS_PHYS_TO_VIRT by metis
    then show ?thesis
      using rd_entry_other [OF page_aligned_phys_to_virt [OF assms(1)] page_aligned_phys_to_virt [OF table_aligned [of s i]] assms(3) index_lt(2) [of v]]
      by (simp add: t_def pt_get_def)
  qed
  then have "walk t v = walk s v" for v using index_lt(1) by (simp add: walk_def pd)
  then show "space t = space s" by (simp add: space_def fun_eq_iff)
  have "length (g_kernel_pd t) = length (g_kernel_pd s)" "vm_pmm t = vm_pmm s" by (simp_all add: t_def)
  then show "vm_ok ok man fr s \<Longrightarrow> vm_ok ok man fr t" unfolding vm_ok_def tab pd by simp
qed

text \<open>A page in the direct map is filled with words without a fault, and reads back as written.\<close>

lemma word_small: "i < 1024 \<Longrightarrow> (of_nat i :: u32) < 1024 \<and> 4 * (of_nat i :: u32) < 4096 \<and> unat (of_nat i :: u32) = i"
  by (simp add: word_less_nat_alt unat_of_nat unat_word_ariths)

lemma window_store:
  assumes "window s {p}" "page_aligned p" "i < 1024"
  shows "vm_store (PHYS_TO_VIRT p + 4 * of_nat i) x s = Some (s\<lparr>vm_mem := wr32 (vm_mem s) (PHYS_TO_VIRT p + 4 * of_nat i) x\<rparr>)"
    "vm_load s (PHYS_TO_VIRT p + 4 * of_nat i) = Some (rd32 (vm_mem s) (PHYS_TO_VIRT p + 4 * of_nat i))"
  using window_cell [OF assms(1) _ assms(2), of "4 * of_nat i"] word_small [OF assms(3)] by (simp_all add: vm_store_def vm_load_def)

lemma rw_fill:
  fixes s :: "('b, 'v) vmm_state"
  assumes "page_aligned p" "p \<notin> tables s" "window s {p}" "\<forall>i \<in> set is. i < 1024" "distinct is" "vm_ok ok man fr s"
  shows "\<exists>m. rw_fill (PHYS_TO_VIRT p) is s = (None, s\<lparr>vm_mem := m\<rparr>) \<and>
    space (s\<lparr>vm_mem := m\<rparr>) = space s \<and> tables (s\<lparr>vm_mem := m\<rparr>) = tables s \<and> vm_ok ok man fr (s\<lparr>vm_mem := m\<rparr>) \<and>
    (\<forall>i < 1024. rd32 m (PHYS_TO_VIRT p + 4 * of_nat i) =
       (if i \<in> set is then rw_pattern i else rd32 (vm_mem s) (PHYS_TO_VIRT p + 4 * of_nat i)))"
  using assms
proof (induction "is" arbitrary: s)
  case Nil
  then show ?case by (intro exI [of _ "vm_mem s"]) simp
next
  case (Cons i "is")
  let ?v = "PHYS_TO_VIRT p"
  let ?t = "s\<lparr>vm_mem := wr32 (vm_mem s) (?v + 4 * of_nat i) (rw_pattern i)\<rparr>"
  have i: "i < 1024" using Cons.prems(4) by simp
  note S = store_space [OF Cons.prems(1,2) conjunct1 [OF word_small [OF i]], where x = "rw_pattern i"]
  have "window ?t {p}" using Cons.prems(3) window_cong [OF S(1)] by blast
  from Cons.IH [OF Cons.prems(1) _ this _ _ S(3) [OF Cons.prems(6)]] Cons.prems(2,4,5) S(2)
  obtain m where m: "rw_fill ?v is ?t = (None, s\<lparr>vm_mem := m\<rparr>)" "space (s\<lparr>vm_mem := m\<rparr>) = space ?t" "tables (s\<lparr>vm_mem := m\<rparr>) = tables ?t"
    "vm_ok ok man fr (s\<lparr>vm_mem := m\<rparr>)"
    "\<forall>j < 1024. rd32 m (?v + 4 * of_nat j) = (if j \<in> set is then rw_pattern j else rd32 (vm_mem ?t) (?v + 4 * of_nat j))" by auto
  have "rd32 (vm_mem ?t) (?v + 4 * of_nat j) = (if j = i then rw_pattern i else rd32 (vm_mem s) (?v + 4 * of_nat j))" if "j < 1024" for j
  proof (cases "j = i")
    case False
    then have "(of_nat i :: u32) \<noteq> of_nat j" using word_small [OF i] word_small [OF that] by metis
    then show ?thesis
      using rd_entry_other [OF page_aligned_phys_to_virt page_aligned_phys_to_virt, OF Cons.prems(1,1)] word_small [OF i] word_small [OF that] False by simp
  qed simp
  then show ?case using m S(1,2) Cons.prems(5) window_store(1) [OF Cons.prems(3,1) i] by (intro exI [of _ m]) auto
qed

lemma rw_check:
  assumes "page_aligned p" "window s {p}" "\<forall>i \<in> set is. i < 1024 \<and> rd32 (vm_mem s) (PHYS_TO_VIRT p + 4 * of_nat i) = rw_pattern i"
  shows "rw_check (PHYS_TO_VIRT p) is s = RW_Ok"
  using assms(3) by (induction "is") (simp_all add: window_store [OF assms(2,1)])

context vmm_pages
begin

abbreviation "held \<equiv> pages_held inv managed free_set freeable"

lemma held_print [simp]: "held s0 ps (pc_print f a s) = held s0 ps s"
  by (simp add: pages_held_def pc_print_def)

lemma held_refl: "vm_ok inv managed free_set (pc_vm s) \<Longrightarrow> held s [] s"
  by (simp add: pages_held_def)

lemma held_alloc:
  assumes h: "held s0 ps (s :: ('b, 'v) pmm_cmd)" and al: "pc_alloc s = (p, s1)"
  shows "pc_log s1 = pc_log s" "p = 0 \<Longrightarrow> held s0 ps s1" "p \<noteq> 0 \<Longrightarrow> held s0 (ps @ [p]) s1" "page_aligned p"
    "p = 0 \<longleftrightarrow> card (free_set (vm_pmm (pc_vm s0))) = length ps"
proof -
  obtain pm where pm: "pmm_alloc_page (vm_pmm (pc_vm s)) = (p, pm)" "s1 = s\<lparr>pc_vm := (pc_vm s)\<lparr>vm_pmm := pm\<rparr>\<rparr>"
    using al by (auto simp: pc_alloc_def split: prod.splits)
  note H = h [unfolded pages_held_def]
  have inv: "inv (vm_pmm (pc_vm s))" using H by (auto simp: vm_ok_def)
  show "pc_log s1 = pc_log s" by (simp add: pm(2))
  have null: "p = 0 \<longleftrightarrow> free_set (vm_pmm (pc_vm s)) = {}" using alloc_null_iff [OF inv] pm(1) by simp
  have fin: "finite (free_set (vm_pmm (pc_vm s0)))" by simp
  have "card (set ps) = length ps" using H by (simp add: distinct_card)
  moreover have "free_set (vm_pmm (pc_vm s)) = {} \<longleftrightarrow> free_set (vm_pmm (pc_vm s0)) = set ps" using H by blast
  moreover have "free_set (vm_pmm (pc_vm s0)) = set ps \<longleftrightarrow> card (free_set (vm_pmm (pc_vm s0))) = card (set ps)"
    using H card_subset_eq [OF fin] by metis
  ultimately show "p = 0 \<longleftrightarrow> card (free_set (vm_pmm (pc_vm s0))) = length ps" using null by simp
  show "held s0 ps s1" if "p = 0"
  proof -
    have e: "free_set (vm_pmm (pc_vm s)) = {}" using null that by blast
    have A: "inv pm" "managed pm = managed (vm_pmm (pc_vm s))" "free_set pm = {}" "freeable pm = freeable (vm_pmm (pc_vm s))"
      using alloc_inv [OF inv] alloc_managed [OF inv] alloc_none [OF inv e] pm(1) by simp_all
    let ?t = "(pc_vm s)\<lparr>vm_pmm := pm\<rparr>"
    note sc = space_cong [of ?t "pc_vm s", OF pd_get_frame(2)]
    have sp: "space ?t = space (pc_vm s)" "tables ?t = tables (pc_vm s)" using sc by (simp_all add: space_def fun_eq_iff)
    have "vm_ok inv managed free_set ?t" using H A e by (intro vm_ok_cong [of ?t "pc_vm s"]) (auto simp: vm_simps)
    then show ?thesis unfolding pages_held_def pm(2)
      using H A e sp by (simp add: rest_eq_def)
  qed
  have ok: "vm_ok inv managed free_set (pc_vm s)" using H by blast
  show "page_aligned p"
  proof (cases "p = 0")
    case True
    then show ?thesis by (simp add: page_aligned_def)
  next
    case False
    then show ?thesis using take_page(5) [OF ok _ pm(1)] null by blast
  qed
  show "held s0 (ps @ [p]) s1" if "p \<noteq> 0"
  proof -
    have ne: "free_set (vm_pmm (pc_vm s)) \<noteq> {}" using null that by blast
    note T = take_page [OF ok ne pm(1)] and A = alloc_some [OF inv ne, unfolded pm(1) fst_conv snd_conv] alloc_managed [OF inv, unfolded pm(1) snd_conv]
    show ?thesis unfolding pages_held_def pm(2)
      using H T(1,3,4) A by (auto simp: rest_eq_def)
  qed
qed

lemma held_free:
  assumes h: "held s0 (p # ps) (s :: ('b, 'v) pmm_cmd)"
  shows "held s0 ps (pc_free p s)" "pc_log (pc_free p s) = pc_log s"
proof -
  note H = h [unfolded pages_held_def]
  have inv0: "inv (vm_pmm (pc_vm s0))" and dis: "free_set (vm_pmm (pc_vm s0)) \<inter> tables (pc_vm s0) = {}"
    using H by (auto simp: vm_ok_def)
  have nf: "p \<notin> freeable (vm_pmm (pc_vm s0))" "set ps \<inter> freeable (vm_pmm (pc_vm s0)) = {}"
    using H freeable_managed [OF inv0] by auto
  have p: "p \<in> freeable (vm_pmm (pc_vm s))" "p \<notin> tables (pc_vm s)" using H dis by auto
  have ok: "vm_ok inv managed free_set (pc_vm s)" using H by blast
  note G = give_page [OF ok p]
  show "held s0 ps (pc_free p s)" unfolding pages_held_def pc_free_def
    using H G nf by (auto simp: rest_eq_def)
  show "pc_log (pc_free p s) = pc_log s" by (simp add: pc_free_def)
qed

lemma held_free_all: "held s0 ps (s :: ('b, 'v) pmm_cmd) \<Longrightarrow> held s0 [] (fold pc_free ps s) \<and> pc_log (fold pc_free ps s) = pc_log s"
  by (induction ps arbitrary: s) (simp_all add: held_free)

lemma held_count:
  assumes "held s0 ps (s :: ('b, 'v) pmm_cmd)"
  shows "pc_free_pages s = pc_free_pages s0 - of_nat (length ps)"
proof -
  note H = assms [unfolded pages_held_def]
  have inv: "inv (vm_pmm (pc_vm s))" "inv (vm_pmm (pc_vm s0))" using H by (auto simp: vm_ok_def)
  have "card (free_set (vm_pmm (pc_vm s))) = card (free_set (vm_pmm (pc_vm s0))) - length ps"
    using H by (simp add: card_Diff_subset distinct_card)
  moreover have "length ps \<le> card (free_set (vm_pmm (pc_vm s0)))"
    using H by (metis card_mono distinct_card finite)
  ultimately show ?thesis using free_pages_card [OF inv(1)] free_pages_card [OF inv(2)]
    by (simp add: pc_free_pages_def of_nat_diff)
qed

text \<open>The loops that allocate.\<close>

abbreviation "pool s0 \<equiv> card (free_set (vm_pmm (pc_vm s0)))"

lemma align_alloc:
  assumes "held s0 ps (s :: ('b, 'v) pmm_cmd)"
  shows "\<exists>r s1. align_alloc n ps ok s = (r, s1) \<and> (length ps + n \<le> pool s0 \<longrightarrow> r \<noteq> None) \<and>
    (case r of None \<Rightarrow> held s0 [] s1 | Some (qs, ok') \<Rightarrow> held s0 qs s1 \<and> ok' = ok \<and> pc_log s1 = pc_log s)"
  using assms
proof (induction n ps ok s rule: align_alloc.induct)
  case (2 n ps ok s)
  obtain p s1 where al: "pc_alloc s = (p, s1)" by (cases "pc_alloc s")
  note A = held_alloc [OF 2(3) al]
  show ?case
  proof (cases "p = 0")
    case True
    then have "held s0 ps (pc_print ''[pmm-test] FAIL: alloc returned NULL at i=%d\<newline>'' [KInt (of_nat (length ps))] s1)"
      using A(2) by simp
    from held_free_all [OF this] show ?thesis using al True A(5) by auto
  next
    case False
    have low: "\<not> p AND 0xFFF \<noteq> 0" using A(4) by (simp add: page_aligned_def)
    from 2(2) [OF al [symmetric] False low A(3) [OF False]]
    obtain r s2 where "align_alloc n (ps @ [p]) ok s1 = (r, s2)" "length (ps @ [p]) + n \<le> pool s0 \<longrightarrow> r \<noteq> None"
      "case r of None \<Rightarrow> held s0 [] s2 | Some (qs, ok') \<Rightarrow> held s0 qs s2 \<and> ok' = ok \<and> pc_log s2 = pc_log s1" by blast
    then show ?thesis using al False A(1) low by (auto split: option.splits)
  qed
qed auto

lemma unique_alloc:
  assumes "held s0 ps (s :: ('b, 'v) pmm_cmd)"
  shows "\<exists>r s1. unique_alloc n ps s = (r, s1) \<and> (length ps + n \<le> pool s0 \<longrightarrow> r \<noteq> None) \<and>
    (case r of None \<Rightarrow> held s0 [] s1 | Some qs \<Rightarrow> held s0 qs s1 \<and> length qs = length ps + n \<and> pc_log s1 = pc_log s)"
  using assms
proof (induction n ps s rule: unique_alloc.induct)
  case (2 n ps s)
  obtain p s1 where al: "pc_alloc s = (p, s1)" by (cases "pc_alloc s")
  note A = held_alloc [OF 2(2) al]
  show ?case
  proof (cases "p = 0")
    case True
    then have "held s0 ps (pc_print ''[pmm-test] FAIL: alloc returned NULL at i=%d\<newline>'' [KInt (of_nat (length ps))] s1)"
      using A(2) by simp
    from held_free_all [OF this] show ?thesis using al True A(5) by auto
  next
    case False
    from 2(1) [OF al [symmetric] False A(3) [OF False]]
    obtain r s2 where "unique_alloc n (ps @ [p]) s1 = (r, s2)" "length (ps @ [p]) + n \<le> pool s0 \<longrightarrow> r \<noteq> None"
      "case r of None \<Rightarrow> held s0 [] s2 | Some qs \<Rightarrow> held s0 qs s2 \<and> length qs = length (ps @ [p]) + n \<and> pc_log s2 = pc_log s1" by auto
    then show ?thesis using al False A(1) by (auto split: option.splits)
  qed
qed auto

lemma batch_alloc:
  assumes "held s0 ps (s :: ('b, 'v) pmm_cmd)"
  shows "\<exists>qs s1. batch_alloc n ps s = (qs, s1) \<and> held s0 qs s1 \<and> (length ps + n \<le> pool s0 \<longrightarrow> pc_log s1 = pc_log s)"
  using assms
proof (induction n ps s rule: batch_alloc.induct)
  case (2 n ps s)
  obtain p s1 where al: "pc_alloc s = (p, s1)" by (cases "pc_alloc s")
  note A = held_alloc [OF 2(2) al]
  show ?case
  proof (cases "p = 0")
    case True
    then show ?thesis using al A(2,5) by auto
  next
    case False
    from 2(1) [OF al [symmetric] False A(3) [OF False]]
    obtain qs s2 where "batch_alloc n (ps @ [p]) s1 = (qs, s2)" "held s0 qs s2"
      "length (ps @ [p]) + n \<le> pool s0 \<longrightarrow> pc_log s2 = pc_log s1" by auto
    then show ?thesis using al False A(1) by simp
  qed
qed auto

end

section \<open>The self-test\<close>

text \<open>What a part that passes prints.\<close>

definition part_log :: "string \<Rightarrow> klog" where
  "part_log title = say (''[pmm-test] '' @ title @ ''\<newline>'') @ say ''[pmm-test] PASS\<newline>''"

lemma log_print [simp]: "pc_log (pc_print f a s) = pc_log s @ [(f, a)]" "pc_vm (pc_print f a s) = pc_vm s"
  by (simp_all add: pc_print_def)

context vmm_pages
begin

lemma test1:
  assumes h: "held s0 [] (s :: ('b, 'v) pmm_cmd)"
  shows "\<exists>r s1. pmm_test1 s = (r, s1) \<and> held s0 [] s1 \<and>
    (1 \<le> pool s0 \<longrightarrow> r = Some True \<and> pc_log s1 = pc_log s @ part_log ''test 1: basic alloc/free roundtrip'')"
proof -
  let ?s = "pc_print ''[pmm-test] test 1: basic alloc/free roundtrip\<newline>'' [] s"
  obtain p s1 where al: "pc_alloc ?s = (p, s1)" by (cases "pc_alloc ?s")
  have hs: "held s0 [] ?s" using h by simp
  note A = held_alloc [OF hs al]
  show ?thesis
  proof (cases "p = 0")
    case True
    then show ?thesis using A(2,5) al by (simp add: pmm_test1_def)
  next
    case False
    note c1 = held_count [OF hs] and c2 = held_count [OF A(3) [OF False]]
    have h2: "held s0 [p] s1" using A(3) [OF False] by simp
    note f = held_free [OF h2] and c3 = held_count [OF held_free(1) [OF h2]]
    have "pmm_test1 s = (Some True, pc_print ''[pmm-test] PASS\<newline>'' [] (pc_free p s1))"
      using False al c1 c2 c3 by (simp add: pmm_test1_def)
    then show ?thesis using f A(1) by (simp add: part_log_def)
  qed
qed

lemma test2:
  assumes h: "held s0 [] (s :: ('b, 'v) pmm_cmd)"
  shows "\<exists>r s1. pmm_test2 pass s = (r, s1) \<and> held s0 [] s1 \<and>
    (8 \<le> pool s0 \<longrightarrow> r = Some pass \<and> pc_log s1 = pc_log s @ part_log ''test 2: page alignment'')"
proof -
  let ?s = "pc_print ''[pmm-test] test 2: page alignment\<newline>'' [] s"
  have "held s0 [] ?s" using h by simp
  from align_alloc [OF this, of 8 True] obtain r s1 where r: "align_alloc 8 [] True ?s = (r, s1)" "8 \<le> pool s0 \<longrightarrow> r \<noteq> None"
    "case r of None \<Rightarrow> held s0 [] s1 | Some (qs, ok') \<Rightarrow> held s0 qs s1 \<and> ok' = True \<and> pc_log s1 = pc_log ?s" by auto
  show ?thesis
  proof (cases r)
    case None
    then show ?thesis using r by (simp add: pmm_test2_def PMM_TEST_ALIGN_N_def)
  next
    case (Some x)
    then obtain qs where qs: "r = Some (qs, True)" "held s0 qs s1" "pc_log s1 = pc_log ?s" using r(3) by (cases x) auto
    then show ?thesis using r(1) held_free_all [OF qs(2)] by (simp add: pmm_test2_def PMM_TEST_ALIGN_N_def part_log_def)
  qed
qed

lemma no_duplicates: "distinct ps \<Longrightarrow> length ps = 16 \<Longrightarrow> duplicate_pages ps = []"
  by (auto simp: duplicate_pages_def PMM_TEST_UNIQUE_N_def nth_eq_iff_index_eq simp del: upt_rec_numeral)

lemma test3:
  assumes h: "held s0 [] (s :: ('b, 'v) pmm_cmd)"
  shows "\<exists>r s1. pmm_test3 pass s = (r, s1) \<and> held s0 [] s1 \<and>
    (16 \<le> pool s0 \<longrightarrow> r = Some pass \<and> pc_log s1 = pc_log s @ part_log ''test 3: uniqueness'')"
proof -
  let ?s = "pc_print ''[pmm-test] test 3: uniqueness\<newline>'' [] s"
  have "held s0 [] ?s" using h by simp
  from unique_alloc [OF this, of 16] obtain r s1 where r: "unique_alloc 16 [] ?s = (r, s1)" "16 \<le> pool s0 \<longrightarrow> r \<noteq> None"
    "case r of None \<Rightarrow> held s0 [] s1 | Some qs \<Rightarrow> held s0 qs s1 \<and> length qs = 16 \<and> pc_log s1 = pc_log ?s" unfolding list.size add_0 by blast
  show ?thesis
  proof (cases r)
    case None
    then show ?thesis using r by (simp add: pmm_test3_def PMM_TEST_UNIQUE_N_def)
  next
    case (Some qs)
    then have qs: "held s0 qs s1" "length qs = 16" "pc_log s1 = pc_log ?s" using r(3) by simp_all
    have "duplicate_pages qs = []" using no_duplicates qs(1,2) by (simp add: pages_held_def)
    then show ?thesis using Some r(1) qs held_free_all [OF qs(1)] by (simp add: pmm_test3_def PMM_TEST_UNIQUE_N_def part_log_def)
  qed
qed

lemma test4:
  assumes h: "held s0 [] (s :: ('b, 'v) pmm_cmd)"
  shows "\<exists>s1. pmm_test4 pass s = (pass, s1) \<and> held s0 [] s1 \<and>
    (32 \<le> pool s0 \<longrightarrow> pass \<longrightarrow> pc_log s1 = pc_log s @ part_log ''test 4: batch stress (32 pages)'')"
proof -
  let ?s = "pc_print ''[pmm-test] test 4: batch stress (32 pages)\<newline>'' [] s"
  have hs: "held s0 [] ?s" using h by simp
  from batch_alloc [OF this, of 32] obtain qs s1 where q: "batch_alloc 32 [] ?s = (qs, s1)" "held s0 qs s1"
    "32 \<le> pool s0 \<longrightarrow> pc_log s1 = pc_log ?s" by auto
  note f = held_free_all [OF q(2)]
  note c = held_count [OF hs] held_count [OF q(2)] held_count [OF conjunct1 [OF f]]
  show ?thesis using q f c by (cases pass) (simp_all add: pmm_test4_def PMM_TEST_BATCH_N_def part_log_def)
qed

lemma test5:
  assumes h: "held s0 [] (s :: ('b, 'v) pmm_cmd)" and win: "g_vmm_ready (pc_vm s0) \<Longrightarrow> window (pc_vm s0) (free_set (vm_pmm (pc_vm s0)))"
  shows "\<exists>s1. pmm_test5 pass s = (Some pass, s1) \<and> held s0 [] s1 \<and> (1 \<le> pool s0 \<longrightarrow> g_vmm_ready (pc_vm s) \<longrightarrow>
    pc_log s1 = pc_log s @ part_log ''test 5: write/read via PHYS_TO_VIRT'')"
proof (cases "g_vmm_ready (pc_vm s)")
  case True
  let ?s = "pc_print ''[pmm-test] test 5: write/read via PHYS_TO_VIRT\<newline>'' [] s"
  obtain p s1 where al: "pc_alloc ?s = (p, s1)" by (cases "pc_alloc ?s")
  have hs: "held s0 [] ?s" using h by simp
  note A = held_alloc [OF hs al]
  have words: "[0..<unat (PMM_PAGE_SIZE div 4)] = [0..<1024]" by (simp add: PMM_PAGE_SIZE_def del: upt_rec_numeral)
  show ?thesis
  proof (cases "p = 0")
    case True
    then show ?thesis using A(2,5) al \<open>g_vmm_ready (pc_vm s)\<close> by (simp add: pmm_test5_def vmm_is_ready_def)
  next
    case False
    have h1: "held s0 [p] s1" using A(3) [OF False] by simp
    note H = h1 [unfolded pages_held_def]
    have nt: "p \<notin> tables (pc_vm s1)" using H by (auto simp: vm_ok_def)
    have "g_vmm_ready (pc_vm s0)" using True h by (simp add: pages_held_def rest_eq_def)
    then have "window (pc_vm s1) (free_set (vm_pmm (pc_vm s0)))" using win H window_cong by blast
    then have w: "window (pc_vm s1) {p}" using H by (auto intro: window_mono)
    from rw_fill [OF A(4) nt w, of "[0..<1024]" inv managed free_set] H obtain m where
      m: "rw_fill (PHYS_TO_VIRT p) [0..<1024] (pc_vm s1) = (None, (pc_vm s1)\<lparr>vm_mem := m\<rparr>)"
        "space ((pc_vm s1)\<lparr>vm_mem := m\<rparr>) = space (pc_vm s1)" "tables ((pc_vm s1)\<lparr>vm_mem := m\<rparr>) = tables (pc_vm s1)"
        "vm_ok inv managed free_set ((pc_vm s1)\<lparr>vm_mem := m\<rparr>)" "\<forall>i < 1024. rd32 m (PHYS_TO_VIRT p + 4 * of_nat i) = rw_pattern i"
      by (auto simp del: upt_rec_numeral)
    let ?s2 = "s1\<lparr>pc_vm := (pc_vm s1)\<lparr>vm_mem := m\<rparr>\<rparr>"
    have "held s0 [p] ?s2" unfolding pages_held_def using H m(2-4) by (simp add: rest_eq_def)
    note f = held_free [OF this]
    have "rw_check (PHYS_TO_VIRT p) [0..<1024] (pc_vm ?s2) = RW_Ok"
      using rw_check [OF A(4), of "pc_vm ?s2" "[0..<1024]"] w window_cong [OF m(2)] m(5) by simp
    then have "pmm_test5 pass s = (Some pass, pc_print ''[pmm-test] PASS\<newline>'' [] (pc_free p ?s2))"
      using False al True m(1) words by (simp add: pmm_test5_def vmm_is_ready_def del: upt_rec_numeral)
    then show ?thesis using f A(1) by (simp add: part_log_def)
  qed
next
  case False
  then show ?thesis using h by (simp add: pmm_test5_def vmm_is_ready_def)
qed

end

section \<open>Tracking\<close>

definition tracked_list :: "('b, 'v) pmm_cmd \<Rightarrow> u32 list" where
  "tracked_list s = take (unat (g_pmm_cmd_alloc_count s)) (g_pmm_cmd_allocs s)"

text \<open>The tracked pages are different pages that may be given back, and no page tables.\<close>

definition track_ok :: "('b pmm_state \<Rightarrow> u32 set) \<Rightarrow> ('b, 'v) pmm_cmd \<Rightarrow> bool" where
  "track_ok fb s \<longleftrightarrow> length (g_pmm_cmd_allocs s) = 1024 \<and> unat (g_pmm_cmd_alloc_count s) \<le> 1024 \<and> distinct (tracked_list s) \<and>
     set (tracked_list s) \<subseteq> fb (vm_pmm (pc_vm s)) \<and> set (tracked_list s) \<inter> tables (pc_vm s) = {}"

text \<open>Filling the place of an element with the last one.\<close>

lemma swap_remove:
  assumes "distinct xs" "k < length xs"
  defines "ys \<equiv> take (length xs - 1) (xs[k := xs ! (length xs - 1)])"
  shows "distinct ys" "set ys = set xs - {xs ! k}"
proof -
  define n where "n = length xs - 1"
  have xs: "xs = take n xs @ [xs ! n]" using assms(2) take_Suc_conv_app_nth [of n xs] by (simp add: n_def)
  have "distinct (take n xs @ [xs ! n])" "set xs = set (take n xs @ [xs ! n])" using assms(1) xs by metis+
  then have d: "distinct (take n xs)" "xs ! n \<notin> set (take n xs)" and st: "set xs = insert (xs ! n) (set (take n xs))" by simp_all
  show "distinct ys" "set ys = set xs - {xs ! k}"
  proof -
    have ys: "ys = (take n xs)[k := xs ! n]" by (simp add: ys_def n_def take_update_swap)
    show "distinct ys" unfolding ys using d by (intro distinct_list_update) auto
    show "set ys = set xs - {xs ! k}"
    proof (cases "k = n")
      case True
      then have "(take n xs)[k := xs ! n] = take n xs" by (intro list_update_beyond) simp
      then show ?thesis unfolding ys using d st True by simp
    next
      case False
      then have k: "k < length (take n xs)" using assms(2) by (simp add: n_def)
      then show ?thesis unfolding ys set_update_distinct [OF d(1) k] st using d False assms(1,2) by (auto simp: nth_eq_iff_index_eq n_def)
    qed
  qed
qed

lemma track_remove_from:
  assumes "unat (g_pmm_cmd_alloc_count s) \<le> length (g_pmm_cmd_allocs s)"
  shows "\<exists>r s'. track_remove_from a i s = (r, s') \<and> pc_vm s' = pc_vm s \<and> pc_log s' = pc_log s \<and>
    ((r = 0 \<and> s' = s \<and> (\<forall>j. unat i \<le> j \<longrightarrow> j < unat (g_pmm_cmd_alloc_count s) \<longrightarrow> g_pmm_cmd_allocs s ! j \<noteq> a)) \<or>
     (r = 1 \<and> (\<exists>k < unat (g_pmm_cmd_alloc_count s). g_pmm_cmd_allocs s ! k = a \<and>
        g_pmm_cmd_alloc_count s' = g_pmm_cmd_alloc_count s - 1 \<and>
        g_pmm_cmd_allocs s' = (g_pmm_cmd_allocs s)[k := g_pmm_cmd_allocs s ! unat (g_pmm_cmd_alloc_count s - 1)])))"
  using assms
proof (induction a i s rule: track_remove_from.induct)
  case (1 a i s)
  let ?n = "g_pmm_cmd_alloc_count s"
  show ?case
  proof (cases "i < ?n")
    case True
    then have i: "unat i < unat ?n" "unat (i + 1) = unat i + 1" using unat_inc [OF True] by (simp_all add: word_less_nat_alt)
    show ?thesis
    proof (cases "g_pmm_cmd_allocs s ! unat i = a")
      case hit: True
      then show ?thesis using True i(1) by (subst track_remove_from.simps) (auto simp: Let_def)
    next
      case False
      have "j = unat i \<or> unat (i + 1) \<le> j" if "unat i \<le> j" for j using that i(2) by linarith
      then show ?thesis using 1(1) [OF True False 1(2)] True False by (subst (1) track_remove_from.simps) force
    qed
  next
    case False
    then show ?thesis by (subst track_remove_from.simps) (auto simp: word_less_nat_alt)
  qed
qed

lemma track_remove:
  assumes "track_ok fb s" "a \<in> set (tracked_list s)"
  shows "\<exists>s'. pmm_cmd_track_remove a s = (1, s') \<and> pc_vm s' = pc_vm s \<and> pc_log s' = pc_log s \<and> track_ok fb s' \<and>
    set (tracked_list s') = set (tracked_list s) - {a}"
proof -
  let ?n = "g_pmm_cmd_alloc_count s" and ?xs = "tracked_list s"
  note T = assms(1) [unfolded track_ok_def]
  have len: "length ?xs = unat ?n" using T by (simp add: tracked_list_def)
  have at: "?xs ! j = g_pmm_cmd_allocs s ! j" if "j < unat ?n" for j using that by (simp add: tracked_list_def)
  obtain j where j: "j < unat ?n" "g_pmm_cmd_allocs s ! j = a" using assms(2) len at by (metis in_set_conv_nth)
  have "unat ?n \<le> length (g_pmm_cmd_allocs s)" using T by simp
  from track_remove_from [OF this, of a 0] j obtain s' k where s': "track_remove_from a 0 s = (1, s')" "pc_vm s' = pc_vm s" "pc_log s' = pc_log s"
    "k < unat ?n" "g_pmm_cmd_allocs s ! k = a" "g_pmm_cmd_alloc_count s' = ?n - 1"
    "g_pmm_cmd_allocs s' = (g_pmm_cmd_allocs s)[k := g_pmm_cmd_allocs s ! unat (?n - 1)]" by auto
  have "?n \<noteq> 0" using j(1) by auto
  then have dec: "unat (?n - 1) = unat ?n - 1" by (simp add: unat_dec word_greater_zero_iff)
  have "tracked_list s' = take (length ?xs - 1) (?xs[k := ?xs ! (length ?xs - 1)])"
    unfolding len using at [of "unat ?n - 1"] s'(4) by (simp add: tracked_list_def s'(6,7) dec take_update_swap min_def)
  moreover have "k < length ?xs" using s'(4) len by simp
  note swap_remove [OF _ this]
  ultimately have "distinct (tracked_list s')" "set (tracked_list s') = set ?xs - {a}" using T at [OF s'(4)] s'(5) by simp_all
  then show ?thesis using s'(1-3) T by (auto simp: pmm_cmd_track_remove_def track_ok_def s'(6,7) dec)
qed

section \<open>No subcommand disturbs the kernel\<close>

definition kernel_kept :: "('b pmm_state \<Rightarrow> bool) \<Rightarrow> ('b pmm_state \<Rightarrow> u32 set) \<Rightarrow> ('b pmm_state \<Rightarrow> u32 set) \<Rightarrow>
    ('b, 'v) pmm_cmd \<Rightarrow> ('b, 'v) pmm_cmd \<Rightarrow> bool" where
  "kernel_kept ok man fr s s' \<longleftrightarrow> vm_ok ok man fr (pc_vm s') \<and> space (pc_vm s') = space (pc_vm s) \<and>
     tables (pc_vm s') = tables (pc_vm s) \<and> rest_eq (pc_vm s) (pc_vm s')"

lemma kernel_kept_trans: "kernel_kept ok man fr s t \<Longrightarrow> kernel_kept ok man fr t u \<Longrightarrow> kernel_kept ok man fr s u"
  by (auto simp: kernel_kept_def intro: rest_eq_trans)

text \<open>No page is lost: what is not free is tracked.\<close>

definition pages_kept :: "('b pmm_state \<Rightarrow> u32 set) \<Rightarrow> ('b, 'v) pmm_cmd \<Rightarrow> ('b, 'v) pmm_cmd \<Rightarrow> bool" where
  "pages_kept fr s s' \<longleftrightarrow>
     fr (vm_pmm (pc_vm s')) \<union> set (tracked_list s') = fr (vm_pmm (pc_vm s)) \<union> set (tracked_list s)"

definition only_prints :: "('b, 'v) pmm_cmd \<Rightarrow> ('b, 'v) pmm_cmd \<Rightarrow> bool" where
  "only_prints s s' \<longleftrightarrow> (\<exists>log. s' = s\<lparr>pc_log := log\<rparr>)"

lemma only_prints_print: "only_prints s s' \<Longrightarrow> only_prints s (pc_print f a s')" "only_prints s s"
  by (auto simp: only_prints_def pc_print_def intro: exI [of _ "pc_log s"])

lemma only_prints_row: "only_prints s s' \<Longrightarrow> only_prints s (dump_row_end b i s')"
  by (simp add: dump_row_end_def Let_def only_prints_print)

lemma only_prints_dump: "only_prints s0 s \<Longrightarrow> only_prints s0 (snd (dump_from b e i l s))"
proof (induction b e i l s rule: dump_from.induct)
  case (1 b e i l s)
  show ?case
    by (subst dump_from.simps) (use 1 in \<open>auto simp: Let_def only_prints_print only_prints_row\<close>)
qed

lemma only_prints_cmds:
  "only_prints s (cmd_pmm_usage s)" "only_prints s (cmd_pmm_stat s)" "only_prints s (cmd_pmm_dump argv s)"
  "only_prints s (cmd_pmm_usage (pc_print f a s))"
proof -
  have u: "only_prints s t \<Longrightarrow> only_prints s (cmd_pmm_usage t)" for t by (simp add: cmd_pmm_usage_def only_prints_print)
  show "only_prints s (cmd_pmm_usage s)" "only_prints s (cmd_pmm_usage (pc_print f a s))"
    by (rule u, simp add: only_prints_print)+
  show "only_prints s (cmd_pmm_stat s)" by (simp add: cmd_pmm_stat_def Let_def only_prints_print)
  have d: "only_prints s (case dump_from base en st l t of (line, t') \<Rightarrow> if line \<noteq> 0 then dump_row_end base (en' - line) t' else t')"
    if "only_prints s t" for base en en' st l t
    using only_prints_dump [OF that, of base en st l] by (cases "dump_from base en st l t") (simp add: only_prints_row)
  show "only_prints s (cmd_pmm_dump argv s)"
    unfolding cmd_pmm_dump_def Let_def by (auto simp: only_prints_print d split: option.split)
qed

text \<open>The address a line asks to free, and whether it asks for the self-test.\<close>

definition free_arg :: "string list \<Rightarrow> u32 option" where
  "free_arg argv = (if length argv \<ge> 3 \<and> streq (argv ! 1) ''free'' then parse_u32 (argv ! 2) else None)"

definition asks_test :: "string list \<Rightarrow> bool" where
  "asks_test argv \<longleftrightarrow> length argv \<ge> 2 \<and> argv ! 1 = ''test''"

context vmm_pages
begin

abbreviation "kept s s' \<equiv> kernel_kept inv managed free_set s s' \<and> pages_kept free_set s s'"
abbreviation "good s \<equiv> vm_ok inv managed free_set (pc_vm s) \<and> track_ok freeable s"

lemma kept_trans: "kept s t \<Longrightarrow> kept t u \<Longrightarrow> kept s u"
  using kernel_kept_trans by (auto simp: pages_kept_def)

lemma good_prints: "only_prints s s' \<Longrightarrow> good s \<Longrightarrow> kept s s' \<and> good s'"
  by (auto simp: only_prints_def kernel_kept_def pages_kept_def track_ok_def tracked_list_def)

lemma good_held:
  assumes "held s [] s'" "good s"
  shows "kept s s' \<and> good s'"
  using assms by (simp add: pages_held_def kernel_kept_def pages_kept_def track_ok_def tracked_list_def)

lemma good_track_add:
  assumes g: "good s" and n: "g_pmm_cmd_alloc_count s < PMM_CMD_TRACK_MAX" and al: "pc_alloc s = (p, s1)" "p \<noteq> 0"
  shows "kept s (pmm_cmd_track_add p s1)" "good (pmm_cmd_track_add p s1)"
proof -
  obtain pm where pm: "pmm_alloc_page (vm_pmm (pc_vm s)) = (p, pm)" "s1 = s\<lparr>pc_vm := (pc_vm s)\<lparr>vm_pmm := pm\<rparr>\<rparr>"
    using al(1) by (auto simp: pc_alloc_def split: prod.splits)
  have ok: "vm_ok inv managed free_set (pc_vm s)" and inv: "inv (vm_pmm (pc_vm s))" using g by (auto simp: vm_ok_def)
  have ne: "free_set (vm_pmm (pc_vm s)) \<noteq> {}" using alloc_null_iff [OF inv] pm(1) al(2) by auto
  note T = take_page [OF ok ne pm(1)] and A = alloc_some [OF inv ne, unfolded pm(1) fst_conv snd_conv]
  let ?k = "g_pmm_cmd_alloc_count s" and ?t = "pmm_cmd_track_add p s1"
  have k: "unat ?k < 1024" "unat (?k + 1) = Suc (unat ?k)"
    using n unat_inc [OF n] by (simp_all add: PMM_CMD_TRACK_MAX_def word_less_nat_alt)
  have t: "pc_vm ?t = (pc_vm s)\<lparr>vm_pmm := pm\<rparr>" "g_pmm_cmd_alloc_count ?t = ?k + 1"
    "g_pmm_cmd_allocs ?t = (g_pmm_cmd_allocs s)[unat ?k := p]"
    using n by (simp_all add: pmm_cmd_track_add_def pm(2))
  have len: "length (g_pmm_cmd_allocs s) = 1024" using g by (simp add: track_ok_def)
  have "tracked_list ?t = tracked_list s @ [p]"
    unfolding tracked_list_def t k(2) using k(1) len by (simp add: take_Suc_conv_app_nth)
  note tl = this
  show "kept s ?t" unfolding kernel_kept_def pages_kept_def tl t using T A by (auto simp: rest_eq_def)
  have "p \<notin> freeable (vm_pmm (pc_vm s))" "p \<notin> tables (pc_vm s)"
    using A freeable_managed [OF inv] ok by (auto simp: vm_ok_def)
  then show "good ?t"
    using g T(1,4) A k len tl by (auto simp: track_ok_def t)
qed

lemma good_alloc_null:
  assumes g: "good s" and al: "pc_alloc s = (0, s1)"
  shows "kept s s1" "good s1"
proof -
  have "held s [] s" using g held_refl by blast
  from held_alloc(2) [OF this al refl] g good_held show "kept s s1" "good s1" by blast+
qed

lemma good_cmd_alloc: "good s \<Longrightarrow> kept s (cmd_alloc_from c i s) \<and> good (cmd_alloc_from c i s)"
proof (induction c i s rule: cmd_alloc_from.induct)
  case (1 c i s)
  obtain p s1 where al: "pc_alloc s = (p, s1)" by (cases "pc_alloc s")
  have refl: "kept s s" using 1(2) by (simp add: kernel_kept_def pages_kept_def)
  have pr: "kept t (pc_print f a t) \<and> good (pc_print f a t)" if "good t" for f a t
    using good_prints [OF only_prints_print(1) [OF only_prints_print(2)] that] .
  consider "\<not> i < c" | "i < c" "g_pmm_cmd_alloc_count s \<ge> PMM_CMD_TRACK_MAX"
    | "i < c" "g_pmm_cmd_alloc_count s < PMM_CMD_TRACK_MAX" "p = 0" | "i < c" "g_pmm_cmd_alloc_count s < PMM_CMD_TRACK_MAX" "p \<noteq> 0"
    by fastforce
  then show ?case
  proof cases
    case 4
    let ?t = "pc_print ''pmm alloc: %p\<newline>'' [KInt p] (pmm_cmd_track_add p s1)"
    note a = good_track_add [OF 1(2) 4(2) al 4(3)]
    have "kept s ?t \<and> good ?t" using pr [OF a(2)] a(1) kept_trans by blast
    then have t: "kept s ?t" "good ?t" by blast+
    have room: "\<not> g_pmm_cmd_alloc_count s \<ge> PMM_CMD_TRACK_MAX" using 4(2) by simp
    note I = 1(1) [OF 4(1) room al [symmetric] 4(3) t(2)]
    have e: "cmd_alloc_from c i s = cmd_alloc_from c (i + 1) ?t"
      using 4 al by (subst cmd_alloc_from.simps) simp
    show ?thesis unfolding e using kept_trans [OF t(1) conjunct1 [OF I]] I by blast
  next
    case 1
    then have "cmd_alloc_from c i s = s" by (subst cmd_alloc_from.simps) simp
    then show ?thesis using refl \<open>good s\<close> by simp
  next
    case 2
    then have "cmd_alloc_from c i s = pc_print ''pmm alloc: tracking full (%u), stop\<newline>'' [KInt PMM_CMD_TRACK_MAX] s"
      by (subst cmd_alloc_from.simps) simp
    then show ?thesis using pr [OF \<open>good s\<close>] by simp
  next
    case 3
    then have "cmd_alloc_from c i s = pc_print ''pmm alloc: OOM after %u pages\<newline>'' [KInt i] s1"
      using al by (subst cmd_alloc_from.simps) (simp add: not_le)
    moreover have g1: "kept s s1" "good s1" using good_alloc_null [OF \<open>good s\<close>] al 3(3) by simp_all
    ultimately show ?thesis using kept_trans [OF g1(1)] pr [OF g1(2)] by simp
  qed
qed

lemma free_pages_good:
  assumes "vm_ok inv managed free_set (pc_vm s)" "distinct ps" "set ps \<subseteq> freeable (vm_pmm (pc_vm s))" "set ps \<inter> tables (pc_vm s) = {}"
  shows "kernel_kept inv managed free_set s (fold pc_free ps s) \<and> free_set (vm_pmm (pc_vm (fold pc_free ps s))) = free_set (vm_pmm (pc_vm s)) \<union> set ps \<and>
    freeable (vm_pmm (pc_vm (fold pc_free ps s))) = freeable (vm_pmm (pc_vm s)) - set ps \<and>
    g_pmm_cmd_allocs (fold pc_free ps s) = g_pmm_cmd_allocs s \<and> g_pmm_cmd_alloc_count (fold pc_free ps s) = g_pmm_cmd_alloc_count s"
  using assms
proof (induction ps arbitrary: s)
  case Nil
  then show ?case by (simp add: kernel_kept_def)
next
  case (Cons p ps)
  have "p \<in> freeable (vm_pmm (pc_vm s))" "p \<notin> tables (pc_vm s)" using Cons.prems by auto
  note G = give_page [OF Cons.prems(1) this]
  have k: "kernel_kept inv managed free_set s (pc_free p s)" using G by (simp add: kernel_kept_def pc_free_def rest_eq_def)
  have "vm_ok inv managed free_set (pc_vm (pc_free p s))" "set ps \<subseteq> freeable (vm_pmm (pc_vm (pc_free p s)))"
    "set ps \<inter> tables (pc_vm (pc_free p s)) = {}" using G Cons.prems by (auto simp: pc_free_def)
  from Cons.IH [OF this(1) _ this(2,3)] Cons.prems(2) G k kernel_kept_trans [OF k] show ?case by (auto simp: pc_free_def)
qed

lemma free_from_table:
  "g_pmm_cmd_allocs s = xs \<Longrightarrow> fold (\<lambda>i s. pc_free (g_pmm_cmd_allocs s ! i) s) is s = fold pc_free (map ((!) xs) is) s"
  for s :: "('b, 'v) pmm_cmd"
  by (induction "is" arbitrary: s) (simp_all add: pc_free_def)

lemma good_freeall:
  assumes g: "good s"
  defines "t \<equiv> cmd_pmm_freeall s"
  shows "kept s t" "good t" "g_pmm_cmd_alloc_count t = 0"
    "free_set (vm_pmm (pc_vm t)) = free_set (vm_pmm (pc_vm s)) \<union> set (tracked_list s)"
    "freeable (vm_pmm (pc_vm t)) = freeable (vm_pmm (pc_vm s)) - set (tracked_list s)"
proof -
  let ?n = "g_pmm_cmd_alloc_count s"
  let ?u = "fold pc_free (tracked_list s) s"
  have g': "vm_ok inv managed free_set (pc_vm s)" "distinct (tracked_list s)" "set (tracked_list s) \<subseteq> freeable (vm_pmm (pc_vm s))"
    "set (tracked_list s) \<inter> tables (pc_vm s) = {}" "length (g_pmm_cmd_allocs s) = 1024" "unat ?n \<le> 1024" using g by (simp_all add: track_ok_def)
  note F = free_pages_good [OF g'(1-4)]
  have m: "map ((!) (g_pmm_cmd_allocs s)) [0..<unat ?n] = tracked_list s"
    using g'(5,6) by (intro nth_equalityI) (simp_all add: tracked_list_def)
  have t: "t = (if ?n = 0 then pc_print ''pmm freeall: nothing to free\<newline>'' [] s
      else pc_print ''pmm freeall: freed %u pages\<newline>'' [KInt ?n] (?u\<lparr>g_pmm_cmd_alloc_count := 0\<rparr>))"
    by (simp add: t_def cmd_pmm_freeall_def free_from_table [OF refl] m Let_def)
  have z: "?n = 0 \<Longrightarrow> tracked_list s = []" by (simp add: tracked_list_def)
  show "g_pmm_cmd_alloc_count t = 0" by (simp add: t pc_print_def)
  show "free_set (vm_pmm (pc_vm t)) = free_set (vm_pmm (pc_vm s)) \<union> set (tracked_list s)"
    "freeable (vm_pmm (pc_vm t)) = freeable (vm_pmm (pc_vm s)) - set (tracked_list s)"
    using F z by (simp_all add: t)
  show "kept s t" using F z g'(1) by (simp add: t kernel_kept_def pages_kept_def) (simp add: tracked_list_def pc_print_def)
  moreover have "length (g_pmm_cmd_allocs t) = 1024" using F g'(5) by (simp add: t pc_print_def)
  ultimately show "good t" using \<open>g_pmm_cmd_alloc_count t = 0\<close>
    by (simp add: kernel_kept_def track_ok_def tracked_list_def)
qed

text \<open>Freeing a page that is tracked.\<close>

lemma good_free:
  assumes g: "good s" and a: "a \<in> set (tracked_list s)"
  defines "t \<equiv> pc_free a (snd (pmm_cmd_track_remove a s))"
  shows "kept s t" "good t" "set (tracked_list t) = set (tracked_list s) - {a}"
    "free_set (vm_pmm (pc_vm t)) = insert a (free_set (vm_pmm (pc_vm s)))"
proof -
  from track_remove [OF conjunct2 [OF g] a] obtain u where u: "pmm_cmd_track_remove a s = (1, u)" "pc_vm u = pc_vm s"
    "track_ok freeable u" "set (tracked_list u) = set (tracked_list s) - {a}" by blast
  have a': "a \<in> freeable (vm_pmm (pc_vm u))" "a \<notin> tables (pc_vm u)" and ok: "vm_ok inv managed free_set (pc_vm u)"
    using g a u(2) by (auto simp: track_ok_def)
  note G = give_page [OF ok a']
  have t: "t = pc_free a u" by (simp add: t_def u(1))
  have tl: "tracked_list t = tracked_list u" by (simp add: t pc_free_def tracked_list_def)
  show "set (tracked_list t) = set (tracked_list s) - {a}" using tl u(4) by simp
  show "free_set (vm_pmm (pc_vm t)) = insert a (free_set (vm_pmm (pc_vm s)))"
    using G u(2) by (simp add: t pc_free_def)
  have k: "kernel_kept inv managed free_set s t" using G u(2) by (simp add: kernel_kept_def t pc_free_def rest_eq_def)
  then show "kept s t" using a \<open>set (tracked_list t) = _\<close> \<open>free_set (vm_pmm (pc_vm t)) = _\<close> by (auto simp: pages_kept_def)
  show "good t" using k u(3,4) G tl
    by (auto simp: kernel_kept_def track_ok_def) (auto simp: t pc_free_def)
qed

text \<open>The self-test, on every path.\<close>

lemma held_test:
  assumes ok: "vm_ok inv managed free_set (pc_vm s)"
    and win: "g_vmm_ready (pc_vm s) \<Longrightarrow> window (pc_vm s) (free_set (vm_pmm (pc_vm s)))"
  shows "held s [] (cmd_pmm_test s)"
    "32 \<le> pool s \<Longrightarrow> g_vmm_ready (pc_vm s) \<Longrightarrow> pc_log (cmd_pmm_test s) = pc_log s @
       say ''[pmm-test] === PMM selftest ===\<newline>'' @
       part_log ''test 1: basic alloc/free roundtrip'' @ part_log ''test 2: page alignment'' @ part_log ''test 3: uniqueness'' @
       part_log ''test 4: batch stress (32 pages)'' @ part_log ''test 5: write/read via PHYS_TO_VIRT'' @
       [(''[pmm-test] === %s ===\<newline>'', [KStr (Some ''ALL PASS'')])]"
proof -
  let ?s = "pc_print ''[pmm-test] === PMM selftest ===\<newline>'' [] s"
  have h: "held s [] ?s" using held_refl [OF ok] by simp
  from test1 [OF h] obtain r1 s1 where 1: "pmm_test1 ?s = (r1, s1)" "held s [] s1"
    "1 \<le> pool s \<longrightarrow> r1 = Some True \<and> pc_log s1 = pc_log ?s @ part_log ''test 1: basic alloc/free roundtrip''" by blast
  from test2 [OF 1(2), of "the r1"] obtain r2 s2 where 2: "pmm_test2 (the r1) s1 = (r2, s2)" "held s [] s2"
    "8 \<le> pool s \<longrightarrow> r2 = Some (the r1) \<and> pc_log s2 = pc_log s1 @ part_log ''test 2: page alignment''" by blast
  from test3 [OF 2(2), of "the r2"] obtain r3 s3 where 3: "pmm_test3 (the r2) s2 = (r3, s3)" "held s [] s3"
    "16 \<le> pool s \<longrightarrow> r3 = Some (the r2) \<and> pc_log s3 = pc_log s2 @ part_log ''test 3: uniqueness''" by blast
  from test4 [OF 3(2), of "the r3"] obtain s4 where 4: "pmm_test4 (the r3) s3 = (the r3, s4)" "held s [] s4"
    "32 \<le> pool s \<longrightarrow> the r3 \<longrightarrow> pc_log s4 = pc_log s3 @ part_log ''test 4: batch stress (32 pages)''" by blast
  from test5 [OF 4(2) win, of "the r3"] obtain s5 where 5: "pmm_test5 (the r3) s4 = (Some (the r3), s5)" "held s [] s5"
    "1 \<le> pool s \<longrightarrow> g_vmm_ready (pc_vm s4) \<longrightarrow> pc_log s5 = pc_log s4 @ part_log ''test 5: write/read via PHYS_TO_VIRT''" by blast
  show "held s [] (cmd_pmm_test s)"
    using 1(1,2) 2(1,2) 3(1,2) 4(1,2) 5(1,2) by (cases r1; cases r2; cases r3) (simp_all add: cmd_pmm_test_def)
  assume b: "32 \<le> pool s" "g_vmm_ready (pc_vm s)"
  then have r: "r1 = Some True" "r2 = Some True" "r3 = Some True" using 1(3) 2(3) 3(3) by simp_all
  have "g_vmm_ready (pc_vm s4) = g_vmm_ready (pc_vm s)" using 4(2) by (simp add: pages_held_def rest_eq_def)
  then show "pc_log (cmd_pmm_test s) = pc_log s @
       say ''[pmm-test] === PMM selftest ===\<newline>'' @
       part_log ''test 1: basic alloc/free roundtrip'' @ part_log ''test 2: page alignment'' @ part_log ''test 3: uniqueness'' @
       part_log ''test 4: batch stress (32 pages)'' @ part_log ''test 5: write/read via PHYS_TO_VIRT'' @
       [(''[pmm-test] === %s ===\<newline>'', [KStr (Some ''ALL PASS'')])]"
    using b 1 2 3 4 5 r by (simp add: cmd_pmm_test_def)
qed

text \<open>Any line typed, when the address given to \<open>free\<close> is a tracked one.\<close>

lemma good_command:
  assumes g: "good s" and f: "\<forall>a. free_arg argv = Some a \<longrightarrow> a \<in> set (tracked_list s)"
    and win: "asks_test argv \<Longrightarrow> g_vmm_ready (pc_vm s) \<Longrightarrow> window (pc_vm s) (free_set (vm_pmm (pc_vm s)))"
  shows "kept s (cmd_pmm_main argv s) \<and> good (cmd_pmm_main argv s)"
proof -
  have pr: "only_prints s t \<Longrightarrow> kept s t \<and> good t" for t using good_prints g by blast
  have al: "kept s (cmd_pmm_alloc argv s) \<and> good (cmd_pmm_alloc argv s)"
  proof -
    have p: "kept s (pc_print x y s) \<and> good (pc_print x y s)" for x y using pr only_prints_print by blast
    have "kept s (cmd_alloc_from c 0 (pc_print x y s)) \<and> good (cmd_alloc_from c 0 (pc_print x y s))" for c x y
      using p [of x y] good_cmd_alloc [of "pc_print x y s" c 0] kept_trans by blast
    then show ?thesis using p good_cmd_alloc [OF g] by (auto simp: cmd_pmm_alloc_def split: option.splits)
  qed
  have fr: "kept s (cmd_pmm_free argv s) \<and> good (cmd_pmm_free argv s)" if "streq (argv ! 1) ''free''"
  proof -
    have p: "kept s (pc_print x y s) \<and> good (pc_print x y s)" for x y using pr only_prints_print by blast
    have t: "kept s (pc_free a (snd (pmm_cmd_track_remove a s))) \<and> good (pc_free a (snd (pmm_cmd_track_remove a s)))"
      if "length argv \<ge> 3" "parse_u32 (argv ! 2) = Some a" for a
      using good_free(1,2) [OF g, of a] f that \<open>streq (argv ! 1) ''free''\<close> by (simp add: free_arg_def)
    show ?thesis unfolding cmd_pmm_free_def using p t by (simp split: option.split)
  qed
  have te: "kept s (cmd_pmm_test s) \<and> good (cmd_pmm_test s)" if "streq (argv ! 1) ''test''" "length argv \<ge> 2"
    using good_held [OF held_test(1) g] g win that by (simp add: asks_test_def streq_eq)
  define C where "C t = (kept s t \<and> good t)" for t
  have C: "C (cmd_pmm_alloc argv s)" "streq (argv ! 1) ''test'' \<Longrightarrow> length argv \<ge> 2 \<Longrightarrow> C (cmd_pmm_test s)" "C (cmd_pmm_freeall s)" "C (cmd_pmm_usage s)" "C (cmd_pmm_stat s)"
    "C (cmd_pmm_dump argv s)" "C (cmd_pmm_usage (pc_print x y s))" "streq (argv ! 1) ''free'' \<Longrightarrow> C (cmd_pmm_free argv s)" for x y
    unfolding C_def using al te fr good_freeall(1,2) [OF g] pr [OF only_prints_cmds(1)] pr [OF only_prints_cmds(2)]
      pr [OF only_prints_cmds(3)] pr [OF only_prints_cmds(4)] by blast+
  have "C (cmd_pmm_main argv s)" unfolding cmd_pmm_main_def by (simp add: C del: One_nat_def)
  then show ?thesis by (simp add: C_def)
qed

end

section \<open>An example\<close>

text \<open>The kernel after \<open>vmm_init\<close> on a machine of 520 pages, the first of which is in use and tracked.\<close>

definition sample_cmd :: "(bitmap_state, unit) pmm_cmd" where
  "sample_cmd = \<lparr>pc_vm = the (vmm_init 0x120000 sample_vmm0), g_pmm_cmd_allocs = replicate 1024 0x100000,
     g_pmm_cmd_alloc_count = 1, pc_log = [], pc_fault = None\<rparr>"

abbreviation kvm_freeable :: "bitmap_state pmm_state \<Rightarrow> u32 set" where
  "kvm_freeable p \<equiv> bm_managed (pmm_data p) - bm_free (pmm_data p)"

lemma large_bitmap_used: "0x100000 \<in> bm_managed large_bitmap - bm_free large_bitmap"
proof -
  have at: "region_at large_bitmap 0 = \<lparr>r_base = 0x100000, r_pages = 520, r_bitmap = 1 # replicate 64 0, r_bitmap_bytes = 65,
       r_bitmap_storage_bytes = 65, r_bitmap_pages = 0, r_free = 519\<rparr>" "g_region_count large_bitmap = 1" "g_pmm_ready large_bitmap"
    by (simp_all add: region_at_def large_bitmap_def sample_bitmap_def)
  let ?r = "region_at large_bitmap 0"
  have ok: "region_ok ?r" using bm_core_ok [OF large_bitmap_core] at(2) by simp
  have z: "region_index_to_addr ?r 0 = 0x100000" "(0 :: u32) < r_pages ?r" "bitmap_test_r ?r 0" unfolding at(1) by code_simp+
  have "i = 0" if "i < r_pages ?r" "region_index_to_addr ?r i = 0x100000" for i
    using inj_onD [OF index_to_addr_inj [OF ok], of i 0] that z by simp
  then have "0x100000 \<notin> region_free_set ?r" using z(3) by (force simp: region_free_set_def clear_idx_def)
  moreover have "0x100000 \<in> region_managed ?r" using z(1,2) by (force simp: region_managed_def)
  ultimately show ?thesis using at(2,3) by (simp add: bm_managed_def bm_free_def)
qed

lemma sample_cmd_ok: "kvm_ok sample_boot (pc_vm sample_cmd)" "g_vmm_ready (pc_vm sample_cmd)"
  "card (kvm_free (pc_vm sample_cmd)) = 511" "track_ok kvm_freeable sample_cmd" "tracked_list sample_cmd = [0x100000]"
  "window (pc_vm sample_cmd) (kvm_free (pc_vm sample_cmd) \<union> set (tracked_list sample_cmd))"
proof -
  obtain v where v: "vmm_init 0x120000 sample_vmm0 = Some v" "kvm_ok sample_boot v" "g_vmm_ready v" "card (kvm_free v) = 511"
    "bm_managed (pmm_data (vm_pmm v)) = bm_managed large_bitmap" "kvm_free v = bm_free large_bitmap - tables v"
    "tables v \<subseteq> bm_free large_bitmap" "window v (bm_managed large_bitmap)" using sample_booted by blast
  have vm: "pc_vm sample_cmd = v" using v(1) by (simp add: sample_cmd_def)
  show "kvm_ok sample_boot (pc_vm sample_cmd)" "g_vmm_ready (pc_vm sample_cmd)" "card (kvm_free (pc_vm sample_cmd)) = 511"
    using v(2-4) by (simp_all add: vm)
  show tl: "tracked_list sample_cmd = [0x100000]"
    by (simp add: tracked_list_def sample_cmd_def take_Suc_conv_app_nth)
  have u: "0x100000 \<in> bm_managed large_bitmap" "0x100000 \<notin> bm_free large_bitmap" using large_bitmap_used by blast+
  then show "track_ok kvm_freeable sample_cmd"
    unfolding track_ok_def tl vm using v(5-7) by (auto simp: sample_cmd_def)
  have "bm_free large_bitmap \<subseteq> bm_managed large_bitmap" using bm.free_managed [of large_bitmap] large_bitmap_core by (simp add: bm_inv_def)
  then show "window (pc_vm sample_cmd) (kvm_free (pc_vm sample_cmd) \<union> set (tracked_list sample_cmd))"
    unfolding tl vm using v(6) u(1) by (intro window_mono [OF v(8)]) auto
qed

section \<open>Properties\<close>

text \<open>C13. Whatever line is typed at the command \<open>pmm\<close>, as long as an address given to \<open>free\<close> is one that \<open>alloc\<close>
  printed and that is still tracked: the kernel's invariant and that of the tracking table hold afterwards, the
  address space and its page tables are the same, and every page that was free or tracked still is one or the other:
  none is lost and none is handed out twice. For the self-test, which writes to a page through the direct map, the direct
  map must hold for the free pages.\<close>

theorem pmm_command_keeps_kernel:
  assumes "kvm_ok bi (pc_vm s)" "track_ok kvm_freeable s" "\<forall>a. free_arg argv = Some a \<longrightarrow> a \<in> set (tracked_list s)"
    and "asks_test argv \<and> g_vmm_ready (pc_vm s) \<longrightarrow> window (pc_vm s) (kvm_free (pc_vm s))" and "s' = cmd_pmm_main argv s"
  shows "kvm_ok bi (pc_vm s') \<and> track_ok kvm_freeable s' \<and> space (pc_vm s') = space (pc_vm s) \<and> tables (pc_vm s') = tables (pc_vm s) \<and>
    kvm_free (pc_vm s') \<union> set (tracked_list s') = kvm_free (pc_vm s) \<union> set (tracked_list s)"
  using kb.good_command [of bi s argv] assms by (simp add: kernel_kept_def pages_kept_def)

theorem pmm_command_keeps_kernel_witness:
  "kvm_ok sample_boot (pc_vm (cmd_pmm_main [''pmm'', ''free'', ''0x100000''] sample_cmd)) \<and>
   0x100000 \<in> kvm_free (pc_vm sample_cmd) \<union> set (tracked_list sample_cmd)"
proof -
  have f: "free_arg [''pmm'', ''free'', ''0x100000''] = Some 0x100000" by code_simp
  show ?thesis
    using pmm_command_keeps_kernel [OF sample_cmd_ok(1,4) _ _ refl, of "[''pmm'', ''free'', ''0x100000'']"] sample_cmd_ok(5)
    unfolding f by (simp add: asks_test_def)
qed

lemma commands_keep_kernel:
  assumes "kvm_ok bi (pc_vm s)" "track_ok kvm_freeable s" "\<forall>l \<in> set ls. free_arg l = None"
    and "(\<exists>l \<in> set ls. asks_test l) \<and> g_vmm_ready (pc_vm s) \<longrightarrow> window (pc_vm s) (kvm_free (pc_vm s) \<union> set (tracked_list s))"
  defines "t \<equiv> fold cmd_pmm_main ls s"
  shows "kvm_ok bi (pc_vm t) \<and> track_ok kvm_freeable t \<and> space (pc_vm t) = space (pc_vm s) \<and>
    kvm_free (pc_vm t) \<union> set (tracked_list t) = kvm_free (pc_vm s) \<union> set (tracked_list s)"
  using assms(1-4) unfolding t_def
proof (induction ls arbitrary: s)
  case (Cons l ls)
  let ?u = "cmd_pmm_main l s"
  have "(kernel_kept (registered (g_bitmap_ops bi) bm_inv) (\<lambda>p. bm_managed (pmm_data p)) (\<lambda>p. bm_free (pmm_data p)) s ?u \<and>
    pages_kept (\<lambda>p. bm_free (pmm_data p)) s ?u) \<and> kvm_ok bi (pc_vm ?u) \<and> track_ok kvm_freeable ?u"
  proof (rule kb.good_command)
    show "window (pc_vm s) (kvm_free (pc_vm s))" if "asks_test l" "g_vmm_ready (pc_vm s)"
      using Cons.prems(4) that by (auto intro: window_mono)
  qed (use Cons.prems in simp_all)
  then have k: "kvm_ok bi (pc_vm ?u)" "track_ok kvm_freeable ?u" "space (pc_vm ?u) = space (pc_vm s)"
    "g_vmm_ready (pc_vm ?u) = g_vmm_ready (pc_vm s)"
    "kvm_free (pc_vm ?u) \<union> set (tracked_list ?u) = kvm_free (pc_vm s) \<union> set (tracked_list s)"
    by (simp_all add: kernel_kept_def pages_kept_def rest_eq_def)
  have "(\<exists>l \<in> set ls. asks_test l) \<and> g_vmm_ready (pc_vm ?u) \<longrightarrow> window (pc_vm ?u) (kvm_free (pc_vm ?u) \<union> set (tracked_list ?u))"
    using Cons.prems(4) unfolding k(4,5) window_cong [OF k(3)] by auto
  then show ?case using Cons.IH [OF k(1,2)] Cons.prems(3) k(3,5) by simp
qed simp

text \<open>C14. After any lines typed at the command \<open>pmm\<close> other than \<open>free\<close> (pages allocated, dumped, tested, in any
  order and number), \<open>pmm freeall\<close> leaves the allocator with exactly the free pages it had before the first of them,
  together with those tracked then; nothing is tracked any more, and the address space has not changed. When one of the lines
  is \<open>pmm test\<close>, the direct map must hold for these pages.\<close>

theorem pmm_freeall_restores:
  assumes "kvm_ok bi (pc_vm s)" "track_ok kvm_freeable s" "\<forall>l \<in> set ls. free_arg l = None"
    and "(\<exists>l \<in> set ls. asks_test l) \<and> g_vmm_ready (pc_vm s) \<longrightarrow> window (pc_vm s) (kvm_free (pc_vm s) \<union> set (tracked_list s))"
    and "t = cmd_pmm_main [''pmm'', ''freeall''] (fold cmd_pmm_main ls s)"
  shows "kvm_free (pc_vm t) = kvm_free (pc_vm s) \<union> set (tracked_list s) \<and> tracked_list t = [] \<and> space (pc_vm t) = space (pc_vm s)"
proof -
  let ?u = "fold cmd_pmm_main ls s"
  note u = commands_keep_kernel [OF assms(1-4)]
  have f: "free_arg [''pmm'', ''freeall''] = None" "cmd_pmm_main [''pmm'', ''freeall''] ?u = cmd_pmm_freeall ?u"
    by (simp add: free_arg_def, subst cmd_pmm_main_def, simp)
  show ?thesis using kb.good_freeall [of bi ?u] u assms(5) f by (simp add: kernel_kept_def tracked_list_def)
qed

theorem pmm_freeall_restores_witness:
  "kvm_free (pc_vm (cmd_pmm_main [''pmm'', ''freeall''] (fold cmd_pmm_main [[''pmm'', ''alloc'', ''300''], [''pmm'', ''test'']] sample_cmd))) =
   insert 0x100000 (kvm_free (pc_vm sample_cmd))"
  using pmm_freeall_restores [OF sample_cmd_ok(1,4) _ _ refl, of "[[''pmm'', ''alloc'', ''300''], [''pmm'', ''test'']]"] sample_cmd_ok(5,6)
  by (simp add: free_arg_def)

text \<open>C38. On a running kernel with at least 32 free pages, all of them in the direct map, \<open>pmm test\<close> prints that each of
  its five parts passed and then \<open>ALL PASS\<close>, and no failure or warning, and raises no page fault: a page is there, pages are
  aligned and different, the counts go down and up again, and a page written at its address in the direct map reads back,
  through the translation of the page tables. Afterwards the free pages, the address space and the tracked pages
  are what they were.\<close>

theorem pmm_selftest_passes:
  assumes "kvm_ok bi (pc_vm s)" "g_vmm_ready (pc_vm s)" "32 \<le> card (kvm_free (pc_vm s))" "window (pc_vm s) (kvm_free (pc_vm s))"
    and "s' = cmd_pmm_main [''pmm'', ''test''] s"
  shows "pc_log s' = pc_log s @ say ''[pmm-test] === PMM selftest ===\<newline>'' @
      part_log ''test 1: basic alloc/free roundtrip'' @ part_log ''test 2: page alignment'' @ part_log ''test 3: uniqueness'' @
      part_log ''test 4: batch stress (32 pages)'' @ part_log ''test 5: write/read via PHYS_TO_VIRT'' @
      [(''[pmm-test] === %s ===\<newline>'', [KStr (Some ''ALL PASS'')])] \<and> pc_fault s' = pc_fault s \<and>
    kvm_free (pc_vm s') = kvm_free (pc_vm s) \<and> space (pc_vm s') = space (pc_vm s) \<and> tracked_list s' = tracked_list s"
proof -
  have "s' = cmd_pmm_test s" using assms(5) by (simp add: cmd_pmm_main_def)
  then show ?thesis using kb.held_test [OF assms(1)] assms(2-4) by (simp add: pages_held_def tracked_list_def)
qed

theorem pmm_selftest_passes_witness:
  "kvm_free (pc_vm (cmd_pmm_main [''pmm'', ''test''] sample_cmd)) = kvm_free (pc_vm sample_cmd) \<and>
   pc_fault (cmd_pmm_main [''pmm'', ''test''] sample_cmd) = None"
  using pmm_selftest_passes [OF sample_cmd_ok(1,2) _ window_mono [OF sample_cmd_ok(6)] refl] sample_cmd_ok(3)
  by (simp add: sample_cmd_def)

end
