(* ===== verification/Kmain_Spec.thy ===== *)
theory Kmain_Spec
  imports Kmain Cmd_Vma_Spec Cmd_Pmm_Spec
begin

text \<open>
  The kernel after its start-up sequence: the invariants of all parts hold together, with the address space,
  the free pages and the memory areas that each part relies on.
\<close>

section \<open>The dump of the boot tags\<close>

definition tag_line :: "u32 \<times> u32 \<Rightarrow> string \<times> karg list" where
  "tag_line = (\<lambda>(ty, sz). (''[mb2] tag type=%u, size=%u\<newline>'', [KInt ty, KInt sz]))"

lemma PHYS_TO_VIRT_add: "PHYS_TO_VIRT (p + x) = PHYS_TO_VIRT p + x"
  by (simp add: PHYS_TO_VIRT_def)

lemma mb2_dump_loop_tags:
  assumes "tags_at m (PHYS_TO_VIRT p) ts" "unat p + tags_bytes ts \<le> unat en"
  shows "mb2_dump_loop m en p log = Some (log @ map tag_line ts @ say ''[mb2] end tag\<newline>'')"
  using assms
proof (induction ts arbitrary: p log)
  case Nil
  have "unat (p + 8) = unat p + 8"
    using Nil(2) unat_lt_2p32 [of en] by (subst unat_add_no_wrap) auto
  with Nil show ?case by (subst mb2_dump_loop.simps) (simp add: word_le_nat_alt)
next
  case (Cons t ts)
  obtain ty sz where t: "t = (ty, sz)" by (cases t)
  note ge = tags_bytes_ge [of ts]
  have lim: "unat p + ((unat sz + 7) div 8 * 8) + tags_bytes ts < 2 ^ 32"
    using Cons.prems(2) unat_lt_2p32 [of en] by (simp add: t)
  have a: "unat (align8_u32 sz) = (unat sz + 7) div 8 * 8" using lim ge by (intro unat_align8) linarith
  then have pa: "unat (p + align8_u32 sz) = unat p + (unat sz + 7) div 8 * 8" using lim by (subst unat_add_no_wrap) simp_all
  have "unat sz + 7 < 2 ^ 32" using lim ge by linarith
  note after = align8_after [OF this, of p] align8_after [OF this, of "PHYS_TO_VIRT p"]
  have "8 \<le> unat sz" using Cons.prems(1) by (simp add: t word_le_nat_alt)
  then have "8 \<le> (unat sz + 7) div 8 * 8" by linarith
  then have "unat (p + 8) = unat p + 8" "p + 8 \<le> en"
    using Cons.prems(2) lim by (simp_all add: t word_le_nat_alt unat_add_no_wrap)
  moreover have "mb2_dump_loop m en (p + align8_u32 sz) (log @ [tag_line t]) =
      Some ((log @ [tag_line t]) @ map tag_line ts @ say ''[mb2] end tag\<newline>'')"
    using Cons.prems pa by (intro Cons.IH) (simp_all add: t PHYS_TO_VIRT_add after(2))
  ultimately show ?case using Cons.prems(1)
    by (subst mb2_dump_loop.simps) (auto simp: t tag_line_def Let_def align8_u32_def not_less)
qed

section \<open>Printing changes nothing else\<close>

lemma kmain_print_sel [simp]:
  "kn_heap (kmain_print f a k) = kn_heap k" "kn_irqs (kmain_print f a k) = kn_irqs k" "kn_tables (kmain_print f a k) = kn_tables k"
  "kn_sys (kmain_print f a k) = kn_sys k" "kn_mb2_info (kmain_print f a k) = kn_mb2_info k"
  "k_io (kn_kbd (kmain_print f a k)) = k_io (kn_kbd k)" "k_log (kn_kbd (kmain_print f a k)) = k_log (kn_kbd k) @ [(f, a)]"
  by (simp_all add: kmain_print_def kprint_def)

lemma kmain_prints_sel [simp]:
  "kn_heap (fold (\<lambda>(f, a). kmain_print f a) log k) = kn_heap k" "kn_irqs (fold (\<lambda>(f, a). kmain_print f a) log k) = kn_irqs k"
  "kn_tables (fold (\<lambda>(f, a). kmain_print f a) log k) = kn_tables k" "kn_sys (fold (\<lambda>(f, a). kmain_print f a) log k) = kn_sys k"
  "kn_mb2_info (fold (\<lambda>(f, a). kmain_print f a) log k) = kn_mb2_info k"
  "k_io (kn_kbd (fold (\<lambda>(f, a). kmain_print f a) log k)) = k_io (kn_kbd k)"
  by (induction log arbitrary: k) auto

lemma set_vm_sel [simp]:
  "kn_vm (set_vm vm k) = vm" "kn_irqs (set_vm vm k) = kn_irqs k" "kn_tables (set_vm vm k) = kn_tables k" "kn_kbd (set_vm vm k) = kn_kbd k"
  "kn_sys (set_vm vm k) = kn_sys k" "kn_mb2_info (set_vm vm k) = kn_mb2_info k" "g_heap_ops (kn_heap (set_vm vm k)) = g_heap_ops (kn_heap k)"
  by (simp_all add: set_vm_def kn_vm_def)

lemma kn_vm_upd [simp]:
  "kn_vm (k\<lparr>kn_mb2_info := x\<rparr>) = kn_vm k" "kn_vm (kmain_print f a k) = kn_vm k" "kn_vm (fold (\<lambda>(f, a). kmain_print f a) log k) = kn_vm k"
  "kn_vm (k\<lparr>kn_sys := y\<rparr>) = kn_vm k" "kn_vm (k\<lparr>kn_kbd := z\<rparr>) = kn_vm k" "kn_vm (k\<lparr>kn_tables := t\<rparr>) = kn_vm k"
  "kn_vm (k\<lparr>kn_irqs := i\<rparr>) = kn_vm k"
  by (simp_all add: kn_vm_def)

lemma kmain_init_sel [simp]:
  "kn_irqs (kmain_vma_init k) = kn_irqs k" "kn_tables (kmain_vma_init k) = kn_tables k" "kn_kbd (kmain_vma_init k) = kn_kbd k"
  "kn_sys (kmain_vma_init k) = kn_sys k" "kn_mb2_info (kmain_vma_init k) = kn_mb2_info k"
  "kn_irqs (kmain_heap_init k) = kn_irqs k" "kn_tables (kmain_heap_init k) = kn_tables k" "kn_kbd (kmain_heap_init k) = kn_kbd k"
  "kn_sys (kmain_heap_init k) = kn_sys k" "kn_mb2_info (kmain_heap_init k) = kn_mb2_info k"
  by (simp_all add: kmain_vma_init_def kmain_heap_init_def Let_def)

section \<open>The memory of the running kernel\<close>

text \<open>The areas registered for the page fault report.\<close>

definition boot_areas :: "u32 \<Rightarrow> vm_area list" where
  "boot_areas me =
     [mk_area KERNEL_VIRT_OFFSET (KERNEL_VIRT_OFFSET + me) (VMA_READ OR VMA_WRITE OR VMA_EXEC) (Some ''direct-map''),
      mk_area KHEAP_START (KHEAP_START + 0x10000) (VMA_READ OR VMA_WRITE) (Some ''kheap'')]"

text \<open>The memory managers after start-up: \<open>b\<close> is the physical allocator as its initialisation left it, \<open>me\<close> the
  end of the mapped physical memory, \<open>fs\<close> the frames of the first heap pages.\<close>

definition memory_up :: "boot_info \<Rightarrow> bitmap_state \<Rightarrow> u32 \<Rightarrow> u32 list \<Rightarrow> 'm kernel \<Rightarrow> bool" where
  "memory_up bi b me fs k \<longleftrightarrow> kvm_ok bi (kn_vm k) \<and> g_vmm_ready (kn_vm k) \<and>
     distinct fs \<and> length fs = 16 \<and> mapped_frames (direct_space me) KHEAP_START 0 fs (space (kn_vm k)) \<and>
     set fs \<subseteq> bm_free b \<and> set fs \<inter> tables (kn_vm k) = {} \<and> kvm_free (kn_vm k) \<union> set fs \<union> tables (kn_vm k) \<subseteq> bm_free b \<and>
     kvm_free (kn_vm k) \<inter> (set fs \<union> tables (kn_vm k)) = {} \<and>
     km_ok heap_first_fit_ops ff_inv (kn_heap k) \<and> ff_live (km_heap (kn_heap k)) = Map.empty \<and>
     vma_holds sa_ops sa_inv sa_areas (vm_vma (kn_vm k)) (boot_areas me)"

text \<open>The pages of the direct map are reachable there.\<close>

lemma memory_up_window:
  assumes "memory_up bi b me fs k" "me \<le> 0x20000000" "\<forall>a \<in> P. page_aligned a \<and> a < me"
  shows "window (kn_vm k) P"
proof (rule window_kernel [OF _ assms(3)])
  have M: "mapped_frames (direct_space me) KHEAP_START 0 fs (space (kn_vm k))" "length fs = 16" using assms(1) by (simp_all add: memory_up_def)
  show "me < 0x40000000" using assms(2) by (simp add: word_le_nat_alt word_less_nat_alt)
  fix v :: u32 assume v: "KERNEL_VIRT_OFFSET \<le> v" "v < PHYS_TO_VIRT me"
  have "unat (PHYS_TO_VIRT me) = unat me + 0xC0000000"
    using assms(2) by (simp only: PHYS_TO_VIRT_def, subst unat_add_no_wrap) (simp_all add: KERNEL_VIRT_OFFSET_def word_le_nat_alt)
  then have "unat v < 0xE0000000" using v(2) assms(2) by (simp add: word_le_nat_alt word_less_nat_alt)
  moreover have "0xE0000000 \<le> unat (page_at KHEAP_START j)" if "j < 16" for j
  proof -
    have "unat (of_nat j * 0x1000 :: u32) = j * 0x1000" using that by (simp add: unat_word_ariths unat_of_nat)
    then show ?thesis unfolding page_at_def KHEAP_START_def VMM_PAGE_SIZE_def using that
      by (subst unat_add_no_wrap) (simp_all add: mult.commute)
  qed
  ultimately have "v \<notin> page_at KHEAP_START ` {0..<0 + length fs}" using M(2) by fastforce
  then have "space (kn_vm k) v = direct_space me v" using M(1) by (simp add: mapped_frames_def)
  then show "space (kn_vm k) v = kernel_space me v" using v(1) by (simp add: direct_space_def linorder_not_less [symmetric])
qed

lemma ff_vm_only: "ff_inv (h\<lparr>kh_vm := vm\<rparr>) = ff_inv h" "ff_live (h\<lparr>kh_vm := vm\<rparr>) = ff_live h"
  by (simp_all add: ff_inv_def ff_rep_def ff_blocks_def ff_live_def)

lemma km_ok_set_vm:
  "km_ok heap_first_fit_ops ff_inv (kn_heap (set_vm vm k)) = km_ok heap_first_fit_ops ff_inv (kn_heap k)"
  "ff_live (km_heap (kn_heap (set_vm vm k))) = ff_live (km_heap (kn_heap k))"
  by (simp_all add: km_ok_def set_vm_def ff_vm_only)

lemma kvm_ok_vma: "kvm_ok bi (vm\<lparr>vm_vma := v\<rparr>) = kvm_ok bi vm" "space (vm\<lparr>vm_vma := v\<rparr>) = space vm" "tables (vm\<lparr>vm_vma := v\<rparr>) = tables vm"
proof -
  have p: "present (vm\<lparr>vm_vma := v\<rparr>) = present vm" "table_of (vm\<lparr>vm_vma := v\<rparr>) = table_of vm"
    by (simp_all add: fun_eq_iff present_def table_of_def pd_get_def)
  show "tables (vm\<lparr>vm_vma := v\<rparr>) = tables vm" by (simp add: tables_def p)
  then show "kvm_ok bi (vm\<lparr>vm_vma := v\<rparr>) = kvm_ok bi vm" by (simp add: vm_ok_def p)
  show "space (vm\<lparr>vm_vma := v\<rparr>) = space vm" by (simp add: fun_eq_iff space_def walk_def p pt_get_def)
qed

lemma boot_areas_added:
  assumes "sa_storage (vma_data v)" "page_aligned me" "0 < me" "me \<le> 0x20000000"
  defines "v1 \<equiv> vma_init (vma_register_backend (Some sa_ops) v)"
  shows "vma_is_ready v1"
    "vma_holds sa_ops sa_inv sa_areas
      (snd (vma_add (snd (vma_add v1 KERNEL_VIRT_OFFSET (KERNEL_VIRT_OFFSET + me) (VMA_READ OR VMA_WRITE OR VMA_EXEC) (Some ''direct-map'')))
         KHEAP_START (KHEAP_START + 0x10000) (VMA_READ OR VMA_WRITE) (Some ''kheap''))) (boot_areas me)"
proof -
  have h: "vma_holds sa_ops sa_inv sa_areas v1 []"
    using sa.init_inv [OF assms(1)] sa.init_areas [OF assms(1)]
    by (simp add: v1_def vma_holds_def vma_init_def vma_register_backend_def) (simp add: sa_ops_def)
  show "vma_is_ready v1" by (rule sac.ready [OF h])
  have n: "unat (KERNEL_VIRT_OFFSET + me) = 0xC0000000 + unat me"
    using assms(4) by (subst unat_add_no_wrap) (simp_all add: KERNEL_VIRT_OFFSET_def word_le_nat_alt)
  have r1: "vma_range_ok KERNEL_VIRT_OFFSET (KERNEL_VIRT_OFFSET + me)"
    using assms(2,3) n by (auto simp: vma_range_ok_def word_less_nat_alt KERNEL_VIRT_OFFSET_def page_aligned_def intro!: page_aligned_add [unfolded page_aligned_def])
  from sac.add_new [OF h _ r1, of "VMA_READ OR VMA_WRITE OR VMA_EXEC" "Some ''direct-map''"] obtain v2 where
    v2: "vma_add v1 KERNEL_VIRT_OFFSET (KERNEL_VIRT_OFFSET + me) (VMA_READ OR VMA_WRITE OR VMA_EXEC) (Some ''direct-map'') = (0, v2)"
    "vma_holds sa_ops sa_inv sa_areas v2 [hd (boot_areas me)]"
    by (auto simp: VMA_MAX_AREAS_def boot_areas_def)
  have r2: "vma_range_ok KHEAP_START (KHEAP_START + 0x10000)" by (simp add: vma_range_ok_def KHEAP_START_def page_aligned_def)
  have ov: "\<not> list_ex (vma_overlaps KHEAP_START (KHEAP_START + 0x10000)) [hd (boot_areas me)]"
    using n assms(4) by (simp add: boot_areas_def vma_overlaps_def KHEAP_START_def word_less_nat_alt word_le_nat_alt)
  from sac.add_new [OF v2(2) _ r2 ov, of "VMA_READ OR VMA_WRITE" "Some ''kheap''"] obtain v3 where
    v3: "vma_add v2 KHEAP_START (KHEAP_START + 0x10000) (VMA_READ OR VMA_WRITE) (Some ''kheap'') = (0, v3)"
    "vma_holds sa_ops sa_inv sa_areas v3 (boot_areas me)"
    by (auto simp: VMA_MAX_AREAS_def boot_areas_def KERNEL_VIRT_OFFSET_def KHEAP_START_def)
  show "vma_holds sa_ops sa_inv sa_areas
      (snd (vma_add (snd (vma_add v1 KERNEL_VIRT_OFFSET (KERNEL_VIRT_OFFSET + me) (VMA_READ OR VMA_WRITE OR VMA_EXEC) (Some ''direct-map'')))
         KHEAP_START (KHEAP_START + 0x10000) (VMA_READ OR VMA_WRITE) (Some ''kheap''))) (boot_areas me)"
    using v2(1) v3 by simp
qed

lemma unmap_identity_tables: "length (g_kernel_pd s) = 1024 \<Longrightarrow> tables (vmm_unmap_identity s) \<subseteq> tables s"
proof -
  assume len: "length (g_kernel_pd s) = 1024"
  have "pd_get (vmm_unmap_identity s) j = pd_get s j \<or> pd_get (vmm_unmap_identity s) j = 0" if "j < 1024" for j
  proof -
    have "unat j < 1024" using that by (simp add: word_less_nat_alt)
    moreover have "unat (pd_index KERNEL_VIRT_OFFSET) = 768" by (simp add: unat_indices KERNEL_VIRT_OFFSET_def)
    ultimately show ?thesis
      using kb.pd_clear_nth [of 768 "g_kernel_pd s"] len by (auto simp: vmm_unmap_identity_def vmm_load_page_directory_def pd_get_def)
  qed
  then show ?thesis unfolding tables_def present_def table_of_def by fastforce
qed

text \<open>The physical allocator, from the state the loader left.\<close>

lemma kmain_pmm:
  assumes "pmm_bitmap_init bi ((pmm_data (vm_pmm (kn_vm k)))\<lparr>g_mem := vm_mem (kn_vm k)\<rparr>) = Some b"
  shows "kmain_pmm_init bi k = Some (set_vm ((kn_vm k)\<lparr>vm_pmm := \<lparr>g_pmm_ops = Some (g_bitmap_ops bi), pmm_data = b\<rparr>, vm_mem := g_mem b\<rparr>) k)"
  using assms by (cases "vm_pmm (kn_vm k)") (simp add: kmain_pmm_init_def pmm_register_backend_def pmm_init_def Let_def, simp add: g_bitmap_ops_def)

lemma kmain_memory_up:
  fixes k :: "'m kernel" and ks ke mb2 :: u32
  defines "m \<equiv> vm_mem (kn_vm k)" and "bi \<equiv> \<lparr>g_mb2_info = mb2, kernel_phys_start = ks, kernel_phys_end = ke\<rparr>"
  assumes tags: "tags_at m (PHYS_TO_VIRT mb2 + 8) ts" "unat mb2 + 8 + tags_bytes ts \<le> unat mb2 + unat (rd32 m (PHYS_TO_VIRT mb2))"
      "unat mb2 + unat (rd32 m (PHYS_TO_VIRT mb2)) < 2 ^ 32"
    and pmm: "pmm_bitmap_init bi ((pmm_data (vm_pmm (kn_vm k)))\<lparr>g_mem := m\<rparr>) = Some b" "bm_inv b" "\<forall>a \<in> bm_managed b. a < 0x40000000"
    and me: "me = vmm_map_end ke \<lparr>g_pmm_ops = Some (g_bitmap_ops bi), pmm_data = b\<rparr>" "me \<le> 0x20000000"
    and room: "2 * tables_for me + 32 \<le> card (bm_free b)"
    and areas: "sa_storage (vma_data (vm_vma (kn_vm k)))"
  shows "\<exists>k' fs. kmain_memory ks ke mb2 k = Some k' \<and> memory_up bi b me fs k' \<and> kn_mb2_info k' = PHYS_TO_VIRT mb2 \<and>
    kn_sys k' = syscall_init (kn_sys k) \<and> kn_tables k' = kn_tables k \<and> kn_irqs k' = kn_irqs k \<and> k_io (kn_kbd k') = k_io (kn_kbd k)"
proof -
  let ?pm = "\<lparr>g_pmm_ops = Some (g_bitmap_ops bi), pmm_data = b\<rparr>"
  define k0 where "k0 = k\<lparr>kn_mb2_info := mb2\<rparr>"
  obtain log where log: "mb2_dump_tags m mb2 = Some log"
  proof -
    have "unat (mb2 + 8) = unat mb2 + 8" "unat (mb2 + rd32 m (PHYS_TO_VIRT mb2)) = unat mb2 + unat (rd32 m (PHYS_TO_VIRT mb2))"
      using tags(2,3) by (subst unat_add_no_wrap; simp)+
    then show ?thesis
      using that mb2_dump_loop_tags [of m "mb2 + 8" ts "mb2 + rd32 m (PHYS_TO_VIRT mb2)"] tags
      by (simp add: mb2_dump_tags_def Let_def PHYS_TO_VIRT_add)
  qed
  define k1 where "k1 = fold (\<lambda>(fmt, args). kmain_print fmt args) log k0"
  have k1: "kn_vm k1 = kn_vm k" "kn_heap k1 = kn_heap k" "kn_mb2_info k1 = mb2" by (simp_all add: k1_def k0_def)
  define vm2 where "vm2 = (kn_vm k)\<lparr>vm_pmm := ?pm, vm_mem := g_mem b\<rparr>"
  have p: "kmain_pmm_init bi k1 = Some (set_vm vm2 k1)" using kmain_pmm [of bi k1 b] pmm(1) by (simp add: k1 vm2_def m_def)
  have vm2: "vm_pmm vm2 = ?pm" "vm_vma vm2 = vm_vma (kn_vm k)" by (simp_all add: vm2_def)
  have reg: "registered (g_bitmap_ops bi) bm_inv (vm_pmm vm2)" using pmm(2) by (simp add: registered_def vm2)
  have fr2: "\<forall>a \<in> bm_managed (pmm_data (vm_pmm vm2)). a < 0x40000000" "2 * tables_for (vmm_map_end ke (vm_pmm vm2)) \<le> card (kvm_free vm2)"
    "vmm_map_end ke (vm_pmm vm2) = me" using pmm(3) room me(1) by (simp_all add: vm2)
  from kb.vmm_init [OF reg fr2(1,2)] obtain vm3 where vm3: "vmm_init ke vm2 = Some vm3" "kvm_ok bi vm3" "g_vmm_ready vm3"
    "space vm3 = kernel_space me" "tables vm3 \<subseteq> bm_free b" "card (tables vm3) = 2 * tables_for me"
    "kvm_free vm3 = bm_free b - tables vm3" "g_direct_map_end vm3 = KERNEL_VIRT_OFFSET + me" "vm_vma vm3 = vm_vma (kn_vm k)"
    unfolding fr2(3) by (auto simp: vm2)
  define vm5 where "vm5 = vmm_unmap_identity vm3"
  note U = kb.vmm_unmap_identity [OF vm3(2,3), folded vm5_def]
  have t5: "tables vm5 \<subseteq> tables vm3" using unmap_identity_tables [of vm3] vm3(2) by (simp add: vm5_def vm_ok_def)
  have sp5: "space vm5 = direct_space me" unfolding U(2) vm3(4) by (rule kb.kernel_direct)
  have r5: "g_vmm_ready vm5" "g_direct_map_end vm5 = KERNEL_VIRT_OFFSET + me" "vm_vma vm5 = vm_vma (kn_vm k)" "kvm_free vm5 = kvm_free vm3"
    using U(3,4) vm3 by (simp_all add: rest_eq_def)
  have fin: "finite (bm_free b)" by simp
  have "card (kvm_free vm5) = card (bm_free b) - 2 * tables_for me"
    using vm3(5,6,7) r5(4) card_Diff_subset [OF finite_subset [OF vm3(5) fin] vm3(5)] by simp
  then have room5: "32 \<le> card (kvm_free vm5)" using room by simp
  define k5 where "k5 = set_vm vm5 (set_vm vm3 (set_vm vm2 k1)\<lparr>kn_mb2_info := PHYS_TO_VIRT mb2\<rparr>)"
  define h where "h = kmalloc_register_backend (Some heap_first_fit_ops) (kn_heap k5)"
  have h: "kh_vm (km_heap h) = vm5" "g_heap_ops h = Some heap_first_fit_ops"
    by (simp_all add: h_def kmalloc_register_backend_def k5_def set_vm_def)
  from kmalloc_init_first_fit [of bi h, unfolded h, OF U(1) refl room5] obtain fs where H:
    "km_ok heap_first_fit_ops ff_inv (kmalloc_init h)" "ff_live (km_heap (kmalloc_init h)) = Map.empty"
    "kvm_ok bi (kh_vm (km_heap (kmalloc_init h)))" "distinct fs" "length fs = 16"
    "kvm_took (set fs) vm5 (kh_vm (km_heap (kmalloc_init h)))"
    "mapped_frames (space vm5) KHEAP_START 0 fs (space (kh_vm (km_heap (kmalloc_init h))))" "rest_eq vm5 (kh_vm (km_heap (kmalloc_init h)))"
    by blast
  define vm6 where "vm6 = kh_vm (km_heap (kmalloc_init h))"
  define k6 where "k6 = kmain_heap_init k5"
  have k6: "kn_vm k6 = vm6" "kn_heap k6 = kmalloc_init h" by (simp_all add: k6_def kmain_heap_init_def kn_vm_def vm6_def h_def)
  have r6: "g_vmm_ready vm6" "g_direct_map_end vm6 = KERNEL_VIRT_OFFSET + me" "vm_vma vm6 = vm_vma (kn_vm k)"
    using H(8) r5 by (simp_all add: rest_eq_def vm6_def)
  have me': "page_aligned me" "0 < me" using map_end_ok [of ke ?pm] me(1) by (auto simp: word_less_nat_alt word_le_nat_alt)
  have "KCONFIG_HEAP_INITIAL_PAGES * VMM_PAGE_SIZE = 0x10000" by (simp add: KCONFIG_HEAP_INITIAL_PAGES_def VMM_PAGE_SIZE_def)
  then obtain v where v: "kmain_vma_init k6 = set_vm (vm6\<lparr>vm_vma := v\<rparr>) k6" "vma_holds sa_ops sa_inv sa_areas v (boot_areas me)"
    using boot_areas_added [OF areas me' me(2)] by (simp add: kmain_vma_init_def k6 r6 vmm_direct_map_end_def Let_def)
  define k' where "k' = (kmain_vma_init k6)\<lparr>kn_sys := syscall_init (kn_sys (kmain_vma_init k6))\<rparr>"
  have mem: "vm_mem (kn_vm k0) = m" by (simp add: k0_def m_def)
  have up: "set_vm (vmm_unmap_identity vm3) (set_vm vm3 (set_vm vm2 k1)\<lparr>kn_mb2_info := PHYS_TO_VIRT mb2\<rparr>) = k5"
    by (simp add: k5_def vm5_def)
  have run: "kmain_memory ks ke mb2 k = Some k'"
    unfolding kmain_memory_def bi_def [symmetric] k0_def [symmetric] Let_def mem log option.case k1_def [symmetric] p
      set_vm_sel vm3(1) k1(3) kn_vm_upd up k6_def [symmetric] k'_def [symmetric] ..
  have rest: "kn_mb2_info k' = PHYS_TO_VIRT mb2" "kn_sys k' = syscall_init (kn_sys k)" "kn_tables k' = kn_tables k"
    "kn_irqs k' = kn_irqs k" "k_io (kn_kbd k') = k_io (kn_kbd k)"
    by (simp_all add: k'_def k6_def k5_def k1_def k0_def)
  have vm: "kn_vm k' = vm6\<lparr>vm_vma := v\<rparr>" "kn_heap k' = kn_heap (set_vm (vm6\<lparr>vm_vma := v\<rparr>) k6)" by (simp_all add: k'_def v(1))
  note took = H(6) [folded vm6_def, unfolded took_def]
  have "memory_up bi b me fs k'"
    unfolding memory_up_def vm kvm_ok_vma km_ok_set_vm k6(2)
    using H(1-5) H(7) [folded vm6_def] r6(1) v(2) sp5 took vm3(5,7) r5(4) t5 by (auto simp: vm6_def [symmetric])
  then show ?thesis using run rest by blast
qed

end
