(* ===== verification/Kmain_Boot.thy ===== *)
theory Kmain_Boot
  imports Kmain_Spec
begin

text \<open>
  The start-up sequence returns, from the state the boot loader leaves, with every part initialised; and an
  example of such a state.
\<close>

lemma kmain_kernel:
  assumes "kmain_memory ks ke mb2 (kmain_print ''[mb2] magic=%08x\<newline>'' [KInt 0x36d76289]
      ((kmain_print ''[init] idt ok\<newline>'' [] ((kmain_print ''[init] gdt ok\<newline>'' [] (k\<lparr>kn_kbd := (kn_kbd k)\<lparr>k_io := serial_init (k_io (kn_kbd k))\<rparr>,
         kn_tables := gdt_init l (kn_tables k)\<rparr>))\<lparr>kn_tables := idt_init l (gdt_init l (kn_tables k))\<rparr>))
       \<lparr>kn_tables := tss_init l (idt_init l (gdt_init l (kn_tables k)))\<rparr>)) = Some k5"
  shows "\<exists>k'. kmain dev l date time ks ke 0x36d76289 mb2 k = Some k' \<and> kn_heap k' = kn_heap k5 \<and> kn_tables k' = kn_tables k5 \<and>
    kn_sys k' = kn_sys k5 \<and> kn_mb2_info k' = kn_mb2_info k5 \<and>
    kn_irqs k' = irq_install_handler 1 (keyboard_irq1_handler dev) (kn_irqs k5) \<and>
    k_io (kn_kbd k') = k_io (snd (keyboard_init dev (kn_irqs k5, pic_init dev (kn_kbd k5))))"
  using assms by (simp add: kmain_def Let_def split_beta keyboard_init_def)

section \<open>Reaching the shell\<close>

text \<open>C3. The kernel boots. From a good magic number, boot information whose tag list is well formed, and a
  memory map from which the physical allocator got enough free pages (for the page tables of the kernel map and
  for the first 16 heap pages), \<open>kmain\<close> reaches the shell: the address space maps physical memory in the
  direct map and the first heap pages and nothing else, so that the identity map of the boot code is gone; the
  page tables, the heap pages and the pages still free are pairwise different pages of the allocator; its mapped pages are
  reachable at their addresses in the direct map; the
  heap is empty and consistent; the two kernel areas are registered; the boot information is remembered
  at its address in the direct map; the tables of the processor are loaded; system calls are ready; and only
  the keyboard's interrupt is let through, with its handler installed.\<close>

theorem kmain_boots:
  fixes k :: "'m kernel" and ks ke mb2 :: u32 and dev l
  defines "m \<equiv> vm_mem (kn_vm k)" and "bi \<equiv> \<lparr>g_mb2_info = mb2, kernel_phys_start = ks, kernel_phys_end = ke\<rparr>"
    and "d \<equiv> pmm_data (vm_pmm (kn_vm k))"
  assumes tags: "tags_at m (PHYS_TO_VIRT mb2 + 8) ts" "unat mb2 + 8 + tags_bytes ts \<le> unat mb2 + unat (rd32 m (PHYS_TO_VIRT mb2))"
      "unat mb2 + unat (rd32 m (PHYS_TO_VIRT mb2)) < 2 ^ 32"
    and boot: "boot_map_ok bi m tag" "length (g_regions d) = PMM_MAX_REGIONS"
    and pmm: "pmm_bitmap_init bi (d\<lparr>g_mem := m\<rparr>) = Some b" "\<forall>a \<in> bm_managed b. a < 0x40000000"
    and me: "me = vmm_map_end ke \<lparr>g_pmm_ops = Some (g_bitmap_ops bi), pmm_data = b\<rparr>" "me \<le> 0x20000000"
    and room: "2 * tables_for me + 32 \<le> card (bm_free b)"
    and areas: "sa_storage (vma_data (vm_vma (kn_vm k)))" and irqs: "length (kn_irqs k) = 16" and dev: "masks_read_back dev"
  shows "\<exists>k' fs. kmain dev l date time ks ke 0x36d76289 mb2 k = Some k' \<and> memory_up bi b me fs k' \<and>
    kn_mb2_info k' = PHYS_TO_VIRT mb2 \<and> kn_tables k' = tss_init l (idt_init l (gdt_init l (kn_tables k))) \<and>
    syscall_is_ready (kn_sys k') \<and> kn_irqs k' ! 1 = Some (keyboard_irq1_handler dev) \<and>
    (\<forall>irq < 16. irq_masked irq (k_io (kn_kbd k')) \<longleftrightarrow> irq \<noteq> 1) \<and> window (kn_vm k') {a \<in> bm_managed b. a < me}"
proof -
  define k4 where "k4 = kmain_print ''[mb2] magic=%08x\<newline>'' [KInt 0x36d76289]
      ((kmain_print ''[init] idt ok\<newline>'' [] ((kmain_print ''[init] gdt ok\<newline>'' [] (k\<lparr>kn_kbd := (kn_kbd k)\<lparr>k_io := serial_init (k_io (kn_kbd k))\<rparr>,
         kn_tables := gdt_init l (kn_tables k)\<rparr>))\<lparr>kn_tables := idt_init l (gdt_init l (kn_tables k))\<rparr>))
       \<lparr>kn_tables := tss_init l (idt_init l (gdt_init l (kn_tables k)))\<rparr>)"
  have k4: "kn_vm k4 = kn_vm k" "kn_tables k4 = tss_init l (idt_init l (gdt_init l (kn_tables k)))" "kn_irqs k4 = kn_irqs k"
    by (simp_all add: k4_def)
  have "bm_inv b" using bitmap_init [of bi "d\<lparr>g_mem := m\<rparr>" tag] boot pmm(1) by auto
  then obtain k5 fs where k5: "kmain_memory ks ke mb2 k4 = Some k5" "memory_up bi b me fs k5" "kn_mb2_info k5 = PHYS_TO_VIRT mb2"
    "kn_sys k5 = syscall_init (kn_sys k4)" "kn_tables k5 = kn_tables k4" "kn_irqs k5 = kn_irqs k4"
    using kmain_memory_up [of k4 mb2 ts ks ke b me] tags pmm me room areas unfolding k4 m_def bi_def d_def by blast
  from kmain_kernel [OF k5(1) [unfolded k4_def]] obtain k' where
    k': "kmain dev l date time ks ke 0x36d76289 mb2 k = Some k'" "kn_heap k' = kn_heap k5" "kn_tables k' = kn_tables k5"
    "kn_sys k' = kn_sys k5" "kn_mb2_info k' = kn_mb2_info k5"
    "kn_irqs k' = irq_install_handler 1 (keyboard_irq1_handler dev) (kn_irqs k5)"
    "k_io (kn_kbd k') = k_io (snd (keyboard_init dev (kn_irqs k5, pic_init dev (kn_kbd k5))))"
    by metis
  have "memory_up bi b me fs k'" using k5(2) k'(2) by (simp add: memory_up_def kn_vm_def)
  moreover have "kn_irqs k' ! 1 = Some (keyboard_irq1_handler dev)"
    using k'(6) irqs by (simp add: k5(6) k4(3) irq_install_handler_def word_le_nat_alt)
  moreover have "\<forall>irq < 16. irq_masked irq (k_io (kn_kbd k')) \<longleftrightarrow> irq \<noteq> 1"
    unfolding k'(7) by (intro allI impI) (rule only_irq1_unmasked [OF dev])
  moreover have "syscall_is_ready (kn_sys k')"
    by (simp add: k'(4) k5(4) syscall_is_ready_def syscall_init_def sys_print_def Let_def)
  moreover have "\<forall>a \<in> {a \<in> bm_managed b. a < me}. page_aligned a \<and> a < me" using \<open>bm_inv b\<close> bm.managed_page [of b] by simp
  then have "window (kn_vm k') {a \<in> bm_managed b. a < me}" using memory_up_window [OF \<open>memory_up bi b me fs k'\<close> me(2)] by blast
  ultimately show ?thesis using k'(1,3,5) k5(3,5) k4(2) by auto
qed

section \<open>An example\<close>

text \<open>The walk through the boot information, the reservations and the self-test keep the bases of the regions.\<close>

definition bases :: "bitmap_state \<Rightarrow> nat \<times> u32 list" where
  "bases s = (g_region_count s, map r_base (g_regions s))"

lemma bases_update: "r_base r' = r_base (g_regions s ! i) \<Longrightarrow> map r_base ((g_regions s)[i := r']) = map r_base (g_regions s)"
  by (cases "i < length (g_regions s)") (simp_all add: map_update list_update_same_conv list_update_beyond)

lemma set_base: "r_base (bitmap_set_r i r) = r_base r" "r_base (bitmap_clear_r i r) = r_base r"
  by (simp_all add: bitmap_set_r_def bitmap_clear_r_def Let_def)

lemma mark_used_bases: "bases (mark_used_from ri a s) = bases s"
  by (induction ri a s rule: mark_used_from.induct, subst mark_used_from.simps)
    (auto simp: Let_def bases_def bases_update set_base)

lemma mark_used_by_addr_bases: "bases (bitmap_mark_used_by_addr a s) = bases s"
  by (simp add: bitmap_mark_used_by_addr_def mark_used_bases)

lemma mark_used_loop_bases: "mark_used_loop p e s = Some s' \<Longrightarrow> bases s' = bases s"
proof (rule mark_used_loop.raw_induct [of "\<lambda>p e s s'. bases s' = bases s"])
  fix f p e s y
  assume IH: "\<And>p e s y. f p e s = Some y \<Longrightarrow> bases y = bases s"
    and y: "(if p < e then f (p + PMM_PAGE_SIZE) e (bitmap_mark_used_by_addr p s) else Some s) = Some y"
  show "bases y = bases s"
  proof (cases "p < e")
    case True
    with IH y show ?thesis by (metis mark_used_by_addr_bases)
  qed (use y in simp)
qed

lemma reserve_bases: "pmm_reserve_kernel_image bi s = Some s' \<Longrightarrow> bases s' = bases s"
    "pmm_reserve_multiboot2_info bi s = Some s' \<Longrightarrow> bases s' = bases s"
  by (auto simp: pmm_reserve_kernel_image_def pmm_reserve_multiboot2_info_def bitmap_mark_used_range_def Let_def
      dest: mark_used_loop_bases split: if_splits)

lemma resync_from_bases: "bases (resync_from ri s) = bases s"
  by (induction ri s rule: resync_from.induct, subst resync_from.simps) (auto simp: Let_def bases_def bases_update)

lemma resync_bases: "bases (pmm_resync_free_count s) = bases s"
  by (simp add: pmm_resync_free_count_def resync_from_bases) (simp add: bases_def)

lemma alloc_from_bases: "alloc_from off s = Some (p, s') \<Longrightarrow> bases s' = bases s"
proof (induction off s rule: alloc_from.induct)
  case (1 off s)
  define ri where "ri = (g_region_rr s + off) mod g_region_count s"
  define r where "r = g_regions s ! ri"
  have lt: "off < g_region_count s" using 1(3) by (subst (asm) alloc_from.simps) (simp split: if_splits)
  show ?case
  proof (cases "r_free r = 0 \<or> pmm_find_free_index r = None")
    case True
    then have "alloc_from (off + 1) s = Some (p, s')"
      using 1(3) lt by (subst (asm) alloc_from.simps) (auto simp: Let_def ri_def [symmetric] r_def [symmetric] split: if_splits)
    then show ?thesis using 1(1,2) lt True by (auto simp: ri_def [symmetric] r_def [symmetric])
  next
    case False
    then have "g_region_count s' = g_region_count s" "\<exists>idx. g_regions s' = (g_regions s)[ri := (bitmap_set_r idx r)\<lparr>r_free := r_free r - 1\<rparr>]"
      using 1(3) lt by (subst (asm) alloc_from.simps, auto simp: Let_def ri_def [symmetric] r_def [symmetric])+
    then show ?thesis by (auto simp: bases_def r_def set_base intro!: bases_update)
  qed
qed

lemma alloc_bases: "pmm_bitmap_alloc_page s = (p, s') \<Longrightarrow> bases s' = bases s"
  by (auto simp: pmm_bitmap_alloc_page_def resync_bases dest: alloc_from_bases split: if_splits option.splits)

lemma free_from_bases: "bases (free_from ri a s) = bases s"
  by (induction ri a s rule: free_from.induct, subst free_from.simps) (auto simp: Let_def bases_def bases_update set_base)

lemma free_all_bases: "bases (free_all pmm_bitmap_free_page ps s) = bases s"
  by (induction ps arbitrary: s) (auto simp: pmm_bitmap_free_page_def free_from_bases)

lemma selftest_alloc_bases: "selftest_alloc n s = (ps, s') \<Longrightarrow> bases s' = bases s"
  by (induction n arbitrary: s ps s') (auto split: prod.splits if_splits dest!: alloc_bases)

lemma selftest_bases: "bases (snd (pmm_selftest s)) = bases s"
proof -
  have m: "bases (s\<lparr>g_mem := m\<rparr>) = bases s" for s m by (simp add: bases_def)
  show ?thesis
    by (auto simp: pmm_selftest_def Let_def free_all_bases m dest: selftest_alloc_bases split: prod.splits)
qed

lemma recompute_bases: "bases (pmm_recompute_totals s) = bases s"
proof -
  have "bases (recompute_from i s) = bases s" for i s
    by (induction i s rule: recompute_from.induct, subst recompute_from.simps) (auto simp: bases_def)
  then show ?thesis by (simp add: pmm_recompute_totals_def) (simp add: bases_def)
qed

lemma bitmap_init_bases:
  assumes "boot_map_ok bi m tag" "g_mem s = m"
    and "fold_entries (init_entry bi (mb2_end_of bi m)) (mmap_ptrs m tag) (pmm_reset_state s, 0) = (s1, added)"
    and "pmm_bitmap_init bi s = Some s'"
  shows "bases s' = bases s1"
proof -
  have "bases (s1\<lparr>g_pmm_ready := True\<rparr>) = bases s1" by (simp add: bases_def)
  then show ?thesis
    using assms(4) unfolding bitmap_init_run [OF assms(1-3)]
    by (auto simp: Let_def recompute_bases selftest_bases resync_bases bind_eq_Some_conv dest!: reserve_bases split: if_splits)
qed

text \<open>The example's only region: 224 pages after the kernel image, the first of them taken by the bitmap.\<close>

definition sample_layout :: region_layout where
  "sample_layout = \<lparr>l_usable_start = 0x100000, l_usable_end = 0x200000, l_managed_start = 0x120000, l_managed_end = 0x200000,
     l_pages = 224, l_bitmap_bytes = 28, l_bitmap_storage_bytes = 0x1000, l_bitmap_pages = 1\<rparr>"

lemma sample_layout: "pmm_compute_region_layout 0x100000 0x200000 0x100000 0x120000 0x9000 0x9038 = Some sample_layout"
  by code_simp

lemma sample_region:
  defines "r \<equiv> pmm_region_bitmap_init_and_free_tail (fresh_region sample_boot_mem sample_layout)"
  shows "r_base r = 0x120000" "region_managed r = pages_between 0x120000 0x200000" "card (region_free_set r) = 223"
    "card (region_managed r) = 224"
proof -
  have "layout_safe 0x100000 0x200000 0x100000 0x120000 0x9000 0x9038 sample_layout"
    using sample_layout by (intro layout_attempts_safe) (auto simp: pmm_compute_region_layout_def split: if_splits)
  note fr = fresh_region [OF this, of sample_boot_mem, folded r_def]
  show "r_base r = 0x120000" "region_managed r = pages_between 0x120000 0x200000" using fr(2,5) by (simp_all add: sample_layout_def)
  show "card (region_managed r) = 224" using fr(1,3) by (simp add: card_region_managed region_inv_def sample_layout_def)
  have "clear_idx r = {j. j < 224} - {0}" using fr(4) by (auto simp: sample_layout_def word_le_nat_alt word_less_nat_alt unat_eq_0 Suc_le_eq)
  then have "card (clear_idx r) = 223" by (simp add: card_words_below)
  then show "card (region_free_set r) = 223" using fr(1) by (simp add: card_region_free_set region_inv_def)
qed

lemma sample_boot_pmm:
  "\<exists>b. pmm_bitmap_init sample_boot (sample_bitmap\<lparr>g_mem := sample_boot_mem\<rparr>) = Some b \<and> bm_ok b \<and>
     bm_managed b = pages_between 0x120000 0x200000 \<and> card (bm_free b) = 223 \<and> pmm_bitmap_managed_base b = 0x120000 \<and> pmm_bitmap_total_pages b = 224"
proof -
  let ?s = "sample_bitmap\<lparr>g_mem := sample_boot_mem\<rparr>" and ?r = "pmm_region_bitmap_init_and_free_tail (fresh_region sample_boot_mem sample_layout)"
  have len: "length (g_regions ?s) = PMM_MAX_REGIONS" by (simp add: sample_bitmap_def PMM_MAX_REGIONS_def)
  have clr: "length (clear_regions n rs) = length rs" for n rs by (induction n arbitrary: rs) simp_all
  define s1 where "s1 = (pmm_reset_state ?s)\<lparr>g_regions := (g_regions (pmm_reset_state ?s))[0 := ?r], g_region_count := 1\<rparr>"
  have en: "mb2_end_of sample_boot sample_boot_mem = 0x9038"
    by (simp add: mb2_end_of_def sample_boot_def PHYS_TO_VIRT_def KERNEL_VIRT_OFFSET_def sample_boot_reads)
  have ptrs: "mmap_ptrs sample_boot_mem 0xC0009008 = [0xC0009018]"
    by (simp add: mmap_ptrs_def mmap_entry_size_def tag_size_def sample_boot_reads entry_ptrs_def)
  have use: "entry_usable sample_boot_mem 0xC0009018 = Some (0x100000, 0x200000)"
    by (simp add: entry_usable_def entry_type_def entry_addr_def entry_len_def rd64_def sample_boot_reads u64_add_sat_def Let_def PMM_ONE_MIB_def)
  have "init_entry sample_boot 0x9038 0xC0009018 (pmm_reset_state ?s, 0) = (False, s1, 1)"
    by (simp add: init_entry_def use pmm_add_region_eq sample_layout pmm_reset_state_def sample_boot_def s1_def PMM_MAX_REGIONS_def)
  then have f: "fold_entries (init_entry sample_boot (mb2_end_of sample_boot sample_boot_mem)) (mmap_ptrs sample_boot_mem 0xC0009008)
      (pmm_reset_state ?s, 0) = (s1, 1)"
    unfolding en ptrs by simp
  have at: "region_at s1 0 = ?r" "g_region_count s1 = 1" "{..<g_region_count s1} = {0}"
    using len by (auto simp: s1_def region_at_def pmm_reset_state_def clr PMM_MAX_REGIONS_def)
  obtain b where b: "pmm_bitmap_init sample_boot ?s = Some b" "bm_ok b" "bm_managed b = region_managed ?r"
    "bm_free b = region_free_set ?r - touched_pages 0x100000 0x120000 - touched_pages 0x9000 0x9038"
    using bitmap_init_regions [OF sample_boot_ok _ len f] unfolding at(3) en by (auto simp: at(1) sample_boot_def)
  have "region_free_set ?r \<subseteq> pages_between 0x120000 0x200000" using region_free_subset sample_region(2) by blast
  moreover have "touched_pages 0x100000 0x120000 = pages_between 0x100000 0x120000" "touched_pages 0x9000 0x9038 = pages_between 0x9000 0xA000"
    by (simp_all add: touched_pages_def align_down_u32_def align_up_u32_def)
  moreover have "pages_between 0x120000 0x200000 \<inter> pages_between 0x100000 0x120000 = {}"
    "pages_between 0x120000 0x200000 \<inter> pages_between 0x9000 0xA000 = {}"
    by (auto simp: pages_between_def word_le_nat_alt word_less_nat_alt)
  ultimately have "bm_free b = region_free_set ?r" unfolding b(4) by blast
  then have c: "card (bm_free b) = 223" by (simp add: sample_region(3))
  have "bases b = bases s1" using bitmap_init_bases [OF sample_boot_ok _ f b(1)] by simp
  then have "g_region_count b = 1" "map r_base (g_regions b) = map r_base (g_regions s1)" using at(2) by (auto simp: bases_def)
  moreover have "length (g_regions b) = 32" using b(2) by (simp add: bm_ok_def bm_core_def PMM_MAX_REGIONS_def)
  moreover have "g_regions s1 ! 0 = ?r" "length (g_regions s1) = 32" using at(1) len by (simp_all add: region_at_def s1_def pmm_reset_state_def clr PMM_MAX_REGIONS_def)
  ultimately have "r_base (g_regions b ! 0) = 0x120000" by (metis nth_map sample_region(1) zero_less_numeral)
  then have "pmm_bitmap_managed_base b = 0x120000"
    using b(2) \<open>g_region_count b = 1\<close> by (simp add: pmm_bitmap_managed_base_def bm_ok_def min_base_from.simps)
  moreover have "unat (g_pmm_total_pages b) = 224"
    using b(2,3) card_bm_managed [of b] sample_region(4) by (simp add: bm_ok_def bm_managed_def)
  then have "pmm_bitmap_total_pages b = 224" using b(2) by (simp add: pmm_bitmap_total_pages_def bm_ok_def word_unat_eq_iff)
  ultimately show ?thesis using b(1,2,3) c sample_region(2) by blast
qed

text \<open>The statics before the start-up, and the memory of a machine with 2 MiB.\<close>

definition sample_kernel :: "unit kernel" where
  "sample_kernel = \<lparr>kn_kbd = sample_kbd, kn_irqs = replicate 16 None, kn_tables = sample_tables,
     kn_heap = \<lparr>g_heap_ops = None,
       km_heap = \<lparr>kh_vm = \<lparr>g_kernel_pd = replicate 1024 0, g_vmm_ready = False, g_next_vaddr = 0, g_direct_map_end = 0, pd_addr = 0xC0100000,
           vm_mem = sample_boot_mem, vm_cpu = [], vm_pmm = \<lparr>g_pmm_ops = None, pmm_data = sample_bitmap\<rparr>,
           vm_vma = \<lparr>g_vma_ops = None, g_vma_ready = False, vma_data = sample_vma_data\<rparr>\<rparr>,
         kh_mem = (\<lambda>_. 0), heap_start = 0, heap_brk = 0, heap_end = 0, free_list = 0\<rparr>\<rparr>,
     kn_sys = sample_sys, kn_mb2_info = 0\<rparr>"

theorem kmain_boots_witness:
  "\<exists>b k' fs. kmain sample_pic sample_link ''Jan  1 2025'' ''12:00:00'' 0x100000 0x120000 0x36d76289 0x9000 sample_kernel = Some k' \<and>
     memory_up sample_boot b 0x1000000 fs k' \<and> bm_managed b = pages_between 0x120000 0x200000"
proof -
  obtain b where b: "pmm_bitmap_init sample_boot (sample_bitmap\<lparr>g_mem := sample_boot_mem\<rparr>) = Some b" "bm_ok b"
    "bm_managed b = pages_between 0x120000 0x200000" "card (bm_free b) = 223" "pmm_bitmap_managed_base b = 0x120000" "pmm_bitmap_total_pages b = 224"
    using sample_boot_pmm by blast
  have k: "vm_mem (kn_vm sample_kernel) = sample_boot_mem" "pmm_data (vm_pmm (kn_vm sample_kernel)) = sample_bitmap"
    "vma_data (vm_vma (kn_vm sample_kernel)) = sample_vma_data" "length (kn_irqs sample_kernel) = 16"
    by (simp_all add: sample_kernel_def kn_vm_def)
  have bi: "\<lparr>g_mb2_info = 0x9000, kernel_phys_start = 0x100000, kernel_phys_end = 0x120000\<rparr> = sample_boot" by (simp add: sample_boot_def)
  have me: "0x1000000 = vmm_map_end 0x120000 \<lparr>g_pmm_ops = Some (g_bitmap_ops sample_boot), pmm_data = b\<rparr>"
    by (simp add: vmm_map_end_def pmm_managed_base_def pmm_total_pages_def g_bitmap_ops_def b(5,6) VMM_PAGE_SIZE_def)
  have tags: "tags_at sample_boot_mem (PHYS_TO_VIRT 0x9000 + 8) [(6, 40)]" "rd32 sample_boot_mem (PHYS_TO_VIRT 0x9000) = 0x38"
    by (simp_all add: PHYS_TO_VIRT_def KERNEL_VIRT_OFFSET_def tag_type_def tag_size_def sample_boot_reads tag_after_def)
  have small: "\<forall>a \<in> bm_managed b. a < 0x40000000" by (auto simp: b(3) pages_between_def word_less_nat_alt)
  have room: "2 * tables_for 0x1000000 + 32 \<le> card (bm_free b)" by (simp add: tables_for_def b(4))
  have len: "length (g_regions sample_bitmap) = PMM_MAX_REGIONS" by (simp add: sample_bitmap_def PMM_MAX_REGIONS_def)
  have ar: "sa_storage sample_vma_data" by (simp add: sa_storage_def sample_vma_data_def VMA_MAX_AREAS_def)
  show ?thesis
    using kmain_boots [where k = sample_kernel and ?mb2.0 = "0x9000" and ts = "[(6, 40)]" and ks = "0x100000" and ke = "0x120000", unfolded k bi, OF tags(1) _ _ sample_boot_ok len b(1) small me _ room ar _ sample_pic_masks]
      b(3) by (fastforce simp: tags(2))
qed

end
