(* ===== verification/Spec2Isabelle.thy ===== *)
theory Spec2Isabelle
  imports Vma_Sorted_Array Vma_Rbtree_Spec Vma_Maple_Spec Vmm_Tlb Kmalloc Syscall Traps Mmap Cmd_Vmm Kmain_Boot
begin

text \<open>
  A verification library for the i386 kernel under \<open>src/\<close>: its C code from boot-time memory
  discovery up to the shell, translated function by function, with the theorems that make each part
  correct. Machine integers are words, so every sum wraps around as in C; state is a record that each
  function takes and returns; what C leaves undefined, and a loop that need not end, is \<open>None\<close>.

  \<^bold>\<open>The program.\<close> The boot loader leaves a memory map (Multiboot2). The physical page allocator (PMM)
  finds usable memory in it, through one of two back-ends; the virtual memory manager (VMM) takes its
  page tables from the PMM, maps the kernel and turns paging on; the kernel heap maps its first pages
  through both and hands out objects, through a back-end of its own; the memory areas (VMA) record what
  is mapped where, for the page fault report. Descriptor tables, exceptions, interrupts and system calls
  connect the processor to this, and the keyboard, the serial port, \<open>printk\<close> and the shell the user.
  Every dispatch layer (\<open>pmm.c\<close>, \<open>kmalloc.c\<close>, \<open>vma.c\<close>) forwards to a table of function pointers; the
  contract of such a table is a locale, and every back-end that is modelled interprets it, but for the maple
  tree, which does not meet it (below).

  \<^bold>\<open>Shared theories.\<close> \<open>Prelude\<close>: word types, alignment, binary search. \<open>Phys_Mem\<close>: the 32-bit
  loads and stores of physical memory, and the direct map addresses of \<open>vmm.h\<close>. \<open>Ring_List\<close>: doubly
  linked rings in an indexed store (the free lists of the buddy allocator).

  \<^bold>\<open>Physical pages.\<close> \<open>Pmm\<close> is \<open>pmm.c\<close> with the contract \<open>pmm_backend\<close>: the set of free pages, and what
  allocation, freeing and the counters do to it. \<open>Mb2\<close> and \<open>Boot_Map\<close> are the parsing of the boot
  information and its walk. \<open>Pmm_Bitmap\<close> and \<open>Pmm_Bitmap_Init\<close> are \<open>pmm_bitmap.c\<close> (regions, bitmaps, the
  layout of the metadata, the self-test); \<open>Pmm_Buddy\<close> and \<open>Pmm_Buddy_Init\<close> are \<open>pmm_buddy.c\<close> (blocks, splitting,
  merging, the zone). Their lemmas show that the free set and the counters agree with the bitmaps or
  blocks, that allocation and freeing move exactly the pages they say, that initialisation returns from
  every acceptable memory map and never manages a page in use, and where the code departs from this.

  \<^bold>\<open>Virtual memory.\<close> \<open>Vmm\<close> translates \<open>vmm.c\<close>, over any back-end of \<open>pmm_backend\<close>; \<open>Vmm_Space\<close> abstracts
  page directories and tables to a map from pages to frames and states the invariant; \<open>Vmm_Alloc\<close> and
  \<open>Vmm_Init\<close> cover range allocation with its rollback and the boot mapping; \<open>Vmm_Kernel\<close> instantiates all
  of it on the two PMM back-ends and holds the properties. The code reads and writes page tables at their addresses in the
  direct map, and \<open>Vmm\<close> takes these accesses as getting there. \<open>Vmm_Window\<close> has accesses that the page tables translate,
  and that may fault, and the condition \<open>window\<close> that the direct map holds for given pages: where it does for the
  page tables, both views agree (\<open>window_tables\<close>), and the start-up theorem gives it for the pages of the allocator below
  the end of the mapped memory. It also has the accessed and dirty bits,
  which the processor sets in the entries at any time; that an operation leaves the address space
  unchanged means: up to these bits. \<open>Vmm_Tlb\<close> adds a translation cache that the
  processor fills at any time, and shows that no stale entry is ever used.

  \<^bold>\<open>Kernel heap.\<close> \<open>Heap_Ops\<close> is the table of \<open>kmalloc.h\<close> with the contract \<open>heap_backend\<close>: a request is answered with
  the address of a fresh, aligned object that is large enough and disjoint from the others, or with null exactly when there is
  no room, as the back-end defines it; objects keep their contents until they are freed. A run of a client is compared,
  answer by answer, with an abstract store of objects. \<open>Heap_First_Fit\<close>, \<open>Heap_First_Fit_Inv\<close> and
  \<open>Heap_First_Fit_Spec\<close> are \<open>heap_first_fit.c\<close>: the block list as a tiling of the heap, splitting and
  merging, and the refinement. \<open>Heap_Slab\<close> and \<open>Heap_Slab_Spec\<close> are \<open>heap_slab.c\<close>: the bitmap of a page as a set
  of slots and the two page lists of every size; \<open>Heap_Slab_Space\<close> adds that every page of the heap is mapped to a frame of
  its own, and the same refinement. \<open>Kmalloc\<close> is \<open>kmalloc.c\<close> on top of
  the VMM, with either back-end. The bytes of the heap are a memory of their own, indexed by virtual address; that its
  pages are mapped, writable, to different frames that nothing else uses is part of the theorems (\<open>backed\<close>).

  \<^bold>\<open>Memory areas.\<close> \<open>Vma\<close> is \<open>vma.c\<close> with the contract \<open>vma_backend\<close>: a sorted list of disjoint areas.
  \<open>Vma_Sorted_Array\<close> is \<open>vma_sorted_array.c\<close>. \<open>Vma_Rbtree\<close> translates \<open>vma_rbtree.c\<close> with its node pool,
  parent pointers and sentinel; \<open>Rb_Heap\<close> reads the pointers as a tree in a context and shows what
  rotations and recolourings do to it, mirror images once for both; \<open>Rb_Fixup\<close> is the two repair loops,
  \<open>Rb_Unlink\<close> taking a node out, and \<open>Vma_Rbtree_Spec\<close> the invariant, the contract and the balance.
  \<open>Vma_Maple\<close> translates \<open>vma_maple.c\<close>, nodes and splitting included. \<open>Vma_Maple_Spec\<close> shows that it answers
  like a sorted list as long as it holds at most nine areas, and that adding a tenth writes past the end of
  an array: C gives that add no meaning, the model no result. So no defined run of the kernel reaches the code
  that splits nodes, and there is no theorem about that code.

  \<^bold>\<open>Processor, devices and shell.\<close> \<open>Serial\<close> is \<open>io.h\<close> and \<open>serial.c\<close>, over a device that answers reads
  according to the history of accesses; \<open>Printk\<close> is \<open>printk.c\<close>, with the meaning of a format given
  separately; \<open>Irq\<close> is \<open>pic.c\<close> and \<open>irq.c\<close>, on controllers whose mask registers read back as those of the 8259
  (\<open>masks_read_back\<close>, stated over an automaton of its command sequence); \<open>Keyboard\<close> is \<open>keyboard.c\<close>, with the interleaving of
  the interrupt handler and the reader as a step relation; \<open>Shell\<close> is \<open>console.c\<close> and \<open>shell.c\<close>;
  \<open>Cpu_Tables\<close> is \<open>gdt.c\<close>, \<open>tss.c\<close> and the tables of \<open>idt.c\<close>; \<open>Traps\<close> is the exception handling of \<open>idt.c\<close>;
  \<open>Syscall\<close> is \<open>syscall.c\<close>. Above the serial driver, output is the list of the calls of \<open>printk\<close>; its text
  is \<open>vprintk\<close>, and the serial theorem says that the text of a call reaches the line.

  \<^bold>\<open>Reports and commands.\<close> \<open>Mmap\<close> is \<open>mmap.c\<close>, the printer of the memory map: what it prints is given separately, as
  a line for every entry and the first of the largest regions. \<open>Cmd_Args\<close> is the number parser of the commands,
  related to the numbers \<open>printk\<close> writes. \<open>Cmd_Vma\<close> is \<open>cmd_vma.c\<close>; \<open>Cmd_Vma_Spec\<close> runs its self-test against the
  contract of the memory areas: it passes with each of the three back-ends when eight more areas fit, which with the maple
  tree is not so in the running kernel. \<open>Cmd_Pmm\<close> is \<open>cmd_pmm.c\<close> and \<open>cmd_free.c\<close> on the
  state of the VMM; \<open>Cmd_Pmm_Spec\<close> shows that no line typed loses a page or touches the address space, that
  \<open>freeall\<close> undoes what was allocated, and that the self-test passes. The self-test writes a page through the direct map; where
  the direct map does not hold for a free page, that write faults or lands elsewhere, so \<open>window\<close> is a hypothesis for
  lines with \<open>pmm test\<close>. \<open>Cmd_Vmm\<close> is \<open>cmd_vmm.c\<close>: which lines change
  the address space and where, and that a lookup reports what was mapped, with the accessed and dirty bits as they are.

  \<^bold>\<open>Start-up.\<close> \<open>Kmain\<close> is \<open>kmain.c\<close>, with the back-ends that \<open>kconfig.h\<close> chooses: one record holds the state
  of all parts, and the start-up is the composition of their operations. \<open>Kmain_Spec\<close> joins the theorems of the parts
  into the state of the memory managers when the shell starts, and \<open>Kmain_Boot\<close> holds the end-to-end theorem, with
  a machine of 2 MiB on which its conditions hold. The bound of 512 MiB in it is the code's: above it the direct map
  runs into the heap.

  \<^bold>\<open>Loops.\<close> A loop with a bound is a total function. \<open>partial_function\<close> is used where the code polls a
  device (\<open>serial_wait\<close>, \<open>serial_getc\<close>, \<open>console_getc\<close>) and where a malformed structure in memory could
  keep it going (the walks over boot tags and over the block list, the loops of the red-black tree, the ways down and up the
  maple tree); the properties about these show that the value is \<open>Some\<close>, so that the code returns.

  \<^bold>\<open>Not modelled.\<close> Assembly (the boot code, the interrupt stubs, \<open>jump_to_ring3\<close>; \<open>gdt_flush\<close> is
  modelled by its effect). The other commands of the shell (in \<open>cmds/\<close>), which print state and run demonstrations. Printing
  inside the memory managers, which does not change their state.
\<close>

end
